(* ===== verification/Lamellar_Prelude.thy ===== *)
theory Lamellar_Prelude
  imports Main
begin

text \<open>
  Shared vocabulary of the development.

  A Rust expression either returns a value or panics: \<open>'a exec\<close>.  A Rust
  \<open>Result\<langle>T, E\<rangle>\<close> is the sum \<open>'e + 'a\<close> (\<open>Inl\<close> is \<open>Err\<close>) and an
  \<open>Option\<close> is \<open>'a option\<close>; a function that returns one of them and may also
  panic has type \<open>('e + 'a) exec\<close> or \<open>'a option exec\<close>.

  A \<open>usize\<close> is a \<open>nat\<close>.  Subtraction, division and remainder, whose failure is
  reachable with ordinary arguments, are checked (\<open>usub\<close>, \<open>udiv\<close>, \<open>umod\<close>: the
  semantics of a build with overflow checks); sums and products of sizes,
  addresses and PE numbers are taken below \<open>2 ^ 64\<close>.
\<close>

section \<open>Panics\<close>

datatype panic =
    SubOverflow
  | DivByZero
  | UnwrapNone
  | OutOfBounds
  | AssertFailed
  | ExplicitPanic
  | AddOverflow

datatype 'a exec = Ret 'a | Panic panic

definition ebind :: "'a exec \<Rightarrow> ('a \<Rightarrow> 'b exec) \<Rightarrow> 'b exec" where
  "ebind m f = (case m of Ret x \<Rightarrow> f x | Panic p \<Rightarrow> Panic p)"

definition usub :: "nat \<Rightarrow> nat \<Rightarrow> nat exec" where
  "usub a b = (if b \<le> a then Ret (a - b) else Panic SubOverflow)"

definition udiv :: "nat \<Rightarrow> nat \<Rightarrow> nat exec" where
  "udiv a b = (if b = 0 then Panic DivByZero else Ret (a div b))"

definition umod :: "nat \<Rightarrow> nat \<Rightarrow> nat exec" where
  "umod a b = (if b = 0 then Panic DivByZero else Ret (a mod b))"

definition uassert :: "bool \<Rightarrow> unit exec" where
  "uassert b = (if b then Ret () else Panic AssertFailed)"

named_theorems exec_simps \<open>evaluation of the panic monad\<close>

lemma ebind_simps [simp, exec_simps]:
  "ebind (Ret x) f = f x"
  "ebind (Panic p) f = Panic p"
  by (simp_all add: ebind_def)

lemma ebind_cong [fundef_cong]:
  "m = m' \<Longrightarrow> (\<And>x. m' = Ret x \<Longrightarrow> f x = f' x) \<Longrightarrow> ebind m f = ebind m' f'"
  by (cases m') simp_all

lemma ebind_eq_Ret [exec_simps]:
  "ebind m f = Ret y \<longleftrightarrow> (\<exists>x. m = Ret x \<and> f x = Ret y)"
  by (cases m) simp_all

lemma usub_Ret [exec_simps]: "usub a b = Ret c \<longleftrightarrow> b \<le> a \<and> c = a - b"
  by (auto simp: usub_def)

lemma usub_ok [simp]: "b \<le> a \<Longrightarrow> usub a b = Ret (a - b)"
  by (simp add: usub_def)

lemma udiv_ok [simp]: "0 < b \<Longrightarrow> udiv a b = Ret (a div b)"
  by (simp add: udiv_def)

lemma umod_ok [simp]: "0 < b \<Longrightarrow> umod a b = Ret (a mod b)"
  by (simp add: umod_def)

lemma uassert_Ret [exec_simps]: "uassert b = Ret u \<longleftrightarrow> b"
  by (simp add: uassert_def)

lemma uassert_True [simp]: "uassert True = Ret ()"
  by (simp add: uassert_def)

text \<open>The operator \<open>?\<close> on an \<open>Option\<close> that a possibly panicking expression returns.\<close>

definition etry :: "'a option exec \<Rightarrow> ('a \<Rightarrow> 'b option exec) \<Rightarrow> 'b option exec" where
  "etry m f = ebind m (\<lambda>r. case r of None \<Rightarrow> Ret None | Some x \<Rightarrow> f x)"

lemma etry_simps [simp, exec_simps]:
  "etry (Ret None) f = Ret None"
  "etry (Ret (Some x)) f = f x"
  "etry (Panic p) f = Panic p"
  by (simp_all add: etry_def)

section \<open>Lists\<close>

lemma inj_on_imp_distinct_map_upt:
  "inj_on f {a..<b} \<Longrightarrow> distinct (map f [a..<b])"
  by (simp add: distinct_map)

lemma insert_nth_split:
  "k \<le> length xs \<Longrightarrow> xs = take k xs @ drop k xs"
  by simp

section \<open>Atomic counters\<close>

text \<open>\<open>AtomicUsize::fetch_add\<close> and \<open>fetch_sub\<close> wrap around at \<open>2 ^ 64\<close>.\<close>

definition usize_mod :: nat where
  "usize_mod = 2 ^ 64"

definition fetch_add_usize :: "nat \<Rightarrow> nat \<Rightarrow> nat" where
  "fetch_add_usize a k = (a + k) mod usize_mod"

definition fetch_sub_usize :: "nat \<Rightarrow> nat \<Rightarrow> nat" where
  "fetch_sub_usize a k = (a + (usize_mod - k mod usize_mod)) mod usize_mod"

lemma fetch_add_usize_ok [simp]: "a + k < usize_mod \<Longrightarrow> fetch_add_usize a k = a + k"
  by (simp add: fetch_add_usize_def)

lemma fetch_sub_usize_ok [simp]:
  assumes "k \<le> a" "a < usize_mod"
  shows "fetch_sub_usize a k = a - k"
proof -
  have "a + (usize_mod - k) = (a - k) + usize_mod" using assms by simp
  then have "(a + (usize_mod - k)) mod usize_mod = (a - k) mod usize_mod" by simp
  with assms show ?thesis by (simp add: fetch_sub_usize_def)
qed

section \<open>Regions of an address space\<close>

text \<open>The bytes \<open>lo, \<dots>, lo + n - 1\<close>.\<close>

definition region :: "nat \<Rightarrow> nat \<Rightarrow> nat set" where
  "region lo n = {lo..<lo + n}"

lemma region_0 [simp]: "region lo 0 = {}"
  by (simp add: region_def)

lemma region_disjoint: "a + m \<le> b \<or> b + n \<le> a \<Longrightarrow> region a m \<inter> region b n = {}"
  by (auto simp: region_def)

lemma region_subset: "lo \<le> a \<Longrightarrow> a + m \<le> lo + n \<Longrightarrow> region a m \<subseteq> region lo n"
  by (auto simp: region_def)

lemma region_split: "region a (m + n) = region a m \<union> region (a + m) n"
  by (auto simp: region_def)

lemma length_filter_update:
  "i < length xs \<Longrightarrow> length (filter P (xs[i := x])) + of_bool (P (xs ! i)) = length (filter P xs) + of_bool (P x)"
proof (induction xs arbitrary: i)
  case (Cons y ys)
  then show ?case by (cases i) auto
qed simp

lemma sum_map_update:
  "i < length xs \<Longrightarrow> sum_list (map f (xs[i := x])) + f (xs ! i) = sum_list (map f xs) + (f x :: nat)"
proof (induction xs arbitrary: i)
  case (Cons y ys)
  then show ?case by (cases i) auto
qed simp

end
