(* ===== verification/Lamellar_Arch.thy ===== *)
theory Lamellar_Arch
  imports Lamellar_Prelude
begin

text \<open>
  The PE id spaces of teams (\<open>lamellar_arch.rs\<close>).  A team's architecture maps the
  ids \<open>0..num_pes\<close> of its members to ids of its parent team and back; a chain of
  architectures (\<open>LamellarArchRT\<close>) composes these maps up to world ids.
\<close>

section \<open>Architectures\<close>

datatype id_error = IdError (err_parent_pe: nat) (err_team_pe: nat)

type_synonym 'a arch_result = "id_error + 'a"

record global_arch =
  ga_num_pes :: nat

record strided_arch =
  sa_num_pes :: nat
  sa_start_pe :: nat
  sa_end_pe :: nat
  sa_stride :: nat

record blocked_arch =
  ba_num_pes :: nat
  ba_start_pe :: nat
  ba_end_pe :: nat

text \<open>An implementation of the trait \<open>LamellarArch\<close> supplied by the user: its methods.\<close>

record dyn_arch =
  da_num_pes :: nat
  da_start_pe :: nat
  da_end_pe :: nat
  da_parent_pe_id :: "nat \<Rightarrow> nat arch_result"
  da_team_pe_id :: "nat \<Rightarrow> nat arch_result"

datatype lamellar_arch_enum =
    GlobalArch global_arch
  | StridedArch strided_arch
  | BlockedArch blocked_arch
  | Dynamic dyn_arch

subsection \<open>GlobalArch\<close>

definition global_new :: "nat \<Rightarrow> global_arch" where
  "global_new n = \<lparr>ga_num_pes = n\<rparr>"

definition global_end_pe :: "global_arch \<Rightarrow> nat exec" where
  "global_end_pe a = usub (ga_num_pes a) 1"

definition global_parent_pe_id :: "global_arch \<Rightarrow> nat \<Rightarrow> nat arch_result" where
  "global_parent_pe_id a team_pe =
     (if team_pe < ga_num_pes a then Inr team_pe else Inl (IdError team_pe team_pe))"

definition global_team_pe_id :: "global_arch \<Rightarrow> nat \<Rightarrow> nat arch_result" where
  "global_team_pe_id a parent_pe =
     (if parent_pe < ga_num_pes a then Inr parent_pe else Inl (IdError parent_pe parent_pe))"

subsection \<open>StridedArch\<close>

text \<open>The constructor adds the stride once per PE after the first.\<close>

fun strided_end_loop :: "nat \<Rightarrow> nat \<Rightarrow> nat list \<Rightarrow> nat" where
  "strided_end_loop end_pe stride [] = end_pe"
| "strided_end_loop end_pe stride (_ # is) = strided_end_loop (end_pe + stride) stride is"

definition strided_new :: "nat \<Rightarrow> nat \<Rightarrow> nat \<Rightarrow> strided_arch" where
  "strided_new start_pe stride num_team_pes =
     \<lparr>sa_num_pes = num_team_pes, sa_start_pe = start_pe,
      sa_end_pe = strided_end_loop start_pe stride [1..<num_team_pes], sa_stride = stride\<rparr>"

definition strided_parent_pe_id :: "strided_arch \<Rightarrow> nat \<Rightarrow> nat arch_result" where
  "strided_parent_pe_id a team_pe =
     (let parent_pe = sa_start_pe a + team_pe * sa_stride a in
      if parent_pe \<ge> sa_start_pe a \<and> parent_pe \<le> sa_end_pe a \<and> team_pe < sa_num_pes a
      then Inr parent_pe
      else Inl (IdError parent_pe team_pe))"

text \<open>The remainder is only evaluated when the range tests hold; a stride of 0 then panics.\<close>

definition strided_team_pe_id :: "strided_arch \<Rightarrow> nat \<Rightarrow> nat arch_result exec" where
  "strided_team_pe_id a parent_pe =
     (if parent_pe \<ge> sa_start_pe a \<and> parent_pe \<le> sa_end_pe a then
        ebind (usub parent_pe (sa_start_pe a)) (\<lambda>d.
        ebind (umod d (sa_stride a)) (\<lambda>r.
        if r = 0 then
          ebind (udiv d (sa_stride a)) (\<lambda>team_pe.
          if team_pe < sa_num_pes a then Ret (Inr team_pe)
          else Ret (Inl (IdError parent_pe team_pe)))
        else Ret (Inl (IdError parent_pe 0))))
      else Ret (Inl (IdError parent_pe 0)))"

subsection \<open>BlockedArch\<close>

definition blocked_new :: "nat \<Rightarrow> nat \<Rightarrow> blocked_arch exec" where
  "blocked_new start_pe num_team_pes =
     ebind (usub (start_pe + num_team_pes) 1) (\<lambda>end_pe.
     Ret \<lparr>ba_num_pes = num_team_pes, ba_start_pe = start_pe, ba_end_pe = end_pe\<rparr>)"

definition blocked_parent_pe_id :: "blocked_arch \<Rightarrow> nat \<Rightarrow> nat arch_result" where
  "blocked_parent_pe_id a team_pe =
     (let parent_pe = ba_start_pe a + team_pe in
      if parent_pe \<ge> ba_start_pe a \<and> parent_pe \<le> ba_end_pe a \<and> team_pe < ba_num_pes a
      then Inr parent_pe
      else Inl (IdError parent_pe team_pe))"

definition blocked_team_pe_id :: "blocked_arch \<Rightarrow> nat \<Rightarrow> nat arch_result" where
  "blocked_team_pe_id a parent_pe =
     (if parent_pe \<ge> ba_start_pe a \<and> parent_pe \<le> ba_end_pe a then
        let team_pe = parent_pe - ba_start_pe a in
        if team_pe < ba_num_pes a then Inr team_pe
        else Inl (IdError parent_pe team_pe)
      else Inl (IdError parent_pe 0))"

subsection \<open>Dispatch over the enumeration\<close>

fun arch_num_pes :: "lamellar_arch_enum \<Rightarrow> nat" where
  "arch_num_pes (GlobalArch a) = ga_num_pes a"
| "arch_num_pes (StridedArch a) = sa_num_pes a"
| "arch_num_pes (BlockedArch a) = ba_num_pes a"
| "arch_num_pes (Dynamic a) = da_num_pes a"

fun arch_start_pe :: "lamellar_arch_enum \<Rightarrow> nat" where
  "arch_start_pe (GlobalArch a) = 0"
| "arch_start_pe (StridedArch a) = sa_start_pe a"
| "arch_start_pe (BlockedArch a) = ba_start_pe a"
| "arch_start_pe (Dynamic a) = da_start_pe a"

fun arch_end_pe :: "lamellar_arch_enum \<Rightarrow> nat exec" where
  "arch_end_pe (GlobalArch a) = global_end_pe a"
| "arch_end_pe (StridedArch a) = Ret (sa_end_pe a)"
| "arch_end_pe (BlockedArch a) = Ret (ba_end_pe a)"
| "arch_end_pe (Dynamic a) = Ret (da_end_pe a)"

fun arch_parent_pe_id :: "lamellar_arch_enum \<Rightarrow> nat \<Rightarrow> nat arch_result" where
  "arch_parent_pe_id (GlobalArch a) team_pe = global_parent_pe_id a team_pe"
| "arch_parent_pe_id (StridedArch a) team_pe = strided_parent_pe_id a team_pe"
| "arch_parent_pe_id (BlockedArch a) team_pe = blocked_parent_pe_id a team_pe"
| "arch_parent_pe_id (Dynamic a) team_pe = da_parent_pe_id a team_pe"

fun arch_team_pe_id :: "lamellar_arch_enum \<Rightarrow> nat \<Rightarrow> nat arch_result exec" where
  "arch_team_pe_id (GlobalArch a) world_pe = Ret (global_team_pe_id a world_pe)"
| "arch_team_pe_id (StridedArch a) world_pe = strided_team_pe_id a world_pe"
| "arch_team_pe_id (BlockedArch a) world_pe = Ret (blocked_team_pe_id a world_pe)"
| "arch_team_pe_id (Dynamic a) world_pe = Ret (da_team_pe_id a world_pe)"

text \<open>
  \<open>LamellarArchEnum::new\<close> recovers the concrete type of its argument by
  downcasting; the argument's concrete type is the constructor here, so the
  downcast is the identity and only the assertion remains.
\<close>

definition arch_enum_new :: "lamellar_arch_enum \<Rightarrow> lamellar_arch_enum exec" where
  "arch_enum_new arch = ebind (uassert (arch_num_pes arch > 0)) (\<lambda>_. Ret arch)"

section \<open>LamellarArchRT: the chain of teams up to the world\<close>

datatype lamellar_arch_rt =
  ArchRT (rt_parent: "lamellar_arch_rt option") (rt_arch: lamellar_arch_enum) (rt_num_pes: nat)

definition arch_rt_new :: "lamellar_arch_rt \<Rightarrow> lamellar_arch_enum \<Rightarrow> lamellar_arch_rt exec" where
  "arch_rt_new parent arch =
     ebind (uassert (arch_num_pes arch \<le> rt_num_pes parent)) (\<lambda>_.
     ebind (arch_end_pe arch) (\<lambda>arch_last.
     ebind (arch_end_pe (rt_arch parent)) (\<lambda>last_pe.
     let arch_first = arch_start_pe arch; first_pe = arch_start_pe (rt_arch parent) in
     ebind (uassert (first_pe \<le> arch_first \<and> arch_first \<le> last_pe
                     \<and> first_pe \<le> arch_last \<and> arch_last \<le> last_pe)) (\<lambda>_.
     ebind (arch_enum_new arch) (\<lambda>enum.
     Ret (ArchRT (Some parent) enum (arch_num_pes arch)))))))"

fun world_pe :: "lamellar_arch_rt \<Rightarrow> nat \<Rightarrow> nat arch_result" where
  "world_pe (ArchRT parent arch _) team_pe =
     (case arch_parent_pe_id arch team_pe of
        Inl e \<Rightarrow> Inl e
      | Inr parent_pe \<Rightarrow>
          (case parent of
             Some p \<Rightarrow> world_pe p parent_pe
           | None \<Rightarrow> Inr parent_pe))"

fun team_pe :: "lamellar_arch_rt \<Rightarrow> nat \<Rightarrow> nat arch_result exec" where
  "team_pe (ArchRT parent arch _) wpe =
     (case parent of
        Some p \<Rightarrow>
          ebind (team_pe p wpe) (\<lambda>r.
          case r of
            Inl e \<Rightarrow> Ret (Inl e)
          | Inr parent_pe \<Rightarrow> arch_team_pe_id arch parent_pe)
      | None \<Rightarrow> arch_team_pe_id arch wpe)"

subsection \<open>Iterating over the PEs of a team\<close>

record arch_rt_iter =
  it_arch :: lamellar_arch_rt
  it_cur_pe :: nat
  it_single :: bool

definition team_iter :: "lamellar_arch_rt \<Rightarrow> arch_rt_iter" where
  "team_iter a = \<lparr>it_arch = a, it_cur_pe = 0, it_single = False\<rparr>"

definition single_iter :: "lamellar_arch_rt \<Rightarrow> nat \<Rightarrow> arch_rt_iter" where
  "single_iter a pe = \<lparr>it_arch = a, it_cur_pe = pe, it_single = True\<rparr>"

definition iter_next :: "arch_rt_iter \<Rightarrow> nat option \<times> arch_rt_iter" where
  "iter_next it =
     (if it_cur_pe it < rt_num_pes (it_arch it) then
        let res = (case world_pe (it_arch it) (it_cur_pe it) of
                     Inr pe \<Rightarrow> Some pe | Inl _ \<Rightarrow> None);
            cur = (if it_single it then rt_num_pes (it_arch it) else it_cur_pe it + 1)
        in (res, it\<lparr>it_cur_pe := cur\<rparr>)
      else (None, it))"

text \<open>\<open>collect()\<close>: call \<open>next\<close> until it returns \<open>None\<close>.\<close>

function iter_collect :: "arch_rt_iter \<Rightarrow> nat list" where
  "iter_collect it =
     (case iter_next it of
        (None, _) \<Rightarrow> []
      | (Some pe, it') \<Rightarrow> pe # iter_collect it')"
  by pat_completeness auto
termination
  by (relation "measure (\<lambda>it. rt_num_pes (it_arch it) - it_cur_pe it)")
     (auto simp: iter_next_def Let_def split: if_splits)

declare iter_collect.simps [simp del]

section \<open>The contract of an id space\<close>

text \<open>
  What the rest of the runtime relies on: every member of the team has an id in
  the outer id space, the two maps are inverse to each other, and neither panics.
\<close>

locale id_space =
  fixes wf :: "'a \<Rightarrow> bool"
    and size_of :: "'a \<Rightarrow> nat"
    and outer :: "'a \<Rightarrow> nat \<Rightarrow> nat arch_result"
    and inner :: "'a \<Rightarrow> nat \<Rightarrow> nat arch_result exec"
  assumes outer_total: "wf a \<Longrightarrow> p < size_of a \<Longrightarrow> \<exists>q. outer a p = Inr q"
    and outer_dom: "wf a \<Longrightarrow> outer a p = Inr q \<Longrightarrow> p < size_of a"
    and inner_outer: "wf a \<Longrightarrow> outer a p = Inr q \<Longrightarrow> inner a q = Ret (Inr p)"
    and outer_inner: "wf a \<Longrightarrow> inner a q = Ret (Inr p) \<Longrightarrow> outer a p = Inr q"
    and inner_returns: "wf a \<Longrightarrow> \<exists>r. inner a q = Ret r"
begin

lemma outer_ok_iff: "wf a \<Longrightarrow> (\<exists>q. outer a p = Inr q) \<longleftrightarrow> p < size_of a"
  using outer_total outer_dom by blast

lemma outer_inj:
  assumes "wf a" "outer a p = Inr q" "outer a p' = Inr q"
  shows "p = p'"
  using inner_outer [OF assms(1,2)] inner_outer [OF assms(1,3)] by simp

lemma id_space_roundtrip:
  "wf a \<Longrightarrow> p < size_of a \<Longrightarrow> \<exists>q. outer a p = Inr q \<and> inner a q = Ret (Inr p)"
  using outer_total inner_outer by blast

lemma distinct_outer_ids:
  assumes "wf a"
  shows "distinct (map (\<lambda>p. projr (outer a p)) [0..<size_of a])"
proof (rule inj_on_imp_distinct_map_upt, rule inj_onI)
  fix p p'
  assume p: "p \<in> {0..<size_of a}" "p' \<in> {0..<size_of a}"
    and eq: "projr (outer a p) = projr (outer a p')"
  obtain q q' where "outer a p = Inr q" "outer a p' = Inr q'"
    using outer_total [OF assms] p by fastforce
  with eq show "p = p'" using outer_inj [OF assms] by auto
qed

end

locale bounded_id_space = id_space wf size_of outer inner
  for wf :: "'a \<Rightarrow> bool" and size_of outer inner +
  fixes first_pe :: "'a \<Rightarrow> nat" and last_pe :: "'a \<Rightarrow> nat exec"
  assumes last_returns: "wf a \<Longrightarrow> \<exists>hi. last_pe a = Ret hi"
    and outer_bounds: "wf a \<Longrightarrow> last_pe a = Ret hi \<Longrightarrow> outer a p = Inr q \<Longrightarrow> first_pe a \<le> q \<and> q \<le> hi"
begin

lemma outer_below:
  assumes "wf a" "last_pe a = Ret hi" "hi < n" "p < size_of a"
  shows "\<exists>q<n. outer a p = Inr q"
proof -
  obtain q where "outer a p = Inr q" using outer_total assms by blast
  with outer_bounds [OF assms(1,2)] assms(3) show ?thesis by fastforce
qed

end

subsection \<open>Every architecture meets it\<close>

definition global_wf :: "global_arch \<Rightarrow> bool" where
  "global_wf a \<longleftrightarrow> 0 < ga_num_pes a"

definition strided_wf :: "strided_arch \<Rightarrow> bool" where
  "strided_wf a \<longleftrightarrow> 0 < sa_num_pes a \<and> 0 < sa_stride a
     \<and> sa_end_pe a = sa_start_pe a + (sa_num_pes a - 1) * sa_stride a"

definition blocked_wf :: "blocked_arch \<Rightarrow> bool" where
  "blocked_wf a \<longleftrightarrow> 0 < ba_num_pes a \<and> ba_end_pe a = ba_start_pe a + ba_num_pes a - 1"

lemma strided_end_loop_eq: "strided_end_loop e s is = e + length is * s"
  by (induction "is" arbitrary: e) (simp_all add: algebra_simps)

lemma strided_new_wf: "0 < n \<Longrightarrow> 0 < stride \<Longrightarrow> strided_wf (strided_new start stride n)"
  by (simp add: strided_wf_def strided_new_def strided_end_loop_eq)

lemma blocked_new_wf: "0 < n \<Longrightarrow> \<exists>a. blocked_new start n = Ret a \<and> blocked_wf a"
  by (simp add: blocked_new_def blocked_wf_def)

lemma strided_parent_ok_iff:
  assumes "strided_wf a"
  shows "strided_parent_pe_id a p = Inr q \<longleftrightarrow>
    p < sa_num_pes a \<and> q = sa_start_pe a + p * sa_stride a"
proof -
  have "p * sa_stride a \<le> (sa_num_pes a - 1) * sa_stride a" if "p < sa_num_pes a"
    using that by (intro mult_le_mono1) simp
  with assms show ?thesis
    by (auto simp: strided_parent_pe_id_def strided_wf_def Let_def split: if_splits)
qed

lemma strided_team_ok_iff:
  assumes "strided_wf a"
  shows "strided_team_pe_id a q = Ret (Inr p) \<longleftrightarrow>
    p < sa_num_pes a \<and> q = sa_start_pe a + p * sa_stride a"
proof -
  have le: "p * sa_stride a \<le> (sa_num_pes a - 1) * sa_stride a" if "p < sa_num_pes a"
    using that by (intro mult_le_mono1) simp
  have "q = sa_start_pe a + (q - sa_start_pe a) div sa_stride a * sa_stride a"
    if "sa_start_pe a \<le> q" "(q - sa_start_pe a) mod sa_stride a = 0"
    using that div_mult_mod_eq [of "q - sa_start_pe a" "sa_stride a"] by simp
  with assms le show ?thesis
    by (auto simp: strided_team_pe_id_def strided_wf_def split: if_splits)
qed

lemma strided_team_returns: "strided_wf a \<Longrightarrow> \<exists>r. strided_team_pe_id a q = Ret r"
  by (auto simp: strided_team_pe_id_def strided_wf_def)

interpretation global_ids: bounded_id_space
  global_wf ga_num_pes global_parent_pe_id "\<lambda>a q. Ret (global_team_pe_id a q)" "\<lambda>_. 0" global_end_pe
  by unfold_locales
     (auto simp: global_wf_def global_parent_pe_id_def global_team_pe_id_def global_end_pe_def
           split: if_splits)

interpretation strided_ids: bounded_id_space
  strided_wf sa_num_pes strided_parent_pe_id strided_team_pe_id sa_start_pe "\<lambda>a. Ret (sa_end_pe a)"
proof unfold_locales
  fix a :: strided_arch and p q hi
  assume wf: "strided_wf a" and "Ret (sa_end_pe a) = Ret hi" and "strided_parent_pe_id a p = Inr q"
  then show "sa_start_pe a \<le> q \<and> q \<le> hi"
    by (auto simp: strided_parent_pe_id_def Let_def split: if_splits)
qed (auto simp: strided_parent_ok_iff strided_team_ok_iff strided_team_returns)

interpretation blocked_ids: bounded_id_space
  blocked_wf ba_num_pes blocked_parent_pe_id "\<lambda>a q. Ret (blocked_team_pe_id a q)"
  ba_start_pe "\<lambda>a. Ret (ba_end_pe a)"
  by unfold_locales
     (auto simp: blocked_wf_def blocked_parent_pe_id_def blocked_team_pe_id_def Let_def
           split: if_splits)

text \<open>
  A user-supplied architecture is used under the contract its trait documents,
  on the ids it is asked about (members, and outer ids of members).
\<close>

definition dyn_wf :: "dyn_arch \<Rightarrow> bool" where
  "dyn_wf a \<longleftrightarrow> 0 < da_num_pes a
     \<and> (\<forall>p q. da_parent_pe_id a p = Inr q \<longleftrightarrow>
            p < da_num_pes a \<and> da_team_pe_id a q = Inr p)
     \<and> (\<forall>p<da_num_pes a. \<exists>q. da_parent_pe_id a p = Inr q)
     \<and> (\<forall>p q. da_team_pe_id a q = Inr p \<longrightarrow> p < da_num_pes a)
     \<and> (\<forall>p q. da_parent_pe_id a p = Inr q \<longrightarrow> da_start_pe a \<le> q \<and> q \<le> da_end_pe a)"

fun arch_wf :: "lamellar_arch_enum \<Rightarrow> bool" where
  "arch_wf (GlobalArch a) = global_wf a"
| "arch_wf (StridedArch a) = strided_wf a"
| "arch_wf (BlockedArch a) = blocked_wf a"
| "arch_wf (Dynamic a) = dyn_wf a"

interpretation enum_ids: bounded_id_space
  arch_wf arch_num_pes arch_parent_pe_id arch_team_pe_id arch_start_pe arch_end_pe
proof unfold_locales
  fix a p assume "arch_wf a" "p < arch_num_pes a"
  then show "\<exists>q. arch_parent_pe_id a p = Inr q"
    by (cases a) (auto simp: dyn_wf_def
        intro: global_ids.outer_total strided_ids.outer_total blocked_ids.outer_total)
next
  fix a p q assume "arch_wf a" "arch_parent_pe_id a p = Inr q"
  then show "p < arch_num_pes a"
    by (cases a) (auto simp: dyn_wf_def
        dest: global_ids.outer_dom strided_ids.outer_dom blocked_ids.outer_dom)
next
  fix a p q assume "arch_wf a" "arch_parent_pe_id a p = Inr q"
  then show "arch_team_pe_id a q = Ret (Inr p)"
    by (cases a) (auto simp: dyn_wf_def
        dest: global_ids.inner_outer strided_ids.inner_outer blocked_ids.inner_outer)
next
  fix a p q assume "arch_wf a" "arch_team_pe_id a q = Ret (Inr p)"
  then show "arch_parent_pe_id a p = Inr q"
    by (cases a) (auto simp: dyn_wf_def
        intro: global_ids.outer_inner strided_ids.outer_inner blocked_ids.outer_inner)
next
  fix a q assume "arch_wf a"
  then show "\<exists>r. arch_team_pe_id a q = Ret r"
    by (cases a) (auto intro: strided_ids.inner_returns)
next
  fix a assume "arch_wf a"
  then show "\<exists>hi. arch_end_pe a = Ret hi"
    by (cases a) (auto intro: global_ids.last_returns)
next
  fix a hi p q assume "arch_wf a" "arch_end_pe a = Ret hi" "arch_parent_pe_id a p = Inr q"
  then show "arch_start_pe a \<le> q \<and> q \<le> hi"
    by (cases a) (auto simp: dyn_wf_def
        dest: global_ids.outer_bounds strided_ids.outer_bounds blocked_ids.outer_bounds)
qed

subsection \<open>The chain of teams meets it too\<close>

text \<open>
  A chain is well formed when every architecture is, the cached size agrees with the
  architecture, and every PE of a team is a PE of its parent.
\<close>

fun rt_wf :: "lamellar_arch_rt \<Rightarrow> bool" where
  "rt_wf (ArchRT parent arch n) \<longleftrightarrow>
     arch_wf arch \<and> n = arch_num_pes arch
     \<and> (case parent of
          None \<Rightarrow> True
        | Some p \<Rightarrow> rt_wf p \<and>
            (\<forall>i\<in>{..<n}. case arch_parent_pe_id arch i of Inr q \<Rightarrow> q < rt_num_pes p | Inl _ \<Rightarrow> False))"

lemma rt_wf_parent_bound:
  assumes "rt_wf (ArchRT (Some par) arch n)" "arch_parent_pe_id arch p = Inr q"
  shows "rt_wf par \<and> q < rt_num_pes par"
proof -
  have "p < n" using assms enum_ids.outer_dom by auto
  with assms show ?thesis by (auto dest!: bspec [of _ _ p])
qed

lemma rt_outer_total: "rt_wf a \<Longrightarrow> p < rt_num_pes a \<Longrightarrow> \<exists>w. world_pe a p = Inr w"
proof (induction a arbitrary: p)
  case (ArchRT parent arch n)
  then obtain q where q: "arch_parent_pe_id arch p = Inr q"
    using enum_ids.outer_total [of arch p] by auto
  show ?case
  proof (cases parent)
    case None
    with q show ?thesis by simp
  next
    case (Some par)
    with ArchRT.prems q have "rt_wf par" "q < rt_num_pes par"
      using rt_wf_parent_bound by blast+
    with ArchRT.IH Some q show ?thesis by simp
  qed
qed

lemma rt_outer_dom: "rt_wf a \<Longrightarrow> world_pe a p = Inr w \<Longrightarrow> p < rt_num_pes a"
  by (cases a) (auto split: sum.splits dest: enum_ids.outer_dom)

lemma rt_inner_outer: "rt_wf a \<Longrightarrow> world_pe a p = Inr w \<Longrightarrow> team_pe a w = Ret (Inr p)"
proof (induction a arbitrary: p)
  case (ArchRT parent arch n)
  then obtain q where q: "arch_parent_pe_id arch p = Inr q"
    by (auto split: sum.splits)
  with ArchRT.prems have inv: "arch_team_pe_id arch q = Ret (Inr p)"
    by (simp add: enum_ids.inner_outer)
  show ?case
  proof (cases parent)
    case None
    with ArchRT.prems q inv show ?thesis by simp
  next
    case (Some par)
    with ArchRT.prems q have "rt_wf par" "world_pe par q = Inr w" by auto
    with ArchRT.IH Some have "team_pe par w = Ret (Inr q)" by simp
    with Some inv show ?thesis by simp
  qed
qed

lemma rt_outer_inner: "rt_wf a \<Longrightarrow> team_pe a w = Ret (Inr p) \<Longrightarrow> world_pe a p = Inr w"
proof (induction a arbitrary: p)
  case (ArchRT parent arch n)
  show ?case
  proof (cases parent)
    case None
    with ArchRT.prems have "arch_parent_pe_id arch p = Inr w"
      by (auto intro: enum_ids.outer_inner)
    with None show ?thesis by simp
  next
    case (Some par)
    with ArchRT.prems obtain q where q: "team_pe par w = Ret (Inr q)"
      "arch_team_pe_id arch q = Ret (Inr p)"
      by (auto simp: exec_simps split: sum.splits)
    with Some ArchRT have "world_pe par q = Inr w" by auto
    moreover have "arch_parent_pe_id arch p = Inr q"
      using ArchRT.prems q(2) by (auto intro: enum_ids.outer_inner)
    ultimately show ?thesis using Some by simp
  qed
qed

lemma rt_inner_returns: "rt_wf a \<Longrightarrow> \<exists>r. team_pe a w = Ret r"
proof (induction a)
  case (ArchRT parent arch n)
  show ?case
  proof (cases parent)
    case None
    with ArchRT.prems show ?thesis using enum_ids.inner_returns [of arch w] by auto
  next
    case (Some par)
    with ArchRT obtain r where "team_pe par w = Ret r" by auto
    with Some ArchRT.prems show ?thesis
      by (cases r) (auto intro: enum_ids.inner_returns)
  qed
qed

interpretation rt_ids: id_space rt_wf rt_num_pes world_pe team_pe
  by unfold_locales
     (blast intro: rt_outer_total rt_outer_dom rt_inner_outer rt_outer_inner rt_inner_returns)+

subsection \<open>Iteration\<close>

lemma iter_collect_team:
  assumes "rt_wf a" "c \<le> rt_num_pes a"
  shows "iter_collect \<lparr>it_arch = a, it_cur_pe = c, it_single = False\<rparr> =
    map (\<lambda>p. projr (world_pe a p)) [c..<rt_num_pes a]"
  using assms(2)
proof (induction "rt_num_pes a - c" arbitrary: c)
  case 0
  then show ?case by (subst iter_collect.simps) (simp add: iter_next_def)
next
  case (Suc k)
  then have c: "c < rt_num_pes a" by simp
  then obtain w where w: "world_pe a c = Inr w" using assms(1) rt_outer_total by blast
  from Suc.hyps(1) [of "Suc c"] Suc.hyps(2) c w show ?case
    by (subst iter_collect.simps) (simp add: iter_next_def upt_conv_Cons)
qed

lemma iter_collect_single:
  assumes "rt_wf a"
  shows "iter_collect (single_iter a pe) =
    (if pe < rt_num_pes a then [projr (world_pe a pe)] else [])"
proof (cases "pe < rt_num_pes a")
  case True
  then obtain w where w: "world_pe a pe = Inr w" using assms rt_outer_total by blast
  with True show ?thesis
    by (subst iter_collect.simps, simp add: iter_next_def single_iter_def)
       (subst iter_collect.simps, simp add: iter_next_def)
next
  case False
  then show ?thesis by (subst iter_collect.simps) (simp add: iter_next_def single_iter_def)
qed

section \<open>Properties\<close>

text \<open>
  C1.  For every well-formed chain of teams (global, strided, blocked or
  user-supplied architectures nested to any depth), each team id below the team's
  size has a world id, \<open>team_pe\<close> maps that world id back to the same team id
  without panicking, and conversely a world id is only accepted by \<open>team_pe\<close> when
  it is the world id of the returned member.
\<close>

theorem world_team_roundtrip:
  assumes "rt_wf rt"
  shows "(\<forall>p<rt_num_pes rt. \<exists>w. world_pe rt p = Inr w \<and> team_pe rt w = Ret (Inr p))
    \<and> (\<forall>w p. team_pe rt w = Ret (Inr p) \<longrightarrow> p < rt_num_pes rt \<and> world_pe rt p = Inr w)
    \<and> (\<forall>w. \<exists>r. team_pe rt w = Ret r)"
  using rt_ids.id_space_roundtrip [OF assms] rt_ids.outer_inner [OF assms]
    rt_ids.outer_dom [OF assms] rt_ids.inner_returns [OF assms] by blast

definition example_rt :: lamellar_arch_rt where
  "example_rt =
     ArchRT (Some (ArchRT (Some (ArchRT None (GlobalArch (global_new 20)) 20))
                          (StridedArch (strided_new 0 2 10)) 10))
            (StridedArch (strided_new 1 2 5)) 5"

lemma example_rt_wf: "rt_wf example_rt"
  by (simp add: example_rt_def global_wf_def global_new_def strided_new_wf strided_parent_ok_iff
      lessThan_nat_numeral lessThan_Suc)
     (simp_all add: strided_new_def strided_parent_pe_id_def global_parent_pe_id_def eval_nat_numeral)

lemma example_rt_num_pes: "rt_num_pes example_rt = 5"
  by (simp add: example_rt_def)

theorem world_team_roundtrip_witness:
  "rt_wf example_rt \<and> (\<exists>w. world_pe example_rt 3 = Inr w \<and> team_pe example_rt w = Ret (Inr 3))"
  using world_team_roundtrip [OF example_rt_wf] example_rt_wf by (simp add: example_rt_num_pes)

text \<open>
   Collecting \<open>team_iter\<close> yields the world ids of the members in team order, each
  exactly once, and collecting \<open>single_iter\<close> yields the world id of the requested
  member, or nothing for an id outside the team.
\<close>

theorem team_iter_members:
  assumes "rt_wf rt"
  shows "iter_collect (team_iter rt) = map (\<lambda>p. projr (world_pe rt p)) [0..<rt_num_pes rt]
    \<and> distinct (iter_collect (team_iter rt))
    \<and> (\<forall>w. w \<in> set (iter_collect (team_iter rt)) \<longleftrightarrow> (\<exists>p. team_pe rt w = Ret (Inr p)))
    \<and> iter_collect (single_iter rt pe) =
        (if pe < rt_num_pes rt then [projr (world_pe rt pe)] else [])"
proof -
  have all: "iter_collect (team_iter rt) = map (\<lambda>p. projr (world_pe rt p)) [0..<rt_num_pes rt]"
    using iter_collect_team [OF assms, of 0] by (simp add: team_iter_def)
  have "w \<in> set (iter_collect (team_iter rt)) \<longleftrightarrow> (\<exists>p. team_pe rt w = Ret (Inr p))" for w
  proof
    assume "w \<in> set (iter_collect (team_iter rt))"
    then obtain p where "p < rt_num_pes rt" "w = projr (world_pe rt p)" by (auto simp: all)
    with rt_ids.id_space_roundtrip [OF assms] show "\<exists>p. team_pe rt w = Ret (Inr p)" by fastforce
  next
    assume "\<exists>p. team_pe rt w = Ret (Inr p)"
    then obtain p where "world_pe rt p = Inr w" using rt_outer_inner [OF assms] by blast
    with rt_outer_dom [OF assms] show "w \<in> set (iter_collect (team_iter rt))"
      by (force simp: all)
  qed
  with all rt_ids.distinct_outer_ids [OF assms] iter_collect_single [OF assms]
  show ?thesis by simp
qed

theorem team_iter_members_witness:
  "rt_wf example_rt \<and> distinct (iter_collect (team_iter example_rt))
   \<and> iter_collect (single_iter example_rt 7) = []"
proof -
  note members = team_iter_members [OF example_rt_wf, of 7]
  from members have "distinct (iter_collect (team_iter example_rt))" by blast
  with members example_rt_wf show ?thesis by (simp add: example_rt_num_pes)
qed

lemma subteam_wf:
  assumes "rt_wf par" "arch_wf arch" "arch_end_pe arch = Ret hi" "hi < rt_num_pes par"
  shows "rt_wf (ArchRT (Some par) arch (arch_num_pes arch))"
  using assms(1,2) enum_ids.outer_below [OF assms(2-4)] by fastforce

lemma arch_wf_num_pes: "arch_wf arch \<Longrightarrow> 0 < arch_num_pes arch"
  by (cases arch) (auto simp: global_wf_def strided_wf_def blocked_wf_def dyn_wf_def)

lemma world_wf: "0 < n \<Longrightarrow> rt_wf (ArchRT None (GlobalArch (global_new n)) n)"
  by (simp add: global_wf_def global_new_def)

text \<open>
  Creating a subteam of the world: \<open>LamellarArchRT::new\<close> accepts a well-formed
  architecture exactly when it names no PE outside the world, the result is then a
  well-formed chain (to which the round trip above applies), and every other architecture is refused by
  an assertion.
\<close>

theorem arch_rt_new_world:
  assumes "0 < n" "arch_wf arch" "arch_end_pe arch = Ret hi"
  defines "world \<equiv> ArchRT None (GlobalArch (global_new n)) n"
  shows "if arch_num_pes arch \<le> n \<and> arch_start_pe arch < n \<and> hi < n
    then arch_rt_new world arch = Ret (ArchRT (Some world) arch (arch_num_pes arch))
         \<and> rt_wf (ArchRT (Some world) arch (arch_num_pes arch))
    else arch_rt_new world arch = Panic AssertFailed"
proof -
  have "rt_wf world" "rt_num_pes world = n"
    using world_wf [OF assms(1)] by (simp_all add: world_def)
  then have "hi < n \<Longrightarrow> rt_wf (ArchRT (Some world) arch (arch_num_pes arch))"
    using subteam_wf [OF _ assms(2,3), of world] by simp
  with assms(1-3) arch_wf_num_pes [OF assms(2)] show ?thesis
    by (auto simp: arch_rt_new_def arch_enum_new_def Let_def uassert_def world_def
        global_end_pe_def global_new_def simp del: rt_wf.simps)
qed

theorem arch_rt_new_world_witness:
  "let world = ArchRT None (GlobalArch (global_new 10)) 10; sub = StridedArch (strided_new 1 2 5)
   in arch_wf sub \<and> arch_end_pe sub = Ret 9
      \<and> arch_rt_new world sub = Ret (ArchRT (Some world) sub 5)"
proof -
  have "arch_wf (StridedArch (strided_new 1 2 5))" by (simp add: strided_new_wf)
  moreover have "arch_end_pe (StridedArch (strided_new 1 2 5)) = Ret 9"
    by (simp add: strided_new_def strided_end_loop_eq)
  ultimately show ?thesis
    using arch_rt_new_world [of 10 "StridedArch (strided_new 1 2 5)" 9]
    by (simp add: strided_new_def)
qed

text \<open>
  For a subteam of a subteam the range check of \<open>LamellarArchRT::new\<close> compares ids of
  two different spaces (the new team's ids in the parent against the parent's ids in
  the grandparent).  With the odd PEs of a ten-PE world as parent it accepts the block
  of parent ids 4, 5, 6, of which only 4 exists, so that \<open>world_pe\<close> fails for a member of
  the accepted team; and it refuses the block of parent ids 0, 1, both of which exist.
\<close>

theorem arch_rt_new_nested_check_flaw:
  "\<exists>odd_pes. arch_rt_new (ArchRT None (GlobalArch (global_new 10)) 10)
                  (StridedArch (strided_new 1 2 5)) = Ret odd_pes
     \<and> rt_wf odd_pes
     \<and> (\<exists>block sub. blocked_new 4 3 = Ret block
          \<and> arch_rt_new odd_pes (BlockedArch block) = Ret sub
          \<and> rt_num_pes sub = 3 \<and> world_pe sub 0 = Inr 9 \<and> (\<exists>e. world_pe sub 1 = Inl e))
     \<and> (\<exists>block. blocked_new 0 2 = Ret block
          \<and> blocked_parent_pe_id block 0 = Inr 0 \<and> blocked_parent_pe_id block 1 = Inr 1
          \<and> rt_num_pes odd_pes = 5
          \<and> arch_rt_new odd_pes (BlockedArch block) = Panic AssertFailed)"
proof -
  let ?world = "ArchRT None (GlobalArch (global_new 10)) 10"
  let ?odd = "ArchRT (Some ?world) (StridedArch (strided_new 1 2 5)) 5"
  have "rt_wf ?odd"
    using subteam_wf [OF world_wf [of 10], of "StridedArch (strided_new 1 2 5)" 9]
    by (simp add: strided_new_wf del: rt_wf.simps) (simp add: strided_new_def strided_end_loop_eq)
  moreover have "arch_rt_new ?world (StridedArch (strided_new 1 2 5)) = Ret ?odd"
    by (simp add: arch_rt_new_def arch_enum_new_def strided_new_def strided_end_loop_eq
        global_end_pe_def global_new_def)
  moreover have "arch_rt_new ?odd (BlockedArch \<lparr>ba_num_pes = 3, ba_start_pe = 4, ba_end_pe = 6\<rparr>) =
      Ret (ArchRT (Some ?odd) (BlockedArch \<lparr>ba_num_pes = 3, ba_start_pe = 4, ba_end_pe = 6\<rparr>) 3)"
    by (simp add: arch_rt_new_def arch_enum_new_def strided_new_def strided_end_loop_eq)
  moreover have "arch_rt_new ?odd (BlockedArch \<lparr>ba_num_pes = 2, ba_start_pe = 0, ba_end_pe = 1\<rparr>) =
      Panic AssertFailed"
    by (simp add: arch_rt_new_def uassert_def strided_new_def strided_end_loop_eq)
  ultimately show ?thesis
    by (intro exI [of _ ?odd])
       (simp add: blocked_new_def blocked_parent_pe_id_def strided_new_def strided_end_loop_eq
          strided_parent_pe_id_def global_parent_pe_id_def global_new_def del: rt_wf.simps)
qed

end
