(* ===== verification/Alloc_Interface.thy ===== *)
theory Alloc_Interface
  imports Lamellar_Prelude
begin

text \<open>
  What the allocators of \<open>lamellar_alloc.rs\<close> share: the padding computation and the
  contract of the trait \<open>LamellarAlloc\<close>.  The contract is a locale over the abstract set
  of live allocations; the linear and the B-tree allocator are interpretations of it.
\<close>

section \<open>Padding\<close>

definition calc_padding :: "nat \<Rightarrow> nat \<Rightarrow> nat exec" where
  "calc_padding addr align =
     ebind (umod addr align) (\<lambda>rem.
     if rem = 0 then Ret 0 else usub align rem)"

text \<open>The value it returns when the alignment is not 0.\<close>

definition pad_to :: "nat \<Rightarrow> nat \<Rightarrow> nat" where
  "pad_to addr align = (if addr mod align = 0 then 0 else align - addr mod align)"

lemma calc_padding_eq: "0 < align \<Longrightarrow> calc_padding addr align = Ret (pad_to addr align)"
  by (simp add: calc_padding_def pad_to_def less_imp_le)

lemma calc_padding_zero: "calc_padding addr 0 = Panic DivByZero"
  by (simp add: calc_padding_def umod_def)

lemma pad_to_less: "0 < align \<Longrightarrow> pad_to addr align < align"
  by (simp add: pad_to_def)

lemma pad_to_aligned: "0 < align \<Longrightarrow> align dvd addr + pad_to addr align"
proof -
  assume "0 < align"
  have "addr + (align - addr mod align) = addr div align * align + align"
    if "addr mod align \<noteq> 0"
    using \<open>0 < align\<close> mod_less_divisor [of align addr] div_mult_mod_eq [of addr align]
    by linarith
  then show ?thesis by (auto simp: pad_to_def)
qed

lemma pad_to_least:
  assumes "0 < align" "align dvd a" "addr \<le> a"
  shows "addr + pad_to addr align \<le> a"
proof (cases "addr mod align = 0")
  case True
  then show ?thesis using assms by (simp add: pad_to_def)
next
  case False
  obtain k where k: "a = align * k" using assms(2) by blast
  have "addr div align < k"
    using assms False k by (metis div_le_mono dvd_triv_left le_neq_implies_less
        nonzero_mult_div_cancel_left not_gr_zero dvd_eq_mod_eq_0 le_antisym
        dvd_mult_div_cancel div_times_less_eq_dividend mult.commute)
  then have "align * (addr div align) + align \<le> a"
    using k by (metis Suc_leI mult_Suc_right mult_le_mono2 add.commute)
  moreover have "addr = align * (addr div align) + addr mod align" by simp
  ultimately have "addr + (align - addr mod align) \<le> a"
    using mod_less_divisor [OF assms(1), of addr] by linarith
  with False show ?thesis by (simp add: pad_to_def)
qed

section \<open>Blocking allocation\<close>

text \<open>
  \<open>malloc\<close> of all three allocators retries \<open>try_malloc\<close> until it succeeds.  What the other
  threads do to the shared state between two attempts is the list of interferences;
  \<open>Ret None\<close> means that the call has not returned after them.
\<close>

fun malloc_loop :: "('s \<Rightarrow> nat \<Rightarrow> nat \<Rightarrow> (nat option \<times> 's) exec) \<Rightarrow> ('s \<Rightarrow> 's) list \<Rightarrow> 's
    \<Rightarrow> nat \<Rightarrow> nat \<Rightarrow> (nat \<times> 's) option exec" where
  "malloc_loop try envs s n al =
     ebind (try s n al) (\<lambda>(val, s').
     case val of
       Some a \<Rightarrow> Ret (Some (a, s'))
     | None \<Rightarrow> (case envs of [] \<Rightarrow> Ret None | e # es \<Rightarrow> malloc_loop try es (e s') n al))"

declare malloc_loop.simps [simp del]

section \<open>The contract\<close>

text \<open>
  A live allocation is the pair of the address handed out and its size.  \<open>fits\<close> is the
  precondition of an allocation request; \<open>arena\<close> is the memory the allocator manages.
\<close>

type_synonym live = "(nat \<times> nat) set"

definition live_disjoint :: "live \<Rightarrow> bool" where
  "live_disjoint L \<longleftrightarrow>
     (\<forall>(a, m)\<in>L. \<forall>(b, n)\<in>L. (a, m) \<noteq> (b, n) \<longrightarrow> region a m \<inter> region b n = {})"

definition live_within :: "live \<Rightarrow> nat set \<Rightarrow> bool" where
  "live_within L M \<longleftrightarrow> (\<forall>(a, m)\<in>L. 0 < m \<and> region a m \<subseteq> M)"

locale allocator =
  fixes invar :: "'s \<Rightarrow> bool"
    and arena :: "'s \<Rightarrow> nat set"
    and live :: "'s \<Rightarrow> live"
    and request_ok :: "'s \<Rightarrow> nat \<Rightarrow> nat \<Rightarrow> bool"
    and alloc :: "'s \<Rightarrow> nat \<Rightarrow> nat \<Rightarrow> (nat option \<times> 's) exec"
    and dealloc :: "'s \<Rightarrow> nat \<Rightarrow> ((nat + unit) \<times> 's) exec"
  assumes live_sound: "invar s \<Longrightarrow> live_disjoint (live s) \<and> live_within (live s) (arena s)"
    and alloc_Some: "invar s \<Longrightarrow> request_ok s n al \<Longrightarrow> alloc s n al = Ret (Some a, s') \<Longrightarrow>
        invar s' \<and> arena s' = arena s \<and> (a, n) \<notin> live s \<and> live s' = insert (a, n) (live s) \<and> al dvd a"
    and alloc_None: "invar s \<Longrightarrow> request_ok s n al \<Longrightarrow> alloc s n al = Ret (None, s') \<Longrightarrow>
        invar s' \<and> arena s' = arena s \<and> live s' = live s"
    and dealloc_live: "invar s \<Longrightarrow> (a, n) \<in> live s \<Longrightarrow>
        \<exists>s'. dealloc s a = Ret (Inr (), s') \<and> invar s' \<and> arena s' = arena s
             \<and> live s' = live s - {(a, n)}"
begin

text \<open>A client that allocates and frees: the requests it makes, in order.\<close>

inductive client_run :: "'s \<Rightarrow> 's \<Rightarrow> bool" where
  run_refl: "client_run s s"
| run_alloc: "client_run s t \<Longrightarrow> request_ok t n al \<Longrightarrow> alloc t n al = Ret (r, u) \<Longrightarrow> client_run s u"
| run_free: "client_run s t \<Longrightarrow> (a, n) \<in> live t \<Longrightarrow> dealloc t a = Ret (r, u) \<Longrightarrow> client_run s u"

lemma client_run_invar: "client_run s t \<Longrightarrow> invar s \<Longrightarrow> invar t \<and> arena t = arena s"
proof (induction rule: client_run.induct)
  case (run_alloc s t n al r u)
  then show ?case by (cases r) (auto dest: alloc_Some alloc_None)
next
  case (run_free s t a n r u)
  then obtain s' where "dealloc t a = Ret (Inr (), s')" "invar s'" "arena s' = arena t"
    using dealloc_live by blast
  with run_free show ?case by simp
qed simp

lemma client_run_live_sound:
  "client_run s t \<Longrightarrow> invar s \<Longrightarrow> live_disjoint (live t) \<and> live_within (live t) (arena s)"
  using client_run_invar live_sound by metis

lemma fresh_region:
  assumes "invar s" "request_ok s n al" "alloc s n al = Ret (Some a, s')" "(b, m) \<in> live s"
  shows "region a n \<inter> region b m = {} \<and> region a n \<subseteq> arena s"
proof -
  have s': "invar s'" "arena s' = arena s" "(a, n) \<notin> live s" "live s' = insert (a, n) (live s)"
    using alloc_Some [OF assms(1-3)] by auto
  with assms(4) have "(a, n) \<in> live s'" "(b, m) \<in> live s'" "(a, n) \<noteq> (b, m)" by auto
  with live_sound [OF s'(1)] s'(2) show ?thesis
    unfolding live_disjoint_def live_within_def by fastforce
qed

text \<open>The blocking call returns a region that was free in the state it was taken from.\<close>

lemma malloc_loop_sound:
  assumes "malloc_loop alloc envs s n al = Ret (Some (a, s'))" "invar s" "request_ok s n al"
    and "\<And>e t. e \<in> set envs \<Longrightarrow> invar t \<Longrightarrow> invar (e t) \<and> request_ok (e t) n al"
  shows "\<exists>t. invar t \<and> request_ok t n al \<and> alloc t n al = Ret (Some a, s') \<and> invar s'"
  using assms
proof (induction envs arbitrary: s)
  case Nil
  then have "alloc s n al = Ret (Some a, s')"
    by (auto simp: malloc_loop.simps [of alloc "[]"] exec_simps split: option.splits)
  with Nil alloc_Some show ?case by blast
next
  case (Cons e es)
  from Cons.prems(1) obtain val t where t: "alloc s n al = Ret (val, t)"
    by (auto simp: malloc_loop.simps [of alloc "e # es"] exec_simps)
  show ?case
  proof (cases val)
    case None
    with Cons.prems t have "invar t" using alloc_None by blast
    moreover from None Cons.prems(1) t have "malloc_loop alloc es (e t) n al = Ret (Some (a, s'))"
      by (simp add: malloc_loop.simps [of alloc "e # es"])
    ultimately show ?thesis using Cons.IH Cons.prems(4) by simp
  next
    case (Some b)
    with Cons.prems(1) t have "alloc s n al = Ret (Some a, s')"
      by (simp add: malloc_loop.simps [of alloc "e # es"])
    with Cons.prems alloc_Some show ?thesis by blast
  qed
qed

lemma alloc_then_dealloc:
  assumes "invar s" "request_ok s n al" "alloc s n al = Ret (Some a, s')"
  shows "\<exists>s''. dealloc s' a = Ret (Inr (), s'') \<and> invar s'' \<and> live s'' = live s"
proof -
  have s': "invar s'" "(a, n) \<notin> live s" "live s' = insert (a, n) (live s)"
    using alloc_Some [OF assms] by auto
  obtain s'' where "dealloc s' a = Ret (Inr (), s'')" "invar s''" "live s'' = live s' - {(a, n)}"
    using dealloc_live [OF s'(1), of a n] s'(3) by auto
  with s' show ?thesis by auto
qed

end

end
