(* ===== verification/Alloc_Linear.thy ===== *)
theory Alloc_Linear
  imports Alloc_Interface
begin

text \<open>
  \<open>LinearAlloc\<close> (\<open>lamellar_alloc.rs\<close>): a sorted vector of allocated extents, searched
  first-fit.  Each operation runs under the mutex of the vector, so it is one atomic
  step; an unsuccessful \<open>try_malloc\<close> waits on the condition variable after its last access
  to the state.
\<close>

section \<open>Model\<close>

record vma =
  vma_addr :: nat
  vma_padding :: nat
  vma_size :: nat

record linear_alloc =
  la_entries :: "vma list"
  la_start_addr :: nat
  la_max_size :: nat
  la_last_idx :: nat
  la_free_space :: nat

definition linear_new :: linear_alloc where
  "linear_new = \<lparr>la_entries = [], la_start_addr = 0, la_max_size = 0, la_last_idx = 0,
     la_free_space = 0\<rparr>"

definition linear_init :: "linear_alloc \<Rightarrow> nat \<Rightarrow> nat \<Rightarrow> linear_alloc" where
  "linear_init s start_addr sz =
     s\<lparr>la_start_addr := start_addr, la_max_size := sz, la_free_space := sz\<rparr>"

text \<open>The loop over the entries: \<open>prev_end\<close>, \<open>padding\<close> and \<open>idx\<close> are its variables.\<close>

fun linear_scan :: "vma list \<Rightarrow> nat \<Rightarrow> nat \<Rightarrow> nat \<Rightarrow> nat \<Rightarrow> nat \<Rightarrow> (nat \<times> nat \<times> nat) exec" where
  "linear_scan [] sz align prev_end padding idx = Ret (prev_end, padding, idx)"
| "linear_scan (e # es) sz align prev_end padding idx =
     ebind (usub (vma_addr e) prev_end) (\<lambda>gap.
     if gap \<ge> sz + padding then Ret (prev_end, padding, idx)
     else
       let prev_end' = vma_addr e + vma_size e + vma_padding e in
       ebind (calc_padding prev_end' align) (\<lambda>padding'.
       linear_scan es sz align prev_end' padding' (idx + 1)))"

definition linear_insert :: "linear_alloc \<Rightarrow> nat \<Rightarrow> vma \<Rightarrow> linear_alloc" where
  "linear_insert s idx v =
     s\<lparr>la_entries := take idx (la_entries s) @ v # drop idx (la_entries s),
       la_free_space := fetch_sub_usize (la_free_space s) (vma_size v + vma_padding v)\<rparr>"

definition linear_try_malloc :: "linear_alloc \<Rightarrow> nat \<Rightarrow> nat \<Rightarrow> (nat option \<times> linear_alloc) exec" where
  "linear_try_malloc s sz align =
     (if la_entries s \<noteq> [] then
        ebind (calc_padding (la_start_addr s) align) (\<lambda>padding0.
        ebind (linear_scan (la_entries s) sz align (la_start_addr s) padding0 0)
          (\<lambda>(prev_end, padding, idx).
        if prev_end + sz + padding \<le> la_start_addr s + la_max_size s
        then Ret (Some (prev_end + padding),
                  linear_insert s idx \<lparr>vma_addr = prev_end, vma_padding = padding, vma_size = sz\<rparr>)
        else Ret (None, s)))
      else
        ebind (calc_padding (la_start_addr s) align) (\<lambda>padding.
        if sz + padding \<le> la_start_addr s + la_max_size s
        then Ret (Some (la_start_addr s + padding),
                  linear_insert s 0
                    \<lparr>vma_addr = la_start_addr s, vma_padding = padding, vma_size = sz\<rparr>)
        else Ret (None, s)))"

definition linear_fake_malloc :: "linear_alloc \<Rightarrow> nat \<Rightarrow> nat \<Rightarrow> bool exec" where
  "linear_fake_malloc s sz align =
     (if la_entries s \<noteq> [] then
        ebind (calc_padding (la_start_addr s) align) (\<lambda>padding0.
        ebind (linear_scan (la_entries s) sz align (la_start_addr s) padding0 0)
          (\<lambda>(prev_end, padding, _).
        Ret (prev_end + sz + padding \<le> la_start_addr s + la_max_size s)))
      else
        ebind (calc_padding (la_start_addr s) align) (\<lambda>padding.
        Ret (sz + padding \<le> la_start_addr s + la_max_size s)))"

text \<open>The index of the first entry whose padded address is \<open>addr\<close>.\<close>

fun linear_find :: "vma list \<Rightarrow> nat \<Rightarrow> nat \<Rightarrow> nat option exec" where
  "linear_find [] addr i = Ret None"
| "linear_find (e # es) addr i =
     ebind (usub addr (vma_padding e)) (\<lambda>d.
     if d = vma_addr e then Ret (Some i) else linear_find es addr (i + 1))"

definition linear_free :: "linear_alloc \<Rightarrow> nat \<Rightarrow> ((nat + unit) \<times> linear_alloc) exec" where
  "linear_free s addr =
     ebind (linear_find (la_entries s) addr 0) (\<lambda>r.
     case r of
       None \<Rightarrow> Ret (Inl addr, s)
     | Some i \<Rightarrow>
         let e = la_entries s ! i;
             entries' = take i (la_entries s) @ drop (i + 1) (la_entries s);
             last_idx = la_last_idx s
         in Ret (Inr (),
              s\<lparr>la_free_space := fetch_add_usize (la_free_space s) (vma_size e + vma_padding e),
                la_entries := entries',
                la_last_idx := (if last_idx \<ge> length entries' \<and> last_idx \<noteq> 0
                                then fetch_sub_usize last_idx 1 else last_idx)\<rparr>))"

definition linear_malloc :: "(linear_alloc \<Rightarrow> linear_alloc) list \<Rightarrow> linear_alloc \<Rightarrow> nat \<Rightarrow> nat
    \<Rightarrow> (nat \<times> linear_alloc) option exec" where
  "linear_malloc envs s sz align = malloc_loop linear_try_malloc envs s sz align"

definition linear_space_avail :: "linear_alloc \<Rightarrow> nat" where
  "linear_space_avail s = la_free_space s"

definition linear_occupied :: "linear_alloc \<Rightarrow> nat exec" where
  "linear_occupied s = usub (la_max_size s) (la_free_space s)"

section \<open>Invariant\<close>

definition vma_end :: "vma \<Rightarrow> nat" where
  "vma_end e = vma_addr e + vma_size e + vma_padding e"

definition vma_extent :: "vma \<Rightarrow> nat set" where
  "vma_extent e = region (vma_addr e) (vma_size e + vma_padding e)"

text \<open>The entries are non-empty, sorted by address and do not overlap between \<open>lo\<close> and \<open>hi\<close>.\<close>

fun vma_chain :: "nat \<Rightarrow> vma list \<Rightarrow> nat \<Rightarrow> bool" where
  "vma_chain lo [] hi \<longleftrightarrow> lo \<le> hi"
| "vma_chain lo (e # es) hi \<longleftrightarrow> lo \<le> vma_addr e \<and> 0 < vma_size e \<and> vma_chain (vma_end e) es hi"

definition linear_used :: "vma list \<Rightarrow> nat" where
  "linear_used es = sum_list (map (\<lambda>e. vma_size e + vma_padding e) es)"

definition linear_inv :: "linear_alloc \<Rightarrow> bool" where
  "linear_inv s \<longleftrightarrow>
     vma_chain (la_start_addr s) (la_entries s) (la_start_addr s + la_max_size s)
     \<and> la_free_space s + linear_used (la_entries s) = la_max_size s
     \<and> la_max_size s < usize_mod"

definition linear_live :: "linear_alloc \<Rightarrow> live" where
  "linear_live s = (\<lambda>e. (vma_addr e + vma_padding e, vma_size e)) ` set (la_entries s)"

definition linear_arena :: "linear_alloc \<Rightarrow> nat set" where
  "linear_arena s = region (la_start_addr s) (la_max_size s)"

lemma vma_chain_append:
  "vma_chain lo (xs @ ys) hi \<longleftrightarrow> (\<exists>m. vma_chain lo xs m \<and> vma_chain m ys hi)"
proof (induction xs arbitrary: lo)
  case Nil
  have "vma_chain m ys hi \<Longrightarrow> lo \<le> m \<Longrightarrow> vma_chain lo ys hi" for m
    by (cases ys) auto
  then show ?case by auto
qed auto

lemma vma_chain_le: "vma_chain lo es hi \<Longrightarrow> lo \<le> hi"
  by (induction es arbitrary: lo) (force simp: vma_end_def)+

lemma vma_chain_mem:
  "vma_chain lo es hi \<Longrightarrow> e \<in> set es \<Longrightarrow> lo \<le> vma_addr e \<and> 0 < vma_size e \<and> vma_end e \<le> hi"
proof (induction es arbitrary: lo)
  case (Cons x xs)
  then show ?case
    by (cases "e = x") (fastforce simp: vma_end_def dest: vma_chain_le)+
qed simp

lemma vma_chain_split:
  assumes "vma_chain lo (xs @ e # ys) hi"
  shows "vma_chain lo xs (vma_addr e) \<and> vma_chain (vma_end e) ys hi \<and> 0 < vma_size e"
proof -
  obtain m where m: "vma_chain lo xs m" "vma_chain m (e # ys) hi"
    using assms by (auto simp: vma_chain_append)
  have "vma_chain m [] (vma_addr e)" using m(2) by simp
  then have "vma_chain lo (xs @ []) (vma_addr e)"
    using m(1) vma_chain_append by blast
  with m(2) show ?thesis by simp
qed

lemma vma_chain_weaken: "vma_chain lo es hi \<Longrightarrow> lo' \<le> lo \<Longrightarrow> hi \<le> hi' \<Longrightarrow> vma_chain lo' es hi'"
  by (induction es arbitrary: lo lo') auto

section \<open>The search loop\<close>

lemma region_meets:
  assumes "0 < m" "0 < n" "region a m \<inter> region b n = {}"
  shows "a + m \<le> b \<or> b + n \<le> a"
proof (rule ccontr)
  assume "\<not> ?thesis"
  with assms(1,2) have "max a b \<in> region a m \<inter> region b n" by (auto simp: region_def max_def)
  with assms(3) show False by simp
qed

text \<open>
  The loop stops at the first gap that is large enough: everything before it is too
  small for any aligned placement.
\<close>

lemma linear_scan_spec:
  assumes "vma_chain prev es hi" "0 < al" "0 < n"
  shows "\<exists>k prev'. linear_scan es n al prev (pad_to prev al) idx = Ret (prev', pad_to prev' al, idx + k)
    \<and> k \<le> length es \<and> vma_chain prev (take k es) prev' \<and> vma_chain prev' (drop k es) hi
    \<and> (k < length es \<longrightarrow> prev' + n + pad_to prev' al \<le> vma_addr (es ! k))
    \<and> (\<forall>a. al dvd a \<and> prev \<le> a \<and> (\<forall>e\<in>set es. region a n \<inter> vma_extent e = {}) \<longrightarrow> prev' \<le> a)"
  using assms(1)
proof (induction es arbitrary: prev idx)
  case Nil
  then show ?case by simp
next
  case (Cons e es)
  from Cons.prems have e: "prev \<le> vma_addr e" "0 < vma_size e" "vma_chain (vma_end e) es hi" by auto
  show ?case
  proof (cases "n + pad_to prev al \<le> vma_addr e - prev")
    case True
    with Cons.prems e show ?thesis by (intro exI [of _ 0] exI [of _ prev]) auto
  next
    case False
    obtain k prev' where k: "linear_scan es n al (vma_end e) (pad_to (vma_end e) al) (Suc idx) =
        Ret (prev', pad_to prev' al, Suc idx + k)"
      "k \<le> length es" "vma_chain (vma_end e) (take k es) prev'" "vma_chain prev' (drop k es) hi"
      "k < length es \<longrightarrow> prev' + n + pad_to prev' al \<le> vma_addr (es ! k)"
      "\<forall>a. al dvd a \<and> vma_end e \<le> a \<and> (\<forall>e\<in>set es. region a n \<inter> vma_extent e = {}) \<longrightarrow> prev' \<le> a"
      using Cons.IH [OF e(3), of "Suc idx"] by blast
    have skip: "vma_end e \<le> a"
      if "al dvd a" "prev \<le> a" "region a n \<inter> vma_extent e = {}" for a
    proof -
      have "a + n \<le> vma_addr e \<or> vma_end e \<le> a"
        using region_meets [OF assms(3) _ that(3) [unfolded vma_extent_def]] e(2)
        by (simp add: vma_end_def add.assoc)
      with pad_to_least [OF assms(2) that(1,2)] False show ?thesis by linarith
    qed
    have "linear_scan (e # es) n al prev (pad_to prev al) idx =
        Ret (prev', pad_to prev' al, idx + Suc k)"
      using e(1) False k(1) assms(2) by (simp add: calc_padding_eq vma_end_def add_ac)
    moreover have "\<forall>a. al dvd a \<and> prev \<le> a \<and> (\<forall>x\<in>set (e # es). region a n \<inter> vma_extent x = {})
        \<longrightarrow> prev' \<le> a"
    proof (intro allI impI, elim conjE)
      fix a assume a: "al dvd a" "prev \<le> a" "\<forall>x\<in>set (e # es). region a n \<inter> vma_extent x = {}"
      then have "vma_end e \<le> a" using skip by simp
      with a k(6) show "prev' \<le> a" by simp
    qed
    ultimately show ?thesis
      using k(2-5) e by (intro exI [of _ "Suc k"] exI [of _ prev'] conjI) simp_all
  qed
qed

section \<open>Allocation and release\<close>

lemma linear_used_append: "linear_used (xs @ ys) = linear_used xs + linear_used ys"
  by (simp add: linear_used_def)

lemma linear_used_Cons: "linear_used (e # es) = vma_size e + vma_padding e + linear_used es"
  by (simp add: linear_used_def)

text \<open>The extents and the gaps between them add up to the arena.\<close>

lemma linear_used_le: "vma_chain lo es hi \<Longrightarrow> lo + linear_used es \<le> hi"
  by (induction es arbitrary: lo) (force simp: linear_used_def vma_end_def)+

lemma linear_insert_inv:
  assumes inv: "linear_inv s" and k: "k \<le> length (la_entries s)"
    and left: "vma_chain (la_start_addr s) (take k (la_entries s)) (vma_addr v)"
    and right: "vma_chain (vma_end v) (drop k (la_entries s)) (la_start_addr s + la_max_size s)"
    and pos: "0 < vma_size v"
  shows "linear_inv (linear_insert s k v)"
proof -
  let ?es = "take k (la_entries s) @ v # drop k (la_entries s)"
  have chain: "vma_chain (la_start_addr s) ?es (la_start_addr s + la_max_size s)"
    using left right pos by (auto simp: vma_chain_append intro: exI [of _ "vma_addr v"])
  have used: "linear_used ?es = linear_used (la_entries s) + (vma_size v + vma_padding v)"
    using linear_used_append [of "take k (la_entries s)" "drop k (la_entries s)"]
    by (simp add: linear_used_append linear_used_Cons)
  have "linear_used ?es \<le> la_max_size s" using linear_used_le [OF chain] by simp
  with inv chain used show ?thesis by (simp add: linear_inv_def linear_insert_def)
qed

text \<open>
  The requests that the defect of the empty case does not affect: the code compares \<open>size + padding\<close> with the end address instead of the
  size of the arena, so that an empty allocator grants requests in between.  The interface of allocators is interpreted for these
  requests; the theorems about \<open>try_malloc\<close> state both cases.
\<close>

definition linear_request_ok :: "linear_alloc \<Rightarrow> nat \<Rightarrow> nat \<Rightarrow> bool" where
  "linear_request_ok s n al \<longleftrightarrow> 0 < n \<and> 0 < al \<and>
     (la_entries s = [] \<longrightarrow> n + pad_to (la_start_addr s) al \<le> la_max_size s
        \<or> la_start_addr s + la_max_size s < n + pad_to (la_start_addr s) al)"

text \<open>Both branches of \<open>try_malloc\<close> place the new extent at the end found by the loop.\<close>

lemma linear_try_malloc_spec:
  assumes inv: "linear_inv s" and ok: "linear_request_ok s n al"
  obtains k prev where
    "k \<le> length (la_entries s)"
    "vma_chain (la_start_addr s) (take k (la_entries s)) prev"
    "vma_chain prev (drop k (la_entries s)) (la_start_addr s + la_max_size s)"
    "k < length (la_entries s) \<longrightarrow> prev + n + pad_to prev al \<le> vma_addr (la_entries s ! k)"
    "\<forall>a. al dvd a \<and> la_start_addr s \<le> a
        \<and> (\<forall>e\<in>set (la_entries s). region a n \<inter> vma_extent e = {}) \<longrightarrow> prev \<le> a"
    "linear_try_malloc s n al =
       (if prev + n + pad_to prev al \<le> la_start_addr s + la_max_size s
        then Ret (Some (prev + pad_to prev al), linear_insert s k
                    \<lparr>vma_addr = prev, vma_padding = pad_to prev al, vma_size = n\<rparr>)
        else Ret (None, s))"
    "linear_fake_malloc s n al =
       Ret (prev + n + pad_to prev al \<le> la_start_addr s + la_max_size s)"
proof -
  have pos: "0 < al" "0 < n" using ok by (auto simp: linear_request_ok_def)
  have chain: "vma_chain (la_start_addr s) (la_entries s) (la_start_addr s + la_max_size s)"
    using inv by (simp add: linear_inv_def)
  obtain k prev where k: "linear_scan (la_entries s) n al (la_start_addr s)
      (pad_to (la_start_addr s) al) 0 = Ret (prev, pad_to prev al, 0 + k)"
    and rest: "k \<le> length (la_entries s)"
    "vma_chain (la_start_addr s) (take k (la_entries s)) prev"
    "vma_chain prev (drop k (la_entries s)) (la_start_addr s + la_max_size s)"
    "k < length (la_entries s) \<longrightarrow> prev + n + pad_to prev al \<le> vma_addr (la_entries s ! k)"
    "\<forall>a. al dvd a \<and> la_start_addr s \<le> a
        \<and> (\<forall>e\<in>set (la_entries s). region a n \<inter> vma_extent e = {}) \<longrightarrow> prev \<le> a"
    using linear_scan_spec [OF chain pos, of 0] by blast
  have empty: "prev = la_start_addr s \<and> k = 0" if "la_entries s = []" using k that by simp
  have "linear_try_malloc s n al =
       (if prev + n + pad_to prev al \<le> la_start_addr s + la_max_size s
        then Ret (Some (prev + pad_to prev al), linear_insert s k
                    \<lparr>vma_addr = prev, vma_padding = pad_to prev al, vma_size = n\<rparr>)
        else Ret (None, s))"
    using k pos empty ok
    by (auto simp: linear_try_malloc_def calc_padding_eq linear_request_ok_def)
  moreover have "linear_fake_malloc s n al =
       Ret (prev + n + pad_to prev al \<le> la_start_addr s + la_max_size s)"
    using k pos empty ok
    by (auto simp: linear_fake_malloc_def calc_padding_eq linear_request_ok_def)
  ultimately show ?thesis using that rest by blast
qed

lemma linear_try_malloc_Some:
  assumes inv: "linear_inv s" and ok: "linear_request_ok s n al"
    and ret: "linear_try_malloc s n al = Ret (Some a, s')"
  shows "linear_inv s' \<and> linear_arena s' = linear_arena s \<and> (a, n) \<notin> linear_live s
    \<and> linear_live s' = insert (a, n) (linear_live s) \<and> al dvd a"
proof -
  obtain k prev where k: "k \<le> length (la_entries s)"
    and left: "vma_chain (la_start_addr s) (take k (la_entries s)) prev"
    and right: "vma_chain prev (drop k (la_entries s)) (la_start_addr s + la_max_size s)"
    and gap: "k < length (la_entries s) \<longrightarrow> prev + n + pad_to prev al \<le> vma_addr (la_entries s ! k)"
    and try_eq: "linear_try_malloc s n al =
       (if prev + n + pad_to prev al \<le> la_start_addr s + la_max_size s
        then Ret (Some (prev + pad_to prev al), linear_insert s k
                    \<lparr>vma_addr = prev, vma_padding = pad_to prev al, vma_size = n\<rparr>)
        else Ret (None, s))"
    using linear_try_malloc_spec [OF inv ok] by blast
  let ?v = "\<lparr>vma_addr = prev, vma_padding = pad_to prev al, vma_size = n\<rparr>"
  have room: "prev + n + pad_to prev al \<le> la_start_addr s + la_max_size s"
    and a: "a = prev + pad_to prev al" and s': "s' = linear_insert s k ?v"
    using ret unfolding try_eq by (simp_all split: if_splits)
  have pos: "0 < n" "0 < al" using ok by (simp_all add: linear_request_ok_def)
  have right': "vma_chain (vma_end ?v) (drop k (la_entries s)) (la_start_addr s + la_max_size s)"
  proof (cases "k < length (la_entries s)")
    case True
    with right gap show ?thesis by (simp add: Cons_nth_drop_Suc [symmetric] vma_end_def)
  next
    case False
    with room show ?thesis by (simp add: vma_end_def)
  qed
  have "linear_inv s'"
    using linear_insert_inv [OF inv k, of ?v] left right' pos(1) by (simp add: s')
  moreover have split: "set (la_entries s) = set (take k (la_entries s)) \<union> set (drop k (la_entries s))"
    by (metis append_take_drop_id set_append)
  then have "linear_live s' = insert (a, n) (linear_live s)"
    by (auto simp: linear_live_def s' linear_insert_def a)
  moreover have "(a, n) \<notin> linear_live s"
  proof
    assume "(a, n) \<in> linear_live s"
    then obtain e where e: "e \<in> set (la_entries s)" "a = vma_addr e + vma_padding e" "n = vma_size e"
      by (auto simp: linear_live_def)
    with split consider "e \<in> set (take k (la_entries s))" | "e \<in> set (drop k (la_entries s))" by auto
    then show False
    proof cases
      case 1
      then have "vma_end e \<le> prev" using vma_chain_mem [OF left] by blast
      with e a pos show False by (simp add: vma_end_def)
    next
      case 2
      then have "vma_end ?v \<le> vma_addr e" using vma_chain_mem [OF right'] by blast
      with e a pos show False by (simp add: vma_end_def)
    qed
  qed
  ultimately show ?thesis using pad_to_aligned [OF pos(2), of prev]
    by (simp add: a s' linear_insert_def linear_arena_def)
qed

lemma linear_try_malloc_None:
  assumes "linear_inv s" "linear_request_ok s n al" "linear_try_malloc s n al = Ret (None, s')"
  shows "s' = s"
  using linear_try_malloc_spec [OF assms(1,2)] assms(3)
  by (metis Pair_inject exec.inject(1) option.distinct(1))

lemma vma_chain_ordered:
  assumes "vma_chain lo es hi" "e \<in> set es" "e' \<in> set es" "e \<noteq> e'"
  shows "vma_end e \<le> vma_addr e' \<or> vma_end e' \<le> vma_addr e"
  using assms
proof (induction es arbitrary: lo)
  case (Cons x xs)
  then have rest: "vma_chain (vma_end x) xs hi" by simp
  from Cons.prems consider "e = x" "e' \<in> set xs" | "e' = x" "e \<in> set xs"
    | "e \<in> set xs" "e' \<in> set xs" by auto
  then show ?case
    by cases (use vma_chain_mem [OF rest] Cons.IH [OF rest] Cons.prems(4) in auto)
qed simp

lemma linear_live_sound:
  assumes "linear_inv s"
  shows "live_disjoint (linear_live s) \<and> live_within (linear_live s) (linear_arena s)"
proof
  have chain: "vma_chain (la_start_addr s) (la_entries s) (la_start_addr s + la_max_size s)"
    using assms by (simp add: linear_inv_def)
  show "live_disjoint (linear_live s)"
    unfolding live_disjoint_def linear_live_def
  proof (clarsimp, goal_cases)
    case (1 e e')
    then have "e \<noteq> e'" by auto
    with vma_chain_ordered [OF chain 1(1,2)] show ?case
      by (intro region_disjoint) (auto simp: vma_end_def)
  qed
  show "live_within (linear_live s) (linear_arena s)"
    unfolding live_within_def linear_live_def linear_arena_def
  proof (clarsimp, intro conjI, goal_cases)
    case (1 e)
    then show ?case using vma_chain_mem [OF chain] by blast
  next
    case (2 e)
    with vma_chain_mem [OF chain 2] show ?case
      by (intro region_subset) (simp_all add: vma_end_def)
  qed
qed

lemma linear_find_live:
  assumes "vma_chain lo (xs @ e # ys) hi"
  shows "linear_find (xs @ e # ys) (vma_addr e + vma_padding e) idx = Ret (Some (idx + length xs))"
  using assms
proof (induction xs arbitrary: lo idx)
  case (Cons x xs)
  then have rest: "vma_chain (vma_end x) (xs @ e # ys) hi" and pos: "0 < vma_size x" by auto
  have "vma_end x \<le> vma_addr e" using vma_chain_mem [OF rest] by simp
  with pos Cons.IH [OF rest] show ?case by (simp add: vma_end_def)
qed simp

lemma linear_free_live:
  assumes inv: "linear_inv s" and live: "(a, n) \<in> linear_live s"
  shows "\<exists>s'. linear_free s a = Ret (Inr (), s') \<and> linear_inv s' \<and> linear_arena s' = linear_arena s
    \<and> linear_live s' = linear_live s - {(a, n)}"
proof -
  let ?es = "la_entries s"
  have chain: "vma_chain (la_start_addr s) ?es (la_start_addr s + la_max_size s)"
    using inv by (simp add: linear_inv_def)
  obtain e where e: "e \<in> set ?es" "a = vma_addr e + vma_padding e" "n = vma_size e"
    using live by (auto simp: linear_live_def)
  obtain i where "i < length ?es" "?es ! i = e" using e(1) by (auto simp: in_set_conv_nth)
  let ?es' = "take i ?es @ drop (Suc i) ?es"
  have es: "?es = take i ?es @ e # drop (Suc i) ?es"
    using \<open>i < length ?es\<close> \<open>?es ! i = e\<close> id_take_nth_drop by metis
  have i: "i < length ?es" "linear_find ?es a 0 = Ret (Some i)" "?es ! i = e"
    using linear_find_live [of _ "take i ?es" e "drop (Suc i) ?es" _ 0] chain es e(2)
      \<open>i < length ?es\<close> \<open>?es ! i = e\<close> by simp_all
  have parts: "vma_chain (la_start_addr s) (take i ?es) (vma_addr e)"
    "vma_chain (vma_end e) (drop (Suc i) ?es) (la_start_addr s + la_max_size s)" "0 < vma_size e"
    using vma_chain_split [of _ "take i ?es" e "drop (Suc i) ?es"] chain es by simp_all
  have "vma_chain (vma_addr e) (drop (Suc i) ?es) (la_start_addr s + la_max_size s)"
    using vma_chain_weaken [OF parts(2)] by (simp add: vma_end_def)
  with parts(1) have chain': "vma_chain (la_start_addr s) ?es' (la_start_addr s + la_max_size s)"
    by (auto simp: vma_chain_append)
  have used: "linear_used ?es = linear_used ?es' + (vma_size e + vma_padding e)"
    by (subst es) (simp add: linear_used_append linear_used_Cons)
  have live_eq: "(\<lambda>x. (vma_addr x + vma_padding x, vma_size x)) ` set ?es' = linear_live s - {(a, n)}"
  proof -
    have "set ?es = insert e (set ?es')" by (subst es) auto
    moreover have "(vma_addr x + vma_padding x, vma_size x) \<noteq> (a, n)" if "x \<in> set ?es'" for x
    proof -
      from that have "vma_end x \<le> vma_addr e \<or> vma_end e \<le> vma_addr x"
        using vma_chain_mem [OF parts(1), of x] vma_chain_mem [OF parts(2), of x] by auto
      with e parts(3) vma_chain_mem [OF chain' that] show ?thesis by (auto simp: vma_end_def)
    qed
    ultimately show ?thesis by (auto simp: linear_live_def e)
  qed
  obtain s' where s': "linear_free s a = Ret (Inr (), s')" "la_entries s' = ?es'"
    "la_start_addr s' = la_start_addr s" "la_max_size s' = la_max_size s"
    "la_free_space s' = fetch_add_usize (la_free_space s) (vma_size e + vma_padding e)"
    using i by (simp add: linear_free_def Let_def)
  have "linear_inv s'" using inv used chain' s' by (auto simp: linear_inv_def)
  with s' live_eq show ?thesis by (simp add: linear_live_def linear_arena_def)
qed

interpretation linear: allocator
  linear_inv linear_arena linear_live linear_request_ok linear_try_malloc linear_free
proof unfold_locales
  fix s assume "linear_inv s"
  then show "live_disjoint (linear_live s) \<and> live_within (linear_live s) (linear_arena s)"
    by (rule linear_live_sound)
next
  fix s n al a s'
  assume "linear_inv s" "linear_request_ok s n al" "linear_try_malloc s n al = Ret (Some a, s')"
  then show "linear_inv s' \<and> linear_arena s' = linear_arena s \<and> (a, n) \<notin> linear_live s
      \<and> linear_live s' = insert (a, n) (linear_live s) \<and> al dvd a"
    by (rule linear_try_malloc_Some)
next
  fix s n al s'
  assume "linear_inv s" "linear_request_ok s n al" "linear_try_malloc s n al = Ret (None, s')"
  then show "linear_inv s' \<and> linear_arena s' = linear_arena s \<and> linear_live s' = linear_live s"
    using linear_try_malloc_None [of s n al s'] by blast
next
  fix s a n assume "linear_inv s" "(a, n) \<in> linear_live s"
  then show "\<exists>s'. linear_free s a = Ret (Inr (), s') \<and> linear_inv s'
      \<and> linear_arena s' = linear_arena s \<and> linear_live s' = linear_live s - {(a, n)}"
    by (rule linear_free_live)
qed

lemma linear_init_inv: "sz < usize_mod \<Longrightarrow> linear_inv (linear_init linear_new start sz)"
  by (simp add: linear_inv_def linear_init_def linear_new_def linear_used_def)

section \<open>Properties\<close>

text \<open>A request outside the defect of the empty case is placed in the arena or refused for good reason.\<close>

lemma linear_try_malloc_in_arena:
  assumes "linear_inv s" "linear_request_ok s n al"
  shows "(\<exists>a s'. linear_try_malloc s n al = Ret (Some a, s') \<and> linear_fake_malloc s n al = Ret True
        \<and> linear_inv s' \<and> al dvd a \<and> region a n \<subseteq> linear_arena s
        \<and> (\<forall>(b, m)\<in>linear_live s. region a n \<inter> region b m = {})
        \<and> linear_live s' = insert (a, n) (linear_live s))
    \<or> (linear_try_malloc s n al = Ret (None, s) \<and> linear_fake_malloc s n al = Ret False
        \<and> \<not> (\<exists>a. al dvd a \<and> region a n \<subseteq> linear_arena s
               \<and> (\<forall>e\<in>set (la_entries s). region a n \<inter> vma_extent e = {})))"
proof -
  obtain k prev where first: "\<forall>a. al dvd a \<and> la_start_addr s \<le> a
        \<and> (\<forall>e\<in>set (la_entries s). region a n \<inter> vma_extent e = {}) \<longrightarrow> prev \<le> a"
    and try_eq: "linear_try_malloc s n al =
       (if prev + n + pad_to prev al \<le> la_start_addr s + la_max_size s
        then Ret (Some (prev + pad_to prev al), linear_insert s k
                    \<lparr>vma_addr = prev, vma_padding = pad_to prev al, vma_size = n\<rparr>)
        else Ret (None, s))"
    and fake: "linear_fake_malloc s n al =
       Ret (prev + n + pad_to prev al \<le> la_start_addr s + la_max_size s)"
    using linear_try_malloc_spec [OF assms] by blast
  have pos: "0 < n" "0 < al" using assms(2) by (simp_all add: linear_request_ok_def)
  show ?thesis
  proof (cases "prev + n + pad_to prev al \<le> la_start_addr s + la_max_size s")
    case True
    then obtain a s' where ret: "linear_try_malloc s n al = Ret (Some a, s')" by (simp add: try_eq)
    have new: "linear_inv s'" "linear_arena s' = linear_arena s"
      "linear_live s' = insert (a, n) (linear_live s)" "al dvd a"
      using linear_try_malloc_Some [OF assms ret] by auto
    then have "region a n \<subseteq> linear_arena s"
      using linear_live_sound [OF new(1)] by (auto simp: live_within_def)
    moreover have "\<forall>(b, m)\<in>linear_live s. region a n \<inter> region b m = {}"
      using linear.fresh_region [OF assms ret] by blast
    ultimately show ?thesis using ret new True fake by (intro disjI1) simp
  next
    case False
    have "\<not> (al dvd a \<and> region a n \<subseteq> linear_arena s
        \<and> (\<forall>e\<in>set (la_entries s). region a n \<inter> vma_extent e = {}))" for a
    proof
      assume a: "al dvd a \<and> region a n \<subseteq> linear_arena s
          \<and> (\<forall>e\<in>set (la_entries s). region a n \<inter> vma_extent e = {})"
      have "a \<in> region a n" "a + n - 1 \<in> region a n" using pos by (auto simp: region_def)
      with a have "a \<in> linear_arena s" "a + n - 1 \<in> linear_arena s" by blast+
      then have in_arena: "la_start_addr s \<le> a" "a + n \<le> la_start_addr s + la_max_size s"
        using pos by (auto simp: linear_arena_def region_def)
      with a first have "prev \<le> a" by blast
      then have "prev + pad_to prev al \<le> a" using a pad_to_least [OF pos(2)] by blast
      with in_arena False show False by linarith
    qed
    with False try_eq fake show ?thesis by simp
  qed
qed

text \<open>
  The check of the empty allocator omits the start address on its left-hand side.  When
  nothing is allocated, a request larger than the whole managed memory, but not larger than
  the end address, succeeds: the region handed out leaves the arena and the free-space
  counter no longer accounts for it.
\<close>

theorem linear_empty_overrun:
  assumes "linear_inv s" "la_entries s = []" "0 < n" "0 < al"
    and "la_max_size s < n + pad_to (la_start_addr s) al"
    and "n + pad_to (la_start_addr s) al \<le> la_start_addr s + la_max_size s"
  shows "\<exists>a s'. linear_try_malloc s n al = Ret (Some a, s') \<and> linear_fake_malloc s n al = Ret True
    \<and> \<not> region a n \<subseteq> linear_arena s \<and> \<not> linear_inv s'"
proof -
  let ?p = "pad_to (la_start_addr s) al"
  let ?v = "\<lparr>vma_addr = la_start_addr s, vma_padding = ?p, vma_size = n\<rparr>"
  have ret: "linear_try_malloc s n al = Ret (Some (la_start_addr s + ?p), linear_insert s 0 ?v)"
    using assms by (simp add: linear_try_malloc_def calc_padding_eq)
  have "la_start_addr s + ?p + n - 1 \<in> region (la_start_addr s + ?p) n" using assms(3)
    by (auto simp: region_def)
  moreover have "la_start_addr s + ?p + n - 1 \<notin> linear_arena s"
    using assms by (auto simp: region_def linear_arena_def)
  moreover have "\<not> linear_inv (linear_insert s 0 ?v)"
    using assms by (simp add: linear_inv_def linear_insert_def vma_end_def)
  moreover have "linear_fake_malloc s n al = Ret True"
    using assms by (simp add: linear_fake_malloc_def calc_padding_eq)
  ultimately show ?thesis using ret by blast
qed


definition linear_example :: linear_alloc where
  "linear_example = linear_init linear_new 3 100"

lemma linear_example_ok: "linear_inv linear_example \<and> linear_request_ok linear_example 10 8"
  by (simp add: linear_example_def linear_init_inv usize_mod_def)
     (simp add: linear_request_ok_def linear_init_def linear_new_def pad_to_def)


text \<open>
   Freeing the address of a fresh allocation returns \<open>Ok\<close> and restores the allocator:
  the entries, the free-space counter and with them every later answer are those
  before the allocation.
\<close>

theorem linear_malloc_free_roundtrip:
  assumes "linear_inv s" "linear_request_ok s n al" "la_last_idx s = 0"
    and "linear_try_malloc s n al = Ret (Some a, s')"
  shows "linear_free s' a = Ret (Inr (), s)"
proof -
  obtain k prev where k: "k \<le> length (la_entries s)"
    and try_eq: "linear_try_malloc s n al =
       (if prev + n + pad_to prev al \<le> la_start_addr s + la_max_size s
        then Ret (Some (prev + pad_to prev al), linear_insert s k
                    \<lparr>vma_addr = prev, vma_padding = pad_to prev al, vma_size = n\<rparr>)
        else Ret (None, s))"
    using linear_try_malloc_spec [OF assms(1,2)] by blast
  let ?v = "\<lparr>vma_addr = prev, vma_padding = pad_to prev al, vma_size = n\<rparr>"
  let ?es = "take k (la_entries s) @ ?v # drop k (la_entries s)"
  have a: "a = prev + pad_to prev al" and s': "s' = linear_insert s k ?v"
    using assms(4) unfolding try_eq by (simp_all split: if_splits)
  have inv': "linear_inv s'" using linear_try_malloc_Some [OF assms(1,2,4)] by simp
  then have chain: "vma_chain (la_start_addr s) ?es (la_start_addr s + la_max_size s)"
    by (simp add: linear_inv_def s' linear_insert_def)
  have found: "linear_find ?es a 0 = Ret (Some k)"
    using linear_find_live [OF chain, of 0] k by (simp add: a)
  have "linear_used ?es = linear_used (la_entries s) + (n + pad_to prev al)"
    using linear_used_append [of "take k (la_entries s)" "drop k (la_entries s)"]
    by (simp add: linear_used_append linear_used_Cons)
  then have space: "n + pad_to prev al \<le> la_free_space s" "la_free_space s < usize_mod"
    using linear_used_le [OF chain] assms(1) by (auto simp: linear_inv_def)
  have nth: "?es ! k = ?v" using k by (simp add: nth_append)
  show ?thesis
    using found k space assms(3) nth
    by (cases s) (simp add: linear_free_def s' linear_insert_def Let_def)
qed

theorem linear_malloc_free_roundtrip_witness:
  "\<exists>a s'. linear_try_malloc linear_example 10 8 = Ret (Some a, s')
     \<and> linear_free s' a = Ret (Inr (), linear_example)"
proof -
  obtain a s' where ret: "linear_try_malloc linear_example 10 8 = Ret (Some a, s')"
    by (simp add: linear_example_def linear_init_def linear_new_def linear_try_malloc_def
        calc_padding_eq pad_to_def)
  moreover have "la_last_idx linear_example = 0"
    by (simp add: linear_example_def linear_init_def linear_new_def)
  ultimately show ?thesis
    using linear_malloc_free_roundtrip [of linear_example 10 8 a s'] linear_example_ok by blast
qed

theorem linear_empty_overrun_witness:
  "\<exists>a s'. linear_try_malloc (linear_init linear_new 64 16) 40 1 = Ret (Some a, s')
     \<and> \<not> region a 40 \<subseteq> linear_arena (linear_init linear_new 64 16)"
proof -
  have "linear_inv (linear_init linear_new 64 16)" by (rule linear_init_inv) (simp add: usize_mod_def)
  then show ?thesis
    using linear_empty_overrun [of "linear_init linear_new 64 16" 40 1]
    by (auto simp: linear_init_def linear_new_def pad_to_def)
qed

text \<open>
  However a client interleaves successful requests, failed requests and frees of live
  addresses, starting from an initialised allocator, the live regions stay inside
  the managed memory and pairwise disjoint, and the free-space counter is the memory size
  minus the extents in use, so that \<open>occupied\<close> does not panic.
\<close>

theorem linear_runs_safe:
  assumes "sz < usize_mod" "linear.client_run (linear_init linear_new start sz) t"
  shows "live_disjoint (linear_live t) \<and> live_within (linear_live t) (region start sz)
    \<and> linear_occupied t = Ret (linear_used (la_entries t))"
proof -
  have init: "linear_inv (linear_init linear_new start sz)"
    "linear_arena (linear_init linear_new start sz) = region start sz"
    using linear_init_inv [OF assms(1)] by (simp_all add: linear_arena_def linear_init_def)
  have "linear_inv t" using linear.client_run_invar [OF assms(2) init(1)] by simp
  then have "linear_occupied t = Ret (linear_used (la_entries t))"
    by (auto simp: linear_occupied_def linear_inv_def)
  with linear.client_run_live_sound [OF assms(2) init(1)] init(2) show ?thesis by simp
qed

theorem linear_runs_safe_witness:
  "\<exists>a s'. linear_try_malloc linear_example 10 8 = Ret (Some a, s')
     \<and> live_within (linear_live s') (region 3 100)"
proof -
  obtain a s' where ret: "linear_try_malloc linear_example 10 8 = Ret (Some a, s')"
    by (simp add: linear_example_def linear_init_def linear_new_def linear_try_malloc_def
        calc_padding_eq pad_to_def)
  then have "linear.client_run linear_example s'"
    using linear.run_alloc [OF linear.run_refl] linear_example_ok by blast
  then show ?thesis
    using linear_runs_safe [of 100 3 s'] ret by (auto simp: linear_example_def usize_mod_def)
qed

end
