(* ===== verification/BTree_Map.thy ===== *)
theory BTree_Map
  imports Lamellar_Prelude
begin

text \<open>
  \<open>std::collections::BTreeMap\<close> as the allocators use it: an association list with
  strictly increasing keys.  The operations are those of the standard library that
  \<open>lamellar_alloc.rs\<close> calls; the lemmas reduce them to \<open>map_of\<close>.
\<close>

type_synonym ('k, 'v) btree = "('k \<times> 'v) list"

abbreviation bt_sorted :: "('k::linorder, 'v) btree \<Rightarrow> bool" where
  "bt_sorted m \<equiv> sorted_wrt (<) (map fst m)"

abbreviation bt_get :: "('k, 'v) btree \<Rightarrow> 'k \<Rightarrow> 'v option" where
  "bt_get m k \<equiv> map_of m k"

fun bt_insert :: "'k::linorder \<Rightarrow> 'v \<Rightarrow> ('k, 'v) btree \<Rightarrow> ('k, 'v) btree" where
  "bt_insert k v [] = [(k, v)]"
| "bt_insert k v (p # m) =
     (if k < fst p then (k, v) # p # m
      else if k = fst p then (k, v) # m
      else p # bt_insert k v m)"

definition bt_remove :: "'k \<Rightarrow> ('k, 'v) btree \<Rightarrow> ('k, 'v) btree" where
  "bt_remove k m = filter (\<lambda>p. fst p \<noteq> k) m"

fun bt_pop_first :: "('k, 'v) btree \<Rightarrow> (('k \<times> 'v) \<times> ('k, 'v) btree) option" where
  "bt_pop_first [] = None"
| "bt_pop_first (p # m) = Some (p, m)"

text \<open>\<open>range(k..).next()\<close> and \<open>range(..k).next_back()\<close>.\<close>

fun bt_first_ge :: "'k::linorder \<Rightarrow> ('k, 'v) btree \<Rightarrow> ('k \<times> 'v) option" where
  "bt_first_ge k [] = None"
| "bt_first_ge k (p # m) = (if k \<le> fst p then Some p else bt_first_ge k m)"

fun bt_last_lt :: "'k::linorder \<Rightarrow> ('k, 'v) btree \<Rightarrow> ('k \<times> 'v) option" where
  "bt_last_lt k [] = None"
| "bt_last_lt k (p # m) =
     (if fst p < k then (case bt_last_lt k m of None \<Rightarrow> Some p | Some q \<Rightarrow> Some q) else None)"

section \<open>Laws\<close>

lemma bt_sorted_distinct: "bt_sorted m \<Longrightarrow> distinct (map fst m)"
  by (simp add: strict_sorted_iff)

lemma bt_get_iff: "bt_sorted m \<Longrightarrow> bt_get m k = Some v \<longleftrightarrow> (k, v) \<in> set m"
  by (simp add: bt_sorted_distinct)

lemma bt_get_None_iff: "bt_get m k = None \<longleftrightarrow> k \<notin> fst ` set m"
  by (rule map_of_eq_None_iff)

lemma set_bt_insert_keys: "fst ` set (bt_insert k v m) = insert k (fst ` set m)"
  by (induction m) auto

lemma bt_insert_sorted [simp]: "bt_sorted m \<Longrightarrow> bt_sorted (bt_insert k v m)"
proof (induction m)
  case (Cons p m)
  have "\<forall>x\<in>fst ` set (bt_insert k v m). x = k \<or> x \<in> fst ` set m"
    by (simp add: set_bt_insert_keys)
  with Cons show ?case by fastforce
qed simp

lemma bt_get_insert [simp]: "bt_sorted m \<Longrightarrow> bt_get (bt_insert k v m) = (bt_get m)(k \<mapsto> v)"
proof (induction m)
  case (Cons p m)
  then show ?case by (cases p) (auto simp: fun_eq_iff)
qed simp

lemma bt_insert_length: "length (bt_insert k v m) \<le> Suc (length m)"
  by (induction m) auto

lemma bt_remove_sorted [simp]: "bt_sorted m \<Longrightarrow> bt_sorted (bt_remove k m)"
  by (induction m) (auto simp: bt_remove_def)

lemma bt_get_remove [simp]: "bt_get (bt_remove k m) = (bt_get m)(k := None)"
  by (induction m) (auto simp: bt_remove_def fun_eq_iff)

lemma bt_first_ge_Some:
  assumes "bt_sorted m" "bt_first_ge k m = Some (k', v)"
  shows "bt_get m k' = Some v \<and> k \<le> k' \<and> (\<forall>j. k \<le> j \<and> j < k' \<longrightarrow> bt_get m j = None)"
  using assms
proof (induction m)
  case (Cons p m)
  then show ?case
    by (cases p) (auto split: if_splits simp: map_of_eq_None_iff)
qed simp

lemma bt_first_ge_None:
  "bt_sorted m \<Longrightarrow> bt_first_ge k m = None \<Longrightarrow> k \<le> j \<Longrightarrow> bt_get m j = None"
  by (induction m) (auto split: if_splits)

lemma bt_first_ge_None_iff:
  "bt_sorted m \<Longrightarrow> bt_first_ge k m = None \<longleftrightarrow> (\<forall>j\<ge>k. bt_get m j = None)"
proof (induction m)
  case (Cons p m)
  then show ?case by (cases p) (auto split: if_splits)
qed simp

lemma bt_last_lt_None: "bt_sorted m \<Longrightarrow> bt_last_lt k m = None \<Longrightarrow> j < k \<Longrightarrow> bt_get m j = None"
proof (induction m)
  case (Cons p m)
  then show ?case by (cases p) (auto split: if_splits option.splits simp: map_of_eq_None_iff)
qed simp

lemma bt_last_lt_Some:
  assumes "bt_sorted m" "bt_last_lt k m = Some (k', v)"
  shows "bt_get m k' = Some v \<and> k' < k \<and> (\<forall>j. k' < j \<and> j < k \<longrightarrow> bt_get m j = None)"
  using assms
proof (induction m)
  case (Cons p m)
  obtain kp vp where p: "p = (kp, vp)" by (cases p)
  show ?case
  proof (cases "bt_last_lt k m")
    case None
    have "bt_get m j = None" if "j < k" for j
      using bt_last_lt_None None that Cons.prems(1) by auto
    with None Cons.prems p show ?thesis by (auto split: if_splits)
  next
    case (Some q)
    with Cons.prems p have q: "q = (k', v)" "bt_sorted m" "\<forall>x\<in>set m. kp < fst x"
      by (auto split: if_splits)
    with Cons.IH Some have get: "bt_get m k' = Some v" "k' < k"
      "\<forall>j. k' < j \<and> j < k \<longrightarrow> bt_get m j = None" by auto
    then have "(k', v) \<in> set m" by (auto dest: map_of_SomeD)
    with q(3) have "kp < k'" by auto
    with get p show ?thesis by auto
  qed
qed simp

text \<open>A map has one representation.\<close>

lemma bt_sorted_map: "bt_sorted m \<Longrightarrow> m = map (\<lambda>k. (k, the (bt_get m k))) (map fst m)"
  by (simp add: o_def) (rule map_idI [symmetric], auto simp: bt_sorted_distinct)

lemma bt_ext:
  assumes "bt_sorted m" "bt_sorted m'" "bt_get m = bt_get m'"
  shows "m = m'"
proof -
  have "set (map fst m) = set (map fst m')"
    using arg_cong [OF assms(3), of dom] by (simp add: dom_map_of_conv_image_fst)
  with assms(1,2) have "map fst m = map fst m'" by (simp add: strict_sorted_equal)
  then show ?thesis using bt_sorted_map [OF assms(1)] bt_sorted_map [OF assms(2)] assms(3) by metis
qed

text \<open>Sums over the values of a map.\<close>

definition bt_sum :: "('v \<Rightarrow> nat) \<Rightarrow> ('k, 'v) btree \<Rightarrow> nat" where
  "bt_sum f m = sum_list (map (f \<circ> snd) m)"

lemma bt_sum_insert_new: "bt_get m k = None \<Longrightarrow> bt_sum f (bt_insert k v m) = f v + bt_sum f m"
  by (induction m) (auto simp: bt_sum_def split: if_splits)

lemma bt_sum_remove: "bt_sorted m \<Longrightarrow> bt_get m k = Some v \<Longrightarrow> bt_sum f m = f v + bt_sum f (bt_remove k m)"
proof (induction m)
  case (Cons p m)
  have "bt_remove k m = m" if "k = fst p"
    using Cons.prems(1) that by (auto simp: bt_remove_def filter_id_conv)
  with Cons show ?case by (auto simp: bt_sum_def bt_remove_def split: if_splits)
qed simp

lemma bt_sum_conv_sum: "bt_sorted m \<Longrightarrow> bt_sum f m = (\<Sum>(k, v)\<in>set m. f v)"
proof (induction m)
  case (Cons p m)
  then have "p \<notin> set m" by auto
  with Cons show ?case by (cases p) (simp add: bt_sum_def)
qed (simp add: bt_sum_def)

end
