(* ===== verification/Tiling.thy ===== *)
theory Tiling
  imports Lamellar_Prelude
begin

text \<open>
  Partitions of an address range into tagged blocks \<open>(tag, address, length)\<close>.  An operation
  of an allocator replaces some blocks by others that cover the same bytes; the single
  lemma \<open>tiling_replace\<close> carries all of them.
\<close>

type_synonym 't block = "'t \<times> nat \<times> nat"

fun bytes_of :: "'t block \<Rightarrow> nat set" where
  "bytes_of (t, lo, n) = region lo n"

definition tiling :: "nat set \<Rightarrow> 't block set \<Rightarrow> bool" where
  "tiling R B \<longleftrightarrow>
     (\<forall>b\<in>B. bytes_of b \<noteq> {})
     \<and> (\<forall>b\<in>B. \<forall>c\<in>B. b \<noteq> c \<longrightarrow> bytes_of b \<inter> bytes_of c = {})
     \<and> (\<Union>b\<in>B. bytes_of b) = R"

lemma region_empty_iff [simp]: "region lo n = {} \<longleftrightarrow> n = 0"
  by (auto simp: region_def)

lemma tiling_disjoint:
  "tiling R B \<Longrightarrow> b \<in> B \<Longrightarrow> c \<in> B \<Longrightarrow> b \<noteq> c \<Longrightarrow> bytes_of b \<inter> bytes_of c = {}"
  by (simp add: tiling_def)

lemma tiling_subset: "tiling R B \<Longrightarrow> b \<in> B \<Longrightarrow> bytes_of b \<subseteq> R"
  by (auto simp: tiling_def)

lemma tiling_nonempty: "tiling R B \<Longrightarrow> b \<in> B \<Longrightarrow> bytes_of b \<noteq> {}"
  by (simp add: tiling_def)

lemma tiling_unique:
  "tiling R B \<Longrightarrow> b \<in> B \<Longrightarrow> c \<in> B \<Longrightarrow> x \<in> bytes_of b \<Longrightarrow> x \<in> bytes_of c \<Longrightarrow> b = c"
  by (auto simp: tiling_def)

lemma tiling_single: "0 < n \<Longrightarrow> tiling (region lo n) {(t, lo, n)}"
  by (simp add: tiling_def)

lemma tiling_union:
  assumes "tiling R B" "tiling S C" "R \<inter> S = {}"
  shows "tiling (R \<union> S) (B \<union> C)"
proof -
  have "bytes_of b \<inter> bytes_of c = {}" if "b \<in> B" "c \<in> C" for b c
    using tiling_subset [OF assms(1) that(1)] tiling_subset [OF assms(2) that(2)] assms(3) by blast
  then show ?thesis
    using assms unfolding tiling_def by (simp add: Int_commute ball_Un UN_Un) blast
qed

lemma tiling_restrict:
  assumes "tiling R B" "C \<subseteq> B"
  shows "tiling (\<Union>b\<in>C. bytes_of b) C"
  using assms unfolding tiling_def by (intro conjI) blast+

lemma tiling_remove:
  assumes "tiling R B" "C \<subseteq> B"
  shows "tiling (R - (\<Union>b\<in>C. bytes_of b)) (B - C)"
proof -
  have "bytes_of b \<inter> bytes_of c = {}" if "b \<in> B - C" "c \<in> C" for b c
    using that assms tiling_disjoint by (metis DiffE subsetD)
  then have "(\<Union>b\<in>B - C. bytes_of b) = R - (\<Union>b\<in>C. bytes_of b)"
    using assms by (fastforce simp: tiling_def)
  with tiling_restrict [OF assms(1), of "B - C"] show ?thesis by simp
qed

lemma tiling_replace:
  assumes "tiling R B" "C \<subseteq> B" "tiling (\<Union>b\<in>C. bytes_of b) D"
  shows "tiling R (B - C \<union> D)"
proof -
  have "tiling ((R - (\<Union>b\<in>C. bytes_of b)) \<union> (\<Union>b\<in>C. bytes_of b)) (B - C \<union> D)"
    by (rule tiling_union [OF tiling_remove [OF assms(1,2)] assms(3)]) blast
  moreover have "(\<Union>b\<in>C. bytes_of b) \<subseteq> R" using tiling_subset [OF assms(1)] assms(2) by blast
  ultimately show ?thesis by (simp add: Un_absorb2)
qed

text \<open>Two adjacent blocks cover what one block of the summed length covers.\<close>

lemma tiling_pair:
  "0 < m \<Longrightarrow> 0 < n \<Longrightarrow> tiling (region lo (m + n)) {(t, lo, m), (u, lo + m, n)}"
  using tiling_union [OF tiling_single [of m lo t] tiling_single [of n "lo + m" u]]
  by (simp add: region_split region_disjoint insert_commute)

text \<open>The lengths of the blocks add up to the size of the range.\<close>

lemma card_bytes_of [simp]: "card (bytes_of (t, lo, n)) = n"
  by (simp add: region_def)

lemma tiling_finite: "tiling R B \<Longrightarrow> finite R \<Longrightarrow> finite B"
proof -
  assume tile: "tiling R B" and "finite R"
  have "inj_on bytes_of B"
    using tiling_unique [OF tile] tiling_nonempty [OF tile] by (metis all_not_in_conv inj_onI)
  moreover have "finite (bytes_of ` B)"
    using tiling_subset [OF tile] \<open>finite R\<close> by (metis finite_Pow_iff finite_subset image_subsetI PowI)
  ultimately show "finite B" by (simp add: finite_image_iff)
qed

lemma tiling_card:
  assumes "tiling R B" "finite R" "C \<subseteq> B"
  shows "(\<Sum>b\<in>C. card (bytes_of b)) \<le> card R"
proof -
  have fin: "finite C" using tiling_finite [OF assms(1,2)] assms(3) by (rule rev_finite_subset)
  have "card (\<Union>b\<in>C. bytes_of b) = (\<Sum>b\<in>C. card (bytes_of b))"
  proof (rule card_UN_disjoint [OF fin])
    show "\<forall>b\<in>C. finite (bytes_of b)"
      using tiling_subset [OF assms(1)] assms(3) finite_subset [OF _ assms(2)] by blast
    show "\<forall>b\<in>C. \<forall>c\<in>C. b \<noteq> c \<longrightarrow> bytes_of b \<inter> bytes_of c = {}"
      using tiling_disjoint [OF assms(1)] assms(3) by blast
  qed
  moreover have "(\<Union>b\<in>C. bytes_of b) \<subseteq> R" using tiling_subset [OF assms(1)] assms(3) by blast
  ultimately show ?thesis using card_mono [OF assms(2)] by metis
qed

end
