(* ===== verification/Alloc_BTree.thy ===== *)
theory Alloc_BTree
  imports Alloc_Interface BTree_Map Tiling
begin

text \<open>
  \<open>BTreeAlloc\<close> and its \<open>FreeEntries\<close> (\<open>lamellar_alloc.rs\<close>): free blocks indexed by address
  and by size, allocated blocks by address.  \<open>IndexSet\<close> comes from the crate \<open>indexmap\<close>; its
  operations are a parameter of the model, and the locale \<open>index_set\<close> states what the
  allocator relies on.
\<close>

section \<open>Model\<close>

record 'i index_set_ops =
  is_new :: 'i
  is_insert :: "nat \<Rightarrow> 'i \<Rightarrow> 'i"
  is_pop :: "'i \<Rightarrow> nat option \<times> 'i"
  is_remove :: "nat \<Rightarrow> 'i \<Rightarrow> 'i"
  is_isempty :: "'i \<Rightarrow> bool"

record 'i free_entries =
  fe_sizes :: "(nat, 'i) btree"
  fe_addrs :: "(nat, nat \<times> nat) btree"

definition fe_new :: "'i free_entries" where
  "fe_new = \<lparr>fe_sizes = [], fe_addrs = []\<rparr>"

definition fe_remove_size :: "'i index_set_ops \<Rightarrow> nat \<Rightarrow> nat \<Rightarrow> 'i free_entries \<Rightarrow> 'i free_entries" where
  "fe_remove_size ops addr sz fe =
     (case bt_get (fe_sizes fe) sz of
        Some addrs \<Rightarrow>
          let addrs' = is_remove ops addr addrs;
              sizes' = bt_insert sz addrs' (fe_sizes fe)
          in fe\<lparr>fe_sizes := (if is_isempty ops addrs' then bt_remove sz sizes' else sizes')\<rparr>
      | None \<Rightarrow> fe)"

text \<open>\<open>sizes.entry(size).or_insert(IndexSet::new()).insert(addr)\<close>\<close>

definition fe_add_size :: "'i index_set_ops \<Rightarrow> nat \<Rightarrow> nat \<Rightarrow> 'i free_entries \<Rightarrow> 'i free_entries" where
  "fe_add_size ops addr sz fe =
     fe\<lparr>fe_sizes := bt_insert sz
          (is_insert ops addr (case bt_get (fe_sizes fe) sz of Some addrs \<Rightarrow> addrs | None \<Rightarrow> is_new ops))
          (fe_sizes fe)\<rparr>"

text \<open>The loop of \<open>merge\<close>; \<open>addrs.len() - 1\<close> is computed before every iteration.\<close>

function fe_merge_loop :: "'i index_set_ops \<Rightarrow> 'i free_entries \<Rightarrow> nat \<Rightarrow> 'i free_entries exec" where
  "fe_merge_loop ops fe i =
     ebind (usub (length (fe_addrs fe)) 1) (\<lambda>limit.
     if i < limit then
       (case bt_pop_first (fe_addrs fe) of
          None \<Rightarrow> Panic UnwrapNone
        | Some ((faddr, fsize, fpadding), rest1) \<Rightarrow>
            (case bt_pop_first rest1 of
               None \<Rightarrow> Panic UnwrapNone
             | Some ((naddr, nsize, npadding), rest2) \<Rightarrow>
                 if faddr + fsize + fpadding = naddr then
                   let new_size = fsize + nsize; new_padding = fpadding + npadding in
                   if new_padding \<noteq> 0 then Panic AssertFailed
                   else
                     let fe1 = fe_remove_size ops faddr fsize
                                 (fe_remove_size ops naddr nsize (fe\<lparr>fe_addrs := rest2\<rparr>));
                         fe2 = fe1\<lparr>fe_addrs := bt_insert faddr (new_size, new_padding) rest2\<rparr>
                     in fe_merge_loop ops (fe_add_size ops faddr new_size fe2) i
                 else
                   fe_merge_loop ops
                     (fe\<lparr>fe_addrs := bt_insert naddr (nsize, npadding)
                                      (bt_insert faddr (fsize, fpadding) rest2)\<rparr>)
                     (i + 1)))
     else Ret fe)"
  by pat_completeness auto

lemma fe_remove_size_addrs [simp]: "fe_addrs (fe_remove_size ops a n fe) = fe_addrs fe"
  by (simp add: fe_remove_size_def Let_def split: option.splits)

lemma fe_add_size_addrs [simp]: "fe_addrs (fe_add_size ops a n fe) = fe_addrs fe"
  by (simp add: fe_add_size_def)

lemma bt_pop_first_Some: "bt_pop_first m = Some (p, m') \<longleftrightarrow> m = p # m'"
  by (cases m) auto

termination fe_merge_loop
proof (relation "measure (\<lambda>(ops, fe, i). length (fe_addrs fe) - i)", goal_cases)
  case (2 ops fe i limit f ff faddr fp fsize fpadding rest1 g gg naddr np nsize npadding rest2)
  have "length (bt_insert k v m) - i < Suc (Suc (length m)) - i" if "i < Suc (length m)"
    for k v and m :: "(nat, nat \<times> nat) btree"
    using bt_insert_length [of k v m] that by linarith
  with 2 show ?case by (auto simp: bt_pop_first_Some usub_Ret)
next
  case (3 ops fe i limit f ff faddr fp fsize fpadding rest1 g gg naddr np nsize npadding rest2)
  have "length (bt_insert k v (bt_insert k' v' m)) - Suc i < Suc (Suc (length m)) - i"
    if "i < Suc (length m)" for k v k' v' and m :: "(nat, nat \<times> nat) btree"
    using bt_insert_length [of k v "bt_insert k' v' m"] bt_insert_length [of k' v' m] that by linarith
  with 3 show ?case by (auto simp: bt_pop_first_Some usub_Ret)
qed simp

declare fe_merge_loop.simps [simp del]

definition fe_merge :: "'i index_set_ops \<Rightarrow> 'i free_entries \<Rightarrow> 'i free_entries exec" where
  "fe_merge ops fe = fe_merge_loop ops fe 0"

record 'i btree_alloc =
  ba_free :: "'i free_entries"
  ba_allocated :: "(nat, nat \<times> nat) btree"
  bta_start_addr :: nat
  bta_max_size :: nat
  ba_free_space :: nat

definition btree_new :: "'i btree_alloc" where
  "btree_new = \<lparr>ba_free = fe_new, ba_allocated = [], bta_start_addr = 0, bta_max_size = 0,
     ba_free_space = 0\<rparr>"

definition btree_init :: "'i index_set_ops \<Rightarrow> 'i btree_alloc \<Rightarrow> nat \<Rightarrow> nat \<Rightarrow> 'i btree_alloc" where
  "btree_init ops s start_addr sz =
     s\<lparr>bta_start_addr := start_addr, bta_max_size := sz,
       ba_free := \<lparr>fe_sizes = bt_insert sz (is_insert ops start_addr (is_new ops)) (fe_sizes (ba_free s)),
                   fe_addrs = bt_insert start_addr (sz, 0) (fe_addrs (ba_free s))\<rparr>,
       ba_free_space := sz\<rparr>"

text \<open>
  The branch of \<open>try_malloc\<close> that has found a size class: pop an address of it, carve the
  request out of the block, put the remainder back, drop the size class when it ran empty.
\<close>

definition btree_carve :: "'i index_set_ops \<Rightarrow> 'i free_entries \<Rightarrow> nat \<Rightarrow> 'i \<Rightarrow> nat \<Rightarrow> nat
    \<Rightarrow> (nat option \<times> 'i free_entries) exec" where
  "btree_carve ops fe free_size addrs sz align =
     (case is_pop ops addrs of (addr, addrs') \<Rightarrow>
      let fe1 = fe\<lparr>fe_sizes := bt_insert free_size addrs' (fe_sizes fe)\<rparr>;
          drop_size = (\<lambda>fe'. if is_isempty ops addrs'
                             then fe'\<lparr>fe_sizes := bt_remove free_size (fe_sizes fe')\<rparr> else fe')
      in case addr of
           None \<Rightarrow> Ret (None, drop_size fe1)
         | Some a \<Rightarrow>
             ebind (calc_padding a align) (\<lambda>padding.
             let full_size = sz + padding in
             case bt_get (fe_addrs fe1) a of
               None \<Rightarrow> Panic ExplicitPanic
             | Some (fsize, fpadding) \<Rightarrow>
                 let fe2 = fe1\<lparr>fe_addrs := bt_remove a (fe_addrs fe1)\<rparr> in
                 if fsize + fpadding \<noteq> full_size then
                   ebind (usub (fsize + fpadding) full_size) (\<lambda>remaining.
                   let new_addr = a + full_size;
                       fe3 = fe_add_size ops new_addr remaining fe2;
                       fe4 = fe3\<lparr>fe_addrs := bt_insert new_addr (remaining, 0) (fe_addrs fe3)\<rparr>
                   in Ret (Some a, drop_size fe4))
                 else Ret (Some a, drop_size fe2)))"

text \<open>
  \<open>env\<close> is what other threads do to the allocator while this call waits on the
  condition variable, before it merges and searches a second time.
\<close>

definition btree_search :: "'i index_set_ops \<Rightarrow> ('i btree_alloc \<Rightarrow> 'i btree_alloc) \<Rightarrow> 'i btree_alloc
    \<Rightarrow> nat \<Rightarrow> nat \<Rightarrow> nat \<Rightarrow> (nat option \<times> 'i btree_alloc) exec" where
  "btree_search ops env s upper_size sz align =
     (case bt_first_ge upper_size (fe_sizes (ba_free s)) of
        Some (free_size, addrs) \<Rightarrow>
          ebind (btree_carve ops (ba_free s) free_size addrs sz align) (\<lambda>(addr, fe).
          Ret (addr, s\<lparr>ba_free := fe\<rparr>))
      | None \<Rightarrow>
          let s1 = env s in
          ebind (fe_merge ops (ba_free s1)) (\<lambda>fe.
          let s2 = s1\<lparr>ba_free := fe\<rparr> in
          case bt_first_ge upper_size (fe_sizes (ba_free s2)) of
            Some (free_size, addrs) \<Rightarrow>
              ebind (btree_carve ops (ba_free s2) free_size addrs sz align) (\<lambda>(addr, fe').
              Ret (addr, s2\<lparr>ba_free := fe'\<rparr>))
          | None \<Rightarrow> Ret (None, s2)))"

definition btree_try_malloc :: "'i index_set_ops \<Rightarrow> ('i btree_alloc \<Rightarrow> 'i btree_alloc) \<Rightarrow> 'i btree_alloc
    \<Rightarrow> nat \<Rightarrow> nat \<Rightarrow> (nat option \<times> 'i btree_alloc) exec" where
  "btree_try_malloc ops env s sz align =
     ebind (usub (sz + align) 1) (\<lambda>upper_size.
     ebind (btree_search ops env s upper_size sz align) (\<lambda>(addr, s').
     case addr of
       None \<Rightarrow> Ret (None, s')
     | Some a \<Rightarrow>
         ebind (calc_padding a align) (\<lambda>padding.
         Ret (Some (a + padding),
              s'\<lparr>ba_allocated := bt_insert (a + padding) (sz, padding) (ba_allocated s'),
                 ba_free_space := fetch_sub_usize (ba_free_space s') (sz + padding)\<rparr>))))"

definition btree_malloc :: "'i index_set_ops \<Rightarrow> ('i btree_alloc \<Rightarrow> 'i btree_alloc) list \<Rightarrow> 'i btree_alloc
    \<Rightarrow> nat \<Rightarrow> nat \<Rightarrow> (nat \<times> 'i btree_alloc) option exec" where
  "btree_malloc ops envs s sz align =
     malloc_loop (btree_try_malloc ops (\<lambda>s. s)) envs s sz align"

definition btree_fake_malloc :: "'i index_set_ops \<Rightarrow> 'i btree_alloc \<Rightarrow> nat \<Rightarrow> nat
    \<Rightarrow> (bool \<times> 'i btree_alloc) exec" where
  "btree_fake_malloc ops s sz align =
     ebind (usub (sz + align) 1) (\<lambda>upper_size.
     case bt_first_ge upper_size (fe_sizes (ba_free s)) of
       Some _ \<Rightarrow> Ret (True, s)
     | None \<Rightarrow>
         ebind (fe_merge ops (ba_free s)) (\<lambda>fe.
         let s' = s\<lparr>ba_free := fe\<rparr> in
         case bt_first_ge upper_size (fe_sizes fe) of
           Some _ \<Rightarrow> Ret (True, s')
         | None \<Rightarrow> Ret (False, s')))"

text \<open>The neighbours that \<open>free\<close> coalesces with: \<open>(temp_addr, temp_size, remove)\<close>.\<close>

definition btree_coalesce_prev :: "(nat, nat \<times> nat) btree \<Rightarrow> nat \<Rightarrow> nat \<Rightarrow> nat
    \<Rightarrow> nat \<times> nat \<times> (nat \<times> nat \<times> nat) list" where
  "btree_coalesce_prev addrs addr temp_addr temp_size =
     (case bt_last_lt temp_addr addrs of
        Some (faddr, fsize, fpadding) \<Rightarrow>
          if faddr + fsize + fpadding = addr
          then (faddr, temp_size + (fsize + fpadding), [(faddr, fsize, fpadding)])
          else (temp_addr, temp_size, [])
      | None \<Rightarrow> (temp_addr, temp_size, []))"

definition btree_coalesce_next :: "(nat, nat \<times> nat) btree \<Rightarrow> nat \<Rightarrow> nat \<Rightarrow> nat
    \<Rightarrow> nat \<times> (nat \<times> nat \<times> nat) list" where
  "btree_coalesce_next addrs addr temp_addr temp_size =
     (case bt_first_ge addr addrs of
        Some (faddr, fsize, fpadding) \<Rightarrow>
          if temp_addr + temp_size = faddr
          then (temp_size + (fsize + fpadding), [(faddr, fsize, fpadding)])
          else (temp_size, [])
      | None \<Rightarrow> (temp_size, []))"

fun fe_remove_all :: "'i index_set_ops \<Rightarrow> (nat \<times> nat \<times> nat) list \<Rightarrow> 'i free_entries \<Rightarrow> 'i free_entries" where
  "fe_remove_all ops [] fe = fe"
| "fe_remove_all ops ((raddr, rsize, rpadding) # rs) fe =
     fe_remove_all ops rs
       (fe_remove_size ops raddr (rsize + rpadding)
          (fe\<lparr>fe_addrs := bt_remove raddr (fe_addrs fe)\<rparr>))"

definition btree_free :: "'i index_set_ops \<Rightarrow> 'i btree_alloc \<Rightarrow> nat \<Rightarrow> ((nat + unit) \<times> 'i btree_alloc) exec" where
  "btree_free ops s addr =
     (case bt_get (ba_allocated s) addr of
        None \<Rightarrow> Ret (Inl addr, s)
      | Some (sz, padding) \<Rightarrow>
          let s1 = s\<lparr>ba_allocated := bt_remove addr (ba_allocated s),
                     ba_free_space := fetch_add_usize (ba_free_space s) (sz + padding)\<rparr> in
          ebind (usub addr padding) (\<lambda>unpadded_addr.
          let fe = ba_free s1;
              (temp_addr, temp_size, remove1) =
                btree_coalesce_prev (fe_addrs fe) addr unpadded_addr (sz + padding);
              (temp_size', remove2) = btree_coalesce_next (fe_addrs fe) addr temp_addr temp_size;
              fe1 = fe_remove_all ops (remove1 @ remove2) fe;
              fe2 = fe1\<lparr>fe_addrs := bt_insert temp_addr (temp_size', 0) (fe_addrs fe1)\<rparr>;
              fe3 = fe_add_size ops temp_addr temp_size' fe2
          in Ret (Inr (), s1\<lparr>ba_free := fe3\<rparr>)))"

definition btree_space_avail :: "'i btree_alloc \<Rightarrow> nat" where
  "btree_space_avail s = ba_free_space s"

definition btree_occupied :: "'i btree_alloc \<Rightarrow> nat exec" where
  "btree_occupied s = usub (bta_max_size s) (ba_free_space s)"

section \<open>Invariant\<close>

definition size_class :: "('i \<Rightarrow> nat set) \<Rightarrow> 'i free_entries \<Rightarrow> nat \<Rightarrow> nat set" where
  "size_class elems fe sz = (case bt_get (fe_sizes fe) sz of None \<Rightarrow> {} | Some i \<Rightarrow> elems i)"

text \<open>The two indices of the free blocks agree, no size class is empty, no block is.\<close>

definition fe_inv :: "('i \<Rightarrow> nat set) \<Rightarrow> 'i free_entries \<Rightarrow> bool" where
  "fe_inv elems fe \<longleftrightarrow> bt_sorted (fe_sizes fe) \<and> bt_sorted (fe_addrs fe)
     \<and> (\<forall>sz i. bt_get (fe_sizes fe) sz = Some i \<longrightarrow> elems i \<noteq> {})
     \<and> (\<forall>a sz p. bt_get (fe_addrs fe) a = Some (sz, p) \<longrightarrow> p = 0 \<and> 0 < sz)
     \<and> (\<forall>a sz. a \<in> size_class elems fe sz \<longleftrightarrow> bt_get (fe_addrs fe) a = Some (sz, 0))"

definition fe_blocks :: "'i free_entries \<Rightarrow> nat option block set" where
  "fe_blocks fe = {(None, a, sz) |a sz. bt_get (fe_addrs fe) a = Some (sz, 0)}"

lemma fe_blocks_iff:
  "(t, a, n) \<in> fe_blocks fe \<longleftrightarrow> t = None \<and> bt_get (fe_addrs fe) a = Some (n, 0)"
  by (auto simp: fe_blocks_def)

definition alloc_blocks :: "(nat, nat \<times> nat) btree \<Rightarrow> nat option block set" where
  "alloc_blocks m = {(Some x, x - pd, pd + sz) |x sz pd. bt_get m x = Some (sz, pd)}"

text \<open>
  Free and allocated blocks (the latter with their padding) partition the managed
  memory, and the free-space counter is the size of the free ones.
\<close>

definition btree_inv :: "('i \<Rightarrow> nat set) \<Rightarrow> 'i btree_alloc \<Rightarrow> bool" where
  "btree_inv elems s \<longleftrightarrow> fe_inv elems (ba_free s) \<and> bt_sorted (ba_allocated s)
     \<and> (\<forall>x sz pd. bt_get (ba_allocated s) x = Some (sz, pd) \<longrightarrow> 0 < sz \<and> pd \<le> x)
     \<and> tiling (region (bta_start_addr s) (bta_max_size s))
              (fe_blocks (ba_free s) \<union> alloc_blocks (ba_allocated s))
     \<and> ba_free_space s + bt_sum (\<lambda>(sz, pd). sz + pd) (ba_allocated s) = bta_max_size s
     \<and> bta_max_size s < usize_mod"

definition btree_live :: "'i btree_alloc \<Rightarrow> live" where
  "btree_live s = {(x, sz) |x sz pd. bt_get (ba_allocated s) x = Some (sz, pd)}"

definition btree_arena :: "'i btree_alloc \<Rightarrow> nat set" where
  "btree_arena s = region (bta_start_addr s) (bta_max_size s)"

section \<open>The index set\<close>

locale index_set =
  fixes ops :: "'i index_set_ops" and elems :: "'i \<Rightarrow> nat set"
  assumes elems_new: "elems (is_new ops) = {}"
    and elems_insert: "elems (is_insert ops x i) = insert x (elems i)"
    and elems_remove: "elems (is_remove ops x i) = elems i - {x}"
    and isempty: "is_isempty ops i \<longleftrightarrow> elems i = {}"
    and pop_empty: "elems i = {} \<Longrightarrow> fst (is_pop ops i) = None"
    and pop_some: "elems i \<noteq> {} \<Longrightarrow> \<exists>x\<in>elems i. fst (is_pop ops i) = Some x
                     \<and> elems (snd (is_pop ops i)) = elems i - {x}"
begin

lemma size_class_remove:
  "bt_sorted (fe_sizes fe) \<Longrightarrow> size_class elems (fe_remove_size ops a n fe) =
     (size_class elems fe)(n := size_class elems fe n - {a})"
  by (auto simp: size_class_def fe_remove_size_def Let_def isempty elems_remove fun_eq_iff
      split: option.splits)

lemma size_class_add:
  "bt_sorted (fe_sizes fe) \<Longrightarrow> size_class elems (fe_add_size ops a n fe) =
     (size_class elems fe)(n := insert a (size_class elems fe n))"
  by (auto simp: size_class_def fe_add_size_def elems_insert elems_new fun_eq_iff split: option.splits)

lemma fe_remove_size_sorted:
  "bt_sorted (fe_sizes fe) \<Longrightarrow> bt_sorted (fe_sizes (fe_remove_size ops a n fe))"
  by (simp add: fe_remove_size_def Let_def split: option.splits)

lemma fe_add_size_sorted:
  "bt_sorted (fe_sizes fe) \<Longrightarrow> bt_sorted (fe_sizes (fe_add_size ops a n fe))"
  by (simp add: fe_add_size_def)

end

text \<open>Removing a free block from both indices, adding one to both.\<close>

definition fe_delete :: "'i index_set_ops \<Rightarrow> nat \<Rightarrow> nat \<Rightarrow> 'i free_entries \<Rightarrow> 'i free_entries" where
  "fe_delete ops a n fe = fe_remove_size ops a n (fe\<lparr>fe_addrs := bt_remove a (fe_addrs fe)\<rparr>)"

definition fe_put :: "'i index_set_ops \<Rightarrow> nat \<Rightarrow> nat \<Rightarrow> 'i free_entries \<Rightarrow> 'i free_entries" where
  "fe_put ops a n fe = fe_add_size ops a n (fe\<lparr>fe_addrs := bt_insert a (n, 0) (fe_addrs fe)\<rparr>)"

lemma size_class_addrs_upd [simp]: "size_class elems (fe\<lparr>fe_addrs := m\<rparr>) = size_class elems fe"
  by (simp add: size_class_def fun_eq_iff)

context index_set
begin

lemma fe_delete_inv:
  assumes "fe_inv elems fe" "bt_get (fe_addrs fe) a = Some (n, 0)"
  shows "fe_inv elems (fe_delete ops a n fe)"
    and "fe_blocks (fe_delete ops a n fe) = fe_blocks fe - {(None, a, n)}"
proof -
  let ?fe = "fe\<lparr>fe_addrs := bt_remove a (fe_addrs fe)\<rparr>"
  have sorted: "bt_sorted (fe_sizes ?fe)" using assms by (simp add: fe_inv_def)
  have "elems i \<noteq> {}" if "bt_get (fe_sizes (fe_remove_size ops a n ?fe)) sz = Some i" for sz i
    using that assms sorted
    by (auto simp: fe_inv_def fe_remove_size_def Let_def isempty split: option.splits if_splits)
  with assms sorted fe_remove_size_sorted [OF sorted]
  show "fe_inv elems (fe_delete ops a n fe)"
    by (auto simp: fe_inv_def fe_delete_def size_class_remove)
  show "fe_blocks (fe_delete ops a n fe) = fe_blocks fe - {(None, a, n)}"
    using assms(2) by (auto simp: set_eq_iff fe_blocks_iff fe_delete_def)
qed

lemma fe_put_inv:
  assumes "fe_inv elems fe" "bt_get (fe_addrs fe) a = None" "0 < n"
  shows "fe_inv elems (fe_put ops a n fe)"
    and "fe_blocks (fe_put ops a n fe) = insert (None, a, n) (fe_blocks fe)"
proof -
  let ?fe = "fe\<lparr>fe_addrs := bt_insert a (n, 0) (fe_addrs fe)\<rparr>"
  have sorted: "bt_sorted (fe_sizes ?fe)" "bt_sorted (fe_addrs fe)"
    using assms by (simp_all add: fe_inv_def)
  have "elems i \<noteq> {}" if "bt_get (fe_sizes (fe_add_size ops a n ?fe)) sz = Some i" for sz i
    using that assms sorted
    by (auto simp: fe_inv_def fe_add_size_def elems_insert split: option.splits if_splits)
  with assms sorted fe_add_size_sorted [OF sorted(1)]
  show "fe_inv elems (fe_put ops a n fe)"
    by (auto simp: fe_inv_def fe_put_def size_class_add)
  show "fe_blocks (fe_put ops a n fe) = insert (None, a, n) (fe_blocks fe)"
    using assms sorted by (auto simp: set_eq_iff fe_blocks_iff fe_put_def)
qed

end

text \<open>No free block starts strictly inside another one.\<close>

definition fe_gaps :: "'i free_entries \<Rightarrow> bool" where
  "fe_gaps fe \<longleftrightarrow> (\<forall>a n b. bt_get (fe_addrs fe) a = Some (n, 0) \<and> a < b \<and> b < a + n
     \<longrightarrow> bt_get (fe_addrs fe) b = None)"

lemma tiling_fe_gaps:
  assumes "tiling R (fe_blocks fe \<union> X)" "fe_inv elems fe"
  shows "fe_gaps fe"
  unfolding fe_gaps_def
proof (intro allI impI, elim conjE, rule ccontr)
  fix a n b assume a: "bt_get (fe_addrs fe) a = Some (n, 0)" and b: "a < b" "b < a + n"
    "bt_get (fe_addrs fe) b \<noteq> None"
  then obtain m where m: "bt_get (fe_addrs fe) b = Some (m, 0)" "0 < m"
    using assms(2) by (auto simp: fe_inv_def)
  have "(None :: nat option, a, n) = (None, b, m)"
    by (rule tiling_unique [OF assms(1), where x = b])
       (use a b m in \<open>auto simp: fe_blocks_iff region_def\<close>)
  with b show False by simp
qed

context index_set
begin

text \<open>Popping an address of a size class removes one free block of that size.\<close>

definition fe_popped :: "nat \<Rightarrow> 'i \<Rightarrow> nat \<Rightarrow> 'i free_entries \<Rightarrow> 'i free_entries" where
  "fe_popped n i a fe =
     fe\<lparr>fe_sizes := (if is_isempty ops i then bt_remove n (bt_insert n i (fe_sizes fe))
                     else bt_insert n i (fe_sizes fe)),
        fe_addrs := bt_remove a (fe_addrs fe)\<rparr>"

lemma fe_popped_inv:
  assumes inv: "fe_inv elems fe" and get: "bt_get (fe_sizes fe) n = Some i"
    and pop: "a \<in> elems i" "elems i' = elems i - {a}"
  shows "bt_get (fe_addrs fe) a = Some (n, 0)"
    and "fe_inv elems (fe_popped n i' a fe)"
    and "fe_blocks (fe_popped n i' a fe) = fe_blocks fe - {(None, a, n)}"
proof -
  have "a \<in> size_class elems fe n" using get pop by (simp add: size_class_def)
  then show a: "bt_get (fe_addrs fe) a = Some (n, 0)" using inv by (simp add: fe_inv_def)
  have sorted: "bt_sorted (fe_sizes fe)" using inv by (simp add: fe_inv_def)
  then have "size_class elems (fe_popped n i' a fe) =
      (size_class elems fe)(n := size_class elems fe n - {a})"
    using get pop by (auto simp: size_class_def fe_popped_def isempty fun_eq_iff)
  moreover have "elems j \<noteq> {}" if "bt_get (fe_sizes (fe_popped n i' a fe)) sz = Some j" for sz j
    using that inv sorted by (auto simp: fe_popped_def isempty fe_inv_def split: if_splits)
  ultimately show "fe_inv elems (fe_popped n i' a fe)"
    using inv a by (auto simp: fe_inv_def fe_popped_def)
  show "fe_blocks (fe_popped n i' a fe) = fe_blocks fe - {(None, a, n)}"
    using a by (auto simp: set_eq_iff fe_blocks_iff fe_popped_def)
qed

lemma btree_carve_spec:
  assumes inv: "fe_inv elems fe" "fe_gaps fe" and get: "bt_get (fe_sizes fe) n = Some i"
    and fits: "sz + al - 1 \<le> n" "0 < sz" "0 < al"
  shows "\<exists>a fe'. btree_carve ops fe n i sz al = Ret (Some a, fe') \<and> fe_inv elems fe'
    \<and> bt_get (fe_addrs fe) a = Some (n, 0) \<and> sz + pad_to a al \<le> n
    \<and> fe_blocks fe' = fe_blocks fe - {(None, a, n)}
        \<union> (if sz + pad_to a al = n then {} else {(None, a + (sz + pad_to a al), n - (sz + pad_to a al))})"
proof -
  have "elems i \<noteq> {}" using inv get by (auto simp: fe_inv_def)
  then obtain a i' where pop: "is_pop ops i = (Some a, i')" "a \<in> elems i" "elems i' = elems i - {a}"
    using pop_some by (metis prod.collapse)
  let ?full = "sz + pad_to a al" and ?P = "fe_popped n i' a fe"
  note popped = fe_popped_inv [OF inv(1) get pop(2,3)]
  have le: "?full \<le> n" using pad_to_less [OF fits(3), of a] fits by simp
  have sorted: "bt_sorted (fe_sizes fe)" "bt_sorted (fe_addrs fe)" using inv by (simp_all add: fe_inv_def)
  show ?thesis
  proof (cases "?full = n")
    case True
    then have "btree_carve ops fe n i sz al = Ret (Some a, ?P)"
      using pop popped(1) fits
      by (simp add: btree_carve_def fe_popped_def calc_padding_eq Let_def)
    with True popped le show ?thesis by auto
  next
    case False
    let ?F = "fe_put ops (a + ?full) (n - ?full) ?P"
    have inside: "a < a + ?full" "a + ?full < a + n" using le False fits by auto
    then have "bt_get (fe_addrs fe) (a + ?full) = None"
      using inv(2) popped(1) unfolding fe_gaps_def by blast
    then have fresh: "bt_get (fe_addrs ?P) (a + ?full) = None" by (simp add: fe_popped_def)
    have ne: "n - ?full \<noteq> n" using fits by simp
    have sizes: "bt_remove n (bt_insert (n - ?full) j (bt_insert n i' (fe_sizes fe))) =
        bt_insert (n - ?full) j (bt_remove n (bt_insert n i' (fe_sizes fe)))" for j
      by (rule bt_ext) (use sorted ne in \<open>auto simp: fun_eq_iff\<close>)
    have "btree_carve ops fe n i sz al = Ret (Some a, ?F)"
      using pop popped(1) fits False le ne sorted
      by (simp add: btree_carve_def fe_popped_def fe_put_def fe_add_size_def calc_padding_eq
          Let_def sizes)
    moreover have "fe_inv elems ?F"
      "fe_blocks ?F = insert (None, a + ?full, n - ?full) (fe_blocks ?P)"
      using fe_put_inv [OF popped(2) fresh, of "n - ?full"] le False by simp_all
    ultimately show ?thesis using False popped(1,3) le by auto
  qed
qed

end

section \<open>Merging\<close>

lemma fe_remove_size_addrs_upd:
  "fe_remove_size ops a n (fe\<lparr>fe_addrs := m\<rparr>) = (fe_remove_size ops a n fe)\<lparr>fe_addrs := m\<rparr>"
  by (simp add: fe_remove_size_def Let_def split: option.splits)

lemma fe_add_size_addrs_upd:
  "fe_add_size ops a n (fe\<lparr>fe_addrs := m\<rparr>) = (fe_add_size ops a n fe)\<lparr>fe_addrs := m\<rparr>"
  by (simp add: fe_add_size_def)

lemma fe_merge_loop_empty: "fe_addrs fe = [] \<Longrightarrow> fe_merge_loop ops fe i = Panic SubOverflow"
  by (subst fe_merge_loop.simps) (simp add: usub_def)

text \<open>The iteration that merges replaces the first two blocks by one.\<close>

definition fe_join_first :: "'i index_set_ops \<Rightarrow> 'i free_entries \<Rightarrow> 'i free_entries" where
  "fe_join_first ops fe =
     (case fe_addrs fe of
        (fa, fs, _) # (na, ns, _) # _ \<Rightarrow>
          fe_put ops fa (fs + ns) (fe_delete ops fa fs (fe_delete ops na ns fe))
      | _ \<Rightarrow> fe)"

lemma fe_first_two:
  assumes "fe_inv elems fe" "fe_addrs fe = (fa, fs, fp) # (na, ns, np) # rest"
  shows "fp = 0" "np = 0" "0 < fs" "0 < ns" "fa < na"
    "\<forall>p\<in>set rest. fa < fst p \<and> na < fst p" "bt_sorted rest"
    "bt_get (fe_addrs fe) fa = Some (fs, 0)" "bt_get (fe_addrs fe) na = Some (ns, 0)"
proof -
  have "bt_sorted (fe_addrs fe)" using assms(1) by (simp add: fe_inv_def)
  then show keys: "fa < na" "\<forall>p\<in>set rest. fa < fst p \<and> na < fst p" "bt_sorted rest"
    by (auto simp: assms(2))
  have get: "bt_get (fe_addrs fe) fa = Some (fs, fp)" "bt_get (fe_addrs fe) na = Some (ns, np)"
    using keys by (simp_all add: assms(2))
  then show vals: "fp = 0" "np = 0" "0 < fs" "0 < ns"
    using assms(1) unfolding fe_inv_def by blast+
  from get vals show "bt_get (fe_addrs fe) fa = Some (fs, 0)" "bt_get (fe_addrs fe) na = Some (ns, 0)"
    by simp_all
qed

text \<open>
  One iteration on a consistent index: while the first two blocks are adjacent they are
  joined; otherwise they are put back and the counter moves on.
\<close>

lemma fe_merge_loop_step:
  assumes inv: "fe_inv elems fe" and shape: "fe_addrs fe = (fa, fs, fp) # (na, ns, np) # rest"
  shows "fe_merge_loop ops fe i =
    (if i < Suc (length rest)
     then if fa + fs = na then fe_merge_loop ops (fe_join_first ops fe) i
          else fe_merge_loop ops fe (i + 1)
     else Ret fe)"
proof -
  have sorted: "bt_sorted (fe_addrs fe)" using inv by (simp add: fe_inv_def)
  note pads = fe_first_two(1,2) [OF inv shape] and keys = fe_first_two(5-7) [OF inv shape]
  have rest: "bt_remove fa (bt_remove na (fe_addrs fe)) = rest"
    using keys by (auto simp: shape bt_remove_def filter_id_conv)
  have "bt_insert na (ns, np) (bt_insert fa (fs, fp) rest) = fe_addrs fe"
    by (rule bt_ext) (use sorted keys in \<open>auto simp: shape fun_eq_iff map_of_eq_None_iff\<close>)
  then have put_back: "fe\<lparr>fe_addrs := bt_insert na (ns, np) (bt_insert fa (fs, fp) rest)\<rparr> = fe" by simp
  have join: "fe_join_first ops fe =
      fe_add_size ops fa (fs + ns) ((fe_remove_size ops fa fs (fe_remove_size ops na ns
        (fe\<lparr>fe_addrs := rest\<rparr>)))\<lparr>fe_addrs := bt_insert fa (fs + ns, 0) rest\<rparr>)"
    by (simp add: fe_join_first_def shape fe_put_def fe_delete_def fe_remove_size_addrs_upd
        rest [unfolded shape] del: bt_insert.simps)
  show ?thesis
    by (subst fe_merge_loop.simps)
       (simp add: shape pads put_back [unfolded pads] join Let_def del: bt_insert.simps)
qed

context index_set
begin

lemma fe_join_first_inv:
  assumes inv: "fe_inv elems fe" and shape: "fe_addrs fe = (fa, fs, fp) # (na, ns, np) # rest"
    and adj: "fa + fs = na" and tile: "tiling R (fe_blocks fe \<union> X)"
    and tags: "\<forall>b\<in>X. fst b \<noteq> None"
  shows "fe_inv elems (fe_join_first ops fe) \<and> tiling R (fe_blocks (fe_join_first ops fe) \<union> X)
    \<and> fe_addrs (fe_join_first ops fe) \<noteq> []"
proof -
  note get = fe_first_two(8,9) [OF inv shape] and pos = fe_first_two(3,4) [OF inv shape]
  have ne: "fa \<noteq> na" using fe_first_two(5) [OF inv shape] by simp
  let ?D1 = "fe_delete ops na ns fe" and ?D2 = "fe_delete ops fa fs (fe_delete ops na ns fe)"
  note d1 = fe_delete_inv [OF inv get(2)]
  have "bt_get (fe_addrs ?D1) fa = Some (fs, 0)" using get ne by (simp add: fe_delete_def)
  note d2 = fe_delete_inv [OF d1(1) this]
  have "bt_get (fe_addrs ?D2) fa = None" by (simp add: fe_delete_def)
  note put = fe_put_inv [OF d2(1) this, of "fs + ns"]
  let ?C = "{(None, fa, fs), (None, na, ns)}" and ?J = "{(None, fa, fs + ns)}"
  have blocks: "fe_blocks (fe_join_first ops fe) \<union> X = (fe_blocks fe \<union> X) - ?C \<union> ?J"
    using put(2) pos d1(2) d2(2) tags by (auto simp: fe_join_first_def shape)
  have "?C \<subseteq> fe_blocks fe \<union> X" using get by (auto simp: fe_blocks_iff)
  moreover have "(\<Union>b\<in>?C. bytes_of b) = region fa (fs + ns)"
    using adj by (simp add: region_split)
  then have "tiling (\<Union>b\<in>?C. bytes_of b) ?J"
    using tiling_single [of "fs + ns" fa None] pos by simp
  ultimately have "tiling R (fe_blocks (fe_join_first ops fe) \<union> X)"
    unfolding blocks by (rule tiling_replace [OF tile])
  moreover have "fe_inv elems (fe_join_first ops fe)"
    using put(1) pos by (simp add: fe_join_first_def shape)
  moreover have "fe_blocks (fe_join_first ops fe) \<noteq> {}"
    using put(2) pos by (auto simp: fe_join_first_def shape)
  then have "fe_addrs (fe_join_first ops fe) \<noteq> []" by (auto simp: fe_blocks_def)
  ultimately show ?thesis by simp
qed

lemma fe_merge_loop_inv:
  assumes "fe_inv elems fe" "tiling R (fe_blocks fe \<union> X)" "\<forall>b\<in>X. fst b \<noteq> None" "fe_addrs fe \<noteq> []"
  shows "\<exists>fe'. fe_merge_loop ops fe i = Ret fe' \<and> fe_inv elems fe'
    \<and> tiling R (fe_blocks fe' \<union> X) \<and> fe_addrs fe' \<noteq> []"
  using assms
proof (induction "length (fe_addrs fe) - i" arbitrary: fe i rule: less_induct)
  case less
  show ?case
  proof (cases "length (fe_addrs fe) = 1")
    case True
    with less.prems show ?thesis by (subst fe_merge_loop.simps) simp
  next
    case False
    with less.prems(4) obtain fa fs fp na ns np rest where
      shape: "fe_addrs fe = (fa, fs, fp) # (na, ns, np) # rest"
      by (cases "fe_addrs fe" rule: remdups_adj.cases) auto
    note step = fe_merge_loop_step [OF less.prems(1) shape, of ops i]
    show ?thesis
    proof (cases "i < Suc (length rest)")
      case False
      with step less.prems show ?thesis by simp
    next
      case i: True
      show ?thesis
      proof (cases "fa + fs = na")
        case True
        note join = fe_join_first_inv [OF less.prems(1) shape True less.prems(2,3)]
        have "length (bt_remove fa (bt_remove na (fe_addrs fe))) \<le> length rest"
          using fe_first_two(5) [OF less.prems(1) shape] by (simp add: shape bt_remove_def)
        then have "length (fe_addrs (fe_join_first ops fe)) < length (fe_addrs fe)"
          using bt_insert_length [of fa "(fs + ns, 0)" "bt_remove fa (bt_remove na (fe_addrs fe))"]
          by (simp add: fe_join_first_def shape fe_put_def fe_delete_def del: bt_insert.simps)
        with i shape have "length (fe_addrs (fe_join_first ops fe)) - i < length (fe_addrs fe) - i"
          by simp
        from less.hyps [OF this] join less.prems(3) step i True show ?thesis by simp
      next
        case False
        have "length (fe_addrs fe) - (i + 1) < length (fe_addrs fe) - i" using i shape by simp
        from less.hyps [OF this] less.prems step i False show ?thesis by simp
      qed
    qed
  qed
qed

end

section \<open>Allocation\<close>

lemma alloc_blocks_iff:
  "(Some x, lo, n) \<in> alloc_blocks m \<longleftrightarrow>
     (\<exists>sz pd. bt_get m x = Some (sz, pd) \<and> lo = x - pd \<and> n = pd + sz)"
  "(None, lo, n) \<notin> alloc_blocks m"
  by (auto simp: alloc_blocks_def)

lemma alloc_blocks_tags: "\<forall>b\<in>alloc_blocks m. fst b \<noteq> None"
  by (auto simp: alloc_blocks_def)

lemma block_set_eqI:
  assumes "\<And>x lo n. (Some x, lo, n) \<in> A \<longleftrightarrow> (Some x, lo, n) \<in> B"
    and "\<And>lo n. (None, lo, n) \<in> A \<longleftrightarrow> (None, lo, n) \<in> B"
  shows "A = B"
  by (rule set_eqI) (metis assms option.exhaust prod_cases3)

lemma alloc_blocks_insert:
  "bt_sorted m \<Longrightarrow> bt_get m x = None \<Longrightarrow>
     alloc_blocks (bt_insert x (sz, pd) m) = insert (Some x, x - pd, pd + sz) (alloc_blocks m)"
  by (rule block_set_eqI) (auto simp: alloc_blocks_iff)

lemma alloc_blocks_remove:
  "bt_get m x = Some (sz, pd) \<Longrightarrow>
     alloc_blocks (bt_remove x m) = alloc_blocks m - {(Some x, x - pd, pd + sz)}"
  by (rule block_set_eqI) (auto simp: alloc_blocks_iff)

lemma alloc_blocks_sum:
  assumes "bt_sorted m"
  shows "(\<Sum>b\<in>alloc_blocks m. card (bytes_of b)) = bt_sum (\<lambda>(sz, pd). sz + pd) m"
proof -
  let ?f = "\<lambda>(x, sz, pd). (Some x, x - pd, pd + sz)"
  have "alloc_blocks m = ?f ` set m"
    using assms by (force simp: alloc_blocks_def bt_get_iff)
  moreover have "inj_on ?f (set m)"
    using bt_get_iff [OF assms] by (auto simp: inj_on_def) (metis option.inject prod.inject)+
  ultimately have "(\<Sum>b\<in>alloc_blocks m. card (bytes_of b)) =
      (\<Sum>p\<in>set m. card (bytes_of (?f p)))"
    by (simp add: sum.reindex)
  also have "\<dots> = bt_sum (\<lambda>(sz, pd). sz + pd) m"
    by (simp add: bt_sum_conv_sum [OF assms] case_prod_unfold add.commute del: bytes_of.simps)
  finally show ?thesis .
qed

definition btree_request_ok :: "'i btree_alloc \<Rightarrow> nat \<Rightarrow> nat \<Rightarrow> bool" where
  "btree_request_ok s n al \<longleftrightarrow> 0 < n \<and> 0 < al"

text \<open>The step from a state in which the popped block is no longer in the free index.\<close>

definition btree_record :: "'i btree_alloc \<Rightarrow> 'i free_entries \<Rightarrow> nat \<Rightarrow> nat \<Rightarrow> nat \<Rightarrow> 'i btree_alloc" where
  "btree_record s fe a pd sz =
     s\<lparr>ba_free := fe, ba_allocated := bt_insert (a + pd) (sz, pd) (ba_allocated s),
       ba_free_space := fetch_sub_usize (ba_free_space s) (sz + pd)\<rparr>"

lemma btree_record_inv:
  assumes inv: "btree_inv elems s" and fe: "fe_inv elems fe"
    and a: "bt_get (fe_addrs (ba_free s)) a = Some (n, 0)" and fits: "sz + pd \<le> n" "0 < sz"
    and blocks: "fe_blocks fe = fe_blocks (ba_free s) - {(None, a, n)}
        \<union> (if sz + pd = n then {} else {(None, a + (sz + pd), n - (sz + pd))})"
  shows "btree_inv elems (btree_record s fe a pd sz)
    \<and> btree_live (btree_record s fe a pd sz) = insert (a + pd, sz) (btree_live s)
    \<and> (a + pd, sz) \<notin> btree_live s"
proof -
  let ?A = "ba_allocated s" and ?x = "a + pd"
  let ?B = "fe_blocks (ba_free s) \<union> alloc_blocks ?A" and ?R = "region (bta_start_addr s) (bta_max_size s)"
  have tile: "tiling ?R ?B" and sorted: "bt_sorted ?A"
    and space: "ba_free_space s + bt_sum (\<lambda>(sz, pd). sz + pd) ?A = bta_max_size s"
      "bta_max_size s < usize_mod"
    using inv by (simp_all add: btree_inv_def)
  have mem: "(None, a, n) \<in> ?B" using a by (simp add: fe_blocks_iff)
  have new: "bt_get ?A ?x = None"
  proof (rule ccontr)
    assume "bt_get ?A ?x \<noteq> None"
    then obtain m p where m: "bt_get ?A ?x = Some (m, p)" by auto
    then have "0 < m" "p \<le> ?x" using inv by (auto simp: btree_inv_def)
    have "(None, a, n) = (Some ?x, ?x - p, p + m)"
      by (rule tiling_unique [OF tile mem, where x = ?x])
         (use m \<open>0 < m\<close> \<open>p \<le> ?x\<close> fits in \<open>auto simp: alloc_blocks_iff region_def\<close>)
    then show False by simp
  qed
  let ?D = "insert (Some ?x, a, pd + sz)
      (if sz + pd = n then {} else {(None, a + (sz + pd), n - (sz + pd))})"
  have "tiling (region a n) ?D"
    using tiling_single [of n a "Some ?x"] tiling_pair [of "sz + pd" "n - (sz + pd)" a "Some ?x" None] fits
    by (auto simp: add.commute)
  then have "tiling (\<Union>b\<in>{(None, a, n)}. bytes_of b) ?D" by simp
  from tiling_replace [OF tile _ this] mem have "tiling ?R (?B - {(None, a, n)} \<union> ?D)" by blast
  moreover have "?B - {(None, a, n)} \<union> ?D = fe_blocks fe \<union> alloc_blocks (bt_insert ?x (sz, pd) ?A)"
    using alloc_blocks_tags [of ?A] unfolding blocks alloc_blocks_insert [OF sorted new] by auto
  ultimately have tile': "tiling ?R (fe_blocks fe \<union> alloc_blocks (bt_insert ?x (sz, pd) ?A))" by simp
  have "(\<Sum>b\<in>alloc_blocks (bt_insert ?x (sz, pd) ?A). card (bytes_of b)) \<le> card ?R"
    by (rule tiling_card [OF tile']) (auto simp: region_def)
  then have sum: "bt_sum (\<lambda>(sz, pd). sz + pd) ?A + (sz + pd) \<le> bta_max_size s"
    using alloc_blocks_sum [of "bt_insert ?x (sz, pd) ?A"] sorted new
    by (simp add: bt_sum_insert_new region_def)
  have "0 < m \<and> p \<le> y" if "bt_get (bt_insert ?x (sz, pd) ?A) y = Some (m, p)" for y m p
    using that inv sorted fits by (auto simp: btree_inv_def split: if_splits)
  with fe sorted tile' sum space new fits have "btree_inv elems (btree_record s fe a pd sz)"
    by (simp add: btree_inv_def btree_record_def bt_sum_insert_new)
  then show ?thesis
    using new sorted by (auto simp: btree_live_def btree_record_def split: if_splits)
qed

lemma btree_free_blocks_gaps: "btree_inv elems s \<Longrightarrow> fe_gaps (ba_free s)"
  using tiling_fe_gaps by (auto simp: btree_inv_def)

context index_set
begin

lemma btree_carve_record:
  assumes inv: "btree_inv elems s" and req: "btree_request_ok s n al"
    and found: "bt_first_ge (n + al - 1) (fe_sizes (ba_free s)) = Some (fsz, i)"
  shows "\<exists>a fe. btree_carve ops (ba_free s) fsz i n al = Ret (Some a, fe)
    \<and> btree_inv elems (btree_record s fe a (pad_to a al) n)
    \<and> btree_live (btree_record s fe a (pad_to a al) n) = insert (a + pad_to a al, n) (btree_live s)
    \<and> (a + pad_to a al, n) \<notin> btree_live s"
proof -
  have pos: "0 < n" "0 < al" using req by (simp_all add: btree_request_ok_def)
  have fe_ok: "fe_inv elems (ba_free s)" using inv by (simp add: btree_inv_def)
  then have "bt_get (fe_sizes (ba_free s)) fsz = Some i" "n + al - 1 \<le> fsz"
    using bt_first_ge_Some [OF _ found] by (auto simp: fe_inv_def)
  from btree_carve_spec [OF fe_ok btree_free_blocks_gaps [OF inv] this pos]
  obtain a fe where carve: "btree_carve ops (ba_free s) fsz i n al = Ret (Some a, fe)"
    and fe: "fe_inv elems fe" "bt_get (fe_addrs (ba_free s)) a = Some (fsz, 0)" "n + pad_to a al \<le> fsz"
      "fe_blocks fe = fe_blocks (ba_free s) - {(None, a, fsz)} \<union> (if n + pad_to a al = fsz then {}
         else {(None, a + (n + pad_to a al), fsz - (n + pad_to a al))})" by blast
  from carve btree_record_inv [OF inv fe(1-3) pos(1) fe(4)] show ?thesis by blast
qed

lemma btree_merge_inv:
  assumes "btree_inv elems s" "fe_addrs (ba_free s) \<noteq> []"
  shows "\<exists>fe. fe_merge ops (ba_free s) = Ret fe \<and> btree_inv elems (s\<lparr>ba_free := fe\<rparr>)"
proof -
  have "fe_inv elems (ba_free s)" "tiling (region (bta_start_addr s) (bta_max_size s))
      (fe_blocks (ba_free s) \<union> alloc_blocks (ba_allocated s))"
    using assms(1) by (simp_all add: btree_inv_def)
  from fe_merge_loop_inv [OF this alloc_blocks_tags assms(2), of 0]
  show ?thesis using assms(1) by (auto simp: btree_inv_def fe_merge_def)
qed

text \<open>
  One call of \<open>try_malloc\<close>, with the state \<open>env s\<close> that other threads leave behind
  while it waits.
\<close>

lemma btree_try_malloc_cases:
  assumes inv: "btree_inv elems s" and req: "btree_request_ok s n al"
    and env: "btree_inv elems (env s)" "fe_addrs (ba_free (env s)) \<noteq> []"
  shows "(\<exists>t a s'. t \<in> {s, env s} \<and> btree_try_malloc ops env s n al = Ret (Some a, s')
        \<and> btree_inv elems s' \<and> al dvd a \<and> btree_live s' = insert (a, n) (btree_live t)
        \<and> (a, n) \<notin> btree_live t \<and> btree_arena s' = btree_arena t)
    \<or> (\<exists>s'. btree_try_malloc ops env s n al = Ret (None, s') \<and> btree_inv elems s'
        \<and> btree_live s' = btree_live (env s) \<and> btree_arena s' = btree_arena (env s)
        \<and> bt_first_ge (n + al - 1) (fe_sizes (ba_free s')) = None)"
proof -
  have pos: "0 < n" "0 < al" using req by (simp_all add: btree_request_ok_def)
  have req': "btree_request_ok t n al" for t :: "'i btree_alloc" using req by (simp add: btree_request_ok_def)
  let ?up = "n + al - 1"
  show ?thesis
  proof (cases "bt_first_ge ?up (fe_sizes (ba_free s))")
    case (Some p)
    obtain fsz i where "p = (fsz, i)" by (cases p)
    from btree_carve_record [OF inv req, of fsz i] Some this obtain a fe where
      a: "btree_carve ops (ba_free s) fsz i n al = Ret (Some a, fe)"
      "btree_inv elems (btree_record s fe a (pad_to a al) n)"
      "btree_live (btree_record s fe a (pad_to a al) n) = insert (a + pad_to a al, n) (btree_live s)"
      "(a + pad_to a al, n) \<notin> btree_live s" by auto
    then have "btree_try_malloc ops env s n al =
        Ret (Some (a + pad_to a al), btree_record s fe a (pad_to a al) n)"
      using Some pos \<open>p = (fsz, i)\<close>
      by (simp add: btree_try_malloc_def btree_search_def calc_padding_eq btree_record_def)
    moreover have "al dvd a + pad_to a al" using pos pad_to_aligned by blast
    ultimately show ?thesis
      using a(2-4) by (intro disjI1 exI [of _ s]) (auto simp: btree_arena_def btree_record_def)
  next
    case None
    obtain fe where fe: "fe_merge ops (ba_free (env s)) = Ret fe"
      "btree_inv elems ((env s)\<lparr>ba_free := fe\<rparr>)" using btree_merge_inv [OF env] by blast
    let ?t = "(env s)\<lparr>ba_free := fe\<rparr>"
    have live: "btree_live ?t = btree_live (env s)" "btree_arena ?t = btree_arena (env s)"
      by (simp_all add: btree_live_def btree_arena_def)
    show ?thesis
    proof (cases "bt_first_ge ?up (fe_sizes fe)")
      case None': None
      have "btree_try_malloc ops env s n al = Ret (None, ?t)"
        using None None' fe pos by (simp add: btree_try_malloc_def btree_search_def)
      with fe live None' show ?thesis by (intro disjI2) auto
    next
      case (Some p)
      obtain fsz i where p: "p = (fsz, i)" by (cases p)
      with Some have "bt_first_ge ?up (fe_sizes (ba_free ?t)) = Some (fsz, i)" by simp
      from btree_carve_record [OF fe(2) req' this] obtain a fe' where
        a: "btree_carve ops (ba_free ?t) fsz i n al = Ret (Some a, fe')"
        "btree_inv elems (btree_record ?t fe' a (pad_to a al) n)"
        "btree_live (btree_record ?t fe' a (pad_to a al) n) = insert (a + pad_to a al, n) (btree_live ?t)"
        "(a + pad_to a al, n) \<notin> btree_live ?t" by blast
      then have "btree_try_malloc ops env s n al =
          Ret (Some (a + pad_to a al), btree_record ?t fe' a (pad_to a al) n)"
        using None Some p fe pos
        by (simp add: btree_try_malloc_def btree_search_def calc_padding_eq btree_record_def)
      moreover have "al dvd a + pad_to a al" using pos pad_to_aligned by blast
      ultimately show ?thesis
        using a(2-4) live by (intro disjI1 exI [of _ "env s"]) (auto simp: btree_arena_def btree_record_def)
    qed
  qed
qed

end

section \<open>Release\<close>

definition rblock :: "nat \<times> nat \<times> nat \<Rightarrow> nat option block" where
  "rblock r = (None, fst r, fst (snd r))"

text \<open>The entries to remove are free blocks at different addresses.\<close>

definition removable :: "'i free_entries \<Rightarrow> (nat \<times> nat \<times> nat) list \<Rightarrow> bool" where
  "removable fe rs \<longleftrightarrow> distinct (map fst rs) \<and> (\<forall>(a, n, p)\<in>set rs. p = 0 \<and> bt_get (fe_addrs fe) a = Some (n, 0))"

lemma removable_Nil [simp]: "removable fe []"
  by (simp add: removable_def)

context index_set
begin

lemma fe_remove_all_inv:
  assumes "fe_inv elems fe" "removable fe rs"
  shows "fe_inv elems (fe_remove_all ops rs fe)
    \<and> fe_blocks (fe_remove_all ops rs fe) = fe_blocks fe - rblock ` set rs"
  using assms
proof (induction rs arbitrary: fe)
  case (Cons r rs)
  obtain a n where r: "r = (a, n, 0)" and get: "bt_get (fe_addrs fe) a = Some (n, 0)"
    using Cons.prems(2) by (cases r) (auto simp: removable_def)
  note del = fe_delete_inv [OF Cons.prems(1) get]
  have "\<forall>x\<in>set rs. fst x \<noteq> a" using Cons.prems(2) r by (force simp: removable_def)
  then have "removable (fe_delete ops a n fe) rs"
    using Cons.prems(2) by (simp add: removable_def fe_delete_def case_prod_unfold)
  from Cons.IH [OF del(1) this] del(2) show ?case
    by (auto simp: r fe_delete_def rblock_def)
qed simp

end

lemma btree_coalesce_prev_spec:
  assumes inv: "btree_inv elems s" and get: "bt_get (ba_allocated s) addr = Some (sz, pd)"
    and prev: "btree_coalesce_prev (fe_addrs (ba_free s)) addr (addr - pd) (sz + pd) = (ta, ts, rs)"
  shows "removable (ba_free s) rs \<and> ta + ts = addr + sz \<and> ta \<le> addr \<and> (\<forall>r\<in>set rs. fst r < addr)
    \<and> region ta ts = region (addr - pd) (pd + sz) \<union> (\<Union>r\<in>set rs. bytes_of (rblock r))
    \<and> bt_get (fe_addrs (ba_free s)) ta = (if rs = [] then None else Some (snd (hd rs)))
    \<and> rs = (if rs = [] then [] else [(ta, snd (hd rs))])"
proof -
  let ?F = "fe_addrs (ba_free s)" and ?u = "addr - pd"
  have pos: "0 < sz" "pd \<le> addr" using inv get by (auto simp: btree_inv_def)
  have fe: "fe_inv elems (ba_free s)" and tile: "tiling (region (bta_start_addr s) (bta_max_size s))
      (fe_blocks (ba_free s) \<union> alloc_blocks (ba_allocated s))" using inv by (auto simp: btree_inv_def)
  have sorted: "bt_sorted ?F" using fe by (simp add: fe_inv_def)
  have block: "(Some addr, ?u, pd + sz) \<in> alloc_blocks (ba_allocated s)"
    using get by (auto simp: alloc_blocks_iff)
  have apart: "\<not> (a \<le> ?u \<and> ?u < a + n)" if "bt_get ?F a = Some (n, 0)" for a n
  proof -
    have "?u < addr + sz" using pos by simp
    then show ?thesis
      using tiling_unique [OF tile, of "(None, a, n)" "(Some addr, ?u, pd + sz)" ?u] that block pos
      by (auto simp: fe_blocks_iff region_def)
  qed
  have "bt_get ?F ?u = None"
  proof (rule ccontr)
    assume "bt_get ?F ?u \<noteq> None"
    then obtain n where "bt_get ?F ?u = Some (n, 0)" "0 < n" using fe by (auto simp: fe_inv_def)
    with apart [of ?u n] show False by simp
  qed
  then have none: ?thesis if "(ta, ts, rs) = (?u, sz + pd, [])"
    using that pos by (auto simp: add.commute)
  show ?thesis
  proof (cases "bt_last_lt ?u ?F")
    case None
    with prev none show ?thesis by (simp add: btree_coalesce_prev_def)
  next
    case (Some p)
    obtain fa fs fp where p: "p = (fa, fs, fp)" by (cases p)
    with Some have f: "bt_get ?F fa = Some (fs, fp)" "fa < ?u"
      using bt_last_lt_Some [OF sorted, of ?u fa "(fs, fp)"] by auto
    then have fp: "fp = 0" using fe by (auto simp: fe_inv_def)
    show ?thesis
    proof (cases "fa + fs = addr")
      case True
      with apart [of fa fs] f fp pos have "pd = 0" by (cases "pd = 0") auto
      with True Some p prev fp have r: "ta = fa" "ts = sz + fs" "rs = [(fa, fs, 0)]"
        by (auto simp: btree_coalesce_prev_def)
      have "region fa (fs + sz) = region addr sz \<union> region fa fs"
        using True by (auto simp: region_split)
      with r f fp True \<open>pd = 0\<close> show ?thesis
        by (auto simp: removable_def rblock_def add.commute)
    next
      case False
      with Some p prev fp none show ?thesis by (simp add: btree_coalesce_prev_def)
    qed
  qed
qed

lemma btree_coalesce_next_spec:
  assumes fe: "fe_inv elems fe" and "ta + ts = addr + sz"
    and nxt: "btree_coalesce_next (fe_addrs fe) addr ta ts = (ts', rs)"
  shows "removable fe rs \<and> (\<forall>r\<in>set rs. addr \<le> fst r \<and> fst r = addr + sz)
    \<and> region ta ts' = region ta ts \<union> (\<Union>r\<in>set rs. bytes_of (rblock r)) \<and> ts \<le> ts'"
proof (cases "bt_first_ge addr (fe_addrs fe)")
  case None
  with nxt show ?thesis by (simp add: btree_coalesce_next_def)
next
  case (Some p)
  obtain fa fs fp where p: "p = (fa, fs, fp)" by (cases p)
  have "bt_sorted (fe_addrs fe)" using fe by (simp add: fe_inv_def)
  with Some p have f: "bt_get (fe_addrs fe) fa = Some (fs, fp)" "addr \<le> fa"
    using bt_first_ge_Some [of "fe_addrs fe" addr fa "(fs, fp)"] by auto
  then have fp: "fp = 0" using fe by (auto simp: fe_inv_def)
  show ?thesis
  proof (cases "ta + ts = fa")
    case True
    with Some p nxt fp have r: "(ts', rs) = (ts + fs, [(fa, fs, 0)])"
      by (simp add: btree_coalesce_next_def)
    with True f fp assms(2) show ?thesis by (auto simp: removable_def rblock_def region_split)
  next
    case False
    with Some p nxt fp show ?thesis by (simp add: btree_coalesce_next_def)
  qed
qed

context index_set
begin

lemma btree_free_live:
  assumes inv: "btree_inv elems s" and get: "bt_get (ba_allocated s) addr = Some (sz, pd)"
  shows "\<exists>s'. btree_free ops s addr = Ret (Inr (), s') \<and> btree_inv elems s'
    \<and> btree_arena s' = btree_arena s \<and> btree_live s' = btree_live s - {(addr, sz)}"
proof -
  let ?fe = "ba_free s" and ?A = "ba_allocated s" and ?u = "addr - pd"
  let ?R = "region (bta_start_addr s) (bta_max_size s)"
  have pos: "0 < sz" "pd \<le> addr" using inv get by (auto simp: btree_inv_def)
  have fe: "fe_inv elems ?fe" and tile: "tiling ?R (fe_blocks ?fe \<union> alloc_blocks ?A)"
    and sorted: "bt_sorted ?A"
    and space: "ba_free_space s + bt_sum (\<lambda>(sz, pd). sz + pd) ?A = bta_max_size s"
      "bta_max_size s < usize_mod"
    using inv by (simp_all add: btree_inv_def)
  obtain ta ts r1 where prev: "btree_coalesce_prev (fe_addrs ?fe) addr ?u (sz + pd) = (ta, ts, r1)"
    by (metis prod_cases3)
  obtain ts' r2 where nxt: "btree_coalesce_next (fe_addrs ?fe) addr ta ts = (ts', r2)" by fastforce
  note p = btree_coalesce_prev_spec [OF inv get prev]
  then have ends: "ta + ts = addr + sz" and ta: "ta \<le> addr" by auto
  note q = btree_coalesce_next_spec [OF fe ends nxt]
  have disj: "fst ` set r1 \<inter> fst ` set r2 = {}" using p q by fastforce
  then have "removable ?fe (r1 @ r2)" using p q by (auto simp: removable_def)
  note del = fe_remove_all_inv [OF fe this]
  let ?D = "fe_remove_all ops (r1 @ r2) ?fe"
  have free_ta: "bt_get (fe_addrs ?D) ta = None"
  proof (rule ccontr)
    assume "bt_get (fe_addrs ?D) ta \<noteq> None"
    then obtain n where "bt_get (fe_addrs ?D) ta = Some (n, 0)" using del by (auto simp: fe_inv_def)
    then have "(None, ta, n) \<in> fe_blocks ?fe - rblock ` set (r1 @ r2)"
      using del by (metis fe_blocks_iff)
    then have "bt_get (fe_addrs ?fe) ta = Some (n, 0)" "(None, ta, n) \<notin> rblock ` set r1"
      by (auto simp: fe_blocks_iff)
    moreover from p this(1) have "r1 \<noteq> []" "snd (hd r1) = (n, 0)" by (auto split: if_splits)
    with p have "r1 = [(ta, n, 0)]" by metis
    ultimately show False by (simp add: rblock_def)
  qed
  have "0 < ts" using ends ta pos by linarith
  then have "0 < ts'" using q by linarith
  note put = fe_put_inv [OF del [THEN conjunct1] free_ta this]
  let ?s' = "s\<lparr>ba_allocated := bt_remove addr ?A,
      ba_free_space := fetch_add_usize (ba_free_space s) (sz + pd), ba_free := fe_put ops ta ts' ?D\<rparr>"
  have ret: "btree_free ops s addr = Ret (Inr (), ?s')"
    using get pos prev nxt by (simp add: btree_free_def fe_put_def Let_def)
  let ?C = "insert (Some addr, ?u, pd + sz) (rblock ` set (r1 @ r2))" and ?B = "fe_blocks ?fe \<union> alloc_blocks ?A"
  have "rblock ` set (r1 @ r2) \<subseteq> fe_blocks ?fe"
    using p q by (auto simp: removable_def rblock_def fe_blocks_iff)
  then have sub: "?C \<subseteq> ?B" using get by (auto simp: alloc_blocks_iff)
  have "(\<Union>b\<in>?C. bytes_of b) = region ta ts'" using p q by auto
  then have "tiling (\<Union>b\<in>?C. bytes_of b) {(None, ta, ts')}"
    using tiling_single [OF \<open>0 < ts'\<close>, of ta None] by simp
  from tiling_replace [OF tile sub this] have "tiling ?R (?B - ?C \<union> {(None, ta, ts')})" .
  moreover have "?B - ?C \<union> {(None, ta, ts')} =
      fe_blocks (fe_put ops ta ts' ?D) \<union> alloc_blocks (bt_remove addr ?A)"
    using put(2) del alloc_blocks_remove [OF get] alloc_blocks_tags [of ?A]
    by (intro block_set_eqI) (auto simp: rblock_def fe_blocks_iff)
  moreover have "bt_sum (\<lambda>(sz, pd). sz + pd) ?A =
      sz + pd + bt_sum (\<lambda>(sz, pd). sz + pd) (bt_remove addr ?A)"
    using bt_sum_remove [OF sorted get] by simp
  moreover have "0 < m \<and> p \<le> y" if "bt_get (bt_remove addr ?A) y = Some (m, p)" for y m p
    using that inv by (auto simp: btree_inv_def split: if_splits)
  ultimately have "btree_inv elems ?s'" using put(1) sorted space by (simp add: btree_inv_def)
  moreover have "btree_live ?s' = btree_live s - {(addr, sz)}"
    using get by (auto simp: btree_live_def split: if_splits)
  ultimately show ?thesis using ret by (auto simp: btree_arena_def)
qed

lemma btree_live_sound:
  assumes "btree_inv elems s"
  shows "live_disjoint (btree_live s) \<and> live_within (btree_live s) (btree_arena s)"
proof
  have tile: "tiling (btree_arena s) (fe_blocks (ba_free s) \<union> alloc_blocks (ba_allocated s))"
    using assms by (simp add: btree_inv_def btree_arena_def)
  have block: "(Some x, x - pd, pd + n) \<in> fe_blocks (ba_free s) \<union> alloc_blocks (ba_allocated s)"
    "region x n \<subseteq> bytes_of (Some x, x - pd, pd + n)" "0 < n"
    if "bt_get (ba_allocated s) x = Some (n, pd)" for x n pd
    using that assms by (auto simp: alloc_blocks_iff btree_inv_def region_def)
  have "region x n \<inter> region y m = {}"
    if x: "bt_get (ba_allocated s) x = Some (n, pd)" and y: "bt_get (ba_allocated s) y = Some (m, qd)"
      and "x \<noteq> y" for x n pd y m qd
    using tiling_disjoint [OF tile block(1) [OF x] block(1) [OF y]] that(3) block(2) [OF x]
      block(2) [OF y] by blast
  then show "live_disjoint (btree_live s)"
    unfolding live_disjoint_def btree_live_def by fastforce
  show "live_within (btree_live s) (btree_arena s)"
    unfolding live_within_def btree_live_def
    using block tiling_subset [OF tile] by blast
qed

end

section \<open>The contract\<close>

context index_set
begin

lemma btree_no_free_blocks:
  assumes "btree_inv elems s" "fe_addrs (ba_free s) = []"
  shows "fe_sizes (ba_free s) = []"
proof (rule ccontr)
  assume "fe_sizes (ba_free s) \<noteq> []"
  then obtain sz i rest where "fe_sizes (ba_free s) = (sz, i) # rest"
    by (cases "fe_sizes (ba_free s)") auto
  then have get: "bt_get (fe_sizes (ba_free s)) sz = Some i" by simp
  with assms(1) have "elems i \<noteq> {}" unfolding btree_inv_def fe_inv_def by blast
  with get obtain a where "a \<in> size_class elems (ba_free s) sz" by (auto simp: size_class_def)
  with assms show False by (simp add: btree_inv_def fe_inv_def)
qed

lemma btree_try_malloc_full:
  assumes "btree_inv elems s" "fe_addrs (ba_free s) = []" "fe_addrs (ba_free (env s)) = []" "0 < al"
  shows "btree_try_malloc ops env s n al = Panic SubOverflow"
  using assms btree_no_free_blocks [OF assms(1,2)]
  by (simp add: btree_try_malloc_def btree_search_def fe_merge_def fe_merge_loop_empty)

end

sublocale index_set \<subseteq> heap: allocator
  "btree_inv elems" btree_arena btree_live btree_request_ok
  "btree_try_malloc ops (\<lambda>s. s)" "btree_free ops"
proof unfold_locales
  fix s assume "btree_inv elems s"
  then show "live_disjoint (btree_live s) \<and> live_within (btree_live s) (btree_arena s)"
    by (rule btree_live_sound)
next
  fix s n al a s'
  assume inv: "btree_inv elems s" and req: "btree_request_ok s n al"
    and ret: "btree_try_malloc ops (\<lambda>s. s) s n al = Ret (Some a, s')"
  then have "fe_addrs (ba_free s) \<noteq> []"
    using btree_try_malloc_full [OF inv, of "\<lambda>s. s" al n] by (auto simp: btree_request_ok_def)
  with btree_try_malloc_cases [OF inv req, of "\<lambda>s. s"] inv ret
  show "btree_inv elems s' \<and> btree_arena s' = btree_arena s \<and> (a, n) \<notin> btree_live s
      \<and> btree_live s' = insert (a, n) (btree_live s) \<and> al dvd a" by auto
next
  fix s n al s'
  assume inv: "btree_inv elems s" and req: "btree_request_ok s n al"
    and ret: "btree_try_malloc ops (\<lambda>s. s) s n al = Ret (None, s')"
  then have "fe_addrs (ba_free s) \<noteq> []"
    using btree_try_malloc_full [OF inv, of "\<lambda>s. s" al n] by (auto simp: btree_request_ok_def)
  with btree_try_malloc_cases [OF inv req, of "\<lambda>s. s"] inv ret
  show "btree_inv elems s' \<and> btree_arena s' = btree_arena s \<and> btree_live s' = btree_live s" by auto
next
  fix s a n assume inv: "btree_inv elems s" and "(a, n) \<in> btree_live s"
  then obtain pd where "bt_get (ba_allocated s) a = Some (n, pd)" by (auto simp: btree_live_def)
  with inv show "\<exists>s'. btree_free ops s a = Ret (Inr (), s') \<and> btree_inv elems s'
      \<and> btree_arena s' = btree_arena s \<and> btree_live s' = btree_live s - {(a, n)}"
    by (rule btree_free_live)
qed

context index_set
begin

lemma btree_init_inv:
  assumes "0 < sz" "sz < usize_mod"
  shows "btree_inv elems (btree_init ops btree_new start sz)"
  using assms tiling_single [of sz start "None :: nat option"]
  by (auto simp: btree_inv_def btree_init_def btree_new_def fe_new_def fe_inv_def size_class_def
      elems_insert elems_new fe_blocks_def alloc_blocks_def bt_sum_def split: if_splits)

end

context index_set
begin

lemma btree_run_safe:
  assumes "0 < sz" "sz < usize_mod" "heap.client_run (btree_init ops btree_new start sz) t"
  shows "live_disjoint (btree_live t) \<and> live_within (btree_live t) (region start sz)
    \<and> btree_space_avail t = sz - bt_sum (\<lambda>(n, pd). n + pd) (ba_allocated t)
    \<and> btree_occupied t = Ret (bt_sum (\<lambda>(n, pd). n + pd) (ba_allocated t))"
proof -
  note init = btree_init_inv [OF assms(1,2), of start]
  have arena: "btree_arena (btree_init ops btree_new start sz) = region start sz"
    by (simp add: btree_arena_def btree_init_def)
  have t: "btree_inv elems t" "btree_arena t = region start sz"
    using heap.client_run_invar [OF assms(3) init] arena by auto
  have "card (btree_arena t) = bta_max_size t" "card (region start sz) = sz"
    by (simp_all add: btree_arena_def region_def)
  with t(2) have "bta_max_size t = sz" by simp
  with t(1) have "ba_free_space t + bt_sum (\<lambda>(n, pd). n + pd) (ba_allocated t) = sz"
    by (simp add: btree_inv_def)
  then have "btree_space_avail t = sz - bt_sum (\<lambda>(n, pd). n + pd) (ba_allocated t)
      \<and> btree_occupied t = Ret (bt_sum (\<lambda>(n, pd). n + pd) (ba_allocated t))"
    using \<open>bta_max_size t = sz\<close>
    by (auto simp: btree_space_avail_def btree_occupied_def usub_def)
  with heap.client_run_live_sound [OF assms(3) init] arena show ?thesis by simp
qed

text \<open>When the first two blocks are not adjacent, merging changes nothing.\<close>

lemma fe_merge_loop_stuck:
  assumes "fe_inv elems fe" "fe_addrs fe = (fa, fs, fp) # (na, ns, np) # rest" "fa + fs \<noteq> na"
  shows "fe_merge_loop ops fe i = Ret fe"
proof (induction "Suc (length rest) - i" arbitrary: i)
  case 0
  then show ?case using fe_merge_loop_step [OF assms(1,2), of ops i] by simp
next
  case (Suc k)
  then have "Suc (length rest) - (i + 1) = k" by simp
  with Suc assms(3) show ?case using fe_merge_loop_step [OF assms(1,2), of ops i] by simp
qed

end

text \<open>A list of different addresses behaves as the crate documents \<open>IndexSet\<close>.\<close>

definition vec_set_ops :: "nat list index_set_ops" where
  "vec_set_ops = \<lparr>is_new = [], is_insert = (\<lambda>x xs. if x \<in> set xs then xs else xs @ [x]),
     is_pop = (\<lambda>xs. if xs = [] then (None, []) else (Some (last xs), removeAll (last xs) xs)),
     is_remove = removeAll, is_isempty = (\<lambda>xs. xs = [])\<rparr>"

interpretation vec_set: index_set vec_set_ops set
  by unfold_locales (auto simp: vec_set_ops_def)

section \<open>Properties\<close>

text \<open>
  \<open>BTreeAlloc::try_malloc\<close>, whatever the other threads do (within the invariant) while it
  waits: it does not panic as long as some block is free after the wait.  When it succeeds, the
  address is aligned, its region lies in the arena and is disjoint from every allocation live in
  the state it was taken from; the free and allocated blocks still partition the arena
  and the two free indices agree.  When it fails no size class can hold the worst-case request.
\<close>

theorem btree_try_malloc_correct:
  assumes "index_set ops elems" "btree_inv elems s" "0 < n" "0 < al"
    and "btree_inv elems (env s)" "fe_addrs (ba_free (env s)) \<noteq> []"
  shows "(\<exists>t a s'. t \<in> {s, env s} \<and> btree_try_malloc ops env s n al = Ret (Some a, s')
        \<and> btree_inv elems s' \<and> al dvd a \<and> region a n \<subseteq> btree_arena t
        \<and> (\<forall>(b, m)\<in>btree_live t. region a n \<inter> region b m = {})
        \<and> btree_live s' = insert (a, n) (btree_live t))
    \<or> (\<exists>s'. btree_try_malloc ops env s n al = Ret (None, s') \<and> btree_inv elems s'
        \<and> btree_live s' = btree_live (env s)
        \<and> (\<forall>a sz. bt_get (fe_addrs (ba_free s')) a = Some (sz, 0) \<longrightarrow> sz < n + al - 1))"
proof -
  have req: "btree_request_ok s n al" using assms by (simp add: btree_request_ok_def)
  from index_set.btree_try_malloc_cases [OF assms(1), where env = env, OF assms(2) req assms(5,6)] consider
    (some) t a s' where "t \<in> {s, env s}" "btree_try_malloc ops env s n al = Ret (Some a, s')"
      "btree_inv elems s'" "al dvd a" "btree_live s' = insert (a, n) (btree_live t)"
      "(a, n) \<notin> btree_live t" "btree_arena s' = btree_arena t"
  | (none) s' where "btree_try_malloc ops env s n al = Ret (None, s')" "btree_inv elems s'"
      "btree_live s' = btree_live (env s)"
      "bt_first_ge (n + al - 1) (fe_sizes (ba_free s')) = None" by blast
  then show ?thesis
  proof cases
    case some
    note sound = index_set.btree_live_sound [OF assms(1) some(3)]
    then have "region a n \<subseteq> btree_arena t" using some by (auto simp: live_within_def)
    moreover have "\<forall>(b, m)\<in>btree_live t. region a n \<inter> region b m = {}"
    proof (clarify, goal_cases)
      case (1 b m)
      with some have "(b, m) \<noteq> (a, n)" "(b, m) \<in> btree_live s'" "(a, n) \<in> btree_live s'" by auto
      with sound show ?case unfolding live_disjoint_def by fastforce
    qed
    ultimately show ?thesis using some by blast
  next
    case none
    have "sz < n + al - 1" if "bt_get (fe_addrs (ba_free s')) a = Some (sz, 0)" for a sz
    proof (rule ccontr)
      assume "\<not> sz < n + al - 1"
      then have "bt_get (fe_sizes (ba_free s')) sz = None"
        using none bt_first_ge_None [of "fe_sizes (ba_free s')" "n + al - 1" sz]
        by (simp add: btree_inv_def fe_inv_def)
      moreover have "a \<in> size_class elems (ba_free s') sz"
        using that none(2) by (simp add: btree_inv_def fe_inv_def)
      ultimately show False by (simp add: size_class_def)
    qed
    with none show ?thesis by blast
  qed
qed

definition btree_example :: "nat list btree_alloc" where
  "btree_example = btree_init vec_set_ops btree_new 4 64"

lemma btree_example_inv: "btree_inv set btree_example"
  unfolding btree_example_def by (rule vec_set.btree_init_inv) (simp_all add: usize_mod_def)

lemma btree_example_free: "fe_addrs (ba_free btree_example) \<noteq> []"
  by (simp add: btree_example_def btree_init_def btree_new_def fe_new_def)

theorem btree_try_malloc_correct_witness:
  "\<exists>a s'. btree_try_malloc vec_set_ops (\<lambda>s. s) btree_example 10 8 = Ret (Some a, s')
     \<and> btree_inv set s' \<and> 8 dvd a \<and> btree_live s' = insert (a, 10) (btree_live btree_example)"
proof -
  have "\<not> (\<exists>s'. btree_try_malloc vec_set_ops (\<lambda>s. s) btree_example 10 8 = Ret (None, s'))"
    by (simp add: btree_example_def btree_init_def btree_new_def fe_new_def btree_try_malloc_def
        btree_search_def btree_carve_def vec_set_ops_def calc_padding_eq pad_to_def)
  then show ?thesis
    using btree_try_malloc_correct [OF vec_set.index_set_axioms btree_example_inv, of 10 8 "\<lambda>s. s"]
      btree_example_inv btree_example_free by auto
qed

text \<open>
  C3.  \<open>BTreeAlloc::free\<close>: the address of a live allocation is released (with coalescing of the
  neighbouring free blocks the invariant, hence the partition of the arena, is kept, and
  exactly this allocation disappears); any other address is answered with \<open>Err(addr)\<close>
  and changes nothing.
\<close>

theorem btree_free_correct:
  assumes "index_set ops elems" "btree_inv elems s"
  shows "if \<exists>n. (addr, n) \<in> btree_live s
    then \<exists>s' n. (addr, n) \<in> btree_live s \<and> btree_free ops s addr = Ret (Inr (), s') \<and> btree_inv elems s'
           \<and> btree_live s' = btree_live s - {(addr, n)}
    else btree_free ops s addr = Ret (Inl addr, s)"
proof (cases "bt_get (ba_allocated s) addr")
  case None
  then show ?thesis by (auto simp: btree_live_def btree_free_def)
next
  case (Some p)
  obtain n pd where p: "p = (n, pd)" by (cases p)
  with Some have "(addr, n) \<in> btree_live s" by (auto simp: btree_live_def)
  with index_set.btree_free_live [OF assms, of addr n pd] Some p show ?thesis by auto
qed

theorem btree_free_correct_witness:
  "btree_free vec_set_ops btree_example 10 = Ret (Inl 10, btree_example)"
  using btree_free_correct [OF vec_set.index_set_axioms btree_example_inv, of 10]
  by (simp add: btree_live_def btree_example_def btree_init_def btree_new_def)

text \<open>
  C4.  However a client of a fresh \<open>BTreeAlloc\<close> interleaves requests and frees of live
  addresses, the live regions stay pairwise disjoint and inside the managed memory and the
  free-space counter equals the memory not covered by live allocations and their padding.
\<close>

theorem btree_runs_safe:
  assumes "index_set ops elems" "0 < sz" "sz < usize_mod"
    and "allocator.client_run btree_live btree_request_ok (btree_try_malloc ops (\<lambda>s. s)) (btree_free ops)
           (btree_init ops btree_new start sz) t"
  shows "live_disjoint (btree_live t) \<and> live_within (btree_live t) (region start sz)
    \<and> btree_space_avail t = sz - bt_sum (\<lambda>(n, pd). n + pd) (ba_allocated t)
    \<and> btree_occupied t = Ret (bt_sum (\<lambda>(n, pd). n + pd) (ba_allocated t))"
  using index_set.btree_run_safe [OF assms(1-3)] assms(4) by blast

theorem btree_runs_safe_witness:
  "\<exists>a t. btree_try_malloc vec_set_ops (\<lambda>s. s) btree_example 10 8 = Ret (Some a, t)
     \<and> live_within (btree_live t) (region 4 64)"
proof -
  obtain a t where ret: "btree_try_malloc vec_set_ops (\<lambda>s. s) btree_example 10 8 = Ret (Some a, t)"
    by (simp add: btree_example_def btree_init_def btree_new_def fe_new_def btree_try_malloc_def
        btree_search_def btree_carve_def vec_set_ops_def calc_padding_eq pad_to_def)
  moreover have "btree_request_ok btree_example 10 8" by (simp add: btree_request_ok_def)
  ultimately have "vec_set.heap.client_run btree_example t"
    using vec_set.heap.run_alloc [OF vec_set.heap.run_refl] by blast
  then have "live_within (btree_live t) (region 4 64)"
    using btree_runs_safe [OF vec_set.index_set_axioms, of 64 4 t]
    by (simp add: btree_example_def usize_mod_def)
  with ret show ?thesis by blast
qed

text \<open>
  A completely allocated heap makes \<open>try_malloc\<close> (and \<open>fake_malloc\<close>) panic instead of
  reporting failure: \<open>merge\<close> computes \<open>addrs.len() - 1\<close> with no free block in the index.
\<close>

theorem btree_full_heap_panics:
  assumes "index_set ops elems" "btree_inv elems s" "fe_addrs (ba_free s) = []" "0 < al"
  shows "btree_try_malloc ops (\<lambda>s. s) s n al = Panic SubOverflow
    \<and> btree_fake_malloc ops s n al = Panic SubOverflow"
proof -
  have "fe_sizes (ba_free s) = []" using index_set.btree_no_free_blocks [OF assms(1-3)] .
  with assms(3,4) have "btree_fake_malloc ops s n al = Panic SubOverflow"
    by (simp add: btree_fake_malloc_def fe_merge_def fe_merge_loop_empty)
  with index_set.btree_try_malloc_full [OF assms(1), where env = "\<lambda>s. s", OF assms(2,3,3,4)]
  show ?thesis by blast
qed

theorem btree_full_heap_panics_witness:
  "\<exists>s. btree_try_malloc vec_set_ops (\<lambda>s. s) btree_example 64 1 = Ret (Some 4, s)
     \<and> btree_try_malloc vec_set_ops (\<lambda>s. s) s 1 1 = Panic SubOverflow"
proof -
  obtain s where ret: "btree_try_malloc vec_set_ops (\<lambda>s. s) btree_example 64 1 = Ret (Some 4, s)"
    and full: "fe_addrs (ba_free s) = []"
    by (simp add: btree_example_def btree_init_def btree_new_def fe_new_def btree_try_malloc_def
        btree_search_def btree_carve_def vec_set_ops_def calc_padding_eq pad_to_def bt_remove_def)
  have "btree_inv set s"
    using vec_set.heap.alloc_Some [OF btree_example_inv _ ret] by (simp add: btree_request_ok_def)
  from btree_full_heap_panics [OF vec_set.index_set_axioms this full, of 1 1] ret show ?thesis by auto
qed

text \<open>
  \<open>merge\<close> only ever looks at the two lowest free blocks: when these are not adjacent it
  returns the free entries unchanged, however many adjacent pairs lie above them.
\<close>

theorem btree_merge_stops_at_first_pair:
  assumes "index_set ops elems" "fe_inv elems fe"
    and "fe_addrs fe = (fa, fs, fp) # (na, ns, np) # rest" "fa + fs \<noteq> na"
  shows "fe_merge ops fe = Ret fe"
  using index_set.fe_merge_loop_stuck [OF assms] by (simp add: fe_merge_def)

text \<open>
  The witness: the bytes 16 to 31 are free, in two adjacent blocks, and a request for 16 bytes
  is refused because of the free block at address 0.
\<close>

definition fragmented :: "nat list free_entries" where
  "fragmented = \<lparr>fe_sizes = [(1, [0, 16]), (15, [17])], fe_addrs = [(0, 1, 0), (16, 1, 0), (17, 15, 0)]\<rparr>"

lemma fragmented_inv: "fe_inv set fragmented"
  by (auto simp: fe_inv_def fragmented_def size_class_def split: if_splits)

theorem btree_merge_stops_at_first_pair_witness:
  "fe_merge vec_set_ops fragmented = Ret fragmented
   \<and> btree_try_malloc vec_set_ops (\<lambda>s. s) (btree_example\<lparr>ba_free := fragmented\<rparr>) 16 1
       = Ret (None, btree_example\<lparr>ba_free := fragmented\<rparr>)"
proof -
  have "fe_merge vec_set_ops fragmented = Ret fragmented"
    using btree_merge_stops_at_first_pair [OF vec_set.index_set_axioms fragmented_inv]
    by (simp add: fragmented_def)
  then show ?thesis
    by (simp add: btree_try_malloc_def btree_search_def) (simp add: fragmented_def)
qed

end
