(* ===== verification/Alloc_Obj.thy ===== *)
theory Alloc_Obj
  imports Alloc_Interface "HOL-Library.Multiset"
begin

text \<open>
  The fixed-size object allocator \<open>ObjAlloc\<langle>T\<rangle>\<close> of \<open>lamellar_alloc.rs\<close>.  It keeps a stack of
  free slot addresses and does not record what it has handed out, so its correctness is
  stated together with the list of addresses its clients hold.  \<open>size_of::\<langle>T\<rangle>()\<close> and
  \<open>align_of::\<langle>T\<rangle>()\<close> are arguments; Rust guarantees that the alignment is positive and divides
  the size.
\<close>

section \<open>Operations\<close>

record obj_alloc =
  oa_free_entries :: "nat list"
  oa_start_addr :: nat
  oa_max_size :: nat

definition obj_new :: obj_alloc where
  "obj_new = \<lparr>oa_free_entries = [], oa_start_addr = 0, oa_max_size = 0\<rparr>"

text \<open>\<open>(lo..hi).step_by(k).collect()\<close>; \<open>step_by(0)\<close> panics.\<close>

function range_step :: "nat \<Rightarrow> nat \<Rightarrow> nat \<Rightarrow> nat list" where
  "range_step lo hi k = (if lo < hi \<and> 0 < k then lo # range_step (lo + k) hi k else [])"
  by pat_completeness auto
termination by (relation "measure (\<lambda>(lo, hi, k). hi - lo)") auto

declare range_step.simps [simp del]

definition step_by_collect :: "nat \<Rightarrow> nat \<Rightarrow> nat \<Rightarrow> nat list exec" where
  "step_by_collect lo hi k = ebind (uassert (k \<noteq> 0)) (\<lambda>_. Ret (range_step lo hi k))"

definition obj_init :: "nat \<Rightarrow> nat \<Rightarrow> obj_alloc \<Rightarrow> nat \<Rightarrow> nat \<Rightarrow> obj_alloc exec" where
  "obj_init size_of align_of s start_addr sz =
     ebind (calc_padding start_addr align_of) (\<lambda>padding.
     ebind (step_by_collect (start_addr + padding) (start_addr + sz) size_of) (\<lambda>slots.
     Ret (s\<lparr>oa_start_addr := start_addr + padding, oa_max_size := sz,
            oa_free_entries := slots\<rparr>)))"

text \<open>\<open>Vec::pop\<close> and \<open>Vec::push\<close> work on the end of the vector.\<close>

definition obj_try_malloc :: "obj_alloc \<Rightarrow> nat \<Rightarrow> nat \<Rightarrow> (nat option \<times> obj_alloc) exec" where
  "obj_try_malloc s sz align =
     ebind (uassert (sz = 1)) (\<lambda>_.
     if oa_free_entries s \<noteq> []
     then Ret (Some (last (oa_free_entries s)),
               s\<lparr>oa_free_entries := butlast (oa_free_entries s)\<rparr>)
     else Ret (None, s))"

definition obj_malloc :: "(obj_alloc \<Rightarrow> obj_alloc) list \<Rightarrow> obj_alloc \<Rightarrow> nat \<Rightarrow> nat
    \<Rightarrow> (nat \<times> obj_alloc) option exec" where
  "obj_malloc = malloc_loop obj_try_malloc"

definition obj_fake_malloc :: "obj_alloc \<Rightarrow> nat \<Rightarrow> nat \<Rightarrow> bool exec" where
  "obj_fake_malloc s sz align =
     ebind (uassert (sz = 1)) (\<lambda>_. Ret (1 < length (oa_free_entries s)))"

definition obj_free :: "obj_alloc \<Rightarrow> nat \<Rightarrow> ((nat + unit) \<times> obj_alloc) exec" where
  "obj_free s addr = Ret (Inr (), s\<lparr>oa_free_entries := oa_free_entries s @ [addr]\<rparr>)"

definition obj_space_avail :: "obj_alloc \<Rightarrow> nat" where
  "obj_space_avail s = length (oa_free_entries s)"

definition obj_occupied :: "obj_alloc \<Rightarrow> nat exec" where
  "obj_occupied s = usub (oa_max_size s) (obj_space_avail s)"

section \<open>Slots\<close>

lemma range_step_elem:
  "a \<in> set (range_step lo hi k) \<Longrightarrow> lo \<le> a \<and> a < hi \<and> k dvd a - lo"
proof (induction lo hi k rule: range_step.induct)
  case (1 lo hi k)
  show ?case
  proof (cases "a = lo")
    case False
    with "1.prems" have h: "lo < hi \<and> 0 < k" "a \<in> set (range_step (lo + k) hi k)"
      by (auto simp: range_step.simps [of lo hi k] split: if_splits)
    with "1.IH" have r: "lo + k \<le> a" "a < hi" "k dvd a - (lo + k)" by auto
    then have "a - lo = (a - (lo + k)) + k" by simp
    with r show ?thesis by (metis add_leD1 dvd_add dvd_refl)
  qed (use "1.prems" in \<open>auto simp: range_step.simps [of lo hi k] split: if_splits\<close>)
qed

lemma range_step_distinct: "distinct (range_step lo hi k)"
proof (induction lo hi k rule: range_step.induct)
  case (1 lo hi k)
  have "lo \<notin> set (range_step (lo + k) hi k)" if "0 < k"
    using range_step_elem [of lo "lo + k" hi k] that by auto
  with 1 show ?case by (simp add: range_step.simps [of lo hi k])
qed

lemma range_step_gap:
  assumes "a \<in> set (range_step lo hi k)" "b \<in> set (range_step lo hi k)" "a < b"
  shows "a + k \<le> b"
proof -
  have r: "lo \<le> a" "k dvd a - lo" "lo \<le> b" "k dvd b - lo"
    using range_step_elem assms by blast+
  then have "k dvd (b - lo) - (a - lo)" using dvd_diff_nat by blast
  with r assms(3) have "k dvd b - a" by simp
  with assms(3) have "k \<le> b - a" by (simp add: dvd_imp_le)
  with assms(3) show ?thesis by simp
qed

lemma range_step_fits:
  assumes "a \<in> set (range_step lo hi k)" "k dvd hi - lo"
  shows "a + k \<le> hi"
proof -
  have r: "lo \<le> a" "a < hi" "k dvd a - lo" using range_step_elem [OF assms(1)] by auto
  then have "k dvd (hi - lo) - (a - lo)" using assms(2) dvd_diff_nat by blast
  with r have "k dvd hi - a" by simp
  with r(2) have "k \<le> hi - a" by (simp add: dvd_imp_le)
  with r(2) show ?thesis by simp
qed

lemma range_step_nonempty: "lo < hi \<Longrightarrow> 0 < k \<Longrightarrow> range_step lo hi k \<noteq> []"
  by (simp add: range_step.simps [of lo hi k])

text \<open>The last slot of a range whose length is no multiple of the step crosses the end.\<close>

lemma range_step_last_crosses:
  assumes "lo < hi" "0 < k" "\<not> k dvd hi - lo"
  shows "hi < last (range_step lo hi k) + k"
  using assms
proof (induction lo hi k rule: range_step.induct)
  case (1 lo hi k)
  show ?case
  proof (cases "lo + k < hi")
    case True
    have "hi - lo = (hi - (lo + k)) + k" using True by simp
    then have "\<not> k dvd hi - (lo + k)" using "1.prems"(3) by (metis dvd_add dvd_refl)
    with "1.IH" "1.prems" True have "hi < last (range_step (lo + k) hi k) + k" by simp
    with "1.prems" range_step_nonempty [OF True, of k] show ?thesis
      by (simp add: range_step.simps [of lo hi k])
  next
    case False
    have "lo + k \<noteq> hi" using "1.prems"(3) by auto
    with False "1.prems" show ?thesis
      by (simp add: range_step.simps [of lo hi k] range_step.simps [of "lo + k" hi k])
  qed
qed

section \<open>Clients\<close>

text \<open>
  An allocator and the addresses its clients hold.  A client frees only what it holds.
\<close>

inductive obj_run :: "obj_alloc \<Rightarrow> obj_alloc \<Rightarrow> nat list \<Rightarrow> bool" for s0 where
  obj_start: "obj_run s0 s0 []"
| obj_take: "obj_run s0 s held \<Longrightarrow> obj_try_malloc s 1 al = Ret (Some a, s') \<Longrightarrow>
    obj_run s0 s' (a # held)"
| obj_full: "obj_run s0 s held \<Longrightarrow> obj_try_malloc s 1 al = Ret (None, s') \<Longrightarrow>
    obj_run s0 s' held"
| obj_give: "obj_run s0 s held \<Longrightarrow> a \<in> set held \<Longrightarrow> obj_free s a = Ret (r, s') \<Longrightarrow>
    obj_run s0 s' (remove1 a held)"

lemma obj_run_conserves:
  "obj_run s0 s held \<Longrightarrow>
     mset (oa_free_entries s) + mset held = mset (oa_free_entries s0)
     \<and> oa_max_size s = oa_max_size s0"
proof (induction rule: obj_run.induct)
  case (obj_take s held al a s')
  then have "oa_free_entries s \<noteq> []" "a = last (oa_free_entries s)"
    "s' = s\<lparr>oa_free_entries := butlast (oa_free_entries s)\<rparr>"
    by (auto simp: obj_try_malloc_def split: if_splits)
  moreover from this have
    "mset (oa_free_entries s) = mset (butlast (oa_free_entries s)) + {#a#}"
    by (metis append_butlast_last_id mset.simps(1) mset.simps(2) mset_append)
  ultimately show ?case using obj_take.IH by simp
next
  case (obj_full s held al s')
  then show ?case by (auto simp: obj_try_malloc_def split: if_splits)
next
  case (obj_give s held a r s')
  then show ?case by (auto simp: obj_free_def)
qed simp

lemma obj_init_slots:
  assumes "0 < size_of" "0 < align_of" "obj_init size_of align_of s start sz = Ret s0"
  shows "oa_free_entries s0 = range_step (start + pad_to start align_of) (start + sz) size_of
    \<and> oa_start_addr s0 = start + pad_to start align_of \<and> oa_max_size s0 = sz"
  using assms by (auto simp: obj_init_def calc_padding_eq step_by_collect_def exec_simps)

section \<open>Properties\<close>

text \<open>
  C5.  However clients take and give back objects, the addresses they hold are pairwise
  different, every one is aligned for \<open>T\<close>, the objects do not overlap, each one starts inside
  the memory given to \<open>init\<close>, and held and free slots together are exactly the slots
  \<open>init\<close> cut.  If the usable memory is a multiple of the object size, every object also ends
  inside the memory.
\<close>

theorem obj_runs_safe:
  assumes "0 < size_of" "0 < align_of" "align_of dvd size_of"
    and "obj_init size_of align_of obj_new start sz = Ret s0" "obj_run s0 s held"
  shows "distinct held
    \<and> (\<forall>a\<in>set held. align_of dvd a \<and> start \<le> a \<and> a < start + sz)
    \<and> (\<forall>a\<in>set held. \<forall>b\<in>set held. a \<noteq> b \<longrightarrow> region a size_of \<inter> region b size_of = {})
    \<and> mset (oa_free_entries s) + mset held = mset (oa_free_entries s0)
    \<and> (size_of dvd sz - pad_to start align_of \<longrightarrow>
         (\<forall>a\<in>set held. region a size_of \<subseteq> region start sz))"
proof -
  let ?lo = "start + pad_to start align_of" and ?hi = "start + sz"
  let ?slots = "range_step ?lo ?hi size_of"
  have cons: "mset (oa_free_entries s) + mset held = mset ?slots"
    "oa_free_entries s0 = ?slots"
    using obj_run_conserves [OF assms(5)] obj_init_slots [OF assms(1,2,4)] by auto
  then have sub: "set held \<subseteq> set ?slots"
    by (metis set_mset_mset set_mset_union sup_ge2)
  have "distinct (oa_free_entries s @ held)"
    using cons(1) range_step_distinct by (metis mset_append mset_eq_imp_distinct_iff)
  then have dist: "distinct held" by simp
  have in_range: "align_of dvd a \<and> start \<le> a \<and> a < ?hi" if "a \<in> set held" for a
  proof -
    have r: "?lo \<le> a" "a < ?hi" "size_of dvd a - ?lo" using range_step_elem that sub by blast+
    then have "align_of dvd (a - ?lo) + ?lo"
      using assms(2,3) pad_to_aligned dvd_add dvd_trans by metis
    with r show ?thesis by simp
  qed
  have apart: "region a size_of \<inter> region b size_of = {}"
    if "a \<in> set held" "b \<in> set held" "a \<noteq> b" for a b
  proof (rule region_disjoint)
    show "a + size_of \<le> b \<or> b + size_of \<le> a"
      using range_step_gap [of a ?lo ?hi size_of b] range_step_gap [of b ?lo ?hi size_of a] that sub
      by (meson linorder_neqE_nat subsetD)
  qed
  have fits: "region a size_of \<subseteq> region start sz"
    if "size_of dvd sz - pad_to start align_of" "a \<in> set held" for a
  proof (rule region_subset)
    have "size_of dvd ?hi - ?lo" using that(1) by simp
    then show "a + size_of \<le> start + sz" using range_step_fits that(2) sub by blast
  qed (use in_range that(2) in blast)
  from dist in_range apart fits cons show ?thesis by simp
qed

theorem obj_runs_safe_witness:
  "\<exists>s0 s a. obj_init 8 4 obj_new 6 26 = Ret s0 \<and> obj_run s0 s [a]
     \<and> 4 dvd a \<and> region a 8 \<subseteq> region 6 26"
proof -
  let ?init = "\<lparr>oa_free_entries = [8, 16, 24], oa_start_addr = 8, oa_max_size = 26\<rparr>"
  let ?s = "\<lparr>oa_free_entries = [8, 16], oa_start_addr = 8, oa_max_size = 26\<rparr>"
  have init: "obj_init 8 4 obj_new 6 26 = Ret ?init"
    by (simp add: obj_init_def calc_padding_def step_by_collect_def range_step.simps obj_new_def)
  have run: "obj_run ?init ?s [24]"
    by (rule obj_take [OF obj_start, of _ 1]) (simp add: obj_try_malloc_def)
  have "(8::nat) dvd 26 - pad_to 6 4" by (simp add: pad_to_def)
  with obj_runs_safe [OF _ _ _ init run] have "region 24 8 \<subseteq> region 6 26" by simp
  moreover have "4 dvd (24::nat)" by simp
  ultimately show ?thesis using init run by blast
qed

text \<open>
  When the memory after the alignment padding is not a multiple of the object size,
  \<open>init\<close> cuts a last slot that extends past the end of the memory, and it is the first slot
  \<open>try_malloc\<close> hands out.
\<close>

theorem obj_init_overrun:
  assumes "0 < size_of" "0 < align_of" "pad_to start align_of < sz"
    and "\<not> size_of dvd sz - pad_to start align_of"
    and "obj_init size_of align_of obj_new start sz = Ret s0"
  shows "\<exists>a s'. obj_try_malloc s0 1 al = Ret (Some a, s') \<and> \<not> region a size_of \<subseteq> region start sz"
proof -
  let ?lo = "start + pad_to start align_of" and ?hi = "start + sz"
  have lo: "?lo < ?hi" "\<not> size_of dvd ?hi - ?lo" using assms(3,4) by simp_all
  then have "?hi < last (range_step ?lo ?hi size_of) + size_of"
    using range_step_last_crosses assms(1) by blast
  moreover have "range_step ?lo ?hi size_of \<noteq> []" using range_step_nonempty lo(1) assms(1) by blast
  moreover from this have "last (range_step ?lo ?hi size_of) < ?hi"
    using range_step_elem last_in_set by blast
  ultimately have
    "?hi \<in> region (last (range_step ?lo ?hi size_of)) size_of" "?hi \<notin> region start sz"
    by (auto simp: region_def)
  with obj_init_slots [OF assms(1,2,5)] \<open>range_step ?lo ?hi size_of \<noteq> []\<close> show ?thesis
    by (auto simp: obj_try_malloc_def)
qed

theorem obj_init_overrun_witness:
  "\<exists>s0 a s'. obj_init 4 4 obj_new 0 10 = Ret s0 \<and> obj_try_malloc s0 1 1 = Ret (Some a, s')
     \<and> \<not> region a 4 \<subseteq> region 0 10"
proof -
  have init: "obj_init 4 4 obj_new 0 10
      = Ret \<lparr>oa_free_entries = [0, 4, 8], oa_start_addr = 0, oa_max_size = 10\<rparr>"
    by (simp add: obj_init_def calc_padding_def step_by_collect_def range_step.simps obj_new_def)
  moreover have "\<not> (4::nat) dvd 10" by presburger
  ultimately show ?thesis
    using obj_init_overrun [OF _ _ _ _ init, of 1] by (auto simp: pad_to_def)
qed

text \<open>
  \<open>fake_malloc\<close> promises only what \<open>try_malloc\<close> delivers, but it is not exact: the
  call with one free slot left is refused although the allocation succeeds.  Requests for
  more than one object panic in both.
\<close>

theorem obj_fake_malloc_conservative:
  "(obj_fake_malloc s 1 al = Ret True \<longrightarrow>
      (\<exists>a s'. obj_try_malloc s 1 al = Ret (Some a, s') \<and> obj_free s' a = Ret (Inr (), s)))
   \<and> (length (oa_free_entries s) = 1 \<longrightarrow>
      obj_fake_malloc s 1 al = Ret False
      \<and> obj_try_malloc s 1 al = Ret (Some (hd (oa_free_entries s)), s\<lparr>oa_free_entries := []\<rparr>))
   \<and> (n \<noteq> 1 \<longrightarrow> obj_try_malloc s n al = Panic AssertFailed
      \<and> obj_fake_malloc s n al = Panic AssertFailed)"
  by (auto simp: obj_fake_malloc_def obj_try_malloc_def obj_free_def uassert_def
      length_Suc_conv)

theorem obj_fake_malloc_conservative_witness:
  "obj_fake_malloc \<lparr>oa_free_entries = [0, 4], oa_start_addr = 0, oa_max_size = 8\<rparr> 1 1 = Ret True
   \<and> (\<exists>a s'. obj_try_malloc \<lparr>oa_free_entries = [0, 4], oa_start_addr = 0, oa_max_size = 8\<rparr> 1 1
        = Ret (Some a, s'))"
proof -
  have "obj_fake_malloc \<lparr>oa_free_entries = [0, 4], oa_start_addr = 0, oa_max_size = 8\<rparr> 1 1 = Ret True"
    by (simp add: obj_fake_malloc_def)
  then show ?thesis
    using obj_fake_malloc_conservative
      [of "\<lparr>oa_free_entries = [0, 4], oa_start_addr = 0, oa_max_size = 8\<rparr>" 1] by blast
qed

end
