(* ===== verification/F64.thy ===== *)
theory F64
  imports Complex_Main
begin

text \<open>
  The part of IEEE 754 arithmetic that the array code uses on \<open>usize\<close> values: conversion,
  multiplication and division of non-negative numbers, \<open>round\<close>, \<open>floor\<close>, \<open>ceil\<close> and the
  conversion back.  A float is the rational it denotes; each operation rounds the exact
  result to 53 (\<open>f64\<close>) or 24 (\<open>f32\<close>) significant bits, ties to even.  The operands stay far from the
  subnormal and the overflow range, so neither occurs in the model.
\<close>

section \<open>Rounding to a number of bits\<close>

lemma ceiling_half_less:
  assumes "1 < (y::rat)"
  shows "\<lceil>y / 2\<rceil> < \<lceil>y\<rceil>"
proof -
  have "2 \<le> \<lceil>y\<rceil>" using assms by linarith
  then have "\<lceil>y\<rceil> \<le> 2 * (\<lceil>y\<rceil> - 1)" by simp
  then have "(of_int \<lceil>y\<rceil> :: rat) \<le> of_int (2 * (\<lceil>y\<rceil> - 1))" by (simp only: of_int_le_iff)
  moreover have "y \<le> of_int \<lceil>y\<rceil>" by simp
  ultimately have "y \<le> 2 * of_int (\<lceil>y\<rceil> - 1)" by (simp only: of_int_mult of_int_numeral)
  then have "y / 2 \<le> of_int (\<lceil>y\<rceil> - 1)" by (simp only: divide_le_eq_numeral1 mult.commute)
  then show ?thesis by linarith
qed

text \<open>The exponent: \<open>2 powi ilog2 x \<le> x < 2 powi (ilog2 x + 1)\<close>.\<close>

function ilog2 :: "rat \<Rightarrow> int" where
  "ilog2 x = (if x \<le> 0 then 0 else if x < 1 then ilog2 (2 * x) - 1
              else if x < 2 then 0 else ilog2 (x / 2) + 1)"
  by pat_completeness auto

termination
proof (relation "measure (\<lambda>x. if x < 1 then nat \<lceil>1 / x\<rceil> else nat \<lfloor>x\<rfloor>)")
  fix x :: rat
  assume x: "\<not> x \<le> 0" "x < 1"
  then have y: "1 < 1 / x" by simp
  then have "\<lceil>1 / x / 2\<rceil> < \<lceil>1 / x\<rceil>" "2 \<le> \<lceil>1 / x\<rceil>" using ceiling_half_less by (blast, linarith)
  then have "\<lceil>1 / (2 * x)\<rceil> < \<lceil>1 / x\<rceil>" "2 \<le> \<lceil>1 / x\<rceil>" by (simp_all add: mult.commute)
  moreover from this have "\<lfloor>2 * x\<rfloor> < \<lceil>1 / x\<rceil>" using x by linarith
  ultimately show "(2 * x, x) \<in> measure (\<lambda>x. if x < 1 then nat \<lceil>1 / x\<rceil> else nat \<lfloor>x\<rfloor>)"
    using x by (auto simp: nat_less_iff)
next
  fix x :: rat
  assume "\<not> x \<le> 0" "\<not> x < 1" "\<not> x < 2"
  moreover from this have "\<lfloor>x / 2\<rfloor> < \<lfloor>x\<rfloor>" by linarith
  ultimately show "(x / 2, x) \<in> measure (\<lambda>x. if x < 1 then nat \<lceil>1 / x\<rceil> else nat \<lfloor>x\<rfloor>)"
    by auto
qed simp

declare ilog2.simps [simp del]

lemma ilog2_bounds:
  "0 < x \<Longrightarrow> 2 powi ilog2 x \<le> x \<and> x < 2 powi (ilog2 x + 1)"
proof (induction x rule: ilog2.induct)
  case (1 x)
  consider "x < 1" | "1 \<le> x" "x < 2" | "2 \<le> x" by linarith
  then show ?case
  proof cases
    case 1
    with "1.IH"(1) "1.prems" have "2 powi ilog2 (2 * x) \<le> 2 * x" "2 * x < 2 powi (ilog2 (2 * x) + 1)"
      by simp_all
    moreover have "ilog2 x = ilog2 (2 * x) - 1" using 1 "1.prems" by (simp add: ilog2.simps [of x])
    ultimately show ?thesis by (simp add: power_int_diff power_int_add)
  next
    case 2
    then show ?thesis by (simp add: ilog2.simps [of x])
  next
    case 3
    with "1.IH"(2) "1.prems" have "2 powi ilog2 (x / 2) \<le> x / 2" "x / 2 < 2 powi (ilog2 (x / 2) + 1)"
      by simp_all
    moreover have "ilog2 x = ilog2 (x / 2) + 1" using 3 by (simp add: ilog2.simps [of x])
    ultimately show ?thesis by (simp add: power_int_add)
  qed
qed

lemma ilog2_eqI:
  assumes "2 ^ k \<le> x" "x < 2 ^ (k + 1)"
  shows "ilog2 x = int k"
  using assms
proof (induction k arbitrary: x)
  case 0
  then show ?case by (simp add: ilog2.simps [of x])
next
  case (Suc k)
  have "(1::rat) \<le> 2 ^ k" by simp
  then have "2 \<le> x" using Suc.prems(1) by (simp, linarith)
  moreover have "ilog2 (x / 2) = int k" using Suc.prems by (intro Suc.IH) simp_all
  ultimately show ?case by (simp add: ilog2.simps [of x])
qed

definition round_half_even :: "rat \<Rightarrow> int" where
  "round_half_even y =
     (let f = \<lfloor>y\<rfloor>; d = y - of_int f in
      if d < 1 / 2 then f else if 1 / 2 < d then f + 1 else if even f then f else f + 1)"

lemma round_half_even_error: "\<bar>of_int (round_half_even y) - y\<bar> \<le> 1 / 2"
proof -
  have "of_int \<lfloor>y\<rfloor> \<le> y" "y < of_int \<lfloor>y\<rfloor> + 1" by linarith+
  then show ?thesis
    by (cases "y - of_int \<lfloor>y\<rfloor>" "1 / 2 :: rat" rule: linorder_cases)
       (auto simp: round_half_even_def Let_def)
qed

lemma round_half_even_near:
  assumes "\<bar>y - of_int k\<bar> < 1 / 2"
  shows "round_half_even y = k"
proof -
  have "\<bar>of_int (round_half_even y) - of_int k :: rat\<bar> < 1"
    using round_half_even_error [of y] assms by linarith
  then have "\<bar>round_half_even y - k\<bar> < 1" by linarith
  then show ?thesis by simp
qed

lemma round_half_even_int [simp]: "round_half_even (of_int k) = k"
  by (simp add: round_half_even_def)

text \<open>The nearest number with \<open>p + 1\<close> significant bits.\<close>

definition float_round :: "nat \<Rightarrow> rat \<Rightarrow> rat" where
  "float_round p x = (if x \<le> 0 then 0 else
     let ulp = 2 powi (ilog2 x - int p) in of_int (round_half_even (x / ulp)) * ulp)"

text \<open>Evaluation of a rounding, from the exponent and the significand.\<close>

lemma float_round_eq:
  assumes "2 ^ k \<le> x" "x < 2 ^ (k + 1)" "k \<le> p" "\<bar>x * 2 ^ (p - k) - of_int m\<bar> < 1 / 2"
  shows "float_round p x = of_int m / 2 ^ (p - k)"
proof -
  have "0 < x" using assms(1) by (rule less_le_trans [rotated]) simp
  moreover have "ilog2 x - int p = - int (p - k)" using ilog2_eqI [OF assms(1,2)] assms(3) by simp
  ultimately show ?thesis
    using round_half_even_near [OF assms(4)] by (simp add: float_round_def Let_def power_int_minus divide_inverse)
qed

definition f64_round :: "rat \<Rightarrow> rat" where
  "f64_round = float_round 52"

definition f32_round :: "rat \<Rightarrow> rat" where
  "f32_round = float_round 23"

section \<open>Operations\<close>

definition f64_of_usize :: "nat \<Rightarrow> rat" where
  "f64_of_usize n = f64_round (of_nat n)"

definition f64_mul :: "rat \<Rightarrow> rat \<Rightarrow> rat" where
  "f64_mul x y = f64_round (x * y)"

definition f64_div :: "rat \<Rightarrow> rat \<Rightarrow> rat" where
  "f64_div x y = f64_round (x / y)"

definition f32_of_usize :: "nat \<Rightarrow> rat" where
  "f32_of_usize n = f32_round (of_nat n)"

definition f32_div :: "rat \<Rightarrow> rat \<Rightarrow> rat" where
  "f32_div x y = f32_round (x / y)"

text \<open>
  \<open>x.round() as usize\<close> (halfway cases away from zero), \<open>x.floor() as usize\<close> and
  \<open>x.ceil() as usize\<close> for a non-negative \<open>x\<close>.
\<close>

definition f64_round_usize :: "rat \<Rightarrow> nat" where
  "f64_round_usize x = nat \<lfloor>x + 1 / 2\<rfloor>"

definition f64_floor_usize :: "rat \<Rightarrow> nat" where
  "f64_floor_usize x = nat \<lfloor>x\<rfloor>"

definition f64_ceil_usize :: "rat \<Rightarrow> nat" where
  "f64_ceil_usize x = nat \<lceil>x\<rceil>"

section \<open>The laws of rounding\<close>

text \<open>What the array code needs: a relative error bound and exactness on small integers.\<close>

locale float_rounding =
  fixes rnd :: "rat \<Rightarrow> rat" and unit :: rat and max_int :: nat
  assumes rnd_error: "0 \<le> x \<Longrightarrow> \<bar>rnd x - x\<bar> \<le> x / unit"
    and rnd_nat: "n \<le> max_int \<Longrightarrow> rnd (of_nat n) = of_nat n"
    and unit_ge_2: "2 \<le> unit"
begin

lemma rnd_nonneg: "0 \<le> x \<Longrightarrow> 0 \<le> rnd x"
proof -
  assume x: "0 \<le> x"
  then have "x / unit \<le> x / 1" using unit_ge_2 by (intro divide_left_mono) auto
  with rnd_error [OF x] show ?thesis by linarith
qed

end

lemma float_round_error:
  assumes "0 \<le> x"
  shows "\<bar>float_round p x - x\<bar> \<le> x / 2 ^ Suc p"
proof (cases "x = 0")
  case False
  let ?u = "2 powi (ilog2 x - int p) :: rat"
  have u: "0 < ?u" by simp
  have x: "0 < x" "2 powi ilog2 x \<le> x" using False assms ilog2_bounds [of x] by auto
  have "\<bar>float_round p x - x\<bar> = \<bar>(of_int (round_half_even (x / ?u)) - x / ?u) * ?u\<bar>"
    using x by (simp add: float_round_def Let_def left_diff_distrib)
  also have "\<dots> = \<bar>of_int (round_half_even (x / ?u)) - x / ?u\<bar> * ?u"
    using u by (simp add: abs_mult)
  also have "\<dots> \<le> 1 / 2 * ?u"
    using round_half_even_error u by (intro mult_right_mono) auto
  also have "\<dots> = 2 powi ilog2 x / 2 ^ Suc p"
    by (simp add: power_int_diff)
  also have "\<dots> \<le> x / 2 ^ Suc p"
    using x by (intro divide_right_mono) auto
  finally show ?thesis .
qed (simp add: float_round_def)

lemma float_round_nat:
  assumes "n \<le> 2 ^ Suc p"
  shows "float_round p (of_nat n) = of_nat n"
proof (cases "n = 0")
  case False
  let ?x = "of_nat n :: rat" and ?e = "ilog2 (of_nat n)"
  let ?u = "2 powi (?e - int p) :: rat"
  have x: "0 < ?x" using False by simp
  note b = ilog2_bounds [OF x]
  have le: "?x \<le> 2 ^ Suc p" using of_nat_mono [OF assms, where 'a = rat] by simp
  have "\<exists>k. ?x / ?u = of_int k"
  proof (cases "?e \<le> int p")
    case True
    then have "?u * 2 ^ nat (int p - ?e) = 1"
      using power_int_add [of "2 :: rat" "?e - int p" "int p - ?e"]
      by (simp add: power_int_def [of "2 :: rat" "int p - ?e"])
    then have "?x / ?u = of_nat n * 2 ^ nat (int p - ?e)"
      by (simp add: nonzero_divide_eq_eq ac_simps)
    also have "\<dots> = of_int (int n * 2 ^ nat (int p - ?e))" by simp
    finally show ?thesis by blast
  next
    case False
    then have "2 powi int (Suc p) \<le> (2 powi ?e :: rat)" by (intro power_int_increasing) auto
    then have "2 ^ Suc p \<le> (2 powi ?e :: rat)" by (simp only: power_int_of_nat)
    moreover have "(2 powi ?e :: rat) \<le> 2 ^ Suc p"
      using b le by linarith
    ultimately have e: "(2 powi ?e :: rat) = 2 ^ Suc p" by linarith
    then have "?x = 2 ^ Suc p" using b le by linarith
    moreover have "?u = 2" using e by (simp add: power_int_diff)
    ultimately have "?x / ?u = of_int (2 ^ p)" by simp
    then show ?thesis by blast
  qed
  then obtain k where k: "?x / ?u = of_int k" by blast
  then have "float_round p ?x = of_int k * ?u" using x by (simp add: float_round_def Let_def)
  also have "\<dots> = ?x" unfolding k [symmetric] by simp
  finally show ?thesis .
qed (simp add: float_round_def)

abbreviation two53 :: rat where
  "two53 \<equiv> 9007199254740992"

abbreviation two24 :: rat where
  "two24 \<equiv> 16777216"

interpretation f64: float_rounding f64_round two53 "2 ^ 53"
proof
  show "\<bar>f64_round x - x\<bar> \<le> x / two53" if "0 \<le> x" for x
    using float_round_error [OF that, of 52] by (simp add: f64_round_def)
  show "f64_round (of_nat n) = of_nat n" if "n \<le> 2 ^ 53" for n
    unfolding f64_round_def by (rule float_round_nat) (use that in simp)
qed simp

interpretation f32: float_rounding f32_round two24 "2 ^ 24"
proof
  show "\<bar>f32_round x - x\<bar> \<le> x / two24" if "0 \<le> x" for x
    using float_round_error [OF that, of 23] by (simp add: f32_round_def)
  show "f32_round (of_nat n) = of_nat n" if "n \<le> 2 ^ 24" for n
    unfolding f32_round_def by (rule float_round_nat) (use that in simp)
qed simp

lemma f64_of_usize_exact: "n \<le> 2 ^ 53 \<Longrightarrow> f64_of_usize n = of_nat n"
  by (simp add: f64_of_usize_def f64.rnd_nat)

lemma f64_round_usize_of_nat [simp]: "f64_round_usize (of_nat n) = n"
proof -
  have "\<lfloor>of_nat n + 1 / 2 :: rat\<rfloor> = int n" by (rule floor_unique) auto
  then show ?thesis by (simp add: f64_round_usize_def)
qed

lemma f64_round_usize_mono: "x \<le> y \<Longrightarrow> f64_round_usize x \<le> f64_round_usize y"
  unfolding f64_round_usize_def by (intro nat_mono floor_mono) simp

lemma f64_round_usize_near:
  assumes "\<bar>x - of_nat n\<bar> < 1 / 2"
  shows "f64_round_usize x = n"
proof -
  have "of_nat n - 1 / 2 < x" "x < of_nat n + 1 / 2"
    using assms unfolding abs_less_iff by linarith+
  then have "\<lfloor>x + 1 / 2\<rfloor> = int n" by (intro floor_unique) simp_all
  then show ?thesis by (simp add: f64_round_usize_def)
qed

lemma f64_round_usize_bounds:
  assumes "0 \<le> x"
  shows "of_nat (f64_round_usize x) \<le> x + 1 / 2" "x - 1 / 2 < of_nat (f64_round_usize x)"
proof -
  have "of_nat (f64_round_usize x) = (of_int \<lfloor>x + 1 / 2\<rfloor> :: rat)"
    using assms by (simp add: f64_round_usize_def)
  then show "of_nat (f64_round_usize x) \<le> x + 1 / 2" "x - 1 / 2 < of_nat (f64_round_usize x)"
    by linarith+
qed

end
