(* ===== verification/Distribution.thy ===== *)
theory Distribution
  imports Lamellar_Prelude F64
begin

text \<open>
  The index arithmetic of distributed arrays (\<open>array/unsafe.rs\<close>): how the elements of an
  array, or of a sub-array of it, are laid out on the PEs of its team.  A block
  distribution computes its boundaries in \<open>f64\<close>; the model rounds as the hardware does.
\<close>

section \<open>Data\<close>

datatype distribution = Block | Cyclic

text \<open>
  Of \<open>UnsafeArrayData\<close> the model keeps the calling PE, the number of PEs and the number of
  bytes of the memory region allocated on each PE.
\<close>

record array_data =
  ad_my_pe :: nat
  ad_num_pes :: nat
  ad_mem_bytes :: nat

record unsafe_array_inner =
  ua_data :: array_data
  ua_distribution :: distribution
  ua_orig_elem_per_pe :: rat
  ua_elem_size :: nat
  ua_offset :: nat
  ua_size :: nat

section \<open>Operations\<close>

subsection \<open>Block boundaries\<close>

text \<open>\<open>(self.orig_elem_per_pe * pe as f64).round() as usize\<close>\<close>

definition block_bound :: "rat \<Rightarrow> nat \<Rightarrow> nat" where
  "block_bound epp pe = f64_round_usize (f64_mul epp (f64_of_usize pe))"

subsection \<open>From indices to PEs\<close>

definition pe_for_dist_index :: "unsafe_array_inner \<Rightarrow> nat \<Rightarrow> nat option exec" where
  "pe_for_dist_index a index =
     (if ua_size a > index then
        let global_index = index + ua_offset a in
        case ua_distribution a of
          Block \<Rightarrow>
            let pe = f64_floor_usize (f64_div (f64_of_usize global_index) (ua_orig_elem_per_pe a));
                end_index = block_bound (ua_orig_elem_per_pe a) (pe + 1)
            in Ret (Some (if global_index \<ge> end_index then pe + 1 else pe))
        | Cyclic \<Rightarrow> ebind (umod global_index (ad_num_pes (ua_data a))) (\<lambda>pe. Ret (Some pe))
      else Ret None)"

definition start_index_for_pe :: "unsafe_array_inner \<Rightarrow> nat \<Rightarrow> nat option exec" where
  "start_index_for_pe a pe =
     (case ua_distribution a of
        Block \<Rightarrow>
          let global_start = block_bound (ua_orig_elem_per_pe a) pe;
              start = int global_start - int (ua_offset a)
          in if start \<ge> 0
             then (if nat start < ua_size a then Ret (Some (nat start)) else Ret None)
             else (let global_end = block_bound (ua_orig_elem_per_pe a) (pe + 1)
                   in if ua_offset a < global_end then Ret (Some 0) else Ret None)
      | Cyclic \<Rightarrow>
          let num_pes = ad_num_pes (ua_data a) in
          etry (pe_for_dist_index a 0) (\<lambda>start_pe.
          let temp_len = if ua_size a < num_pes then ua_size a else num_pes
          in Ret (find (\<lambda>i. (i + start_pe) mod num_pes = pe) [0..<temp_len])))"

definition num_elems_pe :: "unsafe_array_inner \<Rightarrow> nat \<Rightarrow> nat exec" where
  "num_elems_pe a pe =
     (case ua_distribution a of
        Block \<Rightarrow>
          ebind (start_index_for_pe a pe) (\<lambda>st.
          case st of
            Some start_i \<Rightarrow>
              ebind (start_index_for_pe a (pe + 1)) (\<lambda>en.
              usub (case en of Some end_i \<Rightarrow> end_i | None \<Rightarrow> ua_size a) start_i)
          | None \<Rightarrow> Ret 0)
      | Cyclic \<Rightarrow>
          let num_pes = ad_num_pes (ua_data a) in
          ebind (pe_for_dist_index a 0) (\<lambda>st.
          case st of
            Some start_pe \<Rightarrow>
              ebind (usub (ua_size a) 1) (\<lambda>last_index.
              ebind (pe_for_dist_index a last_index) (\<lambda>en.
              case en of
                None \<Rightarrow> Panic ExplicitPanic
              | Some end_pe \<Rightarrow>
                  ebind (udiv (ua_size a) num_pes) (\<lambda>num_elems.
                  ebind (umod (ua_size a) num_pes) (\<lambda>rest.
                  Ret (num_elems +
                    (if rest \<noteq> 0 \<and>
                        (if start_pe \<le> end_pe then pe \<ge> start_pe \<and> pe \<le> end_pe
                         else pe \<ge> start_pe \<or> pe \<le> end_pe)
                     then 1 else 0))))))
          | None \<Rightarrow> Ret 0))"

definition num_elems_local :: "unsafe_array_inner \<Rightarrow> nat exec" where
  "num_elems_local a = num_elems_pe a (ad_my_pe (ua_data a))"

definition pe_offset_for_dist_index :: "unsafe_array_inner \<Rightarrow> nat \<Rightarrow> nat \<Rightarrow> nat option exec" where
  "pe_offset_for_dist_index a pe index =
     (let global_index = ua_offset a + index in
      ebind (num_elems_pe a pe) (\<lambda>num_elems_local.
      case ua_distribution a of
        Block \<Rightarrow>
          etry (start_index_for_pe a pe) (\<lambda>pe_start_index.
          let pe_end_index = pe_start_index + num_elems_local in
          if pe_start_index \<le> index \<and> index < pe_end_index
          then ebind (usub index pe_start_index) (\<lambda>d. Ret (Some d))
          else Ret None)
      | Cyclic \<Rightarrow>
          let num_pes = ad_num_pes (ua_data a) in
          ebind (umod global_index num_pes) (\<lambda>owner.
          if owner = pe then ebind (udiv index num_pes) (\<lambda>d. Ret (Some d)) else Ret None)))"

definition pe_and_offset_for_global_index :: "unsafe_array_inner \<Rightarrow> nat \<Rightarrow> (nat \<times> nat) option exec" where
  "pe_and_offset_for_global_index a index =
     etry (pe_for_dist_index a index) (\<lambda>pe.
     etry (pe_offset_for_dist_index a pe index) (\<lambda>offset.
     Ret (Some (pe, offset))))"

definition end_index_for_pe :: "unsafe_array_inner \<Rightarrow> nat \<Rightarrow> nat option exec" where
  "end_index_for_pe a pe =
     etry (start_index_for_pe a pe) (\<lambda>_.
     case ua_distribution a of
       Block \<Rightarrow>
         ebind (usub (ua_size a) 1) (\<lambda>last_index.
         etry (pe_for_dist_index a last_index) (\<lambda>last_pe.
         if pe = last_pe then Ret (Some last_index)
         else etry (start_index_for_pe a (pe + 1)) (\<lambda>next_start.
              ebind (usub next_start 1) (\<lambda>e. Ret (Some e)))))
     | Cyclic \<Rightarrow>
         etry (start_index_for_pe a pe) (\<lambda>start_i.
         ebind (num_elems_pe a pe) (\<lambda>num_elems.
         ebind (usub num_elems 1) (\<lambda>k.
         Ret (Some (start_i + k * ad_num_pes (ua_data a)))))))"

subsection \<open>From local indices to array indices\<close>

definition global_index_from_local :: "unsafe_array_inner \<Rightarrow> nat \<Rightarrow> nat option exec" where
  "global_index_from_local a index =
     (let my_pe = ad_my_pe (ua_data a) in
      case ua_distribution a of
        Block \<Rightarrow>
          let global_start = block_bound (ua_orig_elem_per_pe a) my_pe;
              start = int global_start - int (ua_offset a)
          in if start \<ge> 0
             then (if nat start < ua_size a then Ret (Some (global_start + index)) else Ret None)
             else (let global_end = block_bound (ua_orig_elem_per_pe a) (my_pe + 1)
                   in if ua_offset a < global_end then Ret (Some (ua_offset a + index)) else Ret None)
      | Cyclic \<Rightarrow>
          let num_pes = ad_num_pes (ua_data a) in
          ebind (pe_for_dist_index a 0) (\<lambda>st.
          case st of
            None \<Rightarrow> Panic ExplicitPanic
          | Some start_pe \<Rightarrow>
              ebind (usub (ua_size a) 1) (\<lambda>last_index.
              ebind (pe_for_dist_index a last_index) (\<lambda>en.
              case en of
                None \<Rightarrow> Panic ExplicitPanic
              | Some end_pe \<Rightarrow>
                  ebind (udiv (ua_size a) num_pes) (\<lambda>base.
                  ebind (umod (ua_size a) num_pes) (\<lambda>rest.
                  let num_elems = base +
                    (if rest \<noteq> 0 \<and>
                        (if start_pe \<le> end_pe then start_pe \<le> my_pe \<and> my_pe \<le> end_pe
                         else start_pe \<le> my_pe \<or> my_pe \<le> end_pe)
                     then 1 else 0)
                  in if index < num_elems then
                       (if start_pe \<le> my_pe
                        then ebind (usub my_pe start_pe) (\<lambda>d.
                             Ret (Some (num_pes * index + ua_offset a + d)))
                        else ebind (usub num_pes start_pe) (\<lambda>d.
                             Ret (Some (num_pes * index + ua_offset a + d + my_pe))))
                     else Ret None))))))"

definition pe_full_offset_for_local_index :: "unsafe_array_inner \<Rightarrow> nat \<Rightarrow> nat \<Rightarrow> nat option exec" where
  "pe_full_offset_for_local_index a pe index =
     etry (global_index_from_local a index) (\<lambda>global_index.
     case ua_distribution a of
       Block \<Rightarrow>
         let pe_start_index = block_bound (ua_orig_elem_per_pe a) pe;
             pe_end_index = block_bound (ua_orig_elem_per_pe a) (pe + 1)
         in if pe_start_index \<le> global_index \<and> global_index < pe_end_index
            then ebind (usub global_index pe_start_index) (\<lambda>d. Ret (Some d))
            else Ret None
     | Cyclic \<Rightarrow>
         let num_pes = ad_num_pes (ua_data a) in
         ebind (umod global_index num_pes) (\<lambda>owner.
         if owner = pe then ebind (udiv global_index num_pes) (\<lambda>d. Ret (Some d)) else Ret None))"

definition subarray_index_from_local :: "unsafe_array_inner \<Rightarrow> nat \<Rightarrow> nat option exec" where
  "subarray_index_from_local a index =
     (let my_pe = ad_my_pe (ua_data a) in
      etry (start_index_for_pe a my_pe) (\<lambda>my_start_index.
      case ua_distribution a of
        Block \<Rightarrow>
          if my_start_index + index < ua_size a then Ret (Some (my_start_index + index)) else Ret None
      | Cyclic \<Rightarrow>
          let num_pes = ad_num_pes (ua_data a) in
          ebind (num_elems_local a) (\<lambda>num_elems_local.
          if index < num_elems_local then Ret (Some (my_start_index + num_pes * index)) else Ret None)))"

text \<open>
  The local part of an array: the first element and one past the last element of the
  slice of the PE's memory, in elements (\<open>local_as_mut_slice\<close>); slicing panics
  when it leaves the memory region.
\<close>

definition local_start_index :: "unsafe_array_inner \<Rightarrow> nat exec" where
  "local_start_index a =
     (let my_pe = ad_my_pe (ua_data a); num_pes = ad_num_pes (ua_data a) in
      case ua_distribution a of
        Block \<Rightarrow>
          ebind (pe_for_dist_index a 0) (\<lambda>st.
          case st of
            None \<Rightarrow> Panic UnwrapNone
          | Some start_pe \<Rightarrow>
              if my_pe = start_pe
              then usub (ua_offset a) (block_bound (ua_orig_elem_per_pe a) my_pe)
              else Ret 0)
      | Cyclic \<Rightarrow>
          let global_index = ua_offset a in
          ebind (udiv global_index num_pes) (\<lambda>q.
          ebind (umod global_index num_pes) (\<lambda>r.
          Ret (q + (if my_pe \<ge> r then 0 else 1)))))"

definition local_as_mut_slice :: "unsafe_array_inner \<Rightarrow> (nat \<times> nat) exec" where
  "local_as_mut_slice a =
     ebind (num_elems_local a) (\<lambda>num_elems.
     ebind (local_start_index a) (\<lambda>start_index.
     let end_index = start_index + num_elems in
     if end_index * ua_elem_size a \<le> ad_mem_bytes (ua_data a)
     then Ret (start_index * ua_elem_size a, end_index * ua_elem_size a)
     else Panic OutOfBounds))"

definition local_as_mut_ptr :: "unsafe_array_inner \<Rightarrow> nat exec" where
  "local_as_mut_ptr a =
     ebind (local_start_index a) (\<lambda>start_index. Ret (start_index * ua_elem_size a))"

subsection \<open>Construction\<close>

datatype bound = Included nat | Excluded nat | Unbounded

definition sub_array :: "unsafe_array_inner \<Rightarrow> bound \<Rightarrow> bound \<Rightarrow> unsafe_array_inner exec" where
  "sub_array a start_bound end_bound =
     (let start = (case start_bound of Included idx \<Rightarrow> idx | Excluded idx \<Rightarrow> idx + 1 | Unbounded \<Rightarrow> 0);
          fin = (case end_bound of Included idx \<Rightarrow> idx + 1 | Excluded idx \<Rightarrow> idx | Unbounded \<Rightarrow> ua_size a)
      in if fin > ua_size a then Panic ExplicitPanic
         else ebind (usub fin start) (\<lambda>len.
              Ret (a\<lparr>ua_offset := ua_offset a + start, ua_size := len\<rparr>)))"

definition global_index :: "unsafe_array_inner \<Rightarrow> nat \<Rightarrow> nat" where
  "global_index a sub_index = ua_offset a + sub_index"

definition use_distribution :: "unsafe_array_inner \<Rightarrow> distribution \<Rightarrow> unsafe_array_inner" where
  "use_distribution a d = a\<lparr>ua_distribution := d\<rparr>"

definition unsafe_array_new :: "nat \<Rightarrow> nat \<Rightarrow> nat \<Rightarrow> nat \<Rightarrow> distribution \<Rightarrow> unsafe_array_inner exec" where
  "unsafe_array_new size_of my_pe num_pes array_size d =
     (let full_array_size = max array_size num_pes;
          elem_per_pe = f64_div (f64_of_usize full_array_size) (f64_of_usize num_pes);
          per_pe_size = f64_ceil_usize
            (f64_div (f64_of_usize full_array_size) (f64_of_usize num_pes));
          a = \<lparr>ua_data = \<lparr>ad_my_pe = my_pe, ad_num_pes = num_pes,
                          ad_mem_bytes = per_pe_size * size_of\<rparr>,
               ua_distribution = d, ua_orig_elem_per_pe = elem_per_pe,
               ua_elem_size = size_of, ua_offset = 0, ua_size = full_array_size\<rparr>
      in if full_array_size \<noteq> array_size
         then sub_array a (Included 0) (Excluded array_size)
         else Ret a)"

end
