(* ===== verification/Block_Layout.thy ===== *)
theory Block_Layout
  imports Distribution
begin

text \<open>
  The block boundaries \<open>(orig_elem_per_pe * pe as f64).round()\<close> of an array of \<open>S\<close> elements on
  \<open>P\<close> PEs, with the rounding errors of the two float operations accounted for.  For up to
  \<open>2 ^ 46\<close> elements the boundaries start at 0, end at \<open>S\<close> and never decrease, and the float
  quotient that \<open>pe_for_dist_index\<close> starts from is at most one PE too low.
\<close>

section \<open>Rounding errors\<close>

lemma near_two:
  fixes x y :: rat
  assumes "0 \<le> x" "\<bar>y - x\<bar> \<le> x / two53"
  shows "0 \<le> y" "y \<le> 2 * x" "x \<le> 2 * y"
  using assms by linarith+

lemma scaled_error:
  fixes m y :: rat
  assumes "\<bar>y - m\<bar> \<le> 3 * m / two53" "m \<le> 3 * 2 ^ 46"
  shows "\<bar>y - m\<bar> \<le> 1 / 8"
proof -
  have "m \<le> 211106232532992" using assms(2) by simp
  with assms(1) show ?thesis by linarith
qed

lemma product_error:
  fixes x e q y :: rat
  assumes "0 \<le> x" "0 \<le> q" "\<bar>e - x\<bar> \<le> x / two53" "\<bar>y - e * q\<bar> \<le> e * q / two53"
  shows "\<bar>y - x * q\<bar> \<le> 3 * (x * q) / two53"
proof -
  have "\<bar>e - x\<bar> * q \<le> x / two53 * q" using assms by (intro mult_right_mono) auto
  moreover have "\<bar>e - x\<bar> * q = \<bar>e * q - x * q\<bar>"
    using assms(2) by (simp add: abs_mult left_diff_distrib [symmetric])
  ultimately have d: "\<bar>e * q - x * q\<bar> \<le> x * q / two53" by simp
  have n: "0 \<le> x * q" using assms by simp
  have "e * q \<le> 2 * (x * q)" using d n by linarith
  with assms(4) d n show ?thesis by linarith
qed

lemma quotient_error:
  fixes x e g f :: rat
  assumes "0 < x" "0 \<le> g" "\<bar>e - x\<bar> \<le> x / two53" "\<bar>f - g / e\<bar> \<le> g / e / two53"
  shows "\<bar>f * x - g\<bar> \<le> 5 * g / two53"
proof -
  have e: "x \<le> 2 * e" "0 < e" using assms(1,3) by linarith+
  then have ge: "0 \<le> g / e" using assms(2) by simp
  then have f: "0 \<le> f" "f \<le> 2 * (g / e)" using near_two assms(4) by blast+
  have "\<bar>f - g / e\<bar> * e \<le> g / e / two53 * e" using assms(4) e by (intro mult_right_mono) auto
  moreover have "\<bar>f - g / e\<bar> * e = \<bar>(f - g / e) * e\<bar>" using e(2) by (simp add: abs_mult)
  moreover have "(f - g / e) * e = f * e - g" using e(2) by (simp add: left_diff_distrib)
  ultimately have fe: "\<bar>f * e - g\<bar> \<le> g / two53" using e(2) by simp
  have "f * x \<le> 2 * (g / e) * (2 * e)" using f e assms(1) ge by (intro mult_mono) auto
  then have fx: "f * x \<le> 4 * g" using e(2) by simp
  have "f * \<bar>e - x\<bar> \<le> f * (x / two53)" using f assms(3) by (intro mult_left_mono) auto
  moreover have "f * \<bar>e - x\<bar> = \<bar>f * e - f * x\<bar>"
    using f(1) by (simp add: abs_mult right_diff_distrib [symmetric])
  ultimately have "\<bar>f * e - f * x\<bar> \<le> f * x / two53" by simp
  with fe fx assms(2) show ?thesis by linarith
qed

section \<open>Block boundaries\<close>

definition elems_per_pe :: "nat \<Rightarrow> nat \<Rightarrow> rat" where
  "elems_per_pe S P = f64_div (f64_of_usize S) (f64_of_usize P)"

definition layout_ok :: "nat \<Rightarrow> nat \<Rightarrow> bool" where
  "layout_ok S P \<longleftrightarrow> 0 < P \<and> P \<le> S \<and> S \<le> 2 ^ 46"

lemma layout_ok_exact:
  assumes "layout_ok S P" "n \<le> 3 * S"
  shows "f64_of_usize n = of_nat n"
proof -
  have "n \<le> 2 ^ 53" using assms unfolding layout_ok_def by simp
  then show ?thesis by (rule f64_of_usize_exact)
qed

lemma elems_per_pe_error:
  assumes "layout_ok S P"
  shows "\<bar>elems_per_pe S P - of_nat S / of_nat P\<bar> \<le> of_nat S / of_nat P / two53"
proof -
  have "f64_of_usize S = of_nat S" "f64_of_usize P = of_nat P"
    using layout_ok_exact [OF assms] assms by (simp_all add: layout_ok_def)
  then show ?thesis using f64.rnd_error [of "of_nat S / of_nat P"]
    by (simp only: elems_per_pe_def f64_div_def) simp
qed

lemma mean_ge_1:
  assumes "layout_ok S P"
  shows "1 \<le> (of_nat S / of_nat P :: rat)"
  using assms by (simp add: layout_ok_def)

text \<open>The float a boundary is rounded from, against the exact mean times the PE number.\<close>

lemma bound_float_rel:
  assumes "layout_ok S P" "q \<le> P + 2"
  shows "\<bar>f64_mul (elems_per_pe S P) (f64_of_usize q) - of_nat S / of_nat P * of_nat q\<bar>
    \<le> 3 * (of_nat S / of_nat P * of_nat q) / two53"
proof -
  let ?x = "of_nat S / of_nat P :: rat" and ?e = "elems_per_pe S P"
  have q: "f64_of_usize q = of_nat q"
    by (rule layout_ok_exact [OF assms(1)]) (use assms in \<open>auto simp: layout_ok_def\<close>)
  have x: "0 \<le> ?x" by simp
  have e: "0 \<le> ?e" using near_two elems_per_pe_error [OF assms(1)] x by blast
  have "\<bar>f64_mul ?e (f64_of_usize q) - ?e * of_nat q\<bar> \<le> ?e * of_nat q / two53"
    unfolding f64_mul_def q by (rule f64.rnd_error) (simp add: e)
  then show ?thesis using product_error [OF x _ elems_per_pe_error [OF assms(1)]] by simp
qed

lemma bound_float_error:
  assumes "layout_ok S P" "q \<le> P + 2"
  shows "\<bar>f64_mul (elems_per_pe S P) (f64_of_usize q) - of_nat S / of_nat P * of_nat q\<bar> \<le> 1 / 8"
proof -
  let ?x = "of_nat S / of_nat P :: rat"
  have "q \<le> 3 * P" using assms by (simp add: layout_ok_def)
  then have "(of_nat q :: rat) \<le> 3 * of_nat P" using of_nat_mono [of q "3 * P", where 'a = rat] by simp
  then have "?x * of_nat q \<le> ?x * (3 * of_nat P)" by (intro mult_left_mono) simp_all
  also have "\<dots> = 3 * of_nat S" using assms(1) by (simp add: layout_ok_def)
  also have "\<dots> \<le> 3 * 2 ^ 46"
    using assms(1) of_nat_mono [of S "2 ^ 46", where 'a = rat] by (simp add: layout_ok_def)
  finally show ?thesis using scaled_error [OF bound_float_rel [OF assms]] by blast
qed

lemma block_bound_near:
  assumes "layout_ok S P" "q \<le> P + 2"
  shows "of_nat (block_bound (elems_per_pe S P) q) \<le> of_nat S / of_nat P * of_nat q + (5 / 8 :: rat)"
    and "of_nat S / of_nat P * of_nat q - (5 / 8 :: rat) < of_nat (block_bound (elems_per_pe S P) q)"
proof -
  define m :: rat where "m = of_nat S / of_nat P * of_nat q"
  define y where "y = f64_mul (elems_per_pe S P) (f64_of_usize q)"
  have err: "\<bar>y - m\<bar> \<le> 1 / 8" using bound_float_error [OF assms] by (simp add: m_def y_def)
  have "f64_of_usize q = of_nat q"
    by (rule layout_ok_exact [OF assms(1)]) (use assms in \<open>auto simp: layout_ok_def\<close>)
  moreover have "0 \<le> elems_per_pe S P"
    using near_two(1) [OF _ elems_per_pe_error [OF assms(1)]] by simp
  ultimately have "0 \<le> y" by (simp add: y_def f64_mul_def f64.rnd_nonneg)
  note b = f64_round_usize_bounds [OF this]
  have "of_nat (block_bound (elems_per_pe S P) q) \<le> m + 5 / 8"
    "m - 5 / 8 < of_nat (block_bound (elems_per_pe S P) q)"
    using err b unfolding block_bound_def y_def [symmetric] by linarith+
  then show "of_nat (block_bound (elems_per_pe S P) q) \<le> of_nat S / of_nat P * of_nat q + (5 / 8 :: rat)"
    and "of_nat S / of_nat P * of_nat q - (5 / 8 :: rat) < of_nat (block_bound (elems_per_pe S P) q)"
    by (simp_all only: m_def)
qed

lemma block_bound_0 [simp]: "block_bound e 0 = 0"
  by (simp add: block_bound_def f64_of_usize_def f64_mul_def f64_round_def float_round_def f64_round_usize_def)

lemma block_bound_last:
  assumes "layout_ok S P"
  shows "block_bound (elems_per_pe S P) P = S"
  unfolding block_bound_def
proof (rule f64_round_usize_near)
  have "of_nat S / of_nat P * of_nat P = (of_nat S :: rat)" using assms by (simp add: layout_ok_def)
  then show "\<bar>f64_mul (elems_per_pe S P) (f64_of_usize P) - of_nat S\<bar> < 1 / 2"
    using bound_float_error [OF assms, of P] by simp
qed

lemma block_bound_Suc_le:
  assumes "layout_ok S P" "q \<le> P + 1"
  shows "block_bound (elems_per_pe S P) q \<le> block_bound (elems_per_pe S P) (q + 1)"
  unfolding block_bound_def
proof (rule f64_round_usize_mono)
  define x :: rat where "x = of_nat S / of_nat P"
  have step: "x * of_nat (q + 1) = x * of_nat q + x" by (simp add: distrib_left)
  show "f64_mul (elems_per_pe S P) (f64_of_usize q)
      \<le> f64_mul (elems_per_pe S P) (f64_of_usize (q + 1))"
    using bound_float_error [OF assms(1), of q] bound_float_error [OF assms(1), of "q + 1"]
      mean_ge_1 [OF assms(1)] assms(2) unfolding x_def [symmetric] step by linarith
qed

text \<open>The PE that the quotient names is the owner of the index or the PE before it.\<close>

lemma quotient_pe_bounds:
  assumes "layout_ok S P" "g < S"
    and "pe = f64_floor_usize (f64_div (f64_of_usize g) (elems_per_pe S P))"
  shows "block_bound (elems_per_pe S P) pe \<le> g \<and> g < block_bound (elems_per_pe S P) (pe + 2) \<and> pe < P"
proof -
  define x :: rat where "x = of_nat S / of_nat P"
  define f where "f = f64_div (f64_of_usize g) (elems_per_pe S P)"
  have g: "f64_of_usize g = of_nat g" using layout_ok_exact [OF assms(1)] assms(2) by simp
  have x: "1 \<le> x" "\<bar>elems_per_pe S P - x\<bar> \<le> x / two53"
    using mean_ge_1 elems_per_pe_error assms(1) by (simp_all add: x_def)
  then have e: "0 < elems_per_pe S P" by linarith
  have "\<bar>f - of_nat g / elems_per_pe S P\<bar> \<le> of_nat g / elems_per_pe S P / two53"
    unfolding f_def f64_div_def g by (rule f64.rnd_error) (use e in simp)
  then have "\<bar>f * x - of_nat g\<bar> \<le> 5 * of_nat g / two53"
    using quotient_error [OF _ _ x(2)] x(1) by simp
  moreover have "(of_nat g :: rat) \<le> 2 ^ 46"
    using assms of_nat_mono [of g "2 ^ 46", where 'a = rat] by (simp add: layout_ok_def)
  ultimately have fx: "\<bar>f * x - of_nat g\<bar> \<le> 1 / 16" by simp
  have "0 \<le> f" unfolding f_def f64_div_def g by (rule f64.rnd_nonneg) (use e in simp)
  then have pe: "of_nat pe \<le> f" "f < of_nat pe + 1"
    using assms(3) by (simp_all add: f64_floor_usize_def f_def [symmetric]) linarith
  have "of_nat pe * x \<le> f * x" "f * x < (of_nat pe + 1) * x"
    using pe x(1) by (simp_all add: mult_right_mono)
  then have "x * of_nat pe \<le> f * x" "f * x < x * of_nat pe + x" by (simp_all add: algebra_simps)
  then have lo: "x * of_nat pe \<le> of_nat g + 1 / 16" and hi: "of_nat g - 1 / 16 < x * of_nat pe + x"
    using fx by linarith+
  have "x * of_nat P = of_nat S" using assms(1) by (simp add: x_def layout_ok_def)
  moreover have "of_nat g + 1 \<le> (of_nat S :: rat)"
    using assms(2) of_nat_mono [of "Suc g" S, where 'a = rat] by simp
  ultimately have "x * of_nat pe < x * of_nat P" using lo by linarith
  then have "pe < P" using x(1) by simp
  moreover have "of_nat (block_bound (elems_per_pe S P) pe) < (of_nat (g + 1) :: rat)"
    using block_bound_near(1) [OF assms(1), of pe] \<open>pe < P\<close> lo unfolding x_def [symmetric] by simp
  moreover have "of_nat g < (of_nat (block_bound (elems_per_pe S P) (pe + 2)) :: rat)"
  proof -
    have "x * of_nat (pe + 2) = x * of_nat pe + 2 * x" by (simp add: distrib_left)
    then show ?thesis
      using block_bound_near(2) [OF assms(1), of "pe + 2"] \<open>pe < P\<close> hi x(1)
      unfolding x_def [symmetric] by simp
  qed
  ultimately show ?thesis by (simp only: of_nat_less_iff) simp
qed

section \<open>Block sizes\<close>

text \<open>\<open>per_pe_size\<close>, the number of elements every PE has memory for.\<close>

lemma ceil_elems_per_pe:
  assumes "layout_ok S P"
  shows "(S - 1) div P + 1 \<le> f64_ceil_usize (elems_per_pe S P)"
proof -
  define k e x :: rat where "k = of_nat ((S - 1) div P)" and "e = elems_per_pe S P"
    and "x = of_nat S / of_nat P"
  have P: "0 < (of_nat P :: rat)" "1 \<le> S" using assms by (auto simp: layout_ok_def)
  have "x * of_nat P = of_nat S" using P by (simp add: x_def)
  moreover have "(of_nat S :: rat) < two53"
    using assms of_nat_mono [of S "2 ^ 46", where 'a = rat] by (simp add: layout_ok_def)
  moreover have "x - x / two53 \<le> e"
    using elems_per_pe_error [OF assms] unfolding e_def [symmetric] x_def [symmetric] by linarith
  then have "(x - x / two53) * of_nat P \<le> e * of_nat P" using P by (intro mult_right_mono) auto
  moreover have "(x - x / two53) * of_nat P = x * of_nat P - x * of_nat P / two53"
    by (simp add: left_diff_distrib)
  moreover have "k * of_nat P \<le> of_nat S - 1"
  proof -
    have "(S - 1) div P * P \<le> S - 1" by simp
    then have "(of_nat ((S - 1) div P * P) :: rat) \<le> of_nat (S - 1)" by (rule of_nat_mono)
    with P(2) show ?thesis by (simp add: k_def of_nat_diff)
  qed
  ultimately have "k * of_nat P < e * of_nat P" by linarith
  then have "k < e" using P by simp
  then have "int ((S - 1) div P) < \<lceil>e\<rceil>" by (simp add: k_def less_ceiling_iff)
  then show ?thesis by (simp add: f64_ceil_usize_def e_def [symmetric])
qed

lemma block_bound_exact:
  assumes "layout_ok (k * P) P" "q \<le> P"
  shows "block_bound (elems_per_pe (k * P) P) q = k * q" and "elems_per_pe (k * P) P = of_nat k"
proof -
  have P: "0 < P" "k * P \<le> 2 ^ 46" using assms by (auto simp: layout_ok_def)
  have k: "k \<le> k * P" "q \<le> k * P" using P(1) assms by (auto simp: layout_ok_def intro: order_trans)
  have k53: "k \<le> 2 ^ 53" using order_trans [OF k(1) P(2)] by (rule order_trans) simp
  have kq: "k * q \<le> k * P" using assms(2) by simp
  have "of_nat (k * P) / of_nat P = (of_nat k :: rat)" using P by simp
  then show e: "elems_per_pe (k * P) P = of_nat k"
    using layout_ok_exact [OF assms(1)] assms(1) f64.rnd_nat [OF k53]
    by (simp add: elems_per_pe_def f64_div_def layout_ok_def del: of_nat_mult)
  have "f64_of_usize q = of_nat q" using layout_ok_exact [OF assms(1)] k by simp
  then have "f64_mul (elems_per_pe (k * P) P) (f64_of_usize q) = f64_round (of_nat (k * q))"
    by (simp add: e f64_mul_def)
  also have "\<dots> = of_nat (k * q)" by (rule f64.rnd_nat [OF order_trans [OF order_trans [OF kq P(2)]]]) simp
  finally show "block_bound (elems_per_pe (k * P) P) q = k * q"
    by (simp add: block_bound_def del: of_nat_mult)
qed

lemma bound_gap:
  assumes "layout_ok S P" "q < P"
  defines "x \<equiv> of_nat S / of_nat P :: rat"
  shows "\<bar>f64_mul (elems_per_pe S P) (f64_of_usize (q + 1)) - f64_mul (elems_per_pe S P) (f64_of_usize q) - x\<bar>
    \<le> 6 * of_nat S / two53"
proof -
  have P: "0 < (of_nat P :: rat)" using assms(1) by (simp add: layout_ok_def)
  have xP: "x * of_nat P = of_nat S" using P by (simp add: x_def)
  have x0: "0 \<le> x" by (simp add: x_def)
  have "x * of_nat q \<le> x * of_nat P" "x * of_nat (q + 1) \<le> x * of_nat P"
    using x0 of_nat_mono [of q P, where 'a = rat] of_nat_mono [of "q + 1" P, where 'a = rat] assms(2)
    by (simp_all only: mult_left_mono less_imp_le Suc_leI Suc_eq_plus1 [symmetric])
  moreover have "x * of_nat (q + 1) = x * of_nat q + x" by (simp add: distrib_left)
  ultimately show ?thesis
    using bound_float_rel [OF assms(1), of q] bound_float_rel [OF assms(1), of "q + 1"] assms(2) xP
    unfolding x_def [symmetric] by linarith
qed

lemma gap_error_small:
  assumes "S * P \<le> 2 ^ 50"
  shows "6 * (of_nat S * of_nat P) / two53 \<le> 1"
proof -
  have "of_nat S * of_nat P \<le> (1125899906842624 :: rat)"
    using of_nat_mono [OF assms, where 'a = rat] by simp
  then show ?thesis by linarith
qed

text \<open>Every PE holds at least one element of the full array.\<close>

lemma block_size_ge:
  assumes "layout_ok S P" "S * P \<le> 2 ^ 50" "q < P"
  shows "block_bound (elems_per_pe S P) q < block_bound (elems_per_pe S P) (q + 1)"
proof (cases "P dvd S")
  case True
  then obtain k where "S = k * P" by (metis dvd_def mult.commute)
  moreover have "0 < k" using assms(1) calculation by (auto simp: layout_ok_def intro: Nat.gr0I)
  ultimately show ?thesis
    using assms block_bound_exact [of k P "q + 1"] block_bound_exact [of k P q] by simp
next
  case False
  define x :: rat where "x = of_nat S / of_nat P"
  define y z where "y = f64_mul (elems_per_pe S P) (f64_of_usize q)"
    and "z = f64_mul (elems_per_pe S P) (f64_of_usize (q + 1))"
  have P: "0 < (of_nat P :: rat)" using assms(1) by (simp add: layout_ok_def)
  have "P + 1 \<le> S" using assms(1) False by (cases "S = P") (auto simp: layout_ok_def)
  then have "(of_nat P :: rat) + 1 \<le> of_nat S" using of_nat_mono [of "P + 1" S, where 'a = rat] by simp
  moreover have "(1 + 6 * of_nat S / two53) * of_nat P = of_nat P + 6 * (of_nat S * of_nat P) / two53"
    by (simp add: distrib_right)
  moreover have "x * of_nat P = of_nat S" using P by (simp add: x_def)
  ultimately have "(1 + 6 * of_nat S / two53) * of_nat P \<le> x * of_nat P"
    using gap_error_small [OF assms(2)] by linarith
  then have "1 + 6 * of_nat S / two53 \<le> x" using P by simp
  then have "y + 1 \<le> z"
    using bound_gap [OF assms(1,3)] unfolding y_def [symmetric] z_def [symmetric] x_def [symmetric] by linarith
  then have "\<lfloor>y + 1 / 2\<rfloor> + 1 \<le> \<lfloor>z + 1 / 2\<rfloor>" by linarith
  moreover have "0 \<le> y"
  proof -
    have "f64_of_usize q = of_nat q"
      by (rule layout_ok_exact [OF assms(1)]) (use assms in \<open>auto simp: layout_ok_def\<close>)
    moreover have "0 \<le> elems_per_pe S P"
      using near_two(1) [OF _ elems_per_pe_error [OF assms(1)]] by simp
    ultimately show ?thesis by (simp add: y_def f64_mul_def f64.rnd_nonneg)
  qed
  moreover have "0 \<le> \<lfloor>y + 1 / 2\<rfloor>" using \<open>0 \<le> y\<close> by simp
  ultimately have "f64_round_usize y < f64_round_usize z"
    unfolding f64_round_usize_def by (subst nat_less_eq_zless) linarith+
  then show ?thesis by (simp add: block_bound_def y_def z_def)
qed

lemma block_size_le:
  assumes "layout_ok S P" "S * P \<le> 2 ^ 50" "q < P"
  shows "block_bound (elems_per_pe S P) (q + 1)
    \<le> block_bound (elems_per_pe S P) q + f64_ceil_usize (elems_per_pe S P)"
proof (cases "P dvd S")
  case True
  then obtain k where "S = k * P" by (metis dvd_def mult.commute)
  with assms block_bound_exact [of k P "q + 1"] block_bound_exact [of k P q] show ?thesis
    by (simp add: f64_ceil_usize_def)
next
  case False
  define C where "C = f64_ceil_usize (elems_per_pe S P)"
  define x :: rat where "x = of_nat S / of_nat P"
  define y z where "y = f64_mul (elems_per_pe S P) (f64_of_usize q)"
    and "z = f64_mul (elems_per_pe S P) (f64_of_usize (q + 1))"
  have P: "0 < (of_nat P :: rat)" using assms(1) by (simp add: layout_ok_def)
  have xP: "x * of_nat P = of_nat S" using P by (simp add: x_def)
  have zy: "z - y \<le> x + 6 * of_nat S / two53"
    using bound_gap [OF assms(1,3)] unfolding y_def [symmetric] z_def [symmetric] x_def [symmetric] by linarith
  have "x + 6 * of_nat S / two53 \<le> of_nat C"
  proof -
    have "S mod P \<noteq> 0" using False by (simp add: dvd_eq_mod_eq_0)
    have "S < (S div P + 1) * P"
      using assms(1) by (simp add: layout_ok_def dividend_less_div_times add.commute)
    then have "S + 1 \<le> (S div P + 1) * P" by simp
    moreover have "S div P = (S - 1) div P"
      using \<open>S mod P \<noteq> 0\<close> by (metis div_Suc Suc_pred' mod_Suc_eq assms(1) layout_ok_def less_le_trans mod_Suc
          diff_Suc_1 mod_if)
    ultimately have "S + 1 \<le> C * P"
      using mult_le_mono1 [OF ceil_elems_per_pe [OF assms(1)], of P] by (simp add: C_def)
    then have "(of_nat S :: rat) + 1 \<le> of_nat C * of_nat P"
      using of_nat_mono [of "S + 1" "C * P", where 'a = rat] by simp
    moreover note gap_error_small [OF assms(2)]
    moreover have "(x + 6 * of_nat S / two53) * of_nat P = x * of_nat P + 6 * (of_nat S * of_nat P) / two53"
      by (simp add: distrib_right)
    ultimately have "(x + 6 * of_nat S / two53) * of_nat P \<le> of_nat C * of_nat P"
      using xP by linarith
    then show ?thesis using P by simp
  qed
  with zy have "z \<le> y + of_nat C" by linarith
  then have "\<lfloor>z + 1 / 2\<rfloor> \<le> \<lfloor>y + 1 / 2\<rfloor> + int C"
    using floor_mono [of "z + 1 / 2" "y + 1 / 2 + of_int (int C)"] by simp
  then have "f64_round_usize z \<le> f64_round_usize y + C" by (simp add: f64_round_usize_def)
  then show ?thesis by (simp add: block_bound_def y_def z_def C_def)
qed

section \<open>The layout contract\<close>

text \<open>
  Boundaries cut \<open>S\<close> elements into \<open>P\<close> consecutive blocks; block \<open>q\<close> holds the elements from
  \<open>B S P q\<close> up to \<open>B S P (q + 1)\<close>.
\<close>

locale boundaries =
  fixes ok :: "nat \<Rightarrow> nat \<Rightarrow> bool"
    and B :: "nat \<Rightarrow> nat \<Rightarrow> nat \<Rightarrow> nat"
  assumes B_first: "ok S P \<Longrightarrow> B S P 0 = 0"
    and B_last: "ok S P \<Longrightarrow> B S P P = S"
    and B_step: "ok S P \<Longrightarrow> q < P \<Longrightarrow> B S P q \<le> B S P (q + 1)"
begin

lemma B_mono: "ok S P \<Longrightarrow> q \<le> r \<Longrightarrow> r \<le> P \<Longrightarrow> B S P q \<le> B S P r"
proof (induction r)
  case (Suc r)
  show ?case
  proof (cases "q = Suc r")
    case False
    with Suc have "B S P q \<le> B S P r" by simp
    also have "\<dots> \<le> B S P (Suc r)" using B_step [of S P r] Suc.prems by simp
    finally show ?thesis .
  qed simp
qed simp

lemma B_le: "ok S P \<Longrightarrow> q \<le> P \<Longrightarrow> B S P q \<le> S"
  using B_mono [of S P q P] B_last by simp

lemma block_unique:
  assumes "ok S P" "p < P" "q < P"
    and "B S P p \<le> g" "g < B S P (p + 1)" "B S P q \<le> g" "g < B S P (q + 1)"
  shows "p = q"
proof (rule ccontr)
  assume "p \<noteq> q"
  then consider "p + 1 \<le> q" | "q + 1 \<le> p" by linarith
  then show False
    using B_mono [OF assms(1), of "p + 1" q] B_mono [OF assms(1), of "q + 1" p] assms by cases auto
qed

lemma block_exists:
  assumes "ok S P" "g < S"
  shows "\<exists>p<P. B S P p \<le> g \<and> g < B S P (p + 1)"
proof -
  have P: "g < B S P P" using B_last assms by simp
  define n where "n = (LEAST n. g < B S P n)"
  have n: "g < B S P n" "n \<le> P" unfolding n_def using P by (auto intro: LeastI Least_le)
  have "0 < n" using n(1) B_first [OF assms(1)] by (cases n) auto
  then have "\<not> g < B S P (n - 1)" unfolding n_def by (intro not_less_Least) (simp add: n_def [symmetric])
  with n \<open>0 < n\<close> show ?thesis by (intro exI [of _ "n - 1"]) auto
qed

end

interpretation blocks: boundaries layout_ok "\<lambda>S P. block_bound (elems_per_pe S P)"
  by unfold_locales (use block_bound_Suc_le in \<open>simp_all add: block_bound_last\<close>)

end
