(* ===== verification/Array_Layout.thy ===== *)
theory Array_Layout
  imports Block_Layout
begin

text \<open>
  Correctness of the index arithmetic of \<open>array/unsafe.rs\<close>.  The specification is a single
  function, the owner of an element of the full array; the elements of a sub-array that a
  PE holds and the place of an index among them are derived from it.  Every operation of
  the model is shown to compute its specification, for both distributions and for
  arbitrary sub-arrays.
\<close>

section \<open>Specification\<close>

definition array_ok :: "nat \<Rightarrow> unsafe_array_inner \<Rightarrow> bool" where
  "array_ok S a \<longleftrightarrow> layout_ok S (ad_num_pes (ua_data a)) \<and> ad_my_pe (ua_data a) < ad_num_pes (ua_data a)
     \<and> ua_orig_elem_per_pe a = elems_per_pe S (ad_num_pes (ua_data a))
     \<and> ua_offset a + ua_size a \<le> S"

text \<open>The PE that holds an element of the full array.\<close>

definition dist_owner :: "unsafe_array_inner \<Rightarrow> nat \<Rightarrow> nat" where
  "dist_owner a g = (case ua_distribution a of
     Block \<Rightarrow> card {p \<in> {1..ad_num_pes (ua_data a)}. block_bound (ua_orig_elem_per_pe a) p \<le> g}
   | Cyclic \<Rightarrow> g mod ad_num_pes (ua_data a))"

text \<open>The indices of the (sub-)array that a PE holds, and the place of an index among them.\<close>

definition owned :: "unsafe_array_inner \<Rightarrow> nat \<Rightarrow> nat set" where
  "owned a pe = {i. i < ua_size a \<and> dist_owner a (ua_offset a + i) = pe}"

definition rank :: "unsafe_array_inner \<Rightarrow> nat \<Rightarrow> nat \<Rightarrow> nat" where
  "rank a pe i = card {j \<in> owned a pe. j < i}"

lemma owned_finite [simp]: "finite (owned a pe)"
  by (rule finite_subset [of _ "{..<ua_size a}"]) (auto simp: owned_def)

lemma rank_less: "i \<in> owned a pe \<Longrightarrow> rank a pe i < card (owned a pe)"
  unfolding rank_def by (rule psubset_card_mono) auto

lemma rank_strict:
  assumes "i \<in> owned a pe" "i < k"
  shows "rank a pe i < rank a pe k"
  unfolding rank_def by (rule psubset_card_mono) (use assms in auto)

lemma rank_inj: "i \<in> owned a pe \<Longrightarrow> k \<in> owned a pe \<Longrightarrow> rank a pe i = rank a pe k \<Longrightarrow> i = k"
  by (metis linorder_neqE_nat nat_less_le rank_strict)

text \<open>Ranks are the local indices \<open>0, 1, \<dots>\<close> without a gap.\<close>

lemma rank_onto: "rank a pe ` owned a pe = {..<card (owned a pe)}"
proof (rule card_subset_eq)
  show "rank a pe ` owned a pe \<subseteq> {..<card (owned a pe)}" using rank_less by auto
  have "inj_on (rank a pe) (owned a pe)" using rank_inj by (auto intro: inj_onI)
  then show "card (rank a pe ` owned a pe) = card {..<card (owned a pe)}" by (simp add: card_image)
qed simp

lemma rank_interval:
  assumes "owned a pe = {lo..<hi}" "i \<in> owned a pe"
  shows "rank a pe i = i - lo"
proof -
  have "{j \<in> owned a pe. j < i} = {lo..<i}" using assms by auto
  then show ?thesis by (simp add: rank_def)
qed

subsection \<open>Owners of a block distribution\<close>

lemma block_owner_eq:
  assumes "array_ok S a" "ua_distribution a = Block" "p < ad_num_pes (ua_data a)"
    and "block_bound (ua_orig_elem_per_pe a) p \<le> g" "g < block_bound (ua_orig_elem_per_pe a) (p + 1)"
  shows "dist_owner a g = p"
proof -
  let ?P = "ad_num_pes (ua_data a)"
  have ok: "layout_ok S ?P" and e: "ua_orig_elem_per_pe a = elems_per_pe S ?P"
    using assms(1) by (auto simp: array_ok_def)
  have "{q \<in> {1..?P}. block_bound (ua_orig_elem_per_pe a) q \<le> g} = {1..p}"
  proof (intro set_eqI iffI)
    fix q assume q: "q \<in> {q \<in> {1..?P}. block_bound (ua_orig_elem_per_pe a) q \<le> g}"
    have "\<not> p + 1 \<le> q"
      using blocks.B_mono [OF ok, of "p + 1" q] q assms(5) unfolding e by auto
    with q show "q \<in> {1..p}" by auto
  next
    fix q assume q: "q \<in> {1..p}"
    then show "q \<in> {q \<in> {1..?P}. block_bound (ua_orig_elem_per_pe a) q \<le> g}"
      using blocks.B_mono [OF ok, of q p] assms(3,4) unfolding e by auto
  qed
  with assms(2) show ?thesis by (simp add: dist_owner_def)
qed

lemma block_owner_iff:
  assumes "array_ok S a" "ua_distribution a = Block" "g < S" "p < ad_num_pes (ua_data a)"
  shows "dist_owner a g = p \<longleftrightarrow>
    block_bound (ua_orig_elem_per_pe a) p \<le> g \<and> g < block_bound (ua_orig_elem_per_pe a) (p + 1)"
proof -
  have ok: "layout_ok S (ad_num_pes (ua_data a))"
    and e: "ua_orig_elem_per_pe a = elems_per_pe S (ad_num_pes (ua_data a))"
    using assms(1) by (auto simp: array_ok_def)
  obtain q where q: "q < ad_num_pes (ua_data a)" "block_bound (ua_orig_elem_per_pe a) q \<le> g"
    "g < block_bound (ua_orig_elem_per_pe a) (q + 1)"
    using blocks.block_exists [OF ok assms(3)] unfolding e by blast
  then have "dist_owner a g = q" using block_owner_eq assms(1,2) by blast
  with q blocks.block_unique [OF ok assms(4) q(1)] show ?thesis unfolding e by blast
qed

lemma owner_less:
  assumes "array_ok S a" "g < S"
  shows "dist_owner a g < ad_num_pes (ua_data a)"
proof (cases "ua_distribution a")
  case Block
  have ok: "layout_ok S (ad_num_pes (ua_data a))"
    and e: "ua_orig_elem_per_pe a = elems_per_pe S (ad_num_pes (ua_data a))"
    using assms(1) by (auto simp: array_ok_def)
  from blocks.block_exists [OF ok assms(2)] block_owner_eq [OF assms(1) Block] show ?thesis
    unfolding e by blast
next
  case Cyclic
  with assms show ?thesis by (simp add: dist_owner_def array_ok_def layout_ok_def)
qed

lemma pe_for_dist_index_owner:
  assumes "array_ok S a"
  shows "pe_for_dist_index a i =
    Ret (if i < ua_size a then Some (dist_owner a (ua_offset a + i)) else None)"
proof (cases "ua_distribution a")
  case Block
  let ?P = "ad_num_pes (ua_data a)" and ?g = "i + ua_offset a"
  have ok: "layout_ok S ?P" and e: "ua_orig_elem_per_pe a = elems_per_pe S ?P"
    and S: "ua_offset a + ua_size a \<le> S"
    using assms(1) by (auto simp: array_ok_def)
  show ?thesis
  proof (cases "i < ua_size a")
    case True
    define pe where "pe = f64_floor_usize (f64_div (f64_of_usize ?g) (elems_per_pe S ?P))"
    define ow where "ow = (if ?g \<ge> block_bound (elems_per_pe S ?P) (pe + 1) then pe + 1 else pe)"
    have g: "?g < S" using True S by simp
    have "block_bound (elems_per_pe S ?P) pe \<le> ?g \<and> ?g < block_bound (elems_per_pe S ?P) (pe + 2) \<and> pe < ?P"
      using quotient_pe_bounds [OF ok g pe_def] by blast
    then have b: "block_bound (elems_per_pe S ?P) ow \<le> ?g" "?g < block_bound (elems_per_pe S ?P) (ow + 1)"
      "ow \<le> ?P" by (auto simp: ow_def)
    moreover have "ow \<noteq> ?P" using b(1) blocks.B_last [OF ok] g by auto
    ultimately have "dist_owner a ?g = ow" using block_owner_eq [OF assms Block] e by auto
    with True Block show ?thesis
      by (simp add: pe_for_dist_index_def Let_def e pe_def [symmetric] ow_def add.commute)
  qed (simp add: pe_for_dist_index_def)
next
  case Cyclic
  with assms show ?thesis
    by (simp add: pe_for_dist_index_def dist_owner_def array_ok_def layout_ok_def add.commute)
qed

subsection \<open>Local parts of a block distribution\<close>

lemma block_owned:
  assumes "array_ok S a" "ua_distribution a = Block" "pe < ad_num_pes (ua_data a)"
  defines "lo \<equiv> block_bound (ua_orig_elem_per_pe a) pe"
    and "hi \<equiv> block_bound (ua_orig_elem_per_pe a) (pe + 1)"
  shows "owned a pe = {lo - ua_offset a..<min (ua_offset a + ua_size a) hi - ua_offset a}"
proof -
  have "i \<in> owned a pe \<longleftrightarrow> i < ua_size a \<and> lo \<le> ua_offset a + i \<and> ua_offset a + i < hi" for i
  proof (cases "i < ua_size a")
    case True
    with assms(1) have "ua_offset a + i < S" by (simp add: array_ok_def)
    from block_owner_iff [OF assms(1,2) this assms(3)] True show ?thesis
      by (simp add: owned_def lo_def hi_def)
  qed (simp add: owned_def)
  then show ?thesis
    by (intro set_eqI) (simp only: atLeastLessThan_iff less_diff_conv le_diff_conv min_less_iff_conj
        add.commute add_less_cancel_left conj_ac, linarith)
qed

lemma block_owned_nonempty:
  assumes "array_ok S a" "ua_distribution a = Block" "pe < ad_num_pes (ua_data a)" "owned a pe \<noteq> {}"
  shows "block_bound (ua_orig_elem_per_pe a) pe < ua_offset a + ua_size a
    \<and> ua_offset a < block_bound (ua_orig_elem_per_pe a) (pe + 1)"
proof -
  obtain i where "i \<in> owned a pe" using assms(4) by blast
  then have "block_bound (ua_orig_elem_per_pe a) pe - ua_offset a \<le> i"
    "i < min (ua_offset a + ua_size a) (block_bound (ua_orig_elem_per_pe a) (pe + 1)) - ua_offset a"
    unfolding block_owned [OF assms(1-3)] by auto
  then show ?thesis by linarith
qed

lemma block_start:
  assumes "ua_distribution a = Block"
  shows "start_index_for_pe a pe = Ret
    (let lo = block_bound (ua_orig_elem_per_pe a) pe; hi = block_bound (ua_orig_elem_per_pe a) (pe + 1)
     in if ua_offset a \<le> lo then (if lo < ua_offset a + ua_size a then Some (lo - ua_offset a) else None)
        else if ua_offset a < hi then Some 0 else None)"
  using assms by (auto simp: start_index_for_pe_def Let_def nat_diff_distrib')

lemma block_num_elems:
  assumes "array_ok S a" "ua_distribution a = Block" "pe < ad_num_pes (ua_data a)"
  shows "num_elems_pe a pe = Ret (card (owned a pe))"
proof -
  let ?lo = "block_bound (ua_orig_elem_per_pe a) pe" and ?hi = "block_bound (ua_orig_elem_per_pe a) (pe + 1)"
  have le: "?lo \<le> ?hi" using blocks.B_step assms(1,3) by (auto simp: array_ok_def)
  show ?thesis
    unfolding block_owned [OF assms] num_elems_pe_def
    using assms(2) le by (auto simp: block_start Let_def usub_def min_def)
qed

lemma block_offset:
  assumes "array_ok S a" "ua_distribution a = Block" "pe < ad_num_pes (ua_data a)" "i < ua_size a"
  shows "pe_offset_for_dist_index a pe i = Ret (if i \<in> owned a pe then Some (rank a pe i) else None)"
proof -
  let ?lo = "block_bound (ua_orig_elem_per_pe a) pe" and ?hi = "block_bound (ua_orig_elem_per_pe a) (pe + 1)"
  have le: "?lo \<le> ?hi" using blocks.B_step assms(1,3) by (auto simp: array_ok_def)
  note owned = block_owned [OF assms(1-3)]
  have rank: "rank a pe i = i - (?lo - ua_offset a)" if "i \<in> owned a pe"
    using rank_interval [OF owned that] .
  show ?thesis
    unfolding pe_offset_for_dist_index_def block_num_elems [OF assms(1-3)]
    using assms(2,4) le rank owned by (auto simp: block_start Let_def usub_def min_def)
qed

subsection \<open>Local parts of a cyclic distribution\<close>

text \<open>The first index of the sub-array that a PE holds, if the sub-array is long enough.\<close>

definition cyclic_first :: "nat \<Rightarrow> nat \<Rightarrow> nat \<Rightarrow> nat" where
  "cyclic_first off P pe = (if off mod P \<le> pe then pe - off mod P else pe + P - off mod P)"

lemma cyclic_first_less: "pe < P \<Longrightarrow> cyclic_first off P pe < P"
  by (auto simp: cyclic_first_def)

lemma cyclic_first_split:
  assumes "pe < P"
  shows "off + cyclic_first off P pe = P * (off div P) + (if off mod P \<le> pe then pe else pe + P)"
proof -
  have gen: "off + (if s \<le> pe then pe - s else pe + P - s) = m + (if s \<le> pe then pe else pe + P)"
    if "s < P" "off = m + s" for s m using that by auto
  show ?thesis unfolding cyclic_first_def using assms by (intro gen) simp_all
qed

lemma cyclic_first_code:
  assumes "pe < P"
  shows "(if off mod P \<le> pe then P * k + off + (pe - off mod P) else P * k + off + (P - off mod P) + pe)
    = off + (cyclic_first off P pe + P * k)"
proof -
  have gen: "(if s \<le> pe then P * k + off + (pe - s) else P * k + off + (P - s) + pe)
      = off + ((if s \<le> pe then pe - s else pe + P - s) + P * k)" if "s < P" for s
    using that by auto
  show ?thesis unfolding cyclic_first_def using assms by (intro gen) simp
qed

lemma mod_sum_cases:
  "(s::nat) < P \<Longrightarrow> r < P \<Longrightarrow> (s + r) mod P = (if s + r < P then s + r else s + r - P)"
  by (simp add: mod_if)

lemma cyclic_shift_iff:
  "(s::nat) < P \<Longrightarrow> r < P \<Longrightarrow> pe < P \<Longrightarrow>
     (if s + r < P then s + r else s + r - P) = pe \<longleftrightarrow> r = (if s \<le> pe then pe - s else pe + P - s)"
  by auto

lemma cyclic_window_iff:
  assumes "(s::nat) < P" "r < P" "0 < r" "pe < P"
    and e: "e = (if s + (r - 1) < P then s + (r - 1) else s + (r - 1) - P)"
  shows "(if s \<le> e then pe \<ge> s \<and> pe \<le> e else pe \<ge> s \<or> pe \<le> e)
    \<longleftrightarrow> (if s \<le> pe then pe - s else pe + P - s) < r"
proof (cases "s + (r - 1) < P")
  case True
  then show ?thesis using assms by auto
next
  case False
  then have "e = s + (r - 1) - P" "e < s" using assms by auto
  with False assms(1-4) show ?thesis by auto
qed

lemma cyclic_owner_iff:
  assumes "pe < P"
  shows "(off + i) mod P = pe \<longleftrightarrow> i mod P = cyclic_first off P pe"
proof -
  have P: "0 < P" using assms by simp
  have "(off + i) mod P = (off mod P + i mod P) mod P" by (simp add: mod_add_eq)
  also have "\<dots> = (if off mod P + i mod P < P then off mod P + i mod P else off mod P + i mod P - P)"
    by (rule mod_sum_cases) (simp_all add: P)
  finally show ?thesis
    using cyclic_shift_iff [of "off mod P" P "i mod P" pe] P assms by (simp add: cyclic_first_def)
qed

lemma cyclic_owned:
  assumes "array_ok S a" "ua_distribution a = Cyclic" "pe < ad_num_pes (ua_data a)"
  shows "owned a pe = {i. i < ua_size a
    \<and> i mod ad_num_pes (ua_data a) = cyclic_first (ua_offset a) (ad_num_pes (ua_data a)) pe}"
  using cyclic_owner_iff [OF assms(3)] assms(2) by (simp add: owned_def dist_owner_def)

text \<open>Residue classes below a bound are enumerated by \<open>k0 + P * k\<close>.\<close>

lemma residue_class_image:
  assumes "k0 < (P::nat)"
  shows "{i. i < n \<and> i mod P = k0} = (\<lambda>k. k0 + P * k) ` {..<n div P + (if k0 < n mod P then 1 else 0)}"
proof -
  define q r where "q = n div P" and "r = n mod P"
  have n: "n = P * q + r" "r < P" using assms by (simp_all add: q_def r_def)
  have key: "k0 + P * k < n \<longleftrightarrow> k < q + (if k0 < r then 1 else 0)" for k
  proof (cases k q rule: linorder_cases)
    case less
    then have "P * k + P \<le> P * q" by (metis Suc_leI mult_Suc_right mult_le_mono2 add.commute)
    with assms n less show ?thesis by simp
  next
    case equal
    with n show ?thesis by simp
  next
    case greater
    then have "P * q + P \<le> P * k" by (metis Suc_leI mult_Suc_right mult_le_mono2 add.commute)
    with n greater show ?thesis by simp
  qed
  show ?thesis unfolding q_def [symmetric] r_def [symmetric]
  proof (intro set_eqI iffI)
    fix i assume "i \<in> {i. i < n \<and> i mod P = k0}"
    then have "i = k0 + P * (i div P)" "i < n" by (auto simp: add.commute)
    then show "i \<in> (\<lambda>k. k0 + P * k) ` {..<q + (if k0 < r then 1 else 0)}"
      using key [of "i div P"] by (intro image_eqI [of _ _ "i div P"]) auto
  next
    fix i assume "i \<in> (\<lambda>k. k0 + P * k) ` {..<q + (if k0 < r then 1 else 0)}"
    then obtain k where "i = k0 + P * k" "k < q + (if k0 < r then 1 else 0)" by blast
    then show "i \<in> {i. i < n \<and> i mod P = k0}" using key [of k] assms by simp
  qed
qed

lemma residue_rank:
  assumes "k0 < (P::nat)"
  shows "card {i. i < k0 + P * k \<and> i mod P = k0} = k"
proof -
  have "(k0 + P * k) div P = k" "(k0 + P * k) mod P = k0" using assms by simp_all
  moreover have "inj_on (\<lambda>k. k0 + P * k) A" for A using assms by (auto intro: inj_onI)
  ultimately show ?thesis by (simp add: residue_class_image [OF assms] card_image)
qed

lemma cyclic_card:
  assumes "array_ok S a" "ua_distribution a = Cyclic" "pe < ad_num_pes (ua_data a)"
  shows "card (owned a pe) = ua_size a div ad_num_pes (ua_data a)
    + (if cyclic_first (ua_offset a) (ad_num_pes (ua_data a)) pe < ua_size a mod ad_num_pes (ua_data a)
       then 1 else 0)"
proof -
  have k0: "cyclic_first (ua_offset a) (ad_num_pes (ua_data a)) pe < ad_num_pes (ua_data a)"
    by (rule cyclic_first_less [OF assms(3)])
  have "inj_on (\<lambda>k. x + ad_num_pes (ua_data a) * k) A" for A x
    using assms(3) by (auto intro: inj_onI)
  then show ?thesis by (simp add: cyclic_owned [OF assms] residue_class_image [OF k0] card_image)
qed

lemma cyclic_rank:
  assumes "array_ok S a" "ua_distribution a = Cyclic" "pe < ad_num_pes (ua_data a)" "i \<in> owned a pe"
  shows "rank a pe i = i div ad_num_pes (ua_data a)"
proof -
  let ?P = "ad_num_pes (ua_data a)" and ?k0 = "cyclic_first (ua_offset a) (ad_num_pes (ua_data a)) pe"
  have i: "i < ua_size a" "i mod ?P = ?k0" using assms(4) cyclic_owned [OF assms(1-3)] by auto
  define k where "k = i div ?P"
  have eq: "i = ?k0 + ?P * k" using i(2) unfolding k_def by (metis add.commute mult_div_mod_eq)
  have "{j \<in> owned a pe. j < i} = {j. j < i \<and> j mod ?P = ?k0}"
    unfolding cyclic_owned [OF assms(1-3)] using i(1) by auto
  then have "rank a pe i = card {j. j < ?k0 + ?P * k \<and> j mod ?P = ?k0}"
    by (simp only: rank_def eq)
  also have "\<dots> = k" by (rule residue_rank [OF cyclic_first_less [OF assms(3)]])
  finally show ?thesis by (simp only: k_def)
qed

text \<open>The code's test for a leftover element is the one on residues.\<close>

lemma leftover_iff:
  assumes "pe < P" "0 < n mod P"
  shows "(if off mod P \<le> (off + (n - 1)) mod P
          then pe \<ge> off mod P \<and> pe \<le> (off + (n - 1)) mod P
          else pe \<ge> off mod P \<or> pe \<le> (off + (n - 1)) mod P)
         \<longleftrightarrow> cyclic_first off P pe < n mod P"
proof -
  have P: "0 < P" using assms by simp
  have "n - 1 = P * (n div P) + (n mod P - 1)"
    using assms(2) mult_div_mod_eq [of P n] by linarith
  then have "(n - 1) mod P = n mod P - 1"
    using P by (metis mod_less mod_mult_self4 add.commute mult.commute less_imp_diff_less mod_less_divisor)
  then have "(off + (n - 1)) mod P = (off mod P + (n mod P - 1)) mod P" by (metis mod_add_eq mod_mod_trivial)
  also have "\<dots> = (if off mod P + (n mod P - 1) < P then off mod P + (n mod P - 1)
      else off mod P + (n mod P - 1) - P)"
    by (rule mod_sum_cases) (simp_all add: P less_imp_diff_less)
  finally show ?thesis
    unfolding cyclic_first_def using P assms by (intro cyclic_window_iff) simp_all
qed

lemma find_unique_upt:
  assumes "\<And>i. i < n \<Longrightarrow> Q i \<longleftrightarrow> i = k"
  shows "find Q [0..<n] = (if k < n then Some k else None)"
proof (cases "k < n")
  case True
  then show ?thesis using assms by (auto simp: find_Some_iff intro!: exI [of _ k])
next
  case False
  then show ?thesis using assms by (auto simp: find_None_iff)
qed

lemma cyclic_start:
  assumes "array_ok S a" "ua_distribution a = Cyclic" "pe < ad_num_pes (ua_data a)"
  shows "start_index_for_pe a pe = Ret
    (let k0 = cyclic_first (ua_offset a) (ad_num_pes (ua_data a)) pe
     in if k0 < ua_size a then Some k0 else None)"
proof -
  let ?P = "ad_num_pes (ua_data a)" and ?k0 = "cyclic_first (ua_offset a) (ad_num_pes (ua_data a)) pe"
  have k0: "?k0 < ?P" by (rule cyclic_first_less [OF assms(3)])
  have "(i + ua_offset a mod ?P) mod ?P = pe \<longleftrightarrow> i = ?k0" if "i < ?P" for i
    using cyclic_owner_iff [OF assms(3), of "ua_offset a" i] that by (simp add: mod_add_right_eq add.commute)
  then have "find (\<lambda>i. (i + ua_offset a mod ?P) mod ?P = pe) [0..<min (ua_size a) ?P]
      = (if ?k0 < ua_size a then Some ?k0 else None)"
    using k0 by (subst find_unique_upt [of _ _ ?k0]) auto
  moreover have "(if ua_size a < ?P then ua_size a else ?P) = min (ua_size a) ?P" by simp
  ultimately show ?thesis
    using assms(2) pe_for_dist_index_owner [OF assms(1), of 0]
    by (simp add: start_index_for_pe_def Let_def dist_owner_def)
qed

lemma cyclic_num_elems:
  assumes "array_ok S a" "ua_distribution a = Cyclic" "pe < ad_num_pes (ua_data a)"
  shows "num_elems_pe a pe = Ret (card (owned a pe))"
proof (cases "ua_size a = 0")
  case True
  then show ?thesis
    using assms(2) pe_for_dist_index_owner [OF assms(1), of 0]
    by (simp add: num_elems_pe_def Let_def owned_def)
next
  case False
  let ?P = "ad_num_pes (ua_data a)"
  define e where "e = (ua_offset a + (ua_size a - 1)) mod ?P"
  have ends: "pe_for_dist_index a 0 = Ret (Some (ua_offset a mod ?P))"
    "pe_for_dist_index a (ua_size a - 1) = Ret (Some e)"
    using False assms(2) pe_for_dist_index_owner [OF assms(1)] by (simp_all add: dist_owner_def e_def)
  have "ua_size a mod ?P \<noteq> 0 \<and> (if ua_offset a mod ?P \<le> e then pe \<ge> ua_offset a mod ?P \<and> pe \<le> e
        else pe \<ge> ua_offset a mod ?P \<or> pe \<le> e)
      \<longleftrightarrow> cyclic_first (ua_offset a) ?P pe < ua_size a mod ?P"
    using leftover_iff [OF assms(3), of "ua_size a" "ua_offset a"] unfolding e_def [symmetric] by auto
  with False assms(2,3) ends show ?thesis
    unfolding cyclic_card [OF assms] by (simp add: num_elems_pe_def Let_def del: One_nat_def)
qed

lemma cyclic_offset:
  assumes "array_ok S a" "ua_distribution a = Cyclic" "pe < ad_num_pes (ua_data a)" "i < ua_size a"
  shows "pe_offset_for_dist_index a pe i = Ret (if i \<in> owned a pe then Some (rank a pe i) else None)"
proof -
  have "i \<in> owned a pe \<longleftrightarrow> (ua_offset a + i) mod ad_num_pes (ua_data a) = pe"
    using assms(2,4) by (simp add: owned_def dist_owner_def)
  then show ?thesis
    using assms(2,3) cyclic_rank [OF assms(1-3)]
    by (simp add: pe_offset_for_dist_index_def cyclic_num_elems [OF assms(1-3)] Let_def)
qed

section \<open>Both distributions\<close>

lemma num_elems_card:
  assumes "array_ok S a" "pe < ad_num_pes (ua_data a)"
  shows "num_elems_pe a pe = Ret (card (owned a pe))"
  using assms block_num_elems cyclic_num_elems by (cases "ua_distribution a") blast+

lemma offset_rank:
  assumes "array_ok S a" "pe < ad_num_pes (ua_data a)" "i < ua_size a"
  shows "pe_offset_for_dist_index a pe i = Ret (if i \<in> owned a pe then Some (rank a pe i) else None)"
  using assms block_offset cyclic_offset by (cases "ua_distribution a") blast+

lemma index_owner_less:
  assumes "array_ok S a" "i < ua_size a"
  shows "dist_owner a (ua_offset a + i) < ad_num_pes (ua_data a)"
  by (rule owner_less [OF assms(1)]) (use assms in \<open>simp add: array_ok_def\<close>)

text \<open>The index that a PE holds at a given local position.\<close>

definition nth_owned :: "unsafe_array_inner \<Rightarrow> nat \<Rightarrow> nat \<Rightarrow> nat" where
  "nth_owned a pe k = (case ua_distribution a of
     Block \<Rightarrow> block_bound (ua_orig_elem_per_pe a) pe - ua_offset a + k
   | Cyclic \<Rightarrow> cyclic_first (ua_offset a) (ad_num_pes (ua_data a)) pe + ad_num_pes (ua_data a) * k)"

lemma nth_owned_in:
  assumes "array_ok S a" "pe < ad_num_pes (ua_data a)" "k < card (owned a pe)"
  shows "nth_owned a pe k \<in> owned a pe \<and> rank a pe (nth_owned a pe k) = k"
proof (cases "ua_distribution a")
  case Block
  note owned = block_owned [OF assms(1) Block assms(2)]
  have "nth_owned a pe k \<in> owned a pe" using assms(3) Block unfolding owned by (simp add: nth_owned_def)
  moreover from rank_interval [OF owned this] have "rank a pe (nth_owned a pe k) = k"
    using Block by (simp add: nth_owned_def)
  ultimately show ?thesis ..
next
  case Cyclic
  let ?P = "ad_num_pes (ua_data a)" and ?k0 = "cyclic_first (ua_offset a) (ad_num_pes (ua_data a)) pe"
  have k0: "?k0 < ?P" by (rule cyclic_first_less [OF assms(2)])
  have "k < ua_size a div ?P + (if ?k0 < ua_size a mod ?P then 1 else 0)"
    using assms(3) cyclic_card [OF assms(1) Cyclic assms(2)] by simp
  then have "?k0 + ?P * k \<in> owned a pe"
    unfolding cyclic_owned [OF assms(1) Cyclic assms(2)] residue_class_image [OF k0] by blast
  with cyclic_rank [OF assms(1) Cyclic assms(2)] Cyclic k0 show ?thesis by (simp add: nth_owned_def)
qed

lemma subarray_index_eq:
  assumes "array_ok S a" "k < card (owned a (ad_my_pe (ua_data a)))"
  shows "subarray_index_from_local a k = Ret (Some (nth_owned a (ad_my_pe (ua_data a)) k))"
proof -
  let ?pe = "ad_my_pe (ua_data a)"
  have pe: "?pe < ad_num_pes (ua_data a)" using assms(1) by (simp add: array_ok_def)
  have "nth_owned a ?pe k \<in> owned a ?pe" using nth_owned_in [OF assms(1) pe assms(2)] ..
  then have less: "nth_owned a ?pe k < ua_size a" by (simp add: owned_def)
  show ?thesis
  proof (cases "ua_distribution a")
    case Block
    have "owned a ?pe \<noteq> {}" using assms(2) by auto
    then have "start_index_for_pe a ?pe = Ret (Some (block_bound (ua_orig_elem_per_pe a) ?pe - ua_offset a))"
      using block_owned_nonempty [OF assms(1) Block pe] block_start [OF Block] by (simp add: Let_def)
    with less Block show ?thesis by (simp add: subarray_index_from_local_def nth_owned_def)
  next
    case Cyclic
    with less assms show ?thesis
      by (simp add: subarray_index_from_local_def cyclic_start [OF assms(1) Cyclic pe] Let_def
          num_elems_local_def num_elems_card [OF assms(1) pe] nth_owned_def)
  qed
qed

lemma global_index_eq:
  assumes "array_ok S a" "k < card (owned a (ad_my_pe (ua_data a)))"
  shows "global_index_from_local a k = Ret (Some (ua_offset a + nth_owned a (ad_my_pe (ua_data a)) k))"
proof (cases "ua_distribution a")
  case Block
  let ?pe = "ad_my_pe (ua_data a)"
  have pe: "?pe < ad_num_pes (ua_data a)" using assms(1) by (simp add: array_ok_def)
  have "owned a ?pe \<noteq> {}" using assms(2) by auto
  with Block block_owned_nonempty [OF assms(1) Block pe] show ?thesis
    by (auto simp: global_index_from_local_def nth_owned_def Let_def)
next
  case Cyclic
  let ?pe = "ad_my_pe (ua_data a)" and ?P = "ad_num_pes (ua_data a)"
  have pe: "?pe < ?P" using assms(1) by (simp add: array_ok_def)
  have "owned a ?pe \<noteq> {}" using assms(2) by auto
  then have False: "ua_size a \<noteq> 0" by (auto simp: owned_def)
  define e where "e = (ua_offset a + (ua_size a - 1)) mod ?P"
  have ends: "pe_for_dist_index a 0 = Ret (Some (ua_offset a mod ?P))"
    "pe_for_dist_index a (ua_size a - 1) = Ret (Some e)"
    using False Cyclic pe_for_dist_index_owner [OF assms(1)] by (simp_all add: dist_owner_def e_def)
  have "ua_size a mod ?P \<noteq> 0 \<and> (if ua_offset a mod ?P \<le> e then ua_offset a mod ?P \<le> ?pe \<and> ?pe \<le> e
        else ua_offset a mod ?P \<le> ?pe \<or> ?pe \<le> e)
      \<longleftrightarrow> cyclic_first (ua_offset a) ?P ?pe < ua_size a mod ?P"
    using leftover_iff [OF pe, of "ua_size a" "ua_offset a"] unfolding e_def [symmetric] by auto
  moreover have "ua_offset a mod ?P < ?P" using pe by simp
  moreover note cyclic_first_code [OF pe, of "ua_offset a" k, symmetric]
  moreover note cyclic_card [OF assms(1) Cyclic pe]
  ultimately show ?thesis
    using False Cyclic pe ends assms(2)
    by (simp add: global_index_from_local_def Let_def nth_owned_def del: One_nat_def)
qed

text \<open>The first and the last index a PE holds.\<close>

lemma nth_owned_Min_Max:
  assumes "array_ok S a" "pe < ad_num_pes (ua_data a)" "owned a pe \<noteq> {}"
  shows "Min (owned a pe) = nth_owned a pe 0" "Max (owned a pe) = nth_owned a pe (card (owned a pe) - 1)"
proof -
  have c: "0 < card (owned a pe)" using assms(3) by (simp add: card_gt_0_iff)
  note first = nth_owned_in [OF assms(1,2) c]
  have "card (owned a pe) - 1 < card (owned a pe)" using c by simp
  note last = nth_owned_in [OF assms(1,2) this]
  show "Min (owned a pe) = nth_owned a pe 0"
  proof (rule Min_eqI)
    fix i assume "i \<in> owned a pe"
    then show "nth_owned a pe 0 \<le> i" using rank_strict [of i a pe "nth_owned a pe 0"] first by fastforce
  qed (use first in auto)
  show "Max (owned a pe) = nth_owned a pe (card (owned a pe) - 1)"
  proof (rule Max_eqI)
    fix i assume "i \<in> owned a pe"
    then show "i \<le> nth_owned a pe (card (owned a pe) - 1)"
      using rank_strict [of "nth_owned a pe (card (owned a pe) - 1)" a pe i] rank_less [of i a pe] last
      by fastforce
  qed (use last in auto)
qed

lemma start_index_Min:
  assumes "array_ok S a" "pe < ad_num_pes (ua_data a)" "owned a pe \<noteq> {}"
  shows "start_index_for_pe a pe = Ret (Some (Min (owned a pe)))"
proof (cases "ua_distribution a")
  case Block
  with block_owned_nonempty [OF assms(1) Block assms(2,3)] nth_owned_Min_Max(1) [OF assms] show ?thesis
    by (simp add: block_start [OF Block] Let_def nth_owned_def)
next
  case Cyclic
  have "Min (owned a pe) \<in> owned a pe" using assms(3) by simp
  then have "cyclic_first (ua_offset a) (ad_num_pes (ua_data a)) pe < ua_size a"
    using Cyclic nth_owned_Min_Max(1) [OF assms] by (simp add: nth_owned_def owned_def)
  with Cyclic nth_owned_Min_Max(1) [OF assms] show ?thesis
    by (simp add: cyclic_start [OF assms(1) Cyclic assms(2)] Let_def nth_owned_def)
qed

lemma block_end_index:
  assumes "array_ok S a" "ua_distribution a = Block" "pe < ad_num_pes (ua_data a)" "owned a pe \<noteq> {}"
  shows "end_index_for_pe a pe = Ret (Some (Max (owned a pe)))"
proof -
  let ?lo = "block_bound (ua_orig_elem_per_pe a) pe" and ?hi = "block_bound (ua_orig_elem_per_pe a) (pe + 1)"
  let ?last = "ua_offset a + (ua_size a - 1)"
  note ne = block_owned_nonempty [OF assms]
  have size: "0 < ua_size a" using assms(4) by (auto simp: owned_def)
  have S: "?last < S" using assms(1) size unfolding array_ok_def by linarith
  have "{?lo - ua_offset a..<min (ua_offset a + ua_size a) ?hi - ua_offset a} \<noteq> {}"
    using assms(4) block_owned [OF assms(1-3)] by simp
  then have max: "Max (owned a pe) = min (ua_offset a + ua_size a) ?hi - ua_offset a - 1"
    unfolding block_owned [OF assms(1-3)] by (intro Max_eqI) auto
  have last: "pe = dist_owner a ?last \<longleftrightarrow> ua_offset a + ua_size a \<le> ?hi"
    using block_owner_iff [OF assms(1,2) S assms(3)] ne size by auto
  show ?thesis
    using assms(2) size ne last max start_index_Min [OF assms(1,3,4)]
      pe_for_dist_index_owner [OF assms(1), of "ua_size a - 1"] block_start [OF assms(2), of "pe + 1"]
    by (auto simp: end_index_for_pe_def Let_def min_def)
qed

lemma cyclic_end_index:
  assumes "array_ok S a" "ua_distribution a = Cyclic" "pe < ad_num_pes (ua_data a)" "owned a pe \<noteq> {}"
  shows "end_index_for_pe a pe = Ret (Some (Max (owned a pe)))"
proof -
  have "1 \<le> card (owned a pe)" using assms(4) by (simp add: Suc_le_eq card_gt_0_iff)
  with assms(2) start_index_Min [OF assms(1,3,4)] num_elems_card [OF assms(1,3)]
    nth_owned_Min_Max [OF assms(1,3,4)] show ?thesis
    by (simp add: end_index_for_pe_def nth_owned_def mult.commute)
qed

subsection \<open>The local memory\<close>

text \<open>Where a PE stores an element of the full array: its place among the PE's elements.\<close>

definition mem_index :: "unsafe_array_inner \<Rightarrow> nat \<Rightarrow> nat" where
  "mem_index a g = (case ua_distribution a of
     Block \<Rightarrow> g - block_bound (ua_orig_elem_per_pe a) (dist_owner a g)
   | Cyclic \<Rightarrow> g div ad_num_pes (ua_data a))"

lemma local_start_eq:
  assumes "array_ok S a" "owned a (ad_my_pe (ua_data a)) \<noteq> {}"
  shows "local_start_index a =
    Ret (mem_index a (ua_offset a + nth_owned a (ad_my_pe (ua_data a)) 0))"
proof (cases "ua_distribution a")
  case Block
  let ?pe = "ad_my_pe (ua_data a)"
  let ?lo = "block_bound (ua_orig_elem_per_pe a) ?pe"
  have pe: "?pe < ad_num_pes (ua_data a)" using assms(1) by (simp add: array_ok_def)
  note ne = block_owned_nonempty [OF assms(1) Block pe assms(2)]
  have size: "0 < ua_size a" using assms(2) by (auto simp: owned_def)
  have first: "dist_owner a (ua_offset a + nth_owned a ?pe 0) = ?pe"
    using nth_owned_in [OF assms(1) pe, of 0] assms(2) by (auto simp: owned_def card_gt_0_iff)
  have "ua_offset a < S" using assms(1) size by (simp add: array_ok_def)
  then have "dist_owner a (ua_offset a) = ?pe \<longleftrightarrow> ?lo \<le> ua_offset a"
    using block_owner_iff [OF assms(1) Block _ pe] ne by auto
  with Block size first show ?thesis
    using pe_for_dist_index_owner [OF assms(1), of 0]
    by (auto simp: local_start_index_def mem_index_def nth_owned_def)
next
  case Cyclic
  let ?P = "ad_num_pes (ua_data a)" and ?pe = "ad_my_pe (ua_data a)"
  have P: "0 < ?P" "?pe < ?P" using assms(1) by (auto simp: array_ok_def)
  have "ua_offset a + cyclic_first (ua_offset a) ?P ?pe
      = ?P * (ua_offset a div ?P) + (if ua_offset a mod ?P \<le> ?pe then ?pe else ?pe + ?P)"
    by (rule cyclic_first_split [OF P(2)])
  then have "(ua_offset a + cyclic_first (ua_offset a) ?P ?pe) div ?P
      = ua_offset a div ?P + (if ua_offset a mod ?P \<le> ?pe then 0 else 1)"
    using P by (auto simp: div_add_self2)
  with Cyclic P show ?thesis by (simp add: local_start_index_def mem_index_def nth_owned_def)
qed

lemma mem_index_nth:
  assumes "array_ok S a" "pe < ad_num_pes (ua_data a)" "k < card (owned a pe)"
  shows "mem_index a (ua_offset a + nth_owned a pe k) = mem_index a (ua_offset a + nth_owned a pe 0) + k"
proof (cases "ua_distribution a")
  case Block
  have "0 < card (owned a pe)" using assms(3) by simp
  then have "dist_owner a (ua_offset a + nth_owned a pe k) = pe" "dist_owner a (ua_offset a + nth_owned a pe 0) = pe"
    using nth_owned_in [OF assms(1,2)] assms(3) by (auto simp: owned_def)
  with Block show ?thesis by (simp add: mem_index_def nth_owned_def)
next
  case Cyclic
  with assms(2) show ?thesis by (simp add: mem_index_def nth_owned_def add.assoc [symmetric])
qed

lemma full_offset_eq:
  assumes "array_ok S a" "k < card (owned a (ad_my_pe (ua_data a)))"
  shows "pe_full_offset_for_local_index a (ad_my_pe (ua_data a)) k =
    Ret (Some (mem_index a (ua_offset a + nth_owned a (ad_my_pe (ua_data a)) k)))"
proof -
  let ?pe = "ad_my_pe (ua_data a)" and ?g = "ua_offset a + nth_owned a (ad_my_pe (ua_data a)) k"
  have pe: "?pe < ad_num_pes (ua_data a)" using assms(1) by (simp add: array_ok_def)
  have in_owned: "nth_owned a ?pe k \<in> owned a ?pe" using nth_owned_in [OF assms(1) pe assms(2)] ..
  then have owner: "dist_owner a ?g = ?pe" and g: "?g < S" using assms(1) by (auto simp: owned_def array_ok_def)
  show ?thesis
  proof (cases "ua_distribution a")
    case Block
    with owner block_owner_iff [OF assms(1) Block g pe] show ?thesis
      by (simp add: pe_full_offset_for_local_index_def global_index_eq [OF assms] mem_index_def Let_def)
  next
    case Cyclic
    with owner pe show ?thesis
      by (simp add: pe_full_offset_for_local_index_def global_index_eq [OF assms] mem_index_def
          dist_owner_def Let_def)
  qed
qed

text \<open>The memory \<open>UnsafeArray::new\<close> allocates on every PE is enough for every element.\<close>

definition array_mem_ok :: "nat \<Rightarrow> unsafe_array_inner \<Rightarrow> bool" where
  "array_mem_ok S a \<longleftrightarrow> array_ok S a \<and> S * ad_num_pes (ua_data a) \<le> 2 ^ 50
     \<and> ad_mem_bytes (ua_data a) = f64_ceil_usize (elems_per_pe S (ad_num_pes (ua_data a))) * ua_elem_size a"

lemma mem_index_less:
  assumes "array_mem_ok S a" "g < S"
  shows "mem_index a g < f64_ceil_usize (elems_per_pe S (ad_num_pes (ua_data a)))"
proof (cases "ua_distribution a")
  case Block
  let ?P = "ad_num_pes (ua_data a)" and ?p = "dist_owner a g"
  have ok: "array_ok S a" "layout_ok S ?P" "S * ?P \<le> 2 ^ 50" and e: "ua_orig_elem_per_pe a = elems_per_pe S ?P"
    using assms(1) by (auto simp: array_mem_ok_def array_ok_def)
  have p: "?p < ?P" by (rule owner_less [OF ok(1) assms(2)])
  then have "block_bound (elems_per_pe S ?P) ?p \<le> g" "g < block_bound (elems_per_pe S ?P) (?p + 1)"
    using block_owner_iff [OF ok(1) Block assms(2) p] e by auto
  with block_size_le [OF ok(2,3) p] Block e show ?thesis by (simp add: mem_index_def)
next
  case Cyclic
  have ok: "layout_ok S (ad_num_pes (ua_data a))" using assms(1) by (simp add: array_mem_ok_def array_ok_def)
  have "g div ad_num_pes (ua_data a) \<le> (S - 1) div ad_num_pes (ua_data a)"
    using assms(2) by (intro div_le_mono) simp
  with ceil_elems_per_pe [OF ok] Cyclic show ?thesis by (simp add: mem_index_def)
qed

lemma local_slice_end:
  assumes "array_mem_ok S a" "0 < ua_size a" "local_start_index a = Ret st"
  shows "st + card (owned a (ad_my_pe (ua_data a))) \<le> f64_ceil_usize (elems_per_pe S (ad_num_pes (ua_data a)))"
proof (cases "owned a (ad_my_pe (ua_data a)) = {}")
  case False
  let ?pe = "ad_my_pe (ua_data a)"
  have ok: "array_ok S a" "?pe < ad_num_pes (ua_data a)"
    using assms(1) by (auto simp: array_mem_ok_def array_ok_def)
  have c: "card (owned a ?pe) - 1 < card (owned a ?pe)" using False by (simp add: card_gt_0_iff)
  have "nth_owned a ?pe (card (owned a ?pe) - 1) \<in> owned a ?pe" using nth_owned_in [OF ok c] ..
  then have "ua_offset a + nth_owned a ?pe (card (owned a ?pe) - 1) < S"
    using ok(1) by (auto simp: owned_def array_ok_def)
  from mem_index_less [OF assms(1) this] mem_index_nth [OF ok c] local_start_eq [OF ok(1) False] assms(3) c
  show ?thesis by simp
next
  case True
  have ok: "array_ok S a" using assms(1) by (simp add: array_mem_ok_def)
  have off: "ua_offset a < S" using ok assms(2) by (simp add: array_ok_def)
  show ?thesis
  proof (cases "ua_distribution a")
    case Block
    have "0 \<notin> owned a (ad_my_pe (ua_data a))" using True by simp
    then have "dist_owner a (ua_offset a) \<noteq> ad_my_pe (ua_data a)" using assms(2) by (simp add: owned_def)
    then have "st = 0"
      using Block assms(2,3) pe_for_dist_index_owner [OF ok, of 0] by (simp add: local_start_index_def split: if_splits)
    with True show ?thesis by simp
  next
    case Cyclic
    have P: "0 < ad_num_pes (ua_data a)" using ok by (auto simp: array_ok_def)
    with Cyclic assms(3) have "st \<le> ua_offset a div ad_num_pes (ua_data a) + 1"
      by (auto simp: local_start_index_def Let_def split: if_splits)
    moreover have "ua_offset a div ad_num_pes (ua_data a) < f64_ceil_usize (elems_per_pe S (ad_num_pes (ua_data a)))"
      using mem_index_less [OF assms(1) off] Cyclic by (simp add: mem_index_def)
    ultimately show ?thesis using True by simp
  qed
qed

section \<open>Construction and sub-arrays\<close>

lemma elem_per_pe_code:
  "f64_div (f64_of_usize S) (f64_of_usize P) = elems_per_pe S P"
  by (simp add: elems_per_pe_def)

lemma sub_array_ok:
  assumes "sub_array a st en = Ret b"
  shows "array_ok S a \<Longrightarrow> array_ok S b" "array_mem_ok S a \<Longrightarrow> array_mem_ok S b"
  using assms by (auto simp: sub_array_def Let_def exec_simps array_ok_def array_mem_ok_def split: if_splits)

lemma dist_owner_cong:
  assumes "ua_distribution b = ua_distribution a" "ua_data b = ua_data a"
    "ua_orig_elem_per_pe b = ua_orig_elem_per_pe a"
  shows "dist_owner b g = dist_owner a g"
  using assms by (simp add: dist_owner_def split: distribution.split)

lemma index_place:
  assumes "array_ok S a" "i < ua_size a"
  shows "pe_and_offset_for_global_index a i =
    Ret (Some (dist_owner a (ua_offset a + i), rank a (dist_owner a (ua_offset a + i)) i))"
proof -
  have "i \<in> owned a (dist_owner a (ua_offset a + i))" using assms(2) by (simp add: owned_def)
  with offset_rank [OF assms(1) index_owner_less [OF assms] assms(2)] assms(2) show ?thesis
    by (simp add: pe_and_offset_for_global_index_def pe_for_dist_index_owner [OF assms(1)])
qed

lemma index_place_iff:
  assumes "array_ok S a"
  shows "i \<in> owned a pe \<and> rank a pe i = k \<longleftrightarrow>
    i < ua_size a \<and> pe_and_offset_for_global_index a i = Ret (Some (pe, k))"
proof (cases "i < ua_size a")
  case True
  with index_place [OF assms True] show ?thesis by (auto simp: owned_def)
qed (simp add: owned_def)

definition array_example :: "distribution \<Rightarrow> unsafe_array_inner" where
  "array_example d = \<lparr>ua_data = \<lparr>ad_my_pe = 2, ad_num_pes = 4,
      ad_mem_bytes = f64_ceil_usize (elems_per_pe 10 4) * 8\<rparr>, ua_distribution = d,
    ua_orig_elem_per_pe = elems_per_pe 10 4, ua_elem_size = 8, ua_offset = 3, ua_size = 6\<rparr>"

lemma array_example_ok: "array_ok 10 (array_example d) \<and> array_mem_ok 10 (array_example d)"
  by (simp add: array_example_def array_ok_def array_mem_ok_def layout_ok_def)

section \<open>Properties\<close>

text \<open>
  C6.  Distributed indexing is a bijection.  Every PE \<open>pe\<close> of the team and every local position
  below \<open>num_elems_pe pe\<close> is the place of exactly one index of the (sub-)array, for both
  distributions and with the block boundaries computed in floating point.  An index outside
  the array has no place.  The call never panics.
\<close>

theorem array_index_bijective:
  assumes "array_ok S a"
  shows "(\<forall>pe k. (\<exists>n. pe < ad_num_pes (ua_data a) \<and> num_elems_pe a pe = Ret n \<and> k < n) \<longrightarrow>
           (\<exists>!i. i < ua_size a \<and> pe_and_offset_for_global_index a i = Ret (Some (pe, k))))
    \<and> (\<forall>i<ua_size a. \<exists>pe k n. pe_and_offset_for_global_index a i = Ret (Some (pe, k))
           \<and> pe < ad_num_pes (ua_data a) \<and> num_elems_pe a pe = Ret n \<and> k < n)
    \<and> (\<forall>i\<ge>ua_size a. pe_and_offset_for_global_index a i = Ret None)"
proof (intro conjI allI impI)
  fix pe k
  assume "\<exists>n. pe < ad_num_pes (ua_data a) \<and> num_elems_pe a pe = Ret n \<and> k < n"
  then have k: "pe < ad_num_pes (ua_data a)" "k < card (owned a pe)" using num_elems_card [OF assms] by auto
  show "\<exists>!i. i < ua_size a \<and> pe_and_offset_for_global_index a i = Ret (Some (pe, k))"
    unfolding index_place_iff [OF assms, symmetric]
    using nth_owned_in [OF assms k] rank_inj by blast
next
  fix i assume i: "i < ua_size a"
  let ?pe = "dist_owner a (ua_offset a + i)"
  have "i \<in> owned a ?pe" using i by (simp add: owned_def)
  with index_place [OF assms i] index_owner_less [OF assms i] num_elems_card [OF assms] rank_less
  show "\<exists>pe k n. pe_and_offset_for_global_index a i = Ret (Some (pe, k))
      \<and> pe < ad_num_pes (ua_data a) \<and> num_elems_pe a pe = Ret n \<and> k < n" by blast
next
  fix i assume "ua_size a \<le> i"
  then show "pe_and_offset_for_global_index a i = Ret None"
    by (simp add: pe_and_offset_for_global_index_def pe_for_dist_index_owner [OF assms])
qed

theorem array_index_bijective_witness:
  "\<exists>pe k. pe_and_offset_for_global_index (array_example Block) 5 = Ret (Some (pe, k)) \<and> pe < 4"
proof -
  have "ua_size (array_example Block) = 6" "ad_num_pes (ua_data (array_example Block)) = 4"
    by (simp_all add: array_example_def)
  moreover from array_index_bijective [of 10 "array_example Block"] array_example_ok have
    "\<forall>i<ua_size (array_example Block). \<exists>pe k n. pe_and_offset_for_global_index (array_example Block) i
        = Ret (Some (pe, k)) \<and> pe < ad_num_pes (ua_data (array_example Block))
        \<and> num_elems_pe (array_example Block) pe = Ret n \<and> k < n" by blast
  ultimately have "\<exists>pe k n. pe_and_offset_for_global_index (array_example Block) 5
      = Ret (Some (pe, k)) \<and> pe < 4 \<and> num_elems_pe (array_example Block) pe = Ret n \<and> k < n" by simp
  then show ?thesis by blast
qed

text \<open>
   The local parts of the PEs partition the (sub-)array: their sizes, as \<open>num_elems_pe\<close>
  computes them, add up to its length, and each size is the number of indices that
  \<open>pe_for_dist_index\<close> sends to the PE.
\<close>

theorem array_parts_sum:
  assumes "array_ok S a"
  shows "\<exists>n. (\<forall>pe<ad_num_pes (ua_data a). num_elems_pe a pe = Ret (n pe)
            \<and> n pe = card {i. i < ua_size a \<and> pe_for_dist_index a i = Ret (Some pe)})
          \<and> (\<Sum>pe<ad_num_pes (ua_data a). n pe) = ua_size a"
proof (intro exI [of _ "\<lambda>pe. card (owned a pe)"] conjI allI impI)
  fix pe assume "pe < ad_num_pes (ua_data a)"
  then show "num_elems_pe a pe = Ret (card (owned a pe))" by (rule num_elems_card [OF assms])
  show "card (owned a pe) = card {i. i < ua_size a \<and> pe_for_dist_index a i = Ret (Some pe)}"
    by (rule arg_cong [of _ _ card]) (auto simp: owned_def pe_for_dist_index_owner [OF assms])
next
  have "(\<Union>pe<ad_num_pes (ua_data a). owned a pe) = {..<ua_size a}"
    using index_owner_less [OF assms] by (auto simp: owned_def)
  moreover have "card (\<Union>pe<ad_num_pes (ua_data a). owned a pe) = (\<Sum>pe<ad_num_pes (ua_data a). card (owned a pe))"
    by (rule card_UN_disjoint) (auto simp: owned_def)
  ultimately show "(\<Sum>pe<ad_num_pes (ua_data a). card (owned a pe)) = ua_size a" by simp
qed

theorem array_parts_sum_witness:
  "\<exists>n. (\<forall>pe<4. num_elems_pe (array_example Cyclic) pe = Ret (n pe)) \<and> (\<Sum>pe<4. n pe) = (6::nat)"
proof -
  have "ua_size (array_example Cyclic) = 6" "ad_num_pes (ua_data (array_example Cyclic)) = 4"
    by (simp_all add: array_example_def)
  then show ?thesis
    using array_parts_sum [of 10 "array_example Cyclic"] array_example_ok by metis
qed

text \<open>
  Local and global views agree.  For every local index \<open>k\<close> of the calling PE,
  \<open>subarray_index_from_local\<close> names an index that \<open>pe_and_offset_for_global_index\<close> maps back to
  this PE and \<open>k\<close>; \<open>global_index_from_local\<close> names the same element of the full array, and
  \<open>pe_full_offset_for_local_index\<close> its place in the PE's memory, \<open>k\<close> elements after the start
  of the local slice.
\<close>

theorem array_local_roundtrip:
  assumes "array_ok S a" "num_elems_local a = Ret n" "k < n"
  shows "\<exists>i st. subarray_index_from_local a k = Ret (Some i)
    \<and> pe_and_offset_for_global_index a i = Ret (Some (ad_my_pe (ua_data a), k))
    \<and> global_index_from_local a k = Ret (Some (global_index a i))
    \<and> local_start_index a = Ret st
    \<and> pe_full_offset_for_local_index a (ad_my_pe (ua_data a)) k = Ret (Some (st + k))"
proof -
  let ?pe = "ad_my_pe (ua_data a)"
  have pe: "?pe < ad_num_pes (ua_data a)" using assms(1) by (simp add: array_ok_def)
  have k: "k < card (owned a ?pe)" using assms num_elems_card [OF assms(1) pe] by (simp add: num_elems_local_def)
  then have ne: "owned a ?pe \<noteq> {}" by auto
  define i where "i = nth_owned a ?pe k"
  have i: "i \<in> owned a ?pe" "rank a ?pe i = k" using nth_owned_in [OF assms(1) pe k] by (auto simp: i_def)
  then have "pe_and_offset_for_global_index a i = Ret (Some (?pe, k))"
    using index_place_iff [OF assms(1)] by blast
  then show ?thesis
    using subarray_index_eq [OF assms(1) k] global_index_eq [OF assms(1) k] full_offset_eq [OF assms(1) k]
      local_start_eq [OF assms(1) ne] mem_index_nth [OF assms(1) pe k]
    by (simp add: i_def global_index_def)
qed

text \<open>The example on one PE of a four-PE team: the cyclic part of PE 2 is exact.\<close>

lemma array_example_cyclic: "num_elems_local (array_example Cyclic) = Ret 1"
proof -
  have ok: "array_ok 10 (array_example Cyclic)" using array_example_ok by blast
  have pe: "2 < ad_num_pes (ua_data (array_example Cyclic))" and c: "ua_distribution (array_example Cyclic) = Cyclic"
    by (simp_all add: array_example_def)
  show ?thesis
    using num_elems_card [OF ok pe] cyclic_card [OF ok c pe]
    by (simp add: num_elems_local_def array_example_def cyclic_first_def)
qed

theorem array_local_roundtrip_witness:
  "\<exists>i. subarray_index_from_local (array_example Cyclic) 0 = Ret (Some i)
     \<and> pe_and_offset_for_global_index (array_example Cyclic) i = Ret (Some (2, 0))"
proof -
  have "ad_my_pe (ua_data (array_example Cyclic)) = 2" by (simp add: array_example_def)
  then show ?thesis
    using array_local_roundtrip [of 10 "array_example Cyclic" 1 0] array_example_ok array_example_cyclic
    by auto
qed



text \<open>
  Without the bound on \<open>S * P\<close> the rounding of the block boundaries can give a PE more elements than
  were allocated for it: of \<open>1099506760085\<close> elements on \<open>54698\<close> PEs, PE \<open>27349\<close> is given
  \<open>20101408\<close>, while the memory on every PE has room for \<open>20101407\<close>, and \<open>local_as_mut_slice\<close>
  panics.
\<close>

lemma large_elems_per_pe: "elems_per_pe 1099506760085 54698 = 5395930354281684 / 2 ^ 28"
proof -
  have "f64_of_usize 1099506760085 = 1099506760085" "f64_of_usize 54698 = 54698"
   using f64_of_usize_exact [of 1099506760085] f64_of_usize_exact [of 54698] by simp_all
  then show ?thesis
    using float_round_eq [of 24 "1099506760085 / 54698" 52 5395930354281684]
    by (simp add: elems_per_pe_def f64_div_def f64_round_def)
qed

lemma large_block_bounds:
  "block_bound (elems_per_pe 1099506760085 54698) 27349 = 549753380042"
  "block_bound (elems_per_pe 1099506760085 54698) 27350 = 549773481450"
proof -
  have q: "f64_of_usize 27349 = 27349" "f64_of_usize 27350 = 27350"
   using f64_of_usize_exact [of 27349] f64_of_usize_exact [of 27350] by simp_all
  have y: "f64_mul (elems_per_pe 1099506760085 54698) (f64_of_usize 27349) = 9007159378616319 / 16384"
    using float_round_eq [of 38 "5395930354281684 / 2 ^ 28 * 27349" 52 9007159378616319]
    by (simp add: q f64_mul_def f64_round_def large_elems_per_pe)
  have "\<lfloor>9007159378616319 / 16384 + 1 / 2 :: rat\<rfloor> = 549753380042" by (rule floor_unique) simp_all
  then show "block_bound (elems_per_pe 1099506760085 54698) 27349 = 549753380042"
    by (simp add: block_bound_def f64_round_usize_def y)
  have y: "f64_mul (elems_per_pe 1099506760085 54698) (f64_of_usize 27350) = 1099546962899 / 2"
    using float_round_eq [of 39 "5395930354281684 / 2 ^ 28 * 27350" 52 4503744360034304]
    by (simp add: q f64_mul_def f64_round_def large_elems_per_pe)
  show "block_bound (elems_per_pe 1099506760085 54698) 27350 = 549773481450"
    by (simp add: block_bound_def f64_round_usize_def y)
qed

theorem block_slice_overruns_memory:
  assumes "0 < sz"
  shows "\<exists>a. unsafe_array_new sz 27349 54698 1099506760085 Block = Ret a \<and> num_elems_local a = Ret 20101408
     \<and> ad_mem_bytes (ua_data a) = 20101407 * sz \<and> local_as_mut_slice a = Panic OutOfBounds"
proof -
  let ?e = "elems_per_pe 1099506760085 54698"
  define a where "a = \<lparr>ua_data = \<lparr>ad_my_pe = 27349, ad_num_pes = 54698, ad_mem_bytes = 20101407 * sz\<rparr>,
    ua_distribution = Block, ua_orig_elem_per_pe = ?e, ua_elem_size = sz, ua_offset = 0,
    ua_size = 1099506760085\<rparr>"
  have "\<lceil>5395930354281684 / 2 ^ 28 :: rat\<rceil> = 20101407" by (rule ceiling_unique) simp_all
  then have "f64_ceil_usize ?e = 20101407" by (simp add: large_elems_per_pe f64_ceil_usize_def)
  then have new: "unsafe_array_new sz 27349 54698 1099506760085 Block = Ret a"
    by (simp add: unsafe_array_new_def Let_def elem_per_pe_code a_def)
  have "start_index_for_pe a 27349 = Ret (Some 549753380042)"
    "start_index_for_pe a (27349 + 1) = Ret (Some 549773481450)"
    by (simp_all add: start_index_for_pe_def a_def large_block_bounds)
  then have n: "num_elems_local a = Ret 20101408" by (simp add: num_elems_local_def num_elems_pe_def a_def)
  have "array_ok 1099506760085 a" by (simp add: array_ok_def layout_ok_def a_def)
  then have "pe_for_dist_index a 0 = Ret (Some (dist_owner a 0))" "dist_owner a 0 \<noteq> 27349"
    using pe_for_dist_index_owner [of 1099506760085 a 0] block_owner_iff [of 1099506760085 a 0 27349]
    by (simp_all add: a_def large_block_bounds)
  then have "local_start_index a = Ret 0" by (simp add: local_start_index_def a_def)
  with new n assms show ?thesis by (auto simp: local_as_mut_slice_def) (simp_all add: a_def)
qed

text \<open>
  \<open>first_global_index_for_pe\<close> and \<open>last_global_index_for_pe\<close> return the smallest and the
  largest index of the sub-array that the PE holds.
\<close>

theorem first_last_index_for_pe:
  assumes "array_ok S a" "pe < ad_num_pes (ua_data a)"
    and "{i. i < ua_size a \<and> pe_for_dist_index a i = Ret (Some pe)} \<noteq> {}"
  shows "start_index_for_pe a pe = Ret (Some (Min {i. i < ua_size a \<and> pe_for_dist_index a i = Ret (Some pe)}))
    \<and> end_index_for_pe a pe = Ret (Some (Max {i. i < ua_size a \<and> pe_for_dist_index a i = Ret (Some pe)}))"
proof -
  have eq: "{i. i < ua_size a \<and> pe_for_dist_index a i = Ret (Some pe)} = owned a pe"
    by (auto simp: owned_def pe_for_dist_index_owner [OF assms(1)])
  have "end_index_for_pe a pe = Ret (Some (Max (owned a pe)))"
    using block_end_index [OF assms(1) _ assms(2)] cyclic_end_index [OF assms(1) _ assms(2)] assms(3)
    unfolding eq by (cases "ua_distribution a") blast+
  with start_index_Min [OF assms(1,2)] assms(3) show ?thesis unfolding eq by blast
qed

theorem first_last_index_for_pe_witness:
  "\<exists>i j. start_index_for_pe (array_example Cyclic) 3 = Ret (Some i)
     \<and> end_index_for_pe (array_example Cyclic) 3 = Ret (Some j)"
proof -
  have "pe_for_dist_index (array_example Cyclic) 0 = Ret (Some 3)"
    by (simp add: pe_for_dist_index_def array_example_def)
  then have "0 \<in> {i. i < ua_size (array_example Cyclic) \<and> pe_for_dist_index (array_example Cyclic) i = Ret (Some 3)}"
    by (simp add: array_example_def)
  then have "{i. i < ua_size (array_example Cyclic) \<and> pe_for_dist_index (array_example Cyclic) i = Ret (Some 3)} \<noteq> {}"
    by blast
  moreover have "3 < ad_num_pes (ua_data (array_example Cyclic))" by (simp add: array_example_def)
  ultimately show ?thesis
    using first_last_index_for_pe [of 10 "array_example Cyclic" 3] array_example_ok by blast
qed

text \<open>The indices that a pair of range bounds selects from a list of length \<open>n\<close>.\<close>

definition range_indices :: "bound \<Rightarrow> bound \<Rightarrow> nat \<Rightarrow> nat set" where
  "range_indices lo hi n = {k. k < n
     \<and> (case lo of Included l \<Rightarrow> l \<le> k | Excluded l \<Rightarrow> l < k | Unbounded \<Rightarrow> True)
     \<and> (case hi of Included h \<Rightarrow> k \<le> h | Excluded h \<Rightarrow> k < h | Unbounded \<Rightarrow> True)}"

lemma sub_array_fields:
  assumes "sub_array a lo hi = Ret b"
  shows "ua_distribution b = ua_distribution a" "ua_data b = ua_data a"
    "ua_orig_elem_per_pe b = ua_orig_elem_per_pe a"
    "(+) (ua_offset b) ` {..<ua_size b} = (+) (ua_offset a) ` range_indices lo hi (ua_size a)"
proof -
  show "ua_distribution b = ua_distribution a" "ua_data b = ua_data a"
    "ua_orig_elem_per_pe b = ua_orig_elem_per_pe a"
    using assms by (auto simp: sub_array_def Let_def exec_simps split: if_splits)
  obtain s where s: "ua_offset b = ua_offset a + s" "(+) s ` {..<ua_size b} = range_indices lo hi (ua_size a)"
  proof
    let ?s = "case lo of Included l \<Rightarrow> l | Excluded l \<Rightarrow> l + 1 | Unbounded \<Rightarrow> 0"
    show "ua_offset b = ua_offset a + ?s"
      using assms by (auto simp: sub_array_def Let_def exec_simps split: if_splits)
    have "(+) ?s ` {..<ua_size b} = {?s..<?s + ua_size b}" by (simp add: lessThan_atLeast0 add.commute)
    also have "\<dots> = range_indices lo hi (ua_size a)"
      using assms unfolding range_indices_def
      by (cases lo; cases hi) (auto simp: sub_array_def Let_def exec_simps split: if_splits)
    finally show "(+) ?s ` {..<ua_size b} = range_indices lo hi (ua_size a)" .
  qed
  show "(+) (ua_offset b) ` {..<ua_size b} = (+) (ua_offset a) ` range_indices lo hi (ua_size a)"
    unfolding s(2) [symmetric] image_image by (simp add: s(1) add.assoc)
qed

text \<open>The place of an element in the memory of its PE: the start of the local slice plus the offset.\<close>

lemma index_mem_place:
  assumes "array_ok S a" "i < ua_size a" "dist_owner a (ua_offset a + i) = ad_my_pe (ua_data a)"
  shows "\<exists>st k. local_start_index a = Ret st
    \<and> pe_and_offset_for_global_index a i = Ret (Some (ad_my_pe (ua_data a), k))
    \<and> st + k = mem_index a (ua_offset a + i)"
proof -
  let ?pe = "ad_my_pe (ua_data a)"
  have i: "i \<in> owned a ?pe" using assms by (simp add: owned_def)
  have pe: "?pe < ad_num_pes (ua_data a)" using assms(1) by (simp add: array_ok_def)
  have r: "nth_owned a ?pe (rank a ?pe i) = i"
    using nth_owned_in [OF assms(1) pe rank_less [OF i]] rank_inj i by blast
  have "owned a ?pe \<noteq> {}" using i by blast
  from local_start_eq [OF assms(1) this] index_place [OF assms(1,2)]
    mem_index_nth [OF assms(1) pe rank_less [OF i]] r assms(3)
  show ?thesis by simp
qed

text \<open>
  C8.  Construction and sub-arrays, for arrays of at most \<open>2^46\<close> elements with \<open>max n P * P \<le> 2^50\<close>.
  \<open>UnsafeArray::new\<close> yields a well-formed array of the requested
  length whose local slices fit into memory, also when there are fewer elements than PEs.  The
  elements of \<open>sub_array\<close> are, in their order, exactly those that the bounds of the range select.  Each of them lies
  on the PE where the array it was taken from has it, and at the same place of that PE's memory
  (start of the local slice plus offset in it).
\<close>

theorem array_new_sub_array:
  assumes "0 < P" "my_pe < P" "n \<le> 2 ^ 46" "P \<le> 2 ^ 46" "max n P * P \<le> 2 ^ 50"
    and "unsafe_array_new sz my_pe P n d = Ret a" "sub_array a lo hi = Ret b" "i < ua_size b"
  shows "array_mem_ok (max n P) a \<and> array_mem_ok (max n P) b \<and> ua_size a = n
    \<and> global_index b ` {..<ua_size b} = range_indices lo hi n
    \<and> pe_for_dist_index b i = pe_for_dist_index a (global_index b i)
    \<and> (pe_for_dist_index b i = Ret (Some my_pe) \<longrightarrow>
        (\<exists>st k st' k'. local_start_index b = Ret st
          \<and> pe_and_offset_for_global_index b i = Ret (Some (my_pe, k))
          \<and> local_start_index a = Ret st'
          \<and> pe_and_offset_for_global_index a (global_index b i) = Ret (Some (my_pe, k'))
          \<and> st + k = st' + k'))"
proof -
  have new: "array_mem_ok (max n P) a" "ua_size a = n" "ua_offset a = 0" "ad_my_pe (ua_data a) = my_pe"
    using assms(1-6) unfolding unsafe_array_new_def Let_def elem_per_pe_code
    by (auto simp: array_mem_ok_def array_ok_def layout_ok_def sub_array_def max_def split: if_splits)
  have mem: "array_mem_ok (max n P) b" using sub_array_ok(2) [OF assms(7)] new by blast
  then have ok: "array_ok (max n P) a" "array_ok (max n P) b" using new by (simp_all add: array_mem_ok_def)
  note f = sub_array_fields [OF assms(7)]
  have img: "global_index b ` {..<ua_size b} = range_indices lo hi n"
    using f(4) new by (simp add: global_index_def)
  then have "global_index b i \<in> range_indices lo hi n" using assms(8) by blast
  then have g: "global_index b i < n" by (simp add: range_indices_def)
  note owner = pe_for_dist_index_owner [OF ok(1)] pe_for_dist_index_owner [OF ok(2)]
    dist_owner_cong [OF f(1-3)]
  have pe: "pe_for_dist_index b i = pe_for_dist_index a (global_index b i)"
    using assms(8) g new by (simp add: owner global_index_def)
  have "\<exists>st k st' k'. local_start_index b = Ret st
      \<and> pe_and_offset_for_global_index b i = Ret (Some (my_pe, k)) \<and> local_start_index a = Ret st'
      \<and> pe_and_offset_for_global_index a (global_index b i) = Ret (Some (my_pe, k')) \<and> st + k = st' + k'"
    if mine: "pe_for_dist_index b i = Ret (Some my_pe)"
  proof -
    have own: "dist_owner b (ua_offset b + i) = my_pe" "dist_owner a (ua_offset a + global_index b i) = my_pe"
      using mine assms(8) g new by (simp_all add: owner global_index_def)
    have "mem_index b g = mem_index a g" for g
      using f(1-3) by (simp add: mem_index_def owner(3) split: distribution.split)
    with index_mem_place [OF ok(2) assms(8)] index_mem_place [OF ok(1), of "global_index b i"] own g new f(2)
    show ?thesis by (fastforce simp: global_index_def)
  qed
  with new mem img pe show ?thesis by blast
qed

theorem array_new_sub_array_witness:
  "\<exists>a b. unsafe_array_new 8 1 4 100 Block = Ret a \<and> sub_array a (Included 10) (Excluded 20) = Ret b
     \<and> pe_for_dist_index b 5 = pe_for_dist_index a 15
     \<and> global_index b ` {..<ua_size b} = {10..<20}"
proof -
  obtain a where a: "unsafe_array_new 8 1 4 100 Block = Ret a" "ua_size a = 100" "ua_offset a = 0"
    by (simp add: unsafe_array_new_def Let_def)
  let ?b = "a\<lparr>ua_offset := 10, ua_size := 10\<rparr>"
  have "range_indices (Included 10) (Excluded 20) 100 = {10..<20}" by (auto simp: range_indices_def)
  moreover have "sub_array a (Included 10) (Excluded 20) = Ret ?b" using a by (simp add: sub_array_def)
  moreover have "global_index ?b 5 = 15" by (simp add: global_index_def)
  ultimately show ?thesis
    using array_new_sub_array [of 4 1 100 8 Block a "Included 10" "Excluded 20" ?b 5] a
    by (intro exI [of _ a] exI [of _ ?b]) simp
qed

text \<open>
  For a block distribution \<open>subarray_index_from_local\<close> checks the local index only against the
  end of the sub-array, not against the calling PE's part: on every PE but the last it
  also answers for local indices the PE does not hold.  The cyclic case checks the PE's part.
\<close>

theorem block_local_index_unchecked:
  assumes "array_ok S a" "ua_distribution a = Block" "num_elems_local a = Ret n" "0 < n"
    and "start_index_for_pe a (ad_my_pe (ua_data a)) = Ret (Some st)" "st + n < ua_size a"
  shows "\<exists>i. subarray_index_from_local a n = Ret (Some i)
    \<and> pe_for_dist_index a i \<noteq> Ret (Some (ad_my_pe (ua_data a)))"
proof -
  let ?pe = "ad_my_pe (ua_data a)"
  have pe: "?pe < ad_num_pes (ua_data a)" using assms(1) by (simp add: array_ok_def)
  have n: "n = card (owned a ?pe)" using num_elems_card [OF assms(1) pe] assms(3) by (simp add: num_elems_local_def)
  then have ne: "owned a ?pe \<noteq> {}" using assms(4) by auto
  have st: "st = Min (owned a ?pe)" using start_index_Min [OF assms(1) pe ne] assms(5) by simp
  have "Max (owned a ?pe) = st + (n - 1)"
    using nth_owned_Min_Max [OF assms(1) pe ne] st n assms(2) by (simp add: nth_owned_def)
  then have "st + n \<notin> owned a ?pe"
    using Max_ge [of "owned a ?pe" "st + n"] assms(4) by fastforce
  then have "pe_for_dist_index a (st + n) \<noteq> Ret (Some ?pe)"
    using assms(6) by (simp add: pe_for_dist_index_owner [OF assms(1)] owned_def)
  moreover have "subarray_index_from_local a n = Ret (Some (st + n))"
    using assms(2,5,6) by (simp add: subarray_index_from_local_def)
  ultimately show ?thesis by blast
qed

definition array_example_even :: unsafe_array_inner where
  "array_example_even = \<lparr>ua_data = \<lparr>ad_my_pe = 0, ad_num_pes = 2, ad_mem_bytes = 16\<rparr>,
    ua_distribution = Block, ua_orig_elem_per_pe = elems_per_pe (2 * 2) 2, ua_elem_size = 8,
    ua_offset = 0, ua_size = 4\<rparr>"

theorem block_local_index_unchecked_witness:
  "\<exists>i. subarray_index_from_local array_example_even 2 = Ret (Some i)
     \<and> pe_for_dist_index array_example_even i \<noteq> Ret (Some 0)"
proof -
  have l: "layout_ok (2 * 2) 2" by (simp add: layout_ok_def)
  have ok: "array_ok 4 array_example_even" using l by (simp add: array_ok_def array_example_even_def)
  have b: "block_bound (elems_per_pe (2 * 2) 2) (Suc 0) = 2" "block_bound (elems_per_pe (2 * 2) 2) 2 = 4"
    using block_bound_exact(1) [OF l, of 1] block_bound_exact(1) [OF l, of 2] by simp_all
  have d: "ua_distribution array_example_even = Block" by (simp add: array_example_even_def)
  have st: "start_index_for_pe array_example_even 0 = Ret (Some 0)"
    "start_index_for_pe array_example_even 1 = Ret (Some 2)"
    unfolding block_start [OF d] using b by (simp_all add: array_example_even_def)
  then have "num_elems_local array_example_even = Ret 2"
    using d by (simp add: num_elems_local_def num_elems_pe_def) (simp add: array_example_even_def st)
  with ok st d show ?thesis
    using block_local_index_unchecked [of 4 array_example_even 2 0] by (simp add: array_example_even_def)
qed

end
