(* ===== verification/Iter_Traits.thy ===== *)
theory Iter_Traits
  imports Lamellar_Prelude
begin

text \<open>
  The iterator traits of \<open>array/iterator\<close>.  A trait implementation is a record of its
  methods over the iterator's state; an adapter is a function from the record of the
  iterator it wraps to its own.  A method that takes \<open>&mut self\<close> returns the new state.
  A call can return, panic or not return at all (the \<open>while\<close> loops of some adapters):
  the type \<open>'a run\<close>, with \<open>None\<close> for the last case.

  An item of a base iterator is a reference into the local part of the array,
  represented by its position there; closures are functions of the item.
\<close>

section \<open>Calls that may not return\<close>

type_synonym 'a run = "'a exec option"

abbreviation rret :: "'a \<Rightarrow> 'a run" where
  "rret x \<equiv> Some (Ret x)"

definition rbind :: "'a run \<Rightarrow> ('a \<Rightarrow> 'b run) \<Rightarrow> 'b run" where
  "rbind m f = Option.bind m (\<lambda>r. case r of Ret x \<Rightarrow> f x | Panic p \<Rightarrow> Some (Panic p))"

lemma rbind_simps [simp]:
  "rbind (rret x) f = f x"
  "rbind (Some (Panic p)) f = Some (Panic p)"
  "rbind None f = None"
  by (simp_all add: rbind_def)

section \<open>The traits\<close>

text \<open>\<open>DistributedIterator\<close> and \<open>LocalIterator\<close> have the same methods.\<close>

record ('s, 'i) iter_ops =
  it_init :: "'s \<Rightarrow> nat \<Rightarrow> nat \<Rightarrow> 's run"
  it_next :: "'s \<Rightarrow> ('i option \<times> 's) run"
  it_elems :: "'s \<Rightarrow> nat \<Rightarrow> nat exec"
  it_advance_index :: "'s \<Rightarrow> nat \<Rightarrow> 's"

text \<open>\<open>IndexedDistributedIterator\<close> and \<open>IndexedLocalIterator\<close>.\<close>

record ('s, 'i) indexed_ops = "('s, 'i) iter_ops" +
  it_iterator_index :: "'s \<Rightarrow> nat \<Rightarrow> nat option exec"

text \<open>What a consumer does with an iterator: it calls \<open>next\<close> until the first \<open>None\<close>.\<close>

partial_function (option) drain :: "('s, 'i, 'm) iter_ops_scheme \<Rightarrow> 's \<Rightarrow> 'i list run" where
  "drain I s = Option.bind (it_next I s) (\<lambda>r. case r of
     Panic p \<Rightarrow> Some (Panic p)
   | Ret (x, s') \<Rightarrow> (case x of
       None \<Rightarrow> Some (Ret [])
     | Some y \<Rightarrow> Option.bind (drain I s') (\<lambda>q. case q of
         Panic p \<Rightarrow> Some (Panic p) | Ret ys \<Rightarrow> Some (Ret (y # ys)))))"

definition run_range :: "('s, 'i, 'm) iter_ops_scheme \<Rightarrow> 's \<Rightarrow> nat \<Rightarrow> nat \<Rightarrow> 'i list run" where
  "run_range I s start cnt = rbind (it_init I s start cnt) (drain I)"

section \<open>Contracts\<close>

text \<open>\<open>head xs\<close> is what \<open>next\<close> returns when \<open>xs\<close> are the items still to come.\<close>

fun head :: "'i list \<Rightarrow> 'i option" where
  "head [] = None"
| "head (x # xs) = Some x"

text \<open>
  A sequence: \<open>items s\<close> are the items that the calls of \<open>next\<close> will still return.
\<close>

locale iter_seq =
  fixes I :: "('s, 'i, 'm) iter_ops_scheme"
    and inv :: "'s \<Rightarrow> bool"
    and items :: "'s \<Rightarrow> 'i list"
  assumes next_items: "inv s \<Longrightarrow>
    \<exists>s'. it_next I s = rret (head (items s), s') \<and> inv s' \<and> items s' = tl (items s)"
begin

lemma next_Nil: "inv s \<Longrightarrow> items s = [] \<Longrightarrow> \<exists>s'. it_next I s = rret (None, s') \<and> inv s' \<and> items s' = []"
  using next_items [of s] by auto

lemma next_Cons:
  "inv s \<Longrightarrow> items s = x # xs \<Longrightarrow> \<exists>s'. it_next I s = rret (Some x, s') \<and> inv s' \<and> items s' = xs"
  using next_items [of s] by auto

lemma drain_items: "inv s \<Longrightarrow> drain I s = rret (items s)"
proof (induction "items s" arbitrary: s)
  case Nil
  then obtain s' where "it_next I s = rret (None, s')" using next_Nil by metis
  then show ?case using Nil.hyps by (simp add: drain.simps [of I s])
next
  case (Cons x xs)
  then obtain s' where s': "it_next I s = rret (Some x, s')" "inv s'" "items s' = xs"
    using next_Cons by metis
  then have "drain I s' = rret xs" using Cons.hyps(1) [of s'] by simp
  with s' Cons.hyps(2) show ?case by (simp add: drain.simps [of I s])
qed

end

text \<open>An iterator whose \<open>advance_index\<close> skips exactly the given number of items.\<close>

locale iter_adv = iter_seq +
  assumes advance_items: "inv s \<Longrightarrow>
    inv (it_advance_index I s k) \<and> items (it_advance_index I s k) = drop k (items s)"

text \<open>
  An iterator over a fixed list \<open>whole s\<close> of which \<open>init\<close> selects the window from \<open>start\<close> of
  length \<open>cnt\<close>; positions are \<open>0, 1, \<dots>\<close>.
\<close>

locale iter_window = iter_adv +
  fixes whole :: "'a \<Rightarrow> 'b list"
  assumes init_items: "inv s \<Longrightarrow>
    \<exists>s'. it_init I s start cnt = rret s' \<and> inv s' \<and> whole s' = whole s
       \<and> items s' = take cnt (drop start (whole s))"
begin

lemma run_range_items: "inv s \<Longrightarrow> run_range I s start cnt = rret (take cnt (drop start (whole s)))"
  using init_items [of s start cnt] drain_items by (auto simp: run_range_def)

text \<open>Consecutive windows put together are one window.\<close>

lemma run_range_split:
  assumes "inv s" "a \<le> b" "b \<le> c"
  shows "\<exists>xs ys. run_range I s a (b - a) = rret xs \<and> run_range I s b (c - b) = rret ys
     \<and> run_range I s a (c - a) = rret (xs @ ys)"
proof -
  have "take (c - a) (drop a (whole s)) = take (b - a) (drop a (whole s)) @ take (c - b) (drop b (whole s))"
  proof -
    have "c - a = (b - a) + (c - b)" using assms by simp
    then show ?thesis using assms(2) by (simp only: take_add drop_drop) simp
  qed
  with run_range_items [OF assms(1)] show ?thesis by simp
qed

end

end
