(* ===== verification/Iter_Dist.thy ===== *)
theory Iter_Dist
  imports Iter_Traits Array_Layout
begin

text \<open>
  Distributed iterators (\<open>array/iterator/distributed_iterator\<close>): the base iterator over the
  calling PE's part of an array and the adapters over it.
\<close>

section \<open>The base iterator\<close>

text \<open>
  \<open>DistIter\<close> and \<open>DistIterMut\<close> differ in the kind of reference they return; an item is the
  position of the element in the PE's local slice.
\<close>

record dist_iter =
  di_data :: unsafe_array_inner
  di_cur_i :: nat
  di_end_i :: nat

definition dist_iter_new :: "unsafe_array_inner \<Rightarrow> nat \<Rightarrow> nat \<Rightarrow> dist_iter" where
  "dist_iter_new data cur_i cnt = \<lparr>di_data = data, di_cur_i = cur_i, di_end_i = cur_i + cnt\<rparr>"

definition dist_iter_ops :: "(dist_iter, nat) indexed_ops" where
  "dist_iter_ops = \<lparr>
     it_init = (\<lambda>s start_i cnt. rbind (Some (num_elems_local (di_data s))) (\<lambda>max_i.
       rret \<lparr>di_data = di_data s, di_cur_i = min start_i max_i, di_end_i = min (start_i + cnt) max_i\<rparr>)),
     it_next = (\<lambda>s. if di_cur_i s < di_end_i s
       then rret (Some (di_cur_i s), s\<lparr>di_cur_i := di_cur_i s + 1\<rparr>) else rret (None, s)),
     it_elems = (\<lambda>s in_elems. Ret in_elems),
     it_advance_index = (\<lambda>s count. s\<lparr>di_cur_i := min (di_cur_i s + count) (di_end_i s)\<rparr>),
     it_iterator_index = (\<lambda>s index. subarray_index_from_local (di_data s) index)\<rparr>"

text \<open>\<open>DistIterMut\<close> has its own implementation of the traits.\<close>

definition dist_iter_mut_ops :: "(dist_iter, nat) indexed_ops" where
  "dist_iter_mut_ops = \<lparr>
     it_init = (\<lambda>s start_i cnt. rbind (Some (num_elems_local (di_data s))) (\<lambda>max_i.
       rret \<lparr>di_data = di_data s, di_cur_i = min start_i max_i, di_end_i = min (start_i + cnt) max_i\<rparr>)),
     it_next = (\<lambda>s. if di_cur_i s < di_end_i s
       then let s' = s\<lparr>di_cur_i := di_cur_i s + 1\<rparr> in rret (Some (di_cur_i s' - 1), s') else rret (None, s)),
     it_elems = (\<lambda>s in_elems. Ret in_elems),
     it_advance_index = (\<lambda>s count. s\<lparr>di_cur_i := min (di_cur_i s + count) (di_end_i s)\<rparr>),
     it_iterator_index = (\<lambda>s index. subarray_index_from_local (di_data s) index)\<rparr>"

lemma dist_iter_mut_same: "dist_iter_mut_ops = dist_iter_ops"
  by (auto simp: dist_iter_mut_ops_def dist_iter_ops_def Let_def fun_eq_iff)

section \<open>Adapters\<close>

subsection \<open>Map\<close>

record ('s, 'i, 'j) dist_map =
  dm_iter :: 's
  dm_f :: "'i \<Rightarrow> 'j"

definition dist_map_ops :: "('s, 'i, 'm) iter_ops_scheme \<Rightarrow> (('s, 'i, 'j) dist_map, 'j) iter_ops" where
  "dist_map_ops I = \<lparr>
     it_init = (\<lambda>s start_i cnt. rbind (it_init I (dm_iter s) start_i cnt) (\<lambda>iter.
       rret \<lparr>dm_iter = iter, dm_f = dm_f s\<rparr>)),
     it_next = (\<lambda>s. rbind (it_next I (dm_iter s)) (\<lambda>(x, iter).
       rret (map_option (dm_f s) x, s\<lparr>dm_iter := iter\<rparr>))),
     it_elems = (\<lambda>s in_elems. it_elems I (dm_iter s) in_elems),
     it_advance_index = (\<lambda>s count. s\<lparr>dm_iter := it_advance_index I (dm_iter s) count\<rparr>)\<rparr>"

subsection \<open>Filter\<close>

record ('s, 'i) dist_filter =
  df_iter :: 's
  df_f :: "'i \<Rightarrow> bool"

text \<open>The loop of \<open>next\<close>: it drops items until one passes or none is left.\<close>

partial_function (option) filter_next :: "('s, 'i, 'm) iter_ops_scheme \<Rightarrow> ('i \<Rightarrow> bool) \<Rightarrow> 's \<Rightarrow> ('i option \<times> 's) run" where
  "filter_next I f s = Option.bind (it_next I s) (\<lambda>r. case r of
     Panic p \<Rightarrow> Some (Panic p)
   | Ret (x, s') \<Rightarrow> (case x of
       None \<Rightarrow> rret (None, s')
     | Some y \<Rightarrow> if f y then rret (Some y, s') else filter_next I f s'))"

definition dist_filter_ops :: "('s, 'i, 'm) iter_ops_scheme \<Rightarrow> (('s, 'i) dist_filter, 'i) iter_ops" where
  "dist_filter_ops I = \<lparr>
     it_init = (\<lambda>s start_i cnt. rbind (it_init I (df_iter s) start_i cnt) (\<lambda>iter.
       rret \<lparr>df_iter = iter, df_f = df_f s\<rparr>)),
     it_next = (\<lambda>s. rbind (filter_next I (df_f s) (df_iter s)) (\<lambda>(x, iter).
       rret (x, s\<lparr>df_iter := iter\<rparr>))),
     it_elems = (\<lambda>s in_elems. it_elems I (df_iter s) in_elems),
     it_advance_index = (\<lambda>s count. s\<lparr>df_iter := it_advance_index I (df_iter s) count\<rparr>)\<rparr>"

subsection \<open>FilterMap\<close>

record ('s, 'i, 'j) dist_filter_map =
  dfm_iter :: 's
  dfm_f :: "'i \<Rightarrow> 'j option"

partial_function (option) filter_map_next :: "('s, 'i, 'm) iter_ops_scheme \<Rightarrow> ('i \<Rightarrow> 'j option) \<Rightarrow> 's \<Rightarrow> ('j option \<times> 's) run" where
  "filter_map_next I f s = Option.bind (it_next I s) (\<lambda>r. case r of
     Panic p \<Rightarrow> Some (Panic p)
   | Ret (x, s') \<Rightarrow> (case x of
       None \<Rightarrow> rret (None, s')
     | Some y \<Rightarrow> (case f y of Some z \<Rightarrow> rret (Some z, s') | None \<Rightarrow> filter_map_next I f s')))"

definition dist_filter_map_ops :: "('s, 'i, 'm) iter_ops_scheme \<Rightarrow> (('s, 'i, 'j) dist_filter_map, 'j) iter_ops" where
  "dist_filter_map_ops I = \<lparr>
     it_init = (\<lambda>s start_i cnt. rbind (it_init I (dfm_iter s) start_i cnt) (\<lambda>iter.
       rret \<lparr>dfm_iter = iter, dfm_f = dfm_f s\<rparr>)),
     it_next = (\<lambda>s. rbind (filter_map_next I (dfm_f s) (dfm_iter s)) (\<lambda>(x, iter).
       rret (x, s\<lparr>dfm_iter := iter\<rparr>))),
     it_elems = (\<lambda>s in_elems. it_elems I (dfm_iter s) in_elems),
     it_advance_index = (\<lambda>s count. s\<lparr>dfm_iter := it_advance_index I (dfm_iter s) count\<rparr>)\<rparr>"

subsection \<open>Monotonic\<close>

record 's monotonic =
  mo_iter :: 's
  mo_cur_index :: nat

definition dist_monotonic_ops :: "('s, 'i, 'm) iter_ops_scheme \<Rightarrow> ('s monotonic, nat \<times> 'i) iter_ops" where
  "dist_monotonic_ops I = \<lparr>
     it_init = (\<lambda>s start_i cnt. rbind (it_init I (mo_iter s) start_i cnt) (\<lambda>iter.
       rret \<lparr>mo_iter = iter, mo_cur_index = start_i\<rparr>)),
     it_next = (\<lambda>s. rbind (it_next I (mo_iter s)) (\<lambda>(x, iter). case x of
       Some a \<Rightarrow> rret (Some (mo_cur_index s, a), \<lparr>mo_iter = iter, mo_cur_index = mo_cur_index s + 1\<rparr>)
     | None \<Rightarrow> rret (None, s\<lparr>mo_iter := iter\<rparr>))),
     it_elems = (\<lambda>s in_elems. it_elems I (mo_iter s) in_elems),
     it_advance_index = (\<lambda>s count. \<lparr>mo_iter = it_advance_index I (mo_iter s) count,
                                  mo_cur_index = mo_cur_index s + 1\<rparr>)\<rparr>"

subsection \<open>Enumerate\<close>

record 's enumerate =
  en_iter :: 's
  en_cur_index :: nat

definition dist_enumerate_ops :: "('s, 'i, 'm) indexed_ops_scheme \<Rightarrow> ('s enumerate, nat \<times> 'i) indexed_ops" where
  "dist_enumerate_ops I = \<lparr>
     it_init = (\<lambda>s start_i cnt. rbind (it_init I (en_iter s) start_i cnt) (\<lambda>iter.
       rret \<lparr>en_iter = iter, en_cur_index = start_i\<rparr>)),
     it_next = (\<lambda>s. rbind (it_next I (en_iter s)) (\<lambda>(x, iter). case x of
       Some a \<Rightarrow> rbind (Some (it_iterator_index I iter (en_cur_index s))) (\<lambda>i. case i of
           None \<Rightarrow> rret (None, s\<lparr>en_iter := iter\<rparr>)
         | Some j \<Rightarrow> rret (Some (j, a), \<lparr>en_iter = iter, en_cur_index = en_cur_index s + 1\<rparr>))
     | None \<Rightarrow> rret (None, s\<lparr>en_iter := iter\<rparr>))),
     it_elems = (\<lambda>s in_elems. it_elems I (en_iter s) in_elems),
     it_advance_index = (\<lambda>s count. \<lparr>en_iter = it_advance_index I (en_iter s) count,
                                  en_cur_index = en_cur_index s + count\<rparr>),
     it_iterator_index = (\<lambda>s index. it_iterator_index I (en_iter s) index)\<rparr>"

subsection \<open>Skip\<close>

record 's dist_skip =
  ds_iter :: 's
  ds_count :: nat
  ds_skip_index :: nat

text \<open>
  The loop of \<open>init\<close>: the first position from \<open>skip_index\<close> on whose iterator index is not
  below \<open>count\<close>, with \<open>True\<close>; or the first position without an iterator index, with \<open>False\<close>.
\<close>

partial_function (option) skip_scan :: "(nat \<Rightarrow> nat option exec) \<Rightarrow> nat \<Rightarrow> nat \<Rightarrow> nat \<Rightarrow> (bool \<times> nat) run" where
  "skip_scan idx count skip_index iterator_index =
     (if int iterator_index - int count < 0 then
        (case idx (skip_index + 1) of
           Panic p \<Rightarrow> Some (Panic p)
         | Ret r \<Rightarrow> (case r of
             None \<Rightarrow> rret (False, skip_index + 1)
           | Some i \<Rightarrow> skip_scan idx count (skip_index + 1) i))
      else rret (True, skip_index))"

definition dist_skip_init :: "('s, 'i, 'm) indexed_ops_scheme \<Rightarrow> 's dist_skip \<Rightarrow> nat \<Rightarrow> nat \<Rightarrow> 's dist_skip run" where
  "dist_skip_init I s in_start_i len =
     rbind (it_init I (ds_iter s) in_start_i len) (\<lambda>iter.
     rbind (Some (it_iterator_index I iter in_start_i)) (\<lambda>first. case first of
       Some iterator_index \<Rightarrow>
         rbind (skip_scan (it_iterator_index I iter) (ds_count s) in_start_i iterator_index)
           (\<lambda>(found, skip_index).
           if found
           then rret \<lparr>ds_iter = it_advance_index I iter (skip_index - in_start_i), ds_count = ds_count s,
                      ds_skip_index = skip_index - in_start_i\<rparr>
           else rret \<lparr>ds_iter = it_advance_index I iter len, ds_count = ds_count s,
                      ds_skip_index = skip_index\<rparr>)
     | None \<Rightarrow>
         rret \<lparr>ds_iter = it_advance_index I iter len, ds_count = ds_count s, ds_skip_index = in_start_i\<rparr>))"

definition dist_skip_ops :: "('s, 'i, 'm) indexed_ops_scheme \<Rightarrow> ('s dist_skip, 'i) indexed_ops" where
  "dist_skip_ops I = \<lparr>
     it_init = dist_skip_init I,
     it_next = (\<lambda>s. rbind (it_next I (ds_iter s)) (\<lambda>(x, iter). rret (x, s\<lparr>ds_iter := iter\<rparr>))),
     it_elems = (\<lambda>s in_elems. ebind (it_elems I (ds_iter s) in_elems) (\<lambda>n. Ret (max 0 n))),
     it_advance_index = (\<lambda>s count. s\<lparr>ds_iter := it_advance_index I (ds_iter s) count\<rparr>),
     it_iterator_index = (\<lambda>s index.
       etry (it_iterator_index I (ds_iter s) (index + ds_skip_index s)) (\<lambda>i.
       let i_index = int i - int (ds_count s)
       in if i_index \<ge> 0 then Ret (Some (nat i_index)) else Ret None))\<rparr>"

subsection \<open>Take\<close>

record 's dist_take =
  dt_iter :: 's
  dt_count :: nat
  dt_cur_index :: nat

definition dist_take_index :: "('s, 'i, 'm) indexed_ops_scheme \<Rightarrow> 's dist_take \<Rightarrow> nat \<Rightarrow> nat option exec" where
  "dist_take_index I s index =
     etry (it_iterator_index I (dt_iter s) index) (\<lambda>g_index.
     if g_index < dt_count s then Ret (Some g_index) else Ret None)"

definition dist_take_ops :: "('s, 'i, 'm) indexed_ops_scheme \<Rightarrow> ('s dist_take, 'i) indexed_ops" where
  "dist_take_ops I = \<lparr>
     it_init = (\<lambda>s start_i len. rbind (it_init I (dt_iter s) start_i len) (\<lambda>iter.
       rret \<lparr>dt_iter = iter, dt_count = dt_count s, dt_cur_index = start_i\<rparr>)),
     it_next = (\<lambda>s. rbind (Some (dist_take_index I s (dt_cur_index s))) (\<lambda>i. case i of
       None \<Rightarrow> rret (None, s)
     | Some j \<Rightarrow>
         if j < dt_count s
         then rbind (it_next I (dt_iter s)) (\<lambda>(x, iter).
              rret (x, s\<lparr>dt_iter := iter, dt_cur_index := dt_cur_index s + 1\<rparr>))
         else rret (None, s))),
     it_elems = (\<lambda>s in_elems. ebind (it_elems I (dt_iter s) in_elems) (\<lambda>n. Ret (max 0 n))),
     it_advance_index = (\<lambda>s count. s\<lparr>dt_iter := it_advance_index I (dt_iter s) count,
                                  dt_cur_index := dt_cur_index s + count\<rparr>),
     it_iterator_index = dist_take_index I\<rparr>"

subsection \<open>StepBy\<close>

record 's step_by =
  sb_iter :: 's
  sb_step_size :: nat
  sb_add_one :: nat

text \<open>The loop of \<open>init\<close>: the first offset whose iterator index is a multiple of the step.\<close>

partial_function (option) step_scan :: "(nat \<Rightarrow> nat option exec) \<Rightarrow> nat \<Rightarrow> nat \<Rightarrow> nat \<Rightarrow> nat \<Rightarrow> (bool \<times> nat) run" where
  "step_scan idx step_size base offset_index iterator_index =
     (case umod iterator_index step_size of
        Panic p \<Rightarrow> Some (Panic p)
      | Ret rest \<Rightarrow>
          if rest \<noteq> 0 then
            (case idx (base + (offset_index + 1)) of
               Panic p \<Rightarrow> Some (Panic p)
             | Ret r \<Rightarrow> (case r of
                 None \<Rightarrow> rret (False, offset_index + 1)
               | Some i \<Rightarrow> step_scan idx step_size base (offset_index + 1) i))
          else rret (True, offset_index))"

definition step_by_init :: "('s, 'i, 'm) indexed_ops_scheme \<Rightarrow> 's step_by \<Rightarrow> nat \<Rightarrow> nat \<Rightarrow> 's step_by run" where
  "step_by_init I s in_start_i cnt =
     rbind (it_init I (sb_iter s) (in_start_i * sb_step_size s) (cnt * sb_step_size s)) (\<lambda>iter.
     rbind (Some (it_iterator_index I iter (in_start_i * sb_step_size s + 0))) (\<lambda>first. case first of
       Some iterator_index \<Rightarrow>
         rbind (step_scan (it_iterator_index I iter) (sb_step_size s) (in_start_i * sb_step_size s)
                  0 iterator_index) (\<lambda>(found, offset_index).
           if found
           then rret \<lparr>sb_iter = it_advance_index I iter offset_index, sb_step_size = sb_step_size s,
                      sb_add_one = (if offset_index > 0 then 1 else 0)\<rparr>
           else rret \<lparr>sb_iter = it_advance_index I iter cnt, sb_step_size = sb_step_size s,
                      sb_add_one = 1\<rparr>)
     | None \<Rightarrow>
         rret \<lparr>sb_iter = it_advance_index I iter cnt, sb_step_size = sb_step_size s, sb_add_one = 0\<rparr>))"

text \<open>\<open>(in_elems as f32 / self.step_size as f32).ceil() as usize\<close>; a division by 0 is infinite or no number.\<close>

definition f32_ceil_quotient :: "nat \<Rightarrow> nat \<Rightarrow> nat" where
  "f32_ceil_quotient n k =
     (if k = 0 then (if n = 0 then 0 else usize_mod - 1)
      else f64_ceil_usize (f32_div (f32_of_usize n) (f32_of_usize k)))"

definition step_by_index :: "('s, 'i, 'm) indexed_ops_scheme \<Rightarrow> 's step_by \<Rightarrow> nat \<Rightarrow> nat option exec" where
  "step_by_index I s index =
     etry (it_iterator_index I (sb_iter s) (index * sb_step_size s)) (\<lambda>g_index.
     ebind (udiv g_index (sb_step_size s)) (\<lambda>q. Ret (Some (q + sb_add_one s))))"

definition dist_step_by_ops :: "('s, 'i, 'm) indexed_ops_scheme \<Rightarrow> ('s step_by, 'i) indexed_ops" where
  "dist_step_by_ops I = \<lparr>
     it_init = step_by_init I,
     it_next = (\<lambda>s. rbind (it_next I (sb_iter s)) (\<lambda>(x, iter). case x of
       Some res \<Rightarrow> rbind (Some (usub (sb_step_size s) 1)) (\<lambda>k.
         rret (Some res, s\<lparr>sb_iter := it_advance_index I iter k\<rparr>))
     | None \<Rightarrow> rret (None, s\<lparr>sb_iter := iter\<rparr>))),
     it_elems = (\<lambda>s in_elems. ebind (it_elems I (sb_iter s) in_elems) (\<lambda>n.
       Ret (f32_ceil_quotient n (sb_step_size s)))),
     it_advance_index = (\<lambda>s count. s\<lparr>sb_iter := it_advance_index I (sb_iter s) (count * sb_step_size s)\<rparr>),
     it_iterator_index = step_by_index I\<rparr>"

section \<open>Adapters that preserve the contract\<close>

context iter_seq
begin

lemma map_seq: "iter_seq (dist_map_ops I) (\<lambda>s. inv (dm_iter s)) (\<lambda>s. map (dm_f s) (items (dm_iter s)))"
proof
  fix s :: "('s, 'i, 'd) dist_map"
  assume "inv (dm_iter s)"
  then obtain t where t: "it_next I (dm_iter s) = rret (head (items (dm_iter s)), t)" "inv t"
    "items t = tl (items (dm_iter s))" using next_items by blast
  then show "\<exists>s'. it_next (dist_map_ops I) s = rret (head (map (dm_f s) (items (dm_iter s))), s')
      \<and> inv (dm_iter s') \<and> map (dm_f s') (items (dm_iter s')) = tl (map (dm_f s) (items (dm_iter s)))"
    by (cases "items (dm_iter s)") (simp_all add: dist_map_ops_def)
qed

lemma filter_next_items:
  "inv s \<Longrightarrow> \<exists>t. filter_next I f s = rret (head (filter f (items s)), t) \<and> inv t
     \<and> filter f (items t) = tl (filter f (items s))"
proof (induction "items s" arbitrary: s)
  case Nil
  then obtain t where "it_next I s = rret (None, t)" "inv t" "items t = []" using next_Nil by metis
  with Nil.hyps show ?case by (simp add: filter_next.simps [of I f s])
next
  case (Cons x xs)
  then obtain t where t: "it_next I s = rret (Some x, t)" "inv t" "items t = xs" using next_Cons by metis
  with Cons.hyps(1) [of t] Cons.hyps(2) [symmetric] show ?case
    by (simp add: filter_next.simps [of I f s])
qed

lemma filter_seq: "iter_seq (dist_filter_ops I) (\<lambda>s. inv (df_iter s)) (\<lambda>s. filter (df_f s) (items (df_iter s)))"
proof
  fix s :: "('s, 'i) dist_filter"
  assume "inv (df_iter s)"
  then show "\<exists>s'. it_next (dist_filter_ops I) s = rret (head (filter (df_f s) (items (df_iter s))), s')
      \<and> inv (df_iter s') \<and> filter (df_f s') (items (df_iter s')) = tl (filter (df_f s) (items (df_iter s)))"
    using filter_next_items [of "df_iter s" "df_f s"] by (auto simp: dist_filter_ops_def)
qed

lemma filter_map_next_items:
  "inv s \<Longrightarrow> \<exists>t. filter_map_next I f s = rret (head (List.map_filter f (items s)), t) \<and> inv t
     \<and> List.map_filter f (items t) = tl (List.map_filter f (items s))"
proof (induction "items s" arbitrary: s)
  case Nil
  then obtain t where "it_next I s = rret (None, t)" "inv t" "items t = []" using next_Nil by metis
  with Nil.hyps show ?case by (simp add: filter_map_next.simps [of I f s] map_filter_simps)
next
  case (Cons x xs)
  then obtain t where t: "it_next I s = rret (Some x, t)" "inv t" "items t = xs" using next_Cons by metis
  with Cons.hyps(1) [of t] Cons.hyps(2) [symmetric] show ?case
    by (cases "f x") (simp_all add: filter_map_next.simps [of I f s] map_filter_simps)
qed

lemma filter_map_seq:
  "iter_seq (dist_filter_map_ops I) (\<lambda>s. inv (dfm_iter s)) (\<lambda>s. List.map_filter (dfm_f s) (items (dfm_iter s)))"
proof
  fix s :: "('s, 'i, 'd) dist_filter_map"
  assume "inv (dfm_iter s)"
  then show "\<exists>s'. it_next (dist_filter_map_ops I) s = rret (head (List.map_filter (dfm_f s) (items (dfm_iter s))), s')
      \<and> inv (dfm_iter s')
      \<and> List.map_filter (dfm_f s') (items (dfm_iter s')) = tl (List.map_filter (dfm_f s) (items (dfm_iter s)))"
    using filter_map_next_items [of "dfm_iter s" "dfm_f s"] by (auto simp: dist_filter_map_ops_def)
qed

lemma monotonic_seq:
  "iter_seq (dist_monotonic_ops I) (\<lambda>s. inv (mo_iter s))
     (\<lambda>s. zip [mo_cur_index s..<mo_cur_index s + length (items (mo_iter s))] (items (mo_iter s)))"
proof
  fix s :: "'s monotonic"
  assume "inv (mo_iter s)"
  then obtain t where t: "it_next I (mo_iter s) = rret (head (items (mo_iter s)), t)" "inv t"
    "items t = tl (items (mo_iter s))" using next_items by blast
  then show "\<exists>s'. it_next (dist_monotonic_ops I) s =
        rret (head (zip [mo_cur_index s..<mo_cur_index s + length (items (mo_iter s))] (items (mo_iter s))), s')
      \<and> inv (mo_iter s')
      \<and> zip [mo_cur_index s'..<mo_cur_index s' + length (items (mo_iter s'))] (items (mo_iter s'))
        = tl (zip [mo_cur_index s..<mo_cur_index s + length (items (mo_iter s))] (items (mo_iter s)))"
    by (cases "items (mo_iter s)") (simp_all add: dist_monotonic_ops_def upt_conv_Cons del: upt_Suc)
qed

end

section \<open>The base iterator is a window\<close>

definition local_len :: "unsafe_array_inner \<Rightarrow> nat" where
  "local_len a = card (owned a (ad_my_pe (ua_data a)))"

definition dist_iter_inv :: "dist_iter \<Rightarrow> bool" where
  "dist_iter_inv s \<longleftrightarrow> (\<exists>S. array_ok S (di_data s)) \<and> di_end_i s \<le> local_len (di_data s)"

lemma num_elems_local_len: "array_ok S a \<Longrightarrow> num_elems_local a = Ret (local_len a)"
  using num_elems_card [of S a "ad_my_pe (ua_data a)"]
  by (simp add: num_elems_local_def local_len_def array_ok_def)

interpretation dist: iter_window dist_iter_ops dist_iter_inv "\<lambda>s. [di_cur_i s..<di_end_i s]"
  "\<lambda>s. [0..<local_len (di_data s)]"
proof
  fix s assume "dist_iter_inv s"
  then show "\<exists>s'. it_next dist_iter_ops s = rret (head [di_cur_i s..<di_end_i s], s') \<and> dist_iter_inv s'
      \<and> [di_cur_i s'..<di_end_i s'] = tl [di_cur_i s..<di_end_i s]"
    by (cases "di_cur_i s < di_end_i s") (auto simp: dist_iter_ops_def dist_iter_inv_def upt_rec [of "di_cur_i s"])
next
  fix s k assume "dist_iter_inv s"
  then show "dist_iter_inv (it_advance_index dist_iter_ops s k)
      \<and> [di_cur_i (it_advance_index dist_iter_ops s k)..<di_end_i (it_advance_index dist_iter_ops s k)]
        = drop k [di_cur_i s..<di_end_i s]"
    by (auto simp: dist_iter_ops_def dist_iter_inv_def min_def)
next
  fix s start cnt assume "dist_iter_inv s"
  then obtain S where ok: "array_ok S (di_data s)" by (auto simp: dist_iter_inv_def)
  let ?n = "local_len (di_data s)"
  have "[min start ?n..<min (start + cnt) ?n] = take cnt (drop start [0..<?n])"
    by (auto simp: min_def take_upt)
  with ok show "\<exists>s'. it_init dist_iter_ops s start cnt = rret s' \<and> dist_iter_inv s'
      \<and> [0..<local_len (di_data s')] = [0..<local_len (di_data s)]
      \<and> [di_cur_i s'..<di_end_i s'] = take cnt (drop start [0..<local_len (di_data s)])"
    by (auto simp: dist_iter_ops_def dist_iter_inv_def num_elems_local_len)
qed

subsection \<open>Iterator indices\<close>

text \<open>The array index of a local position; positions and indices grow together.\<close>

definition sub_index :: "unsafe_array_inner \<Rightarrow> nat \<Rightarrow> nat" where
  "sub_index a k = nth_owned a (ad_my_pe (ua_data a)) k"

lemma sub_index_strict:
  assumes "array_ok S a" "k < l"
  shows "sub_index a k < sub_index a l"
proof -
  have "0 < ad_num_pes (ua_data a)" using assms(1) by (auto simp: array_ok_def)
  with assms(2) show ?thesis by (simp add: sub_index_def nth_owned_def split: distribution.split)
qed

lemma sub_index_mono: "array_ok S a \<Longrightarrow> k \<le> l \<Longrightarrow> sub_index a k \<le> sub_index a l"
  using sub_index_strict [of S a k l] by (cases "k = l") auto

lemma base_index_local:
  "array_ok S a \<Longrightarrow> k < local_len a \<Longrightarrow> subarray_index_from_local a k = Ret (Some (sub_index a k))"
  using subarray_index_eq by (simp add: local_len_def sub_index_def)

lemma base_index_any:
  assumes "array_ok S a"
  shows "subarray_index_from_local a k \<in> {Ret None, Ret (Some (sub_index a k))}"
proof -
  let ?pe = "ad_my_pe (ua_data a)"
  have pe: "?pe < ad_num_pes (ua_data a)" using assms by (simp add: array_ok_def)
  show ?thesis
  proof (cases "ua_distribution a")
    case Block
    then show ?thesis
      by (auto simp: subarray_index_from_local_def block_start [OF Block] Let_def sub_index_def nth_owned_def)
  next
    case Cyclic
    then show ?thesis
      by (auto simp: subarray_index_from_local_def cyclic_start [OF assms Cyclic pe] Let_def
          num_elems_local_def num_elems_card [OF assms pe] sub_index_def nth_owned_def)
  qed
qed

lemma dist_index [simp]: "it_iterator_index dist_iter_ops s k = subarray_index_from_local (di_data s) k"
  by (simp add: dist_iter_ops_def)

lemma dist_advance_data [simp]: "di_data (it_advance_index dist_iter_ops s k) = di_data s"
  by (simp add: dist_iter_ops_def)

lemma dist_next_eq:
  "it_next dist_iter_ops s = rret (head [di_cur_i s..<di_end_i s],
     if di_cur_i s < di_end_i s then s\<lparr>di_cur_i := di_cur_i s + 1\<rparr> else s)"
  by (simp add: dist_iter_ops_def upt_rec [of "di_cur_i s"])

lemma dist_init_eq:
  "array_ok S (di_data s) \<Longrightarrow> it_init dist_iter_ops s start cnt =
     rret \<lparr>di_data = di_data s, di_cur_i = min start (local_len (di_data s)),
           di_end_i = min (start + cnt) (local_len (di_data s))\<rparr>"
  by (simp add: dist_iter_ops_def num_elems_local_len)

lemma window_upt: "take cnt (drop start [0..<n]) = [min start n..<min (start + cnt) n]"
  by (auto simp: min_def take_upt)

lemma filter_upt_ge: "lo \<le> m \<Longrightarrow> filter (\<lambda>k. m \<le> k) [lo..<hi] = drop (m - lo) [lo..<hi]"
proof -
  assume "lo \<le> m"
  have "filter (\<lambda>k. m \<le> k) [lo..<hi] = [m..<hi]"
  proof (cases "m \<le> hi")
    case True
    with \<open>lo \<le> m\<close> have "[lo..<hi] = [lo..<m] @ [m..<hi]" by (metis upt_add_eq_append le_add_diff_inverse)
    then show ?thesis by (auto simp: filter_empty_conv filter_id_conv)
  next
    case False
    then show ?thesis by (auto simp: filter_empty_conv)
  qed
  with \<open>lo \<le> m\<close> show ?thesis by simp
qed

lemma init_window_ok:
  assumes "array_ok S a"
  shows "dist_iter_inv \<lparr>di_data = a, di_cur_i = min start (local_len a), di_end_i = min (start + cnt) (local_len a)\<rparr>
    \<and> (min start (local_len a) < min (start + cnt) (local_len a) \<longrightarrow> start = min start (local_len a))"
  using assms by (auto simp: dist_iter_inv_def)

subsection \<open>Enumerate\<close>

interpretation dist_enumerate: iter_seq "dist_enumerate_ops dist_iter_ops"
  "\<lambda>s. dist_iter_inv (en_iter s) \<and> (di_cur_i (en_iter s) < di_end_i (en_iter s) \<longrightarrow> en_cur_index s = di_cur_i (en_iter s))"
  "\<lambda>s. map (\<lambda>k. (sub_index (di_data (en_iter s)) k, k)) [di_cur_i (en_iter s)..<di_end_i (en_iter s)]"
proof
  fix s :: "dist_iter enumerate" assume s: "dist_iter_inv (en_iter s) \<and> (di_cur_i (en_iter s) < di_end_i (en_iter s) \<longrightarrow> en_cur_index s = di_cur_i (en_iter s))"
  let ?b = "en_iter s" and ?items = "\<lambda>s. map (\<lambda>k. (sub_index (di_data (en_iter s)) k, k)) [di_cur_i (en_iter s)..<di_end_i (en_iter s)]"
  show "\<exists>s'. it_next (dist_enumerate_ops dist_iter_ops) s = rret (head (?items s), s')
      \<and> (dist_iter_inv (en_iter s') \<and> (di_cur_i (en_iter s') < di_end_i (en_iter s') \<longrightarrow> en_cur_index s' = di_cur_i (en_iter s')))
      \<and> ?items s' = tl (?items s)"
  proof (cases "di_cur_i ?b < di_end_i ?b")
    case True
    obtain S where ok: "array_ok S (di_data ?b)" using s by (auto simp: dist_iter_inv_def)
    have "di_cur_i ?b < local_len (di_data ?b)" using True s by (auto simp: dist_iter_inv_def)
    from base_index_local [OF ok this] True s show ?thesis
      by (simp add: dist_enumerate_ops_def dist_next_eq upt_rec [of "di_cur_i ?b"] dist_iter_inv_def)
  next
    case False
    with s show ?thesis by (simp add: dist_enumerate_ops_def dist_next_eq)
  qed
qed

lemma dist_enumerate_run:
  assumes "array_ok S (di_data b)"
  shows "run_range (dist_enumerate_ops dist_iter_ops) \<lparr>en_iter = b, en_cur_index = i\<rparr> start cnt =
    rret (map (\<lambda>k. (sub_index (di_data b) k, k)) (take cnt (drop start [0..<local_len (di_data b)])))"
proof -
  let ?b = "\<lparr>di_data = di_data b, di_cur_i = min start (local_len (di_data b)),
           di_end_i = min (start + cnt) (local_len (di_data b))\<rparr>"
  have "it_init (dist_enumerate_ops dist_iter_ops) \<lparr>en_iter = b, en_cur_index = i\<rparr> start cnt
      = rret \<lparr>en_iter = ?b, en_cur_index = start\<rparr>"
    by (simp add: dist_enumerate_ops_def dist_init_eq [OF assms])
  moreover have "drain (dist_enumerate_ops dist_iter_ops) \<lparr>en_iter = ?b, en_cur_index = start\<rparr>
      = rret (map (\<lambda>k. (sub_index (di_data b) k, k)) [di_cur_i ?b..<di_end_i ?b])"
    using dist_enumerate.drain_items [of "\<lparr>en_iter = ?b, en_cur_index = start\<rparr>"]
      init_window_ok [OF assms, of start cnt] by simp
  ultimately show ?thesis unfolding window_upt by (simp add: run_range_def)
qed

subsection \<open>Take\<close>

lemma dist_take_index_eq:
  assumes "array_ok S (di_data (dt_iter s))" "k < local_len (di_data (dt_iter s))"
  shows "dist_take_index dist_iter_ops s k =
    Ret (if sub_index (di_data (dt_iter s)) k < dt_count s then Some (sub_index (di_data (dt_iter s)) k) else None)"
  using base_index_local [OF assms] by (simp add: dist_take_index_def)

lemma filter_increasing_none:
  assumes "array_ok S a" "\<not> sub_index a k < c"
  shows "filter (\<lambda>j. sub_index a j < c) [k..<m] = []"
  using sub_index_mono [OF assms(1)] assms(2) by (fastforce simp: filter_empty_conv)

interpretation dist_take: iter_seq "dist_take_ops dist_iter_ops"
  "\<lambda>s. dist_iter_inv (dt_iter s) \<and> (di_cur_i (dt_iter s) < di_end_i (dt_iter s) \<longrightarrow> dt_cur_index s = di_cur_i (dt_iter s))"
  "\<lambda>s. filter (\<lambda>k. sub_index (di_data (dt_iter s)) k < dt_count s) [di_cur_i (dt_iter s)..<di_end_i (dt_iter s)]"
proof
  fix s :: "dist_iter dist_take" assume s: "dist_iter_inv (dt_iter s) \<and> (di_cur_i (dt_iter s) < di_end_i (dt_iter s) \<longrightarrow> dt_cur_index s = di_cur_i (dt_iter s))"
  let ?b = "dt_iter s" and ?items = "\<lambda>s. filter (\<lambda>k. sub_index (di_data (dt_iter s)) k < dt_count s) [di_cur_i (dt_iter s)..<di_end_i (dt_iter s)]"
  obtain S where ok: "array_ok S (di_data ?b)" using s by (auto simp: dist_iter_inv_def)
  show "\<exists>s'. it_next (dist_take_ops dist_iter_ops) s = rret (head (?items s), s')
      \<and> (dist_iter_inv (dt_iter s') \<and> (di_cur_i (dt_iter s') < di_end_i (dt_iter s') \<longrightarrow> dt_cur_index s' = di_cur_i (dt_iter s')))
      \<and> ?items s' = tl (?items s)"
  proof (cases "di_cur_i ?b < di_end_i ?b")
    case True
    then have k: "di_cur_i ?b < local_len (di_data ?b)" using s by (auto simp: dist_iter_inv_def)
    show ?thesis
    proof (cases "sub_index (di_data ?b) (di_cur_i ?b) < dt_count s")
      case less: True
      with True s dist_take_index_eq [OF ok k] show ?thesis
        by (simp add: dist_take_ops_def dist_next_eq upt_rec [of "di_cur_i ?b"] dist_iter_inv_def)
    next
      case False
      with True s dist_take_index_eq [OF ok k] filter_increasing_none [OF ok False] show ?thesis
        by (simp add: dist_take_ops_def)
    qed
  next
    case False
    obtain r where r: "dist_take_index dist_iter_ops s (dt_cur_index s) = Ret r"
      using base_index_any [OF ok, of "dt_cur_index s"]
      by (cases "sub_index (di_data ?b) (dt_cur_index s) < dt_count s") (auto simp: dist_take_index_def)
    show ?thesis using False s r
      by (cases r) (auto simp: dist_take_ops_def dist_next_eq dist_iter_inv_def)
  qed
qed

lemma dist_take_run:
  assumes "array_ok S (di_data b)"
  shows "run_range (dist_take_ops dist_iter_ops) \<lparr>dt_iter = b, dt_count = c, dt_cur_index = i\<rparr> start cnt =
    rret (filter (\<lambda>k. sub_index (di_data b) k < c) (take cnt (drop start [0..<local_len (di_data b)])))"
proof -
  let ?b = "\<lparr>di_data = di_data b, di_cur_i = min start (local_len (di_data b)),
           di_end_i = min (start + cnt) (local_len (di_data b))\<rparr>"
  let ?t = "\<lparr>dt_iter = ?b, dt_count = c, dt_cur_index = start\<rparr>"
  have "it_init (dist_take_ops dist_iter_ops) \<lparr>dt_iter = b, dt_count = c, dt_cur_index = i\<rparr> start cnt = rret ?t"
    by (simp add: dist_take_ops_def dist_init_eq [OF assms])
  moreover have "drain (dist_take_ops dist_iter_ops) ?t
      = rret (filter (\<lambda>k. sub_index (di_data b) k < c) [di_cur_i ?b..<di_end_i ?b])"
    using dist_take.drain_items [of ?t] init_window_ok [OF assms, of start cnt] by simp
  ultimately show ?thesis unfolding window_upt by (simp add: run_range_def)
qed

subsection \<open>Skip\<close>

interpretation dist_skip: iter_seq "dist_skip_ops dist_iter_ops"
  "\<lambda>s. dist_iter_inv (ds_iter s)" "\<lambda>s. [di_cur_i (ds_iter s)..<di_end_i (ds_iter s)]"
proof
  fix s :: "dist_iter dist_skip" assume s: "dist_iter_inv (ds_iter s)"
  then obtain t where "it_next dist_iter_ops (ds_iter s) = rret (head [di_cur_i (ds_iter s)..<di_end_i (ds_iter s)], t)"
    "dist_iter_inv t" "[di_cur_i t..<di_end_i t] = tl [di_cur_i (ds_iter s)..<di_end_i (ds_iter s)]"
    using dist.next_items by blast
  then show "\<exists>s'. it_next (dist_skip_ops dist_iter_ops) s = rret (head [di_cur_i (ds_iter s)..<di_end_i (ds_iter s)], s')
      \<and> dist_iter_inv (ds_iter s')
      \<and> [di_cur_i (ds_iter s')..<di_end_i (ds_iter s')] = tl [di_cur_i (ds_iter s)..<di_end_i (ds_iter s)]"
    by (simp add: dist_skip_ops_def)
qed

text \<open>The scan returns, at the first position that is not below the bound or has no index.\<close>

lemma skip_scan_returns:
  assumes "array_ok S a"
  shows "\<exists>found m. skip_scan (subarray_index_from_local a) c k (sub_index a k) = rret (found, m)
    \<and> k \<le> m \<and> (\<forall>j. k \<le> j \<longrightarrow> j < m \<longrightarrow> sub_index a j < c)
    \<and> (if found then c \<le> sub_index a m else local_len a \<le> m)"
proof (induction "c - sub_index a k" arbitrary: k rule: less_induct)
  case less
  let ?idx = "subarray_index_from_local a"
  show ?case
  proof (cases "sub_index a k < c")
    case True
    have step: "sub_index a k < sub_index a (k + 1)" by (rule sub_index_strict [OF assms]) simp
    show ?thesis
    proof (cases "?idx (k + 1)")
      case (Ret r)
      show ?thesis
      proof (cases r)
        case None
        have "local_len a \<le> k + 1"
          using base_index_local [OF assms, of "k + 1"] Ret None by fastforce
        moreover have "sub_index a j < c" if "k \<le> j" "j < Suc k" for j
          using that True by (cases "j = k") auto
        ultimately show ?thesis using True Ret None
          by (auto simp: skip_scan.simps [of ?idx c k] intro!: exI [of _ False] exI [of _ "Suc k"])
      next
        case (Some i)
        with base_index_any [OF assms, of "k + 1"] Ret have i: "i = sub_index a (k + 1)" by auto
        from less [of "k + 1"] True step obtain found m where
          IH: "skip_scan ?idx c (k + 1) (sub_index a (k + 1)) = rret (found, m)" "k + 1 \<le> m"
            "\<forall>j. k + 1 \<le> j \<longrightarrow> j < m \<longrightarrow> sub_index a j < c"
            "if found then c \<le> sub_index a m else local_len a \<le> m" by (auto simp: diff_less_mono2)
        have "sub_index a j < c" if "k \<le> j" "j < m" for j
          using that IH(3) True by (cases "j = k") auto
        with IH True Ret Some i show ?thesis
          by (auto simp: skip_scan.simps [of ?idx c k])
      qed
    next
      case (Panic p)
      with base_index_any [OF assms, of "k + 1"] show ?thesis by simp
    qed
  next
    case False
    then show ?thesis by (auto simp: skip_scan.simps [of ?idx c k])
  qed
qed

lemma dist_skip_init_run:
  assumes "array_ok S (di_data b)"
  shows "\<exists>t. it_init (dist_skip_ops dist_iter_ops) \<lparr>ds_iter = b, ds_count = c, ds_skip_index = i\<rparr> start cnt = rret t
    \<and> dist_iter_inv (ds_iter t)
    \<and> [di_cur_i (ds_iter t)..<di_end_i (ds_iter t)] =
        filter (\<lambda>k. c \<le> sub_index (di_data b) k) (take cnt (drop start [0..<local_len (di_data b)]))"
proof -
  let ?a = "di_data b" and ?n = "local_len (di_data b)"
  let ?b = "\<lparr>di_data = ?a, di_cur_i = min start ?n, di_end_i = min (start + cnt) ?n\<rparr>"
  let ?w = "[min start ?n..<min (start + cnt) ?n]"
  have inv: "dist_iter_inv ?b" using init_window_ok [OF assms] by blast
  have adv: "dist_iter_inv (it_advance_index dist_iter_ops ?b k)"
    "[di_cur_i (it_advance_index dist_iter_ops ?b k)..<di_end_i (it_advance_index dist_iter_ops ?b k)] = drop k ?w" for k
    using dist.advance_items [OF inv, of k] by simp_all
  have all_drop: "drop cnt ?w = []" by simp
  let ?skip = "\<lparr>ds_iter = b, ds_count = c, ds_skip_index = i\<rparr>"
  have result: ?thesis
    if init: "it_init (dist_skip_ops dist_iter_ops) ?skip start cnt
        = rret \<lparr>ds_iter = it_advance_index dist_iter_ops ?b k, ds_count = c, ds_skip_index = x\<rparr>"
      and eq: "filter (\<lambda>k. c \<le> sub_index ?a k) ?w = drop k ?w" for k x
    unfolding window_upt eq
    by (rule exI, rule conjI [OF init], simp only: dist_skip.select_convs adv simp_thms)
  consider "subarray_index_from_local ?a start = Ret None" | "subarray_index_from_local ?a start = Ret (Some (sub_index ?a start))"
    using base_index_any [OF assms, of start] by auto
  then show ?thesis
  proof cases
    case 1
    then have "\<not> start < ?n" using base_index_local [OF assms, of start] by fastforce
    then have w: "?w = []" by simp
    show ?thesis
    proof (rule result [of cnt start])
      show "it_init (dist_skip_ops dist_iter_ops) ?skip start cnt
        = rret \<lparr>ds_iter = it_advance_index dist_iter_ops ?b cnt, ds_count = c, ds_skip_index = start\<rparr>"
        using 1 by (simp add: dist_skip_ops_def dist_skip_init_def dist_init_eq [OF assms])
    qed (simp only: w filter.simps drop_Nil)
  next
    case 2
    obtain found m where m: "skip_scan (subarray_index_from_local ?a) c start (sub_index ?a start) = rret (found, m)"
      "start \<le> m" "\<forall>j. start \<le> j \<longrightarrow> j < m \<longrightarrow> sub_index ?a j < c"
      "if found then c \<le> sub_index ?a m else ?n \<le> m"
      using skip_scan_returns [OF assms] by blast
    have idx: "it_iterator_index dist_iter_ops ?b = subarray_index_from_local ?a" by (rule ext) simp
    have filter_eq: "filter (\<lambda>k. c \<le> sub_index ?a k) ?w = drop (m - start) ?w"
    proof -
      have "filter (\<lambda>k. c \<le> sub_index ?a k) ?w = filter (\<lambda>k. m \<le> k) ?w"
      proof (rule filter_cong [OF refl])
        fix k assume k: "k \<in> set ?w"
        show "c \<le> sub_index ?a k \<longleftrightarrow> m \<le> k"
        proof
          assume "c \<le> sub_index ?a k"
          then show "m \<le> k" using k m(3) by (auto simp: not_less [symmetric])
        next
          assume mk: "m \<le> k"
          moreover have "k < ?n" using k by simp
          ultimately have "c \<le> sub_index ?a m" using m(4) by (auto split: if_splits)
          with sub_index_mono [OF assms mk] show "c \<le> sub_index ?a k" by simp
        qed
      qed
      also have "\<dots> = drop (m - start) ?w"
      proof (cases "start < ?n")
        case True
        then show ?thesis using m(2) by (simp add: filter_upt_ge)
      qed simp
      finally show ?thesis .
    qed
    show ?thesis
    proof (cases found)
      case True
      with 2 m(1) show ?thesis
        by (intro result [OF _ filter_eq])
           (simp add: dist_skip_ops_def dist_skip_init_def dist_init_eq [OF assms] idx)
    next
      case False
      then have "drop (m - start) ?w = drop cnt ?w" using m(2,4) by simp
      with filter_eq have "filter (\<lambda>k. c \<le> sub_index ?a k) ?w = drop cnt ?w" by (rule trans)
      moreover have "it_init (dist_skip_ops dist_iter_ops) ?skip start cnt
        = rret \<lparr>ds_iter = it_advance_index dist_iter_ops ?b cnt, ds_count = c, ds_skip_index = m\<rparr>"
        using False 2 m(1) by (simp add: dist_skip_ops_def dist_skip_init_def dist_init_eq [OF assms] idx)
      ultimately show ?thesis by (intro result)
    qed
  qed
qed

lemma dist_skip_run:
  assumes "array_ok S (di_data b)"
  shows "run_range (dist_skip_ops dist_iter_ops) \<lparr>ds_iter = b, ds_count = c, ds_skip_index = i\<rparr> start cnt =
    rret (filter (\<lambda>k. c \<le> sub_index (di_data b) k) (take cnt (drop start [0..<local_len (di_data b)])))"
proof -
  obtain t where t: "it_init (dist_skip_ops dist_iter_ops) \<lparr>ds_iter = b, ds_count = c, ds_skip_index = i\<rparr> start cnt = rret t"
    "dist_iter_inv (ds_iter t)" "[di_cur_i (ds_iter t)..<di_end_i (ds_iter t)] =
        filter (\<lambda>k. c \<le> sub_index (di_data b) k) (take cnt (drop start [0..<local_len (di_data b)]))"
    using dist_skip_init_run [OF assms] by blast
  from dist_skip.drain_items [OF t(2)] t(1,3) show ?thesis by (simp add: run_range_def)
qed

subsection \<open>StepBy\<close>

text \<open>Up to \<open>2 ^ 24\<close> elements the float quotient rounds up to the right integer.\<close>

lemma f32_ceil_quotient_exact:
  assumes "0 < k" "k < 2 ^ 24" "n < 2 ^ 24"
  shows "f32_ceil_quotient n k = (n + k - 1) div k"
proof -
  let ?q = "of_nat n / of_nat k :: rat"
  have conv: "f32_of_usize n = of_nat n" "f32_of_usize k = of_nat k"
    unfolding f32_of_usize_def using assms f32.rnd_nat by simp_all
  have n24: "(of_nat n :: rat) < two24" using assms(3) of_nat_less_iff [of n "2 ^ 24", where 'a = rat] by simp
  have k: "0 < (of_nat k :: rat)" using assms(1) by simp
  show ?thesis
  proof (cases "k dvd n")
    case True
    then obtain m where m: "n = k * m" by blast
    have "m \<le> n" using assms(1) m by simp
    then have "f32_round (of_nat m) = of_nat m" using assms(3) by (intro f32.rnd_nat) simp
    moreover have "?q = of_nat m" using k by (simp add: m)
    moreover have "(k * m + k - 1) div k = m"
      using assms(1) by (intro div_nat_eqI) (simp_all add: algebra_simps)
    ultimately show ?thesis
      using assms(1) conv by (simp add: f32_ceil_quotient_def f32_div_def f64_ceil_usize_def m)
  next
    case False
    define m where "m = n div k"
    define d where "d = n mod k"
    have "n = k * m + d" "0 < d" "d < k" using False assms(1) by (auto simp: m_def d_def dvd_eq_mod_eq_0)
    then have r: "k * m < n" "n < k * m + k" by simp_all
    have err: "\<bar>f32_round ?q - ?q\<bar> \<le> ?q / two24" by (rule f32.rnd_error) simp
    define x where "x = f32_round ?q"
    have "\<bar>x - ?q\<bar> * of_nat k \<le> ?q / two24 * of_nat k" using err k unfolding x_def by (intro mult_right_mono) auto
    moreover have "(x - ?q) * of_nat k = x * of_nat k - of_nat n" using k by (simp add: left_diff_distrib)
    moreover have "\<bar>x - ?q\<bar> * of_nat k = \<bar>(x - ?q) * of_nat k\<bar>" by (simp add: abs_mult)
    ultimately have "\<bar>x * of_nat k - of_nat n\<bar> \<le> of_nat n / two24" using k by simp
    then have near: "\<bar>x * of_nat k - of_nat n\<bar> < 1" using n24 by linarith
    have "of_nat k * of_nat m + 1 \<le> (of_nat n :: rat)" "of_nat n + 1 \<le> of_nat k * of_nat m + (of_nat k :: rat)"
      using r of_nat_mono [of "k * m + 1" n, where 'a = rat] of_nat_mono [of "n + 1" "k * m + k", where 'a = rat]
      by simp_all
    then have "of_nat k * of_nat m < x * of_nat k" "x * of_nat k < of_nat k * of_nat m + of_nat k"
      using near by linarith+
    then have "of_nat m * of_nat k < x * of_nat k" "x * of_nat k < (of_nat m + 1) * of_nat k"
      by (simp_all only: distrib_right mult_1 mult.commute [of "of_nat m"])
    then have "of_nat m < x" "x \<le> of_nat m + 1" using k by simp_all
    then have "\<lceil>x\<rceil> = int m + 1" by (intro ceiling_unique) simp_all
    moreover have "(n + k - 1) div k = m + 1"
      using r assms(1) by (intro div_nat_eqI) (simp_all add: algebra_simps)
    ultimately show ?thesis
      using assms(1) conv by (simp add: f32_ceil_quotient_def f32_div_def f64_ceil_usize_def x_def nat_add_distrib)
  qed
qed

section \<open>Properties\<close>

definition dist_window :: "unsafe_array_inner \<Rightarrow> nat \<Rightarrow> nat \<Rightarrow> nat list" where
  "dist_window a start cnt = take cnt (drop start [0..<local_len a])"

lemma dist_new_ok: "array_ok S a \<Longrightarrow> dist_iter_inv (dist_iter_new a 0 0)"
  by (auto simp: dist_iter_inv_def dist_iter_new_def)

lemma dist_init_items:
  assumes "array_ok S a"
  shows "\<exists>t. it_init dist_iter_ops (dist_iter_new a 0 0) start cnt = rret t \<and> dist_iter_inv t
    \<and> [di_cur_i t..<di_end_i t] = dist_window a start cnt"
  using dist.init_items [OF dist_new_ok [OF assms], of start cnt]
  by (auto simp: dist_window_def dist_iter_new_def)

lemma dist_map_filter_run:
  assumes "array_ok S a"
  shows "run_range (dist_filter_ops (dist_map_ops dist_iter_ops))
      \<lparr>df_iter = \<lparr>dm_iter = dist_iter_new a 0 0, dm_f = f\<rparr>, df_f = p\<rparr> start cnt
    = rret (filter p (map f (dist_window a start cnt)))"
proof -
  obtain t where t: "it_init dist_iter_ops (dist_iter_new a 0 0) start cnt = rret t" "dist_iter_inv t"
    "[di_cur_i t..<di_end_i t] = dist_window a start cnt" using dist_init_items [OF assms] by blast
  have "drain (dist_filter_ops (dist_map_ops dist_iter_ops)) \<lparr>df_iter = \<lparr>dm_iter = t, dm_f = f\<rparr>, df_f = p\<rparr>
      = rret (filter p (map f [di_cur_i t..<di_end_i t]))"
    using iter_seq.drain_items [OF iter_seq.filter_seq [OF dist.map_seq],
        of "\<lparr>df_iter = \<lparr>dm_iter = t, dm_f = f\<rparr>, df_f = p\<rparr>"] t(2) by simp
  with t(1,3) show ?thesis by (simp add: run_range_def dist_filter_ops_def [of "dist_map_ops _"])
      (simp add: dist_map_ops_def dist_filter_ops_def)
qed

lemma dist_filter_map_monotonic_run:
  assumes "array_ok S a"
  shows "run_range (dist_monotonic_ops (dist_filter_map_ops dist_iter_ops))
      \<lparr>mo_iter = \<lparr>dfm_iter = dist_iter_new a 0 0, dfm_f = f\<rparr>, mo_cur_index = 0\<rparr> start cnt
    = rret (let xs = List.map_filter f (dist_window a start cnt) in zip [start..<start + length xs] xs)"
proof -
  obtain t where t: "it_init dist_iter_ops (dist_iter_new a 0 0) start cnt = rret t" "dist_iter_inv t"
    "[di_cur_i t..<di_end_i t] = dist_window a start cnt" using dist_init_items [OF assms] by blast
  let ?s = "\<lparr>mo_iter = \<lparr>dfm_iter = t, dfm_f = f\<rparr>, mo_cur_index = start\<rparr>"
  have "drain (dist_monotonic_ops (dist_filter_map_ops dist_iter_ops)) ?s
      = rret (let xs = List.map_filter f [di_cur_i t..<di_end_i t] in zip [start..<start + length xs] xs)"
    using iter_seq.drain_items [OF iter_seq.monotonic_seq [OF dist.filter_map_seq], of ?s] t(2)
    by (simp add: Let_def)
  moreover have "it_init (dist_monotonic_ops (dist_filter_map_ops dist_iter_ops))
      \<lparr>mo_iter = \<lparr>dfm_iter = dist_iter_new a 0 0, dfm_f = f\<rparr>, mo_cur_index = 0\<rparr> start cnt = rret ?s"
    using t(1) by (simp add: dist_monotonic_ops_def dist_filter_map_ops_def)
  ultimately show ?thesis using t(3) by (simp add: run_range_def)
qed

text \<open>
  C9.  Driving an adapter chain over a range of the PE's local positions returns exactly the
  mapped and filtered elements of the range, in order: nothing is visited twice or
  left out, no call panics and the loops of \<open>filter\<close> and \<open>filter_map\<close> end.  \<open>monotonic\<close>
  numbers what is left consecutively from the start of the range.
\<close>

theorem dist_pipeline:
  assumes "array_ok S a" "num_elems_local a = Ret n"
  shows "run_range (dist_filter_ops (dist_map_ops dist_iter_ops))
      \<lparr>df_iter = \<lparr>dm_iter = dist_iter_new a 0 0, dm_f = f\<rparr>, df_f = p\<rparr> start cnt
      = rret (filter p (map f (take cnt (drop start [0..<n]))))
    \<and> run_range (dist_monotonic_ops (dist_filter_map_ops dist_iter_ops))
      \<lparr>mo_iter = \<lparr>dfm_iter = dist_iter_new a 0 0, dfm_f = g\<rparr>, mo_cur_index = 0\<rparr> start cnt
      = rret (let xs = List.map_filter g (take cnt (drop start [0..<n])) in zip [start..<start + length xs] xs)"
proof -
  have "n = local_len a" using num_elems_local_len [OF assms(1)] assms(2) by simp
  then show ?thesis
    using dist_map_filter_run [OF assms(1), of f p start cnt] dist_filter_map_monotonic_run [OF assms(1), of g start cnt]
    by (simp add: dist_window_def)
qed

theorem dist_pipeline_witness:
  "run_range (dist_filter_ops (dist_map_ops dist_iter_ops))
      \<lparr>df_iter = \<lparr>dm_iter = dist_iter_new (array_example Cyclic) 0 0, dm_f = Suc\<rparr>, df_f = odd\<rparr> 0 5 = rret [1]"
  using dist_pipeline [of 10 "array_example Cyclic" 1 Suc odd 0 5 Some] array_example_ok array_example_cyclic
  by simp

text \<open>
  C10.  Iterator indices are array indices.  \<open>enumerate\<close> pairs every local element of the range
  with its index in the distributed (sub-)array, \<open>skip(c)\<close> returns exactly the elements
  whose array index is at least \<open>c\<close> and \<open>take(c)\<close> those below \<open>c\<close>, whatever part of the array
  the PE holds.  The scan loop of \<open>skip\<close> ends.
\<close>

theorem dist_enumerate_skip_take:
  assumes "array_ok S a" "num_elems_local a = Ret n"
  shows "\<exists>j. (\<forall>k<n. subarray_index_from_local a k = Ret (Some (j k)))
    \<and> run_range (dist_enumerate_ops dist_iter_ops) \<lparr>en_iter = dist_iter_new a 0 0, en_cur_index = 0\<rparr> start cnt
        = rret (map (\<lambda>k. (j k, k)) (take cnt (drop start [0..<n])))
    \<and> run_range (dist_skip_ops dist_iter_ops) \<lparr>ds_iter = dist_iter_new a 0 0, ds_count = c, ds_skip_index = 0\<rparr> start cnt
        = rret (filter (\<lambda>k. c \<le> j k) (take cnt (drop start [0..<n])))
    \<and> run_range (dist_take_ops dist_iter_ops) \<lparr>dt_iter = dist_iter_new a 0 0, dt_count = c, dt_cur_index = 0\<rparr> start cnt
        = rret (filter (\<lambda>k. j k < c) (take cnt (drop start [0..<n])))"
proof -
  have n: "n = local_len a" using num_elems_local_len [OF assms(1)] assms(2) by simp
  have ok: "array_ok S (di_data (dist_iter_new a 0 0))" using assms(1) by (simp add: dist_iter_new_def)
  have a: "di_data (dist_iter_new a 0 0) = a" by (simp add: dist_iter_new_def)
  have "subarray_index_from_local a k = Ret (Some (sub_index a k))" if "k < n" for k
    using base_index_local [OF assms(1)] that n by simp
  then show ?thesis
    using dist_enumerate_run [OF ok] dist_skip_run [OF ok] dist_take_run [OF ok] unfolding a n
    by (intro exI [of _ "sub_index a"]) simp
qed

theorem dist_enumerate_skip_take_witness:
  "\<exists>j. run_range (dist_enumerate_ops dist_iter_ops)
      \<lparr>en_iter = dist_iter_new (array_example Cyclic) 0 0, en_cur_index = 0\<rparr> 0 5 = rret [(j 0, 0)]"
  using dist_enumerate_skip_take [of 10 "array_example Cyclic" 1 0 5 0] array_example_ok array_example_cyclic
  by auto

lemma ilog2_eq:
  assumes "2 powi e \<le> x" "x < 2 powi (e + 1)"
  shows "ilog2 x = e"
proof -
  have "0 < x" using assms(1) by (rule less_le_trans [rotated]) simp
  from ilog2_bounds [OF this] assms have "(2 :: rat) powi ilog2 x < 2 powi (e + 1)" "(2 :: rat) powi e < 2 powi (ilog2 x + 1)"
    by linarith+
  then have "ilog2 x < e + 1" "e < ilog2 x + 1"
    by (meson linorder_not_less one_le_numeral power_int_increasing)+
  then show ?thesis by simp
qed

lemma f32_loses_bit: "f32_ceil_quotient 16777217 1 = 16777216"
proof -
  have "ilog2 (16777217 :: rat) = 24" by (rule ilog2_eq) (simp_all add: power_int_def)
  moreover have "round_half_even (16777217 / 2) = 8388608"
  proof -
    have "\<lfloor>16777217 / 2 :: rat\<rfloor> = 8388608" by (rule floor_unique) simp_all
    then show ?thesis by (simp add: round_half_even_def Let_def)
  qed
  ultimately have "f32_round 16777217 = 16777216"
    by (simp add: f32_round_def float_round_def Let_def)
  moreover have "f32_round (16777216 :: rat) = 16777216" using f32.rnd_nat [of 16777216] by simp
  moreover have "f32_round (1 :: rat) = 1" using f32.rnd_nat [of 1] by simp
  ultimately show ?thesis
    by (simp add: f32_ceil_quotient_def f32_div_def f32_of_usize_def f64_ceil_usize_def)
qed

text \<open>
  \<open>step_by\<close> computes the number of its elements in \<open>f32\<close>.  Up to \<open>2 ^ 24\<close> elements the count
  is the quotient rounded up; from there on it can be too small, as for \<open>2 ^ 24 + 1\<close>
  elements and step 1, where the last element is dropped.
\<close>

theorem step_by_elems_f32:
  assumes "0 < k" "k < 2 ^ 24" "n < 2 ^ 24"
  shows "it_elems (dist_step_by_ops dist_iter_ops) \<lparr>sb_iter = b, sb_step_size = k, sb_add_one = 0\<rparr> n
      = Ret ((n + k - 1) div k)
    \<and> it_elems (dist_step_by_ops dist_iter_ops) \<lparr>sb_iter = b, sb_step_size = 1, sb_add_one = 0\<rparr> (2 ^ 24 + 1)
      = Ret (2 ^ 24)"
  using f32_ceil_quotient_exact [OF assms] f32_loses_bit
  by (simp add: dist_step_by_ops_def dist_iter_ops_def)

theorem step_by_elems_f32_witness:
  "it_elems (dist_step_by_ops dist_iter_ops) \<lparr>sb_iter = dist_iter_new array_example_even 0 0,
      sb_step_size = 3, sb_add_one = 0\<rparr> 10 = Ret 4"
  using step_by_elems_f32 [of 3 10 "dist_iter_new array_example_even 0 0"] by simp

definition array_example_last :: unsafe_array_inner where
  "array_example_last = array_example_even\<lparr>ua_data := \<lparr>ad_my_pe = 1, ad_num_pes = 2, ad_mem_bytes = 16\<rparr>\<rparr>"

lemma array_example_last_facts:
  "array_ok 4 array_example_last" "local_len array_example_last = 2"
  "subarray_index_from_local array_example_last 0 = Ret (Some 2)"
  "subarray_index_from_local array_example_last 1 = Ret (Some 3)"
  "subarray_index_from_local array_example_last 2 = Ret None"
proof -
  have l: "layout_ok (2 * 2) 2" by (simp add: layout_ok_def)
  show ok: "array_ok 4 array_example_last" using l by (simp add: array_ok_def array_example_last_def array_example_even_def)
  have b: "block_bound (elems_per_pe (2 * 2) 2) (Suc 0) = 2" "block_bound (elems_per_pe (2 * 2) 2) 2 = 4"
    using block_bound_exact(1) [OF l, of 1] block_bound_exact(1) [OF l, of 2] by simp_all
  have d: "ua_distribution array_example_last = Block" by (simp add: array_example_last_def array_example_even_def)
  have pe: "1 < ad_num_pes (ua_data array_example_last)" by (simp add: array_example_last_def)
  have bb: "block_bound (elems_per_pe 4 2) (Suc 0) = 2" "block_bound (elems_per_pe 4 2) 2 = 4"
    using b by simp_all
  show "local_len array_example_last = 2"
    using block_owned [OF ok d pe] bb
    by (simp add: local_len_def array_example_last_def array_example_even_def numeral_2_eq_2 [symmetric])
  have "start_index_for_pe array_example_last 1 = Ret (Some 2)"
    unfolding block_start [OF d] using bb by (simp add: array_example_last_def array_example_even_def)
  then show "subarray_index_from_local array_example_last 0 = Ret (Some 2)"
    "subarray_index_from_local array_example_last 1 = Ret (Some 3)"
    "subarray_index_from_local array_example_last 2 = Ret None"
    using d by (simp_all add: subarray_index_from_local_def) (simp_all add: array_example_last_def array_example_even_def)
qed

text \<open>
  \<open>step_by\<close> can return an element that is not on a step.  When no index of the PE's range is
  a multiple of the step and the scan runs past the end of the array, \<open>init\<close> advances the
  inner iterator by the number of steps instead of the number of elements; what is left is
  then returned.  On an array of four elements over two PEs, \<open>step_by(5)\<close> returns index 3 on PE 1.
\<close>

theorem dist_step_by_off_step:
  "subarray_index_from_local array_example_last 1 = Ret (Some 3)
   \<and> it_elems (dist_step_by_ops dist_iter_ops)
       \<lparr>sb_iter = dist_iter_new array_example_last 0 0, sb_step_size = 5, sb_add_one = 0\<rparr> 2 = Ret 1
   \<and> run_range (dist_step_by_ops dist_iter_ops)
       \<lparr>sb_iter = dist_iter_new array_example_last 0 0, sb_step_size = 5, sb_add_one = 0\<rparr> 0 1 = rret [1]"
proof -
  let ?a = array_example_last
  let ?s = "\<lparr>sb_iter = dist_iter_new ?a 0 0, sb_step_size = 5, sb_add_one = 0\<rparr>"
  let ?b = "\<lparr>di_data = ?a, di_cur_i = 0, di_end_i = 2\<rparr>"
  note f = array_example_last_facts
  have idx: "it_iterator_index dist_iter_ops b = subarray_index_from_local (di_data b)" for b by (rule ext) simp
  have scan: "step_scan (subarray_index_from_local ?a) 5 0 0 2 = rret (False, 2)"
    using f(4,5) by (simp add: step_scan.simps numeral_2_eq_2 [symmetric])
  have "it_init dist_iter_ops (dist_iter_new ?a 0 0) 0 5 = rret ?b"
    using dist_init_eq [of 4 "dist_iter_new ?a 0 0" 0 5] f(1,2) by (simp add: dist_iter_new_def)
  then have "it_init (dist_step_by_ops dist_iter_ops) ?s 0 1
      = rret \<lparr>sb_iter = ?b\<lparr>di_cur_i := 1\<rparr>, sb_step_size = 5, sb_add_one = 1\<rparr>"
    using f(3) scan by (simp add: dist_step_by_ops_def step_by_init_def idx) (simp add: dist_iter_ops_def)
  moreover have "drain (dist_step_by_ops dist_iter_ops) \<lparr>sb_iter = ?b\<lparr>di_cur_i := 1\<rparr>, sb_step_size = 5, sb_add_one = 1\<rparr>
      = rret [1]"
    by (simp add: drain.simps dist_step_by_ops_def dist_iter_ops_def)
  ultimately have "run_range (dist_step_by_ops dist_iter_ops) ?s 0 1 = rret [1]" by (simp add: run_range_def)
  moreover have "it_elems (dist_step_by_ops dist_iter_ops) ?s 2 = Ret 1"
    using f32_ceil_quotient_exact [of 5 2] by (simp add: dist_step_by_ops_def dist_iter_ops_def)
  ultimately show ?thesis using f(4) by blast
qed

end
