(* ===== verification/Iter_Local.thy ===== *)
theory Iter_Local
  imports Iter_Dist
begin

text \<open>
  Local iterators (\<open>array/iterator/local_iterator\<close>): every PE iterates over its own part of
  the array, with indices local to the PE.
\<close>

section \<open>The base iterator\<close>

text \<open>\<open>LocalIter\<close> and \<open>LocalIterMut\<close>; an item is the position in the local slice.\<close>

record local_iter =
  li_data :: unsafe_array_inner
  li_cur_i :: nat
  li_end_i :: nat

definition local_iter_new :: "unsafe_array_inner \<Rightarrow> nat \<Rightarrow> nat \<Rightarrow> local_iter" where
  "local_iter_new data cur_i cnt = \<lparr>li_data = data, li_cur_i = cur_i, li_end_i = cur_i + cnt\<rparr>"

definition local_iter_ops :: "(local_iter, nat) indexed_ops" where
  "local_iter_ops = \<lparr>
     it_init = (\<lambda>s start_i cnt. rbind (Some (num_elems_local (li_data s))) (\<lambda>max_i.
       rret \<lparr>li_data = li_data s, li_cur_i = min start_i max_i, li_end_i = min (start_i + cnt) max_i\<rparr>)),
     it_next = (\<lambda>s. if li_cur_i s < li_end_i s
       then rret (Some (li_cur_i s), s\<lparr>li_cur_i := li_cur_i s + 1\<rparr>) else rret (None, s)),
     it_elems = (\<lambda>s in_elems. Ret in_elems),
     it_advance_index = (\<lambda>s count. s\<lparr>li_cur_i := min (li_cur_i s + count) (li_end_i s)\<rparr>),
     it_iterator_index = (\<lambda>s index. if index < ua_size (li_data s) then Ret (Some index) else Ret None)\<rparr>"

text \<open>\<open>LocalIterMut\<close> has its own implementation of the traits.\<close>

definition local_iter_mut_ops :: "(local_iter, nat) indexed_ops" where
  "local_iter_mut_ops = \<lparr>
     it_init = (\<lambda>s start_i cnt. rbind (Some (num_elems_local (li_data s))) (\<lambda>max_i.
       rret \<lparr>li_data = li_data s, li_cur_i = min start_i max_i, li_end_i = min (start_i + cnt) max_i\<rparr>)),
     it_next = (\<lambda>s. if li_cur_i s < li_end_i s
       then let s' = s\<lparr>li_cur_i := li_cur_i s + 1\<rparr> in rret (Some (li_cur_i s' - 1), s') else rret (None, s)),
     it_elems = (\<lambda>s in_elems. Ret in_elems),
     it_advance_index = (\<lambda>s count. s\<lparr>li_cur_i := min (li_cur_i s + count) (li_end_i s)\<rparr>),
     it_iterator_index = (\<lambda>s index. if index < ua_size (li_data s) then Ret (Some index) else Ret None)\<rparr>"

lemma local_iter_mut_same: "local_iter_mut_ops = local_iter_ops"
  by (auto simp: local_iter_mut_ops_def local_iter_ops_def Let_def fun_eq_iff)

section \<open>Adapters\<close>

subsection \<open>Map, Filter, FilterMap, Monotonic, Enumerate\<close>

text \<open>These have the structure and the methods of their distributed counterparts.\<close>

definition local_map_ops :: "('s, 'i, 'm) iter_ops_scheme \<Rightarrow> (('s, 'i, 'j) dist_map, 'j) iter_ops" where
  "local_map_ops I = \<lparr>
     it_init = (\<lambda>s start_i cnt. rbind (it_init I (dm_iter s) start_i cnt) (\<lambda>iter.
       rret \<lparr>dm_iter = iter, dm_f = dm_f s\<rparr>)),
     it_next = (\<lambda>s. rbind (it_next I (dm_iter s)) (\<lambda>(x, iter).
       rret (map_option (dm_f s) x, s\<lparr>dm_iter := iter\<rparr>))),
     it_elems = (\<lambda>s in_elems. it_elems I (dm_iter s) in_elems),
     it_advance_index = (\<lambda>s count. s\<lparr>dm_iter := it_advance_index I (dm_iter s) count\<rparr>)\<rparr>"

definition local_filter_ops :: "('s, 'i, 'm) iter_ops_scheme \<Rightarrow> (('s, 'i) dist_filter, 'i) iter_ops" where
  "local_filter_ops I = \<lparr>
     it_init = (\<lambda>s start_i cnt. rbind (it_init I (df_iter s) start_i cnt) (\<lambda>iter.
       rret \<lparr>df_iter = iter, df_f = df_f s\<rparr>)),
     it_next = (\<lambda>s. rbind (filter_next I (df_f s) (df_iter s)) (\<lambda>(x, iter).
       rret (x, s\<lparr>df_iter := iter\<rparr>))),
     it_elems = (\<lambda>s in_elems. it_elems I (df_iter s) in_elems),
     it_advance_index = (\<lambda>s count. s\<lparr>df_iter := it_advance_index I (df_iter s) count\<rparr>)\<rparr>"

definition local_filter_map_ops :: "('s, 'i, 'm) iter_ops_scheme \<Rightarrow> (('s, 'i, 'j) dist_filter_map, 'j) iter_ops" where
  "local_filter_map_ops I = \<lparr>
     it_init = (\<lambda>s start_i cnt. rbind (it_init I (dfm_iter s) start_i cnt) (\<lambda>iter.
       rret \<lparr>dfm_iter = iter, dfm_f = dfm_f s\<rparr>)),
     it_next = (\<lambda>s. rbind (filter_map_next I (dfm_f s) (dfm_iter s)) (\<lambda>(x, iter).
       rret (x, s\<lparr>dfm_iter := iter\<rparr>))),
     it_elems = (\<lambda>s in_elems. it_elems I (dfm_iter s) in_elems),
     it_advance_index = (\<lambda>s count. s\<lparr>dfm_iter := it_advance_index I (dfm_iter s) count\<rparr>)\<rparr>"

definition local_monotonic_ops :: "('s, 'i, 'm) iter_ops_scheme \<Rightarrow> ('s monotonic, nat \<times> 'i) iter_ops" where
  "local_monotonic_ops I = \<lparr>
     it_init = (\<lambda>s start_i cnt. rbind (it_init I (mo_iter s) start_i cnt) (\<lambda>iter.
       rret \<lparr>mo_iter = iter, mo_cur_index = start_i\<rparr>)),
     it_next = (\<lambda>s. rbind (it_next I (mo_iter s)) (\<lambda>(x, iter). case x of
       Some a \<Rightarrow> rret (Some (mo_cur_index s, a), \<lparr>mo_iter = iter, mo_cur_index = mo_cur_index s + 1\<rparr>)
     | None \<Rightarrow> rret (None, s\<lparr>mo_iter := iter\<rparr>))),
     it_elems = (\<lambda>s in_elems. it_elems I (mo_iter s) in_elems),
     it_advance_index = (\<lambda>s count. \<lparr>mo_iter = it_advance_index I (mo_iter s) count,
                                  mo_cur_index = mo_cur_index s + 1\<rparr>)\<rparr>"

definition local_enumerate_ops :: "('s, 'i, 'm) indexed_ops_scheme \<Rightarrow> ('s enumerate, nat \<times> 'i) indexed_ops" where
  "local_enumerate_ops I = \<lparr>
     it_init = (\<lambda>s start_i cnt. rbind (it_init I (en_iter s) start_i cnt) (\<lambda>iter.
       rret \<lparr>en_iter = iter, en_cur_index = start_i\<rparr>)),
     it_next = (\<lambda>s. rbind (it_next I (en_iter s)) (\<lambda>(x, iter). case x of
       Some a \<Rightarrow> rbind (Some (it_iterator_index I iter (en_cur_index s))) (\<lambda>i. case i of
           None \<Rightarrow> rret (None, s\<lparr>en_iter := iter\<rparr>)
         | Some j \<Rightarrow> rret (Some (j, a), \<lparr>en_iter = iter, en_cur_index = en_cur_index s + 1\<rparr>))
     | None \<Rightarrow> rret (None, s\<lparr>en_iter := iter\<rparr>))),
     it_elems = (\<lambda>s in_elems. it_elems I (en_iter s) in_elems),
     it_advance_index = (\<lambda>s count. \<lparr>en_iter = it_advance_index I (en_iter s) count,
                                  en_cur_index = en_cur_index s + count\<rparr>),
     it_iterator_index = (\<lambda>s index. it_iterator_index I (en_iter s) index)\<rparr>"

subsection \<open>Skip\<close>

record 's local_skip =
  ls_iter :: 's
  ls_skip_count :: nat
  ls_skip_offset :: nat

definition local_skip_ops :: "('s, 'i, 'm) indexed_ops_scheme \<Rightarrow> ('s local_skip, 'i) indexed_ops" where
  "local_skip_ops I = \<lparr>
     it_init = (\<lambda>s in_start_i in_cnt. rbind (it_init I (ls_iter s) in_start_i in_cnt) (\<lambda>iter.
       let start_i = max in_start_i (ls_skip_count s) in
       rbind (Some (usub start_i in_start_i)) (\<lambda>d.
       let advance = min d in_cnt in
       rret \<lparr>ls_iter = it_advance_index I iter advance, ls_skip_count = ls_skip_count s,
             ls_skip_offset = advance\<rparr>))),
     it_next = (\<lambda>s. rbind (it_next I (ls_iter s)) (\<lambda>(x, iter). rret (x, s\<lparr>ls_iter := iter\<rparr>))),
     it_elems = (\<lambda>s in_elems. ebind (it_elems I (ls_iter s) in_elems) (\<lambda>n.
       ebind (usub n (ls_skip_count s)) (\<lambda>d. Ret (max 0 d)))),
     it_advance_index = (\<lambda>s count. s\<lparr>ls_iter := it_advance_index I (ls_iter s) count\<rparr>),
     it_iterator_index = (\<lambda>s index.
       etry (it_iterator_index I (ls_iter s) (index + ls_skip_offset s)) (\<lambda>i.
       let i_index = int i - int (ls_skip_count s)
       in if i_index \<ge> 0 then Ret (Some (nat i_index)) else Ret None))\<rparr>"

subsection \<open>Take\<close>

record 's local_take =
  lt_iter :: 's
  lt_take_count :: nat

definition local_take_ops :: "('s, 'i, 'm) indexed_ops_scheme \<Rightarrow> ('s local_take, 'i) indexed_ops" where
  "local_take_ops I = \<lparr>
     it_init = (\<lambda>s start_i0 cnt.
       let start_i = min start_i0 (lt_take_count s);
           end_i = min (start_i + cnt) (lt_take_count s) in
       rbind (Some (usub end_i start_i)) (\<lambda>len.
       rbind (it_init I (lt_iter s) start_i len) (\<lambda>iter.
       rret \<lparr>lt_iter = iter, lt_take_count = lt_take_count s\<rparr>))),
     it_next = (\<lambda>s. rbind (it_next I (lt_iter s)) (\<lambda>(x, iter). rret (x, s\<lparr>lt_iter := iter\<rparr>))),
     it_elems = (\<lambda>s in_elems. ebind (it_elems I (lt_iter s) in_elems) (\<lambda>n. Ret (min n (lt_take_count s)))),
     it_advance_index = (\<lambda>s count. s\<lparr>lt_iter := it_advance_index I (lt_iter s) count\<rparr>),
     it_iterator_index = (\<lambda>s index. it_iterator_index I (lt_iter s) index)\<rparr>"

subsection \<open>StepBy\<close>

definition local_step_by_ops :: "('s, 'i, 'm) indexed_ops_scheme \<Rightarrow> ('s step_by, 'i) indexed_ops" where
  "local_step_by_ops I = \<lparr>
     it_init = step_by_init I,
     it_next = (\<lambda>s. rbind (it_next I (sb_iter s)) (\<lambda>(res, iter).
       rbind (Some (usub (sb_step_size s) 1)) (\<lambda>k.
       rret (res, s\<lparr>sb_iter := it_advance_index I iter k\<rparr>)))),
     it_elems = (\<lambda>s in_elems. ebind (it_elems I (sb_iter s) in_elems) (\<lambda>n.
       Ret (f32_ceil_quotient n (sb_step_size s)))),
     it_advance_index = (\<lambda>s count. s\<lparr>sb_iter := it_advance_index I (sb_iter s) count\<rparr>),
     it_iterator_index = step_by_index I\<rparr>"

subsection \<open>Chunks\<close>

text \<open>An item is a \<open>Chunk\<close>: an iterator over the elements of the chunk.\<close>

record 's chunks =
  ch_iter :: 's
  ch_cur_i :: nat
  ch_end_i :: nat
  ch_chunk_size :: nat

definition chunks_new :: "'s \<Rightarrow> nat \<Rightarrow> nat \<Rightarrow> nat \<Rightarrow> 's chunks" where
  "chunks_new iter cur_i cnt chunk_size =
     \<lparr>ch_iter = iter, ch_cur_i = cur_i, ch_end_i = cur_i + cnt, ch_chunk_size = chunk_size\<rparr>"

definition local_chunks_ops :: "('s, 'i, 'm) indexed_ops_scheme \<Rightarrow> ('s chunks, 's) indexed_ops" where
  "local_chunks_ops I = \<lparr>
     it_init = (\<lambda>s start_i cnt.
       rbind (it_init I (ch_iter s) (start_i * ch_chunk_size s) ((start_i + cnt) * ch_chunk_size s)) (\<lambda>iter.
       rret (chunks_new iter start_i cnt (ch_chunk_size s)))),
     it_next = (\<lambda>s. if ch_cur_i s < ch_end_i s then
         let start_i = ch_cur_i s * ch_chunk_size s in
         rbind (it_init I (ch_iter s) start_i (ch_chunk_size s)) (\<lambda>iter.
         rret (Some iter, s\<lparr>ch_cur_i := ch_cur_i s + 1\<rparr>))
       else rret (None, s)),
     it_elems = (\<lambda>s in_elems. ebind (it_elems I (ch_iter s) in_elems) (\<lambda>n.
       ebind (umod n (ch_chunk_size s)) (\<lambda>r.
       ebind (udiv n (ch_chunk_size s)) (\<lambda>q. Ret (if r > 0 then 1 + q else q))))),
     it_advance_index = (\<lambda>s count. s\<lparr>ch_cur_i := min (ch_cur_i s + count) (ch_end_i s)\<rparr>),
     it_iterator_index = (\<lambda>s index. it_iterator_index I (ch_iter s) index)\<rparr>"

subsection \<open>Zip\<close>

record ('s, 't) zip_iter =
  zi_a :: 's
  zi_b :: 't

definition local_zip_ops :: "('s, 'i, 'm) indexed_ops_scheme \<Rightarrow> ('t, 'j, 'n) indexed_ops_scheme
    \<Rightarrow> (('s, 't) zip_iter, 'i \<times> 'j) indexed_ops" where
  "local_zip_ops A B = \<lparr>
     it_init = (\<lambda>s start_i cnt. rbind (it_init A (zi_a s) start_i cnt) (\<lambda>a.
       rbind (it_init B (zi_b s) start_i cnt) (\<lambda>b. rret \<lparr>zi_a = a, zi_b = b\<rparr>))),
     it_next = (\<lambda>s. rbind (it_next A (zi_a s)) (\<lambda>(x, a). case x of
       None \<Rightarrow> rret (None, s\<lparr>zi_a := a\<rparr>)
     | Some x' \<Rightarrow> rbind (it_next B (zi_b s)) (\<lambda>(y, b). case y of
         None \<Rightarrow> rret (None, \<lparr>zi_a = a, zi_b = b\<rparr>)
       | Some y' \<Rightarrow> rret (Some (x', y'), \<lparr>zi_a = a, zi_b = b\<rparr>)))),
     it_elems = (\<lambda>s in_elems. ebind (it_elems A (zi_a s) in_elems) (\<lambda>m.
       ebind (it_elems B (zi_b s) in_elems) (\<lambda>n. Ret (min m n)))),
     it_advance_index = (\<lambda>s count. \<lparr>zi_a = it_advance_index A (zi_a s) count,
                                  zi_b = it_advance_index B (zi_b s) count\<rparr>),
     it_iterator_index = (\<lambda>s index. it_iterator_index A (zi_a s) index)\<rparr>"

section \<open>The base iterator is a window\<close>

definition local_iter_inv :: "local_iter \<Rightarrow> bool" where
  "local_iter_inv s \<longleftrightarrow> (\<exists>S. array_ok S (li_data s)) \<and> li_end_i s \<le> local_len (li_data s)"

interpretation loc: iter_window local_iter_ops local_iter_inv "\<lambda>s. [li_cur_i s..<li_end_i s]"
  "\<lambda>s. [0..<local_len (li_data s)]"
proof
  fix s assume "local_iter_inv s"
  then show "\<exists>s'. it_next local_iter_ops s = rret (head [li_cur_i s..<li_end_i s], s') \<and> local_iter_inv s'
      \<and> [li_cur_i s'..<li_end_i s'] = tl [li_cur_i s..<li_end_i s]"
    by (cases "li_cur_i s < li_end_i s") (auto simp: local_iter_ops_def local_iter_inv_def upt_rec [of "li_cur_i s"])
next
  fix s k assume "local_iter_inv s"
  then show "local_iter_inv (it_advance_index local_iter_ops s k)
      \<and> [li_cur_i (it_advance_index local_iter_ops s k)..<li_end_i (it_advance_index local_iter_ops s k)]
        = drop k [li_cur_i s..<li_end_i s]"
    by (auto simp: local_iter_ops_def local_iter_inv_def min_def)
next
  fix s start cnt assume "local_iter_inv s"
  then obtain S where ok: "array_ok S (li_data s)" by (auto simp: local_iter_inv_def)
  let ?n = "local_len (li_data s)"
  have "[min start ?n..<min (start + cnt) ?n] = take cnt (drop start [0..<?n])"
    by (simp only: window_upt)
  with ok show "\<exists>s'. it_init local_iter_ops s start cnt = rret s' \<and> local_iter_inv s'
      \<and> [0..<local_len (li_data s')] = [0..<local_len (li_data s)]
      \<and> [li_cur_i s'..<li_end_i s'] = take cnt (drop start [0..<local_len (li_data s)])"
    by (auto simp: local_iter_ops_def local_iter_inv_def num_elems_local_len)
qed

section \<open>Adapters that preserve the contract\<close>

lemma local_dist_adapters:
  "local_map_ops I = dist_map_ops I" "local_filter_ops I = dist_filter_ops I"
  "local_filter_map_ops I = dist_filter_map_ops I" "local_monotonic_ops I = dist_monotonic_ops I"
  by (simp_all add: local_map_ops_def dist_map_ops_def local_filter_ops_def dist_filter_ops_def
      local_filter_map_ops_def dist_filter_map_ops_def local_monotonic_ops_def dist_monotonic_ops_def)

lemma local_enumerate_eq: "local_enumerate_ops I = dist_enumerate_ops I"
  by (simp add: local_enumerate_ops_def dist_enumerate_ops_def)

context iter_window
begin

lemma take_window:
  "iter_window (local_take_ops J) (\<lambda>s. inv (lt_iter s)) (\<lambda>s. items (lt_iter s))
     (\<lambda>s. take (lt_take_count s) (whole (lt_iter s)))"
  if J: "it_init J = it_init I" "it_next J = it_next I" "it_advance_index J = it_advance_index I"
proof
  fix s :: "'a local_take"
  assume s: "inv (lt_iter s)"
  then obtain t where "it_next I (lt_iter s) = rret (head (items (lt_iter s)), t)" "inv t"
    "items t = tl (items (lt_iter s))" using next_items by blast
  then show "\<exists>s'. it_next (local_take_ops J) s = rret (head (items (lt_iter s)), s') \<and> inv (lt_iter s')
      \<and> items (lt_iter s') = tl (items (lt_iter s))"
    by (simp add: local_take_ops_def J)
next
  fix s :: "'a local_take" and k
  assume "inv (lt_iter s)"
  then show "inv (lt_iter (it_advance_index (local_take_ops J) s k))
      \<and> items (lt_iter (it_advance_index (local_take_ops J) s k)) = drop k (items (lt_iter s))"
    using advance_items by (simp add: local_take_ops_def J)
next
  fix s :: "'a local_take" and start cnt
  assume s: "inv (lt_iter s)"
  let ?c = "lt_take_count s" and ?w = "whole (lt_iter s)"
  let ?st = "min start ?c"
  let ?len = "min (?st + cnt) ?c - ?st"
  obtain t where t: "it_init I (lt_iter s) ?st ?len = rret t" "inv t" "whole t = ?w"
    "items t = take ?len (drop ?st ?w)" using init_items [OF s] by blast
  have "take ?len (drop ?st ?w) = take cnt (drop start (take ?c ?w))"
    by (cases "start \<le> ?c") (simp_all add: drop_take min_def)
  with t show "\<exists>s'. it_init (local_take_ops J) s start cnt = rret s' \<and> inv (lt_iter s')
      \<and> take (lt_take_count s') (whole (lt_iter s')) = take ?c ?w
      \<and> items (lt_iter s') = take cnt (drop start (take ?c ?w))"
    by (simp add: local_take_ops_def J Let_def)
qed

lemma skip_range:
  assumes "inv (ls_iter s)" "it_init J = it_init I" "it_next J = it_next I" "it_advance_index J = it_advance_index I"
  shows "\<exists>t. it_init (local_skip_ops J) s start cnt = rret t \<and> inv (ls_iter t)
    \<and> items (ls_iter t) = drop (min (ls_skip_count s - start) cnt) (take cnt (drop start (whole (ls_iter s))))"
proof -
  obtain t where t: "it_init I (ls_iter s) start cnt = rret t" "inv t"
    "items t = take cnt (drop start (whole (ls_iter s)))" using init_items [OF assms(1)] by blast
  have "max start (ls_skip_count s) - start = ls_skip_count s - start" by simp
  with t advance_items [OF t(2)] show ?thesis by (simp add: local_skip_ops_def Let_def assms(2-4))
qed

lemma skip_seq:
  assumes J: "it_init J = it_init I" "it_next J = it_next I" "it_advance_index J = it_advance_index I"
  shows "iter_seq (local_skip_ops J) (\<lambda>s. inv (ls_iter s)) (\<lambda>s. items (ls_iter s))"
proof
  fix s :: "'a local_skip"
  assume "inv (ls_iter s)"
  then obtain t where "it_next I (ls_iter s) = rret (head (items (ls_iter s)), t)" "inv t"
    "items t = tl (items (ls_iter s))" using next_items by blast
  then show "\<exists>s'. it_next (local_skip_ops J) s = rret (head (items (ls_iter s)), s') \<and> inv (ls_iter s')
      \<and> items (ls_iter s') = tl (items (ls_iter s))"
    by (simp add: local_skip_ops_def J)
qed

end

lemma zip_window:
  assumes A: "iter_window A invA itemsA wholeA" and B: "iter_window B invB itemsB wholeB"
  shows "iter_window (local_zip_ops A B) (\<lambda>s. invA (zi_a s) \<and> invB (zi_b s))
    (\<lambda>s. zip (itemsA (zi_a s)) (itemsB (zi_b s))) (\<lambda>s. zip (wholeA (zi_a s)) (wholeB (zi_b s)))"
proof
  fix s :: "('a, 'd) zip_iter"
  assume s: "invA (zi_a s) \<and> invB (zi_b s)"
  obtain a where a: "it_next A (zi_a s) = rret (head (itemsA (zi_a s)), a)" "invA a"
    "itemsA a = tl (itemsA (zi_a s))"
    using s iter_seq.next_items [OF iter_adv.axioms(1) [OF iter_window.axioms(1) [OF A]]] by blast
  obtain b where b: "it_next B (zi_b s) = rret (head (itemsB (zi_b s)), b)" "invB b"
    "itemsB b = tl (itemsB (zi_b s))"
    using s iter_seq.next_items [OF iter_adv.axioms(1) [OF iter_window.axioms(1) [OF B]]] by blast
  show "\<exists>s'. it_next (local_zip_ops A B) s = rret (head (zip (itemsA (zi_a s)) (itemsB (zi_b s))), s')
      \<and> (invA (zi_a s') \<and> invB (zi_b s'))
      \<and> zip (itemsA (zi_a s')) (itemsB (zi_b s')) = tl (zip (itemsA (zi_a s)) (itemsB (zi_b s)))"
    using s a b by (cases "itemsA (zi_a s)"; cases "itemsB (zi_b s)") (simp_all add: local_zip_ops_def)
next
  fix s :: "('a, 'd) zip_iter" and k
  assume "invA (zi_a s) \<and> invB (zi_b s)"
  then show "(invA (zi_a (it_advance_index (local_zip_ops A B) s k)) \<and> invB (zi_b (it_advance_index (local_zip_ops A B) s k)))
      \<and> zip (itemsA (zi_a (it_advance_index (local_zip_ops A B) s k))) (itemsB (zi_b (it_advance_index (local_zip_ops A B) s k)))
        = drop k (zip (itemsA (zi_a s)) (itemsB (zi_b s)))"
    using iter_adv.advance_items [OF iter_window.axioms(1) [OF A]] iter_adv.advance_items [OF iter_window.axioms(1) [OF B]]
    by (simp add: local_zip_ops_def drop_zip)
next
  fix s :: "('a, 'd) zip_iter" and start cnt
  assume s: "invA (zi_a s) \<and> invB (zi_b s)"
  obtain a where a: "it_init A (zi_a s) start cnt = rret a" "invA a" "wholeA a = wholeA (zi_a s)"
    "itemsA a = take cnt (drop start (wholeA (zi_a s)))" using s iter_window.init_items [OF A] by blast
  obtain b where b: "it_init B (zi_b s) start cnt = rret b" "invB b" "wholeB b = wholeB (zi_b s)"
    "itemsB b = take cnt (drop start (wholeB (zi_b s)))" using s iter_window.init_items [OF B] by blast
  show "\<exists>s'. it_init (local_zip_ops A B) s start cnt = rret s' \<and> (invA (zi_a s') \<and> invB (zi_b s'))
      \<and> zip (wholeA (zi_a s')) (wholeB (zi_b s')) = zip (wholeA (zi_a s)) (wholeB (zi_b s))
      \<and> zip (itemsA (zi_a s')) (itemsB (zi_b s')) = take cnt (drop start (zip (wholeA (zi_a s)) (wholeB (zi_b s))))"
    using a b by (simp add: local_zip_ops_def take_zip drop_zip)
qed

interpretation loc_take: iter_window "local_take_ops local_iter_ops" "\<lambda>s. local_iter_inv (lt_iter s)"
  "\<lambda>s. [li_cur_i (lt_iter s)..<li_end_i (lt_iter s)]"
  "\<lambda>s. take (lt_take_count s) [0..<local_len (li_data (lt_iter s))]"
  by (rule loc.take_window) simp_all

interpretation loc_zip: iter_window "local_zip_ops local_iter_ops (local_take_ops local_iter_ops)"
  "\<lambda>s. local_iter_inv (zi_a s) \<and> local_iter_inv (lt_iter (zi_b s))"
  "\<lambda>s. zip [li_cur_i (zi_a s)..<li_end_i (zi_a s)] [li_cur_i (lt_iter (zi_b s))..<li_end_i (lt_iter (zi_b s))]"
  "\<lambda>s. zip [0..<local_len (li_data (zi_a s))] (take (lt_take_count (zi_b s)) [0..<local_len (li_data (lt_iter (zi_b s)))])"
  by (rule zip_window [OF loc.iter_window_axioms loc_take.iter_window_axioms])

interpretation loc_skip: iter_seq "local_skip_ops local_iter_ops" "\<lambda>s. local_iter_inv (ls_iter s)"
  "\<lambda>s. [li_cur_i (ls_iter s)..<li_end_i (ls_iter s)]"
  by (rule loc.skip_seq) simp_all

lemma local_init_eq:
  "array_ok S (li_data s) \<Longrightarrow> it_init local_iter_ops s start cnt =
     rret \<lparr>li_data = li_data s, li_cur_i = min start (local_len (li_data s)),
           li_end_i = min (start + cnt) (local_len (li_data s))\<rparr>"
  by (simp add: local_iter_ops_def num_elems_local_len)

lemma local_new_ok: "array_ok S a \<Longrightarrow> local_iter_inv (local_iter_new a 0 0)"
  by (auto simp: local_iter_inv_def local_iter_new_def)

lemma local_new_data [simp]: "li_data (local_iter_new a i c) = a"
  by (simp add: local_iter_new_def)

subsection \<open>Chunks\<close>

definition chunk_at :: "unsafe_array_inner \<Rightarrow> nat \<Rightarrow> nat \<Rightarrow> local_iter" where
  "chunk_at a cs i = \<lparr>li_data = a, li_cur_i = min (i * cs) (local_len a), li_end_i = min (i * cs + cs) (local_len a)\<rparr>"

interpretation loc_chunks: iter_seq "local_chunks_ops local_iter_ops" "\<lambda>s. \<exists>S. array_ok S (li_data (ch_iter s))"
  "\<lambda>s. map (chunk_at (li_data (ch_iter s)) (ch_chunk_size s)) [ch_cur_i s..<ch_end_i s]"
proof
  fix s :: "local_iter chunks"
  assume "\<exists>S. array_ok S (li_data (ch_iter s))"
  then obtain S where ok: "array_ok S (li_data (ch_iter s))" ..
  let ?items = "\<lambda>s. map (chunk_at (li_data (ch_iter s)) (ch_chunk_size s)) [ch_cur_i s..<ch_end_i s]"
  show "\<exists>s'. it_next (local_chunks_ops local_iter_ops) s = rret (head (?items s), s')
      \<and> (\<exists>S. array_ok S (li_data (ch_iter s'))) \<and> ?items s' = tl (?items s)"
    using ok
    by (cases "ch_cur_i s < ch_end_i s")
       (auto simp: local_chunks_ops_def local_init_eq [OF ok] chunk_at_def Let_def upt_rec [of "ch_cur_i s"])
qed

lemma chunk_drain:
  assumes "array_ok S a"
  shows "drain local_iter_ops (chunk_at a cs i) = rret (take cs (drop (i * cs) [0..<local_len a]))"
proof -
  have "local_iter_inv (chunk_at a cs i)" using assms by (auto simp: local_iter_inv_def chunk_at_def)
  from loc.drain_items [OF this] show ?thesis unfolding window_upt by (simp add: chunk_at_def)
qed

lemma chunk_windows: "concat (map (\<lambda>i. take cs (drop (i * cs) xs)) [0..<m]) = take (m * cs) xs"
proof (induction m)
  case (Suc m)
  have "take (m * cs + cs) xs = take (m * cs) xs @ take cs (drop (m * cs) xs)" by (rule take_add)
  with Suc show ?case by (simp add: add.commute)
qed simp

subsection \<open>StepBy\<close>

interpretation loc_step: iter_seq "local_step_by_ops local_iter_ops"
  "\<lambda>s. local_iter_inv (sb_iter s) \<and> 0 < sb_step_size s \<and>
     (li_cur_i (sb_iter s) < li_end_i (sb_iter s) \<longrightarrow> li_cur_i (sb_iter s) mod sb_step_size s = 0)"
  "\<lambda>s. filter (\<lambda>k. k mod sb_step_size s = 0) [li_cur_i (sb_iter s)..<li_end_i (sb_iter s)]"
proof
  fix s :: "local_iter step_by"
  let ?b = "sb_iter s" and ?k = "sb_step_size s"
  assume s: "local_iter_inv ?b \<and> 0 < ?k \<and> (li_cur_i ?b < li_end_i ?b \<longrightarrow> li_cur_i ?b mod ?k = 0)"
  let ?items = "\<lambda>s. filter (\<lambda>k. k mod sb_step_size s = 0) [li_cur_i (sb_iter s)..<li_end_i (sb_iter s)]"
  show "\<exists>s'. it_next (local_step_by_ops local_iter_ops) s = rret (head (?items s), s')
      \<and> (local_iter_inv (sb_iter s') \<and> 0 < sb_step_size s' \<and>
          (li_cur_i (sb_iter s') < li_end_i (sb_iter s') \<longrightarrow> li_cur_i (sb_iter s') mod sb_step_size s' = 0))
      \<and> ?items s' = tl (?items s)"
  proof (cases "li_cur_i ?b < li_end_i ?b")
    case True
    define c e where "c = li_cur_i ?b" and "e = li_end_i ?b"
    have ce: "c < e" "c mod ?k = 0" "0 < ?k" using True s by (simp_all add: c_def e_def)
    have skip: "filter (\<lambda>j. j mod ?k = 0) [Suc c..<e] = filter (\<lambda>j. j mod ?k = 0) [min (c + ?k) e..<e]"
    proof -
      have split: "[Suc c..<e] = [Suc c..<min (c + ?k) e] @ [min (c + ?k) e..<e]"
        using ce upt_add_eq_append [of "Suc c" "min (c + ?k) e" "e - min (c + ?k) e"] by simp
      have "j mod ?k \<noteq> 0" if "Suc c \<le> j" "j < c + ?k" for j
      proof -
        have "j mod ?k = (c + (j - c)) mod ?k" using that by simp
        also have "\<dots> = (j - c) mod ?k" using ce(2) by (metis add.left_neutral mod_add_left_eq)
        also have "\<dots> = j - c" using that by simp
        finally show ?thesis using that by simp
      qed
      then show ?thesis unfolding split by (auto simp: filter_empty_conv)
    qed
    have next_mod: "(c + ?k) mod ?k = 0" using ce(2) by simp
    show ?thesis
      using True s skip ce next_mod unfolding c_def [symmetric] e_def [symmetric]
      by (auto simp: local_step_by_ops_def local_iter_ops_def local_iter_inv_def upt_rec [of c] min_def
          c_def [symmetric] e_def [symmetric])
  next
    case False
    with s show ?thesis
      by (auto simp: local_step_by_ops_def local_iter_ops_def local_iter_inv_def min_def)
  qed
qed

lemma local_index [simp]:
  "it_iterator_index local_iter_ops s k = (if k < ua_size (li_data s) then Ret (Some k) else Ret None)"
  by (simp add: local_iter_ops_def)

lemma local_len_le: "array_ok S a \<Longrightarrow> local_len a \<le> ua_size a"
proof -
  assume "array_ok S a"
  have "owned a (ad_my_pe (ua_data a)) \<subseteq> {..<ua_size a}" by (auto simp: owned_def)
  then show ?thesis using card_mono [of "{..<ua_size a}"] by (simp add: local_len_def)
qed

lemma local_step_run:
  assumes "array_ok S a" "0 < k"
  shows "run_range (local_step_by_ops local_iter_ops)
      \<lparr>sb_iter = local_iter_new a 0 0, sb_step_size = k, sb_add_one = 0\<rparr> start cnt
    = rret (filter (\<lambda>j. j mod k = 0) (take (cnt * k) (drop (start * k) [0..<local_len a])))"
proof -
  let ?n = "local_len a" and ?s = "\<lparr>sb_iter = local_iter_new a 0 0, sb_step_size = k, sb_add_one = 0\<rparr>"
  let ?b = "\<lparr>li_data = a, li_cur_i = min (start * k) ?n, li_end_i = min (start * k + cnt * k) ?n\<rparr>"
  have init: "it_init local_iter_ops (local_iter_new a 0 0) (start * k) (cnt * k) = rret ?b"
    using local_init_eq [of S "local_iter_new a 0 0"] assms(1) by simp
  have inv: "local_iter_inv ?b" using assms(1) by (auto simp: local_iter_inv_def)
  show ?thesis
  proof (cases "start * k < ua_size a")
    case True
    let ?t = "\<lparr>sb_iter = ?b, sb_step_size = k, sb_add_one = 0\<rparr>"
    have scan: "step_scan f k x 0 (start * k) = rret (True, 0)" for f x
      using assms(2) by (simp add: step_scan.simps)
    have adv: "it_advance_index local_iter_ops ?b 0 = ?b" by (simp add: local_iter_ops_def)
    have "it_init (local_step_by_ops local_iter_ops) ?s start cnt = rret ?t"
      using True init scan adv by (simp add: local_step_by_ops_def step_by_init_def)
    moreover have "drain (local_step_by_ops local_iter_ops) ?t
        = rret (filter (\<lambda>j. j mod k = 0) [min (start * k) ?n..<min (start * k + cnt * k) ?n])"
    proof -
      have "min (start * k) ?n mod k = 0" if "min (start * k) ?n < min (start * k + cnt * k) ?n"
        using that by (simp add: min_def split: if_splits)
      with loc_step.drain_items [of ?t] inv assms(2) show ?thesis by simp
    qed
    ultimately show ?thesis unfolding window_upt by (simp add: run_range_def)
  next
    case False
    then have n: "?n \<le> start * k" using local_len_le [OF assms(1)] by simp
    let ?t = "\<lparr>sb_iter = ?b, sb_step_size = k, sb_add_one = 0\<rparr>"
    have adv: "it_advance_index local_iter_ops ?b cnt = ?b" using n by (simp add: local_iter_ops_def min_def)
    have "it_init (local_step_by_ops local_iter_ops) ?s start cnt = rret ?t"
      using False init adv by (simp add: local_step_by_ops_def step_by_init_def)
    moreover have "drain (local_step_by_ops local_iter_ops) ?t = rret []"
      using loc_step.drain_items [of ?t] inv assms(2) n by simp
    ultimately show ?thesis using n by (simp add: run_range_def)
  qed
qed

section \<open>Properties\<close>

text \<open>
  Local adapters return the right elements of the PE's part.  Over any range of positions,
  \<open>take(c)\<close> returns the elements of the range that are among the first \<open>c\<close>, \<open>zip\<close> pairs
  elements of equal position until the shorter one ends, \<open>step_by(k)\<close> returns the multiples
  of \<open>k\<close>, and the chunks that \<open>elems\<close> announces cover the local part without gap or overlap.
\<close>

theorem local_adapters_exact:
  assumes "array_ok S a" "num_elems_local a = Ret n" "0 < k"
  shows "run_range (local_take_ops local_iter_ops) \<lparr>lt_iter = local_iter_new a 0 0, lt_take_count = c\<rparr> start cnt
      = rret (take cnt (drop start (take c [0..<n])))
    \<and> run_range (local_zip_ops local_iter_ops (local_take_ops local_iter_ops))
        \<lparr>zi_a = local_iter_new a 0 0, zi_b = \<lparr>lt_iter = local_iter_new a 0 0, lt_take_count = c\<rparr>\<rparr> start cnt
      = rret (take cnt (drop start (zip [0..<n] (take c [0..<n]))))
    \<and> run_range (local_step_by_ops local_iter_ops)
        \<lparr>sb_iter = local_iter_new a 0 0, sb_step_size = k, sb_add_one = 0\<rparr> start cnt
      = rret (filter (\<lambda>j. j mod k = 0) (take (cnt * k) (drop (start * k) [0..<n])))
    \<and> (\<exists>m chunks parts. it_elems (local_chunks_ops local_iter_ops) (chunks_new (local_iter_new a 0 0) 0 0 k) n = Ret m
        \<and> run_range (local_chunks_ops local_iter_ops) (chunks_new (local_iter_new a 0 0) 0 0 k) 0 m = rret chunks
        \<and> map (drain local_iter_ops) chunks = map rret parts \<and> concat parts = [0..<n])"
proof (intro conjI)
  have n: "n = local_len a" using num_elems_local_len [OF assms(1)] assms(2) by simp
  note new = local_new_ok [OF assms(1)]
  show "run_range (local_take_ops local_iter_ops) \<lparr>lt_iter = local_iter_new a 0 0, lt_take_count = c\<rparr> start cnt
      = rret (take cnt (drop start (take c [0..<n])))"
    using loc_take.run_range_items [of "\<lparr>lt_iter = local_iter_new a 0 0, lt_take_count = c\<rparr>"] new n by simp
  show "run_range (local_zip_ops local_iter_ops (local_take_ops local_iter_ops))
        \<lparr>zi_a = local_iter_new a 0 0, zi_b = \<lparr>lt_iter = local_iter_new a 0 0, lt_take_count = c\<rparr>\<rparr> start cnt
      = rret (take cnt (drop start (zip [0..<n] (take c [0..<n]))))"
    using loc_zip.run_range_items
      [of "\<lparr>zi_a = local_iter_new a 0 0, zi_b = \<lparr>lt_iter = local_iter_new a 0 0, lt_take_count = c\<rparr>\<rparr>"] new n by simp
  show "run_range (local_step_by_ops local_iter_ops)
        \<lparr>sb_iter = local_iter_new a 0 0, sb_step_size = k, sb_add_one = 0\<rparr> start cnt
      = rret (filter (\<lambda>j. j mod k = 0) (take (cnt * k) (drop (start * k) [0..<n])))"
    using local_step_run [OF assms(1,3)] n by simp
  define m where "m = (if n mod k > 0 then 1 + n div k else n div k)"
  let ?parts = "map (\<lambda>i. take k (drop (i * k) [0..<n])) [0..<m]"
  let ?b = "\<lparr>li_data = a, li_cur_i = min 0 (local_len a), li_end_i = min (m * k) (local_len a)\<rparr>"
  have "n \<le> m * k"
  proof (cases "n mod k = 0")
    case True
    then have "n div k * k = n" by (simp add: dvd_eq_mod_eq_0 [symmetric])
    with True show ?thesis by (simp add: m_def)
  next
    case False
    have "n < n div k * k + k" using dividend_less_div_times [OF assms(3), of n] by simp
    with False show ?thesis by (simp add: m_def)
  qed
  then have "concat ?parts = [0..<n]" unfolding chunk_windows by simp
  moreover have "it_elems (local_chunks_ops local_iter_ops) (chunks_new (local_iter_new a 0 0) 0 0 k) n = Ret m"
    using assms(3) by (simp add: local_chunks_ops_def chunks_new_def local_iter_ops_def m_def)
  moreover have "run_range (local_chunks_ops local_iter_ops) (chunks_new (local_iter_new a 0 0) 0 0 k) 0 m
      = rret (map (chunk_at a k) [0..<m])"
  proof -
    have "it_init (local_chunks_ops local_iter_ops) (chunks_new (local_iter_new a 0 0) 0 0 k) 0 m
        = rret (chunks_new ?b 0 m k)"
      using local_init_eq [of S "local_iter_new a 0 0"] assms(1) by (simp add: local_chunks_ops_def chunks_new_def)
    moreover have "drain (local_chunks_ops local_iter_ops) (chunks_new ?b 0 m k) = rret (map (chunk_at a k) [0..<m])"
      using loc_chunks.drain_items [of "chunks_new ?b 0 m k"] assms(1) by (auto simp: chunks_new_def)
    ultimately show ?thesis by (simp add: run_range_def)
  qed
  moreover have "map (drain local_iter_ops) (map (chunk_at a k) [0..<m]) = map rret ?parts"
    using chunk_drain [OF assms(1)] n by simp
  ultimately show "\<exists>m chunks parts. it_elems (local_chunks_ops local_iter_ops) (chunks_new (local_iter_new a 0 0) 0 0 k) n = Ret m
        \<and> run_range (local_chunks_ops local_iter_ops) (chunks_new (local_iter_new a 0 0) 0 0 k) 0 m = rret chunks
        \<and> map (drain local_iter_ops) chunks = map rret parts \<and> concat parts = [0..<n]" by blast
qed

theorem local_adapters_exact_witness:
  "run_range (local_step_by_ops local_iter_ops)
     \<lparr>sb_iter = local_iter_new array_example_last 0 0, sb_step_size = 2, sb_add_one = 0\<rparr> 0 1 = rret [0]"
  using local_adapters_exact [of 4 array_example_last 2 2 0 0 1] array_example_last_facts(1,2)
    num_elems_local_len [of 4 array_example_last]
  by (simp add: upt_rec)

text \<open>
  \<open>local_iter().skip(c)\<close> loses elements.  \<open>elems\<close> already subtracts \<open>c\<close>, and \<open>init\<close> then cuts
  the first \<open>c\<close> positions off the shortened range: of \<open>n\<close> local elements only those from \<open>c\<close> up to
  \<open>n - c\<close> are returned, although the documentation shows all from \<open>c\<close> on.  With fewer than \<open>c\<close> local
  elements the subtraction overflows and the call panics.
\<close>

theorem local_skip_loses_elements:
  assumes "array_ok S a" "num_elems_local a = Ret n"
  shows "(c \<le> n \<longrightarrow>
       it_elems (local_skip_ops local_iter_ops) \<lparr>ls_iter = local_iter_new a 0 0, ls_skip_count = c, ls_skip_offset = 0\<rparr> n
         = Ret (n - c)
       \<and> run_range (local_skip_ops local_iter_ops)
           \<lparr>ls_iter = local_iter_new a 0 0, ls_skip_count = c, ls_skip_offset = 0\<rparr> 0 (n - c) = rret [c..<n - c])
    \<and> (n < c \<longrightarrow>
       it_elems (local_skip_ops local_iter_ops) \<lparr>ls_iter = local_iter_new a 0 0, ls_skip_count = c, ls_skip_offset = 0\<rparr> n
         = Panic SubOverflow)"
proof (intro conjI impI)
  let ?s = "\<lparr>ls_iter = local_iter_new a 0 0, ls_skip_count = c, ls_skip_offset = 0\<rparr>"
  have n: "n = local_len a" using num_elems_local_len [OF assms(1)] assms(2) by simp
  {
    assume "c \<le> n"
    then show "it_elems (local_skip_ops local_iter_ops) ?s n = Ret (n - c)"
      by (simp add: local_skip_ops_def local_iter_ops_def)
    have "\<exists>t. it_init (local_skip_ops local_iter_ops) ?s 0 (n - c) = rret t \<and> local_iter_inv (ls_iter t)
        \<and> [li_cur_i (ls_iter t)..<li_end_i (ls_iter t)] = drop (min (ls_skip_count ?s - 0) (n - c))
            (take (n - c) (drop 0 [0..<local_len (li_data (ls_iter ?s))]))"
      by (rule loc.skip_range) (simp_all add: local_new_ok [OF assms(1)])
    then obtain t where t: "it_init (local_skip_ops local_iter_ops) ?s 0 (n - c) = rret t" "local_iter_inv (ls_iter t)"
      "[li_cur_i (ls_iter t)..<li_end_i (ls_iter t)] = drop (min c (n - c)) (take (n - c) [0..<local_len a])"
      by auto
    have "drop (min c (n - c)) (take (n - c) [0..<local_len a]) = [c..<n - c]"
      by (simp add: n take_upt min_def)
    with t loc_skip.drain_items [OF t(2)] show "run_range (local_skip_ops local_iter_ops) ?s 0 (n - c) = rret [c..<n - c]"
      by (simp add: run_range_def)
  next
    assume "n < c"
    then show "it_elems (local_skip_ops local_iter_ops) ?s n = Panic SubOverflow"
      by (simp add: local_skip_ops_def local_iter_ops_def usub_def)
  }
qed

theorem local_skip_loses_elements_witness:
  "run_range (local_skip_ops local_iter_ops)
     \<lparr>ls_iter = local_iter_new array_example_last 0 0, ls_skip_count = 1, ls_skip_offset = 0\<rparr> 0 1 = rret []"
  using local_skip_loses_elements [of 4 array_example_last 2 1] array_example_last_facts(1,2)
    num_elems_local_len [of 4 array_example_last]
  by simp

end
