(* ===== verification/Transition_Systems.thy ===== *)
theory Transition_Systems
  imports Lamellar_Prelude
begin

text \<open>
  Interleavings of concurrent activities are step relations.  The contract below is
  shared by the schedules of the iterators and by the protocols between PEs: an invariant, a
  measure that every step decreases and a step from every state that is not final.  Its
  consequences are that every execution is finite and that it can only end in a final state.
\<close>

locale terminating_system =
  fixes step :: "'s \<Rightarrow> 's \<Rightarrow> bool"
    and inv :: "'s \<Rightarrow> bool"
    and meas :: "'s \<Rightarrow> nat"
    and final :: "'s \<Rightarrow> bool"
  assumes step_inv: "inv s \<Longrightarrow> step s t \<Longrightarrow> inv t"
    and step_meas: "inv s \<Longrightarrow> step s t \<Longrightarrow> meas t < meas s"
    and progress: "inv s \<Longrightarrow> \<not> final s \<Longrightarrow> \<exists>t. step s t"
begin

lemma reach_inv: "step\<^sup>*\<^sup>* s t \<Longrightarrow> inv s \<Longrightarrow> inv t"
  by (induction rule: rtranclp_induct) (auto dest: step_inv)

lemma run_length: "inv s \<Longrightarrow> (step ^^ n) s t \<Longrightarrow> n + meas t \<le> meas s"
proof (induction n arbitrary: t)
  case (Suc n)
  then obtain u where u: "(step ^^ n) s u" "step u t" by auto
  have "inv u" using reach_inv [OF relpowp_imp_rtranclp [OF u(1)] Suc.prems(1)] .
  then show ?case using Suc.IH [OF Suc.prems(1) u(1)] step_meas [OF _ u(2)] by fastforce
qed simp

lemma run_bound: "inv s \<Longrightarrow> (step ^^ n) s t \<Longrightarrow> n \<le> meas s"
  using run_length [of s n t] by simp

lemma stuck_final: "inv s \<Longrightarrow> step\<^sup>*\<^sup>* s t \<Longrightarrow> (\<And>u. \<not> step t u) \<Longrightarrow> final t"
  using reach_inv progress by blast

lemma ends: "inv s \<Longrightarrow> \<exists>n t. (step ^^ n) s t \<and> (\<forall>u. \<not> step t u)"
proof (induction "meas s" arbitrary: s rule: less_induct)
  case less
  show ?case
  proof (cases "\<exists>u. step s u")
    case True
    then obtain u where u: "step s u" ..
    obtain n t where "(step ^^ n) u t" "\<forall>v. \<not> step t v"
      using less.hyps [OF step_meas [OF less.prems u] step_inv [OF less.prems u]] by blast
    with u have "(step ^^ Suc n) s t" by (meson relpowp_Suc_I2)
    with \<open>\<forall>v. \<not> step t v\<close> show ?thesis by blast
  next
    case False
    then have "(step ^^ 0) s s" by simp
    with False show ?thesis by blast
  qed
qed

lemma reaches_final: "inv s \<Longrightarrow> \<exists>t. step\<^sup>*\<^sup>* s t \<and> final t"
proof (induction "meas s" arbitrary: s rule: less_induct)
  case less
  show ?case
  proof (cases "final s")
    case False
    then obtain u where u: "step s u" using progress less.prems by blast
    then obtain t where "step\<^sup>*\<^sup>* u t" "final t"
      using less.hyps [OF step_meas [OF less.prems u] step_inv [OF less.prems u]] by blast
    with u show ?thesis by (meson converse_rtranclp_into_rtranclp)
  qed blast
qed

end

end
