(* ===== verification/Iter_Schedule.thy ===== *)
theory Iter_Schedule
  imports Iter_Local Transition_Systems "HOL-Library.Multiset"
begin

text \<open>
  How the iteration over a PE's part of an array is divided among the worker threads
  (\<open>array/iterator/consumer.rs\<close>, \<open>array/unsafe/iteration/consumer.rs\<close>): static, dynamic,
  chunked and work-stealing schedules.
\<close>

section \<open>Ranges\<close>

subsection \<open>Static schedule\<close>

text \<open>\<open>1.0f64.max(num_elems_local as f64 / num_workers as f64)\<close>\<close>

definition elems_per_thread :: "nat \<Rightarrow> nat \<Rightarrow> rat" where
  "elems_per_thread elems_local num_workers =
     max 1 (f64_div (f64_of_usize elems_local) (f64_of_usize num_workers))"

definition thread_bound :: "rat \<Rightarrow> nat \<Rightarrow> nat" where
  "thread_bound ept worker = f64_round_usize (f64_mul (f64_of_usize worker) ept)"

partial_function (option) static_loop :: "nat \<Rightarrow> rat \<Rightarrow> nat \<Rightarrow> (nat \<times> nat) list option" where
  "static_loop elems_local ept worker =
     (if thread_bound ept worker < elems_local
      then Option.bind (static_loop elems_local ept (worker + 1)) (\<lambda>rs.
           Some ((thread_bound ept worker, thread_bound ept (worker + 1)) # rs))
      else Some [])"

definition sched_static :: "nat \<Rightarrow> nat \<Rightarrow> (nat \<times> nat) list option" where
  "sched_static elems_local num_workers =
     static_loop elems_local (elems_per_thread elems_local num_workers) 0"

subsection \<open>Chunked schedule\<close>

partial_function (option) chunk_loop :: "nat \<Rightarrow> nat \<Rightarrow> nat \<Rightarrow> (nat \<times> nat) list option" where
  "chunk_loop elems_local chunk_size cur_i =
     (if cur_i < elems_local
      then Option.bind (chunk_loop elems_local chunk_size (cur_i + chunk_size)) (\<lambda>rs.
           Some ((cur_i, cur_i + chunk_size) # rs))
      else Some [])"

definition sched_chunk :: "nat \<Rightarrow> nat \<Rightarrow> (nat \<times> nat) list option" where
  "sched_chunk elems_local chunk_size = chunk_loop elems_local chunk_size 0"

section \<open>What the workers do\<close>

text \<open>
  A worker drains an \<open>IterScheduleIter\<close>.  The workers of a schedule share counters or ranges
  and interleave; a step is a stretch of one worker's execution with a single access to the
  shared state.  \<open>None\<close> in the list of workers is a worker that has ended: its \<open>next\<close> has
  returned \<open>None\<close>.
\<close>

fun emit :: "'i option \<Rightarrow> 'i list" where
  "emit None = []"
| "emit (Some x) = [x]"

subsection \<open>Dynamic schedule\<close>

record ('s, 'i) dynamic_state =
  dy_cur_i :: nat
  dy_iters :: "'s option list"
  dy_out :: "'i list"

definition sched_dynamic :: "nat \<Rightarrow> nat \<Rightarrow> 's \<Rightarrow> ('s, 'i) dynamic_state" where
  "sched_dynamic elems_local num_workers iter =
     \<lparr>dy_cur_i = 0, dy_iters = replicate (min num_workers elems_local) (Some iter), dy_out = []\<rparr>"

text \<open>
  A step is a \<open>fetch_add\<close> and the turn of the loop that follows it.  The turn touches only the iterator of the worker, so that it can be moved
  to its \<open>fetch_add\<close> in any execution; only the order in which several workers yield their items depends on it, and
  the theorems speak of the multiset of the items.
\<close>

inductive dynamic_step :: "('s, 'i, 'm) iter_ops_scheme \<Rightarrow> nat \<Rightarrow> ('s, 'i) dynamic_state
    \<Rightarrow> ('s, 'i) dynamic_state \<Rightarrow> bool" for I max_i where
  dynamic_claim: "w < length (dy_iters s) \<Longrightarrow> dy_iters s ! w = Some iter \<Longrightarrow> dy_cur_i s < max_i \<Longrightarrow>
    it_init I iter (dy_cur_i s) 1 = rret iter' \<Longrightarrow> it_next I iter' = rret (elem, iter'') \<Longrightarrow>
    dynamic_step I max_i s
      \<lparr>dy_cur_i = fetch_add_usize (dy_cur_i s) 1, dy_iters = (dy_iters s)[w := Some iter''],
       dy_out = dy_out s @ emit elem\<rparr>"
| dynamic_end: "w < length (dy_iters s) \<Longrightarrow> dy_iters s ! w = Some iter \<Longrightarrow> \<not> dy_cur_i s < max_i \<Longrightarrow>
    dynamic_step I max_i s
      (s\<lparr>dy_cur_i := fetch_add_usize (dy_cur_i s) 1, dy_iters := (dy_iters s)[w := None]\<rparr>)"

subsection \<open>Chunked schedule\<close>

record 's chunk_iter =
  ci_iter :: 's
  ci_ranges :: "(nat \<times> nat) list"
  ci_range_i :: nat

definition chunk_init :: "('s, 'i, 'm) iter_ops_scheme \<Rightarrow> 's \<Rightarrow> (nat \<times> nat) list \<Rightarrow> 's chunk_iter run" where
  "chunk_init I iter ranges =
     rbind (it_init I iter 0 0) (\<lambda>iter'. rret \<lparr>ci_iter = iter', ci_ranges = ranges, ci_range_i = 0\<rparr>)"

definition chunk_next :: "('s, 'i, 'm) iter_ops_scheme \<Rightarrow> 's chunk_iter \<Rightarrow> ('i option \<times> 's chunk_iter) run" where
  "chunk_next I s =
     rbind (it_next I (ci_iter s)) (\<lambda>(next, iter). case next of
       Some x \<Rightarrow> rret (Some x, s\<lparr>ci_iter := iter\<rparr>)
     | None \<Rightarrow>
         let ri = ci_range_i s; s' = s\<lparr>ci_iter := iter, ci_range_i := fetch_add_usize ri 1\<rparr> in
         if ri < length (ci_ranges s) then
           rbind (Some (usub (snd (ci_ranges s ! ri)) (fst (ci_ranges s ! ri)))) (\<lambda>cnt.
           rbind (it_init I iter (fst (ci_ranges s ! ri)) cnt) (\<lambda>iter'.
           rbind (it_next I iter') (\<lambda>(x, iter'').
           rret (x, s'\<lparr>ci_iter := iter''\<rparr>))))
         else rret (None, s'))"

text \<open>One worker alone, as an iterator.\<close>

definition chunk_ops :: "('s, 'i, 'm) iter_ops_scheme \<Rightarrow> ('s chunk_iter, 'i) iter_ops" where
  "chunk_ops I = \<lparr>it_init = (\<lambda>s start cnt. rret s), it_next = chunk_next I,
     it_elems = (\<lambda>s n. Ret n), it_advance_index = (\<lambda>s k. s)\<rparr>"

record ('s, 'i) chunk_state =
  ck_range_i :: nat
  ck_iters :: "'s option list"
  ck_out :: "'i list"

text \<open>A step is one call of \<open>next\<close>, which accesses the shared \<open>range_i\<close> at most once.\<close>

inductive chunk_step :: "('s, 'i, 'm) iter_ops_scheme \<Rightarrow> (nat \<times> nat) list \<Rightarrow> ('s, 'i) chunk_state
    \<Rightarrow> ('s, 'i) chunk_state \<Rightarrow> bool" for I ranges where
  chunk_call: "w < length (ck_iters s) \<Longrightarrow> ck_iters s ! w = Some iter \<Longrightarrow>
    chunk_next I \<lparr>ci_iter = iter, ci_ranges = ranges, ci_range_i = ck_range_i s\<rparr> = rret (x, c) \<Longrightarrow>
    chunk_step I ranges s
      \<lparr>ck_range_i = ci_range_i c, ck_iters = (ck_iters s)[w := if x = None then None else Some (ci_iter c)],
       ck_out = ck_out s @ emit x\<rparr>"

definition chunk_start :: "('s, 'i, 'm) iter_ops_scheme \<Rightarrow> 's \<Rightarrow> nat \<Rightarrow> (nat \<times> nat) list \<Rightarrow> ('s, 'i) chunk_state run" where
  "chunk_start I iter num_workers ranges =
     rbind (chunk_init I iter ranges) (\<lambda>c.
     rret \<lparr>ck_range_i = ci_range_i c,
           ck_iters = replicate (min num_workers (length ranges)) (Some (ci_iter c)), ck_out = []\<rparr>)"

subsection \<open>Work stealing\<close>

text \<open>An \<open>IterWorkStealer\<close> is the range under its lock.\<close>

type_synonym stealer = "nat \<times> nat"

definition stealer_set_range :: "stealer \<Rightarrow> nat \<Rightarrow> nat \<Rightarrow> stealer" where
  "stealer_set_range r start fin = (start, fin)"

definition stealer_next :: "stealer \<Rightarrow> nat option \<times> stealer" where
  "stealer_next r =
     (let index = fst r; r' = (fst r + 1, snd r)
      in (if fst r' \<le> snd r' then Some index else None, r'))"

definition stealer_steal :: "stealer \<Rightarrow> (nat \<times> nat) option \<times> stealer" where
  "stealer_steal r =
     (let start = fst r; fin = snd r in
      if fin > start \<and> fin - start > 2
      then (let new_end = (start + fin) div 2 in (Some (new_end, fin), (start, new_end)))
      else (None, r))"

text \<open>
  A step is one critical section of a stealer's lock.  A worker runs through its own range
  (the first \<open>inner_next\<close>); when that is exhausted it tries to steal from one sibling, itself
  included; a stolen range is held until it is stored as its own; then the second \<open>inner_next\<close>
  of the call runs, and if it finds no item the call returns \<open>None\<close> and the worker ends.
\<close>

datatype 's ws_worker = Running 's | Stealing 's | Holding 's nat nat | Retrying 's | Finished

record ('s, 'i) ws_state =
  ws_ranges :: "stealer list"
  ws_workers :: "'s ws_worker list"
  ws_out :: "'i list"

definition ws_start :: "'s \<Rightarrow> (nat \<times> nat) list \<Rightarrow> ('s, 'i) ws_state" where
  "ws_start iter ranges = \<lparr>ws_ranges = ranges, ws_workers = replicate (length ranges) (Running iter), ws_out = []\<rparr>"

definition visit :: "('s, 'i, 'm) iter_ops_scheme \<Rightarrow> 's \<Rightarrow> nat \<Rightarrow> ('i option \<times> 's) run" where
  "visit I iter k = rbind (it_init I iter k 1) (it_next I)"

inductive ws_step :: "('s, 'i, 'm) iter_ops_scheme \<Rightarrow> ('s, 'i) ws_state \<Rightarrow> ('s, 'i) ws_state \<Rightarrow> bool" for I where
  ws_visit: "w < length (ws_workers s) \<Longrightarrow> ws_workers s ! w = Running iter \<Longrightarrow>
    stealer_next (ws_ranges s ! w) = (Some k, r) \<Longrightarrow> visit I iter k = rret (x, iter') \<Longrightarrow>
    ws_step I s \<lparr>ws_ranges = (ws_ranges s)[w := r], ws_workers = (ws_workers s)[w := Running iter'],
                 ws_out = ws_out s @ emit x\<rparr>"
| ws_exhausted: "w < length (ws_workers s) \<Longrightarrow> ws_workers s ! w = Running iter \<Longrightarrow>
    stealer_next (ws_ranges s ! w) = (None, r) \<Longrightarrow>
    ws_step I s \<lparr>ws_ranges = (ws_ranges s)[w := r], ws_workers = (ws_workers s)[w := Stealing iter],
                 ws_out = ws_out s\<rparr>"
| ws_steal: "w < length (ws_workers s) \<Longrightarrow> ws_workers s ! w = Stealing iter \<Longrightarrow> j < length (ws_ranges s) \<Longrightarrow>
    stealer_steal (ws_ranges s ! j) = (Some (start, fin), r) \<Longrightarrow>
    it_init I iter start (fin - start) = rret iter' \<Longrightarrow>
    ws_step I s \<lparr>ws_ranges = (ws_ranges s)[j := r], ws_workers = (ws_workers s)[w := Holding iter' start fin],
                 ws_out = ws_out s\<rparr>"
| ws_no_steal: "w < length (ws_workers s) \<Longrightarrow> ws_workers s ! w = Stealing iter \<Longrightarrow> j < length (ws_ranges s) \<Longrightarrow>
    stealer_steal (ws_ranges s ! j) = (None, r) \<Longrightarrow>
    ws_step I s \<lparr>ws_ranges = (ws_ranges s)[j := r], ws_workers = (ws_workers s)[w := Finished],
                 ws_out = ws_out s\<rparr>"
| ws_set_range: "w < length (ws_workers s) \<Longrightarrow> ws_workers s ! w = Holding iter start fin \<Longrightarrow>
    ws_step I s \<lparr>ws_ranges = (ws_ranges s)[w := stealer_set_range (ws_ranges s ! w) start fin],
                 ws_workers = (ws_workers s)[w := Retrying iter], ws_out = ws_out s\<rparr>"
| ws_revisit: "w < length (ws_workers s) \<Longrightarrow> ws_workers s ! w = Retrying iter \<Longrightarrow>
    stealer_next (ws_ranges s ! w) = (Some k, r) \<Longrightarrow> visit I iter k = rret (x, iter') \<Longrightarrow>
    ws_step I s \<lparr>ws_ranges = (ws_ranges s)[w := r],
                 ws_workers = (ws_workers s)[w := if x = None then Retrying iter' else Running iter'],
                 ws_out = ws_out s @ emit x\<rparr>"
| ws_give_up: "w < length (ws_workers s) \<Longrightarrow> ws_workers s ! w = Retrying iter \<Longrightarrow>
    stealer_next (ws_ranges s ! w) = (None, r) \<Longrightarrow>
    ws_step I s \<lparr>ws_ranges = (ws_ranges s)[w := r], ws_workers = (ws_workers s)[w := Finished],
                 ws_out = ws_out s\<rparr>"

section \<open>Chains of ranges\<close>

text \<open>The ranges follow each other without gap or overlap from \<open>lo\<close> to at least \<open>hi\<close>.\<close>

fun chain :: "nat \<Rightarrow> (nat \<times> nat) list \<Rightarrow> nat \<Rightarrow> bool" where
  "chain lo [] hi \<longleftrightarrow> hi \<le> lo"
| "chain lo ((a, b) # rs) hi \<longleftrightarrow> a = lo \<and> a \<le> b \<and> chain b rs hi"

lemma chain_windows:
  "chain lo rs (length xs) \<Longrightarrow> concat (map (\<lambda>(a, b). take (b - a) (drop a xs)) rs) = drop lo xs"
proof (induction rs arbitrary: lo)
  case (Cons r rs)
  obtain a b where r: "r = (a, b)" by (cases r)
  have ab: "a = lo" "a \<le> b" "chain b rs (length xs)" using Cons.prems by (simp_all add: r)
  have "drop b xs = drop (b - a) (drop a xs)" using ab(2) by simp
  moreover have "concat (map (\<lambda>(a, b). take (b - a) (drop a xs)) rs) = drop b xs" by (rule Cons.IH [OF ab(3)])
  ultimately have "concat (map (\<lambda>(a, b). take (b - a) (drop a xs)) (r # rs))
      = take (b - a) (drop a xs) @ drop (b - a) (drop a xs)" by (simp only: r list.map concat.simps prod.case)
  then show ?case using ab(1) by (simp only: append_take_drop_id)
qed simp

lemma chain_indices:
  assumes "chain lo rs hi" "\<And>a b. (a, b) \<in> set rs \<Longrightarrow> b \<le> hi" "lo \<le> hi"
  shows "concat (map (\<lambda>(a, b). [a..<b]) rs) = [lo..<hi]"
  using assms
proof (induction rs arbitrary: lo)
  case (Cons r rs)
  obtain a b where r: "r = (a, b)" by (cases r)
  have ab: "a = lo" "a \<le> b" "chain b rs hi" using Cons.prems(1) by (simp_all add: r)
  have b: "b \<le> hi" using Cons.prems(2) [of a b] by (simp add: r)
  have "concat (map (\<lambda>(a, b). [a..<b]) rs) = [b..<hi]"
    using Cons.IH [OF ab(3) _ b] Cons.prems(2) by (meson list.set_intros(2))
  moreover have "[lo..<hi] = [a..<b] @ [b..<hi]"
    using upt_add_eq_append [of a b "hi - b"] ab b by simp
  ultimately show ?case by (simp add: r)
qed simp

lemma chain_span:
  assumes "chain lo rs hi" "\<forall>(a, b)\<in>set rs. b \<le> hi" "lo \<le> hi"
  shows "sum_list (map (\<lambda>r. snd r - fst r) rs) = hi - lo"
proof -
  have "concat (map (\<lambda>(a, b). [a..<b]) rs) = [lo..<hi]"
    by (rule chain_indices [OF assms(1) _ assms(3)]) (use assms(2) in auto)
  from arg_cong [OF this, of length] show ?thesis
    by (simp add: length_concat case_prod_beta comp_def)
qed

subsection \<open>Static ranges\<close>

lemma static_loop_chain:
  assumes "thread_bound e P = n" "\<And>q. q < P \<Longrightarrow> thread_bound e q \<le> thread_bound e (q + 1)" "w \<le> P"
  shows "\<exists>rs. static_loop n e w = Some rs \<and> chain (thread_bound e w) rs n \<and> (\<forall>(a, b)\<in>set rs. b \<le> n)
    \<and> length rs \<le> P - w"
  using assms(3)
proof (induction "P - w" arbitrary: w)
  case 0
  then have "w = P" by simp
  then show ?case using assms(1) by (simp add: static_loop.simps [of n e P])
next
  case (Suc d)
  then have w: "w < P" and d: "d = P - (w + 1)" by simp_all
  show ?case
  proof (cases "thread_bound e w < n")
    case True
    obtain rs where rs: "static_loop n e (w + 1) = Some rs" "chain (thread_bound e (w + 1)) rs n"
      "\<forall>(a, b)\<in>set rs. b \<le> n" "length rs \<le> P - (w + 1)"
      using Suc.hyps(1) [OF d] w by auto
    have mono: "thread_bound e p \<le> thread_bound e q" if "p \<le> q" "q \<le> P" for p q
      using that
    proof (induction q)
      case (Suc q)
      then show ?case using assms(2) [of q] by (cases "p = Suc q") auto
    qed simp
    have "thread_bound e (w + 1) \<le> n" using mono [of "w + 1" P] w assms(1) by simp
    with rs True w assms(2) [OF w] show ?thesis by (simp add: static_loop.simps [of n e w])
  next
    case False
    then show ?thesis by (simp add: static_loop.simps [of n e w])
  qed
qed

lemma thread_bound_block: "thread_bound e w = block_bound e w"
  by (simp add: thread_bound_def block_bound_def f64_mul_def mult.commute)

lemma thread_bound_one: "w \<le> 2 ^ 53 \<Longrightarrow> thread_bound 1 w = w"
  by (simp add: thread_bound_def f64_of_usize_exact f64_mul_def f64.rnd_nat)

text \<open>With fewer elements than workers every worker gets at most one element.\<close>

lemma elems_per_thread_few:
  assumes "n < w" "w \<le> 2 ^ 46"
  shows "elems_per_thread n w = 1"
proof -
  let ?q = "of_nat n / of_nat w :: rat"
  have w: "0 < (of_nat w :: rat)" "(of_nat w :: rat) \<le> two53"
    using assms of_nat_mono [of w "2 ^ 46", where 'a = rat] by auto
  have conv: "f64_of_usize n = of_nat n" "f64_of_usize w = of_nat w"
    using assms by (simp_all add: f64_of_usize_exact)
  have "?q * of_nat w = of_nat n" using w(1) by simp
  moreover have "of_nat n + 1 \<le> (of_nat w :: rat)"
    using assms(1) of_nat_mono [of "n + 1" w, where 'a = rat] by simp
  ultimately have "(?q + ?q / two53) * of_nat w \<le> 1 * of_nat w"
    using w(2) by (simp only: distrib_right times_divide_eq_left)
  then have le: "?q + ?q / two53 \<le> 1" using w(1) by (simp only: mult_le_cancel_right_pos)
  have "\<bar>f64_round ?q - ?q\<bar> \<le> ?q / two53" by (rule f64.rnd_error) simp
  then have "f64_round ?q - ?q \<le> ?q / two53" by (rule abs_le_D1)
  then have "f64_round ?q \<le> ?q / two53 + ?q" by (simp only: diff_le_eq)
  also have "\<dots> \<le> 1" using le by (simp only: add.commute)
  finally have "f64_div (f64_of_usize n) (f64_of_usize w) \<le> 1" unfolding conv f64_div_def .
  then show ?thesis by (simp add: elems_per_thread_def)
qed

lemma sched_static_chain:
  assumes "0 < w" "w \<le> 2 ^ 46" "n \<le> 2 ^ 46"
  shows "\<exists>rs. sched_static n w = Some rs \<and> chain 0 rs n \<and> (\<forall>(a, b)\<in>set rs. b \<le> n)"
proof -
  have one: "\<exists>rs. static_loop n 1 0 = Some rs \<and> chain 0 rs n \<and> (\<forall>(a, b)\<in>set rs. b \<le> n)"
  proof -
    have "thread_bound 1 n = n" "thread_bound 1 0 = 0" "\<And>q. q < n \<Longrightarrow> thread_bound 1 q \<le> thread_bound 1 (q + 1)"
      using thread_bound_one assms(3) by simp_all
    with static_loop_chain [of 1 n n 0] show ?thesis by auto
  qed
  show ?thesis
  proof (cases "elems_per_thread n w = 1")
    case True
    then show ?thesis using one by (simp add: sched_static_def)
  next
    case False
    then have "w \<le> n" using elems_per_thread_few assms(2) by (meson not_le)
    with assms have ok: "layout_ok n w" by (simp add: layout_ok_def)
    have e: "elems_per_thread n w = elems_per_pe n w"
      using False by (auto simp: elems_per_thread_def elems_per_pe_def max_def split: if_splits)
    have "\<exists>rs. static_loop n (elems_per_pe n w) 0 = Some rs \<and> chain (thread_bound (elems_per_pe n w) 0) rs n
        \<and> (\<forall>(a, b)\<in>set rs. b \<le> n) \<and> length rs \<le> w - 0"
      by (rule static_loop_chain [where P = w])
         (use blocks.B_last [OF ok] blocks.B_step [OF ok] in \<open>simp_all add: thread_bound_block\<close>)
    then show ?thesis unfolding sched_static_def e thread_bound_block by auto
  qed
qed

subsection \<open>Chunk ranges\<close>

lemma chunk_loop_chain:
  assumes "0 < k"
  shows "\<exists>rs. chunk_loop n k c = Some rs \<and> chain c rs n \<and> length rs \<le> n - c \<and> (\<forall>r\<in>set rs. fst r < snd r)"
proof (induction "n - c" arbitrary: c rule: less_induct)
  case less
  show ?case
  proof (cases "c < n")
    case True
    have "n - (c + k) < n - c" using True assms by simp
    from less [OF this] obtain rs where "chunk_loop n k (c + k) = Some rs" "chain (c + k) rs n"
      "length rs \<le> n - (c + k)" "\<forall>r\<in>set rs. fst r < snd r" by auto
    with True assms show ?thesis by (auto simp: chunk_loop.simps [of n k c])
  next
    case False
    then show ?thesis by (simp add: chunk_loop.simps [of n k c])
  qed
qed

text \<open>With chunks of size 0 the loop does not advance.\<close>

lemma chunk_loop_zero:
  assumes "c < n"
  shows "chunk_loop n 0 c = None"
proof (cases "chunk_loop n 0 c")
  case (Some rs)
  have "chunk_loop n 0 c = Option.bind (chunk_loop n 0 c) (\<lambda>rs. Some ((c, c) # rs))"
    by (subst chunk_loop.simps) (simp only: assms if_True add_0_right)
  with Some have "rs = (c, c) # rs" by (simp only: Option.bind.bind_lunit option.inject)
  then show ?thesis by simp
qed

lemma sched_chunk_loop: "sched_chunk n k = Some rs \<Longrightarrow> chain 0 rs n \<and> length rs \<le> n"
proof (cases "k = 0")
  case True
  then show "sched_chunk n k = Some rs \<Longrightarrow> ?thesis"
    using chunk_loop_zero [of 0 n] chunk_loop.simps [of 0 0 0] by (cases "0 < n") (auto simp: sched_chunk_def)
next
  case False
  then show "sched_chunk n k = Some rs \<Longrightarrow> ?thesis"
    using chunk_loop_chain [of k n 0] by (auto simp: sched_chunk_def)
qed

section \<open>Updates in lists\<close>

text \<open>The workers that have ended.\<close>

definition dead :: "'a option list \<Rightarrow> nat" where
  "dead xs = length (filter (\<lambda>x. x = None) xs)"

lemma dead_simps [simp]: "dead [] = 0" "dead (x # xs) = (if x = None then 1 else 0) + dead xs"
  by (simp_all add: dead_def)

lemma dead_le: "dead xs \<le> length xs"
  by (simp add: dead_def)

lemma dead_update:
  "i < length xs \<Longrightarrow> xs ! i = Some v \<Longrightarrow> dead (xs[i := x]) = dead xs + (if x = None then 1 else 0)"
proof (induction xs arbitrary: i)
  case (Cons y ys)
  then show ?case by (cases i) auto
qed simp

lemma dead_less: "i < length xs \<Longrightarrow> xs ! i = Some v \<Longrightarrow> dead xs < length xs"
  using dead_update [of i xs v None] dead_le [of "xs[i := None]"] by simp

lemma concat_update_mset:
  "i < length xs \<Longrightarrow>
    mset (concat (map f (xs[i := x]))) + mset (f (xs ! i)) = mset (concat (map f xs)) + mset (f x)"
proof (induction xs arbitrary: i)
  case (Cons y ys)
  show ?case
  proof (cases i)
    case 0
    then show ?thesis by simp
  next
    case (Suc j)
    then show ?thesis using Cons.IH [of j] Cons.prems by (simp add: add.assoc)
  qed
qed simp

lemma chunk_mset_shift:
  "i + w = y + (c + w') \<Longrightarrow> p' + i = p + c \<Longrightarrow> e + p + w = (z :: 'x multiset) \<Longrightarrow> e + y + p' + w' = z"
  for i w y c w' p' p e z :: "'x multiset"
proof -
  assume a: "i + w = y + (c + w')" and b: "p' + i = p + c" and c: "e + p + w = z"
  have "(e + y + p' + w') + (i + c) = e + (p' + i) + (y + (c + w'))" by (simp only: ac_simps)
  also have "\<dots> = e + (p + c) + (i + w)" by (simp only: a b)
  also have "\<dots> = z + (i + c)" by (simp only: c [symmetric] ac_simps)
  finally show "e + y + p' + w' = z" by (simp only: add_right_cancel)
qed

lemma ws_mset_shift:
  "y + r' + h' = r + h \<Longrightarrow> R' + r = R + r' \<Longrightarrow> H' + h = H + h' \<Longrightarrow> e + R + H = z \<Longrightarrow> e + y + R' + H' = z"
  for y r' h' r h R' R H' H e z :: "'x multiset"
proof -
  assume a: "y + r' + h' = r + h" and b: "R' + r = R + r'" and c: "H' + h = H + h'" and d: "e + R + H = z"
  have "(e + y + R' + H') + (r + h + (r' + h')) = e + (R' + r) + (H' + h) + (y + r' + h')" by (simp only: ac_simps)
  also have "\<dots> = e + (R + r') + (H + h') + (r + h)" by (simp only: a b c)
  also have "\<dots> = z + (r + h + (r' + h'))" by (simp only: d [symmetric] ac_simps)
  finally show "e + y + R' + H' = z" by (simp only: add_right_cancel)
qed

lemma mset_part_length:
  assumes "mset a + b + c = mset d"
  shows "length a \<le> length d"
  using size_mset_mono [of "mset a" "mset d"] assms by (metis add.assoc mset_subset_eq_add_left size_mset)

lemma in_set_update: "y \<in> set (xs[i := x]) \<Longrightarrow> y = x \<or> y \<in> set xs"
  using set_update_subset_insert [of xs i x] by auto

section \<open>Iterators over independent positions\<close>

text \<open>
  Every position of the local part contributes at most one item, and \<open>init\<close> selects the
  positions of a range whatever the iterator did before.
\<close>

locale iter_pieces = iter_seq +
  fixes piece :: "nat \<Rightarrow> 'b list"
  assumes piece_le: "length (piece k) \<le> 1"
    and init_pieces: "inv s \<Longrightarrow>
      \<exists>s'. it_init I s start cnt = rret s' \<and> inv s' \<and> items s' = concat (map piece [start..<start + cnt])"
begin

lemma emit_head: "emit (head (piece k)) = piece k"
  using piece_le [of k] by (cases "piece k") simp_all

lemma init_next:
  assumes "inv s"
  shows "\<exists>s' s''. it_init I s k 1 = rret s' \<and> it_next I s' = rret (head (piece k), s'') \<and> inv s''"
proof -
  obtain s' where s': "it_init I s k 1 = rret s'" "inv s'" "items s' = piece k"
    using init_pieces [OF assms, of k 1] by auto
  then show ?thesis using next_items [OF s'(2)] by auto
qed

lemma visit_eq: "inv s \<Longrightarrow> \<exists>s'. visit I s k = rret (head (piece k), s') \<and> inv s'"
  using init_next [of s k] by (auto simp: visit_def)

lemma run_range_pieces: "inv s \<Longrightarrow> run_range I s start cnt = rret (concat (map piece [start..<start + cnt]))"
  using init_pieces [of s start cnt] drain_items by (auto simp: run_range_def)

text \<open>The ranges of the static schedule, run one after the other or at once.\<close>

lemma static_pieces:
  assumes "inv s" "chain lo rs hi" "\<And>a b. (a, b) \<in> set rs \<Longrightarrow> b \<le> hi" "lo \<le> hi"
  shows "\<exists>parts. map (\<lambda>(a, b). run_range I s a (b - a)) rs = map rret parts
     \<and> concat parts = concat (map piece [lo..<hi])"
proof (intro exI conjI)
  let ?parts = "map (\<lambda>(a, b). concat (map piece [a..<b])) rs"
  have "a \<le> b" if "(a, b) \<in> set rs" for a b
    using assms(2) that by (induction rs arbitrary: lo) auto
  then show "map (\<lambda>(a, b). run_range I s a (b - a)) rs = map rret ?parts"
    using run_range_pieces [OF assms(1)] by auto
  have "concat ?parts = concat (map piece (concat (map (\<lambda>(a, b). [a..<b]) rs)))"
    by (induction rs) auto
  then show "concat ?parts = concat (map piece [lo..<hi])"
    using chain_indices [OF assms(2-4)] by simp
qed

subsection \<open>Dynamic schedule\<close>

definition dynamic_inv :: "nat \<Rightarrow> nat \<Rightarrow> ('a, 'b) dynamic_state \<Rightarrow> bool" where
  "dynamic_inv max_i workers s \<longleftrightarrow>
     (\<forall>it. Some it \<in> set (dy_iters s) \<longrightarrow> inv it) \<and> length (dy_iters s) = workers
     \<and> dy_cur_i s \<le> max_i + dead (dy_iters s)
     \<and> (None \<in> set (dy_iters s) \<longrightarrow> max_i \<le> dy_cur_i s)
     \<and> dy_out s = concat (map piece [0..<min max_i (dy_cur_i s)])"

definition dynamic_meas :: "nat \<Rightarrow> ('a, 'b) dynamic_state \<Rightarrow> nat" where
  "dynamic_meas max_i s = (max_i - dy_cur_i s) + (length (dy_iters s) - dead (dy_iters s))"

lemma dynamic_step_ok:
  assumes "dynamic_inv max_i workers s" "dynamic_step I max_i s t" "max_i + workers < usize_mod"
  shows "dynamic_inv max_i workers t \<and> dynamic_meas max_i t < dynamic_meas max_i s"
  using assms(2)
proof cases
  case (dynamic_claim w it it' elem it'')
  have it: "inv it" using assms(1) dynamic_claim(2,3) by (auto simp: dynamic_inv_def in_set_conv_nth)
  from init_next [OF this, of "dy_cur_i s"] dynamic_claim(5,6)
  have it'': "elem = head (piece (dy_cur_i s))" "inv it''" by auto
  have alive: "None \<notin> set (dy_iters s)" using assms(1) dynamic_claim(4) by (auto simp: dynamic_inv_def)
  have cur: "fetch_add_usize (dy_cur_i s) 1 = dy_cur_i s + 1" using dynamic_claim(4) assms(3) by simp
  have upd: "None \<notin> set ((dy_iters s)[w := Some it''])"
    using alive in_set_update [of None "dy_iters s" w "Some it''"] by blast
  have none: "dead ((dy_iters s)[w := Some it'']) = dead (dy_iters s)"
    using dead_update [OF dynamic_claim(2,3)] by simp
  have iters: "inv i" if "Some i \<in> set ((dy_iters s)[w := Some it''])" for i
    using in_set_update [OF that] it''(2) assms(1) by (auto simp: dynamic_inv_def)
  have "min max_i (dy_cur_i s + 1) = Suc (dy_cur_i s)" "min max_i (dy_cur_i s) = dy_cur_i s"
    using dynamic_claim(4) by simp_all
  then have out: "dy_out s @ emit elem = concat (map piece [0..<min max_i (dy_cur_i s + 1)])"
    using assms(1) by (simp add: dynamic_inv_def it''(1) emit_head)
  have inv_t: "dynamic_inv max_i workers t"
    using assms(1) upd iters dynamic_claim(4) unfolding dynamic_claim(1) dynamic_inv_def
    by (simp only: dynamic_state.simps cur none out length_list_update) (simp add: it''(1) emit_head)
  have "dynamic_meas max_i t < dynamic_meas max_i s"
    using dynamic_claim(4) unfolding dynamic_claim(1) dynamic_meas_def by (simp only: dynamic_state.simps cur none length_list_update)
  with inv_t show ?thesis ..
next
  case (dynamic_end w it)
  have n: "dead ((dy_iters s)[w := None]) = dead (dy_iters s) + 1" "dead (dy_iters s) < length (dy_iters s)"
    using dead_update [OF dynamic_end(2,3)] dead_less [OF dynamic_end(2,3)] by simp_all
  then have "dy_cur_i s + 1 < usize_mod" using assms(1,3) by (simp add: dynamic_inv_def)
  then have cur: "fetch_add_usize (dy_cur_i s) 1 = dy_cur_i s + 1" by simp
  show ?thesis
    using assms(1) dynamic_end(4) n unfolding dynamic_end(1) dynamic_inv_def dynamic_meas_def
    by (auto simp: cur [unfolded One_nat_def] dest: in_set_update)
qed

lemma dynamic_progress:
  assumes "dynamic_inv max_i workers s" "Some it \<in> set (dy_iters s)"
  shows "\<exists>t. dynamic_step I max_i s t"
proof -
  obtain w where w: "w < length (dy_iters s)" "dy_iters s ! w = Some it" using assms(2) by (auto simp: in_set_conv_nth)
  have "inv it" using assms by (simp add: dynamic_inv_def)
  from init_next [OF this] dynamic_step.intros [OF w, of max_i] show ?thesis by (metis (full_types))
qed

lemma dynamic_system:
  "max_i + workers < usize_mod \<Longrightarrow>
    terminating_system (dynamic_step I max_i) (dynamic_inv max_i workers) (dynamic_meas max_i)
      (\<lambda>s. \<forall>x \<in> set (dy_iters s). x = None)"
  by unfold_locales (use dynamic_step_ok dynamic_progress in \<open>blast, blast, metis not_Some_eq\<close>)

lemma dynamic_start: "inv it \<Longrightarrow> dynamic_inv n (min workers n) (sched_dynamic n workers it)"
  by (auto simp: dynamic_inv_def sched_dynamic_def)

lemma dynamic_final:
  assumes "dynamic_inv n (min workers n) s" "\<forall>x \<in> set (dy_iters s). x = None" "0 < workers"
  shows "dy_out s = concat (map piece [0..<n])"
proof (cases "dy_iters s")
  case Nil
  then have "n = 0" using assms(1,3) by (auto simp: dynamic_inv_def min_def split: if_splits)
  then show ?thesis using assms(1) by (simp add: dynamic_inv_def)
next
  case (Cons x xs)
  then have "None \<in> set (dy_iters s)" using assms(2) by auto
  then show ?thesis using assms(1) by (simp add: dynamic_inv_def min_def split: if_splits)
qed

subsection \<open>Chunked schedule\<close>

definition window :: "nat \<times> nat \<Rightarrow> 'b list" where
  "window r = concat (map piece [fst r..<snd r])"

definition pending :: "'a option \<Rightarrow> 'b list" where
  "pending x = (case x of None \<Rightarrow> [] | Some it \<Rightarrow> items it)"

lemma pending_simps [simp]: "pending None = []" "pending (Some it) = items it"
  by (simp_all add: pending_def)

definition chunk_inv :: "(nat \<times> nat) list \<Rightarrow> nat \<Rightarrow> ('a, 'b) chunk_state \<Rightarrow> bool" where
  "chunk_inv ranges workers s \<longleftrightarrow>
     (\<forall>it. Some it \<in> set (ck_iters s) \<longrightarrow> inv it) \<and> length (ck_iters s) = workers
     \<and> ck_range_i s \<le> length ranges + dead (ck_iters s)
     \<and> (None \<in> set (ck_iters s) \<longrightarrow> length ranges \<le> ck_range_i s)
     \<and> mset (ck_out s) + mset (concat (map pending (ck_iters s)))
         + mset (concat (map window (drop (ck_range_i s) ranges))) = mset (concat (map window ranges))"

definition chunk_meas :: "(nat \<times> nat) list \<Rightarrow> ('a, 'b) chunk_state \<Rightarrow> nat" where
  "chunk_meas ranges s = (length (concat (map window ranges)) - length (ck_out s))
     + (length (ck_iters s) - dead (ck_iters s))"

lemma chunk_next_more:
  assumes "inv it" "items it = x # xs"
  shows "\<exists>it'. chunk_next I \<lparr>ci_iter = it, ci_ranges = ranges, ci_range_i = ri\<rparr>
      = rret (Some x, \<lparr>ci_iter = it', ci_ranges = ranges, ci_range_i = ri\<rparr>) \<and> inv it' \<and> items it' = xs"
  using next_Cons [OF assms] by (auto simp: chunk_next_def)

lemma chunk_next_range:
  assumes "inv it" "items it = []" "ri < length ranges" "fst (ranges ! ri) \<le> snd (ranges ! ri)"
  shows "\<exists>it'. chunk_next I \<lparr>ci_iter = it, ci_ranges = ranges, ci_range_i = ri\<rparr>
      = rret (head (window (ranges ! ri)), \<lparr>ci_iter = it', ci_ranges = ranges, ci_range_i = fetch_add_usize ri 1\<rparr>)
      \<and> inv it' \<and> items it' = tl (window (ranges ! ri))"
proof -
  obtain it1 where it1: "it_next I it = rret (None, it1)" "inv it1" using next_Nil [OF assms(1,2)] by blast
  obtain it2 where it2: "it_init I it1 (fst (ranges ! ri)) (snd (ranges ! ri) - fst (ranges ! ri)) = rret it2"
    "inv it2" "items it2 = window (ranges ! ri)"
    using init_pieces [OF it1(2), of "fst (ranges ! ri)" "snd (ranges ! ri) - fst (ranges ! ri)"] assms(4)
    by (auto simp: window_def)
  obtain it3 where "it_next I it2 = rret (head (window (ranges ! ri)), it3)" "inv it3" "items it3 = tl (window (ranges ! ri))"
    using next_items [OF it2(2)] it2(3) by auto
  then show ?thesis using it1 it2 assms(3,4) by (simp add: chunk_next_def Let_def)
qed

lemma chunk_next_end:
  assumes "inv it" "items it = []" "\<not> ri < length ranges"
  shows "\<exists>it'. chunk_next I \<lparr>ci_iter = it, ci_ranges = ranges, ci_range_i = ri\<rparr>
      = rret (None, \<lparr>ci_iter = it', ci_ranges = ranges, ci_range_i = fetch_add_usize ri 1\<rparr>)"
  using next_Nil [OF assms(1,2)] assms(3) by (auto simp: chunk_next_def Let_def)

text \<open>
  A call that emits an item takes it from the worker's pending items or from the next range;
  a call that emits none ends the worker after the last range.
\<close>

lemma chunk_call_cases:
  assumes "inv it" "\<forall>r \<in> set ranges. fst r \<le> snd r \<and> window r \<noteq> []" "ri + 1 < usize_mod"
    and call: "chunk_next I \<lparr>ci_iter = it, ci_ranges = ranges, ci_range_i = ri\<rparr> = rret (x, c)"
  shows "(\<exists>y. x = Some y \<and> inv (ci_iter c)
        \<and> items it @ concat (map window (drop ri ranges))
          = y # items (ci_iter c) @ concat (map window (drop (ci_range_i c) ranges))
        \<and> (ci_range_i c = ri \<or> ci_range_i c = ri + 1 \<and> ri < length ranges))
    \<or> (x = None \<and> items it = [] \<and> length ranges \<le> ri \<and> ci_range_i c = ri + 1)"
proof (cases "items it")
  case (Cons y ys)
  then show ?thesis using chunk_next_more [OF assms(1) Cons, of ranges ri] call by auto
next
  case Nil
  show ?thesis
  proof (cases "ri < length ranges")
    case True
    then have r: "fst (ranges ! ri) \<le> snd (ranges ! ri)" "window (ranges ! ri) \<noteq> []" using assms(2) by auto
    obtain y ys where y: "window (ranges ! ri) = y # ys" using r(2) by (cases "window (ranges ! ri)") auto
    have "drop ri ranges = ranges ! ri # drop (ri + 1) ranges" using True by (simp add: Cons_nth_drop_Suc)
    then show ?thesis using chunk_next_range [OF assms(1) Nil True r(1)] call Nil y True assms(3) by auto
  next
    case False
    then show ?thesis using chunk_next_end [OF assms(1) Nil False] call Nil assms(3) by auto
  qed
qed

lemma chunk_step_ok:
  assumes "chunk_inv ranges workers s" "chunk_step I ranges s t"
    and ranges: "\<forall>r \<in> set ranges. fst r \<le> snd r \<and> window r \<noteq> []" "length ranges + workers < usize_mod"
  shows "chunk_inv ranges workers t \<and> chunk_meas ranges t < chunk_meas ranges s"
  using assms(2)
proof cases
  case (chunk_call w it x c)
  let ?upd = "(ck_iters s)[w := if x = None then None else Some (ci_iter c)]"
  have it: "inv it" using assms(1) chunk_call(2,3) by (auto simp: chunk_inv_def in_set_conv_nth)
  have none: "dead ?upd = dead (ck_iters s) + (if x = None then 1 else 0)" "dead (ck_iters s) < length (ck_iters s)"
    using dead_update [OF chunk_call(2,3)] dead_less [OF chunk_call(2,3)] by simp_all
  then have ri: "ck_range_i s + 1 < usize_mod" using assms(1) ranges(2) by (simp add: chunk_inv_def)
  have pend: "mset (concat (map pending ?upd)) + mset (items it)
      = mset (concat (map pending (ck_iters s))) + mset (pending (if x = None then None else Some (ci_iter c)))"
    using concat_update_mset [OF chunk_call(2), of pending] chunk_call(3) by (metis pending_simps(2))
  have total: "mset (ck_out s) + mset (concat (map pending (ck_iters s)))
      + mset (concat (map window (drop (ck_range_i s) ranges))) = mset (concat (map window ranges))"
    using assms(1) by (simp add: chunk_inv_def)
  from chunk_call_cases [OF it ranges(1) ri chunk_call(4)] show ?thesis
  proof
    assume "\<exists>y. x = Some y \<and> inv (ci_iter c)
        \<and> items it @ concat (map window (drop (ck_range_i s) ranges))
          = y # items (ci_iter c) @ concat (map window (drop (ci_range_i c) ranges))
        \<and> (ci_range_i c = ck_range_i s \<or> ci_range_i c = ck_range_i s + 1 \<and> ck_range_i s < length ranges)"
    then obtain y where y: "x = Some y" "inv (ci_iter c)" and
      eq: "items it @ concat (map window (drop (ck_range_i s) ranges))
          = y # items (ci_iter c) @ concat (map window (drop (ci_range_i c) ranges))"
      and rc: "ci_range_i c = ck_range_i s \<or> ci_range_i c = ck_range_i s + 1 \<and> ck_range_i s < length ranges" by blast
    have left: "mset (items it) + mset (concat (map window (drop (ck_range_i s) ranges)))
       = {#y#} + (mset (items (ci_iter c)) + mset (concat (map window (drop (ci_range_i c) ranges))))"
      using arg_cong [OF eq, of mset] by simp
    have pend': "mset (concat (map pending ?upd)) + mset (items it)
       = mset (concat (map pending (ck_iters s))) + mset (items (ci_iter c))" using pend y(1) by simp
    have total': "mset (ck_out s @ [y]) + mset (concat (map pending ?upd))
      + mset (concat (map window (drop (ci_range_i c) ranges))) = mset (concat (map window ranges))"
      using chunk_mset_shift [OF left pend' total] by simp
    then have "length (ck_out s @ [y]) \<le> length (concat (map window ranges))"
      by (rule mset_part_length)
    then have "chunk_meas ranges t < chunk_meas ranges s"
      using none y(1) unfolding chunk_call(1) chunk_meas_def by simp
    moreover have "chunk_inv ranges workers t"
      using assms(1) none(1) y rc total' unfolding chunk_call(1) chunk_inv_def
      by (auto dest: in_set_update)
    ultimately show ?thesis by blast
  next
    assume e: "x = None \<and> items it = [] \<and> length ranges \<le> ck_range_i s \<and> ci_range_i c = ck_range_i s + 1"
    have "chunk_meas ranges t < chunk_meas ranges s"
      using none e unfolding chunk_call(1) chunk_meas_def by simp
    moreover have "chunk_inv ranges workers t"
      using assms(1) none(1) e pend unfolding chunk_call(1) chunk_inv_def
      by (auto dest: in_set_update)
    ultimately show ?thesis by blast
  qed
qed

lemma chunk_progress:
  assumes "chunk_inv ranges workers s" "Some it \<in> set (ck_iters s)" "\<forall>r \<in> set ranges. fst r \<le> snd r \<and> window r \<noteq> []"
  shows "\<exists>t. chunk_step I ranges s t"
proof -
  obtain w where w: "w < length (ck_iters s)" "ck_iters s ! w = Some it" using assms(2) by (auto simp: in_set_conv_nth)
  have it: "inv it" using assms by (simp add: chunk_inv_def)
  have "\<exists>x c. chunk_next I \<lparr>ci_iter = it, ci_ranges = ranges, ci_range_i = ck_range_i s\<rparr> = rret (x, c)"
  proof (cases "items it")
    case Nil
    then show ?thesis
      using chunk_next_range [OF it Nil] chunk_next_end [OF it Nil] assms(3)
      by (metis nth_mem)
  next
    case (Cons x xs)
    then show ?thesis using chunk_next_more [OF it Cons] by blast
  qed
  then show ?thesis using chunk_step.intros [OF w] by blast
qed

lemma chunk_system:
  "length ranges + workers < usize_mod \<Longrightarrow> \<forall>r \<in> set ranges. fst r \<le> snd r \<and> window r \<noteq> [] \<Longrightarrow>
    terminating_system (chunk_step I ranges) (chunk_inv ranges workers) (chunk_meas ranges)
      (\<lambda>s. \<forall>x \<in> set (ck_iters s). x = None)"
  by unfold_locales (use chunk_step_ok chunk_progress in \<open>blast, blast, metis not_Some_eq\<close>)

lemma chunk_start_inv:
  assumes "inv it"
  shows "\<exists>s. chunk_start I it workers ranges = rret s \<and> chunk_inv ranges (min workers (length ranges)) s
    \<and> chunk_meas ranges s = length (concat (map window ranges)) + min workers (length ranges)"
proof -
  obtain it' where it': "it_init I it 0 0 = rret it'" "inv it'" "items it' = []"
    using init_pieces [OF assms, of 0 0] by auto
  have "dead (replicate n (Some it')) = 0" for n by (induction n) simp_all
  moreover have "concat (replicate n ([] :: 'b list)) = []" for n by (induction n) simp_all
  ultimately show ?thesis using it'
    by (auto simp: chunk_start_def chunk_init_def chunk_inv_def chunk_meas_def map_replicate)
qed

lemma chunk_final:
  assumes "chunk_inv ranges (min workers (length ranges)) s" "\<forall>x \<in> set (ck_iters s). x = None" "0 < workers"
  shows "mset (ck_out s) = mset (concat (map window ranges))"
proof -
  have "concat (map pending (ck_iters s)) = []" using assms(2) by auto
  moreover have "length ranges \<le> ck_range_i s"
    using assms by (cases "ck_iters s") (auto simp: chunk_inv_def min_def split: if_splits)
  ultimately show ?thesis using assms(1) by (simp only: chunk_inv_def mset.simps drop_all list.map concat.simps add_0_right)
qed

subsection \<open>Work stealing\<close>

text \<open>
  A worker that does not run has an empty range.  The indices still to be visited are in the
  ranges and in the stolen ranges that are held.
\<close>

definition span :: "nat \<times> nat \<Rightarrow> nat" where
  "span r = snd r - fst r"

fun ok_worker :: "'a ws_worker \<Rightarrow> stealer \<Rightarrow> bool" where
  "ok_worker (Running it) r \<longleftrightarrow> inv it"
| "ok_worker (Stealing it) r \<longleftrightarrow> inv it \<and> span r = 0"
| "ok_worker (Holding it a b) r \<longleftrightarrow> inv it \<and> span r = 0"
| "ok_worker (Retrying it) r \<longleftrightarrow> inv it"
| "ok_worker Finished r \<longleftrightarrow> span r = 0"

fun held :: "'a ws_worker \<Rightarrow> nat \<times> nat" where
  "held (Holding it a b) = (a, b)"
| "held _ = (0, 0)"

fun weight :: "'a ws_worker \<Rightarrow> nat" where
  "weight (Running it) = 4"
| "weight (Stealing it) = 3"
| "weight (Holding it a b) = 2"
| "weight (Retrying it) = 1"
| "weight Finished = 0"

definition ws_inv :: "(nat \<times> nat) list \<Rightarrow> ('a, 'b) ws_state \<Rightarrow> bool" where
  "ws_inv ranges s \<longleftrightarrow> length (ws_workers s) = length ranges \<and> length (ws_ranges s) = length ranges
     \<and> (\<forall>w < length ranges. ok_worker (ws_workers s ! w) (ws_ranges s ! w))
     \<and> mset (ws_out s) + mset (concat (map window (ws_ranges s)))
         + mset (concat (map (\<lambda>x. window (held x)) (ws_workers s))) = mset (concat (map window ranges))"

definition ws_meas :: "('a, 'b) ws_state \<Rightarrow> nat" where
  "ws_meas s = sum_list (map (\<lambda>r. 4 * span r) (ws_ranges s))
     + sum_list (map (\<lambda>x. 4 * span (held x) + weight x) (ws_workers s))"

lemma window_empty: "span r = 0 \<Longrightarrow> window r = []"
  by (simp add: span_def window_def)

lemma window_split: "a \<le> m \<Longrightarrow> m \<le> b \<Longrightarrow> window (a, b) = window (a, m) @ window (m, b)"
  using upt_add_eq_append [of a m "b - m"] by (simp add: window_def)

lemma next_window:
  "stealer_next r = (Some k, r') \<Longrightarrow> window r = piece k @ window r' \<and> span r = span r' + 1"
  by (auto simp: stealer_next_def window_def span_def Let_def upt_conv_Cons split: if_splits)

lemma next_none: "stealer_next r = (None, r') \<Longrightarrow> span r = 0 \<and> span r' = 0"
  by (auto simp: stealer_next_def span_def Let_def split: if_splits)

lemma steal_window:
  assumes "stealer_steal r = (Some (a, b), r')"
  shows "window r = window r' @ window (a, b)" "span r = span r' + span (a, b)" "0 < span r"
proof -
  have *: "fst r < snd r" "a = (fst r + snd r) div 2" "b = snd r" "r' = (fst r, a)"
    using assms by (auto simp: stealer_steal_def Let_def split: if_splits)
  then have "fst r \<le> a" "a \<le> snd r" by simp_all
  with * show "window r = window r' @ window (a, b)" "span r = span r' + span (a, b)" "0 < span r"
    using window_split [of "fst r" a "snd r"] by (simp_all add: span_def)
qed

lemma ok_worker_steal: "ok_worker x r \<Longrightarrow> 0 < span r \<Longrightarrow> ok_worker x r'"
  by (cases x) simp_all

lemma steal_none: "stealer_steal r = (None, r') \<Longrightarrow> r' = r"
  by (auto simp: stealer_steal_def Let_def split: if_splits)

text \<open>One worker and one range change; what is visited, left and held balances locally.\<close>

lemma ws_update:
  assumes s: "ws_inv ranges s" and w: "w < length ranges" "j < length ranges"
    and x: "ws_workers s ! w = x" and r: "ws_ranges s ! j = r"
    and ok: "j = w \<Longrightarrow> ok_worker x' r'" "j \<noteq> w \<Longrightarrow> ok_worker (ws_workers s ! j) r' \<and> ok_worker x' (ws_ranges s ! w)"
    and bal: "mset ys + mset (window r') + mset (window (held x')) = mset (window r) + mset (window (held x))"
    and dec: "4 * span r' + 4 * span (held x') + weight x' < 4 * span r + 4 * span (held x) + weight x"
    and t: "t = \<lparr>ws_ranges = (ws_ranges s)[j := r'], ws_workers = (ws_workers s)[w := x'], ws_out = ws_out s @ ys\<rparr>"
  shows "ws_inv ranges t \<and> ws_meas t < ws_meas s"
proof
  have len: "w < length (ws_workers s)" "j < length (ws_ranges s)" using s w by (simp_all add: ws_inv_def)
  have total: "mset (ws_out s) + mset (concat (map window (ws_ranges s)))
      + mset (concat (map (\<lambda>x. window (held x)) (ws_workers s))) = mset (concat (map window ranges))"
    using s by (simp add: ws_inv_def)
  have "mset (concat (map window ((ws_ranges s)[j := r']))) + mset (window r)
      = mset (concat (map window (ws_ranges s))) + mset (window r')"
    "mset (concat (map (\<lambda>x. window (held x)) ((ws_workers s)[w := x']))) + mset (window (held x))
      = mset (concat (map (\<lambda>x. window (held x)) (ws_workers s))) + mset (window (held x'))"
    using concat_update_mset [OF len(2), of window r'] r concat_update_mset [OF len(1), of "\<lambda>x. window (held x)" x'] x
    by simp_all
  from ws_mset_shift [OF bal this total] ok s w x show "ws_inv ranges t"
    unfolding ws_inv_def t by (auto simp: nth_list_update)
  show "ws_meas t < ws_meas s"
    using sum_map_update [OF len(2), of "\<lambda>r. 4 * span r" r'] r dec
      sum_map_update [OF len(1), of "\<lambda>x. 4 * span (held x) + weight x" x'] x
    unfolding ws_meas_def t by simp
qed

lemma ws_step_ok:
  assumes s: "ws_inv ranges s" and "ws_step I s t"
  shows "ws_inv ranges t \<and> ws_meas t < ws_meas s"
  using assms(2)
proof cases
  case (ws_visit w it k r x it')
  have w: "w < length ranges" using ws_visit(2) s by (simp add: ws_inv_def)
  have it: "inv it" using s w ws_visit(3) by (fastforce simp: ws_inv_def)
  have x: "x = head (piece k)" "inv it'" using visit_eq [OF it, of k] ws_visit(5) by auto
  show ?thesis
    by (rule ws_update [OF s w w ws_visit(3) refl _ _ _ _ ws_visit(1)])
       (use next_window [OF ws_visit(4)] x in \<open>simp_all add: emit_head window_empty\<close>)
next
  case (ws_exhausted w it r)
  have w: "w < length ranges" using ws_exhausted(2) s by (simp add: ws_inv_def)
  have it: "inv it" using s w ws_exhausted(3) by (fastforce simp: ws_inv_def)
  show ?thesis
    by (rule ws_update [OF s w w ws_exhausted(3) refl, where ys = "[]" and x' = "Stealing it" and r' = r])
       (use next_none [OF ws_exhausted(4)] it ws_exhausted(1) in \<open>simp_all add: window_empty\<close>)
next
  case (ws_steal w it j a b r it')
  have w: "w < length ranges" "j < length ranges" using ws_steal(2,4) s by (simp_all add: ws_inv_def)
  have it: "inv it" "span (ws_ranges s ! w) = 0" using s w(1) ws_steal(3) by (fastforce simp: ws_inv_def)+
  have ok: "ok_worker (ws_workers s ! j) (ws_ranges s ! j)" using s w(2) by (simp add: ws_inv_def)
  have it': "inv it'" using init_pieces [OF it(1), of a "b - a"] ws_steal(6) by auto
  have "j \<noteq> w" using steal_window(3) [OF ws_steal(5)] it(2) by auto
  show ?thesis
    by (rule ws_update [OF s w ws_steal(3) refl, where ys = "[]" and x' = "Holding it' a b" and r' = r])
       (use steal_window [OF ws_steal(5)] it it' \<open>j \<noteq> w\<close> ok_worker_steal [OF ok] ws_steal(1) in \<open>simp_all add: window_empty span_def\<close>)
next
  case (ws_no_steal w it j r)
  have w: "w < length ranges" "j < length ranges" using ws_no_steal(2,4) s by (simp_all add: ws_inv_def)
  have it: "span (ws_ranges s ! w) = 0" using s w(1) ws_no_steal(3) by (fastforce simp: ws_inv_def)
  have ok: "ok_worker (ws_workers s ! j) (ws_ranges s ! j)" using s w(2) by (simp add: ws_inv_def)
  show ?thesis
    by (rule ws_update [OF s w ws_no_steal(3) refl, where ys = "[]" and x' = Finished and r' = r])
       (use steal_none [OF ws_no_steal(5)] it ok ws_no_steal(1) in \<open>simp_all add: window_empty\<close>)
next
  case (ws_set_range w it a b)
  have w: "w < length ranges" using ws_set_range(2) s by (simp add: ws_inv_def)
  have it: "inv it" "span (ws_ranges s ! w) = 0" using s w ws_set_range(3) by (fastforce simp: ws_inv_def)+
  show ?thesis
    by (rule ws_update [OF s w w ws_set_range(3) refl, where ys = "[]" and x' = "Retrying it" and r' = "(a, b)"])
       (use it ws_set_range(1) in \<open>simp_all add: window_empty stealer_set_range_def span_def\<close>)
next
  case (ws_revisit w it k r x it')
  have w: "w < length ranges" using ws_revisit(2) s by (simp add: ws_inv_def)
  have it: "inv it" using s w ws_revisit(3) by (fastforce simp: ws_inv_def)
  have x: "x = head (piece k)" "inv it'" using visit_eq [OF it, of k] ws_revisit(5) by auto
  show ?thesis
    by (rule ws_update [OF s w w ws_revisit(3) refl _ _ _ _ ws_revisit(1)])
       (use next_window [OF ws_revisit(4)] x in \<open>simp_all add: emit_head window_empty\<close>)
next
  case (ws_give_up w it r)
  have w: "w < length ranges" using ws_give_up(2) s by (simp add: ws_inv_def)
  show ?thesis
    by (rule ws_update [OF s w w ws_give_up(3) refl, where ys = "[]" and x' = Finished and r' = r])
       (use next_none [OF ws_give_up(4)] ws_give_up(1) in \<open>simp_all add: window_empty\<close>)
qed

lemma ws_progress:
  assumes s: "ws_inv ranges s" and x: "x \<in> set (ws_workers s)" "x \<noteq> Finished"
  shows "\<exists>t. ws_step I s t"
proof -
  obtain w where w: "w < length (ws_workers s)" "ws_workers s ! w = x" using x(1) by (auto simp: in_set_conv_nth)
  have ok: "ok_worker x (ws_ranges s ! w)" "w < length (ws_ranges s)" using s w by (auto simp: ws_inv_def)
  obtain k r where n: "stealer_next (ws_ranges s ! w) = (k, r)" by (cases "stealer_next (ws_ranges s ! w)")
  obtain q r' where q: "stealer_steal (ws_ranges s ! w) = (q, r')" by (cases "stealer_steal (ws_ranges s ! w)")
  show ?thesis
  proof (cases x)
    case (Running it)
    then show ?thesis
      using ws_visit [OF w(1)] ws_exhausted [OF w(1)] visit_eq [of it] w(2) n ok(1)
      by (cases k) (fastforce, fastforce)
  next
    case (Stealing it)
    then have "span (ws_ranges s ! w) = 0" using ok(1) by simp
    then have "q = None" using q by (auto simp: stealer_steal_def span_def Let_def split: if_splits)
    then show ?thesis using ws_no_steal [OF w(1) _ ok(2)] w(2) q Stealing by blast
  next
    case (Holding it a b)
    then show ?thesis using ws_set_range [OF w(1)] w(2) by blast
  next
    case (Retrying it)
    then show ?thesis
      using ws_revisit [OF w(1)] ws_give_up [OF w(1)] visit_eq [of it] w(2) n ok(1)
      by (cases k) (fastforce, fastforce)
  qed (use x(2) in simp)
qed

lemma ws_system: "terminating_system (ws_step I) (ws_inv ranges) ws_meas (\<lambda>s. \<forall>x \<in> set (ws_workers s). x = Finished)"
  by unfold_locales (use ws_step_ok ws_progress in \<open>blast+\<close>)

lemma ws_start_inv: "inv it \<Longrightarrow> ws_inv ranges (ws_start it ranges)"
  by (auto simp: ws_inv_def ws_start_def window_def map_replicate_const)

lemma ws_final:
  assumes "ws_inv ranges s" "\<forall>x \<in> set (ws_workers s). x = Finished"
  shows "mset (ws_out s) = mset (concat (map window ranges))"
proof -
  have fin: "ws_workers s ! w = Finished" if "w < length ranges" for w
    using assms that by (metis nth_mem ws_inv_def)
  have "span r = 0" if r: "r \<in> set (ws_ranges s)" for r
  proof -
    obtain w where "w < length ranges" "ws_ranges s ! w = r" using r assms(1) by (auto simp: in_set_conv_nth ws_inv_def)
    then show ?thesis using assms(1) fin [of w] by (auto simp: ws_inv_def)
  qed
  then have ranges: "concat (map window (ws_ranges s)) = []" using window_empty by auto
  have "concat (map (\<lambda>x. window (held x)) (ws_workers s)) = []"
    using assms(2) by (auto simp: window_def)
  then show ?thesis using assms(1) ranges by (simp only: ws_inv_def mset.simps add_0_right)
qed

end

section \<open>Filtered distributed iterators\<close>

text \<open>
  The schedules are used with the pipelines of the distributed iterators; here \<open>filter\<close> over
  the base iterator, with an arbitrary predicate.
\<close>

abbreviation filtered :: "(nat \<Rightarrow> bool) \<Rightarrow> unsafe_array_inner \<Rightarrow> (dist_iter, nat) dist_filter" where
  "filtered f a \<equiv> \<lparr>df_iter = dist_iter_new a 0 0, df_f = f\<rparr>"

abbreviation filter_ops :: "((dist_iter, nat) dist_filter, nat) iter_ops" where
  "filter_ops \<equiv> dist_filter_ops dist_iter_ops"

interpretation dist_on: iter_seq dist_iter_ops "\<lambda>s. dist_iter_inv s \<and> di_data s = a"
  "\<lambda>s. [di_cur_i s..<di_end_i s]" for a
proof
  fix s assume "dist_iter_inv s \<and> di_data s = a"
  then show "\<exists>s'. it_next dist_iter_ops s = rret (head [di_cur_i s..<di_end_i s], s')
      \<and> (dist_iter_inv s' \<and> di_data s' = a) \<and> [di_cur_i s'..<di_end_i s'] = tl [di_cur_i s..<di_end_i s]"
    using dist.next_items [of s] by (auto simp: dist_next_eq split: if_splits)
qed

definition position :: "(nat \<Rightarrow> bool) \<Rightarrow> unsafe_array_inner \<Rightarrow> nat \<Rightarrow> nat list" where
  "position f a k = (if k < local_len a \<and> f k then [k] else [])"

lemma positions: "concat (map (position f a) ks) = filter (\<lambda>k. k < local_len a \<and> f k) ks"
  by (induction ks) (simp_all add: position_def)

lemma upt_below: "filter (\<lambda>k. k < n) [i..<j] = [min i n..<min j n]"
proof (induction j)
  case (Suc j)
  have "filter (\<lambda>k. k < n) [i..<Suc j] = [min i n..<min j n] @ (if i \<le> j \<and> j < n then [j] else [])"
    unfolding Suc [symmetric] by simp
  then show ?case by (cases "j < n") (simp_all add: min_absorb1 min_absorb2 min_le_iff_disj)
qed simp

lemma filter_below: "filter (\<lambda>k. k < n \<and> f k) [i..<j] = filter f [min i n..<min j n]"
  by (simp only: upt_below [symmetric] filter_filter)

interpretation filt: iter_pieces filter_ops
  "\<lambda>s. (dist_iter_inv (df_iter s) \<and> di_data (df_iter s) = a) \<and> df_f s = f"
  "\<lambda>s. filter (df_f s) [di_cur_i (df_iter s)..<di_end_i (df_iter s)]" "position f a" for a f
proof
  fix s :: "(dist_iter, nat) dist_filter"
  assume s: "(dist_iter_inv (df_iter s) \<and> di_data (df_iter s) = a) \<and> df_f s = f"
  then show "\<exists>s'. it_next filter_ops s = rret (head (filter (df_f s) [di_cur_i (df_iter s)..<di_end_i (df_iter s)]), s')
      \<and> ((dist_iter_inv (df_iter s') \<and> di_data (df_iter s') = a) \<and> df_f s' = f)
      \<and> filter (df_f s') [di_cur_i (df_iter s')..<di_end_i (df_iter s')]
        = tl (filter (df_f s) [di_cur_i (df_iter s)..<di_end_i (df_iter s)])"
    using dist_on.filter_next_items [of "df_iter s" a f] by (auto simp: dist_filter_ops_def)
  fix start cnt
  obtain S where "array_ok S (di_data (df_iter s))" using s by (auto simp: dist_iter_inv_def)
  then show "\<exists>s'. it_init filter_ops s start cnt = rret s'
      \<and> ((dist_iter_inv (df_iter s') \<and> di_data (df_iter s') = a) \<and> df_f s' = f)
      \<and> filter (df_f s') [di_cur_i (df_iter s')..<di_end_i (df_iter s')]
        = concat (map (position f a) [start..<start + cnt])"
    using s by (auto simp: dist_filter_ops_def dist_init_eq positions filter_below init_window_ok)
qed (simp add: position_def)

lemma filtered_ok:
  "array_ok S a \<Longrightarrow> (dist_iter_inv (df_iter (filtered f a)) \<and> di_data (df_iter (filtered f a)) = a)
     \<and> df_f (filtered f a) = f"
  using dist_new_ok by (simp add: dist_iter_new_def)

lemma local_len_small: "array_ok S a \<Longrightarrow> local_len a \<le> 2 ^ 46"
proof -
  assume ok: "array_ok S a"
  have "local_len a \<le> card {0..<ua_size a}"
    unfolding local_len_def by (rule card_mono) (auto simp: owned_def)
  then show ?thesis using ok by (auto simp: array_ok_def layout_ok_def)
qed

lemma positions_all: "local_len a \<le> n \<Longrightarrow> concat (map (position f a) [0..<n]) = filter f [0..<local_len a]"
  by (simp add: positions filter_below)

lemma window_filter: "iter_pieces.window (position f a) r = filter f [min (fst r) (local_len a)..<min (snd r) (local_len a)]"
  by (simp add: filt.window_def positions filter_below)

lemma windows_chain:
  assumes "chain lo rs n" "local_len a \<le> n"
  shows "concat (map (iter_pieces.window (position f a)) rs) = filter f [min lo (local_len a)..<local_len a]"
  using assms(1)
proof (induction rs arbitrary: lo)
  case Nil
  then show ?case using assms(2) by (simp add: min_def)
next
  case (Cons r rs)
  obtain b where r: "r = (lo, b)" "lo \<le> b" "chain b rs n" using Cons.prems by (cases r) auto
  have "[min lo (local_len a)..<local_len a] = [min lo (local_len a)..<min b (local_len a)] @ [min b (local_len a)..<local_len a]"
    using upt_add_eq_append [of "min lo (local_len a)" "min b (local_len a)" "local_len a - min b (local_len a)"] r(2)
    by simp
  then show ?case using Cons.IH [OF r(3)] r(1) by (simp add: window_filter)
qed

lemma example_odd: "filter odd [0..<2] = [1::nat]"
  by (simp add: upt_rec)

section \<open>Properties\<close>

text \<open>
  The static schedule visits every local element exactly once.  The loop over the
  workers ends, and the ranges it hands out, with boundaries computed in floating point, run as
  independent iterations: their results put together are the filtered local elements, each once and
  in order.
\<close>

theorem sched_static_exact:
  assumes "array_ok S a" "num_elems_local a = Ret n" "0 < w" "w \<le> 2 ^ 46"
  shows "\<exists>rs parts. sched_static n w = Some rs
    \<and> map (\<lambda>(i, j). run_range (dist_filter_ops dist_iter_ops) \<lparr>df_iter = dist_iter_new a 0 0, df_f = f\<rparr> i (j - i)) rs
      = map rret parts
    \<and> concat parts = filter f [0..<n]"
proof -
  have n: "n = local_len a" using num_elems_local_len [OF assms(1)] assms(2) by simp
  obtain rs where rs: "sched_static n w = Some rs" "chain 0 rs n" "\<forall>(i, j)\<in>set rs. j \<le> n"
    using sched_static_chain [OF assms(3,4)] local_len_small [OF assms(1)] n by blast
  have le: "\<And>i j. (i, j) \<in> set rs \<Longrightarrow> j \<le> n" using rs(3) by auto
  have "\<exists>parts. map (\<lambda>(i, j). run_range filter_ops (filtered f a) i (j - i)) rs = map rret parts
      \<and> concat parts = concat (map (position f a) [0..<n])"
    by (rule filt.static_pieces [OF filtered_ok [OF assms(1)] rs(2)]) (use le in simp_all)
  then show ?thesis using positions_all [of a n f] rs(1) n by auto
qed

theorem sched_static_exact_witness:
  "\<exists>rs parts. sched_static 2 3 = Some rs
    \<and> map (\<lambda>(i, j). run_range (dist_filter_ops dist_iter_ops)
          \<lparr>df_iter = dist_iter_new array_example_last 0 0, df_f = odd\<rparr> i (j - i)) rs = map rret parts
    \<and> concat parts = [1]"
  using sched_static_exact [of 4 array_example_last 2 3 odd] array_example_last_facts(1,2)
    num_elems_local_len [of 4 array_example_last] example_odd by simp

text \<open>
  C16.  The dynamic schedule.  Workers claim one index at a time from a shared counter, in any
  interleaving.  No execution is longer than one claim per element and one failed claim per
  worker; no worker gets stuck; and when all have ended the collected items are exactly the
  filtered local elements.
\<close>

theorem sched_dynamic_exact:
  assumes "array_ok S a" "num_elems_local a = Ret n" "0 < w" "n + w < usize_mod"
    and "(dynamic_step (dist_filter_ops dist_iter_ops) n ^^ m)
           (sched_dynamic n w \<lparr>df_iter = dist_iter_new a 0 0, df_f = f\<rparr>) t"
  shows "m \<le> n + min w n
    \<and> ((\<forall>u. \<not> dynamic_step (dist_filter_ops dist_iter_ops) n t u) \<longrightarrow>
         set (dy_iters t) \<subseteq> {None} \<and> dy_out t = filter f [0..<n])"
proof -
  have n: "n = local_len a" using num_elems_local_len [OF assms(1)] assms(2) by simp
  let ?inv = "filt.dynamic_inv a f n (min w n)"
  have sys: "terminating_system (dynamic_step filter_ops n) ?inv (filt.dynamic_meas n)
      (\<lambda>s. \<forall>x \<in> set (dy_iters s). x = None)"
    using filt.dynamic_system [of n "min w n" a f] assms(4) by simp
  have start: "?inv (sched_dynamic n w (filtered f a))"
    by (rule filt.dynamic_start [OF filtered_ok [OF assms(1)]])
  have "filt.dynamic_meas n (sched_dynamic n w (filtered f a)) \<le> n + min w n"
    by (simp only: filt.dynamic_meas_def sched_dynamic_def dynamic_state.simps length_replicate)
  moreover have "?inv t"
    by (rule terminating_system.reach_inv [OF sys relpowp_imp_rtranclp [OF assms(5)] start])
  ultimately show ?thesis
    using terminating_system.run_bound [OF sys start assms(5)] terminating_system.progress [OF sys, of t]
      filt.dynamic_final [of a f n w t] positions_all [of a n f] n assms(3) by fastforce
qed

theorem sched_dynamic_exact_witness:
  "\<exists>m t. (dynamic_step (dist_filter_ops dist_iter_ops) 2 ^^ m)
      (sched_dynamic 2 3 \<lparr>df_iter = dist_iter_new array_example_last 0 0, df_f = odd\<rparr>) t \<and> m \<le> 4 \<and> dy_out t = [1]"
proof -
  note ok = array_example_last_facts(1)
  have num: "num_elems_local array_example_last = Ret 2"
    using num_elems_local_len [OF ok] array_example_last_facts(2) by simp
  obtain m t where run: "(dynamic_step filter_ops 2 ^^ m) (sched_dynamic 2 3 (filtered odd array_example_last)) t"
    "\<forall>u. \<not> dynamic_step filter_ops 2 t u"
    using terminating_system.ends [OF filt.dynamic_system filt.dynamic_start [OF filtered_ok [OF ok, of odd]], of 2 3] by (auto simp: usize_mod_def)
  from sched_dynamic_exact [OF ok num _ _ run(1)] run example_odd show ?thesis by (auto simp: usize_mod_def)
qed

text \<open>
  Building the chunks: \<open>sched_chunk\<close> returns for every positive chunk size, and its
  ranges follow each other from 0 to the end of the local part; with a chunk size of 0 and a
  local part that is not empty the loop never ends.
\<close>

theorem sched_chunk_returns:
  "(case sched_chunk n chunk_size of Some rs \<Rightarrow> chain 0 rs n \<and> length rs \<le> n | None \<Rightarrow> chunk_size = 0 \<and> 0 < n)
   \<and> (sched_chunk n chunk_size = None \<longleftrightarrow> chunk_size = 0 \<and> 0 < n)"
proof (cases "chunk_size = 0")
  case True
  then show ?thesis using chunk_loop_zero [of 0 n] chunk_loop.simps [of 0 0 0] by (cases "0 < n") (simp_all add: sched_chunk_def)
next
  case False
  then show ?thesis using chunk_loop_chain [of chunk_size n 0] by (auto simp: sched_chunk_def)
qed

text \<open>
   The chunked schedule, when every chunk contributes an item.  In any interleaving of the
  workers' calls the execution is finite, no worker gets stuck, and when all have ended the
  collected items are the filtered local elements, each once.
\<close>

theorem sched_chunk_exact:
  assumes "array_ok S a" "num_elems_local a = Ret n" "0 < w" "n + w < usize_mod"
    and "sched_chunk n chunk_size = Some ranges" "\<forall>r\<in>set ranges. \<exists>k. fst r \<le> k \<and> k < snd r \<and> k < n \<and> f k"
    and "chunk_start (dist_filter_ops dist_iter_ops) \<lparr>df_iter = dist_iter_new a 0 0, df_f = f\<rparr> w ranges = rret s"
    and "(chunk_step (dist_filter_ops dist_iter_ops) ranges ^^ m) s t"
  shows "m \<le> 2 * n
    \<and> ((\<forall>u. \<not> chunk_step (dist_filter_ops dist_iter_ops) ranges t u) \<longrightarrow>
         set (ck_iters t) \<subseteq> {None} \<and> mset (ck_out t) = mset (filter f [0..<n]))"
proof -
  have n: "n = local_len a" using num_elems_local_len [OF assms(1)] assms(2) by simp
  have rs: "chain 0 ranges n" "length ranges \<le> n" using sched_chunk_loop [OF assms(5)] by simp_all
  have win: "concat (map (iter_pieces.window (position f a)) ranges) = filter f [0..<n]"
    using windows_chain [OF rs(1)] n by simp
  have item: "iter_pieces.window (position f a) r \<noteq> []" if "\<exists>k. fst r \<le> k \<and> k < snd r \<and> k < n \<and> f k" for r
    using that n by (auto simp: window_filter filter_empty_conv min_def)
  then have ok: "\<forall>r\<in>set ranges. fst r \<le> snd r \<and> iter_pieces.window (position f a) r \<noteq> []"
    using assms(6) by (meson le_less_trans less_imp_le)
  let ?W = "min w (length ranges)" and ?inv = "filt.chunk_inv a f ranges"
  have sys: "terminating_system (chunk_step filter_ops ranges) (?inv ?W) (iter_pieces.chunk_meas (position f a) ranges)
      (\<lambda>s. \<forall>x \<in> set (ck_iters s). x = None)"
    by (rule filt.chunk_system) (use rs(2) assms(4) ok in simp_all)
  have start: "?inv ?W s" and ms: "iter_pieces.chunk_meas (position f a) ranges s = length (filter f [0..<n]) + ?W"
    using filt.chunk_start_inv [OF filtered_ok [OF assms(1)], of f w ranges] assms(7) win by auto
  have "length (filter f [0..<n]) \<le> n" using length_filter_le [of f "[0..<n]"] by simp
  moreover have "?inv ?W t"
    by (rule terminating_system.reach_inv [OF sys relpowp_imp_rtranclp [OF assms(8)] start])
  ultimately show ?thesis
    using terminating_system.run_bound [OF sys start assms(8)] terminating_system.progress [OF sys, of t]
      filt.chunk_final [of a f ranges w t] assms(3) win ms rs(2) by fastforce
qed

theorem sched_chunk_exact_witness:
  "\<exists>ranges s m t. sched_chunk 2 1 = Some ranges
    \<and> chunk_start (dist_filter_ops dist_iter_ops) \<lparr>df_iter = dist_iter_new array_example_last 0 0, df_f = \<lambda>_. True\<rparr> 3 ranges = rret s
    \<and> (chunk_step (dist_filter_ops dist_iter_ops) ranges ^^ m) s t \<and> mset (ck_out t) = {#0, 1#}"
proof -
  let ?a = array_example_last and ?f = "\<lambda>_ :: nat. True" and ?rs = "[(0, 1), (1, 2)] :: (nat \<times> nat) list"
  note ok = array_example_last_facts(1)
  have num: "num_elems_local ?a = Ret 2"
    using num_elems_local_len [OF ok] array_example_last_facts(2) by simp
  have rs: "sched_chunk 2 1 = Some ?rs"
    by (simp add: sched_chunk_def chunk_loop.simps [of 2 "Suc 0" 0] chunk_loop.simps [of 2 "Suc 0" "Suc 0"]
        chunk_loop.simps [of 2 "Suc 0" 2] numeral_2_eq_2 [symmetric])
  have items: "\<forall>r\<in>set ?rs. \<exists>k. fst r \<le> k \<and> k < snd r \<and> k < 2 \<and> ?f k" by auto
  have win: "\<forall>r\<in>set ?rs. fst r \<le> snd r \<and> iter_pieces.window (position ?f ?a) r \<noteq> []"
    using array_example_last_facts(2) by (simp add: window_filter)
  obtain s where s: "chunk_start filter_ops (filtered ?f ?a) 3 ?rs = rret s" "filt.chunk_inv ?a ?f ?rs 2 s"
    using filt.chunk_start_inv [OF filtered_ok [OF ok, of ?f], of 3 ?rs] by (auto simp: numeral_2_eq_2)
  obtain m t where run: "(chunk_step filter_ops ?rs ^^ m) s t" "\<forall>u. \<not> chunk_step filter_ops ?rs t u"
    using terminating_system.ends [OF filt.chunk_system [OF _ win] s(2)] by (auto simp: usize_mod_def)
  have "mset (filter ?f [0..<2]) = {#0, 1#}" by (simp add: upt_rec)
  with sched_chunk_exact [OF ok num _ _ rs items s(1) run(1)] run(2)
  have "mset (ck_out t) = {#0, 1#}" by (simp add: usize_mod_def)
  with rs s(1) run(1) show ?thesis by blast
qed

text \<open>
  The chunked schedule loses elements behind a chunk without items.  When the filter
  rejects the first chunk, a worker's first call returns \<open>None\<close> after that chunk and the
  worker ends; working alone it visits none of the chunks that follow, whatever they contain.
\<close>

theorem sched_chunk_loses_items:
  assumes "array_ok S a" "num_elems_local a = Ret n" "0 < chunk_size" "\<forall>k<chunk_size. \<not> f k"
  shows "\<exists>ranges c. sched_chunk n chunk_size = Some ranges
    \<and> chunk_init (dist_filter_ops dist_iter_ops) \<lparr>df_iter = dist_iter_new a 0 0, df_f = f\<rparr> ranges = rret c
    \<and> drain (chunk_ops (dist_filter_ops dist_iter_ops)) c = rret []"
proof -
  obtain ranges where rs: "sched_chunk n chunk_size = Some ranges" "\<forall>r\<in>set ranges. fst r < snd r"
    using chunk_loop_chain [OF assms(3), of n 0] by (auto simp: sched_chunk_def)
  have first: "ranges ! 0 = (0, chunk_size)" if "0 < length ranges"
    using rs(1) that chunk_loop.simps [of n chunk_size 0]
    by (auto simp: sched_chunk_def Option.bind_eq_Some_conv split: if_splits)
  have none: "iter_pieces.window (position f a) (0, chunk_size) = []"
    using assms(4) by (auto simp: window_filter filter_empty_conv)
  obtain it where it: "it_init filter_ops (filtered f a) 0 0 = rret it"
    "(dist_iter_inv (df_iter it) \<and> di_data (df_iter it) = a) \<and> df_f it = f"
    "filter (df_f it) [di_cur_i (df_iter it)..<di_end_i (df_iter it)] = []"
    using filt.init_pieces [OF filtered_ok [OF assms(1), of f], of 0 0] by auto
  let ?c = "\<lparr>ci_iter = it, ci_ranges = ranges, ci_range_i = 0\<rparr>"
  have "\<exists>c'. chunk_next filter_ops ?c = rret (None, c')"
  proof (cases "0 < length ranges")
    case True
    then show ?thesis
      using filt.chunk_next_range [OF it(2,3) True] first none by fastforce
  next
    case False
    then show ?thesis using filt.chunk_next_end [OF it(2,3) False] by blast
  qed
  then have "drain (chunk_ops filter_ops) ?c = rret []" by (auto simp: drain.simps chunk_ops_def)
  moreover have "chunk_init filter_ops (filtered f a) ranges = rret ?c" using it(1) by (simp add: chunk_init_def)
  ultimately show ?thesis using rs(1) by blast
qed

theorem sched_chunk_loses_items_witness:
  "filter odd [0..<2] = [1::nat]
   \<and> (\<exists>ranges c. sched_chunk 2 1 = Some ranges
     \<and> chunk_init (dist_filter_ops dist_iter_ops) \<lparr>df_iter = dist_iter_new array_example_last 0 0, df_f = odd\<rparr> ranges = rret c
     \<and> drain (chunk_ops (dist_filter_ops dist_iter_ops)) c = rret [])"
  using sched_chunk_loses_items [of 4 array_example_last 2 1 odd] array_example_last_facts(1,2)
    num_elems_local_len [of 4 array_example_last] example_odd by simp

text \<open>
  C15.  Work stealing.  The ranges of the static schedule are stolen in halves between the workers,
  in any interleaving of the critical sections.  Every execution is finite, no worker gets
  stuck, and when all have ended every local element has been visited exactly once.
\<close>

theorem sched_work_stealing_exact:
  assumes "array_ok S a" "num_elems_local a = Ret n" "0 < w" "w \<le> 2 ^ 46"
    and "sched_static n w = Some ranges"
    and "(ws_step (dist_filter_ops dist_iter_ops) ^^ m) (ws_start \<lparr>df_iter = dist_iter_new a 0 0, df_f = f\<rparr> ranges) t"
  shows "m \<le> 4 * n + 4 * length ranges
    \<and> ((\<forall>u. \<not> ws_step (dist_filter_ops dist_iter_ops) t u) \<longrightarrow>
         set (ws_workers t) \<subseteq> {Finished} \<and> mset (ws_out t) = mset (filter f [0..<n]))"
proof -
  have n: "n = local_len a" using num_elems_local_len [OF assms(1)] assms(2) by simp
  have rs: "chain 0 ranges n" "\<forall>(i, j)\<in>set ranges. j \<le> n"
    using sched_static_chain [OF assms(3,4)] local_len_small [OF assms(1)] n assms(5) by fastforce+
  have win: "concat (map (iter_pieces.window (position f a)) ranges) = filter f [0..<n]"
    using windows_chain [OF rs(1)] n by simp
  note sys = filt.ws_system [of a f ranges]
  have start: "filt.ws_inv a f ranges (ws_start (filtered f a) ranges)"
    by (rule filt.ws_start_inv [OF filtered_ok [OF assms(1)]])
  have "filt.ws_meas (ws_start (filtered f a) ranges) = 4 * n + 4 * length ranges"
    using chain_span [OF rs]
    by (simp add: filt.ws_meas_def ws_start_def filt.span_def sum_list_const_mult sum_list_replicate)
  moreover have "filt.ws_inv a f ranges t"
    by (rule terminating_system.reach_inv [OF sys relpowp_imp_rtranclp [OF assms(6)] start])
  ultimately show ?thesis
    using terminating_system.run_bound [OF sys start assms(6)] terminating_system.progress [OF sys, of t]
      filt.ws_final [of a f ranges t] win by fastforce
qed

theorem sched_work_stealing_exact_witness:
  "\<exists>ranges m t. sched_static 2 3 = Some ranges
    \<and> (ws_step (dist_filter_ops dist_iter_ops) ^^ m) (ws_start \<lparr>df_iter = dist_iter_new array_example_last 0 0, df_f = odd\<rparr> ranges) t
    \<and> mset (ws_out t) = {#1#}"
proof -
  note ok = array_example_last_facts(1)
  have num: "num_elems_local array_example_last = Ret 2"
    using num_elems_local_len [OF ok] array_example_last_facts(2) by simp
  obtain ranges where rs: "sched_static 2 3 = Some ranges" using sched_static_chain [of 3 2] by auto
  obtain m t where run: "(ws_step filter_ops ^^ m) (ws_start (filtered odd array_example_last) ranges) t"
    "\<forall>u. \<not> ws_step filter_ops t u"
    using terminating_system.ends [OF filt.ws_system filt.ws_start_inv [OF filtered_ok [OF ok, of odd]]] by blast
  from sched_work_stealing_exact [OF ok num _ _ rs run(1)] run(2) example_odd have "mset (ws_out t) = {#1#}" by simp
  with rs run(1) show ?thesis by blast
qed

end
