(* ===== verification/Barrier.thy ===== *)
theory Barrier
  imports Lamellar_Arch Transition_Systems F64
begin

text \<open>
  The dissemination barrier (\<open>barrier.rs\<close>).  Every PE of the team has a counter of the barriers
  it has entered and \<open>n\<close> buffers with one word per round.  In round \<open>r\<close> a PE writes its barrier id into
  the buffers of the PEs at distance \<open>i * (n + 1) ^ r\<close>, \<open>i = 1, \<dots>, n\<close>, and waits until its own buffers hold
  at least that id.  PEs are numbered by their index in the team.

  A remote write (\<open>put_slice\<close>) is one step; waiting is a step that is enabled when the awaited
  word has arrived (the loop only calls the scheduler and a timeout message meanwhile).  The
  protocol is that of a team of at least two PEs whose panic flag is clear: a single PE has no
  send buffer and returns at once.  The products \<open>i * (n + 1) ^ r\<close> are computed on \<open>nat\<close>; they fit
  in an \<open>isize\<close> for every team that a machine can have (the exponent is below the number of rounds).
\<close>

section \<open>The number of rounds\<close>

text \<open>
  \<open>Barrier::new\<close>; \<open>log2\<close> is \<open>f64::log2\<close>, whose precision the standard library leaves to the
  platform.  The result is the dissemination factor and the number of rounds.
\<close>

definition barrier_rounds :: "(rat \<Rightarrow> rat) \<Rightarrow> nat \<Rightarrow> nat \<Rightarrow> nat \<times> nat" where
  "barrier_rounds log2 factor num_pes =
     (if factor > 1 \<and> num_pes > 2
      then (factor, f64_ceil_usize (f64_div (log2 (f64_of_usize num_pes)) (log2 (f64_of_usize factor))))
      else (1, f64_floor_usize (log2 (f64_of_usize num_pes))))"

section \<open>The protocol\<close>

datatype bar_pc = Outside | Sending nat nat nat | Waiting nat nat nat

record bar_state =
  bar_cnt :: "nat \<Rightarrow> nat"
  bar_pcs :: "nat \<Rightarrow> bar_pc"
  bar_buf :: "nat \<Rightarrow> nat \<Rightarrow> nat \<Rightarrow> nat"

definition bar_new :: bar_state where
  "bar_new = \<lparr>bar_cnt = (\<lambda>_. 1), bar_pcs = (\<lambda>_. Outside), bar_buf = (\<lambda>_ _ _. 0)\<rparr>"

definition team_send_pe :: "nat \<Rightarrow> nat \<Rightarrow> nat \<Rightarrow> nat \<Rightarrow> nat \<Rightarrow> nat" where
  "team_send_pe n num_pes my_index rnd i = (my_index + i * (n + 1) ^ rnd) mod num_pes"

text \<open>\<open>rem_euclid\<close> on \<open>isize\<close>.\<close>

definition team_recv_pe :: "nat \<Rightarrow> nat \<Rightarrow> nat \<Rightarrow> nat \<Rightarrow> nat \<Rightarrow> nat" where
  "team_recv_pe n num_pes my_index rnd i =
     nat ((int my_index - int i * (int n + 1) ^ rnd) mod int num_pes)"

text \<open>
  The world PE with a team index: \<open>arch.single_iter(team_pe).next().unwrap()\<close>.
\<close>

definition bar_world_pe :: "lamellar_arch_rt \<Rightarrow> nat \<Rightarrow> nat exec" where
  "bar_world_pe arch t =
     (case fst (iter_next (single_iter arch t)) of Some pe \<Rightarrow> Ret pe | None \<Rightarrow> Panic UnwrapNone)"

definition bar_round :: "nat \<Rightarrow> nat \<Rightarrow> nat \<Rightarrow> bar_pc" where
  "bar_round num_rounds bid rnd = (if rnd < num_rounds then Sending bid rnd 1 else Outside)"

text \<open>
  The steps of \<open>barrier_internal\<close> (\<open>async_barrier\<close> is the same loop with another way to
  wait).  Every PE calls the barrier \<open>calls\<close> times.
\<close>

inductive bar_step :: "nat \<Rightarrow> nat \<Rightarrow> nat \<Rightarrow> nat \<Rightarrow> bar_state \<Rightarrow> bar_state \<Rightarrow> bool" for n num_rounds num_pes calls where
  bar_enter: "p < num_pes \<Longrightarrow> bar_pcs s p = Outside \<Longrightarrow> bar_cnt s p \<le> calls \<Longrightarrow>
    bar_step n num_rounds num_pes calls s
      (s\<lparr>bar_cnt := (bar_cnt s)(p := fetch_add_usize (bar_cnt s p) 1),
         bar_pcs := (bar_pcs s)(p := bar_round num_rounds (bar_cnt s p) 0)\<rparr>)"
| bar_send: "p < num_pes \<Longrightarrow> bar_pcs s p = Sending bid rnd i \<Longrightarrow> i \<le> n \<Longrightarrow>
    q = team_send_pe n num_pes p rnd i \<Longrightarrow>
    bar_step n num_rounds num_pes calls s
      (s\<lparr>bar_buf := (if q \<noteq> p then (bar_buf s)(q := (bar_buf s q)(i - 1 := (bar_buf s q (i - 1))(rnd := bid)))
                     else bar_buf s),
         bar_pcs := (bar_pcs s)(p := Sending bid rnd (i + 1))\<rparr>)"
| bar_sent: "p < num_pes \<Longrightarrow> bar_pcs s p = Sending bid rnd i \<Longrightarrow> \<not> i \<le> n \<Longrightarrow>
    bar_step n num_rounds num_pes calls s (s\<lparr>bar_pcs := (bar_pcs s)(p := Waiting bid rnd 1)\<rparr>)"
| bar_recv: "p < num_pes \<Longrightarrow> bar_pcs s p = Waiting bid rnd i \<Longrightarrow> i \<le> n \<Longrightarrow>
    team_recv_pe n num_pes p rnd i = p \<or> \<not> bar_buf s p (i - 1) rnd < bid \<Longrightarrow>
    bar_step n num_rounds num_pes calls s (s\<lparr>bar_pcs := (bar_pcs s)(p := Waiting bid rnd (i + 1))\<rparr>)"
| bar_done: "p < num_pes \<Longrightarrow> bar_pcs s p = Waiting bid rnd i \<Longrightarrow> \<not> i \<le> n \<Longrightarrow>
    bar_step n num_rounds num_pes calls s
      (s\<lparr>bar_pcs := (bar_pcs s)(p := bar_round num_rounds bid (rnd + 1))\<rparr>)"

section \<open>Distances on the ring of PEs\<close>

definition ring_dist :: "nat \<Rightarrow> nat \<Rightarrow> nat \<Rightarrow> nat" where
  "ring_dist N p q = nat ((int p - int q) mod int N)"

lemma ring_dist_less: "0 < N \<Longrightarrow> ring_dist N p q < N"
  by (simp add: ring_dist_def nat_less_iff)

lemma team_recv_less: "0 < N \<Longrightarrow> team_recv_pe n N p r i < N"
  by (simp add: team_recv_pe_def nat_less_iff)

text \<open>The PE a word is awaited from is the one that sends it.\<close>

lemma send_recv:
  assumes "p < N" "q < N"
  shows "team_send_pe n N p r i = q \<longleftrightarrow> team_recv_pe n N q r i = p"
proof -
  let ?k = "i * (n + 1) ^ r"
  have k: "int i * (int n + 1) ^ r = int ?k" by (simp add: add.commute)
  have "team_send_pe n N p r i = q \<longleftrightarrow> (int p + int ?k) mod int N = int q"
    unfolding team_send_pe_def by (metis of_nat_add of_nat_eq_iff zmod_int)
  also have "\<dots> \<longleftrightarrow> (int p + int ?k) mod int N = int q mod int N" using assms(2) by simp
  also have "\<dots> \<longleftrightarrow> int p mod int N = (int q - int ?k) mod int N"
    by (simp add: mod_eq_dvd_iff algebra_simps)
  also have "\<dots> \<longleftrightarrow> int p = (int q - int ?k) mod int N" using assms(1) by simp
  also have "\<dots> \<longleftrightarrow> team_recv_pe n N q r i = p"
    unfolding team_recv_pe_def k using assms(1) by (auto simp: eq_nat_nat_iff nat_eq_iff)
  finally show ?thesis .
qed

lemma ring_dist_recv:
  assumes "0 < N" "i * (n + 1) ^ r \<le> ring_dist N p q"
  shows "ring_dist N (team_recv_pe n N p r i) q = ring_dist N p q - i * (n + 1) ^ r"
proof -
  let ?k = "i * (n + 1) ^ r"
  have k: "int i * (int n + 1) ^ r = int ?k" by (simp add: add.commute)
  have d: "int (ring_dist N p q) = (int p - int q) mod int N" using assms(1) by (simp add: ring_dist_def)
  have "(int (team_recv_pe n N p r i) - int q) mod int N = (int p - int ?k - int q) mod int N"
    unfolding team_recv_pe_def k using assms(1) by (simp add: mod_simps)
  also have "\<dots> = (int (ring_dist N p q) - int ?k) mod int N"
    unfolding d by (simp add: mod_simps algebra_simps)
  also have "\<dots> = int (ring_dist N p q) - int ?k"
    by (rule mod_pos_pos_trivial) (use assms ring_dist_less [OF assms(1), of p q] in linarith)+
  also have "\<dots> = int (ring_dist N p q - ?k)" using assms(2) by (simp only: of_nat_diff)
  finally show ?thesis unfolding ring_dist_def [of N "team_recv_pe n N p r i"] by (simp only: nat_int)
qed

text \<open>
  The remote PE of a put exists, it is a member of the team, and its team index is the
  computed one; so buffers can be numbered by team index.
\<close>

lemma bar_world_pe_member:
  assumes "rt_wf arch" "t < rt_num_pes arch"
  shows "\<exists>w. bar_world_pe arch t = Ret w \<and> team_pe arch w = Ret (Inr t)"
proof -
  obtain w where w: "world_pe arch t = Inr w" using rt_ids.outer_total [OF assms] by blast
  then have "team_pe arch w = Ret (Inr t)" using rt_ids.inner_outer [OF assms(1)] assms(2) by blast
  then show ?thesis using w assms(2) by (simp add: bar_world_pe_def iter_next_def single_iter_def)
qed

section \<open>What a PE knows about the others\<close>

text \<open>All PEs closer than \<open>k\<close> have entered barrier \<open>bid\<close>.\<close>

definition knows :: "nat \<Rightarrow> bar_state \<Rightarrow> nat \<Rightarrow> nat \<Rightarrow> nat \<Rightarrow> bool" where
  "knows N s p k bid \<longleftrightarrow> (\<forall>q<N. ring_dist N p q < k \<longrightarrow> bid < bar_cnt s q)"

fun pc_ok :: "nat \<Rightarrow> nat \<Rightarrow> nat \<Rightarrow> bar_state \<Rightarrow> nat \<Rightarrow> bar_pc \<Rightarrow> bool" where
  "pc_ok n R N s p Outside \<longleftrightarrow> knows N s p N (bar_cnt s p - 1)"
| "pc_ok n R N s p (Sending bid r i) \<longleftrightarrow>
     0 < bid \<and> bar_cnt s p = bid + 1 \<and> r < R \<and> 1 \<le> i \<and> i \<le> n + 1 \<and> knows N s p ((n + 1) ^ r) bid
     \<and> knows N s p N (bid - 1)"
| "pc_ok n R N s p (Waiting bid r i) \<longleftrightarrow>
     0 < bid \<and> bar_cnt s p = bid + 1 \<and> r < R \<and> 1 \<le> i \<and> i \<le> n + 1 \<and> knows N s p (i * (n + 1) ^ r) bid
     \<and> knows N s p N (bid - 1)"

definition bar_safe :: "nat \<Rightarrow> nat \<Rightarrow> nat \<Rightarrow> bar_state \<Rightarrow> bool" where
  "bar_safe n R N s \<longleftrightarrow> (\<forall>p<N. 1 \<le> bar_cnt s p \<and> pc_ok n R N s p (bar_pcs s p))
     \<and> (\<forall>p<N. \<forall>i\<in>{1..n}. \<forall>r. 0 < bar_buf s p (i - 1) r \<longrightarrow>
          knows N s (team_recv_pe n N p r i) ((n + 1) ^ r) (bar_buf s p (i - 1) r))"

text \<open>Counters only grow, so knowledge persists.\<close>

lemma knows_mono:
  "knows N s p k bid \<Longrightarrow> (\<And>q. q < N \<Longrightarrow> bar_cnt s q \<le> bar_cnt t q) \<Longrightarrow> k' \<le> k \<Longrightarrow> bid' \<le> bid \<Longrightarrow> knows N t p k' bid'"
  unfolding knows_def by (meson le_less_trans less_le_trans order.strict_trans2)

lemma knows_cong: "bar_cnt s = bar_cnt t \<Longrightarrow> knows N s = knows N t"
  by (simp add: knows_def fun_eq_iff)

lemma pc_ok_cong: "bar_cnt s = bar_cnt t \<Longrightarrow> pc_ok n R N s p pc = pc_ok n R N t p pc"
  using knows_cong [of s t N] by (cases pc) simp_all

lemma pc_ok_mono:
  assumes "pc_ok n R N s p pc" "\<And>q. q < N \<Longrightarrow> bar_cnt s q \<le> bar_cnt t q" "bar_cnt t p = bar_cnt s p"
  shows "pc_ok n R N t p pc"
  using assms knows_mono [OF _ assms(2)] by (cases pc) auto

lemma knows_1: "p < N \<Longrightarrow> q < N \<Longrightarrow> ring_dist N p q < 1 \<longleftrightarrow> p = q"
proof -
  assume "p < N" "q < N"
  then have "(int p - int q) mod int N = 0 \<longleftrightarrow> int p mod int N = int q mod int N" by (simp only: mod_eq_dvd_iff dvd_eq_mod_eq_0)
  moreover have nn: "0 \<le> (int p - int q) mod int N" using \<open>p < N\<close> by simp
  then have "ring_dist N p q < 1 \<longleftrightarrow> (int p - int q) mod int N = 0" unfolding ring_dist_def by linarith
  ultimately show "ring_dist N p q < 1 \<longleftrightarrow> p = q" using \<open>p < N\<close> \<open>q < N\<close> by simp
qed

text \<open>A word from the PE at distance \<open>i * (n + 1) ^ r\<close> extends the known part of the ring.\<close>

lemma knows_extend:
  assumes "knows N s p (i * (n + 1) ^ r) bid" "p < N" "0 < i"
    and "team_recv_pe n N p r i = p \<or> knows N s (team_recv_pe n N p r i) ((n + 1) ^ r) bid"
  shows "knows N s p ((i + 1) * (n + 1) ^ r) bid"
  unfolding knows_def
proof (intro allI impI)
  fix q assume q: "q < N" "ring_dist N p q < (i + 1) * (n + 1) ^ r"
  let ?k = "i * (n + 1) ^ r" and ?s = "team_recv_pe n N p r i"
  show "bid < bar_cnt s q"
  proof (cases "ring_dist N p q < ?k")
    case True
    then show ?thesis using assms(1) q(1) by (simp add: knows_def)
  next
    case False
    then have d: "ring_dist N ?s q = ring_dist N p q - ?k" using ring_dist_recv assms(2) by simp
    have "?s \<noteq> p"
    proof
      assume "?s = p"
      with d have "ring_dist N p q = ring_dist N p q - ?k" by simp
      moreover have "0 < ?k" using assms(3) by simp
      ultimately show False using False by linarith
    qed
    moreover have "(i + 1) * (n + 1) ^ r = ?k + (n + 1) ^ r" by (simp only: add_mult_distrib mult_1)
    then have "ring_dist N ?s q < (n + 1) ^ r" using d q(2) False by linarith
    ultimately show ?thesis using assms(4) q(1) by (simp add: knows_def)
  qed
qed

lemma pc_ok_round:
  assumes "knows N s p ((n + 1) ^ r) bid" "bar_cnt s p = bid + 1" "N \<le> (n + 1) ^ R" "r \<le> R" "0 < bid"
    "knows N s p N (bid - 1)"
  shows "pc_ok n R N s p (bar_round R bid r)"
  using assms knows_mono [OF assms(1), of s N bid] by (auto simp: bar_round_def)

lemma bar_safe_pc: "bar_safe n R N s \<Longrightarrow> p < N \<Longrightarrow> bar_pcs s p = pc \<Longrightarrow> 1 \<le> bar_cnt s p \<and> pc_ok n R N s p pc"
  unfolding bar_safe_def by blast

lemma bar_safe_buf:
  "bar_safe n R N s \<Longrightarrow> p < N \<Longrightarrow> 1 \<le> i \<Longrightarrow> i \<le> n \<Longrightarrow> 0 < bar_buf s p (i - 1) r \<Longrightarrow>
    knows N s (team_recv_pe n N p r i) ((n + 1) ^ r) (bar_buf s p (i - 1) r)"
  unfolding bar_safe_def by (meson atLeastAtMost_iff)

text \<open>A step that moves one PE and leaves the counters and buffers alone.\<close>

lemma bar_safe_pcs:
  assumes "bar_safe n R N s" "p < N" "pc_ok n R N s p pc"
  shows "bar_safe n R N (s\<lparr>bar_pcs := (bar_pcs s)(p := pc)\<rparr>)"
proof -
  let ?t = "s\<lparr>bar_pcs := (bar_pcs s)(p := pc)\<rparr>"
  have k: "knows N ?t = knows N s" by (rule knows_cong) simp
  have "pc_ok n R N ?t q x = pc_ok n R N s q x" for q x by (rule pc_ok_cong) simp
  with assms show ?thesis by (auto simp: bar_safe_def k)
qed

lemma bar_step_safe:
  assumes "bar_step n R N calls s t" "bar_safe n R N s" "N \<le> (n + 1) ^ R" "calls + 1 < usize_mod"
  shows "bar_safe n R N t"
  using assms(1)
proof cases
  case (bar_enter p)
  have p: "1 \<le> bar_cnt s p" "knows N s p N (bar_cnt s p - 1)"
    using bar_safe_pc [OF assms(2) bar_enter(2,3)] by simp_all
  have cnt: "bar_cnt t = (bar_cnt s)(p := bar_cnt s p + 1)" using bar_enter(1,4) assms(4) by simp
  have pcs: "bar_pcs t p = bar_round R (bar_cnt s p) 0" by (simp add: bar_enter(1))
  have le: "bar_cnt s q \<le> bar_cnt t q" for q by (simp add: cnt)
  have own: "knows N t p ((n + 1) ^ 0) (bar_cnt s p)"
    using knows_1 [OF bar_enter(2)] by (simp add: knows_def cnt)
  have "pc_ok n R N t p (bar_pcs t p)"
    using pc_ok_round [OF own _ assms(3)] p(1) knows_mono [OF p(2) le] by (simp add: cnt pcs)
  moreover have "pc_ok n R N t q (bar_pcs t q)" if "q < N" "q \<noteq> p" for q
    using pc_ok_mono [of n R N s q "bar_pcs s q" t] bar_safe_pc [OF assms(2) that(1) refl] le that bar_enter(1)
    by (simp add: cnt)
  ultimately have "\<forall>q<N. 1 \<le> bar_cnt t q \<and> pc_ok n R N t q (bar_pcs t q)"
    using bar_safe_pc [OF assms(2) _ refl] le by (metis le_trans)
  moreover have "bar_buf t = bar_buf s" using bar_enter(1) by simp
  ultimately show ?thesis
    using assms(2) knows_mono [OF _ le] unfolding bar_safe_def by (metis (no_types, lifting) order_refl)
next
  case (bar_send p bid r i q)
  have p: "0 < bid" "bar_cnt s p = bid + 1" "r < R" "1 \<le> i" "knows N s p ((n + 1) ^ r) bid" "knows N s p N (bid - 1)"
    using bar_safe_pc [OF assms(2) bar_send(2,3)] by simp_all
  let ?u = "s\<lparr>bar_pcs := (bar_pcs s)(p := Sending bid r (i + 1))\<rparr>"
  have u: "bar_safe n R N ?u"
    by (rule bar_safe_pcs [OF assms(2) bar_send(2)]) (use p bar_send(4) in simp)
  have k: "knows N t = knows N s" by (rule knows_cong) (simp add: bar_send(1))
  have same: "pc_ok n R N t x pc = pc_ok n R N ?u x pc" for x pc by (rule pc_ok_cong) (simp add: bar_send(1))
  have "knows N t (team_recv_pe n N x r' j) ((n + 1) ^ r') (bar_buf t x (j - 1) r')"
    if j: "x < N" "1 \<le> j" "j \<le> n" "0 < bar_buf t x (j - 1) r'" for x j r'
  proof (cases "x = q \<and> q \<noteq> p \<and> j = i \<and> r' = r")
    case True
    then have "team_recv_pe n N x r' j = p" using send_recv [of p N x n r i] j(1) bar_send(2,5) by simp
    moreover have "bar_buf t x (j - 1) r' = bid" using True by (simp add: bar_send(1))
    ultimately show ?thesis using True p(5) unfolding k by simp
  next
    case False
    then have "bar_buf t x (j - 1) r' = bar_buf s x (j - 1) r'" using j(2) p(4) by (auto simp: bar_send(1))
    then show ?thesis using bar_safe_buf [OF assms(2) j(1-3)] j(4) unfolding k by simp
  qed
  moreover have "bar_cnt t = bar_cnt ?u" "bar_pcs t = bar_pcs ?u" by (simp_all add: bar_send(1))
  ultimately show ?thesis using u same unfolding bar_safe_def by (metis atLeastAtMost_iff)
next
  case (bar_sent p bid r i)
  have p: "0 < bid" "bar_cnt s p = bid + 1" "r < R" "knows N s p ((n + 1) ^ r) bid" "knows N s p N (bid - 1)"
    using bar_safe_pc [OF assms(2) bar_sent(2,3)] by simp_all
  then show ?thesis unfolding bar_sent(1) by (intro bar_safe_pcs [OF assms(2) bar_sent(2)]) simp
next
  case (bar_recv p bid r i)
  have p: "0 < bid" "bar_cnt s p = bid + 1" "r < R" "1 \<le> i" "knows N s p (i * (n + 1) ^ r) bid" "knows N s p N (bid - 1)"
    using bar_safe_pc [OF assms(2) bar_recv(2,3)] by simp_all
  have "team_recv_pe n N p r i = p \<or> knows N s (team_recv_pe n N p r i) ((n + 1) ^ r) bid"
  proof (cases "team_recv_pe n N p r i = p")
    case True
    then show ?thesis ..
  next
    case False
    then have "bid \<le> bar_buf s p (i - 1) r" "0 < bar_buf s p (i - 1) r" using bar_recv(5) p(1) by auto
    then show ?thesis using bar_safe_buf [OF assms(2) bar_recv(2) p(4) bar_recv(4)] knows_mono by blast
  qed
  then have "knows N s p ((i + 1) * (n + 1) ^ r) bid"
    using knows_extend [OF p(5) bar_recv(2)] p(4) by simp
  then show ?thesis unfolding bar_recv(1)
    by (intro bar_safe_pcs [OF assms(2) bar_recv(2)]) (use p bar_recv(4) in simp)
next
  case (bar_done p bid r i)
  have p: "0 < bid" "bar_cnt s p = bid + 1" "r < R" "i = n + 1" "knows N s p (i * (n + 1) ^ r) bid" "knows N s p N (bid - 1)"
    using bar_safe_pc [OF assms(2) bar_done(2,3)] bar_done(4) by simp_all
  then have "knows N s p ((n + 1) ^ (r + 1)) bid" by simp
  then show ?thesis unfolding bar_done(1)
    by (intro bar_safe_pcs [OF assms(2) bar_done(2)] pc_ok_round) (use p assms(3) in simp_all)
qed

lemma bar_new_safe: "bar_safe n R N bar_new"
  by (simp add: bar_safe_def bar_new_def knows_def)

section \<open>How far a PE has got\<close>

text \<open>Every step moves one PE by one position; a barrier call has \<open>bar_len\<close> positions.\<close>

definition bar_len :: "nat \<Rightarrow> nat \<Rightarrow> nat" where
  "bar_len n R = R * (2 * n + 2) + 1"

fun pc_pos :: "nat \<Rightarrow> nat \<Rightarrow> nat \<Rightarrow> bar_pc \<Rightarrow> nat" where
  "pc_pos n R c Outside = (c - 1) * bar_len n R"
| "pc_pos n R c (Sending bid r i) = (bid - 1) * bar_len n R + r * (2 * n + 2) + i"
| "pc_pos n R c (Waiting bid r i) = (bid - 1) * bar_len n R + r * (2 * n + 2) + (n + 1) + i"

definition bar_pos :: "nat \<Rightarrow> nat \<Rightarrow> bar_state \<Rightarrow> nat \<Rightarrow> nat" where
  "bar_pos n R s p = pc_pos n R (bar_cnt s p) (bar_pcs s p)"

text \<open>A word that has been sent is in the buffer.\<close>

definition bar_sound :: "nat \<Rightarrow> nat \<Rightarrow> nat \<Rightarrow> nat \<Rightarrow> bar_state \<Rightarrow> bool" where
  "bar_sound n R N calls s \<longleftrightarrow> bar_safe n R N s
     \<and> (\<forall>p<N. bar_cnt s p \<le> calls + 1)
     \<and> (\<forall>p<N. \<forall>i\<in>{1..n}. \<forall>r<R. \<forall>bid>0. team_recv_pe n N p r i \<noteq> p \<longrightarrow>
          (bid - 1) * bar_len n R + r * (2 * n + 2) + i < bar_pos n R s (team_recv_pe n N p r i) \<longrightarrow>
          bid \<le> bar_buf s p (i - 1) r)"

lemma round_pos:
  "r \<le> R \<Longrightarrow> 0 < bid \<Longrightarrow> pc_pos n R (bid + 1) (bar_round R bid r) = (bid - 1) * bar_len n R + r * (2 * n + 2) + 1"
  by (cases bid) (auto simp: bar_round_def bar_len_def algebra_simps)

lemma bar_step_pos:
  assumes "bar_step n R N calls s t" "bar_safe n R N s" "calls + 1 < usize_mod"
  shows "\<exists>p<N. bar_pos n R t p = bar_pos n R s p + 1 \<and> (\<forall>q. q \<noteq> p \<longrightarrow> bar_pos n R t q = bar_pos n R s q)"
  using assms(1)
proof cases
  case (bar_enter p)
  have "1 \<le> bar_cnt s p" using bar_safe_pc [OF assms(2) bar_enter(2,3)] by simp
  moreover have "fetch_add_usize (bar_cnt s p) 1 = bar_cnt s p + 1" using bar_enter(4) assms(3) by simp
  ultimately have "bar_pos n R t p = bar_pos n R s p + 1"
    using round_pos [of 0 R "bar_cnt s p" n] bar_enter(3) unfolding bar_enter(1) bar_pos_def by simp
  moreover have "bar_pos n R t q = bar_pos n R s q" if "q \<noteq> p" for q
    using that unfolding bar_enter(1) bar_pos_def by simp
  ultimately show ?thesis using bar_enter(2) by blast
next
  case (bar_send p bid r i q)
  then show ?thesis by (intro exI [of _ p]) (auto simp: bar_pos_def)
next
  case (bar_sent p bid r i)
  then have "i = n + 1" using bar_safe_pc [OF assms(2) bar_sent(2,3)] by simp
  then show ?thesis using bar_sent by (intro exI [of _ p]) (auto simp: bar_pos_def)
next
  case (bar_recv p bid r i)
  then show ?thesis by (intro exI [of _ p]) (auto simp: bar_pos_def)
next
  case (bar_done p bid r i)
  then have p: "i = n + 1" "bar_cnt s p = bid + 1" "r < R" "0 < bid"
    using bar_safe_pc [OF assms(2) bar_done(2,3)] by simp_all
  have "bar_pos n R t p = bar_pos n R s p + 1"
    using round_pos [of "r + 1" R bid n] p bar_done(3) unfolding bar_done(1) bar_pos_def by simp
  then show ?thesis using bar_done(1,2) by (auto simp: bar_pos_def)
qed

lemma slot_less: "r < R \<Longrightarrow> i \<le> 2 * n + 2 \<Longrightarrow> r * (2 * n + 2) + i < bar_len n R"
proof -
  assume "r < R" "i \<le> 2 * n + 2"
  moreover from this have "(r + 1) * (2 * n + 2) \<le> R * (2 * n + 2)" by (intro mult_right_mono) simp_all
  ultimately show ?thesis by (simp add: bar_len_def algebra_simps)
qed

lemma slot_unique:
  assumes "x * bar_len n R + (r * (2 * n + 2) + i) = y * bar_len n R + (r' * (2 * n + 2) + j)"
    and "r < R" "r' < R" "1 \<le> i" "i \<le> 2 * n + 2" "1 \<le> j" "j \<le> 2 * n + 2"
  shows "x = y \<and> r = r' \<and> i = j"
proof -
  let ?L = "bar_len n R" and ?u = "r * (2 * n + 2) + i" and ?v = "r' * (2 * n + 2) + j"
  have less: "?u < ?L" "?v < ?L" using slot_less assms by simp_all
  have "(x * ?L + ?u) div ?L = x" "(y * ?L + ?v) div ?L = y" using less by simp_all
  then have xy: "x = y" using assms(1) by metis
  then have uv: "?u = ?v" using assms(1) by simp
  have "(r * (2 * n + 2) + (i - 1)) div (2 * n + 2) = r" "(r' * (2 * n + 2) + (j - 1)) div (2 * n + 2) = r'"
    using assms(4-7) by (simp_all only: div_mult_self3 div_less)
  moreover have "r * (2 * n + 2) + (i - 1) = r' * (2 * n + 2) + (j - 1)" using uv assms(4,6) by linarith
  ultimately have "r = r'" by metis
  with xy uv show ?thesis by simp
qed

text \<open>Only a PE that is about to send a word is at the position of that word.\<close>

lemma pos_send:
  assumes "pc_ok n R N s p pc" "r < R" "1 \<le> i" "i \<le> n" "0 < bid"
    and "(bid - 1) * bar_len n R + r * (2 * n + 2) + i = pc_pos n R (bar_cnt s p) pc"
  shows "pc = Sending bid r i"
proof (cases pc)
  case Outside
  have "((bid - 1) * bar_len n R + (r * (2 * n + 2) + i)) mod bar_len n R = r * (2 * n + 2) + i"
    using slot_less [of r R i n] assms by simp
  moreover have "((bid - 1) * bar_len n R + (r * (2 * n + 2) + i)) mod bar_len n R = 0"
    using assms(6) Outside by (simp add: add.assoc)
  ultimately show ?thesis using assms(3) by simp
next
  case (Sending bid' r' j)
  then have "bid - 1 = bid' - 1 \<and> r = r' \<and> i = j" "0 < bid'"
    using slot_unique [of "bid - 1" n R r i "bid' - 1" r' j] assms by (simp_all add: add.assoc)
  then have "bid = bid'" "r = r'" "i = j" using assms(5) by linarith+
  then show ?thesis using Sending by simp
next
  case (Waiting bid' r' j)
  then have "bid - 1 = bid' - 1 \<and> r = r' \<and> i = n + 1 + j"
    using slot_unique [of "bid - 1" n R r i "bid' - 1" r' "n + 1 + j"] assms by (simp add: add.assoc)
  then show ?thesis using assms(4) by simp
qed

lemma pos_le: "bar_safe n R N s \<Longrightarrow> p < N \<Longrightarrow> bar_pos n R s p \<le> (bar_cnt s p - 1) * bar_len n R"
proof -
  assume "bar_safe n R N s" "p < N"
  then have ok: "pc_ok n R N s p (bar_pcs s p)" using bar_safe_pc by blast
  have bound: "(bid - 1) * bar_len n R + (r * (2 * n + 2) + i) \<le> bid * bar_len n R"
    if "0 < bid" "r < R" "i \<le> 2 * n + 2" for bid r i
    using slot_less [OF that(2,3)] that(1) by (cases bid) simp_all
  show ?thesis
  proof (cases "bar_pcs s p")
    case Outside
    then show ?thesis by (simp add: bar_pos_def)
  next
    case (Sending bid r i)
    then show ?thesis using ok bound [of bid r i] by (simp add: bar_pos_def add.assoc)
  next
    case (Waiting bid r i)
    then show ?thesis using ok bound [of bid r "n + 1 + i"] by (simp add: bar_pos_def add.assoc)
  qed
qed

lemma bar_step_buf:
  assumes "bar_step n R N calls s t"
  shows "(bar_buf t = bar_buf s
        \<and> (\<forall>p bid r i. bar_pcs s p = Sending bid r i \<and> i \<le> n \<longrightarrow> bar_pos n R t p = bar_pos n R s p))
    \<or> (\<exists>p bid r i q. p < N \<and> bar_pcs s p = Sending bid r i \<and> i \<le> n \<and> q = team_send_pe n N p r i
        \<and> bar_buf t = (if q \<noteq> p then (bar_buf s)(q := (bar_buf s q)(i - 1 := (bar_buf s q (i - 1))(r := bid))) else bar_buf s)
        \<and> (\<forall>x. x \<noteq> p \<longrightarrow> bar_pos n R t x = bar_pos n R s x))"
  using assms
proof cases
  case (bar_send p bid r i q)
  then have "\<forall>x. x \<noteq> p \<longrightarrow> bar_pos n R t x = bar_pos n R s x" by (auto simp: bar_pos_def)
  with bar_send show ?thesis by (intro disjI2 exI [of _ p] exI [of _ bid] exI [of _ r] exI [of _ i] exI [of _ q]) simp
qed (auto simp: bar_pos_def)

lemma bar_step_sound:
  assumes "bar_step n R N calls s t" "bar_sound n R N calls s" "N \<le> (n + 1) ^ R" "calls + 1 < usize_mod"
  shows "bar_sound n R N calls t"
proof -
  have safe: "bar_safe n R N s" using assms(2) by (simp add: bar_sound_def)
  have safe': "bar_safe n R N t" by (rule bar_step_safe [OF assms(1) safe assms(3,4)])
  have cnt: "bar_cnt t q \<le> calls + 1" if "q < N" for q
    using assms(1)
  proof cases
    case (bar_enter p)
    then show ?thesis using assms(2,4) that by (auto simp: bar_sound_def)
  qed (use assms(2) that in \<open>auto simp: bar_sound_def\<close>)
  obtain p where p: "p < N" "bar_pos n R t p = bar_pos n R s p + 1"
    "\<And>q. q \<noteq> p \<Longrightarrow> bar_pos n R t q = bar_pos n R s q"
    using bar_step_pos [OF assms(1) safe assms(4)] by blast
  have "bid \<le> bar_buf t q (i - 1) r"
    if q: "q < N" "1 \<le> i" "i \<le> n" "r < R" "0 < bid" "team_recv_pe n N q r i \<noteq> q"
      and slot: "(bid - 1) * bar_len n R + r * (2 * n + 2) + i < bar_pos n R t (team_recv_pe n N q r i)" for q i r bid
  proof -
    let ?x = "team_recv_pe n N q r i" and ?v = "(bid - 1) * bar_len n R + r * (2 * n + 2) + i"
    have x: "?x < N" using team_recv_less q(1) by simp
    have old: "bid \<le> bar_buf s q (i - 1) r" if "?v < bar_pos n R s ?x"
      using assms(2) q that unfolding bar_sound_def by (metis atLeastAtMost_iff)
    have new: "bar_pcs s ?x = Sending bid r i" if "\<not> ?v < bar_pos n R s ?x"
    proof -
      have "?v = bar_pos n R s ?x" using that slot p(2,3) by (cases "?x = p") simp_all
      then show ?thesis using pos_send [OF _ q(4,2,3,5)] bar_safe_pc [OF safe x refl] by (metis bar_pos_def)
    qed
    from bar_step_buf [OF assms(1)] show ?thesis
    proof
      assume "bar_buf t = bar_buf s
        \<and> (\<forall>p bid r i. bar_pcs s p = Sending bid r i \<and> i \<le> n \<longrightarrow> bar_pos n R t p = bar_pos n R s p)"
      then show ?thesis using old new slot q(3) by metis
    next
      assume "\<exists>p bid r i q. p < N \<and> bar_pcs s p = Sending bid r i \<and> i \<le> n \<and> q = team_send_pe n N p r i
        \<and> bar_buf t = (if q \<noteq> p then (bar_buf s)(q := (bar_buf s q)(i - 1 := (bar_buf s q (i - 1))(r := bid))) else bar_buf s)
        \<and> (\<forall>x. x \<noteq> p \<longrightarrow> bar_pos n R t x = bar_pos n R s x)"
      then obtain y bid0 r0 i0 where y: "y < N" "bar_pcs s y = Sending bid0 r0 i0" "i0 \<le> n"
        and buf: "bar_buf t = (if team_send_pe n N y r0 i0 \<noteq> y
          then (bar_buf s)(team_send_pe n N y r0 i0 := (bar_buf s (team_send_pe n N y r0 i0))
            (i0 - 1 := (bar_buf s (team_send_pe n N y r0 i0) (i0 - 1))(r0 := bid0))) else bar_buf s)"
        and others: "\<And>z. z \<noteq> y \<Longrightarrow> bar_pos n R t z = bar_pos n R s z" by blast
      have i0: "1 \<le> i0" using bar_safe_pc [OF safe y(1,2)] by simp
      have target: "team_send_pe n N y r i = q \<longleftrightarrow> ?x = y" by (rule send_recv [OF y(1) q(1)])
      show ?thesis
      proof (cases "?x = y \<and> i = i0 \<and> r = r0")
        case True
        then have "bar_buf t q (i - 1) r = bid0" using buf target q(6) by auto
        moreover have "bid \<le> bid0"
        proof (cases "?v < bar_pos n R s ?x")
          case True
          moreover have "bar_pos n R s y = (bid0 - 1) * bar_len n R + r0 * (2 * n + 2) + i0"
            by (simp add: bar_pos_def y(2))
          ultimately have "(bid - 1) * bar_len n R < (bid0 - 1) * bar_len n R"
            using \<open>?x = y \<and> i = i0 \<and> r = r0\<close> by (metis add_less_cancel_right)
          then have "bid - 1 < bid0 - 1" by simp
          then show ?thesis by linarith
        qed (use new True y(2) in auto)
        ultimately show ?thesis by simp
      next
        case False
        have "i - Suc 0 = i0 - Suc 0 \<longleftrightarrow> i = i0" using q(2) i0 by linarith
        then have "bar_buf t q (i - 1) r = bar_buf s q (i - 1) r" using False buf target by (auto split: if_splits)
        moreover have "?v < bar_pos n R s ?x" using new slot others [of ?x] False y(2) by fastforce
        ultimately show ?thesis using old by simp
      qed
    qed
  qed
  with safe' cnt show ?thesis by (auto simp: bar_sound_def)
qed

lemma bar_progress:
  assumes "bar_sound n R N calls s" "x < N" "bar_pos n R s x < calls * bar_len n R"
  shows "\<exists>t. bar_step n R N calls s t"
proof -
  have safe: "bar_safe n R N s" using assms(1) by (simp add: bar_sound_def)
  obtain p where p: "p < N" "\<And>q. q < N \<Longrightarrow> bar_pos n R s p \<le> bar_pos n R s q"
    using ex_has_least_nat [of "\<lambda>p. p < N" x "bar_pos n R s"] assms(2) by blast
  then have pos: "bar_pos n R s p < calls * bar_len n R" using assms(2,3) by (meson le_less_trans)
  have ok: "1 \<le> bar_cnt s p" "pc_ok n R N s p (bar_pcs s p)" using bar_safe_pc [OF safe p(1) refl] by simp_all
  show ?thesis
  proof (cases "bar_pcs s p")
    case Outside
    then have "bar_cnt s p - 1 < calls" using pos by (simp add: bar_pos_def)
    then have "bar_cnt s p \<le> calls" by simp
    then show ?thesis using bar_enter [OF p(1) Outside] by blast
  next
    case (Sending bid r i)
    then show ?thesis using bar_send [OF p(1) Sending] bar_sent [OF p(1) Sending] by blast
  next
    case (Waiting bid r i)
    show ?thesis
    proof (cases "i \<le> n \<and> team_recv_pe n N p r i \<noteq> p")
      case True
      let ?y = "team_recv_pe n N p r i"
      have "bar_pos n R s p = (bid - 1) * bar_len n R + r * (2 * n + 2) + (n + 1) + i"
        using Waiting by (simp add: bar_pos_def)
      then have "(bid - 1) * bar_len n R + r * (2 * n + 2) + i < bar_pos n R s ?y"
        using p(2) [of ?y] team_recv_less [of N n p r i] p(1) by simp
      then have "bid \<le> bar_buf s p (i - 1) r"
        using assms(1) p(1) True ok(2) Waiting unfolding bar_sound_def by auto
      then show ?thesis using bar_recv [OF p(1) Waiting] True by (meson not_less)
    next
      case False
      then show ?thesis using bar_recv [OF p(1) Waiting] bar_done [OF p(1) Waiting] by blast
    qed
  qed
qed

lemma bar_system:
  assumes "N \<le> (n + 1) ^ R" "calls + 1 < usize_mod"
  shows "terminating_system (bar_step n R N calls) (bar_sound n R N calls)
    (\<lambda>s. \<Sum>p<N. calls * bar_len n R - bar_pos n R s p)
    (\<lambda>s. \<forall>p<N. \<not> bar_pos n R s p < calls * bar_len n R)"
proof
  fix s t assume s: "bar_sound n R N calls s" and st: "bar_step n R N calls s t"
  show t: "bar_sound n R N calls t" by (rule bar_step_sound [OF st s assms])
  obtain p where p: "p < N" "bar_pos n R t p = bar_pos n R s p + 1"
    "\<And>q. q \<noteq> p \<Longrightarrow> bar_pos n R t q = bar_pos n R s q"
    using bar_step_pos [OF st _ assms(2)] s by (auto simp: bar_sound_def)
  have "bar_pos n R t p \<le> (bar_cnt t p - 1) * bar_len n R" using pos_le [of n R N t p] t p(1) by (simp add: bar_sound_def)
  also have "\<dots> \<le> calls * bar_len n R"
    using t p(1) by (intro mult_right_mono) (auto simp: bar_sound_def le_diff_conv)
  finally have "bar_pos n R s p < calls * bar_len n R" using p(2) by simp
  then show "(\<Sum>p<N. calls * bar_len n R - bar_pos n R t p) < (\<Sum>p<N. calls * bar_len n R - bar_pos n R s p)"
  proof (intro sum_strict_mono_ex1 ballI)
    fix q show "calls * bar_len n R - bar_pos n R t q \<le> calls * bar_len n R - bar_pos n R s q"
      using p(2,3) by (cases "q = p") simp_all
  qed (use p in \<open>auto intro!: bexI [of _ p]\<close>)
next
  fix s assume "bar_sound n R N calls s" "\<not> (\<forall>p<N. \<not> bar_pos n R s p < calls * bar_len n R)"
  then show "\<exists>t. bar_step n R N calls s t" using bar_progress by blast
qed

lemma bar_new_sound: "bar_sound n R N calls bar_new"
  using bar_new_safe by (auto simp: bar_sound_def bar_pos_def bar_new_def)

section \<open>The number of rounds is enough\<close>

text \<open>What is used of \<open>f64::log2\<close>: it is exact at 2 and otherwise has a small relative error.\<close>

definition log2_accurate :: "(rat \<Rightarrow> rat) \<Rightarrow> bool" where
  "log2_accurate log2 \<longleftrightarrow> log2 2 = 1
     \<and> (\<forall>k. 2 \<le> k \<and> k \<le> 2 ^ 53 \<longrightarrow> \<bar>real_of_rat (log2 (of_nat k)) - log 2 (real k)\<bar> \<le> log 2 (real k) / 2 ^ 40)"

lemma log2_step:
  assumes "2 \<le> (n :: nat)"
  shows "log 2 (real n) * (1 + 1 / real n ^ 2) \<le> log 2 (real (n + 1))"
proof -
  have "- 1 \<le> 1 / real n" by (rule order_trans [of _ 0]) simp_all
  then have "2 \<le> (1 + 1 / real n) ^ n" using Bernoulli_inequality [of "1 / real n" n] assms by simp
  then have "log 2 2 \<le> log 2 ((1 + 1 / real n) ^ n)" using assms by (intro log_mono) simp_all
  then have "1 \<le> real n * log 2 (1 + 1 / n)" using assms by (simp add: log_nat_power)
  then have ge: "1 / n \<le> log 2 (1 + 1 / n)" using assms by (simp add: field_simps)
  have "n < 2 ^ n" by (rule less_exp)
  then have "real n < 2 ^ n" by (metis of_nat_less_numeral_power_cancel_iff)
  then have "log 2 n \<le> log 2 (2 ^ n)" using assms by (intro log_mono) simp_all
  then have "log 2 n \<le> n" by simp
  then have "log 2 n * (1 / n ^ 2) \<le> 1 / n" using assms by (simp add: field_simps power2_eq_square)
  moreover have "log 2 (real (n + 1)) = log 2 n + log 2 (1 + 1 / n)"
  proof -
    have "real (n + 1) = real n * (1 + 1 / n)" using assms by (simp add: field_simps)
    moreover have "0 < 1 + 1 / real n" by (simp add: add_pos_nonneg)
    ultimately show ?thesis using assms by (simp only: log_mult_pos)
  qed
  ultimately show ?thesis using ge by (simp add: distrib_left)
qed

lemma f64_div_ge:
  assumes "0 \<le> x" "0 < y"
  shows "real_of_rat x / real_of_rat y * (1 - 1 / 2 ^ 53) \<le> real_of_rat (f64_div x y)"
proof -
  define q where "q = x / y"
  have "0 \<le> q" using assms by (simp add: q_def)
  then have "\<bar>f64_round q - q\<bar> \<le> q / two53" by (rule f64.rnd_error)
  then have "q - q / two53 \<le> f64_div x y" unfolding f64_div_def q_def [symmetric] by linarith
  then have "real_of_rat (q - q / two53) \<le> real_of_rat (f64_div x y)" by (simp only: of_rat_less_eq)
  then have "real_of_rat q - real_of_rat q / 2 ^ 53 \<le> real_of_rat (f64_div x y)"
    by (simp only: of_rat_diff of_rat_divide of_rat_numeral_eq) simp
  then show ?thesis by (simp add: q_def of_rat_divide right_diff_distrib)
qed

lemma rounds_margin:
  fixes LN Ln A B R L1 d :: real
  assumes pos: "0 < LN" "0 < Ln" "0 < B" and A: "LN * (1 - 1 / 2 ^ 40) \<le> A" and B: "B \<le> Ln * (1 + 1 / 2 ^ 40)"
    and R: "A / B * (1 - 1 / 2 ^ 53) \<le> R" and d: "1 / 2 ^ 32 \<le> d" and L1: "Ln * (1 + d) \<le> L1"
  shows "LN \<le> R * L1"
proof -
  define x :: real where "x = (1 - 1 / 2 ^ 40) / (1 + 1 / 2 ^ 40)"
  define u :: real where "u = 1 - 1 / 2 ^ 53"
  have x: "0 < x" and u: "0 < u" and xu: "1 \<le> x * u * (1 + 1 / 2 ^ 32)" by (simp_all add: x_def u_def)
  have "LN / Ln * x = LN * (1 - 1 / 2 ^ 40) / (Ln * (1 + 1 / 2 ^ 40))" by (simp add: x_def)
  also have "\<dots> \<le> A / B" by (rule frac_le) (use pos A B in \<open>auto intro: order_trans [OF _ A]\<close>)
  finally have "LN / Ln * x * u \<le> A / B * u" using u by (intro mult_right_mono) simp_all
  then have R': "LN / Ln * x * u \<le> R" using R by (simp add: u_def)
  have "LN * 1 \<le> LN * (x * u * (1 + d))"
  proof (rule mult_left_mono)
    have "x * u * (1 + 1 / 2 ^ 32) \<le> x * u * (1 + d)" using d x u by (intro mult_left_mono) simp_all
    with xu show "1 \<le> x * u * (1 + d)" by (rule order_trans)
  qed (use pos in simp)
  also have "\<dots> = (LN / Ln * x * u) * (Ln * (1 + d))" using pos by simp
  also have "\<dots> \<le> R * L1"
  proof (rule mult_mono [OF R' L1])
    have "0 \<le> LN / Ln * x * u" using pos x u by simp
    then show "0 \<le> R" using R' by (rule order_trans)
    have "0 \<le> d" using d by (rule order_trans [rotated]) simp
    then show "0 \<le> Ln * (1 + d)" using pos by simp
  qed
  finally show ?thesis by simp
qed

lemma log2_accurateD:
  assumes "log2_accurate log2" "2 \<le> k" "k \<le> 2 ^ 53"
  shows "log 2 (real k) * (1 - 1 / 2 ^ 40) \<le> real_of_rat (log2 (f64_of_usize k))"
    and "real_of_rat (log2 (f64_of_usize k)) \<le> log 2 (real k) * (1 + 1 / 2 ^ 40)"
proof -
  have "\<bar>real_of_rat (log2 (f64_of_usize k)) - log 2 (real k)\<bar> \<le> log 2 (real k) / 2 ^ 40"
    using assms by (simp add: log2_accurate_def f64_of_usize_exact)
  then show "log 2 (real k) * (1 - 1 / 2 ^ 40) \<le> real_of_rat (log2 (f64_of_usize k))"
    "real_of_rat (log2 (f64_of_usize k)) \<le> log 2 (real k) * (1 + 1 / 2 ^ 40)"
    by (simp_all only: abs_le_iff right_diff_distrib distrib_left times_divide_eq_right mult_1_right) linarith+
qed

lemma rounds_enough:
  assumes "log2_accurate log2" "1 < factor" "factor \<le> 2 ^ 16" "2 \<le> N" "N \<le> 2 ^ 53"
    and "barrier_rounds log2 factor N = (n, R)"
  shows "N \<le> (n + 1) ^ R"
proof (cases "N > 2")
  case False
  with assms(4) have "N = 2" by simp
  moreover have "f64_of_usize 2 = 2" using f64_of_usize_exact [of 2] by simp
  ultimately show ?thesis using assms(1,6) by (auto simp: barrier_rounds_def log2_accurate_def f64_floor_usize_def)
next
  case True
  let ?A = "log2 (f64_of_usize N)" and ?B = "log2 (f64_of_usize factor)"
  have n: "n = factor" "R = f64_ceil_usize (f64_div ?A ?B)" using assms(2,6) True by (auto simp: barrier_rounds_def)
  have L: "0 < log 2 (real N)" "0 < log 2 (real n)" using assms(2,4) n by simp_all
  have A: "log 2 (real N) * (1 - 1 / 2 ^ 40) \<le> real_of_rat ?A" by (rule log2_accurateD(1) [OF assms(1,4,5)])
  have B: "log 2 (real n) * (1 - 1 / 2 ^ 40) \<le> real_of_rat ?B" "real_of_rat ?B \<le> log 2 (real n) * (1 + 1 / 2 ^ 40)"
    using log2_accurateD [OF assms(1), of factor] assms(2,3) n by simp_all
  have "0 < real_of_rat ?A" "0 < real_of_rat ?B"
    by (rule less_le_trans [OF _ A], use L in simp, rule less_le_trans [OF _ B(1)], use L in simp)
  then have pos: "0 < ?A" "0 < ?B" by simp_all
  have "f64_div ?A ?B \<le> of_nat R" unfolding n(2) f64_ceil_usize_def by (rule of_nat_ceiling)
  then have "real_of_rat (f64_div ?A ?B) \<le> real_of_rat (of_nat R)" by (simp only: of_rat_less_eq)
  then have R: "real_of_rat ?A / real_of_rat ?B * (1 - 1 / 2 ^ 53) \<le> real R"
    using f64_div_ge [of ?A ?B] pos by simp
  have "(real n) ^ 2 \<le> (2 ^ 16) ^ 2" using assms(3) n by (intro power_mono) (simp_all add: numeral_power_le_of_nat_cancel_iff)
  then have d: "1 / 2 ^ 32 \<le> 1 / real n ^ 2" using assms(2) n by (intro divide_left_mono) simp_all
  have "log 2 (real N) \<le> real R * log 2 (real (n + 1))"
    by (rule rounds_margin [OF L _ A B(2) R d log2_step]) (use pos assms(2) n in simp_all)
  also have "\<dots> = log 2 (real ((n + 1) ^ R))" by (simp add: log_nat_power)
  finally have "real N \<le> real ((n + 1) ^ R)" using assms(4) by (subst (asm) log_le_cancel_iff) simp_all
  then show ?thesis by (simp only: of_nat_le_iff)
qed

lemma pos_less:
  assumes "bar_safe n R N s" "p < N" "bar_pcs s p \<noteq> Outside"
  shows "bar_pos n R s p < (bar_cnt s p - 1) * bar_len n R"
proof -
  have ok: "pc_ok n R N s p (bar_pcs s p)" using bar_safe_pc [OF assms(1,2) refl] by simp
  have bound: "(bid - 1) * bar_len n R + (r * (2 * n + 2) + i) < bid * bar_len n R"
    if "0 < bid" "r < R" "i \<le> 2 * n + 2" for bid r i
    using slot_less [OF that(2,3)] that(1) by (cases bid) simp_all
  show ?thesis
  proof (cases "bar_pcs s p")
    case (Sending bid r i)
    then show ?thesis using ok bound [of bid r i] by (simp add: bar_pos_def add.assoc)
  next
    case (Waiting bid r i)
    then show ?thesis using ok bound [of bid r "n + 1 + i"] by (simp add: bar_pos_def add.assoc)
  qed (use assms(3) in simp)
qed

lemma bar_final:
  assumes "bar_sound n R N calls s" "p < N" "\<not> bar_pos n R s p < calls * bar_len n R"
  shows "bar_pcs s p = Outside \<and> bar_cnt s p = calls + 1"
proof -
  have safe: "bar_safe n R N s" and cnt: "bar_cnt s p - 1 \<le> calls" "1 \<le> bar_cnt s p"
    using assms(1,2) by (auto simp: bar_sound_def bar_safe_def le_diff_conv)
  have "(bar_cnt s p - 1) * bar_len n R \<le> calls * bar_len n R" using cnt(1) by (rule mult_right_mono) simp
  then have out: "bar_pcs s p = Outside" using pos_less [OF safe assms(2)] assms(3) by linarith
  then have "calls * bar_len n R \<le> (bar_cnt s p - 1) * bar_len n R"
    using assms(3) by (simp only: bar_pos_def pc_pos.simps not_less)
  moreover have "0 < bar_len n R" by (simp add: bar_len_def)
  ultimately have "calls \<le> bar_cnt s p - 1" by (simp only: mult_le_cancel2)
  with out cnt show ?thesis by simp
qed

definition log2_table :: "rat \<Rightarrow> rat" where
  "log2_table x = of_int \<lfloor>log 2 (real_of_rat x) * 2 ^ 60\<rfloor> / 2 ^ 60"

lemma log2_table_accurate: "log2_accurate log2_table"
  unfolding log2_accurate_def
proof (intro conjI allI impI)
  show "log2_table 2 = 1" by (simp add: log2_table_def)
  fix k :: nat assume k: "2 \<le> k \<and> k \<le> 2 ^ 53"
  let ?l = "log 2 (real k)"
  have "1 \<le> ?l" using k by (simp add: le_log_iff)
  then have small: "1 / 2 ^ 60 \<le> ?l / 2 ^ 40" by simp
  have "of_int \<lfloor>?l * 2 ^ 60\<rfloor> \<le> ?l * 2 ^ 60" "?l * 2 ^ 60 < of_int \<lfloor>?l * 2 ^ 60\<rfloor> + 1" by linarith+
  then have "\<bar>of_int \<lfloor>?l * 2 ^ 60\<rfloor> / 2 ^ 60 - ?l\<bar> \<le> 1 / 2 ^ 60" by (simp add: abs_le_iff field_simps)
  moreover have "real_of_rat (log2_table (of_nat k)) = of_int \<lfloor>?l * 2 ^ 60\<rfloor> / 2 ^ 60"
    by (simp add: log2_table_def of_rat_divide of_rat_power)
  ultimately have "\<bar>real_of_rat (log2_table (of_nat k)) - ?l\<bar> \<le> 1 / 2 ^ 60" by (simp only:)
  then show "\<bar>real_of_rat (log2_table (of_nat k)) - ?l\<bar> \<le> ?l / 2 ^ 40" using small by (rule order_trans)
qed

section \<open>Properties\<close>

text \<open>
  C17.  The barrier separates.  With a dissemination factor above 1 (the default is 2), in
  every interleaving, a PE that has left its \<open>k\<close>th barrier implies that every PE of the team has entered its
  \<open>k\<close>th barrier; and no PE is ever more than one barrier ahead of another.  The number of rounds is
  the one \<open>Barrier::new\<close> computes with a logarithm of bounded relative error.
\<close>

theorem barrier_safety:
  assumes "log2_accurate log2" "1 < factor" "factor \<le> 2 ^ 16" "2 \<le> N" "N \<le> 2 ^ 53"
    and "barrier_rounds log2 factor N = (n, R)" "calls + 1 < usize_mod"
    and "(bar_step n R N calls)\<^sup>*\<^sup>* bar_new s" "p < N" "q < N"
  shows "(bar_pcs s p = Outside \<longrightarrow> bar_cnt s p \<le> bar_cnt s q) \<and> bar_cnt s p \<le> bar_cnt s q + 1"
proof -
  have R: "N \<le> (n + 1) ^ R" by (rule rounds_enough [OF assms(1-6)])
  have "bar_sound n R N calls s"
    by (rule terminating_system.reach_inv [OF bar_system [OF R assms(7)] assms(8) bar_new_sound])
  then have safe: "bar_safe n R N s" by (simp add: bar_sound_def)
  have p: "1 \<le> bar_cnt s p" "pc_ok n R N s p (bar_pcs s p)" using bar_safe_pc [OF safe assms(9) refl] by simp_all
  have "ring_dist N p q < N" by (rule ring_dist_less) (use assms(4) in simp)
  with p assms(10) show ?thesis by (cases "bar_pcs s p") (fastforce simp: knows_def)+
qed

theorem barrier_safety_witness:
  "\<exists>n R. barrier_rounds log2_table 2 3 = (n, R) \<and> (bar_step n R 3 5)\<^sup>*\<^sup>* bar_new bar_new \<and> bar_cnt bar_new 0 \<le> bar_cnt bar_new 2"
proof -
  obtain n R where r: "barrier_rounds log2_table 2 3 = (n, R)" by fastforce
  have "(bar_step n R 3 5)\<^sup>*\<^sup>* bar_new bar_new" by simp
  moreover have "bar_pcs bar_new 0 = Outside" by (simp add: bar_new_def)
  ultimately show ?thesis using barrier_safety [OF log2_table_accurate _ _ _ _ r, of 5 bar_new 0 2] r by (simp add: usize_mod_def)
qed

text \<open>
  C18.  The barrier never deadlocks.  When every PE calls the barrier \<open>calls\<close> times, every execution
  is finite, and it can only stop when every PE has left its last barrier.
\<close>

theorem barrier_live:
  assumes "log2_accurate log2" "1 < factor" "factor \<le> 2 ^ 16" "2 \<le> N" "N \<le> 2 ^ 53"
    and "barrier_rounds log2 factor N = (n, R)" "calls + 1 < usize_mod"
    and "(bar_step n R N calls ^^ m) bar_new s"
  shows "m \<le> N * (calls * (R * (2 * n + 2) + 1))
    \<and> ((\<forall>t. \<not> bar_step n R N calls s t) \<longrightarrow> (\<forall>p<N. bar_pcs s p = Outside \<and> bar_cnt s p = calls + 1))"
proof -
  have R: "N \<le> (n + 1) ^ R" by (rule rounds_enough [OF assms(1-6)])
  note sys = bar_system [OF R assms(7)]
  have "m \<le> (\<Sum>p<N. calls * bar_len n R - bar_pos n R bar_new p)"
    by (rule terminating_system.run_bound [OF sys bar_new_sound assms(8)])
  then have "m \<le> N * (calls * bar_len n R)" by (simp add: bar_pos_def bar_new_def)
  moreover have "bar_sound n R N calls s"
    by (rule terminating_system.reach_inv [OF sys relpowp_imp_rtranclp [OF assms(8)] bar_new_sound])
  ultimately show ?thesis
    using terminating_system.progress [OF sys, of s] bar_final [of n R N calls s] by (auto simp: bar_len_def)
qed

theorem barrier_live_witness:
  "\<exists>n R m s. barrier_rounds log2_table 2 3 = (n, R) \<and> (bar_step n R 3 5 ^^ m) bar_new s
     \<and> map (bar_pcs s) [0, 1, 2] = [Outside, Outside, Outside] \<and> map (bar_cnt s) [0, 1, 2] = [6, 6, 6]"
proof -
  obtain n R where r: "barrier_rounds log2_table 2 3 = (n, R)" by fastforce
  have R: "3 \<le> (n + 1) ^ R" by (rule rounds_enough [OF log2_table_accurate _ _ _ _ r]) simp_all
  obtain m s where run: "(bar_step n R 3 5 ^^ m) bar_new s" "\<forall>t. \<not> bar_step n R 3 5 s t"
    using terminating_system.ends [OF bar_system [OF R] bar_new_sound, of 5] by (auto simp: usize_mod_def)
  from barrier_live [OF log2_table_accurate _ _ _ _ r _ run(1)] run(2)
  have "\<forall>p<3. bar_pcs s p = Outside \<and> bar_cnt s p = 6" by (simp add: usize_mod_def)
  then have "map (bar_pcs s) [0, 1, 2] = [Outside, Outside, Outside] \<and> map (bar_cnt s) [0, 1, 2] = [6, 6, 6]" by simp
  then show ?thesis by (intro exI [of _ n] exI [of _ R] exI [of _ m] exI [of _ s] conjI run(1) r) simp_all
qed

text \<open>
  With a dissemination factor of 1 the barrier does not separate.  For three PEs the
  number of rounds is the logarithm of 3 rounded down, 1; in one round a PE hears of one other PE only.  PE 0
  can leave its first barrier although PE 1 has not entered it.
\<close>

theorem barrier_factor_one:
  assumes "1 \<le> log2 3" "log2 3 < 2"
  shows "barrier_rounds log2 1 3 = (1, 1)
    \<and> (\<exists>s. (bar_step 1 1 3 1)\<^sup>*\<^sup>* bar_new s \<and> bar_pcs s 0 = Outside \<and> bar_cnt s 0 = 2 \<and> bar_cnt s 1 = 1)"
proof
  have "\<lfloor>log2 3\<rfloor> = 1" using assms by (simp add: floor_eq_iff)
  moreover have "f64_of_usize 3 = 3" using f64_of_usize_exact [of 3] by simp
  ultimately show "barrier_rounds log2 1 3 = (1, 1)" by (simp add: barrier_rounds_def f64_floor_usize_def)
  let ?S = "\<lambda>c g b. \<lparr>bar_cnt = c, bar_pcs = g, bar_buf = b\<rparr>"
  let ?ca = "(\<lambda>_. 1)(2 := 2) :: nat \<Rightarrow> nat" and ?g = "\<lambda>_. Outside"
  let ?cb = "?ca(0 := 2)" and ?bufO = "(\<lambda>_ _ _. 0) :: nat \<Rightarrow> nat \<Rightarrow> nat \<Rightarrow> nat"
  let ?bufA = "?bufO(0 := (?bufO 0)(0 := (?bufO 0 0)(0 := 1)))"
  let ?bufB = "?bufA(1 := (?bufA 1)(0 := (?bufA 1 0)(0 := 1)))"
  have u: "fetch_add_usize 1 1 = 2" by (simp add: usize_mod_def)
  have 1: "bar_step 1 1 3 1 bar_new (?S ?ca (?g(2 := Sending 1 0 1)) ?bufO)"
    using bar_enter [of 2 3 bar_new 1 1 1] u by (simp add: bar_new_def bar_round_def)
  have 2: "bar_step 1 1 3 1 (?S ?ca (?g(2 := Sending 1 0 1)) ?bufO) (?S ?ca (?g(2 := Sending 1 0 2)) ?bufA)"
    using bar_send [of 2 3 "?S ?ca (?g(2 := Sending 1 0 1)) ?bufO" 1 0 1 1 _ 1 1] by (simp add: team_send_pe_def numeral_2_eq_2)
  have 3: "bar_step 1 1 3 1 (?S ?ca (?g(2 := Sending 1 0 2)) ?bufA) (?S ?cb (?g(2 := Sending 1 0 2, 0 := Sending 1 0 1)) ?bufA)"
    using bar_enter [of 0 3 "?S ?ca (?g(2 := Sending 1 0 2)) ?bufA" 1 1 1] u by (simp add: bar_round_def)
  have 4: "bar_step 1 1 3 1 (?S ?cb (?g(2 := Sending 1 0 2, 0 := Sending 1 0 1)) ?bufA)
      (?S ?cb (?g(2 := Sending 1 0 2, 0 := Sending 1 0 2)) ?bufB)"
    using bar_send [of 0 3 "?S ?cb (?g(2 := Sending 1 0 2, 0 := Sending 1 0 1)) ?bufA" 1 0 1 1 _ 1 1]
    by (simp add: team_send_pe_def numeral_2_eq_2)
  have 5: "bar_step 1 1 3 1 (?S ?cb (?g(2 := Sending 1 0 2, 0 := Sending 1 0 2)) ?bufB)
      (?S ?cb (?g(2 := Sending 1 0 2, 0 := Waiting 1 0 1)) ?bufB)"
    using bar_sent [of 0 3 "?S ?cb (?g(2 := Sending 1 0 2, 0 := Sending 1 0 2)) ?bufB" 1 0 2 1 1 1] by simp
  have 6: "bar_step 1 1 3 1 (?S ?cb (?g(2 := Sending 1 0 2, 0 := Waiting 1 0 1)) ?bufB)
      (?S ?cb (?g(2 := Sending 1 0 2, 0 := Waiting 1 0 2)) ?bufB)"
    using bar_recv [of 0 3 "?S ?cb (?g(2 := Sending 1 0 2, 0 := Waiting 1 0 1)) ?bufB" 1 0 1 1 1 1] by (simp add: numeral_2_eq_2)
  have 7: "bar_step 1 1 3 1 (?S ?cb (?g(2 := Sending 1 0 2, 0 := Waiting 1 0 2)) ?bufB)
      (?S ?cb (?g(2 := Sending 1 0 2, 0 := Outside)) ?bufB)"
    using bar_done [of 0 3 "?S ?cb (?g(2 := Sending 1 0 2, 0 := Waiting 1 0 2)) ?bufB" 1 0 2 1 1 1] by (simp add: bar_round_def)
  have "(bar_step 1 1 3 1)\<^sup>*\<^sup>* bar_new (?S ?cb (?g(2 := Sending 1 0 2, 0 := Outside)) ?bufB)"
    using 1 2 3 4 5 6 7 by (meson converse_rtranclp_into_rtranclp rtranclp.rtrancl_refl)
  then show "\<exists>s. (bar_step 1 1 3 1)\<^sup>*\<^sup>* bar_new s \<and> bar_pcs s 0 = Outside \<and> bar_cnt s 0 = 2 \<and> bar_cnt s 1 = 1"
    by (intro exI conjI) auto
qed

theorem barrier_factor_one_witness:
  "barrier_rounds (\<lambda>_. 3 / 2) 1 3 = (1, 1)
    \<and> (\<exists>s. (bar_step 1 1 3 1)\<^sup>*\<^sup>* bar_new s \<and> bar_pcs s 0 = Outside \<and> bar_cnt s 0 = 2 \<and> bar_cnt s 1 = 1)"
  using barrier_factor_one [of "\<lambda>_. 3 / 2"] by simp

end
