(* ===== verification/Dist_RwLock.thy ===== *)
theory Dist_RwLock
  imports Transition_Systems
begin

text \<open>
  The global read-write lock behind \<open>GlobalRwDarc\<close> (\<open>darc/global_rw_darc.rs\<close>).  The lock words live on
  PE 0 of the team.  Every lock request is an active message (\<open>LockAm\<close>) that runs there, every
  unlock another (\<open>UnlockAm\<close>); these tasks interleave at their atomic operations.  A task is
  where it stands in its lock function, in the critical section of the guard, or in its unlock
  function.  A wait loop is a step that is enabled when its condition holds.
\<close>

section \<open>The lock\<close>

record dist_rw_lock =
  rl_readers :: nat
  rl_writer :: nat
  rl_collective_writer :: nat
  rl_collective_cnt :: nat

definition dist_rw_lock_new :: "nat \<Rightarrow> dist_rw_lock" where
  "dist_rw_lock_new num_pes = \<lparr>rl_readers = 0, rl_writer = num_pes, rl_collective_writer = num_pes,
     rl_collective_cnt = num_pes + 1\<rparr>"

datatype lock_type = LockRead | LockWrite | LockCollectiveWrite nat

text \<open>The positions of a task.\<close>

datatype reader_phase = RCheck | RInc | RRecheck | RDec | RHeld

datatype writer_phase = WCas | WWait | WHeld

datatype coll_phase = CStart | CWait | CSub | CAll | CHeld | CAdd | CJoin | CRelease

datatype rw_task = Reader reader_phase | Writer nat writer_phase | Coll nat nat coll_phase | Done | Panicked

definition lock_am :: "nat \<Rightarrow> lock_type \<Rightarrow> rw_task" where
  "lock_am orig_pe lt = (case lt of
     LockRead \<Rightarrow> Reader RCheck
   | LockWrite \<Rightarrow> Writer orig_pe WCas
   | LockCollectiveWrite cnt \<Rightarrow> Coll orig_pe cnt CStart)"

subsection \<open>Lock and unlock functions, one atomic operation at a time\<close>

text \<open>\<open>async_reader_lock\<close>, and \<open>reader_unlock\<close> from \<open>RHeld\<close>.\<close>

fun reader_act :: "nat \<Rightarrow> reader_phase \<Rightarrow> dist_rw_lock \<Rightarrow> (rw_task \<times> dist_rw_lock) option" where
  "reader_act N RCheck l = (if rl_writer l \<noteq> N then None else Some (Reader RInc, l))"
| "reader_act N RInc l = Some (Reader RRecheck, l\<lparr>rl_readers := fetch_add_usize (rl_readers l) 1\<rparr>)"
| "reader_act N RRecheck l = (if rl_writer l = N then Some (Reader RHeld, l) else Some (Reader RDec, l))"
| "reader_act N RDec l = Some (Reader RCheck, l\<lparr>rl_readers := fetch_sub_usize (rl_readers l) 1\<rparr>)"
| "reader_act N RHeld l = Some (Done, l\<lparr>rl_readers := fetch_sub_usize (rl_readers l) 1\<rparr>)"

text \<open>\<open>async_writer_lock\<close>, and \<open>writer_unlock\<close> from \<open>WHeld\<close>.\<close>

fun writer_act :: "nat \<Rightarrow> nat \<Rightarrow> writer_phase \<Rightarrow> dist_rw_lock \<Rightarrow> (rw_task \<times> dist_rw_lock) option" where
  "writer_act N pe WCas l = (if rl_writer l = N then Some (Writer pe WWait, l\<lparr>rl_writer := pe\<rparr>) else None)"
| "writer_act N pe WWait l = (if rl_readers l \<noteq> 0 then None else Some (Writer pe WHeld, l))"
| "writer_act N pe WHeld l =
     (if rl_writer l = pe then Some (Done, l\<lparr>rl_writer := N\<rparr>) else Some (Panicked, l))"

text \<open>
  \<open>async_collective_writer_lock\<close>: PE 0 runs \<open>async_writer_lock\<close> with the collective count as
  its id, the others wait for it; and \<open>collective_writer_unlock\<close> from \<open>CHeld\<close>.
\<close>

fun coll_act :: "nat \<Rightarrow> nat \<Rightarrow> nat \<Rightarrow> coll_phase \<Rightarrow> dist_rw_lock \<Rightarrow> (rw_task \<times> dist_rw_lock) option" where
  "coll_act N pe cnt CStart l =
     (if pe = 0 then (if rl_writer l = N then Some (Coll pe cnt CWait, l\<lparr>rl_writer := cnt\<rparr>) else None)
      else if rl_writer l \<noteq> cnt then None else Some (Coll pe cnt CWait, l))"
| "coll_act N pe cnt CWait l = (if rl_readers l \<noteq> 0 then None else Some (Coll pe cnt CSub, l))"
| "coll_act N pe cnt CSub l =
     Some (Coll pe cnt CAll, l\<lparr>rl_collective_writer := fetch_sub_usize (rl_collective_writer l) 1\<rparr>)"
| "coll_act N pe cnt CAll l = (if rl_collective_writer l \<noteq> 0 then None else Some (Coll pe cnt CHeld, l))"
| "coll_act N pe cnt CHeld l =
     (if cnt \<noteq> rl_writer l then Some (Panicked, l) else Some (Coll pe cnt CAdd, l))"
| "coll_act N pe cnt CAdd l =
     Some (Coll pe cnt CJoin, l\<lparr>rl_collective_writer := fetch_add_usize (rl_collective_writer l) 1\<rparr>)"
| "coll_act N pe cnt CJoin l =
     (if rl_collective_writer l \<noteq> N then None
      else Some (if pe = 0 then Coll pe cnt CRelease else Done, l))"
| "coll_act N pe cnt CRelease l =
     (if rl_writer l = cnt then Some (Done, l\<lparr>rl_writer := N\<rparr>) else Some (Panicked, l))"

fun task_act :: "nat \<Rightarrow> rw_task \<Rightarrow> dist_rw_lock \<Rightarrow> (rw_task \<times> dist_rw_lock) option" where
  "task_act N (Reader ph) l = reader_act N ph l"
| "task_act N (Writer pe ph) l = writer_act N pe ph l"
| "task_act N (Coll pe cnt ph) l = coll_act N pe cnt ph l"
| "task_act N Done l = None"
| "task_act N Panicked l = None"

record rw_state =
  rw_lock :: dist_rw_lock
  rw_tasks :: "rw_task list"

inductive rw_step :: "nat \<Rightarrow> rw_state \<Rightarrow> rw_state \<Rightarrow> bool" for N where
  rw_act: "i < length (rw_tasks s) \<Longrightarrow> task_act N (rw_tasks s ! i) (rw_lock s) = Some (x, l) \<Longrightarrow>
    rw_step N s \<lparr>rw_lock = l, rw_tasks = (rw_tasks s)[i := x]\<rparr>"

text \<open>
  The requests: the PE and the lock type of each, as \<open>read\<close>, \<open>write\<close> and \<open>collective_write\<close> put them into a \<open>LockAm\<close>.  \<open>collective_write\<close> takes
  the number of the call from \<open>collective_cnt\<close>, a counter of the PE that starts at \<open>num_pes + 1\<close> and that \<open>fetch_add\<close> raises, so that a PE does not
  use a number twice: this is the condition \<open>reqs_ok\<close>.
\<close>

definition rw_start :: "nat \<Rightarrow> (nat \<times> lock_type) list \<Rightarrow> rw_state" where
  "rw_start N reqs = \<lparr>rw_lock = dist_rw_lock_new N, rw_tasks = map (\<lambda>(pe, lt). lock_am pe lt) reqs\<rparr>"

definition reqs_ok :: "nat \<Rightarrow> (nat \<times> lock_type) list \<Rightarrow> bool" where
  "reqs_ok N reqs \<longleftrightarrow> N < usize_mod \<and> length reqs < usize_mod \<and> (\<forall>(pe, lt) \<in> set reqs. pe < N
       \<and> (case lt of LockCollectiveWrite cnt \<Rightarrow> N < cnt | _ \<Rightarrow> True))
     \<and> distinct (filter (\<lambda>(pe, lt). lt \<noteq> LockRead \<and> lt \<noteq> LockWrite) reqs)"

section \<open>The invariant\<close>

fun active_reader :: "rw_task \<Rightarrow> bool" where
  "active_reader (Reader ph) \<longleftrightarrow> ph \<in> {RRecheck, RDec, RHeld}"
| "active_reader _ \<longleftrightarrow> False"

text \<open>The value of \<open>writer\<close> that a task has stored and not yet reset.\<close>

fun owner_id :: "rw_task \<Rightarrow> nat option" where
  "owner_id (Writer pe ph) = (if ph = WCas then None else Some pe)"
| "owner_id (Coll pe cnt ph) = (if pe = 0 \<and> ph \<noteq> CStart then Some cnt else None)"
| "owner_id _ = None"

text \<open>A PE other than 0 that takes part in a collective section, with its number.\<close>

fun member_id :: "rw_task \<Rightarrow> nat option" where
  "member_id (Coll pe cnt ph) = (if pe \<noteq> 0 \<and> ph \<in> {CWait, CSub, CAll, CHeld, CAdd} then Some cnt else None)"
| "member_id _ = None"

text \<open>Tasks counted by \<open>collective_writer\<close>.\<close>

fun joined :: "rw_task \<Rightarrow> bool" where
  "joined (Coll pe cnt ph) \<longleftrightarrow> ph \<in> {CAll, CHeld, CAdd}"
| "joined _ \<longleftrightarrow> False"

text \<open>Tasks that have seen that there are no readers while \<open>writer\<close> was set.\<close>

fun exclusive :: "rw_task \<Rightarrow> bool" where
  "exclusive (Writer pe ph) \<longleftrightarrow> ph = WHeld"
| "exclusive (Coll pe cnt ph) \<longleftrightarrow> ph \<in> {CSub, CAll, CHeld, CAdd} \<or> pe = 0 \<and> ph \<in> {CJoin, CRelease}"
| "exclusive _ \<longleftrightarrow> False"

fun task_ok :: "nat \<Rightarrow> dist_rw_lock \<Rightarrow> rw_task \<Rightarrow> bool" where
  "task_ok N l (Writer pe ph) \<longleftrightarrow> pe < N \<and> (ph \<noteq> WCas \<longrightarrow> rl_writer l = pe)"
| "task_ok N l (Coll pe cnt ph) \<longleftrightarrow> pe < N \<and> N < cnt
     \<and> (pe = 0 \<and> ph \<noteq> CStart \<or> pe \<noteq> 0 \<and> ph \<in> {CWait, CSub, CAll, CHeld, CAdd} \<longrightarrow> rl_writer l = cnt)
     \<and> (pe \<noteq> 0 \<longrightarrow> ph \<noteq> CRelease)"
| "task_ok N l Panicked \<longleftrightarrow> False"
| "task_ok N l _ \<longleftrightarrow> True"

text \<open>What two different tasks never do at the same time.\<close>

fun coll_apart :: "rw_task \<Rightarrow> rw_task \<Rightarrow> bool" where
  "coll_apart (Coll pe cnt ph) (Coll pe' cnt' ph') \<longleftrightarrow> cnt = cnt' \<longrightarrow> pe \<noteq> pe'
     \<and> (ph \<in> {CHeld, CAdd, CJoin, CRelease} \<longrightarrow> ph' \<notin> {CStart, CWait, CSub})
     \<and> (ph = CRelease \<longrightarrow> ph' = CJoin)"
| "coll_apart _ _ \<longleftrightarrow> True"

definition apart :: "rw_task \<Rightarrow> rw_task \<Rightarrow> bool" where
  "apart x y \<longleftrightarrow> coll_apart x y \<and> (owner_id x = None \<or> owner_id y = None) \<and> (exclusive x \<longrightarrow> y \<noteq> Reader RHeld)"

definition rw_inv :: "nat \<Rightarrow> rw_state \<Rightarrow> bool" where
  "rw_inv N s \<longleftrightarrow> N < usize_mod \<and> length (rw_tasks s) < usize_mod
     \<and> (\<forall>i<length (rw_tasks s). task_ok N (rw_lock s) (rw_tasks s ! i))
     \<and> (\<forall>i<length (rw_tasks s). \<forall>j<length (rw_tasks s). i \<noteq> j \<longrightarrow> apart (rw_tasks s ! i) (rw_tasks s ! j))
     \<and> (rl_writer (rw_lock s) \<noteq> N \<longrightarrow> (\<exists>x\<in>set (rw_tasks s). owner_id x \<noteq> None))
     \<and> rl_readers (rw_lock s) = length (filter active_reader (rw_tasks s))
     \<and> rl_collective_writer (rw_lock s) + length (filter joined (rw_tasks s)) = N"

lemma distinct_filter_nth:
  "distinct (filter P xs) \<Longrightarrow> i < length xs \<Longrightarrow> j < length xs \<Longrightarrow> i \<noteq> j \<Longrightarrow> P (xs ! i) \<Longrightarrow> xs ! i \<noteq> xs ! j"
proof (induction xs arbitrary: i j)
  case (Cons x xs)
  then show ?case by (cases i; cases j) (auto split: if_splits)
qed simp

subsection \<open>Consequences for one task\<close>

lemma task_ok_owner: "task_ok N l y \<Longrightarrow> owner_id y = Some v \<Longrightarrow> rl_writer l = v \<and> v \<noteq> N"
  by (cases y) (auto split: if_splits)

lemma task_ok_member: "task_ok N l y \<Longrightarrow> member_id y = Some v \<Longrightarrow> rl_writer l = v \<and> N < v"
  by (cases y) (auto split: if_splits)

lemma task_ok_free: "task_ok N l y \<Longrightarrow> owner_id y = None \<Longrightarrow> member_id y = None \<Longrightarrow> task_ok N l' y"
  by (cases y) (auto split: if_splits)

lemma task_ok_idle: "task_ok N l y \<Longrightarrow> rl_writer l = N \<Longrightarrow> owner_id y = None \<and> member_id y = None"
  using task_ok_owner task_ok_member by (metis less_irrefl not_Some_eq)

lemma task_ok_cong: "rl_writer l' = rl_writer l \<Longrightarrow> task_ok N l' y = task_ok N l y"
  by (cases y) auto

lemma task_ok_exclusive: "task_ok N l y \<Longrightarrow> exclusive y \<Longrightarrow> rl_writer l \<noteq> N"
  by (cases y) auto

lemma task_ok_joined: "task_ok N l y \<Longrightarrow> joined y \<Longrightarrow> \<exists>pe ph. y = Coll pe (rl_writer l) ph \<and> pe < N"
  by (cases y) auto

lemma rw_inv_task: "rw_inv N s \<Longrightarrow> i < length (rw_tasks s) \<Longrightarrow> task_ok N (rw_lock s) (rw_tasks s ! i)"
  by (simp add: rw_inv_def)

lemma rw_inv_apart:
  "rw_inv N s \<Longrightarrow> i < length (rw_tasks s) \<Longrightarrow> j < length (rw_tasks s) \<Longrightarrow> i \<noteq> j \<Longrightarrow> apart (rw_tasks s ! i) (rw_tasks s ! j)"
  by (simp add: rw_inv_def)

text \<open>
  A participant of the current collective section that is not counted leaves room for itself:
  fewer than \<open>N\<close> tasks are counted.
\<close>

lemma joined_room:
  assumes "rw_inv N s" "i < length (rw_tasks s)" "rw_tasks s ! i = Coll pe cnt ph"
    and "\<not> joined (rw_tasks s ! i)" "rl_writer (rw_lock s) = cnt"
  shows "length (filter joined (rw_tasks s)) < N"
proof -
  let ?ts = "rw_tasks s"
  define pe_of where "pe_of x = (case x of Coll pe cnt ph \<Rightarrow> pe | _ \<Rightarrow> 0)" for x
  let ?J = "{k. k < length ?ts \<and> joined (?ts ! k)}"
  have shape: "\<exists>p ph. ?ts ! k = Coll p cnt ph \<and> p < N" if "k \<in> insert i ?J" for k
  proof (cases "k = i")
    case True
    then show ?thesis using rw_inv_task [OF assms(1,2)] assms(3) by simp
  next
    case False
    then have k: "k < length ?ts" "joined (?ts ! k)" using that by simp_all
    from task_ok_joined [OF rw_inv_task [OF assms(1) k(1)] k(2)] assms(5) show ?thesis by auto
  qed
  have "inj_on (\<lambda>k. pe_of (?ts ! k)) (insert i ?J)"
  proof (rule inj_onI)
    fix j k assume jk: "j \<in> insert i ?J" "k \<in> insert i ?J" "pe_of (?ts ! j) = pe_of (?ts ! k)"
    obtain p ph p' ph' where *: "?ts ! j = Coll p cnt ph" "?ts ! k = Coll p' cnt ph'" using shape [OF jk(1)] shape [OF jk(2)] by metis
    then have "\<not> apart (?ts ! j) (?ts ! k)" using jk(3) by (simp add: apart_def pe_of_def)
    then show "j = k" using rw_inv_apart [OF assms(1), of j k] jk(1,2) assms(2) by auto
  qed
  moreover have "(\<lambda>k. pe_of (?ts ! k)) ` insert i ?J \<subseteq> {..<N}" using shape by (force simp: pe_of_def)
  ultimately have "card (insert i ?J) \<le> N" using card_inj_on_le [of _ "insert i ?J" "{..<N}"] by simp
  moreover have "card (insert i ?J) = Suc (length (filter joined ?ts))" using assms(4) by (simp add: length_filter_conv_card)
  ultimately show ?thesis by simp
qed

lemma rw_update:
  assumes s: "rw_inv N s" and i: "i < length (rw_tasks s)" "rw_tasks s ! i = x"
    and ok: "task_ok N l' x'" "\<And>j. j < length (rw_tasks s) \<Longrightarrow> j \<noteq> i \<Longrightarrow> task_ok N l' (rw_tasks s ! j)"
    and ap: "\<And>j. j < length (rw_tasks s) \<Longrightarrow> j \<noteq> i \<Longrightarrow> apart x' (rw_tasks s ! j) \<and> apart (rw_tasks s ! j) x'"
    and own: "rl_writer l' \<noteq> N \<Longrightarrow> owner_id x' \<noteq> None \<or> owner_id x = None \<and> rl_writer (rw_lock s) \<noteq> N"
    and rd: "rl_readers l' + of_bool (active_reader x) = rl_readers (rw_lock s) + of_bool (active_reader x')"
    and co: "rl_collective_writer l' + of_bool (joined x') = rl_collective_writer (rw_lock s) + of_bool (joined x)"
  shows "rw_inv N \<lparr>rw_lock = l', rw_tasks = (rw_tasks s)[i := x']\<rparr>"
proof -
  let ?ts = "rw_tasks s"
  have "\<forall>j<length ?ts. task_ok N l' (?ts[i := x'] ! j)" using ok i(1) by (auto simp: nth_list_update)
  moreover have "\<forall>j<length ?ts. \<forall>k<length ?ts. j \<noteq> k \<longrightarrow> apart (?ts[i := x'] ! j) (?ts[i := x'] ! k)"
    using ap rw_inv_apart [OF s] i(1) by (auto simp: nth_list_update)
  moreover have "\<exists>y\<in>set (?ts[i := x']). owner_id y \<noteq> None" if "rl_writer l' \<noteq> N"
  proof (cases "owner_id x' = None")
    case True
    then have "owner_id x = None" "rl_writer (rw_lock s) \<noteq> N" using own [OF that] by auto
    then obtain k where "k < length ?ts" "owner_id (?ts ! k) \<noteq> None" "k \<noteq> i"
      using s i unfolding rw_inv_def by (metis in_set_conv_nth)
    then have "?ts[i := x'] ! k \<in> set (?ts[i := x'])" "owner_id (?ts[i := x'] ! k) \<noteq> None"
      using nth_mem [of k "?ts[i := x']"] by simp_all
    then show ?thesis by blast
  next
    case False
    then show ?thesis using i(1) by (meson set_update_memI)
  qed
  moreover have "rl_readers l' = length (filter active_reader (?ts[i := x']))"
    using length_filter_update [OF i(1), of active_reader x'] rd s i(2) by (simp add: rw_inv_def)
  moreover have "rl_collective_writer l' + length (filter joined (?ts[i := x'])) = N"
    using length_filter_update [OF i(1), of joined x'] co s i(2) by (simp add: rw_inv_def)
  ultimately show ?thesis using s by (simp add: rw_inv_def)
qed

subsection \<open>The invariant is kept\<close>

text \<open>A step that does not touch the lock words.\<close>

lemma others_same:
  "rw_inv N s \<Longrightarrow> rl_writer l' = rl_writer (rw_lock s) \<Longrightarrow> j < length (rw_tasks s) \<Longrightarrow> task_ok N l' (rw_tasks s ! j)"
  using rw_inv_task task_ok_cong by blast

lemma others_idle:
  "rw_inv N s \<Longrightarrow> rl_writer (rw_lock s) = N \<Longrightarrow> j < length (rw_tasks s) \<Longrightarrow> task_ok N l' (rw_tasks s ! j)"
  using rw_inv_task task_ok_idle task_ok_free by blast

lemma no_reader:
  assumes "rw_inv N s" "rl_readers (rw_lock s) = 0" "j < length (rw_tasks s)"
  shows "rw_tasks s ! j \<noteq> Reader RHeld"
proof -
  have "filter active_reader (rw_tasks s) = []" using assms(1,2) by (simp add: rw_inv_def)
  then have "\<not> active_reader (rw_tasks s ! j)" using assms(3) by (simp add: filter_empty_conv)
  then show ?thesis by auto
qed

lemma readers_positive:
  assumes "rw_inv N s" "i < length (rw_tasks s)" "active_reader (rw_tasks s ! i)"
  shows "0 < rl_readers (rw_lock s)" "rl_readers (rw_lock s) < usize_mod"
proof -
  have "rw_tasks s ! i \<in> set (filter active_reader (rw_tasks s))" using assms(2,3) by simp
  then have "filter active_reader (rw_tasks s) \<noteq> []" by force
  then show "0 < rl_readers (rw_lock s)" using assms(1) by (simp add: rw_inv_def)
  show "rl_readers (rw_lock s) < usize_mod"
  proof -
    have "rl_readers (rw_lock s) = length (filter active_reader (rw_tasks s))" "length (rw_tasks s) < usize_mod"
      using assms(1) by (simp_all add: rw_inv_def)
    then show ?thesis using length_filter_le [of active_reader "rw_tasks s"] by linarith
  qed
qed

lemma reader_room:
  assumes "rw_inv N s" "i < length (rw_tasks s)" "\<not> active_reader (rw_tasks s ! i)"
  shows "rl_readers (rw_lock s) + 1 < usize_mod"
proof -
  have "length (filter active_reader (rw_tasks s)) < length (rw_tasks s)"
    using assms(2,3) by (intro length_filter_less [of "rw_tasks s ! i"]) simp_all
  then show ?thesis using assms(1) by (simp add: rw_inv_def)
qed

lemma reader_step_inv:
  assumes s: "rw_inv N s" and i: "i < length (rw_tasks s)" "rw_tasks s ! i = Reader ph"
    and act: "reader_act N ph (rw_lock s) = Some (x, l)"
  shows "rw_inv N \<lparr>rw_lock = l, rw_tasks = (rw_tasks s)[i := x]\<rparr>"
proof -
  have w: "rl_writer l = rl_writer (rw_lock s)" "owner_id x = None" "\<not> exclusive x" "\<not> joined x"
    "rl_collective_writer l = rl_collective_writer (rw_lock s)" "task_ok N l x" "coll_apart x y \<and> coll_apart y x"
    "x = Reader RHeld \<Longrightarrow> rl_writer (rw_lock s) = N" for y
    using act by (cases ph; cases y; force split: if_splits)+
  have "rl_readers l + of_bool (active_reader (Reader ph)) = rl_readers (rw_lock s) + of_bool (active_reader x)"
    using act readers_positive [OF s i(1)] reader_room [OF s i(1)] i(2) by (cases ph) (auto split: if_splits)
  moreover have "apart x (rw_tasks s ! j) \<and> apart (rw_tasks s ! j) x" if "j < length (rw_tasks s)" for j
    using w task_ok_exclusive [OF rw_inv_task [OF s that]] by (auto simp: apart_def)
  ultimately show ?thesis
    using w others_same [OF s w(1)] by (intro rw_update [OF s i]) auto
qed

text \<open>What the other tasks are when a task owns the lock.\<close>

lemma owner_alone:
  assumes s: "rw_inv N s" and i: "i < length (rw_tasks s)" "owner_id (rw_tasks s ! i) = Some v"
    and j: "j < length (rw_tasks s)" "j \<noteq> i"
  shows "owner_id (rw_tasks s ! j) = None" "member_id (rw_tasks s ! j) \<in> {None, Some v}"
proof -
  show "owner_id (rw_tasks s ! j) = None" using rw_inv_apart [OF s i(1) j(1)] i(2) j(2) by (auto simp: apart_def)
  have "rl_writer (rw_lock s) = v" using task_ok_owner [OF rw_inv_task [OF s i(1)] i(2)] ..
  then show "member_id (rw_tasks s ! j) \<in> {None, Some v}"
    using task_ok_member [OF rw_inv_task [OF s j(1)]] by (cases "member_id (rw_tasks s ! j)") auto
qed

lemma apart_nonowner:
  "apart x y \<Longrightarrow> coll_apart x' y \<Longrightarrow> (owner_id x' = None \<or> owner_id y = None) \<Longrightarrow> (exclusive x' \<Longrightarrow> y \<noteq> Reader RHeld) \<Longrightarrow> apart x' y"
  by (simp add: apart_def)

lemma writer_step_inv:
  assumes s: "rw_inv N s" and i: "i < length (rw_tasks s)" "rw_tasks s ! i = Writer pe ph"
    and act: "writer_act N pe ph (rw_lock s) = Some (x, l)"
  shows "rw_inv N \<lparr>rw_lock = l, rw_tasks = (rw_tasks s)[i := x]\<rparr>"
proof (cases ph)
  case WCas
  then have w: "rl_writer (rw_lock s) = N" "x = Writer pe WWait" "l = (rw_lock s)\<lparr>rl_writer := pe\<rparr>"
    using act by (auto split: if_splits)
  have "apart x (rw_tasks s ! j) \<and> apart (rw_tasks s ! j) x" if "j < length (rw_tasks s)" for j
    using task_ok_idle [OF rw_inv_task [OF s that] w(1)] w(2) by (cases "rw_tasks s ! j") (auto simp: apart_def)
  then show ?thesis
    using w others_idle [OF s w(1)] rw_inv_task [OF s i(1)] i(2) by (intro rw_update [OF s i]) auto
next
  case WWait
  then have w: "rl_readers (rw_lock s) = 0" "x = Writer pe WHeld" "l = rw_lock s"
    using act by (auto split: if_splits)
  have "apart x (rw_tasks s ! j) \<and> apart (rw_tasks s ! j) x" if "j < length (rw_tasks s)" "j \<noteq> i" for j
    using owner_alone(1) [OF s i(1) _ that] no_reader [OF s w(1) that(1)] w(2) i(2) WWait
    by (cases "rw_tasks s ! j") (auto simp: apart_def)
  then show ?thesis
    using w others_same [OF s] rw_inv_task [OF s i(1)] i(2) WWait by (intro rw_update [OF s i]) auto
next
  case WHeld
  then have w: "x = Done" "l = (rw_lock s)\<lparr>rl_writer := N\<rparr>" "pe < N" "owner_id (rw_tasks s ! i) = Some pe"
    using act rw_inv_task [OF s i(1)] i(2) by (auto split: if_splits)
  have "task_ok N l (rw_tasks s ! j)" if "j < length (rw_tasks s)" "j \<noteq> i" for j
    using owner_alone [OF s i(1) w(4) that] task_ok_member [OF rw_inv_task [OF s that(1)]] w(3)
      task_ok_free [OF rw_inv_task [OF s that(1)]] by fastforce
  moreover have "apart x (rw_tasks s ! j) \<and> apart (rw_tasks s ! j) x" for j
    by (cases "rw_tasks s ! j") (auto simp: apart_def w(1))
  ultimately show ?thesis using w by (intro rw_update [OF s i]) auto
qed

text \<open>Phases in which a collective task only moves on: nothing it shares with others changes.\<close>

lemma coll_move:
  assumes s: "rw_inv N s" and i: "i < length (rw_tasks s)" "rw_tasks s ! i = Coll pe cnt ph"
    and l: "rl_writer l = rl_writer (rw_lock s)" "rl_readers l = rl_readers (rw_lock s)"
      "rl_collective_writer l + of_bool (joined (Coll pe cnt ph')) = rl_collective_writer (rw_lock s) + of_bool (joined (Coll pe cnt ph))"
    and ok: "task_ok N l (Coll pe cnt ph')" and own: "pe = 0 \<Longrightarrow> ph \<noteq> CStart \<and> ph' \<noteq> CStart"
    and co: "\<And>j. j < length (rw_tasks s) \<Longrightarrow> j \<noteq> i \<Longrightarrow>
      coll_apart (Coll pe cnt ph') (rw_tasks s ! j) \<and> coll_apart (rw_tasks s ! j) (Coll pe cnt ph')"
    and ex: "\<And>j. j < length (rw_tasks s) \<Longrightarrow> exclusive (Coll pe cnt ph') \<Longrightarrow> exclusive (Coll pe cnt ph) \<or> rw_tasks s ! j \<noteq> Reader RHeld"
  shows "rw_inv N \<lparr>rw_lock = l, rw_tasks = (rw_tasks s)[i := Coll pe cnt ph']\<rparr>"
proof -
  have "apart (Coll pe cnt ph') (rw_tasks s ! j) \<and> apart (rw_tasks s ! j) (Coll pe cnt ph')"
    if j: "j < length (rw_tasks s)" "j \<noteq> i" for j
    using rw_inv_apart [OF s i(1) j(1)] rw_inv_apart [OF s j(1) i(1)] co [OF j] ex [OF j(1)] own j(2) i(2)
    by (auto simp: apart_def split: if_splits)
  then show ?thesis
    using l ok own others_same [OF s l(1)] by (intro rw_update [OF s i]) (auto split: if_splits)
qed

lemma coll_others:
  assumes s: "rw_inv N s" and i: "i < length (rw_tasks s)" "rw_tasks s ! i = Coll pe cnt ph"
    and j: "j < length (rw_tasks s)" "j \<noteq> i" "rw_tasks s ! j = Coll pe' cnt ph'"
  shows "pe \<noteq> pe'" "ph \<in> {CHeld, CAdd, CJoin, CRelease} \<Longrightarrow> ph' \<notin> {CStart, CWait, CSub}"
    "ph' \<in> {CHeld, CAdd, CJoin, CRelease} \<Longrightarrow> ph \<notin> {CStart, CWait, CSub}"
    "ph = CRelease \<Longrightarrow> ph' = CJoin" "ph' = CRelease \<Longrightarrow> ph = CJoin"
  using rw_inv_apart [OF s i(1) j(1)] rw_inv_apart [OF s j(1) i(1)] i(2) j by (auto simp: apart_def)

lemma coll_lock_inv:
  assumes s: "rw_inv N s" and i: "i < length (rw_tasks s)" "rw_tasks s ! i = Coll pe cnt ph"
    and act: "coll_act N pe cnt ph (rw_lock s) = Some (x, l)" "ph \<in> {CStart, CWait, CSub, CAll}"
  shows "rw_inv N \<lparr>rw_lock = l, rw_tasks = (rw_tasks s)[i := x]\<rparr>"
proof -
  note ok = rw_inv_task [OF s i(1), unfolded i(2)]
  have same: "coll_apart (Coll pe cnt ph') (rw_tasks s ! j) \<and> coll_apart (rw_tasks s ! j) (Coll pe cnt ph')"
    if "j < length (rw_tasks s)" "j \<noteq> i" "ph' \<in> {CWait, CSub, CAll}" "ph \<in> {CStart, CWait, CSub}" for j ph'
    using coll_others [OF s i that(1,2)] that(3,4) by (cases "rw_tasks s ! j") auto
  consider "ph = CStart" "pe = 0" | "ph = CStart" "pe \<noteq> 0" | "ph = CWait" | "ph = CSub" | "ph = CAll"
    using act(2) by blast
  then show ?thesis
  proof cases
    case 1
    then have w: "rl_writer (rw_lock s) = N" "x = Coll pe cnt CWait" "l = (rw_lock s)\<lparr>rl_writer := cnt\<rparr>"
      using act by (auto split: if_splits)
    have "apart x (rw_tasks s ! j) \<and> apart (rw_tasks s ! j) x" if "j < length (rw_tasks s)" "j \<noteq> i" for j
      using task_ok_idle [OF rw_inv_task [OF s that(1)] w(1)] w(2) same [OF that, of CWait] 1
      by (auto simp: apart_def)
    then show ?thesis
      using w others_idle [OF s w(1)] ok 1 by (intro rw_update [OF s i]) auto
  next
    case 2
    then have w: "rl_writer (rw_lock s) = cnt" "x = Coll pe cnt CWait" "l = rw_lock s" using act by (auto split: if_splits)
    show ?thesis unfolding w(2,3) by (rule coll_move [OF s i]) (use 2 w ok same in auto)
  next
    case 3
    then have w: "rl_readers (rw_lock s) = 0" "x = Coll pe cnt CSub" "l = rw_lock s" using act by (auto split: if_splits)
    show ?thesis unfolding w(2,3) by (rule coll_move [OF s i]) (use 3 ok same no_reader [OF s w(1)] in auto)
  next
    case 4
    have "rl_writer (rw_lock s) = cnt" using ok 4 by auto
    then have "length (filter joined (rw_tasks s)) < N" using joined_room [OF s i] i(2) 4 by simp
    then have "0 < rl_collective_writer (rw_lock s)" "rl_collective_writer (rw_lock s) < usize_mod"
      using s by (auto simp: rw_inv_def)
    then have w: "x = Coll pe cnt CAll" "l = (rw_lock s)\<lparr>rl_collective_writer := rl_collective_writer (rw_lock s) - 1\<rparr>"
      "0 < rl_collective_writer (rw_lock s)" using act 4 by auto
    show ?thesis unfolding w(1) by (rule coll_move [OF s i]) (use 4 w ok same in auto)
  next
    case 5
    then have w: "rl_collective_writer (rw_lock s) = 0" "x = Coll pe cnt CHeld" "l = rw_lock s"
      using act by (auto split: if_splits)
    have "length (filter joined (rw_tasks s)) = N" using s w(1) by (simp add: rw_inv_def)
    then have all: "joined (rw_tasks s ! j)" if "j < length (rw_tasks s)" "rw_tasks s ! j = Coll pe' cnt ph'" for j pe' ph'
      using joined_room [OF s that] ok 5 by fastforce
    have "coll_apart (Coll pe cnt CHeld) (rw_tasks s ! j) \<and> coll_apart (rw_tasks s ! j) (Coll pe cnt CHeld)"
      if "j < length (rw_tasks s)" "j \<noteq> i" for j
      using coll_others [OF s i that] all [OF that(1)] 5 by (cases "rw_tasks s ! j") auto
    then show ?thesis unfolding w(2,3) by (intro coll_move [OF s i]) (use 5 ok in auto)
  qed
qed

lemma coll_unlock_inv:
  assumes s: "rw_inv N s" and i: "i < length (rw_tasks s)" "rw_tasks s ! i = Coll pe cnt ph"
    and act: "coll_act N pe cnt ph (rw_lock s) = Some (x, l)" "ph \<in> {CHeld, CAdd, CJoin, CRelease}"
  shows "rw_inv N \<lparr>rw_lock = l, rw_tasks = (rw_tasks s)[i := x]\<rparr>"
proof -
  note ok = rw_inv_task [OF s i(1), unfolded i(2)]
  have same: "coll_apart (Coll pe cnt ph') (rw_tasks s ! j) \<and> coll_apart (rw_tasks s ! j) (Coll pe cnt ph')"
    if "j < length (rw_tasks s)" "j \<noteq> i" "(ph, ph') \<in> {(CHeld, CAdd), (CAdd, CJoin)}" for j ph'
    using coll_others [OF s i that(1,2)] that(3) by (cases "rw_tasks s ! j") auto
  have done_apart: "apart Done y \<and> apart y Done" for y by (cases y) (auto simp: apart_def)
  consider "ph = CHeld" | "ph = CAdd" | "ph = CJoin" "pe = 0" | "ph = CJoin" "pe \<noteq> 0" | "ph = CRelease"
    using act(2) by blast
  then show ?thesis
  proof cases
    case 1
    then have w: "x = Coll pe cnt CAdd" "l = rw_lock s" using act ok by (auto split: if_splits)
    show ?thesis unfolding w by (rule coll_move [OF s i]) (use 1 ok same in auto)
  next
    case 2
    have "rw_tasks s ! i \<in> set (filter joined (rw_tasks s))" using nth_mem [OF i(1)] i(2) 2 by simp
    then have "filter joined (rw_tasks s) \<noteq> []" by force
    then have "rl_collective_writer (rw_lock s) < N" "N < usize_mod" using s by (auto simp: rw_inv_def)
    then have w: "x = Coll pe cnt CJoin" "l = (rw_lock s)\<lparr>rl_collective_writer := rl_collective_writer (rw_lock s) + 1\<rparr>"
      using act 2 by auto
    show ?thesis unfolding w(1) by (rule coll_move [OF s i]) (use 2 w ok same in auto)
  next
    case 3
    then have w: "rl_collective_writer (rw_lock s) = N" "x = Coll pe cnt CRelease" "l = rw_lock s"
      using act by (auto split: if_splits)
    have "filter joined (rw_tasks s) = []" using s w(1) by (simp add: rw_inv_def)
    then have none: "\<not> joined (rw_tasks s ! j)" if "j < length (rw_tasks s)" for j
      using that by (simp add: filter_empty_conv)
    have "coll_apart (Coll pe cnt CRelease) (rw_tasks s ! j) \<and> coll_apart (rw_tasks s ! j) (Coll pe cnt CRelease)"
      if j: "j < length (rw_tasks s)" "j \<noteq> i" for j
    proof (cases "rw_tasks s ! j")
      case (Coll pe' cnt' ph')
      show ?thesis
      proof (cases "cnt' = cnt")
        case True
        note c = coll_others [OF s i j Coll [unfolded True]]
        have "ph' \<notin> {CAll, CHeld, CAdd}" using none [OF j(1)] Coll by simp
        then have "ph' = CJoin" using c 3 rw_inv_task [OF s j(1)] Coll by (cases ph') auto
        then show ?thesis using Coll c 3 by simp
      qed (simp add: Coll)
    qed simp_all
    then show ?thesis unfolding w(2,3) by (intro coll_move [OF s i]) (use 3 ok in auto)
  next
    case 4
    then have w: "x = Done" "l = rw_lock s" using act by (auto split: if_splits)
    have "rl_writer (rw_lock s) \<noteq> N \<Longrightarrow> owner_id (Coll pe cnt ph) = None" using 4 by simp
    then show ?thesis
      unfolding w using others_same [OF s refl] done_apart 4 by (intro rw_update [OF s i]) auto
  next
    case 5
    then have pe: "pe = 0" using ok by auto
    then have w: "x = Done" "l = (rw_lock s)\<lparr>rl_writer := N\<rparr>" "owner_id (rw_tasks s ! i) = Some cnt"
      using act ok 5 i(2) by (auto split: if_splits)
    have "task_ok N l (rw_tasks s ! j)" if "j < length (rw_tasks s)" "j \<noteq> i" for j
    proof (cases "rw_tasks s ! j")
      case (Coll pe' cnt' ph')
      have "member_id (rw_tasks s ! j) = None"
        using owner_alone(2) [OF s i(1) w(3) that] coll_others(4) [OF s i that] Coll 5 by (auto split: if_splits)
      then show ?thesis
        using owner_alone(1) [OF s i(1) w(3) that] task_ok_free [OF rw_inv_task [OF s that(1)]] by blast
    qed (use owner_alone(1) [OF s i(1) w(3) that] task_ok_free [OF rw_inv_task [OF s that(1)]] in auto)
    then show ?thesis using w done_apart 5 by (intro rw_update [OF s i]) auto
  qed
qed

lemma rw_step_inv: "rw_inv N s \<Longrightarrow> rw_step N s t \<Longrightarrow> rw_inv N t"
proof (erule rw_step.cases)
  fix u i x l
  assume s: "rw_inv N s" "s = u" "t = \<lparr>rw_lock = l, rw_tasks = (rw_tasks u)[i := x]\<rparr>" "i < length (rw_tasks u)"
    and act: "task_act N (rw_tasks u ! i) (rw_lock u) = Some (x, l)"
  show "rw_inv N t"
  proof (cases "rw_tasks u ! i")
    case (Reader ph)
    then show ?thesis using reader_step_inv [of N s i ph x l] s act by simp
  next
    case (Writer pe ph)
    then show ?thesis using writer_step_inv [of N s i pe ph x l] s act by simp
  next
    case (Coll pe cnt ph)
    then show ?thesis
      using coll_lock_inv [of N s i pe cnt ph x l] coll_unlock_inv [of N s i pe cnt ph x l] s act by (cases ph) simp_all
  qed (use act in simp_all)
qed

lemma rw_start_inv: "reqs_ok N reqs \<Longrightarrow> rw_inv N (rw_start N reqs)"
proof -
  assume ok: "reqs_ok N reqs"
  let ?ts = "map (\<lambda>(pe, lt). lock_am pe lt) reqs"
  have nth: "?ts ! i = lock_am (fst (reqs ! i)) (snd (reqs ! i))" if "i < length reqs" for i
    using that by (simp add: case_prod_beta)
  have req: "fst (reqs ! i) < N \<and> (\<forall>cnt. snd (reqs ! i) = LockCollectiveWrite cnt \<longrightarrow> N < cnt)" if "i < length reqs" for i
  proof -
    have "\<forall>r\<in>set reqs. fst r < N \<and> (\<forall>cnt. snd r = LockCollectiveWrite cnt \<longrightarrow> N < cnt)"
      using ok by (auto simp: reqs_ok_def)
    then show ?thesis using nth_mem [OF that] by blast
  qed
  have idle: "task_ok N (dist_rw_lock_new N) (?ts ! i)" "owner_id (?ts ! i) = None" "\<not> exclusive (?ts ! i)"
    "\<not> active_reader (?ts ! i)" "\<not> joined (?ts ! i)" if "i < length reqs" for i
    using req [OF that] unfolding nth [OF that] by (auto simp: lock_am_def split: lock_type.splits)
  have "apart (?ts ! i) (?ts ! j)" if ij: "i < length reqs" "j < length reqs" "i \<noteq> j" for i j
  proof -
    have "coll_apart (?ts ! i) (?ts ! j)"
    proof (cases "snd (reqs ! i)"; cases "snd (reqs ! j)")
      fix c d assume c: "snd (reqs ! i) = LockCollectiveWrite c" "snd (reqs ! j) = LockCollectiveWrite d"
      have "reqs ! i \<noteq> reqs ! j" using ok ij c
        by (intro distinct_filter_nth [where P = "\<lambda>(pe, lt). lt \<noteq> LockRead \<and> lt \<noteq> LockWrite"])
           (auto simp: reqs_ok_def case_prod_beta)
      then show ?thesis using c unfolding nth [OF ij(1)] nth [OF ij(2)] by (auto simp: lock_am_def prod_eq_iff)
    qed (use nth [OF ij(1)] nth [OF ij(2)] in \<open>simp_all add: lock_am_def\<close>)
    then show ?thesis using idle [OF ij(1)] by (simp add: apart_def)
  qed
  moreover have "filter active_reader ?ts = []" "filter joined ?ts = []"
    by (auto simp: filter_empty_conv lock_am_def split: lock_type.splits)
  ultimately show ?thesis using ok idle by (simp add: rw_inv_def rw_start_def reqs_ok_def dist_rw_lock_new_def)
qed

section \<open>Readers and writers make progress\<close>

text \<open>
  Without collective requests every execution ends.  A reader retries only after a writer has
  taken the lock in between, so its weight is higher while a writer is there.
\<close>

fun plain :: "rw_task \<Rightarrow> bool" where
  "plain (Coll pe cnt ph) \<longleftrightarrow> False"
| "plain _ \<longleftrightarrow> True"

fun is_reader :: "rw_task \<Rightarrow> bool" where
  "is_reader (Reader ph) \<longleftrightarrow> True"
| "is_reader _ \<longleftrightarrow> False"

fun task_weight :: "nat \<Rightarrow> bool \<Rightarrow> rw_task \<Rightarrow> nat" where
  "task_weight T free (Reader RCheck) = 4"
| "task_weight T free (Reader RInc) = (if free then 3 else 7)"
| "task_weight T free (Reader RRecheck) = (if free then 2 else 6)"
| "task_weight T free (Reader RDec) = 5"
| "task_weight T free (Reader RHeld) = 1"
| "task_weight T free (Writer pe WCas) = 3 + 4 * T"
| "task_weight T free (Writer pe WWait) = 2"
| "task_weight T free (Writer pe WHeld) = 1"
| "task_weight T free _ = 0"

definition rw_meas :: "nat \<Rightarrow> rw_state \<Rightarrow> nat" where
  "rw_meas N s = sum_list (map (task_weight (length (rw_tasks s)) (rl_writer (rw_lock s) = N)) (rw_tasks s))"

definition plain_inv :: "nat \<Rightarrow> rw_state \<Rightarrow> bool" where
  "plain_inv N s \<longleftrightarrow> rw_inv N s \<and> (\<forall>x\<in>set (rw_tasks s). plain x)"

lemma weight_free: "task_weight T True x \<le> task_weight T False x" "task_weight T False x \<le> task_weight T True x + 4"
  by (induction T True x rule: task_weight.induct) simp_all

lemma weight_change: "task_weight T b x \<le> task_weight T a x + (if a \<and> \<not> b then 4 else 0)"
  using weight_free [of T x] by (cases a; cases b) simp_all

lemma sum_update_le:
  fixes f g :: "'a \<Rightarrow> nat"
  assumes "i < length xs" "\<And>x. g x \<le> f x + k"
  shows "sum_list (map g (xs[i := y])) + g (xs ! i) \<le> sum_list (map f xs) + k * length xs + g y"
proof -
  have "sum_list (map g xs) \<le> sum_list (map f xs) + k * length xs"
  proof (induction xs)
    case (Cons x xs)
    then show ?case using assms(2) [of x] by simp
  qed simp
  then show ?thesis using sum_map_update [OF assms(1), of g y] by simp
qed

lemma reader_weight:
  "reader_act N ph l = Some (y, l') \<Longrightarrow> plain y \<and> rl_writer l' = rl_writer l
     \<and> task_weight T (rl_writer l' = N) y < task_weight T (rl_writer l' = N) (Reader ph)"
  by (cases ph) (auto split: if_splits)

lemma writer_weight:
  "writer_act N pe ph l = Some (y, l') \<Longrightarrow> ph \<noteq> WCas \<Longrightarrow> plain y \<and> (rl_writer l = N \<longrightarrow> rl_writer l' = N)
     \<and> task_weight T (rl_writer l' = N) y < task_weight T (rl_writer l' = N) (Writer pe ph)"
  by (cases ph) (auto split: if_splits)

lemma rw_step_meas:
  assumes "plain_inv N s" "rw_step N s t"
  shows "plain_inv N t \<and> rw_meas N t < rw_meas N s"
  using assms(2)
proof cases
  case (rw_act i y l)
  let ?ts = "rw_tasks s" and ?l = "rw_lock s"
  let ?T = "length ?ts" and ?x = "?ts ! i"
  have inv: "rw_inv N s" and pl: "plain ?x" using assms(1) rw_act(2) by (auto simp: plain_inv_def)
  have mono: "task_weight ?T (rl_writer l = N) x \<le> task_weight ?T (rl_writer ?l = N) x + (if rl_writer ?l = N \<and> rl_writer l \<noteq> N then 4 else 0)" for x
    by (rule weight_change)
  note bound = sum_update_le [where f = "task_weight ?T (rl_writer ?l = N)" and g = "task_weight ?T (rl_writer l = N)" and y = y, OF rw_act(2) mono]
  have down: "plain y \<and> rw_meas N t < rw_meas N s"
  proof (cases "\<exists>pe. ?x = Writer pe WCas")
    case True
    then obtain pe where x: "?x = Writer pe WCas" ..
    then have y: "y = Writer pe WWait" using rw_act(3) by (auto split: if_splits)
    show ?thesis using bound x y unfolding rw_meas_def rw_act(1) by (auto split: if_splits)
  next
    case False
    have d: "plain y \<and> (rl_writer ?l = N \<longrightarrow> rl_writer l = N) \<and> task_weight ?T (rl_writer l = N) y < task_weight ?T (rl_writer l = N) ?x"
    proof (cases ?x)
      case (Reader ph)
      then show ?thesis using reader_weight [of N ph ?l y l ?T] rw_act(3) by auto
    next
      case (Writer pe ph)
      then show ?thesis using writer_weight [of N pe ph ?l y l ?T] rw_act(3) False by simp
    qed (use rw_act(3) pl in simp_all)
    then show ?thesis using bound unfolding rw_meas_def rw_act(1) by (auto split: if_splits)
  qed
  moreover have "\<forall>x\<in>set (rw_tasks t). plain x"
    using assms(1) down set_update_subset_insert [of ?ts i y] unfolding rw_act(1) plain_inv_def by auto
  ultimately show ?thesis using rw_step_inv [OF inv assms(2)] by (simp add: plain_inv_def)
qed

lemma rw_progress:
  assumes "plain_inv N s" "x \<in> set (rw_tasks s)" "x \<noteq> Done"
  shows "\<exists>t. rw_step N s t"
proof -
  let ?ts = "rw_tasks s" and ?l = "rw_lock s"
  have inv: "rw_inv N s" using assms(1) by (simp add: plain_inv_def)
  have go: "\<exists>t. rw_step N s t" if z: "z \<in> set ?ts" "task_act N z ?l \<noteq> None" for z
  proof -
    obtain i where "i < length ?ts" "?ts ! i = z" using z(1) unfolding in_set_conv_nth by blast
    then show ?thesis using rw_act [of i s N] z(2) by auto
  qed
  consider (reader) ph where "Reader ph \<in> set ?ts" "ph \<noteq> RCheck"
    | (writer) pe ph where "Writer pe ph \<in> set ?ts" "ph \<noteq> WCas" "\<And>ph. Reader ph \<in> set ?ts \<Longrightarrow> ph = RCheck"
    | (idle) "\<And>ph. Reader ph \<in> set ?ts \<Longrightarrow> ph = RCheck" "\<And>pe ph. Writer pe ph \<in> set ?ts \<Longrightarrow> ph = WCas"
    by blast
  then show ?thesis
  proof cases
    case reader
    then show ?thesis by (intro go [OF reader(1)]) (cases ph, simp_all)
  next
    case writer
    have "\<not> active_reader z" if "z \<in> set ?ts" for z using writer(3) that by (cases z) auto
    then have "rl_readers ?l = 0" using inv by (simp add: rw_inv_def)
    then show ?thesis using writer(2) by (intro go [OF writer(1)]) (cases ph, simp_all)
  next
    case idle
    have "owner_id z = None" if "z \<in> set ?ts" for z
      using idle that assms(1) by (cases z) (auto simp: plain_inv_def)
    then have free: "rl_writer ?l = N" using inv unfolding rw_inv_def by metis
    have "\<exists>i<length ?ts. x = ?ts ! i" using assms(2) by (metis in_set_conv_nth)
    then have "task_ok N ?l x" using rw_inv_task [OF inv] by blast
    have "x \<in> set ?ts \<and> plain x" using assms(1,2) by (simp add: plain_inv_def)
    then have "(x = Reader RCheck) \<or> (\<exists>pe. x = Writer pe WCas)"
      using \<open>task_ok N ?l x\<close> idle assms(3) by (cases x) auto
    then show ?thesis using free by (intro go [OF assms(2)]) auto
  qed
qed

lemma rw_system:
  "terminating_system (rw_step N) (plain_inv N) (rw_meas N) (\<lambda>s. \<forall>x\<in>set (rw_tasks s). x = Done)"
  by unfold_locales (use rw_step_meas rw_progress in blast)+

section \<open>Properties\<close>

text \<open>The tasks that are in the section that a guard protects.\<close>

fun holds_read :: "rw_task \<Rightarrow> bool" where
  "holds_read (Reader ph) \<longleftrightarrow> ph = RHeld"
| "holds_read _ \<longleftrightarrow> False"

fun holds_write :: "rw_task \<Rightarrow> bool" where
  "holds_write (Writer pe ph) \<longleftrightarrow> ph = WHeld"
| "holds_write _ \<longleftrightarrow> False"

fun holds_collective :: "rw_task \<Rightarrow> (nat \<times> nat) option" where
  "holds_collective (Coll pe cnt ph) = (if ph = CHeld then Some (pe, cnt) else None)"
| "holds_collective _ = None"

lemma rw_reach_inv: "(rw_step N)\<^sup>*\<^sup>* s t \<Longrightarrow> rw_inv N s \<Longrightarrow> rw_inv N t"
  by (induction rule: rtranclp_induct) (auto dest: rw_step_inv)

lemma held_exclusive: "holds_write x \<Longrightarrow> exclusive x" "holds_collective x = Some c \<Longrightarrow> exclusive x" "holds_read x \<Longrightarrow> x = Reader RHeld"
  by (cases x; simp split: if_splits)+

lemma held_coll: "holds_collective x = Some (pe, cnt) \<Longrightarrow> x = Coll pe cnt CHeld"
  by (cases x) (auto split: if_splits)

lemma held_writer:
  "task_ok N l x \<Longrightarrow> holds_write x \<Longrightarrow> rl_writer l < N \<and> owner_id x \<noteq> None"
  "task_ok N l x \<Longrightarrow> holds_collective x = Some (pe, cnt) \<Longrightarrow> rl_writer l = cnt \<and> N < cnt"
  by (cases x; auto split: if_splits)+

text \<open>An execution given by the tasks that move.\<close>

fun rw_exec :: "nat \<Rightarrow> nat list \<Rightarrow> rw_state \<Rightarrow> rw_state option" where
  "rw_exec N [] s = Some s"
| "rw_exec N (i # is) s = (if i < length (rw_tasks s) then
     (case task_act N (rw_tasks s ! i) (rw_lock s) of
        None \<Rightarrow> None
      | Some (x, l) \<Rightarrow> rw_exec N is \<lparr>rw_lock = l, rw_tasks = (rw_tasks s)[i := x]\<rparr>) else None)"

lemma rw_exec_reach: "rw_exec N is s = Some t \<Longrightarrow> (rw_step N)\<^sup>*\<^sup>* s t"
  by (induction N "is" s rule: rw_exec.induct)
     (auto split: if_splits option.splits prod.splits intro: converse_rtranclp_into_rtranclp rw_act)

text \<open>
  C35. Mutual exclusion of the global read-write lock: in every interleaving of the lock and unlock
  messages of the PEs, while one task holds the write lock no other task holds any lock; a
  collective section excludes readers and writers, and only tasks of the same collective call on
  different PEs are in it together; and no unlock panics.
\<close>

theorem rw_lock_exclusion:
  assumes "reqs_ok N reqs" "(rw_step N)\<^sup>*\<^sup>* (rw_start N reqs) s" "i < length (rw_tasks s)"
  shows "rw_tasks s ! i \<noteq> Panicked
    \<and> (\<forall>j < length (rw_tasks s). j \<noteq> i \<longrightarrow>
        (holds_write (rw_tasks s ! i) \<longrightarrow> \<not> holds_read (rw_tasks s ! j) \<and> \<not> holds_write (rw_tasks s ! j)
           \<and> holds_collective (rw_tasks s ! j) = None)
      \<and> (\<forall>pe cnt. holds_collective (rw_tasks s ! i) = Some (pe, cnt) \<longrightarrow>
           \<not> holds_read (rw_tasks s ! j) \<and> \<not> holds_write (rw_tasks s ! j)
           \<and> (\<forall>pe' cnt'. holds_collective (rw_tasks s ! j) = Some (pe', cnt') \<longrightarrow> cnt' = cnt \<and> pe' \<noteq> pe)))"
proof -
  have inv: "rw_inv N s" using rw_reach_inv [OF assms(2) rw_start_inv [OF assms(1)]] .
  note oki = rw_inv_task [OF inv assms(3)]
  have coll: "pe' \<noteq> pe" if "j < length (rw_tasks s)" "j \<noteq> i" "holds_collective (rw_tasks s ! i) = Some (pe, cnt)"
    "holds_collective (rw_tasks s ! j) = Some (pe', cnt)" for j pe pe' cnt
    using coll_others(1) [OF inv assms(3) held_coll [OF that(3)] that(1,2) held_coll [OF that(4)]] by simp
  have panic: "rw_tasks s ! i \<noteq> Panicked" using oki by auto
  have pair: "(holds_write (rw_tasks s ! i) \<longrightarrow> \<not> holds_read (rw_tasks s ! j) \<and> \<not> holds_write (rw_tasks s ! j)
           \<and> holds_collective (rw_tasks s ! j) = None)
      \<and> (\<forall>pe cnt. holds_collective (rw_tasks s ! i) = Some (pe, cnt) \<longrightarrow>
           \<not> holds_read (rw_tasks s ! j) \<and> \<not> holds_write (rw_tasks s ! j)
           \<and> (\<forall>pe' cnt'. holds_collective (rw_tasks s ! j) = Some (pe', cnt') \<longrightarrow> cnt' = cnt \<and> pe' \<noteq> pe))"
    if j: "j < length (rw_tasks s)" "j \<noteq> i" for j
  proof -
    note okj = rw_inv_task [OF inv j(1)]
    have ap: "apart (rw_tasks s ! i) (rw_tasks s ! j)" using rw_inv_apart [OF inv assms(3) j(1)] j(2) by simp
    then have r: "exclusive (rw_tasks s ! i) \<Longrightarrow> \<not> holds_read (rw_tasks s ! j)"
      and own: "owner_id (rw_tasks s ! i) = None \<or> owner_id (rw_tasks s ! j) = None"
      using held_exclusive(3) by (auto simp: apart_def)
    have wc: "\<not> (holds_write x \<and> holds_collective y = Some c)" if "task_ok N (rw_lock s) x" "task_ok N (rw_lock s) y" for x y c
      using held_writer(1) [OF that(1)] held_writer(2) [OF that(2)] by (cases c) fastforce
    have ww: "\<not> (holds_write (rw_tasks s ! i) \<and> holds_write (rw_tasks s ! j))"
      using own held_writer(1) [OF oki] held_writer(1) [OF okj] by blast
    have A: "holds_write (rw_tasks s ! i) \<longrightarrow> \<not> holds_read (rw_tasks s ! j) \<and> \<not> holds_write (rw_tasks s ! j)
        \<and> holds_collective (rw_tasks s ! j) = None"
      using r held_exclusive(1) [of "rw_tasks s ! i"] ww wc [OF oki okj]
      by (cases "holds_collective (rw_tasks s ! j)") auto
    have B: "\<not> holds_read (rw_tasks s ! j) \<and> \<not> holds_write (rw_tasks s ! j)
        \<and> (\<forall>pe' cnt'. holds_collective (rw_tasks s ! j) = Some (pe', cnt') \<longrightarrow> cnt' = cnt \<and> pe' \<noteq> pe)"
      if c: "holds_collective (rw_tasks s ! i) = Some (pe, cnt)" for pe cnt
    proof -
      have "cnt' = cnt \<and> pe' \<noteq> pe" if d: "holds_collective (rw_tasks s ! j) = Some (pe', cnt')" for pe' cnt'
        using held_writer(2) [OF oki c] held_writer(2) [OF okj d] coll [OF j c] d by auto
      then show ?thesis using r held_exclusive(2) [OF c] wc [OF okj oki] c by blast
    qed
    show ?thesis by (rule conjI [OF A]) (intro allI impI, erule B)
  qed
  show ?thesis by (rule conjI [OF panic], intro allI impI, erule pair)
qed

theorem rw_lock_exclusion_witness:
  "\<exists>s. (rw_step 2)\<^sup>*\<^sup>* (rw_start 2 [(0, LockWrite), (1, LockRead)]) s
     \<and> rw_tasks s = [Writer 0 WHeld, Reader RCheck] \<and> rw_tasks s ! 0 \<noteq> Panicked
     \<and> \<not> holds_read (rw_tasks s ! 1) \<and> \<not> holds_write (rw_tasks s ! 1)"
proof -
  let ?reqs = "[(0, LockWrite), (1, LockRead)]"
  have ok: "reqs_ok 2 ?reqs" by (simp add: reqs_ok_def usize_mod_def)
  obtain s where exec: "rw_exec 2 [1, 0, 1, 1, 1, 0] (rw_start 2 ?reqs) = Some s" and s: "rw_tasks s = [Writer 0 WHeld, Reader RCheck]"
    by (simp add: rw_start_def dist_rw_lock_new_def lock_am_def fetch_add_usize_def fetch_sub_usize_def usize_mod_def)
  note run = rw_exec_reach [OF exec]
  note ex = rw_lock_exclusion [OF ok run, of 0]
  have "rw_tasks s ! 0 \<noteq> Panicked \<and> \<not> holds_read (rw_tasks s ! 1) \<and> \<not> holds_write (rw_tasks s ! 1)"
    using ex s by (metis One_nat_def holds_write.simps(1) length_Cons lessI list.size(3) nth_Cons_0 zero_less_Suc zero_neq_one)
  then show ?thesis using run s by blast
qed

lemma rw_start_plain:
  assumes "reqs_ok N reqs" "\<forall>(pe, lt) \<in> set reqs. lt = LockRead \<or> lt = LockWrite"
  shows "plain_inv N (rw_start N reqs)" "rw_meas N (rw_start N reqs) \<le> length reqs * (4 * length reqs + 4)"
proof -
  show "plain_inv N (rw_start N reqs)"
    using rw_start_inv [OF assms(1)] assms(2) by (auto simp: plain_inv_def rw_start_def lock_am_def)
  have "sum_list (map (task_weight T b) (map (\<lambda>(pe, lt). lock_am pe lt) qs)) \<le> length qs * (4 * T + 4)"
    if "\<forall>(pe, lt) \<in> set qs. lt = LockRead \<or> lt = LockWrite" for qs T b
    using that by (induction qs) (auto simp: lock_am_def)
  from this [OF assms(2)] show "rw_meas N (rw_start N reqs) \<le> length reqs * (4 * length reqs + 4)"
    by (simp add: rw_meas_def rw_start_def)
qed

text \<open>
  C36. Without collective requests every execution of the lock ends, after at most \<open>4 T + 4\<close>
  steps per request for \<open>T\<close> requests, and it can only end when every request has been granted
  and released.
\<close>

theorem rw_lock_live:
  assumes "reqs_ok N reqs" "\<forall>(pe, lt) \<in> set reqs. lt = LockRead \<or> lt = LockWrite"
    and "(rw_step N ^^ n) (rw_start N reqs) s"
  shows "n \<le> length reqs * (4 * length reqs + 4)
    \<and> ((\<forall>t. \<not> rw_step N s t) \<longleftrightarrow> (\<forall>x\<in>set (rw_tasks s). x = Done))"
proof -
  note start = rw_start_plain [OF assms(1,2)]
  have "n \<le> length reqs * (4 * length reqs + 4)"
    using terminating_system.run_bound [OF rw_system start(1) assms(3)] start(2) by simp
  moreover have "\<not> rw_step N s t" if "\<forall>x\<in>set (rw_tasks s). x = Done" for t
  proof
    assume "rw_step N s t"
    then show False
    proof cases
      case (rw_act i x l)
      then have "rw_tasks s ! i = Done" using that nth_mem by blast
      then show False using rw_act(3) by simp
    qed
  qed
  moreover have "plain_inv N s"
    using terminating_system.reach_inv [OF rw_system relpowp_imp_rtranclp [OF assms(3)] start(1)] .
  ultimately show ?thesis using terminating_system.progress [OF rw_system] by blast
qed

theorem rw_lock_live_witness:
  "\<exists>n s. (rw_step 3 ^^ n) (rw_start 3 [(0, LockWrite), (2, LockRead), (1, LockWrite)]) s \<and> n \<le> 48 \<and> set (rw_tasks s) \<subseteq> {Done}"
proof -
  let ?reqs = "[(0, LockWrite), (2, LockRead), (1, LockWrite)]"
  have ok: "reqs_ok 3 ?reqs" "\<forall>(pe, lt) \<in> set ?reqs. lt = LockRead \<or> lt = LockWrite"
    by (simp_all add: reqs_ok_def usize_mod_def)
  obtain n s where s: "(rw_step 3 ^^ n) (rw_start 3 ?reqs) s" "\<forall>u. \<not> rw_step 3 s u"
    using terminating_system.ends [OF rw_system rw_start_plain(1) [OF ok]] by blast
  then show ?thesis using rw_lock_live [OF ok s(1)] by auto
qed

text \<open>
  The collective write lock can deadlock.  With two PEs in one \<open>collective_write\<close>, PE 0 may
  see \<open>collective_writer\<close> at 0, run its section and start its unlock, which raises the counter to
  1, before PE 1 looks at it.  PE 1 then waits for 0 in the lock and PE 0 for 2 in the unlock,
  and no step is possible, although neither request is finished.
\<close>

theorem collective_lock_deadlock:
  "\<exists>s. (rw_step 2)\<^sup>*\<^sup>* (rw_start 2 [(0, LockCollectiveWrite 3), (1, LockCollectiveWrite 3)]) s
     \<and> rw_tasks s = [Coll 0 3 CJoin, Coll 1 3 CAll] \<and> (\<forall>t. \<not> rw_step 2 s t)"
proof -
  let ?s = "\<lparr>rw_lock = \<lparr>rl_readers = 0, rl_writer = 3, rl_collective_writer = 1, rl_collective_cnt = 3\<rparr>,
    rw_tasks = [Coll 0 3 CJoin, Coll 1 3 CAll]\<rparr>"
  have run: "rw_exec 2 [0, 1, 0, 0, 1, 1, 0, 0, 0] (rw_start 2 [(0, LockCollectiveWrite 3), (1, LockCollectiveWrite 3)]) = Some ?s"
    by (simp add: rw_start_def dist_rw_lock_new_def lock_am_def fetch_add_usize_def fetch_sub_usize_def usize_mod_def)
  have "\<not> rw_step 2 ?s t" for t by (auto elim!: rw_step.cases simp: less_Suc_eq)
  then show ?thesis using rw_exec_reach [OF run] by (intro exI [of _ ?s] conjI allI) simp_all
qed

end
