(* ===== verification/Array_Rdma.thy ===== *)
theory Array_Rdma
  imports Array_Layout Lamellar_Arch
begin

text \<open>
  Bulk transfers between a buffer and a distributed array (\<open>array/unsafe/rdma.rs\<close>), over the
  memory regions of \<open>memregion.rs\<close>.  The memory of an array is a list of elements on every PE of
  the world.  A transfer is either one-sided (\<open>Put\<close>, \<open>Get\<close>: the calling PE writes or reads remote
  memory) or made of active messages that the PEs of the team execute (\<open>PutAm\<close>, small gets).  The active
  messages of one transfer may run in any order.
\<close>

section \<open>Memory regions\<close>

type_synonym 'a pe_mem = "nat \<Rightarrow> 'a list"

definition overwrite :: "'a list \<Rightarrow> nat \<Rightarrow> 'a list \<Rightarrow> 'a list" where
  "overwrite xs k ys = take k xs @ ys @ drop (k + length ys) xs"

text \<open>\<open>sub_region(start..fin)\<close> of a buffer, read.\<close>

definition sub_region :: "'a list \<Rightarrow> nat \<Rightarrow> nat \<Rightarrow> 'a list exec" where
  "sub_region buf start fin =
     (if fin > length buf then Panic ExplicitPanic else ebind (usub fin start) (\<lambda>n. Ret (take n (drop start buf))))"

definition mr_blocking_put :: "unsafe_array_inner \<Rightarrow> 'a pe_mem \<Rightarrow> nat \<Rightarrow> nat \<Rightarrow> 'a list \<Rightarrow> 'a pe_mem exec" where
  "mr_blocking_put a M pe index data =
     (if (index + length data) * ua_elem_size a \<le> ad_mem_bytes (ua_data a)
      then Ret (M(pe := overwrite (M pe) index data)) else Panic ExplicitPanic)"

definition mr_blocking_get :: "unsafe_array_inner \<Rightarrow> 'a pe_mem \<Rightarrow> nat \<Rightarrow> nat \<Rightarrow> nat \<Rightarrow> 'a list exec" where
  "mr_blocking_get a M pe index len =
     (if (index + len) * ua_elem_size a \<le> ad_mem_bytes (ua_data a)
      then Ret (take len (drop index (M pe))) else Panic ExplicitPanic)"

text \<open>Element-wise iteration that stops at the first panic.\<close>

fun efold :: "('b \<Rightarrow> 's \<Rightarrow> 's exec) \<Rightarrow> 'b list \<Rightarrow> 's \<Rightarrow> 's exec" where
  "efold f [] s = Ret s"
| "efold f (x # xs) s = ebind (f x s) (efold f xs)"

fun emap :: "('b \<Rightarrow> 'c exec) \<Rightarrow> 'b list \<Rightarrow> 'c list exec" where
  "emap f [] = Ret []"
| "emap f (x # xs) = ebind (f x) (\<lambda>y. ebind (emap f xs) (\<lambda>ys. Ret (y # ys)))"

section \<open>Ranges of an array\<close>

definition pes_for_range :: "unsafe_array_inner \<Rightarrow> nat \<Rightarrow> nat \<Rightarrow> nat list exec" where
  "pes_for_range a index len =
     (case ua_distribution a of
        Block \<Rightarrow>
          ebind (pe_for_dist_index a index) (\<lambda>st.
          case st of None \<Rightarrow> Ret [] | Some start_pe \<Rightarrow>
          ebind (usub (index + len) 1) (\<lambda>last_index.
          ebind (pe_for_dist_index a last_index) (\<lambda>en.
          case en of None \<Rightarrow> Ret [] | Some end_pe \<Rightarrow> Ret [start_pe..<end_pe + 1])))
      | Cyclic \<Rightarrow>
          let global_start = ua_offset a + index; num_pes = ad_num_pes (ua_data a) in
          ebind (usub (global_start + len) 1) (\<lambda>global_end.
          emap (\<lambda>index. umod index num_pes)
            (take num_pes [global_start..<global_end + 1])))"

text \<open>
  The part of the caller's memory that holds the elements of a range, in bytes, and the
  same range in local positions.
\<close>

definition local_elements_for_range ::
  "unsafe_array_inner \<Rightarrow> nat \<Rightarrow> nat \<Rightarrow> ((nat \<times> nat) \<times> (nat \<times> nat)) option exec" where
  "local_elements_for_range a index len =
     (let my_pe = ad_my_pe (ua_data a);
          slice = (\<lambda>start_index end_index.
            ebind (local_as_mut_slice a) (\<lambda>(lo, hi).
            if start_index * ua_elem_size a \<le> end_index * ua_elem_size a \<and> end_index * ua_elem_size a \<le> hi - lo
            then Ret (Some ((lo + start_index * ua_elem_size a, lo + end_index * ua_elem_size a), start_index, end_index))
            else Panic OutOfBounds))
      in
      ebind (pe_for_dist_index a index) (\<lambda>st.
      case st of None \<Rightarrow> Panic ExplicitPanic | Some start_pe \<Rightarrow>
      ebind (usub (index + len) 1) (\<lambda>last_index.
      ebind (pe_for_dist_index a last_index) (\<lambda>en.
      case en of None \<Rightarrow> Panic ExplicitPanic | Some end_pe \<Rightarrow>
      case ua_distribution a of
        Block \<Rightarrow>
          ebind (num_elems_local a) (\<lambda>num_elems_local.
          if my_pe > end_pe \<or> my_pe < start_pe then Ret None
          else
            ebind (start_index_for_pe a my_pe) (\<lambda>si.
            case si of None \<Rightarrow> Panic UnwrapNone | Some subarray_start_index \<Rightarrow>
            ebind (if my_pe = start_pe
                   then ebind (usub index subarray_start_index) (\<lambda>d. Ret (d, len))
                   else ebind (usub subarray_start_index index) (\<lambda>d. ebind (usub len d) (\<lambda>r. Ret (0, r))))
              (\<lambda>(start_index, rem_elem).
            let end_index = if my_pe = end_pe then start_index + rem_elem else num_elems_local in
            slice start_index end_index)))
      | Cyclic \<Rightarrow>
          let num_pes = ad_num_pes (ua_data a) in
          ebind (if my_pe \<ge> start_pe then Ret (index + (my_pe - start_pe))
                 else ebind (usub num_pes start_pe) (\<lambda>d. Ret (index + (d + my_pe)))) (\<lambda>local_index.
          ebind (udiv local_index num_pes) (\<lambda>start_index.
          ebind (udiv len num_pes) (\<lambda>base.
          ebind (umod len num_pes) (\<lambda>rest.
          let num_elems = base +
            (if rest \<noteq> 0 \<and> (if start_pe \<le> end_pe then my_pe \<ge> start_pe \<and> my_pe \<le> end_pe
                            else my_pe \<ge> start_pe \<or> my_pe \<le> end_pe) then 1 else 0)
          in if num_elems > 0 then slice start_index (start_index + num_elems) else Ret None))))))))"

definition num_elements_on_pe_for_range :: "unsafe_array_inner \<Rightarrow> nat \<Rightarrow> nat \<Rightarrow> nat \<Rightarrow> nat option exec" where
  "num_elements_on_pe_for_range a pe index len =
     ebind (pe_for_dist_index a index) (\<lambda>st.
     case st of None \<Rightarrow> Panic ExplicitPanic | Some start_pe \<Rightarrow>
     ebind (usub (index + len) 1) (\<lambda>last_index.
     ebind (pe_for_dist_index a last_index) (\<lambda>en.
     case en of None \<Rightarrow> Panic ExplicitPanic | Some end_pe \<Rightarrow>
     case ua_distribution a of
       Block \<Rightarrow>
         ebind (num_elems_pe a pe) (\<lambda>num_elems_pe.
         if pe > end_pe \<or> pe < start_pe then Ret None
         else
           ebind (start_index_for_pe a pe) (\<lambda>si.
           case si of None \<Rightarrow> Panic UnwrapNone | Some subarray_start_index \<Rightarrow>
           ebind (if pe = start_pe
                  then ebind (usub index subarray_start_index) (\<lambda>d. Ret (d, len))
                  else ebind (usub subarray_start_index index) (\<lambda>d. ebind (usub len d) (\<lambda>r. Ret (0, r))))
             (\<lambda>(start_index, rem_elem).
           let end_index = if pe = end_pe then start_index + rem_elem else num_elems_pe in
           ebind (usub end_index start_index) (\<lambda>n. Ret (Some n)))))
     | Cyclic \<Rightarrow>
         let num_pes = ad_num_pes (ua_data a) in
         ebind (udiv len num_pes) (\<lambda>base.
         ebind (umod len num_pes) (\<lambda>rest.
         let num_elems = base +
           (if rest \<noteq> 0 \<and> (if start_pe \<le> end_pe then pe \<ge> start_pe \<and> pe \<le> end_pe
                           else pe \<ge> start_pe \<or> pe \<le> end_pe) then 1 else 0)
         in if num_elems > 0 then Ret (Some num_elems) else Ret None)))))"

section \<open>The transfers of one operation\<close>

text \<open>
  The loop of \<open>block_op\<close>: for every PE of the range, the place in its memory, the place in the
  buffer and the number of elements.
\<close>

fun block_loop :: "rat \<Rightarrow> nat \<Rightarrow> nat list \<Rightarrow> nat \<Rightarrow> nat \<Rightarrow> (nat \<times> nat \<times> nat \<times> nat) list exec" where
  "block_loop e buf_len [] dist_index buf_index = Ret []"
| "block_loop e buf_len (pe # pes) dist_index buf_index =
     ebind (usub (block_bound e (pe + 1)) (block_bound e pe)) (\<lambda>num_elems_on_pe.
     ebind (usub dist_index (block_bound e pe)) (\<lambda>offset.
     ebind (usub num_elems_on_pe offset) (\<lambda>left.
     ebind (usub buf_len buf_index) (\<lambda>rest.
     let len = min left rest in
     if len > 0 then
       ebind (block_loop e buf_len pes (dist_index + len) (buf_index + len)) (\<lambda>segs.
       Ret ((pe, offset, buf_index, len) # segs))
     else block_loop e buf_len pes dist_index buf_index))))"

definition block_op :: "unsafe_array_inner \<Rightarrow> nat \<Rightarrow> nat \<Rightarrow> (nat \<times> nat \<times> nat \<times> nat) list exec" where
  "block_op a index buf_len =
     (let global_index = index + ua_offset a in
      ebind (pe_for_dist_index a index) (\<lambda>st.
      case st of None \<Rightarrow> Panic ExplicitPanic | Some start_pe \<Rightarrow>
      ebind (usub (index + buf_len) 1) (\<lambda>last_index.
      ebind (pe_for_dist_index a last_index) (\<lambda>en.
      case en of None \<Rightarrow> Panic ExplicitPanic | Some end_pe \<Rightarrow>
      block_loop (ua_orig_elem_per_pe a) buf_len [start_pe..<end_pe + 1] global_index 0))))"

text \<open>The loop of \<open>cyclic_op\<close> over the first element of each PE: its buffer position, PE and place.\<close>

fun cyclic_loop :: "nat \<Rightarrow> nat \<Rightarrow> nat \<Rightarrow> nat list \<Rightarrow> nat \<Rightarrow> (nat \<times> nat \<times> nat) list" where
  "cyclic_loop num_pes start_pe gidx [] overflow = []"
| "cyclic_loop num_pes start_pe gidx (i # is) overflow =
     (let pe = (start_pe + i) mod num_pes; offset = gidx div num_pes + overflow
      in (i, pe, offset) # cyclic_loop num_pes start_pe gidx is (if pe + 1 = num_pes then overflow + 1 else overflow))"

definition cyclic_op :: "unsafe_array_inner \<Rightarrow> nat \<Rightarrow> nat \<Rightarrow> (nat \<times> nat \<times> nat) list exec" where
  "cyclic_op a index buf_len =
     (let global_index = index + ua_offset a; num_pes = ad_num_pes (ua_data a) in
      ebind (umod global_index num_pes) (\<lambda>start_pe.
      Ret (cyclic_loop num_pes start_pe global_index [0..<min buf_len num_pes] 0)))"

text \<open>\<open>(i..n).step_by(step)\<close>\<close>

definition step_range :: "nat \<Rightarrow> nat \<Rightarrow> nat \<Rightarrow> nat list" where
  "step_range i n step = map (\<lambda>k. i + k * step) [0..<(n - i + step - 1) div step]"

text \<open>
  The elements of the buffer that go to one PE, gathered in a temporary region of
  \<open>buf_len / num_pes + 1\<close> elements.
\<close>

definition gather :: "nat \<Rightarrow> 'a list \<Rightarrow> nat \<Rightarrow> 'a list exec" where
  "gather num_pes buf i =
     (let js = step_range i (length buf) num_pes in
      if length js \<le> length buf div num_pes + 1 then Ret (map ((!) buf) js) else Panic ExplicitPanic)"

text \<open>\<open>buf.put(my_pe, j, temp.sub_region(k..=k))\<close> for every element of a temporary region.\<close>

definition scatter :: "nat \<Rightarrow> 'a list \<Rightarrow> nat \<Rightarrow> 'a list \<Rightarrow> 'a list exec" where
  "scatter num_pes temp i buf =
     efold (\<lambda>(k, j) buf. ebind (sub_region temp k (k + 1)) (\<lambda>d.
        if j + 1 \<le> length buf then Ret (overwrite buf j d) else Panic ExplicitPanic))
       (enumerate 0 (step_range i (length buf) num_pes)) buf"

section \<open>One-sided transfers\<close>

text \<open>\<open>put_unchecked\<close>.  \<open>MemoryRegion\<close> takes a PE of the world; the array passes its team index.\<close>

definition put_unchecked :: "unsafe_array_inner \<Rightarrow> 'a pe_mem \<Rightarrow> nat \<Rightarrow> 'a list \<Rightarrow> 'a pe_mem exec" where
  "put_unchecked a M index buf =
     (case ua_distribution a of
        Block \<Rightarrow>
          ebind (block_op a index (length buf)) (\<lambda>segs.
          efold (\<lambda>(pe, offset, buf_index, len) M.
            ebind (sub_region buf buf_index (buf_index + len)) (mr_blocking_put a M pe offset)) segs M)
      | Cyclic \<Rightarrow>
          ebind (cyclic_op a index (length buf)) (\<lambda>segs.
          efold (\<lambda>(i, pe, offset) M.
            ebind (gather (ad_num_pes (ua_data a)) buf i) (mr_blocking_put a M pe offset)) segs M))"

text \<open>
  \<open>blocking_get\<close> of \<open>buf_len\<close> elements into a buffer that lives on the PE \<open>buf_pe\<close> of the world.  The
  cyclic case writes the buffer with \<open>put(my_pe, \<dots>)\<close>, which a one-sided region refuses unless it lives on
  \<open>my_pe\<close>.
\<close>

definition blocking_get :: "unsafe_array_inner \<Rightarrow> 'a pe_mem \<Rightarrow> nat \<Rightarrow> nat \<Rightarrow> 'a list \<Rightarrow> 'a list exec" where
  "blocking_get a M buf_pe index buf =
     (case ua_distribution a of
        Block \<Rightarrow>
          ebind (block_op a index (length buf)) (\<lambda>segs.
          efold (\<lambda>(pe, offset, buf_index, len) buf.
            ebind (sub_region buf buf_index (buf_index + len)) (\<lambda>_.
            ebind (mr_blocking_get a M pe offset len) (\<lambda>data. Ret (overwrite buf buf_index data)))) segs buf)
      | Cyclic \<Rightarrow>
          let num_pes = ad_num_pes (ua_data a) in
          ebind (cyclic_op a index (length buf)) (\<lambda>segs.
          efold (\<lambda>(i, pe, offset) buf.
            ebind (umod (length buf) num_pes) (\<lambda>rm.
            let num_elems = length buf div num_pes + (if i < rm then 1 else 0) in
            ebind (mr_blocking_get a M pe offset num_elems) (\<lambda>temp.
            if buf_pe = ad_my_pe (ua_data a) then scatter num_pes temp i buf else Panic ExplicitPanic))) segs buf))"

text \<open>The elements that the non-blocking get of a cyclic array reads (\<open>Get(false)\<close>).\<close>

definition cyclic_get_unchecked :: "unsafe_array_inner \<Rightarrow> 'a pe_mem \<Rightarrow> nat \<Rightarrow> nat \<Rightarrow> 'a list exec" where
  "cyclic_get_unchecked a M index buf_len =
     (let num_pes = ad_num_pes (ua_data a) in
      ebind (emap (\<lambda>i. ebind (umod (index + i) num_pes) (\<lambda>pe. ebind (udiv (index + i) num_pes) (\<lambda>offset.
        mr_blocking_get a M pe offset 1))) [0..<buf_len]) (\<lambda>ds. Ret (concat ds)))"

section \<open>Transfers by active messages\<close>

text \<open>The array object that an active message finds on another PE of the team.\<close>

definition at_pe :: "unsafe_array_inner \<Rightarrow> nat \<Rightarrow> unsafe_array_inner" where
  "at_pe a pe = a\<lparr>ua_data := (ua_data a)\<lparr>ad_my_pe := pe\<rparr>\<rparr>"

definition batch_am_size :: nat where
  "batch_am_size = 100000"

text \<open>
  The PE of the world that executes a message for a member of the team
  (\<open>arch.world_pe(pe).expect(\<dots>)\<close> in \<open>exec_am_pe\<close>).
\<close>

definition am_dst :: "lamellar_arch_rt \<Rightarrow> nat \<Rightarrow> nat exec" where
  "am_dst arch pe = ebind (uassert (pe < rt_num_pes arch)) (\<lambda>_.
     case world_pe arch pe of Inr w \<Rightarrow> Ret w | Inl _ \<Rightarrow> Panic UnwrapNone)"

datatype 'a put_am = UnsafePutAm nat "'a list" | UnsafeSmallPutAm "'a list"

text \<open>
  The messages of \<open>internal_put\<close>, with the team PE each is sent to.  A large one carries the
  buffer region and the PE to fetch it from.
\<close>

definition internal_put :: "unsafe_array_inner \<Rightarrow> nat \<Rightarrow> 'a list \<Rightarrow> (nat \<times> 'a put_am) list exec" where
  "internal_put a index buf =
     (let num_pes = ad_num_pes (ua_data a);
          am = (\<lambda>data. if length buf * ua_elem_size a > batch_am_size
                       then UnsafePutAm (ad_my_pe (ua_data a)) data else UnsafeSmallPutAm data)
      in case ua_distribution a of
        Block \<Rightarrow>
          ebind (block_op a index (length buf)) (\<lambda>segs.
          emap (\<lambda>(pe, offset, buf_index, len).
            ebind (sub_region buf buf_index (buf_index + len)) (\<lambda>data. Ret (pe, am data))) segs)
      | Cyclic \<Rightarrow>
          ebind (cyclic_op a index (length buf)) (\<lambda>segs.
          emap (\<lambda>(i, pe, offset). ebind (gather num_pes buf i) (\<lambda>data. Ret (pe, am data))) segs))"

text \<open>
  Executing one of them on the PE \<open>w\<close> of the world.  \<open>buf_pe\<close> is the PE of the world where the buffer
  region lives; \<open>blocking_get_slice\<close> refuses any other.  Copying more bytes than the message
  holds is undefined and is a panic here.
\<close>

definition exec_put_am ::
  "unsafe_array_inner \<Rightarrow> nat \<Rightarrow> nat \<Rightarrow> nat \<Rightarrow> nat \<Rightarrow> nat \<Rightarrow> 'a put_am \<Rightarrow> 'a pe_mem \<Rightarrow> 'a pe_mem exec" where
  "exec_put_am a buf_pe start_index len pe w am M =
     ebind (local_elements_for_range (at_pe a pe) start_index len) (\<lambda>r.
     case r of
       None \<Rightarrow> Ret M
     | Some ((lo, hi), _) \<Rightarrow>
         let first = lo div ua_elem_size a; n = (hi - lo) div ua_elem_size a in
         (case am of
            UnsafePutAm src data \<Rightarrow>
              if src = buf_pe \<and> n \<le> length data then Ret (M(w := overwrite (M w) first (take n data)))
              else Panic ExplicitPanic
          | UnsafeSmallPutAm data \<Rightarrow>
              if n \<le> length data then Ret (M(w := overwrite (M w) first (take n data))) else Panic OutOfBounds))"

definition exec_put_ams ::
  "lamellar_arch_rt \<Rightarrow> unsafe_array_inner \<Rightarrow> nat \<Rightarrow> nat \<Rightarrow> nat \<Rightarrow> (nat \<times> 'a put_am) list \<Rightarrow> 'a pe_mem \<Rightarrow> 'a pe_mem exec" where
  "exec_put_ams arch a buf_pe index len reqs M =
     efold (\<lambda>(pe, am) M. ebind (am_dst arch pe) (\<lambda>w. exec_put_am a buf_pe index len pe w am M)) reqs M"

text \<open>\<open>UnsafeRemoteSmallGetAm\<close> on one PE, and \<open>InitSmallGetAm\<close>, which asks every PE of the range.\<close>

definition remote_small_get ::
  "lamellar_arch_rt \<Rightarrow> unsafe_array_inner \<Rightarrow> 'a pe_mem \<Rightarrow> nat \<Rightarrow> nat \<Rightarrow> nat \<Rightarrow> 'a list exec" where
  "remote_small_get arch a M index len pe =
     ebind (am_dst arch pe) (\<lambda>w.
     ebind (local_elements_for_range (at_pe a pe) index len) (\<lambda>r.
     case r of
       None \<Rightarrow> Ret []
     | Some ((lo, hi), _) \<Rightarrow> Ret (take ((hi - lo) div ua_elem_size a) (drop (lo div ua_elem_size a) (M w)))))"

definition small_get ::
  "lamellar_arch_rt \<Rightarrow> unsafe_array_inner \<Rightarrow> 'a pe_mem \<Rightarrow> nat \<Rightarrow> 'a list \<Rightarrow> 'a list exec" where
  "small_get arch a M index buf =
     ebind (pes_for_range a index (length buf)) (\<lambda>pes.
     ebind (emap (remote_small_get arch a M index (length buf)) pes) (\<lambda>datas.
     case ua_distribution a of
       Block \<Rightarrow>
         ebind (efold (\<lambda>data (cur_index, buf).
           if cur_index + length data \<le> length buf
           then Ret (cur_index + length data, overwrite buf cur_index data) else Panic ExplicitPanic) datas (0, buf))
           (\<lambda>(_, buf). Ret buf)
     | Cyclic \<Rightarrow>
         let num_pes = length datas in
         efold (\<lambda>(start_index, data) buf.
           efold (\<lambda>(i, val) buf.
             if start_index + i * num_pes < length buf then Ret (buf[start_index + i * num_pes := val])
             else Panic OutOfBounds) (enumerate 0 data) buf) (enumerate 0 datas) buf))"

text \<open>\<open>internal_get\<close>: a large transfer is the one-sided one, split into local tasks.\<close>

definition internal_get ::
  "lamellar_arch_rt \<Rightarrow> unsafe_array_inner \<Rightarrow> 'a pe_mem \<Rightarrow> nat \<Rightarrow> nat \<Rightarrow> 'a list \<Rightarrow> 'a list exec" where
  "internal_get arch a M buf_pe index buf =
     (if length buf * ua_elem_size a > batch_am_size then blocking_get a M buf_pe index buf
      else small_get arch a M index buf)"

section \<open>Ranges are sub-arrays\<close>

text \<open>
  The elements of a range are those of a sub-array, so what \<^theory_text>\<open>Array_Layout\<close> shows of the
  parts of a sub-array applies to them.
\<close>

definition sub_range :: "unsafe_array_inner \<Rightarrow> nat \<Rightarrow> nat \<Rightarrow> unsafe_array_inner" where
  "sub_range a index len = a\<lparr>ua_offset := ua_offset a + index, ua_size := len\<rparr>"

named_theorems view_simps \<open>what a view of an array keeps\<close>

lemma sub_range_fields [simp, view_simps]:
  "ua_data (sub_range a i n) = ua_data a" "ua_distribution (sub_range a i n) = ua_distribution a"
  "ua_orig_elem_per_pe (sub_range a i n) = ua_orig_elem_per_pe a" "ua_elem_size (sub_range a i n) = ua_elem_size a"
  "ua_offset (sub_range a i n) = ua_offset a + i" "ua_size (sub_range a i n) = n"
  by (simp_all add: sub_range_def)

lemma sub_range_place [simp, view_simps]:
  "dist_owner (sub_range a i n) = dist_owner a" "mem_index (sub_range a i n) = mem_index a"
  by (auto simp: fun_eq_iff dist_owner_def mem_index_def split: distribution.split)

lemma at_pe_fields [simp, view_simps]:
  "ad_my_pe (ua_data (at_pe a pe)) = pe" "ad_num_pes (ua_data (at_pe a pe)) = ad_num_pes (ua_data a)"
  "ad_mem_bytes (ua_data (at_pe a pe)) = ad_mem_bytes (ua_data a)" "ua_distribution (at_pe a pe) = ua_distribution a"
  "ua_orig_elem_per_pe (at_pe a pe) = ua_orig_elem_per_pe a" "ua_elem_size (at_pe a pe) = ua_elem_size a"
  "ua_offset (at_pe a pe) = ua_offset a" "ua_size (at_pe a pe) = ua_size a"
  by (simp_all add: at_pe_def)

lemma at_pe_place [simp, view_simps]:
  "dist_owner (at_pe a pe) = dist_owner a" "mem_index (at_pe a pe) = mem_index a"
  "owned (at_pe a pe) = owned a" "nth_owned (at_pe a pe) = nth_owned a"
proof -
  show d: "dist_owner (at_pe a pe) = dist_owner a"
    by (auto simp: fun_eq_iff dist_owner_def split: distribution.split)
  then show "mem_index (at_pe a pe) = mem_index a" by (auto simp: fun_eq_iff mem_index_def split: distribution.split)
  show "owned (at_pe a pe) = owned a" by (simp add: fun_eq_iff owned_def d)
  show "nth_owned (at_pe a pe) = nth_owned a" by (auto simp: fun_eq_iff nth_owned_def split: distribution.split)
qed

lemma at_pe_ok: "pe < ad_num_pes (ua_data a) \<Longrightarrow> array_mem_ok S a \<Longrightarrow> array_mem_ok S (at_pe a pe)"
  "pe < ad_num_pes (ua_data a) \<Longrightarrow> array_ok S a \<Longrightarrow> array_ok S (at_pe a pe)"
  by (simp_all add: array_mem_ok_def array_ok_def)

lemma sub_range_ok:
  "array_ok S a \<Longrightarrow> i + n \<le> ua_size a \<Longrightarrow> array_ok S (sub_range a i n)"
  "array_mem_ok S a \<Longrightarrow> i + n \<le> ua_size a \<Longrightarrow> array_mem_ok S (sub_range a i n)"
  by (simp_all add: array_mem_ok_def array_ok_def)

lemma sub_range_owned: "i + n \<le> ua_size a \<Longrightarrow> j \<in> owned (sub_range a i n) pe \<longleftrightarrow> j < n \<and> i + j \<in> owned a pe"
  by (auto simp: owned_def add.assoc)

text \<open>The place of an element in memory, from its rank.\<close>

lemma owned_nth:
  assumes "array_ok S a" "pe < ad_num_pes (ua_data a)" "i \<in> owned a pe"
  shows "i = nth_owned a pe (rank a pe i)"
  using nth_owned_in [OF assms(1,2) rank_less [OF assms(3)]] rank_inj [OF assms(3)] by metis

lemma mem_rank:
  assumes "array_ok S a" "pe < ad_num_pes (ua_data a)" "i \<in> owned a pe"
  shows "mem_index a (ua_offset a + i) = mem_index a (ua_offset a + nth_owned a pe 0) + rank a pe i"
  using mem_index_nth [OF assms(1,2) rank_less [OF assms(3)]] owned_nth [OF assms] by simp

text \<open>The elements of a range on one PE have consecutive places.\<close>

lemma range_mem:
  assumes "array_ok S a" "i + n \<le> ua_size a" "pe < ad_num_pes (ua_data a)" "t < card (owned (sub_range a i n) pe)"
  shows "mem_index a (ua_offset a + i + nth_owned (sub_range a i n) pe t)
    = mem_index a (ua_offset a + i + nth_owned (sub_range a i n) pe 0) + t"
  using mem_index_nth [OF sub_range_ok(1) [OF assms(1,2)] _ assms(4)] assms(3) by simp

lemma range_rank:
  assumes "array_ok S a" "i + n \<le> ua_size a" "pe < ad_num_pes (ua_data a)" "t < card (owned (sub_range a i n) pe)"
  shows "i + nth_owned (sub_range a i n) pe t \<in> owned a pe"
    "rank a pe (i + nth_owned (sub_range a i n) pe t) = rank a pe (i + nth_owned (sub_range a i n) pe 0) + t"
proof -
  let ?b = "sub_range a i n"
  have mem: "i + nth_owned ?b pe k \<in> owned a pe" if "k < card (owned ?b pe)" for k
    using nth_owned_in [OF sub_range_ok(1) [OF assms(1,2)] _ that] assms(3) sub_range_owned [OF assms(2)] by simp
  show "i + nth_owned ?b pe t \<in> owned a pe" using mem [OF assms(4)] .
  have 0: "0 < card (owned ?b pe)" using assms(4) by simp
  show "rank a pe (i + nth_owned ?b pe t) = rank a pe (i + nth_owned ?b pe 0) + t"
    using mem_rank [OF assms(1,3) mem [OF assms(4)]] mem_rank [OF assms(1,3) mem [OF 0]] range_mem [OF assms]
    by (simp add: add.assoc)
qed

lemma range_end:
  assumes "array_ok S a" "i + n \<le> ua_size a" "pe < ad_num_pes (ua_data a)" "owned (sub_range a i n) pe \<noteq> {}"
  shows "rank a pe (i + nth_owned (sub_range a i n) pe 0) + card (owned (sub_range a i n) pe) \<le> card (owned a pe)"
proof -
  have "card (owned (sub_range a i n) pe) - 1 < card (owned (sub_range a i n) pe)"
    using assms(4) by (simp add: card_gt_0_iff)
  note last = range_rank [OF assms(1-3) this]
  show ?thesis using rank_less [OF last(1)] last(2) assms(4) by (simp add: card_gt_0_iff)
qed

lemma range_slice:
  assumes "array_mem_ok S a" "i + n \<le> ua_size a" "pe < ad_num_pes (ua_data a)" "owned (sub_range a i n) pe \<noteq> {}"
  defines "st \<equiv> rank a pe (i + nth_owned (sub_range a i n) pe 0)"
    and "lo \<equiv> mem_index a (ua_offset a + i + nth_owned (sub_range a i n) pe 0)"
    and "c \<equiv> card (owned (sub_range a i n) pe)"
  shows "\<exists>s e. local_as_mut_slice (at_pe a pe) = Ret (s, e) \<and> (st + c) * ua_elem_size a \<le> e - s
    \<and> s + st * ua_elem_size a = lo * ua_elem_size a \<and> s + (st + c) * ua_elem_size a = (lo + c) * ua_elem_size a"
proof -
  have ok: "array_ok S a" using assms(1) by (simp add: array_mem_ok_def)
  have c0: "0 < card (owned (sub_range a i n) pe)" using assms(4) by (simp add: card_gt_0_iff)
  note first = range_rank(1) [OF ok assms(2,3) c0]
  define base where "base = mem_index a (ua_offset a + nth_owned a pe 0)"
  have ne: "owned (at_pe a pe) (ad_my_pe (ua_data (at_pe a pe))) \<noteq> {}" using first by auto
  have size: "0 < ua_size (at_pe a pe)" using first by (auto simp: owned_def)
  have start: "local_start_index (at_pe a pe) = Ret base"
    using local_start_eq [OF at_pe_ok(2) [OF assms(3) ok] ne] by (simp add: base_def)
  have num: "num_elems_local (at_pe a pe) = Ret (card (owned a pe))"
    using num_elems_card [OF at_pe_ok(2) [OF assms(3) ok], of pe] assms(3) by (simp add: num_elems_local_def)
  have "base + card (owned a pe) \<le> f64_ceil_usize (elems_per_pe S (ad_num_pes (ua_data a)))"
    using local_slice_end [OF at_pe_ok(1) [OF assms(3,1)] size start] by simp
  then have "(base + card (owned a pe)) * ua_elem_size a \<le> ad_mem_bytes (ua_data a)"
    using assms(1) by (simp add: array_mem_ok_def)
  then have slice: "local_as_mut_slice (at_pe a pe) = Ret (base * ua_elem_size a, (base + card (owned a pe)) * ua_elem_size a)"
    using start num by (simp add: local_as_mut_slice_def Let_def)
  have lo: "lo = base + st" using mem_rank [OF ok assms(3) first] by (simp add: lo_def st_def base_def add.assoc)
  have "st + c \<le> card (owned a pe)" using range_end [OF ok assms(2-4)] by (simp add: st_def c_def)
  then have "(st + c) * ua_elem_size a \<le> card (owned a pe) * ua_elem_size a" by (rule mult_le_mono1)
  then show ?thesis unfolding slice lo by (auto simp: algebra_simps)
qed

section \<open>The range functions compute the parts of the range\<close>

lemma block_order:
  assumes "array_ok S a" "ua_distribution a = Block" "g < S" "pe < ad_num_pes (ua_data a)"
  shows "dist_owner a g \<le> pe \<longleftrightarrow> g < block_bound (ua_orig_elem_per_pe a) (pe + 1)"
    "pe \<le> dist_owner a g \<longleftrightarrow> block_bound (ua_orig_elem_per_pe a) pe \<le> g"
proof -
  let ?P = "ad_num_pes (ua_data a)" and ?o = "dist_owner a g"
  have ok: "layout_ok S ?P" and e: "ua_orig_elem_per_pe a = elems_per_pe S ?P" using assms(1) by (auto simp: array_ok_def)
  have o: "?o < ?P" by (rule owner_less [OF assms(1,3)])
  then have b: "block_bound (elems_per_pe S ?P) ?o \<le> g" "g < block_bound (elems_per_pe S ?P) (?o + 1)"
    using block_owner_iff [OF assms(1-3) o] e by auto
  have le: "q \<le> r \<Longrightarrow> r \<le> ?P \<Longrightarrow> block_bound (elems_per_pe S ?P) q \<le> block_bound (elems_per_pe S ?P) r" for q r
    by (rule blocks.B_mono [OF ok])
  show "?o \<le> pe \<longleftrightarrow> g < block_bound (ua_orig_elem_per_pe a) (pe + 1)"
    using b le [of "?o + 1" "pe + 1"] le [of "pe + 1" ?o] o assms(4) unfolding e by fastforce
  show "pe \<le> ?o \<longleftrightarrow> block_bound (ua_orig_elem_per_pe a) pe \<le> g"
    using b le [of pe ?o] le [of "?o + 1" pe] o assms(4) unfolding e by fastforce
qed

lemma block_strict:
  assumes "array_mem_ok S a" "pe < ad_num_pes (ua_data a)"
  shows "block_bound (ua_orig_elem_per_pe a) pe < block_bound (ua_orig_elem_per_pe a) (pe + 1)"
  using block_size_ge assms by (auto simp: array_mem_ok_def array_ok_def)

lemma block_range_owned:
  assumes "array_mem_ok S a" "ua_distribution a = Block" "i + n \<le> ua_size a" "0 < n" "pe < ad_num_pes (ua_data a)"
  shows "owned (sub_range a i n) pe \<noteq> {} \<longleftrightarrow>
    dist_owner a (ua_offset a + i) \<le> pe \<and> pe \<le> dist_owner a (ua_offset a + (i + n - 1))"
proof -
  have ok: "array_ok S a" using assms(1) by (simp add: array_mem_ok_def)
  have g: "ua_offset a + i < S" "ua_offset a + (i + n - 1) < S" using ok assms(3,4) by (auto simp: array_ok_def)
  note owned = block_owned [OF sub_range_ok(1) [OF ok assms(3)], unfolded view_simps, OF assms(2,5)]
  show ?thesis
    unfolding owned block_order(1) [OF ok assms(2) g(1) assms(5)] block_order(2) [OF ok assms(2) g(2) assms(5)]
    using block_strict [OF assms(1,5)] assms(4) by auto
qed

lemma range_ends:
  assumes "array_ok S a" "i + n \<le> ua_size a" "0 < n"
  shows "pe_for_dist_index a i = Ret (Some (dist_owner a (ua_offset a + i)))"
    "pe_for_dist_index a (i + n - 1) = Ret (Some (dist_owner a (ua_offset a + (i + n - 1))))"
  using pe_for_dist_index_owner [OF assms(1)] assms(2,3) by auto

text \<open>The first local position of a range on a PE of a block distribution, as the code computes it.\<close>

lemma block_range_start:
  assumes "array_mem_ok S a" "ua_distribution a = Block" "i + n \<le> ua_size a" "0 < n" "pe < ad_num_pes (ua_data a)"
    and "owned (sub_range a i n) pe \<noteq> {}"
  defines "lo \<equiv> block_bound (ua_orig_elem_per_pe a) pe" and "hi \<equiv> block_bound (ua_orig_elem_per_pe a) (pe + 1)"
  shows "start_index_for_pe a pe = Ret (Some (lo - ua_offset a))"
    and "rank a pe (i + nth_owned (sub_range a i n) pe 0) = i + (lo - (ua_offset a + i)) - (lo - ua_offset a)"
    and "card (owned (sub_range a i n) pe) = min (ua_offset a + i + n) hi - max (ua_offset a + i) lo"
    and "card (owned a pe) = min (ua_offset a + ua_size a) hi - max (ua_offset a) lo"
    and "dist_owner a (ua_offset a + i) = pe \<longleftrightarrow> lo \<le> ua_offset a + i"
    and "dist_owner a (ua_offset a + (i + n - 1)) = pe \<longleftrightarrow> ua_offset a + i + n \<le> hi"
    and "lo < ua_offset a + i + n" "ua_offset a + i < hi"
proof -
  let ?b = "sub_range a i n"
  have ok: "array_ok S a" using assms(1) by (simp add: array_mem_ok_def)
  have g: "ua_offset a + i < S" "ua_offset a + (i + n - 1) < S" using ok assms(3,4) by (auto simp: array_ok_def)
  note owned = block_owned [OF sub_range_ok(1) [OF ok assms(3)], unfolded view_simps, OF assms(2,5)]
  note owned' = block_owned [OF ok assms(2,5)]
  have b: "lo < ua_offset a + i + n" "ua_offset a + i < hi"
    using block_owned_nonempty [OF sub_range_ok(1) [OF ok assms(3)], unfolded view_simps, OF assms(2,5,6)]
    by (simp_all add: lo_def hi_def)
  then show "lo < ua_offset a + i + n" "ua_offset a + i < hi" .
  show "start_index_for_pe a pe = Ret (Some (lo - ua_offset a))"
    using b assms(3) by (simp add: block_start [OF assms(2)] Let_def lo_def hi_def)
  have "0 < card (owned ?b pe)" using assms(6) by (simp add: card_gt_0_iff)
  from range_rank(1) [OF ok assms(3,5) this] have "i + nth_owned ?b pe 0 \<in> owned a pe" .
  from rank_interval [OF owned' this] assms(2)
  show "rank a pe (i + nth_owned ?b pe 0) = i + (lo - (ua_offset a + i)) - (lo - ua_offset a)"
    by (simp add: nth_owned_def lo_def)
  show "card (owned ?b pe) = min (ua_offset a + i + n) hi - max (ua_offset a + i) lo"
    unfolding owned by (auto simp: lo_def hi_def)
  show "card (owned a pe) = min (ua_offset a + ua_size a) hi - max (ua_offset a) lo"
    unfolding owned' by (auto simp: lo_def hi_def)
  show "dist_owner a (ua_offset a + i) = pe \<longleftrightarrow> lo \<le> ua_offset a + i"
    using block_owner_iff [OF ok assms(2) g(1) assms(5)] b by (simp add: lo_def hi_def)
  show "dist_owner a (ua_offset a + (i + n - 1)) = pe \<longleftrightarrow> ua_offset a + i + n \<le> hi"
    using block_owner_iff [OF ok assms(2) g(2) assms(5)] b assms(4) by (auto simp: lo_def hi_def)
qed

lemma at_pe_code [simp]:
  "pe_for_dist_index (at_pe a pe) = pe_for_dist_index a" "start_index_for_pe (at_pe a pe) = start_index_for_pe a"
  "num_elems_pe (at_pe a pe) = num_elems_pe a"
proof -
  show p: "pe_for_dist_index (at_pe a pe) = pe_for_dist_index a"
    by (intro ext) (simp add: pe_for_dist_index_def Let_def split: distribution.split)
  show st: "start_index_for_pe (at_pe a pe) = start_index_for_pe a"
    by (intro ext) (simp add: start_index_for_pe_def p Let_def split: distribution.split)
  show "num_elems_pe (at_pe a pe) = num_elems_pe a"
    by (intro ext) (simp only: num_elems_pe_def p st view_simps)
qed

lemma slice_range:
  assumes "array_mem_ok S a" "i + n \<le> ua_size a" "pe < ad_num_pes (ua_data a)" "owned (sub_range a i n) pe \<noteq> {}"
  defines "st \<equiv> rank a pe (i + nth_owned (sub_range a i n) pe 0)"
    and "lo \<equiv> mem_index a (ua_offset a + i + nth_owned (sub_range a i n) pe 0)"
    and "c \<equiv> card (owned (sub_range a i n) pe)"
  shows "ebind (local_as_mut_slice (at_pe a pe)) (\<lambda>(s, e).
      if st * ua_elem_size a \<le> (st + c) * ua_elem_size a \<and> (st + c) * ua_elem_size a \<le> e - s
      then Ret (Some ((s + st * ua_elem_size a, s + (st + c) * ua_elem_size a), st, st + c)) else Panic OutOfBounds)
    = Ret (Some ((lo * ua_elem_size a, (lo + c) * ua_elem_size a), st, st + c))"
proof -
  obtain s e where se: "local_as_mut_slice (at_pe a pe) = Ret (s, e)" "(st + c) * ua_elem_size a \<le> e - s"
    "s + st * ua_elem_size a = lo * ua_elem_size a" "s + (st + c) * ua_elem_size a = (lo + c) * ua_elem_size a"
    using range_slice [OF assms(1-4)] unfolding st_def lo_def c_def by blast
  have "st * ua_elem_size a \<le> (st + c) * ua_elem_size a" by (rule mult_le_mono1) simp
  then show ?thesis using se by simp
qed

lemma last_position:
  fixes L H off i n size :: nat
  assumes "L < off + i + n" "off + i < H" "i + n \<le> size"
  shows "(if off + i + n \<le> H then i + (L - (off + i)) - (L - off) + (if L \<le> off + i then n else n - (L - off - i))
      else min (off + size) H - max off L)
    = i + (L - (off + i)) - (L - off) + (min (off + i + n) H - max (off + i) L)"
proof (cases "off + i + n \<le> H")
  case True
  then show ?thesis using assms by (cases "L \<le> off + i") (simp_all add: min_def max_def)
next
  case False
  then have "min (off + size) H = H" "min (off + i + n) H = H" using assms by simp_all
  then show ?thesis using False assms by (cases "L \<le> off"; cases "L \<le> off + i") (auto simp: max_def)
qed

text \<open>The code's choice of the first and last local position on a PE of the range.\<close>

lemma block_range_pick:
  assumes "array_mem_ok S a" "ua_distribution a = Block" "i + n \<le> ua_size a" "0 < n" "pe < ad_num_pes (ua_data a)"
    and "owned (sub_range a i n) pe \<noteq> {}"
  defines "L \<equiv> block_bound (ua_orig_elem_per_pe a) pe" and "st \<equiv> rank a pe (i + nth_owned (sub_range a i n) pe 0)"
    and "c \<equiv> card (owned (sub_range a i n) pe)"
  shows "(if pe = dist_owner a (ua_offset a + i)
          then ebind (usub i (L - ua_offset a)) (\<lambda>d. Ret (d, n))
          else ebind (usub (L - ua_offset a) i) (\<lambda>d. ebind (usub n d) (\<lambda>r. Ret (0, r))))
      = Ret (st, if L \<le> ua_offset a + i then n else n - (L - ua_offset a - i))"
    "(if pe = dist_owner a (ua_offset a + (i + n - 1))
      then st + (if L \<le> ua_offset a + i then n else n - (L - ua_offset a - i)) else card (owned a pe)) = st + c"
proof -
  note r = block_range_start [OF assms(1-6), folded L_def]
  show "(if pe = dist_owner a (ua_offset a + i)
          then ebind (usub i (L - ua_offset a)) (\<lambda>d. Ret (d, n))
          else ebind (usub (L - ua_offset a) i) (\<lambda>d. ebind (usub n d) (\<lambda>r. Ret (0, r))))
      = Ret (st, if L \<le> ua_offset a + i then n else n - (L - ua_offset a - i))"
    using r(2,5,7,8) by (auto simp: st_def usub_def)
  show "(if pe = dist_owner a (ua_offset a + (i + n - 1))
      then st + (if L \<le> ua_offset a + i then n else n - (L - ua_offset a - i)) else card (owned a pe)) = st + c"
    unfolding st_def c_def r(2-4) eq_commute [of pe] r(6) by (rule last_position [OF r(7,8) assms(3)])
qed

lemma local_range_block:
  assumes "array_mem_ok S a" "ua_distribution a = Block" "i + n \<le> ua_size a" "0 < n" "pe < ad_num_pes (ua_data a)"
  defines "b \<equiv> sub_range a i n"
  defines "st \<equiv> rank a pe (i + nth_owned b pe 0)" and "lo \<equiv> mem_index a (ua_offset a + i + nth_owned b pe 0)"
    and "c \<equiv> card (owned b pe)"
  shows "local_elements_for_range (at_pe a pe) i n = Ret (if owned b pe = {} then None
    else Some ((lo * ua_elem_size a, (lo + c) * ua_elem_size a), st, st + c))"
proof -
  have ok: "array_ok S a" using assms(1) by (simp add: array_mem_ok_def)
  note ends = range_ends [OF ok assms(3,4)]
  have num: "num_elems_local (at_pe a pe) = Ret (card (owned a pe))"
    using num_elems_card [OF ok assms(5)] by (simp add: num_elems_local_def)
  note ne = block_range_owned [OF assms(1-5)]
  show ?thesis
  proof (cases "owned b pe = {}")
    case True
    then have "dist_owner a (ua_offset a + (i + n - 1)) < pe \<or> pe < dist_owner a (ua_offset a + i)"
      using ne unfolding b_def by fastforce
    then show ?thesis using True assms(2,4) num ends by (simp add: local_elements_for_range_def Let_def)
  next
    case False
    note r = block_range_start [OF assms(1-5) False [unfolded b_def]]
    have io: "\<not> (dist_owner a (ua_offset a + (i + n - 1)) < pe \<or> pe < dist_owner a (ua_offset a + i))"
      using ne False unfolding b_def by auto
    note pick = block_range_pick [OF assms(1-5) False [unfolded b_def], folded b_def, folded st_def c_def]
    have u: "usub (i + n) 1 = Ret (i + n - 1)" using assms(4) by simp
    show ?thesis
      unfolding local_elements_for_range_def Let_def view_simps at_pe_code ends u ebind_simps option.case num
        assms(2) distribution.case r(1) pick(1) prod.case pick(2)
      using io False slice_range [OF assms(1,3,5) False [unfolded b_def]]
      unfolding st_def [symmetric] lo_def [symmetric] c_def [symmetric] b_def [symmetric] by (simp only: if_False)
  qed
qed

lemma cyclic_range_count:
  assumes "array_ok S a" "ua_distribution a = Cyclic" "i + n \<le> ua_size a" "0 < n" "pe < ad_num_pes (ua_data a)"
  defines "start_pe \<equiv> dist_owner a (ua_offset a + i)" and "end_pe \<equiv> dist_owner a (ua_offset a + (i + n - 1))"
  shows "n div ad_num_pes (ua_data a) +
      (if n mod ad_num_pes (ua_data a) \<noteq> 0 \<and> (if start_pe \<le> end_pe then pe \<ge> start_pe \<and> pe \<le> end_pe
         else pe \<ge> start_pe \<or> pe \<le> end_pe) then 1 else 0)
    = card (owned (sub_range a i n) pe)"
proof -
  let ?P = "ad_num_pes (ua_data a)"
  have e: "ua_offset a + (i + n - 1) = ua_offset a + i + (n - 1)" using assms(4) by simp
  have pes: "start_pe = (ua_offset a + i) mod ?P" "end_pe = (ua_offset a + i + (n - 1)) mod ?P"
    unfolding start_pe_def end_pe_def e using assms(2) by (simp_all add: dist_owner_def)
  note card = cyclic_card [OF sub_range_ok(1) [OF assms(1,3)], unfolded view_simps, OF assms(2,5)]
  show ?thesis
  proof (cases "n mod ?P = 0")
    case False
    then show ?thesis unfolding card pes using leftover_iff [OF assms(5), of n "ua_offset a + i"] by simp
  qed (simp add: card)
qed

lemma cyclic_range_start:
  assumes "array_ok S a" "ua_distribution a = Cyclic" "i + n \<le> ua_size a" "pe < ad_num_pes (ua_data a)"
    and "owned (sub_range a i n) pe \<noteq> {}"
  shows "rank a pe (i + nth_owned (sub_range a i n) pe 0) = (i + cyclic_first (ua_offset a + i) (ad_num_pes (ua_data a)) pe) div ad_num_pes (ua_data a)"
proof -
  have "0 < card (owned (sub_range a i n) pe)" using assms(5) by (simp add: card_gt_0_iff)
  from cyclic_rank [OF assms(1,2,4) range_rank(1) [OF assms(1,3,4) this]] show ?thesis
    using assms(2) by (simp add: nth_owned_def)
qed

lemma local_range_cyclic:
  assumes "array_mem_ok S a" "ua_distribution a = Cyclic" "i + n \<le> ua_size a" "0 < n" "pe < ad_num_pes (ua_data a)"
  defines "b \<equiv> sub_range a i n"
  defines "st \<equiv> rank a pe (i + nth_owned b pe 0)" and "lo \<equiv> mem_index a (ua_offset a + i + nth_owned b pe 0)"
    and "c \<equiv> card (owned b pe)"
  shows "local_elements_for_range (at_pe a pe) i n = Ret (if owned b pe = {} then None
    else Some ((lo * ua_elem_size a, (lo + c) * ua_elem_size a), st, st + c))"
proof -
  have ok: "array_ok S a" using assms(1) by (simp add: array_mem_ok_def)
  let ?P = "ad_num_pes (ua_data a)" and ?s = "dist_owner a (ua_offset a + i)"
  note ends = range_ends [OF ok assms(3,4)]
  note count = cyclic_range_count [OF ok assms(2-5), folded b_def c_def]
  have s: "?s = (ua_offset a + i) mod ?P" "?s < ?P" using assms(2,5) by (simp_all add: dist_owner_def)
  have P: "0 < ?P" using assms(5) by simp
  have first: "(if pe \<ge> ?s then Ret (i + (pe - ?s)) else ebind (usub ?P ?s) (\<lambda>d. Ret (i + (d + pe))))
      = Ret (i + cyclic_first (ua_offset a + i) ?P pe)"
    using s by (auto simp: cyclic_first_def)
  have u: "usub (i + n) 1 = Ret (i + n - 1)" using assms(4) by simp
  show ?thesis
  proof (cases "owned b pe = {}")
    case True
    then have "c = 0" by (simp add: c_def)
    then show ?thesis
      unfolding local_elements_for_range_def Let_def view_simps at_pe_code ends u ebind_simps option.case
        assms(2) distribution.case first udiv_ok [OF P] umod_ok [OF P] count
      using True by simp
  next
    case False
    then have c: "0 < c" by (simp add: c_def b_def card_gt_0_iff)
    note st = cyclic_range_start [OF ok assms(2,3,5) False [unfolded b_def], folded b_def st_def]
    show ?thesis
      unfolding local_elements_for_range_def Let_def view_simps at_pe_code ends u ebind_simps option.case
        assms(2) distribution.case first udiv_ok [OF P] umod_ok [OF P] count st [symmetric]
      using c False slice_range [OF assms(1,3,5) False [unfolded b_def]]
      unfolding st_def [symmetric] lo_def [symmetric] c_def [symmetric] b_def [symmetric] by (simp only: if_True if_False)
  qed
qed

lemma local_range:
  assumes "array_mem_ok S a" "i + n \<le> ua_size a" "0 < n" "pe < ad_num_pes (ua_data a)"
  defines "b \<equiv> sub_range a i n"
  defines "st \<equiv> rank a pe (i + nth_owned b pe 0)" and "lo \<equiv> mem_index a (ua_offset a + i + nth_owned b pe 0)"
    and "c \<equiv> card (owned b pe)"
  shows "local_elements_for_range (at_pe a pe) i n = Ret (if owned b pe = {} then None
    else Some ((lo * ua_elem_size a, (lo + c) * ua_elem_size a), st, st + c))"
  using local_range_block [OF assms(1) _ assms(2-4)] local_range_cyclic [OF assms(1) _ assms(2-4)]
  unfolding b_def st_def lo_def c_def by (cases "ua_distribution a") blast+

lemma num_range:
  assumes "array_mem_ok S a" "i + n \<le> ua_size a" "0 < n" "pe < ad_num_pes (ua_data a)"
  shows "num_elements_on_pe_for_range a pe i n =
    Ret (if owned (sub_range a i n) pe = {} then None else Some (card (owned (sub_range a i n) pe)))"
proof (cases "ua_distribution a")
  case Block
  have ok: "array_ok S a" using assms(1) by (simp add: array_mem_ok_def)
  note ends = range_ends [OF ok assms(2,3)] and num = num_elems_card [OF ok assms(4)]
  note ne = block_range_owned [OF assms(1) Block assms(2-4)]
  have u: "usub (i + n) 1 = Ret (i + n - 1)" using assms(3) by simp
  show ?thesis
  proof (cases "owned (sub_range a i n) pe = {}")
    case True
    then have "dist_owner a (ua_offset a + (i + n - 1)) < pe \<or> pe < dist_owner a (ua_offset a + i)"
      using ne by fastforce
    then show ?thesis using True Block num ends u by (simp add: num_elements_on_pe_for_range_def)
  next
    case False
    note r = block_range_start [OF assms(1) Block assms(2-4) False]
    have io: "\<not> (dist_owner a (ua_offset a + (i + n - 1)) < pe \<or> pe < dist_owner a (ua_offset a + i))"
      using ne False by auto
    note pick = block_range_pick [OF assms(1) Block assms(2-4) False]
    show ?thesis
      unfolding num_elements_on_pe_for_range_def Let_def ends u ebind_simps option.case Block distribution.case num r(1)
        pick(1) prod.case pick(2) using io False by simp
  qed
next
  case Cyclic
  have ok: "array_ok S a" using assms(1) by (simp add: array_mem_ok_def)
  have P: "0 < ad_num_pes (ua_data a)" using assms(4) by simp
  have u: "usub (i + n) 1 = Ret (i + n - 1)" using assms(3) by simp
  show ?thesis
    unfolding num_elements_on_pe_for_range_def Let_def range_ends [OF ok assms(2,3)] u ebind_simps option.case
      Cyclic distribution.case udiv_ok [OF P] umod_ok [OF P] cyclic_range_count [OF ok Cyclic assms(2-4)]
    by (simp add: card_gt_0_iff)
qed

section \<open>The transfers cover the range\<close>

text \<open>The PEs of a range, in the order of the code, and the part of a buffer that belongs to one.\<close>

definition range_pes :: "unsafe_array_inner \<Rightarrow> nat list" where
  "range_pes b = (case ua_distribution b of
     Block \<Rightarrow> [dist_owner b (ua_offset b)..<dist_owner b (ua_offset b + (ua_size b - 1)) + 1]
   | Cyclic \<Rightarrow> map (\<lambda>j. (ua_offset b + j) mod ad_num_pes (ua_data b)) [0..<min (ua_size b) (ad_num_pes (ua_data b))])"

definition part_data :: "unsafe_array_inner \<Rightarrow> 'a list \<Rightarrow> nat \<Rightarrow> 'a list" where
  "part_data b buf pe = map (\<lambda>t. buf ! nth_owned b pe t) [0..<card (owned b pe)]"

text \<open>Where the part starts in the memory of the PE.\<close>

definition part_mem :: "unsafe_array_inner \<Rightarrow> nat \<Rightarrow> nat" where
  "part_mem b pe = mem_index b (ua_offset b + nth_owned b pe 0)"

lemma part_data_length [simp]: "length (part_data b buf pe) = card (owned b pe)"
  by (simp add: part_data_def)

lemma block_loop_eq:
  fixes e :: rat
  defines "B \<equiv> block_bound e"
  assumes "\<And>q. p \<le> q \<Longrightarrow> q \<le> r \<Longrightarrow> B q < B (q + 1) \<and> B q < g + n" "g < B (p + 1)" "0 < n"
  shows "block_loop e n [p..<r + 1] (max g (B p)) (max g (B p) - g)
    = Ret (map (\<lambda>q. (q, max g (B q) - B q, max g (B q) - g, min (g + n) (B (q + 1)) - max g (B q))) [p..<r + 1])"
  using assms(2-4)
proof (induction "r + 1 - p" arbitrary: p)
  case (Suc k)
  then have le: "p \<le> r" by simp
  have p: "B p < B (p + 1)" "B p < g + n" "g < B (p + 1)" using Suc.prems le by auto
  have up: "[p..<r + 1] = p # [p + 1..<r + 1]" using le upt_conv_Cons by simp
  define d where "d = max g (B p)"
  have d: "B p \<le> d" "g \<le> d" "d < B (p + 1)" "d < g + n" using p Suc.prems(3) by (auto simp: d_def)
  define len where "len = min (g + n) (B (p + 1)) - d"
  have len: "min (B (p + 1) - B p - (d - B p)) (n - (d - g)) = len" "0 < len" using d by (auto simp: len_def)
  have rest: "block_loop e n [p + 1..<r + 1] (d + len) (d - g + len)
    = Ret (map (\<lambda>q. (q, max g (B q) - B q, max g (B q) - g, min (g + n) (B (q + 1)) - max g (B q))) [p + 1..<r + 1])"
  proof (cases "p = r")
    case False
    then have q: "B (p + 1) < g + n" "B (p + 1) < B (p + 1 + 1)" using Suc.prems(1) [of "p + 1"] le by auto
    then have "d + len = max g (B (p + 1))" "d - g + len = max g (B (p + 1)) - g" using d by (auto simp: len_def)
    moreover have "g < B (p + 1 + 1)" using d q by simp
    ultimately show ?thesis using Suc.hyps(1) [of "p + 1"] Suc.hyps(2) Suc.prems(1,3) by simp
  qed simp
  have u: "usub (B (p + 1)) (B p) = Ret (B (p + 1) - B p)" "usub d (B p) = Ret (d - B p)"
    "usub (B (p + 1) - B p) (d - B p) = Ret (B (p + 1) - B p - (d - B p))" "usub n (d - g) = Ret (n - (d - g))"
    using d by simp_all
  show ?case
    unfolding up block_loop.simps list.map B_def [symmetric] d_def [symmetric] u ebind_simps Let_def len(1)
    using len(2) rest by (simp only: if_True ebind_simps len_def)
qed simp

lemma block_part:
  assumes "array_mem_ok S b" "ua_distribution b = Block" "pe < ad_num_pes (ua_data b)" "owned b pe \<noteq> {}"
  defines "L \<equiv> block_bound (ua_orig_elem_per_pe b) pe"
  shows "part_mem b pe = max (ua_offset b) L - L" "nth_owned b pe t = max (ua_offset b) L - ua_offset b + t"
    "card (owned b pe) = min (ua_offset b + ua_size b) (block_bound (ua_orig_elem_per_pe b) (pe + 1)) - max (ua_offset b) L"
proof -
  have ok: "array_ok S b" using assms(1) by (simp add: array_mem_ok_def)
  show nth: "nth_owned b pe t = max (ua_offset b) L - ua_offset b + t" for t
    using assms(2) by (simp add: nth_owned_def L_def max_def)
  have "0 < card (owned b pe)" using assms(4) by (simp add: card_gt_0_iff)
  then have "dist_owner b (ua_offset b + nth_owned b pe 0) = pe"
    using nth_owned_in [OF ok assms(3)] by (auto simp: owned_def)
  then show "part_mem b pe = max (ua_offset b) L - L"
    using assms(2) by (simp add: part_mem_def mem_index_def L_def nth)
  show "card (owned b pe) = min (ua_offset b + ua_size b) (block_bound (ua_orig_elem_per_pe b) (pe + 1)) - max (ua_offset b) L"
    unfolding block_owned [OF ok assms(2,3)] by (auto simp: L_def)
qed

lemma range_pes_set:
  assumes "array_mem_ok S a" "i + n \<le> ua_size a" "0 < n"
  defines "b \<equiv> sub_range a i n"
  shows "set (range_pes b) = {pe. pe < ad_num_pes (ua_data a) \<and> owned b pe \<noteq> {}}" "distinct (range_pes b)"
proof -
  have ok: "array_ok S a" using assms(1) by (simp add: array_mem_ok_def)
  have P: "0 < ad_num_pes (ua_data a)" using ok by (auto simp: array_ok_def)
  show "set (range_pes b) = {pe. pe < ad_num_pes (ua_data a) \<and> owned b pe \<noteq> {}}"
  proof (cases "ua_distribution a")
    case Block
    define lst where "lst = dist_owner a (ua_offset a + (i + n - 1))"
    have "lst < ad_num_pes (ua_data a)"
      unfolding lst_def by (rule owner_less [OF ok]) (use ok assms(2,3) in \<open>auto simp: array_ok_def\<close>)
    moreover have "ua_offset a + i + (n - 1) = ua_offset a + (i + n - 1)" using assms(3) by simp
    then have "range_pes b = [dist_owner a (ua_offset a + i)..<lst + 1]"
      unfolding range_pes_def b_def view_simps Block distribution.case by (simp only: lst_def)
    ultimately show ?thesis
      using block_range_owned [OF assms(1) Block assms(2,3), folded lst_def b_def] by fastforce
  next
    case Cyclic
    have "owned b pe \<noteq> {} \<longleftrightarrow> cyclic_first (ua_offset a + i) (ad_num_pes (ua_data a)) pe < n" if "pe < ad_num_pes (ua_data a)" for pe
    proof -
      let ?k = "cyclic_first (ua_offset a + i) (ad_num_pes (ua_data a)) pe"
      have o: "owned b pe = {j. j < n \<and> j mod ad_num_pes (ua_data a) = ?k}"
        using cyclic_owned [OF sub_range_ok(1) [OF ok assms(2)], unfolded view_simps, OF Cyclic that] by (simp add: b_def)
      show ?thesis
      proof
        assume "owned b pe \<noteq> {}"
        then obtain j where "j < n" "j mod ad_num_pes (ua_data a) = ?k" unfolding o by blast
        then show "?k < n" using mod_less_eq_dividend [of j "ad_num_pes (ua_data a)"] by simp
      next
        assume "?k < n"
        then show "owned b pe \<noteq> {}" unfolding o using cyclic_first_less [OF that] mod_less by blast
      qed
    qed
    moreover have "pe \<in> set (range_pes b) \<longleftrightarrow> pe < ad_num_pes (ua_data a)
        \<and> cyclic_first (ua_offset a + i) (ad_num_pes (ua_data a)) pe < n" for pe
    proof
      assume "pe \<in> set (range_pes b)"
      then obtain j where j: "j < n" "j < ad_num_pes (ua_data a)" "pe = (ua_offset a + i + j) mod ad_num_pes (ua_data a)"
        by (auto simp: range_pes_def b_def Cyclic)
      then have "pe < ad_num_pes (ua_data a)" by simp
      with j cyclic_owner_iff [OF this, of "ua_offset a + i" j]
      show "pe < ad_num_pes (ua_data a) \<and> cyclic_first (ua_offset a + i) (ad_num_pes (ua_data a)) pe < n" by simp
    next
      assume pe: "pe < ad_num_pes (ua_data a) \<and> cyclic_first (ua_offset a + i) (ad_num_pes (ua_data a)) pe < n"
      define j where "j = cyclic_first (ua_offset a + i) (ad_num_pes (ua_data a)) pe"
      have "j < ad_num_pes (ua_data a)" "j < n" using cyclic_first_less pe by (auto simp: j_def)
      moreover have "(ua_offset a + i + j) mod ad_num_pes (ua_data a) = pe"
        using cyclic_owner_iff [of pe "ad_num_pes (ua_data a)" "ua_offset a + i" j] pe calculation(1) by (simp add: j_def)
      ultimately show "pe \<in> set (range_pes b)" by (force simp: range_pes_def b_def Cyclic)
    qed
    ultimately show ?thesis by blast
  qed
  show "distinct (range_pes b)"
  proof (cases "ua_distribution a")
    case Cyclic
    have "inj_on (\<lambda>j. (ua_offset a + i + j) mod ad_num_pes (ua_data a)) {0..<min n (ad_num_pes (ua_data a))}"
    proof (rule inj_onI)
      fix j k assume jk: "j \<in> {0..<min n (ad_num_pes (ua_data a))}" "k \<in> {0..<min n (ad_num_pes (ua_data a))}"
        and "(ua_offset a + i + j) mod ad_num_pes (ua_data a) = (ua_offset a + i + k) mod ad_num_pes (ua_data a)"
      then have "j mod ad_num_pes (ua_data a) = k mod ad_num_pes (ua_data a)"
        using cyclic_owner_iff [of "(ua_offset a + i + k) mod ad_num_pes (ua_data a)" "ad_num_pes (ua_data a)" "ua_offset a + i"] P
        by (metis mod_less_divisor)
      then show "j = k" using jk by simp
    qed
    then show ?thesis by (simp add: range_pes_def b_def Cyclic inj_on_imp_distinct_map_upt)
  qed (simp add: range_pes_def b_def)
qed

lemma block_op_eq:
  assumes "array_mem_ok S a" "ua_distribution a = Block" "i + n \<le> ua_size a" "0 < n"
  defines "b \<equiv> sub_range a i n"
  shows "block_op a i n = Ret (map (\<lambda>pe. (pe, part_mem b pe, nth_owned b pe 0, card (owned b pe))) (range_pes b))"
proof -
  have ok: "array_ok S a" using assms(1) by (simp add: array_mem_ok_def)
  let ?B = "block_bound (ua_orig_elem_per_pe a)" and ?g = "ua_offset a + i"
  define fst_pe lst where "fst_pe = dist_owner a ?g" and "lst = dist_owner a (ua_offset a + (i + n - 1))"
  have g: "?g < S" "ua_offset a + (i + n - 1) < S" using ok assms(3,4) by (auto simp: array_ok_def)
  have pes: "range_pes b = [fst_pe..<lst + 1]"
  proof -
    have "?g + (n - 1) = ua_offset a + (i + n - 1)" using assms(4) by simp
    then show ?thesis
      unfolding range_pes_def b_def view_simps assms(2) distribution.case by (simp only: fst_pe_def lst_def)
  qed
  have P: "fst_pe < ad_num_pes (ua_data a)" "lst < ad_num_pes (ua_data a)"
    using owner_less [OF ok] g by (auto simp: fst_pe_def lst_def)
  have first: "?B fst_pe \<le> ?g" "?g < ?B (fst_pe + 1)"
    using block_owner_iff [OF ok assms(2) g(1) P(1)] by (auto simp: fst_pe_def)
  have steps: "?B q < ?B (q + 1) \<and> ?B q < ?g + n" if "fst_pe \<le> q" "q \<le> lst" for q
    using block_strict [OF assms(1), of q] block_order(2) [OF ok assms(2) g(2), of q] that P assms(4) by (auto simp: lst_def)
  have "block_op a i n = block_loop (ua_orig_elem_per_pe a) n [fst_pe..<lst + 1] (max ?g (?B fst_pe)) (max ?g (?B fst_pe) - ?g)"
    using range_ends [OF ok assms(3,4)] first assms(4)
    by (simp add: block_op_def Let_def fst_pe_def lst_def max_def add.commute)
  also have "\<dots> = Ret (map (\<lambda>q. (q, max ?g (?B q) - ?B q, max ?g (?B q) - ?g, min (?g + n) (?B (q + 1)) - max ?g (?B q))) [fst_pe..<lst + 1])"
    by (rule block_loop_eq [OF steps first(2) assms(4)])
  also have "\<dots> = Ret (map (\<lambda>pe. (pe, part_mem b pe, nth_owned b pe 0, card (owned b pe))) (range_pes b))"
  proof -
    have "(pe, part_mem b pe, nth_owned b pe 0, card (owned b pe))
        = (pe, max ?g (?B pe) - ?B pe, max ?g (?B pe) - ?g, min (?g + n) (?B (pe + 1)) - max ?g (?B pe))"
      if "pe \<in> set (range_pes b)" for pe
    proof -
      have pe: "pe < ad_num_pes (ua_data b)" "owned b pe \<noteq> {}"
        using that range_pes_set(1) [OF assms(1,3,4)] by (auto simp: b_def)
      show ?thesis
        using block_part [OF sub_range_ok(2) [OF assms(1,3)], folded b_def, OF _ pe] assms(2) by (simp add: b_def)
    qed
    then show ?thesis unfolding pes by simp
  qed
  finally show ?thesis .
qed

lemma cyclic_loop_eq:
  assumes "0 < P" "m \<le> P"
  shows "cyclic_loop P (g mod P) g [0..<m] 0 = map (\<lambda>j. (j, (g + j) mod P, (g + j) div P)) [0..<m]"
proof -
  have split: "g div P + (g mod P + j) div P = (g + j) div P" for j
    using assms(1) by (metis div_mult_mod_eq add.assoc div_mult_self3 mult.commute less_not_refl)
  have "cyclic_loop P (g mod P) g [k..<m] ((g mod P + k) div P) = map (\<lambda>j. (j, (g + j) mod P, (g + j) div P)) [k..<m]"
    if "k \<le> m" for k
    using that
  proof (induction "m - k" arbitrary: k)
    case (Suc d)
    then have "[k..<m] = k # [k + 1..<m]" using upt_conv_Cons by simp
    moreover have "(if (g mod P + k) mod P + 1 = P then (g mod P + k) div P + 1 else (g mod P + k) div P) = (g mod P + (k + 1)) div P"
      using assms(1) by (simp add: div_Suc mod_Suc)
    moreover have "cyclic_loop P (g mod P) g [k + 1..<m] ((g mod P + (k + 1)) div P) = map (\<lambda>j. (j, (g + j) mod P, (g + j) div P)) [k + 1..<m]"
      using Suc by (intro Suc.hyps(1)) auto
    ultimately show ?case by (simp add: Let_def split mod_add_left_eq del: upt_Suc)
  qed simp
  from this [of 0] assms(1) show ?thesis by simp
qed

lemma cyclic_op_eq:
  assumes "array_mem_ok S a" "ua_distribution a = Cyclic" "i + n \<le> ua_size a" "0 < n"
  defines "b \<equiv> sub_range a i n"
  shows "cyclic_op a i n = Ret (map (\<lambda>pe. (nth_owned b pe 0, pe, part_mem b pe)) (range_pes b))"
proof -
  let ?P = "ad_num_pes (ua_data a)" and ?g = "ua_offset a + i"
  have P: "0 < ?P" using assms(1) by (auto simp: array_mem_ok_def array_ok_def)
  have "nth_owned b ((?g + j) mod ?P) 0 = j" if "j < ?P" for j
    using cyclic_owner_iff [of "(?g + j) mod ?P" ?P ?g j] that P assms(2) by (simp add: nth_owned_def b_def)
  then have "map (\<lambda>pe. (nth_owned b pe 0, pe, part_mem b pe)) (range_pes b)
      = map (\<lambda>j. (j, (?g + j) mod ?P, (?g + j) div ?P)) [0..<min n ?P]"
    using assms(2) by (simp add: range_pes_def b_def part_mem_def mem_index_def)
  moreover have "cyclic_op a i n = Ret (cyclic_loop ?P (?g mod ?P) ?g [0..<min n ?P] 0)"
    using P by (simp add: cyclic_op_def Let_def add.commute)
  ultimately show ?thesis using cyclic_loop_eq [OF P, of "min n ?P" ?g] by simp
qed

subsection \<open>The data of one PE\<close>

lemma step_count:
  assumes "j < n" "j < (P::nat)"
  shows "(n - j + P - 1) div P = n div P + (if j < n mod P then 1 else 0)"
proof -
  define q r where "q = n div P" and "r = n mod P"
  have n: "n = P * q + r" "r < P" using assms(2) by (simp_all add: q_def r_def)
  show ?thesis
  proof (cases "j < r")
    case True
    then have "n - j + P - 1 = P * (q + 1) + (r - j - 1)" using n by simp
    moreover have "(P * (q + 1) + (r - j - 1)) div P = q + 1"
      using n assms(2) by (intro div_nat_eqI) simp_all
    ultimately show ?thesis using True unfolding q_def [symmetric] r_def [symmetric] by (simp only: if_True)
  next
    case False
    then have "q \<noteq> 0" using n assms(1) by (cases q) auto
    then obtain k where k: "q = Suc k" by (cases q) auto
    have "n - j + P - 1 = P * q + (P - 1 - (j - r))" using n False assms(2) by (simp add: k)
    moreover have "(P * q + (P - 1 - (j - r))) div P = q" using assms(2) by (intro div_nat_eqI) simp_all
    ultimately show ?thesis using False unfolding q_def [symmetric] r_def [symmetric] by (simp only: if_False add_0_right)
  qed
qed

lemma cyclic_part:
  assumes "array_mem_ok S b" "ua_distribution b = Cyclic" "pe < ad_num_pes (ua_data b)" "owned b pe \<noteq> {}"
  shows "nth_owned b pe 0 < ua_size b" "nth_owned b pe 0 < ad_num_pes (ua_data b)"
    "step_range (nth_owned b pe 0) (ua_size b) (ad_num_pes (ua_data b)) = map (nth_owned b pe) [0..<card (owned b pe)]"
    "card (owned b pe) = ua_size b div ad_num_pes (ua_data b) + (if nth_owned b pe 0 < ua_size b mod ad_num_pes (ua_data b) then 1 else 0)"
proof -
  have ok: "array_ok S b" using assms(1) by (simp add: array_mem_ok_def)
  have c: "0 < card (owned b pe)" using assms(4) by (simp add: card_gt_0_iff)
  show n: "nth_owned b pe 0 < ua_size b" using nth_owned_in [OF ok assms(3) c] by (simp add: owned_def)
  show P: "nth_owned b pe 0 < ad_num_pes (ua_data b)" using cyclic_first_less [OF assms(3)] assms(2) by (simp add: nth_owned_def)
  show card: "card (owned b pe) = ua_size b div ad_num_pes (ua_data b) + (if nth_owned b pe 0 < ua_size b mod ad_num_pes (ua_data b) then 1 else 0)"
    using cyclic_card [OF ok assms(2,3)] assms(2) by (simp add: nth_owned_def)
  show "step_range (nth_owned b pe 0) (ua_size b) (ad_num_pes (ua_data b)) = map (nth_owned b pe) [0..<card (owned b pe)]"
    unfolding step_range_def step_count [OF n P] card [symmetric] using assms(2) by (simp add: nth_owned_def mult.commute)
qed

lemma gather_part:
  assumes "array_mem_ok S b" "ua_distribution b = Cyclic" "pe < ad_num_pes (ua_data b)" "owned b pe \<noteq> {}" "ua_size b = length buf"
  shows "gather (ad_num_pes (ua_data b)) buf (nth_owned b pe 0) = Ret (part_data b buf pe)"
  using cyclic_part(3,4) [OF assms(1-4)] by (simp add: gather_def Let_def assms(5) part_data_def)

lemma sub_region_part:
  assumes "array_mem_ok S b" "ua_distribution b = Block" "pe < ad_num_pes (ua_data b)" "owned b pe \<noteq> {}" "ua_size b = length buf"
  shows "sub_region buf (nth_owned b pe 0) (nth_owned b pe 0 + card (owned b pe)) = Ret (part_data b buf pe)"
    "nth_owned b pe 0 + card (owned b pe) \<le> length buf"
proof -
  have ok: "array_ok S b" using assms(1) by (simp add: array_mem_ok_def)
  note part = block_part [OF assms(1-4)]
  have c: "card (owned b pe) - 1 < card (owned b pe)" using assms(4) by (simp add: card_gt_0_iff)
  have "nth_owned b pe (card (owned b pe) - 1) < ua_size b" using nth_owned_in [OF ok assms(3) c] by (simp add: owned_def)
  then show le: "nth_owned b pe 0 + card (owned b pe) \<le> length buf" using c assms(5) by (simp add: part(2))
  have "take c (drop k buf) = map (\<lambda>t. buf ! (k + t)) [0..<c]" if "k + c \<le> length buf" for k c
    using that by (intro nth_equalityI) simp_all
  from this [OF le] show "sub_region buf (nth_owned b pe 0) (nth_owned b pe 0 + card (owned b pe)) = Ret (part_data b buf pe)"
    using le by (simp add: sub_region_def part_data_def part(2))
qed

lemma pes_for_range_eq:
  assumes "array_mem_ok S a" "i + n \<le> ua_size a" "0 < n"
  shows "pes_for_range a i n = Ret (range_pes (sub_range a i n))"
proof (cases "ua_distribution a")
  case Block
  have ok: "array_ok S a" using assms(1) by (simp add: array_mem_ok_def)
  have e: "ua_offset a + i + (n - 1) = ua_offset a + (i + n - 1)" and u: "usub (i + n) 1 = Ret (i + n - 1)" using assms(3) by simp_all
  show ?thesis
    unfolding pes_for_range_def range_pes_def view_simps Block distribution.case range_ends [OF ok assms(2,3)] u
      ebind_simps option.case e ..
next
  case Cyclic
  let ?P = "ad_num_pes (ua_data a)" and ?g = "ua_offset a + i"
  have P: "0 < ?P" using assms(1) by (auto simp: array_mem_ok_def array_ok_def)
  have emap: "emap (\<lambda>x. umod x ?P) xs = Ret (map (\<lambda>x. x mod ?P) xs)" for xs
    by (induction xs) (simp_all add: P)
  have "take ?P [?g..<?g + n] = map (\<lambda>j. ?g + j) [0..<min n ?P]" by (rule nth_equalityI) simp_all
  moreover have "usub (?g + n) 1 = Ret (?g + n - 1)" "?g + n - 1 + 1 = ?g + n" using assms(3) by simp_all
  ultimately show ?thesis
    unfolding pes_for_range_def range_pes_def view_simps Cyclic distribution.case Let_def emap ebind_simps
    by (simp only: ebind_simps map_map o_def)
qed

section \<open>The array as a list\<close>

text \<open>
  The abstract state: the full array as one list.  \<open>W\<close> maps a team index to the PE of the world
  whose memory holds the part.
\<close>

definition full_view :: "(nat \<Rightarrow> nat) \<Rightarrow> nat \<Rightarrow> unsafe_array_inner \<Rightarrow> 'a pe_mem \<Rightarrow> 'a list" where
  "full_view W S a M = map (\<lambda>g. M (W (dist_owner a g)) ! mem_index a g) [0..<S]"

definition mem_ok :: "(nat \<Rightarrow> nat) \<Rightarrow> unsafe_array_inner \<Rightarrow> 'a pe_mem \<Rightarrow> bool" where
  "mem_ok W a M \<longleftrightarrow> 0 < ua_elem_size a \<and> inj_on W {..<ad_num_pes (ua_data a)}
     \<and> (\<forall>pe<ad_num_pes (ua_data a). length (M (W pe)) * ua_elem_size a = ad_mem_bytes (ua_data a))"

lemma length_overwrite [simp]: "k + length ys \<le> length xs \<Longrightarrow> length (overwrite xs k ys) = length xs"
  by (simp add: overwrite_def)

lemma nth_overwrite:
  "k + length ys \<le> length xs \<Longrightarrow> j < length xs \<Longrightarrow>
     overwrite xs k ys ! j = (if k \<le> j \<and> j < k + length ys then ys ! (j - k) else xs ! j)"
  by (auto simp: overwrite_def nth_append)

lemma full_view_length [simp]: "length (full_view W S a M) = S"
  by (simp add: full_view_def)

lemma mem_length:
  assumes "array_mem_ok S a" "mem_ok W a M" "pe < ad_num_pes (ua_data a)"
  shows "length (M (W pe)) = f64_ceil_usize (elems_per_pe S (ad_num_pes (ua_data a)))"
  using assms by (auto simp: array_mem_ok_def mem_ok_def)

lemma mem_inj:
  assumes "array_ok S a" "g < S" "h < S" "dist_owner a g = dist_owner a h" "mem_index a g = mem_index a h"
  shows "g = h"
proof (cases "ua_distribution a")
  case Block
  have "block_bound (ua_orig_elem_per_pe a) (dist_owner a g) \<le> g" "block_bound (ua_orig_elem_per_pe a) (dist_owner a h) \<le> h"
    using block_owner_iff [OF assms(1) Block] owner_less [OF assms(1)] assms(2,3) by auto
  then show ?thesis using assms(4,5) Block by (simp add: mem_index_def)
next
  case Cyclic
  then have "g mod ad_num_pes (ua_data a) = h mod ad_num_pes (ua_data a)" "g div ad_num_pes (ua_data a) = h div ad_num_pes (ua_data a)"
    using assms(4,5) by (simp_all add: dist_owner_def mem_index_def)
  then show ?thesis by (metis div_mult_mod_eq)
qed

lemma part_fits:
  assumes "array_mem_ok S a" "i + n \<le> ua_size a" "pe < ad_num_pes (ua_data a)" "owned (sub_range a i n) pe \<noteq> {}"
  shows "part_mem (sub_range a i n) pe + card (owned (sub_range a i n) pe) \<le> f64_ceil_usize (elems_per_pe S (ad_num_pes (ua_data a)))"
proof -
  let ?b = "sub_range a i n"
  have ok: "array_ok S a" using assms(1) by (simp add: array_mem_ok_def)
  have c: "card (owned ?b pe) - 1 < card (owned ?b pe)" using assms(4) by (simp add: card_gt_0_iff)
  have "nth_owned ?b pe (card (owned ?b pe) - 1) < n"
    using nth_owned_in [OF sub_range_ok(1) [OF ok assms(2)] _ c] assms(3) by (simp add: owned_def)
  then have "ua_offset a + i + nth_owned ?b pe (card (owned ?b pe) - 1) < S" using ok assms(2) by (simp add: array_ok_def)
  from mem_index_less [OF assms(1) this] range_mem [OF ok assms(2,3) c] c show ?thesis by (simp add: part_mem_def)
qed

text \<open>The places of a part are those of the elements of the range that the PE owns.\<close>

lemma part_place:
  assumes "array_ok S a" "i + n \<le> ua_size a" "g < S"
  defines "b \<equiv> sub_range a i n" and "pe \<equiv> dist_owner a g" and "k \<equiv> mem_index a g" and "f \<equiv> ua_offset a + i"
  shows "part_mem b pe \<le> k \<and> k < part_mem b pe + card (owned b pe) \<longleftrightarrow> f \<le> g \<and> g < f + n"
    "f \<le> g \<Longrightarrow> g < f + n \<Longrightarrow> nth_owned b pe (k - part_mem b pe) = g - f"
proof -
  have okb: "array_ok S b" using sub_range_ok(1) [OF assms(1,2)] by (simp add: b_def)
  have pe: "pe < ad_num_pes (ua_data a)" "pe < ad_num_pes (ua_data b)" using owner_less [OF assms(1,3)] by (simp_all add: pe_def b_def)
  have S: "f + n \<le> S" using assms(1,2) by (simp add: array_ok_def f_def)
  have at: "part_mem b pe + t = mem_index a (f + nth_owned b pe t)"
    "nth_owned b pe t < n" "dist_owner a (f + nth_owned b pe t) = pe" if t: "t < card (owned b pe)" for t
  proof -
    show "part_mem b pe + t = mem_index a (f + nth_owned b pe t)"
      using range_mem [OF assms(1,2) pe(1) t [unfolded b_def]] by (simp add: b_def part_mem_def f_def)
    have "nth_owned b pe t \<in> owned b pe" using nth_owned_in [OF okb pe(2) t] ..
    then show "nth_owned b pe t < n" "dist_owner a (f + nth_owned b pe t) = pe" by (simp_all add: owned_def b_def f_def)
  qed
  have inv_at: "\<exists>t<card (owned b pe). k = part_mem b pe + t \<and> nth_owned b pe t = g - f" if r: "f \<le> g" "g < f + n"
  proof -
    have "g - f \<in> owned b pe" using r by (auto simp: owned_def b_def pe_def f_def)
    note t = rank_less [OF this] owned_nth [OF okb pe(2) this]
    have "k = part_mem b pe + rank b pe (g - f)" using at(1) [OF t(1)] t(2) r by (simp add: k_def)
    then show ?thesis using t by auto
  qed
  show "part_mem b pe \<le> k \<and> k < part_mem b pe + card (owned b pe) \<longleftrightarrow> f \<le> g \<and> g < f + n"
  proof
    assume r: "part_mem b pe \<le> k \<and> k < part_mem b pe + card (owned b pe)"
    define t where "t = k - part_mem b pe"
    have t: "t < card (owned b pe)" "k = part_mem b pe + t" using r by (auto simp: t_def)
    note at_t = at [OF t(1)]
    have "f + nth_owned b pe t < S" using at_t(2) S by simp
    moreover have "dist_owner a g = dist_owner a (f + nth_owned b pe t)" using at_t(3) by (simp only: pe_def)
    moreover have "mem_index a g = mem_index a (f + nth_owned b pe t)" using at_t(1) t(2) by (simp only: k_def)
    ultimately have "g = f + nth_owned b pe t" by (rule mem_inj [OF assms(1,3)])
    then show "f \<le> g \<and> g < f + n" using at_t(2) by simp
  qed (use inv_at in auto)
  show "nth_owned b pe (k - part_mem b pe) = g - f" if "f \<le> g" "g < f + n" using inv_at [OF that] by auto
qed

text \<open>Writing every part of a buffer into the memory of its PE writes the buffer into the list.\<close>

lemma parts_put:
  assumes "array_mem_ok S a" "mem_ok W a M" "i + length buf \<le> ua_size a" "0 < length buf"
  defines "b \<equiv> sub_range a i (length buf)" and "f \<equiv> ua_offset a + i"
  assumes M': "\<And>pe. pe \<in> set (range_pes b) \<Longrightarrow> M' (W pe) = overwrite (M (W pe)) (part_mem b pe) (part_data b buf pe)"
    "\<And>w. w \<notin> W ` set (range_pes b) \<Longrightarrow> M' w = M w"
  shows "full_view W S a M' = overwrite (full_view W S a M) f buf"
proof (rule nth_equalityI)
  have ok: "array_ok S a" using assms(1) by (simp add: array_mem_ok_def)
  have S: "f + length buf \<le> S" using ok assms(3) by (simp add: array_ok_def f_def)
  then show "length (full_view W S a M') = length (overwrite (full_view W S a M) f buf)" by simp
  fix g assume "g < length (full_view W S a M')"
  then have g: "g < S" by simp
  define pe k where "pe = dist_owner a g" and "k = mem_index a g"
  note place = part_place [OF ok assms(3) g, folded b_def f_def pe_def k_def]
  have pe: "pe < ad_num_pes (ua_data a)" using owner_less [OF ok g] by (simp add: pe_def)
  have k: "k < length (M (W pe))" using mem_index_less [OF assms(1) g] mem_length [OF assms(1,2) pe] by (simp add: k_def)
  note set = range_pes_set(1) [OF assms(1,3,4), folded b_def]
  have "M' (W pe) ! k = (if f \<le> g \<and> g < f + length buf then buf ! (g - f) else M (W pe) ! k)"
  proof (cases "owned b pe = {}")
    case True
    have "W pe \<notin> W ` set (range_pes b)" using True set pe assms(2) by (auto simp: mem_ok_def inj_on_def)
    moreover have "\<not> (f \<le> g \<and> g < f + length buf)" using place(1) True by auto
    ultimately show ?thesis using M'(2) [of "W pe"] by (simp only: if_False not_False_eq_True)
  next
    case False
    have fit: "part_mem b pe + length (part_data b buf pe) \<le> length (M (W pe))"
      using part_fits [OF assms(1,3) pe] False mem_length [OF assms(1,2) pe] by (simp add: b_def)
    have "M' (W pe) ! k = (if f \<le> g \<and> g < f + length buf then part_data b buf pe ! (k - part_mem b pe) else M (W pe) ! k)"
      using M'(1) [of pe] False set pe nth_overwrite [OF fit k] place(1) by simp
    moreover have "part_data b buf pe ! (k - part_mem b pe) = buf ! (g - f)" if "f \<le> g \<and> g < f + length buf"
    proof -
      have "k - part_mem b pe < card (owned b pe)" using place(1) that by auto
      then show ?thesis using place(2) that by (simp add: part_data_def)
    qed
    ultimately show ?thesis by (cases "f \<le> g \<and> g < f + length buf") (simp_all only: if_True if_False)
  qed
  then show "full_view W S a M' ! g = overwrite (full_view W S a M) f buf ! g"
    using g S by (simp add: full_view_def nth_overwrite pe_def k_def)
qed

end
