(* ===== verification/Array_Transfer.thy ===== *)
theory Array_Transfer
  imports Array_Rdma "HOL-Library.Multiset"
begin

text \<open>
  Bulk transfers refine operations on one list.  A put overwrites a section of the list and
  nothing else, a get returns a section, whatever the distribution, the sub-array and the order in which
  the active messages of the transfer run.
\<close>

section \<open>Iterations over PEs\<close>

lemma efold_map [simp]: "efold f (map g xs) s = efold (\<lambda>x. f (g x)) xs s"
  by (induction xs arbitrary: s) (auto simp: ebind_def split: exec.split)

lemma efold_cong: "(\<And>x s. x \<in> set xs \<Longrightarrow> f x s = g x s) \<Longrightarrow> efold f xs s = efold g xs s"
proof (induction xs arbitrary: s)
  case (Cons x xs)
  then show ?case by (cases "g x s") simp_all
qed simp

lemma emap_eq: "(\<And>x. x \<in> set xs \<Longrightarrow> f x = Ret (h x)) \<Longrightarrow> emap f xs = Ret (map h xs)"
  by (induction xs) simp_all

lemma emap_map [simp]: "emap f (map g xs) = emap (\<lambda>x. f (g x)) xs"
  by (induction xs) simp_all

text \<open>Operations on the memories of different PEs do not interfere.\<close>

lemma efold_updates:
  assumes "\<And>pe M. pe \<in> set pes \<Longrightarrow> F pe M = Ret (M(W pe := h pe (M (W pe))))"
    and "inj_on W (set pes)" "distinct pes"
  shows "\<exists>M'. efold F pes M = Ret M' \<and> (\<forall>pe\<in>set pes. M' (W pe) = h pe (M (W pe)))
    \<and> (\<forall>w. w \<notin> W ` set pes \<longrightarrow> M' w = M w)"
  using assms
proof (induction pes arbitrary: M)
  case (Cons pe pes)
  let ?M = "M(W pe := h pe (M (W pe)))"
  have "\<exists>M'. efold F pes ?M = Ret M' \<and> (\<forall>q\<in>set pes. M' (W q) = h q (?M (W q)))
      \<and> (\<forall>w. w \<notin> W ` set pes \<longrightarrow> M' w = ?M w)"
    by (rule Cons.IH) (use Cons.prems in auto)
  then obtain M' where M': "efold F pes ?M = Ret M'" "\<forall>q\<in>set pes. M' (W q) = h q (?M (W q))"
    "\<forall>w. w \<notin> W ` set pes \<longrightarrow> M' w = ?M w" by blast
  have new: "W pe \<notin> W ` set pes" using Cons.prems(2,3) by (auto simp: inj_on_def)
  have "W q \<noteq> W pe" if "q \<in> set pes" for q using new that by (metis imageI)
  moreover have "F pe M = Ret ?M" by (rule Cons.prems(1)) simp
  ultimately show ?case using M' new by (intro exI [of _ M']) auto
qed simp

text \<open>A buffer that every PE fills where it is responsible.\<close>

lemma efold_fill:
  assumes "\<And>pe buf. pe \<in> set pes \<Longrightarrow> length buf = n \<Longrightarrow>
      \<exists>buf'. F pe buf = Ret buf' \<and> length buf' = n \<and> (\<forall>j<n. buf' ! j = (if own j = pe then new ! j else buf ! j))"
    and "\<And>j. j < n \<Longrightarrow> own j \<in> set pes \<or> buf ! j = new ! j" "length buf = n" "length new = n"
  shows "efold F pes buf = Ret new"
  using assms
proof (induction pes arbitrary: buf)
  case Nil
  then show ?case by (auto intro: nth_equalityI)
next
  case (Cons pe pes)
  obtain b where b: "F pe buf = Ret b" "length b = n" "\<forall>j<n. b ! j = (if own j = pe then new ! j else buf ! j)"
    using Cons.prems(1) [of pe buf] Cons.prems(3) by auto
  have "efold F pes b = Ret new"
    using Cons.prems b(2,3) by (intro Cons.IH) auto
  then show ?case using b(1) by simp
qed

lemma overwrite_one: "j < length xs \<Longrightarrow> overwrite xs j [x] = xs[j := x]"
  by (simp add: overwrite_def upd_conv_take_nth_drop)

lemma efold_store:
  assumes "\<And>k. k < length js \<Longrightarrow> temp ! (m + k) = new ! (js ! k)" "m + length js \<le> length temp"
    and "\<And>j. j \<in> set js \<Longrightarrow> j < length buf"
    and "\<And>k j buf. k < length temp \<Longrightarrow> j < length buf \<Longrightarrow> F (k, j) buf = Ret (buf[j := temp ! k])"
  shows "\<exists>buf'. efold F (enumerate m js) buf = Ret buf' \<and> length buf' = length buf
    \<and> (\<forall>j<length buf. buf' ! j = (if j \<in> set js then new ! j else buf ! j))"
  using assms(1-3)
proof (induction js arbitrary: m buf)
  case (Cons j js)
  have "temp ! (Suc m + k) = new ! (js ! k)" if "k < length js" for k using Cons.prems(1) [of "Suc k"] that by simp
  moreover have "F (m, j) buf = Ret (buf[j := new ! j])" using assms(4) [of m j buf] Cons.prems by force
  ultimately show ?case using Cons.IH [of "Suc m" "buf[j := new ! j]"] Cons.prems by (auto simp: nth_list_update)
qed simp

section \<open>One-sided transfers\<close>

lemma put_fits:
  assumes "array_mem_ok S a" "i + length buf \<le> ua_size a" "pe < ad_num_pes (ua_data a)"
    "owned (sub_range a i (length buf)) pe \<noteq> {}"
  shows "(part_mem (sub_range a i (length buf)) pe + card (owned (sub_range a i (length buf)) pe)) * ua_elem_size a \<le> ad_mem_bytes (ua_data a)"
  using mult_le_mono1 [OF part_fits [OF assms], of "ua_elem_size a"] assms(1) by (simp add: array_mem_ok_def)

lemma put_unchecked_parts:
  assumes "array_mem_ok S a" "i + length buf \<le> ua_size a" "0 < length buf"
  defines "b \<equiv> sub_range a i (length buf)"
  shows "put_unchecked a M i buf = efold (\<lambda>pe M. Ret (M(pe := overwrite (M pe) (part_mem b pe) (part_data b buf pe)))) (range_pes b) M"
proof -
  have okb: "array_mem_ok S b" using sub_range_ok(2) [OF assms(1,2)] by (simp add: b_def)
  have mem: "pe < ad_num_pes (ua_data b)" "owned b pe \<noteq> {}" if "pe \<in> set (range_pes b)" for pe
    using that range_pes_set(1) [OF assms(1-3)] by (auto simp: b_def)
  have put: "mr_blocking_put a M pe (part_mem b pe) (part_data b buf pe)
      = Ret (M(pe := overwrite (M pe) (part_mem b pe) (part_data b buf pe)))" if "pe \<in> set (range_pes b)" for pe and M :: "'a pe_mem"
    using put_fits [OF assms(1,2)] mem [OF that] by (simp add: mr_blocking_put_def b_def)
  show ?thesis
  proof (cases "ua_distribution a")
    case Block
    then have "sub_region buf (nth_owned b pe 0) (nth_owned b pe 0 + card (owned b pe)) = Ret (part_data b buf pe)"
      if "pe \<in> set (range_pes b)" for pe
      using sub_region_part(1) [OF okb _ mem [OF that], of buf] by (simp add: b_def)
    then show ?thesis
      using Block put block_op_eq [OF assms(1) Block assms(2,3), folded b_def]
      by (auto simp: put_unchecked_def intro!: efold_cong)
  next
    case Cyclic
    then have "gather (ad_num_pes (ua_data a)) buf (nth_owned b pe 0) = Ret (part_data b buf pe)" if "pe \<in> set (range_pes b)" for pe
      using gather_part [OF okb _ mem [OF that], of buf] by (simp add: b_def)
    then show ?thesis
      using Cyclic put cyclic_op_eq [OF assms(1) Cyclic assms(2,3), folded b_def]
      by (auto simp: put_unchecked_def intro!: efold_cong)
  qed
qed

text \<open>The parts of a put, written in any order.\<close>

lemma parts_run:
  assumes "array_mem_ok S a" "mem_ok W a M" "i + length buf \<le> ua_size a" "0 < length buf"
  defines "b \<equiv> sub_range a i (length buf)"
  assumes pes: "mset pes = mset (range_pes b)"
    and F: "\<And>pe M. pe \<in> set pes \<Longrightarrow> F pe M = Ret (M(W pe := overwrite (M (W pe)) (part_mem b pe) (part_data b buf pe)))"
  shows "\<exists>M'. efold F pes M = Ret M' \<and> full_view W S a M' = overwrite (full_view W S a M) (ua_offset a + i) buf
    \<and> mem_ok W a M' \<and> (\<forall>w. w \<notin> W ` {..<ad_num_pes (ua_data a)} \<longrightarrow> M' w = M w)"
proof -
  note range = range_pes_set [OF assms(1,3,4), folded b_def]
  have set: "set pes = set (range_pes b)" "distinct pes"
    using pes range(2) mset_eq_setD mset_eq_imp_distinct_iff by blast+
  have inj: "inj_on W (set pes)"
    by (rule inj_on_subset [of _ "{..<ad_num_pes (ua_data a)}"]) (use assms(2) range(1) set(1) in \<open>auto simp: mem_ok_def\<close>)
  obtain M' where M': "efold F pes M = Ret M'"
    "\<And>pe. pe \<in> set pes \<Longrightarrow> M' (W pe) = overwrite (M (W pe)) (part_mem b pe) (part_data b buf pe)"
    "\<And>w. w \<notin> W ` set pes \<Longrightarrow> M' w = M w"
    using efold_updates [of pes F W "\<lambda>pe xs. overwrite xs (part_mem b pe) (part_data b buf pe)", OF F inj set(2)] by blast
  have view: "full_view W S a M' = overwrite (full_view W S a M) (ua_offset a + i) buf"
    by (rule parts_put [OF assms(1-4)]) (use M'(2,3) set(1) in \<open>simp_all add: b_def\<close>)
  have len: "length (M' (W pe)) = length (M (W pe))" if pe: "pe < ad_num_pes (ua_data a)" for pe
  proof (cases "pe \<in> set pes")
    case True
    then show ?thesis
      using M'(2) part_fits [OF assms(1,3) pe] mem_length [OF assms(1,2) pe] range(1) set(1) by (simp add: b_def)
  next
    case False
    then have "W pe \<notin> W ` set pes"
      using inj_on_image_mem_iff [of W "{..<ad_num_pes (ua_data a)}" pe "set pes"] assms(2) pe range(1) set(1)
      by (auto simp: mem_ok_def)
    then show ?thesis using M'(3) by simp
  qed
  have "M' w = M w" if "w \<notin> W ` {..<ad_num_pes (ua_data a)}" for w
    using M'(3) that range(1) set(1) by auto
  then show ?thesis using M'(1) view len assms(2) by (auto simp: mem_ok_def)
qed

lemma put_unchecked_view:
  assumes "array_mem_ok S a" "mem_ok (\<lambda>pe. pe) a M" "i + length buf \<le> ua_size a" "0 < length buf"
  shows "\<exists>M'. put_unchecked a M i buf = Ret M'
    \<and> full_view (\<lambda>pe. pe) S a M' = overwrite (full_view (\<lambda>pe. pe) S a M) (ua_offset a + i) buf
    \<and> mem_ok (\<lambda>pe. pe) a M' \<and> (\<forall>w\<ge>ad_num_pes (ua_data a). M' w = M w)"
  using parts_run [OF assms refl, of "\<lambda>pe M. Ret (M(pe := overwrite (M pe) (part_mem (sub_range a i (length buf)) pe)
    (part_data (sub_range a i (length buf)) buf pe)))"]
  unfolding put_unchecked_parts [OF assms(1,3,4)] by auto

section \<open>Puts by active messages\<close>

definition world_of :: "lamellar_arch_rt \<Rightarrow> nat \<Rightarrow> nat" where
  "world_of arch pe = (case world_pe arch pe of Inr w \<Rightarrow> w | Inl _ \<Rightarrow> 0)"

lemma am_dst_eq: "rt_wf arch \<Longrightarrow> pe < rt_num_pes arch \<Longrightarrow> am_dst arch pe = Ret (world_of arch pe)"
  using rt_ids.outer_total by (fastforce simp: am_dst_def world_of_def)

lemma world_of_inj: "rt_wf arch \<Longrightarrow> inj_on (world_of arch) {..<rt_num_pes arch}"
proof (rule inj_onI)
  fix p q assume wf: "rt_wf arch" and pq: "p \<in> {..<rt_num_pes arch}" "q \<in> {..<rt_num_pes arch}" "world_of arch p = world_of arch q"
  obtain w v where w: "world_pe arch p = Inr w" "world_pe arch q = Inr v" using rt_ids.outer_total [OF wf] pq(1,2) by blast
  then have "team_pe arch w = Ret (Inr p)" "team_pe arch v = Ret (Inr q)" using rt_ids.inner_outer [OF wf] by blast+
  then show "p = q" using pq(3) w by (simp add: world_of_def)
qed

definition put_am_of :: "unsafe_array_inner \<Rightarrow> 'a list \<Rightarrow> 'a list \<Rightarrow> 'a put_am" where
  "put_am_of a buf data = (if length buf * ua_elem_size a > batch_am_size
     then UnsafePutAm (ad_my_pe (ua_data a)) data else UnsafeSmallPutAm data)"

lemma internal_put_eq:
  assumes "array_mem_ok S a" "i + length buf \<le> ua_size a" "0 < length buf"
  defines "b \<equiv> sub_range a i (length buf)"
  shows "internal_put a i buf = Ret (map (\<lambda>pe. (pe, put_am_of a buf (part_data b buf pe))) (range_pes b))"
proof -
  have okb: "array_mem_ok S b" using sub_range_ok(2) [OF assms(1,2)] by (simp add: b_def)
  have mem: "pe < ad_num_pes (ua_data b)" "owned b pe \<noteq> {}" if "pe \<in> set (range_pes b)" for pe
    using that range_pes_set(1) [OF assms(1-3)] by (auto simp: b_def)
  show ?thesis
  proof (cases "ua_distribution a")
    case Block
    then have "sub_region buf (nth_owned b pe 0) (nth_owned b pe 0 + card (owned b pe)) = Ret (part_data b buf pe)"
      if "pe \<in> set (range_pes b)" for pe
      using sub_region_part(1) [OF okb _ mem [OF that], of buf] by (simp add: b_def)
    then show ?thesis
      using Block block_op_eq [OF assms(1) Block assms(2,3), folded b_def]
      by (simp add: internal_put_def Let_def put_am_of_def [symmetric] emap_eq [where h = "\<lambda>pe. (pe, put_am_of a buf (part_data b buf pe))"])
  next
    case Cyclic
    then have "gather (ad_num_pes (ua_data a)) buf (nth_owned b pe 0) = Ret (part_data b buf pe)" if "pe \<in> set (range_pes b)" for pe
      using gather_part [OF okb _ mem [OF that], of buf] by (simp add: b_def)
    then show ?thesis
      using Cyclic cyclic_op_eq [OF assms(1) Cyclic assms(2,3), folded b_def]
      by (simp add: internal_put_def Let_def put_am_of_def [symmetric] emap_eq [where h = "\<lambda>pe. (pe, put_am_of a buf (part_data b buf pe))"])
  qed
qed

lemma exec_put_am_part:
  assumes "array_mem_ok S a" "0 < ua_elem_size a" "i + length buf \<le> ua_size a" "0 < length buf"
  defines "b \<equiv> sub_range a i (length buf)"
  assumes "pe \<in> set (range_pes b)" "length buf * ua_elem_size a \<le> batch_am_size \<or> buf_pe = ad_my_pe (ua_data a)"
  shows "exec_put_am a buf_pe i (length buf) pe w (put_am_of a buf (part_data b buf pe)) M
    = Ret (M(w := overwrite (M w) (part_mem b pe) (part_data b buf pe)))"
proof -
  have mem: "pe < ad_num_pes (ua_data a)" "owned b pe \<noteq> {}"
    using assms(6) range_pes_set(1) [OF assms(1,3,4)] by (auto simp: b_def)
  define lo c where "lo = part_mem b pe" and "c = card (owned b pe)"
  have bytes: "(lo + c) * ua_elem_size a - lo * ua_elem_size a = c * ua_elem_size a" by (simp add: distrib_right)
  have elems: "lo * ua_elem_size a div ua_elem_size a = lo" "c * ua_elem_size a div ua_elem_size a = c"
    using assms(2) by simp_all
  have "local_elements_for_range (at_pe a pe) i (length buf)
      = Ret (Some ((lo * ua_elem_size a, (lo + c) * ua_elem_size a), rank a pe (i + nth_owned b pe 0), rank a pe (i + nth_owned b pe 0) + c))"
    using local_range [OF assms(1,3,4) mem(1)] mem(2) by (simp add: b_def lo_def c_def part_mem_def)
  then show ?thesis
    using assms(7) unfolding exec_put_am_def put_am_of_def by (auto simp: bytes elems Let_def) (auto simp: lo_def c_def)
qed

lemma exec_put_ams_view:
  assumes "array_mem_ok S a" "mem_ok (world_of arch) a M" "i + length buf \<le> ua_size a" "0 < length buf"
    and arch: "rt_wf arch" "rt_num_pes arch = ad_num_pes (ua_data a)"
    and small: "length buf * ua_elem_size a \<le> batch_am_size \<or> buf_pe = ad_my_pe (ua_data a)"
    and reqs: "internal_put a i buf = Ret reqs" "mset sched = mset reqs"
  shows "\<exists>M'. exec_put_ams arch a buf_pe i (length buf) sched M = Ret M'
    \<and> full_view (world_of arch) S a M' = overwrite (full_view (world_of arch) S a M) (ua_offset a + i) buf
    \<and> mem_ok (world_of arch) a M' \<and> (\<forall>w. w \<notin> world_of arch ` {..<ad_num_pes (ua_data a)} \<longrightarrow> M' w = M w)"
proof -
  let ?b = "sub_range a i (length buf)"
  let ?req = "\<lambda>pe. (pe, put_am_of a buf (part_data ?b buf pe))"
  have r: "reqs = map ?req (range_pes ?b)" using internal_put_eq [OF assms(1,3,4)] reqs(1) by simp
  define pes where "pes = map fst sched"
  have sched: "sched = map ?req pes"
  proof -
    have "set sched = set reqs" using reqs(2) mset_eq_setD by blast
    then have "x = ?req (fst x)" if "x \<in> set sched" for x using that r by auto
    then show ?thesis unfolding pes_def map_map by (simp add: map_idI)
  qed
  have pes: "mset pes = mset (range_pes ?b)"
  proof -
    have "mset pes = image_mset fst (mset reqs)" unfolding pes_def by (simp add: reqs(2))
    then show ?thesis unfolding r by (simp add: multiset.map_comp o_def)
  qed
  have mem: "pe \<in> set (range_pes ?b)" "pe < rt_num_pes arch" if "pe \<in> set pes" for pe
  proof -
    show m: "pe \<in> set (range_pes ?b)" using that mset_eq_setD [OF pes] by simp
    show "pe < rt_num_pes arch" using m range_pes_set(1) [OF assms(1,3,4)] arch(2) by simp
  qed
  have es: "0 < ua_elem_size a" using assms(2) by (simp add: mem_ok_def)
  have run: "exec_put_ams arch a buf_pe i (length buf) sched M = efold (\<lambda>pe M. ebind (am_dst arch pe)
      (\<lambda>w. exec_put_am a buf_pe i (length buf) pe w (put_am_of a buf (part_data ?b buf pe)) M)) pes M"
    by (simp add: exec_put_ams_def sched)
  show ?thesis
    unfolding run by (rule parts_run [OF assms(1-4) pes])
      (simp add: am_dst_eq [OF arch(1) mem(2)] exec_put_am_part [OF assms(1) es assms(3,4) mem(1) small])
qed

section \<open>Gets\<close>

text \<open>The section of the list that a get returns.\<close>

definition section_of :: "(nat \<Rightarrow> nat) \<Rightarrow> nat \<Rightarrow> unsafe_array_inner \<Rightarrow> 'a pe_mem \<Rightarrow> nat \<Rightarrow> nat \<Rightarrow> 'a list" where
  "section_of W S a M i n = take n (drop (ua_offset a + i) (full_view W S a M))"

lemma section_length: "array_mem_ok S a \<Longrightarrow> i + n \<le> ua_size a \<Longrightarrow> length (section_of W S a M i n) = n"
  by (auto simp: section_of_def array_mem_ok_def array_ok_def)

lemma section_nth:
  "array_mem_ok S a \<Longrightarrow> i + n \<le> ua_size a \<Longrightarrow> j < n \<Longrightarrow>
     section_of W S a M i n ! j = M (W (dist_owner a (ua_offset a + i + j))) ! mem_index a (ua_offset a + i + j)"
  by (simp add: section_of_def array_mem_ok_def array_ok_def full_view_def)

lemma range_owner:
  assumes "array_mem_ok S a" "i + n \<le> ua_size a" "pe < ad_num_pes (ua_data a)" "j < n"
  defines "b \<equiv> sub_range a i n"
  shows "dist_owner a (ua_offset a + i + j) = pe \<longleftrightarrow> j \<in> set (map (nth_owned b pe) [0..<card (owned b pe)])"
proof -
  have ok: "array_ok S b" using sub_range_ok(1) assms(1,2) by (simp add: b_def array_mem_ok_def)
  have pe: "pe < ad_num_pes (ua_data b)" using assms(3) by (simp add: b_def)
  have "dist_owner a (ua_offset a + i + j) = pe \<longleftrightarrow> j \<in> owned b pe" using assms(4) by (simp add: owned_def b_def)
  also have "\<dots> \<longleftrightarrow> j \<in> set (map (nth_owned b pe) [0..<card (owned b pe)])"
    using nth_owned_in [OF ok pe] owned_nth [OF ok pe] rank_less by fastforce
  finally show ?thesis .
qed

text \<open>What a PE returns for its part.\<close>

lemma get_part:
  assumes "array_mem_ok S a" "mem_ok W a M" "i + n \<le> ua_size a" "pe < ad_num_pes (ua_data a)"
  defines "b \<equiv> sub_range a i n"
  assumes "owned b pe \<noteq> {}"
  shows "take (card (owned b pe)) (drop (part_mem b pe) (M (W pe))) = part_data b (section_of W S a M i n) pe"
proof (rule nth_equalityI)
  have ok: "array_ok S a" using assms(1) by (simp add: array_mem_ok_def)
  have fit: "part_mem b pe + card (owned b pe) \<le> length (M (W pe))"
    using part_fits [OF assms(1,3,4)] assms(6) mem_length [OF assms(1,2,4)] by (simp add: b_def)
  then show "length (take (card (owned b pe)) (drop (part_mem b pe) (M (W pe)))) = length (part_data b (section_of W S a M i n) pe)"
    by simp
  fix t assume "t < length (take (card (owned b pe)) (drop (part_mem b pe) (M (W pe))))"
  then have t: "t < card (owned b pe)" by simp
  have "nth_owned b pe t \<in> owned b pe"
    using nth_owned_in [OF sub_range_ok(1) [OF ok assms(3)] _ t [unfolded b_def]] assms(4) by (simp add: b_def)
  then have o: "nth_owned b pe t < n" "dist_owner a (ua_offset a + i + nth_owned b pe t) = pe" by (simp_all add: owned_def b_def)
  have "mem_index a (ua_offset a + i + nth_owned b pe t) = part_mem b pe + t"
    using range_mem [OF ok assms(3,4) t [unfolded b_def]] by (simp add: b_def part_mem_def)
  then show "take (card (owned b pe)) (drop (part_mem b pe) (M (W pe))) ! t = part_data b (section_of W S a M i n) pe ! t"
    using section_nth [OF assms(1,3) o(1), of W M] o(2) t fit by (simp add: part_data_def)
qed

lemma mr_get_part:
  assumes "array_mem_ok S a" "mem_ok W a M" "i + n \<le> ua_size a" "pe < ad_num_pes (ua_data a)" "W pe = pe"
  defines "b \<equiv> sub_range a i n"
  assumes "owned b pe \<noteq> {}"
  shows "mr_blocking_get a M pe (part_mem b pe) (card (owned b pe)) = Ret (part_data b (section_of W S a M i n) pe)"
proof -
  have "(part_mem b pe + card (owned b pe)) * ua_elem_size a \<le> ad_mem_bytes (ua_data a)"
    using mult_le_mono1 [OF part_fits [OF assms(1,3,4)], of "ua_elem_size a"] assms(1,7) by (simp add: array_mem_ok_def b_def)
  then show ?thesis
    using get_part [OF assms(1-4)] assms(5,7) by (simp add: mr_blocking_get_def b_def)
qed

lemma block_fill:
  assumes "array_mem_ok S a" "ua_distribution a = Block" "i + n \<le> ua_size a" "pe < ad_num_pes (ua_data a)"
  defines "b \<equiv> sub_range a i n"
  assumes "owned b pe \<noteq> {}" "length buf = n" "length new = n"
  shows "length (overwrite buf (nth_owned b pe 0) (part_data b new pe)) = n"
    "j < n \<Longrightarrow> overwrite buf (nth_owned b pe 0) (part_data b new pe) ! j
      = (if dist_owner a (ua_offset a + i + j) = pe then new ! j else buf ! j)"
proof -
  have okb: "array_mem_ok S b" using sub_range_ok(2) [OF assms(1,3)] by (simp add: b_def)
  have pe: "pe < ad_num_pes (ua_data b)" and Block: "ua_distribution b = Block" using assms(2,4) by (simp_all add: b_def)
  define lo c where "lo = nth_owned b pe 0" and "c = card (owned b pe)"
  have nth: "nth_owned b pe t = lo + t" for t using Block by (simp add: nth_owned_def lo_def)
  have fit: "lo + length (part_data b new pe) \<le> length buf"
    using sub_region_part(2) [OF okb Block pe assms(6), of buf] assms(7) by (simp add: b_def lo_def)
  then show "length (overwrite buf (nth_owned b pe 0) (part_data b new pe)) = n" using assms(7) by (simp add: lo_def)
  assume j: "j < n"
  have "dist_owner a (ua_offset a + i + j) = pe \<longleftrightarrow> lo \<le> j \<and> j < lo + c"
    unfolding range_owner [OF assms(1,3,4) j, folded b_def] by (auto simp: nth c_def)
  then show "overwrite buf (nth_owned b pe 0) (part_data b new pe) ! j
      = (if dist_owner a (ua_offset a + i + j) = pe then new ! j else buf ! j)"
    unfolding lo_def [symmetric]
    using nth_overwrite [OF fit, of j] j assms(7) by (auto simp: part_data_def nth c_def)
qed

lemma cyclic_fill:
  assumes "array_mem_ok S a" "ua_distribution a = Cyclic" "i + n \<le> ua_size a" "pe < ad_num_pes (ua_data a)"
  defines "b \<equiv> sub_range a i n"
  assumes "owned b pe \<noteq> {}" "length buf = n" "length new = n"
    and F: "\<And>k j buf. k < card (owned b pe) \<Longrightarrow> j < length buf \<Longrightarrow> F (k, j) buf = Ret (buf[j := part_data b new pe ! k])"
  shows "\<exists>buf'. efold F (enumerate 0 (map (nth_owned b pe) [0..<card (owned b pe)])) buf = Ret buf' \<and> length buf' = n
    \<and> (\<forall>j<n. buf' ! j = (if dist_owner a (ua_offset a + i + j) = pe then new ! j else buf ! j))"
proof -
  let ?js = "map (nth_owned b pe) [0..<card (owned b pe)]"
  have ok: "array_ok S b" using sub_range_ok(1) assms(1,3) by (simp add: b_def array_mem_ok_def)
  have less: "j < length buf" if "j \<in> set ?js" for j
    using that nth_owned_in [OF ok, of pe] assms(4,7) by (auto simp: b_def owned_def)
  have "\<exists>buf'. efold F (enumerate 0 ?js) buf = Ret buf' \<and> length buf' = length buf
    \<and> (\<forall>j<length buf. buf' ! j = (if j \<in> set ?js then new ! j else buf ! j))"
    by (rule efold_store [where temp = "part_data b new pe"]) (use F less in \<open>simp_all add: part_data_def\<close>)
  then show ?thesis using range_owner [OF assms(1,3,4), folded b_def] assms(7) by simp
qed

text \<open>Every element of the range is in the part of one of its PEs.\<close>

lemma range_covered:
  assumes "array_mem_ok S a" "i + n \<le> ua_size a" "0 < n" "j < n"
  shows "dist_owner a (ua_offset a + i + j) \<in> set (range_pes (sub_range a i n))"
proof -
  have "dist_owner a (ua_offset a + i + j) < ad_num_pes (ua_data a)"
    by (rule owner_less [of S]) (use assms in \<open>auto simp: array_mem_ok_def array_ok_def\<close>)
  moreover have "j \<in> owned (sub_range a i n) (dist_owner a (ua_offset a + i + j))" using assms(4) by (simp add: owned_def)
  ultimately show ?thesis using range_pes_set(1) [OF assms(1-3)] by blast
qed

lemma blocking_get_block:
  assumes "array_mem_ok S a" "ua_distribution a = Block" "mem_ok W a M" "i + length buf \<le> ua_size a" "0 < length buf"
    and W: "\<And>pe. pe < ad_num_pes (ua_data a) \<Longrightarrow> W pe = pe"
  shows "blocking_get a M buf_pe i buf = Ret (section_of W S a M i (length buf))"
proof -
  let ?n = "length buf" and ?new = "section_of W S a M i (length buf)"
  define b where "b = sub_range a i ?n"
  have okb: "array_mem_ok S b" using sub_range_ok(2) [OF assms(1,4)] by (simp add: b_def)
  note set = range_pes_set(1) [OF assms(1,4,5), folded b_def] and len = section_length [OF assms(1,4)]
  have get: "mr_blocking_get a M pe (part_mem b pe) (card (owned b pe)) = Ret (part_data b ?new pe)" if "pe \<in> set (range_pes b)" for pe
    using mr_get_part [OF assms(1,3,4) _ W] that set by (simp add: b_def)
  have "efold (\<lambda>pe buf. ebind (sub_region buf (nth_owned b pe 0) (nth_owned b pe 0 + card (owned b pe))) (\<lambda>_.
      ebind (mr_blocking_get a M pe (part_mem b pe) (card (owned b pe))) (\<lambda>data. Ret (overwrite buf (nth_owned b pe 0) data))))
      (range_pes b) buf = Ret ?new"
  proof (rule efold_fill [where own = "\<lambda>j. dist_owner a (ua_offset a + i + j)"])
    fix pe and buf' :: "'a list" assume pe: "pe \<in> set (range_pes b)" and l: "length buf' = ?n"
    have mem: "pe < ad_num_pes (ua_data a)" "owned b pe \<noteq> {}" using pe set by auto
    have "sub_region buf' (nth_owned b pe 0) (nth_owned b pe 0 + card (owned b pe)) = Ret (part_data b buf' pe)"
      by (rule sub_region_part(1) [OF okb]) (use assms(2) mem l in \<open>simp_all add: b_def\<close>)
    then show "\<exists>buf''. ebind (sub_region buf' (nth_owned b pe 0) (nth_owned b pe 0 + card (owned b pe))) (\<lambda>_.
        ebind (mr_blocking_get a M pe (part_mem b pe) (card (owned b pe))) (\<lambda>data. Ret (overwrite buf' (nth_owned b pe 0) data))) = Ret buf''
      \<and> length buf'' = ?n \<and> (\<forall>j<?n. buf'' ! j = (if dist_owner a (ua_offset a + i + j) = pe then ?new ! j else buf' ! j))"
      using get [OF pe] block_fill [OF assms(1,2,4) mem(1) _ l len] mem(2) by (simp add: b_def)
  qed (use range_covered [OF assms(1,4,5)] len in \<open>auto simp: b_def\<close>)
  then show ?thesis
    using block_op_eq [OF assms(1,2,4,5), folded b_def] assms(2) by (simp add: blocking_get_def)
qed

lemma scatter_fill:
  assumes "array_mem_ok S a" "ua_distribution a = Cyclic" "i + n \<le> ua_size a" "pe < ad_num_pes (ua_data a)"
  defines "b \<equiv> sub_range a i n"
  assumes "owned b pe \<noteq> {}" "length buf = n" "length new = n"
  shows "\<exists>buf'. scatter (ad_num_pes (ua_data a)) (part_data b new pe) (nth_owned b pe 0) buf = Ret buf' \<and> length buf' = n
    \<and> (\<forall>j<n. buf' ! j = (if dist_owner a (ua_offset a + i + j) = pe then new ! j else buf ! j))"
proof -
  have "step_range (nth_owned b pe 0) (length buf) (ad_num_pes (ua_data a)) = map (nth_owned b pe) [0..<card (owned b pe)]"
    using cyclic_part(3) [of S b pe] sub_range_ok(2) [OF assms(1,3)] assms(2,4,6,7) by (simp add: b_def)
  then show ?thesis
    unfolding scatter_def unfolding b_def
    by (simp only:) (rule cyclic_fill [OF assms(1-4) _ assms(7,8)],
      use assms(6) in \<open>simp_all add: b_def sub_region_def take_Suc_conv_app_nth overwrite_one take_drop\<close>)
qed

lemma blocking_get_cyclic:
  assumes "array_mem_ok S a" "ua_distribution a = Cyclic" "mem_ok W a M" "i + length buf \<le> ua_size a" "0 < length buf"
    and W: "\<And>pe. pe < ad_num_pes (ua_data a) \<Longrightarrow> W pe = pe" and my: "buf_pe = ad_my_pe (ua_data a)"
  shows "blocking_get a M buf_pe i buf = Ret (section_of W S a M i (length buf))"
proof -
  let ?n = "length buf" and ?new = "section_of W S a M i (length buf)" and ?P = "ad_num_pes (ua_data a)"
  define b where "b = sub_range a i ?n"
  have okb: "array_mem_ok S b" using sub_range_ok(2) [OF assms(1,4)] by (simp add: b_def)
  note set = range_pes_set(1) [OF assms(1,4,5), folded b_def] and len = section_length [OF assms(1,4)]
  have P: "0 < ?P" using assms(1) by (auto simp: array_mem_ok_def array_ok_def)
  have "efold (\<lambda>pe buf. ebind (umod (length buf) ?P) (\<lambda>rm.
      let num_elems = length buf div ?P + (if nth_owned b pe 0 < rm then 1 else 0) in
      ebind (mr_blocking_get a M pe (part_mem b pe) num_elems) (\<lambda>temp.
      if buf_pe = ad_my_pe (ua_data a) then scatter ?P temp (nth_owned b pe 0) buf else Panic ExplicitPanic))) (range_pes b) buf = Ret ?new"
  proof (rule efold_fill [where own = "\<lambda>j. dist_owner a (ua_offset a + i + j)"])
    fix pe and buf' :: "'a list" assume pe: "pe \<in> set (range_pes b)" and l: "length buf' = ?n"
    have mem: "pe < ad_num_pes (ua_data b)" "owned b pe \<noteq> {}" using pe set by (auto simp: b_def)
    have count: "length buf' div ?P + (if nth_owned b pe 0 < length buf' mod ?P then 1 else 0) = card (owned b pe)"
      using cyclic_part(4) [OF okb _ mem] assms(2) l by (simp add: b_def)
    have get: "mr_blocking_get a M pe (part_mem b pe) (card (owned b pe)) = Ret (part_data b ?new pe)"
      using mr_get_part [OF assms(1,3,4) _ W] pe set by (simp add: b_def)
    show "\<exists>buf''. ebind (umod (length buf') ?P) (\<lambda>rm.
        let num_elems = length buf' div ?P + (if nth_owned b pe 0 < rm then 1 else 0) in
        ebind (mr_blocking_get a M pe (part_mem b pe) num_elems) (\<lambda>temp.
        if buf_pe = ad_my_pe (ua_data a) then scatter ?P temp (nth_owned b pe 0) buf' else Panic ExplicitPanic)) = Ret buf''
      \<and> length buf'' = ?n \<and> (\<forall>j<?n. buf'' ! j = (if dist_owner a (ua_offset a + i + j) = pe then ?new ! j else buf' ! j))"
      unfolding umod_ok [OF P] ebind_simps Let_def count get
      using my scatter_fill [OF assms(1,2,4) _ _ l len] mem by (simp add: b_def)
  qed (use range_covered [OF assms(1,4,5)] len in \<open>auto simp: b_def\<close>)
  then show ?thesis
    using cyclic_op_eq [OF assms(1,2,4,5), folded b_def] assms(2) by (simp add: blocking_get_def Let_def)
qed

lemma blocking_get_section:
  assumes "array_mem_ok S a" "mem_ok W a M" "i + length buf \<le> ua_size a" "0 < length buf"
    and "\<And>pe. pe < ad_num_pes (ua_data a) \<Longrightarrow> W pe = pe" "buf_pe = ad_my_pe (ua_data a)"
  shows "blocking_get a M buf_pe i buf = Ret (section_of W S a M i (length buf))"
  using blocking_get_block [OF assms(1) _ assms(2-5)] blocking_get_cyclic [OF assms(1) _ assms(2-6)]
  by (cases "ua_distribution a") blast+

subsection \<open>Small gets\<close>

lemma remote_small_get_part:
  assumes "array_mem_ok S a" "mem_ok (world_of arch) a M" "i + n \<le> ua_size a" "0 < n" "rt_wf arch" "rt_num_pes arch = ad_num_pes (ua_data a)"
  defines "b \<equiv> sub_range a i n"
  assumes "pe \<in> set (range_pes b)"
  shows "remote_small_get arch a M i n pe = Ret (part_data b (section_of (world_of arch) S a M i n) pe)"
proof -
  have mem: "pe < ad_num_pes (ua_data a)" "owned b pe \<noteq> {}"
    using assms(8) range_pes_set(1) [OF assms(1,3,4)] by (auto simp: b_def)
  have es: "0 < ua_elem_size a" using assms(2) by (simp add: mem_ok_def)
  define lo c where "lo = part_mem b pe" and "c = card (owned b pe)"
  have bytes: "(lo + c) * ua_elem_size a - lo * ua_elem_size a = c * ua_elem_size a" by (simp add: distrib_right)
  have "local_elements_for_range (at_pe a pe) i n
      = Ret (Some ((lo * ua_elem_size a, (lo + c) * ua_elem_size a), rank a pe (i + nth_owned b pe 0), rank a pe (i + nth_owned b pe 0) + c))"
    using local_range [OF assms(1,3,4) mem(1)] mem(2) by (simp add: b_def lo_def c_def part_mem_def)
  then have "remote_small_get arch a M i n pe = Ret (take c (drop lo (M (world_of arch pe))))"
    using am_dst_eq [OF assms(5)] mem(1) es assms(6) by (simp add: remote_small_get_def bytes)
  then show ?thesis using get_part [OF assms(1-3) mem(1)] mem(2) by (simp add: b_def lo_def c_def)
qed

lemma efold_concat:
  assumes "k + length (concat datas) \<le> length buf"
  shows "efold (\<lambda>data (cur_index, buf).
      if cur_index + length data \<le> length buf then Ret (cur_index + length data, overwrite buf cur_index data) else Panic ExplicitPanic)
      datas (k, buf) = Ret (k + length (concat datas), overwrite buf k (concat datas))"
  using assms
proof (induction datas arbitrary: k buf)
  case Nil
  then show ?case by (simp add: overwrite_def)
next
  case (Cons d ds)
  have "k \<le> length buf" using Cons.prems by simp
  then have "overwrite (overwrite buf k d) (k + length d) (concat ds) = overwrite buf k (d @ concat ds)"
    by (simp add: overwrite_def min_absorb2 add.commute add.left_commute)
  then show ?case using Cons.IH [of "k + length d" "overwrite buf k d"] Cons.prems by (simp add: add.assoc)
qed

lemma concat_upt:
  assumes "\<And>q. p \<le> q \<Longrightarrow> q < r \<Longrightarrow> edge q \<le> (edge (q + 1) :: nat)" "p \<le> r"
  shows "concat (map (\<lambda>q. [edge q..<edge (q + 1)]) [p..<r]) = [edge p..<edge r] \<and> edge p \<le> edge r"
  using assms
proof (induction "r - p" arbitrary: r)
  case (Suc d)
  then obtain r' where r: "r = Suc r'" "p \<le> r'" by (cases r) auto
  have "concat (map (\<lambda>q. [edge q..<edge (q + 1)]) [p..<r']) = [edge p..<edge r'] \<and> edge p \<le> edge r'"
    using Suc.hyps(2) r Suc.prems by (intro Suc.hyps(1)) auto
  moreover have "edge r' \<le> edge (r' + 1)" using Suc.prems r by simp
  ultimately show ?case using r upt_add_eq_append [of "edge p" "edge r'" "edge (r' + 1) - edge r'"] by simp
qed simp

lemma block_concat:
  assumes "array_mem_ok S a" "ua_distribution a = Block" "i + n \<le> ua_size a" "0 < n" "length new = n"
  defines "b \<equiv> sub_range a i n"
  shows "concat (map (part_data b new) (range_pes b)) = new"
proof -
  have ok: "array_ok S a" using assms(1) by (simp add: array_mem_ok_def)
  have okb: "array_mem_ok S b" using sub_range_ok(2) [OF assms(1,3)] by (simp add: b_def)
  let ?B = "block_bound (ua_orig_elem_per_pe a)"
  define g fst_pe lst where "g = ua_offset a + i" and "fst_pe = dist_owner a g" and "lst = dist_owner a (g + (n - 1))"
  define edge where "edge q = min (g + n) (max g (?B q)) - g" for q
  have gS: "g < S" "g + (n - 1) < S" using ok assms(3,4) by (auto simp: array_ok_def g_def)
  have P: "fst_pe < ad_num_pes (ua_data a)" "lst < ad_num_pes (ua_data a)"
    using owner_less [OF ok] gS by (auto simp: fst_pe_def lst_def)
  have ends: "?B fst_pe \<le> g" "?B lst \<le> g + (n - 1)" "g + (n - 1) < ?B (lst + 1)"
    using block_owner_iff [OF ok assms(2) gS(1) P(1)] block_owner_iff [OF ok assms(2) gS(2) P(2)]
    by (auto simp: fst_pe_def lst_def)
  have "fst_pe \<le> lst" using block_order(2) [OF ok assms(2) gS(2) P(1)] ends(1) by (simp add: lst_def)
  have pes: "range_pes b = [fst_pe..<lst + 1]"
    unfolding range_pes_def b_def view_simps assms(2) distribution.case by (simp only: g_def fst_pe_def lst_def)
  have part: "part_data b new q = map ((!) new) [edge q..<edge (q + 1)]" if "q \<in> set (range_pes b)" for q
  proof -
    have q: "q < ad_num_pes (ua_data b)" "owned b q \<noteq> {}" "q < ad_num_pes (ua_data a)"
      using that range_pes_set(1) [OF assms(1,3,4)] by (auto simp: b_def)
    note bp = block_part [OF okb _ q(1,2)] and r = block_range_start(7,8) [OF assms(1-4) q(3)]
    have "?B q < g + n" "g < ?B (q + 1)" using r q(2) by (simp_all add: b_def g_def)
    then have e: "edge q = max g (?B q) - g" "edge (q + 1) = min (g + n) (?B (q + 1)) - g" "max g (?B q) < g + n"
      using assms(4) by (auto simp: edge_def)
    have "nth_owned b q t = edge q + t" for t
      using bp(2) [of t] assms(2) by (simp add: e b_def g_def)
    moreover have "card (owned b q) = edge (q + 1) - edge q"
    proof -
      have "card (owned b q) = min (g + n) (?B (q + 1)) - max g (?B q)" using bp(3) assms(2) by (simp add: b_def g_def)
      then show ?thesis unfolding e(1,2) by simp
    qed
    ultimately show ?thesis by (simp add: part_data_def list_eq_iff_nth_eq)
  qed
  have mono: "edge q \<le> edge (q + 1)" if "fst_pe \<le> q" "q < lst + 1" for q
    using block_strict [OF assms(1), of q] that P by (auto simp: edge_def)
  have "concat (map (part_data b new) (range_pes b)) = map ((!) new) (concat (map (\<lambda>q. [edge q..<edge (q + 1)]) (range_pes b)))"
    using part by (simp add: map_concat cong: map_cong)
  also have "\<dots> = map ((!) new) [edge fst_pe..<edge (lst + 1)]"
    unfolding pes using concat_upt [of fst_pe "lst + 1" edge] mono \<open>fst_pe \<le> lst\<close> by simp
  also have "\<dots> = new" using ends assms(4,5) map_nth [of new] by (simp add: edge_def)
  finally show ?thesis .
qed

lemma small_get_block:
  assumes "array_mem_ok S a" "ua_distribution a = Block" "mem_ok (world_of arch) a M" "i + length buf \<le> ua_size a" "0 < length buf"
    and "rt_wf arch" "rt_num_pes arch = ad_num_pes (ua_data a)"
  shows "small_get arch a M i buf = Ret (section_of (world_of arch) S a M i (length buf))"
proof -
  let ?b = "sub_range a i (length buf)" and ?new = "section_of (world_of arch) S a M i (length buf)"
  have "emap (remote_small_get arch a M i (length buf)) (range_pes ?b) = Ret (map (part_data ?b ?new) (range_pes ?b))"
    by (rule emap_eq) (rule remote_small_get_part [OF assms(1,3-7)])
  moreover have "concat (map (part_data ?b ?new) (range_pes ?b)) = ?new"
    by (rule block_concat [OF assms(1,2,4,5) section_length [OF assms(1,4)]])
  moreover have "overwrite buf 0 ?new = ?new" using section_length [OF assms(1,4), of "world_of arch" M] by (simp add: overwrite_def)
  ultimately show ?thesis
    using efold_concat [of 0 "map (part_data ?b ?new) (range_pes ?b)" buf] section_length [OF assms(1,4), of "world_of arch" M] assms(2)
    by (simp add: small_get_def pes_for_range_eq [OF assms(1,4,5)] del: efold_map)
qed

lemma small_get_cyclic:
  assumes "array_mem_ok S a" "ua_distribution a = Cyclic" "mem_ok (world_of arch) a M" "i + length buf \<le> ua_size a" "0 < length buf"
    and "rt_wf arch" "rt_num_pes arch = ad_num_pes (ua_data a)"
  shows "small_get arch a M i buf = Ret (section_of (world_of arch) S a M i (length buf))"
proof -
  let ?n = "length buf" and ?new = "section_of (world_of arch) S a M i (length buf)" and ?P = "ad_num_pes (ua_data a)"
  define b g m where "b = sub_range a i ?n" and "g = ua_offset a + i" and "m = min ?n ?P"
  have P: "0 < ?P" using assms(1) by (auto simp: array_mem_ok_def array_ok_def)
  note len = section_length [OF assms(1,4), of "world_of arch" M] and set = range_pes_set(1) [OF assms(1,4,5), folded b_def]
  have pes: "range_pes b = map (\<lambda>k. (g + k) mod ?P) [0..<m]" using assms(2) by (simp add: range_pes_def b_def g_def m_def)
  have okb: "array_mem_ok S b" using sub_range_ok(2) [OF assms(1,4)] by (simp add: b_def)
  have datas: "emap (remote_small_get arch a M i ?n) (range_pes b) = Ret (map (\<lambda>k. part_data b ?new ((g + k) mod ?P)) [0..<m])"
  proof -
    have "emap (remote_small_get arch a M i ?n) (range_pes b) = Ret (map (part_data b ?new) (range_pes b))"
      unfolding b_def by (rule emap_eq) (rule remote_small_get_part [OF assms(1,3-7)])
    then show ?thesis by (simp add: pes o_def)
  qed
  have "efold (\<lambda>k buf. efold (\<lambda>(t, val) buf. if k + t * m < length buf then Ret (buf[k + t * m := val]) else Panic OutOfBounds)
      (enumerate 0 (part_data b ?new ((g + k) mod ?P))) buf) [0..<m] buf = Ret ?new"
  proof (rule efold_fill [where own = "\<lambda>j. j mod ?P"])
    fix k and buf' :: "'a list" assume k: "k \<in> set [0..<m]" and l: "length buf' = ?n"
    define pe where "pe = (g + k) mod ?P"
    have kP: "k < ?P" "k < ?n" using k by (auto simp: m_def)
    have "pe \<in> set (range_pes b)" using k unfolding pes pe_def by (simp only: set_map) (rule imageI)
    then have mem: "pe < ad_num_pes (ua_data b)" "pe < ?P" "owned b pe \<noteq> {}" using set by (auto simp: b_def)
    have first: "j mod ?P = k \<longleftrightarrow> dist_owner a (ua_offset a + i + j) = pe" for j
      using cyclic_owner_iff [OF mem(2), of g j] cyclic_owner_iff [OF mem(2), of g k] kP assms(2)
      by (simp add: dist_owner_def g_def pe_def)
    have nth: "nth_owned b pe t = k + t * m" if t: "t < card (owned b pe)" for t
    proof -
      have n0: "nth_owned b pe 0 = k"
        using cyclic_owner_iff [OF mem(2), of g k] kP assms(2) by (simp add: nth_owned_def b_def g_def pe_def)
      have "card (owned b pe) \<le> 1" if "?n < ?P"
        using cyclic_part(4) [OF okb _ mem(1,3)] assms(2) that by (simp add: b_def)
      then show ?thesis
        using n0 assms(2) t by (cases "?n < ?P") (auto simp: nth_owned_def b_def m_def min_def mult.commute)
    qed
    have eq: "enumerate 0 (part_data b ?new pe) = map (\<lambda>t. (t, ?new ! nth_owned b pe t)) [0..<card (owned b pe)]"
      by (simp add: part_data_def enumerate_map_upt)
    have "\<exists>buf''. efold (\<lambda>(t, j) buf. if j < length buf then Ret (buf[j := part_data b ?new pe ! t]) else Panic OutOfBounds)
        (enumerate 0 (map (nth_owned b pe) [0..<card (owned b pe)])) buf' = Ret buf'' \<and> length buf'' = ?n
      \<and> (\<forall>j<?n. buf'' ! j = (if dist_owner a (ua_offset a + i + j) = pe then ?new ! j else buf' ! j))"
      unfolding b_def by (rule cyclic_fill [OF assms(1,2,4) mem(2) _ l len]) (use mem in \<open>simp_all add: b_def\<close>)
    moreover have "efold (\<lambda>(t, j) buf. if j < length buf then Ret (buf[j := part_data b ?new pe ! t]) else Panic OutOfBounds)
        (enumerate 0 (map (nth_owned b pe) [0..<card (owned b pe)])) buf'
      = efold (\<lambda>(t, val) buf. if k + t * m < length buf then Ret (buf[k + t * m := val]) else Panic OutOfBounds)
        (enumerate 0 (part_data b ?new pe)) buf'"
      unfolding eq enumerate_map_upt efold_map by (rule efold_cong) (simp add: part_data_def nth)
    ultimately show "\<exists>buf''. efold (\<lambda>(t, val) buf. if k + t * m < length buf then Ret (buf[k + t * m := val]) else Panic OutOfBounds)
        (enumerate 0 (part_data b ?new ((g + k) mod ?P))) buf' = Ret buf'' \<and> length buf'' = ?n
      \<and> (\<forall>j<?n. buf'' ! j = (if j mod ?P = k then ?new ! j else buf' ! j))"
      by (simp add: first pe_def [symmetric])
  qed (use len P in \<open>auto simp: m_def intro: le_less_trans [OF mod_less_eq_dividend]\<close>)
  moreover have "length (map (\<lambda>k. part_data b ?new ((g + k) mod ?P)) [0..<m]) = m" by simp
  ultimately show ?thesis
    unfolding small_get_def pes_for_range_eq [OF assms(1,4,5)] b_def [symmetric] ebind_simps datas assms(2)
      distribution.case Let_def by (simp only: enumerate_map_upt efold_map prod.case)
qed

lemma internal_get_section:
  assumes "array_mem_ok S a" "mem_ok (world_of arch) a M" "i + length buf \<le> ua_size a" "0 < length buf"
    and "rt_wf arch" "rt_num_pes arch = ad_num_pes (ua_data a)"
    and "length buf * ua_elem_size a \<le> batch_am_size
      \<or> buf_pe = ad_my_pe (ua_data a) \<and> (\<forall>pe<rt_num_pes arch. world_pe arch pe = Inr pe)"
  shows "internal_get arch a M buf_pe i buf = Ret (section_of (world_of arch) S a M i (length buf))"
proof (cases "length buf * ua_elem_size a \<le> batch_am_size")
  case True
  then show ?thesis
    using small_get_block [OF assms(1) _ assms(2-6)] small_get_cyclic [OF assms(1) _ assms(2-6)]
    by (cases "ua_distribution a") (simp_all add: internal_get_def)
next
  case False
  then have "buf_pe = ad_my_pe (ua_data a)" "world_of arch pe = pe" if "pe < ad_num_pes (ua_data a)" for pe
    using assms(6,7) that by (auto simp: world_of_def)
  moreover have "0 < ad_num_pes (ua_data a)" using assms(1) by (auto simp: array_mem_ok_def array_ok_def)
  ultimately show ?thesis
    using False blocking_get_section [OF assms(1-4), of buf_pe] by (simp add: internal_get_def)
qed

section \<open>Properties\<close>

text \<open>The world of four PEs, and the team of its odd PEs.\<close>

definition world4 :: lamellar_arch_rt where
  "world4 = ArchRT None (GlobalArch (global_new 4)) 4"

lemma world4_ok: "rt_wf world4" "rt_num_pes world4 = 4" "\<forall>pe<4. world_pe world4 pe = Inr pe"
proof -
  show "rt_wf world4" unfolding world4_def by (rule world_wf) simp
qed (simp_all add: world4_def global_new_def global_parent_pe_id_def)

lemma example_mem:
  "mem_ok (world_of world4) (array_example d) (\<lambda>_. replicate (f64_ceil_usize (elems_per_pe 10 4)) x)"
  using world_of_inj [OF world4_ok(1)] world4_ok(2) by (simp add: mem_ok_def array_example_def)

lemma example_fields:
  "ua_offset (array_example d) = 3" "ua_size (array_example d) = 6" "ad_num_pes (ua_data (array_example d)) = 4"
  "ua_elem_size (array_example d) = 8" "ad_my_pe (ua_data (array_example d)) = 2"
  by (simp_all add: array_example_def)

text \<open>
  A buffer of more than \<open>BATCH_AM_SIZE\<close> bytes is fetched from the PE that the array takes for the
  caller, by its index in the team; the messages panic when the buffer is not there.
\<close>

lemma exec_put_ams_wrong_pe:
  assumes "array_mem_ok S a" "i + length buf \<le> ua_size a" "0 < length buf"
    and arch: "rt_wf arch" "rt_num_pes arch = ad_num_pes (ua_data a)"
    and large: "batch_am_size < length buf * ua_elem_size a" "buf_pe \<noteq> ad_my_pe (ua_data a)"
    and reqs: "internal_put a i buf = Ret reqs" "mset sched = mset reqs"
  shows "exec_put_ams arch a buf_pe i (length buf) sched M = Panic ExplicitPanic"
proof -
  let ?b = "sub_range a i (length buf)"
  have r: "reqs = map (\<lambda>pe. (pe, put_am_of a buf (part_data ?b buf pe))) (range_pes ?b)"
    using internal_put_eq [OF assms(1-3)] reqs(1) by simp
  have "dist_owner ?b (ua_offset ?b + 0) \<in> set (range_pes ?b)"
    using range_pes_set(1) [OF assms(1-3)] index_owner_less [OF sub_range_ok(1), of S a i "length buf" 0] assms(1-3)
    by (fastforce simp: owned_def array_mem_ok_def sub_range_def)
  then have "reqs \<noteq> []" unfolding r by auto
  then obtain x xs where sched: "sched = x # xs" using reqs(2) by (cases sched) auto
  then have "x \<in> set reqs" using reqs(2) by (metis list.set_intros(1) mset_eq_setD)
  then obtain pe where x: "x = (pe, put_am_of a buf (part_data ?b buf pe))" and pe: "pe \<in> set (range_pes ?b)"
    unfolding r by auto
  then have mem: "pe < ad_num_pes (ua_data a)" "owned ?b pe \<noteq> {}"
    using range_pes_set(1) [OF assms(1-3)] by auto
  then have "\<exists>lo hi st en. local_elements_for_range (at_pe a pe) i (length buf) = Ret (Some ((lo, hi), st, en))"
    using local_range [OF assms(1-3) mem(1)] by auto
  then have "exec_put_am a buf_pe i (length buf) pe w (put_am_of a buf (part_data ?b buf pe)) M = Panic ExplicitPanic" for w
    using large by (auto simp: exec_put_am_def put_am_of_def Let_def)
  then show ?thesis using mem(1) arch am_dst_eq [OF arch(1), of pe] by (simp add: exec_put_ams_def sched x)
qed



text \<open>
  A get returns the section of the list.  For both distributions and any sub-array,
  \<open>internal_get\<close> fills the buffer with the elements of the range.  Up to \<open>BATCH_AM_SIZE\<close> bytes this holds
  on any team; a larger transfer is one-sided and needs a team whose indices are the PEs of the
  world.
\<close>

theorem array_get_section:
  assumes "array_mem_ok S a" "mem_ok (world_of arch) a M" "i + length buf \<le> ua_size a" "0 < length buf"
    and "rt_wf arch" "rt_num_pes arch = ad_num_pes (ua_data a)"
    and "length buf * ua_elem_size a \<le> batch_am_size
      \<or> buf_pe = ad_my_pe (ua_data a) \<and> (\<forall>pe<rt_num_pes arch. world_pe arch pe = Inr pe)"
  shows "internal_get arch a M buf_pe i buf = Ret (take (length buf) (drop (ua_offset a + i) (full_view (world_of arch) S a M)))"
  using internal_get_section [OF assms] by (simp add: section_of_def)

theorem array_get_section_witness:
  "internal_get world4 (array_example Cyclic) (\<lambda>pe. replicate (f64_ceil_usize (elems_per_pe 10 4)) 5) 2 1 [0, 0, 0 :: nat]
     = Ret (take 3 (drop 4 (full_view (world_of world4) 10 (array_example Cyclic) (\<lambda>pe. replicate (f64_ceil_usize (elems_per_pe 10 4)) 5))))"
proof -
  let ?a = "array_example Cyclic" and ?M = "\<lambda>_ :: nat. replicate (f64_ceil_usize (elems_per_pe 10 4)) (5::nat)"
  have "internal_get world4 ?a ?M 2 1 [0, 0, 0 :: nat]
      = Ret (take (length [0, 0, 0 :: nat]) (drop (ua_offset ?a + 1) (full_view (world_of world4) 10 ?a ?M)))"
    by (rule array_get_section)
       (use array_example_ok [of Cyclic] example_mem [of Cyclic "5::nat"] world4_ok in \<open>simp_all add: example_fields\<close>)
  moreover have "length [0, 0, 0 :: nat] = 3" "ua_offset ?a + 1 = 4" by (simp_all add: example_fields)
  ultimately show ?thesis by (simp only:)
qed

text \<open>
  One-sided round trip: on a team whose indices are the PEs of the world, \<open>put_unchecked\<close> followed by
  \<open>blocking_get\<close> of the same range returns the buffer, and a \<open>blocking_get\<close> of any other range of the array
  returns what the list holds after the assignment.
\<close>

theorem array_rdma_roundtrip:
  assumes "array_mem_ok S a" "mem_ok (\<lambda>pe. pe) a M" "i + length buf \<le> ua_size a" "0 < length buf"
    and "j + length dst \<le> ua_size a" "0 < length dst"
  shows "\<exists>M'. put_unchecked a M i buf = Ret M'
    \<and> blocking_get a M' (ad_my_pe (ua_data a)) j dst
      = Ret (take (length dst) (drop (ua_offset a + j) (overwrite (full_view (\<lambda>pe. pe) S a M) (ua_offset a + i) buf)))
    \<and> (length dst = length buf \<and> j = i \<longrightarrow> blocking_get a M' (ad_my_pe (ua_data a)) j dst = Ret buf)"
proof -
  obtain M' where M': "put_unchecked a M i buf = Ret M'" "mem_ok (\<lambda>pe. pe) a M'"
    "full_view (\<lambda>pe. pe) S a M' = overwrite (full_view (\<lambda>pe. pe) S a M) (ua_offset a + i) buf"
    using put_unchecked_view [OF assms(1-4)] by blast
  have get: "blocking_get a M' (ad_my_pe (ua_data a)) j dst
      = Ret (take (length dst) (drop (ua_offset a + j) (overwrite (full_view (\<lambda>pe. pe) S a M) (ua_offset a + i) buf)))"
    using blocking_get_section [OF assms(1) M'(2) assms(5,6) refl refl] M'(3) by (simp add: section_of_def)
  have "ua_offset a + i \<le> S" using assms(1,3) by (auto simp: array_mem_ok_def array_ok_def)
  then have "take (length buf) (drop (ua_offset a + i) (overwrite (full_view (\<lambda>pe. pe) S a M) (ua_offset a + i) buf)) = buf"
    by (simp add: overwrite_def)
  then show ?thesis using M'(1) get by auto
qed

theorem array_rdma_roundtrip_witness:
  "\<exists>M'. put_unchecked (array_example Block) (\<lambda>_. replicate (f64_ceil_usize (elems_per_pe 10 4)) 0) 1 [7, 8, 9 :: nat] = Ret M'
     \<and> blocking_get (array_example Block) M' 2 1 [0, 0, 0] = Ret [7, 8, 9]"
proof -
  let ?a = "array_example Block" and ?M = "\<lambda>_ :: nat. replicate (f64_ceil_usize (elems_per_pe 10 4)) (0::nat)"
  have "mem_ok (\<lambda>pe. pe) ?a ?M" by (simp add: mem_ok_def array_example_def)
  from array_rdma_roundtrip [OF _ this, of 10 1 "[7, 8, 9]" 1 "[0, 0, 0]"] array_example_ok [of Block]
  show ?thesis by (auto simp: example_fields)
qed

lemma range_image:
  assumes "array_ok S a" "i + n \<le> ua_size a"
  shows "{j. i \<le> j \<and> j < i + n \<and> pe_for_dist_index a j = Ret (Some pe)} = (\<lambda>j. i + j) ` owned (sub_range a i n) pe"
proof (intro set_eqI iffI)
  fix j assume j: "j \<in> {j. i \<le> j \<and> j < i + n \<and> pe_for_dist_index a j = Ret (Some pe)}"
  then have "j - i \<in> owned (sub_range a i n) pe"
    unfolding pe_for_dist_index_owner [OF assms(1)] using assms(2) by (auto simp: owned_def split: if_splits)
  then show "j \<in> (\<lambda>j. i + j) ` owned (sub_range a i n) pe" using j by (intro image_eqI [of _ _ "j - i"]) simp_all
next
  fix j assume "j \<in> (\<lambda>j. i + j) ` owned (sub_range a i n) pe"
  then show "j \<in> {j. i \<le> j \<and> j < i + n \<and> pe_for_dist_index a j = Ret (Some pe)}"
    unfolding pe_for_dist_index_owner [OF assms(1)] using assms(2) by (auto simp: owned_def add.assoc)
qed

text \<open>
  C40. The range functions agree with the element-wise owner function.  For a range of an array,
  \<open>pes_for_range\<close> lists, each once, exactly the PEs that own an element of the range;
  \<open>num_elements_on_pe_for_range\<close> is the number of those elements; and
  \<open>local_elements_for_range\<close>, on the PE itself, is a slice of its memory with exactly that many elements, which
  starts where the first of them is stored.
\<close>

theorem range_functions_exact:
  assumes "array_mem_ok S a" "i + n \<le> ua_size a" "0 < n" "0 < ua_elem_size a"
  defines "on \<equiv> \<lambda>pe. {j. i \<le> j \<and> j < i + n \<and> pe_for_dist_index a j = Ret (Some pe)}"
  shows "(\<exists>pes. pes_for_range a i n = Ret pes \<and> distinct pes \<and> set pes = {pe. pe < ad_num_pes (ua_data a) \<and> on pe \<noteq> {}})
    \<and> (\<forall>pe<ad_num_pes (ua_data a). num_elements_on_pe_for_range a pe i n
         = Ret (if on pe = {} then None else Some (card (on pe))))
    \<and> (\<forall>pe<ad_num_pes (ua_data a). if on pe = {} then local_elements_for_range (at_pe a pe) i n = Ret None
         else \<exists>st. local_elements_for_range (at_pe a pe) i n = Ret (Some
           ((mem_index a (ua_offset a + Min (on pe)) * ua_elem_size a,
            (mem_index a (ua_offset a + Min (on pe)) + card (on pe)) * ua_elem_size a), st, st + card (on pe))))"
proof -
  let ?b = "sub_range a i n"
  have ok: "array_ok S a" using assms(1) by (simp add: array_mem_ok_def)
  have image: "on pe = (\<lambda>j. i + j) ` owned ?b pe" for pe using range_image [OF ok assms(2)] by (simp add: on_def)
  then have card: "card (owned ?b pe) = card (on pe)" for pe by (simp add: card_image)
  have empty: "owned ?b pe = {} \<longleftrightarrow> on pe = {}" for pe using image by simp
  have first: "i + nth_owned ?b pe 0 = Min (on pe)" if "pe < ad_num_pes (ua_data a)" "on pe \<noteq> {}" for pe
  proof -
    have c: "0 < card (owned ?b pe)" using that(2) empty by (simp add: card_gt_0_iff)
    have pe: "pe < ad_num_pes (ua_data ?b)" using that(1) by simp
    note b = sub_range_ok(1) [OF ok assms(2)]
    have le: "nth_owned ?b pe 0 \<le> j" if "j \<in> owned ?b pe" for j
      using nth_owned_in [OF b pe c] rank_strict [OF that, of "nth_owned ?b pe 0"] by (metis not_less0 not_le)
    show ?thesis
      unfolding image using le nth_owned_in [OF b pe c] by (intro Min_eqI [symmetric]) auto
  qed
  have "local_elements_for_range (at_pe a pe) i n = Ret (if on pe = {} then None
      else Some ((mem_index a (ua_offset a + Min (on pe)) * ua_elem_size a,
        (mem_index a (ua_offset a + Min (on pe)) + card (on pe)) * ua_elem_size a),
        rank a pe (Min (on pe)), rank a pe (Min (on pe)) + card (on pe)))" if "pe < ad_num_pes (ua_data a)" for pe
    using local_range [OF assms(1-3) that] first [OF that] by (auto simp: empty card add.assoc)
  moreover have "num_elements_on_pe_for_range a pe i n = Ret (if on pe = {} then None else Some (card (on pe)))"
    if "pe < ad_num_pes (ua_data a)" for pe
    using num_range [OF assms(1-3) that] by (simp add: empty card)
  ultimately show ?thesis
    using pes_for_range_eq [OF assms(1-3)] range_pes_set [OF assms(1-3)] empty by simp
qed

theorem range_functions_exact_witness:
  "\<exists>pes. pes_for_range (array_example Cyclic) 1 3 = Ret pes \<and> distinct pes"
  using range_functions_exact [of 10 "array_example Cyclic" 1 3] array_example_ok [of Cyclic] example_fields [of Cyclic]
  by auto

text \<open>
  One-sided transfers address PEs by team index.  \<open>block_op\<close> and \<open>cyclic_op\<close> hand the index of
  a PE in the team to \<open>MemoryRegion\<close>, which takes a PE of the world.  For a team none of whose members is a world
  PE below the size of the team, \<open>put_unchecked\<close> succeeds and changes no element of the array.
\<close>

theorem rdma_put_misses_team:
  assumes "array_mem_ok S a" "mem_ok (\<lambda>pe. pe) a M" "i + length buf \<le> ua_size a" "0 < length buf"
    and "\<forall>pe<ad_num_pes (ua_data a). ad_num_pes (ua_data a) \<le> world_of arch pe"
  shows "\<exists>M'. put_unchecked a M i buf = Ret M' \<and> full_view (world_of arch) S a M' = full_view (world_of arch) S a M"
proof -
  have ok: "array_ok S a" using assms(1) by (simp add: array_mem_ok_def)
  obtain M' where M': "put_unchecked a M i buf = Ret M'" "\<forall>w\<ge>ad_num_pes (ua_data a). M' w = M w"
    using put_unchecked_view [OF assms(1-4)] by blast
  then have "full_view (world_of arch) S a M' = full_view (world_of arch) S a M"
    using assms(5) owner_less [OF ok] by (simp add: full_view_def)
  then show ?thesis using M'(1) by blast
qed

definition upper_pes :: lamellar_arch_rt where
  "upper_pes = ArchRT (Some (ArchRT None (GlobalArch (global_new 8)) 8)) (BlockedArch \<lparr>ba_num_pes = 4, ba_start_pe = 4, ba_end_pe = 7\<rparr>) 4"

theorem rdma_put_misses_team_witness:
  "world_pe upper_pes 0 = Inr 4 \<and> (\<exists>M'. put_unchecked (array_example Block) (\<lambda>_. replicate (f64_ceil_usize (elems_per_pe 10 4)) 0) 1 [7 :: nat] = Ret M'
     \<and> full_view (world_of upper_pes) 10 (array_example Block) M'
       = full_view (world_of upper_pes) 10 (array_example Block) (\<lambda>_. replicate (f64_ceil_usize (elems_per_pe 10 4)) 0))"
proof -
  let ?a = "array_example Block" and ?M = "\<lambda>_ :: nat. replicate (f64_ceil_usize (elems_per_pe 10 4)) (0::nat)"
  have w: "world_pe upper_pes pe = Inr (4 + pe)" if "pe < 4" for pe
    using that by (simp add: upper_pes_def blocked_parent_pe_id_def global_parent_pe_id_def global_new_def)
  have "mem_ok (\<lambda>pe. pe) ?a ?M" by (simp add: mem_ok_def array_example_def)
  from rdma_put_misses_team [OF _ this, of 10 1 "[7]" upper_pes] array_example_ok [of Block] w
  show ?thesis by (simp add: example_fields world_of_def)
qed

text \<open>
  The non-blocking get of a cyclic array ignores the offset of a sub-array: it returns the
  section of the full array that starts at the index itself.
\<close>

theorem cyclic_get_ignores_offset:
  assumes "array_mem_ok S a" "ua_distribution a = Cyclic" "mem_ok (\<lambda>pe. pe) a M" "i + n \<le> ua_size a"
  shows "cyclic_get_unchecked a M i n = Ret (take n (drop i (full_view (\<lambda>pe. pe) S a M)))"
proof -
  let ?P = "ad_num_pes (ua_data a)"
  have P: "0 < ?P" and S: "i + n \<le> S" using assms(1,4) by (auto simp: array_mem_ok_def array_ok_def)
  have get: "mr_blocking_get a M ((i + k) mod ?P) ((i + k) div ?P) 1 = Ret [M ((i + k) mod ?P) ! ((i + k) div ?P)]" if "k < n" for k
  proof -
    define C where "C = f64_ceil_usize (elems_per_pe S ?P)"
    have less: "(i + k) div ?P < C"
      using mem_index_less [OF assms(1), of "i + k"] assms(2) S that by (simp add: mem_index_def C_def)
    then have "((i + k) div ?P + 1) * ua_elem_size a \<le> ad_mem_bytes (ua_data a)"
      using mult_le_mono1 [of "(i + k) div ?P + 1" C "ua_elem_size a"] assms(1) by (simp add: array_mem_ok_def C_def)
    moreover have "(i + k) div ?P < length (M ((i + k) mod ?P))"
      using less mem_length [OF assms(1,3), of "(i + k) mod ?P"] P by (simp add: C_def)
    ultimately show ?thesis by (simp add: mr_blocking_get_def take_Suc_conv_app_nth take_drop)
  qed
  have "emap (\<lambda>k. ebind (umod (i + k) ?P) (\<lambda>pe. ebind (udiv (i + k) ?P) (\<lambda>offset. mr_blocking_get a M pe offset 1))) [0..<n]
      = Ret (map (\<lambda>k. [M ((i + k) mod ?P) ! ((i + k) div ?P)]) [0..<n])"
    by (rule emap_eq) (simp add: P get del: One_nat_def)
  moreover have "take n (drop i (full_view (\<lambda>pe. pe) S a M)) = map (\<lambda>k. M ((i + k) mod ?P) ! ((i + k) div ?P)) [0..<n]"
    using S assms(2) by (intro nth_equalityI) (auto simp: full_view_def dist_owner_def mem_index_def)
  ultimately show ?thesis by (simp add: cyclic_get_unchecked_def Let_def concat_map_singleton)
qed

theorem cyclic_get_ignores_offset_witness:
  "cyclic_get_unchecked (array_example Cyclic) (\<lambda>_. replicate (f64_ceil_usize (elems_per_pe 10 4)) 5) 1 2
     = Ret (take 2 (drop 1 (full_view (\<lambda>pe. pe) 10 (array_example Cyclic) (\<lambda>_. replicate (f64_ceil_usize (elems_per_pe 10 4)) (5 :: nat)))))
   \<and> ua_offset (array_example Cyclic) = 3"
proof -
  have "mem_ok (\<lambda>pe. pe) (array_example Cyclic) (\<lambda>_ :: nat. replicate (f64_ceil_usize (elems_per_pe 10 4)) (5::nat))"
    by (simp add: mem_ok_def array_example_def)
  from cyclic_get_ignores_offset [OF _ _ this, of 10 1 2] array_example_ok [of Cyclic] show ?thesis
    by (simp add: array_example_def)
qed

end
