(* ===== verification/Iter_OneSided.thy ===== *)
theory Iter_OneSided
  imports Array_Transfer
begin

text \<open>
  Iterators by which one PE goes through a whole distributed array (\<open>array/iterator/one_sided_iterator\<close>): the elements are copied into a buffer, and
  an item is a reference into it.  Reading outside the buffer, which the code does with a raw pointer, is the panic \<open>OutOfBounds\<close> of the model.
\<close>

section \<open>The trait\<close>

text \<open>The methods of \<open>OneSidedIterator\<close> that an implementation defines.\<close>

record ('s, 'i) one_sided_ops =
  oo_next :: "'s \<Rightarrow> ('i option \<times> 's) exec"
  oo_advance :: "nat \<Rightarrow> 's \<Rightarrow> 's exec"

text \<open>A \<open>for\<close> loop over \<open>into_iter\<close>, or \<open>collect\<close>.\<close>

partial_function (option) std_collect :: "('s \<Rightarrow> ('i option \<times> 's) exec) \<Rightarrow> 's \<Rightarrow> 'i list exec option" where
  "std_collect nxt s = (case nxt s of
     Panic p \<Rightarrow> Some (Panic p)
   | Ret (r, s') \<Rightarrow> (case r of None \<Rightarrow> Some (Ret []) | Some x \<Rightarrow> Option.bind (std_collect nxt s') (\<lambda>r. Some (ebind r (\<lambda>xs. Ret (x # xs))))))"

section \<open>Iterators\<close>

text \<open>
  \<open>OneSidedIter\<close>: \<open>get\<close> is \<open>internal_get\<close> of the array, which gets an index and a buffer and returns the new contents of the buffer, and \<open>len\<close> is the
  length of the array.  An item is an offset in the buffer.
\<close>

record 'a one_sided_iter =
  os_buf :: "'a list"
  os_index :: nat
  os_buf_index :: nat

definition one_sided_new :: "(nat \<Rightarrow> 'a list \<Rightarrow> 'a list exec) \<Rightarrow> 'a list \<Rightarrow> 'a one_sided_iter exec" where
  "one_sided_new get buf = ebind (get 0 buf) (\<lambda>buf. Ret \<lparr>os_buf = buf, os_index = 0, os_buf_index = 0\<rparr>)"

definition one_sided_fill :: "(nat \<Rightarrow> 'a list \<Rightarrow> 'a list exec) \<Rightarrow> nat \<Rightarrow> 'a one_sided_iter \<Rightarrow> 'a one_sided_iter exec" where
  "one_sided_fill get len s =
     (if os_index s + length (os_buf s) < len then ebind (get (os_index s) (os_buf s)) (\<lambda>buf. Ret (s\<lparr>os_buf := buf\<rparr>))
      else ebind (usub len (os_index s)) (\<lambda>k.
        if k \<le> length (os_buf s)
        then ebind (get (os_index s) (take k (os_buf s))) (\<lambda>sub_region. Ret (s\<lparr>os_buf := sub_region @ drop k (os_buf s)\<rparr>))
        else Panic ExplicitPanic))"

definition one_sided_next :: "(nat \<Rightarrow> 'a list \<Rightarrow> 'a list exec) \<Rightarrow> nat \<Rightarrow> 'a one_sided_iter \<Rightarrow> (nat option \<times> 'a one_sided_iter) exec" where
  "one_sided_next get len s =
     (if os_index s < len then
        ebind (if os_buf_index s = length (os_buf s) then one_sided_fill get len (s\<lparr>os_buf_index := 0\<rparr>) else Ret s) (\<lambda>s.
        let s = s\<lparr>os_index := os_index s + 1, os_buf_index := os_buf_index s + 1\<rparr> in
        if os_buf_index s - 1 < length (os_buf s) then Ret (Some (os_buf_index s - 1), s) else Panic OutOfBounds)
      else Ret (None, s))"

definition one_sided_advance :: "(nat \<Rightarrow> 'a list \<Rightarrow> 'a list exec) \<Rightarrow> nat \<Rightarrow> nat \<Rightarrow> 'a one_sided_iter \<Rightarrow> 'a one_sided_iter exec" where
  "one_sided_advance get len cnt s =
     (let s = s\<lparr>os_index := os_index s + cnt, os_buf_index := os_buf_index s + cnt\<rparr> in
      if os_buf_index s = length (os_buf s) then one_sided_fill get len (s\<lparr>os_buf_index := 0\<rparr>) else Ret s)"

text \<open>The iterator with the values that its references have when they are returned.\<close>

definition one_sided_iter_ops :: "(nat \<Rightarrow> 'a list \<Rightarrow> 'a list exec) \<Rightarrow> nat \<Rightarrow> ('a one_sided_iter, 'a) one_sided_ops" where
  "one_sided_iter_ops get len = \<lparr>
     oo_next = \<lambda>s. ebind (one_sided_next get len s) (\<lambda>(r, s'). Ret (map_option (\<lambda>i. os_buf s' ! i) r, s')),
     oo_advance = one_sided_advance get len\<rparr>"

text \<open>\<open>Chunks\<close>: a new memory region for each chunk; what it holds before the transfer is a parameter.\<close>

record 's chunks_iter =
  ch_iter :: 's
  ch_index :: nat

definition one_sided_chunks_new :: "'s \<Rightarrow> 's chunks_iter" where
  "one_sided_chunks_new s = \<lparr>ch_iter = s, ch_index = 0\<rparr>"

definition one_sided_chunks_ops ::
  "(nat \<Rightarrow> 'a list \<Rightarrow> 'a list exec) \<Rightarrow> (nat \<Rightarrow> 'a list) \<Rightarrow> nat \<Rightarrow> nat \<Rightarrow> ('s chunks_iter, 'a list) one_sided_ops" where
  "one_sided_chunks_ops get alloc len chunk_size = \<lparr>
     oo_next = \<lambda>s. (if ch_index s < len then
        let n = min chunk_size (len - ch_index s) in
        ebind (get (ch_index s) (alloc n)) (\<lambda>mem_region. Ret (Some mem_region, s\<lparr>ch_index := ch_index s + n\<rparr>))
      else Ret (None, s)),
     oo_advance = \<lambda>cnt s. Ret (s\<lparr>ch_index := ch_index s + cnt * chunk_size\<rparr>)\<rparr>"

definition one_sided_skip_new :: "('s, 'i) one_sided_ops \<Rightarrow> nat \<Rightarrow> 's \<Rightarrow> 's exec" where
  "one_sided_skip_new ops cnt s = oo_advance ops cnt s"

definition one_sided_skip_ops :: "('s, 'i) one_sided_ops \<Rightarrow> ('s, 'i) one_sided_ops" where
  "one_sided_skip_ops ops = \<lparr>oo_next = \<lambda>s. oo_next ops s, oo_advance = \<lambda>cnt s. oo_advance ops cnt s\<rparr>"

definition one_sided_step_by_ops :: "('s, 'i) one_sided_ops \<Rightarrow> nat \<Rightarrow> ('s, 'i) one_sided_ops" where
  "one_sided_step_by_ops ops step_size = \<lparr>
     oo_next = \<lambda>s. ebind (oo_next ops s) (\<lambda>(r, s). case r of
        None \<Rightarrow> Ret (None, s)
      | Some res \<Rightarrow> ebind (usub step_size 1) (\<lambda>k. ebind (oo_advance ops k s) (\<lambda>s. Ret (Some res, s)))),
     oo_advance = \<lambda>cnt s. oo_advance ops (cnt * step_size) s\<rparr>"

definition one_sided_zip_ops :: "('s, 'i) one_sided_ops \<Rightarrow> ('t, 'j) one_sided_ops \<Rightarrow> ('s \<times> 't, 'i \<times> 'j) one_sided_ops" where
  "one_sided_zip_ops a b = \<lparr>
     oo_next = \<lambda>(s, t). ebind (oo_next a s) (\<lambda>(r, s). case r of
        None \<Rightarrow> Ret (None, (s, t))
      | Some x \<Rightarrow> ebind (oo_next b t) (\<lambda>(r, t). case r of
          None \<Rightarrow> Ret (None, (s, t))
        | Some y \<Rightarrow> Ret (Some (x, y), (s, t)))),
     oo_advance = \<lambda>cnt (s, t). ebind (oo_advance a cnt s) (\<lambda>s. ebind (oo_advance b cnt t) (\<lambda>t. Ret (s, t)))\<rparr>"

section \<open>The contract of an iterator\<close>

text \<open>In a state that is related to a list, the iterator yields the list; a seekable one drops items when it is advanced.\<close>

locale one_sided_seq =
  fixes ops :: "('s, 'i) one_sided_ops" and rel :: "'s \<Rightarrow> 'i list \<Rightarrow> bool"
  assumes next_end: "rel s [] \<Longrightarrow> \<exists>s'. oo_next ops s = Ret (None, s')"
    and next_item: "rel s (y # ys) \<Longrightarrow> \<exists>s'. oo_next ops s = Ret (Some y, s') \<and> rel s' ys"
begin

lemma collect_all: "rel s ys \<Longrightarrow> std_collect (oo_next ops) s = Some (Ret ys)"
proof (induction ys arbitrary: s)
  case Nil
  from next_end [OF Nil] show ?case by (auto simp: std_collect.simps)
next
  case (Cons y ys)
  from next_item [OF Cons.prems] Cons.IH show ?case by (subst std_collect.simps) auto
qed

end

function every_nth :: "nat \<Rightarrow> 'i list \<Rightarrow> 'i list" where
  "every_nth k [] = []"
| "every_nth k (x # xs) = x # every_nth k (drop (k - 1) xs)"
  by pat_completeness auto
termination by (relation "measure (length \<circ> snd)") auto

lemma drop_every_nth: "0 < k \<Longrightarrow> drop n (every_nth k ys) = every_nth k (drop (n * k) ys)"
proof (induction n arbitrary: ys)
  case (Suc n)
  show ?case
  proof (cases ys)
    case (Cons y zs)
    have "Suc n * k = Suc (n * k + (k - 1))" using Suc.prems by simp
    then have "drop (Suc n * k) ys = drop (n * k + (k - 1)) zs" by (simp only: Cons drop_Suc_Cons)
    then show ?thesis using Suc.IH [OF Suc.prems, of "drop (k - 1) zs"] by (simp add: Cons)
  qed simp
qed simp

locale one_sided_seekable = one_sided_seq +
  assumes advance_drop: "rel s ys \<Longrightarrow> \<exists>s'. oo_advance ops k s = Ret s' \<and> rel s' (drop k ys)"
begin

lemma skip_all:
  "rel s ys \<Longrightarrow> \<exists>s'. one_sided_skip_new ops k s = Ret s' \<and> rel s' (drop k ys)"
  using advance_drop by (simp add: one_sided_skip_new_def)

lemma skip_seekable: "one_sided_seekable (one_sided_skip_ops ops) rel"
  by unfold_locales (use next_end next_item advance_drop in \<open>simp_all add: one_sided_skip_ops_def\<close>)

lemma step_by_seekable:
  "one_sided_seekable (one_sided_step_by_ops ops k) (\<lambda>s zs. 0 < k \<and> (\<exists>ys. rel s ys \<and> zs = every_nth k ys))"
proof unfold_locales
  fix s assume "0 < k \<and> (\<exists>ys. rel s ys \<and> [] = every_nth k ys)"
  then have "rel s []" by (metis every_nth.elims list.distinct(1))
  from next_end [OF this] show "\<exists>s'. oo_next (one_sided_step_by_ops ops k) s = Ret (None, s')" by (auto simp: one_sided_step_by_ops_def)
next
  fix s y zs assume "0 < k \<and> (\<exists>ys. rel s ys \<and> y # zs = every_nth k ys)"
  then obtain ys where k: "0 < k" and "rel s (y # ys)" "zs = every_nth k (drop (k - 1) ys)" by (metis every_nth.elims list.inject list.distinct(1))
  moreover from this(2) obtain s1 where "oo_next ops s = Ret (Some y, s1)" "rel s1 ys" using next_item by blast
  moreover from this(2) obtain s2 where "oo_advance ops (k - 1) s1 = Ret s2" "rel s2 (drop (k - 1) ys)" using advance_drop by blast
  ultimately show "\<exists>s'. oo_next (one_sided_step_by_ops ops k) s = Ret (Some y, s') \<and> 0 < k \<and> (\<exists>ys. rel s' ys \<and> zs = every_nth k ys)"
    by (auto simp: one_sided_step_by_ops_def usub_def)
next
  fix s zs n assume "0 < k \<and> (\<exists>ys. rel s ys \<and> zs = every_nth k ys)"
  then obtain ys where k: "0 < k" and "rel s ys" "zs = every_nth k ys" by blast
  moreover from this(2) obtain s' where "oo_advance ops (n * k) s = Ret s'" "rel s' (drop (n * k) ys)" using advance_drop by blast
  ultimately show "\<exists>s'. oo_advance (one_sided_step_by_ops ops k) n s = Ret s' \<and> 0 < k \<and> (\<exists>ys. rel s' ys \<and> drop n zs = every_nth k ys)"
    by (auto simp: one_sided_step_by_ops_def drop_every_nth)
qed

end

locale one_sided_pair = left: one_sided_seq a rel_a + right: one_sided_seq b rel_b
  for a :: "('s, 'i) one_sided_ops" and rel_a and b :: "('t, 'j) one_sided_ops" and rel_b
begin

lemma zip_seq: "one_sided_seq (one_sided_zip_ops a b) (\<lambda>st zs. \<exists>xs ys. rel_a (fst st) xs \<and> rel_b (snd st) ys \<and> zs = zip xs ys)"
proof unfold_locales
  fix st assume "\<exists>xs ys. rel_a (fst st) xs \<and> rel_b (snd st) ys \<and> [] = zip xs ys"
  then obtain xs ys where r: "rel_a (fst st) xs" "rel_b (snd st) ys" and e: "xs = [] \<or> ys = []" by (metis zip_eq_Nil_iff)
  show "\<exists>s'. oo_next (one_sided_zip_ops a b) st = Ret (None, s')"
  proof (cases xs)
    case Nil
    then obtain s' where "oo_next a (fst st) = Ret (None, s')" using left.next_end r(1) by blast
    then show ?thesis by (simp add: one_sided_zip_ops_def split_beta)
  next
    case (Cons x xs')
    then have "ys = []" using e by simp
    then obtain s' t' where "oo_next a (fst st) = Ret (Some x, s')" "oo_next b (snd st) = Ret (None, t')"
      using left.next_item right.next_end r Cons by blast
    then show ?thesis by (simp add: one_sided_zip_ops_def split_beta)
  qed
next
  fix st z zs assume "\<exists>xs ys. rel_a (fst st) xs \<and> rel_b (snd st) ys \<and> z # zs = zip xs ys"
  then obtain x xs y ys where r: "rel_a (fst st) (x # xs)" "rel_b (snd st) (y # ys)" and z: "z = (x, y)" "zs = zip xs ys"
    by (metis list.distinct(1) list.inject neq_Nil_conv zip_Cons_Cons zip_eq_Nil_iff)
  obtain s' t' where "oo_next a (fst st) = Ret (Some x, s')" "rel_a s' xs" "oo_next b (snd st) = Ret (Some y, t')" "rel_b t' ys"
    using left.next_item [OF r(1)] right.next_item [OF r(2)] by blast
  then show "\<exists>s'. oo_next (one_sided_zip_ops a b) st = Ret (Some z, s') \<and> (\<exists>xs ys. rel_a (fst s') xs \<and> rel_b (snd s') ys \<and> zs = zip xs ys)"
    using z by (auto simp: one_sided_zip_ops_def split_beta)
qed

end

section \<open>The iterators fulfil it\<close>

text \<open>What the iterators rely on: a transfer into a buffer of at most \<open>n\<close> elements is the section of the list (\<open>internal_get\<close>, by \<open>Array_Transfer\<close>).\<close>

definition source_ok :: "(nat \<Rightarrow> 'a list \<Rightarrow> 'a list exec) \<Rightarrow> 'a list \<Rightarrow> nat \<Rightarrow> bool" where
  "source_ok get xs n \<longleftrightarrow> (\<forall>i buf. 0 < length buf \<longrightarrow> length buf \<le> n \<longrightarrow> i + length buf \<le> length xs \<longrightarrow> get i buf = Ret (take (length buf) (drop i xs)))"

lemma source_okD:
  "source_ok get xs n \<Longrightarrow> 0 < length buf \<Longrightarrow> length buf \<le> n \<Longrightarrow> i + length buf \<le> length xs \<Longrightarrow> get i buf = Ret (take (length buf) (drop i xs))"
  unfolding source_ok_def by blast

definition buf_ok :: "'a list \<Rightarrow> 'a one_sided_iter \<Rightarrow> bool" where
  "buf_ok xs s \<longleftrightarrow> os_buf_index s \<le> length (os_buf s)
     \<and> (\<forall>j. os_buf_index s + j < length (os_buf s) \<longrightarrow> os_index s + j < length xs \<longrightarrow> os_buf s ! (os_buf_index s + j) = xs ! (os_index s + j))"

definition iter_rel :: "(nat \<Rightarrow> 'a list \<Rightarrow> 'a list exec) \<Rightarrow> 'a list \<Rightarrow> 'a one_sided_iter \<Rightarrow> 'a list \<Rightarrow> bool" where
  "iter_rel get xs s ys \<longleftrightarrow> source_ok get xs (length (os_buf s)) \<and> 0 < length (os_buf s) \<and> buf_ok xs s \<and> os_index s \<le> length xs \<and> ys = drop (os_index s) xs"

lemma fill_ok:
  assumes "source_ok get xs (length (os_buf s))" "0 < length (os_buf s)" "os_buf_index s = 0" "os_index s < length xs"
  shows "\<exists>buf. one_sided_fill get (length xs) s = Ret (s\<lparr>os_buf := buf\<rparr>) \<and> length buf = length (os_buf s) \<and> buf_ok xs (s\<lparr>os_buf := buf\<rparr>)"
proof (cases "os_index s + length (os_buf s) < length xs")
  case True
  then have "get (os_index s) (os_buf s) = Ret (take (length (os_buf s)) (drop (os_index s) xs))" using assms(1,2) by (simp add: source_ok_def)
  then show ?thesis using True assms(3)
    by (intro exI [of _ "take (length (os_buf s)) (drop (os_index s) xs)"]) (simp add: one_sided_fill_def buf_ok_def)
next
  case False
  let ?k = "length xs - os_index s"
  have k: "0 < ?k" "?k \<le> length (os_buf s)" "os_index s + ?k \<le> length xs" using False assms(4) by simp_all
  then have "get (os_index s) (take ?k (os_buf s)) = Ret (drop (os_index s) xs)" using source_okD [OF assms(1), of "take ?k (os_buf s)" "os_index s"] by simp
  then show ?thesis using False assms(3,4) k
    by (intro exI [of _ "drop (os_index s) xs @ drop ?k (os_buf s)"]) (auto simp: one_sided_fill_def usub_def buf_ok_def nth_append)
qed

interpretation iter_seq: one_sided_seq "one_sided_iter_ops get (length xs)" "iter_rel get xs" for get xs
proof unfold_locales
  fix s :: "'a one_sided_iter" assume "iter_rel get xs s []"
  then show "\<exists>s'. oo_next (one_sided_iter_ops get (length xs)) s = Ret (None, s')"
    by (auto simp: iter_rel_def one_sided_iter_ops_def one_sided_next_def)
next
  fix s :: "'a one_sided_iter" and y ys assume r: "iter_rel get xs s (y # ys)"
  then have i: "os_index s < length xs" "y = xs ! os_index s" "ys = drop (Suc (os_index s)) xs"
    by (auto simp: iter_rel_def) (metis drop_all linorder_not_less list.discI, metis hd_drop_conv_nth drop_all linorder_not_less list.discI list.sel(1), metis drop_Suc list.sel(3) tl_drop)
  have "\<exists>t. (if os_buf_index s = length (os_buf s) then one_sided_fill get (length xs) (s\<lparr>os_buf_index := 0\<rparr>) else Ret s) = Ret t
    \<and> os_index t = os_index s \<and> os_buf_index t < length (os_buf t) \<and> length (os_buf t) = length (os_buf s) \<and> buf_ok xs t"
  proof (cases "os_buf_index s = length (os_buf s)")
    case True
    then show ?thesis using fill_ok [of get xs "s\<lparr>os_buf_index := 0\<rparr>"] r i(1) by (auto simp: iter_rel_def)
  qed (use r in \<open>auto simp: iter_rel_def buf_ok_def\<close>)
  then obtain t where t: "(if os_buf_index s = length (os_buf s) then one_sided_fill get (length xs) (s\<lparr>os_buf_index := 0\<rparr>) else Ret s) = Ret t"
    "os_index t = os_index s" "os_buf_index t < length (os_buf t)" "length (os_buf t) = length (os_buf s)" "buf_ok xs t" by blast
  let ?u = "t\<lparr>os_index := os_index t + 1, os_buf_index := os_buf_index t + 1\<rparr>"
  have "os_buf t ! os_buf_index t = y" using t(2,3,5) i by (auto simp: buf_ok_def dest: spec [of _ 0])
  then have "oo_next (one_sided_iter_ops get (length xs)) s = Ret (Some y, ?u)"
    using t i(1) by (simp add: one_sided_iter_ops_def one_sided_next_def Let_def)
  moreover have "buf_ok xs ?u" using t(3,5) unfolding buf_ok_def by (auto simp: Suc_le_eq dest: spec [of _ "Suc _"])
  ultimately show "\<exists>s'. oo_next (one_sided_iter_ops get (length xs)) s = Ret (Some y, s') \<and> iter_rel get xs s' ys"
    using r t i by (auto simp: iter_rel_def)
qed

interpretation iter_zip: one_sided_pair "one_sided_iter_ops get (length xs)" "iter_rel get xs" "one_sided_iter_ops get' (length xs')" "iter_rel get' xs'" for get xs get' xs'
  by unfold_locales

function chunks_of :: "nat \<Rightarrow> 'a list \<Rightarrow> 'a list list" where
  "chunks_of c xs = (if xs = [] \<or> c = 0 then [] else take c xs # chunks_of c (drop c xs))"
  by pat_completeness auto
termination by (relation "measure (length \<circ> snd)") auto

declare chunks_of.simps [simp del]

lemma drop_chunks_of: "drop k (chunks_of c xs) = chunks_of c (drop (k * c) xs)"
proof (induction k arbitrary: xs)
  case (Suc k)
  show ?case
  proof (cases "xs = [] \<or> c = 0")
    case False
    then have "drop (Suc k) (chunks_of c xs) = drop k (chunks_of c (drop c xs))" by (subst chunks_of.simps) simp
    then show ?thesis using Suc.IH by (simp add: add.commute)
  qed (auto simp: chunks_of.simps [of c "[]"] chunks_of.simps [of 0])
qed simp

lemma concat_chunks_of: "0 < c \<Longrightarrow> concat (chunks_of c xs) = xs"
  by (induction c xs rule: chunks_of.induct) (subst chunks_of.simps, simp)

definition chunks_rel :: "(nat \<Rightarrow> 'a list \<Rightarrow> 'a list exec) \<Rightarrow> (nat \<Rightarrow> 'a list) \<Rightarrow> 'a list \<Rightarrow> nat \<Rightarrow> 's chunks_iter \<Rightarrow> 'a list list \<Rightarrow> bool" where
  "chunks_rel get alloc xs c s ys \<longleftrightarrow> source_ok get xs c \<and> 0 < c \<and> (\<forall>n. length (alloc n) = n) \<and> ys = chunks_of c (drop (ch_index s) xs)"

interpretation chunks_seek: one_sided_seekable "one_sided_chunks_ops get alloc (length xs) c" "chunks_rel get alloc xs c" for get alloc xs c
proof unfold_locales
  fix s :: "'b chunks_iter" assume "chunks_rel get alloc xs c s []"
  then have "length xs \<le> ch_index s" by (auto simp: chunks_rel_def chunks_of.simps split: if_splits)
  then show "\<exists>s'. oo_next (one_sided_chunks_ops get alloc (length xs) c) s = Ret (None, s')" by (simp add: one_sided_chunks_ops_def)
next
  fix s :: "'b chunks_iter" and y ys assume r: "chunks_rel get alloc xs c s (y # ys)"
  let ?n = "min c (length xs - ch_index s)"
  have ys: "y # ys = chunks_of c (drop (ch_index s) xs)" using r by (simp add: chunks_rel_def)
  have i: "ch_index s < length xs" "y = take c (drop (ch_index s) xs)" "ys = chunks_of c (drop c (drop (ch_index s) xs))"
    using ys by (subst (asm) chunks_of.simps; simp split: if_splits)+
  have "get (ch_index s) (alloc ?n) = Ret (take ?n (drop (ch_index s) xs))"
    using r i(1) source_okD [of get xs c "alloc ?n" "ch_index s"] by (simp add: chunks_rel_def)
  moreover have "take ?n (drop (ch_index s) xs) = y" "drop (ch_index s + ?n) xs = drop c (drop (ch_index s) xs)" using i(2) by (simp_all add: min_def add.commute)
  ultimately show "\<exists>s'. oo_next (one_sided_chunks_ops get alloc (length xs) c) s = Ret (Some y, s') \<and> chunks_rel get alloc xs c s' ys"
    using r i by (auto simp: one_sided_chunks_ops_def chunks_rel_def Let_def)
qed (auto simp: one_sided_chunks_ops_def chunks_rel_def drop_chunks_of add.commute)

section \<open>Iterating over an array\<close>

definition array_list :: "lamellar_arch_rt \<Rightarrow> nat \<Rightarrow> unsafe_array_inner \<Rightarrow> 'a pe_mem \<Rightarrow> 'a list" where
  "array_list arch S a M = take (ua_size a) (drop (ua_offset a) (full_view (world_of arch) S a M))"

text \<open>The array and the buffers that are transferred: up to \<open>n\<close> elements on any team, any number on a team whose indices are the PEs of the world.\<close>

definition array_source :: "lamellar_arch_rt \<Rightarrow> nat \<Rightarrow> unsafe_array_inner \<Rightarrow> 'a pe_mem \<Rightarrow> nat \<Rightarrow> nat \<Rightarrow> bool" where
  "array_source arch S a M buf_pe n \<longleftrightarrow> array_mem_ok S a \<and> mem_ok (world_of arch) a M \<and> rt_wf arch \<and> rt_num_pes arch = ad_num_pes (ua_data a)
     \<and> (n * ua_elem_size a \<le> batch_am_size \<or> buf_pe = ad_my_pe (ua_data a) \<and> (\<forall>pe<rt_num_pes arch. world_pe arch pe = Inr pe))"

lemma array_sourceI:
  assumes "array_ok S a" "S * ad_num_pes (ua_data a) \<le> 2 ^ 50"
    "ad_mem_bytes (ua_data a) = f64_ceil_usize (elems_per_pe S (ad_num_pes (ua_data a))) * ua_elem_size a"
    "mem_ok (world_of arch) a M" "rt_wf arch" "rt_num_pes arch = ad_num_pes (ua_data a)"
    "n * ua_elem_size a \<le> 100000 \<or> buf_pe = ad_my_pe (ua_data a) \<and> (\<forall>pe<rt_num_pes arch. world_pe arch pe = Inr pe)"
  shows "array_source arch S a M buf_pe n"
  using assms by (simp add: array_source_def array_mem_ok_def batch_am_size_def)

lemma length_array_list: "array_mem_ok S a \<Longrightarrow> length (array_list arch S a M) = ua_size a"
  by (auto simp: array_list_def array_mem_ok_def array_ok_def full_view_def)

lemma array_source_ok:
  assumes "array_source arch S a M buf_pe n"
  shows "source_ok (internal_get arch a M buf_pe) (array_list arch S a M) n" "length (array_list arch S a M) = ua_size a"
proof -
  show len: "length (array_list arch S a M) = ua_size a" using assms length_array_list by (auto simp: array_source_def)
  have "internal_get arch a M buf_pe i buf = Ret (take (length buf) (drop i (array_list arch S a M)))"
    if "0 < length buf" "length buf \<le> n" "i + length buf \<le> length (array_list arch S a M)" for i buf
  proof -
    have "length buf * ua_elem_size a \<le> batch_am_size \<or> buf_pe = ad_my_pe (ua_data a) \<and> (\<forall>pe<rt_num_pes arch. world_pe arch pe = Inr pe)"
      using assms le_trans [OF mult_le_mono1 [OF that(2)]] unfolding array_source_def by blast
    then have "internal_get arch a M buf_pe i buf = Ret (section_of (world_of arch) S a M i (length buf))"
      using assms that len by (intro internal_get_section) (auto simp: array_source_def)
    moreover have "section_of (world_of arch) S a M i (length buf) = take (length buf) (drop i (array_list arch S a M))"
      using that(3) len by (simp add: section_of_def array_list_def drop_take min_def add.commute)
    ultimately show ?thesis by simp
  qed
  then show "source_ok (internal_get arch a M buf_pe) (array_list arch S a M) n" unfolding source_ok_def by blast
qed

lemma new_rel:
  assumes "source_ok get xs (length buf)" "0 < length buf" "length buf \<le> length xs"
  shows "\<exists>s. one_sided_new get buf = Ret s \<and> iter_rel get xs s xs \<and> os_buf s = take (length buf) xs \<and> os_index s = 0 \<and> os_buf_index s = 0"
  using source_okD [OF assms(1,2) order.refl, of 0] assms by (auto simp: one_sided_new_def iter_rel_def buf_ok_def min_def)



section \<open>Positions outside the buffer\<close>

lemma advance_outside:
  assumes "length (os_buf s) < os_buf_index s + k" "os_index s + k < len"
  shows "\<exists>s'. one_sided_advance get len k s = Ret s' \<and> os_index s' = os_index s + k \<and> one_sided_next get len s' = Panic OutOfBounds"
  using assms by (simp add: one_sided_advance_def one_sided_next_def Let_def)

text \<open>
  C13. \<open>skip\<close> and \<open>step_by\<close> of an iterator over elements leave the buffer.  After skipping more elements than the buffer holds, and fewer than the array has, the next item is read
  outside the buffer.  The iterator that \<open>onesided_iter\<close> makes has a buffer of one element: stepping by two or more yields the first element, and
  reads the second one outside the buffer.
\<close>

theorem one_sided_skip_reads_outside:
  assumes "array_source arch S a M buf_pe (length buf)" "0 < length buf" "length buf < k" "k < ua_size a"
  defines "ops \<equiv> one_sided_iter_ops (internal_get arch a M buf_pe) (ua_size a)"
  shows "\<exists>s. one_sided_new (internal_get arch a M buf_pe) buf = Ret s
    \<and> (\<exists>s'. one_sided_skip_new ops k s = Ret s' \<and> oo_next (one_sided_skip_ops ops) s' = Panic OutOfBounds)
    \<and> (length buf = 1 \<longrightarrow> (\<exists>s'. oo_next (one_sided_step_by_ops ops k) s = Ret (Some (array_list arch S a M ! 0), s')
        \<and> oo_next (one_sided_step_by_ops ops k) s' = Panic OutOfBounds))"
proof -
  let ?g = "internal_get arch a M buf_pe" and ?xs = "array_list arch S a M"
  note A = array_source_ok [OF assms(1)]
  have nz: "0 < ua_size a" using assms(4) by simp
  obtain s where s: "one_sided_new ?g buf = Ret s" "os_buf s = take (length buf) ?xs" "os_index s = 0" "os_buf_index s = 0"
    using new_rel [OF A(1) assms(2)] A(2) assms(3,4) by force
  have len: "length (os_buf s) = length buf" using s(2) A(2) assms(3,4) by simp
  obtain s' where "one_sided_advance ?g (ua_size a) k s = Ret s'" "one_sided_next ?g (ua_size a) s' = Panic OutOfBounds"
    using advance_outside [of s k "ua_size a" ?g] s(3,4) len assms(3,4) by auto
  then have skip: "\<exists>s'. one_sided_skip_new ops k s = Ret s' \<and> oo_next (one_sided_skip_ops ops) s' = Panic OutOfBounds"
    by (simp add: ops_def one_sided_skip_new_def one_sided_skip_ops_def one_sided_iter_ops_def)
  have "\<exists>s'. oo_next (one_sided_step_by_ops ops k) s = Ret (Some (?xs ! 0), s') \<and> oo_next (one_sided_step_by_ops ops k) s' = Panic OutOfBounds"
    if "length buf = 1"
  proof -
    let ?t = "s\<lparr>os_index := 1, os_buf_index := 1\<rparr>"
    have "one_sided_next ?g (ua_size a) s = Ret (Some 0, ?t)" using s(3,4) len that nz by (simp add: one_sided_next_def Let_def)
    moreover have "os_buf s ! 0 = ?xs ! 0" using s(2) that nz A(2) by simp
    ultimately have "oo_next ops s = Ret (Some (?xs ! 0), ?t)" by (simp add: ops_def one_sided_iter_ops_def)
    moreover obtain s' where "one_sided_advance ?g (ua_size a) (k - 1) ?t = Ret s'" "one_sided_next ?g (ua_size a) s' = Panic OutOfBounds"
      using advance_outside [of ?t "k - 1" "ua_size a" ?g] len that assms(3,4) by auto
    ultimately show ?thesis using assms(3) by (simp add: one_sided_step_by_ops_def ops_def one_sided_iter_ops_def usub_def)
  qed
  then show ?thesis using s(1) skip by blast
qed

text \<open>References that are kept: the offsets that \<open>n\<close> calls of \<open>next\<close> return, and the iterator after them.\<close>

primrec one_sided_refs :: "(nat \<Rightarrow> 'a list \<Rightarrow> 'a list exec) \<Rightarrow> nat \<Rightarrow> nat \<Rightarrow> 'a one_sided_iter \<Rightarrow> (nat option list \<times> 'a one_sided_iter) exec" where
  "one_sided_refs get len 0 s = Ret ([], s)"
| "one_sided_refs get len (Suc n) s = ebind (one_sided_next get len s) (\<lambda>(r, s). ebind (one_sided_refs get len n s) (\<lambda>(rs, s). Ret (r # rs, s)))"

lemma refs_unbuffered:
  assumes "source_ok get xs 1" "length (os_buf s) = 1" "os_buf_index s = 1" "os_index s + n \<le> length xs" "0 < os_index s" "os_buf s = [xs ! (os_index s - 1)]"
  shows "\<exists>s'. one_sided_refs get (length xs) n s = Ret (replicate n (Some 0), s') \<and> os_buf s' = [xs ! (os_index s + n - 1)]"
  using assms
proof (induction n arbitrary: s)
  case (Suc n)
  let ?t = "s\<lparr>os_index := os_index s + 1, os_buf := [xs ! os_index s]\<rparr>"
  have "get (os_index s) (os_buf s) = Ret [xs ! os_index s]"
    using source_okD [OF Suc.prems(1), of "os_buf s" "os_index s"] Suc.prems(2,4) by (simp add: take_Suc_conv_app_nth take_Suc hd_drop_conv_nth)
  then have "one_sided_next get (length xs) s = Ret (Some 0, ?t)"
    using Suc.prems by (auto simp: one_sided_next_def one_sided_fill_def usub_def Let_def)
  moreover obtain s' where "one_sided_refs get (length xs) n ?t = Ret (replicate n (Some 0), s')" "os_buf s' = [xs ! (os_index ?t + n - 1)]"
    using Suc.IH [of ?t] Suc.prems by auto
  ultimately show ?case by simp
qed simp

text \<open>
  C14. The references that \<open>onesided_iter\<close> yields do not stay valid: the type lets a program keep them all (\<open>collect\<close>), but they refer to the one element of the
  buffer, which holds the last element of the array at the end of the loop.
\<close>

theorem one_sided_refs_alias:
  assumes "array_source arch S a M buf_pe 1" "length buf = 1" "0 < ua_size a"
  shows "\<exists>s s'. one_sided_new (internal_get arch a M buf_pe) buf = Ret s
    \<and> one_sided_refs (internal_get arch a M buf_pe) (ua_size a) (ua_size a) s = Ret (replicate (ua_size a) (Some 0), s')
    \<and> os_buf s' = [last (array_list arch S a M)]"
proof -
  let ?g = "internal_get arch a M buf_pe" and ?xs = "array_list arch S a M"
  note A = array_source_ok [OF assms(1)]
  obtain n where n: "ua_size a = Suc n" using assms(3) by (cases "ua_size a") auto
  obtain s where s: "one_sided_new ?g buf = Ret s" "os_buf s = take 1 ?xs" "os_index s = 0" "os_buf_index s = 0"
    using new_rel [of ?g ?xs buf] A assms(2,3) by auto
  let ?t = "s\<lparr>os_index := 1, os_buf_index := 1\<rparr>"
  have buf: "os_buf s = [?xs ! 0]" using s(2) A(2) assms(3) by (cases ?xs) auto
  then have "one_sided_next ?g (ua_size a) s = Ret (Some 0, ?t)" using s(3,4) assms(3) by (simp add: one_sided_next_def Let_def)
  moreover obtain s' where "one_sided_refs ?g (length ?xs) n ?t = Ret (replicate n (Some 0), s')" "os_buf s' = [?xs ! n]"
    using refs_unbuffered [OF A(1), of ?t n] buf A(2) n by auto
  moreover have "?xs ! n = last ?xs" using A(2) n by (metis diff_Suc_1 last_conv_nth length_0_conv nat.distinct(1))
  ultimately show ?thesis using s(1) A(2) n by auto
qed

section \<open>Witnesses\<close>

abbreviation example_contents :: "'a \<Rightarrow> 'a pe_mem" where
  "example_contents x \<equiv> \<lambda>_. replicate (f64_ceil_usize (elems_per_pe 10 4)) x"

lemma example_source: "n \<le> 12500 \<Longrightarrow> array_source world4 10 (array_example d) (example_contents x) 2 n"
  using array_example_ok [of d] example_mem [of d x] world4_ok by (simp add: array_source_def example_fields)



theorem one_sided_skip_reads_outside_witness:
  "\<exists>s s'. one_sided_new (internal_get world4 (array_example Block) (example_contents (5::nat)) 2) [0] = Ret s
    \<and> one_sided_skip_new (one_sided_iter_ops (internal_get world4 (array_example Block) (example_contents (5::nat)) 2) 6) 3 s = Ret s'
    \<and> oo_next (one_sided_skip_ops (one_sided_iter_ops (internal_get world4 (array_example Block) (example_contents (5::nat)) 2) 6)) s' = Panic OutOfBounds"
  using one_sided_skip_reads_outside [of world4 10 "array_example Block" "example_contents (5::nat)" 2 "[0]" 3]
    example_source [of 1 Block "5::nat"] by (auto simp: example_fields)

theorem one_sided_refs_alias_witness:
  "\<exists>s s'. one_sided_new (internal_get world4 (array_example Block) (example_contents (5::nat)) 2) [0] = Ret s
    \<and> one_sided_refs (internal_get world4 (array_example Block) (example_contents 5) 2) 6 6 s = Ret (replicate 6 (Some 0), s')"
  using one_sided_refs_alias [of world4 10 "array_example Block" "example_contents (5::nat)" 2 "[0]"]
    example_source [of 1 Block "5::nat"] by (auto simp: example_fields)

end
