(* ===== verification/Array_Ops.thy ===== *)
theory Array_Ops
  imports Array_Rdma "HOL-Library.Multiset"
begin

text \<open>
  Element-wise operations on distributed arrays (\<open>array/operations.rs\<close>, \<open>array/unsafe/operations.rs\<close>, and the active
  messages that \<open>impl/src/array_ops.rs\<close> generates).  The inputs are split among tasks; each task sorts its requests
  into buffers by PE, with the local index in as few bytes as the largest local part needs, and
  sends a message when a buffer is full and at the end; the results are put in the order of the inputs.

  The local part of the (sub-)array on a PE of the team is a list.  The operations of the element type are a
  parameter.  An out-of-bounds index panics, as does a failing operation of the element type.
\<close>

section \<open>Inputs\<close>

text \<open>
  The number of parts an input of at least 1000 elements is split into: \<open>LAMELLAR_BATCH_OP_THREADS\<close>, a quarter of
  \<open>LAMELLAR_THREADS\<close>, or 4.
\<close>

definition op_threads :: "nat option \<Rightarrow> nat option \<Rightarrow> nat" where
  "op_threads batch_op_threads threads = (case batch_op_threads of Some n \<Rightarrow> n | None \<Rightarrow>
     (case threads of Some n \<Rightarrow> max 1 (n div 4) | None \<Rightarrow> 4))"

definition op_parts :: "nat \<Rightarrow> nat \<Rightarrow> nat" where
  "op_parts threads len = (if len < 1000 then 1 else threads)"

text \<open>\<open>[T]::chunks\<close>, for a positive size.\<close>

function slice_chunks :: "nat \<Rightarrow> 'a list \<Rightarrow> 'a list list" where
  "slice_chunks n xs = (if xs = [] \<or> n = 0 then [] else take n xs # slice_chunks n (drop n xs))"
  by auto
termination by (relation "measure (\<lambda>(n, xs). length xs)") auto

declare slice_chunks.simps [simp del]

definition chunks_of :: "nat \<Rightarrow> 'a list \<Rightarrow> 'a list list exec" where
  "chunks_of n xs = (if n = 0 then Panic AssertFailed else Ret (slice_chunks n xs))"

text \<open>\<open>as_op_input\<close> of a value, of a slice (or local data) and of a vector, with the length of the input.\<close>

definition as_op_input_val :: "'a \<Rightarrow> 'a list list \<times> nat" where
  "as_op_input_val v = ([[v]], 1)"

definition as_op_input_slice :: "nat \<Rightarrow> 'a list \<Rightarrow> ('a list list \<times> nat) exec" where
  "as_op_input_slice threads xs = (let len = length xs in
     if len = 0 then Ret ([], len) else
     let num = op_parts threads len in
     ebind (udiv len num) (\<lambda>num_per_batch.
     let iters = map (\<lambda>i. take num_per_batch (drop (i * num_per_batch) xs)) [0..<num] in
     ebind (umod len num_per_batch) (\<lambda>rem.
     Ret (if 0 < rem then iters @ [drop (num * num_per_batch) xs] else iters, len))))"

definition as_op_input_vec :: "nat \<Rightarrow> 'a list \<Rightarrow> ('a list list \<times> nat) exec" where
  "as_op_input_vec threads xs = (let len = length xs in
     if len = 0 then Ret ([], len) else
     ebind (udiv len (op_parts threads len)) (\<lambda>num_per_batch.
     ebind (chunks_of num_per_batch xs) (\<lambda>iters. Ret (iters, len))))"

datatype 'a op_input = In_Value 'a | In_Slice "'a list" | In_Vec "'a list"

fun as_op_input :: "nat \<Rightarrow> 'a op_input \<Rightarrow> ('a list list \<times> nat) exec" where
  "as_op_input threads (In_Value v) = Ret (as_op_input_val v)"
| "as_op_input threads (In_Slice xs) = as_op_input_slice threads xs"
| "as_op_input threads (In_Vec xs) = as_op_input_vec threads xs"

fun input_items :: "'a op_input \<Rightarrow> 'a list" where
  "input_items (In_Value v) = [v]"
| "input_items (In_Slice xs) = xs"
| "input_items (In_Vec xs) = xs"

fun same_kind :: "'a op_input \<Rightarrow> 'b op_input \<Rightarrow> bool" where
  "same_kind (In_Value v) (In_Value w) \<longleftrightarrow> True"
| "same_kind (In_Slice xs) (In_Slice ys) \<longleftrightarrow> True"
| "same_kind (In_Vec xs) (In_Vec ys) \<longleftrightarrow> True"
| "same_kind _ _ \<longleftrightarrow> False"

section \<open>Indices as bytes\<close>

datatype index_size = U8 | U16 | U32 | U64 | Usize

definition index_size_from :: "nat \<Rightarrow> index_size" where
  "index_size_from sz = (if sz \<le> 2 ^ 8 - 1 then U8 else if sz \<le> 2 ^ 16 - 1 then U16 else if sz \<le> 2 ^ 32 - 1 then U32
     else if sz \<le> 2 ^ 64 - 1 then U64 else Usize)"

fun index_size_len :: "index_size \<Rightarrow> nat" where
  "index_size_len U8 = 1"
| "index_size_len U16 = 2"
| "index_size_len U32 = 4"
| "index_size_len U64 = 8"
| "index_size_len Usize = 8"

text \<open>The first bytes of the \<open>usize\<close>, on a little-endian machine.\<close>

definition as_bytes :: "index_size \<Rightarrow> nat \<Rightarrow> nat list" where
  "as_bytes s val = map (\<lambda>b. val div 256 ^ b mod 256) [0..<index_size_len s]"

text \<open>The receiver reads the buffer as a slice of integers of that many bytes.\<close>

definition from_bytes :: "nat list \<Rightarrow> nat" where
  "from_bytes bs = foldr (\<lambda>b acc. b + 256 * acc) bs 0"

definition read_indices :: "nat \<Rightarrow> nat list \<Rightarrow> nat list" where
  "read_indices w bs = map (\<lambda>i. from_bytes (take w (drop (i * w) bs))) [0..<length bs div w]"

text \<open>The index of an \<open>IdxVal\<close> is cast to the integer type.\<close>

definition cast_index :: "index_size \<Rightarrow> nat \<Rightarrow> nat" where
  "cast_index s k = k mod 256 ^ index_size_len s"

section \<open>Operations on an element\<close>

datatype 't array_op_cmd =
    Add | FetchAdd | Sub | FetchSub | Mul | FetchMul | Div | FetchDiv | Rem | FetchRem
  | And | FetchAnd | Or | FetchOr | Xor | FetchXor
  | Store | Load | Swap | Put | Get
  | CompareExchange 't | CompareExchangeEps 't 't
  | Shl | FetchShl | Shr | FetchShr

datatype batch_return_type = ReturnNone | ReturnVals | ReturnResult

text \<open>
  The groups of operations.  The macros generate the messages of an element type with one arm for every command of
  the groups that the type has; a command of another group reaches \<open>unreachable!\<close>.
\<close>

datatype op_type = OpArithmetic | OpBitwise | OpAccess | OpCompEx | OpCompExEps | OpReadOnly | OpShift

text \<open>The groups of the messages that are generated for the element type, if any are, and the operators of the type.\<close>

record 't elem_ops =
  e_optypes :: "op_type list option"
  e_add :: "'t \<Rightarrow> 't \<Rightarrow> 't exec"
  e_sub :: "'t \<Rightarrow> 't \<Rightarrow> 't exec"
  e_mul :: "'t \<Rightarrow> 't \<Rightarrow> 't exec"
  e_div :: "'t \<Rightarrow> 't \<Rightarrow> 't exec"
  e_rem :: "'t \<Rightarrow> 't \<Rightarrow> 't exec"
  e_and :: "'t \<Rightarrow> 't \<Rightarrow> 't exec"
  e_or :: "'t \<Rightarrow> 't \<Rightarrow> 't exec"
  e_xor :: "'t \<Rightarrow> 't \<Rightarrow> 't exec"
  e_shl :: "'t \<Rightarrow> 't \<Rightarrow> 't exec"
  e_shr :: "'t \<Rightarrow> 't \<Rightarrow> 't exec"
  e_eq :: "'t \<Rightarrow> 't \<Rightarrow> bool"
  e_lt :: "'t \<Rightarrow> 't \<Rightarrow> bool"

datatype 't op_res = Val 't | OkRes 't | ErrRes 't

text \<open>The new value of the element and what is pushed to the results.\<close>

type_synonym 't elem_result = "('t \<times> 't op_res list) exec"

definition update :: "('t \<Rightarrow> 't \<Rightarrow> 't exec) \<Rightarrow> 't \<Rightarrow> 't \<Rightarrow> 't elem_result" where
  "update f val x = ebind (f x val) (\<lambda>y. Ret (y, []))"

definition fetch_update :: "('t \<Rightarrow> 't \<Rightarrow> 't exec) \<Rightarrow> 't \<Rightarrow> 't \<Rightarrow> 't elem_result" where
  "fetch_update f val x = ebind (f x val) (\<lambda>y. Ret (y, [Val x]))"

text \<open>
  The operations that return nothing, the old value, or a result, with the arms of the groups \<open>ts\<close>; any other
  command is unreachable code.
\<close>

definition op_arm :: "op_type \<Rightarrow> op_type list \<Rightarrow> 't elem_result \<Rightarrow> 't elem_result" where
  "op_arm t ts r = (if t \<in> set ts then r else Panic ExplicitPanic)"

fun op_none :: "'t elem_ops \<Rightarrow> op_type list \<Rightarrow> 't array_op_cmd \<Rightarrow> 't \<Rightarrow> 't \<Rightarrow> 't elem_result" where
  "op_none E ts Add val x = op_arm OpArithmetic ts (update (e_add E) val x)"
| "op_none E ts Sub val x = op_arm OpArithmetic ts (update (e_sub E) val x)"
| "op_none E ts Mul val x = op_arm OpArithmetic ts (update (e_mul E) val x)"
| "op_none E ts Div val x = op_arm OpArithmetic ts (update (e_div E) val x)"
| "op_none E ts Rem val x = op_arm OpArithmetic ts (update (e_rem E) val x)"
| "op_none E ts Put val x = op_arm OpArithmetic ts (Ret (val, []))"
| "op_none E ts And val x = op_arm OpBitwise ts (update (e_and E) val x)"
| "op_none E ts Or val x = op_arm OpBitwise ts (update (e_or E) val x)"
| "op_none E ts Xor val x = op_arm OpBitwise ts (update (e_xor E) val x)"
| "op_none E ts Store val x = op_arm OpAccess ts (Ret (val, []))"
| "op_none E ts Shl val x = op_arm OpShift ts (update (e_shl E) val x)"
| "op_none E ts Shr val x = op_arm OpShift ts (update (e_shr E) val x)"
| "op_none E ts _ val x = Panic ExplicitPanic"

fun op_vals :: "'t elem_ops \<Rightarrow> op_type list \<Rightarrow> 't array_op_cmd \<Rightarrow> 't \<Rightarrow> 't \<Rightarrow> 't elem_result" where
  "op_vals E ts FetchAdd val x = op_arm OpArithmetic ts (fetch_update (e_add E) val x)"
| "op_vals E ts FetchSub val x = op_arm OpArithmetic ts (fetch_update (e_sub E) val x)"
| "op_vals E ts FetchMul val x = op_arm OpArithmetic ts (fetch_update (e_mul E) val x)"
| "op_vals E ts FetchDiv val x = op_arm OpArithmetic ts (fetch_update (e_div E) val x)"
| "op_vals E ts FetchRem val x = op_arm OpArithmetic ts (fetch_update (e_rem E) val x)"
| "op_vals E ts Get val x = op_arm OpArithmetic ts (Ret (x, [Val x]))"
| "op_vals E ts FetchAnd val x = op_arm OpBitwise ts (fetch_update (e_and E) val x)"
| "op_vals E ts FetchOr val x = op_arm OpBitwise ts (fetch_update (e_or E) val x)"
| "op_vals E ts FetchXor val x = op_arm OpBitwise ts (fetch_update (e_xor E) val x)"
| "op_vals E ts Swap val x = op_arm OpAccess ts (Ret (val, [Val x]))"
| "op_vals E ts Load val x = op_arm OpReadOnly ts (Ret (x, [Val x]))"
| "op_vals E ts FetchShl val x = op_arm OpShift ts (fetch_update (e_shl E) val x)"
| "op_vals E ts FetchShr val x = op_arm OpShift ts (fetch_update (e_shr E) val x)"
| "op_vals E ts _ val x = Panic ExplicitPanic"

fun op_result :: "'t elem_ops \<Rightarrow> op_type list \<Rightarrow> 't array_op_cmd \<Rightarrow> 't \<Rightarrow> 't \<Rightarrow> 't elem_result" where
  "op_result E ts (CompareExchange old) val x = op_arm OpCompEx ts (
     Ret (if e_eq E old x then (val, [OkRes old]) else (x, [ErrRes x])))"
| "op_result E ts (CompareExchangeEps old eps) val x = op_arm OpCompExEps ts (
     ebind (if e_lt E x old then e_sub E old x else e_sub E x old) (\<lambda>d.
     Ret (if e_lt E d eps then (val, [OkRes old]) else (x, [ErrRes x]))))"
| "op_result E ts _ val x = Panic ExplicitPanic"

text \<open>
  \<open>into_am\<close> looks the message up by the element type and the return type, and unwraps \<open>None\<close> when there is none: no message
  of a type for which none are generated, no message with results for a type with neither kind of comparison.
  Every message carries at least one request, so the panic is put at the request.
\<close>

definition op_message :: "'t elem_ops \<Rightarrow> batch_return_type \<Rightarrow> op_type list exec" where
  "op_message E ret = (case e_optypes E of None \<Rightarrow> Panic UnwrapNone | Some ts \<Rightarrow>
     if ret = ReturnResult \<and> OpCompEx \<notin> set ts \<and> OpCompExEps \<notin> set ts then Panic UnwrapNone else Ret ts)"

definition op_elem :: "'t elem_ops \<Rightarrow> batch_return_type \<Rightarrow> 't array_op_cmd \<Rightarrow> 't \<Rightarrow> 't \<Rightarrow> 't elem_result" where
  "op_elem E ret cmd val x = ebind (op_message E ret) (\<lambda>ts. case ret of ReturnNone \<Rightarrow> op_none E ts cmd val x
     | ReturnVals \<Rightarrow> op_vals E ts cmd val x | ReturnResult \<Rightarrow> op_result E ts cmd val x)"

section \<open>Messages\<close>

datatype 't op_am =
    MultiValMultiIdx index_size "(nat \<times> 't) list"
  | SingleValMultiIdx index_size 't "nat list"
  | MultiValSingleIdx nat "'t list"

text \<open>The requests that the receiver finds in a message.\<close>

fun am_requests :: "'t op_am \<Rightarrow> (nat \<times> 't) list" where
  "am_requests (MultiValMultiIdx s idx_vals) = idx_vals"
| "am_requests (SingleValMultiIdx s val indices) = map (\<lambda>k. (k, val)) (read_indices (index_size_len s) indices)"
| "am_requests (MultiValSingleIdx index vals) = map (\<lambda>v. (index, v)) vals"

text \<open>The loop over the requests on the local slice.\<close>

fun op_loop :: "('t \<Rightarrow> 't \<Rightarrow> 't elem_result) \<Rightarrow> (nat \<times> 't) list \<Rightarrow> 't list \<times> 't op_res list \<Rightarrow> ('t list \<times> 't op_res list) exec" where
  "op_loop f [] st = Ret st"
| "op_loop f ((index, val) # rs) (slice, res) = (if index < length slice
     then ebind (f val (slice ! index)) (\<lambda>(x, r). op_loop f rs (slice[index := x], res @ r))
     else Panic OutOfBounds)"

definition exec_op_am :: "'t elem_ops \<Rightarrow> batch_return_type \<Rightarrow> 't array_op_cmd \<Rightarrow> 't op_am \<Rightarrow> 't list \<Rightarrow> ('t list \<times> 't op_res list) exec" where
  "exec_op_am E ret cmd am slice = op_loop (op_elem E ret cmd) (am_requests am) (slice, [])"

section \<open>Requests\<close>

definition place :: "unsafe_array_inner \<Rightarrow> nat \<Rightarrow> (nat \<times> nat) exec" where
  "place a idx = ebind (pe_and_offset_for_global_index a idx) (\<lambda>r.
     case r of None \<Rightarrow> Panic ExplicitPanic | Some p \<Rightarrow> Ret p)"

text \<open>The size of the largest local part decides how indices are sent.\<close>

definition op_index_size :: "unsafe_array_inner \<Rightarrow> index_size exec" where
  "op_index_size a = ebind (emap (num_elems_pe a) [0..<ad_num_pes (ua_data a)]) (\<lambda>ns.
     if ns = [] then Panic UnwrapNone else Ret (index_size_from (Max (set ns))))"

text \<open>
  The buffers of a task: an item is appended to the buffer of its PE, which is sent when it is full.  At
  the end the buffers that are not empty are sent in the order of the PEs.
\<close>

fun batch_loop :: "(nat \<Rightarrow> bool) \<Rightarrow> (nat \<times> 'b) list \<Rightarrow> (nat \<Rightarrow> 'b list) \<Rightarrow> (nat \<times> 'b list) list \<times> (nat \<Rightarrow> 'b list)" where
  "batch_loop full [] B = ([], B)"
| "batch_loop full ((pe, x) # items) B = (let buff = B pe @ [x] in
     if full (length buff)
     then (case batch_loop full items (B(pe := [])) of (ms, B') \<Rightarrow> ((pe, buff) # ms, B'))
     else batch_loop full items (B(pe := buff)))"

definition batches :: "(nat \<Rightarrow> bool) \<Rightarrow> nat \<Rightarrow> (nat \<times> 'b) list \<Rightarrow> (nat \<times> 'b list) list" where
  "batches full num_pes items = (case batch_loop full items (\<lambda>_. []) of (ms, B) \<Rightarrow>
     ms @ map (\<lambda>pe. (pe, B pe)) (filter (\<lambda>pe. B pe \<noteq> []) [0..<num_pes]))"

text \<open>A message with its PE and the positions of its results.\<close>

type_synonym 't op_request = "nat \<times> 't op_am \<times> nat list"

definition single_val_single_index :: "unsafe_array_inner \<Rightarrow> 't \<Rightarrow> nat \<Rightarrow> 't op_request list exec" where
  "single_val_single_index a val index = ebind (place a index) (\<lambda>(pe, local_index).
     Ret [(pe, MultiValMultiIdx Usize [(cast_index Usize local_index, val)], [0])])"

text \<open>The tasks of an operation, each with the position \<open>start_i\<close> of its first input.\<close>

fun with_starts :: "nat \<Rightarrow> 'b list list \<Rightarrow> (nat \<times> 'b list) list" where
  "with_starts start_i [] = []"
| "with_starts start_i (xs # xss) = (start_i, xs) # with_starts (start_i + length xs) xss"

definition one_val_task :: "unsafe_array_inner \<Rightarrow> nat \<Rightarrow> index_size \<Rightarrow> 't \<Rightarrow> nat \<times> nat list \<Rightarrow> 't op_request list exec" where
  "one_val_task a num_per_batch s val = (\<lambda>(start_i, index_vec).
     ebind (emap (\<lambda>(ii, idx). ebind (place a idx) (\<lambda>(pe, local_index). Ret (pe, (local_index, ii + start_i)))) (enumerate 0 index_vec)) (\<lambda>items.
     Ret (map (\<lambda>(pe, buff). (pe, SingleValMultiIdx s val (concat (map (\<lambda>(k, j). as_bytes s k) buff)), map snd buff))
       (batches (\<lambda>n. n * index_size_len s \<ge> num_per_batch) (ad_num_pes (ua_data a)) items))))"

definition one_val_multi_indices :: "unsafe_array_inner \<Rightarrow> nat \<Rightarrow> index_size \<Rightarrow> 't \<Rightarrow> nat list list \<Rightarrow> 't op_request list exec" where
  "one_val_multi_indices a num_per_batch s val indices =
     ebind (emap (one_val_task a num_per_batch s val) (with_starts 0 indices)) (\<lambda>rs. Ret (concat rs))"

definition one_index_task :: "nat \<Rightarrow> nat \<Rightarrow> nat \<Rightarrow> nat \<times> 't list \<Rightarrow> 't op_request list exec" where
  "one_index_task num_per_batch pe local_index = (\<lambda>(start_i, vals).
     ebind (chunks_of num_per_batch vals) (\<lambda>val_chunks.
     Ret (map (\<lambda>(st, vs). (pe, MultiValSingleIdx local_index vs, [st..<st + length vs])) (with_starts start_i val_chunks))))"

definition multi_val_one_index :: "unsafe_array_inner \<Rightarrow> nat \<Rightarrow> 't list list \<Rightarrow> nat \<Rightarrow> 't op_request list exec" where
  "multi_val_one_index a num_per_batch vals index = ebind (place a index) (\<lambda>(pe, local_index).
     ebind (emap (one_index_task num_per_batch pe local_index) (with_starts 0 vals)) (\<lambda>rs. Ret (concat rs)))"

definition multi_val_task :: "unsafe_array_inner \<Rightarrow> nat \<Rightarrow> index_size \<Rightarrow> (nat \<times> nat list) \<times> 't list \<Rightarrow> 't op_request list exec" where
  "multi_val_task a num_per_batch s = (\<lambda>((start_i, index_vec), vals_vec).
     ebind (emap (\<lambda>(ii, idx, val). ebind (place a idx) (\<lambda>(pe, local_index). Ret (pe, ((cast_index s local_index, val), ii + start_i))))
       (enumerate 0 (zip index_vec vals_vec))) (\<lambda>items.
     Ret (map (\<lambda>(pe, buff). (pe, MultiValMultiIdx s (map fst buff), map snd buff))
       (batches (\<lambda>n. n \<ge> num_per_batch) (ad_num_pes (ua_data a)) items))))"

text \<open>
  The caller waits until as many tasks have run as there are parts of the values, although there is a
  task only for every pair of parts.  \<open>None\<close> says that it waits forever.
\<close>

definition multi_val_multi_index ::
  "unsafe_array_inner \<Rightarrow> nat \<Rightarrow> index_size \<Rightarrow> 't list list \<Rightarrow> nat list list \<Rightarrow> 't op_request list option exec" where
  "multi_val_multi_index a num_per_batch s vals indices =
     ebind (emap (multi_val_task a num_per_batch s) (zip (with_starts 0 indices) vals)) (\<lambda>rs.
     Ret (if length rs < length vals then None else Some (concat rs)))"

text \<open>
  The common part of \<open>initiate_batch_op\<close>, \<open>initiate_batch_fetch_op_2\<close> and \<open>initiate_batch_result_op_2\<close>: the messages of the
  operation for inputs with their parts and lengths.
\<close>

definition batch_requests ::
  "unsafe_array_inner \<Rightarrow> nat \<Rightarrow> 't list list \<times> nat \<Rightarrow> nat list list \<times> nat \<Rightarrow> 't op_request list option exec" where
  "batch_requests a num_per_batch val index = (case val of (vals, v_len) \<Rightarrow> case index of (indices, i_len) \<Rightarrow>
     ebind (op_index_size a) (\<lambda>s.
     if v_len = 1 \<and> i_len = 1 then ebind (single_val_single_index a (hd (hd vals)) (hd (hd indices))) (\<lambda>rs. Ret (Some rs))
     else if v_len > 1 \<and> i_len = 1 then ebind (multi_val_one_index a num_per_batch vals (hd (hd indices))) (\<lambda>rs. Ret (Some rs))
     else if v_len = 1 \<and> i_len > 1 then ebind (one_val_multi_indices a num_per_batch s (hd (hd vals)) indices) (\<lambda>rs. Ret (Some rs))
     else if v_len > 1 \<and> i_len > 1 then multi_val_multi_index a num_per_batch s vals indices
     else Ret (Some [])))"

section \<open>Execution\<close>

text \<open>
  The messages run one after the other, in some order; the results come with their positions.  For \<open>LocalLockArray\<close> and
  \<open>GlobalLockArray\<close> the message holds the lock of the local data while it runs.  The messages of \<open>UnsafeArray\<close> take no lock: for
  them this is the behaviour when no two messages run at the same time on a PE, which the caller of an unsafe array has to
  ensure.
\<close>

definition exec_request ::
  "'t elem_ops \<Rightarrow> batch_return_type \<Rightarrow> 't array_op_cmd \<Rightarrow> 't op_request \<Rightarrow> (nat \<Rightarrow> 't list) \<times> (nat \<times> 't op_res) list \<Rightarrow>
   ((nat \<Rightarrow> 't list) \<times> (nat \<times> 't op_res) list) exec" where
  "exec_request E ret cmd r st = (case r of (pe, am, idxs) \<Rightarrow> case st of (L, out) \<Rightarrow>
     ebind (exec_op_am E ret cmd am (L pe)) (\<lambda>(slice, res). Ret (L(pe := slice), out @ zip idxs res)))"

text \<open>
  The requests of a message one by one.  The messages of a \<open>GenericAtomicArray\<close> lock an element for each of its operations and
  those of a \<open>NativeAtomicArray\<close> use atomic instructions, so that messages which run at the same time interleave by request.
\<close>

definition split_request :: "'t op_request \<Rightarrow> 't op_request list" where
  "split_request r = (case r of (pe, am, idxs) \<Rightarrow>
     map (\<lambda>(iv, j). (pe, MultiValMultiIdx Usize [iv], [j])) (zip (am_requests am) idxs))"

text \<open>
  The vector of results has the length of the longer input.  It is not initialized (\<open>None\<close>); the
  results are written to their positions.
\<close>

definition collect_results :: "nat \<Rightarrow> nat \<Rightarrow> (nat \<times> 't op_res) list \<Rightarrow> 't op_res option list exec" where
  "collect_results v_len i_len out = efold (\<lambda>(i, v) results.
     if i < length results then Ret (results[i := Some v]) else Panic OutOfBounds) out (replicate (max i_len v_len) None)"

definition run_batch ::
  "'t elem_ops \<Rightarrow> batch_return_type \<Rightarrow> 't array_op_cmd \<Rightarrow> nat \<Rightarrow> nat \<Rightarrow> 't op_request list \<Rightarrow> (nat \<Rightarrow> 't list) \<Rightarrow>
   ((nat \<Rightarrow> 't list) \<times> 't op_res option list) exec" where
  "run_batch E ret cmd v_len i_len sched L = ebind (efold (exec_request E ret cmd) sched (L, [])) (\<lambda>(L', out).
     ebind (if ret = ReturnNone then Ret [] else collect_results v_len i_len out) (\<lambda>results. Ret (L', results)))"

section \<open>Methods\<close>

text \<open>
  The methods of the traits: the command that a method (or its batched version) starts and what it
  returns.  The type parameter of \<open>array_op_cmd\<close> is the element type.
\<close>

datatype arithmetic_method = M_add | M_fetch_add | M_sub | M_fetch_sub | M_mul | M_fetch_mul | M_div | M_fetch_div | M_rem | M_fetch_rem

fun arithmetic_ops :: "arithmetic_method \<Rightarrow> batch_return_type \<times> 't array_op_cmd" where
  "arithmetic_ops M_add = (ReturnNone, Add)"
| "arithmetic_ops M_fetch_add = (ReturnVals, FetchAdd)"
| "arithmetic_ops M_sub = (ReturnNone, Sub)"
| "arithmetic_ops M_fetch_sub = (ReturnVals, FetchSub)"
| "arithmetic_ops M_mul = (ReturnNone, Mul)"
| "arithmetic_ops M_fetch_mul = (ReturnVals, FetchMul)"
| "arithmetic_ops M_div = (ReturnNone, Div)"
| "arithmetic_ops M_fetch_div = (ReturnVals, FetchDiv)"
| "arithmetic_ops M_rem = (ReturnNone, Rem)"
| "arithmetic_ops M_fetch_rem = (ReturnVals, FetchRem)"

datatype bitwise_method = M_bit_and | M_fetch_bit_and | M_bit_or | M_fetch_bit_or | M_bit_xor | M_fetch_bit_xor

fun bitwise_ops :: "bitwise_method \<Rightarrow> batch_return_type \<times> 't array_op_cmd" where
  "bitwise_ops M_bit_and = (ReturnNone, And)"
| "bitwise_ops M_fetch_bit_and = (ReturnVals, FetchAnd)"
| "bitwise_ops M_bit_or = (ReturnNone, Or)"
| "bitwise_ops M_fetch_bit_or = (ReturnVals, FetchOr)"
| "bitwise_ops M_bit_xor = (ReturnNone, Xor)"
| "bitwise_ops M_fetch_bit_xor = (ReturnVals, FetchXor)"

datatype shift_method = M_shl | M_fetch_shl | M_shr | M_fetch_shr

fun shift_ops :: "shift_method \<Rightarrow> batch_return_type \<times> 't array_op_cmd" where
  "shift_ops M_shl = (ReturnNone, Shl)"
| "shift_ops M_fetch_shl = (ReturnVals, FetchShl)"
| "shift_ops M_shr = (ReturnNone, Shr)"
| "shift_ops M_fetch_shr = (ReturnVals, FetchShr)"

datatype access_method = M_store | M_swap

fun access_ops :: "access_method \<Rightarrow> batch_return_type \<times> 't array_op_cmd" where
  "access_ops M_store = (ReturnNone, Store)"
| "access_ops M_swap = (ReturnVals, Swap)"

definition read_only_ops :: "batch_return_type \<times> 't array_op_cmd" where
  "read_only_ops = (ReturnVals, Load)"

definition compare_exchange_ops :: "'t \<Rightarrow> batch_return_type \<times> 't array_op_cmd" where
  "compare_exchange_ops current = (ReturnResult, CompareExchange current)"

definition compare_exchange_epsilon_ops :: "'t \<Rightarrow> 't \<Rightarrow> batch_return_type \<times> 't array_op_cmd" where
  "compare_exchange_epsilon_ops current eps = (ReturnResult, CompareExchangeEps current eps)"

datatype 't op_method =
    Arithmetic arithmetic_method | Bitwise bitwise_method | Shift shift_method | Access access_method
  | Load_Method | Compare_Exchange 't | Compare_Exchange_Epsilon 't 't

text \<open>
  The element types: those that the runtime generates operations for, with whether they have bitwise operations and
  are \<open>Eq\<close>; \<open>bool\<close>; those with \<open>derive(ArrayOps)\<close> and its attributes; and the \<open>Option\<close> of an element type, which is \<open>Dist\<close> and
  \<open>ArrayOps\<close> itself.
\<close>

datatype op_attr = A_Arithmetic | A_CompExEps | A_CompEx | A_Bitwise | A_Shift | A_All

fun attr_op_types :: "op_attr \<Rightarrow> op_type list" where
  "attr_op_types A_Arithmetic = [OpArithmetic]"
| "attr_op_types A_CompExEps = [OpCompExEps]"
| "attr_op_types A_CompEx = [OpCompEx]"
| "attr_op_types A_Bitwise = [OpBitwise]"
| "attr_op_types A_Shift = [OpShift]"
| "attr_op_types A_All = [OpArithmetic, OpCompEx, OpCompExEps, OpBitwise, OpShift]"

datatype elem_type = Generated bool bool | Bool_Type | Derived "op_attr list" | Option_Of elem_type

text \<open>The groups of the messages that the macros generate for an element type.\<close>

fun generated_ops :: "elem_type \<Rightarrow> op_type list option" where
  "generated_ops (Generated bitwise impl_eq) = Some ([OpReadOnly, OpAccess, OpArithmetic, OpCompExEps] @
     (if bitwise then [OpBitwise, OpShift] else []) @ (if impl_eq then [OpCompEx] else []))"
| "generated_ops Bool_Type = Some [OpReadOnly, OpAccess, OpCompEx, OpBitwise]"
| "generated_ops (Derived attrs) = Some ([OpReadOnly, OpAccess] @ concat (map attr_op_types attrs))"
| "generated_ops (Option_Of (Generated bitwise impl_eq)) = Some ([OpReadOnly, OpAccess] @ (if impl_eq then [OpCompEx] else []))"
| "generated_ops (Option_Of _) = None"

text \<open>
  The traits that an element type has, named by the group of their methods: \<open>ElementOps\<close>, which every element type has,
  is what \<open>ReadOnlyOps\<close> and \<open>AccessOps\<close> need; the others are implemented by the macros.
\<close>

fun element_traits :: "elem_type \<Rightarrow> op_type list" where
  "element_traits (Generated bitwise impl_eq) = [OpReadOnly, OpAccess, OpArithmetic, OpCompExEps] @
     (if bitwise then [OpBitwise, OpShift] else []) @ (if impl_eq then [OpCompEx] else [])"
| "element_traits Bool_Type = [OpReadOnly, OpAccess, OpBitwise, OpCompEx]"
| "element_traits (Derived attrs) = [OpReadOnly, OpAccess] @ concat (map attr_op_types attrs)"
| "element_traits (Option_Of (Generated bitwise impl_eq)) = [OpReadOnly, OpAccess, OpCompExEps] @ (if impl_eq then [OpCompEx] else [])"
| "element_traits (Option_Of _) = [OpReadOnly, OpAccess]"

text \<open>The group of a method.\<close>

fun method_type :: "'t op_method \<Rightarrow> op_type" where
  "method_type (Arithmetic m) = OpArithmetic"
| "method_type (Bitwise m) = OpBitwise"
| "method_type (Shift m) = OpShift"
| "method_type (Access m) = OpAccess"
| "method_type Load_Method = OpReadOnly"
| "method_type (Compare_Exchange current) = OpCompEx"
| "method_type (Compare_Exchange_Epsilon current eps) = OpCompExEps"

fun method_cmd :: "'t op_method \<Rightarrow> batch_return_type \<times> 't array_op_cmd" where
  "method_cmd (Arithmetic m) = arithmetic_ops m"
| "method_cmd (Bitwise m) = bitwise_ops m"
| "method_cmd (Shift m) = shift_ops m"
| "method_cmd (Access m) = access_ops m"
| "method_cmd Load_Method = read_only_ops"
| "method_cmd (Compare_Exchange current) = compare_exchange_ops current"
| "method_cmd (Compare_Exchange_Epsilon current eps) = compare_exchange_epsilon_ops current eps"

text \<open>A method for one element is the batch of one value at one index, whose only result it returns.\<close>

definition element_op ::
  "unsafe_array_inner \<Rightarrow> nat \<Rightarrow> 't elem_ops \<Rightarrow> 't op_method \<Rightarrow> nat \<Rightarrow> 't \<Rightarrow> (nat \<Rightarrow> 't list) \<Rightarrow>
   ((nat \<Rightarrow> 't list) \<times> 't op_res option) option exec" where
  "element_op a num_per_batch E m index val L = (case method_cmd m of (ret, cmd) \<Rightarrow>
     ebind (batch_requests a num_per_batch (as_op_input_val val) (as_op_input_val index)) (\<lambda>rs. case rs of None \<Rightarrow> Ret None | Some rs \<Rightarrow>
     ebind (run_batch E ret cmd 1 1 rs L) (\<lambda>(L', results).
     if ret = ReturnNone then Ret (Some (L', None))
     else case results of [] \<Rightarrow> Panic OutOfBounds | r # _ \<Rightarrow> Ret (Some (L', r)))))"

end
