(* ===== verification/Array_Batches.thy ===== *)
theory Array_Batches
  imports Array_Ops Array_Transfer
begin

text \<open>
  Correctness of the element-wise operations.  The messages that an operation sends are exactly the requests
  that its inputs stand for, each to the PE that holds its element, whatever the sizes of the parts and of the
  buffers; the messages, executed in any order, do what the requests do one by one on the list of all
  elements.  The theorems on single operations follow from this.
\<close>

section \<open>Indices as bytes\<close>

lemma from_bytes_digits: "from_bytes (map (\<lambda>b. k div 256 ^ b mod 256) [0..<n]) = k mod 256 ^ n"
proof (induction n arbitrary: k)
  case (Suc n)
  have "map (\<lambda>b. k div 256 ^ b mod 256) [0..<Suc n] = k mod 256 # map (\<lambda>b. (k div 256) div 256 ^ b mod 256) [0..<n]"
    by (simp add: upt_conv_Cons map_Suc_upt [symmetric] div_mult2_eq del: upt_Suc)
  then show ?case using Suc [of "k div 256"] by (simp add: from_bytes_def mod_mult2_eq)
qed (simp add: from_bytes_def)

lemma length_as_bytes [simp]: "length (as_bytes s k) = index_size_len s"
  by (simp add: as_bytes_def)

lemma index_size_len_pos [simp]: "0 < index_size_len s"
  by (cases s) simp_all

lemma from_as_bytes [simp]: "k < 256 ^ index_size_len s \<Longrightarrow> from_bytes (as_bytes s k) = k"
  by (simp add: as_bytes_def from_bytes_digits)

lemma cast_index_id [simp]: "k < 256 ^ index_size_len s \<Longrightarrow> cast_index s k = k"
  by (simp add: cast_index_def)

lemma read_indices_Nil [simp]: "read_indices w [] = []"
  by (simp add: read_indices_def)

lemma read_indices_append:
  assumes "length bs = w" "0 < w"
  shows "read_indices w (bs @ cs) = from_bytes bs # read_indices w cs"
proof -
  have "map (\<lambda>i. from_bytes (take w (drop (i * w) (bs @ cs)))) [0..<Suc n]
      = from_bytes bs # map (\<lambda>i. from_bytes (take w (drop (i * w) cs))) [0..<n]" for n
    using assms by (simp add: upt_conv_Cons map_Suc_upt [symmetric] drop_append del: upt_Suc)
  moreover have "length (bs @ cs) div w = Suc (length cs div w)" using assms by simp
  ultimately show ?thesis by (simp only: read_indices_def)
qed

lemma read_indices_concat:
  "(\<And>k. k \<in> set ks \<Longrightarrow> k < 256 ^ index_size_len s) \<Longrightarrow> read_indices (index_size_len s) (concat (map (as_bytes s) ks)) = ks"
  by (induction ks) (simp_all add: read_indices_append)

lemma index_size_from_fits:
  assumes "k < sz" "sz < 2 ^ 64"
  shows "k < 256 ^ index_size_len (index_size_from sz)"
  using assms by (auto simp: index_size_from_def)

section \<open>Buffers\<close>

definition flat_batches :: "(nat \<times> 'b list) list \<Rightarrow> (nat \<times> 'b) list" where
  "flat_batches ms = concat (map (\<lambda>(pe, buff). map (Pair pe) buff) ms)"

lemma flat_batches_simps [simp]:
  "flat_batches [] = []"
  "flat_batches ((pe, buff) # ms) = map (Pair pe) buff @ flat_batches ms"
  "flat_batches (ms @ ms') = flat_batches ms @ flat_batches ms'"
  by (simp_all add: flat_batches_def)

text \<open>For every PE, what was sent and what is still in its buffer is what was requested, in order.\<close>

lemma batch_loop_of_pe:
  "batch_loop full items B = (ms, B') \<Longrightarrow>
     map snd (filter (\<lambda>r. fst r = pe) (flat_batches ms)) @ B' pe = B pe @ map snd (filter (\<lambda>r. fst r = pe) items)"
proof (induction items arbitrary: B ms)
  case (Cons item items)
  obtain q x where item: "item = (q, x)" by fastforce
  show ?case
  proof (cases "full (length (B q @ [x]))")
    case True
    with Cons.prems obtain ms' where "batch_loop full items (B(q := [])) = (ms', B')" "ms = (q, B q @ [x]) # ms'"
      by (auto simp: item split: prod.splits)
    with Cons.IH show ?thesis by (simp add: item filter_map o_def)
  next
    case False
    with Cons.prems have "batch_loop full items (B(q := B q @ [x])) = (ms, B')" by (simp add: item)
    with Cons.IH show ?thesis by (simp add: item)
  qed
qed simp

lemma flat_batches_rest:
  "map snd (filter (\<lambda>r. fst r = pe) (flat_batches (map (\<lambda>p. (p, B p)) ps))) = concat (map (\<lambda>p. if p = pe then B p else []) ps)"
  by (induction ps) (simp_all add: filter_map o_def)

lemma concat_single: "distinct ps \<Longrightarrow> concat (map (\<lambda>p. if p = pe then f p else []) ps) = (if pe \<in> set ps then f pe else [])"
  by (induction ps) auto

lemma batches_of_pe:
  assumes "pe < num_pes"
  shows "map snd (filter (\<lambda>r. fst r = pe) (flat_batches (batches full num_pes items))) = map snd (filter (\<lambda>r. fst r = pe) items)"
proof -
  obtain ms B where r: "batch_loop full items (\<lambda>_. []) = (ms, B)" by fastforce
  have "concat (map (\<lambda>p. if p = pe then B p else []) (filter (\<lambda>p. B p \<noteq> []) [0..<num_pes])) = B pe"
    using assms by (simp add: concat_single)
  with batch_loop_of_pe [OF r, of pe] show ?thesis by (simp add: batches_def r flat_batches_rest)
qed

lemma batch_loop_pes:
  "batch_loop full items B = (ms, B') \<Longrightarrow> fst ` set ms \<subseteq> fst ` set items"
proof (induction items arbitrary: B ms)
  case (Cons item items)
  obtain q x where item: "item = (q, x)" by fastforce
  show ?case
  proof (cases "full (length (B q @ [x]))")
    case True
    with Cons.prems obtain ms' where "batch_loop full items (B(q := [])) = (ms', B')" "ms = (q, B q @ [x]) # ms'"
      by (auto simp: item split: prod.splits)
    from Cons.IH [OF this(1)] this(2) show ?thesis by (auto simp: item)
  next
    case False
    with Cons.prems have "batch_loop full items (B(q := B q @ [x])) = (ms, B')" by (simp add: item)
    from Cons.IH [OF this] show ?thesis by (auto simp: item)
  qed
qed simp

lemma batches_pes:
  assumes "fst ` set items \<subseteq> {..<num_pes}"
  shows "fst ` set (batches full num_pes items) \<subseteq> {..<num_pes}"
proof -
  obtain ms B where r: "batch_loop full items (\<lambda>_. []) = (ms, B)" by fastforce
  from batch_loop_pes [OF r] assms show ?thesis by (auto simp: batches_def r)
qed

lemma count_pairs: "count (mset rs) (pe, x) = count (mset (map snd (filter (\<lambda>r. fst r = pe) rs))) x"
  by (induction rs) auto

lemma flat_batches_pes: "(pe, x) \<in> set (flat_batches ms) \<Longrightarrow> pe \<in> fst ` set ms"
  by (force simp: flat_batches_def)

lemma flat_batches_in: "(pe, buff) \<in> set ms \<Longrightarrow> x \<in> set buff \<Longrightarrow> (pe, x) \<in> set (flat_batches ms)"
  by (force simp: flat_batches_def)

lemma batches_mset:
  fixes items :: "(nat \<times> 'b) list"
  assumes "fst ` set items \<subseteq> {..<num_pes}"
  shows "mset (flat_batches (batches full num_pes items)) = mset items"
proof (rule multiset_eqI)
  fix r :: "nat \<times> 'b"
  obtain pe x where r: "r = (pe, x)" by fastforce
  show "count (mset (flat_batches (batches full num_pes items))) r = count (mset items) r"
  proof (cases "pe < num_pes")
    case False
    with assms have "(pe, x) \<notin> set items" by force
    moreover have "(pe, x) \<notin> set (flat_batches (batches full num_pes items))"
      using False subsetD [OF batches_pes [OF assms] flat_batches_pes [of pe x]] by auto
    ultimately show ?thesis unfolding r by (metis count_eq_zero_iff set_mset_mset)
  qed (simp add: r count_pairs batches_of_pe)
qed

section \<open>The requests of an operation\<close>

text \<open>The requests that inputs stand for: a single value or a single index is used for all of the other input.\<close>

definition batch_reqs :: "'t list \<Rightarrow> nat list \<Rightarrow> (nat \<times> 't) list" where
  "batch_reqs vs is = (if length vs = 1 then map (\<lambda>i. (i, hd vs)) is else if length is = 1 then map (Pair (hd is)) vs else zip is vs)"

text \<open>A message carries the requests of its positions, to the PE that holds their elements.\<close>

definition home :: "unsafe_array_inner \<Rightarrow> nat \<Rightarrow> nat" where
  "home a i = dist_owner a (ua_offset a + i)"

definition request_ok :: "unsafe_array_inner \<Rightarrow> (nat \<times> 't) list \<Rightarrow> 't op_request \<Rightarrow> bool" where
  "request_ok a reqs r = (case r of (pe, am, js) \<Rightarrow>
     am_requests am = map (\<lambda>j. (rank a pe (fst (reqs ! j)), snd (reqs ! j))) js \<and>
     (\<forall>j \<in> set js. j < length reqs \<and> fst (reqs ! j) \<in> owned a pe))"

abbreviation positions :: "'t op_request list \<Rightarrow> nat list" where
  "positions rs \<equiv> concat (map (\<lambda>r. snd (snd r)) rs)"

lemma in_owned_home: "i < ua_size a \<Longrightarrow> i \<in> owned a (home a i)"
  by (simp add: owned_def home_def)

lemma place_eq: "array_ok S a \<Longrightarrow> i < ua_size a \<Longrightarrow> place a i = Ret (home a i, rank a (home a i) i)"
  by (simp add: place_def index_place home_def)

lemma home_less: "array_ok S a \<Longrightarrow> i < ua_size a \<Longrightarrow> home a i < ad_num_pes (ua_data a)"
  by (simp add: home_def index_owner_less)

lemma card_owned_le: "card (owned a pe) \<le> ua_size a"
  using card_mono [of "{..<ua_size a}" "owned a pe"] by (auto simp: owned_def)

lemma size_less: "array_ok S a \<Longrightarrow> ua_size a < 2 ^ 64"
  by (simp add: array_ok_def layout_ok_def)

lemma op_index_size_fits:
  assumes "array_ok S a"
  obtains s where "op_index_size a = Ret s"
    "\<And>i. i < ua_size a \<Longrightarrow> rank a (home a i) i < 256 ^ index_size_len s"
proof -
  let ?P = "ad_num_pes (ua_data a)"
  let ?ns = "map (\<lambda>pe. card (owned a pe)) [0..<?P]"
  have P: "0 < ?P" using assms(1) by (simp add: array_ok_def)
  have "emap (num_elems_pe a) [0..<?P] = Ret ?ns" by (rule emap_eq) (simp add: num_elems_card [OF assms(1)])
  then have s: "op_index_size a = Ret (index_size_from (Max (set ?ns)))" using P by (simp add: op_index_size_def)
  have "Max (set ?ns) < 2 ^ 64" using P size_less [OF assms] card_owned_le by (subst Max_less_iff) (auto intro: le_less_trans)
  moreover have "rank a (home a i) i < Max (set ?ns)" if "i < ua_size a" for i
  proof -
    have "card (owned a (home a i)) \<le> Max (set ?ns)" using home_less [OF assms(1) that] by (intro Max_ge) auto
    with rank_less [OF in_owned_home [OF that]] show ?thesis by simp
  qed
  ultimately have "rank a (home a i) i < 256 ^ index_size_len (index_size_from (Max (set ?ns)))" if "i < ua_size a" for i
    using that index_size_from_fits by blast
  with s that show thesis by blast
qed

text \<open>Messages that make up the requests of the given positions.\<close>

definition requests_for :: "unsafe_array_inner \<Rightarrow> (nat \<times> 't) list \<Rightarrow> nat list \<Rightarrow> 't op_request list \<Rightarrow> bool" where
  "requests_for a reqs js rs \<longleftrightarrow> (\<forall>r \<in> set rs. request_ok a reqs r) \<and> mset (positions rs) = mset js"

lemma batches_requests_for:
  assumes "array_ok S a" "\<And>j. j \<in> set js \<Longrightarrow> j < length reqs \<and> fst (reqs ! j) < ua_size a"
    and mk: "\<And>pe js'. set js' \<subseteq> set js \<Longrightarrow> (\<And>j. j \<in> set js' \<Longrightarrow> home a (fst (reqs ! j)) = pe) \<Longrightarrow>
      am_requests (mk (map (\<lambda>j. (g j, j)) js')) = map (\<lambda>j. (rank a pe (fst (reqs ! j)), snd (reqs ! j))) js'"
  shows "requests_for a reqs js (map (\<lambda>(pe, buff). (pe, mk buff, map snd buff))
    (batches full (ad_num_pes (ua_data a)) (map (\<lambda>j. (home a (fst (reqs ! j)), (g j, j))) js)))"
proof -
  let ?items = "map (\<lambda>j. (home a (fst (reqs ! j)), (g j, j))) js"
  let ?bs = "batches full (ad_num_pes (ua_data a)) ?items"
  have ms: "mset (flat_batches ?bs) = mset ?items"
    by (rule batches_mset) (use assms(2) home_less [OF assms(1)] in auto)
  have "request_ok a reqs (pe, mk buff, map snd buff)" if b: "(pe, buff) \<in> set ?bs" for pe buff
  proof -
    have "(pe, x) \<in> set ?items" if "x \<in> set buff" for x
      using flat_batches_in [OF b that] mset_eq_setD [OF ms] by blast
    then have el: "snd x \<in> set js \<and> x = (g (snd x), snd x) \<and> home a (fst (reqs ! snd x)) = pe" if "x \<in> set buff" for x
      using that by fastforce
    then have "buff = map (\<lambda>j. (g j, j)) (map snd buff)" by (simp add: map_idI)
    moreover have "am_requests (mk (map (\<lambda>j. (g j, j)) (map snd buff)))
      = map (\<lambda>j. (rank a pe (fst (reqs ! j)), snd (reqs ! j))) (map snd buff)"
      by (rule mk) (use el in auto)
    moreover have "j < length reqs \<and> fst (reqs ! j) \<in> owned a pe" if "j \<in> set (map snd buff)" for j
    proof -
      from that el have "j \<in> set js" "home a (fst (reqs ! j)) = pe" by auto
      with assms(2) in_owned_home [of "fst (reqs ! j)" a] show ?thesis by auto
    qed
    ultimately show ?thesis unfolding request_ok_def by simp
  qed
  moreover have "positions (map (\<lambda>(pe, buff). (pe, mk buff, map snd buff)) ms') = map (\<lambda>r. snd (snd r)) (flat_batches ms')" for ms'
    by (induction ms') auto
  moreover have "mset (map (\<lambda>r. snd (snd r)) (flat_batches ?bs)) = mset js"
    using ms by (simp add: multiset.map_comp o_def)
  ultimately show ?thesis by (auto simp: requests_for_def)
qed

lemma requests_for_append:
  "requests_for a reqs js rs \<Longrightarrow> requests_for a reqs js' rs' \<Longrightarrow> requests_for a reqs (js @ js') (rs @ rs')"
  by (auto simp: requests_for_def)

lemma requests_for_Nil [simp]: "requests_for a reqs [] []"
  by (simp add: requests_for_def)

lemma tasks_requests_for:
  assumes "reqs = pre @ concat parts"
    and "\<And>st part. st + length part \<le> length reqs \<Longrightarrow> part = take (length part) (drop st reqs) \<Longrightarrow> part \<in> set parts \<Longrightarrow>
      \<exists>rs. task (st, part) = Ret rs \<and> requests_for a reqs [st..<st + length part] rs"
  shows "\<exists>rs. emap task (with_starts (length pre) parts) = Ret rs \<and> requests_for a reqs [length pre..<length reqs] (concat rs)"
  using assms
proof (induction parts arbitrary: pre)
  case (Cons part parts)
  obtain rs where rs: "task (length pre, part) = Ret rs" "requests_for a reqs [length pre..<length pre + length part] rs"
    using Cons.prems(2) [of "length pre" part] Cons.prems(1) by auto
  obtain rss where rss: "emap task (with_starts (length (pre @ part)) parts) = Ret rss"
    "requests_for a reqs [length (pre @ part)..<length reqs] (concat rss)"
    using Cons.IH [of "pre @ part"] Cons.prems by auto
  have "[length pre..<length reqs] = [length pre..<length pre + length part] @ [length (pre @ part)..<length reqs]"
    using Cons.prems(1) upt_add_eq_append [of "length pre" "length pre + length part" "length (concat parts)"] by (simp add: add.assoc)
  with rs rss show ?case by (auto intro: requests_for_append)
qed (simp add: requests_for_def)

lemma emap_enumerate:
  assumes "\<And>k. k < length xs \<Longrightarrow> F (k, xs ! k) = Ret (h (st + k))"
  shows "emap F (enumerate 0 xs) = Ret (map h [st..<st + length xs])"
proof -
  have "enumerate 0 xs = map (\<lambda>k. (k, xs ! k)) [0..<length xs]"
    by (rule nth_equalityI) (simp_all add: nth_enumerate_eq)
  moreover have "map h [st..<st + length xs] = map (\<lambda>k. h (st + k)) [0..<length xs]"
    by (rule nth_equalityI) simp_all
  moreover have "emap (\<lambda>k. F (k, xs ! k)) [0..<length xs] = Ret (map (\<lambda>k. h (st + k)) [0..<length xs])"
    by (rule emap_eq) (simp add: assms)
  ultimately show ?thesis by simp
qed

lemma part_nth:
  "part = take (length part) (drop st reqs) \<Longrightarrow> st + length part \<le> length reqs \<Longrightarrow> k < length part \<Longrightarrow> part ! k = reqs ! (st + k)"
  by (metis add_leD1 nth_drop nth_take)

lemma length_with_starts [simp]: "length (with_starts st xss) = length xss"
  by (induction xss arbitrary: st) simp_all

lemma with_starts_map: "with_starts st (map (map f) xss) = map (\<lambda>(st, xs). (st, map f xs)) (with_starts st xss)"
  by (induction xss arbitrary: st) simp_all

lemma one_val_task_for:
  assumes "array_ok S a" "\<And>i. i < ua_size a \<Longrightarrow> rank a (home a i) i < 256 ^ index_size_len s"
    and part: "part = take (length part) (drop st reqs)" "st + length part \<le> length reqs"
    and reqs: "\<And>j. j < length reqs \<Longrightarrow> fst (reqs ! j) < ua_size a \<and> snd (reqs ! j) = val"
  shows "\<exists>rs. one_val_task a n s val (st, map fst part) = Ret rs \<and> requests_for a reqs [st..<st + length part] rs"
proof -
  let ?g = "\<lambda>j. rank a (home a (fst (reqs ! j))) (fst (reqs ! j))"
  let ?js = "[st..<st + length part]"
  have "emap (\<lambda>(ii, idx). ebind (place a idx) (\<lambda>(pe, local_index). Ret (pe, (local_index, ii + st)))) (enumerate 0 (map fst part))
      = Ret (map (\<lambda>j. (home a (fst (reqs ! j)), (?g j, j))) [st..<st + length (map fst part)])"
  proof (rule emap_enumerate)
    fix k assume "k < length (map fst part)"
    with part_nth [OF part] reqs [of "st + k"] part(2) show "(\<lambda>(ii, idx). ebind (place a idx) (\<lambda>(pe, local_index). Ret (pe, (local_index, ii + st))))
      (k, map fst part ! k) = Ret (home a (fst (reqs ! (st + k))), (?g (st + k), st + k))"
      by (simp add: place_eq [OF assms(1)] add.commute)
  qed
  moreover have "requests_for a reqs ?js (map (\<lambda>(pe, buff). (pe, SingleValMultiIdx s val (concat (map (\<lambda>(k, j). as_bytes s k) buff)), map snd buff))
     (batches full (ad_num_pes (ua_data a)) (map (\<lambda>j. (home a (fst (reqs ! j)), (?g j, j))) ?js)))" for full
  proof (rule batches_requests_for [OF assms(1)])
    fix pe js' assume js': "set js' \<subseteq> set ?js" "\<And>j. j \<in> set js' \<Longrightarrow> home a (fst (reqs ! j)) = pe"
    have "read_indices (index_size_len s) (concat (map (as_bytes s) (map ?g js'))) = map ?g js'"
      by (rule read_indices_concat) (use js' part(2) reqs assms(2) in fastforce)
    with js' reqs part(2) show "am_requests (SingleValMultiIdx s val (concat (map (\<lambda>(k, j). as_bytes s k) (map (\<lambda>j. (?g j, j)) js'))))
      = map (\<lambda>j. (rank a pe (fst (reqs ! j)), snd (reqs ! j))) js'" by (auto simp: o_def)
  qed (use part(2) reqs in auto)
  ultimately show ?thesis by (simp add: one_val_task_def)
qed

lemma multi_val_task_for:
  assumes "array_ok S a" "\<And>i. i < ua_size a \<Longrightarrow> rank a (home a i) i < 256 ^ index_size_len s"
    and part: "part = take (length part) (drop st reqs)" "st + length part \<le> length reqs"
    and reqs: "\<And>j. j < length reqs \<Longrightarrow> fst (reqs ! j) < ua_size a"
  shows "\<exists>rs. multi_val_task a n s ((st, map fst part), map snd part) = Ret rs \<and> requests_for a reqs [st..<st + length part] rs"
proof -
  let ?g = "\<lambda>j. (rank a (home a (fst (reqs ! j))) (fst (reqs ! j)), snd (reqs ! j))"
  let ?js = "[st..<st + length part]"
  have "emap (\<lambda>(ii, idx, val). ebind (place a idx) (\<lambda>(pe, local_index). Ret (pe, ((cast_index s local_index, val), ii + st)))) (enumerate 0 part)
      = Ret (map (\<lambda>j. (home a (fst (reqs ! j)), (?g j, j))) ?js)"
  proof (rule emap_enumerate)
    fix k assume "k < length part"
    with part_nth [OF part] reqs [of "st + k"] part(2) show "(\<lambda>(ii, idx, val). ebind (place a idx) (\<lambda>(pe, local_index). Ret (pe, ((cast_index s local_index, val), ii + st))))
      (k, part ! k) = Ret (home a (fst (reqs ! (st + k))), (?g (st + k), st + k))"
      by (cases "part ! k") (auto simp: place_eq [OF assms(1)] add.commute assms(2))
  qed
  moreover have "requests_for a reqs ?js (map (\<lambda>(pe, buff). (pe, MultiValMultiIdx s (map fst buff), map snd buff))
     (batches full (ad_num_pes (ua_data a)) (map (\<lambda>j. (home a (fst (reqs ! j)), (?g j, j))) ?js)))" for full
    by (rule batches_requests_for [OF assms(1)]) (use part(2) reqs in \<open>auto simp: o_def\<close>)
  ultimately show ?thesis by (simp add: multi_val_task_def zip_map_fst_snd)
qed

lemma concat_slice_chunks [simp]: "0 < n \<Longrightarrow> concat (slice_chunks n xs) = xs"
  by (induction n xs rule: slice_chunks.induct) (subst slice_chunks.simps, auto)

lemma one_index_messages_for:
  assumes "i \<in> owned a pe" "\<And>j. j < length reqs \<Longrightarrow> fst (reqs ! j) = i"
    and "map snd reqs = pre @ concat vss @ post"
  shows "requests_for a reqs [length pre..<length pre + length (concat vss)]
    (map (\<lambda>(st, vs). (pe, MultiValSingleIdx (rank a pe i) vs, [st..<st + length vs])) (with_starts (length pre) vss))"
  using assms(3)
proof (induction vss arbitrary: pre)
  case (Cons vs vss)
  have len: "length reqs = length pre + length vs + length (concat vss) + length post"
    using arg_cong [OF Cons.prems, of length] by simp
  have "snd (reqs ! j) = vs ! (j - length pre)" if "length pre \<le> j" "j < length pre + length vs" for j
  proof -
    from that have "j - length pre < length vs" by simp
    with that len arg_cong [OF Cons.prems, of "\<lambda>xs. xs ! j"] show ?thesis by (simp add: nth_append)
  qed
  then have "map (Pair (rank a pe i)) vs = map (\<lambda>j. (rank a pe (fst (reqs ! j)), snd (reqs ! j))) [length pre..<length pre + length vs]"
    using assms(2) len by (intro nth_equalityI) simp_all
  then have "request_ok a reqs (pe, MultiValSingleIdx (rank a pe i) vs, [length pre..<length pre + length vs])"
    using assms(1,2) len unfolding request_ok_def by auto
  then have "requests_for a reqs [length pre..<length pre + length vs]
      [(pe, MultiValSingleIdx (rank a pe i) vs, [length pre..<length pre + length vs])]"
    by (simp add: requests_for_def)
  moreover have "[length pre..<length pre + length (concat (vs # vss))]
      = [length pre..<length pre + length vs] @ [length (pre @ vs)..<length (pre @ vs) + length (concat vss)]"
    using upt_add_eq_append [of "length pre" "length pre + length vs" "length (concat vss)"] by (simp add: add.assoc)
  moreover note Cons.IH [of "pre @ vs"]
  ultimately show ?case using Cons.prems requests_for_append by fastforce
qed simp

lemma one_index_task_for:
  assumes "i \<in> owned a pe" "\<And>j. j < length reqs \<Longrightarrow> fst (reqs ! j) = i" "0 < n"
    and "part = take (length part) (drop st reqs)" "st + length part \<le> length reqs"
  shows "\<exists>rs. one_index_task n pe (rank a pe i) (st, map snd part) = Ret rs \<and> requests_for a reqs [st..<st + length part] rs"
proof -
  have "map snd reqs = map snd (take st reqs) @ concat (slice_chunks n (map snd part)) @ map snd (drop (st + length part) reqs)"
    using assms(3,4) by simp (metis append_take_drop_id drop_drop add.commute map_append)
  from one_index_messages_for [OF assms(1,2) this] assms(3,5)
  show ?thesis by (simp add: one_index_task_def chunks_of_def)
qed

section \<open>Inputs\<close>

text \<open>The parts of an input of an operation.\<close>

definition input_ok :: "'a list list \<times> nat \<Rightarrow> 'a list \<Rightarrow> bool" where
  "input_ok inp xs \<longleftrightarrow> concat (fst inp) = xs \<and> snd inp = length xs \<and> [] \<notin> set (fst inp)"

lemma input_ok_single:
  assumes "input_ok (parts, 1) xs"
  shows "parts = [[hd xs]]" "xs = [hd xs]"
proof -
  obtain x where x: "xs = [x]" using assms by (cases xs) (auto simp: input_ok_def)
  moreover obtain p ps where p: "parts = p # ps" using assms by (cases parts) (auto simp: input_ok_def)
  moreover obtain y ys where y: "p = y # ys" using assms p by (cases p) (auto simp: input_ok_def)
  moreover have "ps = []" using assms x p y by (cases ps) (auto simp: input_ok_def)
  ultimately show "parts = [[hd xs]]" "xs = [hd xs]" using assms by (auto simp: input_ok_def)
qed

lemma zip_with_starts:
  "map length xss = map length yss \<Longrightarrow>
     zip (with_starts st xss) yss = map (\<lambda>(st, p). ((st, map fst p), map snd p)) (with_starts st (map2 zip xss yss))"
proof (induction xss arbitrary: st yss)
  case (Cons xs xss)
  then show ?case by (cases yss) auto
qed simp

lemma concat_map2_zip: "map length xss = map length yss \<Longrightarrow> concat (map2 zip xss yss) = zip (concat xss) (concat yss)"
proof (induction xss arbitrary: yss)
  case (Cons xs xss)
  then show ?case by (cases yss) auto
qed simp

lemma length_emap: "emap f xs = Ret ys \<Longrightarrow> length ys = length xs"
  by (induction xs arbitrary: ys) (auto simp: exec_simps)

lemma all_tasks_for:
  assumes "concat parts = reqs"
    and "\<And>st part. st + length part \<le> length reqs \<Longrightarrow> part = take (length part) (drop st reqs) \<Longrightarrow>
      \<exists>rs. task (st, part) = Ret rs \<and> requests_for a reqs [st..<st + length part] rs"
  shows "\<exists>rs. emap task (with_starts 0 parts) = Ret rs \<and> requests_for a reqs [0..<length reqs] (concat rs)"
  using tasks_requests_for [of reqs "[]" parts task a] assms by simp

lemma one_val_multi_indices_for:
  assumes a: "array_ok S a" and s: "\<And>i. i < ua_size a \<Longrightarrow> rank a (home a i) i < 256 ^ index_size_len s"
    and indices: "set (concat indices) \<subseteq> {..<ua_size a}"
  shows "\<exists>rs. one_val_multi_indices a n s v indices = Ret rs \<and>
    requests_for a (map (\<lambda>i. (i, v)) (concat indices)) [0..<length (concat indices)] rs"
proof -
  let ?parts = "map (map (\<lambda>i. (i, v))) indices"
  let ?reqs = "map (\<lambda>i. (i, v)) (concat indices)"
  have "\<exists>rs. emap (\<lambda>(st, part). one_val_task a n s v (st, map fst part)) (with_starts 0 ?parts) = Ret rs \<and>
      requests_for a ?reqs [0..<length ?reqs] (concat rs)"
  proof (rule all_tasks_for)
    fix st part assume p: "st + length part \<le> length ?reqs" "part = take (length part) (drop st ?reqs)"
    have "fst (?reqs ! j) < ua_size a \<and> snd (?reqs ! j) = v" if "j < length ?reqs" for j
      using that indices nth_mem [of j "concat indices"] by auto
    from one_val_task_for [OF a s p(2,1) this]
    show "\<exists>rs. (case (st, part) of (st, part) \<Rightarrow> one_val_task a n s v (st, map fst part)) = Ret rs \<and>
      requests_for a ?reqs [st..<st + length part] rs" by simp
  qed (simp add: map_concat)
  then show ?thesis
    by (auto simp: one_val_multi_indices_def with_starts_map case_prod_unfold o_def)
qed

lemma multi_val_one_index_for:
  assumes a: "array_ok S a" and n: "0 < n" and i: "i < ua_size a"
  shows "\<exists>rs. multi_val_one_index a n vals i = Ret rs \<and>
    requests_for a (map (Pair i) (concat vals)) [0..<length (concat vals)] rs"
proof -
  let ?parts = "map (map (Pair i)) vals"
  let ?reqs = "map (Pair i) (concat vals)"
  let ?k = "rank a (home a i) i"
  have "\<exists>rs. emap (\<lambda>(st, part). one_index_task n (home a i) ?k (st, map snd part)) (with_starts 0 ?parts) = Ret rs \<and>
      requests_for a ?reqs [0..<length ?reqs] (concat rs)"
  proof (rule all_tasks_for)
    fix st part assume p: "st + length part \<le> length ?reqs" "part = take (length part) (drop st ?reqs)"
    have "fst (?reqs ! j) = i" if "j < length ?reqs" for j using that by simp
    from one_index_task_for [OF in_owned_home [OF i] this n p(2,1)]
    show "\<exists>rs. (case (st, part) of (st, part) \<Rightarrow> one_index_task n (home a i) ?k (st, map snd part)) = Ret rs \<and>
      requests_for a ?reqs [st..<st + length part] rs" by simp
  qed (simp add: map_concat)
  then show ?thesis
    by (auto simp: multi_val_one_index_def place_eq [OF a i] with_starts_map case_prod_unfold o_def)
qed

lemma multi_val_multi_index_for:
  assumes a: "array_ok S a" and s: "\<And>i. i < ua_size a \<Longrightarrow> rank a (home a i) i < 256 ^ index_size_len s"
    and indices: "set (concat indices) \<subseteq> {..<ua_size a}"
    and lengths: "map length vals = map length indices"
  shows "\<exists>rs. multi_val_multi_index a n s vals indices = Ret (Some rs) \<and>
    requests_for a (zip (concat indices) (concat vals)) [0..<length (concat indices)] rs"
proof -
  let ?parts = "map2 zip indices vals"
  let ?reqs = "zip (concat indices) (concat vals)"
  have len: "length (concat vals) = length (concat indices)" using lengths by (simp add: length_concat)
  have "\<exists>rs. emap (\<lambda>(st, part). multi_val_task a n s ((st, map fst part), map snd part)) (with_starts 0 ?parts) = Ret rs \<and>
      requests_for a ?reqs [0..<length ?reqs] (concat rs)"
  proof (rule all_tasks_for)
    fix st part assume p: "st + length part \<le> length ?reqs" "part = take (length part) (drop st ?reqs)"
    have "fst (?reqs ! j) < ua_size a" if "j < length ?reqs" for j
      using that indices nth_mem [of j "concat indices"] by auto
    from multi_val_task_for [OF a s p(2,1) this]
    show "\<exists>rs. (case (st, part) of (st, part) \<Rightarrow> multi_val_task a n s ((st, map fst part), map snd part)) = Ret rs \<and>
      requests_for a ?reqs [st..<st + length part] rs" by simp
  qed (simp add: concat_map2_zip lengths)
  then obtain rs where rs: "emap (multi_val_task a n s) (zip (with_starts 0 indices) vals) = Ret rs"
    "requests_for a ?reqs [0..<length (concat indices)] (concat rs)"
    using len by (auto simp: zip_with_starts lengths case_prod_unfold o_def)
  moreover have "length (zip (with_starts 0 indices) vals) = length vals"
    using arg_cong [OF lengths, of length] by simp
  ultimately show ?thesis by (simp add: multi_val_multi_index_def length_emap)
qed

text \<open>The messages of an operation are exactly the requests that its inputs stand for.\<close>

lemma batch_requests_for:
  assumes "array_ok S a" "0 < n" "input_ok V vs" "input_ok I is"
    "length vs = 1 \<or> length is = 1 \<or> map length (fst V) = map length (fst I)" "set is \<subseteq> {..<ua_size a}"
  shows "\<exists>rs. batch_requests a n V I = Ret (Some rs) \<and> requests_for a (batch_reqs vs is) [0..<length (batch_reqs vs is)] rs"
proof -
  obtain vals indices where V: "V = (vals, length vs)" "concat vals = vs" and I: "I = (indices, length is)" "concat indices = is"
    using assms(3,4) by (cases V, cases I) (auto simp: input_ok_def)
  obtain s where s: "op_index_size a = Ret s" "\<And>i. i < ua_size a \<Longrightarrow> rank a (home a i) i < 256 ^ index_size_len s"
    using op_index_size_fits [OF assms(1)] by blast
  have v1: "vals = [[hd vs]]" if "length vs = 1" using input_ok_single [of vals vs] assms(3) V that by simp
  have i1: "indices = [[hd is]]" "is = [hd is]" if "length is = 1" using input_ok_single [of indices "is"] assms(4) I that by simp_all
  have i0: "hd is < ua_size a" if "length is = 1" using assms(6) that by (cases "is") auto
  consider "length vs = 1" "length is = 1" | "length vs > 1" "length is = 1" | "length vs = 1" "length is > 1"
    | "length vs > 1" "length is > 1" | "length vs = 0 \<or> length is = 0" by linarith
  then show ?thesis
  proof cases
    case 1
    have "rank a (home a (hd is)) (hd is) < 256 ^ index_size_len Usize"
      using rank_less [OF in_owned_home [OF i0 [OF 1(2)]]] card_owned_le [of a "home a (hd is)"] size_less [OF assms(1)] by simp
    moreover obtain i where "is = [i]" using i1 [OF 1(2)] by blast
    ultimately show ?thesis using 1 v1 i1 i0 in_owned_home [OF i0]
      by (simp add: batch_requests_def V I s single_val_single_index_def place_eq [OF assms(1)] batch_reqs_def
          requests_for_def request_ok_def)
  next
    case 2
    with multi_val_one_index_for [OF assms(1,2) i0, of vals] i1 show ?thesis
      by (auto simp: batch_requests_def V I s batch_reqs_def)
  next
    case 3
    with one_val_multi_indices_for [OF assms(1) s(2), where indices = indices and n = n and v = "hd vs"] v1 assms(6) show ?thesis
      by (auto simp: batch_requests_def V I s batch_reqs_def)
  next
    case 4
    with assms(5) V I have "map length vals = map length indices" by auto
    moreover from this have "length vs = length is" using V I by (metis length_concat)
    moreover note multi_val_multi_index_for [OF assms(1) s(2), where indices = indices and n = n and vals = vals] assms(6)
    ultimately show ?thesis using 4 by (auto simp: batch_requests_def V I s batch_reqs_def)
  next
    case 5
    then have "batch_reqs vs is = []" by (auto simp: batch_reqs_def)
    with 5 show ?thesis by (auto simp: batch_requests_def V I s)
  qed
qed

section \<open>The reference: operations on one list\<close>

text \<open>The elements of the array, in order, of local parts of the right sizes.\<close>

definition contents :: "unsafe_array_inner \<Rightarrow> (nat \<Rightarrow> 't list) \<Rightarrow> 't list" where
  "contents a L = map (\<lambda>i. L (home a i) ! rank a (home a i) i) [0..<ua_size a]"

definition local_parts_ok :: "unsafe_array_inner \<Rightarrow> (nat \<Rightarrow> 't list) \<Rightarrow> bool" where
  "local_parts_ok a L \<longleftrightarrow> (\<forall>pe < ad_num_pes (ua_data a). num_elems_pe a pe = Ret (length (L pe)))"

text \<open>The requests run one by one, in the given order, on the list of all elements.\<close>

definition batch_spec ::
  "'t elem_ops \<Rightarrow> batch_return_type \<Rightarrow> 't array_op_cmd \<Rightarrow> nat \<Rightarrow> (nat \<times> 't) list \<Rightarrow> nat list \<Rightarrow> 't list \<Rightarrow>
   ('t list \<times> 't op_res option list) exec" where
  "batch_spec E ret cmd len reqs order xs = ebind (op_loop (op_elem E ret cmd) (map (nth reqs) order) (xs, [])) (\<lambda>(ys, out).
     Ret (ys, if ret = ReturnNone then [] else map (map_of (zip order out)) [0..<len]))"

lemma local_parts_card: "array_ok S a \<Longrightarrow> local_parts_ok a L \<Longrightarrow> pe < ad_num_pes (ua_data a) \<Longrightarrow> length (L pe) = card (owned a pe)"
  by (auto simp: local_parts_ok_def num_elems_card)

lemma length_contents [simp]: "length (contents a L) = ua_size a"
  by (simp add: contents_def)

lemma contents_nth: "i \<in> owned a pe \<Longrightarrow> contents a L ! i = L pe ! rank a pe i"
  by (auto simp: contents_def owned_def home_def)

lemma contents_update:
  assumes i: "i \<in> owned a pe" and len: "length (L pe) = card (owned a pe)"
  shows "contents a (L(pe := (L pe)[rank a pe i := x])) = (contents a L)[i := x]"
proof (rule nth_equalityI)
  fix k assume "k < length (contents a (L(pe := (L pe)[rank a pe i := x])))"
  then have k: "k < ua_size a" by simp
  have "rank a pe i < length (L pe)" using rank_less [OF i] len by simp
  moreover have "rank a pe k = rank a pe i \<longleftrightarrow> k = i" if "home a k = pe"
    using rank_inj [of k a pe i] i in_owned_home [OF k] that by auto
  moreover have "home a i = pe" "i < ua_size a" using i by (auto simp: owned_def home_def)
  ultimately show "contents a (L(pe := (L pe)[rank a pe i := x])) ! k = (contents a L)[i := x] ! k"
    using k by (auto simp: contents_def nth_list_update)
qed simp

section \<open>Execution\<close>

lemma op_loop_append: "op_loop f (xs @ ys) st = ebind (op_loop f xs st) (op_loop f ys)"
proof (induction f xs st rule: op_loop.induct)
  case (2 f index val rs slice res)
  then show ?case by (cases "f val (slice ! index)") auto
qed simp

lemma op_loop_length: "op_loop f rs (slice, res) = Ret (slice', res') \<Longrightarrow> length slice' = length slice"
  by (induction f rs "(slice, res)" arbitrary: slice res rule: op_loop.induct) (auto simp: exec_simps split: if_splits)

lemma op_elem_results: "op_elem E ret cmd v x = Ret (y, r) \<Longrightarrow> length r = (if ret = ReturnNone then 0 else 1)"
  by (cases ret; cases cmd) (auto simp: op_elem_def op_arm_def update_def fetch_update_def exec_simps split: if_splits)

lemma op_loop_results:
  assumes "\<And>v x y r. f v x = Ret (y, r) \<Longrightarrow> length r = m"
  shows "op_loop f rs (slice, res) = Ret (slice', res') \<Longrightarrow> length res' = length res + m * length rs"
proof (induction rs arbitrary: slice res)
  case (Cons r rs)
  obtain index val where r: "r = (index, val)" by fastforce
  with Cons.prems obtain x o' where "f val (slice ! index) = Ret (x, o')"
    "op_loop f rs (slice[index := x], res @ o') = Ret (slice', res')"
    by (auto simp: exec_simps split: if_splits)
  with Cons.IH [of "slice[index := x]" "res @ o'"] assms show ?case by (simp add: algebra_simps)
qed simp

lemma op_loop_prefix: "op_loop f rs (slice, res @ res') = ebind (op_loop f rs (slice, res')) (\<lambda>(s, o'). Ret (s, res @ o'))"
proof (induction rs arbitrary: slice res')
  case (Cons r rs)
  obtain index val where "r = (index, val)" by fastforce
  then show ?case by (cases "f val (slice ! index)") (use Cons in \<open>auto split: prod.splits\<close>)
qed simp

text \<open>A message does on the local part what its requests do on the whole array.\<close>

lemma message_refines:
  assumes "\<And>j. j \<in> set js \<Longrightarrow> fst (reqs ! j) \<in> owned a pe" "length (L pe) = card (owned a pe)"
  shows "ebind (op_loop f (map (\<lambda>j. (rank a pe (fst (reqs ! j)), snd (reqs ! j))) js) (L pe, res)) (\<lambda>(slice, out). Ret (contents a (L(pe := slice)), out))
    = op_loop f (map (nth reqs) js) (contents a L, res)"
  using assms
proof (induction js arbitrary: L res)
  case (Cons j js)
  obtain i v where r: "reqs ! j = (i, v)" by fastforce
  let ?k = "rank a pe i"
  have i: "i \<in> owned a pe" using Cons.prems(1) [of j] r by simp
  then have "?k < length (L pe)" "i < ua_size a" using rank_less Cons.prems(2) by (auto simp: owned_def)
  moreover have "ebind (op_loop f (map (\<lambda>j. (rank a pe (fst (reqs ! j)), snd (reqs ! j))) js) ((L pe)[?k := x], res'))
      (\<lambda>(slice, out). Ret (contents a (L(pe := slice)), out)) = op_loop f (map (nth reqs) js) ((contents a L)[i := x], res')" for x res'
  proof -
    let ?L = "L(pe := (L pe)[?k := x])"
    have "ebind (op_loop f (map (\<lambda>j. (rank a pe (fst (reqs ! j)), snd (reqs ! j))) js) (?L pe, res'))
      (\<lambda>(slice, out). Ret (contents a (?L(pe := slice)), out)) = op_loop f (map (nth reqs) js) (contents a ?L, res')"
      by (rule Cons.IH) (use Cons.prems in auto)
    then show ?thesis unfolding contents_update [of i a pe L x, OF i Cons.prems(2)] by simp
  qed
  ultimately show ?case
    using contents_nth [OF i, of L] by (cases "f v (L pe ! ?k)") (auto simp: r simp del: fun_upd_apply)
qed simp

lemma zip_results:
  assumes "length res = m * length js" "length res' = m * length js'" "m \<le> (1 :: nat)"
  shows "zip (js @ js') (res @ res') = zip js res @ zip js' res'"
  using assms by (cases m) auto

lemma local_parts_update: "local_parts_ok a L \<Longrightarrow> length slice = length (L pe) \<Longrightarrow> local_parts_ok a (L(pe := slice))"
  by (simp add: local_parts_ok_def)

lemma request_length:
  assumes "array_ok S a" "local_parts_ok a L" "j \<in> set js" "fst (reqs ! j) \<in> owned a pe"
  shows "length (L pe) = card (owned a pe)"
proof -
  have "home a (fst (reqs ! j)) = pe" "fst (reqs ! j) < ua_size a" using assms(4) by (auto simp: owned_def home_def)
  with home_less [OF assms(1)] local_parts_card [OF assms(1,2)] show ?thesis by auto
qed

text \<open>The messages, in any order, do what their requests do one by one on the list of all elements.\<close>

lemma exec_requests_refine:
  assumes "array_ok S a" "\<And>r. r \<in> set sched \<Longrightarrow> request_ok a reqs r" "local_parts_ok a L"
  shows "ebind (efold (exec_request E ret cmd) sched (L, outp)) (\<lambda>(L', o'). Ret (contents a L', o'))
    = ebind (op_loop (op_elem E ret cmd) (map (nth reqs) (positions sched)) (contents a L, [])) (\<lambda>(xs, out). Ret (xs, outp @ zip (positions sched) out))"
  using assms(2,3)
proof (induction sched arbitrary: L outp)
  case (Cons r sched)
  obtain pe am js where r: "r = (pe, am, js)" by (cases r)
  let ?f = "op_elem E ret cmd" and ?m = "if ret = ReturnNone then 0 else 1 :: nat"
  have am: "am_requests am = map (\<lambda>j. (rank a pe (fst (reqs ! j)), snd (reqs ! j))) js"
    and js: "\<And>j. j \<in> set js \<Longrightarrow> fst (reqs ! j) \<in> owned a pe"
    using Cons.prems(1) [of r] by (auto simp: request_ok_def r)
  show ?case
  proof (cases "js = []")
    case True
    with Cons am show ?thesis by (simp add: r exec_request_def exec_op_am_def)
  next
    case False
    then have len: "length (L pe) = card (owned a pe)"
      using request_length [OF assms(1) Cons.prems(2)] js hd_in_set by blast
    note msg = message_refines [where f = ?f and res = "[]" and L = L and pe = pe and js = js and reqs = reqs and a = a, OF js len]
    show ?thesis
    proof (cases "op_loop ?f (am_requests am) (L pe, [])")
      case (Panic p)
      have "op_loop ?f (map (nth reqs) js) (contents a L, []) = Panic p"
        using msg unfolding am [symmetric] Panic by simp
      with Panic show ?thesis by (simp add: r exec_request_def exec_op_am_def op_loop_append)
    next
      case (Ret sr)
      obtain slice res where sr: "sr = (slice, res)" by fastforce
      let ?L = "L(pe := slice)"
      have run: "op_loop ?f (map (nth reqs) js) (contents a L, []) = Ret (contents a ?L, res)"
        using msg unfolding am [symmetric] Ret sr by simp
      have res: "length res = ?m * length js"
        using op_loop_results [OF op_elem_results run] by simp
      have "local_parts_ok a ?L"
        using local_parts_update [OF Cons.prems(2)] op_loop_length Ret sr by blast
      then have IH: "ebind (efold (exec_request E ret cmd) sched (?L, outp @ zip js res)) (\<lambda>(L', o'). Ret (contents a L', o'))
        = ebind (op_loop ?f (map (nth reqs) (positions sched)) (contents a ?L, [])) (\<lambda>(xs, out). Ret (xs, (outp @ zip js res) @ zip (positions sched) out))"
        by (intro Cons.IH) (use Cons.prems in \<open>auto simp del: fun_upd_apply\<close>)
      have "exec_request E ret cmd r (L, outp) = Ret (?L, outp @ zip js res)"
        using Ret sr by (simp add: r exec_request_def exec_op_am_def)
      then have "ebind (efold (exec_request E ret cmd) (r # sched) (L, outp)) (\<lambda>(L', o'). Ret (contents a L', o'))
        = ebind (op_loop ?f (map (nth reqs) (positions sched)) (contents a ?L, [])) (\<lambda>(xs, out). Ret (xs, (outp @ zip js res) @ zip (positions sched) out))"
        by (simp only: efold.simps ebind_simps IH)
      also have "\<dots> = ebind (op_loop ?f (map (nth reqs) (positions (r # sched))) (contents a L, [])) (\<lambda>(xs, out). Ret (xs, outp @ zip (positions (r # sched)) out))"
      proof (cases "op_loop ?f (map (nth reqs) (positions sched)) (contents a ?L, [])")
        case (Panic p)
        with run op_loop_prefix [of ?f _ _ res "[]"] show ?thesis by (simp add: r op_loop_append)
      next
        case (Ret so)
        obtain s' o' where so: "so = (s', o')" by fastforce
        have "length o' = ?m * length (positions sched)"
          using op_loop_results [OF op_elem_results Ret [unfolded so]] by simp
        with zip_results [OF res this] run op_loop_prefix [of ?f _ _ res "[]"] Ret so show ?thesis by (simp add: r op_loop_append)
      qed
      finally show ?thesis .
    qed
  qed
qed simp

lemma collect_from:
  "(\<And>i v. (i, v) \<in> set out \<Longrightarrow> i < length results) \<Longrightarrow> distinct (map fst out) \<Longrightarrow>
   efold (\<lambda>(i, v) results. if i < length results then Ret (results[i := Some v]) else Panic OutOfBounds) out results
     = Ret (map (\<lambda>i. case map_of out i of None \<Rightarrow> results ! i | Some v \<Rightarrow> Some v) [0..<length results])"
proof (induction out arbitrary: results)
  case (Cons iv out)
  obtain i v where iv: "iv = (i, v)" by fastforce
  then have "i < length results" "i \<notin> fst ` set out" using Cons.prems by auto
  moreover from this have "map_of out i = None" by (simp add: map_of_eq_None_iff)
  moreover have "efold (\<lambda>(i, v) results. if i < length results then Ret (results[i := Some v]) else Panic OutOfBounds) out (results[i := Some v])
     = Ret (map (\<lambda>k. case map_of out k of None \<Rightarrow> results[i := Some v] ! k | Some v \<Rightarrow> Some v) [0..<length (results[i := Some v])])"
    by (rule Cons.IH) (use Cons.prems iv in auto)
  ultimately show ?case by (auto simp: iv nth_list_update split: option.splits)
qed (simp add: map_nth)

lemma collect_results_eq:
  assumes "\<And>i. i \<in> set js \<Longrightarrow> i < max i_len v_len" "distinct js"
  shows "collect_results v_len i_len (zip js out) = Ret (map (map_of (zip js out)) [0..<max i_len v_len])"
proof -
  have "distinct (map fst (zip js out))" using assms(2) by (simp add: map_fst_zip_take)
  moreover have "i < length (replicate (max i_len v_len) None)" if "(i, v) \<in> set (zip js out)" for i v
    using set_zip_leftD [OF that] assms(1) by simp
  ultimately have "collect_results v_len i_len (zip js out)
      = Ret (map (\<lambda>i. case map_of (zip js out) i of None \<Rightarrow> replicate (max i_len v_len) None ! i | Some v \<Rightarrow> Some v) [0..<max i_len v_len])"
    unfolding collect_results_def by (subst collect_from) auto
  also have "\<dots> = Ret (map (map_of (zip js out)) [0..<max i_len v_len])" by (auto split: option.splits)
  finally show ?thesis .
qed

lemma mset_concat_map: "mset (concat (map f xs)) = (\<Sum>x\<in>#mset xs. mset (f x))"
  by (induction xs) simp_all

lemma run_batch_refines:
  assumes "array_ok S a" "local_parts_ok a L" "requests_for a reqs [0..<length reqs] rs"
    "length reqs \<le> max i_len v_len" "mset sched = mset rs"
  shows "mset (positions sched) = mset [0..<length reqs] \<and>
    ebind (run_batch E ret cmd v_len i_len sched L) (\<lambda>(L', results). Ret (contents a L', results))
      = batch_spec E ret cmd (max i_len v_len) reqs (positions sched) (contents a L)"
proof -
  let ?js = "positions sched"
  have ms: "mset ?js = mset [0..<length reqs]"
    using assms(3,5) by (simp add: requests_for_def mset_concat_map)
  have js: "distinct ?js" "set ?js = {0..<length reqs}"
    using mset_eq_imp_distinct_iff [OF ms] mset_eq_setD [OF ms] by simp_all
  have ok: "request_ok a reqs r" if "r \<in> set sched" for r
    using that assms(3) mset_eq_setD [OF assms(5)] by (simp add: requests_for_def)
  have "collect_results v_len i_len (zip ?js out) = Ret (map (map_of (zip ?js out)) [0..<max i_len v_len])" for out :: "'a op_res list"
    by (rule collect_results_eq) (simp_all only: js atLeastLessThan_iff assms(4) order_less_le_trans [OF _ assms(4)])
  note collect = this
  note ex = exec_requests_refine [where sched = sched and reqs = reqs and E = E and ret = ret and cmd = cmd and outp = "[]", OF assms(1) ok assms(2)]
  have "ebind (run_batch E ret cmd v_len i_len sched L) (\<lambda>(L', results). Ret (contents a L', results))
      = batch_spec E ret cmd (max i_len v_len) reqs ?js (contents a L)"
  proof (cases "op_loop (op_elem E ret cmd) (map (nth reqs) ?js) (contents a L, [])")
    case (Panic p)
    then show ?thesis using ex
      by (cases "efold (exec_request E ret cmd) sched (L, [])") (auto simp: batch_spec_def run_batch_def)
  next
    case (Ret xo)
    then obtain L' where "efold (exec_request E ret cmd) sched (L, []) = Ret (L', zip ?js (snd xo))" "contents a L' = fst xo"
      using ex by (cases "efold (exec_request E ret cmd) sched (L, [])") (auto split: prod.splits)
    then show ?thesis using Ret collect by (simp add: batch_spec_def run_batch_def case_prod_unfold)
  qed
  with ms show ?thesis by blast
qed

text \<open>The same for the requests of the messages, one by one and in any order.\<close>

lemma split_request_ok:
  assumes "request_ok a reqs r"
  shows "\<forall>q \<in> set (split_request r). request_ok a reqs q" "positions (split_request r) = snd (snd r)"
proof -
  obtain pe am js where r: "r = (pe, am, js)" by (cases r)
  with assms have am: "am_requests am = map (\<lambda>j. (rank a pe (fst (reqs ! j)), snd (reqs ! j))) js"
    and js: "\<forall>j \<in> set js. j < length reqs \<and> fst (reqs ! j) \<in> owned a pe" by (auto simp: request_ok_def)
  have "split_request r = map (\<lambda>j. (pe, MultiValMultiIdx Usize [(rank a pe (fst (reqs ! j)), snd (reqs ! j))], [j])) js"
    by (simp add: split_request_def r am zip_map1 zip_same_conv_map)
  with js show "\<forall>q \<in> set (split_request r). request_ok a reqs q" "positions (split_request r) = snd (snd r)"
    by (auto simp: request_ok_def r o_def)
qed

lemma requests_for_split:
  assumes "requests_for a reqs js rs"
  shows "requests_for a reqs js (concat (map split_request rs))"
proof -
  have "\<forall>r \<in> set rs. request_ok a reqs r" using assms by (simp add: requests_for_def)
  then have "positions (concat (map split_request rs)) = positions rs"
    by (induction rs) (auto dest!: split_request_ok(2))
  with assms split_request_ok(1) show ?thesis by (fastforce simp: requests_for_def)
qed

end
