(* ===== verification/Array_Op_Results.thy ===== *)
theory Array_Op_Results
  imports Array_Batches "HOL-Library.Word"
begin

unbundle bit_operations_syntax

text \<open>
  What the element-wise operations guarantee: the parts of the inputs, linearizability, the results of loads, updates that commute, methods
  for one element, and the inputs for which the code fails.
\<close>

section \<open>Inputs\<close>

lemma length_chunks: "0 < n \<Longrightarrow> length (slice_chunks n xs) = (length xs + n - 1) div n"
proof (induction n xs rule: slice_chunks.induct)
  case (1 n xs)
  show ?case
  proof (cases "xs = []")
    case False
    then have "length (slice_chunks n (drop n xs)) = (length xs - n + n - 1) div n" using 1 by simp
    moreover have "Suc ((length xs - n + n - 1) div n) = (length xs + n - 1) div n"
    proof (cases "n \<le> length xs")
      case True
      then have "length xs + n - 1 = (length xs - n + n - 1) + n" using 1(2) by simp
      then show ?thesis using 1(2) by (metis div_add_self2 less_numeral_extra(3) Suc_eq_plus1)
    next
      case short: False
      then have "(length xs - n + n - 1) div n = 0" using 1(2) by simp
      moreover have "(length xs + n - 1) div n = Suc ((length xs - 1) div n)"
        using div_add_self2 [of n "length xs - 1"] False 1(2) by (cases xs) auto
      moreover have "(length xs - 1) div n = 0" using short by simp
      ultimately show ?thesis by (simp only:)
    qed
    ultimately show ?thesis using False 1(2) by (subst slice_chunks.simps) simp
  qed (use 1(2) in \<open>simp add: slice_chunks.simps [of n "[]"]\<close>)
qed

lemma chunks_nonempty: "[] \<notin> set (slice_chunks n xs)"
  by (induction n xs rule: slice_chunks.induct) (subst slice_chunks.simps, auto)

text \<open>The first parts of a slice, all of the same length.\<close>

lemma concat_slices: "num * n \<le> length xs \<Longrightarrow> concat (map (\<lambda>i. take n (drop (i * n) xs)) [0..<num]) = take (num * n) xs"
proof (induction num)
  case (Suc num)
  then have "take (Suc num * n) xs = take (num * n) xs @ take n (drop (num * n) xs)"
    by (simp add: add.commute flip: take_add)
  with Suc show ?case by simp
qed simp

lemma as_op_input_slice_eq:
  assumes "xs \<noteq> []" "num = op_parts threads (length xs)" "n = length xs div num" "0 < num" "num \<le> length xs"
  shows "as_op_input_slice threads xs = Ret (map (\<lambda>i. take n (drop (i * n) xs)) [0..<num]
      @ (if length xs mod n = 0 then [] else [drop (num * n) xs]), length xs)"
proof -
  have "0 < n" using assms by (simp add: div_greater_zero_iff)
  then show ?thesis using assms by (simp add: as_op_input_slice_def Let_def)
qed

text \<open>The parts are those of the input, except that a slice without a remainder is cut after its equal parts.\<close>

lemma input_ok_vec:
  assumes "0 < threads" "length xs < 1000 \<or> threads \<le> length xs"
  shows "\<exists>I. as_op_input_vec threads xs = Ret I \<and> input_ok I xs"
proof (cases "xs = []")
  case False
  let ?num = "op_parts threads (length xs)"
  have "0 < ?num" "?num \<le> length xs" using assms False by (auto simp: op_parts_def Suc_le_eq)
  then have "0 < length xs div ?num" by (simp add: div_greater_zero_iff)
  with \<open>0 < ?num\<close> False show ?thesis
    by (simp add: as_op_input_vec_def Let_def chunks_of_def input_ok_def chunks_nonempty)
qed (simp add: as_op_input_vec_def input_ok_def)

lemma input_ok_slice:
  assumes "xs \<noteq> []" and num: "0 < num" "num \<le> length xs" and "num = op_parts threads (length xs)" "n = length xs div num"
  obtains parts where "as_op_input_slice threads xs = Ret (parts, length xs)" "[] \<notin> set parts"
    "concat parts = (if n dvd length xs then take (num * n) xs else xs)"
proof -
  from num have n: "0 < n" "num * n \<le> length xs" using assms(5) by (simp_all add: div_greater_zero_iff)
  let ?parts = "map (\<lambda>i. take n (drop (i * n) xs)) [0..<num] @ (if length xs mod n = 0 then [] else [drop (num * n) xs])"
  have "as_op_input_slice threads xs = Ret (?parts, length xs)"
    by (rule as_op_input_slice_eq) (use assms num in simp_all)
  moreover have "[] \<notin> set ?parts"
  proof -
    have "i * n < length xs" if "i < num" for i
    proof -
      have "i * n < num * n" using that n(1) by simp
      then show ?thesis using n(2) by (rule order_less_le_trans)
    qed
    moreover have "num * n < length xs" if "length xs mod n \<noteq> 0"
    proof -
      have "num * n \<noteq> length xs" using that mod_mult_self2_is_0 [of num n] by metis
      with n(2) show ?thesis by simp
    qed
    ultimately have "take n (drop (i * n) xs) \<noteq> []" "length xs mod n \<noteq> 0 \<Longrightarrow> drop (num * n) xs \<noteq> []" if "i < num" for i
      using that n(1) by (metis drop_eq_Nil le_zero_eq less_not_refl2 linorder_not_le take_eq_Nil, simp)
    with num(1) show ?thesis by auto
  qed
  moreover have "concat ?parts = (if n dvd length xs then take (num * n) xs else xs)"
    using concat_slices [OF n(2)] by (auto simp: dvd_eq_mod_eq_0)
  ultimately show thesis using that by blast
qed


text \<open>The part of an input that its parts hold: all of it, except that the end of a slice may be missing.\<close>

fun handled_items :: "nat \<Rightarrow> 'a op_input \<Rightarrow> 'a list" where
  "handled_items threads (In_Slice xs) = (let num = op_parts threads (length xs); n = length xs div num in
     if n dvd length xs then take (num * n) xs else xs)"
| "handled_items threads inp = input_items inp"

lemma slice_returns:
  "as_op_input_slice threads xs = Ret I \<Longrightarrow> xs \<noteq> [] \<Longrightarrow> 0 < op_parts threads (length xs) \<and> op_parts threads (length xs) \<le> length xs"
  "as_op_input_vec threads xs = Ret I \<Longrightarrow> xs \<noteq> [] \<Longrightarrow> 0 < op_parts threads (length xs) \<and> op_parts threads (length xs) \<le> length xs"
  by (auto simp: as_op_input_slice_def as_op_input_vec_def chunks_of_def udiv_def umod_def Let_def Suc_le_eq div_eq_0_iff not_less
      exec_simps split: if_splits)

lemma op_parts_threads:
  "0 < op_parts threads len \<Longrightarrow> op_parts threads len \<le> len \<Longrightarrow> (len < 1000 \<and> op_parts threads len = 1) \<or> (0 < threads \<and> threads \<le> len)"
  by (simp add: op_parts_def split: if_splits)

lemma handled_length:
  assumes "0 < op_parts threads (length xs)" "op_parts threads (length xs) \<le> length xs"
  shows "length (handled_items threads (In_Slice xs)) \<le> length xs"
    "length (handled_items threads (In_Slice xs)) = 1 \<longleftrightarrow> length xs = 1"
    "1 < length (handled_items threads (In_Slice xs)) \<longleftrightarrow> 1 < length xs"
proof -
  let ?len = "length xs" let ?num = "op_parts threads ?len"
  let ?h = "length (handled_items threads (In_Slice xs))"
  show le: "?h \<le> ?len" by (simp add: Let_def)
  have "?h = ?len \<or> (1000 \<le> ?len \<and> ?h = ?num * (?len div ?num))"
    by (auto simp: Let_def op_parts_def min_def)
  moreover have "?len < 2 * (?num * (?len div ?num))"
  proof -
    have "1 \<le> ?len div ?num" using assms by (simp add: Suc_le_eq div_greater_zero_iff)
    then have "?num \<le> ?num * (?len div ?num)" by simp
    moreover have "?len mod ?num < ?num" using assms(1) by simp
    moreover have "?len = ?num * (?len div ?num) + ?len mod ?num" by simp
    ultimately show ?thesis by linarith
  qed
  ultimately show "?h = 1 \<longleftrightarrow> ?len = 1" "1 < ?h \<longleftrightarrow> 1 < ?len" by linarith+
qed

section \<open>Operations of the element type\<close>

text \<open>The operators of an unsigned integer type, in a build without overflow checks.\<close>

definition word_ops :: "'w::len word elem_ops" where
  "word_ops = \<lparr>e_optypes = generated_ops (Generated True True), e_add = (\<lambda>x y. Ret (x + y)), e_sub = (\<lambda>x y. Ret (x - y)), e_mul = (\<lambda>x y. Ret (x * y)),
     e_div = (\<lambda>x y. if y = 0 then Panic DivByZero else Ret (x div y)),
     e_rem = (\<lambda>x y. if y = 0 then Panic DivByZero else Ret (x mod y)),
     e_and = (\<lambda>x y. Ret (x AND y)), e_or = (\<lambda>x y. Ret (x OR y)), e_xor = (\<lambda>x y. Ret (x XOR y)),
     e_shl = (\<lambda>x y. Ret (push_bit (unat y mod LENGTH('w)) x)), e_shr = (\<lambda>x y. Ret (drop_bit (unat y mod LENGTH('w)) x)),
     e_eq = (=), e_lt = (<)\<rparr>"

lemma word_optypes: "e_optypes word_ops = Some [OpReadOnly, OpAccess, OpArithmetic, OpCompExEps, OpBitwise, OpShift, OpCompEx]"
  by (simp add: word_ops_def)

text \<open>Updates that return nothing, never fail, and may be applied in any order.\<close>

definition new_value :: "('t \<Rightarrow> 't \<Rightarrow> 't elem_result) \<Rightarrow> 't \<Rightarrow> 't \<Rightarrow> 't" where
  "new_value f v x = (case f v x of Ret (y, r) \<Rightarrow> y | Panic p \<Rightarrow> x)"

locale commuting_update =
  fixes f :: "'t \<Rightarrow> 't \<Rightarrow> 't elem_result"
  assumes silent: "f v x = Ret (new_value f v x, [])"
    and commute: "new_value f w (new_value f v x) = new_value f v (new_value f w x)"
begin

lemma fold_order: "mset vs = mset ws \<Longrightarrow> fold (new_value f) vs x = fold (new_value f) ws x"
  by (rule fold_multiset_equiv [THEN fun_cong]) (auto simp: commute)

lemma op_loop_fold:
  "(\<And>r. r \<in> set rs \<Longrightarrow> fst r < length xs) \<Longrightarrow>
   op_loop f rs (xs, []) = Ret (map (\<lambda>i. fold (new_value f) (map snd (filter (\<lambda>r. fst r = i) rs)) (xs ! i)) [0..<length xs], [])"
proof (induction rs arbitrary: xs)
  case (Cons r rs)
  obtain i v where r: "r = (i, v)" by fastforce
  let ?xs = "xs[i := new_value f v (xs ! i)]"
  have "i < length xs" using Cons.prems r by fastforce
  moreover have "op_loop f rs (?xs, [])
      = Ret (map (\<lambda>k. fold (new_value f) (map snd (filter (\<lambda>r. fst r = k) rs)) (?xs ! k)) [0..<length ?xs], [])"
    by (rule Cons.IH) (use Cons.prems in auto)
  ultimately show ?case by (auto simp: r silent [of v] nth_list_update)
qed (simp add: map_nth)

lemma batch_spec_fold:
  assumes "mset order = mset [0..<length reqs]" "\<And>r. r \<in> set reqs \<Longrightarrow> fst r < length xs"
    and op: "op_elem E ReturnNone cmd = f"
  shows "batch_spec E ReturnNone cmd len reqs order xs
    = Ret (map (\<lambda>i. fold (new_value f) (map snd (filter (\<lambda>r. fst r = i) reqs)) (xs ! i)) [0..<length xs], [])"
proof -
  have ms: "mset (map (nth reqs) order) = mset reqs"
    using arg_cong [OF assms(1), of "image_mset (nth reqs)"] by (metis map_nth mset_map)
  have "fold (new_value f) (map snd (filter (\<lambda>r. fst r = i) (map (nth reqs) order))) x
      = fold (new_value f) (map snd (filter (\<lambda>r. fst r = i) reqs)) x" for i x
    by (rule fold_order) (simp only: mset_map mset_filter ms [unfolded mset_map])
  moreover have "fst r < length xs" if "r \<in> set (map (nth reqs) order)" for r
    using that mset_eq_setD [OF ms] assms(2) by blast
  ultimately show ?thesis by (simp only: batch_spec_def op op_loop_fold ebind_simps prod.case simp_thms if_True)
qed

end

interpretation add_words: commuting_update "op_elem word_ops ReturnNone Add"
  by unfold_locales (simp_all add: op_elem_def op_message_def op_arm_def update_def word_ops_def new_value_def)

interpretation sub_words: commuting_update "op_elem word_ops ReturnNone Sub"
  by unfold_locales (simp_all add: op_elem_def op_message_def op_arm_def update_def word_ops_def new_value_def)

interpretation mul_words: commuting_update "op_elem word_ops ReturnNone Mul"
  by unfold_locales (simp_all add: op_elem_def op_message_def op_arm_def update_def word_ops_def new_value_def mult.commute mult.left_commute)

interpretation and_words: commuting_update "op_elem word_ops ReturnNone And"
  by unfold_locales (simp_all add: op_elem_def op_message_def op_arm_def update_def word_ops_def new_value_def ac_simps)

interpretation or_words: commuting_update "op_elem word_ops ReturnNone Or"
  by unfold_locales (simp_all add: op_elem_def op_message_def op_arm_def update_def word_ops_def new_value_def ac_simps)

interpretation xor_words: commuting_update "op_elem word_ops ReturnNone Xor"
  by unfold_locales (simp_all add: op_elem_def op_message_def op_arm_def update_def word_ops_def new_value_def ac_simps)

text \<open>A load changes nothing.\<close>

lemma op_loop_load:
  "(\<And>r. r \<in> set rs \<Longrightarrow> fst r < length xs) \<Longrightarrow> e_optypes E = Some ts \<Longrightarrow> OpReadOnly \<in> set ts \<Longrightarrow>
   op_loop (op_elem E ReturnVals Load) rs (xs, res) = Ret (xs, res @ map (\<lambda>r. Val (xs ! fst r)) rs)"
proof (induction rs arbitrary: res)
  case (Cons r rs)
  then have "fst r < length xs" by simp
  with Cons show ?case by (cases r) (simp add: op_elem_def op_message_def op_arm_def)
qed simp

lemma map_of_zip_map: "map_of (zip ks (map f ks)) k = (if k \<in> set ks then Some (f k) else None)"
  by (induction ks) auto

lemma batch_spec_load:
  assumes "mset order = mset [0..<length reqs]" "\<And>r. r \<in> set reqs \<Longrightarrow> fst r < length xs"
    "e_optypes E = Some ts" "OpReadOnly \<in> set ts"
  shows "batch_spec E ReturnVals Load len reqs order xs
    = Ret (xs, map (\<lambda>j. if j < length reqs then Some (Val (xs ! fst (reqs ! j))) else None) [0..<len])"
proof -
  have "set order = {0..<length reqs}" using mset_eq_setD [OF assms(1)] by simp
  moreover from this have "fst r < length xs" if "r \<in> set (map (nth reqs) order)" for r
    using that nth_mem [of _ reqs] by (auto intro: assms(2))
  moreover from op_loop_load [where rs = "map (nth reqs) order" and xs = xs and E = E and res = "[]", OF this assms(3,4)]
  have "op_loop (op_elem E ReturnVals Load) (map (nth reqs) order) (xs, [])
      = Ret (xs, map (\<lambda>j. Val (xs ! fst (reqs ! j))) order)" by (simp add: o_def)
  ultimately show ?thesis by (simp add: batch_spec_def map_of_zip_map)
qed


section \<open>Properties\<close>

lemma batch_reqs_length: "length (batch_reqs vs is) \<le> max (length is) (length vs)"
  by (auto simp: batch_reqs_def)

lemma batch_reqs_indices: "set is \<subseteq> {..<n} \<Longrightarrow> r \<in> set (batch_reqs vs is) \<Longrightarrow> fst r < n"
  by (cases r; cases "is") (auto simp: batch_reqs_def simp del: zip_Cons1 dest!: set_zip_leftD split: if_splits)

lemma batch_run:
  assumes "array_ok S a" "0 < n" "local_parts_ok a L" "input_ok V vs" "input_ok I is" "set is \<subseteq> {..<ua_size a}"
    "length vs = 1 \<or> length is = 1 \<or> map length (fst V) = map length (fst I)" "\<And>rs. mset (order rs) = mset rs"
  shows "\<exists>rs. batch_requests a n V I = Ret (Some rs) \<and> mset (positions (order rs)) = mset [0..<length (batch_reqs vs is)] \<and>
    ebind (run_batch E ret cmd (length vs) (length is) (order rs) L) (\<lambda>(L', results). Ret (contents a L', results))
      = batch_spec E ret cmd (max (length is) (length vs)) (batch_reqs vs is) (positions (order rs)) (contents a L)"
proof -
  obtain rs where rs: "batch_requests a n V I = Ret (Some rs)"
    "requests_for a (batch_reqs vs is) [0..<length (batch_reqs vs is)] rs"
    using batch_requests_for [OF assms(1,2,4,5,7,6)] by blast
  with run_batch_refines [OF assms(1,3) rs(2) batch_reqs_length assms(8)] show ?thesis by blast
qed

definition parts_example :: "nat \<Rightarrow> 8 word list" where
  "parts_example pe = (if pe = 0 then [11, 15] else if pe = 1 then [12] else if pe = 2 then [13] else [10, 14])"

lemma parts_example_ok: "local_parts_ok (array_example Cyclic) parts_example"
  by (auto simp: local_parts_ok_def parts_example_def array_example_def num_elems_pe_def pe_for_dist_index_def)

lemma batch_requests_lengths:
  assumes "v = 1 \<longleftrightarrow> v' = 1" "1 < v \<longleftrightarrow> 1 < v'" "i = 1 \<longleftrightarrow> i' = 1" "1 < i \<longleftrightarrow> 1 < i'"
  shows "batch_requests a n (vals, v) (indices, i) = batch_requests a n (vals, v') (indices, i')"
  by (simp only: batch_requests_def prod.case assms)

text \<open>The parts of an input, and when two inputs have parts of the same lengths.\<close>

lemma as_op_input_parts:
  assumes "as_op_input threads inp = Ret I"
  shows "snd I = length (input_items inp)" "concat (fst I) = handled_items threads inp" "[] \<notin> set (fst I)"
    "length (handled_items threads inp) \<le> length (input_items inp)"
    "length (handled_items threads inp) = 1 \<longleftrightarrow> length (input_items inp) = 1"
    "1 < length (handled_items threads inp) \<longleftrightarrow> 1 < length (input_items inp)"
proof -
  have "snd I = length (input_items inp) \<and> concat (fst I) = handled_items threads inp \<and> [] \<notin> set (fst I) \<and>
    length (handled_items threads inp) \<le> length (input_items inp) \<and>
    (length (handled_items threads inp) = 1 \<longleftrightarrow> length (input_items inp) = 1) \<and>
    (1 < length (handled_items threads inp) \<longleftrightarrow> 1 < length (input_items inp))"
  proof (cases inp)
    case (In_Slice xs)
    show ?thesis
    proof (cases "xs = []")
      case False
      with slice_returns(1) [of threads xs I] assms In_Slice have num: "0 < op_parts threads (length xs)" "op_parts threads (length xs) \<le> length xs" by auto
      obtain parts where parts: "as_op_input_slice threads xs = Ret (parts, length xs)" "[] \<notin> set parts"
        "concat parts = handled_items threads (In_Slice xs)"
        by (rule input_ok_slice [OF False num refl refl]) (simp add: Let_def)
      with assms In_Slice have "I = (parts, length xs)" by simp
      with parts(2,3) handled_length [OF num] show ?thesis by (simp only: In_Slice input_items.simps fst_conv snd_conv simp_thms)
    qed (use assms In_Slice in \<open>auto simp: as_op_input_slice_def Let_def\<close>)
  next
    case (In_Vec xs)
    with assms show ?thesis
      by (cases "xs = []") (auto simp: as_op_input_vec_def chunks_of_def Let_def exec_simps chunks_nonempty split: if_splits)
  qed (use assms in \<open>auto simp: as_op_input_val_def\<close>)
  then show "snd I = length (input_items inp)" "concat (fst I) = handled_items threads inp" "[] \<notin> set (fst I)"
    "length (handled_items threads inp) \<le> length (input_items inp)"
    "length (handled_items threads inp) = 1 \<longleftrightarrow> length (input_items inp) = 1"
    "1 < length (handled_items threads inp) \<longleftrightarrow> 1 < length (input_items inp)" by blast+
qed

lemma chunk_lengths: "length xs = length ys \<Longrightarrow> map length (slice_chunks n xs) = map length (slice_chunks n ys)"
proof (induction n xs arbitrary: ys rule: slice_chunks.induct)
  case (1 n xs)
  show ?case
  proof (cases "xs = [] \<or> n = 0")
    case False
    with 1 have "map length (slice_chunks n (drop n xs)) = map length (slice_chunks n (drop n ys))" by simp
    with False 1(2) show ?thesis by (subst (1 2) slice_chunks.simps) auto
  qed (use 1(2) in \<open>subst (1 2) slice_chunks.simps, auto\<close>)
qed

lemma slice_part_lengths:
  assumes "as_op_input_slice threads xs = Ret I" "xs \<noteq> []"
  shows "map length (fst I) = (let num = op_parts threads (length xs); n = length xs div num in
    map (\<lambda>i. min n (length xs - i * n)) [0..<num] @ (if length xs mod n = 0 then [] else [length xs - num * n]))"
proof -
  let ?num = "op_parts threads (length xs)"
  have num: "0 < ?num" "?num \<le> length xs" using slice_returns(1) [OF assms] by auto
  have "as_op_input_slice threads xs = Ret (map (\<lambda>i. take (length xs div ?num) (drop (i * (length xs div ?num)) xs)) [0..<?num]
      @ (if length xs mod (length xs div ?num) = 0 then [] else [drop (?num * (length xs div ?num)) xs]), length xs)"
    by (rule as_op_input_slice_eq [OF assms(2) refl refl num])
  with assms(1) show ?thesis by (auto simp: Let_def min.commute)
qed

lemma part_lengths:
  assumes "as_op_input threads v = Ret V" "as_op_input threads i = Ret I" "same_kind v i"
    "length (input_items v) = length (input_items i)"
  shows "map length (fst V) = map length (fst I)"
  using assms(3)
proof (cases rule: same_kind.elims(2))
  case (2 xs ys)
  show ?thesis
  proof (cases "xs = []")
    case False
    with 2 assms(4) have "ys \<noteq> []" "length ys = length xs" by auto
    with False 2 assms(1,2) slice_part_lengths [of threads xs V] slice_part_lengths [of threads ys I] show ?thesis by (simp add: Let_def)
  qed (use assms 2 in \<open>auto simp: as_op_input_slice_def Let_def\<close>)
next
  case (3 xs ys)
  with assms show ?thesis
    by (auto simp: as_op_input_vec_def chunks_of_def Let_def exec_simps intro: chunk_lengths split: if_splits)
qed (use assms in \<open>auto simp: as_op_input_val_def\<close>)

lemma batch_inputs_run:
  fixes vi :: "'t op_input" and ii :: "nat op_input"
  defines "reqs \<equiv> \<lambda>threads. batch_reqs (handled_items threads vi) (handled_items threads ii)"
  assumes "array_ok S a" "0 < n" "as_op_input threads vi = Ret V" "as_op_input threads ii = Ret I"
    "set (handled_items threads ii) \<subseteq> {..<ua_size a}"
    "length (input_items vi) = 1 \<or> length (input_items ii) = 1 \<or>
      (same_kind vi ii \<and> length (input_items vi) = length (input_items ii))"
  shows "\<exists>rs. batch_requests a n V I = Ret (Some rs) \<and> requests_for a (reqs threads) [0..<length (reqs threads)] rs \<and>
    length (reqs threads) \<le> max (snd I) (snd V)"
proof -
  note v = as_op_input_parts [OF assms(4)] and i = as_op_input_parts [OF assms(5)]
  let ?V = "(fst V, length (handled_items threads vi))" and ?I = "(fst I, length (handled_items threads ii))"
  have ok: "input_ok ?V (handled_items threads vi)" "input_ok ?I (handled_items threads ii)"
    using v(2,3) i(2,3) by (simp_all add: input_ok_def)
  have "length (handled_items threads vi) = 1 \<or> length (handled_items threads ii) = 1 \<or> map length (fst ?V) = map length (fst ?I)"
    using assms(7) v(5) i(5) part_lengths [OF assms(4,5)] by auto
  from batch_requests_for [OF assms(2,3) ok this assms(6)]
  obtain rs where rs: "batch_requests a n ?V ?I = Ret (Some rs)" "requests_for a (reqs threads) [0..<length (reqs threads)] rs"
    unfolding reqs_def by blast
  have "batch_requests a n V I = batch_requests a n ?V ?I"
    using batch_requests_lengths [of "snd V" "length (handled_items threads vi)" "snd I" "length (handled_items threads ii)" a n "fst V" "fst I"]
    by (simp only: v(1,5,6) i(1,5,6) prod.collapse simp_thms flip: v(1) i(1))
  moreover have "length (reqs threads) \<le> max (snd I) (snd V)"
    using batch_reqs_length [of "handled_items threads vi" "handled_items threads ii"] v(1,4) i(1,4) unfolding reqs_def by linarith
  ultimately show ?thesis using rs by auto
qed




text \<open>
  A batched load of an element type with messages returns the elements at the given indices, in the order of the indices, and
  does not change the array, in whatever order its messages are executed.
\<close>

theorem batch_load_correct:
  assumes "array_ok S a" "0 < n" "local_parts_ok a L" "input_ok I is" "is \<noteq> []" "set is \<subseteq> {..<ua_size a}"
    "\<And>rs. mset (order rs) = mset rs" "e_optypes E = Some ts" "OpReadOnly \<in> set ts"
  shows "\<exists>rs L'. batch_requests a n (as_op_input_val dummy) I = Ret (Some rs) \<and> contents a L' = contents a L \<and>
    run_batch E ReturnVals Load 1 (length is) (order rs) L = Ret (L', map (\<lambda>i. Some (Val (contents a L ! i))) is)"
proof -
  let ?reqs = "batch_reqs [dummy] is"
  have "input_ok (as_op_input_val dummy) [dummy]" by (simp add: as_op_input_val_def input_ok_def)
  from batch_run [where order = order and E = E and ret = ReturnVals and cmd = Load, OF assms(1-3) this assms(4,6) _ assms(7)] obtain rs where
    rs: "batch_requests a n (as_op_input_val dummy) I = Ret (Some rs)" and
    perm: "mset (positions (order rs)) = mset [0..<length ?reqs]" and
    run: "ebind (run_batch E ReturnVals Load 1 (length is) (order rs) L) (\<lambda>(L', results). Ret (contents a L', results))
      = batch_spec E ReturnVals Load (max (length is) 1) ?reqs (positions (order rs)) (contents a L)"
    by auto
  have "fst r < length (contents a L)" if "r \<in> set ?reqs" for r
    using batch_reqs_indices [OF assms(6) that] by simp
  from batch_spec_load [OF perm this assms(8,9), where len = "max (length is) 1"] run
  have "ebind (run_batch E ReturnVals Load 1 (length is) (order rs) L) (\<lambda>(L', results). Ret (contents a L', results))
      = Ret (contents a L, map (\<lambda>j. if j < length ?reqs then Some (Val (contents a L ! fst (?reqs ! j))) else None) [0..<max (length is) 1])"
    by simp
  moreover have "map (\<lambda>j. if j < length ?reqs then Some (Val (contents a L ! fst (?reqs ! j))) else None) [0..<max (length is) 1]
      = map (\<lambda>i. Some (Val (contents a L ! i))) is"
  proof -
    have "max (length is) 1 = length is" using assms(5) by (cases "is") auto
    then show ?thesis by (intro nth_equalityI) (simp_all add: batch_reqs_def)
  qed
  ultimately show ?thesis using rs by (auto simp: exec_simps split: prod.splits)
qed

theorem batch_load_correct_witness:
  "\<exists>rs L'. batch_requests (array_example Cyclic) 1 (as_op_input_val 0) ([[4, 1], [2]], 3) = Ret (Some rs) \<and>
    contents (array_example Cyclic) L' = contents (array_example Cyclic) parts_example \<and>
    run_batch word_ops ReturnVals Load 1 3 (rev rs) parts_example
      = Ret (L', map (\<lambda>i. Some (Val (contents (array_example Cyclic) parts_example ! i))) [4, 1, 2])"
  using batch_load_correct [of 10 "array_example Cyclic" 1 parts_example "([[4, 1], [2]], 3)" "[4, 1, 2]" rev word_ops, OF _ _ _ _ _ _ _ word_optypes]
    array_example_ok parts_example_ok
  by (simp add: input_ok_def array_example_def eval_nat_numeral)

text \<open>
  A batched load of no indices returns a vector with one element, which is not initialized:
  the unused value counts as an input of length one.
\<close>

theorem batch_load_empty:
  assumes "array_ok S a"
  shows "ebind (as_op_input_vec threads []) (batch_requests a n (as_op_input_val dummy)) = Ret (Some []) \<and>
    run_batch E ReturnVals Load (snd (as_op_input_val dummy)) 0 [] L = Ret (L, [None])"
proof -
  obtain s where "op_index_size a = Ret s" using op_index_size_fits [OF assms] by blast
  then show ?thesis
    by (simp add: as_op_input_vec_def batch_requests_def as_op_input_val_def run_batch_def collect_results_def)
qed

theorem batch_load_empty_witness:
  "ebind (as_op_input_vec 4 []) (batch_requests (array_example Cyclic) 1 (as_op_input_val 0)) = Ret (Some []) \<and>
    run_batch word_ops ReturnVals Load (snd (as_op_input_val (0 :: nat))) 0 [] parts_example = Ret (parts_example, [None])"
  using batch_load_empty [of 10 "array_example Cyclic" 4 1 0 word_ops parts_example] array_example_ok
  by (simp add: as_op_input_val_def)

lemma add_words_value: "new_value (op_elem word_ops ReturnNone Add) v x = x + v"
  by (simp add: new_value_def op_elem_def op_message_def op_arm_def update_def word_ops_def)

lemma fold_add_words: "fold (new_value (op_elem word_ops ReturnNone Add)) vs x = x + sum_list vs"
  by (induction vs arbitrary: x) (simp_all add: add_words_value ac_simps)

text \<open>
  A batched addition adds to every element all the values given for its index, however often the index is
  given and in whatever order the messages are executed: no update is lost.
\<close>

theorem batch_add_sums:
  fixes L :: "nat \<Rightarrow> 'w::len word list"
  assumes "array_ok S a" "0 < n" "local_parts_ok a L" "input_ok V vs" "input_ok I is" "set is \<subseteq> {..<ua_size a}"
    "length vs = 1 \<or> length is = 1 \<or> map length (fst V) = map length (fst I)" "\<And>rs. mset (order rs) = mset rs"
  shows "\<exists>rs L'. batch_requests a n V I = Ret (Some rs) \<and>
    run_batch word_ops ReturnNone Add (length vs) (length is) (order rs) L = Ret (L', []) \<and>
    contents a L' = map (\<lambda>i. contents a L ! i + sum_list (map snd (filter (\<lambda>r. fst r = i) (batch_reqs vs is)))) [0..<ua_size a]"
proof -
  let ?reqs = "batch_reqs vs is"
  obtain rs where rs: "batch_requests a n V I = Ret (Some rs)" and
    perm: "mset (positions (order rs)) = mset [0..<length ?reqs]" and
    run: "ebind (run_batch word_ops ReturnNone Add (length vs) (length is) (order rs) L) (\<lambda>(L', results). Ret (contents a L', results))
      = batch_spec word_ops ReturnNone Add (max (length is) (length vs)) ?reqs (positions (order rs)) (contents a L)"
    using batch_run [where order = order, OF assms] by blast
  have "fst r < length (contents a L)" if "r \<in> set ?reqs" for r
    using batch_reqs_indices [OF assms(6) that] by simp
  from add_words.batch_spec_fold [OF perm this refl, where len = "max (length is) (length vs)"] run rs
  show ?thesis by (auto simp: fold_add_words exec_simps split: prod.splits)
qed

theorem batch_add_sums_witness:
  "\<exists>rs L'. batch_requests (array_example Cyclic) 1 ([[250, 2], [9]], 3) ([[5, 0], [5]], 3) = Ret (Some rs) \<and>
    run_batch word_ops ReturnNone Add 3 3 (rev rs) parts_example = Ret (L', []) \<and>
    contents (array_example Cyclic) L' = map (\<lambda>i. contents (array_example Cyclic) parts_example ! i
      + sum_list (map snd (filter (\<lambda>r. fst r = i) [(5, 250), (0, 2), (5, 9)]))) [0..<6]"
  using batch_add_sums [of 10 "array_example Cyclic" 1 parts_example "([[250, 2], [9]], 3)" "[250, 2, 9]" "([[5, 0], [5]], 3)" "[5, 0, 5]" rev]
    array_example_ok parts_example_ok
  by (simp add: input_ok_def batch_reqs_def array_example_def eval_nat_numeral)


text \<open>
   A method for one element replaces the element by the value that the operation computes, returns
  what the operation returns (the old value, or the result of a compare-exchange), and leaves the other elements
  alone; it panics exactly when the operation does.
\<close>

theorem element_op_correct:
  assumes "array_ok S a" "0 < n" "local_parts_ok a L" "i < ua_size a" "method_cmd m = (ret, cmd)"
  shows "ebind (element_op a n E m i v L) (\<lambda>r. Ret (map_option (\<lambda>(L', res). (contents a L', res)) r))
    = ebind (op_elem E ret cmd v (contents a L ! i)) (\<lambda>(y, r). Ret (Some ((contents a L)[i := y], if ret = ReturnNone then None else Some (hd r))))"
proof -
  have inputs: "input_ok (as_op_input_val v) [v]" "input_ok (as_op_input_val i) [i]" by (simp_all add: as_op_input_val_def input_ok_def)
  have "set [i] \<subseteq> {..<ua_size a}" using assms(4) by simp
  note batch_run [where order = "\<lambda>rs. rs" and vs = "[v]" and E = E and ret = ret and cmd = cmd, OF assms(1-3) inputs this]
  then obtain rs where rs: "batch_requests a n (as_op_input_val v) (as_op_input_val i) = Ret (Some rs)"
    "mset (positions rs) = mset [0..<length (batch_reqs [v] [i])]"
    "ebind (run_batch E ret cmd 1 1 rs L) (\<lambda>(L', results). Ret (contents a L', results))
      = batch_spec E ret cmd 1 (batch_reqs [v] [i]) (positions rs) (contents a L)"
    by auto
  have "positions rs = [0]" using rs(2) by (simp add: batch_reqs_def)
  with rs(3) have run: "ebind (run_batch E ret cmd 1 1 rs L) (\<lambda>(L', results). Ret (contents a L', results))
      = ebind (op_elem E ret cmd v (contents a L ! i)) (\<lambda>(y, r). Ret ((contents a L)[i := y],
          if ret = ReturnNone then [] else [map_of (zip [0 :: nat] r) 0]))"
    using assms(4) by (cases "op_elem E ret cmd v (contents a L ! i)") (auto simp: batch_spec_def batch_reqs_def split: prod.splits)
  show ?thesis
  proof (cases "op_elem E ret cmd v (contents a L ! i)")
    case (Panic p)
    with run have "run_batch E ret cmd 1 1 rs L = Panic p" by (cases "run_batch E ret cmd 1 1 rs L") (auto split: prod.splits)
    with Panic show ?thesis by (simp add: element_op_def assms(5) rs(1))
  next
    case (Ret yr)
    obtain y r where yr: "yr = (y, r)" by fastforce
    with Ret have "length r = (if ret = ReturnNone then 0 else 1)" using op_elem_results [of E ret cmd v _ y r] by simp
    then have r: "ret \<noteq> ReturnNone \<Longrightarrow> r = [hd r]" by (cases r) auto
    obtain L' where "run_batch E ret cmd 1 1 rs L = Ret (L', if ret = ReturnNone then [] else [Some (hd r)])"
      "contents a L' = (contents a L)[i := y]"
    proof (cases "ret = ReturnNone")
      case True
      with run Ret yr that show thesis by (cases "run_batch E ret cmd 1 1 rs L") (auto split: prod.splits)
    next
      case False
      with r obtain x where x: "r = [x]" by blast
      with False run Ret yr that show thesis by (cases "run_batch E ret cmd 1 1 rs L") (auto split: prod.splits)
    qed
    with Ret yr show ?thesis by (simp add: element_op_def assms(5) rs(1))
  qed
qed

theorem element_op_correct_witness:
  "ebind (element_op (array_example Cyclic) 1 word_ops (Arithmetic M_fetch_sub) 4 3 parts_example)
      (\<lambda>r. Ret (map_option (\<lambda>(L', res). (contents (array_example Cyclic) L', res)) r))
    = ebind (op_elem word_ops ReturnVals FetchSub 3 (contents (array_example Cyclic) parts_example ! 4)) (\<lambda>(y, r).
        Ret (Some ((contents (array_example Cyclic) parts_example)[4 := y], Some (hd r))))"
  using element_op_correct [of 10 "array_example Cyclic" 1 parts_example 4 "Arithmetic M_fetch_sub" ReturnVals FetchSub word_ops 3]
    array_example_ok parts_example_ok
  by (simp add: array_example_def)

text \<open>The results that a return type promises, for an element with the old value \<open>x\<close> and the new value \<open>y\<close>.\<close>

fun results_typed :: "batch_return_type \<Rightarrow> 't \<Rightarrow> 't \<Rightarrow> 't \<Rightarrow> 't op_res list \<Rightarrow> bool" where
  "results_typed ReturnNone v x y r \<longleftrightarrow> r = []"
| "results_typed ReturnVals v x y r \<longleftrightarrow> r = [Val x]"
| "results_typed ReturnResult v x y r \<longleftrightarrow> (r = [ErrRes x] \<and> y = x) \<or> ((\<exists>old. r = [OkRes old]) \<and> y = v)"

definition operators :: "'t elem_ops \<Rightarrow> ('t \<Rightarrow> 't \<Rightarrow> 't exec) set" where
  "operators E = {e_add E, e_sub E, e_mul E, e_div E, e_rem E, e_and E, e_or E, e_xor E, e_shl E, e_shr E}"

lemma in_operators:
  "e_add E \<in> operators E" "e_sub E \<in> operators E" "e_mul E \<in> operators E" "e_div E \<in> operators E" "e_rem E \<in> operators E"
  "e_and E \<in> operators E" "e_or E \<in> operators E" "e_xor E \<in> operators E" "e_shl E \<in> operators E" "e_shr E \<in> operators E"
  by (simp_all add: operators_def)

text \<open>An operation returns what its return type promises, or an operator of the element type panics.\<close>

definition op_typed :: "'t elem_ops \<Rightarrow> batch_return_type \<Rightarrow> 't array_op_cmd \<Rightarrow> 't \<Rightarrow> 't \<Rightarrow> bool" where
  "op_typed E ret cmd v x = (case op_elem E ret cmd v x of Ret (y, r) \<Rightarrow> results_typed ret v x y r
     | Panic p \<Rightarrow> \<exists>f \<in> operators E. \<exists>y z. f y z = Panic p)"

lemma op_typed_update:
  assumes "f \<in> operators E"
  shows "case update f v x of Ret (y, r) \<Rightarrow> results_typed ReturnNone v x y r | Panic p \<Rightarrow> \<exists>f \<in> operators E. \<exists>y z. f y z = Panic p"
    "case fetch_update f v x of Ret (y, r) \<Rightarrow> results_typed ReturnVals v x y r | Panic p \<Rightarrow> \<exists>f \<in> operators E. \<exists>y z. f y z = Panic p"
  using assms by (cases "f x v"; auto simp: update_def fetch_update_def)+

text \<open>A method has the arm of its group in the message of its return type.\<close>

lemma method_typed:
  assumes "e_optypes E = Some ts" "method_type m \<in> set ts" "method_cmd m = (ret, cmd)"
  shows "op_typed E ret cmd v x"
proof (cases m)
  case (Arithmetic k)
  with assms show ?thesis
    by (cases k) (auto simp: op_typed_def op_elem_def op_message_def op_arm_def op_typed_update in_operators)
next
  case (Bitwise k)
  with assms show ?thesis
    by (cases k) (auto simp: op_typed_def op_elem_def op_message_def op_arm_def op_typed_update in_operators)
next
  case (Shift k)
  with assms show ?thesis
    by (cases k) (auto simp: op_typed_def op_elem_def op_message_def op_arm_def op_typed_update in_operators)
next
  case (Access k)
  with assms show ?thesis by (cases k) (auto simp: op_typed_def op_elem_def op_message_def op_arm_def)
next
  case (Compare_Exchange_Epsilon current eps)
  moreover have "\<exists>f \<in> operators E. \<exists>y z. f y z = Panic p" if "e_sub E y z = Panic p" for y z p
    using that in_operators(2) by blast
  ultimately show ?thesis using assms
    by (cases "e_sub E current x"; cases "e_sub E x current")
      (auto simp: op_typed_def op_elem_def op_message_def op_arm_def compare_exchange_epsilon_ops_def)
qed (use assms in \<open>auto simp: op_typed_def op_elem_def op_message_def op_arm_def read_only_ops_def compare_exchange_ops_def\<close>)



text \<open>
  The parts of a vector are those of the input.  The parts of a slice are so except when the length of a part divides that
  of the input and more than the given number of parts would be needed: then the rest of the slice is lost.
\<close>

theorem op_input_parts:
  assumes "xs \<noteq> []" "0 < threads" "length xs < 1000 \<or> threads \<le> length xs"
    "num = op_parts threads (length xs)" "n = length xs div num"
  shows "\<exists>V I. as_op_input_vec threads xs = Ret V \<and> input_ok V xs \<and> as_op_input_slice threads xs = Ret I \<and>
    (input_ok I xs \<longleftrightarrow> \<not> (n dvd length xs \<and> num * n < length xs)) \<and>
    concat (fst I) = (if n dvd length xs then take (num * n) xs else xs) \<and> snd I = length xs"
proof -
  obtain parts where "as_op_input_slice threads xs = Ret (parts, length xs)" "[] \<notin> set parts"
    "concat parts = (if n dvd length xs then take (num * n) xs else xs)"
  proof -
    have "0 < num" "num \<le> length xs" using assms by (auto simp: op_parts_def Suc_le_eq)
    from that input_ok_slice [OF assms(1) this assms(4,5)] show thesis by blast
  qed
  moreover have "take (num * n) xs = xs \<longleftrightarrow> \<not> num * n < length xs"
    by (metis length_take linorder_not_le min.absorb_iff1 min.strict_order_iff take_all)
  ultimately show ?thesis using input_ok_vec [OF assms(2,3)] by (auto simp: input_ok_def)
qed

theorem op_input_parts_witness:
  "\<exists>V I. as_op_input_vec 64 (replicate 1005 (0 :: nat)) = Ret V \<and> input_ok V (replicate 1005 0) \<and>
    as_op_input_slice 64 (replicate 1005 (0 :: nat)) = Ret I \<and>
    concat (fst I) = take 960 (replicate 1005 0) \<and> snd I = 1005"
proof -
  have "replicate 1005 (0 :: nat) \<noteq> []" "(0 :: nat) < 64"
    "length (replicate 1005 (0 :: nat)) < 1000 \<or> 64 \<le> length (replicate 1005 (0 :: nat))"
    "64 = op_parts 64 (length (replicate 1005 (0 :: nat)))" "15 = length (replicate 1005 (0 :: nat)) div 64"
    by (simp_all add: op_parts_def)
  from op_input_parts [OF this] show ?thesis by auto
qed

lemma multi_val_task_returns:
  assumes "array_ok S a" "set ixs \<subseteq> {..<ua_size a}"
  shows "\<exists>rs. multi_val_task a n s ((st, ixs), vs) = Ret rs"
proof -
  let ?F = "\<lambda>(ii, idx, val). ebind (place a idx) (\<lambda>(pe, local_index). Ret (pe, ((cast_index s local_index, val), ii + st)))"
  have "idx < ua_size a" if "(ii, idx, val) \<in> set (enumerate 0 (zip ixs vs))" for ii idx val
    using set_zip_leftD [OF set_zip_rightD [OF that [unfolded enumerate_eq_zip]]] assms(2) by auto
  then have "emap ?F (enumerate 0 (zip ixs vs)) = Ret (map (\<lambda>(ii, idx, val). (home a idx, ((cast_index s (rank a (home a idx) idx), val), ii + st))) (enumerate 0 (zip ixs vs)))"
    by (intro emap_eq) (auto simp: place_eq [OF assms(1)])
  then show ?thesis by (auto simp: multi_val_task_def)
qed

lemma emap_returns: "(\<And>x. x \<in> set xs \<Longrightarrow> \<exists>y. f x = Ret y) \<Longrightarrow> \<exists>ys. emap f xs = Ret ys"
  by (induction xs) fastforce+

lemma with_starts_parts: "(st, xs) \<in> set (with_starts k xss) \<Longrightarrow> xs \<in> set xss"
  by (induction xss arbitrary: k) auto

text \<open>
  When the values are a vector and the indices a slice, the values may have more parts than the
  indices although the lengths agree.  Then the call never returns: it waits for as many
  tasks as the values have parts, but starts only as many as the indices have.
\<close>

theorem mixed_inputs_hang:
  assumes "array_ok S a" "as_op_input_vec threads vs = Ret V" "as_op_input_slice threads is = Ret I"
    "1 < length vs" "length is = length vs" "length (fst I) < length (fst V)" "set is \<subseteq> {..<ua_size a}"
  shows "batch_requests a n V I = Ret None"
proof -
  obtain vals indices where V: "V = (vals, length vs)" and I: "I = (indices, length is)"
    using assms(2,3,4,5)
    by (cases V, cases I) (auto simp: as_op_input_vec_def as_op_input_slice_def chunks_of_def Let_def exec_simps split: if_splits)
  have sub: "set (concat indices) \<subseteq> set is"
    using assms(3-5) I by (auto simp: as_op_input_slice_def Let_def exec_simps dest!: in_set_takeD in_set_dropD split: if_splits)
  obtain s where s: "op_index_size a = Ret s" using op_index_size_fits [OF assms(1)] by blast
  have "\<exists>rs. multi_val_task a n s p = Ret rs" if p: "p \<in> set (zip (with_starts 0 indices) vals)" for p
  proof -
    obtain st ixs w where "p = ((st, ixs), w)" by (metis prod.exhaust)
    moreover from this p have "ixs \<in> set indices" using with_starts_parts set_zip_leftD by fast
    ultimately show ?thesis using multi_val_task_returns [OF assms(1)] sub assms(7) by fastforce
  qed
  then obtain rs where rs: "emap (multi_val_task a n s) (zip (with_starts 0 indices) vals) = Ret rs"
    using emap_returns by blast
  from length_emap [OF rs] have "length rs < length vals" using assms(6) V I by simp
  with rs s show ?thesis using assms(4,5) by (simp add: batch_requests_def V I multi_val_multi_index_def)
qed


theorem mixed_inputs_hang_witness:
  "ebind (as_op_input_vec 64 (replicate 1003 (0 :: 8 word))) (\<lambda>V. ebind (as_op_input_slice 64 (replicate 1003 0)) (\<lambda>I.
     batch_requests (array_example Cyclic) 10000 V I)) = Ret None"
proof -
  let ?vs = "replicate 1003 (0 :: 8 word)" and ?is = "replicate 1003 (0 :: nat)"
  let ?I = "(map (\<lambda>i. take 15 (drop (i * 15) ?is)) [0..<64] @ [drop (64 * 15) ?is], length ?is)"
  have V: "as_op_input_vec 64 ?vs = Ret (slice_chunks 15 ?vs, length ?vs)"
    by (simp add: as_op_input_vec_def Let_def op_parts_def chunks_of_def)
  have I: "as_op_input_slice 64 ?is = Ret ?I"
    by (subst as_op_input_slice_eq [where num = 64 and n = 15]) (simp_all add: op_parts_def)
  have "batch_requests (array_example Cyclic) 10000 (slice_chunks 15 ?vs, length ?vs) ?I = Ret None"
    by (rule mixed_inputs_hang [OF conjunct1 [OF array_example_ok] V I]) (simp_all add: length_chunks array_example_def)
  with V I show ?thesis by (simp only: ebind_simps)
qed

end
