(* ===== verification/Darc.thy ===== *)
theory Darc
  imports Lamellar_Prelude
begin

text \<open>
  The distributed reference counter (\<open>darc.rs\<close>): the memory layout of a darc, the counters of
  \<open>DarcInner\<close> on every PE of the team, and the tasks that change them, one atomic operation at a time.  A
  task is a reference that user code holds, a call on it that is in progress, or a message on its way.
  The counters start at the creation of the darc; fewer than \<open>2 ^ 64\<close> references are ever made, so
  that \<open>fetch_add\<close> is addition.  An underflow of \<open>fetch_sub\<close> is written out and shown not to happen.
\<close>

section \<open>Memory layout\<close>

datatype darc_mode = Dropped | DarcMode | LocalRw | GlobalRw | UnsafeArray | ReadOnlyArray
  | GenericAtomicArray | NativeAtomicArray | LocalLockArray | GlobalLockArray

text \<open>
  \<open>try_new_with_drop\<close> allocates the inner structure of \<open>inner_size\<close> bytes and five arrays with an
  entry per PE behind it.  A \<open>usize\<close> has 8 bytes and the \<open>repr(u8)\<close> mode has one.
\<close>

definition darc_alloc_size :: "nat \<Rightarrow> nat \<Rightarrow> nat" where
  "darc_alloc_size inner_size num_pes = inner_size + num_pes * 8 + num_pes * 8 + num_pes * 1 + num_pes * 8 + num_pes * 8"

record darc_addrs =
  ref_cnt_addr :: nat
  total_ref_cnt_addr :: nat
  mode_addr :: nat
  mode_ref_cnt_addr :: nat
  mode_barrier_addr :: nat

definition darc_layout :: "nat \<Rightarrow> nat \<Rightarrow> nat \<Rightarrow> darc_addrs" where
  "darc_layout addr inner_size num_pes = \<lparr>
     ref_cnt_addr = addr + inner_size,
     total_ref_cnt_addr = addr + inner_size + num_pes * 8,
     mode_addr = addr + inner_size + num_pes * 8 + num_pes * 8,
     mode_ref_cnt_addr = addr + inner_size + num_pes * 8 + num_pes * 8 + num_pes * 1,
     mode_barrier_addr = addr + inner_size + num_pes * 8 + num_pes * 8 + num_pes * 1 + num_pes * 8\<rparr>"

section \<open>State\<close>

record darc_inner =
  local_cnt :: nat
  total_local_cnt :: nat
  weak_local_cnt :: nat
  dist_cnt :: nat
  total_dist_cnt :: nat
  ref_cnt :: "nat \<Rightarrow> nat"
  total_ref_cnt :: "nat \<Rightarrow> nat"
  modes :: "nat \<Rightarrow> darc_mode"
  mode_ref_cnt :: "nat \<Rightarrow> nat"
  mode_barrier :: "nat \<Rightarrow> nat"
  valid :: bool
  item_dropped :: bool
  freed :: bool

text \<open>
  A darc just created.  The array of total counts is the only one that the code does not set, so
  that its start is the contents \<open>mem\<close> of the memory.
\<close>

definition try_new_with_drop :: "darc_mode \<Rightarrow> (nat \<Rightarrow> nat) \<Rightarrow> darc_inner" where
  "try_new_with_drop state mem = \<lparr>local_cnt = 1, total_local_cnt = 1, weak_local_cnt = 0, dist_cnt = 0,
     total_dist_cnt = 0, ref_cnt = (\<lambda>_. 0), total_ref_cnt = mem, modes = (\<lambda>_. state), mode_ref_cnt = (\<lambda>_. 0),
     mode_barrier = (\<lambda>_. 0), valid = True, item_dropped = False, freed = False\<rparr>"

type_synonym inners = "nat \<Rightarrow> darc_inner"

definition on_pe :: "nat \<Rightarrow> (darc_inner \<Rightarrow> darc_inner) \<Rightarrow> inners \<Rightarrow> inners" where
  "on_pe p f I = I(p := f (I p))"

definition cnt_sub :: "nat \<Rightarrow> nat \<Rightarrow> nat" where
  "cnt_sub a k = (if k \<le> a then a - k else a + usize_mod - k)"

section \<open>Counter updates\<close>

definition add_local :: "nat \<Rightarrow> darc_inner \<Rightarrow> darc_inner" where
  "add_local n d = d\<lparr>local_cnt := local_cnt d + n\<rparr>"

definition add_total_local :: "nat \<Rightarrow> darc_inner \<Rightarrow> darc_inner" where
  "add_total_local n d = d\<lparr>total_local_cnt := total_local_cnt d + n\<rparr>"

definition sub_local :: "nat \<Rightarrow> darc_inner \<Rightarrow> darc_inner" where
  "sub_local n d = d\<lparr>local_cnt := cnt_sub (local_cnt d) n\<rparr>"

definition add_dist :: "nat \<Rightarrow> darc_inner \<Rightarrow> darc_inner" where
  "add_dist n d = d\<lparr>dist_cnt := dist_cnt d + n\<rparr>"

definition add_total_dist :: "nat \<Rightarrow> darc_inner \<Rightarrow> darc_inner" where
  "add_total_dist n d = d\<lparr>total_dist_cnt := total_dist_cnt d + n\<rparr>"

definition add_total_ref :: "nat \<Rightarrow> nat \<Rightarrow> darc_inner \<Rightarrow> darc_inner" where
  "add_total_ref pe n d = d\<lparr>total_ref_cnt := (total_ref_cnt d)(pe := total_ref_cnt d pe + n)\<rparr>"

definition add_ref :: "nat \<Rightarrow> nat \<Rightarrow> darc_inner \<Rightarrow> darc_inner" where
  "add_ref pe n d = d\<lparr>ref_cnt := (ref_cnt d)(pe := ref_cnt d pe + n)\<rparr>"

text \<open>The methods made of them.\<close>

definition serialize_update_cnts :: "nat \<Rightarrow> darc_inner \<Rightarrow> darc_inner" where
  "serialize_update_cnts cnt d = add_total_dist cnt (add_dist cnt d)"

definition inc_pe_ref_count :: "nat \<Rightarrow> nat \<Rightarrow> darc_inner \<Rightarrow> darc_inner" where
  "inc_pe_ref_count pe amt d = add_ref pe amt (add_total_ref pe amt d)"

definition inc_local_cnt :: "nat \<Rightarrow> darc_inner \<Rightarrow> darc_inner" where
  "inc_local_cnt cnt d = add_total_local cnt (add_local cnt d)"

definition deserialize_update_cnts :: "nat \<Rightarrow> darc_inner \<Rightarrow> darc_inner" where
  "deserialize_update_cnts src_pe d = add_total_local 1 (add_local 1 (inc_pe_ref_count src_pe 1 d))"

section \<open>Tasks\<close>

datatype ser_phase = SerDist | SerTotalDist | SerClone | SerCloneTotal

datatype des_phase = DesTotalRef | DesRef | DesLocal | DesTotalLocal

datatype drop_phase = DropSub | DropScan nat | DropSwap nat | DropLoad | DropMode "darc_mode list"

datatype upgrade_phase = UpLocal | UpTotalLocal | UpValid | UpFail

text \<open>
  \<open>Handle p\<close> is a \<open>Darc\<close> that user code on PE \<open>p\<close> owns and \<open>Weak p\<close> a \<open>WeakDarc\<close>; \<open>Net p q\<close> an active
  message with the serialized darc from \<open>p\<close> to \<open>q\<close>; \<open>FinishedAm q n\<close> the message that returns \<open>n\<close>
  references to \<open>q\<close>; \<open>DroppedWait p\<close> the garbage collection task that \<open>launch_drop\<close> starts; \<open>Dangling
  p\<close> an access to the memory of the darc on \<open>p\<close> after it was freed.
\<close>

datatype darc_task =
    Handle nat
  | Cloning nat
  | Ser nat ser_phase "nat list"
  | Net nat nat
  | Des nat nat des_phase
  | Dropping nat drop_phase
  | FinishedAm nat nat
  | Weak nat
  | Upgrade nat upgrade_phase
  | DroppedWait nat
  | Dangling nat

text \<open>What the owner of a reference does next.\<close>

datatype darc_call = CallClone | CallSend "nat list" | CallDrop | CallDowngrade | Next

text \<open>
  The team and the collective call (\<open>block_on_outstanding\<close>) its PEs take part in: the number of PEs, the mode
  to change to and the number of references beyond its own that the caller holds.  \<open>cf_split\<close>
  says that other threads may run between the counter updates of \<open>deserialize_update_cnts\<close>, \<open>cf_weak\<close>
  that the program makes weak references.
\<close>

record darc_cfg =
  cf_pes :: nat
  cf_mode :: darc_mode
  cf_extra :: nat
  cf_split :: bool
  cf_weak :: bool

fun task_pe :: "darc_task \<Rightarrow> nat" where
  "task_pe (Handle p) = p"
| "task_pe (Cloning p) = p"
| "task_pe (Ser p ph ds) = p"
| "task_pe (Net p q) = q"
| "task_pe (Des q p ph) = q"
| "task_pe (Dropping p ph) = p"
| "task_pe (FinishedAm q n) = q"
| "task_pe (Weak p) = p"
| "task_pe (Upgrade p ph) = p"
| "task_pe (DroppedWait p) = p"
| "task_pe (Dangling p) = p"

subsection \<open>Operations\<close>

type_synonym act_result = "(darc_task list \<times> inners) option"

text \<open>Calls on a reference: \<open>clone\<close>, \<open>DarcSerde::ser\<close>, \<open>drop\<close> and \<open>downgrade\<close>.\<close>

fun handle_act :: "darc_cfg \<Rightarrow> darc_call \<Rightarrow> nat \<Rightarrow> inners \<Rightarrow> act_result" where
  "handle_act c CallClone p I = Some ([Cloning p], on_pe p (add_local 1) I)"
| "handle_act c (CallSend ds) p I = (if list_all (\<lambda>q. q < cf_pes c) ds then Some ([Ser p SerDist ds], I) else None)"
| "handle_act c CallDrop p I = Some ([Dropping p DropSub], I)"
| "handle_act c CallDowngrade p I = (if cf_weak c
     then Some ([Handle p, Weak p], on_pe p (\<lambda>d. d\<lparr>weak_local_cnt := weak_local_cnt d + 1\<rparr>) I) else None)"
| "handle_act c Next p I = None"

definition clone_act :: "nat \<Rightarrow> inners \<Rightarrow> act_result" where
  "clone_act p I = Some ([Handle p, Handle p], on_pe p (add_total_local 1) I)"

text \<open>
  \<open>ser\<close> counts the messages and then makes a clone for the conversion to \<open>__NetworkDarc\<close>, which drops it; the drop
  is a task of its own.  The serialized darc names the sending PE as its source.
\<close>

fun ser_act :: "nat \<Rightarrow> ser_phase \<Rightarrow> nat list \<Rightarrow> inners \<Rightarrow> act_result" where
  "ser_act p SerDist ds I = Some ([Ser p SerTotalDist ds], on_pe p (add_dist (length ds)) I)"
| "ser_act p SerTotalDist ds I = Some ([Ser p SerClone ds], on_pe p (add_total_dist (length ds)) I)"
| "ser_act p SerClone ds I = Some ([Ser p SerCloneTotal ds], on_pe p (add_local 1) I)"
| "ser_act p SerCloneTotal ds I = Some (Handle p # Dropping p DropSub # map (Net p) ds, on_pe p (add_total_local 1) I)"

text \<open>
  The receiver of a message: the darc is deserialized and \<open>des\<close> counts it.  The four counter updates of \<open>deserialize_update_cnts\<close> are separate
  operations in the code, which is the case \<open>cf_split\<close>; the other case runs them as one step, to say what holds as long as no other thread
  runs in between.
\<close>

fun net_act :: "darc_cfg \<Rightarrow> nat \<Rightarrow> nat \<Rightarrow> inners \<Rightarrow> act_result" where
  "net_act c p q I = (if cf_split c then Some ([Des q p DesTotalRef], I)
     else Some ([Handle q], on_pe q (deserialize_update_cnts p) I))"

fun des_act :: "nat \<Rightarrow> nat \<Rightarrow> des_phase \<Rightarrow> inners \<Rightarrow> act_result" where
  "des_act q p DesTotalRef I = Some ([Des q p DesRef], on_pe q (add_total_ref p 1) I)"
| "des_act q p DesRef I = Some ([Des q p DesLocal], on_pe q (add_ref p 1) I)"
| "des_act q p DesLocal I = Some ([Des q p DesTotalLocal], on_pe q (add_local 1) I)"
| "des_act q p DesTotalLocal I = Some ([Handle q], on_pe q (add_total_local 1) I)"

text \<open>
  One round of the loop of \<open>send_finished\<close>: the count of references from PE \<open>k\<close> is swapped with 0, and if
  it was not 0 it is sent back.
\<close>

definition swap_ref :: "nat \<Rightarrow> nat \<Rightarrow> inners \<Rightarrow> darc_task list \<times> inners" where
  "swap_ref p k I = ((if 0 < ref_cnt (I p) k then [FinishedAm k (ref_cnt (I p) k)] else []),
     on_pe p (\<lambda>d. d\<lparr>ref_cnt := (ref_cnt d)(k := 0)\<rparr>) I)"

text \<open>The modes that \<open>drop\<close> tries to replace by \<open>Dropped\<close>, in the order of the code.\<close>

definition drop_modes :: "darc_mode list" where
  "drop_modes = [DarcMode, LocalRw, GlobalRw, LocalRw, UnsafeArray, ReadOnlyArray, LocalLockArray, GlobalLockArray,
     GenericAtomicArray, NativeAtomicArray]"

text \<open>\<open>Drop for Darc\<close>.\<close>

fun drop_act :: "darc_cfg \<Rightarrow> nat \<Rightarrow> drop_phase \<Rightarrow> inners \<Rightarrow> act_result" where
  "drop_act c p DropSub I = Some ([Dropping p (if local_cnt (I p) = 1 then DropScan 0 else DropLoad)], on_pe p (sub_local 1) I)"
| "drop_act c p (DropScan k) I = (if k < cf_pes c
     then Some ([Dropping p (if 0 < ref_cnt (I p) k then DropSwap 0 else DropScan (Suc k))], I)
     else Some ([Dropping p DropLoad], I))"
| "drop_act c p (DropSwap k) I = (if k < cf_pes c
     then (case swap_ref p k I of (ms, I') \<Rightarrow> Some (Dropping p (DropSwap (Suc k)) # ms, I'))
     else Some ([Dropping p DropLoad], I))"
| "drop_act c p DropLoad I = Some (if local_cnt (I p) = 0 then [Dropping p (DropMode drop_modes)] else [], I)"
| "drop_act c p (DropMode []) I = Some ([], I)"
| "drop_act c p (DropMode (m # ms)) I = (if modes (I p) p = m
     then Some ([DroppedWait p], on_pe p (\<lambda>d. d\<lparr>modes := (modes d)(p := Dropped)\<rparr>) I)
     else Some ([Dropping p (DropMode ms)], I))"

text \<open>\<open>FinishedAm::exec\<close>.\<close>

definition finished_act :: "nat \<Rightarrow> nat \<Rightarrow> inners \<Rightarrow> act_result" where
  "finished_act q n I = Some ([], on_pe q (\<lambda>d. d\<lparr>dist_cnt := cnt_sub (dist_cnt d) n\<rparr>) I)"

text \<open>\<open>WeakDarc\<close>: \<open>clone\<close>, \<open>drop\<close> and \<open>upgrade\<close>.\<close>

fun weak_act :: "darc_call \<Rightarrow> nat \<Rightarrow> inners \<Rightarrow> act_result" where
  "weak_act CallClone p I = Some ([Weak p, Weak p], on_pe p (\<lambda>d. d\<lparr>weak_local_cnt := weak_local_cnt d + 1\<rparr>) I)"
| "weak_act CallDrop p I = Some ([], on_pe p (\<lambda>d. d\<lparr>weak_local_cnt := cnt_sub (weak_local_cnt d) 1\<rparr>) I)"
| "weak_act Next p I = Some ([Upgrade p UpLocal], I)"
| "weak_act _ p I = None"

fun upgrade_act :: "nat \<Rightarrow> upgrade_phase \<Rightarrow> inners \<Rightarrow> act_result" where
  "upgrade_act p UpLocal I = Some ([Upgrade p UpTotalLocal], on_pe p (add_local 1) I)"
| "upgrade_act p UpTotalLocal I = Some ([Upgrade p UpValid], on_pe p (add_total_local 1) I)"
| "upgrade_act p UpValid I = Some (if valid (I p) then [Weak p, Handle p] else [Upgrade p UpFail], I)"
| "upgrade_act p UpFail I = Some ([Weak p], on_pe p (sub_local 1) I)"

fun live_act :: "darc_cfg \<Rightarrow> darc_call \<Rightarrow> darc_task \<Rightarrow> inners \<Rightarrow> act_result" where
  "live_act c call (Handle p) I = handle_act c call p I"
| "live_act c call (Cloning p) I = clone_act p I"
| "live_act c call (Ser p ph ds) I = ser_act p ph ds I"
| "live_act c call (Net p q) I = net_act c p q I"
| "live_act c call (Des q p ph) I = des_act q p ph I"
| "live_act c call (Dropping p ph) I = drop_act c p ph I"
| "live_act c call (FinishedAm q n) I = finished_act q n I"
| "live_act c call (Weak p) I = weak_act call p I"
| "live_act c call (Upgrade p ph) I = upgrade_act p ph I"
| "live_act c call (DroppedWait p) I = None"
| "live_act c call (Dangling p) I = None"

text \<open>Every task reads or writes the inner structure on its PE.\<close>

definition darc_act :: "darc_cfg \<Rightarrow> darc_call \<Rightarrow> darc_task \<Rightarrow> inners \<Rightarrow> act_result" where
  "darc_act c call t I = (case live_act c call t I of None \<Rightarrow> None
     | Some r \<Rightarrow> Some (if freed (I (task_pe t)) then ([Dangling (task_pe t)], I) else r))"

section \<open>Layout\<close>

text \<open>The five arrays lie behind each other and fill the allocation.\<close>

lemma darc_layout_tiles:
  assumes "l = darc_layout addr inner_size n"
  shows "region addr (darc_alloc_size inner_size n) = region addr inner_size \<union> region (ref_cnt_addr l) (n * 8)
      \<union> region (total_ref_cnt_addr l) (n * 8) \<union> region (mode_addr l) n \<union> region (mode_ref_cnt_addr l) (n * 8)
      \<union> region (mode_barrier_addr l) (n * 8)"
    and "ref_cnt_addr l = addr + inner_size" "total_ref_cnt_addr l = ref_cnt_addr l + n * 8"
      "mode_addr l = total_ref_cnt_addr l + n * 8" "mode_ref_cnt_addr l = mode_addr l + n"
      "mode_barrier_addr l = mode_ref_cnt_addr l + n * 8"
      "mode_barrier_addr l + n * 8 = addr + darc_alloc_size inner_size n"
  by (auto simp: assms darc_layout_def darc_alloc_size_def region_def)

section \<open>Conservation of references\<close>

text \<open>What a task contributes to the counters of PE \<open>p\<close>.\<close>

fun local_weight :: "nat \<Rightarrow> darc_task \<Rightarrow> nat" where
  "local_weight p (Handle q) = of_bool (q = p)"
| "local_weight p (Cloning q) = 2 * of_bool (q = p)"
| "local_weight p (Ser q ph ds) = (if ph = SerCloneTotal then 2 else 1) * of_bool (q = p)"
| "local_weight p (Des q r ph) = of_bool (q = p \<and> ph = DesTotalLocal)"
| "local_weight p (Dropping q ph) = of_bool (q = p \<and> ph = DropSub)"
| "local_weight p (Upgrade q ph) = of_bool (q = p \<and> ph \<noteq> UpLocal)"
| "local_weight p _ = 0"

fun dist_weight :: "nat \<Rightarrow> darc_task \<Rightarrow> nat" where
  "dist_weight p (Ser q ph ds) = (if ph = SerDist then 0 else length ds) * of_bool (q = p)"
| "dist_weight p (Net q r) = of_bool (q = p)"
| "dist_weight p (Des r q ph) = of_bool (q = p \<and> (ph = DesTotalRef \<or> ph = DesRef))"
| "dist_weight p (FinishedAm q n) = n * of_bool (q = p)"
| "dist_weight p _ = 0"

fun total_dist_weight :: "nat \<Rightarrow> darc_task \<Rightarrow> nat" where
  "total_dist_weight p (Ser q ph ds) = (if ph = SerDist \<or> ph = SerTotalDist then 0 else length ds) * of_bool (q = p)"
| "total_dist_weight p (Net q r) = of_bool (q = p)"
| "total_dist_weight p (Des r q ph) = of_bool (q = p \<and> ph = DesTotalRef)"
| "total_dist_weight p _ = 0"

fun weak_weight :: "nat \<Rightarrow> darc_task \<Rightarrow> nat" where
  "weak_weight p (Weak q) = of_bool (q = p)"
| "weak_weight p (Upgrade q ph) = of_bool (q = p)"
| "weak_weight p _ = 0"

definition weigh :: "(darc_task \<Rightarrow> nat) \<Rightarrow> darc_task list \<Rightarrow> nat" where
  "weigh w ts = sum_list (map w ts)"

lemma weigh_simps [simp]:
  "weigh w [] = 0" "weigh w (t # ts) = w t + weigh w ts" "weigh w (ts @ us) = weigh w ts + weigh w us"
  by (simp_all add: weigh_def)

lemma weigh_zero [simp]: "weigh w ts = 0 \<longleftrightarrow> (\<forall>t\<in>set ts. w t = 0)"
  by (simp add: weigh_def)

lemma weigh_Nets [simp]:
  "weigh (local_weight p) (map (Net q) ds) = 0" "weigh (weak_weight p) (map (Net q) ds) = 0"
  "weigh (dist_weight p) (map (Net q) ds) = length ds * of_bool (q = p)"
  "weigh (total_dist_weight p) (map (Net q) ds) = length ds * of_bool (q = p)"
  by (induction ds) simp_all

fun task_ok :: "nat \<Rightarrow> darc_task \<Rightarrow> bool" where
  "task_ok N (Ser p ph ds) \<longleftrightarrow> p < N \<and> list_all (\<lambda>q. q < N) ds"
| "task_ok N (Net p q) \<longleftrightarrow> p < N \<and> q < N"
| "task_ok N (Des q p ph) \<longleftrightarrow> p < N \<and> q < N"
| "task_ok N (Dropping p ph) \<longleftrightarrow> p < N"
| "task_ok N (FinishedAm q n) \<longleftrightarrow> q < N"
| "task_ok N t \<longleftrightarrow> task_pe t < N"

text \<open>References that came from PE \<open>p\<close> and are counted on the PEs.\<close>

definition refs_from :: "nat \<Rightarrow> inners \<Rightarrow> nat \<Rightarrow> nat" where
  "refs_from N I p = (\<Sum>q<N. ref_cnt (I q) p)"

definition total_refs_from :: "nat \<Rightarrow> inners \<Rightarrow> nat \<Rightarrow> nat" where
  "total_refs_from N I p = (\<Sum>q<N. total_ref_cnt (I q) p)"

text \<open>
  \<open>held p\<close> references on PE \<open>p\<close> belong to callers that are blocked; \<open>base p\<close> is what the total counts for PE \<open>p\<close> add up to when the
  darc is created, since the code does not clear their memory.
\<close>

definition darc_inv :: "nat \<Rightarrow> (nat \<Rightarrow> nat) \<Rightarrow> (nat \<Rightarrow> nat) \<Rightarrow> inners \<Rightarrow> darc_task list \<Rightarrow> bool" where
  "darc_inv N base held I ts \<longleftrightarrow> (\<forall>t\<in>set ts. task_ok N t) \<and> (\<forall>p<N.
     local_cnt (I p) = held p + weigh (local_weight p) ts
   \<and> dist_cnt (I p) = weigh (dist_weight p) ts + refs_from N I p
   \<and> total_dist_cnt (I p) + base p = weigh (total_dist_weight p) ts + total_refs_from N I p
   \<and> weak_local_cnt (I p) = weigh (weak_weight p) ts)"

subsection \<open>Every operation conserves them\<close>

named_theorems darc_upd \<open>counter updates\<close>

lemmas darc_updates [darc_upd] = add_local_def add_total_local_def sub_local_def add_dist_def add_total_dist_def add_total_ref_def
  add_ref_def deserialize_update_cnts_def inc_pe_ref_count_def

lemma on_pe_same [simp]: "on_pe p f I p = f (I p)"
  by (simp add: on_pe_def)

lemma on_pe_other [simp]: "q \<noteq> p \<Longrightarrow> on_pe p f I q = I q"
  by (simp add: on_pe_def)

lemma on_pe_field: "g (on_pe p f I q) = (if q = p then g (f (I p)) else g (I q))"
  by (simp add: on_pe_def)

lemma cnt_sub_ok [simp]: "k \<le> a \<Longrightarrow> cnt_sub a k = a - k"
  by (simp add: cnt_sub_def)

lemma sum_on_pe:
  assumes "q < N"
  shows "(\<Sum>r<N. g (on_pe q f I r)) + g (I q) = (\<Sum>r<N. g (I r)) + (g (f (I q)) :: nat)"
proof -
  have "(\<Sum>r<N. h r) = h q + (\<Sum>r\<in>{..<N} - {q}. h r)" for h :: "nat \<Rightarrow> nat" using assms by (simp add: sum.remove)
  then show ?thesis by simp
qed

lemma refs_from_on_pe:
  assumes "q < N"
  shows "refs_from N (on_pe q f I) p + ref_cnt (I q) p = refs_from N I p + ref_cnt (f (I q)) p"
    and "total_refs_from N (on_pe q f I) p + total_ref_cnt (I q) p = total_refs_from N I p + total_ref_cnt (f (I q)) p"
  using sum_on_pe [OF assms, of "\<lambda>d. ref_cnt d p" f I] sum_on_pe [OF assms, of "\<lambda>d. total_ref_cnt d p" f I]
  by (simp_all add: refs_from_def total_refs_from_def)

lemma swap_ref_counts:
  assumes "swap_ref q k I = (new, I')" "q < N"
  shows "local_cnt (I' p) = local_cnt (I p)" "weigh (local_weight p) new = 0"
    "dist_cnt (I' p) = dist_cnt (I p)" "weigh (dist_weight p) new + refs_from N I' p = refs_from N I p"
    "total_dist_cnt (I' p) = total_dist_cnt (I p)" "weigh (total_dist_weight p) new = 0"
    "total_refs_from N I' p = total_refs_from N I p"
    "weak_local_cnt (I' p) = weak_local_cnt (I p)" "weigh (weak_weight p) new = 0"
    "k < N \<Longrightarrow> t \<in> set new \<Longrightarrow> task_ok N t"
  using assms refs_from_on_pe [OF assms(2), of "\<lambda>d. d\<lparr>ref_cnt := (ref_cnt d)(k := 0)\<rparr>" I p]
  by (auto simp: swap_ref_def on_pe_field split: if_splits)

lemma refs_from_same [simp]:
  "ref_cnt (f (I q)) = ref_cnt (I q) \<Longrightarrow> refs_from N (on_pe q f I) p = refs_from N I p"
  "total_ref_cnt (f (I q)) = total_ref_cnt (I q) \<Longrightarrow> total_refs_from N (on_pe q f I) p = total_refs_from N I p"
  unfolding refs_from_def total_refs_from_def by (intro sum.cong refl; simp add: on_pe_field)+

lemma refs_from_add [simp]:
  "q < N \<Longrightarrow> refs_from N (on_pe q (add_ref r n) I) p = refs_from N I p + n * of_bool (r = p)"
  "q < N \<Longrightarrow> total_refs_from N (on_pe q (add_total_ref r n) I) p = total_refs_from N I p + n * of_bool (r = p)"
  "q < N \<Longrightarrow> refs_from N (on_pe q (deserialize_update_cnts r) I) p = refs_from N I p + of_bool (r = p)"
  "q < N \<Longrightarrow> total_refs_from N (on_pe q (deserialize_update_cnts r) I) p = total_refs_from N I p + of_bool (r = p)"
  using refs_from_on_pe [of q N "add_ref r n" I p] refs_from_on_pe [of q N "add_total_ref r n" I p]
    refs_from_on_pe [of q N "deserialize_update_cnts r" I p]
  by (auto simp: darc_upd split: if_splits)

text \<open>The balance of one operation for the counters of PE \<open>p\<close>.\<close>

definition balanced :: "nat \<Rightarrow> nat \<Rightarrow> darc_task \<Rightarrow> inners \<Rightarrow> darc_task list \<Rightarrow> inners \<Rightarrow> bool" where
  "balanced N p t I new I' \<longleftrightarrow> (\<forall>u\<in>set new. task_ok N u)
   \<and> local_cnt (I' p) + local_weight p t = local_cnt (I p) + weigh (local_weight p) new
   \<and> dist_cnt (I' p) + dist_weight p t + refs_from N I p = dist_cnt (I p) + weigh (dist_weight p) new + refs_from N I' p
   \<and> total_dist_cnt (I' p) + total_dist_weight p t + total_refs_from N I p
       = total_dist_cnt (I p) + weigh (total_dist_weight p) new + total_refs_from N I' p
   \<and> weak_local_cnt (I' p) + weak_weight p t = weak_local_cnt (I p) + weigh (weak_weight p) new"

lemma drop_act_balanced:
  assumes "drop_act c q ph I = Some (new, I')" "local_weight p (Dropping q ph) \<le> local_cnt (I p)" "q < cf_pes c"
  shows "balanced (cf_pes c) p (Dropping q ph) I new I'"
proof (cases "(c, q, ph, I)" rule: drop_act.cases)
  case (3 c' q' k I0)
  then show ?thesis using assms swap_ref_counts [where N = "cf_pes c"]
    by (auto simp: balanced_def split: if_splits prod.splits)
qed (use assms in \<open>auto simp: balanced_def darc_upd on_pe_field split: if_splits\<close>)

lemma live_act_balanced:
  assumes "live_act c call t I = Some (new, I')" "task_ok (cf_pes c) t"
    and "local_weight p t \<le> local_cnt (I p)" "dist_weight p t \<le> dist_cnt (I p)" "weak_weight p t \<le> weak_local_cnt (I p)"
  shows "balanced (cf_pes c) p t I new I'"
proof (cases t)
  case (Handle q)
  then show ?thesis using assms by (cases call) (auto simp: balanced_def darc_upd on_pe_field split: if_splits)
next
  case (Ser q ph ds)
  then show ?thesis using assms by (cases ph) (auto simp: balanced_def darc_upd on_pe_field list_all_iff)
next
  case (Net q r)
  then show ?thesis using assms by (auto simp: balanced_def darc_upd on_pe_field split: if_splits)
next
  case (Des q r ph)
  then show ?thesis using assms by (cases ph) (auto simp: balanced_def darc_upd on_pe_field)
next
  case (Dropping q ph)
  then show ?thesis using assms drop_act_balanced by simp
next
  case (Weak q)
  then show ?thesis using assms by (cases call) (auto simp: balanced_def darc_upd on_pe_field)
next
  case (Upgrade q ph)
  then show ?thesis using assms by (cases ph) (auto simp: balanced_def darc_upd on_pe_field split: if_splits)
qed (use assms in \<open>auto simp: balanced_def darc_upd on_pe_field clone_act_def finished_act_def split: if_splits\<close>)

lemma balanced_inv:
  assumes inv: "darc_inv N base held I (xs @ t # ys)" and bal: "\<And>p. p < N \<Longrightarrow> balanced N p t I new I'"
  shows "darc_inv N base held I' (xs @ new @ ys)"
proof -
  have t: "task_ok N t" using inv by (simp add: darc_inv_def)
  then have "0 < N" by (cases t) auto
  then have "\<forall>u\<in>set new. task_ok N u" using bal by (auto simp: balanced_def)
  moreover have "local_cnt (I' p) = held p + weigh (local_weight p) (xs @ new @ ys)
     \<and> dist_cnt (I' p) = weigh (dist_weight p) (xs @ new @ ys) + refs_from N I' p
     \<and> total_dist_cnt (I' p) + base p = weigh (total_dist_weight p) (xs @ new @ ys) + total_refs_from N I' p
     \<and> weak_local_cnt (I' p) = weigh (weak_weight p) (xs @ new @ ys)" if "p < N" for p
  proof -
    have "local_cnt (I p) = held p + weigh (local_weight p) (xs @ t # ys)"
      "dist_cnt (I p) = weigh (dist_weight p) (xs @ t # ys) + refs_from N I p"
      "total_dist_cnt (I p) + base p = weigh (total_dist_weight p) (xs @ t # ys) + total_refs_from N I p"
      "weak_local_cnt (I p) = weigh (weak_weight p) (xs @ t # ys)"
      using inv that unfolding darc_inv_def by blast+
    then show ?thesis using bal [OF that] by (simp add: balanced_def)
  qed
  ultimately show ?thesis using inv by (auto simp: darc_inv_def)
qed

lemma darc_act_inv:
  assumes act: "darc_act c call t I = Some (new, I')" and inv: "darc_inv (cf_pes c) base held I (xs @ t # ys)"
    and live: "\<And>p. Dangling p \<notin> set new"
  shows "darc_inv (cf_pes c) base held I' (xs @ new @ ys)"
proof (rule balanced_inv [OF inv])
  fix p
  assume p: "p < cf_pes c"
  have "live_act c call t I = Some (new, I')"
    using act live [of "task_pe t"] by (auto simp: darc_act_def split: option.splits if_splits)
  moreover have "task_ok (cf_pes c) t" using inv by (simp add: darc_inv_def)
  moreover have "local_weight p t \<le> local_cnt (I p)" "dist_weight p t \<le> dist_cnt (I p)" "weak_weight p t \<le> weak_local_cnt (I p)"
    using inv p by (simp_all add: darc_inv_def)
  ultimately show "balanced (cf_pes c) p t I new I'" by (rule live_act_balanced)
qed

lemma swap_ref_inv:
  assumes "swap_ref p k I = (new, I')" "p < N" "k < N" "darc_inv N base held I ts"
  shows "darc_inv N base held I' (ts @ new)"
  using assms(4) swap_ref_counts [OF assms(1,2)] assms(3) unfolding darc_inv_def by (fastforce)

text \<open>Operations that touch no counter.\<close>

definition same_counts :: "inners \<Rightarrow> inners \<Rightarrow> bool" where
  "same_counts I J \<longleftrightarrow> (\<forall>p. local_cnt (J p) = local_cnt (I p) \<and> dist_cnt (J p) = dist_cnt (I p)
     \<and> total_dist_cnt (J p) = total_dist_cnt (I p) \<and> weak_local_cnt (J p) = weak_local_cnt (I p)
     \<and> ref_cnt (J p) = ref_cnt (I p) \<and> total_ref_cnt (J p) = total_ref_cnt (I p))"

lemma same_counts_inv: "same_counts I J \<Longrightarrow> darc_inv N base held I ts \<Longrightarrow> darc_inv N base held J ts"
  by (simp add: same_counts_def darc_inv_def refs_from_def total_refs_from_def)

section \<open>Alignment\<close>

text \<open>
  The two arrays behind the array of modes are not aligned.  With the inner structure at an
  aligned address and of an aligned size, the arrays of counts are aligned for \<open>usize\<close>, but those of the values that the
  collective call exchanges are only when the number of PEs is a multiple of 8, since a mode takes one byte.
  The code makes slices of \<open>usize\<close> of them, which requires aligned addresses.  All five arrays lie in
  the allocation and do not overlap.
\<close>

theorem darc_arrays_misaligned:
  assumes "8 dvd addr" "8 dvd inner_size" "l = darc_layout addr inner_size n"
  shows "8 dvd ref_cnt_addr l \<and> 8 dvd total_ref_cnt_addr l
    \<and> (8 dvd mode_ref_cnt_addr l \<longleftrightarrow> 8 dvd n) \<and> (8 dvd mode_barrier_addr l \<longleftrightarrow> 8 dvd n)
    \<and> region (mode_ref_cnt_addr l) (n * 8) \<union> region (mode_barrier_addr l) (n * 8) \<subseteq> region addr (darc_alloc_size inner_size n)
    \<and> region (mode_addr l) n \<inter> region (mode_ref_cnt_addr l) (n * 8) = {}
    \<and> region (mode_ref_cnt_addr l) (n * 8) \<inter> region (mode_barrier_addr l) (n * 8) = {}"
proof -
  note tiles = darc_layout_tiles [OF assms(3)]
  have base: "8 dvd addr + inner_size" using assms(1,2) by simp
  have mr: "mode_ref_cnt_addr l = (addr + inner_size) + 8 * (2 * n) + n" and mb: "mode_barrier_addr l = (addr + inner_size) + 8 * (3 * n) + n"
    using tiles(2-6) by simp_all
  have "8 dvd mode_ref_cnt_addr l \<longleftrightarrow> 8 dvd n" "8 dvd mode_barrier_addr l \<longleftrightarrow> 8 dvd n"
    unfolding mr mb by (intro dvd_add_right_iff dvd_add [OF base] dvd_triv_left)+
  moreover have "8 dvd ref_cnt_addr l" "8 dvd total_ref_cnt_addr l" using base tiles(2,3) by simp_all
  moreover have "region (mode_addr l) n \<inter> region (mode_ref_cnt_addr l) (n * 8) = {}"
    "region (mode_ref_cnt_addr l) (n * 8) \<inter> region (mode_barrier_addr l) (n * 8) = {}"
    using tiles(5,6) by (auto simp: region_def)
  ultimately show ?thesis unfolding tiles(1) by blast
qed

theorem darc_arrays_misaligned_witness:
  "\<not> 8 dvd mode_ref_cnt_addr (darc_layout 4096 152 2) \<and> 8 dvd ref_cnt_addr (darc_layout 4096 152 2)"
  using darc_arrays_misaligned [of 4096 152 "darc_layout 4096 152 2" 2] by simp

end
