(* ===== verification/Darc_Modes.thy ===== *)
theory Darc_Modes
  imports Darc
begin

text \<open>
  \<open>DarcInner::block_on_outstanding\<close> (\<open>darc.rs\<close>) and the garbage collection task \<open>DroppedWaitAM\<close>.  The PEs of
  the team run the same collective call, one shared operation at a time, beside the tasks of theory \<open>Darc\<close>.

  Each PE waits until it has no other local reference, returns the references it got from
  others, takes a snapshot of its counters and sends to every PE how many references it ever
  got from it.  After a barrier it looks whether its counters have changed and whether the
  messages it sent have all arrived.  Two more barriers make the PEs agree.

  \<open>async_barrier\<close> returns after every PE has entered (theory \<open>Barrier\<close>).  Leaving it changes nothing that
  another PE or task reads, so that the PEs leave it in one step.  A put has happened when the flush
  before the next barrier returns; it is done at once here.
\<close>

section \<open>The collective call\<close>

datatype blk_pc =
    Out | Start | Solo | At nat
  | LoadLocal | SwapRef nat | ReadRef nat | ReadLocal | ReadDist | PutRef nat
  | RecheckLocal | RecheckDist | RecheckRef nat
  | PutId nat | ReadId nat
  | StoreMode | PutMode nat | WaitMode nat | WaitSwap nat nat | Returned
  | GcMode nat | GcModeSwap nat nat | GcValid | GcDist | GcLocal | GcBody | GcSwap nat | GcItem | GcWeak | GcFree | Gone

record blk =
  bk_pc :: blk_pc
  prev_ref_cnts :: "nat \<Rightarrow> nat"
  old_ref_cnts :: "nat \<Rightarrow> nat"
  old_local_cnt :: nat
  old_dist_cnt :: nat
  barrier_id :: nat
  old_barrier_id :: nat
  barrier_sum :: nat
  outstanding_refs :: bool

definition blk_new :: "blk_pc \<Rightarrow> blk" where
  "blk_new pc = \<lparr>bk_pc = pc, prev_ref_cnts = (\<lambda>_. 0), old_ref_cnts = (\<lambda>_. 0), old_local_cnt = 0, old_dist_cnt = 0,
     barrier_id = 1, old_barrier_id = 1, barrier_sum = 0, outstanding_refs = True\<rparr>"

text \<open>The head of the loop.\<close>

definition loop_head :: "blk \<Rightarrow> blk" where
  "loop_head b = b\<lparr>bk_pc := LoadLocal, outstanding_refs := False, old_barrier_id := barrier_id b\<rparr>"

type_synonym pe_result = "(darc_task list \<times> inners \<times> blk) option"

definition goto :: "blk_pc \<Rightarrow> blk \<Rightarrow> inners \<Rightarrow> pe_result" where
  "goto pc b I = Some ([], I, b\<lparr>bk_pc := pc\<rparr>)"

text \<open>A round of \<open>send_finished\<close> in PE \<open>p\<close>, then on to \<open>pc\<close>.\<close>

definition goto_swap :: "nat \<Rightarrow> nat \<Rightarrow> blk_pc \<Rightarrow> blk \<Rightarrow> inners \<Rightarrow> pe_result" where
  "goto_swap p k pc b I = (case swap_ref p k I of (ms, I') \<Rightarrow> Some (ms, I', b\<lparr>bk_pc := pc\<rparr>))"

text \<open>The beginning, and the whole call on a team of one PE.\<close>

fun start_act :: "darc_cfg \<Rightarrow> nat \<Rightarrow> blk_pc \<Rightarrow> blk \<Rightarrow> inners \<Rightarrow> pe_result" where
  "start_act c p Start b I = goto (if cf_pes c = 1 then Solo else At 0) b I"
| "start_act c p Solo b I = (if local_cnt (I p) > 1 + cf_extra c then None
     else goto Returned b (on_pe p (\<lambda>d. d\<lparr>modes := (modes d)(p := cf_mode c)\<rparr>) I))"
| "start_act c p _ b I = None"

text \<open>From the local references to the first barrier of the loop.\<close>

fun collect_act :: "darc_cfg \<Rightarrow> nat \<Rightarrow> blk_pc \<Rightarrow> blk \<Rightarrow> inners \<Rightarrow> pe_result" where
  "collect_act c p LoadLocal b I = (if local_cnt (I p) > 1 + cf_extra c then None else goto (SwapRef 0) b I)"
| "collect_act c p (SwapRef k) b I = (if k < cf_pes c then goto_swap p k (SwapRef (Suc k)) b I else goto (ReadRef 0) b I)"
| "collect_act c p (ReadRef k) b I = (if k < cf_pes c
     then goto (ReadRef (Suc k)) (b\<lparr>old_ref_cnts := (old_ref_cnts b)(k := total_ref_cnt (I p) k)\<rparr>) I else goto ReadLocal b I)"
| "collect_act c p ReadLocal b I = goto ReadDist (b\<lparr>old_local_cnt := total_local_cnt (I p)\<rparr>) I"
| "collect_act c p ReadDist b I = goto (PutRef 0) (b\<lparr>old_dist_cnt := total_dist_cnt (I p)\<rparr>) I"
| "collect_act c p (PutRef k) b I = (if k < cf_pes c
     then (if prev_ref_cnts b k \<noteq> old_ref_cnts b k
           then goto (PutRef (Suc k)) (b\<lparr>outstanding_refs := True, barrier_id := 0\<rparr>)
                  (on_pe k (\<lambda>d. d\<lparr>mode_ref_cnt := (mode_ref_cnt d)(p := old_ref_cnts b k)\<rparr>) I)
           else goto (PutRef (Suc k)) b I)
     else goto (At 1) b I)"
| "collect_act c p _ b I = None"

text \<open>The checks behind the first barrier.\<close>

fun recheck_act :: "darc_cfg \<Rightarrow> nat \<Rightarrow> blk_pc \<Rightarrow> blk \<Rightarrow> inners \<Rightarrow> pe_result" where
  "recheck_act c p RecheckLocal b I =
     goto RecheckDist (b\<lparr>outstanding_refs := outstanding_refs b \<or> old_local_cnt b \<noteq> total_local_cnt (I p)\<rparr>) I"
| "recheck_act c p RecheckDist b I =
     goto (RecheckRef 0) (b\<lparr>outstanding_refs := outstanding_refs b \<or> old_dist_cnt b \<noteq> total_dist_cnt (I p), barrier_sum := 0\<rparr>) I"
| "recheck_act c p (RecheckRef k) b I = (if k < cf_pes c
     then goto (RecheckRef (Suc k)) (b\<lparr>outstanding_refs := outstanding_refs b \<or> old_ref_cnts b k \<noteq> total_ref_cnt (I p) k,
            barrier_sum := barrier_sum b + mode_ref_cnt (I p) k\<rparr>) I
     else if outstanding_refs b \<or> barrier_sum b \<noteq> old_dist_cnt b
     then goto (At 2) (b\<lparr>outstanding_refs := True, barrier_id := 0\<rparr>) I else goto (At 2) b I)"
| "recheck_act c p _ b I = None"

text \<open>The agreement on the result.\<close>

fun agree_act :: "darc_cfg \<Rightarrow> nat \<Rightarrow> blk_pc \<Rightarrow> blk \<Rightarrow> inners \<Rightarrow> pe_result" where
  "agree_act c p (PutId k) b I = (if k < cf_pes c
     then goto (PutId (Suc k)) b (on_pe k (\<lambda>d. d\<lparr>mode_barrier := (mode_barrier d)(p := barrier_id b)\<rparr>) I)
     else goto (At 3) b I)"
| "agree_act c p (ReadId k) b I = (if k < cf_pes c
     then goto (ReadId (Suc k)) (b\<lparr>outstanding_refs := outstanding_refs b \<or> mode_barrier (I p) k = 0\<rparr>) I
     else let b' = b\<lparr>barrier_id := old_barrier_id b + 1, prev_ref_cnts := old_ref_cnts b\<rparr> in
       if outstanding_refs b then Some ([], I, loop_head b') else goto StoreMode b' I)"
| "agree_act c p _ b I = None"

text \<open>The change of the mode.\<close>

fun mode_act :: "darc_cfg \<Rightarrow> nat \<Rightarrow> blk_pc \<Rightarrow> blk \<Rightarrow> inners \<Rightarrow> pe_result" where
  "mode_act c p StoreMode b I = goto (PutMode 0) b (on_pe p (\<lambda>d. d\<lparr>modes := (modes d)(p := cf_mode c)\<rparr>) I)"
| "mode_act c p (PutMode k) b I = (if k < cf_pes c
     then goto (PutMode (Suc k)) b (on_pe k (\<lambda>d. d\<lparr>modes := (modes d)(p := modes (I p) p)\<rparr>) I)
     else goto (WaitMode 0) b I)"
| "mode_act c p (WaitMode k) b I = (if k < cf_pes c
     then (if modes (I p) k = cf_mode c then goto (WaitMode (Suc k)) b I
           else if local_cnt (I p) = 1 + cf_extra c then goto (WaitSwap k 0) b I else None)
     else goto (At 4) b I)"
| "mode_act c p (WaitSwap k j) b I = (if j < cf_pes c then goto_swap p j (WaitSwap k (Suc j)) b I else goto (WaitMode k) b I)"
| "mode_act c p _ b I = None"

text \<open>The rest of \<open>DroppedWaitAM::exec\<close>.\<close>

fun gc_act :: "darc_cfg \<Rightarrow> nat \<Rightarrow> blk_pc \<Rightarrow> blk \<Rightarrow> inners \<Rightarrow> pe_result" where
  "gc_act c p Returned b I = (if cf_mode c = Dropped then goto (GcMode 0) b I else None)"
| "gc_act c p (GcMode k) b I = (if k < cf_pes c
     then (if modes (I p) k = Dropped then goto (GcMode (Suc k)) b I
           else if local_cnt (I p) = 0 then goto (GcModeSwap k 0) b I else None)
     else goto GcValid b I)"
| "gc_act c p (GcModeSwap k j) b I = (if j < cf_pes c then goto_swap p j (GcModeSwap k (Suc j)) b I else goto (GcMode k) b I)"
| "gc_act c p GcValid b I = goto GcDist b (on_pe p (\<lambda>d. d\<lparr>valid := False\<rparr>) I)"
| "gc_act c p GcDist b I = goto (if dist_cnt (I p) \<noteq> 0 then GcBody else GcLocal) b I"
| "gc_act c p GcLocal b I = goto (if local_cnt (I p) \<noteq> 0 then GcBody else GcItem) b I"
| "gc_act c p GcBody b I = goto (if local_cnt (I p) = 0 then GcSwap 0 else GcDist) b I"
| "gc_act c p (GcSwap j) b I = (if j < cf_pes c then goto_swap p j (GcSwap (Suc j)) b I else goto GcDist b I)"
| "gc_act c p GcItem b I = goto GcWeak b (on_pe p (\<lambda>d. d\<lparr>item_dropped := True\<rparr>) I)"
| "gc_act c p GcWeak b I = (if weak_local_cnt (I p) \<noteq> 0 then None else goto GcFree b I)"
| "gc_act c p GcFree b I = goto Gone b (on_pe p (\<lambda>d. d\<lparr>freed := True\<rparr>) I)"
| "gc_act c p _ b I = None"

text \<open>The parts are disjoint in their program points.\<close>

definition pe_act :: "darc_cfg \<Rightarrow> nat \<Rightarrow> blk \<Rightarrow> inners \<Rightarrow> pe_result" where
  "pe_act c p b I = (case start_act c p (bk_pc b) b I of Some r \<Rightarrow> Some r | None \<Rightarrow>
     (case collect_act c p (bk_pc b) b I of Some r \<Rightarrow> Some r | None \<Rightarrow>
     (case recheck_act c p (bk_pc b) b I of Some r \<Rightarrow> Some r | None \<Rightarrow>
     (case agree_act c p (bk_pc b) b I of Some r \<Rightarrow> Some r | None \<Rightarrow>
     (case mode_act c p (bk_pc b) b I of Some r \<Rightarrow> Some r | None \<Rightarrow> gc_act c p (bk_pc b) b I)))))"

text \<open>What follows each barrier.\<close>

fun after_barrier :: "nat \<Rightarrow> blk \<Rightarrow> blk" where
  "after_barrier j b = (if j = 0 then loop_head b else if j = 1 then b\<lparr>bk_pc := RecheckLocal\<rparr>
     else if j = 2 then b\<lparr>bk_pc := PutId 0\<rparr> else if j = 3 then b\<lparr>bk_pc := ReadId 0\<rparr> else b\<lparr>bk_pc := Returned\<rparr>)"

section \<open>The system\<close>

record darc_sys =
  ds_inner :: inners
  ds_tasks :: "darc_task list"
  ds_blk :: "nat \<Rightarrow> blk"

definition run_task :: "darc_cfg \<Rightarrow> nat \<Rightarrow> darc_call \<Rightarrow> darc_sys \<Rightarrow> darc_sys option" where
  "run_task c i call s = (if i < length (ds_tasks s) then
     (case darc_act c call (ds_tasks s ! i) (ds_inner s) of None \<Rightarrow> None
      | Some (new, I') \<Rightarrow> Some (s\<lparr>ds_inner := I', ds_tasks := take i (ds_tasks s) @ new @ drop (Suc i) (ds_tasks s)\<rparr>))
     else None)"

definition run_launch :: "nat \<Rightarrow> darc_sys \<Rightarrow> darc_sys option" where
  "run_launch i s = (if i < length (ds_tasks s) then
     (case ds_tasks s ! i of
        DroppedWait p \<Rightarrow> if bk_pc (ds_blk s p) = Out
          then Some (s\<lparr>ds_tasks := take i (ds_tasks s) @ drop (Suc i) (ds_tasks s), ds_blk := (ds_blk s)(p := blk_new Start)\<rparr>)
          else None
      | _ \<Rightarrow> None) else None)"

definition run_pe :: "darc_cfg \<Rightarrow> nat \<Rightarrow> darc_sys \<Rightarrow> darc_sys option" where
  "run_pe c p s = (if p < cf_pes c then (case pe_act c p (ds_blk s p) (ds_inner s) of None \<Rightarrow> None
      | Some (new, I', b) \<Rightarrow> Some \<lparr>ds_inner = I', ds_tasks = ds_tasks s @ new, ds_blk = (ds_blk s)(p := b)\<rparr>)
     else None)"

definition run_barrier :: "darc_cfg \<Rightarrow> nat \<Rightarrow> darc_sys \<Rightarrow> darc_sys option" where
  "run_barrier c j s = (if list_all (\<lambda>p. bk_pc (ds_blk s p) = At j) [0..<cf_pes c]
     then Some (s\<lparr>ds_blk := fold (\<lambda>p B. B(p := after_barrier j (B p))) [0..<cf_pes c] (ds_blk s)\<rparr>) else None)"

inductive darc_step :: "darc_cfg \<Rightarrow> darc_sys \<Rightarrow> darc_sys \<Rightarrow> bool" for c where
  task: "run_task c i call s = Some t \<Longrightarrow> darc_step c s t"
| launch: "run_launch i s = Some t \<Longrightarrow> darc_step c s t"
| pe: "run_pe c p s = Some t \<Longrightarrow> darc_step c s t"
| barrier: "run_barrier c j s = Some t \<Longrightarrow> darc_step c s t"

text \<open>An execution given by its moves.\<close>

datatype move = MTask nat darc_call | MLaunch nat | MPe nat nat | MBarrier nat

fun pe_times :: "darc_cfg \<Rightarrow> nat \<Rightarrow> nat \<Rightarrow> darc_sys \<Rightarrow> darc_sys option" where
  "pe_times c p 0 s = Some s"
| "pe_times c p (Suc n) s = (case run_pe c p s of None \<Rightarrow> None | Some t \<Rightarrow> pe_times c p n t)"

fun do_move :: "darc_cfg \<Rightarrow> move \<Rightarrow> darc_sys \<Rightarrow> darc_sys option" where
  "do_move c (MTask i call) s = run_task c i call s"
| "do_move c (MLaunch i) s = run_launch i s"
| "do_move c (MPe p n) s = pe_times c p n s"
| "do_move c (MBarrier j) s = run_barrier c j s"

fun do_moves :: "darc_cfg \<Rightarrow> move list \<Rightarrow> darc_sys \<Rightarrow> darc_sys option" where
  "do_moves c [] s = Some s"
| "do_moves c (m # ms) s = (case do_move c m s of None \<Rightarrow> None | Some t \<Rightarrow> do_moves c ms t)"

lemma pe_times_reach: "pe_times c p n s = Some t \<Longrightarrow> (darc_step c)\<^sup>*\<^sup>* s t"
  by (induction n arbitrary: s) (auto split: option.splits intro: converse_rtranclp_into_rtranclp pe)

lemma do_move_reach: "do_move c m s = Some t \<Longrightarrow> (darc_step c)\<^sup>*\<^sup>* s t"
  by (cases m) (auto intro: task launch barrier dest: pe_times_reach)

lemma do_moves_reach: "do_moves c ms s = Some t \<Longrightarrow> (darc_step c)\<^sup>*\<^sup>* s t"
  by (induction ms arbitrary: s) (auto split: option.splits dest!: do_move_reach intro: rtranclp_trans)

section \<open>Quiescence\<close>

text \<open>Tasks that neither are nor can become a reference.\<close>

fun quiet :: "darc_task \<Rightarrow> bool" where
  "quiet (Dropping p ph) \<longleftrightarrow> ph \<noteq> DropSub"
| "quiet (FinishedAm q n) \<longleftrightarrow> True"
| "quiet (DroppedWait p) \<longleftrightarrow> True"
| "quiet _ \<longleftrightarrow> False"

text \<open>The tasks of a program without weak references when the counts of a received reference are updated in one step.\<close>

fun plain :: "darc_task \<Rightarrow> bool" where
  "plain (Des q p ph) \<longleftrightarrow> False"
| "plain (Weak p) \<longleftrightarrow> False"
| "plain (Upgrade p ph) \<longleftrightarrow> False"
| "plain (Dangling p) \<longleftrightarrow> False"
| "plain _ \<longleftrightarrow> True"

subsection \<open>Steps of tasks\<close>

text \<open>What the collective call sees of a step of a task: the totals grow and its own arrays do not change.\<close>

definition grows :: "inners \<Rightarrow> inners \<Rightarrow> bool" where
  "grows I J \<longleftrightarrow> (\<forall>p. (\<forall>k. total_ref_cnt (I p) k \<le> total_ref_cnt (J p) k) \<and> total_dist_cnt (I p) \<le> total_dist_cnt (J p)
     \<and> mode_ref_cnt (J p) = mode_ref_cnt (I p) \<and> mode_barrier (J p) = mode_barrier (I p) \<and> freed (J p) = freed (I p))"

lemma grows_on_pe:
  "(\<And>k. total_ref_cnt (I p) k \<le> total_ref_cnt (f (I p)) k) \<Longrightarrow> total_dist_cnt (I p) \<le> total_dist_cnt (f (I p)) \<Longrightarrow>
   mode_ref_cnt (f (I p)) = mode_ref_cnt (I p) \<Longrightarrow> mode_barrier (f (I p)) = mode_barrier (I p) \<Longrightarrow> freed (f (I p)) = freed (I p) \<Longrightarrow>
   grows I (on_pe p f I)"
  by (auto simp: grows_def on_pe_field)

lemma grows_refl [simp]: "grows I I"
  by (simp add: grows_def)

lemma live_act_grows:
  assumes "live_act c call t I = Some (new, I')"
  shows "grows I I'"
proof (cases t)
  case (Handle q)
  then show ?thesis using assms by (cases call) (auto simp: darc_upd intro!: grows_on_pe split: if_splits)
next
  case (Ser q ph ds)
  then show ?thesis using assms by (cases ph) (auto simp: darc_upd intro!: grows_on_pe)
next
  case (Des q r ph)
  then show ?thesis using assms by (cases ph) (auto simp: darc_upd intro!: grows_on_pe)
next
  case (Dropping q ph)
  then show ?thesis using assms
    by (cases "(c, q, ph, I)" rule: drop_act.cases)
       (auto simp: darc_upd swap_ref_def intro!: grows_on_pe split: if_splits prod.splits)
next
  case (Weak q)
  then show ?thesis using assms by (cases call) (auto simp: darc_upd intro!: grows_on_pe)
next
  case (Upgrade q ph)
  then show ?thesis using assms by (cases ph) (auto simp: darc_upd intro!: grows_on_pe split: if_splits)
qed (use assms in \<open>auto simp: darc_upd clone_act_def finished_act_def intro!: grows_on_pe split: if_splits\<close>)

text \<open>A task on PE \<open>p\<close> that is not a reference becomes one only with a message that arrives there.\<close>

lemma live_act_arrival:
  assumes "live_act c call t I = Some (new, I')" "plain t" "\<not> cf_split c" "task_ok (cf_pes c) t"
    and "local_weight p t = 0" "u \<in> set new" "0 < local_weight p u"
  shows "\<exists>k<cf_pes c. total_ref_cnt (I p) k < total_ref_cnt (I' p) k"
proof (cases t)
  case (Handle q)
  then show ?thesis using assms by (cases call) (auto split: if_splits)
next
  case (Ser q ph ds)
  then show ?thesis using assms by (cases ph) (auto split: if_splits)
next
  case (Net q r)
  then have "r = p" "q < cf_pes c" "I' = on_pe r (deserialize_update_cnts q) I" using assms by (auto split: if_splits)
  then show ?thesis by (intro exI [of _ q]) (simp add: darc_upd)
next
  case (Dropping q ph)
  then show ?thesis using assms
    by (cases "(c, q, ph, I)" rule: drop_act.cases) (auto simp: swap_ref_def split: if_splits prod.splits)
qed (use assms in \<open>auto simp: clone_act_def finished_act_def split: if_splits\<close>)

lemma live_act_plain:
  assumes "live_act c call t I = Some (new, I')" "plain t" "\<not> cf_split c" "\<not> cf_weak c" "u \<in> set new"
  shows "plain u"
proof (cases t)
  case (Handle q)
  then show ?thesis using assms by (cases call) (auto split: if_splits)
next
  case (Ser q ph ds)
  then show ?thesis using assms by (cases ph) (auto split: if_splits)
next
  case (Dropping q ph)
  then show ?thesis using assms
    by (cases "(c, q, ph, I)" rule: drop_act.cases) (auto simp: swap_ref_def split: if_splits prod.splits)
qed (use assms in \<open>auto simp: clone_act_def finished_act_def split: if_splits\<close>)

lemma live_act_quiet:
  assumes "live_act c call t I = Some (new, I')" "quiet t" "u \<in> set new"
  shows "quiet u"
proof (cases t)
  case (Dropping q ph)
  then show ?thesis using assms
    by (cases "(c, q, ph, I)" rule: drop_act.cases) (auto simp: swap_ref_def split: if_splits prod.splits)
qed (use assms in \<open>auto simp: finished_act_def split: if_splits\<close>)

subsection \<open>The invariant of a PE\<close>

text \<open>Whether the snapshot of the total from PE \<open>k\<close> is taken, and whether it is known to \<open>k\<close>.\<close>

fun taken :: "blk_pc \<Rightarrow> nat \<Rightarrow> bool" where
  "taken (ReadRef j) k \<longleftrightarrow> k < j"
| "taken ReadLocal k \<longleftrightarrow> True"
| "taken ReadDist k \<longleftrightarrow> True"
| "taken (PutRef j) k \<longleftrightarrow> True"
| "taken (At j) k \<longleftrightarrow> j \<in> {1, 2, 3}"
| "taken RecheckLocal k \<longleftrightarrow> True"
| "taken RecheckDist k \<longleftrightarrow> True"
| "taken (RecheckRef j) k \<longleftrightarrow> True"
| "taken (PutId j) k \<longleftrightarrow> True"
| "taken (ReadId j) k \<longleftrightarrow> True"
| "taken _ k \<longleftrightarrow> False"

fun told :: "blk_pc \<Rightarrow> nat \<Rightarrow> bool" where
  "told (PutRef j) k \<longleftrightarrow> k < j"
| "told (At j) k \<longleftrightarrow> j \<in> {1, 2, 3}"
| "told RecheckLocal k \<longleftrightarrow> True"
| "told RecheckDist k \<longleftrightarrow> True"
| "told (RecheckRef j) k \<longleftrightarrow> True"
| "told (PutId j) k \<longleftrightarrow> True"
| "told (ReadId j) k \<longleftrightarrow> True"
| "told _ k \<longleftrightarrow> False"

fun dist_taken :: "blk_pc \<Rightarrow> bool" where
  "dist_taken (PutRef j) \<longleftrightarrow> True"
| "dist_taken pc \<longleftrightarrow> told pc 0"

fun no_refs_seen :: "blk_pc \<Rightarrow> bool" where
  "no_refs_seen (SwapRef j) \<longleftrightarrow> True"
| "no_refs_seen (ReadRef j) \<longleftrightarrow> True"
| "no_refs_seen pc \<longleftrightarrow> taken pc 0"

text \<open>
  The value that PE \<open>k\<close> has of the references \<open>p\<close> got from it is that of the last snapshot, or it is
  from an earlier collective call and the total is not 0.
\<close>

definition ref_inv :: "nat \<Rightarrow> blk \<Rightarrow> inners \<Rightarrow> nat \<Rightarrow> bool" where
  "ref_inv p b I k \<longleftrightarrow> prev_ref_cnts b k \<le> total_ref_cnt (I p) k
   \<and> (taken (bk_pc b) k \<longrightarrow> old_ref_cnts b k \<le> total_ref_cnt (I p) k)
   \<and> (if told (bk_pc b) k
      then mode_ref_cnt (I k) p = old_ref_cnts b k \<and> (prev_ref_cnts b k \<noteq> old_ref_cnts b k \<longrightarrow> outstanding_refs b)
      else mode_ref_cnt (I k) p = prev_ref_cnts b k
        \<or> prev_ref_cnts b k = 0 \<and> 0 < (if taken (bk_pc b) k then old_ref_cnts b k else total_ref_cnt (I p) k))"

fun id_inv :: "nat \<Rightarrow> nat \<Rightarrow> blk_pc \<Rightarrow> blk \<Rightarrow> inners \<Rightarrow> bool" where
  "id_inv N p Start b I \<longleftrightarrow> barrier_id b \<noteq> 0"
| "id_inv N p (At j) b I \<longleftrightarrow> (j = 0 \<longrightarrow> barrier_id b \<noteq> 0) \<and> (j = 2 \<or> j = 3 \<longrightarrow> outstanding_refs b \<longrightarrow> barrier_id b = 0)
     \<and> (j = 3 \<longrightarrow> (\<forall>k<N. mode_barrier (I k) p = barrier_id b))"
| "id_inv N p (PutId j) b I \<longleftrightarrow> (outstanding_refs b \<longrightarrow> barrier_id b = 0) \<and> (\<forall>k<j. k < N \<longrightarrow> mode_barrier (I k) p = barrier_id b)"
| "id_inv N p _ b I \<longleftrightarrow> True"

definition pe_inv :: "nat \<Rightarrow> nat \<Rightarrow> blk \<Rightarrow> inners \<Rightarrow> darc_task list \<Rightarrow> bool" where
  "pe_inv N p b I ts \<longleftrightarrow> (\<forall>k<N. ref_inv p b I k)
   \<and> (dist_taken (bk_pc b) \<longrightarrow> old_dist_cnt b \<le> total_dist_cnt (I p))
   \<and> (no_refs_seen (bk_pc b) \<longrightarrow> (\<exists>t\<in>set ts. 0 < local_weight p t) \<longrightarrow> (\<exists>k<N. prev_ref_cnts b k < total_ref_cnt (I p) k))
   \<and> (barrier_id b = 0 \<longrightarrow> outstanding_refs b) \<and> id_inv N p (bk_pc b) b I"

lemma ref_inv_grows: "ref_inv p b I k \<Longrightarrow> grows I J \<Longrightarrow> ref_inv p b J k"
  unfolding ref_inv_def grows_def by (auto split: if_splits intro: le_trans less_le_trans)

lemma id_inv_cong: "id_inv N p pc b I \<Longrightarrow> (\<And>k. mode_barrier (J k) p = mode_barrier (I k) p) \<Longrightarrow> id_inv N p pc b J"
  by (cases pc) auto

lemma pe_inv_grows:
  assumes inv: "pe_inv N p b I ts" and g: "grows I J"
    and refs: "\<And>u. u \<in> set us \<Longrightarrow> 0 < local_weight p u \<Longrightarrow>
      (\<exists>t\<in>set ts. 0 < local_weight p t) \<or> (\<exists>k<N. total_ref_cnt (I p) k < total_ref_cnt (J p) k)"
  shows "pe_inv N p b J us"
  unfolding pe_inv_def
proof (intro conjI impI)
  show "\<forall>k<N. ref_inv p b J k" using inv ref_inv_grows [OF _ g] by (simp add: pe_inv_def)
  show "dist_taken (bk_pc b) \<Longrightarrow> old_dist_cnt b \<le> total_dist_cnt (J p)"
    using inv g unfolding pe_inv_def grows_def by (meson le_trans)
  show "\<exists>k<N. prev_ref_cnts b k < total_ref_cnt (J p) k" if "no_refs_seen (bk_pc b)" "\<exists>t\<in>set us. 0 < local_weight p t"
  proof -
    have le: "prev_ref_cnts b k \<le> total_ref_cnt (I p) k" "total_ref_cnt (I p) k \<le> total_ref_cnt (J p) k" if "k < N" for k
      using inv g that by (simp_all add: pe_inv_def ref_inv_def grows_def)
    from that(2) refs consider "\<exists>t\<in>set ts. 0 < local_weight p t" | "\<exists>k<N. total_ref_cnt (I p) k < total_ref_cnt (J p) k" by blast
    then show ?thesis
    proof cases
      case 1
      then show ?thesis using inv that(1) le(2) unfolding pe_inv_def by (meson less_le_trans)
    next
      case 2
      then show ?thesis using le(1) by (meson le_less_trans)
    qed
  qed
  show "barrier_id b = 0 \<Longrightarrow> outstanding_refs b" using inv by (simp add: pe_inv_def)
  show "id_inv N p (bk_pc b) b J" using inv g by (auto simp: pe_inv_def grows_def intro: id_inv_cong)
qed

text \<open>The steps of another PE.\<close>

lemma pe_inv_other:
  assumes "pe_inv N p b I ts" "total_ref_cnt (J p) = total_ref_cnt (I p)" "total_dist_cnt (J p) = total_dist_cnt (I p)"
    and "\<And>k. mode_ref_cnt (J k) p = mode_ref_cnt (I k) p" "\<And>k. mode_barrier (J k) p = mode_barrier (I k) p"
    and "\<And>u. u \<in> set new \<Longrightarrow> local_weight p u = 0"
  shows "pe_inv N p b J (ts @ new)"
  using assms(1) id_inv_cong [of N p "bk_pc b" b I J] assms(6) unfolding pe_inv_def ref_inv_def assms(2-5) by auto

subsection \<open>Steps of the collective call\<close>

text \<open>\<open>send_finished\<close> and the puts of modes change nothing that the call looks at before it ends.\<close>

definition same_view :: "inners \<Rightarrow> inners \<Rightarrow> bool" where
  "same_view I J \<longleftrightarrow> (\<forall>p. total_ref_cnt (J p) = total_ref_cnt (I p) \<and> total_dist_cnt (J p) = total_dist_cnt (I p)
     \<and> mode_ref_cnt (J p) = mode_ref_cnt (I p) \<and> mode_barrier (J p) = mode_barrier (I p) \<and> freed (J p) = freed (I p))"

lemma same_view_refl [simp]: "same_view I I"
  by (simp add: same_view_def)

lemma same_view_modes [simp]: "same_view I (on_pe p (\<lambda>d. d\<lparr>modes := m d\<rparr>) I)"
  by (simp add: same_view_def on_pe_field)

lemma swap_ref_view:
  "swap_ref p k I = (new, I') \<Longrightarrow> same_view I I'"
  "swap_ref p k I = (new, I') \<Longrightarrow> u \<in> set new \<Longrightarrow> quiet u \<and> plain u \<and> local_weight q u = 0"
  by (auto simp: swap_ref_def same_view_def on_pe_field split: if_splits)

lemma ref_inv_view: "same_view I J \<Longrightarrow> ref_inv p b J k \<longleftrightarrow> ref_inv p b I k"
  by (simp add: same_view_def ref_inv_def)

lemma ref_inv_goto:
  "ref_inv p b I k \<Longrightarrow> taken pc k = taken (bk_pc b) k \<Longrightarrow> told pc k = told (bk_pc b) k \<Longrightarrow> ref_inv p (b\<lparr>bk_pc := pc\<rparr>) I k"
  by (auto simp: ref_inv_def)

text \<open>A step to a program point where nothing more is required.\<close>

lemma pe_inv_goto:
  assumes "pe_inv N p b I ts" "same_view I J" "\<And>u. u \<in> set new \<Longrightarrow> local_weight p u = 0"
    and "\<And>k. k < N \<Longrightarrow> taken pc k = taken (bk_pc b) k" "\<And>k. k < N \<Longrightarrow> told pc k = told (bk_pc b) k"
    and "dist_taken pc \<Longrightarrow> dist_taken (bk_pc b)"
    and "no_refs_seen pc \<Longrightarrow> no_refs_seen (bk_pc b) \<or> (\<forall>t\<in>set ts. local_weight p t = 0)"
    and "id_inv N p pc b J"
  shows "pe_inv N p (b\<lparr>bk_pc := pc\<rparr>) J (ts @ new)"
proof -
  have "id_inv N p pc (b\<lparr>bk_pc := pc\<rparr>) J" using assms(8) by (cases pc) auto
  moreover have "ref_inv p (b\<lparr>bk_pc := pc\<rparr>) J k" if "k < N" for k
    using assms(1,4,5) that ref_inv_goto [of p b J k pc] ref_inv_view [OF assms(2)] by (simp add: pe_inv_def)
  moreover have "\<exists>k<N. prev_ref_cnts b k < total_ref_cnt (J p) k" if "no_refs_seen pc" "\<exists>t\<in>set (ts @ new). 0 < local_weight p t"
    using assms(1-3,7) that unfolding pe_inv_def same_view_def by force
  ultimately show ?thesis using assms(1,2,6) by (simp add: pe_inv_def same_view_def)
qed

lemma start_act_pe_inv:
  assumes act: "start_act c p (bk_pc b) b I = Some (new, I', b')" and inv: "pe_inv (cf_pes c) p b I ts"
  shows "pe_inv (cf_pes c) p b' I' (ts @ new)"
  using act inv by (cases "bk_pc b") (auto simp: goto_def pe_inv_def ref_inv_def on_pe_field split: if_splits)

lemma collect_act_pe_inv:
  assumes act: "collect_act c p (bk_pc b) b I = Some (new, I', b')" and inv: "pe_inv (cf_pes c) p b I ts"
    and loc: "local_cnt (I p) = 1 + cf_extra c + weigh (local_weight p) ts"
  shows "pe_inv (cf_pes c) p b' I' (ts @ new)"
proof (cases "bk_pc b")
  case LoadLocal
  then show ?thesis using act loc pe_inv_goto [OF inv same_view_refl, of "[]" "SwapRef 0"]
    by (auto simp: goto_def split: if_splits)
next
  case (SwapRef k)
  then show ?thesis using act pe_inv_goto [OF inv, of I' new "SwapRef (Suc k)"] pe_inv_goto [OF inv same_view_refl, of "[]" "ReadRef 0"]
    by (auto simp: goto_def goto_swap_def swap_ref_view split: if_splits prod.splits)
next
  case (ReadRef j)
  then show ?thesis using act inv
    by (auto simp: goto_def pe_inv_def ref_inv_def less_Suc_eq split: if_splits)
next
  case ReadLocal
  then show ?thesis using act inv by (auto simp: goto_def pe_inv_def ref_inv_def)
next
  case ReadDist
  then show ?thesis using act inv by (auto simp: goto_def pe_inv_def ref_inv_def)
next
  case (PutRef j)
  then show ?thesis using act inv
    by (auto simp: goto_def pe_inv_def ref_inv_def less_Suc_eq on_pe_field split: if_splits)
qed (use act in auto)

lemma recheck_act_pe_inv:
  assumes act: "recheck_act c p (bk_pc b) b I = Some (new, I', b')" and inv: "pe_inv (cf_pes c) p b I ts"
  shows "pe_inv (cf_pes c) p b' I' (ts @ new)"
  using act inv by (cases "bk_pc b") (auto simp: goto_def pe_inv_def ref_inv_def split: if_splits)

lemma agree_act_pe_inv:
  assumes act: "agree_act c p (bk_pc b) b I = Some (new, I', b')" and inv: "pe_inv (cf_pes c) p b I ts"
  shows "pe_inv (cf_pes c) p b' I' (ts @ new)"
proof (cases "bk_pc b")
  case (PutId j)
  then show ?thesis using act inv
    by (auto simp: goto_def pe_inv_def ref_inv_def less_Suc_eq on_pe_field split: if_splits)
next
  case (ReadId j)
  then show ?thesis using act inv
    by (auto simp: goto_def loop_head_def Let_def pe_inv_def ref_inv_def split: if_splits)
qed (use act in auto)

lemma mode_act_pe_inv:
  assumes act: "mode_act c p (bk_pc b) b I = Some (new, I', b')" and inv: "pe_inv (cf_pes c) p b I ts"
  shows "pe_inv (cf_pes c) p b' I' (ts @ new)"
proof (cases "\<exists>k j. bk_pc b = WaitSwap k j")
  case True
  then obtain k j where "bk_pc b = WaitSwap k j" by blast
  then show ?thesis using act pe_inv_goto [OF inv, of I' new "WaitSwap k (Suc j)"] pe_inv_goto [OF inv same_view_refl, of "[]" "WaitMode k"]
    by (auto simp: goto_def goto_swap_def swap_ref_view split: if_splits prod.splits)
next
  case False
  then show ?thesis using act inv
    by (cases "bk_pc b") (auto simp: goto_def pe_inv_def ref_inv_def on_pe_field split: if_splits)
qed

end
