(* ===== verification/Darc_Quiescence.thy ===== *)
theory Darc_Quiescence
  imports Darc_Modes
begin

text \<open>
  The correctness of reference counting for darcs.  Between two barriers of the collective call all PEs are
  in the same segment of its loop; the invariant says for each segment what they know.  The first barrier of a
  round is the instant at which the snapshots of all PEs are compared: if no PE finds a difference then, by
  conservation of references, no message is on its way and no reference beyond those of the callers is left,
  and that stays so.
\<close>

section \<open>Segments of the collective call\<close>

fun seg :: "blk_pc \<Rightarrow> nat" where
  "seg Start = 0"
| "seg (At j) = (if j = 0 then 0 else if j = 2 then 2 else if j = 3 then 3 else if j = 1 \<or> j = 4 then 1 else 5)"
| "seg LoadLocal = 1"
| "seg (SwapRef k) = 1"
| "seg (ReadRef k) = 1"
| "seg ReadLocal = 1"
| "seg ReadDist = 1"
| "seg (PutRef k) = 1"
| "seg (ReadId k) = 1"
| "seg StoreMode = 1"
| "seg (PutMode k) = 1"
| "seg (WaitMode k) = 1"
| "seg (WaitSwap k j) = 1"
| "seg RecheckLocal = 2"
| "seg RecheckDist = 2"
| "seg (RecheckRef k) = 2"
| "seg (PutId k) = 3"
| "seg Returned = 4"
| "seg _ = 5"

definition blk_effect :: "darc_cfg \<Rightarrow> nat \<Rightarrow> blk \<Rightarrow> inners \<Rightarrow> darc_task list \<Rightarrow> inners \<Rightarrow> blk \<Rightarrow> bool" where
  "blk_effect c p b I new I' b' \<longleftrightarrow> seg (bk_pc b') = seg (bk_pc b)
   \<and> (\<forall>q. total_ref_cnt (I' q) = total_ref_cnt (I q) \<and> total_dist_cnt (I' q) = total_dist_cnt (I q) \<and> freed (I' q) = freed (I q)
        \<and> (seg (bk_pc b) \<noteq> 1 \<longrightarrow> mode_ref_cnt (I' q) = mode_ref_cnt (I q))
        \<and> (seg (bk_pc b) \<noteq> 3 \<longrightarrow> mode_barrier (I' q) = mode_barrier (I q)))
   \<and> (\<forall>q k. q \<noteq> p \<longrightarrow> mode_ref_cnt (I' k) q = mode_ref_cnt (I k) q \<and> mode_barrier (I' k) q = mode_barrier (I k) q)
   \<and> (new = [] \<and> same_counts I I' \<or> (\<exists>k<cf_pes c. swap_ref p k I = (new, I')))"

lemma same_counts_on_pe:
  "local_cnt (f (I p)) = local_cnt (I p) \<Longrightarrow> dist_cnt (f (I p)) = dist_cnt (I p) \<Longrightarrow> total_dist_cnt (f (I p)) = total_dist_cnt (I p) \<Longrightarrow>
   weak_local_cnt (f (I p)) = weak_local_cnt (I p) \<Longrightarrow> ref_cnt (f (I p)) = ref_cnt (I p) \<Longrightarrow>
   total_ref_cnt (f (I p)) = total_ref_cnt (I p) \<Longrightarrow> same_counts I (on_pe p f I)"
  by (simp add: same_counts_def on_pe_field)

lemma same_counts_refl [simp]: "same_counts I I"
  by (simp add: same_counts_def)

lemma goto_effect:
  "goto pc b2 I' = Some (new, I'', b') \<Longrightarrow> seg pc = seg (bk_pc b) \<Longrightarrow> same_counts I I' \<Longrightarrow> (\<And>q. freed (I' q) = freed (I q)) \<Longrightarrow>
   (\<And>q. seg (bk_pc b) \<noteq> 1 \<Longrightarrow> mode_ref_cnt (I' q) = mode_ref_cnt (I q)) \<Longrightarrow>
   (\<And>q. seg (bk_pc b) \<noteq> 3 \<Longrightarrow> mode_barrier (I' q) = mode_barrier (I q)) \<Longrightarrow>
   (\<And>q k. q \<noteq> p \<Longrightarrow> mode_ref_cnt (I' k) q = mode_ref_cnt (I k) q \<and> mode_barrier (I' k) q = mode_barrier (I k) q) \<Longrightarrow>
   blk_effect c p b I new I'' b'"
  by (auto simp: goto_def blk_effect_def same_counts_def)

lemma goto_swap_effect:
  "goto_swap p k pc b I = Some (new, I', b') \<Longrightarrow> k < cf_pes c \<Longrightarrow> seg pc = seg (bk_pc b) \<Longrightarrow> blk_effect c p b I new I' b'"
  using swap_ref_view(1) [of p k I] by (auto simp: goto_swap_def blk_effect_def same_view_def split: prod.splits)

lemma stay_effect: "seg (bk_pc b') = seg (bk_pc b) \<Longrightarrow> blk_effect c p b I [] I b'"
  by (simp add: blk_effect_def)

lemma collect_act_effect: "collect_act c p (bk_pc b) b I = Some (new, I', b') \<Longrightarrow> blk_effect c p b I new I' b'"
  by (cases "bk_pc b")
     (auto split: if_splits elim!: goto_effect goto_swap_effect intro: same_counts_on_pe simp: on_pe_field)

lemma recheck_act_effect: "recheck_act c p (bk_pc b) b I = Some (new, I', b') \<Longrightarrow> blk_effect c p b I new I' b'"
  by (cases "bk_pc b") (auto split: if_splits elim!: goto_effect)

lemma agree_act_effect: "agree_act c p (bk_pc b) b I = Some (new, I', b') \<Longrightarrow> blk_effect c p b I new I' b'"
  by (cases "bk_pc b")
     (auto split: if_splits elim!: goto_effect intro: same_counts_on_pe stay_effect simp: on_pe_field Let_def loop_head_def)

lemma start_act_effect:
  "start_act c p (bk_pc b) b I = Some (new, I', b') \<Longrightarrow> cf_pes c \<noteq> 1 \<Longrightarrow> seg (bk_pc b) < 5 \<Longrightarrow> blk_effect c p b I new I' b'"
  by (cases "bk_pc b") (auto split: if_splits elim!: goto_effect)

lemma mode_act_effect: "mode_act c p (bk_pc b) b I = Some (new, I', b') \<Longrightarrow> blk_effect c p b I new I' b'"
  by (cases "bk_pc b")
     (auto split: if_splits elim!: goto_effect goto_swap_effect intro: same_counts_on_pe simp: on_pe_field)

lemma pe_act_cases:
  assumes "pe_act c p b I = Some (new, I', b')" "seg (bk_pc b) < 5" "cf_mode c \<noteq> Dropped"
  obtains "start_act c p (bk_pc b) b I = Some (new, I', b')" | "collect_act c p (bk_pc b) b I = Some (new, I', b')" | "recheck_act c p (bk_pc b) b I = Some (new, I', b')"
    | "agree_act c p (bk_pc b) b I = Some (new, I', b')" | "mode_act c p (bk_pc b) b I = Some (new, I', b')"
proof -
  have "gc_act c p (bk_pc b) b I = None" using assms(2,3) by (cases "bk_pc b") auto
  then show thesis using assms(1) that unfolding pe_act_def by (auto split: option.splits)
qed

lemma pe_act_effect:
  assumes "pe_act c p b I = Some (new, I', b')" "seg (bk_pc b) < 5" "cf_mode c \<noteq> Dropped" "cf_pes c \<noteq> 1"
  shows "blk_effect c p b I new I' b'"
  using assms(1-3)
  by (rule pe_act_cases)
     (use assms in \<open>auto intro: start_act_effect collect_act_effect recheck_act_effect agree_act_effect mode_act_effect\<close>)

lemma pe_act_pe_inv:
  assumes "pe_act c p b I = Some (new, I', b')" "seg (bk_pc b) < 5" "cf_mode c \<noteq> Dropped"
    and "pe_inv (cf_pes c) p b I ts" "local_cnt (I p) = 1 + cf_extra c + weigh (local_weight p) ts"
  shows "pe_inv (cf_pes c) p b' I' (ts @ new)"
  using assms(1-3)
  by (rule pe_act_cases)
     (use assms in \<open>auto intro: start_act_pe_inv collect_act_pe_inv recheck_act_pe_inv agree_act_pe_inv mode_act_pe_inv\<close>)


definition quiescent :: "darc_task list \<Rightarrow> bool" where
  "quiescent ts \<longleftrightarrow> (\<forall>t\<in>set ts. quiet t)"

text \<open>A PE that has found, or is bound to find, that the counters are not settled.\<close>

fun unsettled :: "nat \<Rightarrow> nat \<Rightarrow> blk_pc \<Rightarrow> blk \<Rightarrow> inners \<Rightarrow> bool" where
  "unsettled N p RecheckLocal b I \<longleftrightarrow> outstanding_refs b \<or> old_dist_cnt b \<noteq> total_dist_cnt (I p)
     \<or> (\<exists>k<N. old_ref_cnts b k \<noteq> total_ref_cnt (I p) k) \<or> (\<Sum>k<N. mode_ref_cnt (I p) k) \<noteq> old_dist_cnt b"
| "unsettled N p RecheckDist b I \<longleftrightarrow> outstanding_refs b \<or> old_dist_cnt b \<noteq> total_dist_cnt (I p)
     \<or> (\<exists>k<N. old_ref_cnts b k \<noteq> total_ref_cnt (I p) k) \<or> (\<Sum>k<N. mode_ref_cnt (I p) k) \<noteq> old_dist_cnt b"
| "unsettled N p (RecheckRef j) b I \<longleftrightarrow> outstanding_refs b
     \<or> (\<exists>k<N. j \<le> k \<and> old_ref_cnts b k \<noteq> total_ref_cnt (I p) k) \<or> barrier_sum b + (\<Sum>k\<in>{j..<N}. mode_ref_cnt (I p) k) \<noteq> old_dist_cnt b"
| "unsettled N p _ b I \<longleftrightarrow> outstanding_refs b"

text \<open>The result \<open>B\<close> that the PE has reached or will reach from the values in its array.\<close>

fun agrees :: "nat \<Rightarrow> nat \<Rightarrow> bool \<Rightarrow> blk_pc \<Rightarrow> blk \<Rightarrow> inners \<Rightarrow> bool" where
  "agrees N p B (ReadId j) b I \<longleftrightarrow> (outstanding_refs b \<or> (\<exists>k<N. j \<le> k \<and> mode_barrier (I p) k = 0)) = B"
| "agrees N p B StoreMode b I \<longleftrightarrow> \<not> B"
| "agrees N p B (PutMode j) b I \<longleftrightarrow> \<not> B"
| "agrees N p B (WaitMode j) b I \<longleftrightarrow> \<not> B"
| "agrees N p B (WaitSwap k j) b I \<longleftrightarrow> \<not> B"
| "agrees N p B (At j) b I \<longleftrightarrow> B = (j \<noteq> 4)"
| "agrees N p B _ b I \<longleftrightarrow> B"

definition global_inv :: "nat \<Rightarrow> nat \<Rightarrow> (nat \<Rightarrow> blk) \<Rightarrow> inners \<Rightarrow> darc_task list \<Rightarrow> bool" where
  "global_inv N g B I ts \<longleftrightarrow> (\<forall>p<N. seg (bk_pc (B p)) = g)
   \<and> (g = 1 \<longrightarrow> (\<exists>r. (r \<or> quiescent ts) \<and> (\<forall>p<N. agrees N p r (bk_pc (B p)) (B p) I)))
   \<and> (g = 2 \<or> g = 3 \<longrightarrow> quiescent ts \<or> (\<exists>p<N. unsettled N p (bk_pc (B p)) (B p) I))
   \<and> (g = 4 \<longrightarrow> quiescent ts)"

lemma unsettled_grows:
  assumes "unsettled N p (bk_pc b) b I" "grows I J" "pe_inv N p b I ts"
  shows "unsettled N p (bk_pc b) b J"
proof -
  have g: "total_ref_cnt (I p) k \<le> total_ref_cnt (J p) k" "total_dist_cnt (I p) \<le> total_dist_cnt (J p)"
    "mode_ref_cnt (J p) = mode_ref_cnt (I p)" for k using assms(2) by (simp_all add: grows_def)
  have le: "dist_taken (bk_pc b) \<Longrightarrow> old_dist_cnt b \<le> total_dist_cnt (I p)"
    "k < N \<Longrightarrow> taken (bk_pc b) k \<Longrightarrow> old_ref_cnts b k \<le> total_ref_cnt (I p) k" for k
    using assms(3) by (auto simp: pe_inv_def ref_inv_def)
  have ref: "old_ref_cnts b k \<noteq> total_ref_cnt (J p) k" if "k < N" "taken (bk_pc b) k" "old_ref_cnts b k \<noteq> total_ref_cnt (I p) k" for k
    using le(2) [OF that(1,2)] that(3) g(1) [of k] by linarith
  have dist: "old_dist_cnt b \<noteq> total_dist_cnt (J p)" if "dist_taken (bk_pc b)" "old_dist_cnt b \<noteq> total_dist_cnt (I p)"
    using le(1) [OF that(1)] that(2) g(2) by linarith
  show ?thesis using assms(1) ref dist g(3) by (cases "bk_pc b") auto
qed

lemma agrees_cong:
  "mode_barrier (J p) = mode_barrier (I p) \<Longrightarrow> agrees N p r pc b J = agrees N p r pc b I"
  by (cases pc) auto

lemma global_inv_task:
  assumes "global_inv N g B I ts" "grows I J" "\<And>p. p < N \<Longrightarrow> pe_inv N p (B p) I ts" "quiescent ts \<Longrightarrow> quiescent us"
  shows "global_inv N g B J us"
proof -
  have "agrees N p r pc b J = agrees N p r pc b I" for p r pc b
    using assms(2) by (intro agrees_cong) (simp add: grows_def)
  moreover have "(\<exists>p<N. unsettled N p (bk_pc (B p)) (B p) J)" if "\<exists>p<N. unsettled N p (bk_pc (B p)) (B p) I"
    using that unsettled_grows [OF _ assms(2,3)] by blast
  ultimately show ?thesis using assms(1,4) unfolding global_inv_def by auto
qed

text \<open>A step of PE \<open>p\<close> keeps its own part.\<close>

lemma pe_act_agrees:
  assumes "pe_act c p b I = Some (new, I', b')" "seg (bk_pc b) = 1" "cf_mode c \<noteq> Dropped" "agrees (cf_pes c) p r (bk_pc b) b I"
  shows "agrees (cf_pes c) p r (bk_pc b') b' I'"
  using assms(1) _ assms(3)
proof (rule pe_act_cases)
  show "seg (bk_pc b) < 5" using assms(2) by simp
  assume "start_act c p (bk_pc b) b I = Some (new, I', b')"
  then show ?thesis using assms(2) by (cases "bk_pc b") auto
next
  assume "collect_act c p (bk_pc b) b I = Some (new, I', b')"
  then show ?thesis using assms(4) by (cases "bk_pc b") (auto simp: goto_def goto_swap_def split: if_splits prod.splits)
next
  assume "recheck_act c p (bk_pc b) b I = Some (new, I', b')"
  then show ?thesis using assms(2) by (cases "bk_pc b") auto
next
  assume act: "agree_act c p (bk_pc b) b I = Some (new, I', b')"
  show ?thesis
  proof (cases "bk_pc b")
    case (ReadId j)
    have "(\<exists>k<cf_pes c. j \<le> k \<and> mode_barrier (I p) k = 0)
      \<longleftrightarrow> j < cf_pes c \<and> mode_barrier (I p) j = 0 \<or> (\<exists>k<cf_pes c. Suc j \<le> k \<and> mode_barrier (I p) k = 0)"
      using le_less_Suc_eq by (metis Suc_leD le_eq_less_or_eq Suc_leI)
    then show ?thesis using act assms(4) ReadId by (auto simp: goto_def loop_head_def Let_def split: if_splits)
  qed (use act assms(2) in auto)
next
  assume "mode_act c p (bk_pc b) b I = Some (new, I', b')"
  then show ?thesis using assms(2,4) by (cases "bk_pc b") (auto simp: goto_def goto_swap_def split: if_splits prod.splits)
qed

lemma pe_act_unsettled:
  assumes "pe_act c p b I = Some (new, I', b')" "seg (bk_pc b) = 2 \<or> seg (bk_pc b) = 3" "cf_mode c \<noteq> Dropped"
    "unsettled (cf_pes c) p (bk_pc b) b I"
  shows "unsettled (cf_pes c) p (bk_pc b') b' I'"
  using assms(1) _ assms(3)
proof (rule pe_act_cases)
  show "seg (bk_pc b) < 5" using assms(2) by auto
  assume "start_act c p (bk_pc b) b I = Some (new, I', b')"
  then show ?thesis using assms(2) by (cases "bk_pc b") auto
next
  assume "collect_act c p (bk_pc b) b I = Some (new, I', b')"
  then show ?thesis using assms(2) by (cases "bk_pc b") auto
next
  assume act: "recheck_act c p (bk_pc b) b I = Some (new, I', b')"
  show ?thesis
  proof (cases "bk_pc b")
    case (RecheckRef j)
    have "(\<exists>k<cf_pes c. j \<le> k \<and> old_ref_cnts b k \<noteq> total_ref_cnt (I p) k)
      \<longleftrightarrow> j < cf_pes c \<and> old_ref_cnts b j \<noteq> total_ref_cnt (I p) j \<or> (\<exists>k<cf_pes c. Suc j \<le> k \<and> old_ref_cnts b k \<noteq> total_ref_cnt (I p) k)"
      by (metis Suc_leD le_eq_less_or_eq Suc_leI)
    moreover have "(\<Sum>k\<in>{j..<cf_pes c}. mode_ref_cnt (I p) k) = mode_ref_cnt (I p) j + (\<Sum>k\<in>{Suc j..<cf_pes c}. mode_ref_cnt (I p) k)"
      if "j < cf_pes c" using that by (simp add: sum.atLeast_Suc_lessThan)
    ultimately show ?thesis using act assms(4) RecheckRef by (auto simp: goto_def split: if_splits)
  qed (use act assms(4) in \<open>auto simp: goto_def lessThan_atLeast0\<close>)
next
  assume "agree_act c p (bk_pc b) b I = Some (new, I', b')"
  then show ?thesis using assms(2,4) by (cases "bk_pc b") (auto simp: goto_def split: if_splits)
next
  assume "mode_act c p (bk_pc b) b I = Some (new, I', b')"
  then show ?thesis using assms(2) by (cases "bk_pc b") auto
qed


lemma unsettled_cong:
  "total_ref_cnt (J p) = total_ref_cnt (I p) \<Longrightarrow> total_dist_cnt (J p) = total_dist_cnt (I p) \<Longrightarrow> mode_ref_cnt (J p) = mode_ref_cnt (I p) \<Longrightarrow>
   unsettled N p pc b J = unsettled N p pc b I"
  by (cases pc) auto

lemma effect_tasks:
  assumes "blk_effect c p b I new I' b'" "u \<in> set new"
  shows "quiet u" "plain u" "local_weight q u = 0"
  using assms swap_ref_view(2) by (auto simp: blk_effect_def)

lemma global_inv_pe:
  assumes act: "pe_act c p (B p) I = Some (new, I', b')" and cfg: "cf_mode c \<noteq> Dropped" "cf_pes c \<noteq> 1" and p: "p < cf_pes c" "g < 5"
    and inv: "global_inv (cf_pes c) g B I ts"
  shows "global_inv (cf_pes c) g (B(p := b')) I' (ts @ new)"
proof -
  let ?N = "cf_pes c"
  have seg: "seg (bk_pc (B p)) = g" using inv p by (simp add: global_inv_def)
  then have eff: "blk_effect c p (B p) I new I' b'" using pe_act_effect [OF act] cfg p by simp
  have q: "quiescent ts \<Longrightarrow> quiescent (ts @ new)" using effect_tasks(1) [OF eff] by (auto simp: quiescent_def)
  have ag: "agrees ?N q r (bk_pc ((B(p := b')) q)) ((B(p := b')) q) I'" if "agrees ?N q r (bk_pc (B q)) (B q) I" "g = 1" for q r
  proof (cases "q = p")
    case True
    then show ?thesis using pe_act_agrees [OF act _ cfg(1)] that seg by simp
  next
    case False
    have "mode_barrier (I' q) = mode_barrier (I q)" using eff seg that(2) by (simp add: blk_effect_def)
    from agrees_cong [of I' q I, OF this] that(1) False show ?thesis by simp
  qed
  have un: "unsettled ?N q (bk_pc ((B(p := b')) q)) ((B(p := b')) q) I'" if "unsettled ?N q (bk_pc (B q)) (B q) I" "g = 2 \<or> g = 3" for q
  proof (cases "q = p")
    case True
    then show ?thesis using pe_act_unsettled [OF act _ cfg(1)] that seg by simp
  next
    case False
    have "total_ref_cnt (I' q) = total_ref_cnt (I q)" "total_dist_cnt (I' q) = total_dist_cnt (I q)" "mode_ref_cnt (I' q) = mode_ref_cnt (I q)"
      using eff seg that(2) by (auto simp: blk_effect_def)
    from unsettled_cong [of I' q I, OF this] that(1) False show ?thesis by simp
  qed
  have "seg (bk_pc b') = g" using eff seg by (simp add: blk_effect_def)
  moreover have "\<exists>r. (r \<or> quiescent (ts @ new)) \<and> (\<forall>q<?N. agrees ?N q r (bk_pc ((B(p := b')) q)) ((B(p := b')) q) I')" if g: "g = 1"
  proof -
    obtain r where r: "r \<or> quiescent ts" "\<forall>q<?N. agrees ?N q r (bk_pc (B q)) (B q) I"
      using inv g by (auto simp: global_inv_def)
    show ?thesis by (intro exI [of _ r] conjI allI impI ag g) (use r q in auto)
  qed
  moreover have "quiescent (ts @ new) \<or> (\<exists>q<?N. unsettled ?N q (bk_pc ((B(p := b')) q)) ((B(p := b')) q) I')" if g: "g = 2 \<or> g = 3"
  proof -
    have "quiescent ts \<or> (\<exists>q<?N. unsettled ?N q (bk_pc (B q)) (B q) I)" using inv g by (auto simp: global_inv_def)
    then show ?thesis using q un g by blast
  qed
  ultimately show ?thesis using inv q unfolding global_inv_def by simp
qed

text \<open>
  The first barrier of a round: if no PE finds a difference then every message has arrived and no PE has a
  reference but those of its caller.
\<close>

lemma settled_quiescent:
  assumes N: "darc_inv N (\<lambda>_. 0) held I ts" and plain: "\<forall>t\<in>set ts. plain t"
    and pes: "\<And>p. p < N \<Longrightarrow> pe_inv N p (B p) I ts \<and> bk_pc (B p) = At 1"
    and settled: "\<And>p. p < N \<Longrightarrow> \<not> unsettled N p RecheckLocal (B p) I"
  shows "quiescent ts"
proof -
  have ref: "mode_ref_cnt (I k) p = total_ref_cnt (I p) k \<and> prev_ref_cnts (B p) k = total_ref_cnt (I p) k" if "p < N" "k < N" for p k
  proof -
    have "ref_inv p (B p) I k" using pes [OF that(1)] that(2) by (simp add: pe_inv_def)
    then show ?thesis using settled [OF that(1)] pes [OF that(1)] that by (auto simp: ref_inv_def)
  qed
  have sent: "weigh (total_dist_weight p) ts = 0" if p: "p < N" for p
  proof -
    have "total_dist_cnt (I p) = (\<Sum>k<N. mode_ref_cnt (I p) k)" using settled [OF p] by simp
    also have "\<dots> = total_refs_from N I p" unfolding total_refs_from_def by (intro sum.cong) (use ref p in auto)
    finally have "total_dist_cnt (I p) = total_refs_from N I p" .
    moreover have "total_dist_cnt (I p) = weigh (total_dist_weight p) ts + total_refs_from N I p" using N p by (simp add: darc_inv_def)
    ultimately show ?thesis by simp
  qed
  have refs: "local_weight p t = 0" if p: "p < N" and t: "t \<in> set ts" for p t
  proof -
    have "(\<exists>t\<in>set ts. 0 < local_weight p t) \<longrightarrow> (\<exists>k<N. prev_ref_cnts (B p) k < total_ref_cnt (I p) k)"
      using pes [OF p] by (simp add: pe_inv_def)
    then show ?thesis using ref [OF p] t by force
  qed
  have "quiet t" if t: "t \<in> set ts" for t
  proof -
    have ok: "task_ok N t" "plain t" using N plain t by (auto simp: darc_inv_def)
    have "local_weight (task_pe t) t = 0" using refs [of "task_pe t" t] ok t by (cases t) auto
    moreover have "total_dist_weight p t = 0" if "p < N" for p using sent [OF that] t by simp
    ultimately show ?thesis using ok by (cases t) (auto split: if_splits)
  qed
  then show ?thesis by (simp add: quiescent_def)
qed


subsection \<open>The whole system\<close>

definition conv_inv :: "darc_cfg \<Rightarrow> darc_sys \<Rightarrow> bool" where
  "conv_inv c s \<longleftrightarrow> darc_inv (cf_pes c) (\<lambda>_. 0) (\<lambda>_. 1 + cf_extra c) (ds_inner s) (ds_tasks s)
   \<and> (\<forall>p<cf_pes c. \<not> freed (ds_inner s p) \<and> pe_inv (cf_pes c) p (ds_blk s p) (ds_inner s) (ds_tasks s))
   \<and> (\<forall>t\<in>set (ds_tasks s). plain t)
   \<and> (\<exists>g<5. global_inv (cf_pes c) g (ds_blk s) (ds_inner s) (ds_tasks s))"

text \<open>A team of several PEs that changes the mode of a darc to one that is not \<open>Dropped\<close>.\<close>

definition conv_cfg :: "darc_cfg \<Rightarrow> bool" where
  "conv_cfg c \<longleftrightarrow> 2 \<le> cf_pes c \<and> cf_mode c \<noteq> Dropped \<and> \<not> cf_split c \<and> \<not> cf_weak c"

lemma conv_task:
  assumes inv: "conv_inv c s" and cfg: "conv_cfg c" and run: "run_task c i call s = Some t"
  shows "conv_inv c t"
proof -
  let ?N = "cf_pes c" and ?I = "ds_inner s" and ?ts = "ds_tasks s"
  obtain new I' where i: "i < length ?ts" and act: "darc_act c call (?ts ! i) ?I = Some (new, I')"
    and t: "t = s\<lparr>ds_inner := I', ds_tasks := take i ?ts @ new @ drop (Suc i) ?ts\<rparr>"
    using run by (auto simp: run_task_def split: if_splits option.splits)
  let ?us = "take i ?ts @ new @ drop (Suc i) ?ts"
  have split: "?ts = take i ?ts @ ?ts ! i # drop (Suc i) ?ts" using i by (simp add: id_take_nth_drop)
  have di: "darc_inv ?N (\<lambda>_. 0) (\<lambda>_. 1 + cf_extra c) ?I ?ts" and pl: "\<forall>u\<in>set ?ts. plain u" using inv by (simp_all add: conv_inv_def)
  have mem: "?ts ! i \<in> set ?ts" using i by simp
  then have ok: "task_ok ?N (?ts ! i)" "plain (?ts ! i)" using di pl by (auto simp: darc_inv_def)
  then have "task_pe (?ts ! i) < ?N" by (cases "?ts ! i") auto
  then have live: "live_act c call (?ts ! i) ?I = Some (new, I')"
    using act inv by (auto simp: darc_act_def conv_inv_def split: option.splits)
  have plain: "plain u" if "u \<in> set new" for u
    using live_act_plain [OF live ok(2) _ _ that] cfg by (simp add: conv_cfg_def)
  then have dang: "Dangling p \<notin> set new" for p by force
  have us: "u \<in> set ?us \<Longrightarrow> u \<in> set ?ts \<or> u \<in> set new" for u
    by (auto dest: in_set_takeD in_set_dropD)
  have g: "grows ?I I'" by (rule live_act_grows [OF live])
  have "darc_inv ?N (\<lambda>_. 0) (\<lambda>_. 1 + cf_extra c) I' ?us"
    by (rule darc_act_inv [OF act _ dang]) (use di split in simp)
  moreover have "pe_inv ?N p (ds_blk s p) I' ?us" if p: "p < ?N" for p
  proof (rule pe_inv_grows [OF _ g])
    show "pe_inv ?N p (ds_blk s p) ?I ?ts" using inv p by (simp add: conv_inv_def)
    fix u
    assume u: "u \<in> set ?us" "0 < local_weight p u"
    show "(\<exists>v\<in>set ?ts. 0 < local_weight p v) \<or> (\<exists>k<?N. total_ref_cnt (?I p) k < total_ref_cnt (I' p) k)"
      using live_act_arrival [OF live ok(2) _ ok(1), of p u] us [OF u(1)] u(2) mem cfg
      by (auto simp: conv_cfg_def)
  qed
  moreover have "quiescent ?us" if "quiescent ?ts"
    using us live_act_quiet [OF live] that mem by (auto simp: quiescent_def)
  then have "\<exists>g<5. global_inv ?N g (ds_blk s) I' ?us"
    using global_inv_task [OF _ g] inv unfolding conv_inv_def by meson
  moreover have "\<forall>u\<in>set ?us. plain u" using us plain pl by blast
  ultimately show ?thesis using inv g by (simp add: t conv_inv_def grows_def)
qed

lemma conv_pe:
  assumes inv: "conv_inv c s" and cfg: "conv_cfg c" and run: "run_pe c p s = Some t"
  shows "conv_inv c t"
proof -
  let ?N = "cf_pes c" and ?I = "ds_inner s" and ?ts = "ds_tasks s" and ?B = "ds_blk s"
  obtain new I' b where p: "p < ?N" and act: "pe_act c p (?B p) ?I = Some (new, I', b)"
    and t: "t = \<lparr>ds_inner = I', ds_tasks = ?ts @ new, ds_blk = ?B(p := b)\<rparr>"
    using run by (auto simp: run_pe_def split: if_splits option.splits)
  obtain g where g: "g < 5" "global_inv ?N g ?B ?I ?ts" using inv by (auto simp: conv_inv_def)
  then have seg: "seg (bk_pc (?B p)) < 5" using p by (simp add: global_inv_def)
  have cf: "cf_mode c \<noteq> Dropped" "?N \<noteq> 1" using cfg by (auto simp: conv_cfg_def)
  note eff = pe_act_effect [OF act seg cf]
  have di: "darc_inv ?N (\<lambda>_. 0) (\<lambda>_. 1 + cf_extra c) ?I ?ts" using inv by (simp add: conv_inv_def)
  have "darc_inv ?N (\<lambda>_. 0) (\<lambda>_. 1 + cf_extra c) I' (?ts @ new)"
    using eff di p swap_ref_inv same_counts_inv by (auto simp: blk_effect_def)
  moreover have "pe_inv ?N q ((?B(p := b)) q) I' (?ts @ new)" if q: "q < ?N" for q
  proof (cases "q = p")
    case True
    have "pe_inv ?N p (?B p) ?I ?ts" "local_cnt (?I p) = 1 + cf_extra c + weigh (local_weight p) ?ts"
      using inv di p by (simp_all add: conv_inv_def darc_inv_def)
    then show ?thesis using pe_act_pe_inv [OF act seg cf(1)] True by simp
  next
    case False
    have "pe_inv ?N q (?B q) I' (?ts @ new)"
      by (rule pe_inv_other [of ?N q "?B q" ?I ?ts]) (use inv q eff False effect_tasks(3) [OF eff] in \<open>auto simp: conv_inv_def blk_effect_def\<close>)
    with False show ?thesis by simp
  qed
  moreover have "global_inv ?N g (?B(p := b)) I' (?ts @ new)" by (rule global_inv_pe [OF act cf p g])
  ultimately show ?thesis using inv g(1) eff effect_tasks(2) [OF eff]
    by (auto simp: t conv_inv_def blk_effect_def simp del: fun_upd_apply)
qed


lemma fold_upd: "fold (\<lambda>p B. B(p := f (B p))) [0..<n] B q = (if q < n then f (B q) else B q)"
  by (induction n) (auto simp: less_Suc_eq)

lemma pe_inv_loop_head:
  assumes "pe_inv N p b I ts" "bk_pc b = At 0"
  shows "pe_inv N p (loop_head b) I ts"
proof -
  have "ref_inv p (loop_head b) I k" if "k < N" for k
    using assms that unfolding pe_inv_def ref_inv_def by (simp add: loop_head_def)
  then show ?thesis using assms unfolding pe_inv_def by (simp add: loop_head_def)
qed

lemma after_barrier_pe_inv:
  assumes "pe_inv N p b I ts" "bk_pc b = At j" "j < 5"
  shows "pe_inv N p (after_barrier j b) I ts"
proof (cases "j = 0")
  case False
  have id: "id_inv N p (At j) b I" using assms(1,2) by (simp add: pe_inv_def)
  note to = pe_inv_goto [OF assms(1) same_view_refl, of "[]"]
  from False assms(3) consider "j = 1" | "j = 2" | "j = 3" | "j = 4" by linarith
  then show ?thesis
  proof cases
    case 1
    then show ?thesis using to [of RecheckLocal] assms(2) by simp
  next
    case 2
    then show ?thesis using to [of "PutId 0"] assms(2) id by simp
  next
    case 3
    then show ?thesis using to [of "ReadId 0"] assms(2) by simp
  next
    case 4
    then show ?thesis using to [of Returned] assms(2) by simp
  qed
qed (use assms pe_inv_loop_head in simp)

lemma after_barrier_global:
  assumes di: "darc_inv N (\<lambda>_. 0) held I ts" and plain: "\<forall>t\<in>set ts. plain t" and N: "0 < N" and g: "g < 5" "global_inv N g B I ts"
    and pes: "\<And>p. p < N \<Longrightarrow> pe_inv N p (B p) I ts \<and> bk_pc (B p) = At j"
    and B': "\<And>p. p < N \<Longrightarrow> B' p = after_barrier j (B p)"
  shows "\<exists>g<5. global_inv N g B' I ts"
proof -
  have at: "bk_pc (B p) = At j" if "p < N" for p using pes that by simp
  have "seg (bk_pc (B 0)) = g" using g(2) N by (simp add: global_inv_def)
  then have "g = seg (At j)" using at [OF N] by simp
  with g(1) consider "j = 0" "g = 0" | "j = 1" "g = 1" | "j = 2" "g = 2" | "j = 3" "g = 3" | "j = 4" "g = 1" by (auto split: if_splits)
  then show ?thesis
  proof cases
    case 1
    then have "global_inv N 1 B' I ts" using B' unfolding global_inv_def by (auto simp: loop_head_def)
    then show ?thesis by (intro exI [of _ 1]) simp
  next
    case 2
    have "quiescent ts \<or> (\<exists>p<N. unsettled N p RecheckLocal (B p) I)"
      using settled_quiescent [OF di plain] pes 2 by blast
    then have "global_inv N 2 B' I ts" using B' 2 unfolding global_inv_def by auto
    then show ?thesis by (intro exI [of _ 2]) simp
  next
    case 3
    then have "global_inv N 3 B' I ts" using B' g(2) at unfolding global_inv_def by auto
    then show ?thesis by (intro exI [of _ 3]) simp
  next
    case 4
    have id: "mode_barrier (I p) q = 0 \<longleftrightarrow> outstanding_refs (B q)" if "p < N" "q < N" for p q
      using pes [OF that(2)] that(1) 4 by (auto simp: pe_inv_def)
    let ?r = "\<exists>q<N. outstanding_refs (B q)"
    have "?r \<or> quiescent ts" using g(2) 4 at by (auto simp: global_inv_def)
    moreover have "agrees N p ?r (bk_pc (B' p)) (B' p) I" if "p < N" for p
      using B' [OF that] 4 id [OF that] that by auto
    ultimately have "global_inv N 1 B' I ts" unfolding global_inv_def using B' 4 by auto
    then show ?thesis by (intro exI [of _ 1]) simp
  next
    case 5
    then have "quiescent ts" using g(2) at [OF N] N by (auto simp: global_inv_def)
    then have "global_inv N 4 B' I ts" unfolding global_inv_def using B' 5 by simp
    then show ?thesis by (intro exI [of _ 4]) simp
  qed
qed

lemma conv_barrier:
  assumes inv: "conv_inv c s" and cfg: "conv_cfg c" and run: "run_barrier c j s = Some t"
  shows "conv_inv c t"
proof -
  let ?N = "cf_pes c" and ?I = "ds_inner s" and ?ts = "ds_tasks s" and ?B = "ds_blk s"
  have at: "bk_pc (?B p) = At j" if "p < ?N" for p
    using run that by (auto simp: run_barrier_def list_all_iff split: if_splits)
  have t: "ds_inner t = ?I" "ds_tasks t = ?ts" "ds_blk t p = (if p < ?N then after_barrier j (?B p) else ?B p)" for p
    using run by (auto simp: run_barrier_def fold_upd split: if_splits)
  have N: "0 < ?N" using cfg by (simp add: conv_cfg_def)
  obtain g where g: "g < 5" "global_inv ?N g ?B ?I ?ts" using inv by (auto simp: conv_inv_def)
  have "seg (At j) = g" using g(2) at [OF N] N by (auto simp: global_inv_def)
  then have j: "j < 5" using g(1) by (auto split: if_splits)
  have "\<exists>g<5. global_inv ?N g (ds_blk t) ?I ?ts"
    by (rule after_barrier_global [OF _ _ N g]) (use inv at t(3) in \<open>auto simp: conv_inv_def\<close>)
  moreover have "pe_inv ?N p (ds_blk t p) ?I ?ts" if "p < ?N" for p
    using after_barrier_pe_inv [OF _ at [OF that] j] inv t(3) that by (simp add: conv_inv_def)
  ultimately show ?thesis using inv by (simp add: conv_inv_def t(1,2))
qed

lemma conv_step:
  assumes "darc_step c s t" "conv_inv c s" "conv_cfg c"
  shows "conv_inv c t"
  using assms(1)
proof cases
  case (launch i)
  then obtain p where "p < cf_pes c" "bk_pc (ds_blk s p) = Out"
    using assms(2) by (fastforce simp: run_launch_def conv_inv_def darc_inv_def dest: nth_mem split: if_splits darc_task.splits)
  then have False using assms(2) by (auto simp: conv_inv_def global_inv_def)
  then show ?thesis ..
qed (use assms conv_task conv_pe conv_barrier in blast)+


section \<open>Conservation in every execution\<close>

lemma gc_act_counts:
  assumes "gc_act c p (bk_pc b) b I = Some (new, I', b')"
  shows "new = [] \<and> same_counts I I' \<or> (\<exists>k<cf_pes c. swap_ref p k I = (new, I'))"
  using assms by (cases "bk_pc b") (auto simp: goto_def goto_swap_def split: if_splits prod.splits intro: same_counts_on_pe)

lemma start_act_counts:
  assumes "start_act c p (bk_pc b) b I = Some (new, I', b')"
  shows "new = [] \<and> same_counts I I' \<or> (\<exists>k<cf_pes c. swap_ref p k I = (new, I'))"
  using assms by (cases "bk_pc b") (auto simp: goto_def goto_swap_def split: if_splits prod.splits intro: same_counts_on_pe)

lemma pe_act_counts:
  assumes "pe_act c p b I = Some (new, I', b')"
  shows "new = [] \<and> same_counts I I' \<or> (\<exists>k<cf_pes c. swap_ref p k I = (new, I'))"
  using assms start_act_counts collect_act_effect recheck_act_effect agree_act_effect mode_act_effect gc_act_counts
  unfolding pe_act_def blk_effect_def by (auto split: option.splits; blast)

lemma step_darc_inv:
  assumes step: "darc_step c s t" and inv: "darc_inv (cf_pes c) base held (ds_inner s) (ds_tasks s)"
    and live: "\<And>p. Dangling p \<notin> set (ds_tasks t)"
  shows "darc_inv (cf_pes c) base held (ds_inner t) (ds_tasks t)"
  using step
proof cases
  case (task i call)
  then obtain new I' where i: "i < length (ds_tasks s)" and act: "darc_act c call (ds_tasks s ! i) (ds_inner s) = Some (new, I')"
    and t: "t = s\<lparr>ds_inner := I', ds_tasks := take i (ds_tasks s) @ new @ drop (Suc i) (ds_tasks s)\<rparr>"
    by (auto simp: run_task_def split: if_splits option.splits)
  have "darc_inv (cf_pes c) base held I' (take i (ds_tasks s) @ new @ drop (Suc i) (ds_tasks s))"
    by (rule darc_act_inv [OF act]) (use inv i live t in \<open>simp_all add: id_take_nth_drop [symmetric]\<close>)
  then show ?thesis by (simp add: t)
next
  case (launch i)
  then obtain p where i: "i < length (ds_tasks s)" "ds_tasks s ! i = DroppedWait p" and t: "ds_inner t = ds_inner s"
    "ds_tasks t = take i (ds_tasks s) @ [] @ drop (Suc i) (ds_tasks s)"
    by (auto simp: run_launch_def split: if_splits darc_task.splits)
  have "darc_inv (cf_pes c) base held (ds_inner s) (take i (ds_tasks s) @ DroppedWait p # drop (Suc i) (ds_tasks s))"
    using inv i by (metis id_take_nth_drop)
  then have "darc_inv (cf_pes c) base held (ds_inner s) (take i (ds_tasks s) @ [] @ drop (Suc i) (ds_tasks s))"
    by (rule balanced_inv) (simp add: balanced_def)
  then show ?thesis by (simp add: t)
next
  case (pe p)
  then obtain new I' b where p: "p < cf_pes c" and act: "pe_act c p (ds_blk s p) (ds_inner s) = Some (new, I', b)"
    and t: "ds_inner t = I'" "ds_tasks t = ds_tasks s @ new"
    by (auto simp: run_pe_def split: if_splits option.splits)
  then show ?thesis using pe_act_counts [OF act] inv swap_ref_inv same_counts_inv by auto
next
  case (barrier j)
  then show ?thesis using inv by (auto simp: run_barrier_def split: if_splits)
qed

lemma dangling_stays:
  assumes "darc_step c s t" "Dangling p \<in> set (ds_tasks s)"
  shows "Dangling p \<in> set (ds_tasks t)"
  using assms(1)
proof cases
  case (task i call)
  then have i: "i < length (ds_tasks s)" and "darc_act c call (ds_tasks s ! i) (ds_inner s) \<noteq> None"
    by (auto simp: run_task_def split: if_splits option.splits)
  then have "ds_tasks s ! i \<noteq> Dangling p" by (auto simp: darc_act_def)
  then have "Dangling p \<in> set (take i (ds_tasks s)) \<union> set (drop (Suc i) (ds_tasks s))"
    using assms(2) i by (metis (no_types, lifting) Un_iff id_take_nth_drop list.set_intros(2) set_ConsD set_append)
  then show ?thesis using task by (auto simp: run_task_def split: if_splits option.splits)
next
  case (launch i)
  then have i: "i < length (ds_tasks s)" "ds_tasks s ! i \<noteq> Dangling p"
    by (auto simp: run_launch_def split: if_splits darc_task.splits)
  then have "Dangling p \<in> set (take i (ds_tasks s)) \<union> set (drop (Suc i) (ds_tasks s))"
    using assms(2) by (metis (no_types, lifting) Un_iff id_take_nth_drop set_ConsD set_append)
  then show ?thesis using launch by (auto simp: run_launch_def split: if_splits darc_task.splits)
qed (use assms(2) in \<open>auto simp: run_pe_def run_barrier_def split: if_splits option.splits\<close>)

lemma reach_darc_inv:
  assumes "(darc_step c)\<^sup>*\<^sup>* s t" "darc_inv (cf_pes c) base held (ds_inner s) (ds_tasks s)" "\<And>p. Dangling p \<notin> set (ds_tasks t)"
  shows "darc_inv (cf_pes c) base held (ds_inner t) (ds_tasks t)"
  using assms
proof (induction rule: rtranclp_induct)
  case (step t u)
  have "Dangling p \<notin> set (ds_tasks t)" for p using dangling_stays [OF step.hyps(2)] step.prems(2) by blast
  then show ?case using step step_darc_inv by blast
qed simp


section \<open>Properties\<close>

text \<open>A darc just created on every PE; \<open>mem p\<close> is what the memory of the total counts on PE \<open>p\<close> holds.\<close>

definition darc_fresh :: "darc_cfg \<Rightarrow> darc_mode \<Rightarrow> (nat \<Rightarrow> nat \<Rightarrow> nat) \<Rightarrow> blk_pc \<Rightarrow> darc_sys" where
  "darc_fresh c m mem pc = \<lparr>ds_inner = (\<lambda>p. try_new_with_drop m (mem p)), ds_tasks = map Handle [0..<cf_pes c], ds_blk = (\<lambda>_. blk_new pc)\<rparr>"

lemma darc_fresh_inv:
  "darc_inv (cf_pes c) (\<lambda>p. \<Sum>q<cf_pes c. mem q p) (\<lambda>_. 0) (ds_inner (darc_fresh c m mem pc)) (ds_tasks (darc_fresh c m mem pc))"
proof -
  have "weigh (local_weight p) (map Handle [0..<n]) = of_bool (p < n)" for p n by (induction n) auto
  moreover have "weigh (dist_weight p) (map Handle xs) = 0" "weigh (total_dist_weight p) (map Handle xs) = 0"
    "weigh (weak_weight p) (map Handle xs) = 0" for p xs by (induction xs) simp_all
  ultimately show ?thesis
    by (auto simp: darc_inv_def darc_fresh_def try_new_with_drop_def refs_from_def total_refs_from_def)
qed


lemmas darc_eval = run_task_def run_launch_def run_pe_def run_barrier_def darc_act_def clone_act_def finished_act_def swap_ref_def
  drop_modes_def darc_updates pe_act_def goto_def goto_swap_def loop_head_def blk_new_def try_new_with_drop_def on_pe_def
  upt_rec cnt_sub_def darc_fresh_def numeral_eq_Suc

text \<open>Parts of executions: a reference of a task list is dropped by the last owner; both PEs run.\<close>

definition last_drop :: "nat \<Rightarrow> move list" where
  "last_drop i = MTask i CallDrop # replicate 6 (MTask i Next)"

definition both :: "nat \<Rightarrow> move list" where
  "both n = [MPe 0 n, MPe 1 n]"

definition one_round :: "move list" where
  "one_round = both 12 @ [MBarrier 1] @ both 5 @ [MBarrier 2] @ both 3 @ [MBarrier 3] @ both 3"

definition send_to :: "nat \<Rightarrow> move list" where
  "send_to q = MTask 0 (CallSend [q]) # replicate 4 (MTask 0 Next) @ [MTask 1 Next, MTask 1 Next]"

lemmas run_parts = last_drop_def both_def one_round_def send_to_def

definition two_pes :: "darc_mode \<Rightarrow> bool \<Rightarrow> darc_cfg" where
  "two_pes m split = \<lparr>cf_pes = 2, cf_mode = m, cf_extra = 0, cf_split = split, cf_weak = False\<rparr>"



text \<open>
  The start of a change of mode: every PE is about to enter the collective call, whose caller
  holds \<open>1 + cf_extra\<close> references; the tasks and counters may be any that belong together.  The arrays may
  hold values of an earlier call.
\<close>

definition conv_start :: "darc_cfg \<Rightarrow> darc_sys \<Rightarrow> bool" where
  "conv_start c s \<longleftrightarrow> darc_inv (cf_pes c) (\<lambda>_. 0) (\<lambda>_. 1 + cf_extra c) (ds_inner s) (ds_tasks s) \<and> (\<forall>t\<in>set (ds_tasks s). plain t)
   \<and> (\<forall>p<cf_pes c. \<not> freed (ds_inner s p) \<and> ds_blk s p = blk_new Start
        \<and> (\<forall>k<cf_pes c. total_ref_cnt (ds_inner s p) k = 0 \<longrightarrow> mode_ref_cnt (ds_inner s k) p = 0))"

lemma conv_start_inv:
  assumes "conv_start c s"
  shows "conv_inv c s"
proof -
  have "pe_inv (cf_pes c) p (ds_blk s p) (ds_inner s) (ds_tasks s)" if "p < cf_pes c" for p
    using assms that by (auto simp: conv_start_def pe_inv_def ref_inv_def blk_new_def)
  moreover have "global_inv (cf_pes c) 0 (ds_blk s) (ds_inner s) (ds_tasks s)"
    using assms by (auto simp: conv_start_def global_inv_def blk_new_def)
  ultimately show ?thesis using assms unfolding conv_start_def conv_inv_def by (intro conjI exI [of _ 0]) auto
qed

lemma conv_reach: "(darc_step c)\<^sup>*\<^sup>* s t \<Longrightarrow> conv_inv c s \<Longrightarrow> conv_cfg c \<Longrightarrow> conv_inv c t"
  by (induction rule: rtranclp_induct) (auto dest: conv_step)


text \<open>Two PEs that change the mode while another reference on PE 0 is alive.  It is sent to PE 1 and dropped.\<close>

definition busy_start :: darc_sys where
  "busy_start = \<lparr>ds_inner = (\<lambda>_. try_new_with_drop DarcMode (\<lambda>_. 0))(0 := inc_local_cnt 1 (try_new_with_drop DarcMode (\<lambda>_. 0))),
     ds_tasks = [Handle 0], ds_blk = (\<lambda>_. blk_new Start)\<rparr>"

definition busy_send :: "move list" where
  "busy_send = send_to 1 @ MTask 0 CallDrop # replicate 2 (MTask 0 Next)"

definition two_rounds :: "move list" where
  "two_rounds = both 1 @ [MBarrier 0] @ one_round @ one_round @ [MPe 0 4, MPe 1 7, MPe 0 3, MBarrier 4]"

lemma busy_start_ok: "conv_start (two_pes LocalRw split) busy_start"
  by (auto simp: conv_start_def busy_start_def two_pes_def darc_inv_def refs_from_def total_refs_from_def try_new_with_drop_def
      inc_local_cnt_def darc_upd less_Suc_eq numeral_2_eq_2)


text \<open>
  A change of mode is not exclusive when a thread is interrupted between the counter updates of
  \<open>deserialize_update_cnts\<close>: the total of references received is raised first and \<open>local_cnt\<close> only later.  In
  between, two rounds of the collective call find nothing, it returns on both PEs, and then the message
  becomes a reference on PE 1.
\<close>

theorem darc_convert_race:
  "\<exists>s. (darc_step (two_pes LocalRw True))\<^sup>*\<^sup>* busy_start s \<and> bk_pc (ds_blk s 0) = Returned \<and> bk_pc (ds_blk s 1) = Returned
     \<and> Handle 1 \<in> set (ds_tasks s) \<and> local_cnt (ds_inner s 1) = 2"
proof -
  let ?c = "two_pes LocalRw True"
  obtain s where s: "do_moves ?c (busy_send @ replicate 3 (MTask 0 Next) @ two_rounds @ replicate 2 (MTask 0 Next)) busy_start = Some s"
    "bk_pc (ds_blk s 0) = Returned" "bk_pc (ds_blk s 1) = Returned" "Handle 1 \<in> set (ds_tasks s)" "local_cnt (ds_inner s 1) = 2"
    by (simp add: two_pes_def run_parts busy_send_def two_rounds_def busy_start_def inc_local_cnt_def darc_eval)
  show ?thesis using do_moves_reach [OF s(1)] s(2-5) by blast
qed

text \<open>
  C34. The memory of a darc can be freed on one PE while a reference on another is alive.
  \<open>DroppedWaitAM\<close> calls \<open>block_on_outstanding\<close> with 0 extra references, which waits while \<open>local_cnt\<close> is above 1, although the
  task itself holds no reference.  PE 1 drops its reference and then receives the darc in a message from PE 0, which
  drops its own.  Both PEs agree that nothing is outstanding, PE 1 returns the count of its live reference,
  and PE 0 frees its memory; a message from the live reference to PE 0 then accesses it.
\<close>

theorem darc_drop_use_after_free:
  "\<exists>s t. (darc_step (two_pes Dropped False))\<^sup>*\<^sup>* (darc_fresh (two_pes Dropped False) DarcMode (\<lambda>_ _. 0) Out) s
     \<and> freed (ds_inner s 0) \<and> ds_tasks s = [Handle 1]
     \<and> (darc_step (two_pes Dropped False))\<^sup>*\<^sup>* s t \<and> Dangling 0 \<in> set (ds_tasks t)"
proof -
  let ?c = "two_pes Dropped False"
  let ?s = "darc_fresh ?c DarcMode (\<lambda>_ _. 0) Out"
  obtain s where s: "do_moves ?c (last_drop 1 @ MLaunch 1 # send_to 1 @ MTask 1 Next # last_drop 0 @ MLaunch 0 # two_rounds
      @ [MTask 1 Next, MPe 0 10]) ?s = Some s" "freed (ds_inner s 0)" "ds_tasks s = [Handle 1]"
    "do_moves ?c (send_to 0 @ [MTask 1 Next]) s \<noteq> None" "\<forall>t. do_moves ?c (send_to 0 @ [MTask 1 Next]) s = Some t \<longrightarrow> Dangling 0 \<in> set (ds_tasks t)"
    by (simp add: two_pes_def run_parts two_rounds_def darc_eval)
  then obtain t where t: "do_moves ?c (send_to 0 @ [MTask 1 Next]) s = Some t" "Dangling 0 \<in> set (ds_tasks t)" by auto
  show ?thesis using do_moves_reach [OF s(1)] do_moves_reach [OF t(1)] s(2,3) t(2) by blast
qed

end
