(* ===== verification/Cmd_Queue.thy ===== *)
theory Cmd_Queue
  imports Transition_Systems
begin

text \<open>
  The command queue between PEs (\<open>lamellae/command_queues.rs\<close>).  A message is pushed as a command to a buffer of
  commands for its destination; a full buffer, or any buffer when no task is about to push, is announced by
  a command that is put into a slot of the destination.  The destination reads the buffer, releases it, reads the
  messages and frees the buffer.  Both answers are single bytes put into the first command of the buffer.

  The model has one direction between two PEs: the queue of the sender for the receiver, and what
  the receiver does for this sender.  A critical section under the lock of a buffer is one step, and \<open>put\<close> and
  \<open>get\<close> copy memory at once, as those of the shared-memory backend do.  \<open>CmdQStatus\<close> is not \<open>Panic\<close>, and memory for
  what is received is available.
\<close>

section \<open>Commands\<close>

datatype cmd = Clear | Free | Release | Print | Tx | Alloc | PanicCmd

fun cmd_code :: "cmd \<Rightarrow> nat" where
  "cmd_code Clear = 1"
| "cmd_code Free = 2"
| "cmd_code Release = 3"
| "cmd_code Print = 4"
| "cmd_code Tx = 5"
| "cmd_code Alloc = 6"
| "cmd_code PanicCmd = 7"

record cmd_msg =
  daddr :: nat
  dsize :: nat
  cmd_of :: cmd
  msg_hash :: nat
  cmd_hash :: nat

text \<open>The bytes of an integer, and the \<open>u64\<close> and \<open>u8\<close> that a slice of bytes is read as.\<close>

definition le_bytes :: "nat \<Rightarrow> nat list" where
  "le_bytes v = map (\<lambda>i. v div 256 ^ i mod 256) [0..<8]"

definition le_value :: "nat list \<Rightarrow> nat" where
  "le_value bs = foldr (\<lambda>b acc. b + 256 * acc) bs 0"

definition calc_hash :: "nat list \<Rightarrow> nat" where
  "calc_hash bs = (let num_u64s = length bs div 8 in
     (sum_list (map (\<lambda>i. le_value (take 8 (drop (8 * i) bs))) [0..<num_u64s]) + sum_list (drop (8 * num_u64s) bs)) mod usize_mod)"

text \<open>The padding after the command byte is zero.\<close>

definition cmd_bytes :: "cmd_msg \<Rightarrow> nat list" where
  "cmd_bytes m = le_bytes (daddr m) @ le_bytes (dsize m) @ (cmd_code (cmd_of m) # replicate 7 0) @ le_bytes (msg_hash m) @ le_bytes (cmd_hash m)"

definition cmd_msg_size :: nat where
  "cmd_msg_size = 40"

text \<open>
  \<open>CmdMsg::hash\<close> adds with \<open>+\<close>.  The sum wraps around in a build without overflow checks, such as the release profile; the model of the queue is that of such a
  build.  \<open>hash_checked\<close> is the function in a build with overflow checks.
\<close>

definition hash :: "cmd_msg \<Rightarrow> nat" where
  "hash m = (let res = (daddr m + dsize m + cmd_code (cmd_of m) + msg_hash m) mod usize_mod in if res = 0 then 1 else res)"

definition uadd :: "nat \<Rightarrow> nat \<Rightarrow> nat exec" where
  "uadd a b = (if a + b < usize_mod then Ret (a + b) else Panic AddOverflow)"

definition hash_checked :: "cmd_msg \<Rightarrow> nat exec" where
  "hash_checked m = ebind (uadd (daddr m) (dsize m)) (\<lambda>x. ebind (uadd x (cmd_code (cmd_of m))) (\<lambda>y. ebind (uadd y (msg_hash m)) (\<lambda>res.
     Ret (if res = 0 then 1 else res))))"

definition calc_cmd_hash :: "cmd_msg \<Rightarrow> cmd_msg" where
  "calc_cmd_hash m = m\<lparr>cmd_hash := hash m\<rparr>"

definition check_hash :: "cmd_msg \<Rightarrow> bool" where
  "check_hash m \<longleftrightarrow> cmd_hash m = hash m \<and> cmd_hash m \<noteq> 0"

definition mk_cmd :: "nat \<Rightarrow> nat \<Rightarrow> cmd \<Rightarrow> nat \<Rightarrow> cmd_msg" where
  "mk_cmd d s c h = calc_cmd_hash \<lparr>daddr = d, dsize = s, cmd_of = c, msg_hash = h, cmd_hash = 0\<rparr>"

definition clear_cmd :: cmd_msg where
  "clear_cmd = mk_cmd 0 0 Clear 0"

section \<open>Buffers of commands\<close>

text \<open>The commands of a buffer are in the registered memory at its address.\<close>

type_synonym cmd_mem = "nat \<Rightarrow> cmd_msg list"

record cmd_buf =
  cb_addr :: nat
  cb_index :: nat
  cb_allocated_cnt :: nat
  cb_max_size :: nat

definition CMD_BUF_LEN :: nat where
  "CMD_BUF_LEN = 50000"

definition CMD_BUFS_PER_PE :: nat where
  "CMD_BUFS_PER_PE = 2"

text \<open>\<open>get_unchecked_mut\<close> behind the end of the buffer is undefined behaviour; the model panics.\<close>

definition cmd_buf_push :: "cmd_mem \<Rightarrow> cmd_buf \<Rightarrow> nat \<Rightarrow> nat \<Rightarrow> nat \<Rightarrow> (cmd_mem \<times> cmd_buf) exec" where
  "cmd_buf_push mem b d s h =
     (if d = 0 \<or> s = 0 then Panic ExplicitPanic
      else if cb_index b < length (mem (cb_addr b)) then
        Ret (mem(cb_addr b := (mem (cb_addr b))[cb_index b := mk_cmd d s Tx h]),
             b\<lparr>cb_index := cb_index b + 1, cb_allocated_cnt := cb_allocated_cnt b + (if s > 0 then 1 else 0)\<rparr>)
      else Panic OutOfBounds)"

definition cmd_buf_full :: "cmd_buf \<Rightarrow> bool" where
  "cmd_buf_full b \<longleftrightarrow> cb_index b = cb_max_size b"

definition cmd_buf_reset :: "cmd_buf \<Rightarrow> cmd_buf" where
  "cmd_buf_reset b = b\<lparr>cb_index := 0, cb_allocated_cnt := 0\<rparr>"

definition cmd_buf_size :: "cmd_buf \<Rightarrow> nat" where
  "cmd_buf_size b = cb_index b * cmd_msg_size"

definition cmd_buf_iter :: "cmd_mem \<Rightarrow> cmd_buf \<Rightarrow> cmd_msg list" where
  "cmd_buf_iter mem b = take (cb_index b) (mem (cb_addr b))"

definition cmd_buf_state :: "cmd_mem \<Rightarrow> cmd_buf \<Rightarrow> cmd" where
  "cmd_buf_state mem b = cmd_of (mem (cb_addr b) ! 0)"

text \<open>The hash maps are lists of entries with distinct keys.\<close>

record cmd_msg_buffer =
  empty_bufs :: "cmd_buf list"
  full_bufs :: "cmd_buf list"
  tx_bufs :: "(nat \<times> cmd_buf) list"
  waiting_bufs :: "(nat \<times> cmd_buf) list"
  cur_buf :: "cmd_buf option"
  num_bufs :: nat

definition hm_remove :: "nat \<Rightarrow> (nat \<times> 'b) list \<Rightarrow> (nat \<times> 'b) list" where
  "hm_remove k m = filter (\<lambda>e. fst e \<noteq> k) m"

definition hm_insert :: "nat \<Rightarrow> 'b \<Rightarrow> (nat \<times> 'b) list \<Rightarrow> (nat \<times> 'b) list" where
  "hm_insert k v m = (k, v) # hm_remove k m"

text \<open>\<open>Vec::push\<close> and \<open>Vec::pop\<close> work at the end; the lists of buffers are kept with the end first.\<close>

definition cmd_msg_buffer_new :: "nat list \<Rightarrow> nat \<Rightarrow> cmd_msg_buffer" where
  "cmd_msg_buffer_new addrs len = \<lparr>empty_bufs = rev (map (\<lambda>a. \<lparr>cb_addr = a, cb_index = 0, cb_allocated_cnt = 0, cb_max_size = len\<rparr>) addrs),
     full_bufs = [], tx_bufs = [], waiting_bufs = [], cur_buf = None, num_bufs = length addrs\<rparr>"

definition try_push :: "cmd_mem \<Rightarrow> cmd_msg_buffer \<Rightarrow> nat \<Rightarrow> nat \<Rightarrow> nat \<Rightarrow> (cmd_mem \<times> cmd_msg_buffer \<times> bool) exec" where
  "try_push mem B addr len h =
     (let B' = (case cur_buf B of Some b \<Rightarrow> B
                | None \<Rightarrow> (case empty_bufs B of [] \<Rightarrow> B | b # bs \<Rightarrow> B\<lparr>empty_bufs := bs, cur_buf := Some b\<rparr>))
      in case cur_buf B' of
           None \<Rightarrow> Ret (mem, B', False)
         | Some b \<Rightarrow> ebind (cmd_buf_push mem b addr len h) (\<lambda>(mem', b').
             Ret (mem', if cmd_buf_full b' then B'\<lparr>full_bufs := b' # full_bufs B', cur_buf := None\<rparr> else B'\<lparr>cur_buf := Some b'\<rparr>, True)))"

definition announce :: "cmd_mem \<Rightarrow> cmd_buf \<Rightarrow> cmd_msg" where
  "announce mem b = mk_cmd (cb_addr b) (cmd_buf_size b) Tx (calc_hash (concat (map cmd_bytes (cmd_buf_iter mem b))))"

definition flush_buffer :: "cmd_mem \<Rightarrow> cmd_msg_buffer \<Rightarrow> cmd_msg \<Rightarrow> cmd_msg_buffer \<times> cmd_msg" where
  "flush_buffer mem B slot = (case full_bufs B of
     b # bs \<Rightarrow> (B\<lparr>full_bufs := bs, tx_bufs := hm_insert (cb_addr b) b (tx_bufs B)\<rparr>, announce mem b)
   | [] \<Rightarrow> (case cur_buf B of
       Some b \<Rightarrow> (B\<lparr>cur_buf := None, tx_bufs := hm_insert (cb_addr b) b (tx_bufs B)\<rparr>, announce mem b)
     | None \<Rightarrow> (B, slot)))"

definition check_transfer :: "cmd_mem \<Rightarrow> cmd_msg_buffer \<Rightarrow> nat \<Rightarrow> (cmd_msg_buffer \<times> bool) exec" where
  "check_transfer mem B addr = (case map_of (tx_bufs B) addr of
     None \<Rightarrow> Ret (B, False)
   | Some b \<Rightarrow> (let tx' = hm_remove addr (tx_bufs B) in
       case cmd_buf_state mem b of
         Tx \<Rightarrow> Ret (B\<lparr>tx_bufs := hm_insert addr b tx'\<rparr>, False)
       | Release \<Rightarrow> (if 0 < cb_allocated_cnt b
           then Ret (B\<lparr>tx_bufs := tx', waiting_bufs := hm_insert (cb_addr b) b (waiting_bufs B)\<rparr>, True) else Panic ExplicitPanic)
       | Free \<Rightarrow> (if 0 < cb_allocated_cnt b
           then Ret (B\<lparr>tx_bufs := tx', waiting_bufs := hm_insert (cb_addr b) b (waiting_bufs B)\<rparr>, True) else Panic ExplicitPanic)
       | _ \<Rightarrow> Panic ExplicitPanic))"

text \<open>
  The first loop collects the buffers that are free, in the order in which the hash map is
  iterated (\<open>keys\<close>); the second one gives them back and collects the messages whose references are dropped.
\<close>

fun freed_bufs :: "cmd_mem \<Rightarrow> (nat \<times> cmd_buf) list \<Rightarrow> nat list \<Rightarrow> nat list exec" where
  "freed_bufs mem waiting [] = Ret []"
| "freed_bufs mem waiting (a # keys) = (case map_of waiting a of
     None \<Rightarrow> freed_bufs mem waiting keys
   | Some b \<Rightarrow> (case cmd_buf_state mem b of
       Release \<Rightarrow> freed_bufs mem waiting keys
     | Free \<Rightarrow> ebind (freed_bufs mem waiting keys) (\<lambda>as. Ret (a # as))
     | _ \<Rightarrow> Panic ExplicitPanic))"

fun free_loop :: "cmd_mem \<Rightarrow> nat list \<Rightarrow> cmd_msg_buffer \<Rightarrow> cmd_msg_buffer \<times> nat list" where
  "free_loop mem [] B = (B, [])"
| "free_loop mem (a # as) B = (case map_of (waiting_bufs B) a of
     None \<Rightarrow> free_loop mem as B
   | Some b \<Rightarrow> (case free_loop mem as (B\<lparr>waiting_bufs := hm_remove a (waiting_bufs B), empty_bufs := cmd_buf_reset b # empty_bufs B\<rparr>) of
       (B', ds) \<Rightarrow> (B', map daddr (filter (\<lambda>m. 0 < dsize m) (cmd_buf_iter mem b)) @ ds)))"

definition check_free_data :: "cmd_mem \<Rightarrow> nat list \<Rightarrow> cmd_msg_buffer \<Rightarrow> (cmd_msg_buffer \<times> nat list) exec" where
  "check_free_data mem keys B = ebind (freed_bufs mem (waiting_bufs B) keys) (\<lambda>as. Ret (free_loop mem as B))"

definition bufs_empty :: "cmd_msg_buffer \<Rightarrow> bool" where
  "bufs_empty B \<longleftrightarrow> length (empty_bufs B) = num_bufs B"

section \<open>The queue between two PEs\<close>

text \<open>
  The memory of the messages: the reference count and the bytes of the message at an address.  A task that sends
  holds a reference of its own until it is done.
\<close>

type_synonym msg_heap = "nat \<Rightarrow> (nat \<times> nat list) option"

definition drop_ref :: "nat \<Rightarrow> msg_heap \<Rightarrow> msg_heap" where
  "drop_ref a heap = (case heap a of
     None \<Rightarrow> heap
   | Some (cnt, bytes) \<Rightarrow> if cnt = 1 then heap(a := None) else heap(a \<mapsto> (fetch_sub_usize cnt 1, bytes)))"

text \<open>
  A task in the first loop of \<open>send\<close> or in the second one, and a task of the receiver.  The counter \<open>pending_cmds\<close> is shared by the queues of the PE towards
  all destinations; \<open>other_cmds\<close> is the number of tasks in it that push to other destinations.
\<close>

datatype send_task = Pushing nat nat nat | Flushing nat bool

datatype recv_job =
    Fetch cmd_msg
  | Batch cmd_msg "cmd_msg list" nat nat

record chan =
  mem :: cmd_mem
  bufs :: cmd_msg_buffer
  heap :: msg_heap
  send_slot :: cmd_msg
  send_waiting :: bool
  pending_cmds :: nat
  senders :: "send_task list"
  sent :: "(nat \<times> nat list) list"
  recv_slot :: cmd_msg
  jobs :: "recv_job list"
  delivered :: "(nat \<times> nat list) list"
  other_cmds :: nat

definition chan_new :: "cmd_mem \<Rightarrow> nat list \<Rightarrow> nat \<Rightarrow> chan" where
  "chan_new m addrs len = \<lparr>mem = m, bufs = cmd_msg_buffer_new addrs len, heap = Map.empty, send_slot = clear_cmd, send_waiting = False,
     pending_cmds = 0, senders = [], sent = [], recv_slot = clear_cmd, jobs = [], delivered = [], other_cmds = 0\<rparr>"

text \<open>The byte of the command in the first slot of a buffer is overwritten by the other PE.\<close>

definition put_cmd :: "nat \<Rightarrow> cmd \<Rightarrow> cmd_mem \<Rightarrow> cmd_mem" where
  "put_cmd a c m = m(a := (m a)[0 := (m a ! 0)\<lparr>cmd_of := c\<rparr>])"

subsection \<open>Sender\<close>

definition try_sending_buffer :: "chan \<Rightarrow> chan \<times> bool" where
  "try_sending_buffer c =
     (if pending_cmds c = 0 \<or> full_bufs (bufs c) \<noteq> [] then
        if hash (send_slot c) = hash clear_cmd then
          (case flush_buffer (mem c) (bufs c) (send_slot c) of (B, slot) \<Rightarrow>
             (c\<lparr>bufs := B, send_slot := slot, recv_slot := (if 0 < dsize slot then slot else recv_slot c)\<rparr>, True))
        else (c, False)
      else (c, False))"

definition progress_transfers :: "nat list \<Rightarrow> chan \<Rightarrow> chan exec" where
  "progress_transfers keys c =
     ebind (check_transfer (mem c) (bufs c) (daddr (send_slot c))) (\<lambda>(B, cleared).
     ebind (check_free_data (mem c) keys B) (\<lambda>(B', ds).
     Ret (c\<lparr>bufs := B', send_slot := (if cleared then clear_cmd else send_slot c), heap := fold drop_ref ds (heap c)\<rparr>)))"

text \<open>A task of this PE that waits in vain for data of the other PE asks it to print its buffers, in the slot of the queue towards it.\<close>

definition send_print :: "cmd_msg \<Rightarrow> chan \<Rightarrow> chan" where
  "send_print m c = (if hash (send_slot c) = hash clear_cmd
     then (let slot = mk_cmd (daddr m) (dsize m) Print (msg_hash m) in c\<lparr>send_slot := slot, recv_slot := slot\<rparr>) else c)"

text \<open>\<open>send_data\<close> takes a reference for the message, next to the one of its caller, and starts \<open>send\<close>.\<close>

definition send_data :: "nat \<Rightarrow> nat list \<Rightarrow> chan \<Rightarrow> chan" where
  "send_data a bytes c = c\<lparr>heap := (heap c)(a \<mapsto> (2, bytes)),
     senders := senders c @ [Pushing a (length bytes) (calc_hash bytes)], pending_cmds := pending_cmds c + 1, sent := sent c @ [(a, bytes)]\<rparr>"

text \<open>An iteration of the first loop of \<open>send\<close>.\<close>

definition send_loop1 :: "nat list \<Rightarrow> nat \<Rightarrow> chan \<Rightarrow> chan exec" where
  "send_loop1 keys i c = (case senders c ! i of
     Pushing a len h \<Rightarrow>
       ebind (try_push (mem c) (bufs c) a len h) (\<lambda>(m, B, pushed).
       if pushed then Ret (c\<lparr>mem := m, bufs := B, senders := (senders c)[i := Flushing a False],
           pending_cmds := pending_cmds c - 1\<rparr>)
       else ebind (progress_transfers keys (c\<lparr>mem := m, bufs := B\<rparr>)) (\<lambda>c'. Ret (fst (try_sending_buffer c'))))
   | Flushing a w \<Rightarrow> Ret c)"

text \<open>The end of \<open>send\<close>, where the reference of the task is dropped.\<close>

definition send_done :: "nat \<Rightarrow> nat \<Rightarrow> chan \<Rightarrow> chan" where
  "send_done i a c = c\<lparr>senders := take i (senders c) @ drop (i + 1) (senders c), heap := drop_ref a (heap c)\<rparr>"

text \<open>An iteration of the second loop; \<open>spurious\<close> says that \<open>compare_exchange_weak\<close> fails although the values are equal.\<close>

definition send_loop2 :: "nat list \<Rightarrow> bool \<Rightarrow> nat \<Rightarrow> chan \<Rightarrow> chan exec" where
  "send_loop2 keys spurious i c = (case senders c ! i of
     Pushing a len h \<Rightarrow> Ret c
   | Flushing a im_waiting \<Rightarrow>
       if bufs_empty (bufs c) then Ret (send_done i a (c\<lparr>send_waiting := False\<rparr>))
       else ebind (progress_transfers keys c) (\<lambda>c1.
         case try_sending_buffer c1 of (c2, flushed) \<Rightarrow>
           if flushed then Ret (send_done i a (c2\<lparr>send_waiting := False\<rparr>))
           else if im_waiting then Ret c2
           else if \<not> send_waiting c2 \<and> \<not> spurious then Ret (c2\<lparr>send_waiting := True, senders := (senders c2)[i := Flushing a True]\<rparr>)
           else Ret (send_done i a c2)))"

subsection \<open>Receiver\<close>

definition ready :: "cmd_msg \<Rightarrow> (cmd_msg option \<times> cmd_msg) exec" where
  "ready slot = (if check_hash slot then
     (case cmd_of slot of
        Clear \<Rightarrow> Ret (None, slot)
      | Alloc \<Rightarrow> Panic ExplicitPanic
      | PanicCmd \<Rightarrow> Panic ExplicitPanic
      | _ \<Rightarrow> if daddr slot = 0 then Ret (None, slot) else Ret (Some slot, clear_cmd))
     else Ret (None, slot))"

text \<open>What \<open>recv_data\<close> does with a command; a \<open>Print\<close> is for debugging.\<close>

definition recv_ready :: "chan \<Rightarrow> chan exec" where
  "recv_ready c = ebind (ready (recv_slot c)) (\<lambda>(r, slot). case r of
     None \<Rightarrow> Ret (c\<lparr>recv_slot := slot\<rparr>)
   | Some m \<Rightarrow> (case cmd_of m of
       Tx \<Rightarrow> Ret (c\<lparr>recv_slot := slot, jobs := jobs c @ [Fetch m]\<rparr>)
     | Print \<Rightarrow> Ret (c\<lparr>recv_slot := slot\<rparr>)
     | _ \<Rightarrow> Panic ExplicitPanic))"

text \<open>
  \<open>get_cmd_buf\<close> copies the buffer once and waits until the hash of the copy is that of the command; then it
  releases the buffer, and a task is started for every command in it.  A task that waits for another hash never
  goes on and is left out of the jobs.
\<close>

definition recv_fetch :: "nat \<Rightarrow> chan \<Rightarrow> chan exec" where
  "recv_fetch j c = (case jobs c ! j of
     Fetch m \<Rightarrow> (let cmds = take (dsize m div cmd_msg_size) (mem c (daddr m)) in
       if calc_hash (concat (map cmd_bytes cmds)) \<noteq> msg_hash m then Ret (c\<lparr>jobs := take j (jobs c) @ drop (j + 1) (jobs c)\<rparr>)
       else if \<exists>x \<in> set cmds. dsize x = 0 then Panic ExplicitPanic
       else Ret (c\<lparr>mem := put_cmd (daddr m) Release (mem c), jobs := (jobs c)[j := Batch m cmds 0 (length cmds)]\<rparr>))
   | Batch m todo fetched cnt \<Rightarrow> Ret c)"

text \<open>\<open>get_cmd\<close> and \<open>submit_work\<close>, for the task of one command; to read a message that was freed is undefined behaviour, where the model panics.\<close>

definition recv_get :: "nat \<Rightarrow> nat \<Rightarrow> chan \<Rightarrow> chan exec" where
  "recv_get j k c = (case jobs c ! j of
     Fetch m \<Rightarrow> Ret c
   | Batch m todo fetched cnt \<Rightarrow> (if k < length todo then
       (case heap c (daddr (todo ! k)) of
          None \<Rightarrow> Panic OutOfBounds
        | Some (r, bytes) \<Rightarrow> (let data = take (dsize (todo ! k)) bytes in
            if calc_hash data \<noteq> msg_hash (todo ! k) then Ret (c\<lparr>jobs := (jobs c)[j := Batch m (take k todo @ drop (k + 1) todo) fetched cnt]\<rparr>)
            else Ret (c\<lparr>delivered := delivered c @ [(daddr (todo ! k), data)],
              jobs := (jobs c)[j := Batch m (take k todo @ drop (k + 1) todo) (fetched + 1) cnt]\<rparr>)))
       else Ret c))"

text \<open>A task that is done counts down; the last one frees the buffer.\<close>

definition recv_finish :: "nat \<Rightarrow> chan \<Rightarrow> chan" where
  "recv_finish j c = (case jobs c ! j of
     Fetch m \<Rightarrow> c
   | Batch m todo fetched cnt \<Rightarrow> (if 0 < fetched then
       if cnt = 1 then c\<lparr>mem := put_cmd (daddr m) Free (mem c), jobs := take j (jobs c) @ drop (j + 1) (jobs c)\<rparr>
       else c\<lparr>jobs := (jobs c)[j := Batch m todo (fetched - 1) (cnt - 1)]\<rparr>
     else c))"

subsection \<open>Interleavings\<close>

text \<open>
  The steps of the tasks of a queue; an argument \<open>keys\<close> lists the keys of a hash map in the order of an iteration.  With \<open>weak\<close> the
  \<open>compare_exchange_weak\<close> of \<open>send\<close> may fail spuriously.  \<open>send_print\<close> is not among the steps: only a task that has
  waited for \<open>DEADLOCK_TIMEOUT\<close> for a copy with the right hash calls it, and the copies have the right hash from the start.
\<close>

inductive task_step :: "bool \<Rightarrow> chan \<Rightarrow> chan \<Rightarrow> bool" for weak where
  loop1: "i < length (senders c) \<Longrightarrow> send_loop1 keys i c = Ret c' \<Longrightarrow> set (map fst (tx_bufs (bufs c) @ waiting_bufs (bufs c))) \<subseteq> set keys \<Longrightarrow> task_step weak c c'"
| loop2: "i < length (senders c) \<Longrightarrow> send_loop2 keys spurious i c = Ret c' \<Longrightarrow> spurious \<longrightarrow> weak
    \<Longrightarrow> set (map fst (tx_bufs (bufs c) @ waiting_bufs (bufs c))) \<subseteq> set keys \<Longrightarrow> task_step weak c c'"
| transfers: "progress_transfers keys c = Ret c' \<Longrightarrow> set (map fst (tx_bufs (bufs c) @ waiting_bufs (bufs c))) \<subseteq> set keys \<Longrightarrow> task_step weak c c'"
| ready: "recv_ready c = Ret c' \<Longrightarrow> task_step weak c c'"
| fetch: "j < length (jobs c) \<Longrightarrow> recv_fetch j c = Ret c' \<Longrightarrow> task_step weak c c'"
| get: "j < length (jobs c) \<Longrightarrow> recv_get j k c = Ret c' \<Longrightarrow> task_step weak c c'"
| finish: "j < length (jobs c) \<Longrightarrow> c' = recv_finish j c \<Longrightarrow> task_step weak c c'"

text \<open>Tasks of \<open>send\<close> for other destinations enter and leave their first loop, so that there are \<open>n\<close> of them in it.\<close>

definition other_sends :: "nat \<Rightarrow> chan \<Rightarrow> chan" where
  "other_sends n c = c\<lparr>pending_cmds := pending_cmds c - other_cmds c + n, other_cmds := n\<rparr>"

definition chan_step :: "bool \<Rightarrow> chan \<Rightarrow> chan \<Rightarrow> bool" where
  "chan_step weak c c' \<longleftrightarrow> task_step weak c c' \<or> (\<exists>n. c' = other_sends n c)"

end
