(* ===== verification/Multiset_Lists.thy ===== *)
theory Multiset_Lists
  imports Lamellar_Prelude "HOL-Library.Multiset"
begin

text \<open>
  Lists of tasks and buffers of which one element is replaced or removed, seen as multisets: what the proofs about interleavings
  share.
\<close>

lemma mset_remove_nth: "k < length xs \<Longrightarrow> mset xs = add_mset (xs ! k) (mset (take k xs @ drop (k + 1) xs))"
  by (subst id_take_nth_drop [of k xs]) simp_all

lemma mset_concat_update:
  "j < length xs \<Longrightarrow> mset (concat (map f (xs[j := y]))) + mset (f (xs ! j)) = mset (concat (map f xs)) + mset (f y)"
proof (induction xs arbitrary: j)
  case (Cons x xs)
  then show ?case by (cases j) (simp_all add: ac_simps)
qed simp

lemma sum_list_mset_eq: "mset xs = mset ys \<Longrightarrow> sum_list (map f xs) = (sum_list (map f ys) :: nat)"
  by (metis mset_map sum_mset_sum_list)

lemma mset_concat_mset: "mset xs = mset ys \<Longrightarrow> mset (concat (map f xs)) = mset (concat (map f ys))"
  by (metis mset_concat mset_map sum_mset_sum_list)

lemma sum_list_remove_nth: "i < length xs \<Longrightarrow> sum_list (map f xs) = sum_list (map f (take i xs @ drop (i + 1) xs)) + (f (xs ! i) :: nat)"
  by (subst id_take_nth_drop [of i xs]) simp_all

lemma in_set_update_other: "t \<in> set xs \<Longrightarrow> t \<noteq> xs ! i \<Longrightarrow> t \<in> set (xs[i := y])"
  by (metis in_set_conv_nth length_list_update nth_list_update_neq)

lemma in_set_remove_other: "i < length xs \<Longrightarrow> t \<in> set xs \<Longrightarrow> t \<noteq> xs ! i \<Longrightarrow> t \<in> set (take i xs @ drop (i + 1) xs)"
  by (metis mset_remove_nth insert_iff set_mset_add_mset_insert set_mset_mset)

end
