(* ===== verification/Cmd_Channel.thy ===== *)
theory Cmd_Channel
  imports Cmd_Queue Multiset_Lists
begin

text \<open>
  The invariant of the queue between two PEs, and that every step keeps it: where every buffer is, which
  buffers the receiver still reads, which messages are in memory and which were not delivered yet.
\<close>

section \<open>Invariant\<close>

text \<open>What a command says of its message.\<close>

type_synonym msg_core = "nat \<times> nat \<times> nat"

definition core :: "cmd_msg \<Rightarrow> msg_core" where
  "core m = (daddr m, dsize m, msg_hash m)"

definition cores :: "cmd_mem \<Rightarrow> cmd_buf \<Rightarrow> msg_core list" where
  "cores mm b = map core (cmd_buf_iter mm b)"

text \<open>The buffers that are filled but not announced, and all that are in use.\<close>

definition unsent :: "cmd_msg_buffer \<Rightarrow> cmd_buf list" where
  "unsent B = full_bufs B @ (case cur_buf B of None \<Rightarrow> [] | Some b \<Rightarrow> [b])"

definition announced :: "cmd_msg_buffer \<Rightarrow> cmd_buf list" where
  "announced B = map snd (tx_bufs B) @ map snd (waiting_bufs B)"

definition held :: "cmd_msg_buffer \<Rightarrow> cmd_buf list" where
  "held B = unsent B @ announced B"

definition bufs_ok :: "nat list \<Rightarrow> nat \<Rightarrow> cmd_mem \<Rightarrow> cmd_msg_buffer \<Rightarrow> bool" where
  "bufs_ok A M mm B \<longleftrightarrow>
     mset (map cb_addr (empty_bufs B @ held B)) = mset A \<and> num_bufs B = length A
     \<and> (\<forall>e \<in> set (tx_bufs B) \<union> set (waiting_bufs B). fst e = cb_addr (snd e))
     \<and> (\<forall>b \<in> set (empty_bufs B) \<union> set (held B). cb_max_size b = M \<and> length (mm (cb_addr b)) = M)
     \<and> (\<forall>b \<in> set (empty_bufs B). cb_index b = 0 \<and> cb_allocated_cnt b = 0)
     \<and> (\<forall>b \<in> set (held B). 0 < cb_index b \<and> cb_index b \<le> M \<and> cb_allocated_cnt b = cb_index b)
     \<and> (\<forall>b. cur_buf B = Some b \<longrightarrow> cb_index b < M)"

text \<open>The slots: a buffer that is announced but not released is in the slot of the sender.\<close>

definition buf_hash :: "cmd_mem \<Rightarrow> cmd_buf \<Rightarrow> nat" where
  "buf_hash mm b = calc_hash (concat (map cmd_bytes (cmd_buf_iter mm b)))"

definition slots_ok :: "chan \<Rightarrow> bool" where
  "slots_ok c \<longleftrightarrow>
     (if tx_bufs (bufs c) = [] then send_slot c = clear_cmd \<and> recv_slot c = clear_cmd
      else \<exists>b h. tx_bufs (bufs c) = [(cb_addr b, b)] \<and> send_slot c = mk_cmd (cb_addr b) (cmd_buf_size b) Tx h
        \<and> (cmd_buf_state (mem c) b = Tx \<longrightarrow> h = buf_hash (mem c) b) \<and> recv_slot c \<in> {clear_cmd, send_slot c})"

fun job_addr :: "recv_job \<Rightarrow> nat" where
  "job_addr (Fetch m) = daddr m"
| "job_addr (Batch m todo f n) = daddr m"

fun job_todo :: "recv_job \<Rightarrow> msg_core list" where
  "job_todo (Fetch m) = []"
| "job_todo (Batch m todo f n) = map core todo"

text \<open>The buffers that the receiver still has to do with.\<close>

definition tokens :: "chan \<Rightarrow> nat list" where
  "tokens c = (if recv_slot c = clear_cmd then [] else [daddr (recv_slot c)]) @ map job_addr (jobs c)"

fun job_ok :: "chan \<Rightarrow> recv_job \<Rightarrow> bool" where
  "job_ok c (Fetch m) \<longleftrightarrow> m = send_slot c \<and> tx_bufs (bufs c) \<noteq> [] \<and> cmd_of (mem c (daddr m) ! 0) = Tx"
| "job_ok c (Batch m todo f n) \<longleftrightarrow> cmd_of (mem c (daddr m) ! 0) = Release \<and> n = length todo + f \<and> 0 < n
     \<and> (\<exists>b \<in> set (announced (bufs c)). cb_addr b = daddr m \<and> set (map core todo) \<subseteq> set (cores (mem c) b))"

definition recv_ok :: "chan \<Rightarrow> bool" where
  "recv_ok c \<longleftrightarrow> distinct (tokens c)
     \<and> set (tokens c) = {cb_addr b | b. b \<in> set (announced (bufs c)) \<and> cmd_buf_state (mem c) b \<noteq> Free}
     \<and> (recv_slot c \<noteq> clear_cmd \<longrightarrow> cmd_of (mem c (daddr (recv_slot c)) ! 0) = Tx)
     \<and> (\<forall>j \<in> set (jobs c). job_ok c j)
     \<and> (\<forall>b \<in> set (unsent (bufs c)). cmd_buf_state (mem c) b = Tx)
     \<and> (\<forall>e \<in> set (tx_bufs (bufs c)). cmd_buf_state (mem c) (snd e) \<in> {Tx, Release, Free})
     \<and> (\<forall>e \<in> set (waiting_bufs (bufs c)). cmd_buf_state (mem c) (snd e) \<in> {Release, Free})"

text \<open>A message is in memory as long as a task or a buffer refers to it.\<close>

definition ref_cnt :: "msg_heap \<Rightarrow> nat \<Rightarrow> nat" where
  "ref_cnt hp a = (case hp a of None \<Rightarrow> 0 | Some (r, bytes) \<Rightarrow> r)"

fun task_refs :: "nat \<Rightarrow> send_task \<Rightarrow> nat" where
  "task_refs a (Pushing b len h) = (if a = b then 2 else 0)"
| "task_refs a (Flushing b w) = (if a = b then 1 else 0)"

definition buf_refs :: "cmd_mem \<Rightarrow> cmd_msg_buffer \<Rightarrow> nat \<Rightarrow> nat" where
  "buf_refs mm B a = sum_list (map (\<lambda>b. count_list (map fst (cores mm b)) a) (held B))"

fun valid_core :: "msg_heap \<Rightarrow> msg_core \<Rightarrow> bool" where
  "valid_core hp (d, s, h) \<longleftrightarrow> (case hp d of None \<Rightarrow> False | Some (r, bytes) \<Rightarrow> s = length bytes \<and> h = calc_hash bytes \<and> 0 < s \<and> d \<noteq> 0)"

fun task_ok :: "msg_heap \<Rightarrow> send_task \<Rightarrow> bool" where
  "task_ok hp (Pushing a len h) \<longleftrightarrow> valid_core hp (a, len, h)"
| "task_ok hp (Flushing a w) \<longleftrightarrow> True"

definition heap_ok :: "chan \<Rightarrow> bool" where
  "heap_ok c \<longleftrightarrow> (\<forall>a r bytes. heap c a = Some (r, bytes) \<longrightarrow> 0 < r \<and> r \<le> 2)
     \<and> (\<forall>a. ref_cnt (heap c) a = buf_refs (mem c) (bufs c) a + sum_list (map (task_refs a) (senders c)))
     \<and> (\<forall>b \<in> set (held (bufs c)). \<forall>x \<in> set (cores (mem c) b). valid_core (heap c) x)
     \<and> (\<forall>t \<in> set (senders c). task_ok (heap c) t)"

text \<open>The messages that were pushed and not yet delivered, and those that are not pushed yet.\<close>

definition payload :: "msg_heap \<Rightarrow> msg_core \<Rightarrow> nat \<times> nat list" where
  "payload hp x = (fst x, snd (the (hp (fst x))))"

definition undelivered :: "chan \<Rightarrow> msg_core list" where
  "undelivered c = concat (map (cores (mem c)) (unsent (bufs c)))
     @ concat (map (cores (mem c)) (filter (\<lambda>b. cmd_buf_state (mem c) b = Tx) (map snd (tx_bufs (bufs c)))))
     @ concat (map job_todo (jobs c))"

fun task_todo :: "send_task \<Rightarrow> msg_core list" where
  "task_todo (Pushing a len h) = [(a, len, h)]"
| "task_todo (Flushing a w) = []"

definition log_ok :: "chan \<Rightarrow> bool" where
  "log_ok c \<longleftrightarrow> mset (sent c) = mset (delivered c) + mset (map (payload (heap c)) (undelivered c @ concat (map task_todo (senders c))))"

definition pushing :: "send_task list \<Rightarrow> nat" where
  "pushing ts = length (filter (\<lambda>t. case t of Pushing a len h \<Rightarrow> True | Flushing a w \<Rightarrow> False) ts)"

definition chan_inv :: "nat list \<Rightarrow> nat \<Rightarrow> chan \<Rightarrow> bool" where
  "chan_inv A M c \<longleftrightarrow> distinct A \<and> 0 \<notin> set A \<and> 0 < M \<and> bufs_ok A M (mem c) (bufs c) \<and> slots_ok c \<and> recv_ok c \<and> heap_ok c \<and> log_ok c
     \<and> pending_cmds c = pushing (senders c) + other_cmds c"

text \<open>What the tasks for other destinations do leaves the queue alone.\<close>

lemma other_sends_fields [simp]:
  "mem (other_sends n c) = mem c" "bufs (other_sends n c) = bufs c" "heap (other_sends n c) = heap c" "send_slot (other_sends n c) = send_slot c"
  "send_waiting (other_sends n c) = send_waiting c" "senders (other_sends n c) = senders c" "sent (other_sends n c) = sent c"
  "recv_slot (other_sends n c) = recv_slot c" "jobs (other_sends n c) = jobs c" "delivered (other_sends n c) = delivered c" "other_cmds (other_sends n c) = n"
  by (simp_all add: other_sends_def)

lemma other_sends_same: "other_cmds c \<le> pending_cmds c \<Longrightarrow> other_sends (other_cmds c) c = c"
  by (simp add: other_sends_def)

lemma other_sends_twice [simp]: "other_sends n (other_sends m c) = other_sends n c"
  by (simp add: other_sends_def)

lemma job_ok_other [simp]: "job_ok (other_sends n c) j = job_ok c j"
  by (cases j) simp_all

lemma chan_inv_other:
  assumes "chan_inv A M c"
  shows "chan_inv A M (other_sends n c)"
proof -
  have "tokens (other_sends n c) = tokens c" "undelivered (other_sends n c) = undelivered c"
    by (simp_all add: tokens_def undelivered_def)
  then have "slots_ok (other_sends n c) = slots_ok c" "recv_ok (other_sends n c) = recv_ok c" "heap_ok (other_sends n c) = heap_ok c" "log_ok (other_sends n c) = log_ok c"
    by (simp_all only: slots_ok_def recv_ok_def heap_ok_def log_ok_def other_sends_fields job_ok_other)
  moreover have "pending_cmds (other_sends n c) = pushing (senders c) + n" using assms by (simp add: chan_inv_def other_sends_def)
  ultimately show ?thesis using assms by (simp add: chan_inv_def)
qed

text \<open>A command in the slot of the sender is not mistaken for a cleared one.\<close>

definition no_collision :: "chan \<Rightarrow> bool" where
  "no_collision c \<longleftrightarrow> (tx_bufs (bufs c) \<noteq> [] \<longrightarrow> hash (send_slot c) \<noteq> hash clear_cmd)"


section \<open>Commands and buffers\<close>

lemma mk_cmd_simps [simp]:
  "daddr (mk_cmd d s c h) = d" "dsize (mk_cmd d s c h) = s" "cmd_of (mk_cmd d s c h) = c" "msg_hash (mk_cmd d s c h) = h"
  "core (mk_cmd d s c h) = (d, s, h)"
  by (simp_all add: mk_cmd_def calc_cmd_hash_def core_def)

lemma check_hash_mk_cmd [simp]: "check_hash (mk_cmd d s c h)"
  by (simp add: mk_cmd_def check_hash_def calc_cmd_hash_def hash_def Let_def)

lemma clear_cmd_simps [simp]: "daddr clear_cmd = 0" "dsize clear_cmd = 0" "cmd_of clear_cmd = Clear" "check_hash clear_cmd"
  by (simp_all add: clear_cmd_def)

lemma mk_cmd_not_clear [simp]: "mk_cmd d s Tx h \<noteq> clear_cmd"
  by (metis clear_cmd_simps(3) mk_cmd_simps(3) cmd.distinct(7))

lemma cores_other [simp]: "cb_addr b \<noteq> a \<Longrightarrow> cores (mm(a := x)) b = cores mm b"
  by (simp add: cores_def cmd_buf_iter_def)

lemma state_other [simp]: "cb_addr b \<noteq> a \<Longrightarrow> cmd_buf_state (mm(a := x)) b = cmd_buf_state mm b"
  by (simp add: cmd_buf_state_def)

lemma map_core_put: "map core (xs[0 := (xs ! 0)\<lparr>cmd_of := c\<rparr>]) = map core xs"
  by (cases xs) (simp_all add: core_def)

lemma cores_put [simp]: "cores (put_cmd a c mm) b = cores mm b"
  by (cases "cb_addr b = a") (simp_all add: cores_def cmd_buf_iter_def put_cmd_def map_core_put flip: take_map)

lemma cores_put_fun [simp]: "cores (put_cmd a c mm) = cores mm"
  by (rule ext) simp

lemma length_put [simp]: "length (put_cmd a c mm a') = length (mm a')"
  by (simp add: put_cmd_def)

lemma put_cmd_at: "mm a \<noteq> [] \<Longrightarrow> cmd_of (put_cmd a c mm a' ! 0) = (if a' = a then c else cmd_of (mm a' ! 0))"
  by (simp add: put_cmd_def)

lemma length_cores [simp]: "cb_index b \<le> length (mm (cb_addr b)) \<Longrightarrow> length (cores mm b) = cb_index b"
  by (simp add: cores_def cmd_buf_iter_def)

lemma bufs_ok_distinct: "bufs_ok A M mm B \<Longrightarrow> distinct A \<Longrightarrow> distinct (map cb_addr (empty_bufs B @ held B))"
  by (metis bufs_ok_def mset_eq_imp_distinct_iff)

lemma bufs_ok_addr: "bufs_ok A M mm B \<Longrightarrow> b \<in> set (empty_bufs B) \<union> set (held B) \<Longrightarrow> cb_addr b \<in> set A"
  using mset_eq_setD [of "map cb_addr (empty_bufs B @ held B)" A] by (auto simp: bufs_ok_def)

lemma chan_inv_addr: "chan_inv A M c \<Longrightarrow> b \<in> set (held (bufs c)) \<Longrightarrow> cb_addr b \<noteq> 0"
  using bufs_ok_addr [of A M "mem c" "bufs c" b] by (metis UnCI chan_inv_def)

lemma same_addr:
  assumes "distinct (map cb_addr bs)" "b \<in> set bs" "b' \<in> set bs" "cb_addr b = cb_addr b'"
  shows "b = b'"
  using assms by (auto simp: distinct_map inj_on_def)

lemma in_held: "b \<in> set (announced B) \<Longrightarrow> b \<in> set (held B)" "b \<in> set (unsent B) \<Longrightarrow> b \<in> set (held B)"
  by (simp_all add: held_def)

lemma in_announced: "e \<in> set (tx_bufs B) \<Longrightarrow> snd e \<in> set (announced B)" "e \<in> set (waiting_bufs B) \<Longrightarrow> snd e \<in> set (announced B)"
  by (simp_all add: announced_def)

section \<open>Steps of the receiver\<close>

lemma recv_ready_eq:
  assumes "chan_inv A M c"
  shows "recv_ready c = Ret (if recv_slot c = clear_cmd then c else c\<lparr>recv_slot := clear_cmd, jobs := jobs c @ [Fetch (recv_slot c)]\<rparr>)"
proof (cases "recv_slot c = clear_cmd")
  case True
  then show ?thesis by (simp add: recv_ready_def ready_def)
next
  case False
  then obtain b h where b: "tx_bufs (bufs c) = [(cb_addr b, b)]" and r: "recv_slot c = mk_cmd (cb_addr b) (cmd_buf_size b) Tx h"
    using assms by (auto simp: chan_inv_def slots_ok_def split: if_splits)
  have "cb_addr b \<noteq> 0"
    by (rule chan_inv_addr [OF assms]) (simp add: held_def announced_def b)
  then show ?thesis by (simp add: recv_ready_def ready_def r)
qed

lemma recv_ready_inv:
  assumes "chan_inv A M c" "recv_ready c = Ret c'"
  shows "chan_inv A M c'"
proof (cases "recv_slot c = clear_cmd")
  case True
  with assms recv_ready_eq show ?thesis by auto
next
  case False
  let ?c = "c\<lparr>recv_slot := clear_cmd, jobs := jobs c @ [Fetch (recv_slot c)]\<rparr>"
  have c': "c' = ?c" using assms recv_ready_eq [OF assms(1)] False by simp
  have s: "tx_bufs (bufs c) \<noteq> []" "recv_slot c = send_slot c"
    using assms(1) False by (auto simp: chan_inv_def slots_ok_def split: if_splits)
  have job: "job_ok (c\<lparr>recv_slot := x, jobs := y\<rparr>) j = job_ok c j" for x y j by (cases j) simp_all
  have "slots_ok ?c" using assms(1) by (auto simp: chan_inv_def slots_ok_def split: if_splits)
  moreover have "recv_ok ?c"
    using assms(1) False s unfolding chan_inv_def recv_ok_def
    by (auto simp: tokens_def job)
  moreover have "undelivered ?c = undelivered c" by (simp add: undelivered_def)
  ultimately show ?thesis using assms(1) by (simp add: c' chan_inv_def heap_ok_def log_ok_def)
qed


lemma chan_inv_parts:
  assumes "chan_inv A M c"
  shows "distinct (map cb_addr (empty_bufs (bufs c) @ held (bufs c)))"
    "\<And>b. b \<in> set (held (bufs c)) \<Longrightarrow> length (mem c (cb_addr b)) = M \<and> 0 < cb_index b \<and> cb_index b \<le> M \<and> cb_allocated_cnt b = cb_index b"
    "0 < M" "slots_ok c" "recv_ok c" "heap_ok c" "log_ok c" "bufs_ok A M (mem c) (bufs c)"
proof -
  show "distinct (map cb_addr (empty_bufs (bufs c) @ held (bufs c)))"
    using assms bufs_ok_distinct unfolding chan_inv_def by blast
qed (use assms in \<open>auto simp: chan_inv_def bufs_ok_def\<close>)

lemma held_same_addr:
  assumes "chan_inv A M c" "b \<in> set (held (bufs c))" "b' \<in> set (held (bufs c))" "cb_addr b = cb_addr b'"
  shows "b = b'"
proof (rule same_addr)
  show "distinct (map cb_addr (held (bufs c)))" using chan_inv_parts(1) [OF assms(1)] by simp
qed (use assms in auto)

text \<open>A job other than that of an address does not see a change of the command at that address.\<close>

lemma job_ok_put:
  assumes "job_ok c i" "job_addr i \<noteq> a" "mem c a \<noteq> []"
  shows "job_ok (c\<lparr>mem := put_cmd a x (mem c), jobs := js\<rparr>) i"
  using assms by (cases i) (auto simp: put_cmd_at)

lemma tokens_jobs: "map job_addr js = map job_addr (jobs c) \<Longrightarrow> tokens (c\<lparr>mem := mm, jobs := js\<rparr>) = tokens c"
  by (simp add: tokens_def)

lemma map_job_addr_update: "j < length js \<Longrightarrow> job_addr J = job_addr (js ! j) \<Longrightarrow> map job_addr (js[j := J]) = map job_addr js"
  by (metis list_update_id map_update)

lemma put_state: "mm a \<noteq> [] \<Longrightarrow> cmd_buf_state (put_cmd a x mm) b = (if cb_addr b = a then x else cmd_buf_state mm b)"
  by (simp add: cmd_buf_state_def put_cmd_at)

lemma distinct_job_addr:
  assumes "distinct (tokens c)" "j < length (jobs c)" "i < length (jobs c)" "i \<noteq> j"
  shows "job_addr (jobs c ! i) \<noteq> job_addr (jobs c ! j)"
  using assms nth_eq_iff_index_eq [of "map job_addr (jobs c)" i j] by (simp add: tokens_def)

lemma recv_slot_job_addr:
  assumes "distinct (tokens c)" "j < length (jobs c)" "recv_slot c \<noteq> clear_cmd"
  shows "daddr (recv_slot c) \<noteq> job_addr (jobs c ! j)"
  using assms by (auto simp: tokens_def)

lemma bufs_ok_put: "bufs_ok A M mm B \<Longrightarrow> bufs_ok A M (put_cmd a x mm) B"
  by (simp add: bufs_ok_def)

lemma heap_ok_put: "heap_ok c \<Longrightarrow> heap_ok (c\<lparr>mem := put_cmd a x (mem c), jobs := js\<rparr>)"
  by (simp add: heap_ok_def buf_refs_def)

lemma buf_hash_put: "cb_addr b \<noteq> a \<Longrightarrow> buf_hash (put_cmd a x mm) b = buf_hash mm b"
  by (simp add: buf_hash_def cmd_buf_iter_def put_cmd_def)

lemma slots_ok_put:
  assumes "slots_ok c" "mem c a \<noteq> []" "x \<noteq> Tx"
  shows "slots_ok (c\<lparr>mem := put_cmd a x (mem c), jobs := js\<rparr>)"
proof (cases "tx_bufs (bufs c) = []")
  case False
  then obtain b h where "tx_bufs (bufs c) = [(cb_addr b, b)]" "send_slot c = mk_cmd (cb_addr b) (cmd_buf_size b) Tx h"
    "cmd_buf_state (mem c) b = Tx \<longrightarrow> h = buf_hash (mem c) b" "recv_slot c \<in> {clear_cmd, send_slot c}"
    using assms(1) by (auto simp: slots_ok_def)
  moreover from this have "cmd_buf_state (put_cmd a x (mem c)) b = Tx \<longrightarrow> h = buf_hash (put_cmd a x (mem c)) b"
    using assms(2,3) by (auto simp: put_state buf_hash_put)
  ultimately show ?thesis by (auto simp: slots_ok_def)
qed (use assms(1) in \<open>simp add: slots_ok_def\<close>)

lemma recv_fetch_eq:
  assumes inv: "chan_inv A M c" and j: "j < length (jobs c)" "jobs c ! j = Fetch m"
  obtains b where "tx_bufs (bufs c) = [(cb_addr b, b)]" "m = send_slot c" "daddr m = cb_addr b" "cmd_buf_state (mem c) b = Tx" "recv_slot c = clear_cmd"
    "recv_fetch j c = Ret (c\<lparr>mem := put_cmd (cb_addr b) Release (mem c), jobs := (jobs c)[j := Batch m (cmd_buf_iter (mem c) b) 0 (cb_index b)]\<rparr>)"
proof -
  note I = chan_inv_parts [OF inv]
  have jo: "job_ok c (Fetch m)" using I(5) j by (metis nth_mem recv_ok_def)
  then obtain b h where b: "tx_bufs (bufs c) = [(cb_addr b, b)]" and m: "m = mk_cmd (cb_addr b) (cmd_buf_size b) Tx h"
    and slot: "m = send_slot c" and h: "cmd_buf_state (mem c) b = Tx \<longrightarrow> h = buf_hash (mem c) b" and rs: "recv_slot c \<in> {clear_cmd, send_slot c}"
    using I(4) by (auto simp: slots_ok_def)
  have st: "cmd_buf_state (mem c) b = Tx" using jo m by (simp add: cmd_buf_state_def)
  have bh: "b \<in> set (held (bufs c))" by (simp add: held_def announced_def b)
  have "recv_slot c = clear_cmd"
  proof (rule ccontr)
    assume "recv_slot c \<noteq> clear_cmd"
    with recv_slot_job_addr [of c j] I(5) j rs slot show False by (simp add: recv_ok_def)
  qed
  moreover have "dsize x \<noteq> 0" if "x \<in> set (cmd_buf_iter (mem c) b)" for x
    using I(6) bh that by (fastforce simp: heap_ok_def cores_def core_def split: option.splits)
  moreover have "length (cmd_buf_iter (mem c) b) = cb_index b" using I(2) [OF bh] by (simp add: cmd_buf_iter_def)
  ultimately have "recv_fetch j c = Ret (c\<lparr>mem := put_cmd (cb_addr b) Release (mem c), jobs := (jobs c)[j := Batch m (cmd_buf_iter (mem c) b) 0 (cb_index b)]\<rparr>)"
    using h st by (auto simp: recv_fetch_def j(2) m cmd_buf_size_def cmd_msg_size_def buf_hash_def Let_def simp flip: cmd_buf_iter_def)
  moreover have "daddr m = cb_addr b" by (simp add: m)
  ultimately show thesis using that b slot st \<open>recv_slot c = clear_cmd\<close> by blast
qed


lemma recv_fetch_inv:
  assumes inv: "chan_inv A M c" and j: "j < length (jobs c)" and step: "recv_fetch j c = Ret c'"
  shows "chan_inv A M c'"
proof (cases "jobs c ! j")
  case (Batch m todo f n)
  with step inv show ?thesis by (simp add: recv_fetch_def)
next
  case (Fetch m)
  note I = chan_inv_parts [OF inv]
  obtain b where b: "tx_bufs (bufs c) = [(cb_addr b, b)]" "m = send_slot c" "daddr m = cb_addr b" "cmd_buf_state (mem c) b = Tx" "recv_slot c = clear_cmd"
    and c': "c' = c\<lparr>mem := put_cmd (cb_addr b) Release (mem c), jobs := (jobs c)[j := Batch m (cmd_buf_iter (mem c) b) 0 (cb_index b)]\<rparr>"
    using recv_fetch_eq [OF inv j Fetch] step by (metis exec.inject(1))
  have ba: "b \<in> set (announced (bufs c))" by (simp add: announced_def b)
  then have bh: "b \<in> set (held (bufs c))" by (rule in_held)
  have len: "mem c (cb_addr b) \<noteq> []" using I(2) [OF bh] I(3) by auto
  let ?J = "Batch m (cmd_buf_iter (mem c) b) 0 (cb_index b)"
  have state: "cmd_buf_state (mem c') x = (if cb_addr x = cb_addr b then Release else cmd_buf_state (mem c) x)" for x
    using put_state [of "mem c" "cb_addr b" Release x] len by (simp add: c')
  have tok: "tokens c' = tokens c"
    unfolding c' by (rule tokens_jobs) (use j Fetch in \<open>simp add: map_job_addr_update\<close>)
  have dist: "distinct (tokens c)" using I(5) by (simp add: recv_ok_def)
  have other: "cb_addr x \<noteq> cb_addr b" if "x \<in> set (held (bufs c))" "x \<noteq> b" for x
    using held_same_addr [OF inv that(1) bh] that(2) by blast
  have "job_ok c' i" if i: "i \<in> set (jobs c')" for i
  proof -
    obtain k where k: "k < length (jobs c)" "i = (jobs c)[j := ?J] ! k" using i by (auto simp: c' in_set_conv_nth)
    show ?thesis
    proof (cases "k = j")
      case True
      have "length (cmd_buf_iter (mem c) b) = cb_index b" using I(2) [OF bh] by (simp add: cmd_buf_iter_def)
      with True k j ba len I(2) [OF bh] show ?thesis by (auto simp: c' b(3) put_cmd_at cores_def [symmetric])
    next
      case False
      have "job_addr (jobs c ! k) \<noteq> cb_addr b" using distinct_job_addr [OF dist j k(1) False] Fetch b by simp
      moreover have "job_ok c (jobs c ! k)" using I(5) k(1) by (metis nth_mem recv_ok_def)
      ultimately show ?thesis unfolding c' using job_ok_put [of c "jobs c ! k" "cb_addr b"] len k False by simp
    qed
  qed
  moreover have "set (tokens c') = {cb_addr x | x. x \<in> set (announced (bufs c')) \<and> cmd_buf_state (mem c') x \<noteq> Free}"
  proof -
    have "cmd_buf_state (mem c') x \<noteq> Free \<longleftrightarrow> cmd_buf_state (mem c) x \<noteq> Free" if "x \<in> set (announced (bufs c))" for x
      using other [OF in_held(1) [OF that]] b(4) by (cases "x = b") (auto simp: state)
    then show ?thesis using I(5) unfolding tok recv_ok_def by (auto simp: c')
  qed
  moreover have "cmd_buf_state (mem c') x = Tx" if "x \<in> set (unsent (bufs c'))" for x
  proof -
    have "x \<in> set (unsent (bufs c))" using that by (simp add: c')
    moreover have "x \<noteq> b"
    proof
      assume "x = b"
      with \<open>x \<in> set (unsent (bufs c))\<close> ba chan_inv_parts(1) [OF inv] show False by (auto simp: held_def)
    qed
    ultimately show ?thesis using other [of x] in_held I(5) by (simp add: state recv_ok_def)
  qed
  moreover have "cmd_buf_state (mem c') (snd e) \<in> {Tx, Release, Free}" if "e \<in> set (tx_bufs (bufs c'))" for e
    using that b by (simp add: c' put_state len)
  moreover have "cmd_buf_state (mem c') (snd e) \<in> {Release, Free}" if "e \<in> set (waiting_bufs (bufs c'))" for e
    using that I(5) len by (auto simp: recv_ok_def c' put_state)
  ultimately have "recv_ok c'" using dist b(5) unfolding recv_ok_def tok by (simp add: c')
  moreover have "slots_ok c'" unfolding c' by (rule slots_ok_put [OF I(4) len]) simp
  moreover have "log_ok c'"
  proof -
    have "mset (concat (map job_todo (jobs c'))) = mset (concat (map job_todo (jobs c))) + mset (cores (mem c) b)"
      using mset_concat_update [OF j, of job_todo ?J] Fetch by (simp add: c' cores_def)
    then have "mset (undelivered c') = mset (undelivered c)"
      using b len by (simp add: undelivered_def c' put_state)
    then show ?thesis using I(7) unfolding log_ok_def by (simp add: c')
  qed
  moreover have "heap_ok c'" unfolding c' by (rule heap_ok_put [OF I(6)])
  ultimately show ?thesis using inv bufs_ok_put [OF I(8)] by (simp add: chan_inv_def c')
qed


lemma job_ok_frame [simp]: "job_ok (c\<lparr>jobs := js\<rparr>) i = job_ok c i" "job_ok (c\<lparr>delivered := d\<rparr>) i = job_ok c i"
  by (cases i; simp)+

lemma slots_heap_frame [simp]:
  "slots_ok (c\<lparr>jobs := js\<rparr>) = slots_ok c" "slots_ok (c\<lparr>delivered := d\<rparr>) = slots_ok c"
  "heap_ok (c\<lparr>jobs := js\<rparr>) = heap_ok c" "heap_ok (c\<lparr>delivered := d\<rparr>) = heap_ok c"
  by (simp_all add: slots_ok_def heap_ok_def)

lemma job_ok_less:
  assumes "job_ok c (Batch m todo f n)" "n' = length todo' + f'" "0 < n'" "set todo' \<subseteq> set todo"
  shows "job_ok c (Batch m todo' f' n')"
proof -
  obtain b where "b \<in> set (announced (bufs c))" "cb_addr b = daddr m" "set (map core todo) \<subseteq> set (cores (mem c) b)"
    using assms(1) by auto
  moreover from this assms(4) have "set (map core todo') \<subseteq> set (cores (mem c) b)" by auto
  ultimately show ?thesis using assms(1-3) unfolding job_ok.simps by blast
qed

lemma recv_ok_delivered: "recv_ok (c\<lparr>delivered := d, jobs := js\<rparr>) = recv_ok (c\<lparr>jobs := js\<rparr>)"
  by (simp add: recv_ok_def tokens_def)

lemma recv_ok_update:
  assumes "recv_ok c" "j < length (jobs c)" "job_ok c J" "job_addr J = job_addr (jobs c ! j)"
  shows "recv_ok (c\<lparr>jobs := (jobs c)[j := J]\<rparr>)"
proof -
  have "job_ok c i" if "i \<in> set ((jobs c)[j := J])" for i
    using set_update_subset_insert [THEN subsetD, OF that] assms(1,3) by (auto simp: recv_ok_def)
  moreover have "tokens (c\<lparr>jobs := (jobs c)[j := J]\<rparr>) = tokens c"
    by (simp add: tokens_def map_job_addr_update assms(2,4))
  ultimately show ?thesis using assms(1) unfolding recv_ok_def by simp
qed

lemma recv_get_eq:
  assumes inv: "chan_inv A M c" and j: "j < length (jobs c)" "jobs c ! j = Batch m todo f n" and k: "k < length todo"
  shows "\<exists>bytes. payload (heap c) (core (todo ! k)) = (daddr (todo ! k), bytes) \<and>
    recv_get j k c = Ret (c\<lparr>delivered := delivered c @ [(daddr (todo ! k), bytes)],
      jobs := (jobs c)[j := Batch m (take k todo @ drop (k + 1) todo) (f + 1) n]\<rparr>)"
proof -
  note I = chan_inv_parts [OF inv]
  have "job_ok c (Batch m todo f n)" using I(5) j by (metis nth_mem recv_ok_def)
  then obtain b where b: "b \<in> set (announced (bufs c))" "set (map core todo) \<subseteq> set (cores (mem c) b)" by auto
  have "core (todo ! k) \<in> set (cores (mem c) b)" using b(2) k by auto
  then have "valid_core (heap c) (core (todo ! k))" using I(6) in_held(1) [OF b(1)] by (auto simp: heap_ok_def)
  then obtain r bytes where "heap c (daddr (todo ! k)) = Some (r, bytes)" "dsize (todo ! k) = length bytes" "msg_hash (todo ! k) = calc_hash bytes"
    by (auto simp: core_def split: option.splits)
  then show ?thesis using k by (simp add: recv_get_def j(2) payload_def core_def)
qed

lemma recv_get_inv:
  assumes inv: "chan_inv A M c" and j: "j < length (jobs c)" and step: "recv_get j k c = Ret c'"
  shows "chan_inv A M c'"
proof (cases "\<exists>m todo f n. jobs c ! j = Batch m todo f n \<and> k < length todo")
  case False
  with step inv show ?thesis by (cases "jobs c ! j") (auto simp: recv_get_def)
next
  case True
  then obtain m todo f n where J: "jobs c ! j = Batch m todo f n" and k: "k < length todo" by blast
  note I = chan_inv_parts [OF inv]
  let ?todo = "take k todo @ drop (k + 1) todo"
  let ?J = "Batch m ?todo (f + 1) n"
  obtain bytes where p: "payload (heap c) (core (todo ! k)) = (daddr (todo ! k), bytes)"
    and c': "c' = c\<lparr>delivered := delivered c @ [(daddr (todo ! k), bytes)], jobs := (jobs c)[j := ?J]\<rparr>"
    using recv_get_eq [OF inv j J k] step by auto
  note todo = mset_remove_nth [OF k]
  have jo: "job_ok c (Batch m todo f n)" using I(5) j J by (metis nth_mem recv_ok_def)
  have "job_ok c ?J"
    by (rule job_ok_less [OF jo]) (use jo k in \<open>auto dest: in_set_takeD in_set_dropD\<close>)
  from recv_ok_update [OF I(5) j this] have "recv_ok (c\<lparr>jobs := (jobs c)[j := ?J]\<rparr>)" by (simp add: J)
  then have "recv_ok c'" by (simp only: c' recv_ok_delivered)
  moreover have "log_ok c'"
  proof -
    have "mset (concat (map job_todo (jobs c'))) + mset (map core todo) = mset (concat (map job_todo (jobs c))) + mset (map core ?todo)"
      using mset_concat_update [OF j, of job_todo ?J] by (simp add: c' J)
    then have "mset (concat (map job_todo (jobs c))) = add_mset (core (todo ! k)) (mset (concat (map job_todo (jobs c'))))"
      unfolding mset_map todo by (simp add: add.commute)
    then have "mset (undelivered c) = add_mset (core (todo ! k)) (mset (undelivered c'))"
      by (simp add: undelivered_def c')
    then show ?thesis using I(7) p unfolding log_ok_def by (simp add: c')
  qed
  ultimately show ?thesis using inv by (simp add: chan_inv_def c')
qed

lemma recv_finish_inv:
  assumes inv: "chan_inv A M c" and j: "j < length (jobs c)"
  shows "chan_inv A M (recv_finish j c)"
proof (cases "\<exists>m todo f n. jobs c ! j = Batch m todo f n \<and> 0 < f")
  case False
  with inv show ?thesis by (cases "jobs c ! j") (auto simp: recv_finish_def)
next
  case True
  then obtain m todo f n where J: "jobs c ! j = Batch m todo f n" and f: "0 < f" by blast
  note I = chan_inv_parts [OF inv]
  have jo: "job_ok c (Batch m todo f n)" using I(5) j J by (metis nth_mem recv_ok_def)
  show ?thesis
  proof (cases "n = 1")
    case False
    let ?J = "Batch m todo (f - 1) (n - 1)"
    let ?c = "c\<lparr>jobs := (jobs c)[j := ?J]\<rparr>"
    have c': "recv_finish j c = ?c" using False f by (simp add: recv_finish_def J)
    have n: "n = length todo + f" "0 < n" using jo unfolding job_ok.simps by blast+
    have "job_ok c ?J"
    proof (rule job_ok_less [OF jo])
      show "n - 1 = length todo + (f - 1)" "0 < n - 1" using n f False by linarith+
    qed simp
    from recv_ok_update [OF I(5) j this] have "recv_ok ?c" by (simp add: J)
    moreover have "mset (undelivered ?c) = mset (undelivered c)"
      using mset_concat_update [OF j, of job_todo ?J] J by (simp add: undelivered_def)
    ultimately show ?thesis using inv unfolding c' by (simp add: chan_inv_def log_ok_def)
  next
    case True
    have "n = length todo + f" and rel: "cmd_of (mem c (daddr m) ! 0) = Release" using jo unfolding job_ok.simps by blast+
    with True f have "length todo = 0" by linarith
    then have todo: "todo = []" by simp
    let ?mem = "put_cmd (daddr m) Free (mem c)"
    let ?js = "take j (jobs c) @ drop (j + 1) (jobs c)"
    let ?c = "c\<lparr>mem := ?mem, jobs := ?js\<rparr>"
    have c': "recv_finish j c = ?c" using True f by (simp add: recv_finish_def J)
    obtain b where b: "b \<in> set (announced (bufs c))" "cb_addr b = daddr m" using jo by auto
    note bh = in_held(1) [OF b(1)]
    have len: "mem c (daddr m) \<noteq> []" using I(2) [OF bh] I(3) b(2) by auto
    note jobs = mset_remove_nth [OF j]
    have "mset (tokens c) = add_mset (daddr m) (mset (tokens ?c))"
      using arg_cong [OF jobs, of "image_mset job_addr"] J by (simp add: tokens_def)
    then have tok: "distinct (tokens ?c)" "daddr m \<notin> set (tokens ?c)" "set (tokens c) = insert (daddr m) (set (tokens ?c))"
      using I(5) mset_eq_imp_distinct_iff [of "tokens c" "daddr m # tokens ?c"] mset_eq_setD [of "tokens c" "daddr m # tokens ?c"]
      by (simp_all add: recv_ok_def)
    have other: "cb_addr x = daddr m \<longleftrightarrow> x = b" if "x \<in> set (held (bufs c))" for x
      using held_same_addr [OF inv that bh] b(2) by auto
    have state: "cmd_buf_state ?mem x = (if cb_addr x = daddr m then Free else cmd_buf_state (mem c) x)" for x
      using len by (rule put_state)
    have "job_ok ?c i" if "i \<in> set ?js" for i
    proof (rule job_ok_put)
      have "i \<in> set (jobs c)" using jobs that by (metis insert_iff set_mset_add_mset_insert set_mset_mset)
      then show "job_ok c i" using I(5) by (simp add: recv_ok_def)
      have "job_addr i \<in> set (tokens ?c)" using that by (auto simp: tokens_def)
      with tok(2) show "job_addr i \<noteq> daddr m" by metis
    qed (rule len)
    moreover have "set (tokens ?c) = {cb_addr x | x. x \<in> set (announced (bufs c)) \<and> cmd_buf_state ?mem x \<noteq> Free}"
    proof -
      have "set (tokens ?c) = set (tokens c) - {daddr m}" using tok by auto
      then show ?thesis using I(5) unfolding recv_ok_def by (auto simp: state)
    qed
    moreover have "cmd_of (?mem (daddr (recv_slot c)) ! 0) = Tx" if "recv_slot c \<noteq> clear_cmd"
    proof -
      have "daddr (recv_slot c) \<noteq> daddr m" using tok(2) that by (auto simp: tokens_def)
      then show ?thesis using I(5) that len by (simp add: recv_ok_def put_cmd_at)
    qed
    moreover have "cmd_buf_state ?mem x = Tx" if "x \<in> set (unsent (bufs c))" for x
    proof -
      have "x \<noteq> b" using that b(1) I(1) by (auto simp: held_def)
      then show ?thesis using other [OF in_held(2) [OF that]] I(5) that by (simp add: state recv_ok_def)
    qed
    ultimately have "recv_ok ?c" using I(5) tok(1) unfolding recv_ok_def by (simp add: state)
    moreover have "log_ok ?c"
    proof -
      have "mset (concat (map job_todo (jobs c))) = mset (concat (map job_todo ?js))"
        using id_take_nth_drop [OF j] J todo
        by (metis (no_types, lifting) Suc_eq_plus1 append_Nil concat.simps(2) concat_append job_todo.simps(2) list.simps(8,9) map_append)
      moreover have "filter (\<lambda>x. cmd_buf_state ?mem x = Tx) (map snd (tx_bufs (bufs c))) = filter (\<lambda>x. cmd_buf_state (mem c) x = Tx) (map snd (tx_bufs (bufs c)))"
        using rel by (intro filter_cong) (auto simp: cmd_buf_state_def put_cmd_at [of "mem c", OF len])
      ultimately show ?thesis using I(7) by (simp add: log_ok_def undelivered_def)
    qed
    moreover have "slots_ok ?c" by (rule slots_ok_put [OF I(4) len]) simp
    ultimately show ?thesis using inv bufs_ok_put [OF I(8)] heap_ok_put [OF I(6)] unfolding c' by (simp add: chan_inv_def)
  qed
qed

end
