(* ===== verification/Cmd_Sender.thy ===== *)
theory Cmd_Sender
  imports Cmd_Channel
begin

text \<open>
  What the sender does with buffers in use, and that it keeps the invariant: \<open>check_transfer\<close> and
  \<open>check_free_data\<close> take back the buffers that the receiver released and freed, with the references of their messages, and
  \<open>try_sending_buffer\<close> announces a buffer.
\<close>

section \<open>References\<close>

lemma drop_ref_bytes: "drop_ref a hp d = Some (r, bytes) \<Longrightarrow> \<exists>r'. hp d = Some (r', bytes)"
  by (auto simp: drop_ref_def split: option.splits if_splits)

lemma fold_drop_bytes: "fold drop_ref ds hp d = Some (r, bytes) \<Longrightarrow> \<exists>r'. hp d = Some (r', bytes)"
proof (induction ds arbitrary: hp r)
  case (Cons a ds)
  then obtain r' where "drop_ref a hp d = Some (r', bytes)" by auto
  then show ?case by (rule drop_ref_bytes)
qed simp

definition refs_small :: "msg_heap \<Rightarrow> bool" where
  "refs_small hp \<longleftrightarrow> (\<forall>a r bytes. hp a = Some (r, bytes) \<longrightarrow> 0 < r \<and> r \<le> 2)"

lemma drop_ref_small:
  assumes "refs_small hp"
  shows "refs_small (drop_ref a hp)" "ref_cnt (drop_ref a hp) d = ref_cnt hp d - (if d = a then 1 else 0)"
proof -
  have "r = 1 \<or> r = 2" if "hp a = Some (r, bytes)" for r bytes
    using that assms unfolding refs_small_def by fastforce
  moreover have "fetch_sub_usize 2 1 = 1" by (rule trans [OF fetch_sub_usize_ok]) (simp_all add: usize_mod_def)
  ultimately show "refs_small (drop_ref a hp)" "ref_cnt (drop_ref a hp) d = ref_cnt hp d - (if d = a then 1 else 0)"
    using assms by (auto simp: drop_ref_def refs_small_def ref_cnt_def split: option.splits)
qed

lemma fold_drop_small:
  "refs_small hp \<Longrightarrow> refs_small (fold drop_ref ds hp) \<and> ref_cnt (fold drop_ref ds hp) d = ref_cnt hp d - count_list ds d"
  by (induction ds arbitrary: hp) (auto simp: drop_ref_small)

lemma ref_cnt_pos: "refs_small hp \<Longrightarrow> 0 < ref_cnt hp d \<longleftrightarrow> hp d \<noteq> None"
  by (auto simp: ref_cnt_def refs_small_def split: option.splits)

text \<open>Dropping references does not change a message that is still referred to.\<close>

lemma fold_drop_keeps:
  assumes "fold drop_ref ds hp (fst x) \<noteq> None"
  shows "valid_core (fold drop_ref ds hp) x = valid_core hp x" "payload (fold drop_ref ds hp) x = payload hp x"
proof -
  obtain r bytes where r: "fold drop_ref ds hp (fst x) = Some (r, bytes)" using assms by auto
  then obtain r' where "hp (fst x) = Some (r', bytes)" using fold_drop_bytes by blast
  with r show "valid_core (fold drop_ref ds hp) x = valid_core hp x" "payload (fold drop_ref ds hp) x = payload hp x"
    by (cases x; simp add: payload_def)+
qed

lemma heap_ok_small: "heap_ok c \<Longrightarrow> refs_small (heap c)"
  unfolding heap_ok_def refs_small_def by blast

lemma buf_refs_pos:
  assumes "b \<in> set (held B)" "x \<in> set (cores mm b)"
  shows "0 < buf_refs mm B (fst x)"
proof -
  have "0 < count_list (map fst (cores mm b)) (fst x)" using assms(2) by (metis count_list_0_iff image_eqI list.set_map neq0_conv)
  moreover have "count_list (map fst (cores mm b)) (fst x) \<le> buf_refs mm B (fst x)"
    unfolding buf_refs_def by (rule member_le_sum_list) (use assms(1) in auto)
  ultimately show ?thesis by simp
qed

lemma recv_ok_parts:
  assumes "recv_ok c"
  shows "distinct (tokens c)"
    "set (tokens c) = {cb_addr b | b. b \<in> set (announced (bufs c)) \<and> cmd_buf_state (mem c) b \<noteq> Free}"
    "recv_slot c \<noteq> clear_cmd \<Longrightarrow> cmd_of (mem c (daddr (recv_slot c)) ! 0) = Tx"
    "\<And>j. j \<in> set (jobs c) \<Longrightarrow> job_ok c j"
    "\<And>b. b \<in> set (unsent (bufs c)) \<Longrightarrow> cmd_buf_state (mem c) b = Tx"
    "\<And>e. e \<in> set (tx_bufs (bufs c)) \<Longrightarrow> cmd_buf_state (mem c) (snd e) \<in> {Tx, Release, Free}"
    "\<And>e. e \<in> set (waiting_bufs (bufs c)) \<Longrightarrow> cmd_buf_state (mem c) (snd e) \<in> {Release, Free}"
  using assms unfolding recv_ok_def by blast+

text \<open>What is not delivered is in a buffer that is in use.\<close>

lemma undelivered_held:
  assumes "recv_ok c" "x \<in> set (undelivered c)"
  obtains b where "b \<in> set (held (bufs c))" "x \<in> set (cores (mem c) b)" "cmd_buf_state (mem c) b \<noteq> Free"
proof -
  consider b where "b \<in> set (unsent (bufs c))" "x \<in> set (cores (mem c) b)"
    | e where "e \<in> set (tx_bufs (bufs c))" "cmd_buf_state (mem c) (snd e) = Tx" "x \<in> set (cores (mem c) (snd e))"
    | j where "j \<in> set (jobs c)" "x \<in> set (job_todo j)"
    using assms(2) by (auto simp: undelivered_def)
  then show thesis
  proof cases
    case 1
    with that [of b] in_held(2) recv_ok_parts(5) [OF assms(1)] show thesis by simp
  next
    case 2
    with that [of "snd e"] in_held(1) in_announced(1) show thesis by simp
  next
    case 3
    then obtain m todo f n where j: "j = Batch m todo f n" by (cases j rule: recv_job.exhaust) auto
    with 3 recv_ok_parts(4) [OF assms(1)] have "job_ok c (Batch m todo f n)" by blast
    then obtain b where "b \<in> set (announced (bufs c))" "cb_addr b = daddr m" "set (map core todo) \<subseteq> set (cores (mem c) b)"
      "cmd_of (mem c (daddr m) ! 0) = Release" by auto
    with 3 j that [of b] in_held(1) show thesis by (auto simp: cmd_buf_state_def)
  qed
qed


section \<open>Freed buffers\<close>

lemma slots_ok_cong:
  "tx_bufs (bufs c') = tx_bufs (bufs c) \<Longrightarrow> send_slot c' = send_slot c \<Longrightarrow> recv_slot c' = recv_slot c \<Longrightarrow> mem c' = mem c \<Longrightarrow> slots_ok c \<Longrightarrow> slots_ok c'"
  by (simp only: slots_ok_def)

lemma recv_okI:
  assumes "distinct (tokens c)"
    "set (tokens c) = {cb_addr b | b. b \<in> set (announced (bufs c)) \<and> cmd_buf_state (mem c) b \<noteq> Free}"
    "recv_slot c \<noteq> clear_cmd \<Longrightarrow> cmd_of (mem c (daddr (recv_slot c)) ! 0) = Tx"
    "\<And>j. j \<in> set (jobs c) \<Longrightarrow> job_ok c j"
    "\<And>b. b \<in> set (unsent (bufs c)) \<Longrightarrow> cmd_buf_state (mem c) b = Tx"
    "\<And>e. e \<in> set (tx_bufs (bufs c)) \<Longrightarrow> cmd_buf_state (mem c) (snd e) \<in> {Tx, Release, Free}"
    "\<And>e. e \<in> set (waiting_bufs (bufs c)) \<Longrightarrow> cmd_buf_state (mem c) (snd e) \<in> {Release, Free}"
  shows "recv_ok c"
  unfolding recv_ok_def using assms by blast

lemma heap_okI:
  assumes "refs_small (heap c)" "\<And>a. ref_cnt (heap c) a = buf_refs (mem c) (bufs c) a + sum_list (map (task_refs a) (senders c))"
    "\<And>b x. b \<in> set (held (bufs c)) \<Longrightarrow> x \<in> set (cores (mem c) b) \<Longrightarrow> valid_core (heap c) x"
    "\<And>t. t \<in> set (senders c) \<Longrightarrow> task_ok (heap c) t"
  shows "heap_ok c"
  unfolding heap_ok_def using assms(1) [unfolded refs_small_def] assms(2-) by blast

lemma heap_ok_parts:
  assumes "heap_ok c"
  shows "\<And>a. ref_cnt (heap c) a = buf_refs (mem c) (bufs c) a + sum_list (map (task_refs a) (senders c))"
    "\<And>b x. b \<in> set (held (bufs c)) \<Longrightarrow> x \<in> set (cores (mem c) b) \<Longrightarrow> valid_core (heap c) x"
    "\<And>t. t \<in> set (senders c) \<Longrightarrow> task_ok (heap c) t"
  using assms unfolding heap_ok_def by blast+

text \<open>Dropping references of messages keeps the messages that are still counted.\<close>

lemma heap_ok_dropped:
  assumes small: "refs_small (heap c)" and hp: "heap c' = fold drop_ref ds (heap c)"
    and cnt: "\<And>a. ref_cnt (heap c') a = buf_refs (mem c') (bufs c') a + sum_list (map (task_refs a) (senders c'))"
    and valid: "\<And>b x. b \<in> set (held (bufs c')) \<Longrightarrow> x \<in> set (cores (mem c') b) \<Longrightarrow> valid_core (heap c) x"
    and tasks: "\<And>t. t \<in> set (senders c') \<Longrightarrow> task_ok (heap c) t"
  shows "heap_ok c'"
proof (rule heap_okI [OF _ cnt])
  show s: "refs_small (heap c')" using fold_drop_small [OF small] hp by simp
  fix b x assume b: "b \<in> set (held (bufs c'))" "x \<in> set (cores (mem c') b)"
  have "0 < ref_cnt (heap c') (fst x)" using cnt [of "fst x"] buf_refs_pos [OF b] by simp
  then have "heap c' (fst x) \<noteq> None" using ref_cnt_pos [OF s] by blast
  with fold_drop_keeps(1) [of ds "heap c" x] valid [OF b] show "valid_core (heap c') x" by (simp add: hp)
next
  have s: "refs_small (heap c')" using fold_drop_small [OF small] hp by simp
  fix t assume t: "t \<in> set (senders c')"
  show "task_ok (heap c') t"
  proof (cases t)
    case (Pushing a len h)
    have "task_refs a t \<le> sum_list (map (task_refs a) (senders c'))" by (rule member_le_sum_list) (use t in auto)
    then have "0 < ref_cnt (heap c') a" using cnt [of a] Pushing by simp
    then have "heap c' a \<noteq> None" using ref_cnt_pos [OF s] by blast
    with fold_drop_keeps(1) [of ds "heap c" "(a, len, h)"] tasks [OF t] Pushing show ?thesis by (simp add: hp del: valid_core.simps)
  qed simp
qed

lemma log_ok_dropped:
  assumes "log_ok c" "sent c' = sent c" "delivered c' = delivered c" "mset (undelivered c') = mset (undelivered c)"
    "concat (map task_todo (senders c')) = concat (map task_todo (senders c))"
    "heap c' = fold drop_ref ds (heap c)" "recv_ok c'" "heap_ok c'"
  shows "log_ok c'"
proof -
  let ?xs = "undelivered c' @ concat (map task_todo (senders c'))"
  have "payload (heap c') x = payload (heap c) x" if x: "x \<in> set ?xs" for x
  proof -
    have "0 < ref_cnt (heap c') (fst x)"
    proof (cases "x \<in> set (undelivered c')")
      case True
      then obtain b where b: "b \<in> set (held (bufs c'))" "x \<in> set (cores (mem c') b)"
        using undelivered_held [OF assms(7)] by blast
      then show ?thesis using heap_ok_parts(1) [OF assms(8), of "fst x"] buf_refs_pos [OF b] by simp
    next
      case False
      with x obtain t where t: "t \<in> set (senders c')" "x \<in> set (task_todo t)" by auto
      have "task_refs (fst x) t = 2" by (cases t rule: send_task.exhaust) (use t(2) in auto)
      moreover have "task_refs (fst x) t \<le> sum_list (map (task_refs (fst x)) (senders c'))" by (rule member_le_sum_list) (use t in auto)
      ultimately show ?thesis using heap_ok_parts(1) [OF assms(8), of "fst x"] by simp
    qed
    then have "heap c' (fst x) \<noteq> None" using ref_cnt_pos [OF heap_ok_small [OF assms(8)]] by blast
    then show ?thesis unfolding assms(6) by (rule fold_drop_keeps)
  qed
  then have "map (payload (heap c')) ?xs = map (payload (heap c)) ?xs" by (intro map_cong refl)
  then have "mset (map (payload (heap c')) ?xs) = image_mset (payload (heap c)) (mset (undelivered c @ concat (map task_todo (senders c))))"
    using assms(4,5) by (metis mset_append mset_map)
  then show ?thesis using assms(1-3) unfolding log_ok_def by (metis mset_map)
qed

lemma bufs_ok_parts:
  assumes "bufs_ok A M mm B"
  shows "mset (map cb_addr (empty_bufs B @ held B)) = mset A" "num_bufs B = length A"
    "\<And>e. e \<in> set (tx_bufs B) \<union> set (waiting_bufs B) \<Longrightarrow> fst e = cb_addr (snd e)"
    "\<And>b. b \<in> set (empty_bufs B) \<union> set (held B) \<Longrightarrow> cb_max_size b = M \<and> length (mm (cb_addr b)) = M"
    "\<And>b. b \<in> set (empty_bufs B) \<Longrightarrow> cb_index b = 0 \<and> cb_allocated_cnt b = 0"
    "\<And>b. b \<in> set (held B) \<Longrightarrow> 0 < cb_index b \<and> cb_index b \<le> M \<and> cb_allocated_cnt b = cb_index b"
    "\<And>b. cur_buf B = Some b \<Longrightarrow> cb_index b < M"
  using assms unfolding bufs_ok_def by blast+

lemma bufs_okI:
  assumes "mset (map cb_addr (empty_bufs B @ held B)) = mset A" "num_bufs B = length A"
    "\<And>e. e \<in> set (tx_bufs B) \<union> set (waiting_bufs B) \<Longrightarrow> fst e = cb_addr (snd e)"
    "\<And>b. b \<in> set (empty_bufs B) \<union> set (held B) \<Longrightarrow> cb_max_size b = M \<and> length (mm (cb_addr b)) = M"
    "\<And>b. b \<in> set (empty_bufs B) \<Longrightarrow> cb_index b = 0 \<and> cb_allocated_cnt b = 0"
    "\<And>b. b \<in> set (held B) \<Longrightarrow> 0 < cb_index b \<and> cb_index b \<le> M \<and> cb_allocated_cnt b = cb_index b"
    "\<And>b. cur_buf B = Some b \<Longrightarrow> cb_index b < M"
  shows "bufs_ok A M mm B"
  using assms unfolding bufs_ok_def by blast

lemma map_of_hm_remove: "map_of (hm_remove a m) k = (if k = a then None else map_of m k)"
  by (induction m) (auto simp: hm_remove_def)

lemma hm_remove_split:
  assumes "map_of m a = Some b" "distinct (map fst m)"
  shows "mset m = add_mset (a, b) (mset (hm_remove a m))"
  using assms
proof (induction m)
  case (Cons e m)
  show ?case
  proof (cases "fst e = a")
    case True
    with Cons.prems have "e = (a, b)" "\<forall>x \<in> set m. fst x \<noteq> a" by (cases e; force)+
    then show ?thesis by (simp add: hm_remove_def filter_True)
  next
    case False
    with Cons show ?thesis by (cases e) (auto simp: hm_remove_def)
  qed
qed simp

lemma keys_addr: "bufs_ok A M mm B \<Longrightarrow> map fst (waiting_bufs B) = map cb_addr (map snd (waiting_bufs B))"
  by (simp add: bufs_ok_def)

lemma waiting_distinct:
  assumes "chan_inv A M c"
  shows "distinct (map fst (waiting_bufs (bufs c)))"
  using chan_inv_parts(1,8) [OF assms] by (simp add: keys_addr held_def announced_def del: map_map)

lemma mset_held: "mset (held B) = mset (unsent B) + image_mset snd (mset (tx_bufs B)) + image_mset snd (mset (waiting_bufs B))"
  by (simp add: held_def announced_def)

lemma buf_refs_mset: "mset (held B) = mset bs \<Longrightarrow> buf_refs mm B a = sum_list (map (\<lambda>b. count_list (map fst (cores mm b)) a) bs)"
  unfolding buf_refs_def by (rule sum_list_mset_eq)

definition free_one :: "nat \<Rightarrow> cmd_buf \<Rightarrow> chan \<Rightarrow> chan" where
  "free_one a b c = c\<lparr>bufs := (bufs c)\<lparr>waiting_bufs := hm_remove a (waiting_bufs (bufs c)), empty_bufs := cmd_buf_reset b # empty_bufs (bufs c)\<rparr>,
     heap := fold drop_ref (map fst (cores (mem c) b)) (heap c)\<rparr>"

lemma free_one_inv:
  assumes inv: "chan_inv A M c" and a: "map_of (waiting_bufs (bufs c)) a = Some b" and st: "cmd_buf_state (mem c) b = Free"
  shows "chan_inv A M (free_one a b c)"
proof -
  let ?B = "(bufs c)\<lparr>waiting_bufs := hm_remove a (waiting_bufs (bufs c)), empty_bufs := cmd_buf_reset b # empty_bufs (bufs c)\<rparr>"
  let ?hp = "fold drop_ref (map fst (cores (mem c) b)) (heap c)"
  let ?c = "free_one a b c"
  note I = chan_inv_parts [OF inv]
  note R = recv_ok_parts [OF I(5)]
  have w: "mset (waiting_bufs (bufs c)) = add_mset (a, b) (mset (hm_remove a (waiting_bufs (bufs c))))"
    by (rule hm_remove_split [OF a waiting_distinct [OF inv]])
  have held: "mset (held (bufs c)) = add_mset b (mset (held ?B))"
    using w by (simp add: mset_held unsent_def)
  have sub: "set (held ?B) \<subseteq> set (held (bufs c))" and bh: "b \<in> set (held (bufs c))"
    using held by (metis subset_insertI set_mset_add_mset_insert set_mset_mset, metis insertI1 set_mset_add_mset_insert set_mset_mset)
  have "distinct (map cb_addr (held (bufs c)))" using I(1) by simp
  then have "cb_addr b \<notin> cb_addr ` set (held ?B)"
    using mset_eq_imp_distinct_iff [of "map cb_addr (held (bufs c))" "map cb_addr (b # held ?B)"] held by simp
  then have other: "cb_addr x \<noteq> cb_addr b" if "x \<in> set (held ?B)" for x using that by (metis imageI)
  have ann: "set (announced (bufs c)) = insert b (set (announced ?B))"
    using mset_eq_setD [of "waiting_bufs (bufs c)" "(a, b) # hm_remove a (waiting_bufs (bufs c))"] w by (auto simp: announced_def)
  have "bufs_ok A M (mem c) ?B"
  proof -
    have "mset (map cb_addr (empty_bufs ?B @ held ?B)) = mset (map cb_addr (empty_bufs (bufs c) @ held (bufs c)))"
      by (simp add: held cmd_buf_reset_def)
    moreover have "set (hm_remove a (waiting_bufs (bufs c))) \<subseteq> set (waiting_bufs (bufs c))" by (auto simp: hm_remove_def)
    moreover note P = bufs_ok_parts [OF I(8)]
    ultimately show ?thesis
    proof (intro bufs_okI, goal_cases)
      case 1
      with P(1) show ?case by simp
    next
      case (4 x)
      with P(4) [of b] P(4) [of x] sub bh show ?case by (auto simp: cmd_buf_reset_def)
    next
      case (5 x)
      with P(5) [of x] show ?case by (auto simp: cmd_buf_reset_def)
    qed (use P(2,3,6,7) sub in auto)
  qed
  moreover have "slots_ok ?c" by (rule slots_ok_cong [OF _ _ _ _ I(4)]) (simp_all add: free_one_def)
  moreover have rok: "recv_ok ?c"
  proof -
    have "job_ok ?c j" if j: "j \<in> set (jobs c)" for j
    proof (cases j)
      case (Fetch m)
      with R(4) [OF j] show ?thesis by (auto simp: free_one_def)
    next
      case (Batch m todo f n)
      with R(4) [OF j] obtain b' where b': "b' \<in> set (announced (bufs c))" "cb_addr b' = daddr m" "set (map core todo) \<subseteq> set (cores (mem c) b')"
        and m: "cmd_of (mem c (daddr m) ! 0) = Release" "n = length todo + f" "0 < n" unfolding Batch job_ok.simps by blast
      have "b' \<noteq> b" using st b'(2) m(1) by (auto simp: cmd_buf_state_def)
      with b' m ann Batch show ?thesis unfolding Batch job_ok.simps by (auto simp: free_one_def)
    qed
    moreover have "set (tokens c) = {cb_addr x | x. x \<in> set (announced ?B) \<and> cmd_buf_state (mem c) x \<noteq> Free}"
      unfolding R(2) ann using st by auto
    moreover have "set (hm_remove a (waiting_bufs (bufs c))) \<subseteq> set (waiting_bufs (bufs c))" by (auto simp: hm_remove_def)
    moreover have "tokens ?c = tokens c" "unsent ?B = unsent (bufs c)" by (simp_all add: free_one_def tokens_def unsent_def)
    ultimately show ?thesis
    proof (intro recv_okI, goal_cases)
      case (7 e)
      then have "e \<in> set (waiting_bufs (bufs c))" by (auto simp: free_one_def)
      with R(7) show ?case by (simp add: free_one_def)
    qed (use R(1,3,5,6) in \<open>simp_all add: free_one_def\<close>)
  qed
  moreover have hok: "heap_ok ?c"
  proof (rule heap_ok_dropped [where ds = "map fst (cores (mem c) b)"])
    fix d
    show "ref_cnt (heap ?c) d = buf_refs (mem ?c) (bufs ?c) d + sum_list (map (task_refs d) (senders ?c))"
      using fold_drop_small [OF heap_ok_small [OF I(6)], of "map fst (cores (mem c) b)" d] heap_ok_parts(1) [OF I(6), of d]
        buf_refs_mset [of "bufs c" "b # held ?B" "mem c" d] held
      by (simp add: free_one_def buf_refs_def)
  next
    fix b' x assume "b' \<in> set (held (bufs ?c))" "x \<in> set (cores (mem ?c) b')"
    then show "valid_core (heap c) x" using heap_ok_parts(2) [OF I(6), of b' x] sub by (auto simp: free_one_def)
  qed (use heap_ok_small [OF I(6)] heap_ok_parts(3) [OF I(6)] in \<open>simp_all add: free_one_def\<close>)
  moreover have "log_ok ?c"
    by (rule log_ok_dropped [OF I(7) _ _ _ _ _ rok hok]) (simp_all add: free_one_def undelivered_def unsent_def)
  ultimately show ?thesis using inv by (simp add: chan_inv_def free_one_def)
qed


lemma freed_bufs_ok:
  assumes "\<And>e. e \<in> set w \<Longrightarrow> cmd_buf_state mm (snd e) \<in> {Release, Free}"
  obtains as where "freed_bufs mm w keys = Ret as"
    "\<And>a. a \<in> set as \<longleftrightarrow> a \<in> set keys \<and> (\<exists>b. map_of w a = Some b \<and> cmd_buf_state mm b = Free)"
proof -
  have "\<exists>as. freed_bufs mm w keys = Ret as \<and> (\<forall>a. a \<in> set as \<longleftrightarrow> a \<in> set keys \<and> (\<exists>b. map_of w a = Some b \<and> cmd_buf_state mm b = Free))"
  proof (induction keys)
    case (Cons k keys)
    then obtain as where as: "freed_bufs mm w keys = Ret as"
      "\<And>a. a \<in> set as \<longleftrightarrow> a \<in> set keys \<and> (\<exists>b. map_of w a = Some b \<and> cmd_buf_state mm b = Free)" by blast
    show ?case
    proof (cases "map_of w k")
      case None
      with as show ?thesis by auto
    next
      case (Some b)
      with assms [OF map_of_SomeD] have "cmd_buf_state mm b = Release \<or> cmd_buf_state mm b = Free" by fastforce
      with as Some show ?thesis by auto
    qed
  qed simp
  with that show thesis by blast
qed

lemma cores_daddr:
  assumes "\<And>x. x \<in> set (cores mm b) \<Longrightarrow> valid_core hp x"
  shows "map daddr (filter (\<lambda>m. 0 < dsize m) (cmd_buf_iter mm b)) = map fst (cores mm b)"
proof -
  have "0 < dsize m" if "m \<in> set (cmd_buf_iter mm b)" for m
    using assms [of "core m"] that by (auto simp: cores_def core_def split: option.splits)
  then show ?thesis by (simp add: cores_def core_def filter_True o_def)
qed

lemma free_loop_inv:
  assumes "chan_inv A M c" "\<And>a b. a \<in> set as \<Longrightarrow> map_of (waiting_bufs (bufs c)) a = Some b \<Longrightarrow> cmd_buf_state (mem c) b = Free"
    and "free_loop (mem c) as (bufs c) = (B', ds)"
  shows "chan_inv A M (c\<lparr>bufs := B', heap := fold drop_ref ds (heap c)\<rparr>) \<and> full_bufs B' = full_bufs (bufs c) \<and> cur_buf B' = cur_buf (bufs c)
    \<and> tx_bufs B' = tx_bufs (bufs c) \<and> waiting_bufs B' = filter (\<lambda>e. fst e \<notin> set as) (waiting_bufs (bufs c))"
  using assms
proof (induction as arbitrary: c ds)
  case Nil
  then have "bufs c = B'" "ds = []" by simp_all
  moreover from this have c: "c\<lparr>bufs := B', heap := fold drop_ref ds (heap c)\<rparr> = c" by (cases c) simp
  ultimately show ?case using Nil.prems(1) unfolding c by simp
next
  case (Cons a as)
  show ?case
  proof (cases "map_of (waiting_bufs (bufs c)) a")
    case None
    then have "filter (\<lambda>e. fst e \<notin> set (a # as)) (waiting_bufs (bufs c)) = filter (\<lambda>e. fst e \<notin> set as) (waiting_bufs (bufs c))"
      by (intro filter_cong) (auto simp: map_of_eq_None_iff)
    moreover have fl: "free_loop (mem c) as (bufs c) = (B', ds)" using Cons.prems(3) None by simp
    moreover have "cmd_buf_state (mem c) b = Free" if "k \<in> set as" "map_of (waiting_bufs (bufs c)) k = Some b" for k b
      using Cons.prems(2) [of k b] that by simp
    from Cons.IH [OF Cons.prems(1) this fl] show ?thesis using calculation by simp
  next
    case (Some b)
    let ?c = "free_one a b c"
    have st: "cmd_buf_state (mem c) b = Free" using Cons.prems(2) [OF _ Some] by simp
    note inv = free_one_inv [OF Cons.prems(1) Some st]
    have "snd (a, b) \<in> set (announced (bufs c))" by (rule in_announced(2)) (rule map_of_SomeD [OF Some])
    then have "b \<in> set (held (bufs c))" by (simp add: held_def)
    then have d: "map daddr (filter (\<lambda>m. 0 < dsize m) (cmd_buf_iter (mem c) b)) = map fst (cores (mem c) b)"
      using cores_daddr heap_ok_parts(2) [OF chan_inv_parts(6) [OF Cons.prems(1)]] by blast
    obtain ds' where ds: "free_loop (mem c) as (bufs ?c) = (B', ds')" "ds = map fst (cores (mem c) b) @ ds'"
      using Cons.prems(3) Some d by (auto simp: free_one_def split: prod.splits)
    have "map_of (waiting_bufs (bufs ?c)) k = Some b' \<Longrightarrow> map_of (waiting_bufs (bufs c)) k = Some b'" for k b'
      by (auto simp: free_one_def map_of_hm_remove split: if_splits)
    then have "cmd_buf_state (mem ?c) b' = Free" if "k \<in> set as" "map_of (waiting_bufs (bufs ?c)) k = Some b'" for k b'
      using Cons.prems(2) [of k b'] that by (simp add: free_one_def)
    from Cons.IH [OF inv this] ds show ?thesis by (simp add: free_one_def hm_remove_def conj_commute)
  qed
qed


section \<open>Transfers\<close>

lemma check_transfer_inv:
  assumes inv: "chan_inv A M c"
  shows "\<exists>B cleared. check_transfer (mem c) (bufs c) (daddr (send_slot c)) = Ret (B, cleared) \<and>
    chan_inv A M (c\<lparr>bufs := B, send_slot := (if cleared then clear_cmd else send_slot c)\<rparr>) \<and>
    full_bufs B = full_bufs (bufs c) \<and> cur_buf B = cur_buf (bufs c) \<and>
    (if cleared then tx_bufs B = [] \<and> waiting_bufs B = tx_bufs (bufs c) @ waiting_bufs (bufs c) \<and> tx_bufs (bufs c) \<noteq> [] \<and> (\<forall>e \<in> set (tx_bufs (bufs c)). cmd_buf_state (mem c) (snd e) \<noteq> Tx)
     else B = bufs c \<and> (\<forall>e \<in> set (tx_bufs (bufs c)). cmd_buf_state (mem c) (snd e) = Tx))"
proof (cases "tx_bufs (bufs c) = []")
  case True
  have c: "c\<lparr>bufs := bufs c, send_slot := send_slot c\<rparr> = c" by (cases c) simp
  show ?thesis by (rule exI [of _ "bufs c"], rule exI [of _ False]) (simp add: check_transfer_def True c inv)
next
  case False
  note I = chan_inv_parts [OF inv]
  note R = recv_ok_parts [OF I(5)]
  obtain b h where b: "tx_bufs (bufs c) = [(cb_addr b, b)]" and slot: "send_slot c = mk_cmd (cb_addr b) (cmd_buf_size b) Tx h"
    and rs: "recv_slot c \<in> {clear_cmd, send_slot c}"
    using I(4) False by (auto simp: slots_ok_def)
  have bh: "b \<in> set (held (bufs c))" by (simp add: held_def announced_def b)
  show ?thesis
  proof (cases "cmd_buf_state (mem c) b = Tx")
    case True
    have "(bufs c)\<lparr>tx_bufs := [(cb_addr b, b)]\<rparr> = bufs c" using b by (cases "bufs c") simp
    then have "check_transfer (mem c) (bufs c) (daddr (send_slot c)) = Ret (bufs c, False)"
      using b slot True by (simp add: check_transfer_def hm_remove_def hm_insert_def)
    moreover have c: "c\<lparr>bufs := bufs c, send_slot := send_slot c\<rparr> = c" by (cases c) simp
    ultimately show ?thesis using inv b True by (intro exI [of _ "bufs c"] exI [of _ False]) (simp add: c)
  next
    case False
    then have st: "cmd_buf_state (mem c) b \<in> {Release, Free}" using R(6) [of "(cb_addr b, b)"] b by auto
    have "cb_addr b \<notin> fst ` set (waiting_bufs (bufs c))"
      using I(1) keys_addr [OF I(8)] b by (auto simp: held_def announced_def)
    then have ins: "hm_insert (cb_addr b) b (waiting_bufs (bufs c)) = (cb_addr b, b) # waiting_bufs (bufs c)"
      by (force simp: hm_insert_def hm_remove_def intro!: filter_True)
    let ?B = "(bufs c)\<lparr>tx_bufs := [], waiting_bufs := (cb_addr b, b) # waiting_bufs (bufs c)\<rparr>"
    have "0 < cb_allocated_cnt b" using I(2) [OF bh] by simp
    then have check: "check_transfer (mem c) (bufs c) (daddr (send_slot c)) = Ret (?B, True)"
      using st b slot ins by (auto simp: check_transfer_def hm_remove_def)
    let ?c = "c\<lparr>bufs := ?B, send_slot := clear_cmd\<rparr>"
    have st': "cmd_of (mem c (cb_addr b) ! 0) \<noteq> Tx" using False by (simp add: cmd_buf_state_def)
    have clear: "recv_slot c = clear_cmd"
    proof (rule ccontr)
      assume "recv_slot c \<noteq> clear_cmd"
      with R(3) rs slot st' show False by auto
    qed
    have held: "held ?B = held (bufs c)" "announced ?B = announced (bufs c)" "unsent ?B = unsent (bufs c)" "tokens ?c = tokens c"
      by (simp_all add: held_def announced_def unsent_def tokens_def b)
    have "chan_inv A M ?c"
    proof -
      have "bufs_ok A M (mem c) ?B"
        using bufs_ok_parts [OF I(8)] held b by (intro bufs_okI) auto
      moreover have "slots_ok ?c" using clear by (simp add: slots_ok_def)
      moreover have "recv_ok ?c"
      proof (rule recv_okI, goal_cases)
        case (4 j)
        then have j: "job_ok c j" using R(4) by simp
        show ?case
        proof (cases j)
          case (Fetch m)
          with j slot st' show ?thesis by auto
        qed (use j held in \<open>auto simp del: job_ok_frame\<close>)
      next
        case (7 e)
        then show ?case using R(7) [of e] st by (cases "e = (cb_addr b, b)") auto
      qed (use R(1,2,5) held clear in simp_all)
      moreover have "heap_ok ?c" using I(6) held by (simp add: heap_ok_def buf_refs_def)
      moreover have "mset (undelivered ?c) = mset (undelivered c)" using False by (simp add: undelivered_def held b)
      then have "log_ok ?c" using I(7) by (simp add: log_ok_def)
      ultimately show ?thesis using inv by (simp add: chan_inv_def)
    qed
    with check b False show ?thesis by (intro exI [of _ ?B] exI [of _ True]) simp
  qed
qed


text \<open>
  The transfers make progress: an announced buffer that is released leaves the slot, and the buffers whose
  messages were all received are empty again.
\<close>

lemma progress_transfers_inv:
  assumes inv: "chan_inv A M c" and keys: "set (map fst (tx_bufs (bufs c) @ waiting_bufs (bufs c))) \<subseteq> set keys"
  shows "\<exists>c'. progress_transfers keys c = Ret c' \<and> chan_inv A M c' \<and>
    full_bufs (bufs c') = full_bufs (bufs c) \<and> cur_buf (bufs c') = cur_buf (bufs c) \<and>
    senders c' = senders c \<and> pending_cmds c' = pending_cmds c \<and> send_waiting c' = send_waiting c \<and> recv_slot c' = recv_slot c \<and> jobs c' = jobs c \<and>
    sent c' = sent c \<and> delivered c' = delivered c \<and> mem c' = mem c \<and>
    tx_bufs (bufs c') = filter (\<lambda>e. cmd_buf_state (mem c) (snd e) = Tx) (tx_bufs (bufs c)) \<and>
    mset (waiting_bufs (bufs c')) = filter_mset (\<lambda>e. cmd_buf_state (mem c) (snd e) \<notin> {Tx, Free}) (mset (tx_bufs (bufs c) @ waiting_bufs (bufs c))) \<and>
    send_slot c' = (if tx_bufs (bufs c') = [] then clear_cmd else send_slot c)"
proof -
  obtain B cl where t: "check_transfer (mem c) (bufs c) (daddr (send_slot c)) = Ret (B, cl)"
    and inv1: "chan_inv A M (c\<lparr>bufs := B, send_slot := (if cl then clear_cmd else send_slot c)\<rparr>)"
    and B: "full_bufs B = full_bufs (bufs c)" "cur_buf B = cur_buf (bufs c)"
      "if cl then tx_bufs B = [] \<and> waiting_bufs B = tx_bufs (bufs c) @ waiting_bufs (bufs c) \<and> tx_bufs (bufs c) \<noteq> [] \<and> (\<forall>e \<in> set (tx_bufs (bufs c)). cmd_buf_state (mem c) (snd e) \<noteq> Tx)
       else B = bufs c \<and> (\<forall>e \<in> set (tx_bufs (bufs c)). cmd_buf_state (mem c) (snd e) = Tx)"
    using check_transfer_inv [OF inv] by blast
  let ?c1 = "c\<lparr>bufs := B, send_slot := (if cl then clear_cmd else send_slot c)\<rparr>"
  note R1 = recv_ok_parts [OF chan_inv_parts(5) [OF inv1]]
  have ws: "cmd_buf_state (mem c) (snd e) \<in> {Release, Free}" if "e \<in> set (waiting_bufs B)" for e
    using R1(7) [of e] that by simp
  then obtain as where as: "freed_bufs (mem c) (waiting_bufs B) keys = Ret as"
    "\<And>a. a \<in> set as \<longleftrightarrow> a \<in> set keys \<and> (\<exists>b. map_of (waiting_bufs B) a = Some b \<and> cmd_buf_state (mem c) b = Free)"
    using freed_bufs_ok by blast
  obtain B' ds where fl: "free_loop (mem c) as B = (B', ds)" by fastforce
  have "cmd_buf_state (mem ?c1) b = Free" if "a \<in> set as" "map_of (waiting_bufs (bufs ?c1)) a = Some b" for a b
    using that as(2) by auto
  from free_loop_inv [where B' = B' and ds = ds, OF inv1 this] fl
  have inv2: "chan_inv A M (?c1\<lparr>bufs := B', heap := fold drop_ref ds (heap c)\<rparr>)"
    and B': "full_bufs B' = full_bufs B" "cur_buf B' = cur_buf B" "tx_bufs B' = tx_bufs B" "waiting_bufs B' = filter (\<lambda>e. fst e \<notin> set as) (waiting_bufs B)"
    by simp_all
  have w: "fst e \<in> set as \<longleftrightarrow> cmd_buf_state (mem c) (snd e) = Free" if "e \<in> set (waiting_bufs B)" for e
  proof -
    have "fst e \<in> set keys" using that B(3) keys by (cases cl) auto
    moreover have "map_of (waiting_bufs B) (fst e) = Some (snd e)"
      using waiting_distinct [OF inv1] that by (simp add: map_of_is_SomeI)
    ultimately show ?thesis using as(2) by auto
  qed
  have tx: "tx_bufs B = filter (\<lambda>e. cmd_buf_state (mem c) (snd e) = Tx) (tx_bufs (bufs c))"
    using B(3) by (cases cl) auto
  have wait: "mset (waiting_bufs B') = filter_mset (\<lambda>e. cmd_buf_state (mem c) (snd e) \<notin> {Tx, Free}) (mset (tx_bufs (bufs c) @ waiting_bufs (bufs c)))"
  proof -
    have "waiting_bufs B' = filter (\<lambda>e. cmd_buf_state (mem c) (snd e) \<noteq> Free) (waiting_bufs B)"
      unfolding B'(4) using w by (intro filter_cong) auto
    also have "\<dots> = filter (\<lambda>e. cmd_buf_state (mem c) (snd e) \<notin> {Tx, Free}) (waiting_bufs B)"
      using ws by (intro filter_cong) force+
    also have "mset \<dots> = filter_mset (\<lambda>e. cmd_buf_state (mem c) (snd e) \<notin> {Tx, Free}) (mset (tx_bufs (bufs c) @ waiting_bufs (bufs c)))"
      using B(3) by (cases cl) (auto simp: filter_False simp flip: mset_filter)
    finally show ?thesis .
  qed
  let ?c' = "?c1\<lparr>bufs := B', heap := fold drop_ref ds (heap c)\<rparr>"
  have "progress_transfers keys c = Ret ?c'"
    by (simp add: progress_transfers_def t check_free_data_def as(1) fl)
  moreover have "(if cl then clear_cmd else send_slot c) = (if tx_bufs B' = [] then clear_cmd else send_slot c)"
    using B(3) B'(3) chan_inv_parts(4) [OF inv] by (auto simp: slots_ok_def)
  ultimately show ?thesis using inv2 B B' tx wait by (intro exI [of _ ?c']) simp
qed


section \<open>Sending a buffer\<close>

lemma slot_clear_iff:
  assumes "slots_ok c" "no_collision c"
  shows "hash (send_slot c) = hash clear_cmd \<longleftrightarrow> tx_bufs (bufs c) = []"
  using assms by (auto simp: slots_ok_def no_collision_def)

lemma send_buffer_inv:
  assumes inv: "chan_inv A M c" and tx: "tx_bufs (bufs c) = []" and b: "mset (unsent (bufs c)) = add_mset b (mset (unsent B))"
    and B: "tx_bufs B = [(cb_addr b, b)]" "waiting_bufs B = waiting_bufs (bufs c)" "empty_bufs B = empty_bufs (bufs c)" "num_bufs B = num_bufs (bufs c)"
      "cur_buf B = None \<or> cur_buf B = cur_buf (bufs c)"
  shows "chan_inv A M (c\<lparr>bufs := B, send_slot := announce (mem c) b, recv_slot := announce (mem c) b\<rparr>)" (is "chan_inv A M ?c")
proof -
  note I = chan_inv_parts [OF inv]
  note R = recv_ok_parts [OF I(5)]
  note P = bufs_ok_parts [OF I(8)]
  have held: "mset (held B) = mset (held (bufs c))" using b by (simp add: mset_held B tx)
  then have sets: "set (held B) = set (held (bufs c))" by (rule mset_eq_setD)
  have bu: "b \<in> set (unsent (bufs c))" using b by (metis insertI1 set_mset_add_mset_insert set_mset_mset)
  have usub: "set (unsent B) \<subseteq> set (unsent (bufs c))" using b by (metis set_mset_add_mset_insert set_mset_mset subset_insertI)
  have st: "cmd_buf_state (mem c) b = Tx" using R(5) bu by blast
  have rc: "recv_slot c = clear_cmd" using I(4) tx by (simp add: slots_ok_def)
  have ann: "announced B = b # announced (bufs c)" by (simp add: announced_def B tx)
  have nb: "cb_addr b \<notin> cb_addr ` set (announced (bufs c))" using I(1) bu by (auto simp: held_def)
  have tok: "tokens ?c = cb_addr b # tokens c" by (simp add: tokens_def announce_def rc)
  have "bufs_ok A M (mem c) B"
  proof (rule bufs_okI)
    show "mset (map cb_addr (empty_bufs B @ held B)) = mset A" using P(1) held B by simp
    show "cb_index x < M" if "cur_buf B = Some x" for x using P(7) B(5) that by auto
    show "fst e = cb_addr (snd e)" if "e \<in> set (tx_bufs B) \<union> set (waiting_bufs B)" for e using that P(3) [of e] B by auto
  qed (use P(2,4,5,6) B sets in auto)
  moreover have "slots_ok ?c" by (simp add: slots_ok_def B announce_def buf_hash_def) blast
  moreover have "recv_ok ?c"
  proof (rule recv_okI, goal_cases)
    case 1
    have "cb_addr b \<notin> set (tokens c)" using nb R(2) by auto
    with R(1) show ?case unfolding tok by simp
  next
    case 2
    show ?case unfolding tok using R(2) st by (auto simp: ann)
  next
    case 3
    show ?case using st by (simp add: announce_def cmd_buf_state_def)
  next
    case (4 j)
    then have j: "job_ok c j" using R(4) by simp
    show ?case
    proof (cases j)
      case (Batch m todo f n)
      with j show ?thesis by (auto simp: ann)
    qed (use j tx in simp)
  next
    case (5 x)
    then show ?case using R(5) usub by auto
  next
    case (7 e)
    then show ?case using R(7) [of e] B by simp
  qed (use B st in auto)
  moreover have "heap_ok ?c"
  proof (rule heap_okI)
    show "ref_cnt (heap ?c) a = buf_refs (mem ?c) (bufs ?c) a + sum_list (map (task_refs a) (senders ?c))" for a
      using heap_ok_parts(1) [OF I(6), of a] buf_refs_mset [OF held, of "mem c" a] by (simp add: buf_refs_def)
  qed (use heap_ok_small [OF I(6)] heap_ok_parts(2,3) [OF I(6)] sets in auto)
  moreover have "mset (undelivered ?c) = mset (undelivered c)"
  proof -
    have "mset (concat (map (cores (mem c)) (unsent (bufs c)))) = mset (concat (map (cores (mem c)) (b # unsent B)))"
      using b by (metis mset.simps(2) mset_concat mset_map sum_mset_sum_list)
    then show ?thesis using st by (simp add: undelivered_def B tx)
  qed
  then have "log_ok ?c" using I(7) by (simp add: log_ok_def)
  ultimately show ?thesis using inv by (simp add: chan_inv_def)
qed


text \<open>A buffer that is waiting to be sent is sent when the slot is clear, and otherwise nothing happens.\<close>

lemma try_sending_cases:
  assumes inv: "chan_inv A M c" and nc: "no_collision c"
  obtains
    (blocked) "try_sending_buffer c = (c, False)" "tx_bufs (bufs c) \<noteq> [] \<or> (full_bufs (bufs c) = [] \<and> 0 < pending_cmds c)"
  | (nothing) "try_sending_buffer c = (c, True)" "tx_bufs (bufs c) = []" "unsent (bufs c) = []"
  | (sent) b B where "try_sending_buffer c = (c\<lparr>bufs := B, send_slot := announce (mem c) b, recv_slot := announce (mem c) b\<rparr>, True)"
      "tx_bufs (bufs c) = []" "mset (unsent (bufs c)) = add_mset b (mset (unsent B))" "length (unsent (bufs c)) = Suc (length (unsent B))"
      "tx_bufs B = [(cb_addr b, b)]" "waiting_bufs B = waiting_bufs (bufs c)" "empty_bufs B = empty_bufs (bufs c)" "num_bufs B = num_bufs (bufs c)"
      "cur_buf B = None \<or> cur_buf B = cur_buf (bufs c)"
proof (cases "(pending_cmds c = 0 \<or> full_bufs (bufs c) \<noteq> []) \<and> tx_bufs (bufs c) = []")
  case False
  then show thesis using blocked slot_clear_iff [OF chan_inv_parts(4) [OF inv] nc] by (auto simp: try_sending_buffer_def)
next
  case True
  note I = chan_inv_parts [OF inv]
  have clear: "send_slot c = clear_cmd" "recv_slot c = clear_cmd" using I(4) True by (simp_all add: slots_ok_def)
  have size: "0 < cmd_buf_size b" if "b \<in> set (unsent (bufs c))" for b
    using I(2) in_held(2) [OF that] by (simp add: cmd_buf_size_def cmd_msg_size_def)
  show thesis
  proof (cases "full_bufs (bufs c)")
    case (Cons b bs)
    let ?B = "(bufs c)\<lparr>full_bufs := bs, tx_bufs := [(cb_addr b, b)]\<rparr>"
    have "try_sending_buffer c = (c\<lparr>bufs := ?B, send_slot := announce (mem c) b, recv_slot := announce (mem c) b\<rparr>, True)"
      using True Cons size [of b] clear by (simp add: try_sending_buffer_def flush_buffer_def hm_insert_def hm_remove_def unsent_def announce_def)
    from sent [OF this] Cons True show thesis by (auto simp: unsent_def split: option.splits)
  next
    case Nil
    show thesis
    proof (cases "cur_buf (bufs c)")
      case None
      have "try_sending_buffer c = (c, True)"
        using None Nil True clear by (cases c) (simp add: try_sending_buffer_def flush_buffer_def)
      then show thesis by (rule nothing) (use None Nil True in \<open>simp_all add: unsent_def\<close>)
    next
      case (Some b)
      let ?B = "(bufs c)\<lparr>cur_buf := None, tx_bufs := [(cb_addr b, b)]\<rparr>"
      have "try_sending_buffer c = (c\<lparr>bufs := ?B, send_slot := announce (mem c) b, recv_slot := announce (mem c) b\<rparr>, True)"
        using True Nil Some size [of b] clear by (simp add: try_sending_buffer_def flush_buffer_def hm_insert_def hm_remove_def unsent_def announce_def)
      from sent [OF this] Nil Some True show thesis by (simp add: unsent_def)
    qed
  qed
qed

lemma try_sending_inv:
  assumes "chan_inv A M c" "no_collision c"
  shows "chan_inv A M (fst (try_sending_buffer c))"
proof (cases rule: try_sending_cases [OF assms])
  case (3 b B)
  with send_buffer_inv [OF assms(1), of b B] show ?thesis by simp
qed (use assms(1) in simp_all)


end
