(* ===== verification/Cmd_Tasks.thy ===== *)
theory Cmd_Tasks
  imports Cmd_Sender
begin

text \<open>
  The tasks that send: \<open>try_push\<close>, the two loops of \<open>send\<close> and \<open>send_data\<close> keep the invariant and do not panic.
\<close>

section \<open>Pushing a message\<close>

lemma buf_refs_split: "mset (held B) = add_mset b (mset bs) \<Longrightarrow> buf_refs mm B a = count_list (map fst (cores mm b)) a + sum_list (map (\<lambda>b. count_list (map fst (cores mm b)) a) bs)"
  using buf_refs_mset [of B "b # bs" mm a] by simp

lemma pushing_alt: "pushing ts = sum_list (map (\<lambda>t. case t of Pushing a len h \<Rightarrow> 1 | Flushing a w \<Rightarrow> 0) ts)"
  by (induction ts) (auto simp: pushing_def split: send_task.splits)

lemma pushing_update:
  "i < length ts \<Longrightarrow> pushing (ts[i := t]) + pushing [ts ! i] = pushing ts + pushing [t]"
  using sum_map_update [of i ts "\<lambda>t. case t of Pushing a len h \<Rightarrow> 1 | Flushing a w \<Rightarrow> 0" t] by (simp add: pushing_alt del: One_nat_def)

text \<open>The references from the buffers before a push; \<open>b\<close> was empty or not announced.\<close>

lemma old_refs:
  assumes "(mset (empty_bufs B) = add_mset b es \<and> mset (unsent B) = mset rest) \<or> (mset (empty_bufs B) = es \<and> mset (unsent B) = add_mset b (mset rest))"
    and "\<And>x. x \<in> set (empty_bufs B) \<Longrightarrow> cb_index x = 0 \<and> cb_allocated_cnt x = 0"
  shows "buf_refs mm B d = count_list (map fst (cores mm b)) d + sum_list (map (\<lambda>x. count_list (map fst (cores mm x)) d) (rest @ announced B))"
  using assms(1)
proof
  assume e: "mset (empty_bufs B) = add_mset b es \<and> mset (unsent B) = mset rest"
  then have "b \<in> set (empty_bufs B)" by (metis insertI1 set_mset_add_mset_insert set_mset_mset)
  then have "cores mm b = []" using assms(2) by (simp add: cores_def cmd_buf_iter_def)
  moreover have "mset (held B) = mset (rest @ announced B)" using e by (simp add: held_def)
  ultimately show ?thesis using buf_refs_mset [of B "rest @ announced B"] by simp
next
  assume "mset (empty_bufs B) = es \<and> mset (unsent B) = add_mset b (mset rest)"
  then have "mset (held B) = add_mset b (mset (rest @ announced B))" by (simp add: held_def)
  then show ?thesis by (rule buf_refs_split)
qed

lemma old_cores:
  assumes "(mset (empty_bufs B) = add_mset b es \<and> mset (unsent B) = mset rest) \<or> (mset (empty_bufs B) = es \<and> mset (unsent B) = add_mset b (mset rest))"
    and "\<And>x. x \<in> set (empty_bufs B) \<Longrightarrow> cb_index x = 0 \<and> cb_allocated_cnt x = 0"
  shows "mset (concat (map (cores mm) (unsent B))) = mset (cores mm b) + mset (concat (map (cores mm) rest))"
  using assms(1)
proof
  assume e: "mset (empty_bufs B) = add_mset b es \<and> mset (unsent B) = mset rest"
  then have "b \<in> set (empty_bufs B)" by (metis insertI1 set_mset_add_mset_insert set_mset_mset)
  then have "cores mm b = []" using assms(2) by (simp add: cores_def cmd_buf_iter_def)
  with e mset_concat_mset [of "unsent B" rest "cores mm"] show ?thesis by simp
next
  assume "mset (empty_bufs B) = es \<and> mset (unsent B) = add_mset b (mset rest)"
  with mset_concat_mset [of "unsent B" "b # rest" "cores mm"] show ?thesis by simp
qed

text \<open>
  The buffer \<open>b\<close> that takes the message becomes \<open>b'\<close>; \<open>rest\<close> are the other buffers in use.  A buffer that was
  empty before held no message.
\<close>

lemma push_inv:
  assumes inv: "chan_inv A M c" and i: "i < length (senders c)" "senders c ! i = Pushing a len h"
    and b: "cb_index b < M"
    and b': "b' = b\<lparr>cb_index := cb_index b + 1, cb_allocated_cnt := cb_allocated_cnt b + 1\<rparr>"
    and mm: "mm = (mem c)(cb_addr b := (mem c (cb_addr b))[cb_index b := mk_cmd a len Tx h])"
    and new_unsent: "mset (unsent B) = add_mset b' (mset rest)"
    and old: "(mset (empty_bufs (bufs c)) = add_mset b (mset (empty_bufs B)) \<and> mset (unsent (bufs c)) = mset rest) \<or>
      (mset (empty_bufs (bufs c)) = mset (empty_bufs B) \<and> mset (unsent (bufs c)) = add_mset b (mset rest))"
    and B: "tx_bufs B = tx_bufs (bufs c)" "waiting_bufs B = waiting_bufs (bufs c)" "num_bufs B = num_bufs (bufs c)"
      "\<And>x. cur_buf B = Some x \<Longrightarrow> cb_index x < M"
  shows "chan_inv A M (c\<lparr>mem := mm, bufs := B, senders := (senders c)[i := Flushing a False],
    pending_cmds := pending_cmds c - 1\<rparr>)" (is "chan_inv A M ?c")
proof -
  note I = chan_inv_parts [OF inv]
  note R = recv_ok_parts [OF I(5)]
  note P = bufs_ok_parts [OF I(8)]
  have ann: "announced B = announced (bufs c)" by (simp add: announced_def B)
  have addr': "cb_addr b' = cb_addr b" by (simp add: b')
  have all: "mset (empty_bufs (bufs c) @ held (bufs c)) = add_mset b (mset (empty_bufs B @ rest @ announced (bufs c)))"
    using old by (auto simp: held_def)
  have b_in: "b \<in> set (empty_bufs (bufs c)) \<or> b \<in> set (unsent (bufs c))"
    using old by (metis insertI1 set_mset_add_mset_insert set_mset_mset)
  have sub: "set (empty_bufs B) \<subseteq> set (empty_bufs (bufs c))" "set rest \<subseteq> set (unsent (bufs c))"
    using old by (metis set_mset_add_mset_insert set_mset_mset subset_insertI equalityE)+
  have b0: "cb_allocated_cnt b = cb_index b" using b_in P(5) [of b] P(6) [of b] in_held(2) by auto
  have "mset (map cb_addr (empty_bufs (bufs c) @ held (bufs c))) = mset (map cb_addr (b # empty_bufs B @ rest @ announced (bufs c)))"
    using arg_cong [OF all, of "image_mset cb_addr"] by (metis mset.simps(2) mset_map)
  from mset_eq_imp_distinct_iff [OF this] have "distinct (cb_addr b # map cb_addr (empty_bufs B @ rest @ announced (bufs c)))"
    using I(1) by (simp only: list.map)
  then have "cb_addr b \<notin> cb_addr ` (set (empty_bufs B) \<union> set rest \<union> set (announced (bufs c)))" by auto
  then have other: "cb_addr x \<noteq> cb_addr b" if "x \<in> set (empty_bufs B) \<union> set rest \<union> set (announced (bufs c))" for x
    using that by (metis imageI)
  have len: "length (mem c (cb_addr b)) = M" using P(4) [of b] b_in by (auto simp: held_def)
  have eq: "cores mm x = cores (mem c) x" "cmd_buf_state mm x = cmd_buf_state (mem c) x" "mm (cb_addr x) = mem c (cb_addr x)"
    if "x \<in> set (empty_bufs B) \<union> set rest \<union> set (announced (bufs c))" for x
    using other [OF that] by (simp_all add: mm)
  have new: "cores mm b' = cores (mem c) b @ [(a, len, h)]"
    using b len by (simp add: cores_def cmd_buf_iter_def mm b' take_Suc_conv_app_nth)
  have valid: "valid_core (heap c) (a, len, h)" using heap_ok_parts(3) [OF I(6), of "senders c ! i"] i by (metis nth_mem task_ok.simps(1))
  have held': "mset (held B) = add_mset b' (mset (rest @ announced (bufs c)))" using new_unsent by (simp add: held_def ann)
  have held_set: "x = b' \<or> x \<in> set rest \<or> x \<in> set (announced (bufs c))" if "x \<in> set (held B)" for x
    using that mset_eq_setD [of "held B" "b' # rest @ announced (bufs c)"] held' by auto
  have unsent_set: "x = b' \<or> x \<in> set rest" if "x \<in> set (unsent B)" for x
    using that mset_eq_setD [of "unsent B" "b' # rest"] new_unsent by auto
  have "bufs_ok A M mm B"
  proof (rule bufs_okI)
    have "mset (map cb_addr (empty_bufs B @ held B)) = image_mset cb_addr (add_mset b (mset (empty_bufs B @ rest @ announced (bufs c))))"
      using held' by (simp add: addr')
    also have "\<dots> = mset A" using P(1) all by (metis mset_map)
    finally show "mset (map cb_addr (empty_bufs B @ held B)) = mset A" .
    fix x assume x: "x \<in> set (held B)"
    from held_set [OF x] show "0 < cb_index x \<and> cb_index x \<le> M \<and> cb_allocated_cnt x = cb_index x"
      using P(6) [of x] b b0 sub(2) in_held by (auto simp: b')
  next
    fix x assume "x \<in> set (empty_bufs B) \<union> set (held B)"
    then consider "x = b'" | "x \<in> set (empty_bufs B) \<union> set rest \<union> set (announced (bufs c))" using held_set by blast
    then show "cb_max_size x = M \<and> length (mm (cb_addr x)) = M"
    proof cases
      case 1
      then show ?thesis using P(4) [of b] b_in len in_held(2) by (auto simp: b' mm)
    next
      case 2
      moreover from this have "x \<in> set (empty_bufs (bufs c)) \<union> set (held (bufs c))" using sub in_held by blast
      ultimately show ?thesis using P(4) eq(3) by simp
    qed
  qed (use P(2,3,5) B sub in auto)
  moreover have tokm: "mm d = mem c d" if "d \<in> set (tokens c)" for d
    using that R(2) eq(3) by auto
  moreover have "slots_ok ?c"
  proof (cases "tx_bufs (bufs c) = []")
    case False
    then obtain x g where x: "tx_bufs (bufs c) = [(cb_addr x, x)]" and g: "send_slot c = mk_cmd (cb_addr x) (cmd_buf_size x) Tx g"
      "cmd_buf_state (mem c) x = Tx \<longrightarrow> g = buf_hash (mem c) x" "recv_slot c \<in> {clear_cmd, send_slot c}"
      using I(4) by (auto simp: slots_ok_def)
    have "x \<in> set (announced (bufs c))" by (simp add: announced_def x)
    then have "cmd_buf_state mm x = cmd_buf_state (mem c) x" "buf_hash mm x = buf_hash (mem c) x"
      using eq by (simp_all add: buf_hash_def cmd_buf_iter_def)
    with x g show ?thesis by (auto simp: slots_ok_def B)
  qed (use I(4) in \<open>simp add: slots_ok_def B\<close>)
  moreover have "recv_ok ?c"
  proof (rule recv_okI, goal_cases)
    case 1
    have "tokens ?c = tokens c" by (simp add: tokens_def)
    then show ?case using R(1) by simp
  next
    case 2
    have "tokens ?c = tokens c" by (simp add: tokens_def)
    then have "set (tokens ?c) = {cb_addr x | x. x \<in> set (announced (bufs c)) \<and> cmd_buf_state (mem c) x \<noteq> Free}" using R(2) by simp
    then show ?case using eq(2) by (auto simp: ann)
  next
    case 3
    then show ?case using R(3) tokm [of "daddr (recv_slot c)"] by (simp add: tokens_def)
  next
    case (4 j)
    then have "job_ok c j" "job_addr j \<in> set (tokens c)" using R(4) by (auto simp: tokens_def)
    then show ?case using tokm [of "job_addr j"] eq(1) by (cases j) (auto simp: B ann)
  next
    case (5 x)
    then consider "x = b'" | "x \<in> set rest" using unsent_set by auto
    then show ?case
    proof cases
      case 1
      have "cmd_buf_state (mem c) b = Tx" if "cb_index b \<noteq> 0" using that b_in P(5) [of b] R(5) [of b] by auto
      with 1 b len show ?thesis by (cases "cb_index b = 0") (simp_all add: cmd_buf_state_def mm b')
    next
      case 2
      then show ?thesis using R(5) [of x] eq(2) [of x] sub(2) by auto
    qed
  next
    case (6 e)
    then show ?case using R(6) [of e] eq(2) [of "snd e"] in_announced(1) [of e "bufs c"] by (simp add: B)
  next
    case (7 e)
    then show ?case using R(7) [of e] eq(2) [of "snd e"] in_announced(2) [of e "bufs c"] by (simp add: B)
  qed
  moreover have "heap_ok ?c"
  proof (rule heap_okI)
    fix d
    have "buf_refs mm B d = buf_refs (mem c) (bufs c) d + (if d = a then 1 else 0)"
    proof -
      have "sum_list (map (\<lambda>x. count_list (map fst (cores mm x)) d) (rest @ announced (bufs c)))
          = sum_list (map (\<lambda>x. count_list (map fst (cores (mem c) x)) d) (rest @ announced (bufs c)))"
        by (intro arg_cong [where f = sum_list] map_cong refl) (use eq(1) in auto)
      moreover have "buf_refs (mem c) (bufs c) d = count_list (map fst (cores (mem c) b)) d
          + sum_list (map (\<lambda>x. count_list (map fst (cores (mem c) x)) d) (rest @ announced (bufs c)))"
        by (rule old_refs [OF old P(5)])
      ultimately show ?thesis by (simp add: buf_refs_split [OF held'] new)
    qed
    moreover have "sum_list (map (task_refs d) (senders c)) = sum_list (map (task_refs d) (senders ?c)) + (if d = a then 1 else 0)"
      using sum_map_update [OF i(1), of "task_refs d" "Flushing a False"] i(2) by (simp split: if_splits)
    ultimately show "ref_cnt (heap ?c) d = buf_refs (mem ?c) (bufs ?c) d + sum_list (map (task_refs d) (senders ?c))"
      using heap_ok_parts(1) [OF I(6), of d] by simp
  next
    fix x y assume "x \<in> set (held (bufs ?c))" and y: "y \<in> set (cores (mem ?c) x)"
    then consider "x = b'" | "x \<in> set rest \<union> set (announced (bufs c))" using held_set by auto
    then show "valid_core (heap ?c) y"
    proof cases
      case 1
      then consider "y = (a, len, h)" | "y \<in> set (cores (mem c) b)" using y new by auto
      then show ?thesis
      proof cases
        case 2
        then have "b \<in> set (held (bufs c))" using b_in P(5) in_held(2) by (fastforce simp: cores_def cmd_buf_iter_def)
        then show ?thesis using heap_ok_parts(2) [OF I(6) _ 2] by simp
      qed (use valid in simp)
    next
      case 2
      then have "x \<in> set (held (bufs c))" "cores mm x = cores (mem c) x" using sub(2) in_held eq(1) by auto
      then show ?thesis using heap_ok_parts(2) [OF I(6)] y by simp
    qed
  next
    fix t assume "t \<in> set (senders ?c)"
    then have "t \<in> insert (Flushing a False) (set (senders c))" using set_update_subset_insert [of "senders c" i] by auto
    then show "task_ok (heap ?c) t" using heap_ok_parts(3) [OF I(6)] by auto
  qed (use heap_ok_small [OF I(6)] in simp)
  moreover have "log_ok ?c"
  proof -
    have "mset (undelivered ?c) = add_mset (a, len, h) (mset (undelivered c))"
    proof -
      have "mset (concat (map (cores mm) (unsent B))) = add_mset (a, len, h) (mset (concat (map (cores (mem c)) (unsent (bufs c)))))"
      proof -
        have "mset (concat (map (cores (mem c)) (unsent (bufs c)))) = mset (cores (mem c) b) + mset (concat (map (cores (mem c)) rest))"
          by (rule old_cores [OF old P(5)])
        moreover have "concat (map (cores mm) rest) = concat (map (cores (mem c)) rest)"
          by (rule arg_cong [where f = concat], rule map_cong) (use eq(1) in auto)
        ultimately show ?thesis using mset_concat_mset [of "unsent B" "b' # rest" "cores mm"] new_unsent new by simp
      qed
      moreover have "map (cores mm) (filter (\<lambda>x. cmd_buf_state mm x = Tx) (map snd (tx_bufs (bufs c))))
          = map (cores (mem c)) (filter (\<lambda>x. cmd_buf_state (mem c) x = Tx) (map snd (tx_bufs (bufs c))))"
      proof -
        have "x \<in> set (announced (bufs c))" if "x \<in> set (map snd (tx_bufs (bufs c)))" for x using that by (auto simp: announced_def)
        then show ?thesis using eq by (intro map_cong filter_cong) auto
      qed
      ultimately show ?thesis by (simp add: undelivered_def B)
    qed
    moreover have "mset (concat (map task_todo (senders c))) = add_mset (a, len, h) (mset (concat (map task_todo (senders ?c))))"
      using mset_concat_update [OF i(1), of task_todo "Flushing a False"] i(2) by simp
    ultimately show ?thesis using I(7) by (simp add: log_ok_def)
  qed
  moreover have "pending_cmds ?c = pushing (senders ?c) + other_cmds ?c"
    using inv pushing_update [OF i(1), of "Flushing a False"] i(2) by (simp add: chan_inv_def pushing_def [of "[_]"])
  ultimately show ?thesis using inv by (simp add: chan_inv_def)
qed


lemma try_push_eq:
  assumes "cur_buf B = Some b \<or> cur_buf B = None \<and> empty_bufs B = b # bs" "cmd_buf_push m b a len h = Ret (mm, b')"
  shows "try_push m B a len h = Ret (mm, let es = (case cur_buf B of None \<Rightarrow> tl (empty_bufs B) | Some b \<Rightarrow> empty_bufs B) in
    if cmd_buf_full b' then B\<lparr>empty_bufs := es, full_bufs := b' # full_bufs B, cur_buf := None\<rparr> else B\<lparr>empty_bufs := es, cur_buf := Some b'\<rparr>, True)"
  using assms by (cases B) (auto simp: try_push_def)

text \<open>A message is pushed unless all buffers are full or announced.\<close>

lemma try_push_cases:
  assumes inv: "chan_inv A M c" and i: "i < length (senders c)" "senders c ! i = Pushing a len h"
  obtains
    (blocked) "try_push (mem c) (bufs c) a len h = Ret (mem c, bufs c, False)" "cur_buf (bufs c) = None" "empty_bufs (bufs c) = []"
  | (pushed) mm B b b' rest where "try_push (mem c) (bufs c) a len h = Ret (mm, B, True)"
      "cb_index b < M" "b' = b\<lparr>cb_index := cb_index b + 1, cb_allocated_cnt := cb_allocated_cnt b + 1\<rparr>"
      "mm = (mem c)(cb_addr b := (mem c (cb_addr b))[cb_index b := mk_cmd a len Tx h])"
      "mset (unsent B) = add_mset b' (mset rest)"
      "(mset (empty_bufs (bufs c)) = add_mset b (mset (empty_bufs B)) \<and> mset (unsent (bufs c)) = mset rest) \<or>
       (mset (empty_bufs (bufs c)) = mset (empty_bufs B) \<and> mset (unsent (bufs c)) = add_mset b (mset rest))"
      "tx_bufs B = tx_bufs (bufs c)" "waiting_bufs B = waiting_bufs (bufs c)" "num_bufs B = num_bufs (bufs c)"
      "\<And>x. cur_buf B = Some x \<Longrightarrow> cb_index x < M"
proof -
  note I = chan_inv_parts [OF inv]
  note P = bufs_ok_parts [OF I(8)]
  have "valid_core (heap c) (a, len, h)" using heap_ok_parts(3) [OF I(6), of "senders c ! i"] i by (metis nth_mem task_ok.simps(1))
  then have al: "a \<noteq> 0" "0 < len" by (auto split: option.splits)
  define es where "es = (case cur_buf (bufs c) of None \<Rightarrow> tl (empty_bufs (bufs c)) | Some b \<Rightarrow> empty_bufs (bufs c))"
  show thesis
  proof (cases "cur_buf (bufs c) = None \<and> empty_bufs (bufs c) = []")
    case True
    then show thesis using blocked by (simp add: try_push_def)
  next
    case False
    then obtain b where b: "cur_buf (bufs c) = Some b \<or> cur_buf (bufs c) = None \<and> empty_bufs (bufs c) = b # es"
      unfolding es_def by (cases "cur_buf (bufs c)"; cases "empty_bufs (bufs c)") auto
    define b' where "b' = b\<lparr>cb_index := cb_index b + 1, cb_allocated_cnt := cb_allocated_cnt b + 1\<rparr>"
    define mm where "mm = (mem c)(cb_addr b := (mem c (cb_addr b))[cb_index b := mk_cmd a len Tx h])"
    define B where "B = (if cmd_buf_full b' then (bufs c)\<lparr>empty_bufs := es, full_bufs := b' # full_bufs (bufs c), cur_buf := None\<rparr>
      else (bufs c)\<lparr>empty_bufs := es, cur_buf := Some b'\<rparr>)"
    have bM: "cb_index b < M" "cb_max_size b = M" "length (mem c (cb_addr b)) = M"
      using b P(4) [of b] P(5) [of b] P(7) [of b] I(3) by (auto simp: held_def unsent_def)
    then have "cmd_buf_push (mem c) b a len h = Ret (mm, b')" using al by (simp add: cmd_buf_push_def mm_def b'_def)
    then have "try_push (mem c) (bufs c) a len h = Ret (mm, B, True)"
      using try_push_eq [of "bufs c" b] b unfolding B_def es_def Let_def by blast
    then show thesis
    proof (rule pushed [OF _ bM(1) b'_def mm_def])
      show "mset (unsent B) = add_mset b' (mset (full_bufs (bufs c)))" by (simp add: unsent_def B_def)
      show "(mset (empty_bufs (bufs c)) = add_mset b (mset (empty_bufs B)) \<and> mset (unsent (bufs c)) = mset (full_bufs (bufs c))) \<or>
         (mset (empty_bufs (bufs c)) = mset (empty_bufs B) \<and> mset (unsent (bufs c)) = add_mset b (mset (full_bufs (bufs c))))"
      proof (cases "cur_buf (bufs c)")
        case None
        with b have "empty_bufs (bufs c) = b # es" by simp
        then show ?thesis by (simp add: unsent_def B_def None)
      qed (use b in \<open>simp add: unsent_def B_def es_def\<close>)
      fix x assume "cur_buf B = Some x"
      then show "cb_index x < M" using bM by (auto simp: B_def cmd_buf_full_def b'_def split: if_splits)
    qed (simp_all add: B_def)
  qed
qed

lemma recv_ok_cong:
  assumes "bufs c' = bufs c" "send_slot c' = send_slot c" "recv_slot c' = recv_slot c" "mem c' = mem c" "jobs c' = jobs c" "recv_ok c"
  shows "recv_ok c'"
proof -
  have job: "job_ok c' = job_ok c" using assms by (intro ext, case_tac x) simp_all
  have tok: "tokens c' = tokens c" using assms by (simp only: tokens_def)
  show ?thesis using assms(6) unfolding recv_ok_def job tok assms(1-5) .
qed

lemma send_data_inv:
  assumes inv: "chan_inv A M c" and new: "heap c a = None" "a \<noteq> 0" "bytes \<noteq> []"
  shows "chan_inv A M (send_data a bytes c)" (is "chan_inv A M ?c")
proof -
  note I = chan_inv_parts [OF inv]
  note H = heap_ok_parts [OF I(6)]
  have r0: "buf_refs (mem c) (bufs c) a = 0" "sum_list (map (task_refs a) (senders c)) = 0" using H(1) [of a] new by (simp_all add: ref_cnt_def)
  have fr: "fst x \<noteq> a" if "b \<in> set (held (bufs c))" "x \<in> set (cores (mem c) b)" for b x
    using buf_refs_pos [OF that] r0 by auto
  have keep: "valid_core ((heap c)(a \<mapsto> y)) x = valid_core (heap c) x" "payload ((heap c)(a \<mapsto> y)) x = payload (heap c) x" if "fst x \<noteq> a" for x y
    using that by (cases x; simp add: payload_def)+
  have "heap_ok ?c"
  proof (rule heap_okI)
    show "refs_small (heap ?c)" using heap_ok_small [OF I(6)] by (auto simp: refs_small_def send_data_def)
    show "ref_cnt (heap ?c) d = buf_refs (mem ?c) (bufs ?c) d + sum_list (map (task_refs d) (senders ?c))" for d
      using H(1) [of d] r0 by (simp add: send_data_def ref_cnt_def)
    show "valid_core (heap ?c) x" if "b \<in> set (held (bufs ?c))" "x \<in> set (cores (mem ?c) b)" for b x
      using that H(2) [of b x] fr [of b x] keep(1) [of x] by (simp add: send_data_def)
    fix t assume "t \<in> set (senders ?c)"
    then consider "t = Pushing a (length bytes) (calc_hash bytes)" | "t \<in> set (senders c)" by (auto simp: send_data_def)
    then show "task_ok (heap ?c) t"
    proof cases
      case 1
      with new show ?thesis by (simp add: send_data_def)
    next
      case 2
      show ?thesis
      proof (cases t)
        case (Pushing d len h)
        have "task_refs a t = 0" using r0(2) 2 by simp
        with Pushing H(3) [OF 2] keep(1) [of "(d, len, h)"] show ?thesis by (simp add: send_data_def del: valid_core.simps split: if_splits)
      qed simp
    qed
  qed
  moreover have "slots_ok ?c" by (rule slots_ok_cong [OF _ _ _ _ I(4)]) (simp_all add: send_data_def)
  moreover have "recv_ok ?c" by (rule recv_ok_cong [OF _ _ _ _ _ I(5)]) (simp_all add: send_data_def)
  moreover have "log_ok ?c"
  proof -
    let ?xs = "undelivered c @ concat (map task_todo (senders c))"
    have "fst x \<noteq> a" if x: "x \<in> set ?xs" for x
    proof (cases "x \<in> set (undelivered c)")
      case True
      then obtain b where "b \<in> set (held (bufs c))" "x \<in> set (cores (mem c) b)" using undelivered_held [OF I(5)] by blast
      then show ?thesis by (rule fr)
    next
      case False
      with x obtain t where t: "t \<in> set (senders c)" "x \<in> set (task_todo t)" by auto
      have "task_refs a t = 0" using r0(2) t(1) by simp
      then show ?thesis by (cases t rule: send_task.exhaust) (use t(2) in \<open>auto split: if_splits\<close>)
    qed
    then have "map (payload (heap ?c)) ?xs = map (payload (heap c)) ?xs" using keep(2) by (intro map_cong refl) (simp add: send_data_def)
    moreover have "undelivered ?c @ concat (map task_todo (senders ?c)) = ?xs @ [(a, length bytes, calc_hash bytes)]"
      by (simp add: undelivered_def send_data_def)
    moreover have "payload (heap ?c) (a, length bytes, calc_hash bytes) = (a, bytes)" "sent ?c = sent c @ [(a, bytes)]" "delivered ?c = delivered c"
      by (simp_all add: payload_def send_data_def)
    ultimately show ?thesis using I(7) unfolding log_ok_def by (simp only: map_append mset_append list.map mset.simps add_mset_commute) simp
  qed
  ultimately show ?thesis using inv by (simp add: chan_inv_def) (simp add: send_data_def pushing_def)
qed


section \<open>Steps of the sender\<close>

lemma no_collision_transfers:
  "no_collision c \<Longrightarrow> tx_bufs (bufs c') = filter p (tx_bufs (bufs c)) \<Longrightarrow> send_slot c' = (if tx_bufs (bufs c') = [] then clear_cmd else send_slot c) \<Longrightarrow> no_collision c'"
  by (auto simp: no_collision_def)

lemma pushing_remove: "i < length ts \<Longrightarrow> pushing ts = pushing (take i ts @ drop (i + 1) ts) + pushing [ts ! i]"
  by (subst (1) id_take_nth_drop [of i ts]) (simp_all add: pushing_def)

lemma send_waiting_frame [simp]: "chan_inv A M (c\<lparr>send_waiting := w\<rparr>) = chan_inv A M c" "no_collision (c\<lparr>send_waiting := w\<rparr>) = no_collision c"
proof -
  have "job_ok (c\<lparr>send_waiting := w\<rparr>) = job_ok c" by (intro ext, case_tac x) simp_all
  then show "chan_inv A M (c\<lparr>send_waiting := w\<rparr>) = chan_inv A M c"
    by (simp add: chan_inv_def slots_ok_def recv_ok_def heap_ok_def log_ok_def undelivered_def tokens_def)
qed (simp add: no_collision_def)

lemma task_todo_remove:
  "i < length ts \<Longrightarrow> ts ! i = Flushing a w \<Longrightarrow> concat (map task_todo (take i ts)) @ concat (map task_todo (drop (Suc i) ts)) = concat (map task_todo ts)"
  by (subst (3) id_take_nth_drop [of i ts]) simp_all

lemma send_done_inv:
  assumes inv: "chan_inv A M c" and i: "i < length (senders c)" "senders c ! i = Flushing a w"
  shows "chan_inv A M (send_done i a c)" (is "chan_inv A M ?c")
proof -
  note I = chan_inv_parts [OF inv]
  note H = heap_ok_parts [OF I(6)]
  have recv: "recv_ok ?c" by (rule recv_ok_cong [OF _ _ _ _ _ I(5)]) (simp_all add: send_done_def)
  have "set (senders ?c) \<subseteq> set (senders c)" by (auto simp: send_done_def dest: in_set_takeD in_set_dropD)
  moreover have "ref_cnt (heap ?c) d = buf_refs (mem ?c) (bufs ?c) d + sum_list (map (task_refs d) (senders ?c))" for d
    using drop_ref_small(2) [OF heap_ok_small [OF I(6)], of a d] H(1) [of d] sum_list_remove_nth [OF i(1), of "task_refs d"] i(2)
    by (simp add: send_done_def)
  ultimately have heap: "heap_ok ?c"
    using heap_ok_small [OF I(6)] H(2,3) by (intro heap_ok_dropped [of c ?c "[a]"]) (auto simp: send_done_def)
  have "log_ok ?c"
    by (rule log_ok_dropped [OF I(7) _ _ _ _ _ recv heap, where ds = "[a]"])
      (simp_all add: send_done_def undelivered_def task_todo_remove [OF i])
  moreover have "slots_ok ?c" by (rule slots_ok_cong [OF _ _ _ _ I(4)]) (simp_all add: send_done_def)
  moreover have "pending_cmds ?c = pushing (senders ?c) + other_cmds ?c"
    using inv pushing_remove [OF i(1)] i(2) by (simp add: chan_inv_def send_done_def pushing_def [of "[_]"])
  ultimately show ?thesis using inv recv heap by (simp add: chan_inv_def) (simp add: send_done_def)
qed

lemma flushing_true_inv:
  assumes inv: "chan_inv A M c" and i: "i < length (senders c)" "senders c ! i = Flushing a w"
  shows "chan_inv A M (c\<lparr>send_waiting := True, senders := (senders c)[i := Flushing a True]\<rparr>)" (is "chan_inv A M ?c")
proof -
  note I = chan_inv_parts [OF inv]
  note H = heap_ok_parts [OF I(6)]
  have upd: "map f ((senders c)[i := Flushing a True]) = map f (senders c)" if "f (Flushing a True) = f (Flushing a w)" for f :: "send_task \<Rightarrow> 'x"
    using that i by (metis list_update_id map_update)
  have "recv_ok ?c" by (rule recv_ok_cong [OF _ _ _ _ _ I(5)]) simp_all
  moreover have "heap_ok ?c"
  proof (rule heap_okI)
    fix t assume "t \<in> set (senders ?c)"
    then have "t \<in> insert (Flushing a True) (set (senders c))" using set_update_subset_insert [of "senders c" i] by auto
    then show "task_ok (heap ?c) t" using H(3) by auto
  qed (use heap_ok_small [OF I(6)] H(1,2) in \<open>simp_all add: upd del: map_update\<close>)
  moreover have "log_ok ?c" using I(7) by (simp add: log_ok_def undelivered_def upd del: map_update)
  moreover have "slots_ok ?c" by (rule slots_ok_cong [OF _ _ _ _ I(4)]) simp_all
  ultimately show ?thesis using inv by (simp add: chan_inv_def pushing_alt upd del: map_update)
qed

lemma send_loop1_inv:
  assumes inv: "chan_inv A M c" "no_collision c" and i: "i < length (senders c)"
    and keys: "set (map fst (tx_bufs (bufs c) @ waiting_bufs (bufs c))) \<subseteq> set keys"
  obtains c' where "send_loop1 keys i c = Ret c'" "chan_inv A M c'"
proof (cases "senders c ! i")
  case (Flushing a w)
  then show thesis using that inv by (simp add: send_loop1_def)
next
  case (Pushing a len h)
  show thesis
  proof (cases rule: try_push_cases [OF inv(1) i Pushing])
    case 1
    obtain c1 where c1: "progress_transfers keys c = Ret c1" "chan_inv A M c1" "no_collision c1"
      using progress_transfers_inv [OF inv(1) keys] no_collision_transfers [OF inv(2)] by blast
    have "send_loop1 keys i c = Ret (fst (try_sending_buffer c1))"
      using 1 c1 by (simp add: send_loop1_def Pushing)
    then show thesis by (rule that) (rule try_sending_inv [OF c1(2,3)])
  next
    case (2 mm B b b' rest)
    from push_inv [OF inv(1) i Pushing 2(2-)] 2(1) show thesis
      by (intro that) (simp_all add: send_loop1_def Pushing)
  qed
qed


lemma send_loop2_eq:
  assumes "senders c ! i = Flushing a w" "\<not> bufs_empty (bufs c)" "progress_transfers keys c = Ret c1" "try_sending_buffer c1 = (c2, f)"
  shows "send_loop2 keys spurious i c = Ret (if f then send_done i a (c2\<lparr>send_waiting := False\<rparr>) else if w then c2
    else if \<not> send_waiting c2 \<and> \<not> spurious then c2\<lparr>send_waiting := True, senders := (senders c2)[i := Flushing a True]\<rparr> else send_done i a c2)"
  using assms by (simp add: send_loop2_def)

lemma send_loop2_inv:
  assumes inv: "chan_inv A M c" "no_collision c" and i: "i < length (senders c)"
    and keys: "set (map fst (tx_bufs (bufs c) @ waiting_bufs (bufs c))) \<subseteq> set keys"
  obtains c' where "send_loop2 keys spurious i c = Ret c'" "chan_inv A M c'"
proof (cases "senders c ! i")
  case (Pushing a len h)
  then show thesis using that inv by (simp add: send_loop2_def)
next
  case (Flushing a w)
  have fin: "chan_inv A M (send_done i a x)" if "chan_inv A M x" "senders x = senders c" for x
    using send_done_inv [OF that(1)] i Flushing that(2) by metis
  show thesis
  proof (cases "bufs_empty (bufs c)")
    case True
    with fin [of "c\<lparr>send_waiting := False\<rparr>"] inv Flushing show thesis by (intro that) (simp_all add: send_loop2_def)
  next
    case False
    obtain c1 where c1: "progress_transfers keys c = Ret c1" "chan_inv A M c1" "no_collision c1" "senders c1 = senders c"
      using progress_transfers_inv [OF inv(1) keys] no_collision_transfers [OF inv(2)] by blast
    obtain c2 f where c2: "try_sending_buffer c1 = (c2, f)" by (cases "try_sending_buffer c1")
    have "chan_inv A M c2" using try_sending_inv [OF c1(2,3)] c2 by simp
    moreover have s2: "senders c2 = senders c" using c2 c1(4) by (auto simp: try_sending_buffer_def split: if_splits prod.splits)
    ultimately show thesis
      using that [OF send_loop2_eq [OF Flushing False c1(1) c2]] fin [of c2] fin [of "c2\<lparr>send_waiting := False\<rparr>"] flushing_true_inv [of A M c2 i a w] i Flushing
      by simp
  qed
qed

end
