(* ===== verification/Cmd_Runs.thy ===== *)
theory Cmd_Runs
  imports Cmd_Tasks
begin

text \<open>
  The interleavings of the tasks of both PEs: the states they reach, that every step that does something decreases a measure, and that
  a state in which nothing can be done has delivered everything.  There is a task for every buffer that is not announced, because
  there are two buffers.
\<close>

section \<open>Reachable states\<close>

text \<open>
  The states that are reached from a new queue when messages are handed to \<open>send_data\<close>, each at an address of its own, and the
  tasks of both PEs and those of the sender for other destinations are interleaved.
\<close>

inductive chan_reach :: "bool \<Rightarrow> nat list \<Rightarrow> nat \<Rightarrow> chan \<Rightarrow> bool" for weak A M where
  start: "(\<And>a. a \<in> set A \<Longrightarrow> length (m a) = M) \<Longrightarrow> chan_reach weak A M (chan_new m A M)"
| send: "chan_reach weak A M c \<Longrightarrow> heap c a = None \<Longrightarrow> a \<noteq> 0 \<Longrightarrow> bytes \<noteq> [] \<Longrightarrow> chan_reach weak A M (send_data a bytes c)"
| step: "chan_reach weak A M c \<Longrightarrow> no_collision c \<Longrightarrow> chan_step weak c c' \<Longrightarrow> chan_reach weak A M c'"

lemma chan_new_inv:
  assumes "distinct A" "0 \<notin> set A" "0 < M" "\<And>a. a \<in> set A \<Longrightarrow> length (m a) = M"
  shows "chan_inv A M (chan_new m A M)"
  using assms
  by (auto simp: chan_inv_def chan_new_def cmd_msg_buffer_new_def bufs_ok_def slots_ok_def recv_ok_def heap_ok_def log_ok_def
      held_def unsent_def announced_def tokens_def undelivered_def pushing_def ref_cnt_def buf_refs_def o_def multiset.map_comp)

lemma task_step_inv:
  assumes "chan_inv A M c" "no_collision c" "task_step weak c c'"
  shows "chan_inv A M c'"
  using assms(3)
proof cases
  case (loop1 i keys)
  then show ?thesis using send_loop1_inv [OF assms(1,2)] by (metis exec.inject(1))
next
  case (loop2 i keys)
  then show ?thesis using send_loop2_inv [OF assms(1,2)] by (metis exec.inject(1))
next
  case (transfers keys)
  then show ?thesis using progress_transfers_inv [OF assms(1)] by (metis exec.inject(1))
qed (use recv_ready_inv recv_fetch_inv recv_get_inv recv_finish_inv assms(1) in blast)+

lemma chan_step_inv:
  assumes "chan_inv A M c" "no_collision c" "chan_step weak c c'"
  shows "chan_inv A M c'"
  using assms task_step_inv chan_inv_other unfolding chan_step_def by blast

lemma chan_reach_inv:
  assumes "chan_reach weak A M c" "distinct A" "0 \<notin> set A" "0 < M"
  shows "chan_inv A M c"
  using assms by (induction rule: chan_reach.induct) (auto intro: chan_new_inv send_data_inv chan_step_inv)

section \<open>Every message is sent\<close>

definition flushing :: "send_task list \<Rightarrow> nat" where
  "flushing ts = length (filter (\<lambda>t. case t of Pushing a len h \<Rightarrow> False | Flushing a w \<Rightarrow> True) ts)"

text \<open>There is a task for every buffer that is not announced, and one that is waiting when the flag says so.\<close>

definition flush_inv :: "chan \<Rightarrow> bool" where
  "flush_inv c \<longleftrightarrow> length (unsent (bufs c)) \<le> flushing (senders c) \<and> (send_waiting c \<longrightarrow> (\<exists>a. Flushing a True \<in> set (senders c)))"

fun task_weight :: "send_task \<Rightarrow> nat" where
  "task_weight (Pushing a len h) = 20"
| "task_weight (Flushing a w) = (if w then 1 else 2)"

fun job_weight :: "recv_job \<Rightarrow> nat" where
  "job_weight (Fetch m) = 3 + 2 * (dsize m div cmd_msg_size)"
| "job_weight (Batch m todo f n) = 1 + 2 * length todo + f"

definition chan_meas :: "chan \<Rightarrow> nat" where
  "chan_meas c = sum_list (map task_weight (senders c)) + sum_list (map (\<lambda>b. 10 + 2 * cb_index b) (unsent (bufs c)))
     + (if recv_slot c = clear_cmd then 0 else 4 + 2 * (dsize (recv_slot c) div cmd_msg_size)) + sum_list (map job_weight (jobs c))
     + 2 * length (tx_bufs (bufs c)) + length (waiting_bufs (bufs c))"

subsection \<open>Transfers\<close>

definition idle :: "chan \<Rightarrow> bool" where
  "idle c \<longleftrightarrow> (\<forall>e \<in> set (tx_bufs (bufs c)). cmd_buf_state (mem c) (snd e) = Tx) \<and> (\<forall>e \<in> set (waiting_bufs (bufs c)). cmd_buf_state (mem c) (snd e) \<noteq> Free)"

lemma freed_bufs_none:
  "(\<And>a b. map_of w a = Some b \<Longrightarrow> cmd_buf_state mm b = Release) \<Longrightarrow> freed_bufs mm w keys = Ret []"
  by (induction keys) (auto split: option.splits)

lemma tx_cases:
  assumes "slots_ok c"
  obtains "tx_bufs (bufs c) = []" | b where "tx_bufs (bufs c) = [(cb_addr b, b)]" "daddr (send_slot c) = cb_addr b"
  using assms by (auto simp: slots_ok_def split: if_splits)

lemma progress_idle:
  assumes inv: "chan_inv A M c" and idle: "idle c"
  shows "progress_transfers keys c = Ret c"
proof -
  note I = chan_inv_parts [OF inv]
  have "check_transfer (mem c) (bufs c) (daddr (send_slot c)) = Ret (bufs c, False)"
    using idle by (cases rule: tx_cases [OF I(4)]) (auto simp: check_transfer_def idle_def hm_remove_def hm_insert_def)
  moreover have "freed_bufs (mem c) (waiting_bufs (bufs c)) keys = Ret []"
    using recv_ok_parts(7) [OF I(5)] idle by (intro freed_bufs_none) (fastforce simp: idle_def dest: map_of_SomeD)
  ultimately show ?thesis by (simp add: progress_transfers_def check_free_data_def)
qed

lemma progress_dec:
  assumes inv: "chan_inv A M c" and idle: "\<not> idle c"
    and tx: "tx_bufs (bufs c') = filter (\<lambda>e. cmd_buf_state (mem c) (snd e) = Tx) (tx_bufs (bufs c))"
    and wait: "mset (waiting_bufs (bufs c')) = filter_mset (\<lambda>e. cmd_buf_state (mem c) (snd e) \<notin> {Tx, Free}) (mset (tx_bufs (bufs c) @ waiting_bufs (bufs c)))"
  shows "2 * length (tx_bufs (bufs c')) + length (waiting_bufs (bufs c')) < 2 * length (tx_bufs (bufs c)) + length (waiting_bufs (bufs c))"
proof -
  note I = chan_inv_parts [OF inv]
  let ?p = "\<lambda>e. cmd_buf_state (mem c) (snd e) \<notin> {Tx, Free}"
  have w: "length (waiting_bufs (bufs c')) = length (filter ?p (tx_bufs (bufs c))) + length (filter ?p (waiting_bufs (bufs c)))"
    using arg_cong [OF wait, of size] by (simp flip: mset_filter)
  have le: "length (filter ?p (waiting_bufs (bufs c))) \<le> length (waiting_bufs (bufs c))" by simp
  consider "\<exists>e \<in> set (tx_bufs (bufs c)). cmd_buf_state (mem c) (snd e) \<noteq> Tx"
    | "\<exists>e \<in> set (waiting_bufs (bufs c)). cmd_buf_state (mem c) (snd e) = Free" using idle by (auto simp: idle_def)
  then show ?thesis
  proof cases
    case 1
    with le show ?thesis by (cases rule: tx_cases [OF I(4)]) (auto simp: w tx less_Suc_eq_le intro: le_SucI)
  next
    case 2
    then obtain e where "e \<in> set (waiting_bufs (bufs c))" "\<not> ?p e" by blast
    then have "length (filter ?p (waiting_bufs (bufs c))) < length (waiting_bufs (bufs c))" by (rule length_filter_less)
    then show ?thesis by (cases rule: tx_cases [OF I(4)]) (simp_all add: w tx)
  qed
qed

text \<open>What a task does before it waits: it gives back buffers, which lets the tasks alone, unless there is nothing to give back.\<close>

lemma transfers_cases:
  assumes inv: "chan_inv A M c" and keys: "set (map fst (tx_bufs (bufs c) @ waiting_bufs (bufs c))) \<subseteq> set keys"
  obtains c' where "progress_transfers keys c = Ret c'" "chan_inv A M c'" "c' = c \<or> chan_meas c' < chan_meas c"
    "no_collision c \<Longrightarrow> no_collision c'" "senders c' = senders c" "unsent (bufs c') = unsent (bufs c)" "send_waiting c' = send_waiting c"
    "pending_cmds c' = pending_cmds c"
proof -
  obtain c' where c': "progress_transfers keys c = Ret c'" "chan_inv A M c'"
    "full_bufs (bufs c') = full_bufs (bufs c)" "cur_buf (bufs c') = cur_buf (bufs c)"
    "senders c' = senders c" "pending_cmds c' = pending_cmds c" "send_waiting c' = send_waiting c" "recv_slot c' = recv_slot c" "jobs c' = jobs c"
    "tx_bufs (bufs c') = filter (\<lambda>e. cmd_buf_state (mem c) (snd e) = Tx) (tx_bufs (bufs c))"
    "mset (waiting_bufs (bufs c')) = filter_mset (\<lambda>e. cmd_buf_state (mem c) (snd e) \<notin> {Tx, Free}) (mset (tx_bufs (bufs c) @ waiting_bufs (bufs c)))"
    "send_slot c' = (if tx_bufs (bufs c') = [] then clear_cmd else send_slot c)"
    using progress_transfers_inv [OF inv keys] by blast
  have "c' = c \<or> chan_meas c' < chan_meas c"
  proof (cases "idle c")
    case True
    then show ?thesis using progress_idle [OF inv True, of keys] c'(1) by simp
  next
    case False
    from progress_dec [OF inv False c'(10,11)] c' show ?thesis by (simp add: chan_meas_def unsent_def)
  qed
  with c' no_collision_transfers [of c c'] show thesis by (intro that [of c']) (simp_all add: unsent_def)
qed

subsection \<open>Tasks of the sender\<close>

lemma sent_dec:
  assumes inv: "chan_inv A M c"
    and s: "tx_bufs (bufs c) = []" "mset (unsent (bufs c)) = add_mset b (mset (unsent B))" "tx_bufs B = [(cb_addr b, b)]" "waiting_bufs B = waiting_bufs (bufs c)"
  shows "chan_meas (c\<lparr>bufs := B, send_slot := announce (mem c) b, recv_slot := announce (mem c) b\<rparr>) < chan_meas c"
proof -
  have "recv_slot c = clear_cmd" using chan_inv_parts(4) [OF inv] s by (simp add: slots_ok_def)
  moreover have "sum_list (map (\<lambda>b. 10 + 2 * cb_index b) (unsent (bufs c))) = sum_list (map (\<lambda>b. 10 + 2 * cb_index b) (b # unsent B))"
    by (rule sum_list_mset_eq) (simp add: s)
  ultimately show ?thesis by (simp add: chan_meas_def s announce_def cmd_buf_size_def cmd_msg_size_def)
qed

lemma sending_cases:
  assumes inv: "chan_inv A M c" and nc: "no_collision c"
  obtains c' f where "try_sending_buffer c = (c', f)" "chan_inv A M c'" "senders c' = senders c" "send_waiting c' = send_waiting c"
    "c' = c \<and> (\<not> f \<and> (tx_bufs (bufs c) \<noteq> [] \<or> full_bufs (bufs c) = [] \<and> 0 < pending_cmds c) \<or> f \<and> unsent (bufs c) = [])
     \<or> f \<and> chan_meas c' < chan_meas c \<and> length (unsent (bufs c)) = Suc (length (unsent (bufs c')))"
proof (cases rule: try_sending_cases [OF inv nc])
  case 1
  with that inv show thesis by blast
next
  case 2
  with that inv show thesis by blast
next
  case (3 b B)
  show thesis
  proof (rule that [OF 3(1)])
    show "chan_inv A M (c\<lparr>bufs := B, send_slot := announce (mem c) b, recv_slot := announce (mem c) b\<rparr>)"
      by (rule send_buffer_inv [OF inv 3(2,3,5-9)])
  qed (use sent_dec [OF inv 3(2,3,5,6)] 3(4) in simp_all)
qed


lemma flushing_alt: "flushing ts = sum_list (map (\<lambda>t. case t of Pushing a len h \<Rightarrow> 0 | Flushing a w \<Rightarrow> 1) ts)"
  by (induction ts) (auto simp: flushing_def split: send_task.splits)

lemma flushing_update: "i < length ts \<Longrightarrow> flushing (ts[i := t]) + flushing [ts ! i] = flushing ts + flushing [t]"
  using sum_map_update [of i ts "\<lambda>t. case t of Pushing a len h \<Rightarrow> 0 | Flushing a w \<Rightarrow> 1" t] by (simp add: flushing_alt del: One_nat_def)

lemma flushing_remove: "i < length ts \<Longrightarrow> flushing ts = flushing (take i ts @ drop (i + 1) ts) + flushing [ts ! i]"
  using sum_list_remove_nth [of i ts "\<lambda>t. case t of Pushing a len h \<Rightarrow> 0 | Flushing a w \<Rightarrow> 1"] by (simp add: flushing_alt del: One_nat_def)

lemma flushing_pos: "Flushing a w \<in> set ts \<Longrightarrow> 0 < flushing ts"
  unfolding flushing_def by (simp add: filter_empty_conv) (force split: send_task.split)

lemma send_done_dec:
  assumes "i < length (senders c)"
  shows "chan_meas (send_done i a c) + task_weight (senders c ! i) = chan_meas c"
  using sum_list_remove_nth [OF assms, of task_weight] by (simp add: chan_meas_def send_done_def)

lemma send_loop1_live:
  assumes inv: "chan_inv A M c" "no_collision c" and i: "i < length (senders c)"
    and keys: "set (map fst (tx_bufs (bufs c) @ waiting_bufs (bufs c))) \<subseteq> set keys"
    and step: "send_loop1 keys i c = Ret c'"
  shows "(flush_inv c \<longrightarrow> flush_inv c') \<and> (c' = c \<or> chan_meas c' < chan_meas c)"
proof (cases "senders c ! i")
  case (Flushing a w)
  then show ?thesis using step inv by (simp add: send_loop1_def)
next
  case (Pushing a len h)
  show ?thesis
  proof (cases rule: try_push_cases [OF inv(1) i Pushing])
    case 1
    obtain c1 where c1: "progress_transfers keys c = Ret c1" "chan_inv A M c1" "c1 = c \<or> chan_meas c1 < chan_meas c"
      "no_collision c1" "senders c1 = senders c" "unsent (bufs c1) = unsent (bufs c)" "send_waiting c1 = send_waiting c"
      using transfers_cases [OF inv(1) keys] inv(2) by metis
    have c': "c' = fst (try_sending_buffer c1)" using 1 c1 step by (simp add: send_loop1_def Pushing)
    show ?thesis by (cases rule: sending_cases [OF c1(2,4)]) (use c1 c' in \<open>auto simp: flush_inv_def\<close>)
  next
    case (2 mm B b b' rest)
    have c': "c' = c\<lparr>mem := mm, bufs := B, senders := (senders c)[i := Flushing a False], pending_cmds := pending_cmds c - 1\<rparr>"
      using 2(1) step by (simp add: send_loop1_def Pushing)
    have f: "flushing (senders c') = Suc (flushing (senders c))"
      using flushing_update [OF i, of "Flushing a False"] Pushing by (simp add: c' flushing_def [of "[_]"])
    have w: "sum_list (map task_weight (senders c)) = sum_list (map task_weight (senders c')) + 18"
      using sum_map_update [OF i, of task_weight "Flushing a False"] Pushing by (simp add: c')
    let ?w = "\<lambda>b. 10 + 2 * cb_index b"
    have u: "length (unsent B) = Suc (length rest)" "sum_list (map ?w (unsent B)) = ?w b' + sum_list (map ?w rest)"
      using mset_eq_length [of "unsent B" "b' # rest"] sum_list_mset_eq [of "unsent B" "b' # rest" ?w] 2(5) by simp_all
    have b0: "cb_index b = 0" if "mset (empty_bufs (bufs c)) = add_mset b (mset (empty_bufs B))"
      using bufs_ok_parts(5) [OF chan_inv_parts(8) [OF inv(1)], of b] that by (metis insertI1 set_mset_add_mset_insert set_mset_mset)
    have "length (unsent B) \<le> Suc (length (unsent (bufs c))) \<and> sum_list (map ?w (unsent B)) \<le> sum_list (map ?w (unsent (bufs c))) + 12"
      using 2(6)
    proof
      assume e: "mset (empty_bufs (bufs c)) = add_mset b (mset (empty_bufs B)) \<and> mset (unsent (bufs c)) = mset rest"
      then show ?thesis using u b0 sum_list_mset_eq [of "unsent (bufs c)" rest ?w] mset_eq_length [of "unsent (bufs c)" rest] by (simp add: 2(3))
    next
      assume e: "mset (empty_bufs (bufs c)) = mset (empty_bufs B) \<and> mset (unsent (bufs c)) = add_mset b (mset rest)"
      then show ?thesis using u sum_list_mset_eq [of "unsent (bufs c)" "b # rest" ?w] mset_eq_length [of "unsent (bufs c)" "b # rest"] by (simp add: 2(3))
    qed
    moreover have "Flushing d True \<in> set (senders c')" if "Flushing d True \<in> set (senders c)" for d
      using in_set_update_other [OF that, of i] Pushing by (simp add: c')
    ultimately show ?thesis using f w by (auto simp: flush_inv_def chan_meas_def c' 2(7,8))
  qed
qed

lemma bufs_count:
  assumes "bufs_ok A M mm B"
  shows "length (empty_bufs B) + length (unsent B) + length (tx_bufs B) + length (waiting_bufs B) = length A"
  using arg_cong [OF bufs_ok_parts(1) [OF assms], of size] by (simp add: held_def announced_def)

lemma send_done_flush:
  assumes "i < length (senders c)" "senders c ! i = Flushing a w" "length (unsent (bufs c)) < flushing (senders c)"
    "send_waiting c \<Longrightarrow> \<exists>d. Flushing d True \<in> set (senders c) \<and> \<not> w"
  shows "flush_inv (send_done i a c)"
proof -
  have "flushing (senders c) = Suc (flushing (senders (send_done i a c)))"
    using flushing_remove [OF assms(1)] assms(2) by (simp add: send_done_def flushing_def [of "[_]"])
  moreover have "Flushing d True \<in> set (senders (send_done i a c))" if "Flushing d True \<in> set (senders c)" "\<not> w" for d
    using in_set_remove_other [OF assms(1) that(1)] that(2) assms(2) by (simp add: send_done_def)
  ultimately show ?thesis using assms(3,4) by (auto simp: flush_inv_def) (auto simp: send_done_def)
qed

lemma send_loop2_dec:
  assumes inv: "chan_inv A M c" "no_collision c" and i: "i < length (senders c)"
    and keys: "set (map fst (tx_bufs (bufs c) @ waiting_bufs (bufs c))) \<subseteq> set keys"
    and step: "send_loop2 keys spurious i c = Ret c'"
  shows "c' = c \<or> chan_meas c' < chan_meas c"
proof (cases "senders c ! i")
  case (Flushing a w)
  have tw: "0 < task_weight (Flushing a w)" by simp
  have dec: "chan_meas (send_done i a (d\<lparr>send_waiting := x\<rparr>)) < chan_meas d" if d: "senders d = senders c" for d x
  proof -
    have "chan_meas (d\<lparr>send_waiting := x\<rparr>) = chan_meas d" by (simp add: chan_meas_def)
    then show ?thesis using send_done_dec [of i "d\<lparr>send_waiting := x\<rparr>" a] d i Flushing tw by simp
  qed
  show ?thesis
  proof (cases "bufs_empty (bufs c)")
    case True
    then show ?thesis using step Flushing dec [OF refl, of False] by (simp add: send_loop2_def)
  next
    case False
    obtain c1 where c1: "progress_transfers keys c = Ret c1" "chan_inv A M c1" "c1 = c \<or> chan_meas c1 < chan_meas c" "no_collision c1" "senders c1 = senders c"
      using transfers_cases [OF inv(1) keys] inv(2) by metis
    obtain c2 f where c2: "try_sending_buffer c1 = (c2, f)" "senders c2 = senders c1" "c2 = c1 \<or> chan_meas c2 < chan_meas c1"
      using sending_cases [OF c1(2,4)] by metis
    note eq = send_loop2_eq [OF Flushing False c1(1) c2(1), of spurious]
    have s: "senders c2 = senders c" using c1(5) c2(2) by simp
    have "Suc (chan_meas (c2\<lparr>send_waiting := True, senders := (senders c2)[i := Flushing a True]\<rparr>)) = chan_meas c2" if "\<not> w"
      using sum_map_update [of i "senders c2" task_weight "Flushing a True"] i s Flushing that by (simp add: chan_meas_def)
    moreover have "chan_meas (send_done i a c2) < chan_meas c2" using send_done_dec [of i c2 a] i s Flushing tw by simp
    ultimately show ?thesis using eq step dec [OF s, of False] c1(3) c2(3) by (auto split: if_splits)
  qed
qed (use step in \<open>simp add: send_loop2_def\<close>)

text \<open>Without a spurious failure there is still a task for every buffer that is not announced.\<close>

lemma send_loop2_flush:
  assumes inv: "chan_inv A M c" "no_collision c" "flush_inv c" and two: "length A \<le> 2" and i: "i < length (senders c)"
    and keys: "set (map fst (tx_bufs (bufs c) @ waiting_bufs (bufs c))) \<subseteq> set keys"
    and step: "send_loop2 keys False i c = Ret c'"
  shows "flush_inv c'"
proof (cases "senders c ! i")
  case (Pushing a len h)
  then show ?thesis using step inv by (simp add: send_loop2_def)
next
  case (Flushing a w)
  have fp: "0 < flushing (senders c)" using flushing_pos [of a w "senders c"] Flushing i by (metis nth_mem)
  show ?thesis
  proof (cases "bufs_empty (bufs c)")
    case True
    have c': "c' = send_done i a (c\<lparr>send_waiting := False\<rparr>)" using True step Flushing by (simp add: send_loop2_def)
    have "unsent (bufs c) = []"
      using True bufs_count [OF chan_inv_parts(8) [OF inv(1)]] bufs_ok_parts(2) [OF chan_inv_parts(8) [OF inv(1)]] by (simp add: bufs_empty_def)
    then show ?thesis unfolding c' by (intro send_done_flush) (use i Flushing fp in simp_all)
  next
    case False
    obtain c1 where c1: "progress_transfers keys c = Ret c1" "chan_inv A M c1" "c1 = c \<or> chan_meas c1 < chan_meas c"
      "no_collision c1" "senders c1 = senders c" "unsent (bufs c1) = unsent (bufs c)" "send_waiting c1 = send_waiting c"
      using transfers_cases [OF inv(1) keys] inv(2) by metis
    have f1: "flush_inv c1" using inv(3) c1 by (simp add: flush_inv_def)
    obtain c2 f where c2: "try_sending_buffer c1 = (c2, f)" "senders c2 = senders c1" "send_waiting c2 = send_waiting c1"
      "c2 = c1 \<and> (\<not> f \<and> (tx_bufs (bufs c1) \<noteq> [] \<or> full_bufs (bufs c1) = [] \<and> 0 < pending_cmds c1) \<or> f \<and> unsent (bufs c1) = [])
        \<or> f \<and> chan_meas c2 < chan_meas c1 \<and> length (unsent (bufs c1)) = Suc (length (unsent (bufs c2)))"
      using sending_cases [OF c1(2,4)] by metis
    note eq = send_loop2_eq [OF Flushing False c1(1) c2(1), of False]
    note i2 = i [folded c1(5), folded c2(2)]
    have F2: "senders c2 ! i = Flushing a w" using Flushing c1(5) c2(2) by simp
    show ?thesis
    proof (cases f)
      case True
      let ?c = "c2\<lparr>send_waiting := False\<rparr>"
      have c': "c' = send_done i a ?c" using eq step True by simp
      have "length (unsent (bufs c2)) < flushing (senders c2)" using c2 True f1 fp c1(5) by (auto simp: flush_inv_def)
      then show ?thesis unfolding c' by (intro send_done_flush) (use i2 F2 in simp_all)
    next
      case nf: False
      with c2(4) have 21: "c2 = c1" and bl: "tx_bufs (bufs c1) \<noteq> [] \<or> full_bufs (bufs c1) = []" by auto
      have one: "length (unsent (bufs c1)) \<le> 1"
        using bl bufs_count [OF chan_inv_parts(8) [OF c1(2)]] two by (cases "tx_bufs (bufs c1)") (auto simp: unsent_def split: option.splits)
      consider "w" | "\<not> w" "\<not> send_waiting c1" | "\<not> w" "send_waiting c1" by blast
      then show ?thesis
      proof cases
        case 1
        then show ?thesis using eq step nf 21 f1 by auto
      next
        case 2
        let ?c = "c1\<lparr>send_waiting := True, senders := (senders c1)[i := Flushing a True]\<rparr>"
        have c': "c' = ?c" using eq step nf 21 2 by simp
        have "flushing (senders ?c) = flushing (senders c1)"
          using flushing_update [of i "senders c1" "Flushing a True"] i2 F2 21 by (simp add: flushing_def [of "[_]"])
        moreover have "Flushing a True \<in> set ((senders c1)[i := Flushing a True])" using i2 21 by (simp add: set_update_memI)
        ultimately show ?thesis using f1 unfolding c' by (auto simp: flush_inv_def)
      next
        case 3
        have c': "c' = send_done i a c1" using eq step nf 21 3 by simp
        obtain d where d: "Flushing d True \<in> set (senders c1)" using f1 3 by (auto simp: flush_inv_def)
        have "Suc 0 < flushing (senders c1)"
        proof -
          have "Flushing d True \<in> set (take i (senders c1) @ drop (i + 1) (senders c1))"
            using in_set_remove_other [OF _ d, of i] i2 F2 21 3(1) by simp
          from flushing_pos [OF this] show ?thesis using flushing_remove [of i "senders c1"] i2 F2 21 by (simp add: flushing_def [of "[_]"])
        qed
        then show ?thesis unfolding c' by (intro send_done_flush [where w = w]) (use i2 F2 21 one d 3 in auto)
      qed
    qed
  qed
qed


subsection \<open>Tasks of the receiver\<close>

lemma recv_live:
  assumes "bufs c' = bufs c" "senders c' = senders c" "send_waiting c' = send_waiting c"
    "(if recv_slot c' = clear_cmd then 0 else 4 + 2 * (dsize (recv_slot c') div cmd_msg_size)) + sum_list (map job_weight (jobs c'))
       < (if recv_slot c = clear_cmd then 0 else 4 + 2 * (dsize (recv_slot c) div cmd_msg_size)) + sum_list (map job_weight (jobs c))"
  shows "(flush_inv c \<longrightarrow> flush_inv c') \<and> (c' = c \<or> chan_meas c' < chan_meas c)"
  using assms by (simp add: flush_inv_def chan_meas_def)

lemma recv_ready_live:
  assumes inv: "chan_inv A M c" and step: "recv_ready c = Ret c'"
  shows "(flush_inv c \<longrightarrow> flush_inv c') \<and> (c' = c \<or> chan_meas c' < chan_meas c)"
proof (cases "recv_slot c = clear_cmd")
  case True
  then show ?thesis using recv_ready_eq [OF inv] step by simp
next
  case False
  then have c': "c' = c\<lparr>recv_slot := clear_cmd, jobs := jobs c @ [Fetch (recv_slot c)]\<rparr>" using recv_ready_eq [OF inv] step by simp
  show ?thesis by (rule recv_live) (use False in \<open>simp_all add: c'\<close>)
qed

lemma recv_fetch_live:
  assumes inv: "chan_inv A M c" and j: "j < length (jobs c)" and step: "recv_fetch j c = Ret c'"
  shows "(flush_inv c \<longrightarrow> flush_inv c') \<and> (c' = c \<or> chan_meas c' < chan_meas c)"
proof (cases "jobs c ! j")
  case (Batch m todo f n)
  then show ?thesis using step inv by (simp add: recv_fetch_def)
next
  case (Fetch m)
  obtain b where b: "m = send_slot c" "tx_bufs (bufs c) = [(cb_addr b, b)]"
    and c': "c' = c\<lparr>mem := put_cmd (cb_addr b) Release (mem c), jobs := (jobs c)[j := Batch m (cmd_buf_iter (mem c) b) 0 (cb_index b)]\<rparr>"
    using recv_fetch_eq [OF inv j Fetch] step by (metis exec.inject(1))
  have "dsize m = cmd_buf_size b" using chan_inv_parts(4) [OF inv] b by (auto simp: slots_ok_def)
  moreover have "length (cmd_buf_iter (mem c) b) \<le> cb_index b" by (simp add: cmd_buf_iter_def)
  ultimately have "job_weight (Batch m (cmd_buf_iter (mem c) b) 0 (cb_index b)) < job_weight (jobs c ! j)"
    by (simp add: Fetch cmd_buf_size_def cmd_msg_size_def)
  then show ?thesis using sum_map_update [OF j, of job_weight "Batch m (cmd_buf_iter (mem c) b) 0 (cb_index b)"]
    by (intro recv_live) (simp_all add: c' del: job_weight.simps)
qed

lemma recv_get_live:
  assumes inv: "chan_inv A M c" and j: "j < length (jobs c)" and step: "recv_get j k c = Ret c'"
  shows "(flush_inv c \<longrightarrow> flush_inv c') \<and> (c' = c \<or> chan_meas c' < chan_meas c)"
proof (cases "\<exists>m todo f n. jobs c ! j = Batch m todo f n \<and> k < length todo")
  case False
  with step inv show ?thesis by (cases "jobs c ! j") (auto simp: recv_get_def)
next
  case True
  then obtain m todo f n where J: "jobs c ! j = Batch m todo f n" and k: "k < length todo" by blast
  obtain bytes where c': "c' = c\<lparr>delivered := delivered c @ [(daddr (todo ! k), bytes)], jobs := (jobs c)[j := Batch m (take k todo @ drop (k + 1) todo) (f + 1) n]\<rparr>"
    using recv_get_eq [OF inv j J k] step by auto
  show ?thesis using sum_map_update [OF j, of job_weight "Batch m (take k todo @ drop (k + 1) todo) (f + 1) n"] k J
    by (intro recv_live) (simp_all add: c')
qed

lemma recv_finish_live:
  assumes j: "j < length (jobs c)"
  shows "(flush_inv c \<longrightarrow> flush_inv (recv_finish j c)) \<and> (recv_finish j c = c \<or> chan_meas (recv_finish j c) < chan_meas c)"
proof (cases "\<exists>m todo f n. jobs c ! j = Batch m todo f n \<and> 0 < f")
  case False
  then show ?thesis by (cases "jobs c ! j") (auto simp: recv_finish_def)
next
  case True
  then obtain m todo f n where J: "jobs c ! j = Batch m todo f n" "0 < f" by blast
  show ?thesis
    using sum_map_update [OF j, of job_weight "Batch m todo (f - 1) (n - 1)"] sum_list_remove_nth [OF j, of job_weight] J
    by (intro recv_live) (simp_all add: recv_finish_def)
qed

subsection \<open>Runs\<close>

text \<open>With spurious failures a buffer may be left without a task.\<close>

definition live_inv :: "bool \<Rightarrow> nat list \<Rightarrow> nat \<Rightarrow> chan \<Rightarrow> bool" where
  "live_inv weak A M c \<longleftrightarrow> chan_inv A M c \<and> (weak \<or> flush_inv c) \<and> length A = CMD_BUFS_PER_PE"

text \<open>
  A step of a task that does something, after any steps of the tasks for other destinations, from a state in which the command in the slot is not
  mistaken for a cleared one.
\<close>

definition productive :: "bool \<Rightarrow> chan \<Rightarrow> chan \<Rightarrow> bool" where
  "productive weak c c' \<longleftrightarrow> no_collision c \<and> (\<exists>n. task_step weak (other_sends n c) c' \<and> c' \<noteq> other_sends n c)"

definition drained :: "chan \<Rightarrow> bool" where
  "drained c \<longleftrightarrow> senders c = [] \<and> jobs c = [] \<and> recv_slot c = clear_cmd \<and> bufs_empty (bufs c) \<and> heap c = Map.empty
     \<and> mset (delivered c) = mset (sent c)"

text \<open>All tasks are gone, and a message that was not delivered is in a buffer that was not announced.\<close>

definition settled :: "chan \<Rightarrow> bool" where
  "settled c \<longleftrightarrow> senders c = [] \<and> jobs c = [] \<and> recv_slot c = clear_cmd \<and> tx_bufs (bufs c) = [] \<and> waiting_bufs (bufs c) = []
     \<and> mset (sent c) = mset (delivered c) + mset (map (payload (heap c)) (concat (map (cores (mem c)) (unsent (bufs c)))))"

lemma other_sends_live: "live_inv weak A M c \<Longrightarrow> live_inv weak A M (other_sends n c)" "chan_meas (other_sends n c) = chan_meas c"
    "no_collision (other_sends n c) = no_collision c"
  by (auto simp: live_inv_def chan_inv_other flush_inv_def chan_meas_def no_collision_def)

lemma task_step_live:
  assumes "live_inv weak A M c" "no_collision c" "task_step weak c c'"
  shows "live_inv weak A M c'" "c' = c \<or> chan_meas c' < chan_meas c"
proof -
  have inv: "chan_inv A M c" "no_collision c" "length A \<le> 2"
    using assms by (simp_all add: live_inv_def CMD_BUFS_PER_PE_def)
  have "(\<not> weak \<longrightarrow> flush_inv c \<longrightarrow> flush_inv c') \<and> (c' = c \<or> chan_meas c' < chan_meas c)"
    using assms(3)
  proof cases
    case (loop1 i keys)
    then show ?thesis using send_loop1_live [OF inv(1,2)] by blast
  next
    case (loop2 i keys spurious)
    then show ?thesis using send_loop2_dec [OF inv(1,2)] send_loop2_flush [OF inv(1,2) _ inv(3)] by (metis (full_types))
  next
    case (transfers keys)
    show ?thesis by (rule transfers_cases [OF inv(1) transfers(2)]) (use transfers(1) in \<open>auto simp: flush_inv_def\<close>)
  qed (use recv_ready_live recv_fetch_live recv_get_live recv_finish_live inv(1) in blast)+
  then show "live_inv weak A M c'" "c' = c \<or> chan_meas c' < chan_meas c"
    using assms(1) task_step_inv [OF inv(1,2) assms(3)] by (auto simp: live_inv_def)
qed

lemma productive_live:
  assumes "live_inv weak A M c" "productive weak c c'"
  shows "live_inv weak A M c'" "chan_meas c' < chan_meas c"
proof -
  obtain n where n: "task_step weak (other_sends n c) c'" "c' \<noteq> other_sends n c" "no_collision (other_sends n c)"
    using assms(2) by (auto simp: productive_def other_sends_live(3))
  from task_step_live [OF other_sends_live(1) [OF assms(1)] n(3,1)] n(2)
  show "live_inv weak A M c'" "chan_meas c' < chan_meas c" by (auto simp: other_sends_live(2))
qed

text \<open>A state from which no step does anything: the receiver has no work, no buffer is announced, no task is left.\<close>

lemma stuck_receiver:
  assumes inv: "chan_inv A M c" and stuck: "\<And>c'. task_step weak c c' \<Longrightarrow> c' = c"
  shows "recv_slot c = clear_cmd" "jobs c = []"
proof -
  show slot: "recv_slot c = clear_cmd"
  proof (rule ccontr)
    assume "recv_slot c \<noteq> clear_cmd"
    moreover from this have "c\<lparr>recv_slot := clear_cmd, jobs := jobs c @ [Fetch (recv_slot c)]\<rparr> = c"
      using recv_ready_eq [OF inv] by (intro stuck task_step.ready) simp
    then have "jobs c @ [Fetch (recv_slot c)] = jobs c" by (metis chan.select_convs(10) chan.surjective chan.update_convs(10))
    ultimately show False by simp
  qed
  show "jobs c = []"
  proof (rule ccontr)
    assume "jobs c \<noteq> []"
    then have j: "0 < length (jobs c)" by simp
    show False
    proof (cases "jobs c ! 0")
      case (Fetch m)
      obtain b where f: "recv_fetch 0 c = Ret (c\<lparr>mem := put_cmd (cb_addr b) Release (mem c), jobs := (jobs c)[0 := Batch m (cmd_buf_iter (mem c) b) 0 (cb_index b)]\<rparr>)"
        using recv_fetch_eq [OF inv j Fetch] by metis
      from arg_cong [OF stuck [OF task_step.fetch [OF j f]], of "\<lambda>c. jobs c ! 0"] j Fetch show False by simp
    next
      case (Batch m todo f n)
      show False
      proof (cases "todo = []")
        case False
        then obtain bytes where g: "recv_get 0 0 c = Ret (c\<lparr>delivered := delivered c @ [(daddr (todo ! 0), bytes)],
            jobs := (jobs c)[0 := Batch m (take 0 todo @ drop (0 + 1) todo) (f + 1) n]\<rparr>)"
          using recv_get_eq [OF inv j Batch, of 0] by auto
        from arg_cong [OF stuck [OF task_step.get [OF j g]], of "\<lambda>c. length (delivered c)"] show False by simp
      next
        case True
        have "job_ok c (Batch m todo f n)" using recv_ok_parts(4) [OF chan_inv_parts(5) [OF inv]] j Batch by (metis nth_mem)
        then have f: "0 < f" "n = f" using True by simp_all
        from arg_cong [OF stuck [OF task_step.finish [OF j refl]], of "\<lambda>c. sum_list (map job_weight (jobs c))"] show False
          using sum_map_update [OF j, of job_weight "Batch m todo (f - 1) (n - 1)"] sum_list_remove_nth [OF j, of job_weight] Batch f
          by (simp add: recv_finish_def split: if_splits)
      qed
    qed
  qed
qed

abbreviation all_keys :: "chan \<Rightarrow> nat list" where
  "all_keys c \<equiv> map fst (tx_bufs (bufs c) @ waiting_bufs (bufs c))"

lemma stuck_transfers:
  assumes inv: "chan_inv A M c" and stuck: "\<And>c'. task_step weak c c' \<Longrightarrow> c' = c"
  shows "tx_bufs (bufs c) = []" "waiting_bufs (bufs c) = []"
proof -
  note R = recv_ok_parts [OF chan_inv_parts(5) [OF inv]]
  have "tokens c = []" using stuck_receiver [OF inv stuck] by (simp add: tokens_def)
  then have free: "cmd_buf_state (mem c) b = Free" if "b \<in> set (announced (bufs c))" for b using R(2) that by auto
  obtain c' where c': "progress_transfers (all_keys c) c = Ret c'"
    "tx_bufs (bufs c') = filter (\<lambda>e. cmd_buf_state (mem c) (snd e) = Tx) (tx_bufs (bufs c))"
    "mset (waiting_bufs (bufs c')) = filter_mset (\<lambda>e. cmd_buf_state (mem c) (snd e) \<notin> {Tx, Free}) (mset (tx_bufs (bufs c) @ waiting_bufs (bufs c)))"
    using progress_transfers_inv [OF inv subset_refl] by blast
  have "c' = c" by (rule stuck [OF task_step.transfers [OF c'(1) subset_refl]])
  moreover have "tx_bufs (bufs c') = []" using c'(2) free in_announced(1) by (auto simp: filter_empty_conv)
  moreover have "mset (waiting_bufs (bufs c')) = {#}"
    using free in_announced unfolding c'(3) by (simp flip: mset_append mset_filter add: filter_empty_conv)
  ultimately show "tx_bufs (bufs c) = []" "waiting_bufs (bufs c) = []" by simp_all
qed

lemma stuck_senders:
  assumes inv: "chan_inv A M c" "no_collision c" and A: "A \<noteq> []" and others: "other_cmds c = 0" and stuck: "\<And>c'. task_step weak c c' \<Longrightarrow> c' = c"
  shows "senders c = []"
proof -
  note tx = stuck_transfers [OF inv(1) stuck]
  have pt: "progress_transfers keys c = Ret c" for keys by (rule progress_idle [OF inv(1)]) (simp add: idle_def tx)
  have no_push: "senders c ! i \<noteq> Pushing a len h" if i: "i < length (senders c)" for i a len h
  proof
    assume P: "senders c ! i = Pushing a len h"
    show False
    proof (cases rule: try_push_cases [OF inv(1) i P])
      case 1
      have "full_bufs (bufs c) \<noteq> []"
        using bufs_count [OF chan_inv_parts(8) [OF inv(1)]] A 1(2,3) tx by (auto simp: unsent_def)
      then have "fst (try_sending_buffer c) \<noteq> c"
        by (cases rule: sending_cases [OF inv]) (use tx in \<open>auto simp: unsent_def\<close>)
      moreover have "send_loop1 (all_keys c) i c = Ret (fst (try_sending_buffer c))" using 1(1) pt P by (simp add: send_loop1_def)
      ultimately show False using stuck [OF task_step.loop1 [OF i _ subset_refl]] by blast
    next
      case (2 mm B b b' rest)
      have "send_loop1 (all_keys c) i c = Ret (c\<lparr>mem := mm, bufs := B, senders := (senders c)[i := Flushing a False], pending_cmds := pending_cmds c - 1\<rparr>)"
        using 2(1) P by (simp add: send_loop1_def)
      from arg_cong [OF stuck [OF task_step.loop1 [OF i this subset_refl]], of "\<lambda>c. senders c ! i"] i P show False by simp
    qed
  qed
  then have "pushing (senders c) = 0"
    unfolding pushing_def by (simp add: filter_empty_conv) (metis (no_types, lifting) in_set_conv_nth send_task.exhaust send_task.simps(6))
  then have pend: "pending_cmds c = 0" using inv(1) others by (simp add: chan_inv_def)
  show ?thesis
  proof (rule ccontr)
    assume "senders c \<noteq> []"
    then have i: "0 < length (senders c)" by simp
    obtain a w where F: "senders c ! 0 = Flushing a w" using no_push [OF i] by (metis send_task.exhaust)
    obtain c' where c': "send_loop2 (all_keys c) False 0 c = Ret (send_done 0 a c')" "senders c' = senders c"
    proof (cases "bufs_empty (bufs c)")
      case True
      with that [of "c\<lparr>send_waiting := False\<rparr>"] F show thesis by (simp add: send_loop2_def)
    next
      case False
      obtain c2 where c2: "try_sending_buffer c = (c2, True)" "senders c2 = senders c"
        by (cases rule: sending_cases [OF inv]) (use tx pend in auto)
      from that [of "c2\<lparr>send_waiting := False\<rparr>"] send_loop2_eq [OF F False pt c2(1)] c2(2) show thesis by simp
    qed
    from arg_cong [OF stuck [OF task_step.loop2 [OF i c'(1) _ subset_refl]], of "\<lambda>c. length (senders c)"] i show False
      by (cases "senders c") (simp_all add: send_done_def c'(2))
  qed
qed

lemma stuck_settled:
  assumes inv: "chan_inv A M c" "no_collision c" "A \<noteq> []" "other_cmds c = 0" and stuck: "\<And>c'. task_step weak c c' \<Longrightarrow> c' = c"
  shows "settled c"
proof -
  note recv = stuck_receiver [OF inv(1) stuck] and tx = stuck_transfers [OF inv(1) stuck]
  have s: "senders c = []" by (rule stuck_senders [OF inv stuck])
  moreover have "mset (sent c) = mset (delivered c) + mset (map (payload (heap c)) (concat (map (cores (mem c)) (unsent (bufs c)))))"
    using chan_inv_parts(7) [OF inv(1)] tx recv s by (simp add: log_ok_def undelivered_def)
  ultimately show ?thesis using recv tx by (simp add: settled_def)
qed

lemma settled_drained:
  assumes inv: "chan_inv A M c" "flush_inv c" and settled: "settled c"
  shows "drained c"
proof -
  note I = chan_inv_parts [OF inv(1)]
  have s: "senders c = []" and tx: "tx_bufs (bufs c) = []" "waiting_bufs (bufs c) = []" using settled by (simp_all add: settled_def)
  then have u: "unsent (bufs c) = []" using inv(2) by (simp add: flush_inv_def flushing_def)
  then have held: "held (bufs c) = []" by (simp add: held_def announced_def tx)
  have "bufs_empty (bufs c)" using bufs_count [OF I(8)] bufs_ok_parts(2) [OF I(8)] u tx by (simp add: bufs_empty_def)
  moreover have "heap c = Map.empty"
  proof
    fix a
    have "ref_cnt (heap c) a = 0" using heap_ok_parts(1) [OF I(6), of a] held s by (simp add: buf_refs_def)
    then show "heap c a = None" using ref_cnt_pos [OF heap_ok_small [OF I(6)], of a] by (metis less_irrefl)
  qed
  ultimately show ?thesis using settled u by (simp add: drained_def settled_def)
qed

lemma rest_settled:
  assumes live: "live_inv weak A M c" "no_collision c" and rest: "\<nexists>c'. productive weak c c'"
  shows "settled c \<and> (\<not> weak \<longrightarrow> drained c)"
proof -
  let ?c = "other_sends 0 c"
  have inv: "chan_inv A M c" "A \<noteq> []" using live by (auto simp: live_inv_def CMD_BUFS_PER_PE_def)
  have "c' = ?c" if "task_step weak ?c c'" for c' using rest live(2) that by (auto simp: productive_def)
  then have "settled ?c"
    using live(2) by (intro stuck_settled [OF chan_inv_other [OF inv(1)] _ inv(2)]) (simp_all add: other_sends_live(3))
  then have s: "settled c" by (simp add: settled_def)
  moreover have "drained c" if "\<not> weak" using settled_drained [OF inv(1) _ s] live(1) that by (simp add: live_inv_def)
  ultimately show ?thesis by blast
qed

interpretation queue_run: terminating_system "productive weak" "live_inv weak A M" chan_meas "\<lambda>c. settled c \<and> (\<not> weak \<longrightarrow> drained c) \<or> \<not> no_collision c" for weak A M
proof unfold_locales
  fix c assume "live_inv weak A M c" "\<not> (settled c \<and> (\<not> weak \<longrightarrow> drained c) \<or> \<not> no_collision c)"
  then show "\<exists>c'. productive weak c c'" using rest_settled by blast
qed (use productive_live in blast)+

lemma chan_reach_live:
  assumes "chan_reach weak A M c" "distinct A" "0 \<notin> set A" "0 < M" "length A = CMD_BUFS_PER_PE"
  shows "live_inv weak A M c"
  using assms(1)
proof (induction rule: chan_reach.induct)
  case (start m)
  then show ?case using chan_new_inv [OF assms(2-4)] assms(5) by (simp add: live_inv_def flush_inv_def chan_new_def cmd_msg_buffer_new_def unsent_def)
next
  case (send c a bytes)
  then have "flush_inv c \<Longrightarrow> flush_inv (send_data a bytes c)" by (auto simp: flush_inv_def send_data_def flushing_def)
  with send show ?case using send_data_inv by (auto simp: live_inv_def)
next
  case (step c c')
  then show ?case using task_step_live(1) [OF step(4,2)] other_sends_live(1) [OF step(4)] by (auto simp: chan_step_def)
qed

end
