(* ===== verification/Cmd_Delivery.thy ===== *)
theory Cmd_Delivery
  imports Cmd_Runs
begin

text \<open>
  What the command queue guarantees: every message is delivered exactly once, no operation panics, the queue comes to rest and is then
  empty unless a spurious failure of \<open>compare_exchange_weak\<close> left a buffer behind, and a command that has arrived in part is not taken.  A request to print
  stops it.
\<close>

section \<open>Hashes\<close>

text \<open>The bytes of an integer are those it is read from.\<close>

lemma upt_Suc_map: "[0..<Suc n] = 0 # map Suc [0..<n]"
  by (subst upt_conv_Cons) (simp_all add: map_Suc_upt del: upt_Suc)

lemma le_value_digits: "foldr (\<lambda>b acc. b + 256 * acc) (map (\<lambda>i. v div 256 ^ i mod 256) [0..<n]) 0 = v mod (256 ^ n :: nat)"
proof (induction n arbitrary: v)
  case (Suc n)
  note upt_Suc_map [of n]
  then have "foldr (\<lambda>b acc. b + 256 * acc) (map (\<lambda>i. v div 256 ^ i mod 256) [0..<Suc n]) 0
      = v mod 256 + 256 * foldr (\<lambda>b acc. b + 256 * acc) (map (\<lambda>i. v div 256 div 256 ^ i mod 256) [0..<n]) 0"
    by (simp add: o_def div_mult2_eq del: upt_Suc)
  then show ?case by (simp add: Suc.IH mod_mult2_eq)
qed simp

lemma le_value_le_bytes: "v < usize_mod \<Longrightarrow> le_value (le_bytes v) = v"
  using le_value_digits [of v 8] by (simp add: le_value_def le_bytes_def usize_mod_def)

lemma length_le_bytes [simp]: "length (le_bytes v) = 8"
  by (simp add: le_bytes_def)

definition cmd_words :: "cmd_msg \<Rightarrow> nat list" where
  "cmd_words m = [daddr m, dsize m, cmd_code (cmd_of m), msg_hash m, cmd_hash m]"

lemma le_bytes_small: "v < 256 \<Longrightarrow> le_bytes v = v # replicate 7 0"
proof (rule nth_equalityI)
  fix i assume "v < 256" "i < length (le_bytes v)"
  then show "le_bytes v ! i = (v # replicate 7 0) ! i" by (cases i) (simp_all add: le_bytes_def div_mult2_eq)
qed simp

lemma cmd_bytes_words: "cmd_bytes m = concat (map le_bytes (cmd_words m))"
proof -
  have "cmd_code (cmd_of m) < 256" by (cases "cmd_of m") simp_all
  then show ?thesis by (simp add: cmd_bytes_def cmd_words_def le_bytes_small)
qed

lemma sum_chunks:
  assumes "\<And>c. c \<in> set cs \<Longrightarrow> length c = 8"
  shows "map (\<lambda>i. take 8 (drop (8 * i) (concat cs))) [0..<length cs] = cs"
  using assms
proof (induction cs)
  case (Cons c cs)
  have "[0..<length (c # cs)] = 0 # map Suc [0..<length cs]" using upt_Suc_map by simp
  with Cons show ?case by (simp add: o_def del: upt_Suc)
qed simp

text \<open>The hash of a buffer is the sum of the words of its commands.\<close>

lemma calc_hash_cmds:
  assumes "\<And>v. v \<in> set (concat (map cmd_words ms)) \<Longrightarrow> v < usize_mod"
  shows "calc_hash (concat (map cmd_bytes ms)) = sum_list (concat (map cmd_words ms)) mod usize_mod"
proof -
  let ?ws = "concat (map cmd_words ms)"
  have eq: "concat (map cmd_bytes ms) = concat (map le_bytes ?ws)" by (induction ms) (simp_all add: cmd_bytes_words)
  have len: "length (concat (map le_bytes ?ws)) = 8 * length ?ws" by (induction ms) (simp_all add: cmd_words_def length_concat sum_list_triv)
  have "map (\<lambda>i. le_value (take 8 (drop (8 * i) (concat (map le_bytes ?ws))))) [0..<length ?ws] = map le_value (map le_bytes ?ws)"
    using arg_cong [OF sum_chunks [of "map le_bytes ?ws"], of "map le_value"] unfolding map_map o_def length_map by fastforce
  also have "\<dots> = ?ws" unfolding map_map by (rule map_idI) (use assms le_value_le_bytes in auto)
  finally have "sum_list (map (\<lambda>i. le_value (take 8 (drop (8 * i) (concat (map le_bytes ?ws))))) [0..<length ?ws]) = sum_list ?ws" by (rule arg_cong)
  moreover have "drop (8 * length ?ws) (concat (map le_bytes ?ws)) = []" using len by simp
  ultimately show ?thesis unfolding eq calc_hash_def Let_def len by simp
qed

section \<open>An example\<close>

text \<open>Two buffers of two commands, and a message of three bytes that is pushed, announced and taken by the receiver while another one is sent.\<close>

definition ret_or :: "'a \<Rightarrow> 'a exec \<Rightarrow> 'a" where
  "ret_or x e = (case e of Ret y \<Rightarrow> y | Panic p \<Rightarrow> x)"

definition ex_new :: chan where
  "ex_new = chan_new (\<lambda>a. replicate 2 clear_cmd) [16, 8] 2"

definition ex_send :: chan where
  "ex_send = send_data 32 [1, 2, 3] ex_new"

definition ex_push :: chan where
  "ex_push = ret_or ex_send (send_loop1 [] 0 ex_send)"

definition ex_announce :: chan where
  "ex_announce = ret_or ex_push (send_loop2 [] False 0 ex_push)"

definition ex_second :: chan where
  "ex_second = send_data 64 [4] ex_announce"

definition ex_ready :: chan where
  "ex_ready = ret_or ex_second (recv_ready ex_second)"

lemmas ex_defs = ex_new_def ex_send_def ex_push_def ex_announce_def ex_second_def ex_ready_def

lemma ex_addrs: "distinct [16, 8 :: nat]" "(0 :: nat) \<notin> set [16, 8]" "(0 :: nat) < 2" "length [16, 8 :: nat] = CMD_BUFS_PER_PE"
  by (simp_all add: CMD_BUFS_PER_PE_def)

lemma chan_reach_task: "chan_reach weak A M c \<Longrightarrow> no_collision c \<Longrightarrow> task_step weak c c' \<Longrightarrow> chan_reach weak A M c'"
  by (erule chan_reach.step) (simp_all add: chan_step_def)

lemma ex_send_reach: "chan_reach weak [16, 8] 2 ex_send"
  unfolding ex_send_def ex_new_def by (rule chan_reach.send, rule chan_reach.start) (simp_all add: chan_new_def)

lemmas ex_eval = chan_new_def cmd_msg_buffer_new_def send_data_def send_loop1_def try_push_def cmd_buf_push_def cmd_buf_full_def Let_def ret_or_def

lemma ex_push_eq: "send_loop1 [] 0 ex_send = Ret ex_push"
  by (simp add: ex_push_def ex_send_def ex_new_def ex_eval)

lemma ex_push_reach: "chan_reach weak [16, 8] 2 ex_push"
  by (rule chan_reach_task [OF ex_send_reach _ task_step.loop1 [OF _ ex_push_eq]])
    (simp_all add: ex_send_def ex_new_def ex_eval no_collision_def)

lemma ex_push_state: "senders ex_push = [Flushing 32 False]" "tx_bufs (bufs ex_push) = []" "waiting_bufs (bufs ex_push) = []" "full_bufs (bufs ex_push) = []"
   "jobs ex_push = []" "send_slot ex_push = clear_cmd" "recv_slot ex_push = clear_cmd" "pending_cmds ex_push = 0" "\<not> bufs_empty (bufs ex_push)"
   "\<exists>b. cur_buf (bufs ex_push) = Some b \<and> cb_addr b = 8 \<and> cb_index b = 1 \<and> cmd_buf_iter (mem ex_push) b = [mk_cmd 32 3 Tx (calc_hash [1, 2, 3])]" 
   "heap ex_push = Map.empty(32 \<mapsto> (2, [1, 2, 3]))" "mem ex_push 8 ! 0 = mk_cmd 32 3 Tx (calc_hash [1, 2, 3])" "mem ex_push 16 = replicate 2 clear_cmd"
   "empty_bufs (bufs ex_push) = [\<lparr>cb_addr = 16, cb_index = 0, cb_allocated_cnt = 0, cb_max_size = 2\<rparr>]" "send_waiting ex_push = False"
  by (simp_all add: ex_push_def ex_send_def ex_new_def ex_eval bufs_empty_def cmd_buf_iter_def numeral_2_eq_2 numeral_3_eq_3)

lemma ex_hash: "calc_hash [1, 2, 3] = 6" "calc_hash (concat (map cmd_bytes [mk_cmd 32 3 Tx 6])) = 92" "hash (mk_cmd 8 40 Tx 92) = 145" "hash clear_cmd = 1"
proof -
  show six: "calc_hash [1, 2, 3] = 6" by (simp add: calc_hash_def usize_mod_def)
  show "calc_hash (concat (map cmd_bytes [mk_cmd 32 3 Tx 6])) = 92"
    by (subst calc_hash_cmds) (simp_all add: cmd_words_def mk_cmd_def calc_cmd_hash_def hash_def usize_mod_def, auto)
qed (simp_all add: clear_cmd_def mk_cmd_def calc_cmd_hash_def hash_def usize_mod_def)

lemma ex_announce_state: "send_loop2 [] False 0 ex_push = Ret ex_announce" "senders ex_announce = []" "jobs ex_announce = []"
   "send_slot ex_announce = mk_cmd 8 40 Tx 92" "recv_slot ex_announce = mk_cmd 8 40 Tx 92" "heap ex_announce = Map.empty(32 \<mapsto> (1, [1, 2, 3]))"
   "map fst (tx_bufs (bufs ex_announce)) = [8]" "waiting_bufs (bufs ex_announce) = []" "cur_buf (bufs ex_announce) = None" "full_bufs (bufs ex_announce) = []"
   "empty_bufs (bufs ex_announce) = [\<lparr>cb_addr = 16, cb_index = 0, cb_allocated_cnt = 0, cb_max_size = 2\<rparr>]" "mem ex_announce = mem ex_push"
   "map cb_addr (map snd (tx_bufs (bufs ex_announce))) = [8]" "no_collision ex_announce"
proof -
  obtain b where b: "cur_buf (bufs ex_push) = Some b" "cb_addr b = 8" "cb_index b = 1" "cmd_buf_iter (mem ex_push) b = [mk_cmd 32 3 Tx (calc_hash [1, 2, 3])]"
    using ex_push_state by blast
  have "announce (mem ex_push) b = mk_cmd 8 40 Tx 92" by (simp add: announce_def b cmd_buf_size_def cmd_msg_size_def ex_hash [simplified])
  note eval = send_loop2_def ex_push_state b progress_transfers_def check_transfer_def check_free_data_def try_sending_buffer_def flush_buffer_def this
    ex_announce_def ret_or_def hm_insert_def hm_remove_def send_done_def drop_ref_def fetch_sub_usize_def usize_mod_def
  show "send_loop2 [] False 0 ex_push = Ret ex_announce" "senders ex_announce = []" "jobs ex_announce = []"
   "send_slot ex_announce = mk_cmd 8 40 Tx 92" "recv_slot ex_announce = mk_cmd 8 40 Tx 92" "heap ex_announce = Map.empty(32 \<mapsto> (1, [1, 2, 3]))"
   "map fst (tx_bufs (bufs ex_announce)) = [8]" "waiting_bufs (bufs ex_announce) = []" "cur_buf (bufs ex_announce) = None" "full_bufs (bufs ex_announce) = []"
   "empty_bufs (bufs ex_announce) = [\<lparr>cb_addr = 16, cb_index = 0, cb_allocated_cnt = 0, cb_max_size = 2\<rparr>]" "mem ex_announce = mem ex_push"
   "map cb_addr (map snd (tx_bufs (bufs ex_announce))) = [8]"
    by (simp_all add: eval)
  show "no_collision ex_announce" by (simp add: eval no_collision_def ex_hash)
qed

lemma ex_announce_reach: "chan_reach weak [16, 8] 2 ex_announce"
  by (rule chan_reach_task [OF ex_push_reach _ task_step.loop2 [OF _ ex_announce_state(1)]])
    (simp_all add: ex_push_state no_collision_def)

lemma ex_ready_state: "recv_ready ex_second = Ret ex_ready" "senders ex_ready = [Pushing 64 1 (calc_hash [4])]" "jobs ex_ready = [Fetch (mk_cmd 8 40 Tx 92)]"
    "no_collision ex_ready" "map fst (tx_bufs (bufs ex_ready)) = [8]" "waiting_bufs (bufs ex_ready) = []"
  using ex_announce_state
  by (simp_all add: ex_ready_def ex_second_def ret_or_def recv_ready_def ready_def send_data_def no_collision_def)

lemma ex_ready_reach: "chan_reach weak [16, 8] 2 ex_ready"
proof (rule chan_reach_task [OF _ _ task_step.ready [OF ex_ready_state(1)]])
  show "chan_reach weak [16, 8] 2 ex_second"
    unfolding ex_second_def by (rule chan_reach.send [OF ex_announce_reach]) (simp_all add: ex_announce_state)
qed (use ex_announce_state in \<open>simp add: ex_second_def send_data_def no_collision_def\<close>)

section \<open>What the queue guarantees\<close>

text \<open>
  C26. Every message that was handed to \<open>send_data\<close> is exactly once either delivered, with its bytes, or still on its way: in a task that
  has not pushed it, in a buffer that is not announced, in an announced buffer that the receiver did not copy, or
  among the commands of a job.  Messages are neither lost nor delivered twice, in every interleaving.
\<close>

theorem queue_conserves_messages:
  assumes "distinct A" "0 \<notin> set A" "0 < M" "chan_reach weak A M c"
  shows "mset (sent c) = mset (delivered c) + mset (map (payload (heap c)) (undelivered c @ concat (map task_todo (senders c))))"
  using chan_inv_parts(7) [OF chan_reach_inv [OF assms(4,1-3)]] by (simp only: log_ok_def)

theorem queue_conserves_messages_witness:
  "chan_reach True [16, 8] 2 ex_ready \<and>
   mset (sent ex_ready) = mset (delivered ex_ready) + mset (map (payload (heap ex_ready)) (undelivered ex_ready @ concat (map task_todo (senders ex_ready))))"
  using queue_conserves_messages [OF ex_addrs(1-3) ex_ready_reach [of True]] ex_ready_reach by simp

text \<open>The commands whose hash an operation computes in a state: those in the slots, the ones that tasks push and those that announce a buffer.\<close>

fun pushed_cmd :: "send_task \<Rightarrow> cmd_msg list" where
  "pushed_cmd (Pushing a len h) = [mk_cmd a len Tx h]"
| "pushed_cmd (Flushing a w) = []"

definition hashed_cmds :: "chan \<Rightarrow> cmd_msg list" where
  "hashed_cmds c = [clear_cmd, send_slot c, recv_slot c] @ concat (map pushed_cmd (senders c)) @ map (announce (mem c)) (unsent (bufs c))"

lemma hash_checked_eq:
  "hash_checked m = (if daddr m + dsize m + cmd_code (cmd_of m) + msg_hash m < usize_mod then Ret (hash m) else Panic AddOverflow)"
  by (auto simp: hash_checked_def uadd_def hash_def Let_def)



text \<open>
  C28. When no further message is sent, the queue comes to rest: at most \<open>chan_meas c\<close> steps of the tasks of both PEs do anything, with or without spurious failures and whatever
  the tasks for other destinations do in between.
\<close>

theorem queue_terminates:
  assumes "distinct A" "0 \<notin> set A" "0 < M" "length A = CMD_BUFS_PER_PE" "chan_reach weak A M c" "(productive weak ^^ n) c c'"
  shows "n \<le> chan_meas c"
  using queue_run.run_bound [OF chan_reach_live [OF assms(5,1-4)] assms(6)] .

lemma productiveI: "no_collision c \<Longrightarrow> task_step weak c c' \<Longrightarrow> c' \<noteq> c \<Longrightarrow> other_cmds c = 0 \<Longrightarrow> productive weak c c'"
  using other_sends_same [of c] by (metis le0 productive_def)

theorem queue_terminates_witness: "(productive True ^^ 1) ex_send ex_push \<and> 1 \<le> chan_meas ex_send"
proof -
  have "productive True ex_send ex_push"
  proof (rule productiveI)
    show "task_step True ex_send ex_push" by (rule task_step.loop1 [OF _ ex_push_eq]) (simp_all add: ex_send_def ex_new_def ex_eval)
    have "senders ex_send \<noteq> senders ex_push" by (simp add: ex_push_state ex_send_def ex_new_def ex_eval)
    then show "ex_push \<noteq> ex_send" by auto
  qed (simp_all add: ex_send_def ex_new_def ex_eval no_collision_def)
  then have "(productive True ^^ 1) ex_send ex_push" by (simp add: eq_OO)
  with queue_terminates [OF ex_addrs ex_send_reach this] show ?thesis by blast
qed


text \<open>A message of three bytes that is announced, taken, delivered and freed.\<close>

definition ex_taken :: chan where
  "ex_taken = ret_or ex_announce (recv_ready ex_announce)"

definition ex_copied :: chan where
  "ex_copied = ret_or ex_taken (recv_fetch 0 ex_taken)"

definition ex_got :: chan where
  "ex_got = ret_or ex_copied (recv_get 0 0 ex_copied)"

definition ex_freed :: chan where
  "ex_freed = recv_finish 0 ex_got"

definition ex_end :: chan where
  "ex_end = ret_or ex_freed (progress_transfers [8] ex_freed)"

lemma ex_push_buf:
  "cur_buf (bufs ex_push) = Some \<lparr>cb_addr = 8, cb_index = 1, cb_allocated_cnt = 1, cb_max_size = 2\<rparr>" "num_bufs (bufs ex_push) = 2"
  "mem ex_push 8 = [mk_cmd 32 3 Tx 6, clear_cmd]" "delivered ex_push = []" "other_cmds ex_push = 0" "sent ex_push = [(32, [1, 2, 3])]"
  using ex_hash(1)
  by (simp_all add: ex_push_def ex_send_def ex_new_def ex_eval numeral_2_eq_2 numeral_3_eq_3)

lemma ex_announce_buf:
  "tx_bufs (bufs ex_announce) = [(8, \<lparr>cb_addr = 8, cb_index = 1, cb_allocated_cnt = 1, cb_max_size = 2\<rparr>)]"
  "num_bufs (bufs ex_announce) = 2" "mem ex_announce 8 = [mk_cmd 32 3 Tx 6, clear_cmd]" "delivered ex_announce = []"
  "other_cmds ex_announce = 0" "sent ex_announce = [(32, [1, 2, 3])]" "pending_cmds ex_announce = 0"
  by (simp_all add: ex_announce_def ret_or_def send_loop2_def ex_push_state progress_transfers_def check_transfer_def check_free_data_def
      try_sending_buffer_def flush_buffer_def ex_push_buf hm_insert_def hm_remove_def send_done_def announce_def)

lemma ex_taken_eq: "recv_ready ex_announce = Ret ex_taken"
    "ex_taken = ex_announce\<lparr>recv_slot := clear_cmd, jobs := [Fetch (mk_cmd 8 40 Tx 92)]\<rparr>"
  using ex_announce_state by (simp_all add: ex_taken_def ret_or_def recv_ready_def ready_def)

lemma ex_copied_eq: "recv_fetch 0 ex_taken = Ret ex_copied"
    "ex_copied = ex_taken\<lparr>mem := put_cmd 8 Release (mem ex_taken), jobs := [Batch (mk_cmd 8 40 Tx 92) [mk_cmd 32 3 Tx 6] 0 1]\<rparr>"
  using ex_hash(2) by (simp_all add: ex_copied_def ret_or_def recv_fetch_def ex_taken_eq(2) ex_announce_buf cmd_msg_size_def)

lemma ex_got_eq: "recv_get 0 0 ex_copied = Ret ex_got"
    "ex_got = ex_copied\<lparr>delivered := [(32, [1, 2, 3])], jobs := [Batch (mk_cmd 8 40 Tx 92) [] 1 1]\<rparr>"
  using ex_hash(1) by (simp_all add: ex_got_def ret_or_def recv_get_def ex_copied_eq(2) ex_taken_eq(2) ex_announce_buf ex_announce_state(2-11))

lemma ex_freed_eq: "ex_freed = ex_got\<lparr>mem := put_cmd 8 Free (mem ex_got), jobs := []\<rparr>"
  by (simp add: ex_freed_def recv_finish_def ex_got_eq(2))

lemma ex_end_eq: "progress_transfers [8] ex_freed = Ret ex_end" "senders ex_end = []" "jobs ex_end = []" "tx_bufs (bufs ex_end) = []" "waiting_bufs (bufs ex_end) = []"
    "recv_slot ex_end = clear_cmd" "delivered ex_end = [(32, [1, 2, 3])]" "sent ex_end = [(32, [1, 2, 3])]"
  by (simp_all add: ex_end_def ret_or_def progress_transfers_def check_transfer_def check_free_data_def ex_freed_eq ex_got_eq(2) ex_copied_eq(2) ex_taken_eq(2)
      ex_announce_buf ex_announce_state(2-11) cmd_buf_state_def put_cmd_def hm_remove_def hm_insert_def Let_def)

lemma ex_end_run: "(productive False)\<^sup>*\<^sup>* ex_announce ex_end"
proof -
  have nc: "no_collision ex_announce" "no_collision ex_taken" "no_collision ex_copied" "no_collision ex_got" "no_collision ex_freed"
    by (simp_all add: no_collision_def ex_freed_eq ex_got_eq(2) ex_copied_eq(2) ex_taken_eq(2) ex_announce_state(2-11) ex_hash ex_announce_buf)
  have o: "other_cmds ex_announce = 0" "other_cmds ex_taken = 0" "other_cmds ex_copied = 0" "other_cmds ex_got = 0" "other_cmds ex_freed = 0"
    by (simp_all add: ex_freed_eq ex_got_eq(2) ex_copied_eq(2) ex_taken_eq(2) ex_announce_buf)
  have j: "jobs ex_announce = []" "jobs ex_taken = [Fetch (mk_cmd 8 40 Tx 92)]" "jobs ex_copied = [Batch (mk_cmd 8 40 Tx 92) [mk_cmd 32 3 Tx 6] 0 1]"
    "jobs ex_got = [Batch (mk_cmd 8 40 Tx 92) [] 1 1]" "jobs ex_freed = []"
    by (simp_all add: ex_freed_eq ex_got_eq(2) ex_copied_eq(2) ex_taken_eq(2) ex_announce_state)
  have t: "map fst (tx_bufs (bufs ex_freed) @ waiting_bufs (bufs ex_freed)) = [8]"
    by (simp add: ex_freed_eq ex_got_eq(2) ex_copied_eq(2) ex_taken_eq(2) ex_announce_buf ex_announce_state(2-11))
  have "productive False ex_announce ex_taken"
    by (rule productiveI [OF nc(1) task_step.ready [OF ex_taken_eq(1)] _ o(1)]) (use j in auto)
  moreover have "productive False ex_taken ex_copied"
    by (rule productiveI [OF nc(2) task_step.fetch [OF _ ex_copied_eq(1)] _ o(2)]) (use j in auto)
  moreover have "productive False ex_copied ex_got"
    by (rule productiveI [OF nc(3) task_step.get [OF _ ex_got_eq(1)] _ o(3)]) (use j in auto)
  moreover have "productive False ex_got ex_freed"
    by (rule productiveI [OF nc(4) task_step.finish [OF _ ex_freed_def] _ o(4)]) (use j in auto)
  moreover have "productive False ex_freed ex_end"
    by (rule productiveI [OF nc(5) task_step.transfers [OF ex_end_eq(1)] _ o(5)]) (use t ex_end_eq(4,5) in auto)
  ultimately show ?thesis by (meson converse_rtranclp_into_rtranclp rtranclp.rtrancl_refl)
qed

lemma ex_end_rest: "\<nexists>c'. productive False ex_end c'"
proof -
  have inv: "chan_inv [16, 8] 2 ex_end"
    using queue_run.reach_inv [OF ex_end_run chan_reach_live [OF ex_announce_reach [of False] ex_addrs]] by (simp add: live_inv_def)
  have "c' = other_sends n ex_end" if "task_step False (other_sends n ex_end) c'" for n c'
    using that
  proof cases
    case (transfers keys)
    have "progress_transfers keys (other_sends n ex_end) = Ret (other_sends n ex_end)"
      by (rule progress_idle [OF chan_inv_other [OF inv]]) (simp add: idle_def ex_end_eq)
    with transfers show ?thesis by simp
  next
    case ready
    then show ?thesis using recv_ready_eq [OF chan_inv_other [OF inv], of n] by (simp add: ex_end_eq)
  qed (simp_all add: ex_end_eq)
  then show ?thesis by (auto simp: productive_def)
qed


section \<open>Commands that arrive in parts\<close>

text \<open>A command of which only some words have arrived; the others are still those of the old one.\<close>

definition torn :: "cmd_msg \<Rightarrow> cmd_msg \<Rightarrow> cmd_msg \<Rightarrow> bool" where
  "torn old new x \<longleftrightarrow> daddr x \<in> {daddr old, daddr new} \<and> dsize x \<in> {dsize old, dsize new} \<and> cmd_of x \<in> {cmd_of old, cmd_of new}
     \<and> msg_hash x \<in> {msg_hash old, msg_hash new} \<and> cmd_hash x \<in> {cmd_hash old, cmd_hash new}"

lemma cmd_msg_eqI: "daddr x = daddr y \<Longrightarrow> dsize x = dsize y \<Longrightarrow> cmd_of x = cmd_of y \<Longrightarrow> msg_hash x = msg_hash y \<Longrightarrow> cmd_hash x = cmd_hash y \<Longrightarrow> x = (y :: cmd_msg)"
  by (cases x; cases y) simp

text \<open>
  C30. \<open>ready\<close> never takes a command that has arrived in part only: while the words of an announcement are copied into the cleared slot, in
  whatever order, it takes the command only when it is complete, unless the sum of its words overflows, and it never panics.
\<close>

theorem torn_command_not_taken:
  assumes "d + s + cmd_code Tx + h < usize_mod" "d \<noteq> 0" "torn clear_cmd (mk_cmd d s Tx h) x"
  shows "ready x = (if x = mk_cmd d s Tx h then Ret (Some x, clear_cmd) else Ret (None, x))"
proof (cases "x = mk_cmd d s Tx h")
  case True
  then show ?thesis using assms(2) by (simp add: ready_def)
next
  case False
  have ch: "cmd_hash (mk_cmd d s Tx h) = d + s + 5 + h" "cmd_hash clear_cmd = 1" "msg_hash clear_cmd = 0"
    using assms(1) by (simp_all add: mk_cmd_def calc_cmd_hash_def hash_def clear_cmd_def usize_mod_def)
  have "cmd_of x = Clear" if c: "check_hash x"
  proof (rule ccontr)
    assume nc: "cmd_of x \<noteq> Clear"
    then have tx: "cmd_of x = Tx" using assms(3) by (auto simp: torn_def)
    have "daddr x \<le> d" "dsize x \<le> s" "msg_hash x \<le> h" using assms(3) ch by (auto simp: torn_def)
    moreover from this have "hash x = daddr x + dsize x + 5 + msg_hash x" using assms(1) tx by (simp add: hash_def Let_def)
    moreover have "cmd_hash x = 1 \<or> cmd_hash x = d + s + 5 + h" using assms(3) ch by (auto simp: torn_def)
    ultimately have "daddr x = d" "dsize x = s" "msg_hash x = h" "cmd_hash x = d + s + 5 + h" using c by (auto simp: check_hash_def)
    with tx ch(1) have "x = mk_cmd d s Tx h" by (intro cmd_msg_eqI) simp_all
    with False show False ..
  qed
  then show ?thesis using False by (auto simp: ready_def)
qed

theorem torn_command_not_taken_witness:
  "torn clear_cmd (mk_cmd 8 40 Tx 92) ((mk_cmd 8 40 Tx 92)\<lparr>msg_hash := 0\<rparr>)
   \<and> ready ((mk_cmd 8 40 Tx 92)\<lparr>msg_hash := 0\<rparr>) = Ret (None, (mk_cmd 8 40 Tx 92)\<lparr>msg_hash := 0\<rparr>)"
proof -
  have "torn clear_cmd (mk_cmd 8 40 Tx 92) ((mk_cmd 8 40 Tx 92)\<lparr>msg_hash := 0\<rparr>)"
    by (simp add: torn_def) (simp add: clear_cmd_def)
  moreover have "(mk_cmd 8 40 Tx 92)\<lparr>msg_hash := 0\<rparr> \<noteq> mk_cmd 8 40 Tx 92"
    by (metis cmd_msg.select_convs(4) cmd_msg.surjective cmd_msg.update_convs(4) mk_cmd_simps(4) zero_neq_numeral)
  ultimately show ?thesis using torn_command_not_taken [of 8 40 92] by (simp add: usize_mod_def)
qed

section \<open>Queues that stop\<close>

text \<open>The slot keeps a command that is neither cleared nor that of an announced buffer.\<close>

definition blocked :: "cmd_msg \<Rightarrow> chan \<Rightarrow> bool" where
  "blocked m c \<longleftrightarrow> send_slot c = m \<and> hash m \<noteq> hash clear_cmd \<and> tx_bufs (bufs c) = []"

lemma free_loop_keeps:
  "tx_bufs (fst (free_loop mm as B)) = tx_bufs B \<and> full_bufs (fst (free_loop mm as B)) = full_bufs B \<and> cur_buf (fst (free_loop mm as B)) = cur_buf B"
proof (induction as arbitrary: B)
  case (Cons a as)
  show ?case
  proof (cases "map_of (waiting_bufs B) a")
    case (Some b)
    then show ?thesis
      using Cons.IH [of "B\<lparr>waiting_bufs := hm_remove a (waiting_bufs B), empty_bufs := cmd_buf_reset b # empty_bufs B\<rparr>"] by (auto split: prod.split)
  qed (simp add: Cons.IH)
qed simp

lemma free_loop_tx: "free_loop mm as B = (B', ds) \<Longrightarrow> tx_bufs B' = tx_bufs B \<and> unsent B' = unsent B"
  using free_loop_keeps [of mm as B] by (simp add: unsent_def)

lemma blocked_transfers:
  assumes "blocked m c" "progress_transfers keys c = Ret c'"
  shows "blocked m c'"
proof -
  obtain as where as: "freed_bufs (mem c) (waiting_bufs (bufs c)) keys = Ret as"
    using assms by (cases "freed_bufs (mem c) (waiting_bufs (bufs c)) keys") (auto simp: blocked_def progress_transfers_def check_transfer_def check_free_data_def ebind_def)
  obtain B ds where fl: "free_loop (mem c) as (bufs c) = (B, ds)" by (cases "free_loop (mem c) as (bufs c)")
  with as assms free_loop_tx [OF fl] show ?thesis by (auto simp: blocked_def progress_transfers_def check_transfer_def check_free_data_def)
qed

lemma blocked_sending: "blocked m c \<Longrightarrow> try_sending_buffer c = (c, False)"
  by (simp add: blocked_def try_sending_buffer_def)

lemma try_push_tx: "try_push mm B a len h = Ret (mm', B', p) \<Longrightarrow> tx_bufs B' = tx_bufs B"
  by (auto simp: try_push_def ebind_def Let_def split: option.splits list.splits exec.splits if_splits)

lemma receiver_keeps:
  "recv_ready c = Ret c' \<Longrightarrow> bufs c' = bufs c \<and> senders c' = senders c \<and> send_slot c' = send_slot c"
  "recv_fetch j c = Ret c' \<Longrightarrow> bufs c' = bufs c \<and> senders c' = senders c \<and> send_slot c' = send_slot c"
  "recv_get j k c = Ret c' \<Longrightarrow> bufs c' = bufs c \<and> senders c' = senders c \<and> send_slot c' = send_slot c"
  "bufs (recv_finish j c) = bufs c \<and> senders (recv_finish j c) = senders c \<and> send_slot (recv_finish j c) = send_slot c"
proof -
  assume r: "recv_ready c = Ret c'"
  then obtain x slot where x: "ready (recv_slot c) = Ret (x, slot)" by (auto simp: recv_ready_def ebind_eq_Ret)
  show "bufs c' = bufs c \<and> senders c' = senders c \<and> send_slot c' = send_slot c"
    using r x by (cases x; cases "cmd_of (the x)") (auto simp: recv_ready_def)
qed (auto simp: recv_fetch_def recv_get_def recv_finish_def Let_def split: recv_job.splits if_splits option.splits)

lemma blocked_task:
  assumes "blocked m c" "task_step weak c c'"
  shows "blocked m c'"
  using assms(2)
proof cases
  case (loop1 i keys)
  show ?thesis
  proof (cases "senders c ! i")
    case (Pushing a len h)
    then obtain mm B p where p: "try_push (mem c) (bufs c) a len h = Ret (mm, B, p)" using loop1(2) by (auto simp: send_loop1_def ebind_eq_Ret)
    have b: "blocked m (c\<lparr>mem := mm, bufs := B\<rparr>)" using assms(1) try_push_tx [OF p] by (simp add: blocked_def)
    show ?thesis
    proof (cases p)
      case True
      then show ?thesis using loop1(2) Pushing p b by (auto simp: send_loop1_def blocked_def)
    next
      case False
      then obtain c1 where c1: "progress_transfers keys (c\<lparr>mem := mm, bufs := B\<rparr>) = Ret c1" "c' = fst (try_sending_buffer c1)"
        using loop1(2) Pushing p by (auto simp: send_loop1_def ebind_eq_Ret)
      then show ?thesis using blocked_transfers [OF b c1(1)] blocked_sending by simp
    qed
  qed (use loop1 assms(1) in \<open>simp add: send_loop1_def\<close>)
next
  case (loop2 i keys spurious)
  show ?thesis
  proof (cases "senders c ! i")
    case (Flushing a w)
    show ?thesis
    proof (cases "bufs_empty (bufs c)")
      case True
      then show ?thesis using loop2(2) Flushing assms(1) by (auto simp: send_loop2_def send_done_def blocked_def)
    next
      case False
      then obtain c1 where c1: "progress_transfers keys c = Ret c1" using loop2(2) Flushing by (auto simp: send_loop2_def ebind_eq_Ret)
      note b = blocked_transfers [OF assms(1) c1]
      show ?thesis using send_loop2_eq [OF Flushing False c1 blocked_sending [OF b], of spurious] loop2(2) b
        by (auto simp: send_done_def blocked_def split: if_splits)
    qed
  qed (use loop2 assms(1) in \<open>simp add: send_loop2_def\<close>)
next
  case (transfers keys)
  then show ?thesis using blocked_transfers [OF assms(1)] by blast
qed (use assms(1) receiver_keeps in \<open>fastforce simp: blocked_def\<close>)+

lemma blocked_step:
  assumes "blocked m c" "chan_step weak c c'"
  shows "blocked m c'"
proof -
  have "blocked m (other_sends n c)" for n using assms(1) by (simp add: blocked_def)
  then show ?thesis using assms blocked_task unfolding chan_step_def by blast
qed

text \<open>
  A request to print the buffers stops the queue for good: nothing clears the slot of the sender after it, because only the
  release of an announced buffer does, so in every execution no buffer is announced any more.
\<close>

theorem print_stops_queue:
  assumes "tx_bufs (bufs c) = []" "hash (send_slot c) = hash clear_cmd" "hash (mk_cmd (daddr m) (dsize m) Print (msg_hash m)) \<noteq> hash clear_cmd"
    and "(chan_step weak)\<^sup>*\<^sup>* (send_print m c) c'"
  shows "send_slot c' = mk_cmd (daddr m) (dsize m) Print (msg_hash m) \<and> tx_bufs (bufs c') = [] \<and> try_sending_buffer c' = (c', False)"
proof -
  have "blocked (mk_cmd (daddr m) (dsize m) Print (msg_hash m)) c'"
    using assms(4)
  proof (induction rule: rtranclp_induct)
    case base
    show ?case using assms(1-3) by (simp add: send_print_def blocked_def Let_def)
  qed (rule blocked_step)
  then show ?thesis using blocked_sending by (simp add: blocked_def)
qed

theorem print_stops_queue_witness:
  "(chan_step True)\<^sup>*\<^sup>* (send_print (mk_cmd 8 40 Tx 92) ex_push) (send_print (mk_cmd 8 40 Tx 92) ex_push)
   \<and> try_sending_buffer (send_print (mk_cmd 8 40 Tx 92) ex_push) = (send_print (mk_cmd 8 40 Tx 92) ex_push, False)"
proof -
  have "hash (mk_cmd 8 40 Print 92) \<noteq> hash clear_cmd"
    by (simp add: ex_hash) (simp add: mk_cmd_def calc_cmd_hash_def hash_def usize_mod_def)
  then show ?thesis using print_stops_queue [of ex_push "mk_cmd 8 40 Tx 92", OF _ _ _ rtranclp.rtrancl_refl] ex_push_state by simp
qed

text \<open>Without a task of the sender a buffer that is not announced stays as it is.\<close>

lemma unsent_transfers:
  assumes "progress_transfers keys c = Ret c'"
  shows "senders c' = senders c \<and> unsent (bufs c') = unsent (bufs c)"
proof -
  obtain B cl as where t: "check_transfer (mem c) (bufs c) (daddr (send_slot c)) = Ret (B, cl)" "freed_bufs (mem c) (waiting_bufs B) keys = Ret as"
    using assms by (auto simp: progress_transfers_def ebind_eq_Ret check_free_data_def)
  obtain B' ds where fl: "free_loop (mem c) as B = (B', ds)" by (cases "free_loop (mem c) as B")
  have "unsent B = unsent (bufs c)"
    using t(1) by (auto simp: check_transfer_def Let_def unsent_def split: option.splits cmd.splits if_splits)
  then show ?thesis using assms t free_loop_tx [OF fl] by (auto simp: progress_transfers_def ebind_eq_Ret check_free_data_def fl)
qed

lemma no_tasks_step:
  assumes "senders c = []" "chan_step weak c c'"
  shows "senders c' = [] \<and> unsent (bufs c') = unsent (bufs c)"
proof (cases "task_step weak c c'")
  case False
  then show ?thesis using assms by (auto simp: chan_step_def)
next
  case True
  then show ?thesis
  proof cases
    case (transfers keys)
    then show ?thesis using unsent_transfers assms(1) by simp
  qed (use assms(1) receiver_keeps in fastforce)+
qed

text \<open>
  C31. \<open>compare_exchange_weak\<close> may fail although the flag is clear.  The task that pushed a message then leaves without waiting, although
  the slot is still taken, and when it is the only one its message stays in the buffer in every execution until another message is sent.
\<close>

theorem spurious_failure_strands_message:
  assumes "distinct A" "0 \<notin> set A" "0 < M" "chan_reach weak A M c" "no_collision c" "idle c"
    and "senders c = [Flushing a False]" "tx_bufs (bufs c) \<noteq> []" "unsent (bufs c) \<noteq> []"
    and "send_loop2 keys True 0 c = Ret c'" "(chan_step weak)\<^sup>*\<^sup>* c' c''"
  shows "senders c'' = [] \<and> unsent (bufs c'') = unsent (bufs c)"
proof -
  have inv: "chan_inv A M c" by (rule chan_reach_inv [OF assms(4,1-3)])
  note I = chan_inv_parts [OF inv]
  have ne: "\<not> bufs_empty (bufs c)"
    using bufs_count [OF I(8)] bufs_ok_parts(2) [OF I(8)] assms(9) by (auto simp: bufs_empty_def)
  have "try_sending_buffer c = (c, False)"
    using slot_clear_iff [OF I(4) assms(5)] assms(8) by (simp add: try_sending_buffer_def)
  from send_loop2_eq [OF _ ne progress_idle [OF inv assms(6)] this, of 0 a False keys True]
  have c': "c' = send_done 0 a c" using assms(7,10) by simp
  have "senders c' = [] \<and> unsent (bufs c') = unsent (bufs c)" by (simp add: c' send_done_def assms(7))
  with assms(11) show ?thesis
    by (induction rule: rtranclp_induct) (auto dest: no_tasks_step)
qed

definition ex_stranded :: chan where
  "ex_stranded = ret_or ex_second (send_loop1 [8] 0 ex_second)"

lemma ex_stranded_state: "send_loop1 [8] 0 ex_second = Ret ex_stranded" "senders ex_stranded = [Flushing 64 False]" "tx_bufs (bufs ex_stranded) = tx_bufs (bufs ex_announce)"
    "waiting_bufs (bufs ex_stranded) = []" "unsent (bufs ex_stranded) \<noteq> []" "mem ex_stranded 8 = mem ex_push 8" "send_slot ex_stranded = mk_cmd 8 40 Tx 92"
  using ex_announce_state ex_push_state(13)
  by (simp_all add: ex_stranded_def ex_second_def ret_or_def send_data_def send_loop1_def try_push_def cmd_buf_push_def cmd_buf_full_def unsent_def Let_def)

lemma ex_stranded_reach: "chan_reach weak [16, 8] 2 ex_stranded" "no_collision ex_stranded" "idle ex_stranded"
proof -
  have "chan_reach weak [16, 8] 2 ex_second"
    unfolding ex_second_def by (rule chan_reach.send [OF ex_announce_reach]) (simp_all add: ex_announce_state)
  then show "chan_reach weak [16, 8] 2 ex_stranded"
    by (rule chan_reach_task [OF _ _ task_step.loop1 [OF _ ex_stranded_state(1)]])
      (use ex_announce_state in \<open>simp_all add: ex_second_def send_data_def no_collision_def\<close>)
  show "no_collision ex_stranded" by (simp add: no_collision_def ex_stranded_state ex_hash)
  have "cb_addr b = 8" if "(a, b) \<in> set (tx_bufs (bufs ex_announce))" for a b
    using arg_cong [OF ex_announce_state(13), of set] that by force
  then show "idle ex_stranded"
    using ex_push_state(12) by (auto simp: idle_def ex_stranded_state cmd_buf_state_def)
qed

theorem spurious_failure_strands_message_witness:
  "senders ex_stranded = [Flushing 64 False] \<and> unsent (bufs (ret_or ex_stranded (send_loop2 [8] True 0 ex_stranded))) = unsent (bufs ex_stranded)
   \<and> senders (ret_or ex_stranded (send_loop2 [8] True 0 ex_stranded)) = []"
proof -
  note s = ex_stranded_state ex_announce_state
  have tx: "tx_bufs (bufs ex_stranded) \<noteq> []" using s by auto
  obtain c' where c': "send_loop2 [8] True 0 ex_stranded = Ret c'"
    by (rule send_loop2_inv [OF chan_reach_inv [OF ex_stranded_reach(1) ex_addrs(1-3)] ex_stranded_reach(2), of 0 "[8]" True]) (use s in auto)
  show ?thesis
    using spurious_failure_strands_message [OF ex_addrs(1-3) ex_stranded_reach ex_stranded_state(2) tx ex_stranded_state(5) c' rtranclp.rtrancl_refl] s(2)
    by (simp add: c' ret_or_def)
qed

end
