(* ===== verification/Am_Wire.thy ===== *)
theory Am_Wire
  imports Lamellar_Arch Multiset_Lists
begin

text \<open>
  How active messages and their results are written into a batch and read back: the headers, the simple batcher
  (\<open>active_messaging/batching/simple_batcher.rs\<close>) and the functions of \<open>registered_active_message.rs\<close> that it shares with the other
  one.  The counting of darcs in a message is not part of the model.
\<close>

section \<open>Messages on the wire\<close>

type_synonym bytes = "nat list"

datatype am_cmd = CmdAm | CmdReturnAm | CmdData | CmdUnit | CmdBatchedMsg

record req_id =
  rid_id :: nat
  rid_sub_id :: nat

record am_header =
  ah_am_id :: int
  ah_team_addr :: nat
  ah_req_id :: req_id

record data_header =
  dh_size :: nat
  dh_req_id :: req_id
  dh_darc_list_size :: nat

record unit_header =
  uh_req_id :: req_id

record batch_header =
  bh_cmd :: am_cmd
  bh_cnt :: nat

record team_header =
  th_team_id :: nat
  th_am_batch_cnts :: nat

record batched_am_header =
  bah_am_id :: int
  bah_am_cnt :: nat
  bah_cmd :: am_cmd

text \<open>
  \<open>bincode\<close> and the code that is generated for active messages are parameters: how a value of each type is written and read, and the
  table \<open>AMS_EXECS\<close> of the functions that read an active message from the beginning of a slice.
\<close>

record 'x codec =
  enc :: "'x \<Rightarrow> bytes"
  dec :: "bytes \<Rightarrow> 'x option"

record ('am, 'ret) wire =
  w_cmd :: "am_cmd codec"
  w_am_header :: "am_header codec"
  w_data_header :: "data_header codec"
  w_unit_header :: "unit_header codec"
  w_batch_header :: "batch_header codec"
  w_team_header :: "team_header codec"
  w_batched_am_header :: "batched_am_header codec"
  w_req_id :: "req_id codec"
  w_darcs :: "nat list codec"
  w_am_id :: "'am \<Rightarrow> int"
  w_am_bytes :: "'am \<Rightarrow> bytes"
  w_am_size :: "'am \<Rightarrow> nat"
  w_unpack :: "int \<Rightarrow> bytes \<Rightarrow> 'am option"
  w_ret_bytes :: "'ret \<Rightarrow> bytes"
  w_ret_size :: "'ret \<Rightarrow> nat"

definition AM_HEADER_LEN :: "('am, 'ret) wire \<Rightarrow> nat" where
  "AM_HEADER_LEN W = length (enc (w_am_header W) \<lparr>ah_am_id = 0, ah_team_addr = 0, ah_req_id = \<lparr>rid_id = 0, rid_sub_id = 0\<rparr>\<rparr>)"

definition DATA_HEADER_LEN :: "('am, 'ret) wire \<Rightarrow> nat" where
  "DATA_HEADER_LEN W = length (enc (w_data_header W) \<lparr>dh_size = 0, dh_req_id = \<lparr>rid_id = 0, rid_sub_id = 0\<rparr>, dh_darc_list_size = 0\<rparr>)"

definition UNIT_HEADER_LEN :: "('am, 'ret) wire \<Rightarrow> nat" where
  "UNIT_HEADER_LEN W = length (enc (w_unit_header W) \<lparr>uh_req_id = \<lparr>rid_id = 0, rid_sub_id = 0\<rparr>\<rparr>)"

definition CMD_LEN :: "('am, 'ret) wire \<Rightarrow> nat" where
  "CMD_LEN W = length (enc (w_cmd W) CmdAm)"

definition BATCH_HEADER_LEN :: "('am, 'ret) wire \<Rightarrow> nat" where
  "BATCH_HEADER_LEN W = length (enc (w_batch_header W) \<lparr>bh_cmd = CmdAm, bh_cnt = 0\<rparr>)"

definition TEAM_HEADER_LEN :: "('am, 'ret) wire \<Rightarrow> nat" where
  "TEAM_HEADER_LEN W = length (enc (w_team_header W) \<lparr>th_team_id = 0, th_am_batch_cnts = 0\<rparr>)"

definition BATCHED_AM_HEADER_LEN :: "('am, 'ret) wire \<Rightarrow> nat" where
  "BATCHED_AM_HEADER_LEN W = length (enc (w_batched_am_header W) \<lparr>bah_am_id = 0, bah_am_cnt = 0, bah_cmd = CmdAm\<rparr>)"

definition REQ_ID_LEN :: "('am, 'ret) wire \<Rightarrow> nat" where
  "REQ_ID_LEN W = length (enc (w_req_id W) \<lparr>rid_id = 0, rid_sub_id = 0\<rparr>)"

text \<open>What is relied on: types of fixed size have that size, what was written is read back, and the size of an active message is right.\<close>

definition codec_ok :: "'x codec \<Rightarrow> nat \<Rightarrow> bool" where
  "codec_ok K n \<longleftrightarrow> (\<forall>x. length (enc K x) = n \<and> dec K (enc K x) = Some x)"

definition wire_ok :: "('am, 'ret) wire \<Rightarrow> bool" where
  "wire_ok W \<longleftrightarrow> codec_ok (w_cmd W) (CMD_LEN W) \<and> codec_ok (w_am_header W) (AM_HEADER_LEN W) \<and> codec_ok (w_data_header W) (DATA_HEADER_LEN W)
     \<and> codec_ok (w_unit_header W) (UNIT_HEADER_LEN W) \<and> codec_ok (w_batch_header W) (BATCH_HEADER_LEN W) \<and> codec_ok (w_team_header W) (TEAM_HEADER_LEN W)
     \<and> codec_ok (w_batched_am_header W) (BATCHED_AM_HEADER_LEN W) \<and> codec_ok (w_req_id W) (REQ_ID_LEN W)
     \<and> 0 < CMD_LEN W \<and> 0 < BATCH_HEADER_LEN W \<and> (\<forall>ds. dec (w_darcs W) (enc (w_darcs W) ds) = Some ds)
     \<and> (\<forall>a. length (w_am_bytes W a) = w_am_size W a) \<and> (\<forall>r. length (w_ret_bytes W r) = w_ret_size W r)
     \<and> (\<forall>a rest. w_unpack W (w_am_id W a) (w_am_bytes W a @ rest) = Some a)"

text \<open>\<open>serialize_into\<close> on a part of a slice, and \<open>deserialize\<close> from a part; the index moves on.\<close>

definition write_at :: "nat \<Rightarrow> bytes \<Rightarrow> bytes \<times> nat \<Rightarrow> (bytes \<times> nat) exec" where
  "write_at n x st = (case st of (buf, i) \<Rightarrow>
     if length buf < i + n then Panic OutOfBounds
     else if n < length x then Panic UnwrapNone
     else Ret (take i buf @ x @ drop (i + length x) buf, i + n))"

definition read_at :: "nat \<Rightarrow> 'x codec \<Rightarrow> bytes \<Rightarrow> nat \<Rightarrow> ('x \<times> nat) exec" where
  "read_at n K data i = (if length data < i + n then Panic OutOfBounds
     else case dec K (take n (drop i data)) of None \<Rightarrow> Panic UnwrapNone | Some x \<Rightarrow> Ret (x, i + n))"

section \<open>Entries of a batch\<close>

record req_meta =
  rq_src :: nat
  rq_dst :: "nat option"
  rq_id :: req_id
  rq_team :: lamellar_arch_rt
  rq_team_addr :: nat

datatype ('am, 'ret) lamellar_data =
    LamAm 'am int
  | LamReturn 'am int
  | LamData 'ret "nat list" nat
  | LamUnit

text \<open>The four methods that add to a batch, with what \<open>process_msg\<close> gives them; the size is that of \<open>SimpleBatcherInner::add\<close>.\<close>

datatype ('am, 'ret) am_msg =
    MsgAm req_meta 'am
  | MsgReturn req_meta 'am
  | MsgData req_meta 'ret "nat list"
  | MsgUnit req_meta

type_synonym ('am, 'ret) entry = "req_meta \<times> ('am, 'ret) lamellar_data \<times> nat"

fun simple_entry :: "('am, 'ret) wire \<Rightarrow> ('am, 'ret) am_msg \<Rightarrow> ('am, 'ret) entry" where
  "simple_entry W (MsgAm rq am) = (rq, LamAm am (w_am_id W am), w_am_size W am + AM_HEADER_LEN W + CMD_LEN W)"
| "simple_entry W (MsgReturn rq am) = (rq, LamReturn am (w_am_id W am), w_am_size W am + AM_HEADER_LEN W + CMD_LEN W)"
| "simple_entry W (MsgData rq ret darcs) = (let darc_list_size = length (enc (w_darcs W) darcs) in
     (rq, LamData ret darcs darc_list_size, w_ret_size W ret + darc_list_size + DATA_HEADER_LEN W + CMD_LEN W))"
| "simple_entry W (MsgUnit rq) = (rq, LamUnit, UNIT_HEADER_LEN W + CMD_LEN W)"

section \<open>The simple batcher\<close>

definition serialize_am :: "('am, 'ret) wire \<Rightarrow> am_cmd \<Rightarrow> req_meta \<Rightarrow> 'am \<Rightarrow> int \<Rightarrow> nat \<Rightarrow> bytes \<times> nat \<Rightarrow> (bytes \<times> nat) exec" where
  "serialize_am W cmd rq am am_id am_size st =
     ebind (write_at (CMD_LEN W) (enc (w_cmd W) cmd) st) (\<lambda>st.
     ebind (write_at (AM_HEADER_LEN W) (enc (w_am_header W) \<lparr>ah_am_id = am_id, ah_team_addr = rq_team_addr rq, ah_req_id = rq_id rq\<rparr>) st) (\<lambda>st.
     ebind (usub am_size (CMD_LEN W + AM_HEADER_LEN W)) (\<lambda>am_size.
     write_at am_size (w_am_bytes W am) st)))"

definition serialize_data :: "('am, 'ret) wire \<Rightarrow> req_meta \<Rightarrow> 'ret \<Rightarrow> nat list \<Rightarrow> nat \<Rightarrow> nat \<Rightarrow> bytes \<times> nat \<Rightarrow> (bytes \<times> nat) exec" where
  "serialize_data W rq ret darcs darc_list_size data_size st =
     ebind (write_at (CMD_LEN W) (enc (w_cmd W) CmdData) st) (\<lambda>st.
     ebind (usub data_size (CMD_LEN W + DATA_HEADER_LEN W + darc_list_size)) (\<lambda>data_size.
     ebind (write_at (DATA_HEADER_LEN W) (enc (w_data_header W) \<lparr>dh_size = data_size, dh_req_id = rq_id rq, dh_darc_list_size = darc_list_size\<rparr>) st) (\<lambda>st.
     ebind (write_at darc_list_size (enc (w_darcs W) darcs) st) (\<lambda>st.
     write_at data_size (w_ret_bytes W ret) st))))"

definition serialize_unit :: "('am, 'ret) wire \<Rightarrow> req_meta \<Rightarrow> bytes \<times> nat \<Rightarrow> (bytes \<times> nat) exec" where
  "serialize_unit W rq st =
     ebind (write_at (CMD_LEN W) (enc (w_cmd W) CmdUnit) st) (\<lambda>st.
     write_at (UNIT_HEADER_LEN W) (enc (w_unit_header W) \<lparr>uh_req_id = rq_id rq\<rparr>) st)"

fun serialize_entry :: "('am, 'ret) wire \<Rightarrow> ('am, 'ret) entry \<Rightarrow> bytes \<times> nat \<Rightarrow> (bytes \<times> nat) exec" where
  "serialize_entry W (rq, LamAm am am_id, n) st = serialize_am W CmdAm rq am am_id n st"
| "serialize_entry W (rq, LamReturn am am_id, n) st = serialize_am W CmdReturnAm rq am am_id n st"
| "serialize_entry W (rq, LamData ret darcs k, n) st = serialize_data W rq ret darcs k n st"
| "serialize_entry W (rq, LamUnit, n) st = serialize_unit W rq st"

fun serialize_entries :: "('am, 'ret) wire \<Rightarrow> ('am, 'ret) entry list \<Rightarrow> bytes \<times> nat \<Rightarrow> (bytes \<times> nat) exec" where
  "serialize_entries W [] st = Ret st"
| "serialize_entries W (e # es) st = ebind (serialize_entry W e st) (serialize_entries W es)"

text \<open>What the receiver does with a message: it runs an active message for the sender, runs a returned one, or hands a result to the user.\<close>

datatype 'am am_event =
    RunAm req_id nat 'am
  | RunReturn req_id nat 'am
  | UserData req_id bytes "nat list"
  | UserUnit req_id

definition exec_am :: "('am, 'ret) wire \<Rightarrow> (req_id \<Rightarrow> nat \<Rightarrow> 'am \<Rightarrow> 'am am_event) \<Rightarrow> bytes \<Rightarrow> nat \<Rightarrow> ('am am_event \<times> nat) exec" where
  "exec_am W ev data i =
     ebind (read_at (AM_HEADER_LEN W) (w_am_header W) data i) (\<lambda>(h, i).
     case w_unpack W (ah_am_id h) (drop i data) of None \<Rightarrow> Panic UnwrapNone
     | Some am \<Rightarrow> Ret (ev (ah_req_id h) (ah_team_addr h) am, i + w_am_size W am))"

definition exec_data_am :: "('am, 'ret) wire \<Rightarrow> bytes \<Rightarrow> nat \<Rightarrow> ('am am_event \<times> nat) exec" where
  "exec_data_am W data i =
     ebind (read_at (DATA_HEADER_LEN W) (w_data_header W) data i) (\<lambda>(h, i).
     ebind (read_at (dh_darc_list_size h) (w_darcs W) data i) (\<lambda>(darcs, i).
     Ret (UserData (dh_req_id h) (take (dh_size h) (drop i data)) darcs, i + dh_size h)))"

definition exec_unit_am :: "('am, 'ret) wire \<Rightarrow> bytes \<Rightarrow> nat \<Rightarrow> ('am am_event \<times> nat) exec" where
  "exec_unit_am W data i = ebind (read_at (UNIT_HEADER_LEN W) (w_unit_header W) data i) (\<lambda>(h, i). Ret (UserUnit (uh_req_id h), i))"

definition exec_one :: "('am, 'ret) wire \<Rightarrow> bytes \<Rightarrow> nat \<Rightarrow> ('am am_event \<times> nat) exec" where
  "exec_one W data i =
     ebind (read_at (CMD_LEN W) (w_cmd W) data i) (\<lambda>(cmd, i).
     case cmd of CmdAm \<Rightarrow> exec_am W RunAm data i
     | CmdReturnAm \<Rightarrow> exec_am W RunReturn data i
     | CmdData \<Rightarrow> exec_data_am W data i
     | CmdUnit \<Rightarrow> exec_unit_am W data i
     | CmdBatchedMsg \<Rightarrow> Panic ExplicitPanic)"

text \<open>The loop of \<open>exec_batched_msg\<close>; it is not shown to end for data that no batcher wrote.\<close>

partial_function (option) exec_batched_msg :: "('am, 'ret) wire \<Rightarrow> bytes \<Rightarrow> nat \<Rightarrow> 'am am_event list exec option" where
  "exec_batched_msg W data i =
     (if i < length data then
        (case exec_one W data i of
           Panic p \<Rightarrow> Some (Panic p)
         | Ret (ev, j) \<Rightarrow> Option.bind (exec_batched_msg W data j) (\<lambda>r. Some (ebind r (\<lambda>evs. Ret (ev # evs)))))
      else Some (Ret []))"

fun msg_event :: "('am, 'ret) wire \<Rightarrow> ('am, 'ret) am_msg \<Rightarrow> 'am am_event" where
  "msg_event W (MsgAm rq am) = RunAm (rq_id rq) (rq_team_addr rq) am"
| "msg_event W (MsgReturn rq am) = RunReturn (rq_id rq) (rq_team_addr rq) am"
| "msg_event W (MsgData rq ret darcs) = UserData (rq_id rq) (w_ret_bytes W ret) darcs"
| "msg_event W (MsgUnit rq) = UserUnit (rq_id rq)"


section \<open>Reading back\<close>

lemma wire_ok_parts:
  assumes "wire_ok W"
  shows "codec_ok (w_cmd W) (CMD_LEN W)" "codec_ok (w_am_header W) (AM_HEADER_LEN W)" "codec_ok (w_data_header W) (DATA_HEADER_LEN W)"
    "codec_ok (w_unit_header W) (UNIT_HEADER_LEN W)" "codec_ok (w_batch_header W) (BATCH_HEADER_LEN W)" "codec_ok (w_team_header W) (TEAM_HEADER_LEN W)"
    "codec_ok (w_batched_am_header W) (BATCHED_AM_HEADER_LEN W)" "codec_ok (w_req_id W) (REQ_ID_LEN W)" "0 < CMD_LEN W" "0 < BATCH_HEADER_LEN W"
    "\<And>ds. dec (w_darcs W) (enc (w_darcs W) ds) = Some ds" "\<And>a. length (w_am_bytes W a) = w_am_size W a" "\<And>r. length (w_ret_bytes W r) = w_ret_size W r"
    "\<And>a rest. w_unpack W (w_am_id W a) (w_am_bytes W a @ rest) = Some a"
  using assms unfolding wire_ok_def by blast+

lemma write_at_ok:
  "length x = n \<Longrightarrow> n \<le> length r \<Longrightarrow> i = length pre \<Longrightarrow> write_at n x (pre @ r, i) = Ret (pre @ x @ drop n r, i + n)"
  by (simp add: write_at_def)

lemma read_at_ok:
  "length x = n \<Longrightarrow> dec K x = Some v \<Longrightarrow> i = length pre \<Longrightarrow> read_at n K (pre @ x @ rest) i = Ret (v, i + n)"
  by (simp add: read_at_def)

text \<open>Writing \<open>x\<close> in a buffer of which \<open>pre\<close> is written: \<open>writes x f\<close> says that \<open>f\<close> does this.\<close>

definition writes :: "bytes \<Rightarrow> (bytes \<times> nat \<Rightarrow> (bytes \<times> nat) exec) \<Rightarrow> bool" where
  "writes x f \<longleftrightarrow> (\<forall>pre r. length x \<le> length r \<longrightarrow> f (pre @ r, length pre) = Ret ((pre @ x) @ drop (length x) r, length (pre @ x)))"

lemma writesD: "writes x f \<Longrightarrow> length x \<le> length r \<Longrightarrow> f (pre @ r, length pre) = Ret ((pre @ x) @ drop (length x) r, length (pre @ x))"
  unfolding writes_def by blast

lemma writes_at: "length x = n \<Longrightarrow> writes x (write_at n x)"
  by (simp add: writes_def write_at_ok)

lemma writes_bind:
  assumes "writes x f" "writes y g"
  shows "writes (x @ y) (\<lambda>st. ebind (f st) g)"
  unfolding writes_def
proof (intro allI impI)
  fix pre r :: bytes assume l: "length (x @ y) \<le> length r"
  then have "f (pre @ r, length pre) = Ret ((pre @ x) @ drop (length x) r, length (pre @ x))" by (intro writesD [OF assms(1)]) simp
  moreover have "g ((pre @ x) @ drop (length x) r, length (pre @ x)) = Ret (((pre @ x) @ y) @ drop (length y) (drop (length x) r), length ((pre @ x) @ y))"
    by (rule writesD [OF assms(2)]) (use l in simp)
  ultimately show "ebind (f (pre @ r, length pre)) g = Ret ((pre @ (x @ y)) @ drop (length (x @ y)) r, length (pre @ (x @ y)))"
    by (simp add: add.commute)
qed

lemma writes_Nil: "writes [] Ret"
  by (simp add: writes_def)

lemma writes_enc: "codec_ok K n \<Longrightarrow> writes (enc K v) (write_at n (enc K v))"
  by (rule writes_at) (simp add: codec_ok_def)

lemma read_enc: "codec_ok K n \<Longrightarrow> i = length pre \<Longrightarrow> read_at n K (pre @ enc K v @ rest) i = Ret (v, i + n)"
  by (rule read_at_ok) (simp_all add: codec_ok_def)

lemma length_enc: "codec_ok K n \<Longrightarrow> length (enc K v) = n"
  by (simp add: codec_ok_def)

definition am_bytes :: "('am, 'ret) wire \<Rightarrow> req_meta \<Rightarrow> 'am \<Rightarrow> bytes" where
  "am_bytes W rq am = enc (w_am_header W) \<lparr>ah_am_id = w_am_id W am, ah_team_addr = rq_team_addr rq, ah_req_id = rq_id rq\<rparr> @ w_am_bytes W am"

definition data_bytes :: "('am, 'ret) wire \<Rightarrow> req_meta \<Rightarrow> 'ret \<Rightarrow> nat list \<Rightarrow> bytes" where
  "data_bytes W rq ret darcs = enc (w_data_header W) \<lparr>dh_size = w_ret_size W ret, dh_req_id = rq_id rq, dh_darc_list_size = length (enc (w_darcs W) darcs)\<rparr>
     @ enc (w_darcs W) darcs @ w_ret_bytes W ret"

definition unit_bytes :: "('am, 'ret) wire \<Rightarrow> req_meta \<Rightarrow> bytes" where
  "unit_bytes W rq = enc (w_unit_header W) \<lparr>uh_req_id = rq_id rq\<rparr>"

fun msg_bytes :: "('am, 'ret) wire \<Rightarrow> ('am, 'ret) am_msg \<Rightarrow> bytes" where
  "msg_bytes W (MsgAm rq am) = enc (w_cmd W) CmdAm @ am_bytes W rq am"
| "msg_bytes W (MsgReturn rq am) = enc (w_cmd W) CmdReturnAm @ am_bytes W rq am"
| "msg_bytes W (MsgData rq ret darcs) = enc (w_cmd W) CmdData @ data_bytes W rq ret darcs"
| "msg_bytes W (MsgUnit rq) = enc (w_cmd W) CmdUnit @ unit_bytes W rq"

lemma entry_size:
  assumes "wire_ok W"
  shows "snd (snd (simple_entry W m)) = length (msg_bytes W m)" "0 < length (msg_bytes W m)"
  using wire_ok_parts [OF assms]
  by (cases m; simp add: length_enc am_bytes_def data_bytes_def unit_bytes_def Let_def)+

lemma serialize_am_writes:
  assumes ok: "wire_ok W"
  shows "writes (enc (w_cmd W) cmd @ am_bytes W rq am) (serialize_am W cmd rq am (w_am_id W am) (w_am_size W am + AM_HEADER_LEN W + CMD_LEN W))"
  unfolding serialize_am_def am_bytes_def
  using wire_ok_parts [OF ok] by (simp) (intro writes_bind writes_enc writes_at; simp)

lemma serialize_data_writes:
  assumes ok: "wire_ok W"
  shows "writes (enc (w_cmd W) CmdData @ data_bytes W rq ret darcs) (serialize_data W rq ret darcs (length (enc (w_darcs W) darcs))
    (w_ret_size W ret + length (enc (w_darcs W) darcs) + DATA_HEADER_LEN W + CMD_LEN W))"
  unfolding serialize_data_def data_bytes_def
  using wire_ok_parts [OF ok] by (simp) (intro writes_bind writes_enc writes_at; simp)

lemma serialize_entry_writes:
  assumes ok: "wire_ok W"
  shows "writes (msg_bytes W m) (serialize_entry W (simple_entry W m))"
proof (cases m)
  case (MsgUnit rq)
  have "writes (msg_bytes W m) (serialize_unit W rq)"
    unfolding serialize_unit_def MsgUnit msg_bytes.simps unit_bytes_def
    using wire_ok_parts [OF ok] by (intro writes_bind writes_enc; simp)
  then show ?thesis by (simp add: MsgUnit writes_def)
qed (use serialize_am_writes [OF ok] serialize_data_writes [OF ok] in \<open>simp_all add: writes_def Let_def\<close>)

lemma serialize_entries_writes:
  assumes ok: "wire_ok W"
  shows "writes (concat (map (msg_bytes W) ms)) (serialize_entries W (map (simple_entry W) ms))"
proof (induction ms)
  case Nil
  then show ?case by (simp add: writes_def)
next
  case (Cons m ms)
  from writes_bind [OF serialize_entry_writes [OF ok, of m] Cons] show ?case by (simp add: writes_def)
qed


definition reads :: "bytes \<Rightarrow> (bytes \<Rightarrow> nat \<Rightarrow> ('x \<times> nat) exec) \<Rightarrow> 'x \<Rightarrow> bool" where
  "reads x f v \<longleftrightarrow> (\<forall>pre rest. f (pre @ x @ rest) (length pre) = Ret (v, length (pre @ x)))"

lemma readsD: "reads x f v \<Longrightarrow> f (pre @ x @ rest) (length pre) = Ret (v, length (pre @ x))"
  unfolding reads_def by blast

lemma reads_enc: "codec_ok K n \<Longrightarrow> reads (enc K v) (read_at n K) v"
  by (simp add: reads_def read_enc length_enc)

lemma reads_bind:
  assumes "reads x f v" "reads y (g v) w"
  shows "reads (x @ y) (\<lambda>data i. ebind (f data i) (\<lambda>(a, j). g a data j)) w"
  unfolding reads_def
proof (intro allI)
  fix pre rest :: bytes
  have "f (pre @ x @ y @ rest) (length pre) = Ret (v, length (pre @ x))" by (rule readsD [OF assms(1)])
  moreover have "g v ((pre @ x) @ y @ rest) (length (pre @ x)) = Ret (w, length ((pre @ x) @ y))" by (rule readsD [OF assms(2)])
  ultimately show "ebind (f (pre @ (x @ y) @ rest) (length pre)) (\<lambda>(a, j). g a (pre @ (x @ y) @ rest) j) = Ret (w, length (pre @ x @ y))"
    by simp
qed

lemma exec_am_reads:
  assumes ok: "wire_ok W"
  shows "reads (am_bytes W rq am) (exec_am W ev) (ev (rq_id rq) (rq_team_addr rq) am)"
  unfolding exec_am_def am_bytes_def
  by (rule reads_bind [OF reads_enc [OF wire_ok_parts(2) [OF ok]]]) (simp add: reads_def wire_ok_parts(12,14) [OF ok])

lemma exec_data_reads:
  assumes ok: "wire_ok W"
  shows "reads (data_bytes W rq ret darcs) (exec_data_am W) (UserData (rq_id rq) (w_ret_bytes W ret) darcs)"
  unfolding exec_data_am_def data_bytes_def
proof (rule reads_bind [OF reads_enc [OF wire_ok_parts(3) [OF ok]]], rule reads_bind)
  show "reads (enc (w_darcs W) darcs) (read_at (dh_darc_list_size \<lparr>dh_size = w_ret_size W ret, dh_req_id = rq_id rq, dh_darc_list_size = length (enc (w_darcs W) darcs)\<rparr>) (w_darcs W)) darcs"
    using wire_ok_parts(11) [OF ok] by (simp add: reads_def read_at_ok)
qed (simp add: reads_def wire_ok_parts(13) [OF ok])

lemma exec_unit_reads:
  assumes ok: "wire_ok W"
  shows "reads (unit_bytes W rq) (exec_unit_am W) (UserUnit (rq_id rq))"
  using reads_enc [OF wire_ok_parts(4) [OF ok], of "\<lparr>uh_req_id = rq_id rq\<rparr>"] by (simp add: reads_def exec_unit_am_def unit_bytes_def)

lemma exec_one_reads:
  assumes ok: "wire_ok W"
  shows "reads (msg_bytes W m) (exec_one W) (msg_event W m)"
  unfolding exec_one_def
  by (cases m; simp; rule reads_bind [OF reads_enc [OF wire_ok_parts(1) [OF ok]]])
    (simp_all add: exec_am_reads [OF ok] exec_data_reads [OF ok] exec_unit_reads [OF ok])

lemma exec_batched_reads:
  assumes ok: "wire_ok W"
  shows "exec_batched_msg W (pre @ concat (map (msg_bytes W) ms)) (length pre) = Some (Ret (map (msg_event W) ms))"
proof (induction ms arbitrary: pre)
  case Nil
  then show ?case by (simp add: exec_batched_msg.simps)
next
  case (Cons m ms)
  have "exec_one W (pre @ msg_bytes W m @ concat (map (msg_bytes W) ms)) (length pre) = Ret (msg_event W m, length (pre @ msg_bytes W m))"
    by (rule readsD [OF exec_one_reads [OF ok]])
  then show ?case using Cons [of "pre @ msg_bytes W m"] entry_size(2) [OF ok, of m]
    by (subst exec_batched_msg.simps) simp
qed

lemma simple_batch_written:
  assumes "wire_ok W" "length mem = sum_list (map (snd \<circ> snd \<circ> simple_entry W) ms)"
  shows "\<exists>buf. serialize_entries W (map (simple_entry W) ms) (mem, 0) = Ret (buf, length mem) \<and> length buf = length mem
    \<and> exec_batched_msg W buf 0 = Some (Ret (map (msg_event W) ms))"
proof -
  have len: "length mem = length (concat (map (msg_bytes W) ms))"
    using assms by (simp add: o_def entry_size length_concat)
  have "serialize_entries W (map (simple_entry W) ms) ([] @ mem, length ([] :: bytes)) = Ret (([] @ concat (map (msg_bytes W) ms)) @ drop (length (concat (map (msg_bytes W) ms))) mem, length ([] @ concat (map (msg_bytes W) ms)))"
    by (rule writesD [OF serialize_entries_writes [OF assms(1)]]) (simp add: len)
  then show ?thesis using len exec_batched_reads [OF assms(1), of "[]" ms] by simp
qed

section \<open>An example\<close>

text \<open>A codec in which an integer is one element of the list of bytes, and active messages and results that are numbers.\<close>

fun ex_cmd_dec :: "bytes \<Rightarrow> am_cmd option" where
  "ex_cmd_dec [n] = (if n = 0 then Some CmdAm else if n = 1 then Some CmdReturnAm else if n = 2 then Some CmdData else if n = 3 then Some CmdUnit else if n = 4 then Some CmdBatchedMsg else None)"
| "ex_cmd_dec _ = None"

fun ex_cmd_code :: "am_cmd \<Rightarrow> nat" where
  "ex_cmd_code CmdAm = 0"
| "ex_cmd_code CmdReturnAm = 1"
| "ex_cmd_code CmdData = 2"
| "ex_cmd_code CmdUnit = 3"
| "ex_cmd_code CmdBatchedMsg = 4"

definition ex_wire :: "(nat, nat) wire" where
  "ex_wire = \<lparr>
     w_cmd = \<lparr>enc = \<lambda>c. [ex_cmd_code c], dec = ex_cmd_dec\<rparr>,
     w_am_header = \<lparr>enc = \<lambda>h. [nat (ah_am_id h), nat (- ah_am_id h), ah_team_addr h, rid_id (ah_req_id h), rid_sub_id (ah_req_id h)],
       dec = \<lambda>bs. Some \<lparr>ah_am_id = int (bs ! 0) - int (bs ! 1), ah_team_addr = bs ! 2, ah_req_id = \<lparr>rid_id = bs ! 3, rid_sub_id = bs ! 4\<rparr>\<rparr>\<rparr>,
     w_data_header = \<lparr>enc = \<lambda>h. [dh_size h, rid_id (dh_req_id h), rid_sub_id (dh_req_id h), dh_darc_list_size h],
       dec = \<lambda>bs. Some \<lparr>dh_size = bs ! 0, dh_req_id = \<lparr>rid_id = bs ! 1, rid_sub_id = bs ! 2\<rparr>, dh_darc_list_size = bs ! 3\<rparr>\<rparr>,
     w_unit_header = \<lparr>enc = \<lambda>h. [rid_id (uh_req_id h), rid_sub_id (uh_req_id h)], dec = \<lambda>bs. Some \<lparr>uh_req_id = \<lparr>rid_id = bs ! 0, rid_sub_id = bs ! 1\<rparr>\<rparr>\<rparr>,
     w_batch_header = \<lparr>enc = \<lambda>h. [ex_cmd_code (bh_cmd h), bh_cnt h], dec = \<lambda>bs. Some \<lparr>bh_cmd = the (ex_cmd_dec [bs ! 0]), bh_cnt = bs ! 1\<rparr>\<rparr>,
     w_team_header = \<lparr>enc = \<lambda>h. [th_team_id h, th_am_batch_cnts h], dec = \<lambda>bs. Some \<lparr>th_team_id = bs ! 0, th_am_batch_cnts = bs ! 1\<rparr>\<rparr>,
     w_batched_am_header = \<lparr>enc = \<lambda>h. [nat (bah_am_id h), nat (- bah_am_id h), bah_am_cnt h, ex_cmd_code (bah_cmd h)],
       dec = \<lambda>bs. Some \<lparr>bah_am_id = int (bs ! 0) - int (bs ! 1), bah_am_cnt = bs ! 2, bah_cmd = the (ex_cmd_dec [bs ! 3])\<rparr>\<rparr>,
     w_req_id = \<lparr>enc = \<lambda>r. [rid_id r, rid_sub_id r], dec = \<lambda>bs. Some \<lparr>rid_id = bs ! 0, rid_sub_id = bs ! 1\<rparr>\<rparr>,
     w_darcs = \<lparr>enc = \<lambda>ds. ds, dec = Some\<rparr>,
     w_am_id = \<lambda>am. 7,
     w_am_bytes = \<lambda>am. [am],
     w_am_size = \<lambda>am. 1,
     w_unpack = \<lambda>am_id bs. (case bs of [] \<Rightarrow> None | b # _ \<Rightarrow> if am_id = 7 then Some b else None),
     w_ret_bytes = \<lambda>r. [r],
     w_ret_size = \<lambda>r. 1\<rparr>"

lemma ex_cmd_dec_code [simp]: "ex_cmd_dec [ex_cmd_code c] = Some c"
  by (cases c) simp_all

lemmas ex_lens = CMD_LEN_def AM_HEADER_LEN_def DATA_HEADER_LEN_def UNIT_HEADER_LEN_def BATCH_HEADER_LEN_def TEAM_HEADER_LEN_def
  BATCHED_AM_HEADER_LEN_def REQ_ID_LEN_def

lemma ex_wire_ok: "wire_ok ex_wire"
  by (simp del: ex_cmd_dec.simps add: wire_ok_def codec_ok_def ex_wire_def ex_lens)

definition ex_team :: lamellar_arch_rt where
  "ex_team = ArchRT None (GlobalArch (global_new 4)) 4"

definition ex_req :: "nat \<Rightarrow> req_meta" where
  "ex_req k = \<lparr>rq_src = 0, rq_dst = Some 1, rq_id = \<lparr>rid_id = k, rid_sub_id = 0\<rparr>, rq_team = ex_team, rq_team_addr = 96\<rparr>"

definition ex_msgs :: "(nat, nat) am_msg list" where
  "ex_msgs = [MsgAm (ex_req 1) 17, MsgUnit (ex_req 2), MsgData (ex_req 3) 18 [5, 6], MsgReturn (ex_req 4) 19]"

section \<open>The property\<close>

text \<open>
  C20. Batches of the simple batcher survive the transport: the buffer of the size that was counted while messages were added is exactly filled, no write
  leaves its part of the buffer, and the loop of the receiver ends and does, in order, what each message asks for, with the same
  request id, team, active message or result.
\<close>

theorem simple_batch_roundtrip:
  assumes "wire_ok W" "length mem = sum_list (map (snd \<circ> snd \<circ> simple_entry W) ms)"
  shows "\<exists>buf. serialize_entries W (map (simple_entry W) ms) (mem, 0) = Ret (buf, length mem) \<and> length buf = length mem
    \<and> exec_batched_msg W buf 0 = Some (Ret (map (msg_event W) ms))"
  using assms by (rule simple_batch_written)

theorem simple_batch_roundtrip_witness:
  "wire_ok ex_wire
   \<and> (\<exists>buf. serialize_entries ex_wire (map (simple_entry ex_wire) ex_msgs) (replicate 25 0, 0) = Ret (buf, 25)
     \<and> exec_batched_msg ex_wire buf 0 = Some (Ret
       [RunAm \<lparr>rid_id = 1, rid_sub_id = 0\<rparr> 96 17, UserUnit \<lparr>rid_id = 2, rid_sub_id = 0\<rparr>,
        UserData \<lparr>rid_id = 3, rid_sub_id = 0\<rparr> [18] [5, 6], RunReturn \<lparr>rid_id = 4, rid_sub_id = 0\<rparr> 96 19]))"
proof -
  have "sum_list (map (snd \<circ> snd \<circ> simple_entry ex_wire) ex_msgs) = 25"
    by (simp add: ex_msgs_def ex_wire_def Let_def ex_lens)
  then show ?thesis using simple_batch_roundtrip [OF ex_wire_ok, of "replicate 25 0" ex_msgs] ex_wire_ok
    by (auto simp: ex_msgs_def ex_req_def ex_wire_def)
qed

end
