(* ===== verification/Am_Team_Batches.thy ===== *)
theory Am_Team_Batches
  imports Am_Wire
begin

text \<open>
  The batcher that sorts the active messages of a batch by their team and kind, so that their headers are written once
  (\<open>active_messaging/batching/team_am_batcher.rs\<close>).
\<close>

section \<open>Maps of teams and active messages\<close>

text \<open>Hash maps are lists of entries; the active messages of a batch are sorted by team and by kind.\<close>

type_synonym 'am am_list = "(req_meta \<times> 'am \<times> nat) list"
type_synonym 'am am_id_map = "(int \<times> 'am am_list) list"
type_synonym 'am team_map = "(nat \<times> 'am am_id_map) list"

fun entry_update :: "'k \<Rightarrow> ('v list \<Rightarrow> 'v list) \<Rightarrow> ('k \<times> 'v list) list \<Rightarrow> ('k \<times> 'v list) list" where
  "entry_update k f [] = [(k, f [])]"
| "entry_update k f ((k', v) # m) = (if k' = k then (k', f v) # m else (k', v) # entry_update k f m)"

definition entry_or_empty :: "'k \<Rightarrow> ('k \<times> 'v list) list \<Rightarrow> 'v list" where
  "entry_or_empty k m = (case map_of m k of None \<Rightarrow> [] | Some v \<Rightarrow> v)"

record ('am, 'ret) team_inner =
  ti_ams :: "'am team_map"
  ti_returns :: "'am team_map"
  ti_others :: "('am, 'ret) entry list"
  ti_size :: nat

definition team_inner_new :: "('am, 'ret) team_inner" where
  "team_inner_new = \<lparr>ti_ams = [], ti_returns = [], ti_others = [], ti_size = 0\<rparr>"

definition add_am_to_batch :: "('am, 'ret) wire \<Rightarrow> req_meta \<Rightarrow> 'am \<Rightarrow> int \<Rightarrow> nat \<Rightarrow> 'am team_map \<Rightarrow> nat \<times> 'am team_map" where
  "add_am_to_batch W rq am am_id n batch =
     (let team_batch = entry_or_empty (rq_team_addr rq) batch; am_batch = entry_or_empty am_id team_batch in
      ((if team_batch = [] then TEAM_HEADER_LEN W else 0) + (if am_batch = [] then BATCHED_AM_HEADER_LEN W else 0) + n + REQ_ID_LEN W,
       entry_update (rq_team_addr rq) (entry_update am_id (\<lambda>v. v @ [(rq, am, n)])) batch))"

text \<open>\<open>add_am\<close> and \<open>add_non_am\<close>, as the four methods that add to a batch call them.\<close>

fun team_add :: "('am, 'ret) wire \<Rightarrow> ('am, 'ret) am_msg \<Rightarrow> ('am, 'ret) team_inner \<Rightarrow> ('am, 'ret) team_inner" where
  "team_add W (MsgAm rq am) b = (case add_am_to_batch W rq am (w_am_id W am) (w_am_size W am) (ti_ams b) of (n, tm) \<Rightarrow>
     b\<lparr>ti_ams := tm, ti_size := ti_size b + n\<rparr>)"
| "team_add W (MsgReturn rq am) b = (case add_am_to_batch W rq am (w_am_id W am) (w_am_size W am) (ti_returns b) of (n, tm) \<Rightarrow>
     b\<lparr>ti_returns := tm, ti_size := ti_size b + n\<rparr>)"
| "team_add W (MsgData rq ret darcs) b = (let k = length (enc (w_darcs W) darcs); n = w_ret_size W ret + k + DATA_HEADER_LEN W + BATCH_HEADER_LEN W in
     b\<lparr>ti_others := ti_others b @ [(rq, LamData ret darcs k, n)], ti_size := ti_size b + n\<rparr>)"
| "team_add W (MsgUnit rq) b = (let n = UNIT_HEADER_LEN W + BATCH_HEADER_LEN W in
     b\<lparr>ti_others := ti_others b @ [(rq, LamUnit, n)], ti_size := ti_size b + n\<rparr>)"

section \<open>Serialization\<close>

fun write_all :: "('x \<Rightarrow> bytes \<times> nat \<Rightarrow> (bytes \<times> nat) exec) \<Rightarrow> 'x list \<Rightarrow> bytes \<times> nat \<Rightarrow> (bytes \<times> nat) exec" where
  "write_all f [] st = Ret st"
| "write_all f (x # xs) st = ebind (f x st) (write_all f xs)"

definition team_serialize_am :: "('am, 'ret) wire \<Rightarrow> req_meta \<times> 'am \<times> nat \<Rightarrow> bytes \<times> nat \<Rightarrow> (bytes \<times> nat) exec" where
  "team_serialize_am W e st = (case e of (rq, am, am_size) \<Rightarrow>
     ebind (write_at (REQ_ID_LEN W) (enc (w_req_id W) (rq_id rq)) st) (write_at am_size (w_am_bytes W am)))"

definition serialize_am_list :: "('am, 'ret) wire \<Rightarrow> am_cmd \<Rightarrow> int \<times> 'am am_list \<Rightarrow> bytes \<times> nat \<Rightarrow> (bytes \<times> nat) exec" where
  "serialize_am_list W cmd e st = (case e of (am_id, ams) \<Rightarrow>
     ebind (write_at (BATCHED_AM_HEADER_LEN W) (enc (w_batched_am_header W) \<lparr>bah_am_id = am_id, bah_am_cnt = length ams, bah_cmd = cmd\<rparr>) st)
       (write_all (team_serialize_am W) ams))"

definition serialize_team :: "('am, 'ret) wire \<Rightarrow> am_cmd \<Rightarrow> nat \<times> 'am am_id_map \<Rightarrow> bytes \<times> nat \<Rightarrow> (bytes \<times> nat) exec" where
  "serialize_team W cmd e st = (case e of (team_id, am_map) \<Rightarrow>
     ebind (write_at (TEAM_HEADER_LEN W) (enc (w_team_header W) \<lparr>th_team_id = team_id, th_am_batch_cnts = length am_map\<rparr>) st)
       (write_all (serialize_am_list W cmd) am_map))"

definition serialize_am_batch :: "('am, 'ret) wire \<Rightarrow> am_cmd \<Rightarrow> 'am team_map \<Rightarrow> bytes \<times> nat \<Rightarrow> (bytes \<times> nat) exec" where
  "serialize_am_batch W cmd am_batch st = (if am_batch \<noteq> [] then
     ebind (write_at (BATCH_HEADER_LEN W) (enc (w_batch_header W) \<lparr>bh_cmd = CmdBatchedMsg, bh_cnt = length am_batch\<rparr>) st)
       (write_all (serialize_team W cmd) am_batch)
     else Ret st)"

fun serialize_non_am :: "('am, 'ret) wire \<Rightarrow> ('am, 'ret) entry \<Rightarrow> bytes \<times> nat \<Rightarrow> (bytes \<times> nat) exec" where
  "serialize_non_am W (rq, LamData ret darcs darc_list_size, n) st =
     ebind (write_at (BATCH_HEADER_LEN W) (enc (w_batch_header W) \<lparr>bh_cmd = CmdData, bh_cnt = 1\<rparr>) st) (\<lambda>st.
     ebind (usub n (BATCH_HEADER_LEN W + DATA_HEADER_LEN W + darc_list_size)) (\<lambda>data_size.
     ebind (write_at (DATA_HEADER_LEN W) (enc (w_data_header W) \<lparr>dh_size = data_size, dh_req_id = rq_id rq, dh_darc_list_size = darc_list_size\<rparr>) st) (\<lambda>st.
     ebind (write_at darc_list_size (enc (w_darcs W) darcs) st) (\<lambda>st.
     write_at data_size (w_ret_bytes W ret) st))))"
| "serialize_non_am W (rq, LamUnit, n) st =
     ebind (write_at (BATCH_HEADER_LEN W) (enc (w_batch_header W) \<lparr>bh_cmd = CmdUnit, bh_cnt = 1\<rparr>) st) (\<lambda>st.
     write_at (UNIT_HEADER_LEN W) (enc (w_unit_header W) \<lparr>uh_req_id = rq_id rq\<rparr>) st)"
| "serialize_non_am W (rq, LamAm am am_id, n) st = Panic ExplicitPanic"
| "serialize_non_am W (rq, LamReturn am am_id, n) st = Panic ExplicitPanic"

definition team_buf_size :: "('am, 'ret) wire \<Rightarrow> ('am, 'ret) team_inner \<Rightarrow> nat" where
  "team_buf_size W b = ti_size b + (if ti_ams b \<noteq> [] then BATCH_HEADER_LEN W else 0) + (if ti_returns b \<noteq> [] then BATCH_HEADER_LEN W else 0)"

text \<open>The maps in the order in which they are iterated are arguments.\<close>

definition team_serialize :: "('am, 'ret) wire \<Rightarrow> 'am team_map \<Rightarrow> 'am team_map \<Rightarrow> ('am, 'ret) entry list \<Rightarrow> bytes \<times> nat \<Rightarrow> (bytes \<times> nat) exec" where
  "team_serialize W ams returns others st =
     ebind (serialize_am_batch W CmdAm ams st) (\<lambda>st.
     ebind (serialize_am_batch W CmdReturnAm returns st) (\<lambda>st.
     write_all (serialize_non_am W) others st))"

section \<open>Execution\<close>

fun read_n :: "nat \<Rightarrow> (bytes \<Rightarrow> nat \<Rightarrow> ('x \<times> nat) exec) \<Rightarrow> bytes \<Rightarrow> nat \<Rightarrow> ('x list \<times> nat) exec" where
  "read_n 0 f data i = Ret ([], i)"
| "read_n (Suc n) f data i = ebind (f data i) (\<lambda>(x, j). ebind (read_n n f data j) (\<lambda>(xs, k). Ret (x # xs, k)))"

definition team_exec_am :: "('am, 'ret) wire \<Rightarrow> (req_id \<Rightarrow> 'am \<Rightarrow> 'am am_event) \<Rightarrow> int \<Rightarrow> bytes \<Rightarrow> nat \<Rightarrow> ('am am_event \<times> nat) exec" where
  "team_exec_am W ev am_id data i =
     ebind (read_at (REQ_ID_LEN W) (w_req_id W) data i) (\<lambda>(req_id, i).
     case w_unpack W am_id (drop i data) of None \<Rightarrow> Panic UnwrapNone
     | Some am \<Rightarrow> Ret (ev req_id am, i + w_am_size W am))"

definition exec_am_list :: "('am, 'ret) wire \<Rightarrow> nat \<Rightarrow> bytes \<Rightarrow> nat \<Rightarrow> ('am am_event list \<times> nat) exec" where
  "exec_am_list W team_id data i =
     ebind (read_at (BATCHED_AM_HEADER_LEN W) (w_batched_am_header W) data i) (\<lambda>(h, i).
     read_n (bah_am_cnt h) (\<lambda>data i. case bah_cmd h of
         CmdAm \<Rightarrow> team_exec_am W (\<lambda>r. RunAm r team_id) (bah_am_id h) data i
       | CmdReturnAm \<Rightarrow> team_exec_am W (\<lambda>r. RunReturn r team_id) (bah_am_id h) data i
       | _ \<Rightarrow> Panic ExplicitPanic) data i)"

definition exec_team :: "('am, 'ret) wire \<Rightarrow> bytes \<Rightarrow> nat \<Rightarrow> ('am am_event list list \<times> nat) exec" where
  "exec_team W data i =
     ebind (read_at (TEAM_HEADER_LEN W) (w_team_header W) data i) (\<lambda>(h, i).
     read_n (th_am_batch_cnts h) (exec_am_list W (th_team_id h)) data i)"

definition exec_batched_am :: "('am, 'ret) wire \<Rightarrow> nat \<Rightarrow> bytes \<Rightarrow> nat \<Rightarrow> ('am am_event list \<times> nat) exec" where
  "exec_batched_am W batch_cnt data i = ebind (read_n batch_cnt (exec_team W) data i) (\<lambda>(evs, j). Ret (concat (concat evs), j))"

definition team_exec_one :: "('am, 'ret) wire \<Rightarrow> bytes \<Rightarrow> nat \<Rightarrow> ('am am_event list \<times> nat) exec" where
  "team_exec_one W data i =
     ebind (read_at (BATCH_HEADER_LEN W) (w_batch_header W) data i) (\<lambda>(h, i).
     case bh_cmd h of CmdAm \<Rightarrow> Panic ExplicitPanic
     | CmdReturnAm \<Rightarrow> Panic ExplicitPanic
     | CmdData \<Rightarrow> ebind (exec_data_am W data i) (\<lambda>(ev, i). Ret ([ev], i))
     | CmdUnit \<Rightarrow> ebind (exec_unit_am W data i) (\<lambda>(ev, i). Ret ([ev], i))
     | CmdBatchedMsg \<Rightarrow> exec_batched_am W (bh_cnt h) data i)"

partial_function (option) team_exec_batched_msg :: "('am, 'ret) wire \<Rightarrow> bytes \<Rightarrow> nat \<Rightarrow> 'am am_event list exec option" where
  "team_exec_batched_msg W data i =
     (if i < length data then
        (case team_exec_one W data i of
           Panic p \<Rightarrow> Some (Panic p)
         | Ret (ev, j) \<Rightarrow> Option.bind (team_exec_batched_msg W data j) (\<lambda>r. Some (ebind r (\<lambda>evs. Ret (ev @ evs)))))
      else Some (Ret []))"


section \<open>Reading back\<close>

lemma writes_all: "(\<And>x. x \<in> set xs \<Longrightarrow> writes (b x) (f x)) \<Longrightarrow> writes (concat (map b xs)) (write_all f xs)"
proof (induction xs)
  case (Cons x xs)
  then have "writes (b x @ concat (map b xs)) (\<lambda>st. ebind (f x st) (write_all f xs))" by (intro writes_bind) auto
  then show ?case by (simp add: writes_def)
qed (simp add: writes_def)

lemma reads_n: "(\<And>x. x \<in> set xs \<Longrightarrow> reads (b x) f (v x)) \<Longrightarrow> reads (concat (map b xs)) (read_n (length xs) f) (map v xs)"
proof (induction xs)
  case (Cons x xs)
  have "reads (b x @ concat (map b xs)) (\<lambda>data i. ebind (f data i) (\<lambda>(a, j). ebind (read_n (length xs) f data j) (\<lambda>(as, k). Ret (a # as, k)))) (v x # map v xs)"
  proof (rule reads_bind)
    show "reads (b x) f (v x)" using Cons.prems by simp
    have "reads (concat (map b xs)) (read_n (length xs) f) (map v xs)" using Cons by simp
    then show "reads (concat (map b xs)) (\<lambda>data j. ebind (read_n (length xs) f data j) (\<lambda>(as, k). Ret (v x # as, k))) (v x # map v xs)"
      by (simp add: reads_def)
  qed
  then show ?case by (simp add: reads_def)
qed (simp add: reads_def)

definition req_am_bytes :: "('am, 'ret) wire \<Rightarrow> req_meta \<times> 'am \<times> nat \<Rightarrow> bytes" where
  "req_am_bytes W e = enc (w_req_id W) (rq_id (fst e)) @ w_am_bytes W (fst (snd e))"

definition am_list_bytes :: "('am, 'ret) wire \<Rightarrow> am_cmd \<Rightarrow> int \<times> 'am am_list \<Rightarrow> bytes" where
  "am_list_bytes W cmd e = enc (w_batched_am_header W) \<lparr>bah_am_id = fst e, bah_am_cnt = length (snd e), bah_cmd = cmd\<rparr> @ concat (map (req_am_bytes W) (snd e))"

definition team_bytes :: "('am, 'ret) wire \<Rightarrow> am_cmd \<Rightarrow> nat \<times> 'am am_id_map \<Rightarrow> bytes" where
  "team_bytes W cmd e = enc (w_team_header W) \<lparr>th_team_id = fst e, th_am_batch_cnts = length (snd e)\<rparr> @ concat (map (am_list_bytes W cmd) (snd e))"

definition am_batch_bytes :: "('am, 'ret) wire \<Rightarrow> am_cmd \<Rightarrow> 'am team_map \<Rightarrow> bytes" where
  "am_batch_bytes W cmd tm = (if tm \<noteq> [] then enc (w_batch_header W) \<lparr>bh_cmd = CmdBatchedMsg, bh_cnt = length tm\<rparr> @ concat (map (team_bytes W cmd) tm) else [])"

fun non_am_bytes :: "('am, 'ret) wire \<Rightarrow> ('am, 'ret) entry \<Rightarrow> bytes" where
  "non_am_bytes W (rq, LamData ret darcs k, n) = enc (w_batch_header W) \<lparr>bh_cmd = CmdData, bh_cnt = 1\<rparr> @ data_bytes W rq ret darcs"
| "non_am_bytes W (rq, d, n) = enc (w_batch_header W) \<lparr>bh_cmd = CmdUnit, bh_cnt = 1\<rparr> @ unit_bytes W rq"

text \<open>The entries that \<open>team_add\<close> makes.\<close>

definition am_list_ok :: "('am, 'ret) wire \<Rightarrow> int \<times> 'am am_list \<Rightarrow> bool" where
  "am_list_ok W e \<longleftrightarrow> (\<forall>(rq, am, n) \<in> set (snd e). w_am_id W am = fst e \<and> n = w_am_size W am)"

definition team_map_ok :: "('am, 'ret) wire \<Rightarrow> 'am team_map \<Rightarrow> bool" where
  "team_map_ok W tm \<longleftrightarrow> (\<forall>e \<in> set tm. \<forall>x \<in> set (snd e). am_list_ok W x)"

fun non_am_ok :: "('am, 'ret) wire \<Rightarrow> ('am, 'ret) entry \<Rightarrow> bool" where
  "non_am_ok W (rq, LamData ret darcs k, n) \<longleftrightarrow> k = length (enc (w_darcs W) darcs) \<and> n = w_ret_size W ret + k + DATA_HEADER_LEN W + BATCH_HEADER_LEN W"
| "non_am_ok W (rq, LamUnit, n) \<longleftrightarrow> n = UNIT_HEADER_LEN W + BATCH_HEADER_LEN W"
| "non_am_ok W (rq, d, n) \<longleftrightarrow> False"

definition cmd_event :: "am_cmd \<Rightarrow> req_id \<Rightarrow> nat \<Rightarrow> 'am \<Rightarrow> 'am am_event" where
  "cmd_event cmd = (if cmd = CmdAm then RunAm else RunReturn)"

definition am_list_events :: "am_cmd \<Rightarrow> nat \<Rightarrow> int \<times> 'am am_list \<Rightarrow> 'am am_event list" where
  "am_list_events cmd team_id e = map (\<lambda>(rq, am, n). cmd_event cmd (rq_id rq) team_id am) (snd e)"

definition team_map_events :: "am_cmd \<Rightarrow> 'am team_map \<Rightarrow> 'am am_event list" where
  "team_map_events cmd tm = concat (concat (map (\<lambda>e. map (am_list_events cmd (fst e)) (snd e)) tm))"

fun non_am_event :: "('am, 'ret) wire \<Rightarrow> ('am, 'ret) entry \<Rightarrow> 'am am_event" where
  "non_am_event W (rq, LamData ret darcs k, n) = UserData (rq_id rq) (w_ret_bytes W ret) darcs"
| "non_am_event W (rq, d, n) = UserUnit (rq_id rq)"

lemma serialize_am_list_writes:
  assumes ok: "wire_ok W" and e: "am_list_ok W e"
  shows "writes (am_list_bytes W cmd e) (serialize_am_list W cmd e)"
proof -
  have "writes (req_am_bytes W x) (team_serialize_am W x)" if xe: "x \<in> set (snd e)" for x
  proof -
    obtain rq am where x: "x = (rq, am, w_am_size W am)" by (cases x) (use e xe in \<open>auto simp: am_list_ok_def\<close>)
    have "writes (req_am_bytes W x) (\<lambda>st. ebind (write_at (REQ_ID_LEN W) (enc (w_req_id W) (rq_id rq)) st) (write_at (w_am_size W am) (w_am_bytes W am)))"
      unfolding req_am_bytes_def x fst_conv snd_conv by (intro writes_bind writes_enc writes_at wire_ok_parts [OF ok])
    then show ?thesis by (simp add: team_serialize_am_def x writes_def)
  qed
  then have "writes (am_list_bytes W cmd e) (\<lambda>st. ebind (write_at (BATCHED_AM_HEADER_LEN W)
      (enc (w_batched_am_header W) \<lparr>bah_am_id = fst e, bah_am_cnt = length (snd e), bah_cmd = cmd\<rparr>) st) (write_all (team_serialize_am W) (snd e)))"
    unfolding am_list_bytes_def by (intro writes_bind writes_enc writes_all wire_ok_parts [OF ok])
  then show ?thesis by (simp add: serialize_am_list_def writes_def split_beta)
qed

lemma serialize_am_batch_writes:
  assumes ok: "wire_ok W" and tm: "team_map_ok W tm"
  shows "writes (am_batch_bytes W cmd tm) (serialize_am_batch W cmd tm)"
proof -
  have "writes (team_bytes W cmd e) (serialize_team W cmd e)" if "e \<in> set tm" for e
  proof -
    have "writes (am_list_bytes W cmd x) (serialize_am_list W cmd x)" if "x \<in> set (snd e)" for x
      using serialize_am_list_writes [OF ok] tm that \<open>e \<in> set tm\<close> by (auto simp: team_map_ok_def)
    then have "writes (team_bytes W cmd e) (\<lambda>st. ebind (write_at (TEAM_HEADER_LEN W)
        (enc (w_team_header W) \<lparr>th_team_id = fst e, th_am_batch_cnts = length (snd e)\<rparr>) st) (write_all (serialize_am_list W cmd) (snd e)))"
      unfolding team_bytes_def by (intro writes_bind writes_enc writes_all wire_ok_parts [OF ok])
    then show ?thesis by (simp add: serialize_team_def writes_def split_beta)
  qed
  then have "writes (enc (w_batch_header W) \<lparr>bh_cmd = CmdBatchedMsg, bh_cnt = length tm\<rparr> @ concat (map (team_bytes W cmd) tm))
      (\<lambda>st. ebind (write_at (BATCH_HEADER_LEN W) (enc (w_batch_header W) \<lparr>bh_cmd = CmdBatchedMsg, bh_cnt = length tm\<rparr>) st) (write_all (serialize_team W cmd) tm))"
    by (intro writes_bind writes_enc writes_all wire_ok_parts [OF ok])
  then show ?thesis by (simp add: serialize_am_batch_def am_batch_bytes_def writes_def)
qed

lemma serialize_non_am_writes:
  assumes ok: "wire_ok W" and e: "non_am_ok W e"
  shows "writes (non_am_bytes W e) (serialize_non_am W e)"
proof -
  note P = wire_ok_parts [OF ok]
  obtain rq d n where x: "e = (rq, d, n)" by (cases e)
  show ?thesis
  proof (cases d)
    case (LamData ret darcs k)
    have "writes (non_am_bytes W e) (\<lambda>st. ebind (write_at (BATCH_HEADER_LEN W) (enc (w_batch_header W) \<lparr>bh_cmd = CmdData, bh_cnt = 1\<rparr>) st) (\<lambda>st.
       ebind (write_at (DATA_HEADER_LEN W) (enc (w_data_header W) \<lparr>dh_size = w_ret_size W ret, dh_req_id = rq_id rq, dh_darc_list_size = length (enc (w_darcs W) darcs)\<rparr>) st) (\<lambda>st.
       ebind (write_at (length (enc (w_darcs W) darcs)) (enc (w_darcs W) darcs) st) (\<lambda>st. write_at (w_ret_size W ret) (w_ret_bytes W ret) st))))"
      unfolding x LamData non_am_bytes.simps data_bytes_def by (intro writes_bind writes_enc writes_at P refl)
    then show ?thesis using e by (simp add: x LamData writes_def)
  next
    case LamUnit
    have "writes (non_am_bytes W e) (\<lambda>st. ebind (write_at (BATCH_HEADER_LEN W) (enc (w_batch_header W) \<lparr>bh_cmd = CmdUnit, bh_cnt = 1\<rparr>) st)
        (\<lambda>st. write_at (UNIT_HEADER_LEN W) (enc (w_unit_header W) \<lparr>uh_req_id = rq_id rq\<rparr>) st))"
      unfolding x LamUnit non_am_bytes.simps unit_bytes_def by (intro writes_bind writes_enc P)
    then show ?thesis by (simp add: x LamUnit writes_def)
  qed (use e x in simp_all)
qed

lemma team_serialize_writes:
  assumes ok: "wire_ok W" and "team_map_ok W ams" "team_map_ok W returns" "\<And>e. e \<in> set others \<Longrightarrow> non_am_ok W e"
  shows "writes (am_batch_bytes W CmdAm ams @ am_batch_bytes W CmdReturnAm returns @ concat (map (non_am_bytes W) others)) (team_serialize W ams returns others)"
proof -
  have "writes (am_batch_bytes W CmdAm ams @ am_batch_bytes W CmdReturnAm returns @ concat (map (non_am_bytes W) others))
    (\<lambda>st. ebind (serialize_am_batch W CmdAm ams st) (\<lambda>st. ebind (serialize_am_batch W CmdReturnAm returns st) (write_all (serialize_non_am W) others)))"
    using assms by (intro writes_bind writes_all serialize_am_batch_writes serialize_non_am_writes)
  then show ?thesis by (simp add: writes_def team_serialize_def)
qed

lemma exec_am_list_reads:
  assumes ok: "wire_ok W" and e: "am_list_ok W e" and cmd: "cmd = CmdAm \<or> cmd = CmdReturnAm"
  shows "reads (am_list_bytes W cmd e) (exec_am_list W team_id) (am_list_events cmd team_id e)"
  unfolding exec_am_list_def am_list_bytes_def
proof (rule reads_bind [OF reads_enc [OF wire_ok_parts(7) [OF ok]]])
  have "reads (req_am_bytes W x) (team_exec_am W (\<lambda>r. cmd_event cmd r team_id) (fst e)) (case x of (rq, am, n) \<Rightarrow> cmd_event cmd (rq_id rq) team_id am)"
    if xe: "x \<in> set (snd e)" for x
  proof -
    obtain rq am where x: "x = (rq, am, w_am_size W am)" "w_am_id W am = fst e" by (cases x) (use e xe in \<open>auto simp: am_list_ok_def\<close>)
    show ?thesis unfolding team_exec_am_def req_am_bytes_def x
      by (simp, rule reads_bind [OF reads_enc [OF wire_ok_parts(8) [OF ok]]])
        (use wire_ok_parts(14) [OF ok, of am] x(2) in \<open>simp add: reads_def wire_ok_parts(12) [OF ok]\<close>)
  qed
  from reads_n [OF this, where xs = "snd e"]
  have "reads (concat (map (req_am_bytes W) (snd e))) (read_n (length (snd e)) (team_exec_am W (\<lambda>r. cmd_event cmd r team_id) (fst e))) (am_list_events cmd team_id e)"
    by (simp add: am_list_events_def)
  then show "reads (concat (map (req_am_bytes W) (snd e))) (\<lambda>data. read_n (bah_am_cnt \<lparr>bah_am_id = fst e, bah_am_cnt = length (snd e), bah_cmd = cmd\<rparr>)
      (\<lambda>data i. case bah_cmd \<lparr>bah_am_id = fst e, bah_am_cnt = length (snd e), bah_cmd = cmd\<rparr> of
         CmdAm \<Rightarrow> team_exec_am W (\<lambda>r. RunAm r team_id) (bah_am_id \<lparr>bah_am_id = fst e, bah_am_cnt = length (snd e), bah_cmd = cmd\<rparr>) data i
       | CmdReturnAm \<Rightarrow> team_exec_am W (\<lambda>r. RunReturn r team_id) (bah_am_id \<lparr>bah_am_id = fst e, bah_am_cnt = length (snd e), bah_cmd = cmd\<rparr>) data i
       | _ \<Rightarrow> Panic ExplicitPanic) data) (am_list_events cmd team_id e)"
    using cmd by (auto simp: cmd_event_def)
qed


lemma exec_batched_am_reads:
  assumes ok: "wire_ok W" and tm: "team_map_ok W tm" and cmd: "cmd = CmdAm \<or> cmd = CmdReturnAm"
  shows "reads (concat (map (team_bytes W cmd) tm)) (exec_batched_am W (length tm)) (team_map_events cmd tm)"
proof -
  have "reads (team_bytes W cmd e) (exec_team W) (map (am_list_events cmd (fst e)) (snd e))" if e: "e \<in> set tm" for e
    unfolding exec_team_def team_bytes_def
  proof (rule reads_bind [OF reads_enc [OF wire_ok_parts(6) [OF ok]]])
    have "reads (am_list_bytes W cmd x) (exec_am_list W (fst e)) (am_list_events cmd (fst e) x)" if "x \<in> set (snd e)" for x
      using exec_am_list_reads [OF ok _ cmd] tm e that by (auto simp: team_map_ok_def)
    from reads_n [OF this, where xs = "snd e"]
    show "reads (concat (map (am_list_bytes W cmd) (snd e))) (\<lambda>data. read_n (th_am_batch_cnts \<lparr>th_team_id = fst e, th_am_batch_cnts = length (snd e)\<rparr>)
        (exec_am_list W (th_team_id \<lparr>th_team_id = fst e, th_am_batch_cnts = length (snd e)\<rparr>)) data) (map (am_list_events cmd (fst e)) (snd e))"
      by simp
  qed
  from reads_n [OF this, where xs = tm] show ?thesis by (simp add: reads_def exec_batched_am_def team_map_events_def)
qed

lemma team_exec_am_batch_reads:
  assumes "wire_ok W" "team_map_ok W tm" "cmd = CmdAm \<or> cmd = CmdReturnAm" "tm \<noteq> []"
  shows "reads (am_batch_bytes W cmd tm) (team_exec_one W) (team_map_events cmd tm)"
  unfolding team_exec_one_def am_batch_bytes_def using assms(4)
  by (simp, rule_tac reads_bind [OF reads_enc [OF wire_ok_parts(5) [OF assms(1)]]]) (use exec_batched_am_reads [OF assms(1-3)] in simp)

lemma team_exec_non_am_reads:
  assumes ok: "wire_ok W" and e: "non_am_ok W e"
  shows "reads (non_am_bytes W e) (team_exec_one W) [non_am_event W e]"
proof -
  obtain rq d n where x: "e = (rq, d, n)" by (cases e)
  show ?thesis
  proof (cases d)
    case (LamData ret darcs k)
    show ?thesis unfolding team_exec_one_def x LamData non_am_bytes.simps
      by (rule reads_bind [OF reads_enc [OF wire_ok_parts(5) [OF ok]]]) (use exec_data_reads [OF ok] in \<open>simp add: reads_def\<close>)
  next
    case LamUnit
    show ?thesis unfolding team_exec_one_def x LamUnit non_am_bytes.simps
      by (rule reads_bind [OF reads_enc [OF wire_ok_parts(5) [OF ok]]]) (use exec_unit_reads [OF ok] in \<open>simp add: reads_def\<close>)
  qed (use e x in simp_all)
qed

text \<open>The loop of the receiver reads parts that are each not empty.\<close>

lemma team_exec_parts:
  assumes "\<And>x. x \<in> set xs \<Longrightarrow> b x \<noteq> [] \<and> reads (b x) (team_exec_one W) (v x)"
  shows "team_exec_batched_msg W (pre @ concat (map b xs)) (length pre) = Some (Ret (concat (map v xs)))"
  using assms
proof (induction xs arbitrary: pre)
  case Nil
  then show ?case by (simp add: team_exec_batched_msg.simps)
next
  case (Cons x xs)
  have x: "b x \<noteq> []" "reads (b x) (team_exec_one W) (v x)" using Cons.prems by auto
  have "team_exec_one W (pre @ b x @ concat (map b xs)) (length pre) = Ret (v x, length (pre @ b x))" by (rule readsD [OF x(2)])
  then show ?case using Cons.IH [of "pre @ b x"] Cons.prems x(1)
    by (subst team_exec_batched_msg.simps) simp
qed

lemma team_exec_reads:
  assumes ok: "wire_ok W" and "team_map_ok W ams" "team_map_ok W returns" "\<And>e. e \<in> set others \<Longrightarrow> non_am_ok W e"
  shows "team_exec_batched_msg W (am_batch_bytes W CmdAm ams @ am_batch_bytes W CmdReturnAm returns @ concat (map (non_am_bytes W) others)) 0
    = Some (Ret (team_map_events CmdAm ams @ team_map_events CmdReturnAm returns @ map (non_am_event W) others))"
proof -
  let ?parts = "filter (\<lambda>p. fst p \<noteq> []) [(am_batch_bytes W CmdAm ams, team_map_events CmdAm ams), (am_batch_bytes W CmdReturnAm returns, team_map_events CmdReturnAm returns)]
    @ map (\<lambda>e. (non_am_bytes W e, [non_am_event W e])) others"
  have "enc (w_batch_header W) h \<noteq> []" for h
    using wire_ok_parts(10) [OF ok] length_enc [OF wire_ok_parts(5) [OF ok], of h] by auto
  then have ne: "am_batch_bytes W cmd tm \<noteq> [] \<longleftrightarrow> tm \<noteq> []" for cmd tm
    by (auto simp: am_batch_bytes_def)
  have ne2: "non_am_bytes W e \<noteq> []" if "non_am_ok W e" for e
    using \<open>\<And>h. enc (w_batch_header W) h \<noteq> []\<close> by (cases "(W, e)" rule: non_am_bytes.cases) auto
  have "fst p \<noteq> [] \<and> reads (fst p) (team_exec_one W) (snd p)" if "p \<in> set ?parts" for p
    using that assms(2-4) team_exec_am_batch_reads [OF ok] team_exec_non_am_reads [OF ok] ne ne2 by (auto split: if_splits)
  from team_exec_parts [where xs = ?parts and b = fst and v = snd and pre = "[]", OF this]
  have "team_exec_batched_msg W (concat (map fst ?parts)) 0 = Some (Ret (concat (map snd ?parts)))" by simp
  moreover have "concat (map fst ?parts) = am_batch_bytes W CmdAm ams @ am_batch_bytes W CmdReturnAm returns @ concat (map (non_am_bytes W) others)"
    by (auto simp: o_def)
  moreover have "concat (map snd ?parts) = team_map_events CmdAm ams @ team_map_events CmdReturnAm returns @ map (non_am_event W) others"
    using ne [of CmdAm ams] ne [of CmdReturnAm returns] by (auto simp: o_def team_map_events_def)
  ultimately show ?thesis by simp
qed


section \<open>Adding to a batch\<close>

text \<open>A sum over the entries of a map in which no entry is empty.\<close>

lemma entry_update_sum:
  fixes g :: "'k \<Rightarrow> 'v list \<Rightarrow> 'a :: comm_monoid_add"
  assumes "\<And>e. e \<in> set m \<Longrightarrow> snd e \<noteq> []"
  shows "sum_list (map (\<lambda>(k', v). c + g k' v) (entry_update k f m)) + g k (entry_or_empty k m)
    = sum_list (map (\<lambda>(k', v). c + g k' v) m) + (if entry_or_empty k m = [] then c + g k [] else 0) + g k (f (entry_or_empty k m))"
  using assms
proof (induction m)
  case (Cons e m)
  obtain k' v where e: "e = (k', v)" by (cases e)
  have "v \<noteq> []" using Cons.prems [of e] e by simp
  then show ?case using Cons by (cases "k' = k") (auto simp: e entry_or_empty_def ac_simps)
qed (simp add: entry_or_empty_def ac_simps)

lemma entry_update_set: "set (entry_update k f m) \<subseteq> insert (k, f (entry_or_empty k m)) (set m)"
  by (induction m) (auto simp: entry_or_empty_def)

lemma entry_update_ne: "entry_update k f m \<noteq> []"
  by (cases m) (auto split: if_split_asm)

lemma entry_or_empty_in: "entry_or_empty k m = v \<Longrightarrow> v \<noteq> [] \<Longrightarrow> (k, v) \<in> set m"
  by (auto simp: entry_or_empty_def dest: map_of_SomeD split: option.splits)

definition am_id_len :: "('am, 'ret) wire \<Rightarrow> 'am am_id_map \<Rightarrow> nat" where
  "am_id_len W m = sum_list (map (\<lambda>(am_id, v). BATCHED_AM_HEADER_LEN W + sum_list (map (\<lambda>x. REQ_ID_LEN W + snd (snd x)) v)) m)"

definition team_len :: "('am, 'ret) wire \<Rightarrow> 'am team_map \<Rightarrow> nat" where
  "team_len W tm = sum_list (map (\<lambda>(team_id, m). TEAM_HEADER_LEN W + am_id_len W m) tm)"

definition filled :: "'am team_map \<Rightarrow> bool" where
  "filled tm \<longleftrightarrow> (\<forall>e \<in> set tm. snd e \<noteq> [] \<and> (\<forall>x \<in> set (snd e). snd x \<noteq> []))"

lemma add_am_len:
  assumes "filled tm" "add_am_to_batch W rq am am_id n tm = (k, tm')"
  shows "team_len W tm' = team_len W tm + k"
proof -
  let ?tb = "entry_or_empty (rq_team_addr rq) tm" let ?ab = "entry_or_empty am_id ?tb"
  let ?g = "\<lambda>v. sum_list (map (\<lambda>x. REQ_ID_LEN W + snd (snd x)) v)"
  have tb: "snd x \<noteq> []" if "x \<in> set ?tb" for x
    using entry_or_empty_in [of "rq_team_addr rq" tm ?tb] that assms(1) by (fastforce simp: filled_def)
  have "am_id_len W (entry_update am_id (\<lambda>v. v @ [(rq, am, n)]) ?tb) + ?g ?ab
      = am_id_len W ?tb + (if ?ab = [] then BATCHED_AM_HEADER_LEN W else 0) + ?g (?ab @ [(rq, am, n)])"
    using entry_update_sum [where m = ?tb and c = "BATCHED_AM_HEADER_LEN W" and g = "\<lambda>_. ?g" and k = am_id and f = "\<lambda>v. v @ [(rq, am, n)]", OF tb] by (simp add: am_id_len_def)
  moreover have "team_len W tm' + am_id_len W ?tb = team_len W tm + (if ?tb = [] then TEAM_HEADER_LEN W else 0) + am_id_len W (entry_update am_id (\<lambda>v. v @ [(rq, am, n)]) ?tb)"
    using entry_update_sum [of tm "TEAM_HEADER_LEN W" "\<lambda>_. am_id_len W" "rq_team_addr rq" "entry_update am_id (\<lambda>v. v @ [(rq, am, n)])"] assms
    by (auto simp: team_len_def add_am_to_batch_def Let_def filled_def am_id_len_def)
  ultimately show ?thesis using assms(2) by (auto simp: add_am_to_batch_def Let_def)
qed

lemma mset_team_map_events:
  "mset (team_map_events cmd tm) = sum_list (map (\<lambda>(team_id, m). {#} + sum_list (map (\<lambda>(am_id, v). {#} + mset (map (\<lambda>(rq, am, n). cmd_event cmd (rq_id rq) team_id am) v)) m)) tm)"
proof -
  have "mset (concat (map (am_list_events cmd t) m)) = sum_list (map (\<lambda>(am_id, v). {#} + mset (map (\<lambda>(rq, am, n). cmd_event cmd (rq_id rq) t am) v)) m)" for t and m :: "'a am_id_map"
    by (induction m) (auto simp: am_list_events_def)
  then show ?thesis by (induction tm) (auto simp: team_map_events_def)
qed

lemma add_am_events:
  assumes "filled tm" "add_am_to_batch W rq am am_id n tm = (k, tm')"
  shows "mset (team_map_events cmd tm') = add_mset (cmd_event cmd (rq_id rq) (rq_team_addr rq) am) (mset (team_map_events cmd tm))"
proof -
  let ?t = "rq_team_addr rq" let ?tb = "entry_or_empty ?t tm" let ?ab = "entry_or_empty am_id ?tb" and ?app = "\<lambda>v. v @ [(rq, am, n)]"
  let ?g = "\<lambda>t v. mset (map (\<lambda>(rq, am, n). cmd_event cmd (rq_id rq) t am) v)"
  let ?G = "\<lambda>t m. sum_list (map (\<lambda>(am_id, v). {#} + ?g t v) m)"
  have tb: "snd x \<noteq> []" if "x \<in> set ?tb" for x
    using entry_or_empty_in [of ?t tm ?tb] that assms(1) by (fastforce simp: filled_def)
  have "?G ?t (entry_update am_id ?app ?tb) + ?g ?t ?ab = ?G ?t ?tb + ?g ?t (?app ?ab)"
    using entry_update_sum [where m = ?tb and c = "{#}" and g = "\<lambda>_. ?g ?t" and k = am_id and f = ?app, OF tb] by (simp split: if_splits)
  then have inner: "?G ?t (entry_update am_id ?app ?tb) = add_mset (cmd_event cmd (rq_id rq) ?t am) (?G ?t ?tb)" by simp
  have ne: "snd e \<noteq> []" if "e \<in> set tm" for e using assms(1) that by (auto simp: filled_def)
  have "mset (team_map_events cmd tm') + ?G ?t ?tb = mset (team_map_events cmd tm) + ?G ?t (entry_update am_id ?app ?tb)"
    using entry_update_sum [where m = tm and c = "{#}" and g = ?G and k = ?t and f = "entry_update am_id ?app", OF ne] assms(2)
    unfolding mset_team_map_events by (auto simp: add_am_to_batch_def Let_def split: if_splits)
  then show ?thesis unfolding inner by simp
qed


lemma add_am_ok:
  assumes "filled tm" "team_map_ok W tm" "am_id = w_am_id W am" "n = w_am_size W am" "add_am_to_batch W rq am am_id n tm = (k, tm')"
  shows "filled tm' \<and> team_map_ok W tm' \<and> tm' \<noteq> []"
proof -
  let ?tb = "entry_or_empty (rq_team_addr rq) tm" and ?app = "\<lambda>v. v @ [(rq, am, n)]"
  have tm': "tm' = entry_update (rq_team_addr rq) (entry_update am_id ?app) tm" using assms(5) by (simp add: add_am_to_batch_def Let_def)
  have tb: "snd x \<noteq> [] \<and> am_list_ok W x" if "x \<in> set ?tb" for x
    using entry_or_empty_in [of "rq_team_addr rq" tm ?tb] that assms(1,2) by (fastforce simp: filled_def team_map_ok_def)
  have ab: "am_list_ok W (am_id, ?app (entry_or_empty am_id ?tb))"
  proof (cases "entry_or_empty am_id ?tb = []")
    case False
    with tb entry_or_empty_in [of am_id ?tb] have "am_list_ok W (am_id, entry_or_empty am_id ?tb)" by blast
    with assms(3,4) show ?thesis by (auto simp: am_list_ok_def)
  qed (use assms(3,4) in \<open>simp add: am_list_ok_def\<close>)
  have upd: "snd x \<noteq> [] \<and> am_list_ok W x" if "x \<in> set (entry_update am_id ?app ?tb)" for x
    using entry_update_set [THEN subsetD, OF that] tb [of x] ab by auto
  have "snd e \<noteq> [] \<and> (\<forall>x \<in> set (snd e). snd x \<noteq> [] \<and> am_list_ok W x)" if "e \<in> set tm'" for e
    using entry_update_set [THEN subsetD, OF that [unfolded tm']] upd assms(1,2) by (auto simp: entry_update_ne filled_def team_map_ok_def)
  then show ?thesis by (auto simp: entry_update_ne filled_def team_map_ok_def tm')
qed

definition team_inner_ok :: "('am, 'ret) wire \<Rightarrow> ('am, 'ret) am_msg list \<Rightarrow> ('am, 'ret) team_inner \<Rightarrow> bool" where
  "team_inner_ok W ms b \<longleftrightarrow> filled (ti_ams b) \<and> filled (ti_returns b) \<and> team_map_ok W (ti_ams b) \<and> team_map_ok W (ti_returns b)
     \<and> (\<forall>e \<in> set (ti_others b). non_am_ok W e)
     \<and> ti_size b = team_len W (ti_ams b) + team_len W (ti_returns b) + sum_list (map (snd \<circ> snd) (ti_others b))
     \<and> mset (map (msg_event W) ms) = mset (team_map_events CmdAm (ti_ams b)) + mset (team_map_events CmdReturnAm (ti_returns b)) + mset (map (non_am_event W) (ti_others b))"

lemma team_add_ok: "team_inner_ok W ms b \<Longrightarrow> team_inner_ok W (ms @ [m]) (team_add W m b)"
proof (cases m)
  case (MsgAm rq am)
  assume ok: "team_inner_ok W ms b"
  obtain k tm where a: "add_am_to_batch W rq am (w_am_id W am) (w_am_size W am) (ti_ams b) = (k, tm)" by fastforce
  show ?thesis using ok a add_am_ok [OF _ _ refl refl a] add_am_len [OF _ a] add_am_events [OF _ a, of CmdAm]
    by (auto simp: MsgAm team_inner_ok_def cmd_event_def)
next
  case (MsgReturn rq am)
  assume ok: "team_inner_ok W ms b"
  obtain k tm where a: "add_am_to_batch W rq am (w_am_id W am) (w_am_size W am) (ti_returns b) = (k, tm)" by fastforce
  show ?thesis using ok a add_am_ok [OF _ _ refl refl a] add_am_len [OF _ a] add_am_events [OF _ a, of CmdReturnAm]
    by (auto simp: MsgReturn team_inner_ok_def cmd_event_def)
qed (auto simp: team_inner_ok_def Let_def)

lemma team_add_all_ok: "team_inner_ok W ms (fold (team_add W) ms team_inner_new)"
proof (induction ms rule: rev_induct)
  case Nil
  show ?case by (simp add: team_inner_ok_def team_inner_new_def filled_def team_map_ok_def team_len_def team_map_events_def)
next
  case (snoc m ms)
  then show ?case by (simp add: team_add_ok)
qed

section \<open>Order of iteration\<close>

text \<open>The same map of maps, iterated in another order at both levels.\<close>

definition tm_content :: "'am team_map \<Rightarrow> (nat \<times> (int \<times> 'am am_list) multiset) multiset" where
  "tm_content tm = image_mset (\<lambda>(k, m). (k, mset m)) (mset tm)"

lemma sum_content:
  fixes f :: "nat \<times> 'am am_id_map \<Rightarrow> 'b :: comm_monoid_add"
  assumes "\<And>k m. f (k, m) = F (k, mset m)"
  shows "sum_list (map f tm) = sum_mset (image_mset F (tm_content tm))"
proof -
  have "f = (\<lambda>e. F (case e of (k, m) \<Rightarrow> (k, mset m)))" using assms by auto
  then have "image_mset F (tm_content tm) = mset (map f tm)" by (simp add: tm_content_def multiset.map_comp o_def)
  then show ?thesis by (metis sum_mset_sum_list)
qed

lemma sum_list_mset_map: "sum_list (map f xs) = sum_mset (image_mset f (mset xs))"
  by (metis mset_map sum_mset_sum_list)

lemma team_len_content: "tm_content tm = tm_content tm' \<Longrightarrow> team_len W tm = team_len W tm'"
proof -
  let ?F = "\<lambda>(k, M). TEAM_HEADER_LEN W + sum_mset (image_mset (\<lambda>(am_id, v). BATCHED_AM_HEADER_LEN W + sum_list (map (\<lambda>x. REQ_ID_LEN W + snd (snd x)) v)) M)"
  have "team_len W tm = sum_mset (image_mset ?F (tm_content tm))" for tm
    unfolding team_len_def by (rule sum_content) (simp add: am_id_len_def sum_list_mset_map)
  then show "tm_content tm = tm_content tm' \<Longrightarrow> team_len W tm = team_len W tm'" by simp
qed

lemma team_map_events_content: "tm_content tm = tm_content tm' \<Longrightarrow> mset (team_map_events cmd tm) = mset (team_map_events cmd tm')"
proof -
  let ?F = "\<lambda>(k, M). {#} + sum_mset (image_mset (\<lambda>(am_id, v). {#} + mset (map (\<lambda>(rq, am, n). cmd_event cmd (rq_id rq) k am) v)) M)"
  have "mset (team_map_events cmd tm) = sum_mset (image_mset ?F (tm_content tm))" for tm :: "'a team_map"
    unfolding mset_team_map_events by (rule sum_content) (simp add: sum_list_mset_map)
  then show "tm_content tm = tm_content tm' \<Longrightarrow> mset (team_map_events cmd tm) = mset (team_map_events cmd tm')" by simp
qed

lemma team_map_ok_content:
  assumes "tm_content tm = tm_content tm'" "team_map_ok W tm'"
  shows "team_map_ok W tm"
proof -
  have "team_map_ok W tm \<longleftrightarrow> (\<forall>e \<in># tm_content tm. \<forall>x \<in># snd e. am_list_ok W x)" for tm :: "'a team_map"
    by (auto simp: team_map_ok_def tm_content_def)
  with assms show ?thesis by simp
qed

lemma content_empty: "tm_content tm = tm_content tm' \<Longrightarrow> tm = [] \<longleftrightarrow> tm' = []"
  by (auto simp: tm_content_def)

lemma length_am_list: "wire_ok W \<Longrightarrow> am_list_ok W e \<Longrightarrow> length (am_list_bytes W cmd e) = BATCHED_AM_HEADER_LEN W + sum_list (map (\<lambda>x. REQ_ID_LEN W + snd (snd x)) (snd e))"
proof -
  assume ok: "wire_ok W" and e: "am_list_ok W e"
  have "map (\<lambda>x. length (req_am_bytes W x)) (snd e) = map (\<lambda>x. REQ_ID_LEN W + snd (snd x)) (snd e)"
    using e by (intro map_cong) (auto simp: am_list_ok_def req_am_bytes_def length_enc [OF wire_ok_parts(8) [OF ok]] wire_ok_parts(12) [OF ok])
  from arg_cong [OF this, of sum_list] show ?thesis by (simp add: am_list_bytes_def length_concat o_def length_enc [OF wire_ok_parts(7) [OF ok]])
qed

lemma length_am_batch:
  assumes ok: "wire_ok W" and tm: "team_map_ok W tm"
  shows "length (am_batch_bytes W cmd tm) = (if tm \<noteq> [] then BATCH_HEADER_LEN W else 0) + team_len W tm"
proof -
  have "length (team_bytes W cmd e) = TEAM_HEADER_LEN W + am_id_len W (snd e)" if e: "e \<in> set tm" for e
  proof -
    have "map (length \<circ> am_list_bytes W cmd) (snd e) = map (\<lambda>(am_id, v). BATCHED_AM_HEADER_LEN W + sum_list (map (\<lambda>x. REQ_ID_LEN W + snd (snd x)) v)) (snd e)"
      using tm e length_am_list [OF ok] by (intro map_cong) (fastforce simp: team_map_ok_def)+
    from arg_cong [OF this, of sum_list] show ?thesis by (simp add: team_bytes_def length_concat am_id_len_def length_enc [OF wire_ok_parts(6) [OF ok]])
  qed
  then have "map (length \<circ> team_bytes W cmd) tm = map (\<lambda>(team_id, m). TEAM_HEADER_LEN W + am_id_len W m) tm" by (intro map_cong) auto
  from arg_cong [OF this, of sum_list] show ?thesis by (simp add: am_batch_bytes_def length_concat team_len_def length_enc [OF wire_ok_parts(5) [OF ok]])
qed

lemma length_non_am: "wire_ok W \<Longrightarrow> non_am_ok W e \<Longrightarrow> length (non_am_bytes W e) = snd (snd e)"
  using wire_ok_parts [of W] by (cases "(W, e)" rule: non_am_ok.cases) (auto simp: data_bytes_def unit_bytes_def length_enc)

text \<open>
  C21. Batches of the batcher that sorts active messages by team and kind survive the transport as well, in whatever order the hash maps are iterated: the buffer of
  the size that was counted while messages were added is exactly filled, the receiver does not panic, its loop ends, and it does for every
  message exactly once what the message asks for.
\<close>

theorem team_batch_roundtrip:
  assumes "wire_ok W" "b = fold (team_add W) ms team_inner_new" "tm_content ams = tm_content (ti_ams b)" "tm_content returns = tm_content (ti_returns b)"
    "length mem = team_buf_size W b"
  shows "\<exists>buf evs. team_serialize W ams returns (ti_others b) (mem, 0) = Ret (buf, length mem) \<and> length buf = length mem
    \<and> team_exec_batched_msg W buf 0 = Some (Ret evs) \<and> mset evs = mset (map (msg_event W) ms)"
proof -
  have b: "team_inner_ok W ms b" using team_add_all_ok assms(2) by simp
  have maps: "team_map_ok W ams" "team_map_ok W returns" using b assms(3,4) team_map_ok_content by (auto simp: team_inner_ok_def)
  have others: "non_am_ok W e" if "e \<in> set (ti_others b)" for e using b that by (simp add: team_inner_ok_def)
  let ?x = "am_batch_bytes W CmdAm ams @ am_batch_bytes W CmdReturnAm returns @ concat (map (non_am_bytes W) (ti_others b))"
  have "map (length \<circ> non_am_bytes W) (ti_others b) = map (snd \<circ> snd) (ti_others b)"
    using others length_non_am [OF assms(1)] by (intro map_cong) auto
  from arg_cong [OF this, of sum_list] have len: "length ?x = length mem"
    using assms(5) b content_empty [OF assms(3)] content_empty [OF assms(4)] team_len_content [OF assms(3), of W] team_len_content [OF assms(4), of W]
    by (simp add: length_am_batch [OF assms(1)] maps length_concat team_buf_size_def team_inner_ok_def)
  have "team_serialize W ams returns (ti_others b) ([] @ mem, length ([] :: bytes)) = Ret (([] @ ?x) @ drop (length ?x) mem, length ([] @ ?x))"
    by (rule writesD [OF team_serialize_writes [OF assms(1) maps others]]) (use len in simp_all)
  then have "team_serialize W ams returns (ti_others b) (mem, 0) = Ret (?x, length mem)" using len by simp
  moreover have "team_exec_batched_msg W ?x 0 = Some (Ret (team_map_events CmdAm ams @ team_map_events CmdReturnAm returns @ map (non_am_event W) (ti_others b)))"
    by (rule team_exec_reads [OF assms(1) maps others])
  moreover have "mset (team_map_events CmdAm ams @ team_map_events CmdReturnAm returns @ map (non_am_event W) (ti_others b)) = mset (map (msg_event W) ms)"
    using b team_map_events_content [OF assms(3), of CmdAm] team_map_events_content [OF assms(4), of CmdReturnAm] by (simp add: team_inner_ok_def)
  ultimately show ?thesis using len by blast
qed

theorem team_batch_roundtrip_witness:
  "\<exists>buf evs. team_serialize ex_wire [(96, [(7, [(ex_req 1, 17, 1)])])] [(96, [(7, [(ex_req 4, 19, 1)])])]
       [(ex_req 2, LamUnit, 4), (ex_req 3, LamData 18 [5, 6] 2, 9)] (replicate 35 0, 0) = Ret (buf, 35)
     \<and> team_exec_batched_msg ex_wire buf 0 = Some (Ret evs) \<and> mset evs = mset (map (msg_event ex_wire) ex_msgs)"
proof -
  let ?b = "fold (team_add ex_wire) ex_msgs team_inner_new"
  have b: "?b = \<lparr>ti_ams = [(96, [(7, [(ex_req 1, 17, 1)])])], ti_returns = [(96, [(7, [(ex_req 4, 19, 1)])])],
      ti_others = [(ex_req 2, LamUnit, 4), (ex_req 3, LamData 18 [5, 6] 2, 9)], ti_size = 31\<rparr>"
    by (simp add: ex_msgs_def team_inner_new_def add_am_to_batch_def entry_or_empty_def Let_def ex_wire_def ex_lens ex_req_def)
  have "team_buf_size ex_wire ?b = 35" by (simp add: b team_buf_size_def ex_lens) (simp add: ex_wire_def)
  then show ?thesis using team_batch_roundtrip [OF ex_wire_ok refl refl refl, of "replicate 35 0" ex_msgs] b by auto
qed

end
