(* ===== verification/Am_Flush.thy ===== *)
theory Am_Flush
  imports Transition_Systems Multiset_Lists
begin

text \<open>
  The batches in which active messages are collected (\<open>active_messaging/batching\<close>), for one destination.  The call that adds the first message to a
  batch submits a task that waits until no more messages arrive and then transmits the batch; a call that finds the batch large
  transmits it at once.  Both batchers follow this protocol.  A step is one access to shared memory; the atomic variables
  are sequentially consistent.
\<close>

section \<open>Batches\<close>

text \<open>A message with its size in the batch.  The lock of a batch makes \<open>add\<close> and \<open>swap\<close> atomic.\<close>

record 'm batch_inner =
  bi_batch :: "('m \<times> nat) list"
  bi_size :: nat
  bi_batch_id :: nat

definition MAX_BATCH_SIZE :: nat where
  "MAX_BATCH_SIZE = 1000000"

definition inner_new :: "'m batch_inner" where
  "inner_new = \<lparr>bi_batch = [], bi_size = 0, bi_batch_id = 0\<rparr>"

definition inner_add :: "'m \<Rightarrow> nat \<Rightarrow> 'm batch_inner \<Rightarrow> nat \<times> 'm batch_inner" where
  "inner_add m len b = (bi_size b, b\<lparr>bi_batch := bi_batch b @ [(m, len)], bi_size := bi_size b + len\<rparr>)"

definition inner_swap :: "'m batch_inner \<Rightarrow> (('m \<times> nat) list \<times> nat) \<times> 'm batch_inner" where
  "inner_swap b = ((bi_batch b, bi_size b), b\<lparr>bi_batch := [], bi_size := 0, bi_batch_id := bi_batch_id b + 1\<rparr>)"

section \<open>Tasks\<close>

text \<open>
  A call that adds a message (\<open>Enter\<close>, then \<open>Add\<close>), which for the first message of a batch reads the id of the batch (\<open>Load\<close>) and submits a task.
  The task evaluates the condition of its loop from left to right (\<open>Stall\<close>, \<open>Size\<close>, \<open>Id\<close>), reads the mark again (\<open>Mark\<close>), and
  after the loop looks whether its batch is still there (\<open>Check\<close>).  \<open>Transmit\<close> is \<open>create_tx_task\<close>.
\<close>

datatype 'm flush_task =
    Enter 'm nat nat
  | Add 'm nat nat
  | Load nat
  | Stall nat nat
  | Size nat nat
  | Id nat nat
  | Mark nat nat
  | Check nat
  | Transmit
  | Finished

record 'm flush_state =
  fl_inner :: "'m batch_inner"
  fl_stall_mark :: nat
  fl_tasks :: "'m flush_task list"
  fl_sent :: "'m list list"

definition add_to_batch :: "'m \<Rightarrow> nat \<Rightarrow> nat \<Rightarrow> 'm flush_state \<Rightarrow> 'm flush_task \<times> 'm flush_state" where
  "add_to_batch m len stall_mark s = (case inner_add m len (fl_inner s) of (old, b) \<Rightarrow>
     (if old = 0 then Load stall_mark else if MAX_BATCH_SIZE \<le> old then Transmit else Finished, s\<lparr>fl_inner := b\<rparr>))"

definition create_tx_task :: "'m flush_state \<Rightarrow> 'm flush_state" where
  "create_tx_task s = (case inner_swap (fl_inner s) of ((buf, len), b) \<Rightarrow>
     s\<lparr>fl_inner := b, fl_sent := (if 0 < len then fl_sent s @ [map fst buf] else fl_sent s)\<rparr>)"

fun flush_exec :: "'m flush_task \<Rightarrow> 'm flush_state \<Rightarrow> 'm flush_task \<times> 'm flush_state" where
  "flush_exec (Enter m len stall) s = (Add m len stall, if stall = 0 then s\<lparr>fl_stall_mark := fl_stall_mark s + 1\<rparr> else s)"
| "flush_exec (Add m len stall) s = add_to_batch m len stall s"
| "flush_exec (Load stall) s = (Stall (bi_batch_id (fl_inner s)) stall, s)"
| "flush_exec (Stall i stall) s = (if stall \<noteq> fl_stall_mark s then Size i stall else Check i, s)"
| "flush_exec (Size i stall) s = (if bi_size (fl_inner s) < MAX_BATCH_SIZE then Id i stall else Check i, s)"
| "flush_exec (Id i stall) s = (if i = bi_batch_id (fl_inner s) then Mark i stall else Check i, s)"
| "flush_exec (Mark i stall) s = (Stall i (fl_stall_mark s), s)"
| "flush_exec (Check i) s = (if i = bi_batch_id (fl_inner s) then Transmit else Finished, s)"
| "flush_exec Transmit s = (Finished, create_tx_task s)"
| "flush_exec Finished s = (Finished, s)"

inductive flush_step :: "'m flush_state \<Rightarrow> 'm flush_state \<Rightarrow> bool" where
  run: "i < length (fl_tasks s) \<Longrightarrow> fl_tasks s ! i \<noteq> Finished \<Longrightarrow> flush_exec (fl_tasks s ! i) s = (t, s') \<Longrightarrow>
    flush_step s (s'\<lparr>fl_tasks := (fl_tasks s)[i := t]\<rparr>)"

definition flush_start :: "('m \<times> nat \<times> nat) list \<Rightarrow> nat \<Rightarrow> 'm flush_state" where
  "flush_start calls mark = \<lparr>fl_inner = inner_new, fl_stall_mark = mark, fl_tasks = map (\<lambda>(m, len, stall). Enter m len stall) calls, fl_sent = []\<rparr>"

section \<open>Invariant\<close>

fun task_msgs :: "'m flush_task \<Rightarrow> 'm list" where
  "task_msgs (Enter m len stall) = [m]"
| "task_msgs (Add m len stall) = [m]"
| "task_msgs _ = []"

fun task_sized :: "'m flush_task \<Rightarrow> bool" where
  "task_sized (Enter m len stall) \<longleftrightarrow> 0 < len"
| "task_sized (Add m len stall) \<longleftrightarrow> 0 < len"
| "task_sized _ \<longleftrightarrow> True"

text \<open>The tasks that will transmit the batch with an id.\<close>

fun covers :: "nat \<Rightarrow> 'm flush_task \<Rightarrow> bool" where
  "covers b (Load stall) \<longleftrightarrow> True"
| "covers b (Stall i stall) \<longleftrightarrow> i = b"
| "covers b (Size i stall) \<longleftrightarrow> i = b"
| "covers b (Id i stall) \<longleftrightarrow> i = b"
| "covers b (Mark i stall) \<longleftrightarrow> i = b"
| "covers b (Check i) \<longleftrightarrow> i = b"
| "covers b Transmit \<longleftrightarrow> True"
| "covers b _ \<longleftrightarrow> False"

definition batch_inv :: "'m multiset \<Rightarrow> 'm flush_state \<Rightarrow> bool" where
  "batch_inv ms s \<longleftrightarrow> ms = mset (concat (fl_sent s)) + mset (map fst (bi_batch (fl_inner s))) + mset (concat (map task_msgs (fl_tasks s)))
     \<and> bi_size (fl_inner s) = sum_list (map snd (bi_batch (fl_inner s))) \<and> (\<forall>e \<in> set (bi_batch (fl_inner s)). 0 < snd e)
     \<and> (\<forall>t \<in> set (fl_tasks s). task_sized t)
     \<and> (bi_batch (fl_inner s) \<noteq> [] \<longrightarrow> (\<exists>t \<in> set (fl_tasks s). covers (bi_batch_id (fl_inner s)) t))
     \<and> [] \<notin> set (fl_sent s)"

fun batch_weight :: "nat \<Rightarrow> 'm flush_task \<Rightarrow> nat" where
  "batch_weight mark (Enter m len stall) = 0"
| "batch_weight mark (Add m len stall) = 15"
| "batch_weight mark (Load stall) = 12"
| "batch_weight mark (Stall i stall) = (if stall = mark then 3 else 10)"
| "batch_weight mark (Size i stall) = 9"
| "batch_weight mark (Id i stall) = 8"
| "batch_weight mark (Mark i stall) = 7"
| "batch_weight mark (Check i) = 2"
| "batch_weight mark Transmit = 1"
| "batch_weight mark Finished = 0"

fun is_enter :: "'m flush_task \<Rightarrow> bool" where
  "is_enter (Enter m len stall) \<longleftrightarrow> True"
| "is_enter _ \<longleftrightarrow> False"

text \<open>A call that changes the mark can make every task go around once more.\<close>

definition batch_meas :: "'m flush_state \<Rightarrow> nat" where
  "batch_meas s = length (filter is_enter (fl_tasks s)) * (16 * length (fl_tasks s)) + sum_list (map (batch_weight (fl_stall_mark s)) (fl_tasks s))"

lemma covers_update:
  assumes "\<exists>t \<in> set ts. covers b t" "i < length ts" "covers b (ts ! i) \<Longrightarrow> covers b t"
  shows "\<exists>t \<in> set (ts[i := t]). covers b t"
proof -
  obtain k where k: "k < length ts" "covers b (ts ! k)" using assms(1) by (auto simp: in_set_conv_nth)
  show ?thesis
  proof (cases "k = i")
    case True
    then show ?thesis using k assms(2,3) by (auto intro!: bexI [of _ t] set_update_memI)
  next
    case False
    then show ?thesis using k assms(2) by (metis in_set_conv_nth length_list_update nth_list_update_neq)
  qed
qed

lemma flush_exec_tasks: "flush_exec t s = (t', s') \<Longrightarrow> fl_tasks s' = fl_tasks s"
  by (cases t) (auto simp: add_to_batch_def create_tx_task_def inner_add_def inner_swap_def split: if_splits)


lemma batch_inv_parts:
  assumes "batch_inv ms s"
  shows "ms = mset (concat (fl_sent s)) + mset (map fst (bi_batch (fl_inner s))) + mset (concat (map task_msgs (fl_tasks s)))"
    "bi_size (fl_inner s) = sum_list (map snd (bi_batch (fl_inner s)))" "\<And>e. e \<in> set (bi_batch (fl_inner s)) \<Longrightarrow> 0 < snd e"
    "\<And>t. t \<in> set (fl_tasks s) \<Longrightarrow> task_sized t"
    "bi_batch (fl_inner s) \<noteq> [] \<Longrightarrow> \<exists>t \<in> set (fl_tasks s). covers (bi_batch_id (fl_inner s)) t" "[] \<notin> set (fl_sent s)"
  using assms unfolding batch_inv_def by blast+

lemma batch_size_0: "batch_inv ms s \<Longrightarrow> bi_size (fl_inner s) = 0 \<longleftrightarrow> bi_batch (fl_inner s) = []"
  using batch_inv_parts(2,3) [of ms s] by (cases "bi_batch (fl_inner s)") fastforce+

text \<open>A step that leaves the batch alone and keeps the message of the task.\<close>

lemma batch_inv_quiet:
  assumes inv: "batch_inv ms s" and i: "i < length (fl_tasks s)"
    and t: "task_msgs t = task_msgs (fl_tasks s ! i)" "task_sized t" "covers (bi_batch_id (fl_inner s)) (fl_tasks s ! i) \<Longrightarrow> covers (bi_batch_id (fl_inner s)) t"
  shows "batch_inv ms (s\<lparr>fl_stall_mark := k, fl_tasks := (fl_tasks s)[i := t]\<rparr>)"
proof -
  note I = batch_inv_parts [OF inv]
  have "mset (concat (map task_msgs ((fl_tasks s)[i := t]))) = mset (concat (map task_msgs (fl_tasks s)))"
    using mset_concat_update [OF i, of task_msgs t] t(1) by simp
  moreover have "task_sized x" if "x \<in> set ((fl_tasks s)[i := t])" for x
    using set_update_subset_insert [THEN subsetD, OF that] I(4) t(2) by auto
  moreover have "\<exists>x \<in> set ((fl_tasks s)[i := t]). covers (bi_batch_id (fl_inner s)) x" if "bi_batch (fl_inner s) \<noteq> []"
    by (rule covers_update [OF I(5) [OF that] i t(3)])
  ultimately show ?thesis using I(1-3,6) unfolding batch_inv_def by simp
qed

lemma batch_step_inv:
  assumes inv: "batch_inv ms s" and step: "flush_step s u"
  shows "batch_inv ms u"
  using step
proof cases
  case (run i t s')
  note I = batch_inv_parts [OF inv]
  note con = mset_concat_update [OF run(2), of task_msgs t]
  have sized: "task_sized (fl_tasks s ! i)" using I(4) run(2) by simp
  have others: "task_sized x" if "x \<in> set ((fl_tasks s)[i := t])" "task_sized t" for x
    using set_update_subset_insert [THEN subsetD, OF that(1)] I(4) that(2) by auto
  note quiet = batch_inv_quiet [OF inv run(2), of t "fl_stall_mark s'"]
  have q: "batch_inv ms u" if "s' = s\<lparr>fl_stall_mark := fl_stall_mark s'\<rparr>" "task_msgs t = task_msgs (fl_tasks s ! i)" "task_sized t"
    "covers (bi_batch_id (fl_inner s)) (fl_tasks s ! i) \<Longrightarrow> covers (bi_batch_id (fl_inner s)) t"
  proof -
    have "u = s\<lparr>fl_stall_mark := fl_stall_mark s', fl_tasks := (fl_tasks s)[i := t]\<rparr>" using run(1) that(1) by (metis flush_state.update_convs(2,3) flush_state.surjective flush_state.fold_congs(3))
    then show ?thesis using quiet that by simp
  qed
  show ?thesis
  proof (cases "fl_tasks s ! i")
    case (Add m n stall)
    have t: "t = (if bi_size (fl_inner s) = 0 then Load stall else if MAX_BATCH_SIZE \<le> bi_size (fl_inner s) then Transmit else Finished)"
      and s': "s' = s\<lparr>fl_inner := (fl_inner s)\<lparr>bi_batch := bi_batch (fl_inner s) @ [(m, n)], bi_size := bi_size (fl_inner s) + n\<rparr>\<rparr>"
      using run(4) Add by (auto simp: add_to_batch_def inner_add_def split: if_splits)
    have "\<exists>x \<in> set ((fl_tasks s)[i := t]). covers (bi_batch_id (fl_inner s)) x"
    proof (cases "bi_batch (fl_inner s) = []")
      case True
      then have "t = Load stall" using t batch_size_0 [OF inv] by simp
      then show ?thesis using run(2) by (auto intro!: bexI [of _ t] set_update_memI)
    next
      case False
      from covers_update [OF I(5) [OF False] run(2), of t] Add show ?thesis by simp
    qed
    moreover have "task_sized t" "task_msgs t = []" using t by simp_all
    ultimately show ?thesis using I con others sized unfolding batch_inv_def run(1) s' by (auto simp: Add)
  next
    case Transmit
    have t: "t = Finished" and s': "s' = create_tx_task s" using run(4) Transmit by simp_all
    have "mset (concat (map task_msgs ((fl_tasks s)[i := t]))) = mset (concat (map task_msgs (fl_tasks s)))" using con Transmit t by simp
    then show ?thesis using I others [of _] t batch_size_0 [OF inv] unfolding batch_inv_def run(1) s'
      by (auto simp: create_tx_task_def inner_swap_def)
  qed (use run(3,4) sized q in \<open>auto split: if_splits\<close>)
qed


lemma batch_weight_le: "batch_weight mark t \<le> 15"
  by (cases t) simp_all

lemma batch_step_meas:
  assumes "flush_step s u"
  shows "batch_meas u < batch_meas s"
  using assms
proof cases
  case (run i t s')
  let ?E = "length (filter is_enter (fl_tasks s))" and ?N = "length (fl_tasks s)"
  have enters: "length (filter is_enter (fl_tasks u)) + of_bool (is_enter (fl_tasks s ! i)) = ?E + of_bool (is_enter t)"
    using length_filter_update [OF run(2), of is_enter t] by (simp add: run(1))
  have len: "length (fl_tasks u) = ?N" by (simp add: run(1))
  show ?thesis
  proof (cases "is_enter (fl_tasks s ! i)")
    case True
    then obtain m n stall where E: "fl_tasks s ! i = Enter m n stall" by (cases "fl_tasks s ! i") auto
    then have "\<not> is_enter t" using run(4) by auto
    then have e: "?E = Suc (length (filter is_enter (fl_tasks u)))" using enters True by simp
    have "sum_list (map (batch_weight (fl_stall_mark u)) (fl_tasks u)) \<le> sum_list (map (\<lambda>_. 15) (fl_tasks u))"
      by (rule sum_list_mono) (simp add: batch_weight_le)
    also have "\<dots> = 15 * ?N" using len by (simp add: sum_list_triv)
    finally show ?thesis unfolding batch_meas_def len e using run(2) by simp
  next
    case False
    have "\<not> is_enter t" "fl_stall_mark s' = fl_stall_mark s" "batch_weight (fl_stall_mark s) t < batch_weight (fl_stall_mark s) (fl_tasks s ! i)"
      using False run(3,4) by (cases "fl_tasks s ! i"; auto simp: add_to_batch_def create_tx_task_def inner_add_def inner_swap_def split: if_splits)+
    then show ?thesis using enters False sum_map_update [OF run(2), of "batch_weight (fl_stall_mark s)" t] unfolding batch_meas_def len by (simp add: run(1))
  qed
qed

interpretation flush_run: terminating_system flush_step "batch_inv ms" batch_meas "\<lambda>s. \<forall>t \<in> set (fl_tasks s). t = Finished" for ms
proof unfold_locales
  fix s :: "'a flush_state" assume "\<not> (\<forall>t \<in> set (fl_tasks s). t = Finished)"
  then obtain i where "i < length (fl_tasks s)" "fl_tasks s ! i \<noteq> Finished" by (auto simp: in_set_conv_nth)
  then show "\<exists>u. flush_step s u" by (metis flush_step.run surj_pair)
qed (use batch_step_inv batch_step_meas in blast)+

lemma flush_start_inv:
  assumes "\<And>m n stall. (m, n, stall) \<in> set calls \<Longrightarrow> 0 < n"
  shows "batch_inv (mset (map fst calls)) (flush_start calls mark)" "batch_meas (flush_start calls mark) = 16 * length calls * length calls"
proof -
  have "concat (map (task_msgs \<circ> (\<lambda>(m, n, stall). Enter m n stall)) calls) = map fst calls" by (induction calls) auto
  then show "batch_inv (mset (map fst calls)) (flush_start calls mark)"
    using assms by (auto simp: batch_inv_def flush_start_def inner_new_def)
  have "filter is_enter (map (\<lambda>(m, n, stall). Enter m n stall) calls) = map (\<lambda>(m, n, stall). Enter m n stall) calls"
    by (rule filter_True) auto
  moreover have "sum_list (map (batch_weight mark) (map (\<lambda>(m, n, stall). Enter m n stall) calls)) = 0" by (induction calls) auto
  ultimately show "batch_meas (flush_start calls mark) = 16 * length calls * length calls"
    unfolding batch_meas_def flush_start_def by simp
qed

text \<open>
  C19. The messages that are added to a batch, by any number of concurrent calls and in any interleaving with the tasks that transmit it, are transmitted
  exactly once each: the calls and tasks end after at most \<open>16 n\<^sup>2\<close> steps for \<open>n\<close> calls, and then every message is in exactly one of the transmitted
  batches, none of which is empty.
\<close>

theorem batches_transmit_once:
  assumes "\<And>m n stall. (m, n, stall) \<in> set calls \<Longrightarrow> 0 < n" "(flush_step ^^ k) (flush_start calls mark) s"
  shows "k \<le> 16 * length calls * length calls \<and> mset (concat (fl_sent s)) \<subseteq># mset (map fst calls) \<and> [] \<notin> set (fl_sent s)
    \<and> ((\<nexists>u. flush_step s u) \<longrightarrow> mset (concat (fl_sent s)) = mset (map fst calls))"
proof -
  have start: "batch_inv (mset (map fst calls)) (flush_start calls mark)" "batch_meas (flush_start calls mark) = 16 * length calls * length calls"
    using flush_start_inv [of calls mark] assms(1) by blast+
  have inv: "batch_inv (mset (map fst calls)) s"
    using flush_run.reach_inv [OF relpowp_imp_rtranclp [OF assms(2)] start(1)] .
  note I = batch_inv_parts [OF this]
  have "mset (concat (fl_sent s)) = mset (map fst calls)" if "\<nexists>u. flush_step s u"
  proof -
    have fin: "\<forall>t \<in> set (fl_tasks s). t = Finished" using flush_run.progress [OF inv] that by blast
    then have "bi_batch (fl_inner s) = []" using I(5) by fastforce
    moreover have "concat (map task_msgs (fl_tasks s)) = []" using fin by auto
    ultimately show ?thesis using I(1) by simp
  qed
  moreover have "mset (concat (fl_sent s)) \<subseteq># mset (map fst calls)" unfolding I(1) by simp
  moreover have "k \<le> 16 * length calls * length calls"
    using flush_run.run_bound [OF start(1) assms(2)] start(2) by simp
  ultimately show ?thesis using I(6) by blast
qed


definition flush_first :: "'m flush_state \<Rightarrow> 'm flush_state" where
  "flush_first s = (case flush_exec (fl_tasks s ! 0) s of (t, s') \<Rightarrow> s'\<lparr>fl_tasks := (fl_tasks s)[0 := t]\<rparr>)"

lemma flush_first_step: "0 < length (fl_tasks s) \<Longrightarrow> fl_tasks s ! 0 \<noteq> Finished \<Longrightarrow> flush_step s (flush_first s)"
  by (auto simp: flush_first_def intro: flush_step.run split: prod.split)

lemma flush_first_run:
  assumes "\<And>k. k < n \<Longrightarrow> 0 < length (fl_tasks ((flush_first ^^ k) s)) \<and> fl_tasks ((flush_first ^^ k) s) ! 0 \<noteq> Finished"
  shows "(flush_step ^^ n) s ((flush_first ^^ n) s)"
  using assms
proof (induction n)
  case (Suc n)
  then have "(flush_step ^^ n) s ((flush_first ^^ n) s)" by simp
  moreover have "flush_step ((flush_first ^^ n) s) (flush_first ((flush_first ^^ n) s))" using Suc.prems [of n] by (intro flush_first_step) simp_all
  ultimately show ?case by auto
qed simp

theorem batches_transmit_once_witness:
  "(flush_step ^^ 6) (flush_start [(''am'', 4, 1)] 1) ((flush_first ^^ 6) (flush_start [(''am'', 4, 1)] 1))
   \<and> mset (concat (fl_sent ((flush_first ^^ 6) (flush_start [(''am'', 4, 1)] 1)))) = {#''am''#}"
proof -
  let ?s = "flush_start [(''am'', 4, 1)] 1" and ?u = "(flush_first ^^ 6) (flush_start [(''am'', 4, 1)] 1)"
  note eval = flush_start_def flush_first_def inner_new_def add_to_batch_def inner_add_def create_tx_task_def inner_swap_def numeral_eq_Suc
  have run: "(flush_step ^^ 6) ?s ?u"
  proof (rule flush_first_run)
    fix k :: nat assume "k < 6"
    then consider "k = 0" | "k = 1" | "k = 2" | "k = 3" | "k = 4" | "k = 5" by linarith
    then show "0 < length (fl_tasks ((flush_first ^^ k) ?s)) \<and> fl_tasks ((flush_first ^^ k) ?s) ! 0 \<noteq> Finished" by cases (simp_all add: eval)
  qed
  have "\<nexists>v. flush_step ?u v"
    by (auto simp: flush_step.simps eval)
  moreover have "0 < n" if "(m, n, stall) \<in> set [(''am'', 4, 1)]" for m and n stall :: nat using that by simp
  ultimately have "mset (concat (fl_sent ?u)) = mset (map fst [(''am'', 4 :: nat, 1 :: nat)])"
    using batches_transmit_once [of "[(''am'', 4, 1)]" 6 1 ?u] run by blast
  then show ?thesis using run by simp
qed

end
