(* ===== verification/Am_Dispatch.thy ===== *)
theory Am_Dispatch
  imports Am_Team_Batches Am_Flush
begin

text \<open>
  How the engine of the active messages treats a request (\<open>active_messaging/registered_active_message.rs\<close>): it runs it here, adds it to a batch or sends it
  in a message of its own, to one PE or to a team.  What the receivers do is in \<open>Am_Wire\<close>, the batches are in \<open>Am_Flush\<close>.
\<close>

section \<open>Requests\<close>

datatype ('am, 'ret) am =
    AmAll req_meta 'am
  | AmRemote req_meta 'am
  | AmLocal req_meta 'am
  | AmReturn req_meta 'am
  | AmData req_meta 'ret "nat list"
  | AmUnit req_meta
  | AmBatchedReturn req_meta 'am req_id
  | AmBatchedData req_meta 'ret req_id
  | AmBatchedUnit req_meta req_id

definition BATCH_AM_SIZE :: nat where
  "BATCH_AM_SIZE = 100000"

text \<open>What happens to a request: it is run on this PE, given to the batcher, or sent with a command and a buffer.\<close>

datatype ('am, 'ret) am_action =
    RunLocal req_meta 'am
  | ToBatch "('am, 'ret) am_msg"
  | SendNow req_meta am_cmd bytes

text \<open>The buffers come from \<open>create_data_buf\<close>; what an allocated buffer holds is a parameter.\<close>

definition send_am :: "('am, 'ret) wire \<Rightarrow> (nat \<Rightarrow> bytes) \<Rightarrow> am_cmd \<Rightarrow> req_meta \<Rightarrow> 'am \<Rightarrow> nat \<Rightarrow> ('am, 'ret) am_action exec" where
  "send_am W alloc cmd rq am am_size =
     ebind (write_at (AM_HEADER_LEN W) (enc (w_am_header W) \<lparr>ah_am_id = w_am_id W am, ah_team_addr = rq_team_addr rq, ah_req_id = rq_id rq\<rparr>)
       (alloc (am_size + AM_HEADER_LEN W), 0)) (\<lambda>(buf, i).
     ebind (write_at (length buf - i) (w_am_bytes W am) (buf, i)) (\<lambda>(buf, i).
     Ret (SendNow rq cmd buf)))"

definition send_data_am :: "('am, 'ret) wire \<Rightarrow> (nat \<Rightarrow> bytes) \<Rightarrow> req_meta \<Rightarrow> 'ret \<Rightarrow> nat list \<Rightarrow> nat \<Rightarrow> ('am, 'ret) am_action exec" where
  "send_data_am W alloc rq ret darcs data_size = (let darc_list_size = length (enc (w_darcs W) darcs) in
     ebind (write_at (DATA_HEADER_LEN W) (enc (w_data_header W) \<lparr>dh_size = data_size, dh_req_id = rq_id rq, dh_darc_list_size = darc_list_size\<rparr>)
       (alloc (data_size + darc_list_size + DATA_HEADER_LEN W), 0)) (\<lambda>(buf, i).
     ebind (write_at darc_list_size (enc (w_darcs W) darcs) (buf, i)) (\<lambda>(buf, i).
     ebind (write_at (length buf - i) (w_ret_bytes W ret) (buf, i)) (\<lambda>(buf, i).
     Ret (SendNow rq CmdData buf)))))"

definition send_unit_am :: "('am, 'ret) wire \<Rightarrow> (nat \<Rightarrow> bytes) \<Rightarrow> req_meta \<Rightarrow> ('am, 'ret) am_action exec" where
  "send_unit_am W alloc rq =
     ebind (write_at (UNIT_HEADER_LEN W) (enc (w_unit_header W) \<lparr>uh_req_id = rq_id rq\<rparr>) (alloc (UNIT_HEADER_LEN W), 0)) (\<lambda>(buf, i).
     Ret (SendNow rq CmdUnit buf))"

definition batch_or_send :: "bool \<Rightarrow> nat \<Rightarrow> ('am, 'ret) am_msg \<Rightarrow> ('am, 'ret) am_action exec \<Rightarrow> ('am, 'ret) am_action exec" where
  "batch_or_send immediate n m send = (if n < BATCH_AM_SIZE \<and> \<not> immediate then Ret (ToBatch m) else send)"

text \<open>\<open>process_msg\<close> on the PE \<open>me\<close>; the flag says whether the backend is the local one.\<close>

fun process_msg :: "('am, 'ret) wire \<Rightarrow> (nat \<Rightarrow> bytes) \<Rightarrow> bool \<Rightarrow> nat \<Rightarrow> bool \<Rightarrow> ('am, 'ret) am \<Rightarrow> ('am, 'ret) am_action list exec" where
  "process_msg W alloc local me immediate (AmAll rq am) =
     ebind (team_pe (rq_team rq) me) (\<lambda>team_pe_id.
     ebind (if \<not> local \<and> (1 < rt_num_pes (rq_team rq) \<or> isl team_pe_id)
            then ebind (batch_or_send immediate (w_am_size W am) (MsgAm rq am) (send_am W alloc CmdAm rq am (w_am_size W am))) (\<lambda>a. Ret [a])
            else Ret []) (\<lambda>acts.
     ebind (team_pe (rq_team rq) (rq_src rq)) (\<lambda>src_id.
     Ret (acts @ (if \<not> isl src_id then [RunLocal rq am] else [])))))"
| "process_msg W alloc local me immediate (AmRemote rq am) =
     (if rq_dst rq = Some (rq_src rq) then Ret [RunLocal rq am]
      else ebind (batch_or_send immediate (w_am_size W am) (MsgAm rq am) (send_am W alloc CmdAm rq am (w_am_size W am))) (\<lambda>a. Ret [a]))"
| "process_msg W alloc local me immediate (AmLocal rq am) = Ret [RunLocal rq am]"
| "process_msg W alloc local me immediate (AmReturn rq am) =
     ebind (batch_or_send immediate (w_am_size W am) (MsgReturn rq am) (send_am W alloc CmdReturnAm rq am (w_am_size W am))) (\<lambda>a. Ret [a])"
| "process_msg W alloc local me immediate (AmData rq ret darcs) =
     ebind (batch_or_send immediate (w_ret_size W ret) (MsgData rq ret darcs) (send_data_am W alloc rq ret darcs (w_ret_size W ret))) (\<lambda>a. Ret [a])"
| "process_msg W alloc local me immediate (AmUnit rq) =
     ebind (batch_or_send immediate (UNIT_HEADER_LEN W) (MsgUnit rq) (send_unit_am W alloc rq)) (\<lambda>a. Ret [a])"
| "process_msg W alloc local me immediate (AmBatchedReturn rq am batch_id) = Ret []"
| "process_msg W alloc local me immediate (AmBatchedData rq ret batch_id) = Ret []"
| "process_msg W alloc local me immediate (AmBatchedUnit rq batch_id) = Ret []"

section \<open>Receivers\<close>

text \<open>\<open>send_to_pes_async\<close> of a lamellae with several PEs: one PE, or the team except this PE.\<close>

definition send_to_pes :: "nat \<Rightarrow> nat option \<Rightarrow> lamellar_arch_rt \<Rightarrow> nat list" where
  "send_to_pes me pe team = (case pe of Some pe \<Rightarrow> [pe] | None \<Rightarrow> filter (\<lambda>pe. pe \<noteq> me) (iter_collect (team_iter team)))"

definition exec_msg :: "('am, 'ret) wire \<Rightarrow> am_cmd \<Rightarrow> bytes \<Rightarrow> 'am am_event list exec option" where
  "exec_msg W cmd data = (case cmd of
     CmdAm \<Rightarrow> Some (ebind (exec_am W RunAm data 0) (\<lambda>(ev, i). Ret [ev]))
   | CmdReturnAm \<Rightarrow> Some (ebind (exec_am W RunReturn data 0) (\<lambda>(ev, i). Ret [ev]))
   | CmdData \<Rightarrow> Some (ebind (exec_data_am W data 0) (\<lambda>(ev, i). Ret [ev]))
   | CmdUnit \<Rightarrow> Some (ebind (exec_unit_am W data 0) (\<lambda>(ev, i). Ret [ev]))
   | CmdBatchedMsg \<Rightarrow> exec_batched_msg W data 0)"

text \<open>
  What an active message returns; running one is a parameter.  \<open>exec_am\<close> answers the PE that sent the message, with the id of the request; \<open>exec_local_am\<close>
  hands the result to the request of this PE, after running what a local active message returned.  The PE that sent the message is the \<open>src\<close>
  of its header, which \<open>create_header\<close> casts to \<open>u16\<close>: \<open>src\<close> is the sender for worlds of at most \<open>2 ^ 16\<close> PEs.
\<close>

datatype ('am, 'ret) lamellar_return =
    LocalData 'ret
  | LocalAm 'am
  | RemoteData 'ret "nat list"
  | RemoteAm 'am
  | UnitReturn

definition am_reply :: "('am \<Rightarrow> ('am, 'ret) lamellar_return) \<Rightarrow> nat \<Rightarrow> lamellar_arch_rt \<Rightarrow> nat \<Rightarrow> nat \<Rightarrow> req_id \<Rightarrow> 'am \<Rightarrow> ('am, 'ret) am exec" where
  "am_reply run me team team_addr src req_id am =
     (let rq = \<lparr>rq_src = me, rq_dst = Some src, rq_id = req_id, rq_team = team, rq_team_addr = team_addr\<rparr> in
      case run am of
        UnitReturn \<Rightarrow> Ret (AmUnit rq)
      | RemoteData ret darcs \<Rightarrow> Ret (AmData rq ret darcs)
      | RemoteAm am' \<Rightarrow> Ret (AmReturn rq am')
      | LocalData ret \<Rightarrow> Panic ExplicitPanic
      | LocalAm am' \<Rightarrow> Panic ExplicitPanic)"

partial_function (option) exec_local_am :: "('am \<Rightarrow> ('am, 'ret) lamellar_return) \<Rightarrow> req_id \<Rightarrow> 'am \<Rightarrow> (req_id \<times> 'ret option) exec option" where
  "exec_local_am run req_id am = (case run am of
     LocalData ret \<Rightarrow> Some (Ret (req_id, Some ret))
   | LocalAm am' \<Rightarrow> exec_local_am run req_id am'
   | UnitReturn \<Rightarrow> Some (Ret (req_id, None))
   | RemoteData ret darcs \<Rightarrow> Some (Panic ExplicitPanic)
   | RemoteAm am' \<Rightarrow> Some (Panic ExplicitPanic))"

fun return_event :: "('am, 'ret) wire \<Rightarrow> req_id \<Rightarrow> nat \<Rightarrow> ('am, 'ret) lamellar_return \<Rightarrow> 'am am_event option" where
  "return_event W req_id team_addr UnitReturn = Some (UserUnit req_id)"
| "return_event W req_id team_addr (RemoteData ret darcs) = Some (UserData req_id (w_ret_bytes W ret) darcs)"
| "return_event W req_id team_addr (RemoteAm am) = Some (RunReturn req_id team_addr am)"
| "return_event W req_id team_addr _ = None"

text \<open>The messages that arrive at a PE because of an action, with their commands.\<close>

fun arrivals :: "nat \<Rightarrow> nat \<Rightarrow> ('am, 'ret) am_action \<Rightarrow> (am_cmd \<times> bytes) list" where
  "arrivals me w (SendNow rq cmd buf) = map (\<lambda>_. (cmd, buf)) (filter (\<lambda>p. p = w) (send_to_pes me (rq_dst rq) (rq_team rq)))"
| "arrivals me w _ = []"

fun local_runs :: "('am, 'ret) am_action \<Rightarrow> 'am list" where
  "local_runs (RunLocal rq am) = [am]"
| "local_runs _ = []"

text \<open>The destinations of the batches that a batcher has for \<open>n\<close> PEs, and the batch into which a request goes.\<close>

definition batcher_pes :: "nat \<Rightarrow> nat option list" where
  "batcher_pes n = map Some [0..<n] @ [None]"

definition batch_of :: "nat option \<Rightarrow> nat option list \<Rightarrow> nat exec" where
  "batch_of dst batched_ams = (case dst of
     Some dst \<Rightarrow> if dst < length batched_ams then Ret dst else Panic OutOfBounds
   | None \<Rightarrow> if batched_ams = [] then Panic UnwrapNone else Ret (length batched_ams - 1))"

text \<open>\<open>create_tx_task\<close> of the simple batcher, with the entries and the size that it took from the batch of a destination: the receivers and the buffer.\<close>

definition simple_tx :: "('am, 'ret) wire \<Rightarrow> (nat \<Rightarrow> bytes) \<Rightarrow> nat \<Rightarrow> nat option \<Rightarrow> ('am, 'ret) entry list \<times> nat \<Rightarrow> (nat list \<times> bytes) option exec" where
  "simple_tx W alloc me pe taken = (case taken of (buf, len) \<Rightarrow>
     if 0 < len then
       (case buf of [] \<Rightarrow> Panic OutOfBounds
        | (rq, _) # _ \<Rightarrow> ebind (serialize_entries W buf (alloc len, 0)) (\<lambda>(data_slice, i). Ret (Some (send_to_pes me pe (rq_team rq), data_slice))))
     else Ret None)"

section \<open>Messages that are not batched\<close>

lemma write_last: "length x = length r \<Longrightarrow> write_at (length (pre @ r) - length pre) x (pre @ r, length pre) = Ret (pre @ x, length (pre @ x))"
  by (simp add: write_at_def)

lemma send_am_buf:
  assumes "wire_ok W" "\<And>n. length (alloc n) = n"
  shows "send_am W alloc cmd rq am (w_am_size W am) = Ret (SendNow rq cmd (am_bytes W rq am))"
proof -
  let ?mem = "alloc (w_am_size W am + AM_HEADER_LEN W)"
  let ?h = "enc (w_am_header W) \<lparr>ah_am_id = w_am_id W am, ah_team_addr = rq_team_addr rq, ah_req_id = rq_id rq\<rparr>"
  have h: "length ?h = AM_HEADER_LEN W" by (rule length_enc [OF wire_ok_parts(2) [OF assms(1)]])
  have "write_at (AM_HEADER_LEN W) ?h (?mem, 0) = Ret (?h @ drop (AM_HEADER_LEN W) ?mem, length ?h)"
    by (simp add: write_at_def assms(2) h)
  moreover have "write_at (length (?h @ drop (AM_HEADER_LEN W) ?mem) - length ?h) (w_am_bytes W am) (?h @ drop (AM_HEADER_LEN W) ?mem, length ?h)
      = Ret (am_bytes W rq am, length (am_bytes W rq am))"
    unfolding am_bytes_def by (rule write_last) (simp add: assms(2) wire_ok_parts(12) [OF assms(1)])
  ultimately show ?thesis unfolding send_am_def by simp
qed

lemma send_data_buf:
  assumes "wire_ok W" "\<And>n. length (alloc n) = n"
  shows "send_data_am W alloc rq ret darcs (w_ret_size W ret) = Ret (SendNow rq CmdData (data_bytes W rq ret darcs))"
proof -
  let ?d = "enc (w_darcs W) darcs"
  let ?mem = "alloc (w_ret_size W ret + length ?d + DATA_HEADER_LEN W)"
  let ?h = "enc (w_data_header W) \<lparr>dh_size = w_ret_size W ret, dh_req_id = rq_id rq, dh_darc_list_size = length ?d\<rparr>"
  have h: "length ?h = DATA_HEADER_LEN W" by (rule length_enc [OF wire_ok_parts(3) [OF assms(1)]])
  let ?r = "drop (DATA_HEADER_LEN W + length ?d) ?mem"
  have "write_at (DATA_HEADER_LEN W) ?h (?mem, 0) = Ret (?h @ drop (DATA_HEADER_LEN W) ?mem, length ?h)"
    by (simp add: write_at_def assms(2) h)
  moreover have "write_at (length ?d) ?d (?h @ drop (DATA_HEADER_LEN W) ?mem, length ?h) = Ret ((?h @ ?d) @ ?r, length (?h @ ?d))"
    by (simp add: write_at_def assms(2) add.commute)
  moreover have "write_at (length ((?h @ ?d) @ ?r) - length (?h @ ?d)) (w_ret_bytes W ret) ((?h @ ?d) @ ?r, length (?h @ ?d))
      = Ret ((?h @ ?d) @ w_ret_bytes W ret, length ((?h @ ?d) @ w_ret_bytes W ret))"
    by (rule write_last) (simp add: assms(2) wire_ok_parts(13) [OF assms(1)])
  ultimately show ?thesis unfolding send_data_am_def data_bytes_def by (simp add: Let_def)
qed

lemma send_unit_buf:
  assumes "wire_ok W" "\<And>n. length (alloc n) = n"
  shows "send_unit_am W alloc rq = Ret (SendNow rq CmdUnit (unit_bytes W rq))"
proof -
  have "length (unit_bytes W rq) = UNIT_HEADER_LEN W" unfolding unit_bytes_def by (rule length_enc [OF wire_ok_parts(4) [OF assms(1)]])
  then show ?thesis by (simp add: send_unit_am_def write_at_def assms(2) unit_bytes_def)
qed

lemma exec_local_am_chain:
  assumes "\<And>k. k < n \<Longrightarrow> run (c k) = LocalAm (c (Suc k))" "run (c n) = LocalData ret"
  shows "exec_local_am run req_id (c 0) = Some (Ret (req_id, Some ret))"
  using assms
proof (induction n arbitrary: c)
  case 0
  then show ?case by (subst exec_local_am.simps) simp
next
  case (Suc n)
  from Suc.IH [of "\<lambda>k. c (Suc k)"] Suc.prems show ?case by (subst exec_local_am.simps) simp
qed

text \<open>The request for which each method of the batcher is called, and what is sent when it is not.\<close>

fun msg_request :: "('am, 'ret) am_msg \<Rightarrow> ('am, 'ret) am" where
  "msg_request (MsgAm rq am) = AmRemote rq am"
| "msg_request (MsgReturn rq am) = AmReturn rq am"
| "msg_request (MsgData rq ret darcs) = AmData rq ret darcs"
| "msg_request (MsgUnit rq) = AmUnit rq"

fun msg_req :: "('am, 'ret) am_msg \<Rightarrow> req_meta" where
  "msg_req (MsgAm rq am) = rq"
| "msg_req (MsgReturn rq am) = rq"
| "msg_req (MsgData rq ret darcs) = rq"
| "msg_req (MsgUnit rq) = rq"

lemma exec_msg_am:
  assumes "wire_ok W"
  shows "exec_msg W CmdAm (am_bytes W rq am) = Some (Ret [RunAm (rq_id rq) (rq_team_addr rq) am])"
    "exec_msg W CmdReturnAm (am_bytes W rq am) = Some (Ret [RunReturn (rq_id rq) (rq_team_addr rq) am])"
  using readsD [OF exec_am_reads [OF assms, where rq = rq and am = am and ev = RunAm], of "[]" "[]"] readsD [OF exec_am_reads [OF assms, where rq = rq and am = am and ev = RunReturn], of "[]" "[]"] by (simp_all add: exec_msg_def)

lemma exec_msg_data:
  assumes "wire_ok W"
  shows "exec_msg W CmdData (data_bytes W rq ret darcs) = Some (Ret [UserData (rq_id rq) (w_ret_bytes W ret) darcs])"
    "exec_msg W CmdUnit (unit_bytes W rq) = Some (Ret [UserUnit (rq_id rq)])"
  using readsD [OF exec_data_reads [OF assms, where rq = rq and ret = ret and darcs = darcs], of "[]" "[]"]
    readsD [OF exec_unit_reads [OF assms, where rq = rq], of "[]" "[]"] by (simp_all add: exec_msg_def)

lemma unbatched_roundtrip:
  assumes "wire_ok W" "\<And>n. length (alloc n) = n" "rq_dst (msg_req m) \<noteq> Some (rq_src (msg_req m))"
  shows "\<exists>cmd buf. process_msg W alloc loc me True (msg_request m) = Ret [SendNow (msg_req m) cmd buf] \<and> exec_msg W cmd buf = Some (Ret [msg_event W m])"
  using assms(3)
  by (cases m) (simp_all add: batch_or_send_def send_am_buf [OF assms(1,2)] send_data_buf [OF assms(1,2)] send_unit_buf [OF assms(1,2)]
      exec_msg_am [OF assms(1)] exec_msg_data [OF assms(1)])

text \<open>
  C23. The answer to an active message finds its request: the PE that ran it for the PE \<open>src\<close> gives the batch of \<open>src\<close> one message, or sends one to \<open>src\<close> and
  nobody else, and on arrival the result (or the active message that was returned) is handled under the id of the request, with nothing
  lost of the result.
\<close>

theorem reply_reaches_sender:
  assumes "wire_ok W" "\<And>n. length (alloc n) = n" "src \<noteq> me" "return_event W req_id team_addr (run am) = Some ev"
  shows "\<exists>reply act. am_reply run me team team_addr src req_id am = Ret reply \<and> process_msg W alloc loc me immediate reply = Ret [act]
    \<and> ((\<exists>m. act = ToBatch m \<and> rq_dst (msg_req m) = Some src \<and> msg_event W m = ev)
      \<or> (\<exists>rq cmd buf. act = SendNow rq cmd buf \<and> send_to_pes me (rq_dst rq) (rq_team rq) = [src] \<and> exec_msg W cmd buf = Some (Ret [ev])))"
  using assms(3,4)
  by (cases "run am") (auto simp: am_reply_def batch_or_send_def send_to_pes_def send_am_buf [OF assms(1,2)] send_data_buf [OF assms(1,2)]
      send_unit_buf [OF assms(1,2)] exec_msg_am [OF assms(1)] exec_msg_data [OF assms(1)])

theorem reply_reaches_sender_witness:
  "\<exists>reply act. am_reply (\<lambda>am. RemoteData (am + 1) [3]) 1 ex_team 96 0 \<lparr>rid_id = 8, rid_sub_id = 2\<rparr> 41 = Ret reply
    \<and> process_msg ex_wire (\<lambda>n. replicate n 0) False 1 False reply = Ret [act]
    \<and> ((\<exists>m. act = ToBatch m \<and> rq_dst (msg_req m) = Some 0 \<and> msg_event ex_wire m = UserData \<lparr>rid_id = 8, rid_sub_id = 2\<rparr> [42] [3])
      \<or> (\<exists>rq cmd buf. act = SendNow rq cmd buf \<and> send_to_pes 1 (rq_dst rq) (rq_team rq) = [0]
          \<and> exec_msg ex_wire cmd buf = Some (Ret [UserData \<lparr>rid_id = 8, rid_sub_id = 2\<rparr> [42] [3]])))"
  by (rule reply_reaches_sender [OF ex_wire_ok]) (simp_all add: ex_wire_def)

section \<open>Teams\<close>

lemma ex_team_wf: "rt_wf ex_team"
  unfolding ex_team_def by (rule world_wf) simp

lemma filter_eq_distinct: "distinct xs \<Longrightarrow> filter (\<lambda>p. p = w) xs = (if w \<in> set xs then [w] else [])"
  by (induction xs) (auto simp: filter_empty_conv)

lemma send_to_pes_members:
  assumes "rt_wf team"
  shows "distinct (send_to_pes me None team)" "w \<in> set (send_to_pes me None team) \<longleftrightarrow> w \<noteq> me \<and> (\<exists>p. team_pe team w = Ret (Inr p))"
proof -
  have "distinct (iter_collect (team_iter team))" "w \<in> set (iter_collect (team_iter team)) \<longleftrightarrow> (\<exists>p. team_pe team w = Ret (Inr p))"
    using team_iter_members [OF assms] by blast+
  then show "distinct (send_to_pes me None team)" "w \<in> set (send_to_pes me None team) \<longleftrightarrow> w \<noteq> me \<and> (\<exists>p. team_pe team w = Ret (Inr p))"
    by (auto simp: send_to_pes_def)
qed

lemma send_to_pes_team:
  assumes "rt_wf team"
  shows "filter (\<lambda>p. p = w) (send_to_pes me None team) = (if w \<noteq> me \<and> (\<exists>p. team_pe team w = Ret (Inr p)) then [w] else [])"
  using send_to_pes_members [OF assms] by (simp add: filter_eq_distinct)

lemma single_member:
  assumes "rt_wf team" "rt_num_pes team \<le> 1" "team_pe team v = Ret (Inr p)" "team_pe team w = Ret (Inr q)"
  shows "w = v"
  using rt_outer_dom [OF assms(1)] rt_outer_inner [OF assms(1,3)] rt_outer_inner [OF assms(1,4)] assms(2)
  by (metis Inr_inject One_nat_def leD less_one linorder_neqE_nat order.strict_trans1 zero_less_iff_neq_zero le_less_linear)

text \<open>
  C22. An active message for a whole team reaches exactly the team: when it is not batched, every member of the team other than the calling PE gets one message, which
  makes it run the active message once; no other PE gets a message; and the calling PE runs it once itself exactly when it is a member.
\<close>

theorem all_am_reaches_team:
  assumes "wire_ok W" "\<And>n. length (alloc n) = n" "rt_wf (rq_team rq)" "rq_dst rq = None" "rq_src rq = me"
    "immediate \<or> BATCH_AM_SIZE \<le> w_am_size W am"
  shows "\<exists>acts. process_msg W alloc False me immediate (AmAll rq am) = Ret acts
    \<and> concat (map local_runs acts) = (if \<exists>p. team_pe (rq_team rq) me = Ret (Inr p) then [am] else [])
    \<and> map (\<lambda>(cmd, buf). exec_msg W cmd buf) (concat (map (arrivals me w) acts))
      = (if w \<noteq> me \<and> (\<exists>p. team_pe (rq_team rq) w = Ret (Inr p)) then [Some (Ret [RunAm (rq_id rq) (rq_team_addr rq) am])] else [])"
proof -
  obtain r where r: "team_pe (rq_team rq) me = Ret r" using rt_ids.inner_returns [OF assms(3)] by blast
  have send: "batch_or_send immediate (w_am_size W am) (MsgAm rq am) (send_am W alloc CmdAm rq am (w_am_size W am)) = Ret (SendNow rq CmdAm (am_bytes W rq am))"
    using assms(6) by (auto simp: batch_or_send_def send_am_buf [OF assms(1,2)])
  have mem: "(\<exists>p. team_pe (rq_team rq) me = Ret (Inr p)) \<longleftrightarrow> \<not> isl r" using r by (cases r) auto
  have arr: "map (\<lambda>(cmd, buf). exec_msg W cmd buf) (arrivals me w (SendNow rq CmdAm (am_bytes W rq am)))
      = (if w \<noteq> me \<and> (\<exists>p. team_pe (rq_team rq) w = Ret (Inr p)) then [Some (Ret [RunAm (rq_id rq) (rq_team_addr rq) am])] else [])"
    by (simp add: assms(4) send_to_pes_team [OF assms(3)] exec_msg_am [OF assms(1)])
  have alone: "\<not> (w \<noteq> me \<and> (\<exists>p. team_pe (rq_team rq) w = Ret (Inr p)))" if "\<not> (1 < rt_num_pes (rq_team rq) \<or> isl r)"
    using single_member [OF assms(3)] that r by (cases r) auto
  show ?thesis
  proof (cases "1 < rt_num_pes (rq_team rq) \<or> isl r")
    case True
    have "process_msg W alloc False me immediate (AmAll rq am) = Ret (SendNow rq CmdAm (am_bytes W rq am) # (if \<not> isl r then [RunLocal rq am] else []))"
      using True r send assms(5) by auto
    then show ?thesis using arr mem by (auto simp del: process_msg.simps arrivals.simps(1))
  next
    case False
    then have "process_msg W alloc False me immediate (AmAll rq am) = Ret [RunLocal rq am]" using r assms(5) by auto
    then show ?thesis using alone [OF False] mem False by (auto simp del: process_msg.simps)
  qed
qed

theorem all_am_reaches_team_witness:
  "\<exists>acts. process_msg ex_wire (\<lambda>n. replicate n 0) False 0 True (AmAll ((ex_req 5)\<lparr>rq_dst := None\<rparr>) 17) = Ret acts
   \<and> map (\<lambda>(cmd, buf). exec_msg ex_wire cmd buf) (concat (map (arrivals 0 2) acts)) = [Some (Ret [RunAm \<lparr>rid_id = 5, rid_sub_id = 0\<rparr> 96 17])]"
proof -
  have "\<exists>p. team_pe ex_team 2 = Ret (Inr p)" by (simp add: ex_team_def global_new_def global_team_pe_id_def)
  then show ?thesis
    using all_am_reaches_team [OF ex_wire_ok, of "\<lambda>n. replicate n 0" "(ex_req 5)\<lparr>rq_dst := None\<rparr>" 0 True 17 2] ex_team_wf
    by (auto simp: ex_req_def simp del: process_msg.simps)
qed

section \<open>Batches for teams\<close>

lemma batch_of_dst:
  assumes "dst = None \<or> (\<exists>pe<n. dst = Some pe)"
  shows "\<exists>b. batch_of dst (batcher_pes n) = Ret b \<and> batcher_pes n ! b = dst"
proof (cases dst)
  case None
  then show ?thesis by (simp add: batch_of_def batcher_pes_def nth_append)
next
  case (Some pe)
  then have "pe < n" using assms by simp
  with Some show ?thesis by (simp add: batch_of_def batcher_pes_def nth_append)
qed

lemma simple_tx_team:
  assumes "wire_ok W" "\<And>n. length (alloc n) = n" "ms \<noteq> []"
  shows "\<exists>buf. simple_tx W alloc me None (map (simple_entry W) ms, sum_list (map (snd \<circ> snd \<circ> simple_entry W) ms))
      = Ret (Some (send_to_pes me None (rq_team (msg_req (hd ms))), buf)) \<and> exec_msg W CmdBatchedMsg buf = Some (Ret (map (msg_event W) ms))"
proof -
  let ?n = "sum_list (map (snd \<circ> snd \<circ> simple_entry W) ms)"
  obtain m ms' where ms: "ms = m # ms'" using assms(3) by (cases ms) auto
  obtain buf where buf: "serialize_entries W (map (simple_entry W) ms) (alloc ?n, 0) = Ret (buf, ?n)" "exec_batched_msg W buf 0 = Some (Ret (map (msg_event W) ms))"
    using simple_batch_written [OF assms(1), of "alloc ?n" ms] assms(2) by auto
  have "0 < ?n" using entry_size [OF assms(1), of m] by (simp add: ms)
  moreover have "fst (simple_entry W m) = msg_req m" by (cases m) (simp_all add: Let_def)
  ultimately show ?thesis using buf by (auto simp: simple_tx_def exec_msg_def ms split: prod.split)
qed

text \<open>Running the tasks of a batcher in a given order.\<close>

definition flush_at :: "nat \<Rightarrow> 'm flush_state \<Rightarrow> 'm flush_state" where
  "flush_at i s = (case flush_exec (fl_tasks s ! i) s of (t, s') \<Rightarrow> s'\<lparr>fl_tasks := (fl_tasks s)[i := t]\<rparr>)"

fun flush_path :: "nat list \<Rightarrow> 'm flush_state \<Rightarrow> bool" where
  "flush_path [] s \<longleftrightarrow> True"
| "flush_path (i # is) s \<longleftrightarrow> i < length (fl_tasks s) \<and> fl_tasks s ! i \<noteq> Finished \<and> flush_path is (flush_at i s)"

lemma flush_path_run: "flush_path is s \<Longrightarrow> flush_step\<^sup>*\<^sup>* s (fold flush_at is s)"
proof (induction "is" arbitrary: s)
  case (Cons i "is")
  then have "flush_step s (flush_at i s)" by (auto simp: flush_at_def intro: flush_step.run split: prod.split)
  with Cons show ?case by (auto intro: converse_rtranclp_into_rtranclp)
qed simp

lemma flush_ended:
  assumes "\<forall>t \<in> set (fl_tasks s). t = Finished"
  shows "\<nexists>u. flush_step s u"
  using assms nth_mem by (auto simp: flush_step.simps)

lemma two_messages_run:
  assumes "0 < n1" "n1 < MAX_BATCH_SIZE" "0 < mark"
  shows "\<exists>s. flush_step\<^sup>*\<^sup>* (flush_start [(m1, n1, mark), (m2, n2, mark)] mark) s \<and> (\<nexists>u. flush_step s u) \<and> fl_sent s = [[m1, m2]]"
proof -
  let ?s = "flush_start [(m1, n1, mark), (m2, n2, mark)] mark" and ?is = "[0, 0, 1, 1, 0, 0, 0, 0]"
  note eval = flush_start_def flush_at_def inner_new_def add_to_batch_def inner_add_def create_tx_task_def inner_swap_def
  have "flush_path ?is ?s" using assms by (simp add: eval)
  moreover have "fl_sent (fold flush_at ?is ?s) = [[m1, m2]]" "fl_tasks (fold flush_at ?is ?s) = [Finished, Finished]" using assms by (simp_all add: eval)
  moreover have "\<nexists>u. flush_step (fold flush_at ?is ?s) u" by (rule flush_ended) (use calculation(3) in simp)
  ultimately show ?thesis using flush_path_run by blast
qed

text \<open>
  C25. A batch for teams goes to the team of its first message only.  When two calls send active messages to different teams, they can end in the same batch; a member
  of the second team that is not in the first gets nothing, although the batch is transmitted and nothing is left to do, while every other member of the first
  team is made to run both active messages.
\<close>

theorem broadcast_skips_team:
  assumes "wire_ok W" "\<And>n. length (alloc n) = n" "rt_wf (rq_team rq1)" "0 < mark"
    and len: "snd (snd (simple_entry W (MsgAm rq1 am1))) < MAX_BATCH_SIZE"
    and w: "team_pe (rq_team rq2) w = Ret (Inr p)" "\<And>p. team_pe (rq_team rq1) w \<noteq> Ret (Inr p)"
    and v: "v \<noteq> me" "team_pe (rq_team rq1) v = Ret (Inr p')"
    and ms_def: "ms = [MsgAm rq1 am1, MsgAm rq2 am2]"
    and dst: "rq_dst rq1 = None" "rq_dst rq2 = None"
  shows "\<exists>b s targets buf. batch_of (rq_dst rq1) (batcher_pes n) = Ret b \<and> batch_of (rq_dst rq2) (batcher_pes n) = Ret b
    \<and> flush_step\<^sup>*\<^sup>* (flush_start (map (\<lambda>m. (m, snd (snd (simple_entry W m)), mark)) ms) mark) s \<and> (\<nexists>u. flush_step s u) \<and> fl_sent s = [ms]
    \<and> simple_tx W alloc me (batcher_pes n ! b) (map (simple_entry W) ms, sum_list (map (snd \<circ> snd \<circ> simple_entry W) ms)) = Ret (Some (targets, buf))
    \<and> w \<notin> set targets \<and> v \<in> set targets \<and> exec_msg W CmdBatchedMsg buf = Some (Ret (map (msg_event W) ms))"
proof -
  have b: "batch_of (rq_dst rq1) (batcher_pes n) = Ret n" "batch_of (rq_dst rq2) (batcher_pes n) = Ret n" "batcher_pes n ! n = None"
    using dst by (simp_all add: batch_of_def batcher_pes_def nth_append)
  have "0 < snd (snd (simple_entry W (MsgAm rq1 am1)))" using entry_size [OF assms(1), of "MsgAm rq1 am1"] by simp
  from two_messages_run [OF this len assms(4), of "MsgAm rq1 am1" "MsgAm rq2 am2"]
  obtain s where "flush_step\<^sup>*\<^sup>* (flush_start (map (\<lambda>m. (m, snd (snd (simple_entry W m)), mark)) ms) mark) s" "\<nexists>u. flush_step s u" "fl_sent s = [ms]"
    unfolding ms_def list.map by blast
  moreover obtain buf where "simple_tx W alloc me None (map (simple_entry W) ms, sum_list (map (snd \<circ> snd \<circ> simple_entry W) ms))
      = Ret (Some (send_to_pes me None (rq_team rq1), buf))" "exec_msg W CmdBatchedMsg buf = Some (Ret (map (msg_event W) ms))"
    using simple_tx_team [OF assms(1,2), of ms me] unfolding ms_def by auto
  moreover have "w \<notin> set (send_to_pes me None (rq_team rq1))" "v \<in> set (send_to_pes me None (rq_team rq1))"
    using v w(2) by (simp_all add: send_to_pes_members [OF assms(3)])
  ultimately show ?thesis unfolding b by (intro exI [of _ n] exI [of _ s] exI [of _ "send_to_pes me None (rq_team rq1)"] exI [of _ buf]) (simp add: b(3))
qed

definition ex_pair :: lamellar_arch_rt where
  "ex_pair = ArchRT (Some ex_team) (StridedArch (strided_new 0 1 2)) 2"

lemma ex_pair_wf: "rt_wf ex_pair"
proof -
  have "rt_wf (ArchRT (Some ex_team) (StridedArch (strided_new 0 1 2)) (arch_num_pes (StridedArch (strided_new 0 1 2))))"
    by (rule subteam_wf [OF ex_team_wf, of _ 1]) (simp add: strided_new_wf, simp_all add: strided_new_def ex_team_def strided_end_loop_eq)
  then show ?thesis by (simp add: ex_pair_def strided_new_def del: rt_wf.simps)
qed

lemma ex_pes: "batcher_pes 4 = [Some 0, Some 1, Some 2, Some 3, None]"
  by (simp add: batcher_pes_def upt_conv_Cons)

theorem broadcast_skips_team_witness:
  "\<exists>s targets buf. flush_step\<^sup>*\<^sup>* (flush_start [(MsgAm ((ex_req 5)\<lparr>rq_dst := None, rq_team := ex_pair\<rparr>) 17, 7, 1), (MsgAm ((ex_req 6)\<lparr>rq_dst := None\<rparr>) 18, 7, 1)] 1) s
    \<and> simple_tx ex_wire (\<lambda>n. replicate n 0) 0 None
        (map (simple_entry ex_wire) [MsgAm ((ex_req 5)\<lparr>rq_dst := None, rq_team := ex_pair\<rparr>) 17, MsgAm ((ex_req 6)\<lparr>rq_dst := None\<rparr>) 18], 14) = Ret (Some (targets, buf))
    \<and> 3 \<notin> set targets \<and> 1 \<in> set targets"
proof -
  let ?rq1 = "(ex_req 5)\<lparr>rq_dst := None, rq_team := ex_pair\<rparr>" and ?rq2 = "(ex_req 6)\<lparr>rq_dst := None\<rparr>"
  have n: "snd (snd (simple_entry ex_wire (MsgAm ?rq1 17))) = 7" "snd (snd (simple_entry ex_wire (MsgAm ?rq2 18))) = 7"
    by (simp_all add: ex_wire_def ex_lens)
  have "team_pe ex_team 3 = Ret (Inr 3)" by (simp add: ex_team_def global_new_def global_team_pe_id_def)
  moreover have "team_pe ex_pair 3 \<noteq> Ret (Inr p)" "team_pe ex_pair 1 = Ret (Inr 1)" for p
    using strided_team_ok_iff [OF strided_new_wf [of 2 1 0]]
    by (simp_all add: ex_pair_def ex_team_def global_new_def global_team_pe_id_def) (simp_all add: strided_new_def)
  ultimately show ?thesis
    using broadcast_skips_team [OF ex_wire_ok, of "\<lambda>n. replicate n 0" ?rq1 1 17 ?rq2 3 3 1 0 1 "[MsgAm ?rq1 17, MsgAm ?rq2 18]" 18 4] ex_pair_wf n
    by (auto simp: ex_req_def MAX_BATCH_SIZE_def o_def batch_of_def ex_pes simp del: simple_entry.simps)
qed

end
