(* ===== verification/Am_Requests.thy ===== *)
theory Am_Requests
  imports Lamellar_Arch Multiset_Lists "HOL-Library.AList"
begin

text \<open>
  Requests and their results (\<open>lamellar_request.rs\<close>, and the calls of \<open>lamellar_team.rs\<close> that make requests): handles collect the answers of PEs, and
  \<open>wait_all\<close> waits for counters of the team, of the world or of a task group.  A step is one access of a thread that delivers a result; a call that makes a
  request is one step, since nobody answers before it has submitted the active message.  Sums of outstanding requests stay below \<open>2 ^ 64\<close>.
\<close>

section \<open>Handles\<close>

datatype 'd internal_result = ResLocal 'd | ResRemote 'd "nat list" | ResUnit

text \<open>
  The handle of a request to one PE, with the flag \<open>ready\<close> and the result (first flag: of a local active message), and of a request to a team, with the number of answers that
  are missing, the team and the results by team id.
\<close>

datatype 'd handle =
    Single bool bool "'d internal_result option"
  | Multi nat lamellar_arch_rt "(nat \<times> 'd internal_result) list"

fun is_remote :: "'d internal_result \<Rightarrow> bool" where
  "is_remote (ResRemote d darcs) \<longleftrightarrow> True"
| "is_remote _ \<longleftrightarrow> False"

text \<open>\<open>add_result\<close> in two accesses: the result is stored, then the handle is made ready or counts down.\<close>

fun add_insert :: "nat \<Rightarrow> 'd internal_result \<Rightarrow> 'd handle \<Rightarrow> 'd handle exec" where
  "add_insert pe d (Single loc ready data) = (if loc \<and> is_remote d then Panic ExplicitPanic else Ret (Single loc ready (Some d)))"
| "add_insert pe d (Multi cnt arch data) = ebind (team_pe arch pe) (\<lambda>r. case r of
     Inl e \<Rightarrow> Panic UnwrapNone
   | Inr p \<Rightarrow> Ret (Multi cnt arch (AList.update p d data)))"

fun add_finish :: "'d handle \<Rightarrow> 'd handle" where
  "add_finish (Single loc ready data) = Single loc True data"
| "add_finish (Multi cnt arch data) = Multi (fetch_sub_usize cnt 1) arch data"

text \<open>
  \<open>get\<close> and \<open>into_future\<close>: nothing while the loop waits, else the results, which are taken out of the handle.  The handle of one PE is left without a result
  (\<open>data.replace(None)\<close>), the one of a team loses the entry of every PE that it returns.
\<close>

fun remove_all :: "nat list \<Rightarrow> (nat \<times> 'd) list \<Rightarrow> ('d list \<times> (nat \<times> 'd) list) exec" where
  "remove_all [] data = Ret ([], data)"
| "remove_all (pe # pes) data = (case map_of data pe of
     None \<Rightarrow> Panic UnwrapNone
   | Some d \<Rightarrow> ebind (remove_all pes (AList.delete pe data)) (\<lambda>(res, data'). Ret (d # res, data')))"

fun handle_get :: "'d handle \<Rightarrow> ('d internal_result list \<times> 'd handle) exec option" where
  "handle_get (Single loc ready data) = (if ready then Some (case data of None \<Rightarrow> Panic UnwrapNone | Some d \<Rightarrow> Ret ([d], Single loc ready None)) else None)"
| "handle_get (Multi cnt arch data) = (if 0 < cnt then None else Some (ebind (remove_all [0..<length data] data) (\<lambda>(res, data'). Ret (res, Multi cnt arch data'))))"

section \<open>Requests\<close>

text \<open>A request with the answer that each PE gives, its team and its task group.\<close>

record 'd request =
  rh_handle :: "'d handle"
  rh_user_handle :: bool
  rh_result :: "nat \<Rightarrow> 'd internal_result"
  rh_team :: nat
  rh_tg :: "nat option"

text \<open>The delivery of an answer: \<open>LamellarRequestResult::add_result\<close> looks whether the user holds the handle, adds the result, and updates three counters.\<close>

datatype phase = Arrived | Insert | Finish | SubTeam | SubWorld | SubTg | Delivered

fun phase_no :: "phase \<Rightarrow> nat" where
  "phase_no Arrived = 0"
| "phase_no Insert = 1"
| "phase_no Finish = 2"
| "phase_no SubTeam = 3"
| "phase_no SubWorld = 4"
| "phase_no SubTg = 5"
| "phase_no Delivered = 6"

record result_task =
  rt_req :: nat
  rt_pe :: nat
  rt_phase :: phase

text \<open>The last field is a history: the requests on whose handle \<open>get\<close> has returned.\<close>

record 'd req_state =
  rs_teams :: "nat list"
  rs_world :: nat
  rs_tgs :: "nat list"
  rs_reqs :: "'d request list"
  rs_tasks :: "result_task list"
  rs_got :: "nat list"

fun add_result :: "phase \<Rightarrow> nat \<Rightarrow> 'd request \<Rightarrow> ('d request \<times> phase) exec" where
  "add_result Arrived pe q = Ret (q, if rh_user_handle q then Insert else SubTeam)"
| "add_result Insert pe q = ebind (add_insert pe (rh_result q pe) (rh_handle q)) (\<lambda>h. Ret (q\<lparr>rh_handle := h\<rparr>, Finish))"
| "add_result Finish pe q = Ret (q\<lparr>rh_handle := add_finish (rh_handle q)\<rparr>, SubTeam)"
| "add_result SubTeam pe q = Ret (q, SubWorld)"
| "add_result SubWorld pe q = Ret (q, SubTg)"
| "add_result SubTg pe q = Ret (q, Delivered)"
| "add_result Delivered pe q = Ret (q, Delivered)"

fun update_counters :: "phase \<Rightarrow> 'd request \<Rightarrow> 'd req_state \<Rightarrow> 'd req_state" where
  "update_counters SubTeam q s = s\<lparr>rs_teams := (rs_teams s)[rh_team q := fetch_sub_usize (rs_teams s ! rh_team q) 1]\<rparr>"
| "update_counters SubWorld q s = s\<lparr>rs_world := fetch_sub_usize (rs_world s) 1\<rparr>"
| "update_counters SubTg q s = (case rh_tg q of None \<Rightarrow> s | Some g \<Rightarrow> s\<lparr>rs_tgs := (rs_tgs s)[g := fetch_sub_usize (rs_tgs s ! g) 1]\<rparr>)"
| "update_counters _ q s = s"

definition result_exec :: "nat \<Rightarrow> 'd req_state \<Rightarrow> 'd req_state exec" where
  "result_exec i s = (let t = rs_tasks s ! i; q = rs_reqs s ! rt_req t in
     ebind (add_result (rt_phase t) (rt_pe t) q) (\<lambda>(q', p).
     Ret ((update_counters (rt_phase t) q s)\<lparr>rs_reqs := (rs_reqs s)[rt_req t := q'], rs_tasks := (rs_tasks s)[i := t\<lparr>rt_phase := p\<rparr>]\<rparr>)))"

text \<open>\<open>add_send_req\<close> of the three counters, and the request with the answers that it will get.\<close>

definition submit :: "nat \<Rightarrow> nat option \<Rightarrow> 'd handle \<Rightarrow> (nat \<Rightarrow> 'd internal_result) \<Rightarrow> nat list \<Rightarrow> 'd req_state \<Rightarrow> 'd req_state" where
  "submit team tg h res pes s = (let n = length pes in s\<lparr>
     rs_tgs := (case tg of None \<Rightarrow> rs_tgs s | Some g \<Rightarrow> (rs_tgs s)[g := fetch_add_usize (rs_tgs s ! g) n]),
     rs_world := fetch_add_usize (rs_world s) n,
     rs_teams := (rs_teams s)[team := fetch_add_usize (rs_teams s ! team) n],
     rs_reqs := rs_reqs s @ [\<lparr>rh_handle = h, rh_user_handle = True, rh_result = res, rh_team = team, rh_tg = tg\<rparr>],
     rs_tasks := rs_tasks s @ map (\<lambda>pe. \<lparr>rt_req = length (rs_reqs s), rt_pe = pe, rt_phase = Arrived\<rparr>) pes\<rparr>)"

definition exec_am_all_tg :: "nat \<Rightarrow> lamellar_arch_rt \<Rightarrow> nat option \<Rightarrow> (nat \<Rightarrow> 'd internal_result) \<Rightarrow> 'd req_state \<Rightarrow> 'd req_state" where
  "exec_am_all_tg team arch tg res s = submit team tg (Multi (rt_num_pes arch) arch []) res (iter_collect (team_iter arch)) s"

definition exec_am_pe_tg :: "nat \<Rightarrow> lamellar_arch_rt \<Rightarrow> nat option \<Rightarrow> (nat \<Rightarrow> 'd internal_result) \<Rightarrow> nat \<Rightarrow> 'd req_state \<Rightarrow> 'd req_state exec" where
  "exec_am_pe_tg team arch tg res pe s =
     (if pe < rt_num_pes arch then (case world_pe arch pe of Inl e \<Rightarrow> Panic UnwrapNone | Inr w \<Rightarrow> Ret (submit team tg (Single False False None) res [w] s))
      else Panic AssertFailed)"

definition exec_am_local_tg :: "nat \<Rightarrow> nat option \<Rightarrow> nat \<Rightarrow> (nat \<Rightarrow> 'd internal_result) \<Rightarrow> 'd req_state \<Rightarrow> 'd req_state" where
  "exec_am_local_tg team tg me res s = submit team tg (Single True False None) res [me] s"

text \<open>The room that the counters have for \<open>n\<close> requests.\<close>

definition counters_fit :: "nat \<Rightarrow> nat option \<Rightarrow> nat \<Rightarrow> 'd req_state \<Rightarrow> bool" where
  "counters_fit team tg n s \<longleftrightarrow> team < length (rs_teams s) \<and> rs_world s + n < usize_mod
     \<and> (case tg of None \<Rightarrow> True | Some g \<Rightarrow> g < length (rs_tgs s) \<and> rs_tgs s ! g + n < usize_mod)"

inductive req_step :: "'d req_state \<Rightarrow> 'd req_state \<Rightarrow> bool" where
  all: "rt_wf arch \<Longrightarrow> counters_fit team tg (rt_num_pes arch) s \<Longrightarrow> req_step s (exec_am_all_tg team arch tg res s)"
| pe: "rt_wf arch \<Longrightarrow> counters_fit team tg 1 s \<Longrightarrow> exec_am_pe_tg team arch tg res pe s = Ret s' \<Longrightarrow> req_step s s'"
| loc: "counters_fit team tg 1 s \<Longrightarrow> \<not> is_remote (res me) \<Longrightarrow> req_step s (exec_am_local_tg team tg me res s)"
| drop: "r < length (rs_reqs s) \<Longrightarrow> req_step s (s\<lparr>rs_reqs := (rs_reqs s)[r := (rs_reqs s ! r)\<lparr>rh_user_handle := False\<rparr>]\<rparr>)"
| get: "r < length (rs_reqs s) \<Longrightarrow> rh_user_handle (rs_reqs s ! r) \<Longrightarrow> handle_get (rh_handle (rs_reqs s ! r)) = Some (Ret (xs, h))
    \<Longrightarrow> req_step s (s\<lparr>rs_reqs := (rs_reqs s)[r := (rs_reqs s ! r)\<lparr>rh_handle := h\<rparr>], rs_got := r # rs_got s\<rparr>)"
| result: "i < length (rs_tasks s) \<Longrightarrow> rt_phase (rs_tasks s ! i) \<noteq> Delivered \<Longrightarrow> result_exec i s = Ret s' \<Longrightarrow> req_step s s'"

definition req_init :: "nat \<Rightarrow> nat \<Rightarrow> 'd req_state" where
  "req_init n_teams n_tgs = \<lparr>rs_teams = replicate n_teams 0, rs_world = 0, rs_tgs = replicate n_tgs 0, rs_reqs = [], rs_tasks = [], rs_got = []\<rparr>"

section \<open>Invariant of a handle\<close>

definition open_answers :: "result_task list \<Rightarrow> nat" where
  "open_answers ts = length (filter (\<lambda>t. phase_no (rt_phase t) \<le> 2) ts)"

lemma open_answers_0: "open_answers ts = 0 \<longleftrightarrow> (\<forall>t \<in> set ts. 3 \<le> phase_no (rt_phase t))"
  by (auto simp: open_answers_def filter_empty_conv not_le Suc_le_eq numeral_3_eq_3)

definition stored :: "bool \<Rightarrow> result_task \<Rightarrow> bool" where
  "stored held t \<longleftrightarrow> phase_no (rt_phase t) = 2 \<or> 3 \<le> phase_no (rt_phase t) \<and> held"

text \<open>The flags say whether the user holds the handle and whether \<open>get\<close> has taken its results.\<close>

fun handle_ok :: "(nat \<Rightarrow> 'd internal_result) \<Rightarrow> bool \<Rightarrow> bool \<Rightarrow> result_task list \<Rightarrow> 'd handle \<Rightarrow> bool" where
  "handle_ok res held taken ts (Single loc ready data) \<longleftrightarrow> (\<exists>t. ts = [t] \<and> (ready \<longrightarrow> 3 \<le> phase_no (rt_phase t) \<and> data = (if taken then None else Some (res (rt_pe t))))
     \<and> (taken \<longrightarrow> ready) \<and> (stored held t \<longrightarrow> \<not> taken \<longrightarrow> data = Some (res (rt_pe t)))
     \<and> (3 \<le> phase_no (rt_phase t) \<longrightarrow> held \<longrightarrow> ready) \<and> (loc \<longrightarrow> \<not> is_remote (res (rt_pe t))))"
| "handle_ok res held taken ts (Multi cnt arch data) \<longleftrightarrow> rt_wf arch \<and> map rt_pe ts = iter_collect (team_iter arch) \<and> distinct (map fst data)
     \<and> (\<forall>p d. map_of data p = Some d \<longrightarrow> p < rt_num_pes arch \<and> d = res (projr (world_pe arch p)))
     \<and> open_answers ts \<le> cnt \<and> cnt < usize_mod \<and> (held \<longrightarrow> cnt = open_answers ts) \<and> (taken \<longrightarrow> cnt = 0 \<and> data = [])
     \<and> (\<forall>t \<in> set ts. stored held t \<longrightarrow> \<not> taken \<longrightarrow> (\<forall>p. team_pe arch (rt_pe t) = Ret (Inr p) \<longrightarrow> p \<in> dom (map_of data)))"

lemma handle_ok_held: "handle_ok res held taken ts h \<Longrightarrow> handle_ok res False taken ts h"
  by (cases h) (auto simp: stored_def)

lemma member_pe:
  assumes "rt_wf arch" "w \<in> set (iter_collect (team_iter arch))"
  shows "\<exists>p. team_pe arch w = Ret (Inr p) \<and> p < rt_num_pes arch \<and> world_pe arch p = Inr w"
  using team_iter_members [OF assms(1)] assms(2) rt_outer_inner [OF assms(1)] rt_outer_dom [OF assms(1)] by metis

lemma stored_update:
  assumes "\<forall>t \<in> set ts. stored held t \<longrightarrow> D (rt_pe t)" "j < length ts" "stored held ((ts ! j)\<lparr>rt_phase := p\<rparr>) \<Longrightarrow> stored held (ts ! j)"
  shows "\<forall>t \<in> set (ts[j := (ts ! j)\<lparr>rt_phase := p\<rparr>]). stored held t \<longrightarrow> D (rt_pe t)"
proof (intro ballI impI)
  fix t assume t: "t \<in> set (ts[j := (ts ! j)\<lparr>rt_phase := p\<rparr>])" "stored held t"
  then consider "t = (ts ! j)\<lparr>rt_phase := p\<rparr>" | "t \<in> set ts" using set_update_subset_insert [THEN subsetD, OF t(1)] by blast
  then show "D (rt_pe t)"
  proof cases
    case 1
    then have "stored held (ts ! j)" "rt_pe t = rt_pe (ts ! j)" using assms(3) t(2) by simp_all
    then show ?thesis using assms(1,2) nth_mem by metis
  qed (use assms(1) t(2) in blast)
qed

text \<open>A step of a delivery that leaves the handle alone.\<close>

lemma handle_ok_phase:
  assumes ok: "handle_ok res held taken ts h" and j: "j < length ts" and p: "phase_no (rt_phase (ts ! j)) \<le> phase_no p"
    and side: "phase_no p \<le> 1 \<or> 3 \<le> phase_no (rt_phase (ts ! j)) \<or> (phase_no (rt_phase (ts ! j)) = 0 \<and> 3 \<le> phase_no p \<and> \<not> held)"
  shows "handle_ok res held taken (ts[j := (ts ! j)\<lparr>rt_phase := p\<rparr>]) h"
proof (cases h)
  case (Single loc ready data)
  then show ?thesis using assms by (cases ts) (auto simp: stored_def)
next
  case (Multi cnt arch data)
  let ?t = "(ts ! j)\<lparr>rt_phase := p\<rparr>"
  have "map rt_pe (ts[j := ?t]) = map rt_pe ts" using j by (simp add: map_update list_update_same_conv)
  moreover have "open_answers (ts[j := ?t]) \<le> open_answers ts \<and> (held \<longrightarrow> open_answers (ts[j := ?t]) = open_answers ts)"
    using length_filter_update [OF j, of "\<lambda>t. phase_no (rt_phase t) \<le> 2" ?t] p side by (auto simp: open_answers_def split: if_splits)
  moreover have "\<forall>t \<in> set (ts[j := ?t]). stored held t \<longrightarrow> \<not> taken \<longrightarrow> (\<forall>p. team_pe arch (rt_pe t) = Ret (Inr p) \<longrightarrow> p \<in> dom (map_of data))"
    by (rule stored_update [OF _ j]) (use ok Multi side p in \<open>auto simp: stored_def\<close>)
  ultimately show ?thesis using ok Multi by (auto simp del: iter_collect.simps)
qed

lemma handle_ok_insert:
  assumes ok: "handle_ok res held taken ts h" and j: "j < length ts" and p: "rt_phase (ts ! j) = Insert"
  shows "\<exists>h'. add_insert (rt_pe (ts ! j)) (res (rt_pe (ts ! j))) h = Ret h' \<and> handle_ok res held taken (ts[j := (ts ! j)\<lparr>rt_phase := Finish\<rparr>]) h'"
proof (cases h)
  case (Single loc ready data)
  then show ?thesis using assms by (cases ts) (auto simp: stored_def)
next
  case (Multi cnt arch data)
  let ?t = "(ts ! j)\<lparr>rt_phase := Finish\<rparr>" and ?w = "rt_pe (ts ! j)"
  have wf: "rt_wf arch" and pes: "map rt_pe ts = iter_collect (team_iter arch)" using ok Multi by simp_all
  have "?w \<in> set (iter_collect (team_iter arch))" using j by (simp add: pes [symmetric])
  then obtain q where q: "team_pe arch ?w = Ret (Inr q)" "q < rt_num_pes arch" "world_pe arch q = Inr ?w" using member_pe [OF wf] by blast
  have "map rt_pe (ts[j := ?t]) = map rt_pe ts" using j by (simp add: map_update list_update_same_conv)
  moreover have "open_answers (ts[j := ?t]) = open_answers ts"
    using length_filter_update [OF j, of "\<lambda>t. phase_no (rt_phase t) \<le> 2" ?t] p by (simp add: open_answers_def)
  moreover have nt: "\<not> taken"
  proof
    assume taken
    then have "open_answers ts = 0" using ok Multi by simp
    then have "3 \<le> phase_no (rt_phase (ts ! j))" using j by (simp add: open_answers_0)
    then show False using p by simp
  qed
  moreover have "stored held t \<Longrightarrow> team_pe arch (rt_pe t) = Ret (Inr k) \<Longrightarrow> k \<in> dom (map_of (AList.update q (res ?w) data))" if mem: "t \<in> set (ts[j := ?t])" for t k
    using set_update_subset_insert [THEN subsetD, OF mem] ok Multi q(1) nt by (auto simp: update_conv')
  moreover have "k < rt_num_pes arch \<and> d = res (projr (world_pe arch k))" if "map_of (AList.update q (res ?w) data) k = Some d" for k d
    using that ok Multi q by (auto simp: update_conv' split: if_splits)
  ultimately have "handle_ok res held taken (ts[j := ?t]) (Multi cnt arch (AList.update q (res ?w) data))"
    using ok Multi by (simp add: distinct_update)
  then show ?thesis using Multi q(1) by simp
qed

lemma handle_ok_finish:
  assumes ok: "handle_ok res held taken ts h" and j: "j < length ts" and p: "rt_phase (ts ! j) = Finish"
  shows "handle_ok res held taken (ts[j := (ts ! j)\<lparr>rt_phase := SubTeam\<rparr>]) (add_finish h)"
proof (cases h)
  case (Single loc ready data)
  then show ?thesis using assms by (cases ts) (auto simp: stored_def)
next
  case (Multi cnt arch data)
  let ?t = "(ts ! j)\<lparr>rt_phase := SubTeam\<rparr>"
  have "map rt_pe (ts[j := ?t]) = map rt_pe ts" using j by (simp add: map_update list_update_same_conv)
  moreover have u: "Suc (open_answers (ts[j := ?t])) = open_answers ts"
    using length_filter_update [OF j, of "\<lambda>t. phase_no (rt_phase t) \<le> 2" ?t] p by (simp add: open_answers_def)
  moreover have "fetch_sub_usize cnt 1 = cnt - 1" using u ok Multi by (intro fetch_sub_usize_ok) auto
  moreover have "\<forall>t \<in> set (ts[j := ?t]). stored held t \<longrightarrow> \<not> taken \<longrightarrow> (\<forall>p. team_pe arch (rt_pe t) = Ret (Inr p) \<longrightarrow> p \<in> dom (map_of data))"
    by (rule stored_update [OF _ j]) (use ok Multi p in \<open>auto simp: stored_def\<close>)
  ultimately show ?thesis using ok Multi by auto
qed

lemma add_result_ok:
  assumes ok: "handle_ok (rh_result q) (rh_user_handle q) taken ts (rh_handle q)" and j: "j < length ts" and t: "ts ! j = t"
  shows "\<exists>q' p. add_result (rt_phase t) (rt_pe t) q = Ret (q', p) \<and> handle_ok (rh_result q) (rh_user_handle q) taken (ts[j := t\<lparr>rt_phase := p\<rparr>]) (rh_handle q')
    \<and> q' = q\<lparr>rh_handle := rh_handle q'\<rparr> \<and> (\<forall>k. k = 3 \<or> k = 4 \<or> k = 5 \<longrightarrow> (phase_no p \<le> k \<longleftrightarrow> phase_no (rt_phase t) < k))"
proof (cases "rt_phase t")
  case Insert
  from handle_ok_insert [OF ok j] Insert t obtain h' where "add_insert (rt_pe t) (rh_result q (rt_pe t)) (rh_handle q) = Ret h'"
    "handle_ok (rh_result q) (rh_user_handle q) taken (ts[j := t\<lparr>rt_phase := Finish\<rparr>]) h'" by auto
  then show ?thesis using Insert by auto
next
  case Finish
  from handle_ok_finish [OF ok j] Finish t show ?thesis by auto
qed (use handle_ok_phase [OF ok j] t in auto)

section \<open>Invariant of the counters\<close>

definition req_tasks :: "'d req_state \<Rightarrow> nat \<Rightarrow> result_task list" where
  "req_tasks s r = filter (\<lambda>t. rt_req t = r) (rs_tasks s)"

definition pending_answers :: "(nat \<Rightarrow> bool) \<Rightarrow> nat \<Rightarrow> result_task list \<Rightarrow> nat" where
  "pending_answers C k ts = length (filter (\<lambda>t. C (rt_req t) \<and> phase_no (rt_phase t) \<le> k) ts)"

definition req_inv :: "'d req_state \<Rightarrow> bool" where
  "req_inv s \<longleftrightarrow> (\<forall>t \<in> set (rs_tasks s). rt_req t < length (rs_reqs s)) \<and> set (rs_got s) \<subseteq> {..<length (rs_reqs s)}
     \<and> (\<forall>r<length (rs_reqs s). handle_ok (rh_result (rs_reqs s ! r)) (rh_user_handle (rs_reqs s ! r)) (r \<in> set (rs_got s)) (req_tasks s r) (rh_handle (rs_reqs s ! r))
         \<and> rh_team (rs_reqs s ! r) < length (rs_teams s) \<and> (\<forall>g. rh_tg (rs_reqs s ! r) = Some g \<longrightarrow> g < length (rs_tgs s)))
     \<and> rs_world s = pending_answers (\<lambda>_. True) 4 (rs_tasks s) \<and> rs_world s < usize_mod
     \<and> (\<forall>k<length (rs_teams s). rs_teams s ! k = pending_answers (\<lambda>r. rh_team (rs_reqs s ! r) = k) 3 (rs_tasks s))
     \<and> (\<forall>g<length (rs_tgs s). rs_tgs s ! g = pending_answers (\<lambda>r. rh_tg (rs_reqs s ! r) = Some g) 5 (rs_tasks s) \<and> rs_tgs s ! g < usize_mod)"

lemma req_inv_parts:
  assumes "req_inv s"
  shows "\<And>t. t \<in> set (rs_tasks s) \<Longrightarrow> rt_req t < length (rs_reqs s)"
    "\<And>r. r < length (rs_reqs s) \<Longrightarrow> handle_ok (rh_result (rs_reqs s ! r)) (rh_user_handle (rs_reqs s ! r)) (r \<in> set (rs_got s)) (req_tasks s r) (rh_handle (rs_reqs s ! r))"
    "\<And>r. r < length (rs_reqs s) \<Longrightarrow> rh_team (rs_reqs s ! r) < length (rs_teams s)"
    "\<And>r g. r < length (rs_reqs s) \<Longrightarrow> rh_tg (rs_reqs s ! r) = Some g \<Longrightarrow> g < length (rs_tgs s)"
    "rs_world s = pending_answers (\<lambda>_. True) 4 (rs_tasks s)" "rs_world s < usize_mod"
    "\<And>k. k < length (rs_teams s) \<Longrightarrow> rs_teams s ! k = pending_answers (\<lambda>r. rh_team (rs_reqs s ! r) = k) 3 (rs_tasks s)"
    "\<And>g. g < length (rs_tgs s) \<Longrightarrow> rs_tgs s ! g = pending_answers (\<lambda>r. rh_tg (rs_reqs s ! r) = Some g) 5 (rs_tasks s)"
    "\<And>g. g < length (rs_tgs s) \<Longrightarrow> rs_tgs s ! g < usize_mod" "set (rs_got s) \<subseteq> {..<length (rs_reqs s)}"
  using assms unfolding req_inv_def by blast+

lemma pending_answers_update:
  assumes "i < length ts" "phase_no p \<le> k \<longleftrightarrow> phase_no (rt_phase (ts ! i)) < k"
  shows "pending_answers C k (ts[i := (ts ! i)\<lparr>rt_phase := p\<rparr>]) + of_bool (C (rt_req (ts ! i)) \<and> phase_no (rt_phase (ts ! i)) = k) = pending_answers C k ts"
  using length_filter_update [OF assms(1), of "\<lambda>t. C (rt_req t) \<and> phase_no (rt_phase t) \<le> k" "(ts ! i)\<lparr>rt_phase := p\<rparr>"] assms(2)
  by (auto simp: pending_answers_def split: if_splits)

lemma pending_answers_cong: "(\<And>t. t \<in> set ts \<Longrightarrow> C (rt_req t) = C' (rt_req t)) \<Longrightarrow> pending_answers C k ts = pending_answers C' k ts"
  unfolding pending_answers_def by (metis (mono_tags, lifting) filter_cong)

lemma pending_answers_append: "pending_answers C k (ts @ us) = pending_answers C k ts + pending_answers C k us"
  by (simp add: pending_answers_def)

lemma pending_answers_mono: "k \<le> k' \<Longrightarrow> (\<And>r. C r \<Longrightarrow> C' r) \<Longrightarrow> pending_answers C k ts \<le> pending_answers C' k' ts"
  by (induction ts) (auto simp: pending_answers_def)

lemma filter_update_pos:
  assumes "i < length xs" "P (xs ! i)"
  shows "\<exists>j. j < length (filter P xs) \<and> filter P xs ! j = xs ! i \<and> (\<forall>x. P x \<longrightarrow> filter P (xs[i := x]) = (filter P xs)[j := x])"
  using assms
proof (induction xs arbitrary: i)
  case (Cons y ys)
  show ?case
  proof (cases i)
    case 0
    then show ?thesis using Cons.prems by (intro exI [of _ 0]) auto
  next
    case (Suc m)
    then obtain j where "j < length (filter P ys)" "filter P ys ! j = ys ! m" "\<forall>x. P x \<longrightarrow> filter P (ys[m := x]) = (filter P ys)[j := x]"
      using Cons.IH [of m] Cons.prems by auto
    then show ?thesis using Suc by (intro exI [of _ "if P y then Suc j else j"]) auto
  qed
qed simp

lemma filter_update_neg: "\<not> P x \<Longrightarrow> \<not> P (xs ! i) \<Longrightarrow> filter P (xs[i := x]) = filter P xs"
proof (induction xs arbitrary: i)
  case (Cons y ys)
  then show ?case by (cases i) auto
qed simp

lemma counters_result:
  assumes inv: "req_inv s" and i: "i < length (rs_tasks s)" and t: "t = rs_tasks s ! i" and q: "q = rs_reqs s ! rt_req t"
    and p: "\<forall>k. k = 3 \<or> k = 4 \<or> k = 5 \<longrightarrow> (phase_no p \<le> k \<longleftrightarrow> phase_no (rt_phase t) < k)"
  defines "s' \<equiv> update_counters (rt_phase t) q s" and "ts \<equiv> (rs_tasks s)[i := t\<lparr>rt_phase := p\<rparr>]"
  shows "rs_world s' = pending_answers (\<lambda>_. True) 4 ts" "rs_world s' < usize_mod"
    "k < length (rs_teams s) \<Longrightarrow> rs_teams s' ! k = pending_answers (\<lambda>r. rh_team (rs_reqs s ! r) = k) 3 ts"
    "g < length (rs_tgs s) \<Longrightarrow> rs_tgs s' ! g = pending_answers (\<lambda>r. rh_tg (rs_reqs s ! r) = Some g) 5 ts \<and> rs_tgs s' ! g < usize_mod"
proof -
  note I = req_inv_parts [OF inv]
  have P: "pending_answers C k ts + of_bool (C (rt_req t) \<and> phase_no (rt_phase t) = k) = pending_answers C k (rs_tasks s)" if "k = 3 \<or> k = 4 \<or> k = 5" for C k
    unfolding ts_def t by (rule pending_answers_update [OF i]) (use p that t in blast)
  have sub: "fetch_sub_usize c 1 = c - 1" if "c = Suc d" "c < usize_mod" for c d using that by (intro fetch_sub_usize_ok) auto
  show W: "rs_world s' = pending_answers (\<lambda>_. True) 4 ts"
    using P [of 4 "\<lambda>_. True"] I(5,6) sub [of "rs_world s"] by (cases "rt_phase t") (auto simp: s'_def split: option.splits)
  show "rs_world s' < usize_mod" using W P [of 4 "\<lambda>_. True"] I(5,6) by simp
  have le: "pending_answers C 3 (rs_tasks s) < usize_mod" for C
    using pending_answers_mono [of 3 4 C "\<lambda>_. True" "rs_tasks s"] I(5,6) by simp
  show "rs_teams s' ! k = pending_answers (\<lambda>r. rh_team (rs_reqs s ! r) = k) 3 ts" if k: "k < length (rs_teams s)" for k
    using P [of 3 "\<lambda>r. rh_team (rs_reqs s ! r) = k"] I(7) [OF k] k sub le [of "\<lambda>r. rh_team (rs_reqs s ! r) = k"] q
    by (cases "rt_phase t"; cases "rh_team q = k") (auto simp: s'_def split: option.splits)
  show "rs_tgs s' ! g = pending_answers (\<lambda>r. rh_tg (rs_reqs s ! r) = Some g) 5 ts \<and> rs_tgs s' ! g < usize_mod" if g: "g < length (rs_tgs s)" for g
    using P [of 5 "\<lambda>r. rh_tg (rs_reqs s ! r) = Some g"] I(8,9) [OF g] g sub q
    by (cases "rt_phase t"; cases "rh_tg q = Some g") (auto simp: s'_def split: option.splits)
qed

lemma update_counters_fields [simp]:
  "rs_reqs (update_counters p q s) = rs_reqs s" "rs_tasks (update_counters p q s) = rs_tasks s"
  "rs_got (update_counters p q s) = rs_got s" "length (rs_teams (update_counters p q s)) = length (rs_teams s)" "length (rs_tgs (update_counters p q s)) = length (rs_tgs s)"
  by (cases p; simp split: option.splits)+

lemma result_step_ok:
  assumes inv: "req_inv s" and i: "i < length (rs_tasks s)"
  shows "\<exists>s'. result_exec i s = Ret s' \<and> req_inv s'"
proof -
  define t q where "t = rs_tasks s ! i" and "q = rs_reqs s ! rt_req t"
  note I = req_inv_parts [OF inv]
  have r: "rt_req t < length (rs_reqs s)" using I(1) i by (simp add: t_def)
  obtain j where j: "j < length (req_tasks s (rt_req t))" "req_tasks s (rt_req t) ! j = t"
    and upd: "\<forall>x. rt_req x = rt_req t \<longrightarrow> filter (\<lambda>u. rt_req u = rt_req t) ((rs_tasks s)[i := x]) = (req_tasks s (rt_req t))[j := x]"
    using filter_update_pos [OF i, of "\<lambda>u. rt_req u = rt_req t"] unfolding req_tasks_def t_def by blast
  obtain q' p where a: "add_result (rt_phase t) (rt_pe t) q = Ret (q', p)"
    and ok: "handle_ok (rh_result q) (rh_user_handle q) (rt_req t \<in> set (rs_got s)) ((req_tasks s (rt_req t))[j := t\<lparr>rt_phase := p\<rparr>]) (rh_handle q')"
    and q': "q' = q\<lparr>rh_handle := rh_handle q'\<rparr>" and p: "\<forall>k. k = 3 \<or> k = 4 \<or> k = 5 \<longrightarrow> (phase_no p \<le> k \<longleftrightarrow> phase_no (rt_phase t) < k)"
    using add_result_ok [OF I(2) [OF r, folded q_def] j] by blast
  define u where "u = (update_counters (rt_phase t) q s)\<lparr>rs_reqs := (rs_reqs s)[rt_req t := q'], rs_tasks := (rs_tasks s)[i := t\<lparr>rt_phase := p\<rparr>]\<rparr>"
  note C = counters_result [OF inv i t_def q_def p]
  have q'_fields: "rh_result q' = rh_result q" "rh_user_handle q' = rh_user_handle q" "rh_team q' = rh_team q" "rh_tg q' = rh_tg q"
    by (subst q', simp)+
  have same: "rh_team (rs_reqs u ! x) = rh_team (rs_reqs s ! x)" "rh_tg (rs_reqs u ! x) = rh_tg (rs_reqs s ! x)" for x
    using q'_fields r by (auto simp: u_def q_def nth_list_update)
  have "rt_req x < length (rs_reqs u)" if "x \<in> set (rs_tasks u)" for x
    using set_update_subset_insert [THEN subsetD, OF that [unfolded u_def, simplified]] I(1) r by (auto simp: u_def)
  moreover have "handle_ok (rh_result (rs_reqs u ! x)) (rh_user_handle (rs_reqs u ! x)) (x \<in> set (rs_got u)) (req_tasks u x) (rh_handle (rs_reqs u ! x))"
    if x: "x < length (rs_reqs u)" for x
  proof (cases "x = rt_req t")
    case True
    then have "req_tasks u x = (req_tasks s (rt_req t))[j := t\<lparr>rt_phase := p\<rparr>]" using upd by (simp add: req_tasks_def u_def)
    then show ?thesis using ok q'_fields True r by (simp add: u_def)
  next
    case False
    then have "req_tasks u x = req_tasks s x" unfolding req_tasks_def u_def by (simp add: t_def [symmetric]) (rule filter_update_neg, simp_all add: t_def [symmetric])
    then show ?thesis using I(2) x False by (simp add: u_def)
  qed
  moreover have "rh_team (rs_reqs u ! x) < length (rs_teams u)" "rh_tg (rs_reqs u ! x) = Some g \<Longrightarrow> g < length (rs_tgs u)" if "x < length (rs_reqs u)" for x g
    using I(3,4) that unfolding same by (auto simp: u_def)
  moreover have "rs_world u = pending_answers (\<lambda>_. True) 4 (rs_tasks u)" "rs_world u < usize_mod"
    "k < length (rs_teams u) \<Longrightarrow> rs_teams u ! k = pending_answers (\<lambda>r. rh_team (rs_reqs s ! r) = k) 3 (rs_tasks u)"
    "g < length (rs_tgs u) \<Longrightarrow> rs_tgs u ! g = pending_answers (\<lambda>r. rh_tg (rs_reqs s ! r) = Some g) 5 (rs_tasks u) \<and> rs_tgs u ! g < usize_mod" for k g
    using C(1,2) C(3) [of k] C(4) [of g] by (auto simp: u_def)
  moreover have "set (rs_got u) \<subseteq> {..<length (rs_reqs u)}" using I(10) by (simp add: u_def)
  ultimately have "req_inv u" unfolding req_inv_def same by blast
  moreover have "result_exec i s = Ret u" using a by (simp add: result_exec_def t_def q_def u_def Let_def)
  ultimately show ?thesis by blast
qed

lemma submit_ok:
  assumes inv: "req_inv s" and fit: "counters_fit team tg (length pes) s"
    and h: "handle_ok res True False (map (\<lambda>pe. \<lparr>rt_req = length (rs_reqs s), rt_pe = pe, rt_phase = Arrived\<rparr>) pes) h"
  shows "req_inv (submit team tg h res pes s)"
proof -
  define n r new u where "n = length pes" and "r = length (rs_reqs s)"
    and "new = map (\<lambda>pe. \<lparr>rt_req = r, rt_pe = pe, rt_phase = Arrived\<rparr>) pes" and "u = submit team tg h res pes s"
  note I = req_inv_parts [OF inv]
  have fit': "team < length (rs_teams s)" "rs_world s + n < usize_mod" "\<And>g. tg = Some g \<Longrightarrow> g < length (rs_tgs s) \<and> rs_tgs s ! g + n < usize_mod"
    using fit by (auto simp: counters_fit_def n_def)
  have tasks: "rs_tasks u = rs_tasks s @ new" and reqs: "rs_reqs u = rs_reqs s @ [\<lparr>rh_handle = h, rh_user_handle = True, rh_result = res, rh_team = team, rh_tg = tg\<rparr>]"
    and got: "rs_got u = rs_got s" "r \<notin> set (rs_got s)"
    using I(10) by (auto simp: u_def submit_def Let_def new_def r_def)
  have pend_new: "pending_answers C k new = (if C r then n else 0)" for C k by (auto simp: pending_answers_def new_def n_def)
  have old: "pending_answers (\<lambda>x. D (rs_reqs u ! x)) k (rs_tasks s) = pending_answers (\<lambda>x. D (rs_reqs s ! x)) k (rs_tasks s)" for D k
    by (rule pending_answers_cong) (simp add: reqs nth_append I(1))
  have last: "rs_reqs u ! r = \<lparr>rh_handle = h, rh_user_handle = True, rh_result = res, rh_team = team, rh_tg = tg\<rparr>" by (simp add: reqs r_def)
  have teams_le: "rs_teams s ! k \<le> rs_world s" if "k < length (rs_teams s)" for k
    unfolding I(5) I(7) [OF that] by (rule pending_answers_mono) simp_all
  have "rt_req t < length (rs_reqs u)" if "t \<in> set (rs_tasks u)" for t
    using that I(1) by (auto simp: tasks reqs new_def r_def intro: less_SucI)
  moreover have "handle_ok (rh_result (rs_reqs u ! x)) (rh_user_handle (rs_reqs u ! x)) (x \<in> set (rs_got u)) (req_tasks u x) (rh_handle (rs_reqs u ! x))"
    if x: "x < length (rs_reqs u)" for x
  proof (cases "x = r")
    case True
    have "filter (\<lambda>t. rt_req t = r) (rs_tasks s) = []" using I(1) by (fastforce simp: r_def filter_empty_conv)
    moreover have "filter (\<lambda>t. rt_req t = r) new = new" by (auto simp: new_def filter_id_conv)
    ultimately have "req_tasks u x = new" by (simp add: req_tasks_def tasks True)
    then show ?thesis using h last True got by (simp add: new_def r_def)
  next
    case False
    have "filter (\<lambda>t. rt_req t = x) new = []" using False by (auto simp: new_def filter_empty_conv)
    then show ?thesis using I(2) x False by (simp add: req_tasks_def tasks reqs got r_def nth_append)
  qed
  moreover have "rh_team (rs_reqs u ! x) < length (rs_teams u) \<and> (\<forall>g. rh_tg (rs_reqs u ! x) = Some g \<longrightarrow> g < length (rs_tgs u))" if "x < length (rs_reqs u)" for x
    using I(3,4) that fit' by (auto simp: u_def submit_def Let_def nth_append split: option.splits)
  moreover have "rs_world u = pending_answers (\<lambda>_. True) 4 (rs_tasks u)" "rs_world u < usize_mod"
    using I(5) fit'(2) by (simp_all add: tasks pending_answers_append pend_new) (simp_all add: u_def submit_def Let_def n_def)
  moreover have "rs_teams u ! k = pending_answers (\<lambda>x. rh_team (rs_reqs u ! x) = k) 3 (rs_tasks u)" if "k < length (rs_teams u)" for k
  proof -
    have k: "k < length (rs_teams s)" using that by (simp add: u_def submit_def Let_def)
    have "rs_teams u ! k = rs_teams s ! k + (if team = k then n else 0)"
      using k teams_le [OF k] fit'(2) by (auto simp: u_def submit_def Let_def n_def nth_list_update)
    then show ?thesis using I(7) [OF k] old [of "\<lambda>q. rh_team q = k" 3] by (simp add: tasks pending_answers_append pend_new last)
  qed
  moreover have "rs_tgs u ! g = pending_answers (\<lambda>x. rh_tg (rs_reqs u ! x) = Some g) 5 (rs_tasks u) \<and> rs_tgs u ! g < usize_mod" if "g < length (rs_tgs u)" for g
  proof -
    have g: "g < length (rs_tgs s)" using that by (simp add: u_def submit_def Let_def split: option.splits)
    have "rs_tgs u ! g = rs_tgs s ! g + (if tg = Some g then n else 0)" "rs_tgs u ! g < usize_mod"
      using g fit'(3) I(9) by (auto simp: u_def submit_def Let_def n_def nth_list_update split: option.splits)
    then show ?thesis using I(8) [OF g] old [of "\<lambda>q. rh_tg q = Some g" 5] by (simp add: tasks pending_answers_append pend_new last)
  qed
  moreover have "set (rs_got u) \<subseteq> {..<length (rs_reqs u)}" using I(10) by (auto simp: got reqs intro: less_SucI)
  ultimately show ?thesis unfolding req_inv_def u_def [symmetric] by blast
qed

lemma drop_ok:
  assumes inv: "req_inv s" and r: "r < length (rs_reqs s)"
  shows "req_inv (s\<lparr>rs_reqs := (rs_reqs s)[r := (rs_reqs s ! r)\<lparr>rh_user_handle := False\<rparr>]\<rparr>)"
proof -
  let ?u = "s\<lparr>rs_reqs := (rs_reqs s)[r := (rs_reqs s ! r)\<lparr>rh_user_handle := False\<rparr>]\<rparr>"
  note I = req_inv_parts [OF inv]
  have same: "rh_team (rs_reqs ?u ! x) = rh_team (rs_reqs s ! x)" "rh_tg (rs_reqs ?u ! x) = rh_tg (rs_reqs s ! x)" for x
    using r by (auto simp: nth_list_update)
  have "handle_ok (rh_result (rs_reqs ?u ! x)) (rh_user_handle (rs_reqs ?u ! x)) (x \<in> set (rs_got ?u)) (req_tasks ?u x) (rh_handle (rs_reqs ?u ! x))" if "x < length (rs_reqs ?u)" for x
    using I(2) [of x] that r handle_ok_held by (auto simp: req_tasks_def nth_list_update)
  then show ?thesis using I unfolding req_inv_def same by simp
qed

lemma remove_all_upt:
  assumes "distinct ps" "\<And>p. p \<in> set ps \<Longrightarrow> map_of data p = Some (f p)"
  shows "remove_all ps data = Ret (map f ps, filter (\<lambda>x. fst x \<notin> set ps) data)"
  using assms
proof (induction ps arbitrary: data)
  case (Cons p ps)
  have "remove_all ps (AList.delete p data) = Ret (map f ps, filter (\<lambda>x. fst x \<notin> set ps) (AList.delete p data))"
    by (rule Cons.IH) (use Cons.prems in \<open>auto simp: delete_conv'\<close>)
  moreover have "filter (\<lambda>x. fst x \<notin> set ps) (AList.delete p data) = filter (\<lambda>x. fst x \<notin> set (p # ps)) data"
    by (simp add: AList.delete_eq split_beta) (metis (mono_tags, lifting) filter_cong)
  ultimately show ?case using Cons.prems(2) [of p] by simp
qed simp

text \<open>What a complete handle holds, and what \<open>get\<close> leaves of it.\<close>

fun all_results :: "(nat \<Rightarrow> 'd internal_result) \<Rightarrow> nat list \<Rightarrow> 'd handle \<Rightarrow> 'd internal_result list" where
  "all_results res pes (Single loc ready data) = map res pes"
| "all_results res pes (Multi cnt arch data) = map (\<lambda>p. res (projr (world_pe arch p))) [0..<rt_num_pes arch]"

fun emptied :: "'d handle \<Rightarrow> 'd handle" where
  "emptied (Single loc ready data) = Single loc ready None"
| "emptied (Multi cnt arch data) = Multi cnt arch []"

lemma handle_get_ok:
  assumes ok: "handle_ok res True False ts h"
  shows "(\<exists>t \<in> set ts. phase_no (rt_phase t) \<le> 2) \<and> handle_get h = None
    \<or> (\<forall>t \<in> set ts. 3 \<le> phase_no (rt_phase t)) \<and> handle_get h = Some (Ret (all_results res (map rt_pe ts) h, emptied h))"
proof (cases h)
  case (Single loc ready data)
  then show ?thesis using ok by (auto simp: not_le)
next
  case (Multi cnt arch data)
  show ?thesis
  proof (cases "open_answers ts = 0")
    case True
    have wf: "rt_wf arch" and pes: "map rt_pe ts = iter_collect (team_iter arch)" and cnt: "cnt = 0" using ok Multi True by simp_all
    have dom: "p \<in> dom (map_of data)" if p: "p < rt_num_pes arch" for p
    proof -
      obtain w where w: "world_pe arch p = Inr w" "team_pe arch w = Ret (Inr p)" using rt_ids.id_space_roundtrip [OF wf p] by blast
      then have "w \<in> set (map rt_pe ts)" using team_iter_members [OF wf] unfolding pes by blast
      then obtain t where "t \<in> set ts" "rt_pe t = w" by auto
      then show ?thesis using ok Multi w(2) True by (auto simp: open_answers_0 stored_def)
    qed
    have data: "map_of data p = Some (res (projr (world_pe arch p)))" if p: "p < rt_num_pes arch" for p
      using dom [OF p] ok Multi by (auto dest: map_of_SomeD)
    have keys: "set (map fst data) = {0..<rt_num_pes arch}" using dom ok Multi by (fastforce simp: dom_map_of_conv_image_fst)
    then have len: "length data = rt_num_pes arch" using ok Multi by (metis card_atLeastLessThan diff_zero distinct_card handle_ok.simps(2) length_map)
    have "filter (\<lambda>x. fst x \<notin> set [0..<rt_num_pes arch]) data = []" using keys by (force simp: filter_empty_conv)
    then have "remove_all [0..<length data] data = Ret (map (\<lambda>p. res (projr (world_pe arch p))) [0..<rt_num_pes arch], [])"
      using remove_all_upt [of "[0..<rt_num_pes arch]" data "\<lambda>p. res (projr (world_pe arch p))"] data unfolding len by simp
    then show ?thesis using Multi cnt True by (simp add: open_answers_0)
  next
    case False
    then obtain t where "t \<in> set ts" "\<not> 3 \<le> phase_no (rt_phase t)" by (auto simp: open_answers_0)
    then have "\<exists>t \<in> set ts. phase_no (rt_phase t) \<le> 2" by (intro bexI [of _ t]) simp_all
    moreover have "0 < cnt" using False ok Multi by simp
    ultimately show ?thesis using Multi by simp
  qed
qed

lemma handle_get_again:
  assumes "handle_ok res held True ts h"
  shows "handle_get h = Some (case h of Single loc ready data \<Rightarrow> Panic UnwrapNone | Multi cnt arch data \<Rightarrow> Ret ([], h))"
  using assms by (cases h) auto

lemma handle_ok_emptied:
  assumes "handle_ok res held taken ts h" "\<forall>t \<in> set ts. 3 \<le> phase_no (rt_phase t)" held
  shows "handle_ok res held True ts (emptied h)"
proof (cases h)
  case (Multi cnt arch data)
  have "open_answers ts = 0" using assms(2) by (simp add: open_answers_0)
  then show ?thesis using assms Multi by simp
qed (use assms in auto)

lemma get_ok:
  assumes inv: "req_inv s" and r: "r < length (rs_reqs s)" "rh_user_handle (rs_reqs s ! r)"
    and get: "handle_get (rh_handle (rs_reqs s ! r)) = Some (Ret (xs, h))"
  shows "req_inv (s\<lparr>rs_reqs := (rs_reqs s)[r := (rs_reqs s ! r)\<lparr>rh_handle := h\<rparr>], rs_got := r # rs_got s\<rparr>)"
proof -
  define u where "u = s\<lparr>rs_reqs := (rs_reqs s)[r := (rs_reqs s ! r)\<lparr>rh_handle := h\<rparr>], rs_got := r # rs_got s\<rparr>"
  let ?q = "rs_reqs s ! r"
  note I = req_inv_parts [OF inv]
  have same: "rh_team (rs_reqs u ! x) = rh_team (rs_reqs s ! x)" "rh_tg (rs_reqs u ! x) = rh_tg (rs_reqs s ! x)" for x
    using r by (auto simp: u_def nth_list_update)
  have h: "handle_ok (rh_result ?q) (rh_user_handle ?q) True (req_tasks s r) h"
  proof (cases "r \<in> set (rs_got s)")
    case True
    with I(2) [OF r(1)] have taken: "handle_ok (rh_result ?q) (rh_user_handle ?q) True (req_tasks s r) (rh_handle ?q)" by simp
    then have "h = rh_handle ?q" using handle_get_again [OF taken] get by (cases "rh_handle ?q") auto
    with taken show ?thesis by simp
  next
    case False
    with I(2) [OF r(1)] r(2) have ok: "handle_ok (rh_result ?q) True False (req_tasks s r) (rh_handle ?q)" by simp
    from handle_get_ok [OF ok] get have "\<forall>t \<in> set (req_tasks s r). 3 \<le> phase_no (rt_phase t)" "h = emptied (rh_handle ?q)" by auto
    with handle_ok_emptied [OF ok] r(2) show ?thesis by simp
  qed
  have "handle_ok (rh_result (rs_reqs u ! x)) (rh_user_handle (rs_reqs u ! x)) (x \<in> set (rs_got u)) (req_tasks u x) (rh_handle (rs_reqs u ! x))"
    if "x < length (rs_reqs u)" for x
    using I(2) [of x] that r h by (cases "x = r") (auto simp: u_def req_tasks_def)
  then have "req_inv u" using I unfolding req_inv_def same using r(1) by (auto simp: u_def)
  then show ?thesis by (simp add: u_def)
qed

lemma req_step_inv:
  assumes "req_inv s" "req_step s u"
  shows "req_inv u"
  using assms(2)
proof cases
  case (all arch team tg res)
  note T = team_iter_members [OF all(2)]
  have n: "length (iter_collect (team_iter arch)) = rt_num_pes arch" using T by simp
  let ?new = "map (\<lambda>pe. \<lparr>rt_req = length (rs_reqs s), rt_pe = pe, rt_phase = Arrived\<rparr>) (iter_collect (team_iter arch))"
  have "open_answers ?new = rt_num_pes arch" by (simp add: open_answers_def n o_def)
  then have h: "handle_ok res True False ?new (Multi (rt_num_pes arch) arch [])" using all(2,3) by (simp add: counters_fit_def stored_def o_def)
  have "counters_fit team tg (length (iter_collect (team_iter arch))) s" using all(3) by (simp only: n)
  from submit_ok [OF assms(1) this h] show ?thesis unfolding all(1) exec_am_all_tg_def .
next
  case (pe arch team tg res pe)
  then obtain w where "u = submit team tg (Single False False None) res [w] s" by (auto simp: exec_am_pe_tg_def split: if_splits sum.splits)
  then show ?thesis using submit_ok [OF assms(1), of team tg "[w]" res] pe(2) by (simp add: stored_def)
next
  case (loc team tg res me)
  then show ?thesis using submit_ok [OF assms(1), of team tg "[me]" res "Single True False None"] by (simp add: exec_am_local_tg_def stored_def)
next
  case (drop r)
  then show ?thesis using drop_ok [OF assms(1)] by simp
next
  case (get r xs h)
  then show ?thesis using get_ok [OF assms(1)] by simp
next
  case (result i)
  then show ?thesis using result_step_ok [OF assms(1), of i] by auto
qed

lemma req_reach_inv:
  assumes "req_step\<^sup>*\<^sup>* (req_init n_teams n_tgs) s"
  shows "req_inv s"
  using assms
proof (induction rule: rtranclp_induct)
  case base
  show ?case by (simp add: req_inv_def req_init_def pending_answers_def usize_mod_def)
qed (rule req_step_inv)

section \<open>Answers\<close>

lemma pending_answers_0: "pending_answers C k ts = 0 \<Longrightarrow> t \<in> set ts \<Longrightarrow> C (rt_req t) \<Longrightarrow> k < phase_no (rt_phase t)"
  by (auto simp: pending_answers_def filter_empty_conv)


section \<open>Witness\<close>

text \<open>A local request in a task group, while its answer is delivered.\<close>

definition ex_requests :: "nat \<Rightarrow> nat \<Rightarrow> nat \<Rightarrow> bool \<Rightarrow> string internal_result option \<Rightarrow> phase \<Rightarrow> nat list \<Rightarrow> string req_state" where
  "ex_requests team world tg ready data p got = \<lparr>rs_teams = [team], rs_world = world, rs_tgs = [tg],
     rs_reqs = [\<lparr>rh_handle = Single True ready data, rh_user_handle = True, rh_result = \<lambda>_. ResLocal ''x'', rh_team = 0, rh_tg = Some 0\<rparr>],
     rs_tasks = [\<lparr>rt_req = 0, rt_pe = 2, rt_phase = p\<rparr>], rs_got = got\<rparr>"

lemma ex_result_step:
  "result_exec 0 (ex_requests a b c ready data p []) = Ret s \<Longrightarrow> p \<noteq> Delivered \<Longrightarrow> req_step (ex_requests a b c ready data p []) s"
  using req_step.result [of 0 "ex_requests a b c ready data p []" s] by (simp add: ex_requests_def)

lemma ex_delivered: "req_step\<^sup>*\<^sup>* (req_init 1 1) (ex_requests 0 0 0 True (Some (ResLocal ''x'')) Delivered [])"
proof -
  have sub: "fetch_sub_usize 1 1 = 0" by (rule fetch_sub_usize_ok [THEN trans]) (simp_all add: usize_mod_def)
  note eval = result_exec_def ex_requests_def Let_def sub
  have "exec_am_local_tg 0 (Some 0) 2 (\<lambda>_. ResLocal ''x'') (req_init 1 1) = ex_requests 1 1 1 False None Arrived []"
    by (simp add: exec_am_local_tg_def submit_def req_init_def ex_requests_def Let_def usize_mod_def)
  then have "req_step (req_init 1 1) (ex_requests 1 1 1 False None Arrived [])"
    using req_step.loc [of 0 "Some 0" "req_init 1 1" "\<lambda>_. ResLocal ''x''" 2] by (simp add: counters_fit_def req_init_def usize_mod_def)
  moreover have "req_step (ex_requests 1 1 1 False None Arrived []) (ex_requests 1 1 1 False None Insert [])" by (rule ex_result_step) (simp_all add: eval)
  moreover have "req_step (ex_requests 1 1 1 False None Insert []) (ex_requests 1 1 1 False (Some (ResLocal ''x'')) Finish [])" by (rule ex_result_step) (simp_all add: eval)
  moreover have "req_step (ex_requests 1 1 1 False (Some (ResLocal ''x'')) Finish []) (ex_requests 1 1 1 True (Some (ResLocal ''x'')) SubTeam [])"
    by (rule ex_result_step) (simp_all add: eval)
  moreover have "req_step (ex_requests 1 1 1 True (Some (ResLocal ''x'')) SubTeam []) (ex_requests 0 1 1 True (Some (ResLocal ''x'')) SubWorld [])"
    by (rule ex_result_step) (use sub in \<open>simp_all add: eval\<close>)
  moreover have "req_step (ex_requests 0 1 1 True (Some (ResLocal ''x'')) SubWorld []) (ex_requests 0 0 1 True (Some (ResLocal ''x'')) SubTg [])"
    by (rule ex_result_step) (use sub in \<open>simp_all add: eval\<close>)
  moreover have "req_step (ex_requests 0 0 1 True (Some (ResLocal ''x'')) SubTg []) (ex_requests 0 0 0 True (Some (ResLocal ''x'')) Delivered [])"
    by (rule ex_result_step) (use sub in \<open>simp_all add: eval\<close>)
  ultimately show ?thesis by (meson converse_rtranclp_into_rtranclp rtranclp.rtrancl_refl)
qed

text \<open>After the delivery the first \<open>get\<close> returns the answer, and a second one panics.\<close>

lemma ex_got_reach: "req_step\<^sup>*\<^sup>* (req_init 1 1) (ex_requests 0 0 0 True None Delivered [0])"
proof -
  let ?s = "ex_requests 0 0 0 True (Some (ResLocal ''x'')) Delivered []"
  have "req_step ?s (ex_requests 0 0 0 True None Delivered [0])"
    using req_step.get [of 0 ?s "[ResLocal ''x'']" "Single True True None"] by (simp add: ex_requests_def)
  with ex_delivered show ?thesis by (rule rtranclp.rtrancl_into_rtrancl)
qed


end
