(* ===== verification/Spec2Isabelle.thy ===== *)
theory Spec2Isabelle
  imports Lamellar_Arch Alloc_Linear Alloc_BTree Alloc_Obj Array_Layout Iter_Schedule Barrier Dist_RwLock Array_Transfer Iter_OneSided Array_Op_Results Darc_Quiescence Cmd_Delivery Am_Dispatch Am_Requests
begin

text \<open>
  \<^bold>\<open>Verification of the Lamellar runtime.\<close>

  Lamellar is a runtime for parallel programs on several processing elements (PEs) of a cluster, written in Rust.
  A program runs on every PE of a \<^emph>\<open>world\<close>; \<^emph>\<open>teams\<close> are subsets of it with their own numbering.  PEs interact by
  active messages and by one-sided access to registered memory, which allocators hand out.  On these rest
  barriers, distributed reference counters (darcs), a global read-write lock, distributed arrays with bulk
  transfers, and iterators over arrays that worker threads run by a schedule.

  All paths below are under \<open>src/src\<close>.

  \<^bold>\<open>Conventions\<close> (\<open>Lamellar_Prelude\<close>).  Pure code is a function; code that may panic returns \<open>'a exec\<close>; \<open>Option\<close> and
  \<open>Result\<close> are \<open>option\<close> and sums.  A \<open>usize\<close> is a natural number; a subtraction or division whose failure is reachable
  is checked, an atomic \<open>fetch_sub\<close> writes its wrap-around out, and sums of sizes and addresses stay
  below \<open>2 ^ 64\<close>.  Where an order of events matters the model is a step relation, one step for each operation on shared
  memory, and theorems quantify over all executions.  \<open>Transition_Systems\<close> holds the contract, a locale, from which
  termination and the absence of deadlocks follow; the schedules, the barrier, the lock, the batches and the
  command queue are its instances.

  \<^bold>\<open>Teams\<close> (\<open>Lamellar_Arch\<close>; \<open>lamellar_arch.rs\<close>).  Global, strided and blocked architectures are instances of an
  interface, a locale of maps between team and parent ids; nested architectures compose them.  World and team ids
  are inverse to each other at every depth, the iterators enumerate the members, and construction checks its arguments.

  \<^bold>\<open>Allocators\<close> (\<open>Alloc_Interface\<close>, \<open>Tiling\<close>, \<open>BTree_Map\<close>, \<open>Alloc_Linear\<close>, \<open>Alloc_BTree\<close>, \<open>Alloc_Obj\<close>;
  \<open>lamellar_alloc.rs\<close>).  The interface is a locale with the laws of \<open>try_malloc\<close> and \<open>free\<close>; in every run of
  requests the live regions are disjoint, aligned and inside the arena.  \<open>LinearAlloc\<close> and \<open>BTreeAlloc\<close> are
  its interpretations, \<open>ObjAlloc\<close> is shown to conserve its slots.  The search loops are shown to end.  The order in which the
  third-party \<open>IndexSet\<close> yields free addresses is a parameter.

  \<^bold>\<open>Array layout\<close> (\<open>F64\<close>, \<open>Distribution\<close>, \<open>Block_Layout\<close>, \<open>Array_Layout\<close>; \<open>array/unsafe.rs\<close>).  The boundaries of
  blocks are computed in \<open>f64\<close>, so that the model rounds to 53 bits as IEEE 754 does; the theorems hold for
  arrays below \<open>2 ^ 52\<close> elements, where these roundings are shown to be harmless.  Indexing is a
  bijection between the indices of a (sub-)array and the pairs of a PE and a local place, for both distributions.

  \<^bold>\<open>Iterators\<close> (\<open>Iter_Traits\<close>, \<open>Iter_Dist\<close>, \<open>Iter_Local\<close>, \<open>Iter_Schedule\<close>; \<open>array/iterator\<close>, \<open>array/unsafe/iteration\<close>).  A
  trait implementation is a record of its methods; each adapter maps one record to another.  The schedules are
  step relations of the worker threads; they visit every local element exactly once, except for the
  chunked one when a chunk has no items.

  \<^bold>\<open>Barrier\<close> (\<open>Barrier\<close>; \<open>barrier.rs\<close>).  The dissemination barrier of any factor above 1 separates and never
  deadlocks.  \<open>f64::log2\<close> is a parameter with a bounded relative error.

  \<^bold>\<open>Global lock\<close> (\<open>Dist_RwLock\<close>; \<open>darc/global_rw_darc.rs\<close>).  Readers, writers and collective writers exclude each other;
  without collective requests every request is granted; the collective protocol can deadlock.

  \<^bold>\<open>Reference counting\<close> (\<open>Darc\<close>, \<open>Darc_Modes\<close>, \<open>Darc_Quiescence\<close>; \<open>darc.rs\<close>).  The references, calls and messages of a
  darc are tasks on the counters of all PEs.  The counters are exact in every execution.  The collective
  \<open>block_on_outstanding\<close> detects that no reference is left, on which the changes of mode rely; it fails when the
  counting of a received reference is interrupted, and garbage collection uses it with a bound that is
  off by one, so that memory can be freed under a live reference.

  \<^bold>\<open>Transfers\<close> (\<open>Array_Rdma\<close>, \<open>Array_Transfer\<close>; \<open>array/unsafe/rdma.rs\<close>, \<open>memregion.rs\<close>).  The abstract array is one list.  A put,
  made of active messages that run in any order, refines the assignment of a section of that list, and a get returns a section.

  \<^bold>\<open>One-sided iterators\<close> (\<open>Iter_OneSided\<close>; \<open>array/iterator/one_sided_iterator\<close>).  One PE goes through an array with a buffer that it fills by gets.  The
  contract of an iterator, and of one that can be advanced, are locales; iterators over elements fulfil the first, chunks both.  Advancing an
  iterator over elements by more than its buffer reads outside of it.

  \<^bold>\<open>Element-wise operations\<close> (\<open>Array_Ops\<close>, \<open>Array_Batches\<close>, \<open>Array_Op_Results\<close>; \<open>array/operations\<close>, \<open>array/unsafe/operations.rs\<close>, and the
  generated operations of \<open>impl/src/array_ops.rs\<close>).  The commands and their effect on an element, the three ways to make messages of a batch of
  operations, and the results.  The messages, executed in any order, refine the operations on the abstract list; every
  method starts a command of its own return type; inputs of mixed kinds can block for ever.

  \<^bold>\<open>Active messages\<close> (\<open>Am_Wire\<close>, \<open>Am_Team_Batches\<close>, \<open>Am_Flush\<close>, \<open>Am_Dispatch\<close>; \<open>active_messaging\<close>).  \<open>Am_Wire\<close> and \<open>Am_Team_Batches\<close> write and read
  the batches of the two batchers, byte by byte, over a codec that is a parameter with the laws of \<open>wire_ok\<close>; what was written is read
  back, in order or, when hash maps sort it, up to order.  \<open>Am_Flush\<close> is the protocol that decides when a batch is transmitted: every message
  is transmitted once.  \<open>Am_Dispatch\<close> is \<open>process_msg\<close>, the messages that are not batched, their receivers and the answers; a batch of
  messages for several teams goes to the team of the first one only.

  \<^bold>\<open>Requests\<close> (\<open>Am_Requests\<close>; \<open>lamellar_request.rs\<close>, the calls of \<open>lamellar_team.rs\<close> that make requests).  Answers are delivered to handles and counted for the
  team, the world and a task group.  When one of the counters of a request is zero its handle holds all answers, in the order of the team.

  \<^bold>\<open>Command queue\<close> (\<open>Multiset_Lists\<close>, \<open>Cmd_Queue\<close>, \<open>Cmd_Channel\<close>, \<open>Cmd_Sender\<close>, \<open>Cmd_Tasks\<close>, \<open>Cmd_Runs\<close>, \<open>Cmd_Delivery\<close>;
  \<open>lamellae/command_queues.rs\<close>).  The channel from one PE to another: the slots, buffers and tasks of both sides, one step for each critical section or
  remote copy.  A message is in exactly one place until it is delivered once, no operation panics, all work ends, and when it has
  ended every message was delivered and every buffer released.  The hash of a command makes a torn copy harmless.  A spurious
  failure of the exchange that elects the waiting task, and a \<open>Print\<close> command, stop the queue.

  \<^bold>\<open>Fuel and bounds.\<close>  No function has fuel.  Loops are recursive with a termination proof, and executions of
  step relations that have to end do so within a stated number of steps.  The loops that read a batch and run local active messages may not
  end for arbitrary input and return an option; that they return is proved for what the batchers write.

  \<^bold>\<open>Not modelled.\<close>  The bindings to network libraries and shared memory (\<open>lamellae/rofi\<close>, \<open>lamellae/shmem\<close>), the thread pools
  (\<open>scheduler\<close>), which poll futures, the registration of active messages and their generated code, the darcs inside a message, task groups, the creation of the world, the other procedural macros, and the wrapper types of arrays with their
  transfers.  They are glue over foreign code, or their logic lies in foreign code.  The consumers of
  iterators (\<open>for_each\<close>, \<open>reduce\<close>, \<open>collect\<close>) only launch active messages for the schedules that are modelled.
\<close>

end
